(* ===== verification/Prelude.thy ===== *)
theory Prelude
  imports Complex_Main "HOL-Library.Word" "HOL-Library.AList" "HOL-Library.Multiset"
begin

text \<open>
  Shared vocabulary of the development.

  \<^item> Python exceptions are values: every operation that can raise returns
    \<open>py_error + 'a\<close>, abbreviated \<open>'a result\<close>; \<open>rbind\<close> sequences such operations and
    \<open>rfold\<close> is a \<^verbatim>\<open>for\<close> loop whose body may raise.
  \<^item> \<open>Diverges\<close> is not an exception: it marks a loop that would not end.
  \<^item> A Python \<^verbatim>\<open>dict\<close> or \<^verbatim>\<open>OrderedDict\<close> is an association list in insertion
    order; \<^verbatim>\<open>d[k] = v\<close> is \<open>AList.update\<close> (an existing key keeps its position), \<^verbatim>\<open>del\<close> is
    \<open>AList.delete\<close>, \<^verbatim>\<open>d.get\<close> is \<open>map_of\<close>.
  \<^item> \<open>cdiv\<close> and its kin are \<^verbatim>\<open>vllm/utils/math_utils.py\<close>.
\<close>

named_theorems result_simps \<open>when a computation with exceptions returns a value\<close>
named_theorems odict_simps \<open>lookups after updates of ordered dictionaries\<close>

section \<open>Exceptions as values\<close>

datatype py_error =
    AssertionError
  | ValueError
  | RuntimeError
  | IndexError
  | KeyError
  | TypeError
  | AttributeError
  | OverflowError
  | NotImplementedError
  | ZeroDivisionError
  | StopIteration
  | Diverges

type_synonym 'a result = "py_error + 'a"

type_synonym bytes = "8 word list"

definition rbind :: "'a result \<Rightarrow> ('a \<Rightarrow> 'b result) \<Rightarrow> 'b result" where
  "rbind m f = (case m of Inl e \<Rightarrow> Inl e | Inr x \<Rightarrow> f x)"

definition rassert :: "bool \<Rightarrow> unit result" where
  "rassert b = (if b then Inr () else Inl AssertionError)"

fun rfold :: "('a \<Rightarrow> 's \<Rightarrow> 's result) \<Rightarrow> 'a list \<Rightarrow> 's \<Rightarrow> 's result" where
  "rfold f [] s = Inr s"
| "rfold f (x # xs) s = rbind (f x s) (rfold f xs)"

fun rmap :: "('a \<Rightarrow> 'b result) \<Rightarrow> 'a list \<Rightarrow> 'b list result" where
  "rmap f [] = Inr []"
| "rmap f (x # xs) = rbind (f x) (\<lambda>y. rbind (rmap f xs) (\<lambda>ys. Inr (y # ys)))"

section \<open>Ordered dictionaries\<close>

type_synonym ('k, 'v) odict = "('k \<times> 'v) list"

definition od_lookup :: "('k, 'v) odict \<Rightarrow> 'k \<Rightarrow> 'v result" where
  "od_lookup d k = (case map_of d k of None \<Rightarrow> Inl KeyError | Some v \<Rightarrow> Inr v)"

definition od_move_to_end :: "'k \<Rightarrow> ('k, 'v) odict \<Rightarrow> ('k, 'v) odict result" where
  "od_move_to_end k d =
     (case map_of d k of None \<Rightarrow> Inl KeyError | Some v \<Rightarrow> Inr (AList.delete k d @ [(k, v)]))"

definition od_wf :: "('k, 'v) odict \<Rightarrow> bool" where
  "od_wf d \<longleftrightarrow> distinct (map fst d)"

section \<open>Integer helpers of math_utils.py\<close>

definition cdiv :: "int \<Rightarrow> int \<Rightarrow> int" where
  "cdiv a b = - (a div (- b))"

definition round_up :: "int \<Rightarrow> int \<Rightarrow> int" where
  "round_up x y = ((x + y - 1) div y) * y"

definition round_down :: "int \<Rightarrow> int \<Rightarrow> int" where
  "round_down x y = (x div y) * y"

section \<open>Python list access\<close>

text \<open>Python slices \<^verbatim>\<open>xs[i:j]\<close> with non-negative bounds clamp to the list.\<close>

definition py_slice :: "'a list \<Rightarrow> nat \<Rightarrow> nat \<Rightarrow> 'a list" where
  "py_slice xs i j = take (j - i) (drop i xs)"

definition py_get :: "'a list \<Rightarrow> nat \<Rightarrow> 'a result" where
  "py_get xs i = (if i < length xs then Inr (xs ! i) else Inl IndexError)"

section \<open>Laws of the result type\<close>

lemma rbind_simps [simp]:
  "rbind (Inl e) f = Inl e"
  "rbind (Inr x) f = f x"
  by (simp_all add: rbind_def)

lemma rbind_eq_Inr_iff [result_simps]:
  "rbind m f = Inr y \<longleftrightarrow> (\<exists>x. m = Inr x \<and> f x = Inr y)"
  by (cases m) simp_all

lemma rbind_eq_Inl_iff [result_simps]:
  "rbind m f = Inl e \<longleftrightarrow> m = Inl e \<or> (\<exists>x. m = Inr x \<and> f x = Inl e)"
  by (cases m) auto

lemma rbind_cong [fundef_cong]:
  "m = m' \<Longrightarrow> (\<And>x. m' = Inr x \<Longrightarrow> f x = f' x) \<Longrightarrow> rbind m f = rbind m' f'"
  by (cases m') simp_all

lemma rbind_assoc: "rbind (rbind m f) g = rbind m (\<lambda>x. rbind (f x) g)"
  by (cases m) simp_all

lemma rassert_simps [simp]:
  "rassert True = Inr ()"
  "rassert False = Inl AssertionError"
  by (simp_all add: rassert_def)

lemma rassert_eq_Inr_iff [result_simps]: "rassert b = Inr u \<longleftrightarrow> b"
  by (simp add: rassert_def)

lemma rassert_eq_Inl_iff [result_simps]: "rassert b = Inl e \<longleftrightarrow> \<not> b \<and> e = AssertionError"
  by (auto simp: rassert_def)

lemma rfold_append: "rfold f (xs @ ys) s = rbind (rfold f xs s) (rfold f ys)"
proof (induction xs arbitrary: s)
  case (Cons x xs)
  then have "rfold f (xs @ ys) = (\<lambda>s. rbind (rfold f xs s) (rfold f ys))" by auto
  then show ?case by (simp add: rbind_assoc)
qed simp

text \<open>
  The loop rules: a body that keeps an invariant and does not raise under it gives a loop
  that does not raise; a loop that returned kept every invariant of its body.
\<close>

lemma rfold_total:
  assumes "\<And>x s. x \<in> set xs \<Longrightarrow> I s \<Longrightarrow> \<exists>s'. f x s = Inr s' \<and> I s'"
    and "I s"
  shows "\<exists>s'. rfold f xs s = Inr s' \<and> I s'"
  using assms
proof (induction xs arbitrary: s)
  case Nil
  then show ?case by simp
next
  case (Cons x xs)
  from Cons.prems(1) [of x s] Cons.prems(2) obtain t where "f x s = Inr t" "I t" by auto
  with Cons.IH [of t] Cons.prems(1) show ?case by auto
qed

lemma rfold_invariant:
  assumes "rfold f xs s = Inr s'"
    and "\<And>x s s'. x \<in> set xs \<Longrightarrow> I s \<Longrightarrow> f x s = Inr s' \<Longrightarrow> I s'"
    and "I s"
  shows "I s'"
  using assms
proof (induction xs arbitrary: s)
  case Nil
  then show ?case by simp
next
  case (Cons x xs)
  from Cons.prems(1) obtain t where t: "f x s = Inr t" "rfold f xs t = Inr s'"
    by (auto simp: result_simps)
  from Cons.prems(2) [of x s t] Cons.prems(3) t(1) have "I t" by simp
  with t(2) Cons.IH [of t] Cons.prems(2) show ?case by auto
qed

lemma map_sum_Inr_iff: "map_sum id f m = Inr y \<longleftrightarrow> (\<exists>x. m = Inr x \<and> f x = y)"
  by (cases m) auto

lemma rmap_Inr_iff [result_simps]:
  "rmap f xs = Inr ys \<longleftrightarrow> list_all2 (\<lambda>x y. f x = Inr y) xs ys"
  by (induction xs arbitrary: ys) (auto simp: result_simps list_all2_Cons1)

lemma rmap_length: "rmap f xs = Inr ys \<Longrightarrow> length ys = length xs"
  by (auto simp: result_simps dest: list_all2_lengthD)

section \<open>Laws of ordered dictionaries\<close>

lemma od_get_update [odict_simps]:
  "map_of (AList.update k v d) k' = (if k' = k then Some v else map_of d k')"
  by (simp add: update_conv')

lemma od_get_delete [odict_simps]:
  "map_of (AList.delete k d) k' = (if k' = k then None else map_of d k')"
  by (simp add: delete_conv')

lemma od_wf_update [simp]: "od_wf d \<Longrightarrow> od_wf (AList.update k v d)"
  by (simp add: od_wf_def distinct_update)

lemma od_wf_delete [simp]: "od_wf d \<Longrightarrow> od_wf (AList.delete k d)"
  by (simp add: od_wf_def distinct_delete)

lemma od_wf_Nil [simp]: "od_wf []"
  by (simp add: od_wf_def)

lemma od_lookup_eq_Inr [result_simps]: "od_lookup d k = Inr v \<longleftrightarrow> map_of d k = Some v"
  by (simp add: od_lookup_def split: option.splits)

lemma od_mem_iff: "od_wf d \<Longrightarrow> (k, v) \<in> set d \<longleftrightarrow> map_of d k = Some v"
  by (simp add: od_wf_def)

lemma length_delete_mem:
  "od_wf d \<Longrightarrow> map_of d k = Some v \<Longrightarrow> Suc (length (AList.delete k d)) = length d"
proof (induction d)
  case Nil
  then show ?case by simp
next
  case (Cons p d)
  show ?case
  proof (cases "fst p = k")
    case True
    with Cons.prems(1) have "k \<notin> fst ` set d" by (auto simp: od_wf_def)
    with True show ?thesis by (simp add: delete_idem)
  next
    case False
    with Cons show ?thesis by (auto simp: od_wf_def split: if_splits)
  qed
qed

lemma length_update_fresh: "map_of d k = None \<Longrightarrow> length (AList.update k v d) = Suc (length d)"
  by (induction d) (auto split: if_splits)

lemma update_fresh: "map_of d k = None \<Longrightarrow> AList.update k v d = d @ [(k, v)]"
  by (induction d) (auto split: if_splits)

lemma sum_update:
  fixes f :: "'k \<times> 'v \<Rightarrow> nat"
  assumes "od_wf d"
  shows "sum_list (map f (AList.update k v d)) + (case map_of d k of None \<Rightarrow> 0 | Some w \<Rightarrow> f (k, w)) = sum_list (map f d) + f (k, v)"
  using assms
proof (induction d)
  case (Cons e d)
  then have "od_wf d" by (simp add: od_wf_def)
  with Cons.IH show ?case by (cases e) (auto split: option.splits)
qed simp

lemma sum_delete:
  fixes f :: "'k \<times> 'v \<Rightarrow> nat"
  assumes "od_wf d"
  shows "sum_list (map f (AList.delete k d)) + (case map_of d k of None \<Rightarrow> 0 | Some w \<Rightarrow> f (k, w)) = sum_list (map f d)"
  using assms
proof (induction d)
  case (Cons e d)
  then have d: "od_wf d" "map_of d (fst e) = None" by (auto simp: od_wf_def map_of_eq_None_iff)
  show ?case
  proof (cases "fst e = k")
    case True
    with d have "AList.delete k d = d" by (simp add: delete_idem map_of_eq_None_iff)
    with True show ?thesis by (cases e) simp
  next
    case False
    with Cons.IH d show ?thesis by (cases e) (auto split: option.splits)
  qed
qed simp

section \<open>Laws of the integer helpers\<close>

lemma cdiv_upper: "0 < b \<Longrightarrow> a \<le> cdiv a b * b"
proof -
  assume b: "0 < b"
  have "(- b) * (a div (- b)) + a mod (- b) = a" by (rule mult_div_mod_eq)
  moreover have "a mod (- b) \<le> 0" using b by (simp add: neg_mod_sign)
  ultimately show ?thesis by (simp add: cdiv_def mult.commute)
qed

lemma cdiv_lower: "0 < b \<Longrightarrow> cdiv a b * b < a + b"
proof -
  assume b: "0 < b"
  have "(- b) * (a div (- b)) + a mod (- b) = a" by (rule mult_div_mod_eq)
  moreover have "- b < a mod (- b)" using b by (simp add: neg_mod_bound)
  ultimately show ?thesis by (simp add: cdiv_def mult.commute)
qed

lemma cdiv_least:
  assumes "0 < b"
  shows "cdiv a b \<le> n \<longleftrightarrow> a \<le> n * b"
proof
  assume "cdiv a b \<le> n"
  then have "cdiv a b * b \<le> n * b" using assms by (simp add: mult_right_mono)
  with cdiv_upper [OF assms, of a] show "a \<le> n * b" by linarith
next
  assume "a \<le> n * b"
  with cdiv_lower [OF assms, of a] have "cdiv a b * b < (n + 1) * b"
    by (simp add: algebra_simps)
  then have "cdiv a b < n + 1" using assms by (simp add: mult_less_cancel_right)
  then show "cdiv a b \<le> n" by simp
qed

lemma cdiv_nonneg: "0 < b \<Longrightarrow> 0 \<le> a \<Longrightarrow> 0 \<le> cdiv a b"
proof -
  assume "0 < b" "0 \<le> a"
  then have "\<not> cdiv a b \<le> - 1" by (simp add: cdiv_least)
  then show ?thesis by simp
qed

lemma cdiv_exact [simp]: "0 < b \<Longrightarrow> cdiv (n * b) b = n"
proof (rule order_antisym)
  assume b: "0 < b"
  show "cdiv (n * b) b \<le> n" by (simp add: cdiv_least b)
  from cdiv_upper [OF b, of "n * b"] show "n \<le> cdiv (n * b) b"
    using b by (simp add: mult_le_cancel_right)
qed

lemma cdiv_mono: "0 < b \<Longrightarrow> a \<le> a' \<Longrightarrow> cdiv a b \<le> cdiv a' b"
  using cdiv_upper [of b a'] by (simp add: cdiv_least)

lemma block_end_le: "i < n div b \<Longrightarrow> (i + 1) * b \<le> (n :: nat)"
proof -
  assume "i < n div b"
  then have "(i + 1) * b \<le> (n div b) * b" by (intro mult_le_mono1) simp
  also have "\<dots> \<le> n" by simp
  finally show ?thesis .
qed

lemma block_end_gt: "0 < b \<Longrightarrow> n div b \<le> i \<Longrightarrow> (n :: nat) < (i + 1) * b"
  using div_less_iff_less_mult [of b n "i + 1"] by simp

section \<open>Laws of slices\<close>

lemma py_slice_length: "length (py_slice xs i j) = min (j - i) (length xs - i)"
  by (simp add: py_slice_def)

lemma py_slice_set: "set (py_slice xs i j) \<subseteq> set xs"
  unfolding py_slice_def by (meson order_trans set_drop_subset set_take_subset)

lemma py_slice_distinct: "distinct xs \<Longrightarrow> distinct (py_slice xs i j)"
  by (simp add: py_slice_def)

lemma py_get_eq_Inr [result_simps]: "py_get xs i = Inr x \<longleftrightarrow> i < length xs \<and> x = xs ! i"
  by (auto simp: py_get_def)

end
