(* ===== verification/Free_Queue.thy ===== *)
theory Free_Queue
  imports Prelude
begin

text \<open>
  The metadata of KV-cache blocks and the queue of free blocks:
  \<^verbatim>\<open>KVCacheBlock\<close> and \<^verbatim>\<open>FreeKVCacheBlockQueue\<close> of
  \<^verbatim>\<open>vllm/v1/core/kv_cache_utils.py\<close>.

  The queue is a doubly linked list threaded through the block objects themselves, between
  a fake head and a fake tail.  Block objects are mutable and shared, so the model keeps
  them in a store \<open>blk\<close> from references to field records; the queue's record holds the
  store because its operations are what rewires the links.  A reference is \<open>Blk i\<close> for the
  block object with \<^verbatim>\<open>block_id = i\<close>, or one of the two fake nodes.

  \<open>fq_rep q xs\<close> says that the pointers of \<open>q\<close> represent the list \<open>xs\<close>.  The locale
  \<open>block_queue\<close> states what the rest of the program relies on; it is interpreted on the
  pointer operations, which is the refinement of the linked list by a list.
\<close>

section \<open>Blocks and the store\<close>

datatype block_ref = FakeHead | FakeTail | Blk nat

record kv_cache_block =
  block_id :: int
  ref_cnt :: int
  block_hash :: "bytes option"
  prev_free_block :: "block_ref option"
  next_free_block :: "block_ref option"
  is_null :: bool

definition new_kv_cache_block :: "int \<Rightarrow> kv_cache_block" where
  "new_kv_cache_block i =
     \<lparr>block_id = i, ref_cnt = 0, block_hash = None,
      prev_free_block = None, next_free_block = None, is_null = False\<rparr>"

record free_queue =
  blk :: "block_ref \<Rightarrow> kv_cache_block"
  num_free_blocks :: int

definition upd_blk :: "block_ref \<Rightarrow> (kv_cache_block \<Rightarrow> kv_cache_block) \<Rightarrow> free_queue \<Rightarrow> free_queue" where
  "upd_blk n f q = q\<lparr>blk := (blk q)(n := f (blk q n))\<rparr>"

definition set_prev :: "block_ref \<Rightarrow> block_ref option \<Rightarrow> free_queue \<Rightarrow> free_queue" where
  "set_prev n v = upd_blk n (\<lambda>b. b\<lparr>prev_free_block := v\<rparr>)"

definition set_next :: "block_ref \<Rightarrow> block_ref option \<Rightarrow> free_queue \<Rightarrow> free_queue" where
  "set_next n v = upd_blk n (\<lambda>b. b\<lparr>next_free_block := v\<rparr>)"

abbreviation prev_of :: "free_queue \<Rightarrow> block_ref \<Rightarrow> block_ref option" where
  "prev_of q n \<equiv> prev_free_block (blk q n)"

abbreviation next_of :: "free_queue \<Rightarrow> block_ref \<Rightarrow> block_ref option" where
  "next_of q n \<equiv> next_free_block (blk q n)"

text \<open>The two assignments \<^verbatim>\<open>block.prev_free_block = block.next_free_block = None\<close>.\<close>

definition unlink :: "block_ref \<Rightarrow> free_queue \<Rightarrow> free_queue" where
  "unlink n q = set_next n None (set_prev n None q)"

section \<open>The block hash setter\<close>

text \<open>The property setter asserts that the block has no hash yet.\<close>

definition set_block_hash :: "block_ref \<Rightarrow> bytes \<Rightarrow> free_queue \<Rightarrow> free_queue result" where
  "set_block_hash n h q =
     rbind (rassert (block_hash (blk q n) = None))
       (\<lambda>_. Inr (upd_blk n (\<lambda>b. b\<lparr>block_hash := Some h\<rparr>) q))"

definition reset_hash :: "block_ref \<Rightarrow> free_queue \<Rightarrow> free_queue" where
  "reset_hash n = upd_blk n (\<lambda>b. b\<lparr>block_hash := None\<rparr>)"

section \<open>The queue operations\<close>

definition fq_init_link :: "block_ref list \<Rightarrow> nat \<Rightarrow> free_queue \<Rightarrow> free_queue" where
  "fq_init_link bs i q =
     (let q1 = (if 0 < i then set_prev (bs ! i) (Some (bs ! (i - 1))) q else q)
      in if i < length bs - 1 then set_next (bs ! i) (Some (bs ! (i + 1))) q1 else q1)"

definition fq_init :: "(block_ref \<Rightarrow> kv_cache_block) \<Rightarrow> block_ref list \<Rightarrow> free_queue" where
  "fq_init store bs =
     (let q0 = \<lparr>blk = store, num_free_blocks = int (length bs)\<rparr>;
          q1 = fold (fq_init_link bs) [0..<length bs] q0;
          q2 = upd_blk FakeHead (\<lambda>_. new_kv_cache_block (-1)) q1;
          q3 = upd_blk FakeTail (\<lambda>_. new_kv_cache_block (-1)) q2
      in if 0 < length bs
         then set_next (last bs) (Some FakeTail)
               (set_prev FakeTail (Some (last bs))
                 (set_prev (hd bs) (Some FakeHead)
                   (set_next FakeHead (Some (hd bs)) q3)))
         else set_prev FakeTail (Some FakeHead) (set_next FakeHead (Some FakeTail) q3))"

definition popleft :: "free_queue \<Rightarrow> (block_ref \<times> free_queue) result" where
  "popleft q =
     (case next_of q FakeHead of
        None \<Rightarrow> rbind (rassert (num_free_blocks q = 0)) (\<lambda>_. Inl ValueError)
      | Some first_block \<Rightarrow>
          if first_block = FakeTail
          then rbind (rassert (num_free_blocks q = 0)) (\<lambda>_. Inl ValueError)
          else (case next_of q first_block of
                  None \<Rightarrow> Inl RuntimeError
                | Some nx \<Rightarrow>
                    let q1 = set_next FakeHead (Some nx) q;
                        q2 = set_prev nx (Some FakeHead) q1;
                        q3 = unlink first_block q2
                    in Inr (first_block, q3\<lparr>num_free_blocks := num_free_blocks q3 - 1\<rparr>)))"

fun popleft_n_loop ::
  "nat \<Rightarrow> block_ref option \<Rightarrow> free_queue \<Rightarrow> (block_ref list \<times> block_ref option \<times> free_queue) result" where
  "popleft_n_loop 0 curr_block q = Inr ([], curr_block, q)"
| "popleft_n_loop (Suc k) curr_block q =
     (case curr_block of
        None \<Rightarrow> Inl AssertionError
      | Some c \<Rightarrow>
          rbind (popleft_n_loop k (next_of q c) (unlink c q))
            (\<lambda>(ret, curr', q'). Inr (c # ret, curr', q')))"

definition popleft_n :: "nat \<Rightarrow> free_queue \<Rightarrow> (block_ref list \<times> free_queue) result" where
  "popleft_n n q =
     (if n = 0 then Inr ([], q)
      else rbind (rassert (int n \<le> num_free_blocks q)) (\<lambda>_.
           let q1 = q\<lparr>num_free_blocks := num_free_blocks q - int n\<rparr> in
           rbind (popleft_n_loop n (next_of q1 FakeHead) q1) (\<lambda>(ret, curr_block, q2).
             case curr_block of
               None \<Rightarrow> Inr (ret, q2)
             | Some c \<Rightarrow> Inr (ret, set_prev c (Some FakeHead) (set_next FakeHead (Some c) q2)))))"

definition remove :: "block_ref \<Rightarrow> free_queue \<Rightarrow> free_queue result" where
  "remove b q =
     (case (prev_of q b, next_of q b) of
        (Some p, Some nx) \<Rightarrow>
          let q1 = set_next p (Some nx) q;
              q2 = set_prev nx (Some p) q1;
              q3 = unlink b q2
          in Inr (q3\<lparr>num_free_blocks := num_free_blocks q3 - 1\<rparr>)
      | _ \<Rightarrow> Inl RuntimeError)"

definition append :: "block_ref \<Rightarrow> free_queue \<Rightarrow> free_queue result" where
  "append b q =
     (case prev_of q FakeTail of
        None \<Rightarrow> Inl RuntimeError
      | Some last_block \<Rightarrow>
          let q1 = set_prev b (Some last_block) (set_next last_block (Some b) q);
              q2 = set_prev FakeTail (Some b) (set_next b (Some FakeTail) q1)
          in Inr (q2\<lparr>num_free_blocks := num_free_blocks q2 + 1\<rparr>))"

fun append_n_loop :: "block_ref \<Rightarrow> block_ref list \<Rightarrow> free_queue \<Rightarrow> block_ref \<times> free_queue" where
  "append_n_loop last_block [] q = (last_block, q)"
| "append_n_loop last_block (b # bs) q =
     append_n_loop b bs (set_next last_block (Some b) (set_prev b (Some last_block) q))"

definition append_n :: "block_ref list \<Rightarrow> free_queue \<Rightarrow> free_queue result" where
  "append_n bs q =
     (if length bs = 0 then Inr q
      else case prev_of q FakeTail of
             None \<Rightarrow> Inl AssertionError
           | Some last0 \<Rightarrow>
               (case append_n_loop last0 bs q of
                  (last_block, q1) \<Rightarrow>
                    let q2 = set_prev FakeTail (Some last_block) (set_next last_block (Some FakeTail) q1)
                    in Inr (q2\<lparr>num_free_blocks := num_free_blocks q2 + int (length bs)\<rparr>)))"

text \<open>
  \<^verbatim>\<open>get_all_free_blocks\<close> walks the list until a node without successor.  On a
  corrupted list the walk may not end: not returning is \<open>None\<close>.
\<close>

partial_function (option) get_all_loop :: "free_queue \<Rightarrow> block_ref \<Rightarrow> block_ref list \<Rightarrow> block_ref list option" where
  "get_all_loop q curr_block ret =
     (case next_of q curr_block of
        None \<Rightarrow> Some ret
      | Some nx \<Rightarrow> get_all_loop q nx (ret @ [curr_block]))"

definition get_all_free_blocks :: "free_queue \<Rightarrow> block_ref list option result" where
  "get_all_free_blocks q =
     (case next_of q FakeHead of
        None \<Rightarrow> Inl RuntimeError
      | Some c \<Rightarrow> Inr (get_all_loop q c []))"

section \<open>What the pointers represent\<close>

fun linked :: "free_queue \<Rightarrow> block_ref list \<Rightarrow> bool" where
  "linked q (x # y # zs) \<longleftrightarrow> next_of q x = Some y \<and> prev_of q y = Some x \<and> linked q (y # zs)"
| "linked q _ \<longleftrightarrow> True"

definition fq_rep :: "free_queue \<Rightarrow> block_ref list \<Rightarrow> bool" where
  "fq_rep q xs \<longleftrightarrow>
     distinct (FakeHead # xs @ [FakeTail]) \<and>
     linked q (FakeHead # xs @ [FakeTail]) \<and>
     next_of q FakeTail = None \<and>
     num_free_blocks q = int (length xs) \<and>
     (\<forall>i. Blk i \<notin> set xs \<longrightarrow> prev_of q (Blk i) = None \<and> next_of q (Blk i) = None)"

text \<open>The fields of a block that the queue operations must not touch.\<close>

definition meta :: "free_queue \<Rightarrow> block_ref \<Rightarrow> int \<times> int \<times> bytes option \<times> bool" where
  "meta q n = (block_id (blk q n), ref_cnt (blk q n), block_hash (blk q n), is_null (blk q n))"

section \<open>Pointer lemmas\<close>

named_theorems link_simps \<open>links and fields after pointer updates\<close>

lemma blk_upd_blk [link_simps]: "blk (upd_blk n f q) m = (if m = n then f (blk q n) else blk q m)"
  by (simp add: upd_blk_def)

lemma num_upd_blk [link_simps]: "num_free_blocks (upd_blk n f q) = num_free_blocks q"
  by (simp add: upd_blk_def)

lemma next_set_next [link_simps]: "next_of (set_next n v q) m = (if m = n then v else next_of q m)"
  and prev_set_next [link_simps]: "prev_of (set_next n v q) m = prev_of q m"
  and next_set_prev [link_simps]: "next_of (set_prev n v q) m = next_of q m"
  and prev_set_prev [link_simps]: "prev_of (set_prev n v q) m = (if m = n then v else prev_of q m)"
  and num_set_next [link_simps]: "num_free_blocks (set_next n v q) = num_free_blocks q"
  and num_set_prev [link_simps]: "num_free_blocks (set_prev n v q) = num_free_blocks q"
  by (simp_all add: set_next_def set_prev_def blk_upd_blk num_upd_blk)

lemma next_unlink [link_simps]: "next_of (unlink n q) m = (if m = n then None else next_of q m)"
  and prev_unlink [link_simps]: "prev_of (unlink n q) m = (if m = n then None else prev_of q m)"
  and num_unlink [link_simps]: "num_free_blocks (unlink n q) = num_free_blocks q"
  by (simp_all add: unlink_def link_simps)

lemma meta_set_next [simp]: "meta (set_next n v q) = meta q"
  and meta_set_prev [simp]: "meta (set_prev n v q) = meta q"
  and meta_unlink [simp]: "meta (unlink n q) = meta q"
  and meta_num [simp]: "meta (q\<lparr>num_free_blocks := k\<rparr>) = meta q"
  by (auto simp: fun_eq_iff meta_def unlink_def set_next_def set_prev_def upd_blk_def)

lemma set_next_set_prev: "set_next n v (set_prev m w q) = set_prev m w (set_next n v q)"
  by (auto simp: set_next_def set_prev_def upd_blk_def fun_eq_iff intro!: free_queue.equality)

lemma linked_num [simp]: "linked (q\<lparr>num_free_blocks := k\<rparr>) xs = linked q xs"
  by (induction q xs rule: linked.induct) simp_all

lemma linked_set_next [simp]: "n \<notin> set (butlast xs) \<Longrightarrow> linked (set_next n v q) xs = linked q xs"
  by (induction q xs rule: linked.induct) (auto simp: link_simps)

lemma linked_set_prev [simp]: "n \<notin> set (tl xs) \<Longrightarrow> linked (set_prev n v q) xs = linked q xs"
  by (induction q xs rule: linked.induct) (auto simp: link_simps)

lemma linked_unlink [simp]:
  assumes "n \<notin> set xs"
  shows "linked (unlink n q) xs = linked q xs"
proof -
  have "n \<notin> set (butlast xs)" "n \<notin> set (tl xs)"
    using assms by (auto dest: in_set_butlastD list.set_sel(2) [rotated], metis list.sel(2) list.set_sel(2))
  then show ?thesis by (simp add: unlink_def)
qed

lemma linked_append_iff: "linked q (xs @ y # ys) \<longleftrightarrow> linked q (xs @ [y]) \<and> linked q (y # ys)"
proof (induction xs)
  case (Cons x xs)
  then show ?case by (cases xs) auto
qed simp

text \<open>Splicing two linked segments by writing the two pointers between them.\<close>

lemma linked_splice:
  assumes "linked q (as @ [p])" "linked q (n # bs)" "distinct (as @ p # n # bs)"
  shows "linked (set_prev n (Some p) (set_next p (Some n) q)) (as @ p # n # bs)"
proof -
  let ?q = "set_prev n (Some p) (set_next p (Some n) q)"
  have "n \<notin> set (tl (as @ [p]))"
    using assms(3) by (cases as) auto
  moreover have "p \<notin> set (butlast (n # bs))"
    using assms(3) by (auto dest: in_set_butlastD)
  ultimately have "linked ?q (as @ [p])" "linked ?q (n # bs)"
    using assms by simp_all
  then show ?thesis
    by (subst linked_append_iff) (simp add: link_simps)
qed

section \<open>Each operation on the represented list\<close>

lemma fq_rep_distinct: "fq_rep q xs \<Longrightarrow> distinct xs"
  and fq_rep_num: "fq_rep q xs \<Longrightarrow> num_free_blocks q = int (length xs)"
  and fq_rep_fake: "fq_rep q xs \<Longrightarrow> FakeHead \<notin> set xs \<and> FakeTail \<notin> set xs"
  by (simp_all add: fq_rep_def)

text \<open>
  Taking the segment \<open>ms\<close> out of the list by rewiring the pointers around it and clearing
  the links of its members: the common core of \<open>popleft\<close>, \<open>popleft_n\<close> and \<open>remove\<close>.
\<close>

lemma linked_cut:
  assumes "linked q (as @ [p])" "linked q (n # bs)" "distinct (as @ p # ms @ n # bs)"
    and "\<And>m. m \<notin> set ms \<Longrightarrow> next_of q' m = next_of (set_prev n (Some p) (set_next p (Some n) q)) m"
    and "\<And>m. m \<notin> set ms \<Longrightarrow> prev_of q' m = prev_of (set_prev n (Some p) (set_next p (Some n) q)) m"
  shows "linked q' (as @ p # n # bs)"
proof -
  let ?r = "set_prev n (Some p) (set_next p (Some n) q)"
  have cong: "set xs \<inter> set ms = {} \<Longrightarrow> linked q' xs = linked ?r xs" for xs
  proof (induction ?r xs rule: linked.induct)
    case (1 x y zs)
    then have "x \<notin> set ms" "y \<notin> set ms" by auto
    with 1 assms(4) [of x] assms(5) [of y] show ?case by simp
  qed simp_all
  have "set (as @ p # n # bs) \<inter> set ms = {}" using assms(3) by auto
  moreover have "linked ?r (as @ p # n # bs)"
    using assms(1-3) by (intro linked_splice) auto
  ultimately show ?thesis using cong by blast
qed

lemma fq_rep_cut:
  assumes rep: "fq_rep q (as @ ms @ bs)"
    and p: "p = last (FakeHead # as)" and n: "n = hd (bs @ [FakeTail])"
    and nx: "\<And>m. next_of q' m = (if m \<in> set ms then None else next_of (set_prev n (Some p) (set_next p (Some n) q)) m)"
    and pv: "\<And>m. prev_of q' m = (if m \<in> set ms then None else prev_of (set_prev n (Some p) (set_next p (Some n) q)) m)"
    and num: "num_free_blocks q' = num_free_blocks q - int (length ms)"
  shows "fq_rep q' (as @ bs)"
proof -
  define A where "A = butlast (FakeHead # as)"
  define B where "B = tl (bs @ [FakeTail])"
  have A: "FakeHead # as = A @ [p]" unfolding A_def p by (metis append_butlast_last_id list.distinct(1))
  have B: "bs @ [FakeTail] = n # B" unfolding B_def n by (cases bs) auto
  have all: "FakeHead # (as @ ms @ bs) @ [FakeTail] = A @ p # ms @ n # B" using A B by simp
  from rep have lk: "linked q (A @ p # ms @ n # B)" and dist: "distinct (A @ p # ms @ n # B)"
    unfolding fq_rep_def all by simp_all
  have "linked q (A @ [p])" using lk by (subst (asm) linked_append_iff) simp
  moreover have "linked q (n # B)" using lk linked_append_iff [of q "A @ p # ms" n B] by simp
  ultimately have "linked q' (A @ p # n # B)"
    using dist by (rule linked_cut) (simp_all add: nx pv)
  moreover have "A @ p # n # B = FakeHead # (as @ bs) @ [FakeTail]" using A B by simp
  ultimately have "linked q' (FakeHead # (as @ bs) @ [FakeTail])" by simp
  moreover have "next_of q' FakeTail = None"
  proof -
    have "p \<in> set (FakeHead # as)" unfolding p by (rule last_in_set) simp
    then have "FakeTail \<noteq> p" using fq_rep_fake [OF rep] by auto
    then show ?thesis using rep by (auto simp: nx link_simps fq_rep_def)
  qed
  moreover have "prev_of q' (Blk i) = None \<and> next_of q' (Blk i) = None" if "Blk i \<notin> set (as @ bs)" for i
  proof (cases "Blk i \<in> set ms")
    case False
    have "p \<in> set (FakeHead # as)" unfolding p by (rule last_in_set) simp
    then have "p \<noteq> Blk i" using that by auto
    moreover have "n \<noteq> Blk i" using that n by (cases bs) auto
    ultimately show ?thesis using rep that False by (auto simp: nx pv link_simps fq_rep_def)
  qed (simp add: nx pv)
  ultimately show ?thesis
    using rep num by (auto simp: fq_rep_def)
qed

lemma rep_next_head: "fq_rep q xs \<Longrightarrow> next_of q FakeHead = Some (hd (xs @ [FakeTail]))"
  by (cases xs) (auto simp: fq_rep_def)

lemma snoc_view: "xs \<noteq> [] \<Longrightarrow> xs @ ys = butlast xs @ last xs # ys"
  by (cases xs rule: rev_cases) auto

lemma rep_links_around:
  assumes "fq_rep q xs" "FakeHead # xs @ [FakeTail] = as @ b # cs" "as \<noteq> []"
  shows "prev_of q b = Some (last as)" "next_of q (last as) = Some b"
proof -
  from assms have "linked q (butlast as @ last as # b # cs)"
    by (simp add: fq_rep_def snoc_view)
  then have "linked q (last as # b # cs)" using linked_append_iff by blast
  then show "prev_of q b = Some (last as)" "next_of q (last as) = Some b" by simp_all
qed

lemma rep_prev_tail: "fq_rep q xs \<Longrightarrow> prev_of q FakeTail = Some (last (FakeHead # xs))"
  by (rule rep_links_around(1) [where cs = "[]"]) simp_all

lemma rep_links:
  assumes "fq_rep q (as @ b # bs)"
  shows "prev_of q b = Some (last (FakeHead # as))" "next_of q b = Some (hd (bs @ [FakeTail]))"
proof -
  show "prev_of q b = Some (last (FakeHead # as))"
    using assms by (rule rep_links_around(1) [where cs = "bs @ [FakeTail]"]) simp_all
  have "next_of q (last (FakeHead # as @ [b])) = Some (hd (bs @ [FakeTail]))"
    using assms by (rule rep_links_around(2) [where cs = "tl (bs @ [FakeTail])"]) (cases bs, simp_all)
  then show "next_of q b = Some (hd (bs @ [FakeTail]))" by simp
qed

lemma popleft_rep:
  assumes "fq_rep q (x # xs)"
  shows "\<exists>q'. popleft q = Inr (x, q') \<and> fq_rep q' xs \<and> meta q' = meta q"
proof -
  let ?n = "hd (xs @ [FakeTail])"
  let ?q = "unlink x (set_prev ?n (Some FakeHead) (set_next FakeHead (Some ?n) q))"
  have "x \<noteq> FakeTail" using assms by (auto simp: fq_rep_def)
  then have "popleft q = Inr (x, ?q\<lparr>num_free_blocks := num_free_blocks q - 1\<rparr>)"
    using rep_next_head [OF assms] rep_links(2) [of q "[]" x xs] assms
    by (simp add: popleft_def Let_def link_simps)
  moreover have "fq_rep (?q\<lparr>num_free_blocks := num_free_blocks q - 1\<rparr>) xs"
    using fq_rep_cut [of q "[]" "[x]" xs FakeHead ?n] assms by (simp add: link_simps)
  ultimately show ?thesis by simp
qed

lemma popleft_empty: "fq_rep q [] \<Longrightarrow> popleft q = Inl ValueError"
  by (simp add: popleft_def fq_rep_def)

lemma remove_rep:
  assumes "fq_rep q (as @ b # bs)"
  shows "\<exists>q'. remove b q = Inr q' \<and> fq_rep q' (as @ bs) \<and> meta q' = meta q"
proof -
  let ?p = "last (FakeHead # as)" and ?n = "hd (bs @ [FakeTail])"
  let ?q = "unlink b (set_prev ?n (Some ?p) (set_next ?p (Some ?n) q))"
  have "remove b q = Inr (?q\<lparr>num_free_blocks := num_free_blocks q - 1\<rparr>)"
    using rep_links [OF assms] by (simp add: remove_def Let_def link_simps)
  moreover have "fq_rep (?q\<lparr>num_free_blocks := num_free_blocks q - 1\<rparr>) (as @ bs)"
    using fq_rep_cut [of q as "[b]" bs ?p ?n] assms by (simp add: link_simps)
  ultimately show ?thesis by simp
qed

lemma remove_not_free: "fq_rep q xs \<Longrightarrow> Blk i \<notin> set xs \<Longrightarrow> remove (Blk i) q = Inl RuntimeError"
  by (simp add: fq_rep_def remove_def)

lemma popleft_n_loop_linked:
  assumes "linked q (ms @ n # bs)" "distinct (ms @ n # bs)"
  shows "\<exists>q'. popleft_n_loop (length ms) (Some (hd (ms @ [n]))) q = Inr (ms, Some n, q') \<and>
    (\<forall>m. next_of q' m = (if m \<in> set ms then None else next_of q m)) \<and>
    (\<forall>m. prev_of q' m = (if m \<in> set ms then None else prev_of q m)) \<and>
    num_free_blocks q' = num_free_blocks q \<and> meta q' = meta q"
  using assms
proof (induction ms arbitrary: q)
  case Nil
  then show ?case by simp
next
  case (Cons c ms)
  have nx: "next_of q c = Some (hd (ms @ [n]))" using Cons.prems(1) by (cases ms) auto
  have "linked q (ms @ n # bs)" using Cons.prems(1) by (cases ms) auto
  then have "linked (unlink c q) (ms @ n # bs)" using Cons.prems(2) by simp
  from Cons.IH [OF this] Cons.prems(2) obtain q' where
    "popleft_n_loop (length ms) (Some (hd (ms @ [n]))) (unlink c q) = Inr (ms, Some n, q')"
    "\<forall>m. next_of q' m = (if m \<in> set ms then None else next_of (unlink c q) m)"
    "\<forall>m. prev_of q' m = (if m \<in> set ms then None else prev_of (unlink c q) m)"
    "num_free_blocks q' = num_free_blocks q" "meta q' = meta q"
    by (auto simp: link_simps)
  with nx show ?case by (auto simp: link_simps)
qed

lemma popleft_n_rep:
  assumes "fq_rep q xs" "n \<le> length xs"
  shows "\<exists>q'. popleft_n n q = Inr (take n xs, q') \<and> fq_rep q' (drop n xs) \<and> meta q' = meta q"
proof (cases "n = 0")
  case True
  with assms show ?thesis by (simp add: popleft_n_def)
next
  case False
  let ?ms = "take n xs" and ?c = "hd (drop n xs @ [FakeTail])"
  let ?q1 = "q\<lparr>num_free_blocks := num_free_blocks q - int n\<rparr>"
  have tl: "xs @ [FakeTail] = ?ms @ ?c # tl (drop n xs @ [FakeTail])"
    by (metis append_is_Nil_conv append_take_drop_id append.assoc list.collapse list.distinct(1))
  from assms(1) have "linked q (FakeHead # xs @ [FakeTail])" "distinct (xs @ [FakeTail])"
    by (simp_all add: fq_rep_def)
  then have "linked ?q1 (?ms @ ?c # tl (drop n xs @ [FakeTail]))"
      "distinct (?ms @ ?c # tl (drop n xs @ [FakeTail]))"
    unfolding tl [symmetric] by (cases xs, simp_all)
  from popleft_n_loop_linked [OF this] assms(2) obtain q2 where q2:
    "popleft_n_loop n (Some (hd (?ms @ [?c]))) ?q1 = Inr (?ms, Some ?c, q2)"
    "\<forall>m. next_of q2 m = (if m \<in> set ?ms then None else next_of q m)"
    "\<forall>m. prev_of q2 m = (if m \<in> set ?ms then None else prev_of q m)"
    "num_free_blocks q2 = num_free_blocks q - int n" "meta q2 = meta q"
    by auto
  let ?q3 = "set_prev ?c (Some FakeHead) (set_next FakeHead (Some ?c) q2)"
  have "hd (?ms @ [?c]) = hd (xs @ [FakeTail])" using False assms(2) by (cases xs) auto
  then have "next_of q FakeHead = Some (hd (?ms @ [?c]))" using rep_next_head [OF assms(1)] by simp
  then have "popleft_n n q = Inr (?ms, ?q3)"
    using False assms(2) q2(1) fq_rep_num [OF assms(1)] by (simp add: popleft_n_def Let_def)
  moreover have "fq_rep ?q3 ([] @ drop n xs)"
  proof (rule fq_rep_cut [where ms = ?ms and p = FakeHead and n = ?c])
    show "fq_rep q ([] @ ?ms @ drop n xs)" using assms(1) by simp
    have "FakeHead \<notin> set ?ms" "?c \<notin> set ?ms"
      using fq_rep_fake [OF assms(1)] fq_rep_distinct [OF assms(1)]
      by (auto dest: in_set_takeD, metis (no_types, lifting) assms(1) append_is_Nil_conv fq_rep_fake
          hd_append2 hd_in_set in_set_takeD list.sel(1) set_take_disj_set_drop_if_distinct disjoint_iff order_refl
          append_Nil)
    then show "next_of ?q3 m = (if m \<in> set ?ms then None else next_of (set_prev ?c (Some FakeHead) (set_next FakeHead (Some ?c) q)) m)"
      "prev_of ?q3 m = (if m \<in> set ?ms then None else prev_of (set_prev ?c (Some FakeHead) (set_next FakeHead (Some ?c) q)) m)" for m
      using q2(2,3) by (auto simp: link_simps)
    show "num_free_blocks ?q3 = num_free_blocks q - int (length ?ms)"
      using q2(4) assms(2) by (simp add: link_simps)
  qed simp_all
  ultimately show ?thesis using q2(5) by simp
qed

lemma popleft_n_too_many: "fq_rep q xs \<Longrightarrow> length xs < n \<Longrightarrow> popleft_n n q = Inl AssertionError"
  by (simp add: popleft_n_def fq_rep_num)

lemma append_n_loop_linked:
  assumes "linked q (as @ [p])" "distinct (as @ p # bs)"
    and "append_n_loop p bs q = (l, q')"
  shows "l = last (p # bs) \<and> linked q' (as @ p # bs) \<and>
    (\<forall>m. m \<notin> set (butlast (p # bs)) \<longrightarrow> next_of q' m = next_of q m) \<and>
    (\<forall>m. m \<notin> set bs \<longrightarrow> prev_of q' m = prev_of q m) \<and>
    num_free_blocks q' = num_free_blocks q \<and> meta q' = meta q"
  using assms
proof (induction bs arbitrary: as p q)
  case Nil
  then show ?case by simp
next
  case (Cons b bs)
  let ?q = "set_next p (Some b) (set_prev b (Some p) q)"
  have 1: "linked ?q ((as @ [p]) @ [b])"
    unfolding set_next_set_prev using linked_splice [OF Cons.prems(1), of b "[]"] Cons.prems(2) by simp
  have 2: "distinct ((as @ [p]) @ b # bs)" using Cons.prems(2) by simp
  have 3: "append_n_loop b bs ?q = (l, q')" using Cons.prems(3) by simp
  show ?case using Cons.IH [OF 1 2 3] by (auto simp: link_simps)
qed

lemma append_n_rep:
  assumes rep: "fq_rep q xs" and bs: "distinct bs" "set bs \<subseteq> range Blk" "set bs \<inter> set xs = {}"
  shows "\<exists>q'. append_n bs q = Inr q' \<and> fq_rep q' (xs @ bs) \<and> meta q' = meta q"
proof (cases "bs = []")
  case True
  with rep show ?thesis by (simp add: append_n_def)
next
  case False
  let ?A = "butlast (FakeHead # xs)" and ?p = "last (FakeHead # xs)"
  have A: "FakeHead # xs = ?A @ [?p]" by simp
  have fake: "FakeHead \<notin> set bs" "FakeTail \<notin> set bs" using bs(2) by auto
  obtain l q1 where loop: "append_n_loop ?p bs q = (l, q1)" by fastforce
  have "linked q (FakeHead # xs)"
    using rep linked_append_iff [of q ?A ?p "[FakeTail]"] A
    by (metis append.assoc append_Cons append_Nil fq_rep_def)
  then have lk: "linked q (?A @ [?p])" using A by simp
  have dist: "distinct (?A @ ?p # bs)"
  proof -
    have "distinct ((FakeHead # xs) @ bs)" using rep bs fake by (auto simp: fq_rep_def)
    then show ?thesis by (subst (asm) A) simp
  qed
  note q1 = append_n_loop_linked [OF lk dist loop]
  let ?q2 = "set_prev FakeTail (Some l) (set_next l (Some FakeTail) q1)"
  have l: "l = last bs" using q1 False by simp
  have lp: "l \<in> set bs" "?p \<in> set (FakeHead # xs)"
    using l False by (simp, metis last_in_set list.distinct(1))
  have all: "FakeHead # (xs @ bs) @ [FakeTail] = (?A @ ?p # butlast bs) @ l # [FakeTail]"
    using A False l by (metis append.assoc append_Cons append_Nil append_butlast_last_id)
  have "linked ?q2 ((?A @ ?p # butlast bs) @ l # [FakeTail])"
  proof (rule linked_splice)
    show "linked q1 ((?A @ ?p # butlast bs) @ [l])" using q1 False l by simp
    show "distinct ((?A @ ?p # butlast bs) @ l # [FakeTail])"
      unfolding all [symmetric] using rep bs fake by (auto simp: fq_rep_def)
  qed simp
  then have "linked ?q2 (FakeHead # (xs @ bs) @ [FakeTail])" by (simp only: all)
  moreover have "next_of ?q2 FakeTail = None"
  proof -
    have "FakeTail \<noteq> l" "FakeTail \<notin> set (butlast (?p # bs))"
      using fake lp fq_rep_fake [OF rep] by (auto dest!: in_set_butlastD simp del: last.simps)
    then show ?thesis using q1 rep by (simp add: link_simps fq_rep_def)
  qed
  moreover have "prev_of ?q2 (Blk i) = None \<and> next_of ?q2 (Blk i) = None" if "Blk i \<notin> set (xs @ bs)" for i
  proof -
    have "Blk i \<noteq> l" "Blk i \<notin> set bs" "Blk i \<notin> set (butlast (?p # bs))"
      using that lp by (auto dest!: in_set_butlastD simp del: last.simps)
    then show ?thesis using q1 rep that by (simp add: link_simps fq_rep_def)
  qed
  ultimately have "fq_rep (?q2\<lparr>num_free_blocks := num_free_blocks q1 + int (length bs)\<rparr>) (xs @ bs)"
    using rep bs fake q1 by (simp add: fq_rep_def Int_commute)
  moreover have "append_n bs q = Inr (?q2\<lparr>num_free_blocks := num_free_blocks q1 + int (length bs)\<rparr>)"
    using False rep_prev_tail [OF rep] loop by (simp add: append_n_def Let_def link_simps)
  ultimately show ?thesis using q1 by simp
qed

lemma append_rep:
  assumes rep: "fq_rep q xs" and b: "Blk i \<notin> set xs"
  shows "\<exists>q'. append (Blk i) q = Inr q' \<and> fq_rep q' (xs @ [Blk i]) \<and> meta q' = meta q"
proof -
  have "append (Blk i) q = append_n [Blk i] q"
    using rep_prev_tail [OF rep] by (simp add: append_def append_n_def Let_def set_next_set_prev)
  with append_n_rep [OF rep, of "[Blk i]"] b show ?thesis by auto
qed

lemma get_all_loop_linked:
  "linked q (xs @ [FakeTail]) \<Longrightarrow> next_of q FakeTail = None \<Longrightarrow>
   get_all_loop q (hd (xs @ [FakeTail])) ret = Some (ret @ xs)"
proof (induction xs arbitrary: ret)
  case Nil
  then show ?case by (simp add: get_all_loop.simps)
next
  case (Cons x xs)
  then have "next_of q x = Some (hd (xs @ [FakeTail]))" "linked q (xs @ [FakeTail])"
    by (cases xs; simp)+
  with Cons show ?case by (subst get_all_loop.simps) simp
qed

lemma get_all_free_blocks_rep: "fq_rep q xs \<Longrightarrow> get_all_free_blocks q = Inr (Some xs)"
proof -
  assume rep: "fq_rep q xs"
  then have "linked q (xs @ [FakeTail])" by (cases xs) (simp_all add: fq_rep_def)
  with rep rep_next_head [OF rep] get_all_loop_linked [of q xs "[]"] show ?thesis
    by (simp add: get_all_free_blocks_def fq_rep_def)
qed

text \<open>Initialisation: the loop of the constructor links neighbours in list order.\<close>

lemma fq_init_link_links:
  assumes "distinct bs" "i < length bs"
  shows "next_of (fq_init_link bs i q) m =
      (if m = bs ! i \<and> i + 1 < length bs then Some (bs ! (i + 1)) else next_of q m)"
    and "prev_of (fq_init_link bs i q) m =
      (if m = bs ! i \<and> 0 < i then Some (bs ! (i - 1)) else prev_of q m)"
    and "num_free_blocks (fq_init_link bs i q) = num_free_blocks q"
    and "meta (fq_init_link bs i q) = meta q"
  using assms by (auto simp: fq_init_link_def Let_def link_simps)

lemma fq_init_loop:
  assumes "distinct bs" "k \<le> length bs"
  shows "(\<forall>j < k. j + 1 < length bs \<longrightarrow> next_of (fold (fq_init_link bs) [0..<k] q) (bs ! j) = Some (bs ! (j + 1))) \<and>
    (\<forall>j < k. 0 < j \<longrightarrow> prev_of (fold (fq_init_link bs) [0..<k] q) (bs ! j) = Some (bs ! (j - 1))) \<and>
    (\<forall>m. m \<notin> set bs \<longrightarrow> next_of (fold (fq_init_link bs) [0..<k] q) m = next_of q m \<and>
         prev_of (fold (fq_init_link bs) [0..<k] q) m = prev_of q m) \<and>
    num_free_blocks (fold (fq_init_link bs) [0..<k] q) = num_free_blocks q \<and>
    meta (fold (fq_init_link bs) [0..<k] q) = meta q"
  using assms
proof (induction k)
  case 0
  then show ?case by simp
next
  case (Suc k)
  then have "k < length bs" by simp
  note step = fq_init_link_links [OF Suc.prems(1) this]
  show ?case
    using Suc step \<open>k < length bs\<close> by (auto simp: nth_eq_iff_index_eq less_Suc_eq)
qed

lemma linked_nth:
  "linked q xs \<longleftrightarrow> (\<forall>j. j + 1 < length xs \<longrightarrow>
     next_of q (xs ! j) = Some (xs ! (j + 1)) \<and> prev_of q (xs ! (j + 1)) = Some (xs ! j))"
proof (induction q xs rule: linked.induct)
  case (1 q x y zs)
  then show ?case by (auto simp: nth_Cons split: nat.splits)
qed simp_all

lemma fq_rep_init:
  assumes bs: "distinct bs" "set bs \<subseteq> range Blk"
    and store: "\<And>i. prev_free_block (store (Blk i)) = None \<and> next_free_block (store (Blk i)) = None"
  shows "fq_rep (fq_init store bs) bs"
    and "\<And>i. meta (fq_init store bs) (Blk i) =
      meta \<lparr>blk = store, num_free_blocks = int (length bs)\<rparr> (Blk i)"
proof -
  let ?q0 = "\<lparr>blk = store, num_free_blocks = int (length bs)\<rparr>"
  define q1 where "q1 = fold (fq_init_link bs) [0..<length bs] ?q0"
  define q3 where "q3 = upd_blk FakeTail (\<lambda>_. new_kv_cache_block (-1)) (upd_blk FakeHead (\<lambda>_. new_kv_cache_block (-1)) q1)"
  note loop = fq_init_loop [OF bs(1) order_refl, of ?q0, folded q1_def]
  have fake: "FakeHead \<notin> set bs" "FakeTail \<notin> set bs" using bs(2) by auto
  have q3: "blk q3 (Blk i) = blk q1 (Blk i)" "num_free_blocks q3 = int (length bs)"
    "next_of q3 FakeTail = None" for i
    using loop by (simp_all add: q3_def link_simps new_kv_cache_block_def)
  have q3_mem: "m \<in> set bs \<Longrightarrow> blk q3 m = blk q1 m" for m
    using bs(2) q3(1) by auto
  have lk: "linked q3 bs" unfolding linked_nth using loop by (auto simp: q3_mem)
  have meta_q3: "meta q3 (Blk i) = meta ?q0 (Blk i)" for i
  proof -
    have "meta q3 (Blk i) = meta q1 (Blk i)" by (simp add: meta_def q3)
    with loop show ?thesis by simp
  qed
  have off: "prev_of q3 (Blk i) = None \<and> next_of q3 (Blk i) = None" if "Blk i \<notin> set bs" for i
    using loop that store [of i] by (simp add: q3)
  have init: "fq_init store bs = (if 0 < length bs
       then set_next (last bs) (Some FakeTail) (set_prev FakeTail (Some (last bs))
             (set_prev (hd bs) (Some FakeHead) (set_next FakeHead (Some (hd bs)) q3)))
       else set_prev FakeTail (Some FakeHead) (set_next FakeHead (Some FakeTail) q3))"
    by (simp add: fq_init_def Let_def q3_def q1_def)
  then show "meta (fq_init store bs) (Blk i) = meta ?q0 (Blk i)" for i
    using meta_q3 by simp
  show "fq_rep (fq_init store bs) bs"
  proof (cases "bs = []")
    case True
    then show ?thesis using init off q3 by (simp add: fq_rep_def link_simps)
  next
    case False
    let ?h = "set_prev (hd bs) (Some FakeHead) (set_next FakeHead (Some (hd bs)) q3)"
    have ends: "(FakeHead # butlast bs) @ last bs # [FakeTail] = FakeHead # bs @ [FakeTail]"
      using snoc_view [OF False, of "[FakeTail]"] by simp
    have "linked ?h ([] @ FakeHead # hd bs # tl bs)"
      by (rule linked_splice) (use lk False bs(1) fake in \<open>simp_all add: distinct_tl\<close>)
    then have "linked ?h ((FakeHead # butlast bs) @ [last bs])" using False by simp
    moreover have "distinct ((FakeHead # butlast bs) @ last bs # [FakeTail])"
      unfolding ends using fake bs(1) by simp
    ultimately have "linked (set_prev FakeTail (Some (last bs)) (set_next (last bs) (Some FakeTail) ?h))
        ((FakeHead # butlast bs) @ last bs # [FakeTail])"
      by (intro linked_splice) simp_all
    then have "linked (fq_init store bs) ((FakeHead # butlast bs) @ last bs # [FakeTail])"
      using False by (simp add: init set_next_set_prev [of "last bs" _ FakeTail])
    then have "linked (fq_init store bs) (FakeHead # bs @ [FakeTail])"
      by (simp only: ends)
    moreover have "FakeTail \<noteq> last bs" "\<And>i. Blk i \<notin> set bs \<Longrightarrow> Blk i \<noteq> last bs \<and> Blk i \<noteq> hd bs"
      using last_in_set [OF False] hd_in_set [OF False] fake by auto
    ultimately show ?thesis
      using False fake bs(1) q3 off by (auto simp: fq_rep_def init link_simps)
  qed
qed

section \<open>The interface\<close>

text \<open>
  What the block pool relies on: a queue with removal from the middle, holding the blocks
  of the list that \<open>rep\<close> relates to it, whose operations leave the other fields of the
  blocks (\<open>info\<close>) alone.  \<open>real\<close> holds of the blocks proper, not of sentinels.
\<close>

locale block_queue =
  fixes pop_front :: "'q \<Rightarrow> ('b \<times> 'q) result"
    and pop_front_n :: "nat \<Rightarrow> 'q \<Rightarrow> ('b list \<times> 'q) result"
    and take_out :: "'b \<Rightarrow> 'q \<Rightarrow> 'q result"
    and push_back_n :: "'b list \<Rightarrow> 'q \<Rightarrow> 'q result"
    and size_of :: "'q \<Rightarrow> int"
    and rep :: "'q \<Rightarrow> 'b list \<Rightarrow> bool"
    and info :: "'q \<Rightarrow> 'b \<Rightarrow> 'm"
    and real :: "'b \<Rightarrow> bool"
  assumes rep_distinct: "rep q xs \<Longrightarrow> distinct xs"
    and rep_size: "rep q xs \<Longrightarrow> size_of q = int (length xs)"
    and rep_unique: "rep q xs \<Longrightarrow> rep q ys \<Longrightarrow> xs = ys"
    and pop_front_Cons: "rep q (x # xs) \<Longrightarrow> \<exists>q'. pop_front q = Inr (x, q') \<and> rep q' xs \<and> info q' = info q"
    and pop_front_Nil: "rep q [] \<Longrightarrow> pop_front q = Inl ValueError"
    and pop_front_n_take: "rep q xs \<Longrightarrow> n \<le> length xs \<Longrightarrow>
      \<exists>q'. pop_front_n n q = Inr (take n xs, q') \<and> rep q' (drop n xs) \<and> info q' = info q"
    and take_out_mem: "rep q (as @ b # bs) \<Longrightarrow>
      \<exists>q'. take_out b q = Inr q' \<and> rep q' (as @ bs) \<and> info q' = info q"
    and take_out_absent: "rep q xs \<Longrightarrow> real b \<Longrightarrow> b \<notin> set xs \<Longrightarrow> take_out b q = Inl RuntimeError"
    and push_back_n_append: "rep q xs \<Longrightarrow> distinct bs \<Longrightarrow> list_all real bs \<Longrightarrow> set bs \<inter> set xs = {} \<Longrightarrow>
      \<exists>q'. push_back_n bs q = Inr q' \<and> rep q' (xs @ bs) \<and> info q' = info q"
begin

text \<open>Taking a block out succeeds exactly for the blocks in the queue.\<close>

lemma take_out_iff:
  assumes "rep q xs" "real b"
  shows "(\<exists>q'. take_out b q = Inr q') \<longleftrightarrow> b \<in> set xs"
proof
  assume "\<exists>q'. take_out b q = Inr q'"
  then show "b \<in> set xs" using take_out_absent [OF assms] by fastforce
next
  assume "b \<in> set xs"
  then obtain as bs where "xs = as @ b # bs" by (auto simp: in_set_conv_decomp)
  with take_out_mem [of q as b bs] assms(1) show "\<exists>q'. take_out b q = Inr q'" by auto
qed

lemma take_out_remove1:
  assumes "rep q xs" "b \<in> set xs"
  shows "\<exists>q'. take_out b q = Inr q' \<and> rep q' (remove1 b xs) \<and> info q' = info q"
proof -
  from assms(2) obtain as bs where xs: "xs = as @ b # bs" "b \<notin> set as"
    by (metis split_list_first)
  then have "remove1 b xs = as @ bs" by (simp add: remove1_append)
  with take_out_mem [of q as b bs] assms(1) xs show ?thesis by simp
qed

text \<open>Least recently used order: a block taken out and put back goes behind all others.\<close>

lemma take_out_push_back:
  assumes "rep q xs" "b \<in> set xs" "real b"
  shows "\<exists>q1 q2. take_out b q = Inr q1 \<and> push_back_n [b] q1 = Inr q2 \<and> rep q2 (remove1 b xs @ [b])"
proof -
  obtain q1 where q1: "take_out b q = Inr q1" "rep q1 (remove1 b xs)"
    using take_out_remove1 [OF assms(1,2)] by blast
  have "b \<notin> set (remove1 b xs)" using rep_distinct [OF assms(1)] by simp
  then obtain q2 where "push_back_n [b] q1 = Inr q2" "rep q2 (remove1 b xs @ [b])"
    using push_back_n_append [OF q1(2), of "[b]"] assms(3) by auto
  with q1 show ?thesis by blast
qed

text \<open>Blocks taken from the front and freed again rotate behind the rest.\<close>

lemma pop_push_rotates:
  assumes "rep q xs" "n \<le> length xs" "list_all real xs"
  shows "\<exists>q1 q2. pop_front_n n q = Inr (take n xs, q1) \<and> push_back_n (rev (take n xs)) q1 = Inr q2 \<and>
    rep q2 (drop n xs @ rev (take n xs))"
proof -
  obtain q1 where q1: "pop_front_n n q = Inr (take n xs, q1)" "rep q1 (drop n xs)"
    using pop_front_n_take [OF assms(1,2)] by blast
  have "distinct xs" by (rule rep_distinct [OF assms(1)])
  then have "set (rev (take n xs)) \<inter> set (drop n xs) = {}" "distinct (rev (take n xs))"
    by (simp_all add: set_take_disj_set_drop_if_distinct)
  moreover have "list_all real (rev (take n xs))"
    using assms(3) by (auto simp: list_all_iff dest: in_set_takeD)
  ultimately obtain q2 where "push_back_n (rev (take n xs)) q1 = Inr q2"
      "rep q2 (drop n xs @ rev (take n xs))"
    using push_back_n_append [OF q1(2)] by blast
  with q1 show ?thesis by blast
qed

end

lemma fq_rep_unique: "fq_rep q xs \<Longrightarrow> fq_rep q ys \<Longrightarrow> xs = ys"
  using get_all_free_blocks_rep [of q xs] get_all_free_blocks_rep [of q ys] by simp

definition is_blk :: "block_ref \<Rightarrow> bool" where
  "is_blk b \<longleftrightarrow> (case b of Blk _ \<Rightarrow> True | _ \<Rightarrow> False)"

lemma is_blk_iff: "is_blk b \<longleftrightarrow> (\<exists>i. b = Blk i)"
  by (simp add: is_blk_def split: block_ref.splits)

interpretation dll: block_queue popleft popleft_n remove append_n num_free_blocks fq_rep meta is_blk
proof (unfold_locales, goal_cases)
  case (8 q xs b)
  then show ?case by (auto simp: is_blk_iff intro: remove_not_free)
next
  case (9 q xs bs)
  then have "set bs \<subseteq> range Blk" by (auto simp: list_all_iff is_blk_iff)
  with 9 show ?case by (blast intro: append_n_rep)
qed (fact fq_rep_distinct fq_rep_num fq_rep_unique popleft_rep popleft_empty popleft_n_rep remove_rep)+

end
