(* ===== verification/Block_Map.thy ===== *)
theory Block_Map
  imports Prelude
begin

text \<open>
  The prefix cache's index: \<^verbatim>\<open>BlockHashToBlockMap\<close> of
  \<^verbatim>\<open>vllm/v1/core/block_pool.py\<close>.

  A key (block hash with group id) maps to one block, or, when several blocks hold the same
  content, to a dictionary from block ids to blocks.  Blocks are named by their ids, so the
  inner dictionary is the list of its keys in insertion order.

  \<open>bmap_blocks\<close> reads a map as a function from keys to lists of blocks; the locale
  \<open>block_index\<close> states the operations on that view and is interpreted on the map.
\<close>

section \<open>The map\<close>

datatype kv_cache_blocks = OneBlock nat | BlockDict "nat list"

type_synonym block_map = "(bytes, kv_cache_blocks) odict"

text \<open>Setting an entry of a dictionary from ids to blocks: a present key keeps its place.\<close>

definition dict_add :: "nat \<Rightarrow> nat list \<Rightarrow> nat list" where
  "dict_add i ids = (if i \<in> set ids then ids else ids @ [i])"

definition bmap_init :: block_map where
  "bmap_init = []"

definition get_one_block :: "bytes \<Rightarrow> block_map \<Rightarrow> nat option result" where
  "get_one_block key m =
     (case map_of m key of
        None \<Rightarrow> Inr None
      | Some (OneBlock i) \<Rightarrow> Inr (Some i)
      | Some (BlockDict ids) \<Rightarrow> (case ids of [] \<Rightarrow> Inl StopIteration | i # _ \<Rightarrow> Inr (Some i)))"

definition bmap_insert :: "bytes \<Rightarrow> nat \<Rightarrow> block_map \<Rightarrow> block_map" where
  "bmap_insert key i m =
     (case map_of m key of
        None \<Rightarrow> AList.update key (OneBlock i) m
      | Some (OneBlock j) \<Rightarrow> AList.update key (BlockDict (dict_add i [j])) m
      | Some (BlockDict ids) \<Rightarrow> AList.update key (BlockDict (dict_add i ids)) m)"

definition bmap_pop :: "bytes \<Rightarrow> nat \<Rightarrow> block_map \<Rightarrow> nat option \<times> block_map" where
  "bmap_pop key i m =
     (let m1 = AList.delete key m in
      case map_of m key of
        None \<Rightarrow> (None, m1)
      | Some (OneBlock j) \<Rightarrow>
          if j = i then (Some j, m1) else (None, AList.update key (OneBlock j) m1)
      | Some (BlockDict ids) \<Rightarrow>
          let block = (if i \<in> set ids then Some i else None);
              ids' = remove1 i ids
          in (block, if 0 < length ids' then AList.update key (BlockDict ids') m1 else m1))"

definition bmap_len :: "block_map \<Rightarrow> nat" where
  "bmap_len m = length m"

section \<open>The map as a function\<close>

definition bmap_blocks :: "block_map \<Rightarrow> bytes \<Rightarrow> nat list" where
  "bmap_blocks m key =
     (case map_of m key of None \<Rightarrow> [] | Some (OneBlock i) \<Rightarrow> [i] | Some (BlockDict ids) \<Rightarrow> ids)"

definition bmap_wf :: "block_map \<Rightarrow> bool" where
  "bmap_wf m \<longleftrightarrow> od_wf m \<and>
     (\<forall>key ids. map_of m key = Some (BlockDict ids) \<longrightarrow> ids \<noteq> [] \<and> distinct ids)"

lemma set_dict_add [simp]: "set (dict_add i ids) = insert i (set ids)"
  by (auto simp: dict_add_def)

lemma distinct_dict_add [simp]: "distinct (dict_add i ids) = distinct ids"
  by (simp add: dict_add_def)

lemma dict_add_not_Nil [simp]: "dict_add i ids \<noteq> []"
  by (auto simp: dict_add_def)

lemma bmap_blocks_insert:
  "bmap_blocks (bmap_insert key i m) k = (if k = key then dict_add i (bmap_blocks m key) else bmap_blocks m k)"
  by (auto simp: bmap_blocks_def bmap_insert_def dict_add_def odict_simps split: option.splits kv_cache_blocks.splits)

lemma bmap_blocks_pop:
  "bmap_blocks (snd (bmap_pop key i m)) k = (if k = key then remove1 i (bmap_blocks m key) else bmap_blocks m k)"
  by (auto simp: bmap_blocks_def bmap_pop_def Let_def odict_simps split: option.splits kv_cache_blocks.splits)

lemma bmap_pop_found: "fst (bmap_pop key i m) = (if i \<in> set (bmap_blocks m key) then Some i else None)"
  by (auto simp: bmap_blocks_def bmap_pop_def Let_def split: option.splits kv_cache_blocks.splits)

lemma get_one_block_first:
  "bmap_wf m \<Longrightarrow> get_one_block key m = Inr (case bmap_blocks m key of [] \<Rightarrow> None | i # _ \<Rightarrow> Some i)"
  by (auto simp: bmap_wf_def bmap_blocks_def get_one_block_def split: option.splits kv_cache_blocks.splits list.splits)

lemma bmap_wf_insert: "bmap_wf m \<Longrightarrow> bmap_wf (bmap_insert key i m)"
  by (auto simp: bmap_wf_def bmap_insert_def odict_simps split: option.splits kv_cache_blocks.splits if_splits)

lemma bmap_wf_pop: "bmap_wf m \<Longrightarrow> bmap_wf (snd (bmap_pop key i m))"
  by (auto simp: bmap_wf_def bmap_pop_def Let_def odict_simps split: option.splits kv_cache_blocks.splits if_splits)

lemma bmap_wf_init: "bmap_wf bmap_init"
  by (simp add: bmap_wf_def bmap_init_def)

lemma bmap_blocks_init [simp]: "bmap_blocks bmap_init key = []"
  by (simp add: bmap_blocks_def bmap_init_def)

lemma bmap_blocks_distinct: "bmap_wf m \<Longrightarrow> distinct (bmap_blocks m key)"
  by (auto simp: bmap_wf_def bmap_blocks_def split: option.splits kv_cache_blocks.splits)

section \<open>The interface\<close>

text \<open>
  What the block pool relies on: an index from keys to lists of distinct blocks, where a
  lookup gives the oldest block, an insertion adds a block at the end, and a removal tells
  whether it found the block.
\<close>

locale block_index =
  fixes empty_ix :: 'm
    and lookup_ix :: "'k \<Rightarrow> 'm \<Rightarrow> 'b option result"
    and insert_ix :: "'k \<Rightarrow> 'b \<Rightarrow> 'm \<Rightarrow> 'm"
    and pop_ix :: "'k \<Rightarrow> 'b \<Rightarrow> 'm \<Rightarrow> 'b option \<times> 'm"
    and wf_ix :: "'m \<Rightarrow> bool"
    and blocks_ix :: "'m \<Rightarrow> 'k \<Rightarrow> 'b list"
  assumes empty_blocks: "blocks_ix empty_ix k = []"
    and empty_wf: "wf_ix empty_ix"
    and lookup_hd: "wf_ix m \<Longrightarrow> lookup_ix k m = Inr (case blocks_ix m k of [] \<Rightarrow> None | b # _ \<Rightarrow> Some b)"
    and insert_wf: "wf_ix m \<Longrightarrow> wf_ix (insert_ix k b m)"
    and insert_set: "set (blocks_ix (insert_ix k b m) k') = (if k' = k then insert b (set (blocks_ix m k')) else set (blocks_ix m k'))"
    and insert_hd: "blocks_ix m k' \<noteq> [] \<Longrightarrow> hd (blocks_ix (insert_ix k b m) k') = hd (blocks_ix m k')"
    and pop_wf: "wf_ix m \<Longrightarrow> wf_ix (snd (pop_ix k b m))"
    and pop_found: "fst (pop_ix k b m) = (if b \<in> set (blocks_ix m k) then Some b else None)"
    and pop_set: "wf_ix m \<Longrightarrow> set (blocks_ix (snd (pop_ix k b m)) k') = (if k' = k then set (blocks_ix m k') - {b} else set (blocks_ix m k'))"
begin

lemma lookup_sound: "wf_ix m \<Longrightarrow> lookup_ix k m = Inr (Some b) \<Longrightarrow> b \<in> set (blocks_ix m k)"
  using lookup_hd [of m k] by (auto split: list.splits)

lemma lookup_miss_iff: "wf_ix m \<Longrightarrow> lookup_ix k m = Inr None \<longleftrightarrow> blocks_ix m k = []"
  using lookup_hd [of m k] by (auto split: list.splits)

lemma lookup_total: "wf_ix m \<Longrightarrow> \<exists>b. lookup_ix k m = Inr b"
  using lookup_hd [of m k] by auto

text \<open>A cached block stays visible while other blocks are cached under the same key.\<close>

lemma lookup_insert_keeps:
  assumes "wf_ix m" "lookup_ix k m = Inr (Some b)"
  shows "lookup_ix k (insert_ix k' c m) = Inr (Some b)"
proof -
  from assms have ne: "blocks_ix m k \<noteq> []" and hd: "hd (blocks_ix m k) = b"
    using lookup_hd [of m k] by (auto split: list.splits)
  have "set (blocks_ix (insert_ix k' c m) k) \<noteq> {}"
    using ne by (simp add: insert_set)
  then show ?thesis
    using lookup_hd [OF insert_wf [OF assms(1)], of k k' c] insert_hd [OF ne, of k' c] hd
    by (auto split: list.splits)
qed

lemma lookup_insert_fresh:
  assumes "wf_ix m" "blocks_ix m k = []"
  shows "lookup_ix k (insert_ix k b m) = Inr (Some b)"
proof -
  have s: "set (blocks_ix (insert_ix k b m) k) = {b}" using assms(2) by (simp add: insert_set)
  then obtain c cs where "blocks_ix (insert_ix k b m) k = c # cs" by (cases "blocks_ix (insert_ix k b m) k") auto
  with s have "blocks_ix (insert_ix k b m) k = b # cs" by auto
  then show ?thesis using lookup_hd [OF insert_wf [OF assms(1)], of k k b] by simp
qed

lemma lookup_pop_last:
  assumes "wf_ix m" "set (blocks_ix m k) \<subseteq> {b}"
  shows "lookup_ix k (snd (pop_ix k b m)) = Inr None"
proof -
  have "set (blocks_ix (snd (pop_ix k b m)) k) = {}" using assms by (auto simp: pop_set)
  then show ?thesis using lookup_hd [OF pop_wf [OF assms(1)], of k k b] by simp
qed

end

interpretation bmap: block_index bmap_init get_one_block bmap_insert bmap_pop bmap_wf bmap_blocks
proof (unfold_locales, goal_cases)
  case (6 m k' k b)
  then show ?case by (auto simp: bmap_blocks_insert dict_add_def)
next
  case (9 m k b k')
  then show ?case by (simp add: bmap_blocks_pop bmap_blocks_distinct set_remove1_eq)
qed (simp_all add: bmap_blocks_init bmap_wf_init get_one_block_first bmap_wf_insert bmap_wf_pop
       bmap_pop_found bmap_blocks_insert)

end
