(* ===== verification/Request_State.thy ===== *)
theory Request_State
  imports Prelude "HOL-Library.Product_Lexorder" "HOL-Library.List_Lexorder" "HOL-Library.Char_ord"
begin

text \<open>
  Requests: \<^verbatim>\<open>vllm/v1/request.py\<close>, the stop check of
  \<^verbatim>\<open>vllm/v1/core/sched/utils.py\<close>, and the placeholder ranges of
  \<^verbatim>\<open>vllm/multimodal/inputs.py\<close> that requests carry.

  A request is a record; an attribute that only the transport or tracing layer reads
  (\<^verbatim>\<open>trace_headers\<close>, \<^verbatim>\<open>kv_transfer_params\<close>, event timestamps) is left out.
  A prompt-embedding tensor is the list of its rows' bytes, a structured output request
  the state of its grammar (\<open>Some ready\<close>), a token an \<open>int\<close>, a time stamp a \<open>real\<close>.
\<close>

section \<open>Parts of a request\<close>

record placeholder_range =
  offset :: nat
  ph_length :: nat
  is_embed :: "bool list option"

record mm_feature =
  modality :: string
  mm_identifier :: string
  mm_position :: placeholder_range

record lora_req =
  lora_name :: string
  lora_int_id :: int

record sampling_params_t =
  sp_max_tokens :: "int option"
  sp_min_tokens :: int
  sp_ignore_eos :: bool
  sp_stop_token_ids :: "int list option"
  sp_skip_reading_prefix_cache :: "bool option"
  sp_structured_outputs :: bool

record pooling_params_t =
  pp_skip_reading_prefix_cache :: "bool option"

datatype request_status =
    WAITING
  | WAITING_FOR_FSM
  | WAITING_FOR_REMOTE_KVS
  | RUNNING
  | PREEMPTED
  | FINISHED_STOPPED
  | FINISHED_LENGTH_CAPPED
  | FINISHED_ABORTED
  | FINISHED_IGNORED
  | FINISHED_ERROR

datatype finish_reason = FR_STOP | FR_LENGTH | FR_ABORT | FR_ERROR

datatype engine_event = QUEUED | SCHEDULED | PREEMPTED_EVENT

record request =
  request_id :: string
  client_index :: int
  priority :: int
  sampling_params :: "sampling_params_t option"
  pooling_params :: "pooling_params_t option"
  eos_token_id :: "int option"
  lora_request :: "lora_req option"
  structured_output_request :: "bool option"
  arrival_time :: real
  status :: request_status
  events :: "engine_event list"
  stop_reason :: "int option"
  max_tokens :: int
  prompt_token_ids :: "int list option"
  prompt_embeds :: "bytes list option"
  num_prompt_tokens :: nat
  output_token_ids :: "int list"
  all_token_ids :: "int list"
  num_output_placeholders :: int
  discard_latest_async_tokens :: bool
  spec_token_ids :: "int list"
  num_computed_tokens :: int
  cache_salt :: "string option"
  mm_features :: "mm_feature list"
  num_cached_tokens :: int
  num_nans_in_logits :: int
  num_preemptions :: nat
  num_external_computed_tokens :: int
  block_hashes :: "bytes list"
  skip_reading_prefix_cache :: bool

section \<open>Status values\<close>

text \<open>\<^verbatim>\<open>RequestStatus\<close> is an \<^verbatim>\<open>IntEnum\<close>: the members are ordered by declaration.\<close>

fun status_value :: "request_status \<Rightarrow> nat" where
  "status_value WAITING = 1"
| "status_value WAITING_FOR_FSM = 2"
| "status_value WAITING_FOR_REMOTE_KVS = 3"
| "status_value RUNNING = 4"
| "status_value PREEMPTED = 5"
| "status_value FINISHED_STOPPED = 6"
| "status_value FINISHED_LENGTH_CAPPED = 7"
| "status_value FINISHED_ABORTED = 8"
| "status_value FINISHED_IGNORED = 9"
| "status_value FINISHED_ERROR = 10"

lemma status_value_inj [simp]: "status_value a = status_value b \<longleftrightarrow> a = b"
  by (cases a; cases b) simp_all

instantiation request_status :: linorder
begin

definition less_eq_request_status :: "request_status \<Rightarrow> request_status \<Rightarrow> bool" where
  "less_eq_request_status a b \<longleftrightarrow> status_value a \<le> status_value b"

definition less_request_status :: "request_status \<Rightarrow> request_status \<Rightarrow> bool" where
  "less_request_status a b \<longleftrightarrow> status_value a < status_value b"

instance
  by standard (auto simp: less_eq_request_status_def less_request_status_def)

end

definition status_is_finished :: "request_status \<Rightarrow> bool" where
  "status_is_finished s \<longleftrightarrow> PREEMPTED < s"

fun finished_reason_map :: "request_status \<Rightarrow> finish_reason option" where
  "finished_reason_map FINISHED_STOPPED = Some FR_STOP"
| "finished_reason_map FINISHED_LENGTH_CAPPED = Some FR_LENGTH"
| "finished_reason_map FINISHED_ABORTED = Some FR_ABORT"
| "finished_reason_map FINISHED_IGNORED = Some FR_LENGTH"
| "finished_reason_map FINISHED_ERROR = Some FR_ERROR"
| "finished_reason_map _ = None"

section \<open>Accessors\<close>

definition num_tokens :: "request \<Rightarrow> nat" where
  "num_tokens r = length (all_token_ids r)"

definition num_tokens_with_spec :: "request \<Rightarrow> nat" where
  "num_tokens_with_spec r = length (all_token_ids r) + length (spec_token_ids r)"

definition num_output_tokens :: "request \<Rightarrow> nat" where
  "num_output_tokens r = length (output_token_ids r)"

definition use_structured_output :: "request \<Rightarrow> bool" where
  "use_structured_output r \<longleftrightarrow> structured_output_request r \<noteq> None"

definition has_encoder_inputs :: "request \<Rightarrow> bool" where
  "has_encoder_inputs r \<longleftrightarrow> 0 < length (mm_features r)"

definition is_finished :: "request \<Rightarrow> bool" where
  "is_finished r = status_is_finished (status r)"

definition get_finished_reason :: "request \<Rightarrow> finish_reason option" where
  "get_finished_reason r = finished_reason_map (status r)"

definition get_skip_reading_prefix_cache ::
  "sampling_params_t option \<Rightarrow> pooling_params_t option \<Rightarrow> bool" where
  "get_skip_reading_prefix_cache sp pp =
     (case (case sp of None \<Rightarrow> None | Some s \<Rightarrow> sp_skip_reading_prefix_cache s) of
        Some b \<Rightarrow> b
      | None \<Rightarrow>
          (case (case pp of None \<Rightarrow> None | Some p \<Rightarrow> pp_skip_reading_prefix_cache p) of
             Some b \<Rightarrow> b
           | None \<Rightarrow> False))"

definition record_event :: "engine_event \<Rightarrow> request \<Rightarrow> request" where
  "record_event e r = r\<lparr>events := events r @ [e]\<rparr>"

definition take_events :: "request \<Rightarrow> engine_event list option \<times> request" where
  "take_events r = (if events r = [] then (None, r) else (Some (events r), r\<lparr>events := []\<rparr>))"

text \<open>
  \<^verbatim>\<open>__lt__\<close> compares priority, then arrival time, then the request id.  The last
  resort, the address of the object, only decides between two objects with one id, which
  the scheduler never holds.
\<close>

definition request_lt :: "request \<Rightarrow> request \<Rightarrow> bool" where
  "request_lt a b =
     (if priority a \<noteq> priority b then priority a < priority b
      else if arrival_time a \<noteq> arrival_time b then arrival_time a < arrival_time b
      else if request_id a \<noteq> request_id b then request_id a < request_id b
      else False)"

section \<open>Placeholder ranges\<close>

definition embeds_cumsum :: "bool list \<Rightarrow> nat \<Rightarrow> nat" where
  "embeds_cumsum emb i = length (filter id (take (i + 1) emb))"

definition get_num_embeds :: "placeholder_range \<Rightarrow> nat result" where
  "get_num_embeds p =
     (case is_embed p of
        None \<Rightarrow> Inr (ph_length p)
      | Some emb \<Rightarrow> if emb = [] then Inl IndexError else Inr (embeds_cumsum emb (length emb - 1)))"

definition get_embeds_indices_in_range :: "placeholder_range \<Rightarrow> nat \<Rightarrow> nat \<Rightarrow> (nat \<times> nat) result" where
  "get_embeds_indices_in_range p start_idx end_idx =
     (case is_embed p of
        None \<Rightarrow> Inr (start_idx, end_idx)
      | Some emb \<Rightarrow>
          if 0 < start_idx \<and> length emb \<le> start_idx - 1 then Inl IndexError
          else if emb = [] \<or> (0 < end_idx \<and> length emb \<le> end_idx - 1) then Inl IndexError
          else Inr (if 0 < start_idx then embeds_cumsum emb (start_idx - 1) else 0,
                    if 0 < end_idx then embeds_cumsum emb (end_idx - 1)
                    else embeds_cumsum emb (length emb - 1)))"

definition get_num_encoder_embeds :: "request \<Rightarrow> nat \<Rightarrow> nat result" where
  "get_num_encoder_embeds r input_id =
     rbind (rassert (input_id < length (mm_features r)))
       (\<lambda>_. get_num_embeds (mm_position (mm_features r ! input_id)))"

section \<open>Stopping\<close>

definition check_stop :: "request \<Rightarrow> nat \<Rightarrow> (bool \<times> request) result" where
  "check_stop r max_model_len =
     rbind (rassert (pooling_params r = None)) (\<lambda>_.
       case sampling_params r of
         None \<Rightarrow> Inl AssertionError
       | Some sp \<Rightarrow>
           if int (num_output_tokens r) < sp_min_tokens sp then Inr (False, r)
           else if output_token_ids r = [] then Inl IndexError
           else
             let last_token_id = last (output_token_ids r) in
             if \<not> sp_ignore_eos sp \<and> Some last_token_id = eos_token_id r
             then Inr (True, r\<lparr>status := FINISHED_STOPPED\<rparr>)
             else if last_token_id \<in> set (case sp_stop_token_ids sp of None \<Rightarrow> [] | Some ids \<Rightarrow> ids)
             then Inr (True, r\<lparr>status := FINISHED_STOPPED, stop_reason := Some last_token_id\<rparr>)
             else if max_model_len \<le> num_tokens r \<or> max_tokens r \<le> int (num_output_tokens r)
             then Inr (True, r\<lparr>status := FINISHED_LENGTH_CAPPED\<rparr>)
             else Inr (False, r))"

text \<open>\<^verbatim>\<open>remove_all\<close>: a set of one element is removed in place, once; more by a filter.\<close>

definition remove_all :: "'a list \<Rightarrow> 'a list \<Rightarrow> 'a list" where
  "remove_all lst items =
     (case remdups items of
        [] \<Rightarrow> lst
      | [item] \<Rightarrow> remove1 item lst
      | _ \<Rightarrow> filter (\<lambda>x. x \<notin> set items) lst)"

section \<open>Laws\<close>

lemma status_is_finished_iff:
  "status_is_finished s \<longleftrightarrow> s \<in> {FINISHED_STOPPED, FINISHED_LENGTH_CAPPED, FINISHED_ABORTED, FINISHED_IGNORED, FINISHED_ERROR}"
  by (cases s) (simp_all add: status_is_finished_def less_request_status_def)

text \<open>A status has a finish reason exactly when it is a finished one.\<close>

lemma finished_reason_iff: "finished_reason_map s \<noteq> None \<longleftrightarrow> status_is_finished s"
  by (cases s) (simp_all add: status_is_finished_iff)

lemma request_lt_key:
  "request_lt a b \<longleftrightarrow>
    (priority a, arrival_time a, request_id a) < (priority b, arrival_time b, request_id b)"
  by (auto simp: request_lt_def less_prod_def)

lemma request_lt_irrefl: "\<not> request_lt a a"
  by (simp add: request_lt_def)

lemma request_lt_trans: "request_lt a b \<Longrightarrow> request_lt b c \<Longrightarrow> request_lt a c"
  unfolding request_lt_key by (rule less_trans)

lemma request_lt_total: "request_lt a b \<or> request_lt b a \<or> request_id a = request_id b"
  unfolding request_lt_key by (metis prod.inject linorder_less_linear)

lemma remove_all_distinct:
  assumes "distinct lst"
  shows "remove_all lst items = filter (\<lambda>x. x \<notin> set items) lst"
proof -
  consider "remdups items = []" | x where "remdups items = [x]" | x y zs where "remdups items = x # y # zs"
    by (metis neq_Nil_conv)
  then show ?thesis
  proof cases
    case 2
    then have "set items = {x}" by (metis empty_set list.simps(15) set_remdups)
    then show ?thesis using 2 assms by (simp add: remove_all_def distinct_remove1_removeAll removeAll_filter_not_eq)
      (metis (mono_tags, lifting) filter_cong)
  qed (auto simp: remove_all_def)
qed

lemma check_stop_keeps:
  assumes "check_stop r n = Inr (b, r')"
  shows "all_token_ids r' = all_token_ids r" "output_token_ids r' = output_token_ids r"
    "sampling_params r' = sampling_params r" "pooling_params r' = pooling_params r"
    "max_tokens r' = max_tokens r" "eos_token_id r' = eos_token_id r"
  using assms by (auto simp: check_stop_def result_simps Let_def split: option.splits if_splits)

end
