(* ===== verification/Block_Hash.thy ===== *)
theory Block_Hash
  imports Request_State "HOL-Library.Countable"
begin

text \<open>
  Block hashes for prefix caching: the hash functions of
  \<^verbatim>\<open>vllm/v1/core/kv_cache_utils.py\<close>, and the parts of \<^verbatim>\<open>vllm/v1/request.py\<close>
  (construction, appending output tokens) that compute hashes.

  The hash function itself (\<^verbatim>\<open>sha256\<close> or \<^verbatim>\<open>xxhash\<close> over a serialised tuple, chosen by
  configuration) and the seed \<^verbatim>\<open>NONE_HASH\<close> are the parameters \<open>H\<close> and \<open>none_hash\<close>.
  Theorems that need it assume \<open>H\<close> injective, the collision freeness that prefix caching
  relies on.
\<close>

section \<open>Keys: a block hash with its group id\<close>

unbundle bit_operations_syntax

definition int_to_bytes4 :: "nat \<Rightarrow> bytes result" where
  "int_to_bytes4 g =
     (if g < 2 ^ 32
      then Inr [word_of_nat (g div 2 ^ 24), word_of_nat (g div 2 ^ 16),
                word_of_nat (g div 2 ^ 8), word_of_nat g]
      else Inl OverflowError)"

definition int_from_bytes :: "bytes \<Rightarrow> nat" where
  "int_from_bytes bs = foldl (\<lambda>acc b. acc * 256 + unat b) 0 bs"

definition make_block_hash_with_group_id :: "bytes \<Rightarrow> nat \<Rightarrow> bytes result" where
  "make_block_hash_with_group_id h group_id =
     rbind (int_to_bytes4 group_id) (\<lambda>b. Inr (h @ b))"

definition get_block_hash :: "bytes \<Rightarrow> bytes" where
  "get_block_hash key = take (length key - 4) key"

definition get_group_id :: "bytes \<Rightarrow> nat" where
  "get_group_id key = int_from_bytes (drop (length key - 4) key)"

datatype external_block_hash = HashBytes bytes | HashInt nat

text \<open>The environment variable \<^verbatim>\<open>VLLM_KV_EVENTS_USE_INT_BLOCK_HASHES\<close> is an argument.\<close>

definition maybe_convert_block_hash :: "bool \<Rightarrow> bytes \<Rightarrow> external_block_hash" where
  "maybe_convert_block_hash use_int h =
     (if \<not> use_int then HashBytes h else HashInt (int_from_bytes h AND (2 ^ 64 - 1)))"

section \<open>Extra keys\<close>

text \<open>The extra keys are plain \<^verbatim>\<open>str\<close> and \<^verbatim>\<open>bytes\<close> values, with no tag of their origin.\<close>

datatype extra_key = StrKey string | BytesKey bytes

definition need_extra_keys :: "request \<Rightarrow> bool" where
  "need_extra_keys r \<longleftrightarrow> mm_features r \<noteq> [] \<or> lora_request r \<noteq> None \<or> cache_salt r \<noteq> None"

function gen_mm_loop ::
  "mm_feature list \<Rightarrow> nat \<Rightarrow> nat \<Rightarrow> nat \<Rightarrow> extra_key list \<Rightarrow> extra_key list \<times> nat" where
  "gen_mm_loop feats start_idx end_idx cur keys =
     (if cur < length feats then
        let f = feats ! cur; off = offset (mm_position f); len = ph_length (mm_position f) in
        if off < end_idx then
          if off + len < start_idx then gen_mm_loop feats start_idx end_idx (cur + 1) keys
          else let keys' = keys @ [StrKey (mm_identifier f)] in
               if off + len \<le> end_idx then gen_mm_loop feats start_idx end_idx (cur + 1) keys'
               else (keys', cur)
        else (keys, cur)
      else (keys, cur))"
  by pat_completeness auto
termination
  by (relation "measure (\<lambda>(feats, _, _, cur, _). length feats - cur)") auto

declare gen_mm_loop.simps [simp del]

definition gen_mm_extra_hash_keys ::
  "request \<Rightarrow> nat \<Rightarrow> nat \<Rightarrow> int \<Rightarrow> (extra_key list \<times> int) result" where
  "gen_mm_extra_hash_keys r start_token_idx end_token_idx start_mm_idx =
     (let feats = mm_features r in
      if feats = [] then Inr ([], start_mm_idx)
      else
        let last_pos = mm_position (last feats) in
        if offset last_pos + ph_length last_pos < start_token_idx then Inr ([], start_mm_idx)
        else
          rbind (if start_mm_idx < 0
                 then rbind (rassert (- start_mm_idx \<le> int (length feats)))
                        (\<lambda>_. Inr (int (length feats) + start_mm_idx))
                 else Inr start_mm_idx)
            (\<lambda>idx. case gen_mm_loop feats start_token_idx end_token_idx (nat idx) [] of
                     (keys, cur) \<Rightarrow> Inr (keys, int cur)))"

definition gen_lora_extra_hash_keys :: "request \<Rightarrow> extra_key list" where
  "gen_lora_extra_hash_keys r =
     (case lora_request r of None \<Rightarrow> [] | Some l \<Rightarrow> [StrKey (lora_name l)])"

definition gen_prompt_embeds_extra_hash_keys :: "request \<Rightarrow> nat \<Rightarrow> nat \<Rightarrow> extra_key list" where
  "gen_prompt_embeds_extra_hash_keys r start_token_idx end_token_idx =
     (case prompt_embeds r of
        None \<Rightarrow> []
      | Some rows \<Rightarrow> [BytesKey (concat (py_slice rows start_token_idx end_token_idx))])"

definition generate_block_hash_extra_keys ::
  "request \<Rightarrow> nat \<Rightarrow> nat \<Rightarrow> int \<Rightarrow> (extra_key list option \<times> int) result" where
  "generate_block_hash_extra_keys r start_token_idx end_token_idx start_mm_idx =
     rbind (gen_mm_extra_hash_keys r start_token_idx end_token_idx start_mm_idx)
       (\<lambda>(mm_extra_keys, new_start_mm_idx).
          let cache_salt_keys =
                (case cache_salt r of
                   None \<Rightarrow> []
                 | Some s \<Rightarrow> if start_token_idx = 0 \<and> s \<noteq> [] then [StrKey s] else []);
              extra_keys = gen_lora_extra_hash_keys r @ mm_extra_keys @ cache_salt_keys
                @ gen_prompt_embeds_extra_hash_keys r start_token_idx end_token_idx
          in if extra_keys = [] then Inr (None, new_start_mm_idx)
             else Inr (Some extra_keys, new_start_mm_idx))"

section \<open>Hashing the blocks of a request\<close>

type_synonym hash_fn = "bytes \<times> int list \<times> extra_key list option \<Rightarrow> bytes"

definition hash_block_tokens ::
  "hash_fn \<Rightarrow> bytes \<Rightarrow> bytes option \<Rightarrow> int list \<Rightarrow> extra_key list option \<Rightarrow> bytes" where
  "hash_block_tokens H none_hash parent_block_hash tokens extra_keys =
     (let parent = (case parent_block_hash of
                      None \<Rightarrow> none_hash
                    | Some p \<Rightarrow> if p = [] then none_hash else p)
      in H (parent, tokens, extra_keys))"

function hasher_loop ::
  "hash_fn \<Rightarrow> bytes \<Rightarrow> nat \<Rightarrow> request \<Rightarrow> nat \<Rightarrow> int \<Rightarrow> bytes option \<Rightarrow> bytes list result" where
  "hasher_loop H none_hash block_size r start_token_idx curr_mm_idx prev =
     (let end_token_idx = start_token_idx + block_size in
      if num_tokens r < end_token_idx then Inr []
      else if block_size = 0 then Inl Diverges
      else
        rbind (generate_block_hash_extra_keys r start_token_idx end_token_idx curr_mm_idx)
          (\<lambda>(extra_keys, mm_idx).
             let block_hash = hash_block_tokens H none_hash prev
                   (py_slice (all_token_ids r) start_token_idx end_token_idx) extra_keys
             in rbind (hasher_loop H none_hash block_size r (start_token_idx + block_size)
                         mm_idx (Some block_hash))
                  (\<lambda>hs. Inr (block_hash # hs))))"
  by pat_completeness auto
termination
  by (relation "measure (\<lambda>(_, _, _, r, start, _, _). Suc (num_tokens r) - start)") auto

declare hasher_loop.simps [simp del]

definition request_block_hasher ::
  "hash_fn \<Rightarrow> bytes \<Rightarrow> nat \<Rightarrow> request \<Rightarrow> bytes list result" where
  "request_block_hasher H none_hash block_size r =
     (let start_token_idx = length (block_hashes r) * block_size in
      if num_tokens r < start_token_idx + block_size then Inr []
      else
        let curr_mm_idx = (if 0 < start_token_idx then - 1 else 0);
            prev = (if block_hashes r = [] then None else Some (last (block_hashes r)))
        in hasher_loop H none_hash block_size r start_token_idx curr_mm_idx prev)"

section \<open>Construction of a request and appending output\<close>

type_synonym block_hasher = "request \<Rightarrow> bytes list result"

definition length_from_prompt_token_ids_or_embeds ::
  "int list option \<Rightarrow> bytes list option \<Rightarrow> nat result" where
  "length_from_prompt_token_ids_or_embeds toks embs =
     (case toks of
        None \<Rightarrow> (case embs of None \<Rightarrow> Inl ValueError | Some rows \<Rightarrow> Inr (length rows))
      | Some ts \<Rightarrow>
          (case embs of
             None \<Rightarrow> Inr (length ts)
           | Some rows \<Rightarrow> if length rows \<noteq> length ts then Inl ValueError else Inr (length ts)))"

definition request_init ::
  "block_hasher option \<Rightarrow> string \<Rightarrow> int list option \<Rightarrow> sampling_params_t option \<Rightarrow>
   pooling_params_t option \<Rightarrow> int option \<Rightarrow> int \<Rightarrow> real \<Rightarrow> bytes list option \<Rightarrow>
   mm_feature list \<Rightarrow> lora_req option \<Rightarrow> string option \<Rightarrow> int \<Rightarrow> request result" where
  "request_init hasher rid toks sp pp eos client arrival embs feats lora salt prio =
     rbind (case pp of
              Some _ \<Rightarrow> Inr (1, WAITING)
            | None \<Rightarrow>
                (case sp of
                   Some s \<Rightarrow>
                     (case sp_max_tokens s of
                        None \<Rightarrow> Inl AssertionError
                      | Some mt \<Rightarrow> Inr (mt, if sp_structured_outputs s then WAITING_FOR_FSM else WAITING))
                 | None \<Rightarrow> Inl ValueError))
       (\<lambda>(mt, st).
     rbind (length_from_prompt_token_ids_or_embeds toks embs)
       (\<lambda>n.
     let r = \<lparr>request_id = rid, client_index = client, priority = prio,
              sampling_params = sp, pooling_params = pp, eos_token_id = eos,
              lora_request = lora,
              structured_output_request =
                (case sp of None \<Rightarrow> None | Some s \<Rightarrow> if sp_structured_outputs s then Some False else None),
              arrival_time = arrival, status = st, events = [], stop_reason = None,
              max_tokens = mt, prompt_token_ids = toks, prompt_embeds = embs,
              num_prompt_tokens = n, output_token_ids = [],
              all_token_ids = (case toks of Some ts \<Rightarrow> ts | None \<Rightarrow> replicate n 0),
              num_output_placeholders = 0, discard_latest_async_tokens = False,
              spec_token_ids = [], num_computed_tokens = 0, cache_salt = salt,
              mm_features = feats, num_cached_tokens = - 1, num_nans_in_logits = 0,
              num_preemptions = 0, num_external_computed_tokens = 0, block_hashes = [],
              skip_reading_prefix_cache = get_skip_reading_prefix_cache sp pp\<rparr>
     in case hasher of
          None \<Rightarrow> Inr r
        | Some f \<Rightarrow> rbind (f r) (\<lambda>hs. Inr (r\<lparr>block_hashes := hs\<rparr>))))"

definition append_output_token_ids ::
  "block_hasher option \<Rightarrow> int list \<Rightarrow> request \<Rightarrow> request result" where
  "append_output_token_ids hasher token_ids r =
     (let r1 = r\<lparr>output_token_ids := output_token_ids r @ token_ids,
                 all_token_ids := all_token_ids r @ token_ids\<rparr>
      in case hasher of
           None \<Rightarrow> Inr r1
         | Some f \<Rightarrow> rbind (f r1) (\<lambda>hs. Inr (r1\<lparr>block_hashes := block_hashes r1 @ hs\<rparr>)))"

section \<open>Hashes at a coarser granularity\<close>

datatype block_hash_list = HashList "bytes list" | ScaledHashList "bytes list" nat

definition block_hash_list_with_block_size :: "bytes list \<Rightarrow> nat \<Rightarrow> nat \<Rightarrow> block_hash_list result" where
  "block_hash_list_with_block_size hashes hash_block_size target_block_size =
     (if hash_block_size = 0 then Inl ZeroDivisionError
      else rbind (rassert (target_block_size mod hash_block_size = 0))
             (\<lambda>_. Inr (ScaledHashList hashes (target_block_size div hash_block_size))))"

fun bhl_len :: "block_hash_list \<Rightarrow> nat result" where
  "bhl_len (HashList hs) = Inr (length hs)"
| "bhl_len (ScaledHashList hs k) = (if k = 0 then Inl ZeroDivisionError else Inr (length hs div k))"

definition get_value_at :: "bytes list \<Rightarrow> nat \<Rightarrow> nat \<Rightarrow> bytes result" where
  "get_value_at hashes scale_factor idx =
     (let base = idx * scale_factor; e = base + scale_factor in
      rbind (py_get hashes base) (\<lambda>h.
      rbind (rmap (py_get hashes) [base + 1..<e]) (\<lambda>hs. Inr (h @ concat hs))))"

fun bhl_get :: "block_hash_list \<Rightarrow> nat \<Rightarrow> bytes result" where
  "bhl_get (HashList hs) i = py_get hs i"
| "bhl_get (ScaledHashList hs k) i = get_value_at hs k i"

text \<open>The slice \<^verbatim>\<open>block_hashes[start:]\<close>, and iteration over all entries (\<^verbatim>\<open>start = 0\<close>).\<close>

fun bhl_from :: "block_hash_list \<Rightarrow> nat \<Rightarrow> bytes list result" where
  "bhl_from (HashList hs) start = Inr (drop start hs)"
| "bhl_from (ScaledHashList hs k) start =
     rbind (bhl_len (ScaledHashList hs k)) (\<lambda>n. rmap (get_value_at hs k) [start..<n])"

section \<open>Laws of keys\<close>

lemma int_to_bytes4_length: "int_to_bytes4 g = Inr b \<Longrightarrow> length b = 4"
  by (auto simp: int_to_bytes4_def split: if_splits)

lemma int_from_bytes4: "int_to_bytes4 g = Inr b \<Longrightarrow> int_from_bytes b = g"
proof -
  assume "int_to_bytes4 g = Inr b"
  then have b: "b = [word_of_nat (g div 2 ^ 24), word_of_nat (g div 2 ^ 16), word_of_nat (g div 2 ^ 8), word_of_nat g]"
    and g: "g < 2 ^ 32"
    by (auto simp: int_to_bytes4_def split: if_splits)
  have "int_from_bytes b = (((g div 2 ^ 24) mod 256 * 256 + (g div 2 ^ 16) mod 256) * 256
      + (g div 2 ^ 8) mod 256) * 256 + g mod 256"
    by (simp add: b int_from_bytes_def unat_of_nat)
  also have "\<dots> = g" using g by (simp add: div_mult2_eq [of _ 256 256, simplified]
      div_mult2_eq [of _ 256 65536, simplified])
  finally show ?thesis .
qed

lemma key_hash: "make_block_hash_with_group_id h g = Inr k \<Longrightarrow> get_block_hash k = h"
  by (auto simp: make_block_hash_with_group_id_def get_block_hash_def result_simps dest: int_to_bytes4_length)

lemma key_group: "make_block_hash_with_group_id h g = Inr k \<Longrightarrow> get_group_id k = g"
  by (auto simp: make_block_hash_with_group_id_def get_group_id_def result_simps int_to_bytes4_length int_from_bytes4)

lemma key_inj:
  assumes "make_block_hash_with_group_id h g = Inr k" "make_block_hash_with_group_id h' g' = Inr k"
  shows "h = h' \<and> g = g'"
  using assms key_hash key_group by metis

lemma key_total: "g < 2 ^ 32 \<Longrightarrow> \<exists>k. make_block_hash_with_group_id h g = Inr k"
  by (simp add: make_block_hash_with_group_id_def int_to_bytes4_def)

section \<open>Laws of extra keys\<close>

text \<open>
  The features a block overlaps are in its extra keys, when the scan starts at or before
  the first of them and the features are sorted by offset.
\<close>

lemma gen_mm_loop_keys_grow:
  "set keys \<subseteq> set (fst (gen_mm_loop feats s e cur keys))"
proof (induction feats s e cur keys rule: gen_mm_loop.induct)
  case (1 feats s e cur keys)
  then show ?case
    by (subst gen_mm_loop.simps) (auto simp: Let_def)
qed

lemma gen_mm_loop_covers:
  assumes "sorted (map (\<lambda>f. offset (mm_position f)) feats)"
    and "cur \<le> i" "i < length feats"
    and "offset (mm_position (feats ! i)) < e"
    and "s < offset (mm_position (feats ! i)) + ph_length (mm_position (feats ! i))"
    and "\<And>j. j < i \<Longrightarrow> offset (mm_position (feats ! j)) + ph_length (mm_position (feats ! j))
           \<le> offset (mm_position (feats ! i))"
  shows "StrKey (mm_identifier (feats ! i)) \<in> set (fst (gen_mm_loop feats s e cur keys))"
  using assms
proof (induction feats s e cur keys rule: gen_mm_loop.induct)
  case (1 feats s e cur keys)
  let ?f = "feats ! cur" and ?fi = "feats ! i"
  let ?off = "offset (mm_position ?f)" and ?len = "ph_length (mm_position ?f)"
  have cur: "cur < length feats" using "1.prems" by simp
  have "?off \<le> offset (mm_position ?fi)"
    using "1.prems"(1-3) by (auto dest: sorted_nth_mono [of _ cur i])
  with "1.prems" have off: "?off < e" by simp
  show ?case
  proof (cases "cur = i")
    case True
    have "StrKey (mm_identifier ?fi) \<in> set (fst (gen_mm_loop feats s e (cur + 1) (keys @ [StrKey (mm_identifier ?f)])))"
      using gen_mm_loop_keys_grow [of "keys @ [StrKey (mm_identifier ?f)]" feats s e "cur + 1"] True by auto
    with cur off True "1.prems" show ?thesis
      by (subst gen_mm_loop.simps) (simp add: Let_def)
  next
    case False
    then have ci: "cur + 1 \<le> i" using "1.prems" by simp
    have "?off + ?len \<le> offset (mm_position ?fi)" using "1.prems"(6) [of cur] ci by simp
    with "1.prems" have len: "?off + ?len \<le> e" by simp
    show ?thesis
    proof (cases "?off + ?len < s")
      case True
      from "1.IH"(1) [OF cur refl refl refl off True] "1.prems" ci True cur off show ?thesis
        by (subst gen_mm_loop.simps) (simp add: Let_def)
    next
      case nlt: False
      from "1.IH"(2) [OF cur refl refl refl off nlt refl len] "1.prems" ci nlt cur off len show ?thesis
        by (subst gen_mm_loop.simps) (simp add: Let_def)
    qed
  qed
qed

section \<open>Laws of the hash chain\<close>

lemma hasher_loop_stop: "num_tokens r < s + bs \<Longrightarrow> hasher_loop H n bs r s mm prev = Inr []"
  by (subst hasher_loop.simps) simp

lemma hasher_loop_step:
  assumes "s + bs \<le> num_tokens r" "0 < bs"
  shows "hasher_loop H n bs r s mm prev =
    rbind (generate_block_hash_extra_keys r s (s + bs) mm) (\<lambda>(ek, mm').
      let h = hash_block_tokens H n prev (py_slice (all_token_ids r) s (s + bs)) ek in
      rbind (hasher_loop H n bs r (s + bs) mm' (Some h)) (\<lambda>hs. Inr (h # hs)))"
  using assms by (subst hasher_loop.simps) (simp add: Let_def)

lemma hasher_loop_length:
  assumes "0 < bs" "hasher_loop H n bs r s mm prev = Inr hs"
  shows "length hs = (num_tokens r - s) div bs"
  using assms(2)
proof (induction "num_tokens r - s" arbitrary: s mm prev hs rule: less_induct)
  case less
  show ?case
  proof (cases "num_tokens r < s + bs")
    case True
    with less.prems assms(1) have "hs = []" "num_tokens r - s < bs" by (auto simp: hasher_loop_stop)
    then show ?thesis by simp
  next
    case False
    with less.prems assms(1) obtain h hs' mm' where
      "hs = h # hs'" "hasher_loop H n bs r (s + bs) mm' (Some h) = Inr hs'"
      by (auto simp: hasher_loop_step result_simps Let_def)
    moreover from less.hyps [OF _ this(2)] False assms(1)
    have "length hs' = (num_tokens r - (s + bs)) div bs" by simp
    moreover have "(num_tokens r - s) div bs = Suc ((num_tokens r - (s + bs)) div bs)"
      using False assms(1) le_div_geq [of bs "num_tokens r - s"] by simp
    ultimately show ?thesis by simp
  qed
qed

text \<open>Each hash of a run binds the previous one, the tokens and the extra keys of its block.\<close>

lemma hasher_loop_nth:
  assumes "0 < bs" "\<And>x. H x \<noteq> []" "hasher_loop H n bs r s mm prev = Inr hs" "i < length hs"
  shows "\<exists>ek. hs ! i = hash_block_tokens H n (if i = 0 then prev else Some (hs ! (i - 1)))
      (py_slice (all_token_ids r) (s + i * bs) (s + (i + 1) * bs)) ek"
  using assms(3,4)
proof (induction i arbitrary: s mm prev hs)
  case 0
  then have "\<not> num_tokens r < s + bs" by (auto simp: hasher_loop_stop)
  with 0 assms(1) show ?case by (auto simp: hasher_loop_step result_simps Let_def)
next
  case (Suc i)
  then have "\<not> num_tokens r < s + bs" by (auto simp: hasher_loop_stop)
  with Suc.prems assms(1) obtain h hs' mm' where
    hs: "hs = h # hs'" and run: "hasher_loop H n bs r (s + bs) mm' (Some h) = Inr hs'"
    by (auto simp: hasher_loop_step result_simps Let_def)
  from Suc.IH [OF run] Suc.prems(2) hs obtain ek where
    "hs' ! i = hash_block_tokens H n (if i = 0 then Some h else Some (hs' ! (i - 1)))
      (py_slice (all_token_ids r) (s + bs + i * bs) (s + bs + (i + 1) * bs)) ek" by auto
  then show ?case by (cases i) (auto simp: hs algebra_simps)
qed

text \<open>
  The specification of a hash chain: the hash of block \<open>i\<close> as a function of the request.
\<close>

definition block_extra_keys :: "request \<Rightarrow> nat \<Rightarrow> nat \<Rightarrow> extra_key list option" where
  "block_extra_keys r bs i =
     (case generate_block_hash_extra_keys r (i * bs) ((i + 1) * bs) 0 of
        Inl _ \<Rightarrow> None | Inr (ek, _) \<Rightarrow> ek)"

fun chain_hash :: "hash_fn \<Rightarrow> bytes \<Rightarrow> nat \<Rightarrow> request \<Rightarrow> nat \<Rightarrow> bytes" where
  "chain_hash H n bs r i =
     hash_block_tokens H n (if i = 0 then None else Some (chain_hash H n bs r (i - 1)))
       (py_slice (all_token_ids r) (i * bs) ((i + 1) * bs)) (block_extra_keys r bs i)"

declare chain_hash.simps [simp del]

definition hashes_ok :: "hash_fn \<Rightarrow> bytes \<Rightarrow> nat \<Rightarrow> request \<Rightarrow> bool" where
  "hashes_ok H n bs r \<longleftrightarrow>
     block_hashes r = map (chain_hash H n bs r) [0..<num_tokens r div bs]"

lemma extra_keys_text_only:
  "mm_features r = [] \<Longrightarrow>
   generate_block_hash_extra_keys r (i * bs) ((i + 1) * bs) idx = Inr (block_extra_keys r bs i, idx)"
  by (auto simp: block_extra_keys_def generate_block_hash_extra_keys_def gen_mm_extra_hash_keys_def Let_def)

text \<open>On a request without multi-modal inputs the loop computes the rest of the chain.\<close>

lemma hasher_loop_chain:
  assumes "0 < bs" "mm_features r = []"
  shows "hasher_loop H n bs r (k * bs) mm (if k = 0 then None else Some (chain_hash H n bs r (k - 1))) =
    Inr (map (chain_hash H n bs r) [k..<num_tokens r div bs])"
proof (induction "num_tokens r div bs - k" arbitrary: k)
  case 0
  then have "num_tokens r < (k + 1) * bs"
    using assms(1) by (intro block_end_gt) simp_all
  with 0 show ?case by (simp add: hasher_loop_stop)
next
  case (Suc d)
  then have k: "k < num_tokens r div bs" by simp
  then have le: "k * bs + bs \<le> num_tokens r"
    using block_end_le [OF k] by simp
  have "[k..<num_tokens r div bs] = k # [Suc k..<num_tokens r div bs]"
    using k by (rule upt_conv_Cons)
  moreover have "hash_block_tokens H n (if k = 0 then None else Some (chain_hash H n bs r (k - 1)))
      (py_slice (all_token_ids r) (k * bs) (k * bs + bs)) (block_extra_keys r bs k) = chain_hash H n bs r k"
    by (subst chain_hash.simps [of _ _ _ _ k]) (simp add: add.commute)
  moreover have "hasher_loop H n bs r (k * bs + bs) mm (Some (chain_hash H n bs r k)) =
      Inr (map (chain_hash H n bs r) [Suc k..<num_tokens r div bs])"
    using Suc.hyps(1) [of "Suc k"] Suc.hyps(2) by (simp add: add.commute)
  ultimately show ?case
    using hasher_loop_step [OF le assms(1), of H n mm] extra_keys_text_only [OF assms(2), of k bs]
    by (simp add: Let_def add.commute)
qed

lemma generate_keys_cong:
  assumes "mm_features r' = mm_features r" "lora_request r' = lora_request r"
    "cache_salt r' = cache_salt r" "prompt_embeds r' = prompt_embeds r"
  shows "generate_block_hash_extra_keys r' s e idx = generate_block_hash_extra_keys r s e idx"
  using assms
  by (simp add: generate_block_hash_extra_keys_def gen_mm_extra_hash_keys_def
      gen_lora_extra_hash_keys_def gen_prompt_embeds_extra_hash_keys_def)

lemma py_slice_append_left: "e \<le> length xs \<Longrightarrow> py_slice (xs @ ys) s e = py_slice xs s e"
  by (simp add: py_slice_def)

lemma chain_hash_cong:
  assumes "\<And>j. j \<le> i \<Longrightarrow> py_slice (all_token_ids r') (j * bs) ((j + 1) * bs) =
      py_slice (all_token_ids r) (j * bs) ((j + 1) * bs)"
    and keys: "mm_features r' = mm_features r" "lora_request r' = lora_request r"
    "cache_salt r' = cache_salt r" "prompt_embeds r' = prompt_embeds r"
  shows "chain_hash H n bs r' i = chain_hash H n bs r i"
  using assms(1)
proof (induction i rule: less_induct)
  case (less i)
  have "block_extra_keys r' bs i = block_extra_keys r bs i"
    unfolding block_extra_keys_def generate_keys_cong [OF keys] ..
  moreover have "chain_hash H n bs r' (i - 1) = chain_hash H n bs r (i - 1)" if "i \<noteq> 0"
    using less that by simp
  ultimately show ?case
    using less.prems [of i] by (subst (1 2) chain_hash.simps) simp
qed

text \<open>Later tokens do not change the hashes of the blocks that are already full.\<close>

lemma chain_hash_stable:
  assumes "i < num_tokens r div bs" "all_token_ids r' = all_token_ids r @ ts"
    and "mm_features r' = mm_features r" "lora_request r' = lora_request r"
    "cache_salt r' = cache_salt r" "prompt_embeds r' = prompt_embeds r"
  shows "chain_hash H n bs r' i = chain_hash H n bs r i"
proof (rule chain_hash_cong)
  fix j
  assume "j \<le> i"
  then have "(j + 1) * bs \<le> num_tokens r" using assms(1) by (intro block_end_le) simp
  then show "py_slice (all_token_ids r') (j * bs) ((j + 1) * bs) = py_slice (all_token_ids r) (j * bs) ((j + 1) * bs)"
    using assms(2) by (simp add: py_slice_append_left num_tokens_def)
qed (use assms in simp_all)

lemma request_block_hasher_chain:
  assumes "0 < bs" "mm_features r = []"
    and "block_hashes r = map (chain_hash H n bs r) [0..<k]" "k \<le> num_tokens r div bs"
  shows "request_block_hasher H n bs r = Inr (map (chain_hash H n bs r) [k..<num_tokens r div bs])"
proof (cases "num_tokens r < k * bs + bs")
  case True
  then have "num_tokens r div bs \<le> k"
    using assms(1) by (simp add: less_Suc_eq_le [symmetric] div_less_iff_less_mult)
  with True assms(3) show ?thesis by (simp add: request_block_hasher_def)
next
  case False
  moreover have "(if block_hashes r = [] then None else Some (last (block_hashes r))) =
      (if k = 0 then None else Some (chain_hash H n bs r (k - 1)))"
    using assms(3) by (auto simp: last_map)
  ultimately show ?thesis
    using assms(3) hasher_loop_chain [OF assms(1,2), of H n k] by (simp add: request_block_hasher_def Let_def)
qed

lemma append_output_hashes_ok:
  assumes "0 < bs" "mm_features r = []" "hashes_ok H n bs r"
  shows "\<exists>r'. append_output_token_ids (Some (request_block_hasher H n bs)) ts r = Inr r' \<and>
    hashes_ok H n bs r' \<and> all_token_ids r' = all_token_ids r @ ts"
proof -
  let ?r = "r\<lparr>output_token_ids := output_token_ids r @ ts, all_token_ids := all_token_ids r @ ts\<rparr>"
  let ?k = "num_tokens r div bs" and ?m = "num_tokens ?r div bs"
  have st: "chain_hash H n bs ?r i = chain_hash H n bs r i" if "i < ?k" for i
    using that by (rule chain_hash_stable) simp_all
  have hs: "block_hashes ?r = map (chain_hash H n bs ?r) [0..<?k]"
    using assms(3) st by (simp add: hashes_ok_def)
  have km: "?k \<le> ?m" by (simp add: num_tokens_def div_le_mono)
  have "request_block_hasher H n bs ?r = Inr (map (chain_hash H n bs ?r) [?k..<?m])"
    using assms(2) by (intro request_block_hasher_chain [OF assms(1) _ hs km]) simp
  moreover have "[0..<?m] = [0..<?k] @ [?k..<?m]" using km by (metis le_add_diff_inverse upt_add_eq_append zero_le)
  moreover have "chain_hash H n bs (?r\<lparr>block_hashes := b\<rparr>) i = chain_hash H n bs ?r i" for b i
    by (rule chain_hash_cong) simp_all
  moreover have "num_tokens (?r\<lparr>block_hashes := b\<rparr>) = num_tokens ?r" for b by (simp add: num_tokens_def)
  ultimately show ?thesis
    using hs by (simp add: append_output_token_ids_def Let_def hashes_ok_def)
qed

section \<open>What a block hash determines\<close>

lemma chain_sound:
  assumes A: "\<And>i. i < length hs1 \<Longrightarrow> \<exists>ek. hs1 ! i = H (if i = 0 then n else hs1 ! (i - 1), b1 i, ek)"
    and B: "\<And>i. i < length hs2 \<Longrightarrow> \<exists>ek. hs2 ! i = H (if i = 0 then n else hs2 ! (i - 1), b2 i, ek)"
    and inj: "inj H" and seed: "n \<notin> range H"
    and "i < length hs1" "j < length hs2" "hs1 ! i = hs2 ! j"
  shows "i = j \<and> (\<forall>k \<le> i. b1 k = b2 k)"
  using assms(5-)
proof (induction i arbitrary: j)
  case 0
  from A [OF 0(1)] obtain e1 where e1: "hs1 ! 0 = H (n, b1 0, e1)" by auto
  from B [OF 0(2)] obtain e2 where e2: "hs2 ! j = H (if j = 0 then n else hs2 ! (j - 1), b2 j, e2)" by auto
  from e1 e2 0(3) inj have eq: "n = (if j = 0 then n else hs2 ! (j - 1))" "b1 0 = b2 j"
    by (auto dest: injD)
  have "j = 0"
  proof (rule ccontr)
    assume "j \<noteq> 0"
    from 0(2) have "j - 1 < length hs2" by simp
    from B [OF this] have "hs2 ! (j - 1) \<in> range H" by blast
    with eq(1) \<open>j \<noteq> 0\<close> seed show False by simp
  qed
  with eq show ?case by simp
next
  case (Suc i)
  from A [OF Suc.prems(1)] obtain e1 where e1: "hs1 ! Suc i = H (hs1 ! i, b1 (Suc i), e1)" by auto
  from B [OF Suc.prems(2)] obtain e2 where e2: "hs2 ! j = H (if j = 0 then n else hs2 ! (j - 1), b2 j, e2)" by auto
  from e1 e2 Suc.prems(3) inj have eq: "hs1 ! i = (if j = 0 then n else hs2 ! (j - 1))" "b1 (Suc i) = b2 j"
    by (auto dest: injD)
  have "j \<noteq> 0"
  proof
    assume "j = 0"
    from Suc.prems(1) have "i < length hs1" by simp
    from A [OF this] have "hs1 ! i \<in> range H" by blast
    with \<open>j = 0\<close> eq(1) seed show False by simp
  qed
  then have j: "j - 1 < length hs2" "hs1 ! i = hs2 ! (j - 1)" using Suc.prems eq by simp_all
  have "i = j - 1 \<and> (\<forall>k \<le> i. b1 k = b2 k)" using Suc.IH [OF _ j] Suc.prems(1) by simp
  then have "j = Suc i" "\<forall>k \<le> i. b1 k = b2 k" using \<open>j \<noteq> 0\<close> by auto
  with eq(2) show ?case by (auto simp: le_Suc_eq)
qed

lemma take_blocks_eq:
  "(\<And>k. k < m \<Longrightarrow> py_slice xs (k * b) ((k + 1) * b) = py_slice ys (k * b) ((k + 1) * b)) \<Longrightarrow>
   take (m * b) xs = take (m * b) ys"
proof (induction m)
  case (Suc m)
  have "take (Suc m * b) zs = take (m * b) zs @ py_slice zs (m * b) ((m + 1) * b)" for zs :: "'a list"
    using take_add [of "m * b" b zs] by (simp add: py_slice_def add.commute)
  with Suc.prems [of m] Suc.IH Suc.prems show ?case by simp
qed simp

lemma request_hasher_links:
  assumes "0 < bs" "\<And>x. H x \<noteq> []" "block_hashes r = []" "request_block_hasher H n bs r = Inr hs" "i < length hs"
  shows "\<exists>ek. hs ! i = H (if i = 0 then n else hs ! (i - 1), py_slice (all_token_ids r) (i * bs) ((i + 1) * bs), ek)"
proof -
  from assms(3-5) have "hasher_loop H n bs r 0 0 None = Inr hs"
    by (auto simp: request_block_hasher_def Let_def split: if_splits)
  from hasher_loop_nth [OF assms(1,2) this assms(5)] obtain ek where ek:
    "hs ! i = hash_block_tokens H n (if i = 0 then None else Some (hs ! (i - 1)))
      (py_slice (all_token_ids r) (i * bs) ((i + 1) * bs)) ek" by auto
  show ?thesis
  proof (cases "i = 0")
    case False
    from assms(5) have "i - 1 < length hs" by simp
    from hasher_loop_nth [OF assms(1,2) \<open>hasher_loop H n bs r 0 0 None = Inr hs\<close> this] obtain x where
      "hs ! (i - 1) = H x" unfolding hash_block_tokens_def Let_def by blast
    then have "hs ! (i - 1) \<noteq> []" using assms(2) by simp
    with ek False show ?thesis by (auto simp: hash_block_tokens_def)
  qed (use ek in \<open>auto simp: hash_block_tokens_def\<close>)
qed

text \<open>
  C20: (prefix caching is sound) if two requests hashed from scratch with a collision-free
  hash function have equal block hashes at positions \<open>i\<close> and \<open>j\<close>, then the positions are
  equal and the requests agree on all tokens up to the end of that block.
\<close>

theorem prefix_hash_sound:
  assumes "0 < bs" and "inj H" and "\<And>x. H x \<noteq> []" and "none_hash \<notin> range H"
    and "block_hashes r1 = []" and "request_block_hasher H none_hash bs r1 = Inr hs1"
    and "block_hashes r2 = []" and "request_block_hasher H none_hash bs r2 = Inr hs2"
    and "i < length hs1" and "j < length hs2" and "hs1 ! i = hs2 ! j"
  shows "i = j \<and> take ((i + 1) * bs) (all_token_ids r1) = take ((i + 1) * bs) (all_token_ids r2)"
proof -
  have "i = j \<and> (\<forall>k \<le> i. py_slice (all_token_ids r1) (k * bs) ((k + 1) * bs) =
      py_slice (all_token_ids r2) (k * bs) ((k + 1) * bs))"
    using assms(1,3) by (intro chain_sound [OF _ _ assms(2,4,9,10,11)])
      (blast intro: request_hasher_links assms)+
  then have "i = j" and "\<And>k. k < i + 1 \<Longrightarrow> py_slice (all_token_ids r1) (k * bs) ((k + 1) * bs) =
      py_slice (all_token_ids r2) (k * bs) ((k + 1) * bs)" by simp_all
  then show ?thesis using take_blocks_eq by blast
qed

text \<open>A collision-free hash function to instantiate the hypotheses with.\<close>

instance extra_key :: countable
  by countable_datatype

definition enum_hash :: hash_fn where
  "enum_hash x = 1 # replicate (to_nat x) 0"

lemma enum_hash_inj: "inj enum_hash"
  by (rule injI) (simp add: enum_hash_def replicate_eq_replicate)

definition text_request :: "string \<Rightarrow> int list \<Rightarrow> request" where
  "text_request rid toks =
     \<lparr>request_id = rid, client_index = 0, priority = 0,
      sampling_params = Some \<lparr>sp_max_tokens = Some 16, sp_min_tokens = 0, sp_ignore_eos = False,
        sp_stop_token_ids = None, sp_skip_reading_prefix_cache = None, sp_structured_outputs = False\<rparr>,
      pooling_params = None, eos_token_id = None, lora_request = None,
      structured_output_request = None, arrival_time = 0, status = WAITING, events = [],
      stop_reason = None, max_tokens = 16, prompt_token_ids = Some toks, prompt_embeds = None,
      num_prompt_tokens = length toks, output_token_ids = [], all_token_ids = toks,
      num_output_placeholders = 0, discard_latest_async_tokens = False, spec_token_ids = [],
      num_computed_tokens = 0, cache_salt = None, mm_features = [], num_cached_tokens = - 1,
      num_nans_in_logits = 0, num_preemptions = 0, num_external_computed_tokens = 0,
      block_hashes = [], skip_reading_prefix_cache = False\<rparr>"

lemma text_request_simps [simp]:
  "all_token_ids (text_request rid toks) = toks" "block_hashes (text_request rid toks) = []"
  "mm_features (text_request rid toks) = []" "num_tokens (text_request rid toks) = length toks"
  by (simp_all add: text_request_def num_tokens_def)

lemma text_request_hashes:
  "0 < bs \<Longrightarrow> request_block_hasher H n bs (text_request rid toks) =
    Inr (map (chain_hash H n bs (text_request rid toks)) [0..<length toks div bs])"
  using request_block_hasher_chain [of bs "text_request rid toks" H n 0] by simp

theorem prefix_hash_sound_witness:
  "\<exists>hs. request_block_hasher enum_hash [0] 2 (text_request ''a'' [1, 2, 3, 4]) = Inr hs \<and> length hs = 2 \<and>
    (\<forall>toks hs'. request_block_hasher enum_hash [0] 2 (text_request ''b'' toks) = Inr hs' \<longrightarrow>
      1 < length hs' \<longrightarrow> hs ! 1 = hs' ! 1 \<longrightarrow> take 4 toks = [1, 2, 3, 4])"
proof -
  let ?r = "text_request ''a'' [1, 2, 3, 4]"
  let ?hs = "map (chain_hash enum_hash [0] 2 ?r) [0..<2]"
  have hs: "request_block_hasher enum_hash [0] 2 ?r = Inr ?hs"
    by (simp add: text_request_hashes upt_rec)
  have h: "enum_hash x \<noteq> []" "[0] \<notin> range enum_hash" for x by (auto simp: enum_hash_def)
  have "take 4 toks = [1, 2, 3, 4]"
    if "request_block_hasher enum_hash [0] 2 (text_request ''b'' toks) = Inr hs'" "1 < length hs'" "?hs ! 1 = hs' ! 1"
    for toks hs'
    using prefix_hash_sound [OF _ enum_hash_inj h(1) h(2) text_request_simps(2) hs text_request_simps(2) that(1) _ that(2,3)]
    by simp
  with hs show ?thesis by (intro exI [of _ ?hs]) simp
qed

text \<open>
  C21: (hashing is incremental) for a request without multi-modal inputs whose block hashes
  are those of its full blocks, appending output tokens succeeds and again leaves exactly
  the hashes of all full blocks: hashing only the new blocks equals hashing from scratch.
\<close>

theorem append_output_keeps_hashes:
  assumes "0 < bs" and "mm_features r = []" and "hashes_ok H none_hash bs r"
  shows "\<exists>r'. append_output_token_ids (Some (request_block_hasher H none_hash bs)) ts r = Inr r' \<and>
    hashes_ok H none_hash bs r' \<and> all_token_ids r' = all_token_ids r @ ts"
  using assms by (rule append_output_hashes_ok)

theorem append_output_keeps_hashes_witness:
  "\<exists>r'. append_output_token_ids (Some (request_block_hasher enum_hash [0] 2)) [5, 6] (text_request ''a'' [1]) = Inr r' \<and>
    hashes_ok enum_hash [0] 2 r' \<and> all_token_ids r' = [1, 5, 6]"
  using append_output_keeps_hashes [of 2 "text_request ''a'' [1]" enum_hash "[0]" "[5, 6]"]
  by (simp add: hashes_ok_def)

text \<open>
  A cache key gives back the block hash and the group id it was made from, so keys of different hashes
  or of different groups never coincide.
\<close>

lemma block_key_roundtrip:
  assumes "make_block_hash_with_group_id h g = Inr k"
  shows "get_block_hash k = h \<and> get_group_id k = g \<and> g < 2 ^ 32"
  using assms key_hash key_group
  by (auto simp: make_block_hash_with_group_id_def int_to_bytes4_def result_simps split: if_splits)

end
