(* ===== verification/Block_Pool.thy ===== *)
theory Block_Pool
  imports Free_Queue Block_Map Block_Hash
begin

text \<open>
  The block pool: \<^verbatim>\<open>BlockPool\<close> of \<^verbatim>\<open>vllm/v1/core/block_pool.py\<close>.

  Clients hold blocks by reference; the model names them by id, so a list of blocks is a
  \<open>nat list\<close> and the block objects live in the store of the free queue.  The metrics
  collector, which only records residence times, is left out.  The environment variable
  read by \<^verbatim>\<open>maybe_convert_block_hash\<close> is the field \<open>use_int_hashes\<close>.

  \<open>pool_rep p fl A\<close> is the pool's invariant: \<open>fl\<close> is the list of free blocks in eviction
  order, and \<open>A\<close> the blocks that an operation under way has taken out of the queue with a
  reference count still 0 (empty between operations).
\<close>

section \<open>The pool\<close>

datatype kv_cache_event =
    BlockStored "external_block_hash list" "external_block_hash option" "int list" nat "int option"
  | BlockRemoved "external_block_hash list"
  | AllBlocksCleared

record block_pool =
  num_gpu_blocks :: nat
  enable_caching :: bool
  hash_block_size :: nat
  free_block_queue :: free_queue
  cached_block_hash_to_block :: block_map
  null_block :: nat
  enable_kv_cache_events :: bool
  kv_event_queue :: "kv_cache_event list"
  use_int_hashes :: bool

abbreviation refc :: "block_pool \<Rightarrow> nat \<Rightarrow> int" where
  "refc p i \<equiv> ref_cnt (blk (free_block_queue p) (Blk i))"

abbreviation bhash :: "block_pool \<Rightarrow> nat \<Rightarrow> bytes option" where
  "bhash p i \<equiv> block_hash (blk (free_block_queue p) (Blk i))"

abbreviation bnull :: "block_pool \<Rightarrow> nat \<Rightarrow> bool" where
  "bnull p i \<equiv> is_null (blk (free_block_queue p) (Blk i))"

definition upd_block :: "nat \<Rightarrow> (kv_cache_block \<Rightarrow> kv_cache_block) \<Rightarrow> block_pool \<Rightarrow> block_pool" where
  "upd_block i f p = p\<lparr>free_block_queue := upd_blk (Blk i) f (free_block_queue p)\<rparr>"

definition add_ref :: "int \<Rightarrow> nat \<Rightarrow> block_pool \<Rightarrow> block_pool" where
  "add_ref d i = upd_block i (\<lambda>b. b\<lparr>ref_cnt := ref_cnt b + d\<rparr>)"

text \<open>The id of a block taken from the queue; a sentinel of the queue is no block.\<close>

definition blk_idx :: "block_ref \<Rightarrow> nat result" where
  "blk_idx r = (case r of Blk i \<Rightarrow> Inr i | _ \<Rightarrow> Inl TypeError)"

section \<open>Operations\<close>

definition initial_blocks :: "block_ref \<Rightarrow> kv_cache_block" where
  "initial_blocks r = (case r of Blk i \<Rightarrow> new_kv_cache_block (int i) | _ \<Rightarrow> new_kv_cache_block (- 1))"

definition block_pool_init :: "nat \<Rightarrow> bool \<Rightarrow> nat \<Rightarrow> bool \<Rightarrow> bool \<Rightarrow> block_pool result" where
  "block_pool_init n caching hash_bs kv_events use_int =
     rbind (rassert (0 < n)) (\<lambda>_.
     rbind (popleft (fq_init initial_blocks (map Blk [0..<n]))) (\<lambda>(r, q).
     rbind (blk_idx r) (\<lambda>null.
       Inr \<lparr>num_gpu_blocks = n, enable_caching = caching, hash_block_size = hash_bs,
            free_block_queue = upd_blk (Blk null) (\<lambda>b. b\<lparr>is_null := True\<rparr>) q,
            cached_block_hash_to_block = bmap_init, null_block = null,
            enable_kv_cache_events = kv_events, kv_event_queue = [],
            use_int_hashes = use_int\<rparr>)))"

fun get_cached_block :: "block_pool \<Rightarrow> bytes \<Rightarrow> nat list \<Rightarrow> nat list option result" where
  "get_cached_block p h [] = Inr (Some [])"
| "get_cached_block p h (g # gs) =
     rbind (make_block_hash_with_group_id h g) (\<lambda>key.
     rbind (get_one_block key (cached_block_hash_to_block p)) (\<lambda>b.
       case b of
         None \<Rightarrow> Inr None
       | Some i \<Rightarrow>
           rbind (get_cached_block p h gs) (\<lambda>rest.
             Inr (map_option (\<lambda>is. i # is) rest))))"

definition get_num_free_blocks :: "block_pool \<Rightarrow> int" where
  "get_num_free_blocks p = num_free_blocks (free_block_queue p)"

definition emit :: "kv_cache_event \<Rightarrow> block_pool \<Rightarrow> block_pool" where
  "emit e p = (if enable_kv_cache_events p then p\<lparr>kv_event_queue := kv_event_queue p @ [e]\<rparr> else p)"

text \<open>One iteration of the loop of \<^verbatim>\<open>cache_full_blocks\<close>: block \<open>i\<close> gets the hash \<open>h\<close>.\<close>

definition cache_one_block :: "nat \<Rightarrow> nat \<times> bytes \<Rightarrow> block_pool \<Rightarrow> block_pool result" where
  "cache_one_block kv_cache_group_id ih p =
     (case ih of (i, h) \<Rightarrow>
        rbind (rassert (bhash p i = None)) (\<lambda>_.
        rbind (make_block_hash_with_group_id h kv_cache_group_id) (\<lambda>key.
        rbind (set_block_hash (Blk i) key (free_block_queue p)) (\<lambda>q.
          Inr (p\<lparr>free_block_queue := q,
                 cached_block_hash_to_block := bmap_insert key i (cached_block_hash_to_block p)\<rparr>)))))"

text \<open>
  The loop indexes \<^verbatim>\<open>new_block_hashes[i]\<close> for each new full block, which raises when
  there are fewer hashes than blocks: \<open>pair_up\<close> is that pairing.
\<close>

fun pair_up :: "nat list \<Rightarrow> bytes list \<Rightarrow> (nat \<times> bytes option) list" where
  "pair_up [] hs = []"
| "pair_up (i # is) [] = (i, None) # pair_up is []"
| "pair_up (i # is) (h # hs) = (i, Some h) # pair_up is hs"

definition cache_step :: "nat \<Rightarrow> nat \<times> bytes option \<Rightarrow> block_pool \<Rightarrow> block_pool result" where
  "cache_step g ih p =
     (case ih of
        (i, Some h) \<Rightarrow> cache_one_block g (i, h) p
      | (i, None) \<Rightarrow> rbind (rassert (bhash p i = None)) (\<lambda>_. Inl IndexError))"

definition cache_full_blocks ::
  "request \<Rightarrow> nat list \<Rightarrow> nat \<Rightarrow> nat \<Rightarrow> nat \<Rightarrow> nat \<Rightarrow> block_pool \<Rightarrow> block_pool result" where
  "cache_full_blocks r blocks num_cached_blocks num_full_blocks block_size kv_cache_group_id p =
     (if num_full_blocks \<le> num_cached_blocks then Inr p
      else
        let new_full_blocks = py_slice blocks num_cached_blocks num_full_blocks in
        rbind (rassert (num_full_blocks \<le> length (block_hashes r))) (\<lambda>_.
        rbind (if block_size = hash_block_size p then Inr (HashList (block_hashes r))
               else block_hash_list_with_block_size (block_hashes r) (hash_block_size p) block_size)
          (\<lambda>hashes.
        rbind (bhl_from hashes num_cached_blocks) (\<lambda>new_block_hashes.
        rbind (rfold (cache_step kv_cache_group_id) (pair_up new_full_blocks new_block_hashes) p) (\<lambda>p1.
          if \<not> enable_kv_cache_events p1 then Inr p1
          else
            rbind (if num_cached_blocks = 0 then Inr None
                   else rbind (py_get blocks (num_cached_blocks - 1)) (\<lambda>parent.
                        case bhash p1 parent of
                          None \<Rightarrow> Inl AssertionError
                        | Some k \<Rightarrow> Inr (Some (maybe_convert_block_hash (use_int_hashes p1) (get_block_hash k)))))
              (\<lambda>parent_block_hash.
                 Inr (emit (BlockStored
                   (map (maybe_convert_block_hash (use_int_hashes p1)) (take (length new_full_blocks) new_block_hashes))
                   parent_block_hash
                   (py_slice (all_token_ids r) (num_cached_blocks * block_size) (num_full_blocks * block_size))
                   block_size (map_option lora_int_id (lora_request r))) p1)))))))"

definition maybe_evict_cached_block :: "nat \<Rightarrow> block_pool \<Rightarrow> bool \<times> block_pool" where
  "maybe_evict_cached_block i p =
     (case bhash p i of
        None \<Rightarrow> (False, p)
      | Some key \<Rightarrow>
          (case bmap_pop key i (cached_block_hash_to_block p) of
             (None, m) \<Rightarrow> (False, p\<lparr>cached_block_hash_to_block := m\<rparr>)
           | (Some _, m) \<Rightarrow>
               (True, emit (BlockRemoved [maybe_convert_block_hash (use_int_hashes p) (get_block_hash key)])
                        (p\<lparr>cached_block_hash_to_block := m,
                           free_block_queue := reset_hash (Blk i) (free_block_queue p)\<rparr>))))"

definition alloc_one :: "nat \<Rightarrow> block_pool \<Rightarrow> block_pool result" where
  "alloc_one i p =
     (let p1 = (if enable_caching p then snd (maybe_evict_cached_block i p) else p)
      in rbind (rassert (refc p1 i = 0)) (\<lambda>_. Inr (add_ref 1 i p1)))"

definition get_new_blocks :: "nat \<Rightarrow> block_pool \<Rightarrow> (nat list \<times> block_pool) result" where
  "get_new_blocks n p =
     (if get_num_free_blocks p < int n then Inl ValueError
      else rbind (popleft_n n (free_block_queue p)) (\<lambda>(refs, q).
           rbind (rmap blk_idx refs) (\<lambda>ret.
           rbind (rfold alloc_one ret (p\<lparr>free_block_queue := q\<rparr>)) (\<lambda>p1. Inr (ret, p1)))))"

definition touch_one :: "nat \<Rightarrow> block_pool \<Rightarrow> block_pool result" where
  "touch_one i p =
     rbind (if refc p i = 0 \<and> \<not> bnull p i
            then rbind (remove (Blk i) (free_block_queue p)) (\<lambda>q. Inr (p\<lparr>free_block_queue := q\<rparr>))
            else Inr p)
       (\<lambda>p1. Inr (add_ref 1 i p1))"

definition touch :: "nat list list \<Rightarrow> block_pool \<Rightarrow> block_pool result" where
  "touch blocks p = rfold (rfold touch_one) blocks p"

definition free_blocks :: "nat list \<Rightarrow> block_pool \<Rightarrow> block_pool result" where
  "free_blocks ordered_blocks p =
     (let p1 = fold (add_ref (- 1)) ordered_blocks p;
          freed = filter (\<lambda>i. refc p1 i = 0 \<and> \<not> bnull p1 i) ordered_blocks
      in rbind (append_n (map Blk freed) (free_block_queue p1)) (\<lambda>q. Inr (p1\<lparr>free_block_queue := q\<rparr>)))"

text \<open>The set of ids is iterated in some order: the argument lists them in that order.\<close>

definition evict_one :: "nat \<Rightarrow> block_pool \<Rightarrow> block_pool result" where
  "evict_one i p =
     rbind (rassert (i < num_gpu_blocks p)) (\<lambda>_. Inr (snd (maybe_evict_cached_block i p)))"

definition evict_blocks :: "nat list \<Rightarrow> block_pool \<Rightarrow> block_pool result" where
  "evict_blocks block_ids p = rfold evict_one block_ids p"

definition reset_prefix_cache :: "block_pool \<Rightarrow> bool \<times> block_pool" where
  "reset_prefix_cache p =
     (let num_used_blocks = int (num_gpu_blocks p) - get_num_free_blocks p in
      if num_used_blocks \<noteq> 1 then (False, p)
      else
        let p1 = p\<lparr>cached_block_hash_to_block := bmap_init\<rparr>;
            p2 = p1\<lparr>free_block_queue := fold (\<lambda>i. reset_hash (Blk i)) [0..<num_gpu_blocks p] (free_block_queue p1)\<rparr>
        in (True, emit AllBlocksCleared p2))"

definition get_usage :: "block_pool \<Rightarrow> real" where
  "get_usage p =
     (let total_gpu_blocks = int (num_gpu_blocks p) - 1 in
      if total_gpu_blocks = 0 then 0
      else 1 - real_of_int (get_num_free_blocks p) / real_of_int total_gpu_blocks)"

definition take_kv_events :: "block_pool \<Rightarrow> kv_cache_event list \<times> block_pool" where
  "take_kv_events p =
     (if \<not> enable_kv_cache_events p then ([], p)
      else (kv_event_queue p, p\<lparr>kv_event_queue := []\<rparr>))"

section \<open>The invariant\<close>

definition pool_rep :: "block_pool \<Rightarrow> nat list \<Rightarrow> nat set \<Rightarrow> bool" where
  "pool_rep p fl A \<longleftrightarrow>
     0 < num_gpu_blocks p \<and> null_block p = 0 \<and>
     fq_rep (free_block_queue p) (map Blk fl) \<and>
     set fl \<union> A = {i. 0 < i \<and> i < num_gpu_blocks p \<and> refc p i = 0} \<and> set fl \<inter> A = {} \<and>
     (\<forall>i. 0 < i \<and> i < num_gpu_blocks p \<longrightarrow> 0 \<le> refc p i) \<and>
     (\<forall>i < num_gpu_blocks p. bnull p i \<longleftrightarrow> i = 0) \<and>
     bmap_wf (cached_block_hash_to_block p) \<and>
     (\<forall>k i. i \<in> set (bmap_blocks (cached_block_hash_to_block p) k) \<longleftrightarrow>
        0 < i \<and> i < num_gpu_blocks p \<and> bhash p i = Some k)"

definition pool_inv :: "block_pool \<Rightarrow> bool" where
  "pool_inv p \<longleftrightarrow> (\<exists>fl. pool_rep p fl {})"

text \<open>What no operation changes.\<close>

definition pool_cfg :: "block_pool \<Rightarrow> nat \<times> bool \<times> nat \<times> nat \<times> bool \<times> bool" where
  "pool_cfg p = (num_gpu_blocks p, enable_caching p, hash_block_size p, null_block p,
                 enable_kv_cache_events p, use_int_hashes p)"


named_theorems pool_simps \<open>fields of the pool after each elementary update\<close>

lemma fq_rep_upd_blk:
  assumes "\<And>b. prev_free_block (f b) = prev_free_block b \<and> next_free_block (f b) = next_free_block b"
  shows "fq_rep (upd_blk n f q) xs = fq_rep q xs"
proof -
  have l: "prev_of (upd_blk n f q) m = prev_of q m" "next_of (upd_blk n f q) m = next_of q m" for m q
    using assms by (simp_all add: link_simps)
  have "linked (upd_blk n f q) ys = linked q ys" for ys
    by (induction q ys rule: linked.induct) (simp_all add: l)
  then show ?thesis by (simp add: fq_rep_def l num_upd_blk)
qed

lemma add_ref_fields [pool_simps]:
  "refc (add_ref d i p) j = refc p j + (if j = i then d else 0)"
  "bhash (add_ref d i p) j = bhash p j"
  "bnull (add_ref d i p) j = bnull p j"
  "fq_rep (free_block_queue (add_ref d i p)) xs = fq_rep (free_block_queue p) xs"
  "cached_block_hash_to_block (add_ref d i p) = cached_block_hash_to_block p"
  "kv_event_queue (add_ref d i p) = kv_event_queue p"
  by (simp_all add: add_ref_def upd_block_def link_simps fq_rep_upd_blk)

lemma pool_cfg_simps [simp]:
  "pool_cfg (add_ref d i p) = pool_cfg p"
  "pool_cfg (p\<lparr>free_block_queue := q\<rparr>) = pool_cfg p"
  "pool_cfg (p\<lparr>cached_block_hash_to_block := m\<rparr>) = pool_cfg p"
  "pool_cfg (emit e p) = pool_cfg p"
  by (simp_all add: pool_cfg_def add_ref_def upd_block_def emit_def)

lemma pool_cfgD:
  assumes "pool_cfg p' = pool_cfg p"
  shows "num_gpu_blocks p' = num_gpu_blocks p" "enable_caching p' = enable_caching p"
    "hash_block_size p' = hash_block_size p" "null_block p' = null_block p"
    "enable_kv_cache_events p' = enable_kv_cache_events p" "use_int_hashes p' = use_int_hashes p"
  using assms by (simp_all add: pool_cfg_def)

lemma emit_fields [pool_simps]:
  "free_block_queue (emit e p) = free_block_queue p"
  "cached_block_hash_to_block (emit e p) = cached_block_hash_to_block p"
  by (simp_all add: emit_def)

lemma reset_hash_fields [pool_simps]:
  "ref_cnt (blk (reset_hash n q) m) = ref_cnt (blk q m)"
  "block_hash (blk (reset_hash n q) m) = (if m = n then None else block_hash (blk q m))"
  "is_null (blk (reset_hash n q) m) = is_null (blk q m)"
  "fq_rep (reset_hash n q) xs = fq_rep q xs"
  "num_free_blocks (reset_hash n q) = num_free_blocks q"
  by (simp_all add: reset_hash_def link_simps fq_rep_upd_blk)

lemma pool_rep_emit: "pool_rep (emit e p) fl A = pool_rep p fl A"
  by (simp add: emit_def pool_rep_def)

text \<open>A step of the queue that leaves the other fields of the blocks alone.\<close>

lemma meta_fields:
  assumes "meta q' = meta q"
  shows "ref_cnt (blk q' n) = ref_cnt (blk q n)" "block_hash (blk q' n) = block_hash (blk q n)"
    "is_null (blk q' n) = is_null (blk q n)"
  using fun_cong [OF assms, of n] by (simp_all add: meta_def)

lemma pool_rep_queue_step:
  assumes "pool_rep p fl A" "meta q = meta (free_block_queue p)" "fq_rep q (map Blk fl')"
    and "set fl' \<union> A' = set fl \<union> A" "set fl' \<inter> A' = {}"
  shows "pool_rep (p\<lparr>free_block_queue := q\<rparr>) fl' A'"
  using assms(1,3-5) by (simp add: pool_rep_def meta_fields [OF assms(2)])

lemma pool_rep_free_iff:
  "pool_rep p fl {} \<Longrightarrow> i \<in> set fl \<longleftrightarrow> 0 < i \<and> i < num_gpu_blocks p \<and> refc p i = 0"
  by (auto simp: pool_rep_def)

lemma pool_rep_num: "pool_rep p fl A \<Longrightarrow> get_num_free_blocks p = int (length fl)"
  by (auto simp: pool_rep_def get_num_free_blocks_def dll.rep_size)

lemma pool_rep_distinct: "pool_rep p fl A \<Longrightarrow> distinct fl"
  by (auto simp: pool_rep_def dest!: dll.rep_distinct simp: distinct_map)

lemma pool_rep_hash:
  "pool_rep p fl A \<Longrightarrow> i \<in> set (bmap_blocks (cached_block_hash_to_block p) k) \<longleftrightarrow>
     0 < i \<and> i < num_gpu_blocks p \<and> bhash p i = Some k"
  by (simp add: pool_rep_def)

section \<open>Eviction\<close>

lemma maybe_evict_fields [pool_simps]:
  "refc (snd (maybe_evict_cached_block i p)) j = refc p j"
  "bnull (snd (maybe_evict_cached_block i p)) j = bnull p j"
  "fq_rep (free_block_queue (snd (maybe_evict_cached_block i p))) xs = fq_rep (free_block_queue p) xs"
  "j \<noteq> i \<Longrightarrow> bhash (snd (maybe_evict_cached_block i p)) j = bhash p j"
  by (auto simp: maybe_evict_cached_block_def pool_simps split: option.splits prod.splits)

lemma maybe_evict_cfg [simp]: "pool_cfg (snd (maybe_evict_cached_block i p)) = pool_cfg p"
  by (auto simp: maybe_evict_cached_block_def pool_cfg_def emit_def split: option.splits prod.splits)

lemma maybe_evict_rep:
  assumes "pool_rep p fl A" "0 < i" "i < num_gpu_blocks p"
  shows "pool_rep (snd (maybe_evict_cached_block i p)) fl A"
    and "bhash (snd (maybe_evict_cached_block i p)) i = None"
    and "fst (maybe_evict_cached_block i p) = (bhash p i \<noteq> None)"
proof -
  let ?m = "cached_block_hash_to_block p" and ?p' = "snd (maybe_evict_cached_block i p)"
  have pop: "bhash p i = Some k \<Longrightarrow> fst (bmap_pop k i ?m) = Some i" for k
    using assms by (simp add: bmap.pop_found pool_rep_hash)
  then show "bhash ?p' i = None" and fst: "fst (maybe_evict_cached_block i p) = (bhash p i \<noteq> None)"
    by (auto simp: maybe_evict_cached_block_def pool_simps split: option.splits prod.splits)
  have n: "num_gpu_blocks ?p' = num_gpu_blocks p" "null_block ?p' = null_block p"
    by (simp_all add: pool_cfgD [OF maybe_evict_cfg])
  have m': "cached_block_hash_to_block ?p' = (case bhash p i of None \<Rightarrow> ?m | Some k \<Rightarrow> snd (bmap_pop k i ?m))"
    by (auto simp: maybe_evict_cached_block_def pool_simps split: option.splits prod.splits)
  have wf: "bmap_wf ?m" using assms(1) by (simp add: pool_rep_def)
  then have "bmap_wf (cached_block_hash_to_block ?p')" by (simp add: m' bmap.pop_wf split: option.splits)
  moreover have "j \<in> set (bmap_blocks (cached_block_hash_to_block ?p') k) \<longleftrightarrow>
      0 < j \<and> j < num_gpu_blocks p \<and> bhash ?p' j = Some k" for j k
    using pool_rep_hash [OF assms(1)] \<open>bhash ?p' i = None\<close>
    by (cases "j = i") (auto simp: m' bmap.pop_set [OF wf] pool_simps split: option.splits)
  ultimately show "pool_rep ?p' fl A"
    using assms(1) by (simp add: pool_rep_def n pool_simps)
qed

section \<open>Allocation\<close>

lemma alloc_one_rep:
  assumes "pool_rep p fl A" "i \<in> A"
  shows "\<exists>p'. alloc_one i p = Inr p' \<and> pool_rep p' fl (A - {i}) \<and> pool_cfg p' = pool_cfg p \<and>
    (\<forall>j. refc p' j = refc p j + (if j = i then 1 else 0)) \<and>
    (\<forall>j. bhash p' j = (if j = i \<and> enable_caching p then None else bhash p j))"
proof -
  from assms have i: "0 < i" "i < num_gpu_blocks p" "refc p i = 0" "i \<notin> set fl"
    by (auto simp: pool_rep_def)
  define p1 where "p1 = (if enable_caching p then snd (maybe_evict_cached_block i p) else p)"
  have rep1: "pool_rep p1 fl A" using assms(1) maybe_evict_rep(1) [OF assms(1) i(1,2)] by (simp add: p1_def)
  have cfg1: "pool_cfg p1 = pool_cfg p" by (simp add: p1_def)
  have ref1: "refc p1 j = refc p j" for j by (simp add: p1_def pool_simps)
  have hash1: "bhash p1 j = (if j = i \<and> enable_caching p then None else bhash p j)" for j
    using maybe_evict_rep(2) [OF assms(1) i(1,2)] by (simp add: p1_def pool_simps)
  have "alloc_one i p = Inr (add_ref 1 i p1)"
    using i ref1 by (simp add: alloc_one_def Let_def p1_def [symmetric])
  moreover have "pool_rep (add_ref 1 i p1) fl (A - {i})"
    using rep1 i ref1 pool_cfgD(1,4) [OF pool_cfg_simps(1), of 1 i p1] by (auto simp: pool_rep_def pool_simps)
  ultimately show ?thesis using cfg1 ref1 hash1 by (auto simp: pool_simps)
qed

lemma alloc_loop_rep:
  assumes "pool_rep p fl A" "set is \<subseteq> A" "distinct is"
  shows "\<exists>p'. rfold alloc_one is p = Inr p' \<and> pool_rep p' fl (A - set is) \<and> pool_cfg p' = pool_cfg p \<and>
    (\<forall>j. refc p' j = refc p j + (if j \<in> set is then 1 else 0)) \<and>
    (\<forall>j. bhash p' j = (if j \<in> set is \<and> enable_caching p then None else bhash p j))"
  using assms
proof (induction "is" arbitrary: p A)
  case Nil
  then show ?case by simp
next
  case (Cons i "is")
  obtain p1 where p1: "alloc_one i p = Inr p1" "pool_rep p1 fl (A - {i})" "pool_cfg p1 = pool_cfg p"
      "\<forall>j. refc p1 j = refc p j + (if j = i then 1 else 0)"
      "\<forall>j. bhash p1 j = (if j = i \<and> enable_caching p then None else bhash p j)"
    using alloc_one_rep [OF Cons.prems(1), of i] Cons.prems(2) by auto
  have "set is \<subseteq> A - {i}" "distinct is" using Cons.prems by auto
  from Cons.IH [OF p1(2) this] obtain p' where p': "rfold alloc_one is p1 = Inr p'"
      "pool_rep p' fl (A - {i} - set is)" "pool_cfg p' = pool_cfg p1"
      "\<forall>j. refc p' j = refc p1 j + (if j \<in> set is then 1 else 0)"
      "\<forall>j. bhash p' j = (if j \<in> set is \<and> enable_caching p1 then None else bhash p1 j)" by blast
  have "A - {i} - set is = A - set (i # is)" by auto
  with p' p1 Cons.prems(3) pool_cfgD(2) [OF p1(3)] show ?case by auto
qed

lemma rmap_blk_idx [simp]: "rmap blk_idx (map Blk is) = Inr is"
  by (induction "is") (simp_all add: blk_idx_def)

lemma get_new_blocks_rep:
  assumes "pool_rep p fl {}" "n \<le> length fl"
  shows "\<exists>p'. get_new_blocks n p = Inr (take n fl, p') \<and> pool_rep p' (drop n fl) {} \<and> pool_cfg p' = pool_cfg p \<and>
    (\<forall>j. refc p' j = refc p j + (if j \<in> set (take n fl) then 1 else 0)) \<and>
    (\<forall>j. bhash p' j = (if j \<in> set (take n fl) \<and> enable_caching p then None else bhash p j))"
proof -
  from assms obtain q where q: "popleft_n n (free_block_queue p) = Inr (map Blk (take n fl), q)"
      "fq_rep q (map Blk (drop n fl))" "meta q = meta (free_block_queue p)"
    using dll.pop_front_n_take [of "free_block_queue p" "map Blk fl" n]
    by (auto simp: pool_rep_def take_map drop_map)
  have d: "distinct fl" by (rule pool_rep_distinct [OF assms(1)])
  have parts: "set (drop n fl) \<union> set (take n fl) = set fl"
    by (metis append_take_drop_id set_append sup_commute)
  have "pool_rep (p\<lparr>free_block_queue := q\<rparr>) (drop n fl) (set (take n fl))"
    using d parts by (intro pool_rep_queue_step [OF assms(1) q(3,2)])
      (auto dest: set_take_disj_set_drop_if_distinct [of _ n n])
  from alloc_loop_rep [OF this order_refl distinct_take [OF d]] obtain p' where p':
    "rfold alloc_one (take n fl) (p\<lparr>free_block_queue := q\<rparr>) = Inr p'" "pool_rep p' (drop n fl) {}"
    "pool_cfg p' = pool_cfg p" "\<forall>j. refc p' j = refc p j + (if j \<in> set (take n fl) then 1 else 0)"
    "\<forall>j. bhash p' j = (if j \<in> set (take n fl) \<and> enable_caching p then None else bhash p j)"
    by (auto simp: meta_fields [OF q(3)])
  moreover have "get_new_blocks n p = Inr (take n fl, p')"
    using p'(1) q(1) assms(2) by (simp add: get_new_blocks_def pool_rep_num [OF assms(1)])
  ultimately show ?thesis by blast
qed

lemma get_new_blocks_too_many:
  "pool_rep p fl A \<Longrightarrow> length fl < n \<Longrightarrow> get_new_blocks n p = Inl ValueError"
  by (simp add: get_new_blocks_def pool_rep_num)

section \<open>Touching\<close>

lemma touch_one_rep:
  assumes "pool_rep p fl {}" "i < num_gpu_blocks p"
  shows "\<exists>p'. touch_one i p = Inr p' \<and> pool_rep p' (if 0 < i then remove1 i fl else fl) {} \<and> pool_cfg p' = pool_cfg p \<and>
    (\<forall>j. refc p' j = refc p j + (if j = i then 1 else 0)) \<and> (\<forall>j. bhash p' j = bhash p j)"
proof -
  have d: "distinct fl" by (rule pool_rep_distinct [OF assms(1)])
  have i: "i \<in> set fl \<longleftrightarrow> 0 < i \<and> refc p i = 0" using assms by (auto simp: pool_rep_free_iff)
  have nb: "bnull p i \<longleftrightarrow> i = 0" using assms by (auto simp: pool_rep_def)
  show ?thesis
  proof (cases "i \<in> set fl")
    case True
    then have "Blk i \<in> set (map Blk fl)" by simp
    then obtain q where q: "remove (Blk i) (free_block_queue p) = Inr q"
        "fq_rep q (remove1 (Blk i) (map Blk fl))" "meta q = meta (free_block_queue p)"
      using dll.take_out_remove1 [of "free_block_queue p" "map Blk fl" "Blk i"] assms by (auto simp: pool_rep_def)
    have "remove1 (Blk i) (map Blk fl) = map Blk (remove1 i fl)"
      by (induction fl) auto
    with q(2) have "fq_rep q (map Blk (remove1 i fl))" by simp
    from pool_rep_queue_step [OF assms(1) q(3) this, of "{i}"] True d
    have r: "pool_rep (p\<lparr>free_block_queue := q\<rparr>) (remove1 i fl) {i}" by auto
    have "pool_rep (add_ref 1 i (p\<lparr>free_block_queue := q\<rparr>)) (remove1 i fl) {}"
      using r pool_cfgD(1,4) [OF pool_cfg_simps(1), of 1 i "p\<lparr>free_block_queue := q\<rparr>"] d
      by (auto simp: pool_rep_def pool_simps)
    moreover have "touch_one i p = Inr (add_ref 1 i (p\<lparr>free_block_queue := q\<rparr>))"
      using True i q nb by (simp add: touch_one_def)
    ultimately show ?thesis using True i by (simp add: pool_simps meta_fields [OF q(3)])
  next
    case False
    have "pool_rep (add_ref 1 i p) fl {}"
      using assms False i pool_cfgD(1,4) [OF pool_cfg_simps(1), of 1 i p]
      by (auto simp: pool_rep_def pool_simps)
    moreover have "touch_one i p = Inr (add_ref 1 i p)"
      using False i nb by (auto simp: touch_one_def)
    ultimately show ?thesis using False by (auto simp: pool_simps remove1_idem)
  qed
qed


lemma touch_one_rep':
  assumes "pool_rep p fl {}" "i < num_gpu_blocks p"
  shows "\<exists>p'. touch_one i p = Inr p' \<and> pool_rep p' (filter (\<lambda>j. j \<noteq> i) fl) {} \<and> pool_cfg p' = pool_cfg p \<and>
    (\<forall>j. refc p' j = refc p j + (if j = i then 1 else 0)) \<and> (\<forall>j. bhash p' j = bhash p j)"
proof -
  have "(if 0 < i then remove1 i fl else fl) = filter (\<lambda>j. j \<noteq> i) fl"
  proof (cases "0 < i")
    case True
    have "remove1 i fl = removeAll i fl" by (rule distinct_remove1_removeAll [OF pool_rep_distinct [OF assms(1)]])
    with True show ?thesis by (simp add: removeAll_filter_not_eq eq_commute)
  next
    case False
    then have "i \<notin> set fl" using pool_rep_free_iff [OF assms(1)] by simp
    then have "filter (\<lambda>j. j \<noteq> i) fl = fl" by (auto simp: filter_id_conv)
    with False show ?thesis by simp
  qed
  then show ?thesis using touch_one_rep [OF assms] by (simp only:)
qed

lemma touch_list_rep:
  assumes "pool_rep p fl {}" "set is \<subseteq> {..<num_gpu_blocks p}"
  shows "\<exists>p'. rfold touch_one is p = Inr p' \<and> pool_rep p' (filter (\<lambda>j. j \<notin> set is) fl) {} \<and>
    pool_cfg p' = pool_cfg p \<and> (\<forall>j. refc p' j = refc p j + int (count_list is j)) \<and> (\<forall>j. bhash p' j = bhash p j)"
  using assms
proof (induction "is" arbitrary: p fl)
  case (Cons i "is")
  obtain p1 where p1: "touch_one i p = Inr p1" "pool_rep p1 (filter (\<lambda>j. j \<noteq> i) fl) {}" "pool_cfg p1 = pool_cfg p"
      "\<forall>j. refc p1 j = refc p j + (if j = i then 1 else 0)" "\<forall>j. bhash p1 j = bhash p j"
    using touch_one_rep' [OF Cons.prems(1), of i] Cons.prems(2) by auto
  have "set is \<subseteq> {..<num_gpu_blocks p1}" using Cons.prems(2) pool_cfgD(1) [OF p1(3)] by simp
  from Cons.IH [OF p1(2) this] obtain p' where p': "rfold touch_one is p1 = Inr p'"
      "pool_rep p' (filter (\<lambda>j. j \<notin> set is) (filter (\<lambda>j. j \<noteq> i) fl)) {}" "pool_cfg p' = pool_cfg p1"
      "\<forall>j. refc p' j = refc p1 j + int (count_list is j)" "\<forall>j. bhash p' j = bhash p1 j" by blast
  have "filter (\<lambda>j. j \<notin> set is) (filter (\<lambda>j. j \<noteq> i) fl) = filter (\<lambda>j. j \<notin> set (i # is)) fl"
    by (auto intro: filter_cong)
  with p' p1 show ?case by auto
qed simp

lemma touch_concat: "touch bss p = rfold touch_one (concat bss) p"
  by (induction bss arbitrary: p) (auto simp: touch_def rfold_append intro!: arg_cong2 [of _ _ _ _ rbind])

lemma touch_rep:
  assumes "pool_rep p fl {}" "set (concat bss) \<subseteq> {..<num_gpu_blocks p}"
  shows "\<exists>p'. touch bss p = Inr p' \<and> pool_rep p' (filter (\<lambda>j. j \<notin> set (concat bss)) fl) {} \<and>
    pool_cfg p' = pool_cfg p \<and> (\<forall>j. refc p' j = refc p j + int (count_list (concat bss) j)) \<and>
    (\<forall>j. bhash p' j = bhash p j)"
  using touch_list_rep [OF assms] by (simp add: touch_concat)

section \<open>Freeing\<close>

lemma drop_refs_fields:
  "refc (fold (add_ref (- 1)) is p) j = refc p j - int (count_list is j)"
  "bhash (fold (add_ref (- 1)) is p) j = bhash p j"
  "bnull (fold (add_ref (- 1)) is p) j = bnull p j"
  "fq_rep (free_block_queue (fold (add_ref (- 1)) is p)) xs = fq_rep (free_block_queue p) xs"
  "cached_block_hash_to_block (fold (add_ref (- 1)) is p) = cached_block_hash_to_block p"
  "pool_cfg (fold (add_ref (- 1)) is p) = pool_cfg p"
  by (induction "is" arbitrary: p) (simp_all add: pool_simps)

text \<open>The blocks that can be given back: held, in range, and (the null block apart) once each.\<close>

definition freeable :: "block_pool \<Rightarrow> nat list \<Rightarrow> bool" where
  "freeable p is \<longleftrightarrow> set is \<subseteq> {..<num_gpu_blocks p} \<and> distinct (filter (\<lambda>i. 0 < i) is) \<and>
     (\<forall>i \<in> set is. 0 < i \<longrightarrow> 0 < refc p i)"

lemma count_list_filter_distinct:
  "distinct (filter P xs) \<Longrightarrow> P x \<Longrightarrow> count_list xs x = (if x \<in> set xs then 1 else 0)"
  by (induction xs) (auto split: if_splits)

lemma freeable_count: "freeable p is \<Longrightarrow> 0 < i \<Longrightarrow> count_list is i = (if i \<in> set is then 1 else 0)"
  unfolding freeable_def by (rule count_list_filter_distinct [of "\<lambda>i. 0 < i"]) simp_all

lemma free_blocks_rep:
  assumes "pool_rep p fl {}" "freeable p is"
  shows "\<exists>p'. free_blocks is p = Inr p' \<and> pool_rep p' (fl @ filter (\<lambda>i. 0 < i \<and> refc p i = 1) is) {} \<and>
    pool_cfg p' = pool_cfg p \<and> (\<forall>j. refc p' j = refc p j - int (count_list is j)) \<and> (\<forall>j. bhash p' j = bhash p j)"
proof -
  define p1 where "p1 = fold (add_ref (- 1)) is p"
  define freed where "freed = filter (\<lambda>i. refc p1 i = 0 \<and> \<not> bnull p1 i) is"
  note p1 = drop_refs_fields [of "is" p, folded p1_def]
  have n: "num_gpu_blocks p1 = num_gpu_blocks p" "null_block p1 = null_block p" using pool_cfgD [OF p1(6)] by simp_all
  have ran: "i \<in> set is \<Longrightarrow> i < num_gpu_blocks p" for i using assms(2) by (auto simp: freeable_def)
  have freed_eq: "freed = filter (\<lambda>i. 0 < i \<and> refc p i = 1) is"
    unfolding freed_def
  proof (rule filter_cong [OF refl])
    fix i assume "i \<in> set is"
    moreover from this have "bnull p i \<longleftrightarrow> i = 0" using assms(1) ran by (simp add: pool_rep_def)
    ultimately show "(refc p1 i = 0 \<and> \<not> bnull p1 i) \<longleftrightarrow> (0 < i \<and> refc p i = 1)"
      using freeable_count [OF assms(2), of i] by (auto simp: p1)
  qed
  have "distinct freed"
    using assms(2) distinct_filter [of "filter (\<lambda>i. 0 < i) is" "\<lambda>i. refc p i = 1"]
    by (simp add: freed_eq freeable_def conj_commute)
  moreover have disj: "set freed \<inter> set fl = {}"
    by (auto simp: freed_eq pool_rep_free_iff [OF assms(1)])
  ultimately have "distinct (map Blk freed)" "set (map Blk freed) \<inter> set (map Blk fl) = {}"
    by (simp_all add: distinct_map inj_on_def) (fastforce)
  moreover have "list_all is_blk (map Blk freed)" by (simp add: list_all_iff is_blk_def)
  moreover have "fq_rep (free_block_queue p1) (map Blk fl)" using assms(1) by (simp add: pool_rep_def p1)
  ultimately obtain q where q: "append_n (map Blk freed) (free_block_queue p1) = Inr q"
      "fq_rep q (map Blk fl @ map Blk freed)" "meta q = meta (free_block_queue p1)"
    using dll.push_back_n_append by blast
  have zero: "0 < i \<Longrightarrow> i < num_gpu_blocks p \<Longrightarrow>
      refc p1 i = 0 \<longleftrightarrow> i \<in> set fl \<or> i \<in> set freed" for i
    using freeable_count [OF assms(2), of i] pool_rep_free_iff [OF assms(1), of i] assms
    by (auto simp: p1 freed_eq freeable_def)
  have nonneg: "0 < i \<Longrightarrow> i < num_gpu_blocks p \<Longrightarrow> 0 \<le> refc p1 i" for i
    using freeable_count [OF assms(2), of i] assms by (auto simp: p1 freeable_def pool_rep_def split: if_splits)
  have mem: "i \<in> set fl \<union> set freed \<Longrightarrow> 0 < i \<and> i < num_gpu_blocks p" for i
    using pool_rep_free_iff [OF assms(1), of i] ran [of i] by (auto simp: freed_eq)
  have "set fl \<union> set freed = {i. 0 < i \<and> i < num_gpu_blocks p \<and> refc p1 i = 0}"
    using mem zero by blast
  moreover have "set fl \<inter> set freed = {}" using disj by blast
  ultimately have "pool_rep p1 fl (set freed)"
    using assms(1) nonneg by (simp add: pool_rep_def p1(2-5) n)
  then have "pool_rep (p1\<lparr>free_block_queue := q\<rparr>) (fl @ freed) {}"
    using q(2) by (intro pool_rep_queue_step [OF _ q(3)]) auto
  moreover have "free_blocks is p = Inr (p1\<lparr>free_block_queue := q\<rparr>)"
    using q(1) by (simp add: free_blocks_def Let_def p1_def freed_def)
  ultimately show ?thesis by (simp add: p1 meta_fields [OF q(3)] freed_eq)
qed


section \<open>Caching full blocks\<close>

definition block_key :: "nat \<Rightarrow> bytes \<Rightarrow> bytes" where
  "block_key g h = projr (make_block_hash_with_group_id h g)"

lemma block_key: "g < 2 ^ 32 \<Longrightarrow> make_block_hash_with_group_id h g = Inr (block_key g h)"
  using key_total [of g h] by (auto simp: block_key_def)

lemma block_key_inj: "g < 2 ^ 32 \<Longrightarrow> g' < 2 ^ 32 \<Longrightarrow> block_key g h = block_key g' h' \<longleftrightarrow> g = g' \<and> h = h'"
  using block_key key_hash key_group by metis

lemma cache_step_rep:
  assumes "pool_rep p fl A" "0 < i" "i < num_gpu_blocks p" "bhash p i = None" "g < 2 ^ 32"
  shows "\<exists>p'. cache_step g (i, Some h) p = Inr p' \<and> pool_rep p' fl A \<and> pool_cfg p' = pool_cfg p \<and>
    (\<forall>j. refc p' j = refc p j) \<and> (\<forall>j. bhash p' j = (if j = i then Some (block_key g h) else bhash p j))"
proof -
  let ?k = "block_key g h" and ?m = "cached_block_hash_to_block p"
  define p' where "p' = p\<lparr>free_block_queue := upd_blk (Blk i) (\<lambda>b. b\<lparr>block_hash := Some ?k\<rparr>) (free_block_queue p),
      cached_block_hash_to_block := bmap_insert ?k i ?m\<rparr>"
  have step: "cache_step g (i, Some h) p = Inr p'"
    using assms by (simp add: cache_step_def cache_one_block_def block_key set_block_hash_def p'_def)
  have f: "refc p' j = refc p j" "bhash p' j = (if j = i then Some ?k else bhash p j)" "bnull p' j = bnull p j"
    "fq_rep (free_block_queue p') xs = fq_rep (free_block_queue p) xs" "pool_cfg p' = pool_cfg p" for j xs
    by (simp_all add: p'_def link_simps fq_rep_upd_blk pool_cfg_def)
  have n: "num_gpu_blocks p' = num_gpu_blocks p" "null_block p' = null_block p" using pool_cfgD [OF f(5)] by simp_all
  have m: "cached_block_hash_to_block p' = bmap_insert ?k i ?m" by (simp add: p'_def)
  have "j \<in> set (bmap_blocks (bmap_insert ?k i ?m) k) \<longleftrightarrow> 0 < j \<and> j < num_gpu_blocks p \<and> bhash p' j = Some k" for j k
    using assms by (auto simp: bmap.insert_set f pool_rep_hash [OF assms(1)])
  then have "pool_rep p' fl A"
    using assms(1) by (simp add: pool_rep_def n f(1,3,4) m bmap.insert_wf)
  with step f show ?thesis by auto
qed

lemma cache_loop_rep:
  assumes "pool_rep p fl A" "set is \<subseteq> {0<..<num_gpu_blocks p}" "distinct is" "\<forall>i \<in> set is. bhash p i = None"
    and "g < 2 ^ 32" "length is \<le> length hs"
  shows "\<exists>p'. rfold (cache_step g) (pair_up is hs) p = Inr p' \<and> pool_rep p' fl A \<and> pool_cfg p' = pool_cfg p \<and>
    (\<forall>j. refc p' j = refc p j) \<and> (\<forall>j. j \<notin> set is \<longrightarrow> bhash p' j = bhash p j) \<and>
    (\<forall>n < length is. bhash p' (is ! n) = Some (block_key g (hs ! n)))"
  using assms
proof (induction "is" hs arbitrary: p rule: pair_up.induct)
  case (3 i "is" h hs)
  from cache_step_rep [of p fl A i g h] "3.prems" obtain p1 where p1: "cache_step g (i, Some h) p = Inr p1"
      "pool_rep p1 fl A" "pool_cfg p1 = pool_cfg p" "\<forall>j. refc p1 j = refc p j"
      "\<forall>j. bhash p1 j = (if j = i then Some (block_key g h) else bhash p j)" by auto
  have "set is \<subseteq> {0<..<num_gpu_blocks p1}" "\<forall>j \<in> set is. bhash p1 j = None" "distinct is" "length is \<le> length hs"
    using "3.prems" pool_cfgD(1) [OF p1(3)] p1(5) by auto
  from "3.IH" [OF p1(2) this(1,3,2) "3.prems"(5) this(4)] obtain p' where p':
      "rfold (cache_step g) (pair_up is hs) p1 = Inr p'" "pool_rep p' fl A" "pool_cfg p' = pool_cfg p1"
      "\<forall>j. refc p' j = refc p1 j" "\<forall>j. j \<notin> set is \<longrightarrow> bhash p' j = bhash p1 j"
      "\<forall>n < length is. bhash p' (is ! n) = Some (block_key g (hs ! n))" by blast
  have "bhash p' i = Some (block_key g h)" using p'(5) p1(5) "3.prems"(3) by simp
  with p' p1 show ?case by (auto simp: nth_Cons split: nat.splits)
qed simp_all

text \<open>The hashes of a request at the granularity of a group, from position \<open>nc\<close> on.\<close>

definition group_hashes :: "request \<Rightarrow> nat \<Rightarrow> nat \<Rightarrow> nat \<Rightarrow> bytes list result" where
  "group_hashes r hash_bs block_size nc =
     rbind (if block_size = hash_bs then Inr (HashList (block_hashes r))
            else block_hash_list_with_block_size (block_hashes r) hash_bs block_size)
       (\<lambda>hashes. bhl_from hashes nc)"

definition cacheable :: "block_pool \<Rightarrow> nat list \<Rightarrow> bool" where
  "cacheable p is \<longleftrightarrow> set is \<subseteq> {0<..<num_gpu_blocks p} \<and> distinct is \<and> (\<forall>i \<in> set is. bhash p i = None)"

lemma cache_full_blocks_rep:
  assumes "pool_rep p fl {}" "nf \<le> length (block_hashes r)" "g < 2 ^ 32"
    and hs: "group_hashes r (hash_block_size p) bs nc = Inr hs" "nf - nc \<le> length hs"
    and new: "cacheable p (py_slice blocks nc nf)"
    and parent: "enable_kv_cache_events p \<Longrightarrow> 0 < nc \<Longrightarrow> nc \<le> length blocks \<and> bhash p (blocks ! (nc - 1)) \<noteq> None"
  shows "\<exists>p'. cache_full_blocks r blocks nc nf bs g p = Inr p' \<and> pool_rep p' fl {} \<and> pool_cfg p' = pool_cfg p \<and>
    (\<forall>j. refc p' j = refc p j) \<and> (\<forall>j. j \<notin> set (py_slice blocks nc nf) \<longrightarrow> bhash p' j = bhash p j) \<and>
    (\<forall>n. nc \<le> n \<and> n < nf \<and> n < length blocks \<longrightarrow> bhash p' (blocks ! n) = Some (block_key g (hs ! (n - nc))))"
proof (cases "nf \<le> nc")
  case True
  with assms(1) show ?thesis by (auto simp: cache_full_blocks_def)
next
  case False
  let ?is = "py_slice blocks nc nf"
  have len: "length ?is \<le> length hs" using hs(2) by (simp add: py_slice_length)
  from cache_loop_rep [OF assms(1) _ _ _ assms(3) len] new obtain p1 where p1:
      "rfold (cache_step g) (pair_up ?is hs) p = Inr p1" "pool_rep p1 fl {}" "pool_cfg p1 = pool_cfg p"
      "\<forall>j. refc p1 j = refc p j" "\<forall>j. j \<notin> set ?is \<longrightarrow> bhash p1 j = bhash p j"
      "\<forall>n < length ?is. bhash p1 (?is ! n) = Some (block_key g (hs ! n))"
    by (auto simp: cacheable_def)
  have at: "bhash p1 (blocks ! n) = Some (block_key g (hs ! (n - nc)))" if "nc \<le> n" "n < nf" "n < length blocks" for n
  proof -
    have "n - nc < length ?is" "?is ! (n - nc) = blocks ! n" using that by (auto simp: py_slice_def)
    then show ?thesis using p1(6) by metis
  qed
  have par: "enable_kv_cache_events p \<Longrightarrow> 0 < nc \<Longrightarrow> bhash p1 (blocks ! (nc - 1)) \<noteq> None"
  proof -
    assume "enable_kv_cache_events p" "0 < nc"
    with parent have p: "bhash p (blocks ! (nc - 1)) \<noteq> None" by simp
    with new have "blocks ! (nc - 1) \<notin> set ?is" by (auto simp: cacheable_def)
    with p p1(5) show ?thesis by simp
  qed
  obtain hl where hl: "(if bs = hash_block_size p then Inr (HashList (block_hashes r))
      else block_hash_list_with_block_size (block_hashes r) (hash_block_size p) bs) = Inr hl" "bhl_from hl nc = Inr hs"
    using hs(1) by (auto simp: group_hashes_def result_simps)
  have "\<exists>e. cache_full_blocks r blocks nc nf bs g p = Inr (if enable_kv_cache_events p1 then emit e p1 else p1)"
    using False assms(2) hl p1(1) par parent pool_cfgD(5) [OF p1(3)]
    by (auto simp: cache_full_blocks_def py_get_def split: option.splits)
  then obtain e where e: "cache_full_blocks r blocks nc nf bs g p = Inr (if enable_kv_cache_events p1 then emit e p1 else p1)" ..
  have "pool_rep (emit e p1) fl {}" using p1(2) by (simp add: pool_rep_emit)
  with e p1 at show ?thesis by (simp add: pool_simps)
qed


section \<open>Lookup, eviction, reset, construction\<close>

lemma pool_rep_bmap_wf: "pool_rep p fl A \<Longrightarrow> bmap_wf (cached_block_hash_to_block p)"
  by (simp add: pool_rep_def)

text \<open>A lookup returns blocks that hold the requested content, one per group.\<close>

lemma get_cached_block_total:
  assumes "pool_rep p fl A" "\<forall>g \<in> set gs. g < 2 ^ 32"
  shows "\<exists>res. get_cached_block p h gs = Inr res"
  using assms
proof (induction gs)
  case (Cons g gs)
  then obtain rest where "get_cached_block p h gs = Inr rest" by auto
  with Cons show ?case
    using bmap.lookup_total [OF pool_rep_bmap_wf [OF Cons.prems(1)], of "block_key g h"]
    by (auto simp: block_key split: option.splits)
qed simp

lemma get_cached_block_sound:
  assumes "pool_rep p fl A" "\<forall>g \<in> set gs. g < 2 ^ 32" "get_cached_block p h gs = Inr (Some is)"
  shows "list_all2 (\<lambda>g i. 0 < i \<and> i < num_gpu_blocks p \<and> bhash p i = Some (block_key g h)) gs is"
  using assms
proof (induction gs arbitrary: "is")
  case (Cons g gs)
  then obtain i rest where i: "get_one_block (block_key g h) (cached_block_hash_to_block p) = Inr (Some i)"
      "get_cached_block p h gs = Inr (Some rest)" "is = i # rest"
    by (auto simp: result_simps block_key split: option.splits)
  from bmap.lookup_sound [OF pool_rep_bmap_wf [OF Cons.prems(1)] i(1)] Cons.IH [OF Cons.prems(1) _ i(2)] Cons.prems(2) i(3)
  show ?case by (simp add: pool_rep_hash [OF Cons.prems(1)])
qed simp

lemma get_cached_block_complete:
  assumes "pool_rep p fl A" "\<forall>g \<in> set gs. g < 2 ^ 32"
    and "\<forall>g \<in> set gs. \<exists>i. 0 < i \<and> i < num_gpu_blocks p \<and> bhash p i = Some (block_key g h)"
  shows "\<exists>is. get_cached_block p h gs = Inr (Some is)"
  using assms
proof (induction gs)
  case (Cons g gs)
  then obtain rest where rest: "get_cached_block p h gs = Inr (Some rest)" by auto
  from Cons.prems(3) have "bmap_blocks (cached_block_hash_to_block p) (block_key g h) \<noteq> []"
    using pool_rep_hash [OF Cons.prems(1), of _ "block_key g h"] by (metis empty_iff empty_set list.set_intros(1))
  then obtain i where "get_one_block (block_key g h) (cached_block_hash_to_block p) = Inr (Some i)"
    using bmap.lookup_total [OF pool_rep_bmap_wf [OF Cons.prems(1)], of "block_key g h"]
      bmap.lookup_miss_iff [OF pool_rep_bmap_wf [OF Cons.prems(1)], of "block_key g h"]
    by (metis not_None_eq)
  with rest Cons.prems(2) show ?case by (simp add: block_key)
qed simp

lemma maybe_evict_null:
  assumes "pool_rep p fl A" "bhash p 0 = Some k"
  shows "\<exists>m. maybe_evict_cached_block 0 p = (False, p\<lparr>cached_block_hash_to_block := m\<rparr>) \<and>
    m = snd (bmap_pop k 0 (cached_block_hash_to_block p))"
proof -
  have "fst (bmap_pop k 0 (cached_block_hash_to_block p)) = None"
    using assms by (simp add: bmap.pop_found pool_rep_hash)
  with assms(2) show ?thesis
    by (cases "bmap_pop k 0 (cached_block_hash_to_block p)") (simp add: maybe_evict_cached_block_def)
qed

lemma evict_one_rep:
  assumes "pool_rep p fl A" "i < num_gpu_blocks p" "bhash p 0 = None"
  shows "\<exists>p'. evict_one i p = Inr p' \<and> pool_rep p' fl A \<and> pool_cfg p' = pool_cfg p \<and>
    (\<forall>j. refc p' j = refc p j) \<and> (\<forall>j. bhash p' j = (if j = i then None else bhash p j))"
proof (cases "i = 0")
  case True
  with assms show ?thesis by (auto simp: evict_one_def maybe_evict_cached_block_def)
next
  case False
  then have "0 < i" by simp
  from maybe_evict_rep [OF assms(1) this assms(2)] assms(2) show ?thesis
    by (simp add: evict_one_def pool_simps)
qed

lemma evict_blocks_rep:
  assumes "pool_rep p fl A" "set is \<subseteq> {..<num_gpu_blocks p}" "bhash p 0 = None"
  shows "\<exists>p'. evict_blocks is p = Inr p' \<and> pool_rep p' fl A \<and> pool_cfg p' = pool_cfg p \<and>
    (\<forall>j. refc p' j = refc p j) \<and> (\<forall>j. bhash p' j = (if j \<in> set is then None else bhash p j))"
  using assms unfolding evict_blocks_def
proof (induction "is" arbitrary: p)
  case (Cons i "is")
  obtain p1 where p1: "evict_one i p = Inr p1" "pool_rep p1 fl A" "pool_cfg p1 = pool_cfg p"
      "\<forall>j. refc p1 j = refc p j" "\<forall>j. bhash p1 j = (if j = i then None else bhash p j)"
    using evict_one_rep [OF Cons.prems(1) _ Cons.prems(3), of i] Cons.prems(2) by auto
  have "set is \<subseteq> {..<num_gpu_blocks p1}" "bhash p1 0 = None"
    using Cons.prems pool_cfgD(1) [OF p1(3)] p1(5) by auto
  from Cons.IH [OF p1(2) this] p1 show ?case by auto
qed simp

lemma reset_fold_fields:
  "ref_cnt (blk (fold (\<lambda>i. reset_hash (Blk i)) is q) n) = ref_cnt (blk q n)"
  "is_null (blk (fold (\<lambda>i. reset_hash (Blk i)) is q) n) = is_null (blk q n)"
  "block_hash (blk (fold (\<lambda>i. reset_hash (Blk i)) is q) n) = (if n \<in> Blk ` set is then None else block_hash (blk q n))"
  "fq_rep (fold (\<lambda>i. reset_hash (Blk i)) is q) xs = fq_rep q xs"
  "num_free_blocks (fold (\<lambda>i. reset_hash (Blk i)) is q) = num_free_blocks q"
  by (induction "is" arbitrary: q) (auto simp: pool_simps)

lemma pool_all_free_iff:
  assumes "pool_rep p fl {}"
  shows "int (num_gpu_blocks p) - get_num_free_blocks p = 1 \<longleftrightarrow>
    (\<forall>i. 0 < i \<and> i < num_gpu_blocks p \<longrightarrow> refc p i = 0)"
proof -
  let ?N = "num_gpu_blocks p"
  have N: "0 < ?N" using assms by (simp add: pool_rep_def)
  have card: "length fl = card (set fl)" by (simp add: distinct_card [OF pool_rep_distinct [OF assms]])
  have sub: "set fl \<subseteq> {0<..<?N}" by (auto simp: pool_rep_free_iff [OF assms])
  have "int ?N - get_num_free_blocks p = 1 \<longleftrightarrow> card (set fl) = card {0<..<?N}"
    using pool_rep_num [OF assms] card N by auto
  also have "\<dots> \<longleftrightarrow> set fl = {0<..<?N}" by (metis card_subset_eq finite_greaterThanLessThan sub)
  also have "\<dots> \<longleftrightarrow> (\<forall>i. 0 < i \<and> i < ?N \<longrightarrow> refc p i = 0)"
    unfolding set_eq_iff pool_rep_free_iff [OF assms] by auto
  finally show ?thesis .
qed

lemma reset_prefix_cache_rep:
  assumes "pool_rep p fl {}"
  shows "fst (reset_prefix_cache p) \<longleftrightarrow> (\<forall>i. 0 < i \<and> i < num_gpu_blocks p \<longrightarrow> refc p i = 0)"
    and "pool_rep (snd (reset_prefix_cache p)) fl {}"
    and "fst (reset_prefix_cache p) \<Longrightarrow> i < num_gpu_blocks p \<Longrightarrow> bhash (snd (reset_prefix_cache p)) i = None"
    and "\<not> fst (reset_prefix_cache p) \<Longrightarrow> snd (reset_prefix_cache p) = p"
proof -
  show "fst (reset_prefix_cache p) \<longleftrightarrow> (\<forall>i. 0 < i \<and> i < num_gpu_blocks p \<longrightarrow> refc p i = 0)"
    unfolding pool_all_free_iff [OF assms, symmetric] by (simp add: reset_prefix_cache_def Let_def)
  have wf: "bmap_wf bmap_init" by (rule bmap.empty_wf)
  show "pool_rep (snd (reset_prefix_cache p)) fl {}"
    using assms wf by (auto simp: reset_prefix_cache_def Let_def pool_rep_def emit_def reset_fold_fields)
  show "fst (reset_prefix_cache p) \<Longrightarrow> i < num_gpu_blocks p \<Longrightarrow> bhash (snd (reset_prefix_cache p)) i = None"
    by (auto simp: reset_prefix_cache_def Let_def pool_simps reset_fold_fields split: if_splits)
  show "\<not> fst (reset_prefix_cache p) \<Longrightarrow> snd (reset_prefix_cache p) = p"
    by (auto simp: reset_prefix_cache_def Let_def split: if_splits)
qed

lemma reset_then_miss:
  assumes "pool_rep p fl {}" "fst (reset_prefix_cache p)" "g < 2 ^ 32"
  shows "get_cached_block (snd (reset_prefix_cache p)) h [g] = Inr None"
proof -
  let ?p = "snd (reset_prefix_cache p)"
  have n: "num_gpu_blocks ?p = num_gpu_blocks p" by (simp add: reset_prefix_cache_def Let_def emit_def)
  note rep = reset_prefix_cache_rep(2) [OF assms(1)]
  obtain res where res: "get_cached_block ?p h [g] = Inr res"
    using get_cached_block_total [OF rep, of "[g]" h] assms(3) by auto
  have "res = None"
  proof (rule ccontr)
    assume "res \<noteq> None"
    then obtain "is" where "get_cached_block ?p h [g] = Inr (Some is)" using res by auto
    from get_cached_block_sound [OF rep _ this] assms(3)
    obtain i where "i < num_gpu_blocks ?p" "bhash ?p i \<noteq> None" by (auto simp: list_all2_Cons1)
    with reset_prefix_cache_rep(3) [OF assms(1,2)] n show False by simp
  qed
  with res show ?thesis by simp
qed

lemma block_pool_init_rep:
  assumes "0 < n"
  shows "\<exists>p. block_pool_init n c hb ev ui = Inr p \<and> pool_rep p [1..<n] {} \<and> pool_cfg p = (n, c, hb, 0, ev, ui) \<and>
    (\<forall>i < n. bhash p i = None \<and> refc p i = 0)"
proof -
  let ?q = "fq_init initial_blocks (map Blk [0..<n])"
  have d: "distinct (map Blk [0..<n])" "set (map Blk [0..<n]) \<subseteq> range Blk" by (auto simp: distinct_map inj_on_def)
  have st: "prev_free_block (initial_blocks (Blk i)) = None \<and> next_free_block (initial_blocks (Blk i)) = None" for i
    by (simp add: initial_blocks_def new_kv_cache_block_def)
  note q = fq_rep_init [OF d, of initial_blocks, OF st]
  have "map Blk [0..<n] = Blk 0 # map Blk [1..<n]" using assms by (simp add: upt_rec [of 0])
  with q(1) obtain q1 where q1: "popleft ?q = Inr (Blk 0, q1)" "fq_rep q1 (map Blk [1..<n])" "meta q1 = meta ?q"
    using dll.pop_front_Cons [of ?q "Blk 0" "map Blk [1..<n]"] by auto
  have m: "meta q1 (Blk i) = (int i, 0, None, False)" for i
    using q(2) [of i] q1(3) by (simp add: meta_def initial_blocks_def new_kv_cache_block_def)
  then have f: "ref_cnt (blk q1 (Blk i)) = 0" "block_hash (blk q1 (Blk i)) = None" "\<not> is_null (blk q1 (Blk i))" for i
    by (simp_all add: meta_def)
  show ?thesis
    using assms q1(1,2) f bmap.empty_wf
    by (auto simp: block_pool_init_def blk_idx_def pool_rep_def pool_cfg_def link_simps fq_rep_upd_blk)
qed

lemma get_usage_bounds: "pool_rep p fl {} \<Longrightarrow> 0 \<le> get_usage p \<and> get_usage p \<le> 1"
proof -
  assume rep: "pool_rep p fl {}"
  let ?N = "num_gpu_blocks p"
  have "set fl \<subseteq> {0<..<?N}" by (auto simp: pool_rep_free_iff [OF rep])
  then have "card (set fl) \<le> card {0<..<?N}" by (intro card_mono) simp_all
  then have "length fl \<le> ?N - 1" by (simp add: distinct_card [OF pool_rep_distinct [OF rep]])
  moreover have "0 < ?N" using rep by (simp add: pool_rep_def)
  ultimately show ?thesis
    by (auto simp: get_usage_def Let_def pool_rep_num [OF rep] field_simps)
qed


section \<open>Every use of the pool keeps its invariant\<close>

text \<open>
  The pool as a state machine: construction and the public operations, under what the
  callers promise (blocks in range, freed blocks held, the null block never cached).
\<close>

inductive pool_reachable :: "block_pool \<Rightarrow> bool" where
  pr_init: "block_pool_init n c hb ev ui = Inr p \<Longrightarrow> pool_reachable p"
| pr_alloc: "pool_reachable p \<Longrightarrow> get_new_blocks n p = Inr (is, p') \<Longrightarrow> pool_reachable p'"
| pr_touch: "pool_reachable p \<Longrightarrow> set (concat bss) \<subseteq> {..<num_gpu_blocks p} \<Longrightarrow>
    touch bss p = Inr p' \<Longrightarrow> pool_reachable p'"
| pr_free: "pool_reachable p \<Longrightarrow> freeable p is \<Longrightarrow> free_blocks is p = Inr p' \<Longrightarrow> pool_reachable p'"
| pr_cache: "pool_reachable p \<Longrightarrow> set (py_slice blocks nc nf) \<subseteq> {0<..<num_gpu_blocks p} \<Longrightarrow>
    cache_full_blocks r blocks nc nf bs g p = Inr p' \<Longrightarrow> pool_reachable p'"
| pr_evict: "pool_reachable p \<Longrightarrow> evict_blocks is p = Inr p' \<Longrightarrow> pool_reachable p'"
| pr_reset: "pool_reachable p \<Longrightarrow> pool_reachable (snd (reset_prefix_cache p))"
| pr_events: "pool_reachable p \<Longrightarrow> pool_reachable (snd (take_kv_events p))"

text \<open>The null block is never cached.\<close>

definition pool_ok :: "block_pool \<Rightarrow> bool" where
  "pool_ok p \<longleftrightarrow> pool_inv p \<and> bhash p 0 = None"

lemma pair_up_fst: "map fst (pair_up is hs) = is"
  by (induction "is" hs rule: pair_up.induct) simp_all

lemma cache_step_Inr:
  assumes "pool_rep p fl A" "0 < i" "i < num_gpu_blocks p" "cache_step g (i, ho) p = Inr p'"
  shows "pool_rep p' fl A \<and> pool_cfg p' = pool_cfg p \<and> bhash p' 0 = bhash p 0"
proof -
  obtain h k where h: "ho = Some h" "bhash p i = None" "make_block_hash_with_group_id h g = Inr k"
    using assms(4) by (auto simp: cache_step_def cache_one_block_def result_simps split: option.splits)
  from h(3) have "g < 2 ^ 32"
    by (auto simp: make_block_hash_with_group_id_def int_to_bytes4_def result_simps split: if_splits)
  from cache_step_rep [OF assms(1-3) h(2) this, of h] assms(2,4) h(1) show ?thesis by auto
qed

lemma cache_full_blocks_Inr:
  assumes "pool_rep p fl {}" "set (py_slice blocks nc nf) \<subseteq> {0<..<num_gpu_blocks p}"
    and "cache_full_blocks r blocks nc nf bs g p = Inr p'"
  shows "pool_rep p' fl {} \<and> bhash p' 0 = bhash p 0"
proof (cases "nf \<le> nc")
  case True
  with assms show ?thesis by (simp add: cache_full_blocks_def)
next
  case False
  let ?I = "\<lambda>q. pool_rep q fl {} \<and> pool_cfg q = pool_cfg p \<and> bhash q 0 = bhash p 0"
  from False assms(3) obtain hs p1 e where p1: "rfold (cache_step g) (pair_up (py_slice blocks nc nf) hs) p = Inr p1"
      "p' = p1 \<or> p' = emit e p1"
    by (auto simp: cache_full_blocks_def Let_def result_simps split: if_splits)
  have "?I p1"
  proof (rule rfold_invariant [OF p1(1)])
    fix x s s'
    assume x: "x \<in> set (pair_up (py_slice blocks nc nf) hs)" "?I s" "cache_step g x s = Inr s'"
    obtain i ho where i: "x = (i, ho)" by fastforce
    have "i \<in> set (py_slice blocks nc nf)"
      using arg_cong [OF pair_up_fst, of set "py_slice blocks nc nf" hs] x(1) i by force
    then have "0 < i" "i < num_gpu_blocks s" using assms(2) x(2) pool_cfgD(1) [of s p] by auto
    with cache_step_Inr [of s fl "{}" i g ho s'] x i show "?I s'" by auto
  qed (use assms(1) in simp)
  moreover have "pool_rep (emit e p1) fl {} = pool_rep p1 fl {}" by (simp add: pool_rep_emit)
  ultimately show ?thesis using p1(2) by (auto simp: pool_simps)
qed

lemma evict_blocks_range: "evict_blocks is p = Inr p' \<Longrightarrow> set is \<subseteq> {..<num_gpu_blocks p}"
  unfolding evict_blocks_def
proof (induction "is" arbitrary: p)
  case (Cons i "is")
  then obtain p1 where p1: "evict_one i p = Inr p1" "rfold evict_one is p1 = Inr p'" by (auto simp: result_simps)
  then have "i < num_gpu_blocks p" "num_gpu_blocks p1 = num_gpu_blocks p"
    by (auto simp: evict_one_def result_simps pool_cfgD(1) [OF maybe_evict_cfg])
  with Cons.IH [OF p1(2)] show ?case by simp
qed simp

lemma get_new_blocks_Inr:
  "pool_rep p fl {} \<Longrightarrow> get_new_blocks n p = Inr (is, p') \<Longrightarrow> n \<le> length fl"
  by (rule ccontr) (simp add: get_new_blocks_too_many)

lemma pool_reachable_ok: "pool_reachable p \<Longrightarrow> pool_ok p"
proof (induction rule: pool_reachable.induct)
  case (pr_init n c hb ev ui p)
  then have n: "0 < n" by (auto simp: block_pool_init_def result_simps)
  from block_pool_init_rep [OF n, of c hb ev ui] pr_init n show ?case by (auto simp: pool_ok_def pool_inv_def)
next
  case (pr_alloc p n "is" p')
  then obtain fl where fl: "pool_rep p fl {}" "bhash p 0 = None" by (auto simp: pool_ok_def pool_inv_def)
  from get_new_blocks_rep [OF fl(1) get_new_blocks_Inr [OF fl(1) pr_alloc(2)]] fl(2) pr_alloc(2)
  show ?case by (auto simp: pool_ok_def pool_inv_def)
next
  case (pr_touch p bss p')
  then obtain fl where fl: "pool_rep p fl {}" "bhash p 0 = None" by (auto simp: pool_ok_def pool_inv_def)
  from touch_rep [OF fl(1) pr_touch(2)] fl(2) pr_touch(3) show ?case by (auto simp: pool_ok_def pool_inv_def)
next
  case (pr_free p "is" p')
  then obtain fl where fl: "pool_rep p fl {}" "bhash p 0 = None" by (auto simp: pool_ok_def pool_inv_def)
  from free_blocks_rep [OF fl(1) pr_free(2)] fl(2) pr_free(3) show ?case by (auto simp: pool_ok_def pool_inv_def)
next
  case (pr_cache p blocks nc nf r bs g p')
  then obtain fl where fl: "pool_rep p fl {}" "bhash p 0 = None" by (auto simp: pool_ok_def pool_inv_def)
  from cache_full_blocks_Inr [OF fl(1) pr_cache(2,3)] fl(2) show ?case by (auto simp: pool_ok_def pool_inv_def)
next
  case (pr_evict p "is" p')
  then obtain fl where fl: "pool_rep p fl {}" "bhash p 0 = None" by (auto simp: pool_ok_def pool_inv_def)
  from evict_blocks_rep [OF fl(1) evict_blocks_range [OF pr_evict(2)] fl(2)] fl(2) pr_evict(2)
  show ?case by (auto simp: pool_ok_def pool_inv_def)
next
  case (pr_reset p)
  then obtain fl where fl: "pool_rep p fl {}" "bhash p 0 = None" by (auto simp: pool_ok_def pool_inv_def)
  have "bhash (snd (reset_prefix_cache p)) 0 = None"
    using reset_prefix_cache_rep(3) [OF fl(1), of 0] reset_prefix_cache_rep(4) [OF fl(1)] fl
    by (cases "fst (reset_prefix_cache p)") (auto simp: pool_rep_def)
  with reset_prefix_cache_rep(2) [OF fl(1)] show ?case by (auto simp: pool_ok_def pool_inv_def)
next
  case (pr_events p)
  then show ?case by (auto simp: take_kv_events_def pool_ok_def pool_inv_def pool_rep_def)
qed


section \<open>Properties\<close>

text \<open>A fresh pool of four blocks, for the concrete instances.\<close>

lemma fresh_pool:
  obtains p where "block_pool_init 4 True hb False False = Inr p" "pool_rep p [1, 2, 3] {}"
    "num_gpu_blocks p = 4" "enable_caching p" "hash_block_size p = hb" "\<forall>i < 4. bhash p i = None \<and> refc p i = 0"
proof -
  have "[1..<4] = [1, 2, 3]" by (simp add: upt_rec numeral_3_eq_3)
  with block_pool_init_rep [of 4 True hb False False] that show ?thesis by (auto simp: pool_cfg_def)
qed

text \<open>
  C18: (the pool's invariant) every pool that construction and the public operations reach
  satisfies the invariant: the free list holds exactly the unused blocks other than the
  null block, no reference count of an ordinary block is negative, and the prefix cache
  indexes exactly the blocks that carry a hash, each under its own key.
\<close>

theorem pool_reachable_inv: "pool_reachable p \<Longrightarrow> pool_inv p \<and> bhash p (null_block p) = None"
  using pool_reachable_ok [of p] by (auto simp: pool_ok_def pool_inv_def pool_rep_def)

theorem pool_reachable_inv_witness:
  "\<exists>p is p1 p2. block_pool_init 4 True 16 False False = Inr p \<and> get_new_blocks 2 p = Inr (is, p1) \<and>
     free_blocks is p1 = Inr p2 \<and> pool_inv p2 \<and> bhash p2 (null_block p2) = None"
proof -
  obtain p where p: "block_pool_init 4 True 16 False False = Inr p" "pool_rep p [1, 2, 3] {}"
    "num_gpu_blocks p = 4" "enable_caching p" "hash_block_size p = 16" "\<forall>i < 4. bhash p i = None \<and> refc p i = 0"
    by (rule fresh_pool)
  obtain p1 where p1: "get_new_blocks 2 p = Inr ([1, 2], p1)" "pool_rep p1 [3] {}" "pool_cfg p1 = pool_cfg p"
      "\<forall>j. refc p1 j = refc p j + (if j \<in> set [1, 2] then 1 else 0)"
    using get_new_blocks_rep [OF p(2), of 2] by auto
  have f: "freeable p1 [1, 2]" using p(3,6) p1(4) pool_cfgD(1) [OF p1(3)] by (simp add: freeable_def)
  then obtain p2 where p2: "free_blocks [1, 2] p1 = Inr p2" using free_blocks_rep [OF p1(2) f] by blast
  have "pool_reachable p2"
    by (rule pr_free [OF pr_alloc [OF pr_init [OF p(1)] p1(1)] f p2])
  with p p1 p2 pool_reachable_inv show ?thesis by blast
qed

text \<open>
  C19: (allocation) with \<open>n\<close> free blocks or more, \<^verbatim>\<open>get_new_blocks\<close> returns the \<open>n\<close> least
  recently freed ones, gives each the count 1 and, with caching on, takes its hash out of
  the cache; every other block keeps its count and hash.  Otherwise it raises.
\<close>

theorem get_new_blocks_spec:
  assumes "pool_rep p fl {}"
  shows "if n \<le> length fl
    then \<exists>p'. get_new_blocks n p = Inr (take n fl, p') \<and> pool_rep p' (drop n fl) {} \<and>
      (\<forall>j. refc p' j = (if j \<in> set (take n fl) then 1 else refc p j)) \<and>
      (\<forall>j. bhash p' j = (if j \<in> set (take n fl) \<and> enable_caching p then None else bhash p j))
    else get_new_blocks n p = Inl ValueError"
proof (cases "n \<le> length fl")
  case True
  have "j \<in> set (take n fl) \<Longrightarrow> refc p j = 0" for j
    using pool_rep_free_iff [OF assms] by (blast dest: in_set_takeD)
  with get_new_blocks_rep [OF assms True] True show ?thesis by fastforce
qed (simp add: get_new_blocks_too_many [OF assms])

theorem get_new_blocks_spec_witness:
  "\<exists>p p'. block_pool_init 4 True 16 False False = Inr p \<and> get_new_blocks 2 p = Inr ([1, 2], p') \<and>
     refc p' 1 = 1 \<and> get_new_blocks 4 p = Inl ValueError"
proof -
  obtain p where p: "block_pool_init 4 True 16 False False = Inr p" "pool_rep p [1, 2, 3] {}"
    by (rule fresh_pool)
  with get_new_blocks_spec [OF p(2), of 2] get_new_blocks_spec [OF p(2), of 4] show ?thesis by auto
qed

text \<open>
  (prefix cache lookups) a lookup of a block hash for a list of groups never raises; a
  hit gives one block per group, each carrying exactly that hash and group; and it is a
  hit exactly when every group has some block carrying the hash.
\<close>

lemma get_cached_block_spec:
  assumes "pool_rep p fl {}" and "\<forall>g \<in> set gs. g < 2 ^ 32"
  shows "\<exists>res. get_cached_block p h gs = Inr res \<and>
    (res \<noteq> None \<longleftrightarrow> (\<forall>g \<in> set gs. \<exists>i. 0 < i \<and> i < num_gpu_blocks p \<and> bhash p i = Some (block_key g h))) \<and>
    (\<forall>is. res = Some is \<longrightarrow> list_all2 (\<lambda>g i. 0 < i \<and> i < num_gpu_blocks p \<and> bhash p i = Some (block_key g h)) gs is)"
proof -
  obtain res where res: "get_cached_block p h gs = Inr res" using get_cached_block_total [OF assms] by blast
  note sound = get_cached_block_sound [OF assms, of h]
  show ?thesis
  proof (intro exI [of _ res] conjI iffI allI impI)
    assume "res \<noteq> None"
    with res obtain "is" where "get_cached_block p h gs = Inr (Some is)" by auto
    from sound [OF this] show "\<forall>g \<in> set gs. \<exists>i. 0 < i \<and> i < num_gpu_blocks p \<and> bhash p i = Some (block_key g h)"
      by (induction gs "is" rule: list_all2_induct) auto
  next
    assume "\<forall>g \<in> set gs. \<exists>i. 0 < i \<and> i < num_gpu_blocks p \<and> bhash p i = Some (block_key g h)"
    from get_cached_block_complete [OF assms this] res show "res \<noteq> None" by auto
  qed (use res sound in auto)
qed

text \<open>
  (caching, then hitting) after the full blocks \<open>nc..<nf\<close> of a request are cached for a
  group, a lookup of the hash of any of them hits in that group.
\<close>

lemma cache_then_hit:
  assumes "pool_rep p fl {}" and "nf \<le> length (block_hashes r)" and "g < 2 ^ 32"
    and "group_hashes r (hash_block_size p) bs nc = Inr hs" and "nf - nc \<le> length hs"
    and "cacheable p (py_slice blocks nc nf)"
    and "enable_kv_cache_events p \<Longrightarrow> 0 < nc \<Longrightarrow> nc \<le> length blocks \<and> bhash p (blocks ! (nc - 1)) \<noteq> None"
    and "nc \<le> n" and "n < nf" and "n < length blocks"
  shows "\<exists>p' i. cache_full_blocks r blocks nc nf bs g p = Inr p' \<and> pool_rep p' fl {} \<and>
    get_cached_block p' (hs ! (n - nc)) [g] = Inr (Some [i]) \<and> bhash p' i = bhash p' (blocks ! n)"
proof -
  from cache_full_blocks_rep [OF assms(1-7)] obtain p' where p': "cache_full_blocks r blocks nc nf bs g p = Inr p'"
      "pool_rep p' fl {}" "pool_cfg p' = pool_cfg p" "bhash p' (blocks ! n) = Some (block_key g (hs ! (n - nc)))"
    using assms(8-10) by blast
  have "n - nc < length (py_slice blocks nc nf)" "py_slice blocks nc nf ! (n - nc) = blocks ! n"
    using assms(8-10) by (auto simp: py_slice_def)
  then have "blocks ! n \<in> set (py_slice blocks nc nf)" by (metis nth_mem)
  then have "0 < blocks ! n" "blocks ! n < num_gpu_blocks p'"
    using assms(6) pool_cfgD(1) [OF p'(3)] by (auto simp: cacheable_def)
  with p'(4) have "\<forall>g' \<in> set [g]. \<exists>i. 0 < i \<and> i < num_gpu_blocks p' \<and> bhash p' i = Some (block_key g' (hs ! (n - nc)))"
    by auto
  from get_cached_block_complete [OF p'(2) _ this] assms(3)
  obtain "is" where "get_cached_block p' (hs ! (n - nc)) [g] = Inr (Some is)" by auto
  with get_cached_block_sound [OF p'(2) _ this] assms(3) p'
  show ?thesis by (auto simp: list_all2_Cons1)
qed

text \<open>
  (resetting the prefix cache) the reset succeeds exactly when no block is in use; then
  no lookup hits any more; otherwise nothing changes.
\<close>

lemma reset_prefix_cache_spec:
  assumes "pool_rep p fl {}"
  shows "(fst (reset_prefix_cache p) \<longleftrightarrow> (\<forall>i. 0 < i \<and> i < num_gpu_blocks p \<longrightarrow> refc p i = 0)) \<and>
    (if fst (reset_prefix_cache p)
     then \<forall>h g. g < 2 ^ 32 \<longrightarrow> get_cached_block (snd (reset_prefix_cache p)) h [g] = Inr None
     else snd (reset_prefix_cache p) = p)"
proof -
  have "get_cached_block (snd (reset_prefix_cache p)) h [g] = Inr None"
    if "fst (reset_prefix_cache p)" "g < 2 ^ 32" for h g
    using reset_then_miss [OF assms that] .
  then show ?thesis
    using reset_prefix_cache_rep(1,4) [OF assms] by simp
qed

end
