(* ===== verification/KV_Spec.thy ===== *)
theory KV_Spec
  imports Prelude
begin

text \<open>
  The formats of KV caches: \<^verbatim>\<open>vllm/v1/kv_cache_interface.py\<close>.

  The classes of specifications of one layer are the constructors of \<open>layer_spec\<close>; the class
  \<^verbatim>\<open>UniformTypeKVCacheSpecs\<close>, a dictionary of layer specifications, is the second
  constructor of \<open>kv_cache_spec\<close> (its own uniformity check refuses nested dictionaries).
  A torch dtype is its name and the size of an element.
\<close>

section \<open>Specifications\<close>

record torch_dtype =
  dtype_name :: string
  dtype_size :: nat

record attention_fields =
  at_block_size :: nat
  num_kv_heads :: nat
  head_size :: nat
  at_dtype :: torch_dtype

datatype layer_spec =
    FullAttentionSpec attention_fields "int option" "int option"
  | MLAAttentionSpec attention_fields "int option" "int option" "string option"
  | ChunkedLocalAttentionSpec attention_fields int
  | SlidingWindowSpec attention_fields int
  | MambaSpec nat "nat list list" "torch_dtype list" "nat option" string nat
  | EncoderOnlyAttentionSpec attention_fields
  | CrossAttentionSpec attention_fields

datatype kv_cache_spec =
    LayerSpec layer_spec
  | UniformTypeKVCacheSpecs nat "(string, layer_spec) odict"

text \<open>The fields of the engine's configuration that the memory computations read.\<close>

record vllm_config =
  cfg_max_model_len :: int
  cfg_max_num_batched_tokens :: int
  cfg_max_num_encoder_input_tokens :: int
  cfg_decode_context_parallel_size :: int
  cfg_prefill_context_parallel_size :: int
  cfg_gpu_memory_utilization :: real
  cfg_num_gpu_blocks_override :: "nat option"
  cfg_disable_hybrid_kv_cache_manager :: bool
  cfg_pipeline_parallel_size :: nat

section \<open>Fields and class tests\<close>

fun layer_block_size :: "layer_spec \<Rightarrow> nat" where
  "layer_block_size (FullAttentionSpec a _ _) = at_block_size a"
| "layer_block_size (MLAAttentionSpec a _ _ _) = at_block_size a"
| "layer_block_size (ChunkedLocalAttentionSpec a _) = at_block_size a"
| "layer_block_size (SlidingWindowSpec a _) = at_block_size a"
| "layer_block_size (MambaSpec bs _ _ _ _ _) = bs"
| "layer_block_size (EncoderOnlyAttentionSpec a) = at_block_size a"
| "layer_block_size (CrossAttentionSpec a) = at_block_size a"

fun spec_block_size :: "kv_cache_spec \<Rightarrow> nat" where
  "spec_block_size (LayerSpec s) = layer_block_size s"
| "spec_block_size (UniformTypeKVCacheSpecs bs _) = bs"

text \<open>\<^verbatim>\<open>MLAAttentionSpec\<close> is a subclass of \<^verbatim>\<open>FullAttentionSpec\<close>.\<close>

fun is_full_attention :: "layer_spec \<Rightarrow> bool" where
  "is_full_attention (FullAttentionSpec _ _ _) = True"
| "is_full_attention (MLAAttentionSpec _ _ _ _) = True"
| "is_full_attention _ = False"

fun is_mla_attention :: "layer_spec \<Rightarrow> bool" where
  "is_mla_attention (MLAAttentionSpec _ _ _ _) = True"
| "is_mla_attention _ = False"

fun is_cross_attention :: "layer_spec \<Rightarrow> bool" where
  "is_cross_attention (CrossAttentionSpec _) = True"
| "is_cross_attention _ = False"

fun is_sliding_window_of :: "int \<Rightarrow> layer_spec \<Rightarrow> bool" where
  "is_sliding_window_of w (SlidingWindowSpec _ w') = (w' = w)"
| "is_sliding_window_of w _ = False"

fun is_chunked_local_of :: "int \<Rightarrow> layer_spec \<Rightarrow> bool" where
  "is_chunked_local_of c (ChunkedLocalAttentionSpec _ c') = (c' = c)"
| "is_chunked_local_of c _ = False"

fun is_mamba_of :: "nat \<Rightarrow> layer_spec \<Rightarrow> bool" where
  "is_mamba_of n (MambaSpec _ _ _ _ _ n') = (n' = n)"
| "is_mamba_of n _ = False"

section \<open>Page sizes\<close>

definition attention_page_size :: "attention_fields \<Rightarrow> nat" where
  "attention_page_size a = 2 * at_block_size a * num_kv_heads a * head_size a * dtype_size (at_dtype a)"

definition mamba_page_size :: "nat list list \<Rightarrow> torch_dtype list \<Rightarrow> nat" where
  "mamba_page_size shapes dtypes =
     sum_list (map (\<lambda>(shape, dt). prod_list shape * dtype_size dt) (zip shapes dtypes))"

fun page_size_bytes :: "layer_spec \<Rightarrow> nat result" where
  "page_size_bytes (FullAttentionSpec a _ _) = Inr (attention_page_size a)"
| "page_size_bytes (MLAAttentionSpec a _ _ cache_dtype_str) =
     (if cache_dtype_str = Some ''fp8_ds_mla'' then Inr (at_block_size a * 656)
      else Inr (at_block_size a * num_kv_heads a * head_size a * dtype_size (at_dtype a)))"
| "page_size_bytes (ChunkedLocalAttentionSpec a _) = Inr (attention_page_size a)"
| "page_size_bytes (SlidingWindowSpec a _) = Inr (attention_page_size a)"
| "page_size_bytes (MambaSpec _ shapes dtypes padded _ _) =
     (case padded of
        None \<Rightarrow> Inr (mamba_page_size shapes dtypes)
      | Some n \<Rightarrow> rbind (rassert (mamba_page_size shapes dtypes \<le> n)) (\<lambda>_. Inr n))"
| "page_size_bytes (EncoderOnlyAttentionSpec a) = Inr (attention_page_size a)"
| "page_size_bytes (CrossAttentionSpec a) = Inr (attention_page_size a)"

definition uniform_page_size :: "(string, layer_spec) odict \<Rightarrow> nat result" where
  "uniform_page_size specs = rbind (rmap (page_size_bytes \<circ> snd) specs) (\<lambda>ps. Inr (sum_list ps))"

fun spec_page_size_bytes :: "kv_cache_spec \<Rightarrow> nat result" where
  "spec_page_size_bytes (LayerSpec s) = page_size_bytes s"
| "spec_page_size_bytes (UniformTypeKVCacheSpecs _ specs) = uniform_page_size specs"

section \<open>Maximal memory\<close>

text \<open>\<^verbatim>\<open>cdiv\<close> of the code raises when the divisor is 0.\<close>

definition rcdiv :: "int \<Rightarrow> int \<Rightarrow> int result" where
  "rcdiv a b = (if b = 0 then Inl ZeroDivisionError else Inr (cdiv a b))"

definition pages :: "int \<Rightarrow> int \<Rightarrow> layer_spec \<Rightarrow> int result" where
  "pages num_tokens extra s =
     rbind (rcdiv num_tokens (int (layer_block_size s))) (\<lambda>n.
     rbind (page_size_bytes s) (\<lambda>page. Inr ((n + extra) * int page)))"

definition layer_max_memory_usage_bytes :: "vllm_config \<Rightarrow> layer_spec \<Rightarrow> int result" where
  "layer_max_memory_usage_bytes cfg s =
     (case s of
        EncoderOnlyAttentionSpec _ \<Rightarrow> Inr 0
      | CrossAttentionSpec _ \<Rightarrow> pages (cfg_max_num_encoder_input_tokens cfg) 0 s
      | MambaSpec _ _ _ _ _ _ \<Rightarrow> pages (cfg_max_model_len cfg) 0 s
      | SlidingWindowSpec _ sliding_window \<Rightarrow>
          rbind (rassert (cfg_decode_context_parallel_size cfg = 1)) (\<lambda>_.
            pages (min (sliding_window - 1 + cfg_max_num_batched_tokens cfg) (cfg_max_model_len cfg)) 1 s)
      | ChunkedLocalAttentionSpec _ attention_chunk_size \<Rightarrow>
          pages (min (attention_chunk_size + cfg_max_num_batched_tokens cfg) (cfg_max_model_len cfg)) 0 s
      | _ \<Rightarrow>
          (let cp = cfg_decode_context_parallel_size cfg * cfg_prefill_context_parallel_size cfg in
           pages (if 1 < cp then cdiv (cfg_max_model_len cfg) cp else cfg_max_model_len cfg) 0 s))"

definition uniform_max_memory_usage_bytes :: "vllm_config \<Rightarrow> (string, layer_spec) odict \<Rightarrow> int result" where
  "uniform_max_memory_usage_bytes cfg specs =
     rbind (rmap (\<lambda>(_, s). rbind (layer_max_memory_usage_bytes cfg s) (\<lambda>m.
                    rbind (page_size_bytes s) (\<lambda>page. rcdiv m (int page)))) specs) (\<lambda>ns.
     if ns = [] then Inl ValueError
     else rbind (uniform_page_size specs) (\<lambda>page. Inr (Max (set ns) * int page)))"

fun spec_max_memory_usage_bytes :: "vllm_config \<Rightarrow> kv_cache_spec \<Rightarrow> int result" where
  "spec_max_memory_usage_bytes cfg (LayerSpec s) = layer_max_memory_usage_bytes cfg s"
| "spec_max_memory_usage_bytes cfg (UniformTypeKVCacheSpecs _ specs) = uniform_max_memory_usage_bytes cfg specs"

section \<open>Copies and merging\<close>

fun copy_with_new_block_size :: "nat \<Rightarrow> layer_spec \<Rightarrow> layer_spec" where
  "copy_with_new_block_size bs (FullAttentionSpec a w c) = FullAttentionSpec (a\<lparr>at_block_size := bs\<rparr>) w c"
| "copy_with_new_block_size bs (MLAAttentionSpec a w c d) = MLAAttentionSpec (a\<lparr>at_block_size := bs\<rparr>) w c d"
| "copy_with_new_block_size bs (ChunkedLocalAttentionSpec a c) = ChunkedLocalAttentionSpec (a\<lparr>at_block_size := bs\<rparr>) c"
| "copy_with_new_block_size bs (SlidingWindowSpec a w) = SlidingWindowSpec (a\<lparr>at_block_size := bs\<rparr>) w"
| "copy_with_new_block_size bs (MambaSpec _ sh dt pd ty n) = MambaSpec bs sh dt pd ty n"
| "copy_with_new_block_size bs (EncoderOnlyAttentionSpec a) = EncoderOnlyAttentionSpec (a\<lparr>at_block_size := bs\<rparr>)"
| "copy_with_new_block_size bs (CrossAttentionSpec a) = CrossAttentionSpec (a\<lparr>at_block_size := bs\<rparr>)"

definition merge_window_sizes :: "int list \<Rightarrow> int option result" where
  "merge_window_sizes window_sizes =
     (case remdups window_sizes of [] \<Rightarrow> Inr None | [w] \<Rightarrow> Inr (Some w) | _ \<Rightarrow> Inl ValueError)"

fun full_fields :: "layer_spec \<Rightarrow> (attention_fields \<times> int option \<times> int option) option" where
  "full_fields (FullAttentionSpec a w c) = Some (a, w, c)"
| "full_fields (MLAAttentionSpec a w c _) = Some (a, w, c)"
| "full_fields _ = None"

definition base_merge :: "layer_spec list \<Rightarrow> layer_spec result" where
  "base_merge specs =
     (case specs of
        [] \<Rightarrow> Inl IndexError
      | s # rest \<Rightarrow> rbind (rassert (list_all (\<lambda>t. t = s) rest)) (\<lambda>_. Inr s))"

definition full_merge :: "layer_spec list \<Rightarrow> layer_spec result" where
  "full_merge specs =
     rbind (rassert (list_all is_full_attention specs)) (\<lambda>_.
     let fs = List.map_filter full_fields specs;
         windows = List.map_filter (fst \<circ> snd) fs;
         chunks = List.map_filter (snd \<circ> snd) fs in
     rbind (rassert (\<not> list_ex is_mla_attention specs)) (\<lambda>_.
     case fs of
       [] \<Rightarrow> Inl IndexError
     | (a, _, _) # _ \<Rightarrow>
         rbind (merge_window_sizes windows) (\<lambda>w.
         rbind (merge_window_sizes chunks) (\<lambda>c.
         rbind (rassert (list_all (\<lambda>f. fst f = a) fs)) (\<lambda>_.
         rbind (rassert (w = None \<or> c = None)) (\<lambda>_.
           Inr (FullAttentionSpec a w c)))))))"

definition mla_merge :: "layer_spec list \<Rightarrow> layer_spec result" where
  "mla_merge specs =
     rbind (rassert (list_all is_mla_attention specs)) (\<lambda>_.
       let strs = remdups (map (\<lambda>s. case s of MLAAttentionSpec _ _ _ d \<Rightarrow> d | _ \<Rightarrow> None) specs) in
       rbind (rassert (length strs = 1)) (\<lambda>_.
         case specs of
           MLAAttentionSpec a _ _ _ # _ \<Rightarrow> Inr (MLAAttentionSpec a None None (hd strs))
         | _ \<Rightarrow> Inl IndexError))"

text \<open>\<^verbatim>\<open>layer_specs[0].merge(layer_specs)\<close>: the class of the first element decides.\<close>

definition merge_specs :: "layer_spec list \<Rightarrow> layer_spec result" where
  "merge_specs specs =
     (case specs of
        [] \<Rightarrow> Inl IndexError
      | FullAttentionSpec _ _ _ # _ \<Rightarrow> full_merge specs
      | MLAAttentionSpec _ _ _ _ # _ \<Rightarrow> mla_merge specs
      | _ \<Rightarrow> base_merge specs)"

definition is_uniform_type :: "(string, layer_spec) odict \<Rightarrow> bool result" where
  "is_uniform_type specs =
     (if 1 < length (remdups (map (layer_block_size \<circ> snd) specs)) then Inr False
      else case map snd specs of
        [] \<Rightarrow> Inl StopIteration
      | one_spec # rest \<Rightarrow>
          (case one_spec of
             FullAttentionSpec _ _ _ \<Rightarrow> Inr (list_all is_full_attention (map snd specs))
           | MLAAttentionSpec _ _ _ _ \<Rightarrow> Inr (list_all is_full_attention (map snd specs))
           | CrossAttentionSpec _ \<Rightarrow> Inr (list_all is_cross_attention (map snd specs))
           | SlidingWindowSpec _ w \<Rightarrow> Inr (list_all (is_sliding_window_of w) (map snd specs))
           | ChunkedLocalAttentionSpec _ c \<Rightarrow> Inr (list_all (is_chunked_local_of c) (map snd specs))
           | MambaSpec _ _ _ _ _ n \<Rightarrow> Inr (list_all (is_mamba_of n) (map snd specs))
           | EncoderOnlyAttentionSpec _ \<Rightarrow> Inl NotImplementedError))"

definition from_specs :: "(string, layer_spec) odict \<Rightarrow> kv_cache_spec option result" where
  "from_specs specs =
     rbind (is_uniform_type specs) (\<lambda>u.
       if u then Inr (Some (UniformTypeKVCacheSpecs (layer_block_size (snd (hd specs))) specs))
       else Inr None)"

section \<open>Configurations\<close>

record kv_cache_tensor =
  tensor_size :: int
  shared_by :: "string list"

record kv_cache_group_spec =
  layer_names :: "string list"
  group_spec :: kv_cache_spec

record kv_cache_config =
  num_blocks :: int
  kv_cache_tensors :: "kv_cache_tensor list"
  kv_cache_groups :: "kv_cache_group_spec list"

section \<open>Laws\<close>

lemma layer_block_size_copy [simp]: "layer_block_size (copy_with_new_block_size bs s) = bs"
  by (cases s) simp_all

lemma copy_same_block_size [simp]: "copy_with_new_block_size (layer_block_size s) s = s"
  by (cases s) simp_all

lemma merge_specs_block_size:
  assumes "merge_specs specs = Inr m"
  shows "\<exists>s rest. specs = s # rest \<and> layer_block_size m = layer_block_size s"
proof (cases specs)
  case (Cons s rest)
  with assms show ?thesis
    by (cases s) (auto simp: merge_specs_def full_merge_def mla_merge_def base_merge_def result_simps
        List.map_filter_simps Let_def split: list.splits)
qed (use assms in \<open>simp add: merge_specs_def\<close>)

text \<open>The page size of an attention layer grows in proportion to its block size.\<close>

lemma page_size_scales:
  assumes "page_size_bytes s = Inr p" "layer_block_size s = b" "\<forall>a c d e f g. s \<noteq> MambaSpec a c d e f g"
  shows "page_size_bytes (copy_with_new_block_size (k * b) s) = Inr (k * p)"
  using assms by (cases s) (auto simp: attention_page_size_def split: if_splits)

text \<open>One page holds a block; the maximal memory of a layer is a whole number of pages.\<close>

lemma layer_max_memory_pages:
  assumes "layer_max_memory_usage_bytes cfg s = Inr m" "page_size_bytes s = Inr p"
  shows "\<exists>n. m = n * int p"
  using assms by (cases s) (auto simp: layer_max_memory_usage_bytes_def pages_def result_simps Let_def)

end
