(* ===== verification/Single_Type.thy ===== *)
theory Single_Type
  imports Block_Pool KV_Spec
begin

text \<open>
  The managers of one kind of attention layer:
  \<^verbatim>\<open>vllm/v1/core/single_type_kv_cache_manager.py\<close>.

  A manager's own state is the record \<open>st_manager\<close>; the block pool it shares with the other
  managers is passed along.  Which subclass a manager belongs to is the constructor of its
  specification.  \<^verbatim>\<open>req_to_blocks\<close> is a \<^verbatim>\<open>defaultdict\<close>: reading an absent request
  enters an empty list, which \<open>req_blocks_of\<close> does too.

  The locale \<open>cache_hit_finder\<close> is the contract of \<^verbatim>\<open>find_longest_cache_hit\<close>; it is
  interpreted on the four implementations.
\<close>

section \<open>State\<close>

record st_manager =
  st_spec :: layer_spec
  st_block_size :: nat
  req_to_blocks :: "(string, nat list) odict"
  num_cached_block :: "(string, nat) odict"
  kv_cache_group_id :: nat

fun has_manager :: "layer_spec \<Rightarrow> bool" where
  "has_manager (EncoderOnlyAttentionSpec _) = False"
| "has_manager _ = True"

text \<open>The number of tokens of a block under context parallelism.\<close>

definition cp_block_size :: "layer_spec \<Rightarrow> nat \<Rightarrow> nat \<Rightarrow> nat" where
  "cp_block_size spec dcp pcp = (if 1 < dcp * pcp then layer_block_size spec * (dcp * pcp) else layer_block_size spec)"

definition get_manager_for_kv_cache_spec :: "kv_cache_spec \<Rightarrow> nat \<Rightarrow> nat \<Rightarrow> nat \<Rightarrow> st_manager result" where
  "get_manager_for_kv_cache_spec spec group_id dcp_world_size pcp_world_size =
     (case spec of
        UniformTypeKVCacheSpecs _ _ \<Rightarrow> Inl KeyError
      | LayerSpec s \<Rightarrow>
          if \<not> has_manager s then Inl KeyError
          else Inr \<lparr>st_spec = s,
                    st_block_size = cp_block_size s dcp_world_size pcp_world_size,
                    req_to_blocks = [], num_cached_block = [], kv_cache_group_id = group_id\<rparr>)"

section \<open>Operations common to the managers\<close>

text \<open>Indexing a \<^verbatim>\<open>defaultdict(list)\<close>.\<close>

definition req_blocks_of :: "string \<Rightarrow> st_manager \<Rightarrow> nat list \<times> st_manager" where
  "req_blocks_of rid m =
     (case map_of (req_to_blocks m) rid of
        Some bs \<Rightarrow> (bs, m)
      | None \<Rightarrow> ([], m\<lparr>req_to_blocks := AList.update rid [] (req_to_blocks m)\<rparr>))"

definition set_req_blocks :: "string \<Rightarrow> nat list \<Rightarrow> st_manager \<Rightarrow> st_manager" where
  "set_req_blocks rid bs m = m\<lparr>req_to_blocks := AList.update rid bs (req_to_blocks m)\<rparr>"

definition base_num_blocks_to_allocate ::
  "block_pool \<Rightarrow> string \<Rightarrow> int \<Rightarrow> nat list \<Rightarrow> st_manager \<Rightarrow> (int \<times> st_manager) result" where
  "base_num_blocks_to_allocate p rid num_toks new_computed_blocks m =
     rbind (rcdiv num_toks (int (st_block_size m))) (\<lambda>num_required_blocks.
       case req_blocks_of rid m of
         (bs, m1) \<Rightarrow>
           let num_new_blocks = num_required_blocks - int (length new_computed_blocks) - int (length bs);
               num_evictable_computed_blocks =
                 int (length (filter (\<lambda>i. refc p i = 0 \<and> \<not> bnull p i) new_computed_blocks))
           in Inr (num_new_blocks + num_evictable_computed_blocks, m1))"

text \<open>\<^verbatim>\<open>MambaManager\<close> adds the blocks of speculative decoding.\<close>

definition mamba_num_tokens :: "layer_spec \<Rightarrow> int \<Rightarrow> int" where
  "mamba_num_tokens s num_toks =
     (case s of
        MambaSpec bs _ _ _ _ num_speculative_blocks \<Rightarrow>
          if 0 < num_speculative_blocks then num_toks + int bs * int num_speculative_blocks else num_toks
      | _ \<Rightarrow> num_toks)"

definition get_num_blocks_to_allocate ::
  "block_pool \<Rightarrow> string \<Rightarrow> int \<Rightarrow> nat list \<Rightarrow> st_manager \<Rightarrow> (int \<times> st_manager) result" where
  "get_num_blocks_to_allocate p rid num_toks new_computed_blocks m =
     base_num_blocks_to_allocate p rid (mamba_num_tokens (st_spec m) num_toks) new_computed_blocks m"

definition base_save_new_computed_blocks :: "string \<Rightarrow> nat list \<Rightarrow> st_manager \<Rightarrow> st_manager result" where
  "base_save_new_computed_blocks rid new_computed_blocks m =
     (if map_of (num_cached_block m) rid = None then
        case req_blocks_of rid m of
          (bs, m1) \<Rightarrow>
            rbind (rassert (bs = [])) (\<lambda>_.
              Inr ((set_req_blocks rid new_computed_blocks m1)
                     \<lparr>num_cached_block := AList.update rid (length new_computed_blocks) (num_cached_block m1)\<rparr>))
      else rbind (rassert (new_computed_blocks = [])) (\<lambda>_. Inr m))"

definition save_new_computed_blocks :: "string \<Rightarrow> nat list \<Rightarrow> st_manager \<Rightarrow> st_manager result" where
  "save_new_computed_blocks rid new_computed_blocks m =
     (if is_cross_attention (st_spec m)
      then rbind (rassert (new_computed_blocks = [])) (\<lambda>_. Inr m)
      else base_save_new_computed_blocks rid new_computed_blocks m)"

definition base_allocate_new_blocks ::
  "string \<Rightarrow> int \<Rightarrow> st_manager \<Rightarrow> block_pool \<Rightarrow> (nat list \<times> st_manager \<times> block_pool) result" where
  "base_allocate_new_blocks rid num_toks m p =
     (case req_blocks_of rid m of
        (bs, m1) \<Rightarrow>
          rbind (rcdiv num_toks (int (st_block_size m))) (\<lambda>num_required_blocks.
            let num_new_blocks = num_required_blocks - int (length bs) in
            if num_new_blocks \<le> 0 then Inr ([], m1, p)
            else rbind (get_new_blocks (nat num_new_blocks) p) (\<lambda>(new_blocks, p1).
                   Inr (new_blocks, set_req_blocks rid (bs @ new_blocks) m1, p1))))"

definition allocate_new_blocks ::
  "string \<Rightarrow> int \<Rightarrow> st_manager \<Rightarrow> block_pool \<Rightarrow> (nat list \<times> st_manager \<times> block_pool) result" where
  "allocate_new_blocks rid num_toks m p =
     base_allocate_new_blocks rid (mamba_num_tokens (st_spec m) num_toks) m p"

definition base_cache_blocks :: "request \<Rightarrow> nat \<Rightarrow> st_manager \<Rightarrow> block_pool \<Rightarrow> (st_manager \<times> block_pool) result" where
  "base_cache_blocks r num_toks m p =
     (if st_block_size m = 0 then Inl ZeroDivisionError
      else
        let num_cached_blocks = (case map_of (num_cached_block m) (request_id r) of None \<Rightarrow> 0 | Some n \<Rightarrow> n);
            num_full_blocks = num_toks div st_block_size m
        in if num_full_blocks \<le> num_cached_blocks then Inr (m, p)
           else case req_blocks_of (request_id r) m of
             (bs, m1) \<Rightarrow>
               rbind (cache_full_blocks r bs num_cached_blocks num_full_blocks (st_block_size m) (kv_cache_group_id m) p)
                 (\<lambda>p1. Inr (m1\<lparr>num_cached_block := AList.update (request_id r) num_full_blocks (num_cached_block m1)\<rparr>, p1)))"

definition cache_blocks :: "request \<Rightarrow> nat \<Rightarrow> st_manager \<Rightarrow> block_pool \<Rightarrow> (st_manager \<times> block_pool) result" where
  "cache_blocks r num_toks m p =
     (if is_cross_attention (st_spec m) then Inl ValueError else base_cache_blocks r num_toks m p)"

definition st_free :: "string \<Rightarrow> st_manager \<Rightarrow> block_pool \<Rightarrow> (st_manager \<times> block_pool) result" where
  "st_free rid m p =
     (let req_blocks = (case map_of (req_to_blocks m) rid of None \<Rightarrow> [] | Some bs \<Rightarrow> bs) in
      rbind (free_blocks (rev req_blocks) p) (\<lambda>p1.
        Inr (m\<lparr>req_to_blocks := AList.delete rid (req_to_blocks m),
               num_cached_block := AList.delete rid (num_cached_block m)\<rparr>, p1)))"

definition get_num_skipped_tokens :: "st_manager \<Rightarrow> int \<Rightarrow> int result" where
  "get_num_skipped_tokens m num_computed =
     (case st_spec m of
        SlidingWindowSpec _ sliding_window \<Rightarrow> Inr (num_computed - sliding_window + 1)
      | ChunkedLocalAttentionSpec _ attention_chunk_size \<Rightarrow>
          if attention_chunk_size = 0 then Inl ZeroDivisionError
          else Inr ((num_computed div attention_chunk_size) * attention_chunk_size)
      | _ \<Rightarrow> Inr 0)"

text \<open>The loop over the indices \<open>n - 1, \<dots>, 0\<close> that collects the blocks to free, last first.\<close>

fun remove_skipped_loop :: "nat \<Rightarrow> nat \<Rightarrow> nat list \<Rightarrow> nat list \<Rightarrow> (nat list \<times> nat list) result" where
  "remove_skipped_loop null 0 blocks removed = Inr (blocks, removed)"
| "remove_skipped_loop null (Suc i) blocks removed =
     rbind (py_get blocks i) (\<lambda>b.
       if b = null then Inr (blocks, removed)
       else remove_skipped_loop null i (blocks[i := null]) (removed @ [b]))"

definition remove_skipped_blocks :: "string \<Rightarrow> int \<Rightarrow> st_manager \<Rightarrow> block_pool \<Rightarrow> (st_manager \<times> block_pool) result" where
  "remove_skipped_blocks rid num_computed m p =
     rbind (get_num_skipped_tokens m num_computed) (\<lambda>num_skipped_tokens.
       if num_skipped_tokens \<le> 0 then Inr (m, p)
       else if st_block_size m = 0 then Inl ZeroDivisionError
       else
         let num_skipped_blocks = nat num_skipped_tokens div st_block_size m in
         case req_blocks_of rid m of
           (bs, m1) \<Rightarrow>
             rbind (remove_skipped_loop (null_block p) num_skipped_blocks bs []) (\<lambda>(bs', removed).
             rbind (free_blocks removed p) (\<lambda>p1. Inr (set_req_blocks rid bs' m1, p1))))"

fun count_common :: "block_pool \<Rightarrow> int \<Rightarrow> nat list \<Rightarrow> nat" where
  "count_common p n [] = 0"
| "count_common p n (b # bs) = (if refc p b = n then Suc (count_common p n bs) else 0)"

text \<open>Only full attention counts common prefix blocks; the other kinds return 0.\<close>

definition get_num_common_prefix_blocks :: "block_pool \<Rightarrow> string \<Rightarrow> st_manager \<Rightarrow> nat \<times> st_manager" where
  "get_num_common_prefix_blocks p rid m =
     (if is_full_attention (st_spec m) then
        case req_blocks_of rid m of (bs, m1) \<Rightarrow> (count_common p (int (length (req_to_blocks m1))) bs, m1)
      else (0, m))"

section \<open>Finding cache hits\<close>

text \<open>
  The results are lists of block lists, one per group, filled in parallel.  \<open>pop_all\<close> drops
  the last block of each, \<open>trim_loop\<close> is the loop that drops blocks until the hit length is
  a multiple of the alignment.
\<close>

definition pop_all :: "nat list list \<Rightarrow> nat list list result" where
  "pop_all cbs = (if [] \<in> set cbs then Inl IndexError else Inr (map butlast cbs))"

definition append_all :: "nat list list \<Rightarrow> nat list \<Rightarrow> nat list list" where
  "append_all cbs cached = map2 (\<lambda>c b. c @ [b]) cbs cached"

definition misaligned :: "nat \<Rightarrow> nat \<Rightarrow> nat \<Rightarrow> bool result" where
  "misaligned block_size alignment n =
     (if block_size = alignment then Inr False
      else if alignment = 0 then Inl ZeroDivisionError
      else Inr (n * block_size mod alignment \<noteq> 0))"

fun trim_loop :: "nat \<Rightarrow> nat \<Rightarrow> nat \<Rightarrow> nat list list \<Rightarrow> nat list list result" where
  "trim_loop block_size alignment 0 cbs = rbind (misaligned block_size alignment 0) (\<lambda>_. Inr cbs)"
| "trim_loop block_size alignment (Suc n) cbs =
     rbind (misaligned block_size alignment (Suc n)) (\<lambda>bad.
       if bad then rbind (pop_all cbs) (trim_loop block_size alignment n) else Inr cbs)"

definition first_len :: "nat list list \<Rightarrow> nat result" where
  "first_len cbs = (case cbs of [] \<Rightarrow> Inl IndexError | c # _ \<Rightarrow> Inr (length c))"

definition pop_until_aligned :: "nat \<Rightarrow> nat \<Rightarrow> nat list list \<Rightarrow> nat list list result" where
  "pop_until_aligned block_size alignment cbs =
     (if block_size = alignment then Inr cbs
      else rbind (first_len cbs) (\<lambda>n. trim_loop block_size alignment n cbs))"

subsection \<open>Full attention\<close>

fun is_chunked_local :: "layer_spec \<Rightarrow> bool" where
  "is_chunked_local (ChunkedLocalAttentionSpec _ _) = True"
| "is_chunked_local _ = False"

fun full_scan :: "block_pool \<Rightarrow> nat list \<Rightarrow> bytes list \<Rightarrow> nat list list \<Rightarrow> nat list list result" where
  "full_scan p gs [] cbs = Inr cbs"
| "full_scan p gs (h # hs) cbs =
     rbind (get_cached_block p h gs) (\<lambda>res.
       case res of
         None \<Rightarrow> Inr cbs
       | Some cached \<Rightarrow>
           if cached = [] then Inr cbs else full_scan p gs hs (append_all cbs cached))"

definition full_find_longest_cache_hit ::
  "block_pool \<Rightarrow> layer_spec \<Rightarrow> block_hash_list \<Rightarrow> int \<Rightarrow> nat list \<Rightarrow> bool \<Rightarrow> nat \<Rightarrow> nat \<Rightarrow> nat \<Rightarrow> nat list list result" where
  "full_find_longest_cache_hit p spec hashes max_length gs use_eagle alignment dcp pcp =
     rbind (rassert (is_full_attention spec \<or> is_chunked_local spec)) (\<lambda>_.
     let block_size = cp_block_size spec dcp pcp in
     if block_size = 0 then Inl ZeroDivisionError
     else
       let max_num_blocks = max_length div int block_size in
       if max_num_blocks < 0 then Inl ValueError
       else
         rbind (bhl_from hashes 0) (\<lambda>hs.
         rbind (full_scan p gs (take (nat max_num_blocks) hs) (replicate (length gs) [])) (\<lambda>cbs.
         rbind (if use_eagle
                then rbind (first_len cbs) (\<lambda>n. if 0 < n then pop_all cbs else Inr cbs)
                else Inr cbs) (\<lambda>cbs1.
           pop_until_aligned block_size alignment cbs1))))"

subsection \<open>Sliding window attention\<close>

text \<open>
  The scan from right to left: \<open>sw_scan n cont cbs\<close> has the indices \<open>n - 1, \<dots>, 0\<close> to go and
  \<open>cont\<close> contiguous hits behind it.  It gives the lists, \<open>cont\<close>, and whether it stopped early.
\<close>

definition set_all :: "nat list list \<Rightarrow> nat \<Rightarrow> nat list \<Rightarrow> nat list list" where
  "set_all cbs i cached = map2 (\<lambda>c b. c[i := b]) cbs cached"

fun sw_scan ::
  "block_pool \<Rightarrow> nat list \<Rightarrow> block_hash_list \<Rightarrow> nat \<Rightarrow> nat \<Rightarrow> nat \<Rightarrow> nat \<Rightarrow> nat \<Rightarrow> nat list list \<Rightarrow>
   (nat list list \<times> nat \<times> bool) result" where
  "sw_scan p gs hashes bs al need 0 cont cbs = Inr (cbs, cont, False)"
| "sw_scan p gs hashes bs al need (Suc i) cont cbs =
     rbind (bhl_get hashes i) (\<lambda>h.
     rbind (get_cached_block p h gs) (\<lambda>res.
       case (case res of Some [] \<Rightarrow> None | r \<Rightarrow> r) of
         None \<Rightarrow> sw_scan p gs hashes bs al need i 0 cbs
       | Some cached \<Rightarrow>
           rbind (if cont = 0 then misaligned bs al (i + 1) else Inr False) (\<lambda>skip.
             if skip then sw_scan p gs hashes bs al need i cont cbs
             else
               let cbs1 = set_all cbs i cached; cont1 = cont + 1 in
               if need \<le> cont1 then Inr (map (take (i + cont1)) cbs1, cont1, True)
               else sw_scan p gs hashes bs al need i cont1 cbs1)))"

definition sw_find_longest_cache_hit ::
  "block_pool \<Rightarrow> layer_spec \<Rightarrow> block_hash_list \<Rightarrow> int \<Rightarrow> nat list \<Rightarrow> bool \<Rightarrow> nat \<Rightarrow> nat \<Rightarrow> nat \<Rightarrow> nat list list result" where
  "sw_find_longest_cache_hit p spec hashes max_length gs use_eagle alignment dcp pcp =
     (case spec of
        SlidingWindowSpec a sliding_window \<Rightarrow>
          rbind (rassert (dcp = 1)) (\<lambda>_.
          rbind (rassert (pcp = 1)) (\<lambda>_.
          rbind (rcdiv (sliding_window - 1) (int (at_block_size a))) (\<lambda>n0.
          let need = nat (if use_eagle then n0 + 1 else n0);
              bs = at_block_size a;
              max_num_blocks = nat (max_length div int bs) in
          rbind (sw_scan p gs hashes bs alignment need max_num_blocks 0
                   (replicate (length gs) (replicate max_num_blocks (null_block p)))) (\<lambda>(cbs, cont, match_found).
          rbind (if match_found then Inr cbs else pop_until_aligned bs alignment (map (take cont) cbs)) (\<lambda>cbs1.
            if use_eagle
            then rbind (first_len cbs1) (\<lambda>n.
                   if 0 < n then rbind (rassert (bs = alignment)) (\<lambda>_. pop_all cbs1) else Inr cbs1)
            else Inr cbs1)))))
      | _ \<Rightarrow> Inl AssertionError)"

subsection \<open>Chunked local attention\<close>

fun chunk_scan :: "block_pool \<Rightarrow> nat list \<Rightarrow> block_hash_list \<Rightarrow> nat list \<Rightarrow> nat list list \<Rightarrow> nat list list result" where
  "chunk_scan p gs hashes [] cbs = Inr cbs"
| "chunk_scan p gs hashes (i # is) cbs =
     rbind (bhl_get hashes i) (\<lambda>h.
     rbind (get_cached_block p h gs) (\<lambda>res.
       case res of
         None \<Rightarrow> Inr cbs
       | Some cached \<Rightarrow>
           if cached = [] then Inr cbs else chunk_scan p gs hashes is (append_all cbs cached)))"

definition chunk_find_longest_cache_hit ::
  "block_pool \<Rightarrow> layer_spec \<Rightarrow> block_hash_list \<Rightarrow> int \<Rightarrow> nat list \<Rightarrow> bool \<Rightarrow> nat \<Rightarrow> nat \<Rightarrow> nat \<Rightarrow> nat list list result" where
  "chunk_find_longest_cache_hit p spec hashes max_length gs use_eagle alignment dcp pcp =
     (case spec of
        ChunkedLocalAttentionSpec a chunk \<Rightarrow>
          rbind (rassert (\<not> use_eagle)) (\<lambda>_.
          rbind (rassert (dcp = 1)) (\<lambda>_.
          rbind (rassert (pcp = 1)) (\<lambda>_.
          rbind (rassert (at_block_size a = alignment)) (\<lambda>_.
          let bs = at_block_size a in
          if bs = 0 then Inl ZeroDivisionError
          else
            let max_num_blocks = nat (max_length div int bs) in
            rbind (if 0 < max_length
                   then if chunk = 0 then Inl ZeroDivisionError else Inr (max_length div chunk * chunk)
                   else Inr 0) (\<lambda>local_attention_start_idx.
            let start = nat (local_attention_start_idx div int bs) in
            chunk_scan p gs hashes [start..<max_num_blocks]
              (replicate (length gs) (replicate start (null_block p))))))))
      | _ \<Rightarrow> Inl AssertionError)"

subsection \<open>Mamba\<close>

fun mamba_scan :: "block_pool \<Rightarrow> nat list \<Rightarrow> block_hash_list \<Rightarrow> nat \<Rightarrow> nat \<Rightarrow> nat \<Rightarrow> nat list list result" where
  "mamba_scan p gs hashes bs al 0 = Inr (replicate (length gs) [])"
| "mamba_scan p gs hashes bs al (Suc i) =
     rbind (bhl_get hashes i) (\<lambda>h.
     rbind (get_cached_block p h gs) (\<lambda>res.
       case (case res of Some [] \<Rightarrow> None | r \<Rightarrow> r) of
         None \<Rightarrow> mamba_scan p gs hashes bs al i
       | Some cached \<Rightarrow>
           rbind (misaligned bs al (i + 1)) (\<lambda>skip.
             if skip then mamba_scan p gs hashes bs al i
             else Inr (map (\<lambda>b. replicate i (null_block p) @ [b]) cached))))"

definition mamba_find_longest_cache_hit ::
  "block_pool \<Rightarrow> layer_spec \<Rightarrow> block_hash_list \<Rightarrow> int \<Rightarrow> nat list \<Rightarrow> bool \<Rightarrow> nat \<Rightarrow> nat \<Rightarrow> nat \<Rightarrow> nat list list result" where
  "mamba_find_longest_cache_hit p spec hashes max_length gs use_eagle alignment dcp pcp =
     (case spec of
        MambaSpec bs _ _ _ _ _ \<Rightarrow>
          rbind (rassert (dcp = 1)) (\<lambda>_.
          rbind (rassert (pcp = 1)) (\<lambda>_.
          if bs = 0 then Inl ZeroDivisionError
          else mamba_scan p gs hashes bs alignment (nat (max_length div int bs))))
      | _ \<Rightarrow> Inl AssertionError)"

subsection \<open>Dispatch\<close>

text \<open>The class of the manager decides; \<^verbatim>\<open>CrossAttentionManager\<close> does not support caching.\<close>

definition find_longest_cache_hit ::
  "layer_spec \<Rightarrow> block_pool \<Rightarrow> layer_spec \<Rightarrow> block_hash_list \<Rightarrow> int \<Rightarrow> nat list \<Rightarrow> bool \<Rightarrow> nat \<Rightarrow> nat \<Rightarrow> nat \<Rightarrow>
   nat list list result" where
  "find_longest_cache_hit cls p spec hashes max_length gs use_eagle alignment dcp pcp =
     (case cls of
        FullAttentionSpec _ _ _ \<Rightarrow> full_find_longest_cache_hit p spec hashes max_length gs use_eagle alignment dcp pcp
      | MLAAttentionSpec _ _ _ _ \<Rightarrow> full_find_longest_cache_hit p spec hashes max_length gs use_eagle alignment dcp pcp
      | SlidingWindowSpec _ _ \<Rightarrow> sw_find_longest_cache_hit p spec hashes max_length gs use_eagle alignment dcp pcp
      | ChunkedLocalAttentionSpec _ _ \<Rightarrow> chunk_find_longest_cache_hit p spec hashes max_length gs use_eagle alignment dcp pcp
      | MambaSpec _ _ _ _ _ _ \<Rightarrow> mamba_find_longest_cache_hit p spec hashes max_length gs use_eagle alignment dcp pcp
      | CrossAttentionSpec _ \<Rightarrow>
          rbind (rassert (is_cross_attention spec)) (\<lambda>_. Inl NotImplementedError)
      | EncoderOnlyAttentionSpec _ \<Rightarrow> Inl KeyError)"


section \<open>What a hit is\<close>

text \<open>
  \<open>hits_ok p gs hs must n cbs\<close>: one list per group, \<open>n\<close> long; entry \<open>i\<close> is a block that
  holds the content with hash \<open>hs ! i\<close> for the group, or the null block where \<open>must i\<close> does
  not ask for a block.
\<close>

definition block_hit :: "block_pool \<Rightarrow> nat \<Rightarrow> bytes \<Rightarrow> nat \<Rightarrow> bool" where
  "block_hit p g h i \<longleftrightarrow> 0 < i \<and> i < num_gpu_blocks p \<and> bhash p i = Some (block_key g h)"

definition hits_ok :: "block_pool \<Rightarrow> nat list \<Rightarrow> bytes list \<Rightarrow> (nat \<Rightarrow> bool) \<Rightarrow> nat \<Rightarrow> nat list list \<Rightarrow> bool" where
  "hits_ok p gs hs must n cbs \<longleftrightarrow> length cbs = length gs \<and>
     (\<forall>j < length gs. length (cbs ! j) = n \<and>
        (\<forall>i < n. block_hit p (gs ! j) (hs ! i) (cbs ! j ! i) \<or> (cbs ! j ! i = null_block p \<and> \<not> must i)))"

definition bhl_view :: "block_hash_list \<Rightarrow> bytes list \<Rightarrow> bool" where
  "bhl_view hashes hs \<longleftrightarrow> bhl_from hashes 0 = Inr hs \<and> (\<forall>i < length hs. bhl_get hashes i = Inr (hs ! i))"

lemma hits_ok_empty [simp]: "hits_ok p gs hs must 0 (replicate (length gs) [])"
  by (simp add: hits_ok_def)

lemma hits_ok_nulls: "(\<And>i. i < n \<Longrightarrow> \<not> must i) \<Longrightarrow> hits_ok p gs hs must n (replicate (length gs) (replicate n (null_block p)))"
  by (simp add: hits_ok_def)

lemma hits_ok_mono: "hits_ok p gs hs must n cbs \<Longrightarrow> (\<And>i. i < n \<Longrightarrow> must' i \<Longrightarrow> must i) \<Longrightarrow> hits_ok p gs hs must' n cbs"
  unfolding hits_ok_def by blast

lemma hits_ok_append:
  assumes "hits_ok p gs hs must n cbs" "list_all2 (\<lambda>g i. block_hit p g (hs ! n) i) gs cached"
  shows "hits_ok p gs hs must (Suc n) (append_all cbs cached)"
  using assms
  by (auto simp: hits_ok_def append_all_def list_all2_conv_all_nth nth_append less_Suc_eq)

lemma hits_ok_take:
  assumes "hits_ok p gs hs must n cbs" "k \<le> n"
  shows "hits_ok p gs hs must k (map (take k) cbs)"
  using assms by (auto simp: hits_ok_def)

lemma hits_ok_pop:
  assumes "hits_ok p gs hs must (Suc n) cbs"
  shows "\<exists>cbs'. pop_all cbs = Inr cbs' \<and> hits_ok p gs hs must n cbs'"
proof -
  have "[] \<notin> set cbs" using assms by (auto simp: hits_ok_def in_set_conv_nth)
  moreover have "hits_ok p gs hs must n (map butlast cbs)"
    using assms by (auto simp: hits_ok_def nth_butlast)
  ultimately show ?thesis by (simp add: pop_all_def)
qed

lemma hits_ok_set:
  assumes "hits_ok p gs hs must n cbs" "i < n" "list_all2 (\<lambda>g b. block_hit p g (hs ! i) b) gs cached"
  shows "hits_ok p gs hs (\<lambda>k. must k \<or> k = i) n (set_all cbs i cached)"
  using assms by (auto simp: hits_ok_def set_all_def list_all2_conv_all_nth nth_list_update)

lemma hits_ok_first_len: "hits_ok p gs hs must n cbs \<Longrightarrow> gs \<noteq> [] \<Longrightarrow> first_len cbs = Inr n"
  by (cases cbs) (auto simp: hits_ok_def first_len_def)

lemma misaligned_total: "0 < al \<Longrightarrow> misaligned bs al n = Inr (bs \<noteq> al \<and> \<not> al dvd n * bs)"
  by (auto simp: misaligned_def mod_eq_0_iff_dvd)

lemma trim_loop_hits:
  assumes "hits_ok p gs hs must n cbs" "0 < al"
  shows "\<exists>n' cbs'. trim_loop bs al n cbs = Inr cbs' \<and> n' \<le> n \<and> hits_ok p gs hs must n' cbs' \<and>
    al dvd n' * bs \<and> (\<forall>k. al dvd k * bs \<and> k \<le> n \<longrightarrow> k \<le> n')"
  using assms(1)
proof (induction n arbitrary: cbs)
  case 0
  then show ?case by (auto simp: misaligned_total [OF assms(2)])
next
  case (Suc n)
  show ?case
  proof (cases "al dvd Suc n * bs")
    case True
    with Suc.prems show ?thesis
      by (intro exI [of _ "Suc n"] exI [of _ cbs]) (simp add: misaligned_total [OF assms(2)])
  next
    case False
    obtain cbs' where cbs': "pop_all cbs = Inr cbs'" "hits_ok p gs hs must n cbs'" using hits_ok_pop [OF Suc.prems] by blast
    from Suc.IH [OF cbs'(2)] obtain n' cbs'' where ih: "trim_loop bs al n cbs' = Inr cbs''" "n' \<le> n"
        "hits_ok p gs hs must n' cbs''" "al dvd n' * bs" "\<forall>k. al dvd k * bs \<and> k \<le> n \<longrightarrow> k \<le> n'" by blast
    have "bs \<noteq> al" using False by auto
    then have "trim_loop bs al (Suc n) cbs = Inr cbs''"
      using False cbs'(1) ih(1) by (simp add: misaligned_total [OF assms(2)])
    moreover have "\<forall>k. al dvd k * bs \<and> k \<le> Suc n \<longrightarrow> k \<le> n'" using ih(5) False by (auto simp: le_Suc_eq)
    ultimately show ?thesis using ih(2-4) by (intro exI [of _ n'] exI [of _ cbs'']) auto
  qed
qed

lemma pop_until_aligned_hits:
  assumes "hits_ok p gs hs must n cbs" "gs \<noteq> []" "0 < al"
  shows "\<exists>n' cbs'. pop_until_aligned bs al cbs = Inr cbs' \<and> n' \<le> n \<and> hits_ok p gs hs must n' cbs' \<and>
    al dvd n' * bs \<and> (\<forall>k. al dvd k * bs \<and> k \<le> n \<longrightarrow> k \<le> n')"
proof (cases "bs = al")
  case True
  with assms(1) show ?thesis by (auto simp: pop_until_aligned_def)
next
  case False
  with trim_loop_hits [OF assms(1,3), of bs] hits_ok_first_len [OF assms(1,2)] show ?thesis
    by (simp add: pop_until_aligned_def)
qed

lemma pop_if_any:
  assumes "hits_ok p gs hs must n cbs" "gs \<noteq> []"
  shows "\<exists>cbs'. rbind (first_len cbs) (\<lambda>n. if 0 < n then pop_all cbs else Inr cbs) = Inr cbs' \<and>
    hits_ok p gs hs must (n - 1) cbs'"
proof (cases n)
  case 0
  with assms(1) hits_ok_first_len [OF assms] show ?thesis by simp
next
  case (Suc k)
  with hits_ok_pop [of p gs hs must k cbs] assms(1) hits_ok_first_len [OF assms] show ?thesis by auto
qed

text \<open>A lookup in a good pool: a list of hits, or a miss in some group.\<close>

lemma lookup_cases:
  assumes "pool_rep p fl A" "\<forall>g \<in> set gs. g < 2 ^ 32" "gs \<noteq> []"
  obtains (hit) cached where "get_cached_block p h gs = Inr (Some cached)" "cached \<noteq> []"
      "list_all2 (\<lambda>g i. block_hit p g h i) gs cached"
  | (miss) "get_cached_block p h gs = Inr None" "\<not> (\<forall>g \<in> set gs. \<exists>i. block_hit p g h i)"
proof -
  obtain res where res: "get_cached_block p h gs = Inr res" using get_cached_block_total [OF assms(1,2)] by blast
  show thesis
  proof (cases res)
    case None
    have "\<not> (\<forall>g \<in> set gs. \<exists>i. block_hit p g h i)"
      using get_cached_block_complete [OF assms(1,2), of h] res None unfolding block_hit_def by fastforce
    with res None miss show thesis by simp
  next
    case (Some cached)
    from get_cached_block_sound [OF assms(1,2)] res Some
    have hits: "list_all2 (\<lambda>g i. block_hit p g h i) gs cached" by (simp add: block_hit_def)
    then have "cached \<noteq> []" using assms(3) by auto
    with hits res Some hit show thesis by simp
  qed
qed

section \<open>The contract of find_longest_cache_hit\<close>

text \<open>
  The first block that the next token's attention reads after \<open>n\<close> computed blocks: the one
  after the skipped tokens, or for Mamba the last one, which holds the state.
\<close>

definition skipped_tokens :: "layer_spec \<Rightarrow> int \<Rightarrow> int" where
  "skipped_tokens s n =
     (case s of
        SlidingWindowSpec _ w \<Rightarrow> n - w + 1
      | ChunkedLocalAttentionSpec _ c \<Rightarrow> (n div c) * c
      | _ \<Rightarrow> 0)"

definition needs_block :: "layer_spec \<Rightarrow> nat \<Rightarrow> nat \<Rightarrow> nat \<Rightarrow> bool" where
  "needs_block s bs n i \<longleftrightarrow>
     (case s of
        MambaSpec _ _ _ _ _ _ \<Rightarrow> i + 1 = n
      | _ \<Rightarrow> skipped_tokens s (int (n * bs)) div int bs \<le> int i)"

locale cache_hit_finder =
  fixes find :: "block_pool \<Rightarrow> layer_spec \<Rightarrow> block_hash_list \<Rightarrow> int \<Rightarrow> nat list \<Rightarrow> bool \<Rightarrow> nat \<Rightarrow> nat \<Rightarrow> nat \<Rightarrow> nat list list result"
    and supports :: "layer_spec \<Rightarrow> bool \<Rightarrow> nat \<Rightarrow> nat \<Rightarrow> nat \<Rightarrow> bool"
    and bsize :: "layer_spec \<Rightarrow> nat \<Rightarrow> nat \<Rightarrow> nat"
  assumes find_hits: "pool_rep p fl A \<Longrightarrow> gs \<noteq> [] \<Longrightarrow> \<forall>g \<in> set gs. g < 2 ^ 32 \<Longrightarrow> bhl_view hashes hs \<Longrightarrow>
      supports spec eagle al dcp pcp \<Longrightarrow> 0 < al \<Longrightarrow> 0 \<le> max_length \<Longrightarrow>
      max_length div int (bsize spec dcp pcp) \<le> int (length hs) \<Longrightarrow>
      \<exists>cbs n. find p spec hashes max_length gs eagle al dcp pcp = Inr cbs \<and>
        hits_ok p gs hs (needs_block spec (bsize spec dcp pcp) n) n cbs \<and>
        int (n * bsize spec dcp pcp) \<le> max_length \<and> al dvd n * bsize spec dcp pcp"
begin

text \<open>A hit names only blocks of the pool, so touching them is safe.\<close>

lemma find_in_range:
  assumes "pool_rep p fl A" "gs \<noteq> []" "\<forall>g \<in> set gs. g < 2 ^ 32" "bhl_view hashes hs"
    and "supports spec eagle al dcp pcp" "0 < al" "0 \<le> max_length"
    and "max_length div int (bsize spec dcp pcp) \<le> int (length hs)"
    and "find p spec hashes max_length gs eagle al dcp pcp = Inr cbs"
  shows "length cbs = length gs" "set (concat cbs) \<subseteq> {..<num_gpu_blocks p}"
proof -
  from find_hits [OF assms(1-8)] assms(9) obtain n where h: "hits_ok p gs hs (needs_block spec (bsize spec dcp pcp) n) n cbs"
    by auto
  then show "length cbs = length gs" by (simp add: hits_ok_def)
  have "0 < num_gpu_blocks p" "null_block p = 0" using assms(1) by (simp_all add: pool_rep_def)
  with h show "set (concat cbs) \<subseteq> {..<num_gpu_blocks p}"
    by (fastforce simp: hits_ok_def block_hit_def in_set_conv_nth)
qed

end

subsection \<open>Full attention\<close>

lemma full_scan_hits:
  assumes "pool_rep p fl A" "\<forall>g \<in> set gs. g < 2 ^ 32" "gs \<noteq> []"
    and "hits_ok p gs HS must n cbs" "drop n HS = hs"
  shows "\<exists>k cbs'. full_scan p gs (take m hs) cbs = Inr cbs' \<and> hits_ok p gs HS must (n + k) cbs' \<and> k \<le> m \<and> k \<le> length hs \<and>
    (\<forall>i < k. \<forall>g \<in> set gs. \<exists>b. block_hit p g (hs ! i) b) \<and>
    (k < m \<and> k < length hs \<longrightarrow> \<not> (\<forall>g \<in> set gs. \<exists>b. block_hit p g (hs ! k) b))"
  using assms(4,5)
proof (induction m arbitrary: n hs cbs)
  case 0
  then show ?case by (intro exI [of _ 0] exI [of _ cbs]) simp
next
  case (Suc m)
  show ?case
  proof (cases hs)
    case Nil
    with Suc.prems show ?thesis by (intro exI [of _ 0] exI [of _ cbs]) simp
  next
    case (Cons h hs')
    have h: "HS ! n = h" "drop (Suc n) HS = hs'"
      using Suc.prems(2) Cons nth_via_drop [of n HS h hs'] drop_Suc [of n HS] by (simp_all add: tl_drop [symmetric])
    show ?thesis
    proof (rule lookup_cases [OF assms(1,2,3), of h])
      fix cached assume c: "get_cached_block p h gs = Inr (Some cached)" "cached \<noteq> []"
        "list_all2 (\<lambda>g i. block_hit p g h i) gs cached"
      from Suc.IH [OF hits_ok_append [OF Suc.prems(1), of cached] h(2)] c(3) h(1)
      obtain k cbs' where k: "full_scan p gs (take m hs') (append_all cbs cached) = Inr cbs'"
          "hits_ok p gs HS must (Suc n + k) cbs'" "k \<le> m" "k \<le> length hs'"
          "\<forall>i < k. \<forall>g \<in> set gs. \<exists>b. block_hit p g (hs' ! i) b"
          "k < m \<and> k < length hs' \<longrightarrow> \<not> (\<forall>g \<in> set gs. \<exists>b. block_hit p g (hs' ! k) b)" by auto
      have first: "\<forall>g \<in> set gs. \<exists>b. block_hit p g h b"
        using c(3) by (induction gs cached rule: list_all2_induct) auto
      have "\<forall>i < Suc k. \<forall>g \<in> set gs. \<exists>b. block_hit p g (hs ! i) b"
        using k(5) first Cons by (simp add: nth_Cons split: nat.splits)
      with k c Cons show ?thesis by (intro exI [of _ "Suc k"] exI [of _ cbs']) auto
    next
      assume "get_cached_block p h gs = Inr None" "\<not> (\<forall>g \<in> set gs. \<exists>i. block_hit p g h i)"
      with Suc.prems Cons show ?thesis by (intro exI [of _ 0] exI [of _ cbs]) auto
    qed
  qed
qed

definition full_supports :: "layer_spec \<Rightarrow> bool \<Rightarrow> nat \<Rightarrow> nat \<Rightarrow> nat \<Rightarrow> bool" where
  "full_supports spec eagle al dcp pcp \<longleftrightarrow> is_full_attention spec \<and> 0 < layer_block_size spec"

lemma div_mult_le_int: "0 \<le> max_length \<Longrightarrow> n \<le> nat (max_length div int b) \<Longrightarrow> int (n * b) \<le> max_length"
proof -
  assume "0 \<le> max_length" "n \<le> nat (max_length div int b)"
  then have "int n \<le> max_length div int b" by (cases "b = 0") (auto simp: zdiv_int le_nat_iff pos_imp_zdiv_nonneg_iff)
  then have "int n * int b \<le> max_length div int b * int b" by (simp add: mult_right_mono)
  also have "\<dots> \<le> max_length" using \<open>0 \<le> max_length\<close> by (cases "b = 0") (simp_all add: minus_mod_eq_div_mult [symmetric])
  finally show ?thesis by simp
qed


lemma cp_block_size_pos: "0 < layer_block_size spec \<Longrightarrow> 0 < cp_block_size spec dcp pcp"
  by (cases dcp; cases pcp) (simp_all add: cp_block_size_def)

lemma full_find_hits:
  assumes "pool_rep p fl A" "gs \<noteq> []" "\<forall>g \<in> set gs. g < 2 ^ 32" "bhl_view hashes hs"
    and "full_supports spec eagle al dcp pcp" "0 < al" "0 \<le> max_length"
  defines "bs \<equiv> cp_block_size spec dcp pcp"
  shows "\<exists>cbs n. full_find_longest_cache_hit p spec hashes max_length gs eagle al dcp pcp = Inr cbs \<and>
    hits_ok p gs hs (\<lambda>_. True) n cbs \<and> int (n * bs) \<le> max_length \<and> al dvd n * bs \<and> n \<le> length hs \<and>
    (\<not> eagle \<longrightarrow> (\<forall>k. al dvd k * bs \<and> int (k * bs) \<le> max_length \<and> k \<le> length hs \<and>
      (\<forall>i < k. \<forall>g \<in> set gs. \<exists>b. block_hit p g (hs ! i) b) \<longrightarrow> k \<le> n))"
proof -
  let ?m = "nat (max_length div int bs)"
  have bs: "0 < bs" "is_full_attention spec" using assms(5) cp_block_size_pos by (auto simp: full_supports_def bs_def)
  have hs: "bhl_from hashes 0 = Inr hs" using assms(4) by (simp add: bhl_view_def)
  obtain k c1 where k: "full_scan p gs (take ?m hs) (replicate (length gs) []) = Inr c1"
      "hits_ok p gs hs (\<lambda>_. True) k c1" "k \<le> ?m" "k \<le> length hs"
      "k < ?m \<and> k < length hs \<longrightarrow> \<not> (\<forall>g \<in> set gs. \<exists>b. block_hit p g (hs ! k) b)"
    using full_scan_hits [OF assms(1,3,2) hits_ok_empty, where HS = hs and hs = hs and must = "\<lambda>_. True" and m = ?m]
    by auto
  obtain c2 where c2: "rbind (first_len c1) (\<lambda>n. if 0 < n then pop_all c1 else Inr c1) = Inr c2"
      "hits_ok p gs hs (\<lambda>_. True) (k - 1) c2"
    using pop_if_any [OF k(2) assms(2)] by blast
  define c k2 where "c = (if eagle then c2 else c1)" and "k2 = (if eagle then k - 1 else k)"
  have c: "hits_ok p gs hs (\<lambda>_. True) k2 c" using k(2) c2(2) by (simp add: c_def k2_def)
  obtain n cbs where n: "pop_until_aligned bs al c = Inr cbs" "n \<le> k2" "hits_ok p gs hs (\<lambda>_. True) n cbs" "al dvd n * bs"
      "\<forall>j. al dvd j * bs \<and> j \<le> k2 \<longrightarrow> j \<le> n"
    using pop_until_aligned_hits [OF c assms(2,6)] by blast
  have "full_find_longest_cache_hit p spec hashes max_length gs eagle al dcp pcp = Inr cbs"
    using bs hs k(1) c2(1) n(1) assms(7)
    by (cases eagle) (simp_all add: full_find_longest_cache_hit_def Let_def bs_def [symmetric] c_def
        pos_imp_zdiv_neg_iff)
  moreover have "int (n * bs) \<le> max_length"
    using n(2) k(3) assms(7) by (intro div_mult_le_int) (auto simp: k2_def split: if_splits)
  moreover have "n \<le> length hs" using n(2) k(4) by (auto simp: k2_def split: if_splits)
  moreover have "j \<le> n" if "\<not> eagle" "al dvd j * bs" "int (j * bs) \<le> max_length" "j \<le> length hs"
      "\<forall>i < j. \<forall>g \<in> set gs. \<exists>b. block_hit p g (hs ! i) b" for j
  proof -
    have "int j \<le> max_length div int bs" using zdiv_mono1 [OF that(3), of "int bs"] bs by simp
    then have "j \<le> ?m" by simp
    with k(5) that(4,5) have "j \<le> k" by (metis le_neq_implies_less linorder_not_le nat_less_le order_less_le_trans)
    with n(5) that show ?thesis by (simp add: k2_def)
  qed
  ultimately show ?thesis using n(3,4) by blast
qed

lemma needs_block_full: "is_full_attention spec \<Longrightarrow> needs_block spec bs n i"
  by (cases spec) (simp_all add: needs_block_def skipped_tokens_def)

interpretation full: cache_hit_finder full_find_longest_cache_hit full_supports cp_block_size
proof
  fix p fl A hashes hs spec eagle al dcp pcp max_length and gs :: "nat list"
  assume a: "pool_rep p fl A" "gs \<noteq> []" "\<forall>g \<in> set gs. g < 2 ^ 32" "bhl_view hashes hs"
    "full_supports spec eagle al dcp pcp" "0 < al" "0 \<le> max_length"
    "max_length div int (cp_block_size spec dcp pcp) \<le> int (length hs)"
  from full_find_hits [OF a(1-7)]
  show "\<exists>cbs n. full_find_longest_cache_hit p spec hashes max_length gs eagle al dcp pcp = Inr cbs \<and>
    hits_ok p gs hs (needs_block spec (cp_block_size spec dcp pcp) n) n cbs \<and>
    int (n * cp_block_size spec dcp pcp) \<le> max_length \<and> al dvd n * cp_block_size spec dcp pcp"
    by (blast intro: hits_ok_mono)
qed

subsection \<open>Sliding window attention\<close>

text \<open>
  The scan keeps: every entry is a hit or null, the \<open>cont\<close> entries from \<open>i\<close> on are hits, and
  the hit run ends at an aligned position.
\<close>

lemma sw_scan_hits:
  assumes "pool_rep p fl A" "\<forall>g \<in> set gs. g < 2 ^ 32" "gs \<noteq> []" "0 < al"
    and "\<forall>i < N. bhl_get hashes i = Inr (hs ! i)"
    and "hits_ok p gs hs (\<lambda>i. n \<le> i \<and> i < n + cont) N cbs" "n + cont \<le> N"
    and "0 < cont \<longrightarrow> al dvd (n + cont) * bs"
  shows "\<exists>cbs' cont' found. sw_scan p gs hashes bs al need n cont cbs = Inr (cbs', cont', found) \<and>
    (if found then \<exists>k. need \<le> cont' \<and> k \<le> N \<and> cont' \<le> k \<and> al dvd k * bs \<and> hits_ok p gs hs (\<lambda>i. k - cont' \<le> i) k cbs'
     else cont' \<le> N \<and> hits_ok p gs hs (\<lambda>i. i < cont') N cbs')"
  using assms(6-8)
proof (induction n arbitrary: cont cbs)
  case 0
  then show ?case by (auto intro: hits_ok_mono)
next
  case (Suc i)
  have hi: "bhl_get hashes i = Inr (hs ! i)" using assms(5) Suc.prems(2) by simp
  have iN: "i < N" using Suc.prems(2) by simp
  show ?case
  proof (rule lookup_cases [OF assms(1,2,3), of "hs ! i"])
    assume m: "get_cached_block p (hs ! i) gs = Inr None"
    have "hits_ok p gs hs (\<lambda>j. i \<le> j \<and> j < i + 0) N cbs" by (rule hits_ok_mono [OF Suc.prems(1)]) simp
    from Suc.IH [OF this] iN hi m show ?thesis by simp
  next
    fix cached assume c: "get_cached_block p (hs ! i) gs = Inr (Some cached)" "cached \<noteq> []"
      "list_all2 (\<lambda>g b. block_hit p g (hs ! i) b) gs cached"
    have res: "(case Some cached of Some [] \<Rightarrow> None | r \<Rightarrow> r) = Some cached" using c(2) by (cases cached) simp_all
    define skip where "skip = (cont = 0 \<and> bs \<noteq> al \<and> \<not> al dvd (i + 1) * bs)"
    have skip: "(if cont = 0 then misaligned bs al (i + 1) else Inr False) = Inr skip"
      by (simp add: skip_def misaligned_total [OF assms(4)])
    show ?thesis
    proof (cases skip)
      case True
      then have "cont = 0" by (simp add: skip_def)
      then have "hits_ok p gs hs (\<lambda>j. i \<le> j \<and> j < i + cont) N cbs" by (intro hits_ok_mono [OF Suc.prems(1)]) simp
      from Suc.IH [OF this] iN hi c(1) res skip True \<open>cont = 0\<close> show ?thesis by simp
    next
      case False
      let ?c1 = "set_all cbs i cached"
      have al: "al dvd (i + (cont + 1)) * bs"
        using Suc.prems(3) False by (cases "cont = 0") (auto simp: skip_def)
      have ok: "hits_ok p gs hs (\<lambda>j. i \<le> j \<and> j < i + (cont + 1)) N ?c1"
        by (rule hits_ok_mono [OF hits_ok_set [OF Suc.prems(1) iN c(3)]]) auto
      have le: "i + (cont + 1) \<le> N" using Suc.prems(2) by simp
      show ?thesis
      proof (cases "need \<le> cont + 1")
        case True
        have "hits_ok p gs hs (\<lambda>j. i + (cont + 1) - (cont + 1) \<le> j) (i + (cont + 1)) (map (take (i + (cont + 1))) ?c1)"
          by (rule hits_ok_mono [OF hits_ok_take [OF ok le]]) simp
        moreover have scan: "sw_scan p gs hashes bs al need (Suc i) cont cbs =
            Inr (map (take (i + (cont + 1))) ?c1, cont + 1, True)"
          using hi c(1) res skip False True by simp
        ultimately have "\<exists>k. need \<le> cont + 1 \<and> k \<le> N \<and> cont + 1 \<le> k \<and> al dvd k * bs \<and>
            hits_ok p gs hs (\<lambda>j. k - (cont + 1) \<le> j) k (map (take (i + (cont + 1))) ?c1)"
          using True le al le_add2 by blast
        then show ?thesis unfolding scan by (intro exI [of _ True] exI) simp
      next
        case nf: False
        have "sw_scan p gs hashes bs al need (Suc i) cont cbs = sw_scan p gs hashes bs al need i (cont + 1) ?c1"
          using hi c(1) res skip False nf by simp
        with Suc.IH [OF ok le] al show ?thesis by simp
      qed
    qed
  qed
qed


definition sw_supports :: "layer_spec \<Rightarrow> bool \<Rightarrow> nat \<Rightarrow> nat \<Rightarrow> nat \<Rightarrow> bool" where
  "sw_supports spec eagle al dcp pcp \<longleftrightarrow>
     (case spec of SlidingWindowSpec a w \<Rightarrow> 0 < at_block_size a \<and> 0 < w \<and> (eagle \<longrightarrow> at_block_size a = al) | _ \<Rightarrow> False) \<and>
     dcp = 1 \<and> pcp = 1"

definition own_block_size :: "layer_spec \<Rightarrow> nat \<Rightarrow> nat \<Rightarrow> nat" where
  "own_block_size spec dcp pcp = layer_block_size spec"

text \<open>The blocks the window reads are the last \<open>cdiv (w - 1) b\<close> of the computed ones.\<close>

lemma needs_block_sw:
  assumes "0 < at_block_size a"
  shows "needs_block (SlidingWindowSpec a w) (at_block_size a) n i \<longleftrightarrow> int n - cdiv (w - 1) (int (at_block_size a)) \<le> int i"
proof -
  let ?b = "int (at_block_size a)"
  have "(int n * ?b - w + 1) div ?b = int n + (1 - w) div ?b"
    using assms div_mult_self1 [of ?b "1 - w" "int n"] by (simp add: algebra_simps)
  moreover have "(1 - w) div ?b = - cdiv (w - 1) ?b"
    unfolding cdiv_def by (metis add.inverse_inverse div_minus_minus minus_diff_eq)
  ultimately show ?thesis by (simp add: needs_block_def skipped_tokens_def)
qed

lemma sw_find_hits:
  assumes "pool_rep p fl A" "gs \<noteq> []" "\<forall>g \<in> set gs. g < 2 ^ 32" "bhl_view hashes hs"
    and "sw_supports spec eagle al dcp pcp" "0 < al" "0 \<le> max_length"
    and "max_length div int (layer_block_size spec) \<le> int (length hs)"
  shows "\<exists>cbs n. sw_find_longest_cache_hit p spec hashes max_length gs eagle al dcp pcp = Inr cbs \<and>
    hits_ok p gs hs (needs_block spec (layer_block_size spec) n) n cbs \<and>
    int (n * layer_block_size spec) \<le> max_length \<and> al dvd n * layer_block_size spec"
proof -
  obtain a w where spec: "spec = SlidingWindowSpec a w" "0 < at_block_size a" "0 < w" "eagle \<longrightarrow> at_block_size a = al"
      "dcp = 1" "pcp = 1"
    using assms(5) by (auto simp: sw_supports_def split: layer_spec.splits)
  let ?b = "at_block_size a" and ?m = "nat (max_length div int (at_block_size a))"
  define w0 where "w0 = cdiv (w - 1) (int ?b)"
  have w0: "0 \<le> w0" using spec by (simp add: w0_def cdiv_nonneg)
  define need where "need = nat (if eagle then w0 + 1 else w0)"
  have get: "\<forall>i < ?m. bhl_get hashes i = Inr (hs ! i)" using assms(4,8) spec by (auto simp: bhl_view_def)
  have start: "hits_ok p gs hs (\<lambda>i. ?m \<le> i \<and> i < ?m + 0) ?m (replicate (length gs) (replicate ?m (null_block p)))"
    by (rule hits_ok_nulls) simp
  obtain cbs cont found where scan: "sw_scan p gs hashes ?b al need ?m 0 (replicate (length gs) (replicate ?m (null_block p))) =
        Inr (cbs, cont, found)"
      and res: "if found then \<exists>k. need \<le> cont \<and> k \<le> ?m \<and> cont \<le> k \<and> al dvd k * ?b \<and> hits_ok p gs hs (\<lambda>i. k - cont \<le> i) k cbs
        else cont \<le> ?m \<and> hits_ok p gs hs (\<lambda>i. i < cont) ?m cbs"
    using sw_scan_hits [OF assms(1,3,2,6) get start, of ?b need] by auto
  have "\<exists>c1 k real. (if found then Inr cbs else pop_until_aligned ?b al (map (take cont) cbs)) = Inr c1 \<and>
      hits_ok p gs hs (\<lambda>i. k - real \<le> i) k c1 \<and> k \<le> ?m \<and> al dvd k * ?b \<and> (real < need \<longrightarrow> k \<le> real)"
  proof (cases found)
    case True
    with res obtain k where "need \<le> cont" "k \<le> ?m" "al dvd k * ?b" "hits_ok p gs hs (\<lambda>i. k - cont \<le> i) k cbs" by auto
    with True show ?thesis by (intro exI [of _ cbs] exI [of _ k] exI [of _ cont]) simp
  next
    case False
    with res have "hits_ok p gs hs (\<lambda>i. i < cont) cont (map (take cont) cbs)" by (auto intro: hits_ok_take)
    then have "hits_ok p gs hs (\<lambda>_. True) cont (map (take cont) cbs)" by (rule hits_ok_mono) simp
    from pop_until_aligned_hits [OF this assms(2,6), of ?b] obtain k c1 where k:
      "pop_until_aligned ?b al (map (take cont) cbs) = Inr c1" "k \<le> cont" "hits_ok p gs hs (\<lambda>_. True) k c1" "al dvd k * ?b" by auto
    then have "hits_ok p gs hs (\<lambda>i. k - k \<le> i) k c1" by (auto intro: hits_ok_mono)
    with k False res show ?thesis by (intro exI [of _ c1] exI [of _ k]) auto
  qed
  then obtain c1 k real where c1: "(if found then Inr cbs else pop_until_aligned ?b al (map (take cont) cbs)) = Inr c1"
      "hits_ok p gs hs (\<lambda>i. k - real \<le> i) k c1" "k \<le> ?m" "al dvd k * ?b" "real < need \<longrightarrow> k \<le> real" by blast
  have real: "hits_ok p gs hs (\<lambda>i. int k - int need \<le> int i) k c1"
    by (rule hits_ok_mono [OF c1(2)]) (use c1(5) in auto)
  have find: "sw_find_longest_cache_hit p spec hashes max_length gs eagle al dcp pcp =
      (if eagle then rbind (first_len c1) (\<lambda>n. if 0 < n then rbind (rassert (?b = al)) (\<lambda>_. pop_all c1) else Inr c1) else Inr c1)"
    using scan c1(1) spec(2,5,6) unfolding need_def w0_def
    by (cases eagle) (simp_all add: spec(1) sw_find_longest_cache_hit_def rcdiv_def Let_def)
  show ?thesis
  proof (cases eagle)
    case True
    then have "?b = al" using spec by simp
    with True find have "sw_find_longest_cache_hit p spec hashes max_length gs eagle al dcp pcp =
        rbind (first_len c1) (\<lambda>n. if 0 < n then pop_all c1 else Inr c1)"
      by (simp cong: if_cong)
    with pop_if_any [OF real assms(2)] obtain c2 where c2:
        "sw_find_longest_cache_hit p spec hashes max_length gs eagle al dcp pcp = Inr c2"
        "hits_ok p gs hs (\<lambda>i. int k - int need \<le> int i) (k - 1) c2" by auto
    have "hits_ok p gs hs (needs_block spec ?b (k - 1)) (k - 1) c2"
      by (rule hits_ok_mono [OF c2(2)]) (use True w0 in \<open>auto simp: spec(1) needs_block_sw [OF spec(2)] w0_def [symmetric] need_def\<close>)
    moreover have "int ((k - 1) * ?b) \<le> max_length" using c1(3) assms(7) by (intro div_mult_le_int) auto
    ultimately show ?thesis using c2(1) spec(1) \<open>?b = al\<close> by auto
  next
    case False
    have "hits_ok p gs hs (needs_block spec ?b k) k c1"
      by (rule hits_ok_mono [OF real]) (use False w0 in \<open>auto simp: spec(1) needs_block_sw [OF spec(2)] w0_def [symmetric] need_def\<close>)
    moreover have "int (k * ?b) \<le> max_length" using c1(3) assms(7) by (intro div_mult_le_int) auto
    ultimately show ?thesis using find False c1(4) spec(1) by auto
  qed
qed

interpretation sliding: cache_hit_finder sw_find_longest_cache_hit sw_supports own_block_size
  by unfold_locales (unfold own_block_size_def, rule sw_find_hits)

subsection \<open>Chunked local attention\<close>

lemma chunk_scan_hits:
  assumes "pool_rep p fl A" "\<forall>g \<in> set gs. g < 2 ^ 32" "gs \<noteq> []"
    and "\<forall>i < N. bhl_get hashes i = Inr (hs ! i)" "hits_ok p gs hs must n cbs" "n \<le> N"
  shows "\<exists>k cbs'. chunk_scan p gs hashes [n..<N] cbs = Inr cbs' \<and> n \<le> k \<and> k \<le> N \<and> hits_ok p gs hs must k cbs'"
  using assms(5,6)
proof (induction "N - n" arbitrary: n cbs)
  case 0
  then show ?case by auto
next
  case (Suc d)
  then have n: "n < N" "[n..<N] = n # [Suc n..<N]" by (simp_all add: upt_conv_Cons)
  have h: "bhl_get hashes n = Inr (hs ! n)" using assms(4) n by simp
  show ?case
  proof (rule lookup_cases [OF assms(1,2,3), of "hs ! n"])
    fix cached assume c: "get_cached_block p (hs ! n) gs = Inr (Some cached)" "cached \<noteq> []"
      "list_all2 (\<lambda>g b. block_hit p g (hs ! n) b) gs cached"
    have "d = N - Suc n" "Suc n \<le> N" using Suc.hyps(2) n(1) by simp_all
    from Suc.hyps(1) [OF this(1) hits_ok_append [OF Suc.prems(1) c(3)] this(2)]
    obtain k cbs' where k: "chunk_scan p gs hashes [Suc n..<N] (append_all cbs cached) = Inr cbs'" "Suc n \<le> k" "k \<le> N"
        "hits_ok p gs hs must k cbs'" by auto
    with c h n show ?thesis by (intro exI [of _ k] exI [of _ cbs']) simp
  next
    assume "get_cached_block p (hs ! n) gs = Inr None"
    with h n Suc.prems show ?thesis by (intro exI [of _ n] exI [of _ cbs]) simp
  qed
qed

definition chunk_supports :: "layer_spec \<Rightarrow> bool \<Rightarrow> nat \<Rightarrow> nat \<Rightarrow> nat \<Rightarrow> bool" where
  "chunk_supports spec eagle al dcp pcp \<longleftrightarrow>
     (case spec of ChunkedLocalAttentionSpec a c \<Rightarrow>
        0 < at_block_size a \<and> at_block_size a = al \<and> 0 < c \<and> int (at_block_size a) dvd c | _ \<Rightarrow> False) \<and>
     \<not> eagle \<and> dcp = 1 \<and> pcp = 1"

lemma chunk_find_hits:
  assumes "pool_rep p fl A" "gs \<noteq> []" "\<forall>g \<in> set gs. g < 2 ^ 32" "bhl_view hashes hs"
    and "chunk_supports spec eagle al dcp pcp" "0 < al" "0 \<le> max_length"
    and "max_length div int (layer_block_size spec) \<le> int (length hs)"
  shows "\<exists>cbs n. chunk_find_longest_cache_hit p spec hashes max_length gs eagle al dcp pcp = Inr cbs \<and>
    hits_ok p gs hs (needs_block spec (layer_block_size spec) n) n cbs \<and>
    int (n * layer_block_size spec) \<le> max_length \<and> al dvd n * layer_block_size spec"
proof -
  obtain a c where spec: "spec = ChunkedLocalAttentionSpec a c" "0 < at_block_size a" "at_block_size a = al" "0 < c"
      "int (at_block_size a) dvd c" "\<not> eagle" "dcp = 1" "pcp = 1"
    using assms(5) by (auto simp: chunk_supports_def split: layer_spec.splits)
  let ?b = "at_block_size a" and ?m = "nat (max_length div int (at_block_size a))"
  define start_tok where "start_tok = max_length div c * c"
  define start where "start = nat (start_tok div int ?b)"
  have st: "0 \<le> start_tok" "start_tok \<le> max_length" "int start * int ?b = start_tok"
  proof -
    show "0 \<le> start_tok" using assms(7) spec by (simp add: start_tok_def pos_imp_zdiv_nonneg_iff)
    show "start_tok \<le> max_length" using assms(7) spec by (simp add: start_tok_def minus_mod_eq_div_mult [symmetric])
    have "int ?b dvd start_tok" using spec by (simp add: start_tok_def)
    then show "int start * int ?b = start_tok" using \<open>0 \<le> start_tok\<close> spec by (simp add: start_def pos_imp_zdiv_nonneg_iff)
  qed
  have "start_tok div int ?b \<le> max_length div int ?b" using st(2) spec by (intro zdiv_mono1) simp_all
  then have sm: "start \<le> ?m" by (simp add: start_def)
  have idx: "(if 0 < max_length then if c = 0 then Inl ZeroDivisionError else Inr (max_length div c * c) else Inr 0) =
      (Inr start_tok :: int result)"
    using spec assms(7) by (auto simp: start_tok_def)
  have get: "\<forall>i < ?m. bhl_get hashes i = Inr (hs ! i)" using assms(4,8) spec by (auto simp: bhl_view_def)
  obtain k cbs where k: "chunk_scan p gs hashes [start..<?m] (replicate (length gs) (replicate start (null_block p))) = Inr cbs"
      "start \<le> k" "k \<le> ?m" "hits_ok p gs hs (\<lambda>i. start \<le> i) k cbs"
    using chunk_scan_hits [OF assms(1,3,2) get hits_ok_nulls [of start "\<lambda>i. start \<le> i" p gs hs] sm] by auto
  have find: "chunk_find_longest_cache_hit p spec hashes max_length gs eagle al dcp pcp = Inr cbs"
    using spec k(1) idx by (simp add: chunk_find_longest_cache_hit_def Let_def start_def)
  have km: "int (k * ?b) \<le> max_length" using k(3) assms(7) by (rule div_mult_le_int [rotated])
  have "start_tok \<le> int (k * ?b)" using st(3) k(2) by (metis mult_right_mono of_nat_0_le_iff of_nat_le_iff of_nat_mult)
  moreover have "start_tok div c = max_length div c" using spec(4) by (simp add: start_tok_def)
  ultimately have "int (k * ?b) div c = max_length div c"
    using km zdiv_mono1 [of start_tok "int (k * ?b)" c] zdiv_mono1 [of "int (k * ?b)" max_length c] spec(4) by simp
  then have "skipped_tokens spec (int (k * ?b)) div int ?b = int start"
    using st(3) [symmetric] spec by (simp add: skipped_tokens_def start_tok_def [symmetric])
  then have "hits_ok p gs hs (needs_block spec ?b k) k cbs"
    by (intro hits_ok_mono [OF k(4)]) (simp add: needs_block_def spec(1))
  with find km spec show ?thesis by auto
qed

interpretation chunked: cache_hit_finder chunk_find_longest_cache_hit chunk_supports own_block_size
  by unfold_locales (unfold own_block_size_def, rule chunk_find_hits)

subsection \<open>Mamba\<close>

definition mamba_supports :: "layer_spec \<Rightarrow> bool \<Rightarrow> nat \<Rightarrow> nat \<Rightarrow> nat \<Rightarrow> bool" where
  "mamba_supports spec eagle al dcp pcp \<longleftrightarrow>
     (case spec of MambaSpec b _ _ _ _ _ \<Rightarrow> 0 < b | _ \<Rightarrow> False) \<and> dcp = 1 \<and> pcp = 1"

lemma mamba_scan_hits:
  assumes "pool_rep p fl A" "\<forall>g \<in> set gs. g < 2 ^ 32" "gs \<noteq> []" "0 < al"
    and "\<forall>i < N. bhl_get hashes i = Inr (hs ! i)"
  shows "\<exists>n cbs. mamba_scan p gs hashes bs al N = Inr cbs \<and> n \<le> N \<and> al dvd n * bs \<and>
    hits_ok p gs hs (\<lambda>i. i + 1 = n) n cbs"
  using assms(5)
proof (induction N)
  case 0
  then show ?case by (intro exI [of _ 0]) simp
next
  case (Suc i)
  then obtain n cbs where n: "mamba_scan p gs hashes bs al i = Inr cbs" "n \<le> i" "al dvd n * bs"
      "hits_ok p gs hs (\<lambda>i. i + 1 = n) n cbs" by auto
  have h: "bhl_get hashes i = Inr (hs ! i)" using Suc.prems by simp
  show ?case
  proof (rule lookup_cases [OF assms(1,2,3), of "hs ! i"])
    assume "get_cached_block p (hs ! i) gs = Inr None"
    with n h show ?thesis by (intro exI [of _ n] exI [of _ cbs]) simp
  next
    fix cached assume c: "get_cached_block p (hs ! i) gs = Inr (Some cached)" "cached \<noteq> []"
      "list_all2 (\<lambda>g b. block_hit p g (hs ! i) b) gs cached"
    have res: "(case Some cached of Some [] \<Rightarrow> None | r \<Rightarrow> r) = Some cached" using c(2) by (cases cached) simp_all
    show ?thesis
    proof (cases "bs \<noteq> al \<and> \<not> al dvd (i + 1) * bs")
      case True
      with n h c(1) res show ?thesis
        by (intro exI [of _ n] exI [of _ cbs]) (simp add: misaligned_total [OF assms(4)])
    next
      case False
      let ?cbs = "map (\<lambda>b. replicate i (null_block p) @ [b]) cached"
      have "mamba_scan p gs hashes bs al (Suc i) = Inr ?cbs"
        using False h c(1) res by (auto simp: misaligned_total [OF assms(4)])
      moreover have "hits_ok p gs hs (\<lambda>j. j + 1 = Suc i) (Suc i) ?cbs"
        using c(3) by (auto simp: hits_ok_def list_all2_conv_all_nth nth_append less_Suc_eq)
      moreover have "al dvd Suc i * bs" using False by auto
      ultimately show ?thesis by (intro exI [of _ "Suc i"] exI [of _ ?cbs]) simp
    qed
  qed
qed

lemma mamba_find_hits:
  assumes "pool_rep p fl A" "gs \<noteq> []" "\<forall>g \<in> set gs. g < 2 ^ 32" "bhl_view hashes hs"
    and "mamba_supports spec eagle al dcp pcp" "0 < al" "0 \<le> max_length"
    and "max_length div int (layer_block_size spec) \<le> int (length hs)"
  shows "\<exists>cbs n. mamba_find_longest_cache_hit p spec hashes max_length gs eagle al dcp pcp = Inr cbs \<and>
    hits_ok p gs hs (needs_block spec (layer_block_size spec) n) n cbs \<and>
    int (n * layer_block_size spec) \<le> max_length \<and> al dvd n * layer_block_size spec"
proof -
  obtain b sh dt pd ty sp where spec: "spec = MambaSpec b sh dt pd ty sp" "0 < b" "dcp = 1" "pcp = 1"
    using assms(5) by (auto simp: mamba_supports_def split: layer_spec.splits)
  let ?m = "nat (max_length div int b)"
  have get: "\<forall>i < ?m. bhl_get hashes i = Inr (hs ! i)" using assms(4,8) spec by (auto simp: bhl_view_def)
  obtain n cbs where n: "mamba_scan p gs hashes b al ?m = Inr cbs" "n \<le> ?m" "al dvd n * b"
      "hits_ok p gs hs (\<lambda>i. i + 1 = n) n cbs"
    using mamba_scan_hits [OF assms(1,3,2,6) get, of b] by auto
  have "int (n * b) \<le> max_length" using n(2) assms(7) by (rule div_mult_le_int [rotated])
  moreover have "hits_ok p gs hs (needs_block spec b n) n cbs"
    by (rule hits_ok_mono [OF n(4)]) (simp add: spec(1) needs_block_def)
  ultimately show ?thesis using n(1,3) spec by (auto simp: mamba_find_longest_cache_hit_def)
qed

interpretation mamba: cache_hit_finder mamba_find_longest_cache_hit mamba_supports own_block_size
  by unfold_locales (unfold own_block_size_def, rule mamba_find_hits)

end
