(* ===== verification/Block_Ownership.thy ===== *)
theory Block_Ownership
  imports Single_Type
begin

text \<open>
  Who owns which block: the operations of the single-type managers
  (\<^verbatim>\<open>vllm/v1/core/single_type_kv_cache_manager.py\<close>) keep the block tables and the
  reference counts of the pool in step.
\<close>

section \<open>Ownership of blocks\<close>

text \<open>
  \<open>held m i\<close> counts the entries of the manager's block tables that name block \<open>i\<close>.
  \<open>st_inv F m p\<close>: the pool's invariant, tables of in-range blocks without duplicates (the
  null block apart), and the reference count of every ordinary block is what the manager
  holds plus what others hold (\<open>F\<close>).
\<close>

definition held :: "st_manager \<Rightarrow> nat \<Rightarrow> nat" where
  "held m i = sum_list (map (\<lambda>e. count_list (snd e) i) (req_to_blocks m))"

definition table_ok :: "block_pool \<Rightarrow> nat list \<Rightarrow> bool" where
  "table_ok p bs \<longleftrightarrow> set bs \<subseteq> {..<num_gpu_blocks p} \<and> distinct (filter (\<lambda>i. 0 < i) bs)"

definition st_wf :: "block_pool \<Rightarrow> st_manager \<Rightarrow> bool" where
  "st_wf p m \<longleftrightarrow> 0 < st_block_size m \<and> od_wf (req_to_blocks m) \<and> od_wf (num_cached_block m) \<and>
     (\<forall>rid bs. map_of (req_to_blocks m) rid = Some bs \<longrightarrow> table_ok p bs)"

definition st_inv :: "(nat \<Rightarrow> nat) \<Rightarrow> st_manager \<Rightarrow> block_pool \<Rightarrow> bool" where
  "st_inv F m p \<longleftrightarrow> pool_inv p \<and> st_wf p m \<and>
     (\<forall>i. 0 < i \<and> i < num_gpu_blocks p \<longrightarrow> refc p i = int (F i + held m i))"

definition table :: "st_manager \<Rightarrow> string \<Rightarrow> nat list" where
  "table m rid = (case map_of (req_to_blocks m) rid of None \<Rightarrow> [] | Some bs \<Rightarrow> bs)"

lemma held_set:
  assumes "od_wf (req_to_blocks m)"
  shows "held (set_req_blocks rid bs m) i + count_list (table m rid) i = held m i + count_list bs i"
  using sum_update [OF assms, of "\<lambda>e. count_list (snd e) i" rid bs]
  by (auto simp: held_def set_req_blocks_def table_def split: option.splits)

lemma count_le_held: "od_wf (req_to_blocks m) \<Longrightarrow> count_list (table m rid) i \<le> held m i"
  using sum_delete [of "req_to_blocks m" "\<lambda>e. count_list (snd e) i" rid]
  by (auto simp: held_def table_def split: option.splits)

lemma set_req_blocks_fields [simp]:
  "st_spec (set_req_blocks rid bs m) = st_spec m" "st_block_size (set_req_blocks rid bs m) = st_block_size m"
  "num_cached_block (set_req_blocks rid bs m) = num_cached_block m"
  "kv_cache_group_id (set_req_blocks rid bs m) = kv_cache_group_id m"
  by (simp_all add: set_req_blocks_def)

lemma table_set [simp]: "table (set_req_blocks rid bs m) rid' = (if rid' = rid then bs else table m rid')"
  by (simp add: table_def set_req_blocks_def odict_simps)

lemma table_ok_table: "st_wf p m \<Longrightarrow> table_ok p (table m rid)"
  by (auto simp: st_wf_def table_def table_ok_def split: option.splits)

lemma table_nth_less: "st_wf p m \<Longrightarrow> n < length (table m rid) \<Longrightarrow> table m rid ! n < num_gpu_blocks p"
  by (meson lessThan_iff nth_mem subsetD table_ok_def table_ok_table)

lemma st_wf_set: "st_wf p m \<Longrightarrow> table_ok p bs \<Longrightarrow> st_wf p (set_req_blocks rid bs m)"
  by (auto simp: st_wf_def set_req_blocks_def odict_simps split: if_splits)

lemma st_wf_cfg: "num_gpu_blocks p' = num_gpu_blocks p \<Longrightarrow> st_wf p' m = st_wf p m"
  by (simp add: st_wf_def table_ok_def)

text \<open>Reading a table may enter an empty one, which changes nothing else.\<close>

lemma table_ok_Nil [simp]: "table_ok p []"
  by (simp add: table_ok_def)

lemma st_wf_enter: "map_of (req_to_blocks m) rid = None \<Longrightarrow> st_wf p (set_req_blocks rid [] m) = st_wf p m"
proof -
  assume a: "map_of (req_to_blocks m) rid = None"
  then have "od_wf (AList.update rid [] (req_to_blocks m)) = od_wf (req_to_blocks m)"
    by (auto simp: update_fresh od_wf_def map_of_eq_None_iff)
  moreover have "(\<forall>rid' bs. map_of (AList.update rid [] (req_to_blocks m)) rid' = Some bs \<longrightarrow> table_ok p bs) \<longleftrightarrow>
      (\<forall>rid' bs. map_of (req_to_blocks m) rid' = Some bs \<longrightarrow> table_ok p bs)"
    unfolding od_get_update using a by (metis option.inject option.distinct(1) table_ok_Nil)
  ultimately show ?thesis by (simp add: st_wf_def set_req_blocks_def)
qed

lemma req_blocks_of_props:
  assumes "req_blocks_of rid m = (bs, m1)"
  shows "bs = table m rid" "table m1 = table m" "held m1 = held m" "st_spec m1 = st_spec m"
    "st_block_size m1 = st_block_size m" "num_cached_block m1 = num_cached_block m"
    "kv_cache_group_id m1 = kv_cache_group_id m" "st_wf p m1 = st_wf p m" "od_wf (req_to_blocks m) \<Longrightarrow> od_wf (req_to_blocks m1)"
proof -
  have "m1 = m \<or> (map_of (req_to_blocks m) rid = None \<and> m1 = set_req_blocks rid [] m)"
    and bs: "bs = table m rid"
    using assms by (auto simp: req_blocks_of_def table_def set_req_blocks_def split: option.splits)
  moreover have "held (set_req_blocks rid [] m) = held m" if "map_of (req_to_blocks m) rid = None"
  proof
    fix i
    show "held (set_req_blocks rid [] m) i = held m i"
      using that by (simp add: held_def set_req_blocks_def update_fresh)
  qed
  ultimately show "bs = table m rid" "table m1 = table m" "held m1 = held m" "st_spec m1 = st_spec m"
    "st_block_size m1 = st_block_size m" "num_cached_block m1 = num_cached_block m"
    "kv_cache_group_id m1 = kv_cache_group_id m" "od_wf (req_to_blocks m) \<Longrightarrow> od_wf (req_to_blocks m1)"
    "st_wf p m1 = st_wf p m"
    by (auto simp: st_wf_enter) (auto simp: set_req_blocks_def table_def odict_simps fun_eq_iff)
qed


lemma st_inv_table:
  assumes "st_inv F m p" "0 < i" "i \<in> set (table m rid)"
  shows "0 < refc p i" "i < num_gpu_blocks p"
proof -
  have wf: "st_wf p m" using assms(1) by (simp add: st_inv_def)
  show i: "i < num_gpu_blocks p" using table_ok_table [OF wf, of rid] assms(3) by (auto simp: table_ok_def)
  have "0 < count_list (table m rid) i" using assms(3) by (meson count_list_0_iff gr0I)
  also have "\<dots> \<le> held m i" using wf by (intro count_le_held) (simp add: st_wf_def)
  finally show "0 < refc p i" using assms(1,2) i by (simp add: st_inv_def)
qed

text \<open>A request's whole table, or any part of it, can be given back.\<close>

lemma table_freeable:
  assumes "st_inv F m p" "set is \<subseteq> set (table m rid)" "distinct (filter (\<lambda>i. 0 < i) is)"
  shows "freeable p is"
  using assms st_inv_table [OF assms(1)] table_ok_table [of p m rid]
  by (auto simp: freeable_def st_inv_def table_ok_def)

text \<open>
  An operation for request \<open>rid\<close> leaves alone what is in use outside its table, and the
  null block's missing hash.
\<close>

definition frame :: "st_manager \<Rightarrow> string \<Rightarrow> block_pool \<Rightarrow> block_pool \<Rightarrow> bool" where
  "frame m rid p p' \<longleftrightarrow> bhash p' 0 = bhash p 0 \<and>
     (\<forall>i. i \<notin> set (table m rid) \<and> refc p i \<noteq> 0 \<longrightarrow> refc p' i = refc p i \<and> bhash p' i = bhash p i)"

lemma frame_refl [simp]: "frame m rid p p"
  by (simp add: frame_def)

lemma frame_drop:
  assumes "\<forall>j. refc p' j = refc p j - int (count_list is j)" "\<forall>j. bhash p' j = bhash p j" "set is \<subseteq> set (table m rid)"
  shows "frame m rid p p'"
  unfolding frame_def
proof (intro conjI allI impI)
  fix i assume "i \<notin> set (table m rid) \<and> refc p i \<noteq> 0"
  then have "count_list is i = 0" using assms(3) by (auto simp: count_list_0_iff)
  then show "refc p' i = refc p i" "bhash p' i = bhash p i" using assms(1,2) by simp_all
qed (use assms(2) in simp)

lemma st_free_inv:
  assumes "st_inv F m p"
  shows "\<exists>m' p'. st_free rid m p = Inr (m', p') \<and> st_inv F m' p' \<and> pool_cfg p' = pool_cfg p \<and>
    frame m rid p p' \<and> table m' = (table m)(rid := []) \<and> (\<forall>j. bhash p' j = bhash p j) \<and>
    st_spec m' = st_spec m \<and> st_block_size m' = st_block_size m \<and> kv_cache_group_id m' = kv_cache_group_id m \<and>
    map_of (num_cached_block m') = (map_of (num_cached_block m))(rid := None) \<and>
    (\<forall>i. refc p' i = refc p i - int (count_list (table m rid) i))"
proof -
  let ?bs = "table m rid"
  have wf: "st_wf p m" and od: "od_wf (req_to_blocks m)" using assms by (simp_all add: st_inv_def st_wf_def)
  obtain fl where fl: "pool_rep p fl {}" using assms by (auto simp: st_inv_def pool_inv_def)
  have d: "distinct (filter (\<lambda>i. 0 < i) (rev ?bs))"
    using table_ok_table [OF wf, of rid] by (simp add: table_ok_def rev_filter [symmetric])
  then have fr: "freeable p (rev ?bs)" by (intro table_freeable [OF assms, of _ rid]) simp_all
  from free_blocks_rep [OF fl fr] obtain p' where p': "free_blocks (rev ?bs) p = Inr p'" "pool_inv p'" "pool_cfg p' = pool_cfg p"
      "\<forall>j. refc p' j = refc p j - int (count_list (rev ?bs) j)" "\<forall>j. bhash p' j = bhash p j"
    by (auto simp: pool_inv_def)
  define m' where "m' = m\<lparr>req_to_blocks := AList.delete rid (req_to_blocks m), num_cached_block := AList.delete rid (num_cached_block m)\<rparr>"
  have n: "num_gpu_blocks p' = num_gpu_blocks p" by (rule pool_cfgD(1) [OF p'(3)])
  have h: "held m' i + count_list ?bs i = held m i" for i
    using sum_delete [OF od, of "\<lambda>e. count_list (snd e) i" rid]
    by (auto simp: m'_def held_def table_def split: option.splits)
  have "refc p' i = int (F i + held m' i)" if "0 < i" "i < num_gpu_blocks p" for i
    using assms that p'(4) h [of i] by (simp add: st_inv_def)
  moreover have "st_wf p' m'"
    using wf by (auto simp: st_wf_def m'_def odict_simps table_ok_def n split: if_splits)
  moreover have "st_free rid m p = Inr (m', p')"
    using p'(1) by (simp add: st_free_def table_def m'_def)
  moreover have "table m' = (table m)(rid := [])" by (auto simp: table_def m'_def odict_simps fun_eq_iff)
  moreover have "frame m rid p p'" using p'(4,5) by (rule frame_drop) simp
  ultimately show ?thesis using p' n by (auto simp: st_inv_def m'_def delete_conv')
qed

text \<open>How many blocks a request still needs for its tokens (negative when it has spare ones).\<close>

definition blocks_needed :: "st_manager \<Rightarrow> string \<Rightarrow> int \<Rightarrow> int" where
  "blocks_needed m rid t =
     cdiv (mamba_num_tokens (st_spec m) t) (int (st_block_size m)) - int (length (table m rid))"

lemma allocate_new_blocks_inv:
  fixes t :: int and rid :: string
  assumes "st_inv F m p"
  defines "need \<equiv> blocks_needed m rid t"
  assumes "need \<le> get_num_free_blocks p"
  shows "\<exists>nb m' p'. allocate_new_blocks rid t m p = Inr (nb, m', p') \<and> st_inv F m' p' \<and> pool_cfg p' = pool_cfg p \<and>
    table m' = (table m)(rid := table m rid @ nb) \<and> length nb = nat need \<and> frame m rid p p' \<and>
    (\<forall>i \<in> set nb. refc p' i = 1 \<and> 0 < i \<and> F i = 0 \<and> (enable_caching p \<longrightarrow> bhash p' i = None)) \<and>
    (\<forall>i. i \<notin> set nb \<longrightarrow> refc p' i = refc p i \<and> bhash p' i = bhash p i) \<and>
    get_num_free_blocks p' = get_num_free_blocks p - int (nat need) \<and>
    st_spec m' = st_spec m \<and> st_block_size m' = st_block_size m \<and> num_cached_block m' = num_cached_block m \<and>
    kv_cache_group_id m' = kv_cache_group_id m"
proof -
  obtain bs m1 where r: "req_blocks_of rid m = (bs, m1)" by fastforce
  note m1 = req_blocks_of_props [OF r]
  have inv1: "st_inv F m1 p" using assms(1) m1(3,8) by (simp add: st_inv_def)
  have wf: "st_wf p m1" and od: "od_wf (req_to_blocks m1)" using inv1 by (simp_all add: st_inv_def st_wf_def)
  have b: "0 < st_block_size m" using assms(1) by (simp add: st_inv_def st_wf_def)
  show ?thesis
  proof (cases "need \<le> 0")
    case True
    then have "allocate_new_blocks rid t m p = Inr ([], m1, p)"
      using b m1(1) by (simp add: allocate_new_blocks_def base_allocate_new_blocks_def r rcdiv_def need_def blocks_needed_def)
    with True inv1 m1 show ?thesis by (auto simp: fun_eq_iff)
  next
    case False
    obtain fl where fl: "pool_rep p fl {}" using assms(1) by (auto simp: st_inv_def pool_inv_def)
    define nb where "nb = take (nat need) fl"
    have le: "nat need \<le> length fl" using assms(3) pool_rep_num [OF fl] by simp
    from get_new_blocks_rep [OF fl le] obtain p' where p': "get_new_blocks (nat need) p = Inr (nb, p')"
        "pool_rep p' (drop (nat need) fl) {}" "pool_cfg p' = pool_cfg p"
        "\<forall>j. refc p' j = refc p j + (if j \<in> set nb then 1 else 0)"
        "\<forall>j. bhash p' j = (if j \<in> set nb \<and> enable_caching p then None else bhash p j)" by (auto simp: nb_def)
    have n: "num_gpu_blocks p' = num_gpu_blocks p" by (rule pool_cfgD(1) [OF p'(3)])
    have nb: "i \<in> set nb \<Longrightarrow> 0 < i \<and> i < num_gpu_blocks p \<and> refc p i = 0" for i
      using pool_rep_free_iff [OF fl, of i] by (auto simp: nb_def dest: in_set_takeD)
    have zero: "F i = 0 \<and> held m i = 0" if "i \<in> set nb" for i
    proof -
      have "refc p i = int (F i + held m i)" using nb [OF that] assms(1) unfolding st_inv_def by blast
      with nb [OF that] show ?thesis by simp
    qed
    have dnb: "distinct nb" by (simp add: nb_def pool_rep_distinct [OF fl])
    let ?m' = "set_req_blocks rid (bs @ nb) m1"
    have disj: "set nb \<inter> set (table m rid) = {}"
    proof -
      have "i \<notin> set (table m rid)" if "i \<in> set nb" for i
        using st_inv_table(1) [OF assms(1), of i rid] nb [OF that] by auto
      then show ?thesis by blast
    qed
    have "table_ok p (bs @ nb)"
      using table_ok_table [OF wf, of rid] m1(1,2) nb dnb disj by (auto simp: table_ok_def)
    then have "st_wf p' ?m'" using st_wf_set [OF wf] n by (simp add: st_wf_cfg [of p' p])
    moreover have "refc p' i = int (F i + held ?m' i)" if "0 < i" "i < num_gpu_blocks p" for i
    proof -
      have "held ?m' i = held m i + count_list nb i"
        using held_set [OF od, of rid "bs @ nb" i] m1(1-3) by simp
      moreover have "count_list nb i = (if i \<in> set nb then 1 else 0)"
        using count_list_filter_distinct [of "\<lambda>_. True" nb i] dnb by simp
      ultimately show ?thesis using p'(4) assms(1) that by (simp add: st_inv_def)
    qed
    moreover have "allocate_new_blocks rid t m p = Inr (nb, ?m', p')"
      using False b m1(1,5) p'(1)
      by (simp add: allocate_new_blocks_def base_allocate_new_blocks_def r rcdiv_def need_def blocks_needed_def)
    moreover have "length nb = nat need" using le by (simp add: nb_def)
    moreover have "get_num_free_blocks p' = get_num_free_blocks p - int (nat need)"
      using le by (simp add: pool_rep_num [OF fl] pool_rep_num [OF p'(2)])
    moreover have "table ?m' = (table m)(rid := table m rid @ nb)" using m1(1,2) by (auto simp: fun_eq_iff)
    moreover have "st_inv F ?m' p'"
      using calculation(1,2) p'(2) n by (auto simp: st_inv_def pool_inv_def)
    moreover have "frame m rid p p'" using p'(4,5) nb by (auto simp: frame_def)
    ultimately show ?thesis using p'(3-5) nb zero m1 by auto
  qed
qed


lemma save_new_computed_blocks_inv:
  assumes "st_inv (\<lambda>i. F i + count_list ncb i) m p" "table_ok p ncb"
    and "map_of (num_cached_block m) rid = None \<Longrightarrow> table m rid = []"
    and "map_of (num_cached_block m) rid \<noteq> None \<or> is_cross_attention (st_spec m) \<Longrightarrow> ncb = []"
  shows "\<exists>m'. save_new_computed_blocks rid ncb m = Inr m' \<and> st_inv F m' p \<and>
    table m' = (table m)(rid := table m rid @ ncb) \<and> st_spec m' = st_spec m \<and> st_block_size m' = st_block_size m \<and>
    kv_cache_group_id m' = kv_cache_group_id m \<and>
    (map_of (num_cached_block m') = (if is_cross_attention (st_spec m) \<or> map_of (num_cached_block m) rid \<noteq> None
       then map_of (num_cached_block m) else (map_of (num_cached_block m))(rid \<mapsto> length ncb)))"
proof (cases "is_cross_attention (st_spec m) \<or> map_of (num_cached_block m) rid \<noteq> None")
  case True
  with assms(4) have "ncb = []" by blast
  then have "save_new_computed_blocks rid ncb m = Inr m"
    using True by (auto simp: save_new_computed_blocks_def base_save_new_computed_blocks_def)
  with assms(1) True \<open>ncb = []\<close> show ?thesis by auto
next
  case False
  obtain bs m1 where r: "req_blocks_of rid m = (bs, m1)" by fastforce
  note m1 = req_blocks_of_props [OF r]
  have t: "table m rid = []" using assms(3) False by simp
  define m' where "m' = (set_req_blocks rid ncb m1)\<lparr>num_cached_block := AList.update rid (length ncb) (num_cached_block m1)\<rparr>"
  have save: "save_new_computed_blocks rid ncb m = Inr m'"
    using False t m1(1) by (simp add: save_new_computed_blocks_def base_save_new_computed_blocks_def r m'_def)
  have wf: "st_wf p m1" using assms(1) m1(8) by (simp add: st_inv_def)
  have tab: "table m' = table (set_req_blocks rid ncb m1)" "held m' = held (set_req_blocks rid ncb m1)"
    by (simp_all add: m'_def table_def held_def fun_eq_iff)
  have "st_wf p m'" using st_wf_set [OF wf assms(2)] wf by (simp add: st_wf_def m'_def)
  moreover have "held m' i = held m i + count_list ncb i" for i
    using held_set [of m1 rid ncb i] wf t m1(2,3) tab(2) by (simp add: st_wf_def)
  ultimately have "st_inv F m' p" using assms(1) by (simp add: st_inv_def)
  moreover have "table m' = (table m)(rid := table m rid @ ncb)" using t m1(2) tab(1) by (auto simp: fun_eq_iff)
  moreover have "map_of (num_cached_block m') = (map_of (num_cached_block m))(rid \<mapsto> length ncb)"
    by (simp add: m'_def m1(6) update_conv')
  ultimately show ?thesis using save False m1(4,5,7) by (auto simp: m'_def)
qed

text \<open>Null blocks fill the skipped positions down to the first one that is null already.\<close>

lemma remove_skipped_loop_spec:
  assumes "n \<le> length bs"
  shows "\<exists>k \<le> n. remove_skipped_loop null n bs removed =
      Inr (take k bs @ replicate (n - k) null @ drop n bs, removed @ rev (py_slice bs k n)) \<and>
    null \<notin> set (py_slice bs k n)"
  using assms
proof (induction n arbitrary: bs removed)
  case 0
  then show ?case by (simp add: py_slice_def)
next
  case (Suc i)
  show ?case
  proof (cases "bs ! i = null")
    case True
    with Suc.prems show ?thesis
      by (intro exI [of _ "Suc i"]) (simp add: py_get_def py_slice_def)
  next
    case False
    let ?bs = "bs[i := null]"
    from Suc.IH [of ?bs "removed @ [bs ! i]"] Suc.prems obtain k where k: "k \<le> i"
        "remove_skipped_loop null i ?bs (removed @ [bs ! i]) =
          Inr (take k ?bs @ replicate (i - k) null @ drop i ?bs, (removed @ [bs ! i]) @ rev (py_slice ?bs k i))"
        "null \<notin> set (py_slice ?bs k i)" by auto
    have sl: "py_slice ?bs k i = py_slice bs k i"
      using k(1) by (simp add: py_slice_def drop_update_swap [of k i] take_update_cancel)
    have ext: "py_slice bs k (Suc i) = py_slice bs k i @ [bs ! i]"
      using k(1) Suc.prems by (simp add: py_slice_def Suc_diff_le take_Suc_conv_app_nth)
    have "replicate (i - k) null @ drop i ?bs = replicate (Suc i - k) null @ drop (Suc i) bs"
      using k(1) Suc.prems by (simp add: drop_update_swap Cons_nth_drop_Suc [symmetric] Suc_diff_le replicate_append_same [symmetric])
    then show ?thesis
      using k False Suc.prems sl ext by (intro exI [of _ k]) (auto simp: py_get_def take_update_cancel)
  qed
qed


section \<open>Blocks not cached yet\<close>

text \<open>
  With prefix caching on, the entries of a table behind the cached ones are ordinary blocks
  without a hash that nobody else holds.
\<close>

definition cached_of :: "st_manager \<Rightarrow> string \<Rightarrow> nat" where
  "cached_of m rid = (case map_of (num_cached_block m) rid of None \<Rightarrow> 0 | Some n \<Rightarrow> n)"

definition fresh_from :: "block_pool \<Rightarrow> nat \<Rightarrow> nat list \<Rightarrow> bool" where
  "fresh_from p nc bs \<longleftrightarrow> (\<forall>i. nc \<le> i \<and> i < length bs \<longrightarrow> 0 < bs ! i \<and> bhash p (bs ! i) = None \<and> refc p (bs ! i) = 1)"

definition st_fresh :: "block_pool \<Rightarrow> st_manager \<Rightarrow> bool" where
  "st_fresh p m \<longleftrightarrow> (\<forall>rid. fresh_from p (cached_of m rid) (table m rid))"

lemma held_two:
  assumes "od_wf (req_to_blocks m)" "rid \<noteq> rid'"
  shows "count_list (table m rid) i + count_list (table m rid') i \<le> held m i"
proof -
  let ?f = "\<lambda>e. count_list (snd e) i"
  have "sum_list (map ?f (AList.delete rid (req_to_blocks m))) + count_list (table m rid) i = held m i"
    using sum_delete [OF assms(1), of ?f rid] by (auto simp: held_def table_def split: option.splits)
  moreover have "count_list (table m rid') i \<le> sum_list (map ?f (AList.delete rid (req_to_blocks m)))"
    using sum_delete [OF od_wf_delete [OF assms(1)], of ?f rid' rid] assms(2)
    by (auto simp: table_def odict_simps split: option.splits if_splits)
  ultimately show ?thesis by simp
qed

text \<open>A block that is fresh for one request is in no other table.\<close>

lemma fresh_only_here:
  assumes "st_inv F m p" "fresh_from p (cached_of m rid') (table m rid')" "cached_of m rid' \<le> n" "n < length (table m rid')"
    and "rid' \<noteq> rid"
  shows "table m rid' ! n \<notin> set (table m rid)"
proof
  let ?i = "table m rid' ! n"
  assume mem: "?i \<in> set (table m rid)"
  have i: "0 < ?i" "refc p ?i = 1" using assms(2-4) by (auto simp: fresh_from_def)
  have ran: "?i < num_gpu_blocks p"
    using assms(1,4) by (intro table_nth_less [of p m]) (simp_all add: st_inv_def)
  have "0 < count_list (table m rid) ?i" "0 < count_list (table m rid') ?i"
    using mem assms(4) count_list_0_iff [of _ ?i] by (metis gr0I nth_mem)+
  then have "2 \<le> held m ?i" using held_two [of m rid rid' ?i] assms(1,5) by (simp add: st_inv_def st_wf_def)
  moreover have "refc p ?i = int (F ?i + held m ?i)" using assms(1) i(1) ran unfolding st_inv_def by blast
  ultimately show False using i(2) by simp
qed

lemma fresh_from_frame:
  assumes "frame m rid p p'" "fresh_from p nc bs" "\<And>n. nc \<le> n \<Longrightarrow> n < length bs \<Longrightarrow> bs ! n \<notin> set (table m rid)"
  shows "fresh_from p' nc bs"
  using assms unfolding fresh_from_def frame_def by fastforce

text \<open>Freshness after an operation for \<open>rid\<close>: only its own table has to be looked at.\<close>

lemma st_fresh_step:
  assumes "st_inv F m p" "st_fresh p m" "frame m rid p p'"
    and "\<And>rid'. rid' \<noteq> rid \<Longrightarrow> table m' rid' = table m rid' \<and> cached_of m' rid' = cached_of m rid'"
    and "fresh_from p' (cached_of m' rid) (table m' rid)"
  shows "st_fresh p' m'"
  unfolding st_fresh_def
proof
  fix rid'
  show "fresh_from p' (cached_of m' rid') (table m' rid')"
  proof (cases "rid' = rid")
    case False
    have "fresh_from p (cached_of m rid') (table m rid')" using assms(2) by (simp add: st_fresh_def)
    then have "fresh_from p' (cached_of m rid') (table m rid')"
      by (rule fresh_from_frame [OF assms(3)]) (rule fresh_only_here [OF assms(1) _ _ _ False], use \<open>fresh_from p _ _\<close> in simp_all)
    with assms(4) [OF False] show ?thesis by simp
  qed (use assms(5) in simp)
qed

text \<open>Freshness of another manager, whose holdings are among \<open>F\<close>.\<close>

lemma st_fresh_other:
  assumes "st_inv F m p" "frame m rid p p'" "st_fresh p m2" "st_wf p m2" "\<And>i. held m2 i \<le> F i"
  shows "st_fresh p' m2"
  unfolding st_fresh_def
proof
  fix rid2
  have f: "fresh_from p (cached_of m2 rid2) (table m2 rid2)" using assms(3) by (simp add: st_fresh_def)
  show "fresh_from p' (cached_of m2 rid2) (table m2 rid2)"
  proof (rule fresh_from_frame [OF assms(2) f], rule notI)
    fix n
    let ?i = "table m2 rid2 ! n"
    assume n: "cached_of m2 rid2 \<le> n" "n < length (table m2 rid2)" and mem: "?i \<in> set (table m rid)"
    have i: "0 < ?i" "refc p ?i = 1" using f n by (auto simp: fresh_from_def)
    have ran: "?i < num_gpu_blocks p" by (rule table_nth_less [OF assms(4) n(2)])
    have "0 < count_list (table m rid) ?i" "0 < count_list (table m2 rid2) ?i"
      using mem n(2) count_list_0_iff [of _ ?i] by (metis gr0I nth_mem)+
    moreover have "count_list (table m rid) ?i \<le> held m ?i" "count_list (table m2 rid2) ?i \<le> held m2 ?i"
      using assms(1,4) by (auto intro!: count_le_held simp: st_inv_def st_wf_def)
    ultimately have "2 \<le> F ?i + held m ?i" using assms(5) [of ?i] by linarith
    moreover have "refc p ?i = int (F ?i + held m ?i)" using assms(1) i(1) ran unfolding st_inv_def by blast
    ultimately show False using i(2) by simp
  qed
qed

section \<open>Skipped blocks\<close>

definition skipped_blocks :: "st_manager \<Rightarrow> int \<Rightarrow> nat" where
  "skipped_blocks m c = nat (skipped_tokens (st_spec m) c) div st_block_size m"

text \<open>A chunk size is not 0.\<close>

definition chunk_ok :: "layer_spec \<Rightarrow> bool" where
  "chunk_ok s \<longleftrightarrow> (case s of ChunkedLocalAttentionSpec _ c \<Rightarrow> c \<noteq> 0 | _ \<Rightarrow> True)"

lemma get_num_skipped_tokens_total:
  assumes "chunk_ok (st_spec m)"
  shows "get_num_skipped_tokens m n = Inr (skipped_tokens (st_spec m) n)"
  using assms by (cases "st_spec m") (auto simp: get_num_skipped_tokens_def skipped_tokens_def chunk_ok_def)

lemma remove_skipped_blocks_inv:
  assumes "st_inv F m p" "skipped_blocks m c \<le> length (table m rid)"
    and "chunk_ok (st_spec m)"
  shows "\<exists>m' p'. remove_skipped_blocks rid c m p = Inr (m', p') \<and> st_inv F m' p' \<and> pool_cfg p' = pool_cfg p \<and>
    frame m rid p p' \<and> (\<forall>j. bhash p' j = bhash p j) \<and> get_num_free_blocks p \<le> get_num_free_blocks p' \<and>
    (\<forall>rid'. rid' \<noteq> rid \<longrightarrow> table m' rid' = table m rid') \<and> length (table m' rid) = length (table m rid) \<and>
    (\<forall>n \<ge> skipped_blocks m c. table m' rid ! n = table m rid ! n) \<and>
    (\<forall>i. i \<in> set (drop (skipped_blocks m c) (table m rid)) \<and> 0 < i \<longrightarrow> refc p' i = refc p i) \<and>
    st_spec m' = st_spec m \<and> st_block_size m' = st_block_size m \<and> num_cached_block m' = num_cached_block m \<and>
    kv_cache_group_id m' = kv_cache_group_id m"
proof (cases "skipped_tokens (st_spec m) c \<le> 0")
  case True
  then have "remove_skipped_blocks rid c m p = Inr (m, p)"
    by (simp add: remove_skipped_blocks_def get_num_skipped_tokens_total [OF assms(3)])
  with assms(1) show ?thesis by simp
next
  case False
  obtain bs m1 where r: "req_blocks_of rid m = (bs, m1)" by fastforce
  note m1 = req_blocks_of_props [OF r]
  let ?n = "skipped_blocks m c"
  have inv1: "st_inv F m1 p" using assms(1) m1(3,8) by (simp add: st_inv_def)
  then have wf: "st_wf p m1" and od: "od_wf (req_to_blocks m1)" by (simp_all add: st_inv_def st_wf_def)
  obtain fl where fl: "pool_rep p fl {}" using assms(1) by (auto simp: st_inv_def pool_inv_def)
  have null: "null_block p = 0" using fl by (simp add: pool_rep_def)
  have tok: "table_ok p bs" using table_ok_table [OF wf, of rid] m1(1,2) by simp
  obtain k where k: "k \<le> ?n" "remove_skipped_loop 0 ?n bs [] = Inr (take k bs @ replicate (?n - k) 0 @ drop ?n bs, rev (py_slice bs k ?n))"
      "0 \<notin> set (py_slice bs k ?n)"
    using remove_skipped_loop_spec [of ?n bs 0 "[]"] assms(2) m1(1) by auto
  define rem where "rem = py_slice bs k ?n"
  define bs' where "bs' = take k bs @ replicate (?n - k) 0 @ drop ?n bs"
  have split: "bs = take k bs @ rem @ drop ?n bs"
    using k(1) assms(2) m1(1) by (simp add: rem_def py_slice_def) (metis append_assoc append_take_drop_id le_add_diff_inverse take_add drop_drop add.commute)
  have cnt: "0 < i \<Longrightarrow> count_list bs i = count_list bs' i + count_list rem i" for i
    using arg_cong [OF split, of "\<lambda>xs. count_list xs i"] by (simp add: bs'_def)
  have dist: "distinct (filter (\<lambda>i. 0 < i) bs)" using tok by (simp add: table_ok_def)
  then have ddist: "distinct (filter (\<lambda>i. 0 < i) rem)" "set (filter (\<lambda>i. 0 < i) rem) \<inter> set (filter (\<lambda>i. 0 < i) (drop ?n bs)) = {}"
    by (subst (asm) split, simp)+
  have sub: "set rem \<subseteq> set bs" unfolding rem_def by (rule py_slice_set)
  have fr: "freeable p (rev rem)"
    using sub ddist(1) m1(1) by (intro table_freeable [OF assms(1), of _ rid]) (simp_all add: rev_filter [symmetric])
  from free_blocks_rep [OF fl fr] obtain p' where p': "free_blocks (rev rem) p = Inr p'"
      "pool_rep p' (fl @ filter (\<lambda>i. 0 < i \<and> refc p i = 1) (rev rem)) {}" "pool_cfg p' = pool_cfg p"
      "\<forall>j. refc p' j = refc p j - int (count_list (rev rem) j)" "\<forall>j. bhash p' j = bhash p j" by blast
  have n: "num_gpu_blocks p' = num_gpu_blocks p" by (rule pool_cfgD(1) [OF p'(3)])
  let ?m' = "set_req_blocks rid bs' m1"
  have "table_ok p bs'"
    using tok fl dist by (subst (asm) (2) split) (auto simp: bs'_def table_ok_def pool_rep_def dest: in_set_takeD in_set_dropD)
  then have "st_wf p' ?m'" using st_wf_set [OF wf] n by (simp add: st_wf_cfg [of p' p])
  moreover have "refc p' i = int (F i + held ?m' i)" if "0 < i" "i < num_gpu_blocks p" for i
  proof -
    have "held ?m' i + count_list bs i = held m i + count_list bs' i" using held_set [OF od, of rid bs' i] m1(1-3) by simp
    with cnt [OF that(1)] have "held m i = held ?m' i + count_list rem i" by simp
    moreover have "refc p i = int (F i + held m i)" using assms(1) that unfolding st_inv_def by blast
    ultimately show ?thesis using p'(4) by simp
  qed
  ultimately have inv: "st_inv F ?m' p'" using p'(2) n by (auto simp: st_inv_def pool_inv_def)
  have frame: "frame m rid p p'" using p'(4,5) by (rule frame_drop) (use sub m1(1) in simp)
  have rest: "refc p' i = refc p i" if "i \<in> set (drop ?n (table m rid))" "0 < i" for i
  proof -
    have "i \<notin> set rem" using ddist(2) that m1(1) by auto
    then show ?thesis using p'(4) by simp
  qed
  have op: "remove_skipped_blocks rid c m p = Inr (?m', p')"
  proof -
    have "0 < st_block_size m" using assms(1) by (simp add: st_inv_def st_wf_def)
    then show ?thesis
      using False k(2) p'(1) null
      by (simp add: remove_skipped_blocks_def get_num_skipped_tokens_total [OF assms(3)] r bs'_def rem_def
          skipped_blocks_def [symmetric])
  qed
  have "length bs' = length bs" "\<And>i. ?n \<le> i \<Longrightarrow> bs' ! i = bs ! i"
    using k(1) assms(2) m1(1) by (auto simp: bs'_def nth_append)
  moreover have "get_num_free_blocks p \<le> get_num_free_blocks p'"
    by (simp add: pool_rep_num [OF fl] pool_rep_num [OF p'(2)])
  ultimately show ?thesis using op inv p'(3,5) frame rest m1 by auto
qed


section \<open>Caching\<close>

lemma distinct_filter_nth:
  assumes "distinct (filter P xs)" "i < length xs" "j < length xs" "P (xs ! i)" "xs ! i = xs ! j"
  shows "i = j"
  using assms
proof (induction xs arbitrary: i j)
  case (Cons x xs)
  show ?case
  proof (cases i; cases j)
    fix i' j' assume "i = Suc i'" "j = Suc j'"
    with Cons show ?thesis by (auto split: if_splits)
  next
    fix i' assume "i = Suc i'" "j = 0"
    with Cons.prems show ?thesis using nth_mem [of i' xs] by (auto split: if_splits)
  next
    fix j' assume "i = 0" "j = Suc j'"
    with Cons.prems show ?thesis using nth_mem [of j' xs] by (auto split: if_splits)
  qed simp
qed simp

lemma cache_blocks_inv:
  assumes "st_inv F m p" "\<not> is_cross_attention (st_spec m)" "fresh_from p (cached_of m (request_id r)) (table m (request_id r))"
    and "t div st_block_size m \<le> length (block_hashes r)" "kv_cache_group_id m < 2 ^ 32" "\<not> enable_kv_cache_events p"
    and hs: "group_hashes r (hash_block_size p) (st_block_size m) (cached_of m (request_id r)) = Inr hs"
      "t div st_block_size m - cached_of m (request_id r) \<le> length hs"
    and "t div st_block_size m \<le> length (table m (request_id r))"
  shows "\<exists>m' p'. cache_blocks r t m p = Inr (m', p') \<and> st_inv F m' p' \<and> pool_cfg p' = pool_cfg p \<and>
    frame m (request_id r) p p' \<and> table m' = table m \<and> (\<forall>i. refc p' i = refc p i) \<and>
    st_spec m' = st_spec m \<and> st_block_size m' = st_block_size m \<and> kv_cache_group_id m' = kv_cache_group_id m \<and>
    (\<forall>rid. cached_of m' rid = (if rid = request_id r then max (cached_of m rid) (t div st_block_size m) else cached_of m rid)) \<and>
    get_num_free_blocks p' = get_num_free_blocks p \<and>
    fresh_from p' (cached_of m' (request_id r)) (table m' (request_id r))"
proof -
  let ?rid = "request_id r" and ?nf = "t div st_block_size m"
  let ?nc = "cached_of m ?rid" and ?bs = "table m ?rid"
  have b: "0 < st_block_size m" using assms(1) by (simp add: st_inv_def st_wf_def)
  obtain bs m1 where r: "req_blocks_of ?rid m = (bs, m1)" by fastforce
  note m1 = req_blocks_of_props [OF r]
  obtain fl where fl: "pool_rep p fl {}" using assms(1) by (auto simp: st_inv_def pool_inv_def)
  have cb: "cache_blocks r t m p = (if ?nf \<le> ?nc then Inr (m, p) else
      rbind (cache_full_blocks r ?bs ?nc ?nf (st_block_size m) (kv_cache_group_id m) p)
        (\<lambda>p1. Inr (m1\<lparr>num_cached_block := AList.update ?rid ?nf (num_cached_block m1)\<rparr>, p1)))"
    using assms(2) b m1(1) by (simp add: cache_blocks_def base_cache_blocks_def r cached_of_def Let_def)
  show ?thesis
  proof (cases "?nf \<le> ?nc")
    case True
    with cb assms(1,3) show ?thesis by (auto simp: max_def)
  next
    case False
    have wf: "st_wf p m" using assms(1) by (simp add: st_inv_def)
    have mem: "\<exists>n. ?nc \<le> n \<and> n < ?nf \<and> n < length ?bs \<and> i = ?bs ! n" if "i \<in> set (py_slice ?bs ?nc ?nf)" for i
    proof -
      from that obtain k where k: "k < length (py_slice ?bs ?nc ?nf)" "i = py_slice ?bs ?nc ?nf ! k" by (auto simp: in_set_conv_nth)
      then have "?nc \<le> ?nc + k \<and> ?nc + k < ?nf \<and> ?nc + k < length ?bs \<and> i = ?bs ! (?nc + k)" by (auto simp: py_slice_def)
      then show ?thesis by blast
    qed
    have pos: "i \<in> set (py_slice ?bs ?nc ?nf) \<Longrightarrow> 0 < i \<and> i < num_gpu_blocks p \<and> bhash p i = None \<and> refc p i = 1" for i
      using mem [of i] assms(3) table_nth_less [OF wf] by (auto simp: fresh_from_def)
    have "distinct (py_slice ?bs ?nc ?nf)"
    proof -
      have "distinct (filter (\<lambda>i. 0 < i) ?bs)" using table_ok_table [OF wf, of ?rid] by (simp add: table_ok_def)
      then have "distinct (filter (\<lambda>i. 0 < i) (py_slice ?bs ?nc ?nf))"
        unfolding py_slice_def by (metis append_take_drop_id distinct_append filter_append)
      moreover have "filter (\<lambda>i. 0 < i) (py_slice ?bs ?nc ?nf) = py_slice ?bs ?nc ?nf" using pos by (simp add: filter_id_conv)
      ultimately show ?thesis by simp
    qed
    then have cbl: "cacheable p (py_slice ?bs ?nc ?nf)" using pos by (auto simp: cacheable_def)
    from cache_full_blocks_rep [OF fl assms(4,5) hs cbl] assms(6) obtain p' where p':
        "cache_full_blocks r ?bs ?nc ?nf (st_block_size m) (kv_cache_group_id m) p = Inr p'" "pool_rep p' fl {}"
        "pool_cfg p' = pool_cfg p" "\<forall>j. refc p' j = refc p j" "\<forall>j. j \<notin> set (py_slice ?bs ?nc ?nf) \<longrightarrow> bhash p' j = bhash p j"
      by blast
    define m' where "m' = m1\<lparr>num_cached_block := AList.update ?rid ?nf (num_cached_block m1)\<rparr>"
    have n: "num_gpu_blocks p' = num_gpu_blocks p" by (rule pool_cfgD(1) [OF p'(3)])
    have tab: "table m' = table m" "held m' = held m" using m1(2,3) by (simp_all add: m'_def table_def held_def fun_eq_iff)
    have "st_wf p m1" using wf m1(8) by simp
    then have "st_wf p' m'" by (simp add: st_wf_def m'_def table_ok_def n)
    then have inv: "st_inv F m' p'" using assms(1) p'(2,4) tab n by (auto simp: st_inv_def pool_inv_def)
    have sub: "set (py_slice ?bs ?nc ?nf) \<subseteq> set ?bs" by (rule py_slice_set)
    have "0 \<notin> set (py_slice ?bs ?nc ?nf)" using pos by blast
    then have frame: "frame m ?rid p p'" using p'(4,5) sub by (auto simp: frame_def)
    have cached: "cached_of m' rid = (if rid = ?rid then ?nf else cached_of m rid)" for rid
      by (simp add: cached_of_def m'_def m1(6) odict_simps)
    have "fresh_from p' ?nf ?bs"
      unfolding fresh_from_def
    proof (intro allI impI)
      fix i assume i: "?nf \<le> i \<and> i < length ?bs"
      then have f: "0 < ?bs ! i" "bhash p (?bs ! i) = None" "refc p (?bs ! i) = 1" using False assms(3) by (auto simp: fresh_from_def)
      have "?bs ! i \<notin> set (py_slice ?bs ?nc ?nf)"
      proof
        assume "?bs ! i \<in> set (py_slice ?bs ?nc ?nf)"
        from mem [OF this] obtain n where n: "n < ?nf" "n < length ?bs" "?bs ! i = ?bs ! n" by auto
        have "distinct (filter (\<lambda>i. 0 < i) ?bs)" using table_ok_table [OF wf, of ?rid] by (simp add: table_ok_def)
        from distinct_filter_nth [OF this _ n(2) f(1) n(3)] i n(1) show False by simp
      qed
      with f p'(4,5) show "0 < ?bs ! i \<and> bhash p' (?bs ! i) = None \<and> refc p' (?bs ! i) = 1" by simp
    qed
    moreover have "cache_blocks r t m p = Inr (m', p')" using cb False p'(1) by (simp add: m'_def)
    moreover have "get_num_free_blocks p' = get_num_free_blocks p" by (simp add: pool_rep_num [OF fl] pool_rep_num [OF p'(2)])
    ultimately show ?thesis using False inv p'(3,4) frame tab cached m1(4,5,7) by (auto simp: m'_def max_def)
  qed
qed

end
