(* ===== verification/KV_Coordinator.thy ===== *)
theory KV_Coordinator
  imports Block_Ownership
begin

text \<open>
  The coordinator of the KV cache groups: \<^verbatim>\<open>vllm/v1/core/kv_cache_coordinator.py\<close>.

  The three subclasses are the constructors of \<open>coord_kind\<close>, with the attributes each adds.
  The operations that loop over the managers thread the list of managers and the shared pool.
\<close>

section \<open>State\<close>

record hybrid_fields =
  hy_hash_block_size :: nat
  full_attention_group_ids :: "nat list"
  other_group_ids :: "nat list"
  full_attention_spec :: layer_spec
  other_spec :: layer_spec
  lcm_block_size :: nat
  full_attn_first :: bool

datatype coord_kind =
    NoPrefixCache
  | Unitary layer_spec nat nat nat
  | Hybrid hybrid_fields

record kv_coordinator =
  coord_kind :: coord_kind
  coord_enable_caching :: bool
  coord_use_eagle :: bool
  block_pool_of :: block_pool
  single_type_managers :: "st_manager list"

section \<open>Construction\<close>

fun make_managers :: "nat \<Rightarrow> kv_cache_group_spec list \<Rightarrow> nat \<Rightarrow> nat \<Rightarrow> st_manager list result" where
  "make_managers i [] dcp pcp = Inr []"
| "make_managers i (g # gs) dcp pcp =
     rbind (get_manager_for_kv_cache_spec (group_spec g) i dcp pcp) (\<lambda>m.
     rbind (make_managers (i + 1) gs dcp pcp) (\<lambda>ms. Inr (m # ms)))"

definition coordinator_init ::
  "kv_cache_config \<Rightarrow> bool \<Rightarrow> bool \<Rightarrow> bool \<Rightarrow> bool \<Rightarrow> nat \<Rightarrow> nat \<Rightarrow> nat \<Rightarrow> (block_pool \<times> st_manager list) result" where
  "coordinator_init cfg use_eagle caching kv_events use_int dcp pcp hash_bs =
     rbind (block_pool_init (nat (num_blocks cfg)) caching hash_bs kv_events use_int) (\<lambda>p.
     rbind (make_managers 0 (kv_cache_groups cfg) dcp pcp) (\<lambda>ms. Inr (p, ms)))"

text \<open>\<^verbatim>\<open>verify_and_split_kv_cache_groups\<close>: the loop, then the checks on its result.\<close>

fun split_groups ::
  "nat \<Rightarrow> kv_cache_group_spec list \<Rightarrow> layer_spec option \<Rightarrow> layer_spec option \<Rightarrow> nat list \<Rightarrow> nat list \<Rightarrow>
   (layer_spec option \<times> layer_spec option \<times> nat list \<times> nat list) result" where
  "split_groups i [] full other full_ids other_ids = Inr (full, other, full_ids, other_ids)"
| "split_groups i (g # gs) full other full_ids other_ids =
     (case group_spec g of
        UniformTypeKVCacheSpecs _ _ \<Rightarrow> Inl KeyError
      | LayerSpec s \<Rightarrow>
          if is_full_attention s then
            rbind (rassert (full = None \<or> full = Some s)) (\<lambda>_.
              split_groups (i + 1) gs (Some s) other (full_ids @ [i]) other_ids)
          else
            rbind (rassert (other = None \<or> other = Some s)) (\<lambda>_.
              split_groups (i + 1) gs full (Some s) full_ids (other_ids @ [i])))"

definition verify_and_split_kv_cache_groups :: "nat \<Rightarrow> kv_cache_group_spec list \<Rightarrow> hybrid_fields result" where
  "verify_and_split_kv_cache_groups hash_bs groups =
     rbind (split_groups 0 groups None None [] []) (\<lambda>(full, other, full_ids, other_ids).
       case (full, other) of
         (Some f, Some t) \<Rightarrow>
           rbind (if Max (set full_ids) < Min (set other_ids) then Inr True
                  else if Max (set other_ids) < Min (set full_ids) then Inr False
                  else Inl ValueError) (\<lambda>first.
             Inr \<lparr>hy_hash_block_size = hash_bs, full_attention_group_ids = full_ids, other_group_ids = other_ids,
                  full_attention_spec = f, other_spec = t,
                  lcm_block_size = lcm (layer_block_size f) (layer_block_size t), full_attn_first = first\<rparr>)
       | _ \<Rightarrow> Inl AssertionError)"

definition unitary_block_size :: "layer_spec \<Rightarrow> nat \<Rightarrow> nat \<Rightarrow> nat" where
  "unitary_block_size s dcp pcp =
     (let b1 = (if 1 < dcp then layer_block_size s * dcp else layer_block_size s)
      in if 1 < pcp then b1 * pcp else b1)"

definition get_kv_cache_coordinator ::
  "kv_cache_config \<Rightarrow> bool \<Rightarrow> bool \<Rightarrow> bool \<Rightarrow> bool \<Rightarrow> nat \<Rightarrow> nat \<Rightarrow> nat \<Rightarrow> kv_coordinator result" where
  "get_kv_cache_coordinator cfg use_eagle caching kv_events use_int dcp pcp hash_bs =
     rbind (coordinator_init cfg use_eagle caching kv_events use_int dcp pcp hash_bs) (\<lambda>(p, ms).
     let c = (\<lambda>k. \<lparr>coord_kind = k, coord_enable_caching = caching, coord_use_eagle = use_eagle,
                   block_pool_of = p, single_type_managers = ms\<rparr>) in
     if \<not> caching then Inr (c NoPrefixCache)
     else if length (kv_cache_groups cfg) = 1 then
       (case group_spec (hd (kv_cache_groups cfg)) of
          LayerSpec s \<Rightarrow>
            rbind (rassert (hash_bs = unitary_block_size s dcp pcp)) (\<lambda>_.
              Inr (c (Unitary s (unitary_block_size s dcp pcp) dcp pcp)))
        | UniformTypeKVCacheSpecs _ _ \<Rightarrow> Inl KeyError)
     else
       if hash_bs = 0 \<and> kv_cache_groups cfg \<noteq> [] then Inl ZeroDivisionError
       else
       rbind (rassert (list_all (\<lambda>g. spec_block_size (group_spec g) mod hash_bs = 0) (kv_cache_groups cfg))) (\<lambda>_.
       rbind (rassert (dcp = 1)) (\<lambda>_.
       rbind (rassert (pcp = 1)) (\<lambda>_.
       rbind (verify_and_split_kv_cache_groups hash_bs (kv_cache_groups cfg)) (\<lambda>h. Inr (c (Hybrid h)))))))"

section \<open>Operations over the managers\<close>

fun num_blocks_loop ::
  "block_pool \<Rightarrow> string \<Rightarrow> int \<Rightarrow> nat list list \<Rightarrow> int \<Rightarrow> nat \<Rightarrow> st_manager list \<Rightarrow> (int \<times> st_manager list) result" where
  "num_blocks_loop p rid num_toks ncbs enc_toks i [] = Inr (0, [])"
| "num_blocks_loop p rid num_toks ncbs enc_toks i (m # ms) =
     rbind (if is_cross_attention (st_spec m)
            then Single_Type.get_num_blocks_to_allocate p rid enc_toks [] m
            else rbind (py_get ncbs i) (\<lambda>ncb. Single_Type.get_num_blocks_to_allocate p rid num_toks ncb m))
       (\<lambda>(n, m').
     rbind (num_blocks_loop p rid num_toks ncbs enc_toks (i + 1) ms) (\<lambda>(k, ms').
       Inr (n + k, m' # ms')))"

definition coord_num_blocks_to_allocate ::
  "string \<Rightarrow> int \<Rightarrow> nat list list \<Rightarrow> int \<Rightarrow> kv_coordinator \<Rightarrow> (int \<times> kv_coordinator) result" where
  "coord_num_blocks_to_allocate rid num_toks ncbs enc_toks c =
     rbind (num_blocks_loop (block_pool_of c) rid num_toks ncbs enc_toks 0 (single_type_managers c))
       (\<lambda>(n, ms). Inr (n, c\<lparr>single_type_managers := ms\<rparr>))"

fun save_loop :: "string \<Rightarrow> nat list list \<Rightarrow> nat \<Rightarrow> st_manager list \<Rightarrow> st_manager list result" where
  "save_loop rid ncbs i [] = Inr []"
| "save_loop rid ncbs i (m # ms) =
     rbind (py_get ncbs i) (\<lambda>ncb.
     rbind (Single_Type.save_new_computed_blocks rid ncb m) (\<lambda>m'.
     rbind (save_loop rid ncbs (i + 1) ms) (\<lambda>ms'. Inr (m' # ms'))))"

definition coord_save_new_computed_blocks :: "string \<Rightarrow> nat list list \<Rightarrow> kv_coordinator \<Rightarrow> kv_coordinator result" where
  "coord_save_new_computed_blocks rid ncbs c =
     rbind (save_loop rid ncbs 0 (single_type_managers c)) (\<lambda>ms. Inr (c\<lparr>single_type_managers := ms\<rparr>))"

fun allocate_loop ::
  "string \<Rightarrow> int \<Rightarrow> int \<Rightarrow> st_manager list \<Rightarrow> block_pool \<Rightarrow> (nat list list \<times> st_manager list \<times> block_pool) result" where
  "allocate_loop rid num_toks enc_toks [] p = Inr ([], [], p)"
| "allocate_loop rid num_toks enc_toks (m # ms) p =
     rbind (Single_Type.allocate_new_blocks rid (if is_cross_attention (st_spec m) then enc_toks else num_toks) m p)
       (\<lambda>(nb, m', p1).
     rbind (allocate_loop rid num_toks enc_toks ms p1) (\<lambda>(nbs, ms', p2). Inr (nb # nbs, m' # ms', p2)))"

definition coord_allocate_new_blocks :: "string \<Rightarrow> int \<Rightarrow> int \<Rightarrow> kv_coordinator \<Rightarrow> (nat list list \<times> kv_coordinator) result" where
  "coord_allocate_new_blocks rid num_toks enc_toks c =
     rbind (allocate_loop rid num_toks enc_toks (single_type_managers c) (block_pool_of c)) (\<lambda>(nbs, ms, p).
       Inr (nbs, c\<lparr>single_type_managers := ms, block_pool_of := p\<rparr>))"

text \<open>The loops whose body changes one manager and the pool.\<close>

fun managers_loop ::
  "(st_manager \<Rightarrow> block_pool \<Rightarrow> (st_manager \<times> block_pool) result) \<Rightarrow> st_manager list \<Rightarrow> block_pool \<Rightarrow>
   (st_manager list \<times> block_pool) result" where
  "managers_loop f [] p = Inr ([], p)"
| "managers_loop f (m # ms) p =
     rbind (f m p) (\<lambda>(m', p1). rbind (managers_loop f ms p1) (\<lambda>(ms', p2). Inr (m' # ms', p2)))"

definition over_managers ::
  "(st_manager \<Rightarrow> block_pool \<Rightarrow> (st_manager \<times> block_pool) result) \<Rightarrow> kv_coordinator \<Rightarrow> kv_coordinator result" where
  "over_managers f c =
     rbind (managers_loop f (single_type_managers c) (block_pool_of c)) (\<lambda>(ms, p).
       Inr (c\<lparr>single_type_managers := ms, block_pool_of := p\<rparr>))"

definition coord_cache_blocks :: "request \<Rightarrow> nat \<Rightarrow> kv_coordinator \<Rightarrow> kv_coordinator result" where
  "coord_cache_blocks r num_computed = over_managers (Single_Type.cache_blocks r num_computed)"

definition coord_free :: "string \<Rightarrow> kv_coordinator \<Rightarrow> kv_coordinator result" where
  "coord_free rid = over_managers (st_free rid)"

definition coord_remove_skipped_blocks :: "string \<Rightarrow> int \<Rightarrow> kv_coordinator \<Rightarrow> kv_coordinator result" where
  "coord_remove_skipped_blocks rid num_computed =
     over_managers (Single_Type.remove_skipped_blocks rid num_computed)"

fun common_prefix_loop :: "block_pool \<Rightarrow> string \<Rightarrow> st_manager list \<Rightarrow> nat list \<times> st_manager list" where
  "common_prefix_loop p rid [] = ([], [])"
| "common_prefix_loop p rid (m # ms) =
     (case Single_Type.get_num_common_prefix_blocks p rid m of
        (n, m') \<Rightarrow> (case common_prefix_loop p rid ms of (ns, ms') \<Rightarrow> (n # ns, m' # ms')))"

definition coord_num_common_prefix_blocks :: "string \<Rightarrow> kv_coordinator \<Rightarrow> nat list \<times> kv_coordinator" where
  "coord_num_common_prefix_blocks rid c =
     (case coord_kind c of
        NoPrefixCache \<Rightarrow> (replicate (length (single_type_managers c)) 0, c)
      | _ \<Rightarrow> (case common_prefix_loop (block_pool_of c) rid (single_type_managers c) of
                 (ns, ms) \<Rightarrow> (ns, c\<lparr>single_type_managers := ms\<rparr>)))"

definition coord_get_blocks :: "string \<Rightarrow> kv_coordinator \<Rightarrow> nat list list" where
  "coord_get_blocks rid c = map (\<lambda>m. table m rid) (single_type_managers c)"

section \<open>Finding the longest cache hit\<close>

definition hashes_for :: "bytes list \<Rightarrow> nat \<Rightarrow> nat \<Rightarrow> block_hash_list result" where
  "hashes_for hashes hash_bs block_size =
     (if block_size = hash_bs then Inr (HashList hashes)
      else block_hash_list_with_block_size hashes hash_bs block_size)"

definition hybrid_find_longest_cache_hit ::
  "block_pool \<Rightarrow> bool \<Rightarrow> hybrid_fields \<Rightarrow> bytes list \<Rightarrow> int \<Rightarrow> (nat list list \<times> nat) result" where
  "hybrid_find_longest_cache_hit p use_eagle h hashes max_len =
     (let full_bs = layer_block_size (full_attention_spec h);
          other_bs = layer_block_size (other_spec h) in
      rbind (hashes_for hashes (hy_hash_block_size h) full_bs) (\<lambda>full_hashes.
      rbind (full_find_longest_cache_hit p (full_attention_spec h) full_hashes max_len (full_attention_group_ids h)
               use_eagle (lcm_block_size h) 1 1) (\<lambda>hit_full.
      rbind (first_len hit_full) (\<lambda>n_full.
      rbind (hashes_for hashes (hy_hash_block_size h) other_bs) (\<lambda>other_hashes.
      rbind (find_longest_cache_hit (other_spec h) p (other_spec h) other_hashes (int (n_full * full_bs)) (other_group_ids h)
               use_eagle (lcm_block_size h) 1 1) (\<lambda>hit_other.
      rbind (first_len hit_other) (\<lambda>n_other.
        let hit_length = n_other * other_bs in
        if full_bs = 0 then Inl ZeroDivisionError
        else
          rbind (rassert (hit_length mod full_bs = 0)) (\<lambda>_.
            let hit_full' = map (take (hit_length div full_bs)) hit_full in
            Inr (if full_attn_first h then hit_full' @ hit_other else hit_other @ hit_full', hit_length)))))))))"

definition coord_find_longest_cache_hit :: "bytes list \<Rightarrow> int \<Rightarrow> kv_coordinator \<Rightarrow> (nat list list \<times> nat) result" where
  "coord_find_longest_cache_hit hashes max_len c =
     (case coord_kind c of
        NoPrefixCache \<Rightarrow> Inr (replicate (length (single_type_managers c)) [], 0)
      | Unitary spec block_size dcp pcp \<Rightarrow>
          rbind (py_get (single_type_managers c) 0) (\<lambda>m.
          rbind (find_longest_cache_hit (st_spec m) (block_pool_of c) spec (HashList hashes) max_len [0]
                   (coord_use_eagle c) block_size dcp pcp) (\<lambda>hit.
          rbind (first_len hit) (\<lambda>n. Inr (hit, n * block_size))))
      | Hybrid h \<Rightarrow> hybrid_find_longest_cache_hit (block_pool_of c) (coord_use_eagle c) h hashes max_len)"


section \<open>The ownership invariant of all managers\<close>

text \<open>
  \<open>kv_inv F ms p\<close>: the reference count of every ordinary block is the number of table
  entries, over all managers and requests, that name it (plus \<open>F\<close>, for references an
  operation has taken and not stored yet).
\<close>

definition held_all :: "st_manager list \<Rightarrow> nat \<Rightarrow> nat" where
  "held_all ms i = sum_list (map (\<lambda>m. held m i) ms)"

definition kv_inv :: "(nat \<Rightarrow> nat) \<Rightarrow> st_manager list \<Rightarrow> block_pool \<Rightarrow> bool" where
  "kv_inv F ms p \<longleftrightarrow> pool_inv p \<and> bhash p 0 = None \<and> (\<forall>m \<in> set ms. st_wf p m) \<and>
     (\<forall>i. 0 < i \<and> i < num_gpu_blocks p \<longrightarrow> refc p i = int (F i + held_all ms i)) \<and>
     (enable_caching p \<longrightarrow> (\<forall>m \<in> set ms. st_fresh p m))"

lemma held_all_split [simp]: "held_all (ds @ m # ms) i = held_all ds i + held m i + held_all ms i"
  by (simp add: held_all_def)

lemma held_le_all: "m \<in> set ms \<Longrightarrow> held m i \<le> held_all ms i"
  unfolding held_all_def by (simp add: member_le_sum_list)

text \<open>One manager's view, and back.\<close>

lemma kv_inv_focus:
  assumes "kv_inv F (ds @ m # ms) p"
  shows "st_inv (\<lambda>i. F i + held_all ds i + held_all ms i) m p"
  using assms by (auto simp: kv_inv_def st_inv_def add_ac)

lemma kv_inv_unfocus:
  assumes "kv_inv F (ds @ m # ms) p" "st_inv (\<lambda>i. F i + held_all ds i + held_all ms i) m' p'"
    and "frame m rid p p'" "pool_cfg p' = pool_cfg p" "enable_caching p \<Longrightarrow> st_fresh p' m'"
  shows "kv_inv F (ds @ m' # ms) p'"
proof -
  let ?F = "\<lambda>i. F i + held_all ds i + held_all ms i"
  note inv = kv_inv_focus [OF assms(1)]
  note cfg = pool_cfgD [OF assms(4)]
  have "st_wf p' m2 \<and> (enable_caching p \<longrightarrow> st_fresh p' m2)" if "m2 \<in> set ds \<union> set ms" for m2
  proof
    have wf: "st_wf p m2" using assms(1) that by (auto simp: kv_inv_def)
    then show "st_wf p' m2" by (simp add: st_wf_cfg [OF cfg(1)])
    have "held m2 i \<le> ?F i" for i using that held_le_all [of m2 ds i] held_le_all [of m2 ms i] by auto
    moreover have "st_fresh p m2" if "enable_caching p" using assms(1) that \<open>m2 \<in> _\<close> by (auto simp: kv_inv_def)
    ultimately show "enable_caching p \<longrightarrow> st_fresh p' m2"
      using st_fresh_other [OF inv assms(3) _ wf] by blast
  qed
  moreover have "bhash p' 0 = None" using assms(1,3) by (simp add: kv_inv_def frame_def)
  ultimately show ?thesis
    using assms(2,5) cfg by (auto simp: kv_inv_def st_inv_def add_ac)
qed

text \<open>
  The loop rule: a body that keeps the invariant of all managers and establishes \<open>R\<close> for its
  own, under a condition \<open>C\<close> on the manager and on what no operation changes of the pool.
\<close>

lemma managers_loop_inv:
  assumes "\<And>ds m ms p. kv_inv F (ds @ m # ms) p \<Longrightarrow> C (pool_cfg p) m \<Longrightarrow>
      \<exists>m' p'. f m p = Inr (m', p') \<and> kv_inv F (ds @ m' # ms) p' \<and> pool_cfg p' = pool_cfg p \<and> R m m' \<and> Q p p'"
    and "\<And>p. Q p p" "\<And>p1 p2 p3. Q p1 p2 \<Longrightarrow> Q p2 p3 \<Longrightarrow> Q p1 p3"
    and "kv_inv F (ds @ ms) p" "\<forall>m \<in> set ms. C (pool_cfg p) m"
  shows "\<exists>ms' p'. managers_loop f ms p = Inr (ms', p') \<and> kv_inv F (ds @ ms') p' \<and> pool_cfg p' = pool_cfg p \<and>
    list_all2 R ms ms' \<and> Q p p'"
  using assms(4,5)
proof (induction ms arbitrary: ds p)
  case Nil
  with assms(2) show ?case by simp
next
  case (Cons m ms)
  obtain m' p1 where m': "f m p = Inr (m', p1)" "kv_inv F (ds @ m' # ms) p1" "pool_cfg p1 = pool_cfg p" "R m m'" "Q p p1"
    using assms(1) [OF Cons.prems(1)] Cons.prems(2) by auto
  have "kv_inv F ((ds @ [m']) @ ms) p1" "\<forall>m \<in> set ms. C (pool_cfg p1) m" using m'(2,3) Cons.prems(2) by simp_all
  from Cons.IH [OF this] obtain ms' p2 where ms': "managers_loop f ms p1 = Inr (ms', p2)" "kv_inv F ((ds @ [m']) @ ms') p2"
      "pool_cfg p2 = pool_cfg p1" "list_all2 R ms ms'" "Q p1 p2" by auto
  with m' assms(3) show ?case by (intro exI [of _ "m' # ms'"] exI [of _ p2]) auto
qed

text \<open>What every operation keeps of a manager.\<close>

definition same_mgr :: "st_manager \<Rightarrow> st_manager \<Rightarrow> bool" where
  "same_mgr m m' \<longleftrightarrow> st_spec m' = st_spec m \<and> st_block_size m' = st_block_size m \<and> kv_cache_group_id m' = kv_cache_group_id m"

lemma cached_of_eq: "num_cached_block m' = num_cached_block m \<Longrightarrow> cached_of m' = cached_of m"
  by (simp add: cached_of_def fun_eq_iff)

subsection \<open>Freeing a request\<close>

lemma coord_free_loop:
  assumes "kv_inv F ms p"
  shows "\<exists>ms' p'. managers_loop (st_free rid) ms p = Inr (ms', p') \<and> kv_inv F ms' p' \<and> pool_cfg p' = pool_cfg p \<and>
    list_all2 (\<lambda>m m'. same_mgr m m' \<and> table m' = (table m)(rid := []) \<and>
      map_of (num_cached_block m') = (map_of (num_cached_block m))(rid := None)) ms ms' \<and> (\<forall>i. bhash p' i = bhash p i)"
proof -
  let ?R = "\<lambda>m m'. same_mgr m m' \<and> table m' = (table m)(rid := []) \<and>
      map_of (num_cached_block m') = (map_of (num_cached_block m))(rid := None)"
  have step: "\<exists>m' p'. st_free rid m p = Inr (m', p') \<and> kv_inv F (ds @ m' # ms) p' \<and> pool_cfg p' = pool_cfg p \<and> ?R m m' \<and>
      (\<forall>i. bhash p' i = bhash p i)" if inv: "kv_inv F (ds @ m # ms) p" for ds m ms p
  proof -
    note st = kv_inv_focus [OF inv]
    from st_free_inv [OF st, of rid] obtain m' p' where m': "st_free rid m p = Inr (m', p')"
        "st_inv (\<lambda>i. F i + held_all ds i + held_all ms i) m' p'" "pool_cfg p' = pool_cfg p" "frame m rid p p'"
        "table m' = (table m)(rid := [])" "\<forall>j. bhash p' j = bhash p j" "same_mgr m m'"
        "map_of (num_cached_block m') = (map_of (num_cached_block m))(rid := None)"
      by (auto simp: same_mgr_def)
    have "st_fresh p' m'" if "enable_caching p"
    proof (rule st_fresh_step [OF st _ m'(4)])
      show "st_fresh p m" using inv that by (simp add: kv_inv_def)
      show "fresh_from p' (cached_of m' rid) (table m' rid)" using m'(5) by (simp add: fresh_from_def)
    qed (use m'(5,8) in \<open>simp_all add: cached_of_def\<close>)
    from kv_inv_unfocus [OF inv m'(2,4,3) this] m' show ?thesis by blast
  qed
  have "\<exists>ms' p'. managers_loop (st_free rid) ms p = Inr (ms', p') \<and> kv_inv F ([] @ ms') p' \<and> pool_cfg p' = pool_cfg p \<and>
      list_all2 ?R ms ms' \<and> (\<forall>i. bhash p' i = bhash p i)"
    by (rule managers_loop_inv [where C = "\<lambda>_ _. True"], erule step) (use assms in auto)
  then show ?thesis by simp
qed

subsection \<open>Removing skipped blocks\<close>

definition skip_ok :: "bool \<Rightarrow> string \<Rightarrow> int \<Rightarrow> st_manager \<Rightarrow> bool" where
  "skip_ok caching rid c m \<longleftrightarrow> skipped_blocks m c \<le> length (table m rid) \<and>
     (caching \<longrightarrow> skipped_blocks m c \<le> cached_of m rid) \<and>
     chunk_ok (st_spec m)"

lemma coord_skip_loop:
  assumes "kv_inv F ms p" "\<forall>m \<in> set ms. skip_ok (enable_caching p) rid c m"
  shows "\<exists>ms' p'. managers_loop (remove_skipped_blocks rid c) ms p = Inr (ms', p') \<and> kv_inv F ms' p' \<and> pool_cfg p' = pool_cfg p \<and>
    list_all2 (\<lambda>m m'. same_mgr m m' \<and> num_cached_block m' = num_cached_block m \<and>
      length (table m' rid) = length (table m rid) \<and> (\<forall>rid'. rid' \<noteq> rid \<longrightarrow> table m' rid' = table m rid')) ms ms' \<and>
    (\<forall>i. bhash p' i = bhash p i) \<and> get_num_free_blocks p \<le> get_num_free_blocks p'"
proof -
  let ?R = "\<lambda>m m'. same_mgr m m' \<and> num_cached_block m' = num_cached_block m \<and>
      length (table m' rid) = length (table m rid) \<and> (\<forall>rid'. rid' \<noteq> rid \<longrightarrow> table m' rid' = table m rid')"
  let ?Q = "\<lambda>p p'. (\<forall>i. bhash p' i = bhash p i) \<and> get_num_free_blocks p \<le> get_num_free_blocks p'"
  let ?C = "\<lambda>cfg. skip_ok (fst (snd cfg)) rid c"
  have step: "\<exists>m' p'. remove_skipped_blocks rid c m p = Inr (m', p') \<and> kv_inv F (ds @ m' # ms) p' \<and> pool_cfg p' = pool_cfg p \<and>
      ?R m m' \<and> ?Q p p'" if inv: "kv_inv F (ds @ m # ms) p" and C: "?C (pool_cfg p) m" for ds m ms p
  proof -
    note st = kv_inv_focus [OF inv]
    have sk: "skipped_blocks m c \<le> length (table m rid)" "enable_caching p \<Longrightarrow> skipped_blocks m c \<le> cached_of m rid"
        "chunk_ok (st_spec m)"
      using C by (auto simp: skip_ok_def pool_cfg_def)
    from remove_skipped_blocks_inv [OF st sk(1,3)] obtain m' p' where m': "remove_skipped_blocks rid c m p = Inr (m', p')"
        "st_inv (\<lambda>i. F i + held_all ds i + held_all ms i) m' p'" "pool_cfg p' = pool_cfg p" "frame m rid p p'"
        "\<forall>j. bhash p' j = bhash p j" "get_num_free_blocks p \<le> get_num_free_blocks p'"
        "\<forall>rid'. rid' \<noteq> rid \<longrightarrow> table m' rid' = table m rid'" "length (table m' rid) = length (table m rid)"
        "\<forall>n \<ge> skipped_blocks m c. table m' rid ! n = table m rid ! n"
        "\<forall>i. i \<in> set (drop (skipped_blocks m c) (table m rid)) \<and> 0 < i \<longrightarrow> refc p' i = refc p i"
        "same_mgr m m'" "num_cached_block m' = num_cached_block m"
      by (auto simp: same_mgr_def)
    have "st_fresh p' m'" if caching: "enable_caching p"
    proof (rule st_fresh_step [OF st _ m'(4)])
      show fr: "st_fresh p m" using inv caching by (simp add: kv_inv_def)
      show "fresh_from p' (cached_of m' rid) (table m' rid)"
        unfolding fresh_from_def
      proof (intro allI impI)
        fix n assume n: "cached_of m' rid \<le> n \<and> n < length (table m' rid)"
        then have n': "cached_of m rid \<le> n" "n < length (table m rid)" using m'(8) cached_of_eq [OF m'(12)] by simp_all
        then have f: "0 < table m rid ! n" "bhash p (table m rid ! n) = None" "refc p (table m rid ! n) = 1"
          using fr by (auto simp: st_fresh_def fresh_from_def)
        have sk': "skipped_blocks m c \<le> n" using sk(2) [OF caching] n'(1) by simp
        then have "table m rid ! n \<in> set (drop (skipped_blocks m c) (table m rid))"
          using n'(2) by (auto simp: in_set_conv_nth intro!: exI [of _ "n - skipped_blocks m c"])
        with f sk' m'(5,9,10) show "0 < table m' rid ! n \<and> bhash p' (table m' rid ! n) = None \<and> refc p' (table m' rid ! n) = 1"
          by simp
      qed
    qed (use m'(7) cached_of_eq [OF m'(12)] in simp_all)
    from kv_inv_unfocus [OF inv m'(2,4,3) this] m' show ?thesis by blast
  qed
  have "\<exists>ms' p'. managers_loop (remove_skipped_blocks rid c) ms p = Inr (ms', p') \<and> kv_inv F ([] @ ms') p' \<and>
      pool_cfg p' = pool_cfg p \<and> list_all2 ?R ms ms' \<and> ?Q p p'"
    by (rule managers_loop_inv [where C = ?C], erule (1) step) (use assms in \<open>auto simp: pool_cfg_def\<close>)
  then show ?thesis by simp
qed


subsection \<open>Hashes at the granularity of a group\<close>

definition scaled_hashes :: "bytes list \<Rightarrow> nat \<Rightarrow> bytes list" where
  "scaled_hashes hs k = map (\<lambda>i. concat (py_slice hs (i * k) (i * k + k))) [0..<length hs div k]"

lemma get_value_at_scaled:
  assumes "0 < k" "i < length hs div k"
  shows "get_value_at hs k i = Inr (concat (py_slice hs (i * k) (i * k + k)))"
proof -
  have e: "i * k + k \<le> length hs" using block_end_le [OF assms(2)] by (simp add: add.commute)
  have "rmap (py_get hs) js = Inr (map (\<lambda>j. hs ! j) js)" if "\<forall>j \<in> set js. j < length hs" for js
    using that by (induction js) (simp_all add: py_get_def)
  then have "rmap (py_get hs) [i * k + 1..<i * k + k] = Inr (map (\<lambda>j. hs ! j) [i * k + 1..<i * k + k])" using e by simp
  moreover have "py_slice hs (i * k) (i * k + k) = map (\<lambda>j. hs ! j) [i * k..<i * k + k]"
    using e by (simp add: py_slice_def list_eq_iff_nth_eq)
  moreover have "[i * k..<i * k + k] = i * k # [i * k + 1..<i * k + k]" using assms(1) by (simp add: upt_conv_Cons)
  ultimately show ?thesis using e assms(1) by (simp add: get_value_at_def py_get_def Let_def)
qed

lemma scaled_view: "0 < k \<Longrightarrow> bhl_view (ScaledHashList hs k) (scaled_hashes hs k)"
proof -
  assume k: "0 < k"
  have "rmap (get_value_at hs k) js = Inr (map (\<lambda>i. concat (py_slice hs (i * k) (i * k + k))) js)"
    if "\<forall>i \<in> set js. i < length hs div k" for js
    using that k by (induction js) (simp_all add: get_value_at_scaled)
  then show ?thesis using k by (auto simp: bhl_view_def scaled_hashes_def get_value_at_scaled)
qed

lemma plain_view: "bhl_view (HashList hs) hs"
  by (simp add: bhl_view_def py_get_def)

text \<open>The number of hashes a group has for the tokens that the request has hashes for.\<close>

lemma hashes_for_view:
  assumes "0 < hash_bs" "hash_bs dvd bs" "0 < bs"
  shows "\<exists>hl hs'. hashes_for hs hash_bs bs = Inr hl \<and> bhl_view hl hs' \<and> length hs' = length hs * hash_bs div bs"
proof (cases "bs = hash_bs")
  case True
  with assms show ?thesis using plain_view by (auto simp: hashes_for_def)
next
  case False
  obtain k where k: "bs = hash_bs * k" using assms(2) by (auto elim: dvdE)
  then have "0 < k" using assms(3) by simp
  moreover have "length hs * hash_bs div bs = length hs div k" using assms(1) by (simp add: k div_mult2_eq mult.commute)
  ultimately show ?thesis
    using False assms k scaled_view [of k hs]
    by (auto simp: hashes_for_def block_hash_list_with_block_size_def scaled_hashes_def)
qed

lemma rmap_drop: "rmap f xs = Inr ys \<Longrightarrow> rmap f (drop n xs) = Inr (drop n ys)"
  by (simp add: rmap_Inr_iff list_all2_dropI)

lemma group_hashes_from:
  assumes "0 < hash_bs" "hash_bs dvd bs" "0 < bs"
  shows "\<exists>hs. group_hashes r hash_bs bs nc = Inr hs \<and> length hs = length (block_hashes r) * hash_bs div bs - nc"
proof -
  obtain hl hs' where h: "hashes_for (block_hashes r) hash_bs bs = Inr hl" "bhl_view hl hs'"
      "length hs' = length (block_hashes r) * hash_bs div bs"
    using hashes_for_view [OF assms] by blast
  have "bhl_from hl nc = Inr (drop nc hs')"
  proof (cases hl)
    case (ScaledHashList a k)
    with h(2) have k: "0 < k" "rmap (get_value_at a k) [0..<length a div k] = Inr hs'"
      by (auto simp: bhl_view_def result_simps split: if_splits)
    have "drop nc [0..<length a div k] = [nc..<length a div k]" by simp
    with rmap_drop [OF k(2), of nc] k(1) ScaledHashList show ?thesis by simp
  qed (use h(2) in \<open>simp add: bhl_view_def\<close>)
  with h show ?thesis by (auto simp: group_hashes_def hashes_for_def)
qed

subsection \<open>Caching\<close>

text \<open>What caching the blocks of \<open>t\<close> tokens of a request needs of a manager.\<close>

definition cache_ok :: "request \<Rightarrow> nat \<Rightarrow> nat \<times> bool \<times> nat \<times> nat \<times> bool \<times> bool \<Rightarrow> st_manager \<Rightarrow> bool" where
  "cache_ok r t cfg m \<longleftrightarrow>
     (case cfg of (_, caching, hash_bs, _, kv_events, _) \<Rightarrow>
        caching \<and> \<not> kv_events \<and> 0 < hash_bs \<and> hash_bs dvd st_block_size m \<and> t \<le> length (block_hashes r) * hash_bs + hash_bs - 1) \<and>
     \<not> is_cross_attention (st_spec m) \<and> kv_cache_group_id m < 2 ^ 32 \<and>
     t div st_block_size m \<le> length (table m (request_id r))"

lemma full_blocks_hashed:
  fixes n t bs hash_bs :: nat
  assumes "0 < hash_bs" "hash_bs dvd bs" "0 < bs" "t \<le> n * hash_bs + hash_bs - 1"
  shows "t div bs \<le> n * hash_bs div bs" "t div bs \<le> n"
proof -
  obtain k where k: "bs = hash_bs * k" using assms(2) by (auto elim: dvdE)
  have "t < Suc n * hash_bs" using assms(1,4) by simp
  then have "t div hash_bs < Suc n" using assms(1) by (simp add: div_less_iff_less_mult)
  then have th: "t div hash_bs \<le> n" by simp
  have "t div bs = t div hash_bs div k" by (simp add: k div_mult2_eq)
  also have "\<dots> \<le> n div k" using th by (rule div_le_mono)
  also have "n div k = n * hash_bs div bs" using assms(1) by (simp add: k div_mult2_eq mult.commute)
  finally show "t div bs \<le> n * hash_bs div bs" .
  have "t div bs \<le> t div hash_bs" using \<open>t div bs = t div hash_bs div k\<close> by simp
  with th show "t div bs \<le> n" by simp
qed

lemma coord_cache_loop:
  assumes "kv_inv F ms p" "\<forall>m \<in> set ms. cache_ok r t (pool_cfg p) m"
  shows "\<exists>ms' p'. managers_loop (cache_blocks r t) ms p = Inr (ms', p') \<and> kv_inv F ms' p' \<and> pool_cfg p' = pool_cfg p \<and>
    list_all2 (\<lambda>m m'. same_mgr m m' \<and> table m' = table m \<and>
      (\<forall>rid. cached_of m' rid = (if rid = request_id r then max (cached_of m rid) (t div st_block_size m) else cached_of m rid))) ms ms' \<and>
    (\<forall>i. refc p' i = refc p i) \<and> get_num_free_blocks p' = get_num_free_blocks p"
proof -
  let ?R = "\<lambda>m m'. same_mgr m m' \<and> table m' = table m \<and>
      (\<forall>rid. cached_of m' rid = (if rid = request_id r then max (cached_of m rid) (t div st_block_size m) else cached_of m rid))"
  let ?Q = "\<lambda>p p'. (\<forall>i. refc p' i = refc p i) \<and> get_num_free_blocks p' = get_num_free_blocks p"
  have step: "\<exists>m' p'. cache_blocks r t m p = Inr (m', p') \<and> kv_inv F (ds @ m' # ms) p' \<and> pool_cfg p' = pool_cfg p \<and>
      ?R m m' \<and> ?Q p p'" if inv: "kv_inv F (ds @ m # ms) p" and C: "cache_ok r t (pool_cfg p) m" for ds m ms p
  proof -
    note st = kv_inv_focus [OF inv]
    have b: "0 < st_block_size m" using st by (simp add: st_inv_def st_wf_def)
    have c: "enable_caching p" "\<not> enable_kv_cache_events p" "0 < hash_block_size p" "hash_block_size p dvd st_block_size m"
        "t \<le> length (block_hashes r) * hash_block_size p + hash_block_size p - 1" "\<not> is_cross_attention (st_spec m)"
        "kv_cache_group_id m < 2 ^ 32" "t div st_block_size m \<le> length (table m (request_id r))"
      using C by (auto simp: cache_ok_def pool_cfg_def)
    note full = full_blocks_hashed [OF c(3,4) b c(5)]
    obtain hs where hs: "group_hashes r (hash_block_size p) (st_block_size m) (cached_of m (request_id r)) = Inr hs"
        "t div st_block_size m - cached_of m (request_id r) \<le> length hs"
      using group_hashes_from [OF c(3,4) b, of r "cached_of m (request_id r)"] full(1) by (metis diff_le_mono)
    have fr: "st_fresh p m" using inv c(1) by (simp add: kv_inv_def)
    then have "fresh_from p (cached_of m (request_id r)) (table m (request_id r))" by (simp add: st_fresh_def)
    from cache_blocks_inv [OF st c(6) this full(2) c(7,2) hs c(8)] obtain m' p' where m': "cache_blocks r t m p = Inr (m', p')"
        "st_inv (\<lambda>i. F i + held_all ds i + held_all ms i) m' p'" "pool_cfg p' = pool_cfg p" "frame m (request_id r) p p'"
        "?R m m'" "?Q p p'" "fresh_from p' (cached_of m' (request_id r)) (table m' (request_id r))"
      by (auto simp: same_mgr_def)
    have "st_fresh p' m'" by (rule st_fresh_step [OF st fr m'(4) _ m'(7)]) (use m'(5) in simp)
    from kv_inv_unfocus [OF inv m'(2,4,3) this] m'(1,3,5,6) show ?thesis by blast
  qed
  have "\<exists>ms' p'. managers_loop (cache_blocks r t) ms p = Inr (ms', p') \<and> kv_inv F ([] @ ms') p' \<and>
      pool_cfg p' = pool_cfg p \<and> list_all2 ?R ms ms' \<and> ?Q p p'"
    by (rule managers_loop_inv [where C = "cache_ok r t"], erule (1) step) (use assms in auto)
  then show ?thesis by simp
qed


subsection \<open>Allocating\<close>

definition toks_for :: "int \<Rightarrow> int \<Rightarrow> st_manager \<Rightarrow> int" where
  "toks_for t enc m = (if is_cross_attention (st_spec m) then enc else t)"

text \<open>What the managers have to take from the pool to give a request its slots.\<close>

definition total_need :: "string \<Rightarrow> int \<Rightarrow> int \<Rightarrow> st_manager list \<Rightarrow> nat" where
  "total_need rid t enc ms = sum_list (map (\<lambda>m. nat (blocks_needed m rid (toks_for t enc m))) ms)"

definition extended :: "string \<Rightarrow> st_manager \<Rightarrow> nat list \<times> st_manager \<Rightarrow> bool" where
  "extended rid m e \<longleftrightarrow> same_mgr m (snd e) \<and> table (snd e) = (table m)(rid := table m rid @ fst e)"

definition allocated :: "string \<Rightarrow> int \<Rightarrow> int \<Rightarrow> st_manager \<Rightarrow> nat list \<times> st_manager \<Rightarrow> bool" where
  "allocated rid t enc m e \<longleftrightarrow> extended rid m e \<and> num_cached_block (snd e) = num_cached_block m \<and>
     length (fst e) = nat (blocks_needed m rid (toks_for t enc m))"

lemma allocate_loop_inv:
  assumes "kv_inv F (ds @ ms) p" "int (total_need rid t enc ms) \<le> get_num_free_blocks p"
  shows "\<exists>nbs ms' p'. allocate_loop rid t enc ms p = Inr (nbs, ms', p') \<and> kv_inv F (ds @ ms') p' \<and> pool_cfg p' = pool_cfg p \<and>
    list_all2 (allocated rid t enc) ms (zip nbs ms') \<and>
    length nbs = length ms \<and> length ms' = length ms \<and>
    (\<forall>i \<in> set (concat nbs). refc p' i = 1 \<and> (enable_caching p \<longrightarrow> bhash p' i = None)) \<and>
    (\<forall>i. i \<notin> set (concat nbs) \<longrightarrow> refc p' i = refc p i \<and> bhash p' i = bhash p i) \<and>
    get_num_free_blocks p' = get_num_free_blocks p - int (total_need rid t enc ms)"
  using assms
proof (induction ms arbitrary: ds p)
  case Nil
  then show ?case by (simp add: total_need_def)
next
  case (Cons m ms)
  let ?need = "blocks_needed m rid (toks_for t enc m)"
  note st = kv_inv_focus [OF Cons.prems(1)]
  have tot: "total_need rid t enc (m # ms) = nat ?need + total_need rid t enc ms" by (simp add: total_need_def)
  have "?need \<le> int (nat ?need)" "int (nat ?need) + int (total_need rid t enc ms) \<le> get_num_free_blocks p"
    using Cons.prems(2) unfolding tot by simp_all
  then have "?need \<le> get_num_free_blocks p" by linarith
  from allocate_new_blocks_inv [OF st this] obtain nb m' p1 where m':
      "allocate_new_blocks rid (toks_for t enc m) m p = Inr (nb, m', p1)"
      "st_inv (\<lambda>i. F i + held_all ds i + held_all ms i) m' p1" "pool_cfg p1 = pool_cfg p"
      "table m' = (table m)(rid := table m rid @ nb)" "length nb = nat ?need" "frame m rid p p1"
      "\<forall>i \<in> set nb. refc p1 i = 1 \<and> 0 < i \<and> (enable_caching p \<longrightarrow> bhash p1 i = None)"
      "\<forall>i. i \<notin> set nb \<longrightarrow> refc p1 i = refc p i \<and> bhash p1 i = bhash p i"
      "get_num_free_blocks p1 = get_num_free_blocks p - int (nat ?need)"
      "same_mgr m m'" "num_cached_block m' = num_cached_block m"
    by (auto simp: same_mgr_def)
  have fresh: "st_fresh p1 m'" if caching: "enable_caching p"
  proof (rule st_fresh_step [OF st _ m'(6)])
    show fr: "st_fresh p m" using Cons.prems(1) caching by (simp add: kv_inv_def)
    show "fresh_from p1 (cached_of m' rid) (table m' rid)"
      unfolding fresh_from_def
    proof (intro allI impI)
      fix n assume n: "cached_of m' rid \<le> n \<and> n < length (table m' rid)"
      show "0 < table m' rid ! n \<and> bhash p1 (table m' rid ! n) = None \<and> refc p1 (table m' rid ! n) = 1"
      proof (cases "n < length (table m rid)")
        case True
        then have f: "0 < table m rid ! n" "bhash p (table m rid ! n) = None" "refc p (table m rid ! n) = 1"
          using fr n cached_of_eq [OF m'(11)] by (auto simp: st_fresh_def fresh_from_def)
        show ?thesis using f True m'(4,7,8) caching by (cases "table m rid ! n \<in> set nb") (auto simp: nth_append)
      next
        case False
        then have "table m' rid ! n \<in> set nb" using n m'(4) by (auto simp: nth_append)
        with m'(7) caching show ?thesis by simp
      qed
    qed
  qed (use m'(4) cached_of_eq [OF m'(11)] in simp_all)
  note inv1 = kv_inv_unfocus [OF Cons.prems(1) m'(2,6,3) fresh]
  have "kv_inv F ((ds @ [m']) @ ms) p1" using inv1 by simp
  moreover have "int (total_need rid t enc ms) \<le> get_num_free_blocks p1" using Cons.prems(2) tot m'(9) by simp
  ultimately obtain nbs ms' p2 where ih: "allocate_loop rid t enc ms p1 = Inr (nbs, ms', p2)" "kv_inv F ((ds @ [m']) @ ms') p2"
      "pool_cfg p2 = pool_cfg p1"
      "list_all2 (allocated rid t enc) ms (zip nbs ms')"
      "length nbs = length ms" "length ms' = length ms"
      "\<forall>i \<in> set (concat nbs). refc p2 i = 1 \<and> (enable_caching p1 \<longrightarrow> bhash p2 i = None)"
      "\<forall>i. i \<notin> set (concat nbs) \<longrightarrow> refc p2 i = refc p1 i \<and> bhash p2 i = bhash p1 i"
      "get_num_free_blocks p2 = get_num_free_blocks p1 - int (total_need rid t enc ms)"
    using Cons.IH [of "ds @ [m']" p1] by auto
  have "allocate_loop rid t enc (m # ms) p = Inr (nb # nbs, m' # ms', p2)"
    using m'(1) ih(1) by (simp add: toks_for_def)
  moreover have "refc p2 i = 1 \<and> (enable_caching p \<longrightarrow> bhash p2 i = None)" if "i \<in> set (concat (nb # nbs))" for i
    using that m'(7) ih(7,8) pool_cfgD(2) [OF m'(3)] by (cases "i \<in> set (concat nbs)") auto
  moreover have "refc p2 i = refc p i \<and> bhash p2 i = bhash p i" if "i \<notin> set (concat (nb # nbs))" for i
    using that m'(8) ih(8) by auto
  ultimately show ?case
    using ih(2-6,9) m'(3-5,9-11) tot allocated_def [of rid t enc m "(nb, m')"] extended_def [of rid m "(nb, m')"]
    by (intro exI [of _ "nb # nbs"] exI [of _ "m' # ms'"] exI [of _ p2] conjI) simp_all
qed

subsection \<open>Saving new computed blocks\<close>

definition save_ok :: "block_pool \<Rightarrow> string \<Rightarrow> nat list \<Rightarrow> st_manager \<Rightarrow> bool" where
  "save_ok p rid ncb m \<longleftrightarrow> table_ok p ncb \<and>
     (map_of (num_cached_block m) rid = None \<and> \<not> is_cross_attention (st_spec m) \<longrightarrow> table m rid = []) \<and>
     (map_of (num_cached_block m) rid \<noteq> None \<or> is_cross_attention (st_spec m) \<longrightarrow> ncb = [])"

lemma save_loop_inv:
  assumes "kv_inv (\<lambda>i. F i + count_list (concat rest) i) (ds @ ms) p" "list_all2 (save_ok p rid) rest ms"
  shows "\<exists>ms'. save_loop rid (pre @ rest) (length pre) ms = Inr ms' \<and> kv_inv F (ds @ ms') p \<and>
    list_all2 (extended rid) ms (zip rest ms') \<and>
    length ms' = length ms"
  using assms
proof (induction ms arbitrary: ds pre rest)
  case Nil
  then show ?case by simp
next
  case (Cons m ms)
  then obtain ncb rest' where rest: "rest = ncb # rest'" "save_ok p rid ncb m" "list_all2 (save_ok p rid) rest' ms"
    by (auto simp: list_all2_Cons2)
  let ?F = "\<lambda>i. F i + count_list (concat rest') i"
  have inv: "kv_inv (\<lambda>i. F i + count_list (concat rest) i) (ds @ m # ms) p" using Cons.prems(1) .
  have st: "st_inv (\<lambda>i. (?F i + held_all ds i + held_all ms i) + count_list ncb i) m p"
    using kv_inv_focus [OF inv] by (simp add: rest(1) st_inv_def add_ac)
  have conds: "table_ok p ncb" "map_of (num_cached_block m) rid = None \<Longrightarrow> \<not> is_cross_attention (st_spec m) \<Longrightarrow> table m rid = []"
      "map_of (num_cached_block m) rid \<noteq> None \<or> is_cross_attention (st_spec m) \<Longrightarrow> ncb = []"
    using rest(2) by (auto simp: save_ok_def)
  obtain m' where m': "save_new_computed_blocks rid ncb m = Inr m'" "st_inv (\<lambda>i. ?F i + held_all ds i + held_all ms i) m' p"
      "table m' = (table m)(rid := table m rid @ ncb)" "same_mgr m m'"
      "map_of (num_cached_block m') = (if is_cross_attention (st_spec m) \<or> map_of (num_cached_block m) rid \<noteq> None
       then map_of (num_cached_block m) else (map_of (num_cached_block m))(rid \<mapsto> length ncb))"
  proof (cases "is_cross_attention (st_spec m)")
    case True
    then have "ncb = []" using conds by blast
    with that [of m] st True show ?thesis by (auto simp: save_new_computed_blocks_def same_mgr_def)
  next
    case False
    then have c2: "map_of (num_cached_block m) rid = None \<Longrightarrow> table m rid = []" using conds(2) by blast
    show ?thesis using save_new_computed_blocks_inv [OF st conds(1) c2 conds(3)] that unfolding same_mgr_def by blast
  qed
  have fresh: "st_fresh p m'" if "enable_caching p"
  proof -
    have fr: "st_fresh p m" using inv that by (simp add: kv_inv_def)
    have "fresh_from p (cached_of m' rid') (table m' rid')" for rid'
    proof -
      have old: "fresh_from p (cached_of m rid') (table m rid')" using fr by (simp add: st_fresh_def)
      show ?thesis
      proof (cases "rid' = rid \<and> \<not> (is_cross_attention (st_spec m) \<or> map_of (num_cached_block m) rid \<noteq> None)")
        case True
        then have "table m' rid' = ncb" "cached_of m' rid' = length ncb"
          using m'(3,5) conds(2) by (auto simp: cached_of_def)
        then show ?thesis by (auto simp: fresh_from_def)
      next
        case False
        then have "table m' rid' = table m rid'" "cached_of m' rid' = cached_of m rid'"
          using m'(3,5) conds(3) by (auto simp: cached_of_def split: if_splits)
        with old show ?thesis by simp
      qed
    qed
    then show ?thesis by (simp add: st_fresh_def)
  qed
  have "kv_inv ?F ((ds @ [m']) @ ms) p"
    using inv m'(2) fresh by (auto simp: kv_inv_def st_inv_def rest(1) add_ac)
  from Cons.IH [OF this rest(3), of "pre @ [ncb]"] obtain ms' where ms': "save_loop rid (pre @ rest) (length pre + 1) ms = Inr ms'"
      "kv_inv F ((ds @ [m']) @ ms') p"
      "list_all2 (extended rid) ms (zip rest' ms')"
      "length ms' = length ms" by (auto simp: rest(1))
  moreover have "py_get (pre @ rest) (length pre) = Inr ncb" by (simp add: py_get_def rest(1))
  ultimately show ?case
    using m'(1,3,4) rest(1) extended_def [of rid m "(ncb, m')"] by (intro exI [of _ "m' # ms'"]) simp
qed


subsection \<open>Counting the blocks to allocate\<close>

text \<open>The computed blocks that sit in the free queue.\<close>

definition evictable :: "block_pool \<Rightarrow> nat list \<Rightarrow> nat" where
  "evictable p ncb = length (filter (\<lambda>i. refc p i = 0 \<and> \<not> bnull p i) ncb)"

definition estimate :: "block_pool \<Rightarrow> string \<Rightarrow> int \<Rightarrow> int \<Rightarrow> nat list \<times> st_manager \<Rightarrow> int" where
  "estimate p rid t enc e =
     blocks_needed (snd e) rid (toks_for t enc (snd e)) - int (length (fst e)) + int (evictable p (fst e))"

text \<open>Reading a table of the manager at most enters an empty one.\<close>

definition unchanged :: "st_manager \<Rightarrow> st_manager \<Rightarrow> bool" where
  "unchanged m m' \<longleftrightarrow> same_mgr m m' \<and> table m' = table m \<and> num_cached_block m' = num_cached_block m \<and>
     held m' = held m \<and> (\<forall>p. st_wf p m' = st_wf p m)"

lemma get_num_blocks_unchanged:
  assumes "0 < st_block_size m"
  shows "\<exists>m'. get_num_blocks_to_allocate p rid t ncb m =
    Inr (blocks_needed m rid t - int (length ncb) + int (evictable p ncb), m') \<and> unchanged m m'"
proof -
  obtain bs m1 where r: "req_blocks_of rid m = (bs, m1)" by fastforce
  note m1 = req_blocks_of_props [OF r]
  have "unchanged m m1" using m1 by (simp add: unchanged_def same_mgr_def)
  then show ?thesis
    using assms m1(1)
    by (auto simp: get_num_blocks_to_allocate_def base_num_blocks_to_allocate_def rcdiv_def r blocks_needed_def evictable_def Let_def)
qed

lemma num_blocks_loop_unchanged:
  assumes "length rest = length ms" "\<forall>m \<in> set ms. 0 < st_block_size m"
    and "list_all2 (\<lambda>ncb m. is_cross_attention (st_spec m) \<longrightarrow> ncb = []) rest ms"
  shows "\<exists>ms'. num_blocks_loop p rid t (pre @ rest) enc (length pre) ms =
      Inr (sum_list (map (estimate p rid t enc) (zip rest ms)), ms') \<and> list_all2 unchanged ms ms'"
  using assms
proof (induction ms arbitrary: pre rest)
  case Nil
  then show ?case by simp
next
  case (Cons m ms)
  then obtain ncb rest' where rest: "rest = ncb # rest'" by (cases rest) auto
  have cr: "is_cross_attention (st_spec m) \<longrightarrow> ncb = []" using Cons.prems(3) rest by simp
  obtain m' where m': "get_num_blocks_to_allocate p rid (toks_for t enc m) ncb m = Inr (estimate p rid t enc (ncb, m), m')" "unchanged m m'"
    using get_num_blocks_unchanged [of m p rid "toks_for t enc m" ncb] Cons.prems(2) by (auto simp: estimate_def)
  have sel: "(if is_cross_attention (st_spec m) then get_num_blocks_to_allocate p rid enc [] m
      else rbind (py_get (pre @ rest) (length pre)) (\<lambda>ncb. get_num_blocks_to_allocate p rid t ncb m)) =
      Inr (estimate p rid t enc (ncb, m), m')"
    using m'(1) cr by (auto simp: toks_for_def py_get_def rest)
  from Cons.IH [of rest' "pre @ [ncb]"] Cons.prems rest obtain ms' where
    "num_blocks_loop p rid t (pre @ rest) enc (length pre + 1) ms = Inr (sum_list (map (estimate p rid t enc) (zip rest' ms)), ms')"
    "list_all2 unchanged ms ms'" by auto
  then have "num_blocks_loop p rid t (pre @ rest) enc (length pre) (m # ms) =
      Inr (estimate p rid t enc (ncb, m) + sum_list (map (estimate p rid t enc) (zip rest' ms)), m' # ms')"
    unfolding num_blocks_loop.simps sel by simp
  with m'(2) rest \<open>list_all2 unchanged ms ms'\<close> show ?case by (intro exI [of _ "m' # ms'"]) simp
qed

lemma held_all_unchanged: "list_all2 unchanged ms ms' \<Longrightarrow> held_all ms' = held_all ms"
proof (induction ms ms' rule: list_all2_induct)
  case (Cons m ms m' ms')
  then show ?case by (auto simp: held_all_def unchanged_def fun_eq_iff)
qed (simp add: held_all_def)

lemma kv_inv_unchanged:
  assumes "kv_inv F ms p" "list_all2 unchanged ms ms'"
  shows "kv_inv F ms' p"
proof -
  have "\<exists>m \<in> set ms. unchanged m m'" if "m' \<in> set ms'" for m'
    using assms(2) that by (induction ms ms' rule: list_all2_induct) auto
  then have "st_wf p m' \<and> (enable_caching p \<longrightarrow> st_fresh p m')" if "m' \<in> set ms'" for m'
    using assms(1) that by (fastforce simp: kv_inv_def unchanged_def st_fresh_def cached_of_def)
  with assms(1) show ?thesis by (simp add: kv_inv_def held_all_unchanged [OF assms(2)])
qed

subsection \<open>Touching computed blocks\<close>

text \<open>The blocks of a cache hit: in range, and cached or null.\<close>

definition hit_blocks :: "block_pool \<Rightarrow> nat list list \<Rightarrow> bool" where
  "hit_blocks p ncbs \<longleftrightarrow> (\<forall>i \<in> set (concat ncbs). i < num_gpu_blocks p \<and> (0 < i \<longrightarrow> bhash p i \<noteq> None))"

lemma length_filter_removed:
  assumes "distinct fl" "set (filter (\<lambda>j. j \<in> S) fl) \<subseteq> set xs"
  shows "length fl - length xs \<le> length (filter (\<lambda>j. j \<notin> S) fl)"
proof -
  have "length (filter (\<lambda>j. j \<in> S) fl) = card (set (filter (\<lambda>j. j \<in> S) fl))"
    by (rule distinct_card [symmetric]) (simp add: assms(1))
  also have "\<dots> \<le> card (set xs)" by (intro card_mono assms(2)) simp
  also have "\<dots> \<le> length xs" by (rule card_length)
  finally show ?thesis using sum_length_filter_compl [of "\<lambda>j. j \<in> S" fl] by simp
qed

lemma touch_inv:
  assumes "kv_inv F ms p" "enable_caching p" "hit_blocks p ncbs"
  shows "\<exists>p'. touch ncbs p = Inr p' \<and> kv_inv (\<lambda>i. F i + count_list (concat ncbs) i) ms p' \<and> pool_cfg p' = pool_cfg p \<and>
    (\<forall>i. bhash p' i = bhash p i) \<and> (\<forall>i. refc p' i = refc p i + int (count_list (concat ncbs) i)) \<and>
    get_num_free_blocks p - int (sum_list (map (evictable p) ncbs)) \<le> get_num_free_blocks p'"
proof -
  obtain fl where fl: "pool_rep p fl {}" using assms(1) by (auto simp: kv_inv_def pool_inv_def)
  have "set (concat ncbs) \<subseteq> {..<num_gpu_blocks p}" using assms(3) by (auto simp: hit_blocks_def)
  from touch_rep [OF fl this] obtain p' where p': "touch ncbs p = Inr p'"
      "pool_rep p' (filter (\<lambda>j. j \<notin> set (concat ncbs)) fl) {}" "pool_cfg p' = pool_cfg p"
      "\<forall>j. refc p' j = refc p j + int (count_list (concat ncbs) j)" "\<forall>j. bhash p' j = bhash p j" by blast
  note cfg = pool_cfgD [OF p'(3)]
  have fresh: "st_fresh p' m" if "m \<in> set ms" for m
    unfolding st_fresh_def fresh_from_def
  proof (intro allI impI)
    fix rid n assume n: "cached_of m rid \<le> n \<and> n < length (table m rid)"
    let ?i = "table m rid ! n"
    have f: "0 < ?i" "bhash p ?i = None" "refc p ?i = 1"
      using assms(1,2) that n by (auto simp: kv_inv_def st_fresh_def fresh_from_def)
    have "?i \<notin> set (concat ncbs)" using assms(3) f(1,2) unfolding hit_blocks_def by blast
    then have "count_list (concat ncbs) ?i = 0" by simp
    with f p'(4,5) show "0 < ?i \<and> bhash p' ?i = None \<and> refc p' ?i = 1" by simp
  qed
  have "kv_inv (\<lambda>i. F i + count_list (concat ncbs) i) ms p'"
    using assms(1) p'(2,4,5) fresh cfg st_wf_cfg [OF cfg(1)] by (auto simp: kv_inv_def pool_inv_def)
  moreover have "get_num_free_blocks p - int (sum_list (map (evictable p) ncbs)) \<le> get_num_free_blocks p'"
  proof -
    let ?ev = "filter (\<lambda>i. refc p i = 0 \<and> \<not> bnull p i) (concat ncbs)"
    have "bnull p j \<longleftrightarrow> j = 0" if "j < num_gpu_blocks p" for j using fl that by (simp add: pool_rep_def)
    then have "set (filter (\<lambda>j. j \<in> set (concat ncbs)) fl) \<subseteq> set ?ev" using pool_rep_free_iff [OF fl] by auto
    from length_filter_removed [OF pool_rep_distinct [OF fl] this]
    have "length fl - length ?ev \<le> length (filter (\<lambda>j. j \<notin> set (concat ncbs)) fl)" by simp
    moreover have "length ?ev = sum_list (map (evictable p) ncbs)" by (induction ncbs) (simp_all add: evictable_def)
    ultimately show ?thesis unfolding pool_rep_num [OF fl] pool_rep_num [OF p'(2)] by linarith
  qed
  ultimately show ?thesis using p'(1,3-5) by blast
qed

end
