(* ===== verification/KV_Manager.thy ===== *)
theory KV_Manager
  imports KV_Coordinator
begin

text \<open>
  The KV cache manager, the scheduler's view of the cache:
  \<^verbatim>\<open>vllm/v1/core/kv_cache_manager.py\<close>, and the statistics it keeps
  (\<^verbatim>\<open>PrefixCacheStats\<close> of \<^verbatim>\<open>vllm/v1/metrics/stats.py\<close>).

  A \<^verbatim>\<open>KVCacheBlocks\<close> object is a list of block lists, one per group.  The manager
  compares such objects by identity with its own pre-built empty one, which is therefore a
  constructor of its own.
\<close>

section \<open>State\<close>

datatype kv_blocks = EmptyKVCacheBlocks | KVCacheBlocks "nat list list"

record prefix_cache_stats =
  ps_reset :: bool
  ps_requests :: int
  ps_queries :: int
  ps_hits :: int
  ps_preempted_requests :: int
  ps_preempted_queries :: int
  ps_preempted_hits :: int

record kv_cache_manager =
  km_max_model_len :: int
  km_enable_caching :: bool
  km_log_stats :: bool
  km_stats :: "prefix_cache_stats option"
  km_coord :: kv_coordinator
  num_kv_cache_groups :: nat

abbreviation km_pool :: "kv_cache_manager \<Rightarrow> block_pool" where
  "km_pool k \<equiv> block_pool_of (km_coord k)"

abbreviation km_managers :: "kv_cache_manager \<Rightarrow> st_manager list" where
  "km_managers k \<equiv> single_type_managers (km_coord k)"

section \<open>KVCacheBlocks\<close>

definition blocks_of :: "kv_cache_manager \<Rightarrow> kv_blocks \<Rightarrow> nat list list" where
  "blocks_of k b = (case b of EmptyKVCacheBlocks \<Rightarrow> replicate (num_kv_cache_groups k) [] | KVCacheBlocks bs \<Rightarrow> bs)"

definition add_blocks :: "nat list list \<Rightarrow> nat list list \<Rightarrow> nat list list" where
  "add_blocks a b = map2 (@) a b"

definition get_block_ids_of :: "bool \<Rightarrow> nat list list \<Rightarrow> nat list list option" where
  "get_block_ids_of allow_none bs = (if allow_none \<and> list_all (\<lambda>g. g = []) bs then None else Some bs)"

definition get_unhashed_block_ids :: "block_pool \<Rightarrow> nat list list \<Rightarrow> nat list result" where
  "get_unhashed_block_ids p bs =
     rbind (rassert (length bs = 1)) (\<lambda>_. Inr (filter (\<lambda>i. bhash p i = None) (hd bs)))"

definition create_kv_cache_blocks :: "nat list list \<Rightarrow> kv_blocks" where
  "create_kv_cache_blocks bs = (if list_ex (\<lambda>g. g \<noteq> []) bs then KVCacheBlocks bs else EmptyKVCacheBlocks)"

section \<open>Statistics\<close>

definition new_prefix_cache_stats :: prefix_cache_stats where
  "new_prefix_cache_stats = \<lparr>ps_reset = False, ps_requests = 0, ps_queries = 0, ps_hits = 0,
     ps_preempted_requests = 0, ps_preempted_queries = 0, ps_preempted_hits = 0\<rparr>"

definition stats_record :: "int \<Rightarrow> int \<Rightarrow> bool \<Rightarrow> prefix_cache_stats \<Rightarrow> prefix_cache_stats" where
  "stats_record num_toks num_hits preempted s =
     (if preempted then
        s\<lparr>ps_preempted_requests := ps_preempted_requests s + 1,
          ps_preempted_queries := ps_preempted_queries s + num_toks,
          ps_preempted_hits := ps_preempted_hits s + num_hits\<rparr>
      else
        s\<lparr>ps_requests := ps_requests s + 1,
          ps_queries := ps_queries s + num_toks,
          ps_hits := ps_hits s + num_hits\<rparr>)"

section \<open>Operations\<close>

definition kv_cache_manager_init ::
  "kv_cache_config \<Rightarrow> int \<Rightarrow> nat \<Rightarrow> bool \<Rightarrow> bool \<Rightarrow> bool \<Rightarrow> bool \<Rightarrow> bool \<Rightarrow> nat \<Rightarrow> nat \<Rightarrow> kv_cache_manager result" where
  "kv_cache_manager_init cfg max_len hash_bs caching use_eagle log_stats kv_events use_int dcp pcp =
     rbind (get_kv_cache_coordinator cfg use_eagle caching kv_events use_int dcp pcp hash_bs) (\<lambda>c.
       Inr \<lparr>km_max_model_len = max_len, km_enable_caching = caching, km_log_stats = log_stats,
            km_stats = (if log_stats then Some new_prefix_cache_stats else None),
            km_coord = c, num_kv_cache_groups = length (kv_cache_groups cfg)\<rparr>)"

definition usage :: "kv_cache_manager \<Rightarrow> real" where
  "usage k = get_usage (km_pool k)"

definition make_prefix_cache_stats :: "kv_cache_manager \<Rightarrow> prefix_cache_stats option \<times> kv_cache_manager" where
  "make_prefix_cache_stats k =
     (if \<not> km_log_stats k then (None, k) else (km_stats k, k\<lparr>km_stats := Some new_prefix_cache_stats\<rparr>))"

definition get_computed_blocks :: "request \<Rightarrow> kv_cache_manager \<Rightarrow> (kv_blocks \<times> nat \<times> kv_cache_manager) result" where
  "get_computed_blocks r k =
     (if \<not> km_enable_caching k \<or> skip_reading_prefix_cache r then Inr (EmptyKVCacheBlocks, 0, k)
      else
        let max_cache_hit_length = int (num_tokens r) - 1 in
        rbind (coord_find_longest_cache_hit (block_hashes r) max_cache_hit_length (km_coord k)) (\<lambda>(blocks, n).
        rbind (if km_log_stats k
               then (case km_stats k of
                       None \<Rightarrow> Inl AssertionError
                     | Some s \<Rightarrow> Inr (k\<lparr>km_stats := Some (stats_record (int (num_tokens r)) (int n) (0 < num_preemptions r) s)\<rparr>))
               else Inr k) (\<lambda>k1.
          Inr (create_kv_cache_blocks blocks, n, k1))))"

text \<open>The part of \<^verbatim>\<open>allocate_slots\<close> after the check for free blocks.\<close>

definition commit_slots ::
  "request \<Rightarrow> kv_blocks \<Rightarrow> int \<Rightarrow> int \<Rightarrow> int \<Rightarrow> bool \<Rightarrow> kv_cache_manager \<Rightarrow> (kv_blocks \<times> kv_cache_manager) result" where
  "commit_slots r ncb num_tokens_need_slot num_encoder_tokens num_tokens_to_cache delay_cache_blocks k =
     (let ncbs = blocks_of k ncb; c = km_coord k in
      rbind (if km_enable_caching k
             then rbind (touch ncbs (block_pool_of c)) (\<lambda>p. Inr (c\<lparr>block_pool_of := p\<rparr>))
             else rbind (rassert (\<not> list_ex (\<lambda>g. g \<noteq> []) ncbs)) (\<lambda>_. Inr c)) (\<lambda>c1.
      rbind (if ncb \<noteq> EmptyKVCacheBlocks then coord_save_new_computed_blocks (request_id r) ncbs c1 else Inr c1) (\<lambda>c2.
      rbind (coord_allocate_new_blocks (request_id r) num_tokens_need_slot num_encoder_tokens c2) (\<lambda>(new_blocks, c3).
      if \<not> km_enable_caching k \<or> delay_cache_blocks
      then Inr (create_kv_cache_blocks new_blocks, k\<lparr>km_coord := c3\<rparr>)
      else
        rbind (coord_cache_blocks r (nat num_tokens_to_cache) c3) (\<lambda>c4.
          Inr (create_kv_cache_blocks new_blocks, k\<lparr>km_coord := c4\<rparr>))))))"

definition allocate_slots ::
  "request \<Rightarrow> int \<Rightarrow> int \<Rightarrow> kv_blocks option \<Rightarrow> int \<Rightarrow> bool \<Rightarrow> int \<Rightarrow> kv_cache_manager \<Rightarrow>
   (kv_blocks option \<times> kv_cache_manager) result" where
  "allocate_slots r num_new_tokens num_new_computed_tokens new_computed_blocks num_lookahead_tokens
     delay_cache_blocks num_encoder_tokens k =
     (if num_new_tokens = 0 then Inl ValueError
      else
        let ncb = (case new_computed_blocks of Some b \<Rightarrow> b | None \<Rightarrow> EmptyKVCacheBlocks) in
        rbind (coord_remove_skipped_blocks (request_id r) (num_computed_tokens r) (km_coord k)) (\<lambda>c1.
        let computed = num_computed_tokens r + num_new_computed_tokens;
            num_tokens_need_slot = min (computed + num_new_tokens + num_lookahead_tokens) (km_max_model_len k) in
        rbind (coord_num_blocks_to_allocate (request_id r) num_tokens_need_slot (blocks_of k ncb) num_encoder_tokens c1)
          (\<lambda>(num_blocks_to_allocate, c2).
          if get_num_free_blocks (block_pool_of c2) < num_blocks_to_allocate
          then Inr (None, k\<lparr>km_coord := c2\<rparr>)
          else
            rbind (commit_slots r ncb num_tokens_need_slot num_encoder_tokens
                     (min (computed + num_new_tokens) (int (num_tokens r))) delay_cache_blocks (k\<lparr>km_coord := c2\<rparr>))
              (\<lambda>(b, k'). Inr (Some b, k')))))"

definition km_free :: "request \<Rightarrow> kv_cache_manager \<Rightarrow> kv_cache_manager result" where
  "km_free r k = rbind (coord_free (request_id r) (km_coord k)) (\<lambda>c. Inr (k\<lparr>km_coord := c\<rparr>))"

definition km_evict_blocks :: "nat list \<Rightarrow> kv_cache_manager \<Rightarrow> kv_cache_manager result" where
  "km_evict_blocks ids k =
     rbind (evict_blocks ids (km_pool k)) (\<lambda>p. Inr (k\<lparr>km_coord := (km_coord k)\<lparr>block_pool_of := p\<rparr>\<rparr>))"

definition km_reset_prefix_cache :: "kv_cache_manager \<Rightarrow> (bool \<times> kv_cache_manager) result" where
  "km_reset_prefix_cache k =
     (case reset_prefix_cache (km_pool k) of
        (ok, p) \<Rightarrow>
          let k1 = k\<lparr>km_coord := (km_coord k)\<lparr>block_pool_of := p\<rparr>\<rparr> in
          if \<not> ok then Inr (False, k1)
          else if km_log_stats k1
          then (case km_stats k1 of
                  None \<Rightarrow> Inl AssertionError
                | Some s \<Rightarrow> Inr (True, k1\<lparr>km_stats := Some (s\<lparr>ps_reset := True\<rparr>)\<rparr>))
          else Inr (True, k1))"

definition km_num_common_prefix_blocks :: "string \<Rightarrow> kv_cache_manager \<Rightarrow> nat list \<times> kv_cache_manager" where
  "km_num_common_prefix_blocks rid k =
     (case coord_num_common_prefix_blocks rid (km_coord k) of (ns, c) \<Rightarrow> (ns, k\<lparr>km_coord := c\<rparr>))"

definition km_take_events :: "kv_cache_manager \<Rightarrow> kv_cache_event list \<times> kv_cache_manager" where
  "km_take_events k =
     (case take_kv_events (km_pool k) of (es, p) \<Rightarrow> (es, k\<lparr>km_coord := (km_coord k)\<lparr>block_pool_of := p\<rparr>\<rparr>))"

definition km_get_blocks :: "string \<Rightarrow> kv_cache_manager \<Rightarrow> kv_blocks" where
  "km_get_blocks rid k = create_kv_cache_blocks (coord_get_blocks rid (km_coord k))"

definition km_get_block_ids :: "string \<Rightarrow> kv_cache_manager \<Rightarrow> nat list list" where
  "km_get_block_ids rid k = blocks_of k (km_get_blocks rid k)"

definition km_cache_blocks :: "request \<Rightarrow> nat \<Rightarrow> kv_cache_manager \<Rightarrow> kv_cache_manager result" where
  "km_cache_blocks r num_computed k =
     (if km_enable_caching k
      then rbind (coord_cache_blocks r num_computed (km_coord k)) (\<lambda>c. Inr (k\<lparr>km_coord := c\<rparr>))
      else Inr k)"


section \<open>Allocation keeps the ownership invariant\<close>

text \<open>What a manager still needs beside the computed blocks.\<close>

definition need_of :: "string \<Rightarrow> int \<Rightarrow> int \<Rightarrow> nat list \<times> st_manager \<Rightarrow> int" where
  "need_of rid t enc e = blocks_needed (snd e) rid (toks_for t enc (snd e)) - int (length (fst e))"

text \<open>No manager has spare blocks while another one lacks some.\<close>

definition one_sign :: "int list \<Rightarrow> bool" where
  "one_sign xs \<longleftrightarrow> (\<forall>x \<in> set xs. 0 \<le> x) \<or> (\<forall>x \<in> set xs. x \<le> 0)"

lemma one_sign_sum: "one_sign xs \<Longrightarrow> int (sum_list (map nat xs)) = max 0 (sum_list xs)"
proof -
  assume "one_sign xs"
  then consider "\<forall>x \<in> set xs. 0 \<le> x" | "\<forall>x \<in> set xs. x \<le> 0" by (auto simp: one_sign_def)
  then show ?thesis
  proof cases
    case 1
    then have "int (sum_list (map nat xs)) = sum_list xs" "0 \<le> sum_list xs" by (induction xs) auto
    then show ?thesis by simp
  next
    case 2
    then have "sum_list (map nat xs) = 0" "sum_list xs \<le> 0" by (induction xs) auto
    then show ?thesis by simp
  qed
qed

lemma blocks_needed_same:
  "same_mgr m m' \<Longrightarrow> length (table m' rid) = length (table m rid) \<Longrightarrow>
   blocks_needed m' rid (toks_for t enc m') = blocks_needed m rid (toks_for t enc m)"
  by (simp add: blocks_needed_def toks_for_def same_mgr_def)

lemma total_need_extended:
  assumes "list_all2 (extended rid) ms (zip ncbs ms')" "length ncbs = length ms" "length ms' = length ms"
  shows "total_need rid t enc ms' = sum_list (map nat (map (need_of rid t enc) (zip ncbs ms)))"
  using assms
proof (induction ms arbitrary: ncbs ms')
  case (Cons m ms)
  then obtain ncb ncbs1 m' ms1 where e: "ncbs = ncb # ncbs1" "ms' = m' # ms1"
    by (metis Suc_length_conv length_Cons)
  with Cons.prems have x: "extended rid m (ncb, m')" by simp
  have "blocks_needed m' rid (toks_for t enc m') = need_of rid t enc (ncb, m)"
    using x by (simp add: extended_def need_of_def blocks_needed_def toks_for_def same_mgr_def)
  moreover have "total_need rid t enc ms1 = sum_list (map nat (map (need_of rid t enc) (zip ncbs1 ms)))"
    using Cons.IH [of ncbs1 ms1] Cons.prems e by simp
  ultimately show ?case by (simp add: e total_need_def)
qed (simp add: total_need_def)

lemma estimate_sum:
  "length ncbs = length ms \<Longrightarrow> sum_list (map (estimate p rid t enc) (zip ncbs ms)) =
     sum_list (map (need_of rid t enc) (zip ncbs ms)) + int (sum_list (map (evictable p) ncbs))"
proof (induction ncbs arbitrary: ms)
  case (Cons ncb ncbs)
  then obtain m ms1 where "ms = m # ms1" by (metis length_Suc_conv)
  with Cons show ?case by (simp add: estimate_def need_of_def)
qed simp

text \<open>What caching asks of the managers, whatever their tables.\<close>

definition can_cache :: "request \<Rightarrow> block_pool \<Rightarrow> st_manager \<Rightarrow> bool" where
  "can_cache r p m \<longleftrightarrow> \<not> enable_kv_cache_events p \<and> 0 < hash_block_size p \<and> hash_block_size p dvd st_block_size m \<and>
     \<not> is_cross_attention (st_spec m) \<and> kv_cache_group_id m < 2 ^ 32 \<and>
     length (block_hashes r) = num_tokens r div hash_block_size p"

definition computed_ok :: "block_pool \<Rightarrow> string \<Rightarrow> kv_blocks \<Rightarrow> nat list list \<Rightarrow> st_manager list \<Rightarrow> bool" where
  "computed_ok p rid ncb ncbs ms \<longleftrightarrow> length ncbs = length ms \<and>
     (if ncb = EmptyKVCacheBlocks then \<forall>g \<in> set ncbs. g = []
      else enable_caching p \<and> list_all2 (save_ok p rid) ncbs ms \<and> hit_blocks p ncbs)"

lemma save_ok_cong:
  assumes "save_ok p rid ncb m" "same_mgr m m'" "num_cached_block m' = num_cached_block m"
    "length (table m' rid) = length (table m rid)" "num_gpu_blocks p' = num_gpu_blocks p"
  shows "save_ok p' rid ncb m'"
proof -
  have "table m' rid = [] \<longleftrightarrow> table m rid = []" using assms(4) by (metis length_0_conv)
  with assms show ?thesis by (auto simp: save_ok_def same_mgr_def table_ok_def)
qed

text \<open>After the blocks are allocated, every manager has room for the tokens.\<close>

definition has_slots :: "string \<Rightarrow> int \<Rightarrow> int \<Rightarrow> st_manager \<Rightarrow> bool" where
  "has_slots rid t enc m \<longleftrightarrow> toks_for t enc m \<le> int (length (table m rid) * st_block_size m)"

lemma allocated_has_slots:
  assumes "allocated rid t enc m (nb, m')" "0 < st_block_size m"
  shows "has_slots rid t enc m'"
proof -
  let ?n = "mamba_num_tokens (st_spec m) (toks_for t enc m)"
  have m': "same_mgr m m'" "table m' rid = table m rid @ nb" "length nb = nat (blocks_needed m rid (toks_for t enc m))"
    using assms(1) by (auto simp: allocated_def extended_def)
  then have "cdiv ?n (int (st_block_size m)) \<le> int (length (table m' rid))"
    by (simp add: blocks_needed_def)
  then have "?n \<le> int (length (table m' rid)) * int (st_block_size m)" using assms(2) by (simp add: cdiv_least)
  moreover have "toks_for t enc m \<le> ?n" by (simp add: mamba_num_tokens_def split: layer_spec.splits)
  ultimately show ?thesis using m'(1) by (simp add: has_slots_def same_mgr_def toks_for_def)
qed

lemma div_le_slots:
  fixes t n b :: nat
  assumes "0 < b" "int t \<le> int (n * b)"
  shows "t div b \<le> n"
proof -
  have "t \<le> n * b" using assms(2) by (simp only: of_nat_le_iff)
  with assms(1) div_le_mono [of t "n * b" b] show ?thesis by simp
qed

lemma list_all2_memD: "list_all2 R xs ys \<Longrightarrow> y \<in> set ys \<Longrightarrow> \<exists>x \<in> set xs. R x y"
  by (induction xs ys rule: list_all2_induct) auto

lemma list_all2_zip_set:
  "list_all2 R xs (zip ys zs) \<Longrightarrow> length ys = length xs \<Longrightarrow> length zs = length xs \<Longrightarrow> z \<in> set zs \<Longrightarrow>
   \<exists>x \<in> set xs. \<exists>y \<in> set ys. R x (y, z)"
proof (induction xs arbitrary: ys zs)
  case (Cons x xs)
  then obtain y ys' z' zs' where "ys = y # ys'" "zs = z' # zs'" by (metis Suc_length_conv length_Cons)
  with Cons show ?case by fastforce
qed simp

text \<open>
  The state after a successful allocation: the invariant holds, the request has its slots in
  every manager, the other requests' tables are as before, and the new blocks are owned by
  this request alone.
\<close>

definition slots_result :: "request \<Rightarrow> int \<Rightarrow> int \<Rightarrow> kv_cache_manager \<Rightarrow> kv_blocks \<Rightarrow> kv_cache_manager \<Rightarrow> bool" where
  "slots_result r t enc k b k' \<longleftrightarrow>
     kv_inv (\<lambda>_. 0) (km_managers k') (km_pool k') \<and>
     (\<forall>m \<in> set (km_managers k'). has_slots (request_id r) t enc m) \<and>
     list_all2 (\<lambda>m m'. same_mgr m m' \<and> (\<forall>rid. rid \<noteq> request_id r \<longrightarrow> table m' rid = table m rid)) (km_managers k) (km_managers k') \<and>
     (\<forall>i \<in> set (concat (blocks_of k b)). refc (km_pool k') i = 1) \<and>
     km_max_model_len k' = km_max_model_len k \<and> km_enable_caching k' = km_enable_caching k \<and>
     num_kv_cache_groups k' = num_kv_cache_groups k \<and> pool_cfg (km_pool k') = pool_cfg (km_pool k)"

lemma touch_and_save:
  assumes "kv_inv (\<lambda>_. 0) ms p" "computed_ok p rid ncb ncbs ms" "caching = enable_caching p"
  shows "\<exists>p1 ms1. (if caching then touch ncbs p else rbind (rassert (\<not> list_ex (\<lambda>g. g \<noteq> []) ncbs)) (\<lambda>_. Inr p)) = Inr p1 \<and>
    (if ncb \<noteq> EmptyKVCacheBlocks then save_loop rid ncbs 0 ms else Inr ms) = Inr ms1 \<and>
    kv_inv (\<lambda>_. 0) ms1 p1 \<and> list_all2 (extended rid) ms (zip ncbs ms1) \<and> length ms1 = length ms \<and> pool_cfg p1 = pool_cfg p \<and>
    get_num_free_blocks p - int (sum_list (map (evictable p) ncbs)) \<le> get_num_free_blocks p1"
proof (cases "ncb = EmptyKVCacheBlocks")
  case True
  then have e: "\<forall>g \<in> set ncbs. g = []" "length ncbs = length ms" using assms(2) by (auto simp: computed_ok_def)
  have "concat ncbs = []" using e(1) by simp
  then have "touch ncbs p = Inr p" unfolding touch_concat by (simp only: rfold.simps)
  moreover have "list_all2 (extended rid) ms (zip ncbs ms)"
    using e by (auto simp: list_all2_conv_all_nth extended_def same_mgr_def)
  ultimately show ?thesis using True e assms(1) by (auto simp: list_ex_iff)
next
  case False
  then have c: "enable_caching p" "list_all2 (save_ok p rid) ncbs ms" "hit_blocks p ncbs" "length ncbs = length ms"
    using assms(2) by (auto simp: computed_ok_def)
  from touch_inv [OF assms(1) c(1,3)] obtain p1 where p1: "touch ncbs p = Inr p1"
      "kv_inv (\<lambda>i. 0 + count_list (concat ncbs) i) ([] @ ms) p1" "pool_cfg p1 = pool_cfg p"
      "get_num_free_blocks p - int (sum_list (map (evictable p) ncbs)) \<le> get_num_free_blocks p1" by auto
  have "list_all2 (save_ok p1 rid) ncbs ms"
    using c(2) by (rule list_all2_mono) (simp add: save_ok_def table_ok_def pool_cfgD(1) [OF p1(3)])
  from save_loop_inv [OF p1(2) this, of "[]"] obtain ms1 where "save_loop rid ncbs 0 ms = Inr ms1" "kv_inv (\<lambda>_. 0) ms1 p1"
      "list_all2 (extended rid) ms (zip ncbs ms1)" "length ms1 = length ms" by auto
  with False c(1) assms(3) p1 show ?thesis by auto
qed

lemma commit_slots_spec:
  assumes inv: "kv_inv (\<lambda>_. 0) (km_managers k) (km_pool k)"
    and cach: "km_enable_caching k = enable_caching (km_pool k)"
    and comp: "computed_ok (km_pool k) (request_id r) ncb (blocks_of k ncb) (km_managers k)"
    and sign: "one_sign (map (need_of (request_id r) t enc) (zip (blocks_of k ncb) (km_managers k)))"
    and free: "sum_list (map (estimate (km_pool k) (request_id r) t enc) (zip (blocks_of k ncb) (km_managers k))) \<le> get_num_free_blocks (km_pool k)"
    and cc: "enable_caching (km_pool k) \<Longrightarrow> \<not> delay \<Longrightarrow> \<forall>m \<in> set (km_managers k). can_cache r (km_pool k) m"
    and tc: "tc \<le> t" "tc \<le> int (num_tokens r)"
  shows "\<exists>b k'. commit_slots r ncb t enc tc delay k = Inr (b, k') \<and> slots_result r t enc k b k'"
proof -
  let ?rid = "request_id r" and ?ncbs = "blocks_of k ncb" and ?ms = "km_managers k" and ?p = "km_pool k"
  obtain p1 ms1 where s: "(if km_enable_caching k then touch ?ncbs ?p else rbind (rassert (\<not> list_ex (\<lambda>g. g \<noteq> []) ?ncbs)) (\<lambda>_. Inr ?p)) = Inr p1"
      "(if ncb \<noteq> EmptyKVCacheBlocks then save_loop ?rid ?ncbs 0 ?ms else Inr ?ms) = Inr ms1"
      "kv_inv (\<lambda>_. 0) ([] @ ms1) p1" "list_all2 (extended ?rid) ?ms (zip ?ncbs ms1)" "length ms1 = length ?ms"
      "pool_cfg p1 = pool_cfg ?p" "get_num_free_blocks ?p - int (sum_list (map (evictable ?p) ?ncbs)) \<le> get_num_free_blocks p1"
    using touch_and_save [OF inv comp cach] by auto
  have len: "length ?ncbs = length ?ms" using comp by (simp add: computed_ok_def)
  have "int (total_need ?rid t enc ms1) = max 0 (sum_list (map (need_of ?rid t enc) (zip ?ncbs ?ms)))"
    unfolding total_need_extended [OF s(4) len s(5)] by (rule one_sign_sum [OF sign])
  moreover have "sum_list (map (need_of ?rid t enc) (zip ?ncbs ?ms)) \<le> get_num_free_blocks p1"
    using free s(7) estimate_sum [OF len, of ?p ?rid t enc] by simp
  moreover have "0 \<le> get_num_free_blocks p1" using s(3) by (auto simp: kv_inv_def pool_inv_def pool_rep_num)
  ultimately have need: "int (total_need ?rid t enc ms1) \<le> get_num_free_blocks p1" by simp
  obtain nbs ms2 p2 where a: "allocate_loop ?rid t enc ms1 p1 = Inr (nbs, ms2, p2)" "kv_inv (\<lambda>_. 0) ms2 p2" "pool_cfg p2 = pool_cfg p1"
      "list_all2 (allocated ?rid t enc) ms1 (zip nbs ms2)" "length nbs = length ms1" "length ms2 = length ms1"
      "\<forall>i \<in> set (concat nbs). refc p2 i = 1"
    using allocate_loop_inv [OF s(3) need] by auto
  have slots: "has_slots ?rid t enc m2" if m2: "m2 \<in> set ms2" for m2
  proof -
    obtain m1 nb where "m1 \<in> set ms1" "allocated ?rid t enc m1 (nb, m2)"
      using list_all2_zip_set [OF a(4,5,6) m2] by blast
    moreover from this have "0 < st_block_size m1" using s(3) by (auto simp: kv_inv_def st_wf_def)
    ultimately show ?thesis by (intro allocated_has_slots)
  qed
  have same: "list_all2 (\<lambda>m m'. same_mgr m m' \<and> (\<forall>rid. rid \<noteq> ?rid \<longrightarrow> table m' rid = table m rid)) ?ms ms2"
    using s(4,5) a(4,5,6) len
    by (auto simp: list_all2_conv_all_nth allocated_def extended_def same_mgr_def)
  have cfg2: "pool_cfg p2 = pool_cfg ?p" using a(3) s(6) by simp
  let ?c = "km_coord k"
  let ?b = "create_kv_cache_blocks nbs"
  have "set (concat (blocks_of k ?b)) \<subseteq> set (concat nbs)"
    by (auto simp: blocks_of_def create_kv_cache_blocks_def split: if_splits)
  then have own: "\<forall>i \<in> set (concat (blocks_of k ?b)). refc p2 i = 1" using a(7) by blast
  have upto: "commit_slots r ncb t enc tc delay k =
      (if \<not> km_enable_caching k \<or> delay then Inr (?b, k\<lparr>km_coord := ?c\<lparr>single_type_managers := ms2, block_pool_of := p2\<rparr>\<rparr>)
       else rbind (coord_cache_blocks r (nat tc) (?c\<lparr>single_type_managers := ms2, block_pool_of := p2\<rparr>)) (\<lambda>c4.
         Inr (?b, k\<lparr>km_coord := c4\<rparr>)))"
    using s(1,2) a(1)
    by (auto simp: commit_slots_def Let_def coord_save_new_computed_blocks_def coord_allocate_new_blocks_def
        result_simps split: if_splits)
  show ?thesis
  proof (cases "\<not> km_enable_caching k \<or> delay")
    case True
    then show ?thesis unfolding upto using a(2) slots same cfg2 own
      by (auto simp: slots_result_def)
  next
    case False
    then have caching: "enable_caching ?p" "\<not> delay" using cach by simp_all
    have ok: "cache_ok r (nat tc) (pool_cfg p2) m2" if m2: "m2 \<in> set ms2" for m2
    proof -
      obtain m where m: "m \<in> set ?ms" "same_mgr m m2" using list_all2_memD [OF same m2] by blast
      have c: "can_cache r ?p m" using cc [OF caching] m(1) by blast
      have b: "0 < st_block_size m2" using a(2) m2 by (auto simp: kv_inv_def st_wf_def)
      have cr: "\<not> is_cross_attention (st_spec m2)" using c m(2) by (simp add: can_cache_def same_mgr_def)
      have "int (nat tc) \<le> int (length (table m2 ?rid) * st_block_size m2)"
        using slots [OF m2] tc(1) cr by (auto simp: has_slots_def toks_for_def)
      then have d: "nat tc div st_block_size m2 \<le> length (table m2 ?rid)" by (rule div_le_slots [OF b])
      have "num_tokens r < (num_tokens r div hash_block_size ?p + 1) * hash_block_size ?p"
        using c by (intro block_end_gt) (simp_all add: can_cache_def)
      then have "nat tc \<le> length (block_hashes r) * hash_block_size ?p + hash_block_size ?p - 1"
        using tc(2) c by (simp add: can_cache_def)
      with c d cr m(2) caching(1) show ?thesis
        unfolding cache_ok_def cfg2 by (simp add: pool_cfg_def can_cache_def same_mgr_def)
    qed
    from coord_cache_loop [OF a(2)] ok obtain ms3 p3 where l: "managers_loop (cache_blocks r (nat tc)) ms2 p2 = Inr (ms3, p3)"
        "kv_inv (\<lambda>_. 0) ms3 p3" "pool_cfg p3 = pool_cfg p2" "\<forall>i. refc p3 i = refc p2 i"
        "list_all2 (\<lambda>m m'. same_mgr m m' \<and> table m' = table m) ms2 ms3"
      by (fastforce intro: list_all2_mono)
    have slots3: "has_slots ?rid t enc m3" if m3: "m3 \<in> set ms3" for m3
    proof -
      obtain m2 where "m2 \<in> set ms2" "same_mgr m2 m3" "table m3 = table m2" using list_all2_memD [OF l(5) m3] by blast
      with slots [of m2] show ?thesis by (simp add: has_slots_def same_mgr_def toks_for_def)
    qed
    have same3: "list_all2 (\<lambda>m m'. same_mgr m m' \<and> (\<forall>rid. rid \<noteq> ?rid \<longrightarrow> table m' rid = table m rid)) ?ms ms3"
      using same l(5) by (auto simp: list_all2_conv_all_nth same_mgr_def)
    show ?thesis unfolding upto using False l slots3 same3 cfg2 own
      by (auto simp: slots_result_def coord_cache_blocks_def over_managers_def)
  qed
qed


text \<open>
  The contract of \<^verbatim>\<open>allocate_slots\<close>, a promise of its caller and not a fact about the scheduler's calls: there are
  new tokens, within the
  model's length; skipped tokens lie within the (cached) blocks of the request; computed
  blocks come from a cache hit and only for a request without blocks; no manager has spare
  blocks while another lacks some; with prefix caching the request's hashes are those of its full blocks, and there is no
  cross attention and no log of KV cache events. A decoding step of an encoder-decoder model may break the condition on
  spare blocks.
\<close>

definition alloc_args :: "request \<Rightarrow> int \<Rightarrow> int \<Rightarrow> kv_blocks \<Rightarrow> int \<Rightarrow> bool \<Rightarrow> int \<Rightarrow> kv_cache_manager \<Rightarrow> bool" where
  "alloc_args r new newc ncb look delay enc k \<longleftrightarrow>
     (let ms = km_managers k; p = km_pool k; rid = request_id r; ncbs = blocks_of k ncb;
          t = min (num_computed_tokens r + newc + new + look) (km_max_model_len k) in
      new \<noteq> 0 \<and> 0 \<le> look \<and>
      num_computed_tokens r + newc + new \<le> km_max_model_len k \<and>
      (\<forall>m \<in> set ms. skip_ok (enable_caching p) rid (num_computed_tokens r) m) \<and>
      computed_ok p rid ncb ncbs ms \<and>
      (ncb = EmptyKVCacheBlocks \<or> list_all2 (\<lambda>ncb m. is_cross_attention (st_spec m) \<longrightarrow> ncb = []) ncbs ms) \<and>
      one_sign (map (need_of rid t enc) (zip ncbs ms)) \<and>
      (enable_caching p \<and> \<not> delay \<longrightarrow> (\<forall>m \<in> set ms. can_cache r p m)))"

definition alloc_pre :: "request \<Rightarrow> int \<Rightarrow> int \<Rightarrow> kv_blocks \<Rightarrow> int \<Rightarrow> bool \<Rightarrow> int \<Rightarrow> kv_cache_manager \<Rightarrow> bool" where
  "alloc_pre r new newc ncb look delay enc k \<longleftrightarrow>
     kv_inv (\<lambda>_. 0) (km_managers k) (km_pool k) \<and> km_enable_caching k = enable_caching (km_pool k) \<and>
     alloc_args r new newc ncb look delay enc k"

definition need_slots :: "request \<Rightarrow> int \<Rightarrow> int \<Rightarrow> int \<Rightarrow> kv_cache_manager \<Rightarrow> int" where
  "need_slots r new newc look k = min (num_computed_tokens r + newc + new + look) (km_max_model_len k)"

text \<open>The relation between the managers before and after the skipped blocks are removed and counted.\<close>

definition kept :: "string \<Rightarrow> st_manager \<Rightarrow> st_manager \<Rightarrow> bool" where
  "kept rid m m' \<longleftrightarrow> same_mgr m m' \<and> num_cached_block m' = num_cached_block m \<and>
     length (table m' rid) = length (table m rid) \<and> (\<forall>rid'. rid' \<noteq> rid \<longrightarrow> table m' rid' = table m rid')"

lemma kept_unchanged:
  assumes "list_all2 (kept rid) ms ms1" "list_all2 unchanged ms1 ms2"
  shows "list_all2 (kept rid) ms ms2"
  using assms by (auto simp: list_all2_conv_all_nth kept_def unchanged_def same_mgr_def)

lemma kept_needs:
  assumes "list_all2 (kept rid) ms ms'" "length ncbs = length ms"
  shows "map (need_of rid t enc) (zip ncbs ms') = map (need_of rid t enc) (zip ncbs ms)"
  using assms
proof (induction ms ms' arbitrary: ncbs rule: list_all2_induct)
  case (Cons m ms m' ms')
  then obtain ncb ncbs' where "ncbs = ncb # ncbs'" by (metis length_Suc_conv)
  with Cons blocks_needed_same [of m m' rid t enc] show ?case by (simp add: need_of_def kept_def)
qed simp

lemma kept_computed_ok:
  assumes "list_all2 (kept rid) ms ms'" "computed_ok p rid ncb ncbs ms" "pool_cfg p' = pool_cfg p" "\<forall>i. bhash p' i = bhash p i"
  shows "computed_ok p' rid ncb ncbs ms'"
proof -
  note cfg = pool_cfgD [OF assms(3)]
  have "list_all2 (save_ok p' rid) ncbs ms'" if "list_all2 (save_ok p rid) ncbs ms"
    using that assms(1) save_ok_cong [OF _ _ _ _ cfg(1)] by (auto simp: list_all2_conv_all_nth kept_def)
  then show ?thesis
    using assms(1,2,4) cfg by (auto simp: computed_ok_def hit_blocks_def dest: list_all2_lengthD)
qed

lemma kept_can_cache:
  assumes "list_all2 (kept rid) ms ms'" "\<forall>m \<in> set ms. can_cache r p m" "pool_cfg p' = pool_cfg p"
  shows "\<forall>m \<in> set ms'. can_cache r p' m"
proof
  fix m' assume "m' \<in> set ms'"
  from list_all2_memD [OF assms(1) this] obtain m where "m \<in> set ms" "kept rid m m'" by blast
  with assms(2) show "can_cache r p' m'"
    by (simp add: can_cache_def kept_def same_mgr_def pool_cfgD(3,5) [OF assms(3)])
qed

lemma allocate_slots_total:
  assumes pre: "alloc_pre r new newc ncb look delay enc k"
  defines "t \<equiv> need_slots r new newc look k"
  shows "\<exists>res k'. allocate_slots r new newc (Some ncb) look delay enc k = Inr (res, k') \<and>
    kv_inv (\<lambda>_. 0) (km_managers k') (km_pool k') \<and>
    (case res of
       None \<Rightarrow> list_all2 (kept (request_id r)) (km_managers k) (km_managers k') \<and>
         get_num_free_blocks (km_pool k') < sum_list (map (estimate (km_pool k') (request_id r) t enc) (zip (blocks_of k ncb) (km_managers k')))
     | Some b \<Rightarrow> slots_result r t enc k b k')"
proof -
  let ?rid = "request_id r" and ?ncbs = "blocks_of k ncb" and ?c = "num_computed_tokens r"
  let ?ms = "km_managers k" and ?p = "km_pool k"
  note P = pre [unfolded alloc_pre_def alloc_args_def Let_def, folded need_slots_def, folded t_def]
  from coord_skip_loop [of "\<lambda>_. 0" ?ms ?p ?rid ?c] P obtain ms1 p1 where s1:
      "managers_loop (remove_skipped_blocks ?rid ?c) ?ms ?p = Inr (ms1, p1)" "kv_inv (\<lambda>_. 0) ms1 p1" "pool_cfg p1 = pool_cfg ?p"
      "list_all2 (kept ?rid) ?ms ms1" "\<forall>i. bhash p1 i = bhash ?p i"
    unfolding kept_def by auto
  have len: "length ?ncbs = length ?ms" "length ms1 = length ?ms"
    using P list_all2_lengthD [OF s1(4)] by (auto simp: computed_ok_def)
  have cross: "list_all2 (\<lambda>ncb m. is_cross_attention (st_spec m) \<longrightarrow> ncb = []) ?ncbs ms1"
  proof (cases "ncb = EmptyKVCacheBlocks")
    case True
    then have "\<forall>g \<in> set ?ncbs. g = []" using P by (auto simp: computed_ok_def)
    with len show ?thesis by (auto simp: list_all2_conv_all_nth)
  next
    case False
    then have "list_all2 (\<lambda>ncb m. is_cross_attention (st_spec m) \<longrightarrow> ncb = []) ?ncbs ?ms" using P by blast
    with s1(4) show ?thesis by (auto simp: list_all2_conv_all_nth kept_def same_mgr_def)
  qed
  have bs: "\<forall>m \<in> set ms1. 0 < st_block_size m" using s1(2) by (auto simp: kv_inv_def st_wf_def)
  obtain ms2 where s2: "num_blocks_loop p1 ?rid t ?ncbs enc 0 ms1 =
      Inr (sum_list (map (estimate p1 ?rid t enc) (zip ?ncbs ms1)), ms2)" "list_all2 unchanged ms1 ms2"
    using num_blocks_loop_unchanged [OF _ bs cross, of p1 ?rid t "[]" enc] len by auto
  have inv2: "kv_inv (\<lambda>_. 0) ms2 p1" by (rule kv_inv_unchanged [OF s1(2) s2(2)])
  have kept2: "list_all2 (kept ?rid) ?ms ms2" by (rule kept_unchanged [OF s1(4) s2(2)])
  have est: "map (estimate p1 ?rid t enc) (zip ?ncbs ms1) = map (estimate p1 ?rid t enc) (zip ?ncbs ms2)"
    using s2(2) len
    by (auto simp: list_eq_iff_nth_eq estimate_def list_all2_conv_all_nth unchanged_def same_mgr_def blocks_needed_def toks_for_def)
  define k2 where "k2 = k\<lparr>km_coord := (km_coord k)\<lparr>block_pool_of := p1, single_type_managers := ms2\<rparr>\<rparr>"
  have k2: "km_managers k2 = ms2" "km_pool k2 = p1" "blocks_of k2 = blocks_of k" "km_enable_caching k2 = km_enable_caching k"
      "km_max_model_len k2 = km_max_model_len k" "num_kv_cache_groups k2 = num_kv_cache_groups k"
    by (simp_all add: k2_def blocks_of_def fun_eq_iff split: kv_blocks.splits)
  let ?est = "sum_list (map (estimate p1 ?rid t enc) (zip ?ncbs ms2))"
  have upto: "allocate_slots r new newc (Some ncb) look delay enc k =
      (if get_num_free_blocks p1 < ?est then Inr (None, k2)
       else rbind (commit_slots r ncb t enc (min (?c + newc + new) (int (num_tokens r))) delay k2) (\<lambda>(b, k'). Inr (Some b, k')))"
    using P s1(1) s2(1)
    by (simp add: allocate_slots_def coord_remove_skipped_blocks_def over_managers_def coord_num_blocks_to_allocate_def
        k2_def est t_def [unfolded need_slots_def, symmetric])
  show ?thesis
  proof (cases "get_num_free_blocks p1 < ?est")
    case True
    with upto inv2 kept2 show ?thesis by (intro exI [of _ None] exI [of _ k2]) (simp add: k2)
  next
    case False
    have "one_sign (map (need_of ?rid t enc) (zip ?ncbs ms2))"
      using P unfolding kept_needs [OF kept2 len(1)] by (simp add: computed_ok_def)
    moreover have "computed_ok p1 ?rid ncb ?ncbs ms2"
      using P kept_computed_ok [OF kept2 _ s1(3,5)] by blast
    moreover have "min (?c + newc + new) (int (num_tokens r)) \<le> t"
    proof -
      have "0 \<le> look" "?c + newc + new \<le> km_max_model_len k" using P by blast+
      then show ?thesis unfolding t_def need_slots_def by linarith
    qed
    moreover have "enable_caching p1 \<Longrightarrow> \<not> delay \<Longrightarrow> \<forall>m \<in> set ms2. can_cache r p1 m"
      using P kept_can_cache [OF kept2 _ s1(3)] pool_cfgD(2) [OF s1(3)] by blast
    moreover have "km_enable_caching k = enable_caching p1" using P pool_cfgD(2) [OF s1(3)] by simp
    ultimately obtain b k' where b: "commit_slots r ncb t enc (min (?c + newc + new) (int (num_tokens r))) delay k2 = Inr (b, k')"
        "slots_result r t enc k2 b k'"
      using commit_slots_spec [of k2 r ncb t enc delay "min (?c + newc + new) (int (num_tokens r))"] inv2 False by (auto simp: k2)
    have "slots_result r t enc k b k'"
      using b(2) kept2 s1(3)
      by (auto simp: slots_result_def k2 list_all2_conv_all_nth kept_def same_mgr_def)
    with upto False b show ?thesis by (intro exI [of _ "Some b"] exI [of _ k']) (auto simp: slots_result_def)
  qed
qed


section \<open>Freeing, and the other operations\<close>

lemma km_free_inv:
  assumes "kv_inv (\<lambda>_. 0) (km_managers k) (km_pool k)"
  shows "\<exists>k'. km_free r k = Inr k' \<and> kv_inv (\<lambda>_. 0) (km_managers k') (km_pool k') \<and>
    list_all2 (\<lambda>m m'. same_mgr m m' \<and> table m' = (table m)(request_id r := []) \<and>
      map_of (num_cached_block m') = (map_of (num_cached_block m))(request_id r := None)) (km_managers k) (km_managers k') \<and>
    pool_cfg (km_pool k') = pool_cfg (km_pool k) \<and> (\<forall>i. bhash (km_pool k') i = bhash (km_pool k) i) \<and>
    km_enable_caching k' = km_enable_caching k"
  using coord_free_loop [OF assms, of "request_id r"]
  by (auto simp: km_free_def coord_free_def over_managers_def)

lemma kv_inv_evict:
  assumes "kv_inv F ms p" "set ids \<subseteq> {..<num_gpu_blocks p}"
  shows "\<exists>p'. evict_blocks ids p = Inr p' \<and> kv_inv F ms p' \<and> pool_cfg p' = pool_cfg p \<and>
    (\<forall>i. bhash p' i = (if i \<in> set ids then None else bhash p i)) \<and> (\<forall>i. refc p' i = refc p i)"
proof -
  obtain fl where fl: "pool_rep p fl {}" "bhash p 0 = None" using assms(1) by (auto simp: kv_inv_def pool_inv_def)
  from evict_blocks_rep [OF fl(1) assms(2) fl(2)] obtain p' where p': "evict_blocks ids p = Inr p'" "pool_rep p' fl {}"
      "pool_cfg p' = pool_cfg p" "\<forall>j. refc p' j = refc p j" "\<forall>j. bhash p' j = (if j \<in> set ids then None else bhash p j)" by blast
  note cfg = pool_cfgD [OF p'(3)]
  have "st_fresh p' m" if "st_fresh p m" for m
    using that p'(4,5) by (simp add: st_fresh_def fresh_from_def)
  then have "kv_inv F ms p'"
    using assms(1) p'(2,4,5) cfg st_wf_cfg [OF cfg(1)] by (auto simp: kv_inv_def pool_inv_def)
  with p' show ?thesis by blast
qed

lemma kv_inv_reset:
  assumes "kv_inv F ms p"
  shows "kv_inv F ms (snd (reset_prefix_cache p))"
proof -
  let ?p' = "snd (reset_prefix_cache p)"
  obtain fl where fl: "pool_rep p fl {}" using assms(1) by (auto simp: kv_inv_def pool_inv_def)
  have cfg: "pool_cfg ?p' = pool_cfg p"
    by (simp add: reset_prefix_cache_def Let_def pool_cfg_def emit_def)
  have ref: "refc ?p' i = refc p i" for i
    by (simp add: reset_prefix_cache_def Let_def pool_simps reset_fold_fields)
  have hash: "bhash p i = None \<Longrightarrow> bhash ?p' i = None" for i
    by (simp add: reset_prefix_cache_def Let_def pool_simps reset_fold_fields)
  have "st_fresh ?p' m" if "st_fresh p m" for m
    using that hash by (simp add: st_fresh_def fresh_from_def ref)
  then show ?thesis
    using assms reset_prefix_cache_rep(2) [OF fl] cfg pool_cfgD [OF cfg] st_wf_cfg [OF pool_cfgD(1) [OF cfg]] hash
    by (auto simp: kv_inv_def pool_inv_def ref)
qed

lemma kv_inv_events: "kv_inv F ms p \<Longrightarrow> kv_inv F ms (snd (take_kv_events p))"
  by (auto simp: take_kv_events_def kv_inv_def pool_inv_def pool_rep_def st_wf_def table_ok_def st_fresh_def fresh_from_def)

text \<open>Construction starts with empty tables.\<close>

lemma make_managers_props:
  assumes "make_managers i gs dcp pcp = Inr ms" "\<forall>g \<in> set gs. 0 < spec_block_size (group_spec g)"
  shows "\<forall>m \<in> set ms. req_to_blocks m = [] \<and> num_cached_block m = [] \<and> 0 < st_block_size m"
  using assms
proof (induction gs arbitrary: i ms)
  case (Cons g gs)
  then obtain m ms' where m: "get_manager_for_kv_cache_spec (group_spec g) i dcp pcp = Inr m" "ms = m # ms'"
      "make_managers (i + 1) gs dcp pcp = Inr ms'" by (auto simp: result_simps)
  from m(1) Cons.prems(2) have "req_to_blocks m = [] \<and> num_cached_block m = [] \<and> 0 < st_block_size m"
    by (auto simp: get_manager_for_kv_cache_spec_def cp_block_size_pos split: kv_cache_spec.splits if_splits)
  with Cons.IH [OF m(3)] Cons.prems(2) m(2) show ?case by simp
qed simp

lemma init_kv_inv:
  assumes "kv_cache_manager_init cfg ml hb caching eagle ls ev ui dcp pcp = Inr k"
    and "\<forall>g \<in> set (kv_cache_groups cfg). 0 < spec_block_size (group_spec g)"
  shows "kv_inv (\<lambda>_. 0) (km_managers k) (km_pool k) \<and> km_enable_caching k = enable_caching (km_pool k)"
proof -
  obtain p ms where p: "coordinator_init cfg eagle caching ev ui dcp pcp hb = Inr (p, ms)" "km_pool k = p" "km_managers k = ms"
      "km_enable_caching k = caching"
    using assms(1)
    by (auto simp: kv_cache_manager_init_def get_kv_cache_coordinator_def result_simps Let_def split: if_splits kv_cache_spec.splits)
  then have init: "block_pool_init (nat (num_blocks cfg)) caching hb ev ui = Inr p" "make_managers 0 (kv_cache_groups cfg) dcp pcp = Inr ms"
    by (auto simp: coordinator_init_def result_simps)
  then have n: "0 < nat (num_blocks cfg)" by (auto simp: block_pool_init_def result_simps)
  from block_pool_init_rep [OF n, of caching hb ev ui] init(1) have pool: "pool_rep p [1..<nat (num_blocks cfg)] {}"
      "pool_cfg p = (nat (num_blocks cfg), caching, hb, 0, ev, ui)" "\<forall>i < nat (num_blocks cfg). bhash p i = None \<and> refc p i = 0" by auto
  note ms = make_managers_props [OF init(2) assms(2)]
  have t: "table m rid = []" "held m i = 0" if "m \<in> set ms" for m rid i using ms that by (auto simp: table_def held_def)
  have "held_all ms i = 0" for i unfolding held_all_def using t(2) by (simp add: sum_list_eq_0_iff)
  moreover have "st_wf p m \<and> st_fresh p m" if "m \<in> set ms" for m
    using ms that t(1) [OF that] by (auto simp: st_wf_def st_fresh_def fresh_from_def)
  ultimately have "kv_inv (\<lambda>_. 0) ms p"
    using pool n by (auto simp: kv_inv_def pool_inv_def pool_cfg_def)
  with p pool(2) show ?thesis by (simp add: pool_cfg_def)
qed

end
