(* ===== verification/Cache_Hits.thy ===== *)
theory Cache_Hits
  imports KV_Manager
begin

text \<open>
  What a prefix cache hit is worth: \<^verbatim>\<open>find_longest_cache_hit\<close> of the single-type
  managers and of the coordinators, over the definitions of \<open>Single_Type\<close> and
  \<open>KV_Coordinator\<close>.  The dispatch over the manager classes is the fifth interpretation of
  \<open>cache_hit_finder\<close>; \<open>coord_ok\<close> is the consistency between a coordinator's attributes and
  its managers that construction establishes.
\<close>

section \<open>Every kind of layer\<close>

definition hit_supports :: "layer_spec \<Rightarrow> bool \<Rightarrow> nat \<Rightarrow> nat \<Rightarrow> nat \<Rightarrow> bool" where
  "hit_supports spec eagle al dcp pcp \<longleftrightarrow>
     full_supports spec eagle al dcp pcp \<or> sw_supports spec eagle al dcp pcp \<or>
     chunk_supports spec eagle al dcp pcp \<or> mamba_supports spec eagle al dcp pcp"

definition hit_block_size :: "layer_spec \<Rightarrow> nat \<Rightarrow> nat \<Rightarrow> nat" where
  "hit_block_size spec dcp pcp = (if is_full_attention spec then cp_block_size spec dcp pcp else layer_block_size spec)"

lemmas supports_defs = full_supports_def sw_supports_def chunk_supports_def mamba_supports_def

lemma layer_find_hits:
  assumes "pool_rep p fl A" "gs \<noteq> []" "\<forall>g \<in> set gs. g < 2 ^ 32" "bhl_view hashes hs"
    and sup: "hit_supports spec eagle al dcp pcp" and "0 < al" "0 \<le> max_length"
    and "max_length div int (hit_block_size spec dcp pcp) \<le> int (length hs)"
  shows "\<exists>cbs n. find_longest_cache_hit spec p spec hashes max_length gs eagle al dcp pcp = Inr cbs \<and>
    hits_ok p gs hs (needs_block spec (hit_block_size spec dcp pcp) n) n cbs \<and>
    int (n * hit_block_size spec dcp pcp) \<le> max_length \<and> al dvd n * hit_block_size spec dcp pcp"
proof -
  note a = assms(1-4) and b = assms(6-8)
  consider (f) "full_supports spec eagle al dcp pcp" | (s) "sw_supports spec eagle al dcp pcp"
    | (c) "chunk_supports spec eagle al dcp pcp" | (m) "mamba_supports spec eagle al dcp pcp"
    using sup by (auto simp: hit_supports_def)
  then show ?thesis
  proof cases
    case f
    then have e: "hit_block_size spec dcp pcp = cp_block_size spec dcp pcp"
      "find_longest_cache_hit spec = full_find_longest_cache_hit"
      by (cases spec; simp add: full_supports_def hit_block_size_def find_longest_cache_hit_def fun_eq_iff)+
    show ?thesis using full.find_hits [OF a f b(1,2)] b(3) unfolding e by blast
  next
    case s
    then have e: "hit_block_size spec dcp pcp = layer_block_size spec"
      "find_longest_cache_hit spec = sw_find_longest_cache_hit"
      by (cases spec; simp add: sw_supports_def hit_block_size_def find_longest_cache_hit_def fun_eq_iff)+
    show ?thesis using sw_find_hits [OF a s b(1,2)] b(3) unfolding e by blast
  next
    case c
    then have e: "hit_block_size spec dcp pcp = layer_block_size spec"
      "find_longest_cache_hit spec = chunk_find_longest_cache_hit"
      by (cases spec; simp add: chunk_supports_def hit_block_size_def find_longest_cache_hit_def fun_eq_iff)+
    show ?thesis using chunk_find_hits [OF a c b(1,2)] b(3) unfolding e by blast
  next
    case m
    then have e: "hit_block_size spec dcp pcp = layer_block_size spec"
      "find_longest_cache_hit spec = mamba_find_longest_cache_hit"
      by (cases spec; simp add: mamba_supports_def hit_block_size_def find_longest_cache_hit_def fun_eq_iff)+
    show ?thesis using mamba_find_hits [OF a m b(1,2)] b(3) unfolding e by blast
  qed
qed

interpretation layer: cache_hit_finder "\<lambda>p spec. find_longest_cache_hit spec p spec" hit_supports hit_block_size
  by unfold_locales (rule layer_find_hits)

section \<open>Coordinators\<close>

subsection \<open>Consistency\<close>

definition hybrid_ok :: "st_manager list \<Rightarrow> nat \<Rightarrow> hybrid_fields \<Rightarrow> bool" where
  "hybrid_ok ms hash_bs h \<longleftrightarrow>
     full_attention_group_ids h \<noteq> [] \<and> other_group_ids h \<noteq> [] \<and>
     (if full_attn_first h then full_attention_group_ids h @ other_group_ids h
      else other_group_ids h @ full_attention_group_ids h) = [0..<length ms] \<and>
     (\<forall>i \<in> set (full_attention_group_ids h). st_spec (ms ! i) = full_attention_spec h) \<and>
     (\<forall>i \<in> set (other_group_ids h). st_spec (ms ! i) = other_spec h) \<and>
     (\<forall>m \<in> set ms. st_block_size m = layer_block_size (st_spec m) \<and> hash_bs dvd st_block_size m) \<and>
     is_full_attention (full_attention_spec h) \<and> hy_hash_block_size h = hash_bs \<and>
     lcm_block_size h = lcm (layer_block_size (full_attention_spec h)) (layer_block_size (other_spec h))"

definition kind_ok :: "st_manager list \<Rightarrow> nat \<Rightarrow> coord_kind \<Rightarrow> bool" where
  "kind_ok ms hash_bs kind \<longleftrightarrow>
     (case kind of
        NoPrefixCache \<Rightarrow> True
      | Unitary s b dcp pcp \<Rightarrow> length ms = 1 \<and> st_spec (ms ! 0) = s \<and> st_block_size (ms ! 0) = b \<and>
          b = cp_block_size s dcp pcp \<and> hash_bs = b
      | Hybrid h \<Rightarrow> 0 < hash_bs \<and> hybrid_ok ms hash_bs h)"

lemma kind_ok_same:
  assumes "kind_ok ms hash_bs kind" "list_all2 same_mgr ms ms'"
  shows "kind_ok ms' hash_bs kind"
proof -
  have len: "length ms' = length ms" using assms(2) by (simp add: list_all2_lengthD)
  have same: "i < length ms \<Longrightarrow> st_spec (ms' ! i) = st_spec (ms ! i) \<and> st_block_size (ms' ! i) = st_block_size (ms ! i)" for i
    using assms(2) by (simp add: list_all2_conv_all_nth same_mgr_def)
  have "hybrid_ok ms' hash_bs h" if h: "hybrid_ok ms hash_bs h" for h
  proof -
    have ids: "set (full_attention_group_ids h) \<union> set (other_group_ids h) = {0..<length ms}"
      using h unfolding hybrid_ok_def by (metis Un_commute atLeastLessThan_upt set_append)
    then have "\<forall>i \<in> set (full_attention_group_ids h) \<union> set (other_group_ids h). st_spec (ms' ! i) = st_spec (ms ! i)"
      using same by simp
    moreover have "\<forall>m \<in> set ms'. st_block_size m = layer_block_size (st_spec m) \<and> hash_bs dvd st_block_size m"
      using h same len by (auto simp: hybrid_ok_def all_set_conv_all_nth)
    ultimately show ?thesis using h len by (auto simp: hybrid_ok_def)
  qed
  with assms(1) same len show ?thesis by (auto simp: kind_ok_def split: coord_kind.splits)
qed

subsection \<open>Construction\<close>

lemma make_managers_nth:
  assumes "make_managers i gs dcp pcp = Inr ms"
  shows "length ms = length gs \<and> (\<forall>j < length gs. group_spec (gs ! j) = LayerSpec (st_spec (ms ! j)) \<and>
    st_block_size (ms ! j) = cp_block_size (st_spec (ms ! j)) dcp pcp \<and> kv_cache_group_id (ms ! j) = i + j)"
  using assms
proof (induction gs arbitrary: i ms)
  case (Cons g gs)
  then obtain m ms' where m: "get_manager_for_kv_cache_spec (group_spec g) i dcp pcp = Inr m" "ms = m # ms'"
      "make_managers (i + 1) gs dcp pcp = Inr ms'" by (auto simp: result_simps)
  from m(1) have "group_spec g = LayerSpec (st_spec m) \<and> st_block_size m = cp_block_size (st_spec m) dcp pcp \<and> kv_cache_group_id m = i"
    by (auto simp: get_manager_for_kv_cache_spec_def split: kv_cache_spec.splits if_splits)
  with Cons.IH [OF m(3)] m(2) show ?case by (auto simp: nth_Cons split: nat.splits)
qed simp

text \<open>What the loop of \<^verbatim>\<open>verify_and_split_kv_cache_groups\<close> keeps.\<close>

abbreviation full_ids :: "st_manager list \<Rightarrow> nat \<Rightarrow> nat list" where
  "full_ids ms i \<equiv> filter (\<lambda>j. is_full_attention (st_spec (ms ! j))) [0..<i]"

abbreviation other_ids :: "st_manager list \<Rightarrow> nat \<Rightarrow> nat list" where
  "other_ids ms i \<equiv> filter (\<lambda>j. \<not> is_full_attention (st_spec (ms ! j))) [0..<i]"

definition one_spec :: "st_manager list \<Rightarrow> layer_spec option \<Rightarrow> nat list \<Rightarrow> bool" where
  "one_spec ms so ids \<longleftrightarrow> (so = None \<longleftrightarrow> ids = []) \<and> (\<forall>j \<in> set ids. Some (st_spec (ms ! j)) = so)"

definition split_ok :: "st_manager list \<Rightarrow> nat \<Rightarrow> layer_spec option \<Rightarrow> layer_spec option \<Rightarrow> nat list \<Rightarrow> nat list \<Rightarrow> bool" where
  "split_ok ms i full other fi oi \<longleftrightarrow>
     fi = full_ids ms i \<and> oi = other_ids ms i \<and> one_spec ms full fi \<and> one_spec ms other oi"

lemma one_spec_snoc: "one_spec ms so ids \<Longrightarrow> so = None \<or> so = Some (st_spec (ms ! i)) \<Longrightarrow> one_spec ms (Some (st_spec (ms ! i))) (ids @ [i])"
  by (auto simp: one_spec_def)

lemma split_groups_ok:
  assumes "split_groups i gs full other fi oi = Inr (full', other', fi', oi')" "split_ok ms i full other fi oi"
    and "\<forall>j < length gs. group_spec (gs ! j) = LayerSpec (st_spec (ms ! (i + j)))"
  shows "split_ok ms (i + length gs) full' other' fi' oi'"
  using assms
proof (induction gs arbitrary: i full other fi oi)
  case (Cons g gs)
  let ?s = "st_spec (ms ! i)"
  have g: "group_spec g = LayerSpec ?s" using Cons.prems(3) by force
  have rest: "\<forall>j < length gs. group_spec (gs ! j) = LayerSpec (st_spec (ms ! (i + 1 + j)))"
    using Cons.prems(3) by (metis Suc_eq_plus1_left add.assoc length_Cons not_less_eq nth_Cons_Suc)
  show ?case
  proof (cases "is_full_attention ?s")
    case True
    with Cons.prems(1) g have st: "full = None \<or> full = Some ?s"
      "split_groups (i + 1) gs (Some ?s) other (fi @ [i]) oi = Inr (full', other', fi', oi')" by (auto simp: result_simps)
    have "split_ok ms (i + 1) (Some ?s) other (fi @ [i]) oi"
      using Cons.prems(2) one_spec_snoc [OF _ st(1)] True by (auto simp: split_ok_def)
    from Cons.IH [OF st(2) this rest] show ?thesis by simp
  next
    case False
    with Cons.prems(1) g have st: "other = None \<or> other = Some ?s"
      "split_groups (i + 1) gs full (Some ?s) fi (oi @ [i]) = Inr (full', other', fi', oi')" by (auto simp: result_simps)
    have "split_ok ms (i + 1) full (Some ?s) fi (oi @ [i])"
      using Cons.prems(2) one_spec_snoc [OF _ st(1)] False by (auto simp: split_ok_def)
    from Cons.IH [OF st(2) this rest] show ?thesis by simp
  qed
qed simp

lemma ids_in_order:
  fixes P :: "nat \<Rightarrow> bool" and n :: nat
  defines "xs \<equiv> filter P [0..<n]" and "ys \<equiv> filter (\<lambda>j. \<not> P j) [0..<n]"
  assumes "xs \<noteq> []" "ys \<noteq> []" "Max (set xs) < Min (set ys)"
  shows "xs @ ys = [0..<n]"
proof (rule sorted_distinct_set_unique)
  have "x \<le> y" if "x \<in> set xs" "y \<in> set ys" for x y
    using assms(3-5) that by (meson List.finite_set Max_ge Min_le dual_order.trans less_imp_le)
  then show "sorted (xs @ ys)" by (simp add: sorted_append xs_def ys_def sorted_wrt_filter)
qed (auto simp: xs_def ys_def)

lemma verify_and_split_ok:
  assumes "verify_and_split_kv_cache_groups hash_bs gs = Inr h" "make_managers 0 gs 1 1 = Inr ms"
    and "\<forall>g \<in> set gs. hash_bs dvd spec_block_size (group_spec g)"
  shows "hybrid_ok ms hash_bs h"
proof -
  note mk = make_managers_nth [OF assms(2)]
  obtain full other fi oi where sp: "split_groups 0 gs None None [] [] = Inr (full, other, fi, oi)"
    using assms(1) by (auto simp: verify_and_split_kv_cache_groups_def result_simps)
  have "split_ok ms 0 None None [] []" by (simp add: split_ok_def one_spec_def)
  with split_groups_ok [OF sp, of ms] mk have ok: "split_ok ms (length ms) full other fi oi" by simp
  obtain f t where ft: "full = Some f" "other = Some t"
    using assms(1) sp by (auto simp: verify_and_split_kv_cache_groups_def result_simps split: option.splits)
  define fst_full where "fst_full = full_attn_first h"
  have h: "h = \<lparr>hy_hash_block_size = hash_bs, full_attention_group_ids = fi, other_group_ids = oi,
                  full_attention_spec = f, other_spec = t,
                  lcm_block_size = lcm (layer_block_size f) (layer_block_size t), full_attn_first = fst_full\<rparr>"
      "if fst_full then Max (set fi) < Min (set oi) else Max (set oi) < Min (set fi)"
    using assms(1) sp ft
    by (auto simp: verify_and_split_kv_cache_groups_def result_simps fst_full_def split: if_splits)
  have ids: "fi = full_ids ms (length ms)" "oi = other_ids ms (length ms)" "fi \<noteq> []" "oi \<noteq> []"
      "\<forall>j \<in> set fi. st_spec (ms ! j) = f" "\<forall>j \<in> set oi. st_spec (ms ! j) = t"
    using ok unfolding split_ok_def one_spec_def ft by blast+
  have "(if fst_full then fi @ oi else oi @ fi) = [0..<length ms]"
  proof (cases fst_full)
    case True
    with h(2) ids(3,4) ids_in_order [of "\<lambda>j. is_full_attention (st_spec (ms ! j))" "length ms"] show ?thesis
      by (simp add: ids(1,2))
  next
    case False
    with h(2) ids(3,4) ids_in_order [of "\<lambda>j. \<not> is_full_attention (st_spec (ms ! j))" "length ms"] show ?thesis
      by (simp add: ids(1,2))
  qed
  moreover have "is_full_attention f"
  proof -
    have j: "hd fi \<in> set fi" using ids(3) by simp
    then have "is_full_attention (st_spec (ms ! hd fi))" unfolding ids(1) by simp
    with ids(5) j show ?thesis by simp
  qed
  moreover have "st_block_size m = layer_block_size (st_spec m) \<and> hash_bs dvd st_block_size m" if "m \<in> set ms" for m
  proof -
    from that obtain j where j: "j < length gs" "m = ms ! j" using mk by (auto simp: in_set_conv_nth)
    then have "hash_bs dvd spec_block_size (group_spec (gs ! j))" using assms(3) by simp
    with mk j show ?thesis by (simp add: cp_block_size_def)
  qed
  ultimately show ?thesis using ids(3-6) by (simp only: hybrid_ok_def h(1) hybrid_fields.simps) blast
qed

lemma coordinator_kind_ok:
  assumes "get_kv_cache_coordinator cfg eagle caching ev ui dcp pcp hash_bs = Inr c" "1 \<le> dcp" "1 \<le> pcp"
  shows "kind_ok (single_type_managers c) (hash_block_size (block_pool_of c)) (coord_kind c)"
    and "\<forall>i < length (single_type_managers c). kv_cache_group_id (single_type_managers c ! i) = i"
    and "length (single_type_managers c) = length (kv_cache_groups cfg)"
proof -
  obtain p ms where p: "block_pool_init (nat (num_blocks cfg)) caching hash_bs ev ui = Inr p"
      "make_managers 0 (kv_cache_groups cfg) dcp pcp = Inr ms" "block_pool_of c = p" "single_type_managers c = ms"
    using assms(1)
    by (auto simp: get_kv_cache_coordinator_def coordinator_init_def result_simps Let_def split: if_splits kv_cache_spec.splits)
  note mk = make_managers_nth [OF p(2)]
  have "0 < nat (num_blocks cfg)" using p(1) by (auto simp: block_pool_init_def result_simps)
  from block_pool_init_rep [OF this, of caching hash_bs ev ui] p(1) have hb: "hash_block_size p = hash_bs"
    by (auto simp: pool_cfg_def)
  show "\<forall>i < length (single_type_managers c). kv_cache_group_id (single_type_managers c ! i) = i"
    "length (single_type_managers c) = length (kv_cache_groups cfg)" using mk p(4) by simp_all
  show "kind_ok (single_type_managers c) (hash_block_size (block_pool_of c)) (coord_kind c)"
  proof (cases "coord_kind c")
    case (Unitary s b d q)
    then have u: "length (kv_cache_groups cfg) = 1" "group_spec (hd (kv_cache_groups cfg)) = LayerSpec s"
        "hash_bs = unitary_block_size s dcp pcp" "b = unitary_block_size s dcp pcp" "d = dcp" "q = pcp"
      using assms(1) by (auto simp: get_kv_cache_coordinator_def result_simps Let_def split: if_splits kv_cache_spec.splits)
    have "unitary_block_size s dcp pcp = cp_block_size s dcp pcp"
      using assms(2,3) by (auto simp: unitary_block_size_def cp_block_size_def Let_def not_less le_Suc_eq)
    moreover have "group_spec (kv_cache_groups cfg ! 0) = LayerSpec s" using u(1,2) by (cases "kv_cache_groups cfg") auto
    ultimately show ?thesis using Unitary u mk p hb by (simp add: kind_ok_def)
  next
    case (Hybrid h)
    then have "verify_and_split_kv_cache_groups hash_bs (kv_cache_groups cfg) = Inr h" "dcp = 1" "pcp = 1"
        "list_all (\<lambda>g. spec_block_size (group_spec g) mod hash_bs = 0) (kv_cache_groups cfg)"
        "\<not> (hash_bs = 0 \<and> kv_cache_groups cfg \<noteq> [])"
      using assms(1) by (auto simp: get_kv_cache_coordinator_def result_simps Let_def split: if_splits kv_cache_spec.splits)
    moreover from this have "hybrid_ok ms hash_bs h"
      using verify_and_split_ok [of hash_bs _ h ms] p(2) by (auto simp: list_all_iff mod_eq_0_iff_dvd)
    moreover from this have "kv_cache_groups cfg \<noteq> []" using mk by (auto simp: hybrid_ok_def split: if_splits)
    ultimately show ?thesis using Hybrid p hb by (simp add: kind_ok_def)
  qed (simp add: kind_ok_def)
qed

subsection \<open>Hits of all groups\<close>

text \<open>
  \<open>group_hit p hash_bs hashes n i m bs\<close>: the blocks \<open>bs\<close> hold the first \<open>n\<close> tokens for group
  \<open>i\<close>; each is a cached block of the group with the content's hash, or the null block where
  attention at position \<open>n\<close> reads nothing.
\<close>

definition group_hashes_of :: "bytes list \<Rightarrow> nat \<Rightarrow> nat \<Rightarrow> bytes list" where
  "group_hashes_of hashes hash_bs b = (if b = hash_bs then hashes else scaled_hashes hashes (b div hash_bs))"

definition group_hit :: "block_pool \<Rightarrow> nat \<Rightarrow> bytes list \<Rightarrow> nat \<Rightarrow> nat \<Rightarrow> st_manager \<Rightarrow> nat list \<Rightarrow> bool" where
  "group_hit p hash_bs hashes n i m bs \<longleftrightarrow>
     length bs * st_block_size m = n \<and>
     (\<forall>j < length bs.
        block_hit p i (group_hashes_of hashes hash_bs (st_block_size m) ! j) (bs ! j) \<or>
        bs ! j = null_block p \<and> \<not> needs_block (st_spec m) (st_block_size m) (length bs) j)"

definition hit_ready :: "bool \<Rightarrow> coord_kind \<Rightarrow> bool" where
  "hit_ready eagle kind \<longleftrightarrow>
     (case kind of
        NoPrefixCache \<Rightarrow> True
      | Unitary s b dcp pcp \<Rightarrow> hit_supports s eagle b dcp pcp
      | Hybrid h \<Rightarrow> hit_supports (other_spec h) eagle (lcm_block_size h) 1 1)"

lemma group_hashes_view:
  assumes "0 < hash_bs" "hash_bs dvd b" "0 < b"
  shows "\<exists>hl. hashes_for hs hash_bs b = Inr hl \<and> bhl_view hl (group_hashes_of hs hash_bs b) \<and>
    length (group_hashes_of hs hash_bs b) = length hs * hash_bs div b"
proof (cases "b = hash_bs")
  case True
  with assms show ?thesis using plain_view by (auto simp: hashes_for_def group_hashes_of_def)
next
  case False
  obtain k where k: "b = hash_bs * k" using assms(2) by (auto elim: dvdE)
  then have "0 < k" using assms(3) by simp
  moreover have "length hs * hash_bs div b = length hs div k" using assms(1) by (simp add: k div_mult2_eq mult.commute)
  ultimately show ?thesis
    using False assms k scaled_view [of k hs]
    by (auto simp: hashes_for_def block_hash_list_with_block_size_def scaled_hashes_def group_hashes_of_def)
qed

lemma enough_hashes:
  fixes b hash_bs n :: nat
  assumes "0 < hash_bs" "hash_bs dvd b" "0 < b" "0 \<le> t" "t div int hash_bs \<le> int n"
  shows "t div int b \<le> int (n * hash_bs div b)"
proof -
  obtain k where k: "b = hash_bs * k" using assms(2) by (auto elim: dvdE)
  have "t div int b = t div int hash_bs div int k" by (simp add: k zdiv_zmult2_eq)
  also have "\<dots> \<le> int n div int k" using assms(3,5) k by (intro zdiv_mono1) auto
  also have "\<dots> = int (n * hash_bs div b)" using assms(1) by (simp add: k div_mult2_eq mult.commute zdiv_int)
  finally show ?thesis .
qed

lemma hits_ok_group:
  assumes "hits_ok p gs (group_hashes_of hashes hash_bs b) must n cbs" "g < length gs"
    and "st_block_size m = b" "n * b = t" "\<And>j. j < n \<Longrightarrow> needs_block (st_spec m) b n j \<Longrightarrow> must j"
  shows "group_hit p hash_bs hashes t (gs ! g) m (cbs ! g)"
  using assms by (auto simp: hits_ok_def group_hit_def)

text \<open>What \<open>hybrid_ok\<close> says of the groups of the two kinds.\<close>

definition kind_groups :: "st_manager list \<Rightarrow> nat \<Rightarrow> layer_spec \<Rightarrow> nat list \<Rightarrow> bool" where
  "kind_groups ms hash_bs s ids \<longleftrightarrow> ids \<noteq> [] \<and> 0 < layer_block_size s \<and> hash_bs dvd layer_block_size s \<and>
     (\<forall>i \<in> set ids. i < length ms \<and> st_spec (ms ! i) = s \<and> st_block_size (ms ! i) = layer_block_size s)"

lemma kind_groupsI:
  assumes "ids \<noteq> []" "\<forall>i \<in> set ids. i < length ms \<and> st_spec (ms ! i) = s"
    and "\<forall>m \<in> set ms. st_block_size m = layer_block_size (st_spec m) \<and> hash_bs dvd st_block_size m \<and> 0 < st_block_size m"
  shows "kind_groups ms hash_bs s ids"
proof -
  have all: "st_block_size (ms ! i) = layer_block_size s \<and> hash_bs dvd layer_block_size s \<and> 0 < layer_block_size s"
    if "i \<in> set ids" for i using assms(2,3) that by (metis nth_mem)
  have "hd ids \<in> set ids" using assms(1) by simp
  with all assms(1,2) show ?thesis unfolding kind_groups_def by blast
qed

lemma hybrid_groups:
  assumes "hybrid_ok ms hash_bs h" "\<forall>m \<in> set ms. 0 < st_block_size m"
  shows "kind_groups ms hash_bs (full_attention_spec h) (full_attention_group_ids h)"
    and "kind_groups ms hash_bs (other_spec h) (other_group_ids h)"
proof -
  note H = assms(1) [unfolded hybrid_ok_def]
  have "set (full_attention_group_ids h) \<union> set (other_group_ids h) = {0..<length ms}"
    using H by (metis Un_commute atLeastLessThan_upt set_append)
  then have ids: "\<forall>i \<in> set (full_attention_group_ids h). i < length ms" "\<forall>i \<in> set (other_group_ids h). i < length ms" by auto
  have "\<forall>m \<in> set ms. st_block_size m = layer_block_size (st_spec m) \<and> hash_bs dvd st_block_size m \<and> 0 < st_block_size m"
    using H assms(2) by blast
  with H ids show "kind_groups ms hash_bs (full_attention_spec h) (full_attention_group_ids h)"
    "kind_groups ms hash_bs (other_spec h) (other_group_ids h)"
    by (blast intro: kind_groupsI)+
qed

text \<open>One lookup of the hybrid coordinator, for the groups of one kind.\<close>

lemma kind_find_hits:
  assumes "pool_rep p fl {}" "kind_groups ms hash_bs s ids" "0 < hash_bs" "length ms < 2 ^ 32"
    and "hit_supports s eagle al 1 1" "0 < al" "0 \<le> t" "t div int hash_bs \<le> int (length hashes)"
  shows "\<exists>hl cbs n. hashes_for hashes hash_bs (layer_block_size s) = Inr hl \<and>
    find_longest_cache_hit s p s hl t ids eagle al 1 1 = Inr cbs \<and> first_len cbs = Inr n \<and>
    hits_ok p ids (group_hashes_of hashes hash_bs (layer_block_size s)) (needs_block s (layer_block_size s) n) n cbs \<and>
    int (n * layer_block_size s) \<le> t \<and> al dvd n * layer_block_size s"
proof -
  let ?b = "layer_block_size s"
  have g: "ids \<noteq> []" "0 < ?b" "hash_bs dvd ?b" "\<forall>i \<in> set ids. i < length ms" using assms(2) by (auto simp: kind_groups_def)
  have small: "\<forall>i \<in> set ids. i < 2 ^ 32" using g(4) assms(4) order.strict_trans by blast
  obtain hl where hl: "hashes_for hashes hash_bs ?b = Inr hl" "bhl_view hl (group_hashes_of hashes hash_bs ?b)"
      "length (group_hashes_of hashes hash_bs ?b) = length hashes * hash_bs div ?b"
    using group_hashes_view [OF assms(3) g(3,2)] by blast
  have b: "hit_block_size s 1 1 = ?b" by (simp add: hit_block_size_def cp_block_size_def)
  have "t div int ?b \<le> int (length (group_hashes_of hashes hash_bs ?b))"
    unfolding hl(3) by (rule enough_hashes [OF assms(3) g(3,2) assms(7,8)])
  then obtain cbs n where c: "find_longest_cache_hit s p s hl t ids eagle al 1 1 = Inr cbs"
      "hits_ok p ids (group_hashes_of hashes hash_bs ?b) (needs_block s ?b n) n cbs" "int (n * ?b) \<le> t" "al dvd n * ?b"
    using layer_find_hits [OF assms(1) g(1) small hl(2) assms(5,6,7)] unfolding b by blast
  with hl(1) hits_ok_first_len [OF c(2) g(1)] show ?thesis by blast
qed

lemma find_full: "is_full_attention s \<Longrightarrow> find_longest_cache_hit s = full_find_longest_cache_hit"
  by (cases s) (simp_all add: find_longest_cache_hit_def fun_eq_iff)

lemma kind_hit:
  assumes "hits_ok p ids (group_hashes_of hashes hash_bs (layer_block_size s)) must n cbs"
    and "kind_groups ms hash_bs s ids" "n * layer_block_size s = t" "\<And>j. j < n \<Longrightarrow> needs_block s (layer_block_size s) n j \<Longrightarrow> must j"
  shows "list_all2 (\<lambda>i bs. group_hit p hash_bs hashes t i (ms ! i) bs) ids cbs"
proof -
  have "group_hit p hash_bs hashes t (ids ! g) (ms ! (ids ! g)) (cbs ! g)" if "g < length ids" for g
  proof -
    have "ids ! g \<in> set ids" using that by simp
    with assms(2) have m: "st_spec (ms ! (ids ! g)) = s" "st_block_size (ms ! (ids ! g)) = layer_block_size s"
      by (simp_all add: kind_groups_def)
    show ?thesis by (rule hits_ok_group [OF assms(1) that m(2) assms(3)]) (use m assms(4) in simp)
  qed
  with assms(1) show ?thesis by (simp add: list_all2_conv_all_nth hits_ok_def)
qed

text \<open>The answer for the groups in order, from the answers for the two kinds.\<close>

lemma merged_hits:
  assumes "hybrid_ok ms hash_bs h" "list_all2 P (full_attention_group_ids h) fc" "list_all2 P (other_group_ids h) oc"
  shows "list_all2 P [0..<length ms] (if full_attn_first h then fc @ oc else oc @ fc)"
proof -
  have "[0..<length ms] = (if full_attn_first h then full_attention_group_ids h @ other_group_ids h
      else other_group_ids h @ full_attention_group_ids h)" using assms(1) by (simp add: hybrid_ok_def)
  with assms(2,3) show ?thesis by (simp only: split: if_split) (simp add: list_all2_appendI)
qed

lemma hybrid_find_hits:
  assumes inv: "pool_rep p fl {}" and h: "hybrid_ok ms hash_bs h" and hb: "0 < hash_bs"
    and sup: "hit_supports (other_spec h) eagle (lcm_block_size h) 1 1"
    and bs: "\<forall>m \<in> set ms. 0 < st_block_size m" and len: "length ms < 2 ^ 32"
    and t: "0 \<le> max_len" "max_len div int hash_bs \<le> int (length hashes)"
  shows "\<exists>blocks n. hybrid_find_longest_cache_hit p eagle h hashes max_len = Inr (blocks, n) \<and>
    int n \<le> max_len \<and> lcm_block_size h dvd n \<and>
    list_all2 (\<lambda>i bs. group_hit p hash_bs hashes n i (ms ! i) bs) [0..<length ms] blocks"
proof -
  let ?fs = "full_attention_spec h" and ?os = "other_spec h" and ?fi = "full_attention_group_ids h" and ?oi = "other_group_ids h"
  let ?fb = "layer_block_size ?fs" and ?ob = "layer_block_size ?os" and ?al = "lcm_block_size h"
  note grp = hybrid_groups [OF h bs]
  have pos: "0 < ?fb" "0 < ?ob" using grp by (simp_all add: kind_groups_def)
  have H: "is_full_attention ?fs" "hy_hash_block_size h = hash_bs" "?al = lcm ?fb ?ob" using h by (simp_all add: hybrid_ok_def)
  have al: "0 < ?al" "?fb dvd ?al" using H(3) pos by (simp_all add: lcm_pos_nat)
  have fsup: "hit_supports ?fs eagle ?al 1 1" using H(1) pos by (simp add: hit_supports_def full_supports_def)
  obtain fh fc nf where f: "hashes_for hashes hash_bs ?fb = Inr fh"
      "full_find_longest_cache_hit p ?fs fh max_len ?fi eagle ?al 1 1 = Inr fc" "first_len fc = Inr nf"
      "hits_ok p ?fi (group_hashes_of hashes hash_bs ?fb) (needs_block ?fs ?fb nf) nf fc" "int (nf * ?fb) \<le> max_len"
    using kind_find_hits [OF inv grp(1) hb len fsup al(1) t] find_full [OF H(1)] by auto
  have "int (nf * ?fb) div int hash_bs \<le> max_len div int hash_bs" using f(5) hb by (intro zdiv_mono1) simp_all
  then have t2: "0 \<le> int (nf * ?fb)" "int (nf * ?fb) div int hash_bs \<le> int (length hashes)" using t(2) by simp_all
  obtain oh oc no where o: "hashes_for hashes hash_bs ?ob = Inr oh"
      "find_longest_cache_hit ?os p ?os oh (int (nf * ?fb)) ?oi eagle ?al 1 1 = Inr oc" "first_len oc = Inr no"
      "hits_ok p ?oi (group_hashes_of hashes hash_bs ?ob) (needs_block ?os ?ob no) no oc"
      "int (no * ?ob) \<le> int (nf * ?fb)" "?al dvd no * ?ob"
    using kind_find_hits [OF inv grp(2) hb len sup al(1) t2] by auto
  let ?n = "no * ?ob" and ?k = "no * ?ob div ?fb"
  have "?fb dvd ?n" using al(2) o(6) by (rule dvd_trans)
  then have k: "?n mod ?fb = 0" "?k * ?fb = ?n" by (simp_all only: dvd_div_mult_self dvd_imp_mod_0)
  have le: "?n \<le> nf * ?fb" using o(5) by (simp only: of_nat_le_iff)
  then have "?k \<le> nf" using pos(1) by (metis div_le_mono div_mult_self_is_m)
  from hits_ok_take [OF f(4) this]
  have cut: "hits_ok p ?fi (group_hashes_of hashes hash_bs ?fb) (\<lambda>_. True) ?k (map (take ?k) fc)"
    by (rule hits_ok_mono) (rule needs_block_full [OF H(1)])
  let ?blocks = "if full_attn_first h then map (take ?k) fc @ oc else oc @ map (take ?k) fc"
  have "hybrid_find_longest_cache_hit p eagle h hashes max_len = Inr (?blocks, ?n)"
    using f(1-3) o(1-3) k(1) pos(1) by (simp add: hybrid_find_longest_cache_hit_def Let_def H(2))
  moreover have "list_all2 (\<lambda>i bs. group_hit p hash_bs hashes ?n i (ms ! i) bs) [0..<length ms] ?blocks"
    by (rule merged_hits [OF h kind_hit [OF cut grp(1) k(2)] kind_hit [OF o(4) grp(2)]]) simp_all
  moreover have "int ?n \<le> max_len" using le f(5) by linarith
  ultimately show ?thesis using o(6) by blast
qed

text \<open>The unitary coordinator looks its only group up.\<close>

lemma hit_block_size_cp: "hit_supports s eagle al dcp pcp \<Longrightarrow> hit_block_size s dcp pcp = cp_block_size s dcp pcp"
  by (auto simp: hit_supports_def supports_defs hit_block_size_def cp_block_size_def split: layer_spec.splits)

lemma unitary_find_hits:
  assumes "pool_rep p fl {}" "st_spec m = s" "st_block_size m = b" "b = cp_block_size s dcp pcp" "0 < b"
    and sup: "hit_supports s eagle b dcp pcp" and t: "0 \<le> t" "t div int b \<le> int (length hashes)"
  shows "\<exists>hit n. find_longest_cache_hit s p s (HashList hashes) t [0] eagle b dcp pcp = Inr hit \<and>
    first_len hit = Inr n \<and> int (n * b) \<le> t \<and> list_all2 (\<lambda>i bs. group_hit p b hashes (n * b) i m bs) [0..<1] hit"
proof -
  note e = hit_block_size_cp [OF sup, folded assms(4)]
  obtain hit n where n: "find_longest_cache_hit s p s (HashList hashes) t [0] eagle b dcp pcp = Inr hit"
      "hits_ok p [0] hashes (needs_block s b n) n hit" "int (n * b) \<le> t"
    using layer_find_hits [OF assms(1) _ _ plain_view sup assms(5) t(1), of "[0]" hashes] t(2) unfolding e by auto
  have "hits_ok p [0] (group_hashes_of hashes b b) (needs_block s b n) n hit" using n(2) by (simp add: group_hashes_of_def)
  from hits_ok_group [OF this _ assms(3) refl] assms(2) have "group_hit p b hashes (n * b) 0 m (hit ! 0)" by simp
  moreover have "length hit = 1" using n(2) by (simp add: hits_ok_def)
  ultimately show ?thesis using n hits_ok_first_len [OF n(2)] by (auto simp: length_Suc_conv)
qed

lemma coord_find_hits:
  assumes "pool_rep (block_pool_of c) fl {}"
    and kind: "kind_ok (single_type_managers c) hash_bs (coord_kind c)" "hit_ready (coord_use_eagle c) (coord_kind c)"
    and bs: "\<forall>m \<in> set (single_type_managers c). 0 < st_block_size m" and len: "length (single_type_managers c) < 2 ^ 32"
    and t: "0 \<le> max_len" "max_len div int hash_bs \<le> int (length hashes)"
  shows "\<exists>blocks n. coord_find_longest_cache_hit hashes max_len c = Inr (blocks, n) \<and> int n \<le> max_len \<and>
    list_all2 (\<lambda>i bs. group_hit (block_pool_of c) hash_bs hashes n i (single_type_managers c ! i) bs)
      [0..<length (single_type_managers c)] blocks"
proof (cases "coord_kind c")
  case NoPrefixCache
  then show ?thesis using t(1) by (simp add: coord_find_longest_cache_hit_def list_all2_conv_all_nth group_hit_def)
next
  case (Unitary s b dcp pcp)
  let ?m = "single_type_managers c ! 0"
  have u: "length (single_type_managers c) = 1" "st_spec ?m = s" "st_block_size ?m = b" "b = cp_block_size s dcp pcp" "hash_bs = b"
    using kind(1) Unitary by (simp_all add: kind_ok_def)
  have "0 < b" using bs u by (metis nth_mem zero_less_one)
  moreover have "hit_supports s (coord_use_eagle c) b dcp pcp" using kind(2) Unitary by (simp add: hit_ready_def)
  ultimately obtain hit n where n: "find_longest_cache_hit s (block_pool_of c) s (HashList hashes) max_len [0] (coord_use_eagle c) b dcp pcp = Inr hit"
      "first_len hit = Inr n" "int (n * b) \<le> max_len" "list_all2 (\<lambda>i bs. group_hit (block_pool_of c) b hashes (n * b) i ?m bs) [0..<1] hit"
    using unitary_find_hits [OF assms(1) u(2-4)] t u(5) by blast
  then show ?thesis using Unitary u
    by (intro exI [of _ hit] exI [of _ "n * b"]) (simp add: coord_find_longest_cache_hit_def py_get_def list_all2_Cons1)
next
  case (Hybrid h)
  then have "0 < hash_bs" "hybrid_ok (single_type_managers c) hash_bs h"
      "hit_supports (other_spec h) (coord_use_eagle c) (lcm_block_size h) 1 1"
    using kind by (simp_all add: kind_ok_def hit_ready_def)
  from hybrid_find_hits [OF assms(1) this(2,1,3) bs len t] Hybrid show ?thesis
    by (auto simp: coord_find_longest_cache_hit_def)
qed

section \<open>Properties\<close>

text \<open>A pool with two cached blocks, for the concrete instances.\<close>

lemma cached_pool:
  obtains p where "pool_rep p [1, 2, 3] {}" "block_hit p 0 [7] 1" "block_hit p 0 [8] 2"
proof -
  let ?r = "(text_request ''a'' [1, 2, 3, 4])\<lparr>block_hashes := [[7], [8]]\<rparr>"
  obtain q where q: "block_pool_init 4 True 2 False False = Inr q" "pool_rep q [1, 2, 3] {}"
    "num_gpu_blocks q = 4" "enable_caching q" "hash_block_size q = 2" "\<forall>i < 4. bhash q i = None \<and> refc q i = 0"
    by (rule fresh_pool)
  have hb: "enable_kv_cache_events q = False" using q(1) by (auto simp: block_pool_init_def result_simps Let_def)
  have c: "cacheable q (py_slice [1, 2] 0 2)" using q(3,6) by (simp add: cacheable_def py_slice_def)
  have "group_hashes ?r (hash_block_size q) 2 0 = Inr [[7], [8]]" using q(5) by (simp add: group_hashes_def)
  from cache_full_blocks_rep [OF q(2) _ _ this _ c, where g = 0] hb obtain p where
    p: "pool_rep p [1, 2, 3] {}" "pool_cfg p = pool_cfg q"
      "\<forall>n. 0 \<le> n \<and> n < 2 \<and> n < length [1, 2 :: nat] \<longrightarrow> bhash p ([1, 2] ! n) = Some (block_key 0 ([[7], [8]] ! (n - 0)))"
    by fastforce
  have "num_gpu_blocks p = 4" using pool_cfgD(1) [OF p(2)] q(3) by simp
  moreover have "bhash p 1 = Some (block_key 0 [7])" using p(3) [rule_format, of 0] by simp
  moreover have "bhash p 2 = Some (block_key 0 [8])" using p(3) [rule_format, of 1] by simp
  ultimately show ?thesis using that p(1) by (simp add: block_hit_def)
qed

definition attn :: "nat \<Rightarrow> attention_fields" where
  "attn bs = \<lparr>at_block_size = bs, num_kv_heads = 1, head_size = 1, at_dtype = \<lparr>dtype_name = ''half'', dtype_size = 2\<rparr>\<rparr>"

lemma attn_simps [simp]: "at_block_size (attn bs) = bs"
  by (simp add: attn_def)

text \<open>
  (soundness of prefix cache hits) for every kind of layer with prefix caching, the lookup
  returns; its hit is at most the given length and aligned; every entry of it is a cached
  block with exactly the content's hash and the group's id, or the null block; and it is
  never null where the attention of the first token after the hit reads.
\<close>

lemma layer_hit_sound:
  assumes "pool_rep p fl {}" and "gs \<noteq> []" and "\<forall>g \<in> set gs. g < 2 ^ 32" and "bhl_view hashes hs"
    and "hit_supports spec eagle al dcp pcp" and "0 < al" and "0 \<le> max_length"
    and "max_length div int (hit_block_size spec dcp pcp) \<le> int (length hs)"
  shows "\<exists>cbs n. find_longest_cache_hit spec p spec hashes max_length gs eagle al dcp pcp = Inr cbs \<and>
    int (n * hit_block_size spec dcp pcp) \<le> max_length \<and> al dvd n * hit_block_size spec dcp pcp \<and>
    length cbs = length gs \<and>
    (\<forall>j < length gs. length (cbs ! j) = n \<and>
      (\<forall>i < n. block_hit p (gs ! j) (hs ! i) (cbs ! j ! i) \<or>
               cbs ! j ! i = null_block p \<and> \<not> needs_block spec (hit_block_size spec dcp pcp) n i))"
  using layer.find_hits [OF assms] unfolding hits_ok_def by blast

text \<open>
  A prefix of \<open>k\<close> blocks that a full attention lookup may return: aligned, within the length and the
  hashes, and with every block cached in every group.
\<close>

definition usable_prefix :: "block_pool \<Rightarrow> nat list \<Rightarrow> bytes list \<Rightarrow> nat \<Rightarrow> nat \<Rightarrow> int \<Rightarrow> nat \<Rightarrow> bool" where
  "usable_prefix p gs hs bs al max_length k \<longleftrightarrow> al dvd k * bs \<and> int (k * bs) \<le> max_length \<and> k \<le> length hs \<and>
     (\<forall>i < k. \<forall>g \<in> set gs. \<exists>b. block_hit p g (hs ! i) b)"

text \<open>
  C15: (the full attention hit is the longest one) for a full attention layer without speculative
  decoding by EAGLE and at least one group, the lookup returns one list per group of the same length \<open>n\<close>,
  in which entry \<open>i\<close> is a cached block of the group with the \<open>i\<close>-th hash; \<open>n\<close> is itself a usable prefix,
  aligned and within the length bound, and no usable prefix is longer.
\<close>

theorem full_hit_longest:
  assumes "pool_rep p fl {}" and "gs \<noteq> []" and "\<forall>g \<in> set gs. g < 2 ^ 32" and "bhl_view hashes hs"
    and "is_full_attention spec" and "0 < layer_block_size spec" and "0 < al" and "0 \<le> max_length"
  shows "\<exists>cbs n. full_find_longest_cache_hit p spec hashes max_length gs False al dcp pcp = Inr cbs \<and> length cbs = length gs \<and>
    (\<forall>j < length gs. length (cbs ! j) = n \<and> (\<forall>i < n. block_hit p (gs ! j) (hs ! i) (cbs ! j ! i))) \<and>
    usable_prefix p gs hs (cp_block_size spec dcp pcp) al max_length n \<and>
    (\<forall>k. usable_prefix p gs hs (cp_block_size spec dcp pcp) al max_length k \<longrightarrow> k \<le> n)"
proof -
  let ?bs = "cp_block_size spec dcp pcp"
  have sup: "full_supports spec False al dcp pcp" using assms by (simp add: full_supports_def)
  from full_find_hits [OF assms(1-4) sup assms(7,8)] obtain cbs n where
    n: "full_find_longest_cache_hit p spec hashes max_length gs False al dcp pcp = Inr cbs" "hits_ok p gs hs (\<lambda>_. True) n cbs"
      "int (n * ?bs) \<le> max_length" "al dvd n * ?bs" "n \<le> length hs" "\<forall>k. usable_prefix p gs hs ?bs al max_length k \<longrightarrow> k \<le> n"
    unfolding usable_prefix_def by auto
  from n(2) have hits: "length cbs = length gs" "\<forall>j < length gs. length (cbs ! j) = n \<and> (\<forall>i < n. block_hit p (gs ! j) (hs ! i) (cbs ! j ! i))"
    by (auto simp: hits_ok_def)
  have "\<forall>i < n. \<forall>g \<in> set gs. \<exists>b. block_hit p g (hs ! i) b" using hits(2) by (metis in_set_conv_nth)
  then have "usable_prefix p gs hs ?bs al max_length n" using n(3-5) by (simp add: usable_prefix_def)
  with n(1,6) hits show ?thesis by blast
qed

theorem full_hit_longest_witness:
  "\<exists>p cbs. block_hit p 0 [7] 1 \<and> block_hit p 0 [8] 2 \<and> length cbs = 1 \<and> length (cbs ! 0) = 2 \<and>
     full_find_longest_cache_hit p (FullAttentionSpec (attn 2) None None) (HashList [[7], [8]]) 4 [0] False 2 1 1 = Inr cbs"
proof -
  let ?s = "FullAttentionSpec (attn 2) None None"
  obtain p where p: "pool_rep p [1, 2, 3] {}" "block_hit p 0 [7] 1" "block_hit p 0 [8] 2" by (rule cached_pool)
  have bs: "cp_block_size ?s 1 1 = 2" by (simp add: cp_block_size_def)
  from full_hit_longest [OF p(1) _ _ plain_view, of "[0]" ?s 2 4 "[[7], [8]]" 1 1] bs
  obtain cbs n where n: "full_find_longest_cache_hit p ?s (HashList [[7], [8]]) 4 [0] False 2 1 1 = Inr cbs" "length cbs = 1" "length (cbs ! 0) = n"
      "usable_prefix p [0] [[7], [8]] 2 2 4 n" "\<forall>k. usable_prefix p [0] [[7], [8]] 2 2 4 k \<longrightarrow> k \<le> n"
    by auto
  have "usable_prefix p [0] [[7], [8]] 2 2 4 2" using p(2,3) by (auto simp: usable_prefix_def less_2_cases_iff)
  with n(5) have "2 \<le> n" by blast
  moreover have "n \<le> 2" using n(4) by (simp add: usable_prefix_def)
  ultimately have "n = 2" by simp
  with n(1-3) p show ?thesis by blast
qed



end
