(* ===== verification/KV_Lifecycle.thy ===== *)
theory KV_Lifecycle
  imports Cache_Hits
begin

text \<open>
  The life of a KV cache manager: the states that construction and the calls of the scheduler
  reach, the invariant of these states, and the behaviour of \<^verbatim>\<open>get_computed_blocks\<close>,
  \<^verbatim>\<open>allocate_slots\<close> and \<^verbatim>\<open>free\<close> in them, over the definitions of \<open>KV_Manager\<close>.
\<close>

section \<open>What no call changes\<close>

definition same_shape :: "kv_cache_manager \<Rightarrow> kv_cache_manager \<Rightarrow> bool" where
  "same_shape k k' \<longleftrightarrow>
     coord_kind (km_coord k') = coord_kind (km_coord k) \<and> coord_use_eagle (km_coord k') = coord_use_eagle (km_coord k) \<and>
     list_all2 same_mgr (km_managers k) (km_managers k') \<and> pool_cfg (km_pool k') = pool_cfg (km_pool k) \<and>
     km_enable_caching k' = km_enable_caching k \<and> num_kv_cache_groups k' = num_kv_cache_groups k \<and>
     km_log_stats k' = km_log_stats k \<and> (km_stats k \<noteq> None \<longrightarrow> km_stats k' \<noteq> None)"

definition km_ok :: "kv_cache_manager \<Rightarrow> bool" where
  "km_ok k \<longleftrightarrow>
     kv_inv (\<lambda>_. 0) (km_managers k) (km_pool k) \<and> km_enable_caching k = enable_caching (km_pool k) \<and>
     kind_ok (km_managers k) (hash_block_size (km_pool k)) (coord_kind (km_coord k)) \<and>
     (\<forall>i < length (km_managers k). kv_cache_group_id (km_managers k ! i) = i) \<and>
     num_kv_cache_groups k = length (km_managers k) \<and> (km_log_stats k \<longrightarrow> km_stats k \<noteq> None)"

lemma same_mgr_refl [simp]: "same_mgr m m"
  by (simp add: same_mgr_def)

lemma list_all2_same_refl [simp]: "list_all2 same_mgr ms ms"
  by (simp add: list_all2_conv_all_nth)

lemma km_ok_step:
  assumes "km_ok k" "same_shape k k'" "kv_inv (\<lambda>_. 0) (km_managers k') (km_pool k')"
  shows "km_ok k'"
proof -
  have same: "list_all2 same_mgr (km_managers k) (km_managers k')" and cfg: "pool_cfg (km_pool k') = pool_cfg (km_pool k)"
    using assms(2) by (simp_all add: same_shape_def)
  have len: "length (km_managers k') = length (km_managers k)" using same by (simp add: list_all2_lengthD)
  have "kind_ok (km_managers k') (hash_block_size (km_pool k')) (coord_kind (km_coord k'))"
    using kind_ok_same [OF _ same] assms(1,2) pool_cfgD(3) [OF cfg] by (simp add: km_ok_def same_shape_def)
  moreover have "\<forall>i < length (km_managers k'). kv_cache_group_id (km_managers k' ! i) = i"
    using assms(1) same len by (simp add: km_ok_def list_all2_conv_all_nth same_mgr_def)
  ultimately show ?thesis
    using assms len pool_cfgD(2) [OF cfg] by (simp add: km_ok_def same_shape_def)
qed

lemma over_managers_shape: "over_managers f c = Inr c' \<Longrightarrow> coord_kind c' = coord_kind c \<and> coord_use_eagle c' = coord_use_eagle c"
  by (auto simp: over_managers_def result_simps)

lemma commit_slots_shape:
  assumes "commit_slots r ncb t enc tc delay k = Inr (b, k')"
  shows "coord_kind (km_coord k') = coord_kind (km_coord k) \<and> coord_use_eagle (km_coord k') = coord_use_eagle (km_coord k) \<and>
    km_log_stats k' = km_log_stats k \<and> km_stats k' = km_stats k"
proof -
  let ?ncbs = "blocks_of k ncb" and ?c = "km_coord k"
  let ?same = "\<lambda>c. coord_kind c = coord_kind ?c \<and> coord_use_eagle c = coord_use_eagle ?c"
  obtain c1 c2 nb c3 where c:
      "(if km_enable_caching k then rbind (touch ?ncbs (block_pool_of ?c)) (\<lambda>p. Inr (?c\<lparr>block_pool_of := p\<rparr>))
        else rbind (rassert (\<not> list_ex (\<lambda>g. g \<noteq> []) ?ncbs)) (\<lambda>_. Inr ?c)) = Inr c1"
      "(if ncb \<noteq> EmptyKVCacheBlocks then coord_save_new_computed_blocks (request_id r) ?ncbs c1 else Inr c1) = Inr c2"
      "coord_allocate_new_blocks (request_id r) t enc c2 = Inr (nb, c3)"
      "(if \<not> km_enable_caching k \<or> delay then Inr (create_kv_cache_blocks nb, k\<lparr>km_coord := c3\<rparr>)
        else rbind (coord_cache_blocks r (nat tc) c3) (\<lambda>c4. Inr (create_kv_cache_blocks nb, k\<lparr>km_coord := c4\<rparr>))) = Inr (b, k')"
    using assms unfolding commit_slots_def Let_def rbind_eq_Inr_iff by force
  have "?same c1" using c(1) by (auto simp: result_simps split: if_splits)
  then have "?same c2" using c(2) by (auto simp: coord_save_new_computed_blocks_def result_simps split: if_splits)
  then have "?same c3" using c(3) by (auto simp: coord_allocate_new_blocks_def result_simps)
  then show ?thesis
    using c(4) by (auto simp: coord_cache_blocks_def result_simps split: if_splits dest!: over_managers_shape)
qed

lemma allocate_slots_shape:
  assumes "allocate_slots r new newc ncb look delay enc k = Inr (res, k')"
  shows "coord_kind (km_coord k') = coord_kind (km_coord k) \<and> coord_use_eagle (km_coord k') = coord_use_eagle (km_coord k) \<and>
    km_log_stats k' = km_log_stats k \<and> km_stats k' = km_stats k"
proof -
  obtain c1 n c2 where c: "coord_remove_skipped_blocks (request_id r) (num_computed_tokens r) (km_coord k) = Inr c1"
      "coord_num_blocks_to_allocate (request_id r) (min (num_computed_tokens r + newc + new + look) (km_max_model_len k))
         (blocks_of k (case ncb of Some b \<Rightarrow> b | None \<Rightarrow> EmptyKVCacheBlocks)) enc c1 = Inr (n, c2)"
      "k' = k\<lparr>km_coord := c2\<rparr> \<or> (\<exists>b. commit_slots r (case ncb of Some b \<Rightarrow> b | None \<Rightarrow> EmptyKVCacheBlocks)
         (min (num_computed_tokens r + newc + new + look) (km_max_model_len k)) enc
         (min (num_computed_tokens r + newc + new) (int (num_tokens r))) delay (k\<lparr>km_coord := c2\<rparr>) = Inr (b, k'))"
    using assms by (auto simp: allocate_slots_def Let_def result_simps split: if_splits)
  have "coord_kind c2 = coord_kind (km_coord k) \<and> coord_use_eagle c2 = coord_use_eagle (km_coord k)"
    using c(1,2) by (auto simp: coord_remove_skipped_blocks_def coord_num_blocks_to_allocate_def result_simps dest!: over_managers_shape)
  with c(3) show ?thesis by (auto dest!: commit_slots_shape)
qed

section \<open>Each call keeps the invariant\<close>

lemma same_shapeI_stats:
  "k' = k\<lparr>km_stats := Some s\<rparr> \<Longrightarrow> same_shape k k'"
  by (simp add: same_shape_def)

lemma same_shapeI_pool:
  "k' = k\<lparr>km_coord := (km_coord k)\<lparr>block_pool_of := p\<rparr>\<rparr> \<Longrightarrow> pool_cfg p = pool_cfg (km_pool k) \<Longrightarrow> same_shape k k'"
  by (simp add: same_shape_def)

lemma init_ok:
  assumes "kv_cache_manager_init cfg ml hb caching eagle ls ev ui dcp pcp = Inr k"
    and "\<forall>g \<in> set (kv_cache_groups cfg). 0 < spec_block_size (group_spec g)" "1 \<le> dcp" "1 \<le> pcp"
  shows "km_ok k"
proof -
  obtain c where c: "get_kv_cache_coordinator cfg eagle caching ev ui dcp pcp hb = Inr c" "km_coord k = c"
      "num_kv_cache_groups k = length (kv_cache_groups cfg)" "km_log_stats k \<longrightarrow> km_stats k \<noteq> None"
    using assms(1) by (auto simp: kv_cache_manager_init_def result_simps)
  from coordinator_kind_ok [OF c(1) assms(3,4)] c init_kv_inv [OF assms(1,2)] show ?thesis by (simp add: km_ok_def)
qed

lemma computed_shape:
  assumes "get_computed_blocks r k = Inr (b, n, k')"
  shows "k' = k \<or> (\<exists>s. k' = k\<lparr>km_stats := Some s\<rparr>)"
  using assms by (auto simp: get_computed_blocks_def Let_def result_simps split: if_splits option.splits)

lemma computed_ok_step: "get_computed_blocks r k = Inr (b, n, k') \<Longrightarrow> km_ok k \<Longrightarrow> km_ok k'"
  using computed_shape [of r k b n k'] km_ok_step [OF _ same_shapeI_stats [OF refl], of k] by (auto simp: km_ok_def)

lemma list_all2_same: "list_all2 R ms ms' \<Longrightarrow> (\<And>m m'. R m m' \<Longrightarrow> same_mgr m m') \<Longrightarrow> list_all2 same_mgr ms ms'"
  by (rule list_all2_mono)

lemma alloc_ok_step:
  assumes "km_ok k" "alloc_args r new newc ncb look delay enc k" "allocate_slots r new newc (Some ncb) look delay enc k = Inr (res, k')"
  shows "km_ok k'"
proof -
  have pre: "alloc_pre r new newc ncb look delay enc k" using assms(1,2) by (simp add: alloc_pre_def km_ok_def)
  note res = allocate_slots_total [OF pre, unfolded assms(3)]
  have inv: "kv_inv (\<lambda>_. 0) (km_managers k') (km_pool k')" using res by auto
  have "same_shape k k'"
  proof (cases res)
    case None
    obtain c1 c2 n where c: "coord_remove_skipped_blocks (request_id r) (num_computed_tokens r) (km_coord k) = Inr c1"
        "coord_num_blocks_to_allocate (request_id r) (min (num_computed_tokens r + newc + new + look) (km_max_model_len k))
           (blocks_of k ncb) enc c1 = Inr (n, c2)" "k' = k\<lparr>km_coord := c2\<rparr>"
      using assms(3) None by (auto simp: allocate_slots_def Let_def result_simps split: if_splits)
    have "pool_cfg (block_pool_of c1) = pool_cfg (km_pool k)"
      using c(1) coord_skip_loop [of "\<lambda>_. 0" "km_managers k" "km_pool k" "request_id r" "num_computed_tokens r"] pre
      by (auto simp: alloc_pre_def alloc_args_def Let_def coord_remove_skipped_blocks_def over_managers_def)
    then have "pool_cfg (km_pool k') = pool_cfg (km_pool k)"
      using c(2,3) by (auto simp: coord_num_blocks_to_allocate_def result_simps)
    moreover have "list_all2 (kept (request_id r)) (km_managers k) (km_managers k')" using res None by auto
    then have "list_all2 same_mgr (km_managers k) (km_managers k')" by (rule list_all2_same) (simp add: kept_def)
    ultimately show ?thesis using allocate_slots_shape [OF assms(3)] c(3) by (simp add: same_shape_def)
  next
    case (Some b)
    then have sr: "slots_result r (need_slots r new newc look k) enc k b k'" using res by auto
    then have "list_all2 same_mgr (km_managers k) (km_managers k')"
      unfolding slots_result_def by (blast intro: list_all2_same)
    with sr show ?thesis using allocate_slots_shape [OF assms(3)] by (simp add: same_shape_def slots_result_def)
  qed
  with assms(1) inv show ?thesis by (blast intro: km_ok_step)
qed

lemma km_shape_over:
  assumes "over_managers f (km_coord k) = Inr c" "managers_loop f (km_managers k) (km_pool k) = Inr (ms', p')"
    and "list_all2 same_mgr (km_managers k) ms'" "pool_cfg p' = pool_cfg (km_pool k)"
  shows "same_shape k (k\<lparr>km_coord := c\<rparr>)" "km_managers (k\<lparr>km_coord := c\<rparr>) = ms'" "km_pool (k\<lparr>km_coord := c\<rparr>) = p'"
  using assms by (auto simp: over_managers_def same_shape_def)

lemma free_ok_step:
  assumes "km_ok k" "km_free r k = Inr k'"
  shows "km_ok k'"
proof -
  have inv: "kv_inv (\<lambda>_. 0) (km_managers k) (km_pool k)" using assms(1) by (simp add: km_ok_def)
  obtain ms' p' where l: "managers_loop (st_free (request_id r)) (km_managers k) (km_pool k) = Inr (ms', p')"
      "kv_inv (\<lambda>_. 0) ms' p'" "pool_cfg p' = pool_cfg (km_pool k)" "list_all2 same_mgr (km_managers k) ms'"
    using coord_free_loop [OF inv, of "request_id r"] by (blast intro: list_all2_same)
  obtain c where "over_managers (st_free (request_id r)) (km_coord k) = Inr c" "k' = k\<lparr>km_coord := c\<rparr>"
    using assms(2) by (auto simp: km_free_def coord_free_def result_simps)
  with km_shape_over [OF _ l(1,4,3)] l(2) assms(1) show ?thesis by (metis km_ok_step)
qed

lemma cache_ok_step:
  assumes "km_ok k" "km_cache_blocks r t k = Inr k'" "km_enable_caching k \<Longrightarrow> \<forall>m \<in> set (km_managers k). cache_ok r t (pool_cfg (km_pool k)) m"
  shows "km_ok k'"
proof (cases "km_enable_caching k")
  case True
  have inv: "kv_inv (\<lambda>_. 0) (km_managers k) (km_pool k)" using assms(1) by (simp add: km_ok_def)
  obtain ms' p' where l: "managers_loop (cache_blocks r t) (km_managers k) (km_pool k) = Inr (ms', p')"
      "kv_inv (\<lambda>_. 0) ms' p'" "pool_cfg p' = pool_cfg (km_pool k)" "list_all2 same_mgr (km_managers k) ms'"
    using coord_cache_loop [OF inv assms(3) [OF True]] by (blast intro: list_all2_same)
  obtain c where "over_managers (cache_blocks r t) (km_coord k) = Inr c" "k' = k\<lparr>km_coord := c\<rparr>"
    using assms(2) True by (auto simp: km_cache_blocks_def coord_cache_blocks_def result_simps)
  with km_shape_over [OF _ l(1,4,3)] l(2) assms(1) show ?thesis by (metis km_ok_step)
qed (use assms in \<open>simp add: km_cache_blocks_def\<close>)

lemma pool_ok_step:
  assumes "km_ok k" "k' = k\<lparr>km_coord := (km_coord k)\<lparr>block_pool_of := p\<rparr>\<rparr>" "kv_inv (\<lambda>_. 0) (km_managers k) p"
    and "pool_cfg p = pool_cfg (km_pool k)"
  shows "km_ok k'"
  using km_ok_step [OF assms(1) same_shapeI_pool [OF assms(2,4)]] assms(2,3) by simp

lemma evict_ok_step:
  assumes "km_ok k" "km_evict_blocks ids k = Inr k'"
  shows "km_ok k'"
proof -
  obtain p where p: "evict_blocks ids (km_pool k) = Inr p" "k' = k\<lparr>km_coord := (km_coord k)\<lparr>block_pool_of := p\<rparr>\<rparr>"
    using assms(2) by (auto simp: km_evict_blocks_def result_simps)
  have "kv_inv (\<lambda>_. 0) (km_managers k) p \<and> pool_cfg p = pool_cfg (km_pool k)"
    using kv_inv_evict [OF _ evict_blocks_range [OF p(1)]] p(1) assms(1) by (fastforce simp: km_ok_def)
  with p assms(1) show ?thesis by (blast intro: pool_ok_step)
qed

lemma reset_cfg: "pool_cfg (snd (reset_prefix_cache p)) = pool_cfg p"
  by (simp add: reset_prefix_cache_def Let_def pool_cfg_def emit_def)

lemma reset_ok_step:
  assumes "km_ok k" "km_reset_prefix_cache k = Inr (ok, k')"
  shows "km_ok k'"
proof -
  let ?p = "snd (reset_prefix_cache (km_pool k))"
  let ?k1 = "k\<lparr>km_coord := (km_coord k)\<lparr>block_pool_of := ?p\<rparr>\<rparr>"
  have k1: "km_ok ?k1" using assms(1) kv_inv_reset by (intro pool_ok_step [OF assms(1) refl]) (auto simp: km_ok_def reset_cfg)
  have "k' = ?k1 \<or> (\<exists>s. k' = ?k1\<lparr>km_stats := Some s\<rparr>)"
    using assms(2) by (auto simp: km_reset_prefix_cache_def Let_def split: prod.splits if_splits option.splits)
  with k1 km_ok_step [OF k1 same_shapeI_stats [OF refl]] show ?thesis by (auto simp: km_ok_def)
qed

lemma common_unchanged:
  "common_prefix_loop p rid ms = (ns, ms') \<Longrightarrow> list_all2 unchanged ms ms'"
proof (induction ms arbitrary: ns ms')
  case (Cons m ms)
  obtain n m' ns1 ms1 where m: "get_num_common_prefix_blocks p rid m = (n, m')" "common_prefix_loop p rid ms = (ns1, ms1)"
    "ms' = m' # ms1" using Cons.prems by (auto split: prod.splits)
  obtain bs m1 where r: "req_blocks_of rid m = (bs, m1)" by fastforce
  note props = req_blocks_of_props [OF r]
  have "unchanged m m1" using props by (simp add: unchanged_def same_mgr_def)
  then have "unchanged m m'"
    using m(1) r by (auto simp: get_num_common_prefix_blocks_def unchanged_def same_mgr_def split: if_splits)
  with Cons.IH [OF m(2)] m(3) show ?case by simp
qed simp

lemma common_ok_step:
  assumes "km_ok k"
  shows "km_ok (snd (km_num_common_prefix_blocks rid k))"
proof (cases "coord_kind (km_coord k) = NoPrefixCache")
  case True
  with assms show ?thesis by (simp add: km_num_common_prefix_blocks_def coord_num_common_prefix_blocks_def)
next
  case False
  obtain ns ms' where l: "common_prefix_loop (km_pool k) rid (km_managers k) = (ns, ms')" by fastforce
  have eq: "snd (km_num_common_prefix_blocks rid k) = k\<lparr>km_coord := (km_coord k)\<lparr>single_type_managers := ms'\<rparr>\<rparr>"
    using False l by (simp add: km_num_common_prefix_blocks_def coord_num_common_prefix_blocks_def split: coord_kind.splits)
  note u = common_unchanged [OF l]
  have "list_all2 same_mgr (km_managers k) ms'" using u by (rule list_all2_same) (simp add: unchanged_def)
  then have "same_shape k (k\<lparr>km_coord := (km_coord k)\<lparr>single_type_managers := ms'\<rparr>\<rparr>)" by (simp add: same_shape_def)
  from km_ok_step [OF assms this] kv_inv_unchanged [OF _ u] assms show ?thesis unfolding eq by (simp add: km_ok_def)
qed

section \<open>Reachable managers\<close>

text \<open>
  The scheduler's calls.  The premises beside the calls are what the scheduler guarantees:
  \<open>alloc_args\<close> for an allocation, and for \<^verbatim>\<open>cache_blocks\<close> that the tokens to cache have
  blocks and hashes.
\<close>

inductive km_reachable :: "kv_cache_manager \<Rightarrow> bool" where
  kr_init: "kv_cache_manager_init cfg ml hb caching eagle ls ev ui dcp pcp = Inr k \<Longrightarrow>
    \<forall>g \<in> set (kv_cache_groups cfg). 0 < spec_block_size (group_spec g) \<Longrightarrow> 1 \<le> dcp \<Longrightarrow> 1 \<le> pcp \<Longrightarrow> km_reachable k"
| kr_computed: "km_reachable k \<Longrightarrow> get_computed_blocks r k = Inr (b, n, k') \<Longrightarrow> km_reachable k'"
| kr_allocate: "km_reachable k \<Longrightarrow> alloc_args r new newc ncb look delay enc k \<Longrightarrow>
    allocate_slots r new newc (Some ncb) look delay enc k = Inr (res, k') \<Longrightarrow> km_reachable k'"
| kr_free: "km_reachable k \<Longrightarrow> km_free r k = Inr k' \<Longrightarrow> km_reachable k'"
| kr_cache: "km_reachable k \<Longrightarrow> (km_enable_caching k \<Longrightarrow> \<forall>m \<in> set (km_managers k). cache_ok r t (pool_cfg (km_pool k)) m) \<Longrightarrow>
    km_cache_blocks r t k = Inr k' \<Longrightarrow> km_reachable k'"
| kr_evict: "km_reachable k \<Longrightarrow> km_evict_blocks ids k = Inr k' \<Longrightarrow> km_reachable k'"
| kr_reset: "km_reachable k \<Longrightarrow> km_reset_prefix_cache k = Inr (ok, k') \<Longrightarrow> km_reachable k'"
| kr_common: "km_reachable k \<Longrightarrow> km_reachable (snd (km_num_common_prefix_blocks rid k))"
| kr_events: "km_reachable k \<Longrightarrow> km_reachable (snd (km_take_events k))"
| kr_stats: "km_reachable k \<Longrightarrow> km_reachable (snd (make_prefix_cache_stats k))"

lemma events_cfg: "pool_cfg (snd (take_kv_events p)) = pool_cfg p"
  by (simp add: take_kv_events_def pool_cfg_def)

lemma reachable_ok: "km_reachable k \<Longrightarrow> km_ok k"
proof (induction rule: km_reachable.induct)
  case (kr_events k)
  then have "km_ok (k\<lparr>km_coord := (km_coord k)\<lparr>block_pool_of := snd (take_kv_events (km_pool k))\<rparr>\<rparr>)"
    using kv_inv_events [of "\<lambda>_. 0" "km_managers k" "km_pool k"] events_cfg
    by (intro pool_ok_step [OF _ refl]) (simp_all add: km_ok_def)
  then show ?case by (simp add: km_take_events_def case_prod_unfold)
next
  case (kr_stats k)
  then show ?case
    using km_ok_step [OF _ same_shapeI_stats [OF refl], of k] by (auto simp: make_prefix_cache_stats_def km_ok_def)
qed (blast intro: init_ok computed_ok_step alloc_ok_step free_ok_step cache_ok_step evict_ok_step reset_ok_step common_ok_step)+

section \<open>Computed blocks\<close>

lemma create_blocks_of:
  "length bs = num_kv_cache_groups k \<Longrightarrow> blocks_of k (create_kv_cache_blocks bs) = bs"
proof -
  assume "length bs = num_kv_cache_groups k"
  moreover have "bs = replicate (length bs) []" if "\<not> list_ex (\<lambda>g. g \<noteq> []) bs"
    using that by (simp add: list_ex_iff replicate_length_same)
  ultimately show ?thesis by (auto simp: blocks_of_def create_kv_cache_blocks_def)
qed

lemma computed_hits:
  assumes "km_ok k" "hit_ready (coord_use_eagle (km_coord k)) (coord_kind (km_coord k))" "length (km_managers k) < 2 ^ 32"
    and "1 \<le> num_tokens r" "length (block_hashes r) = num_tokens r div hash_block_size (km_pool k)"
  shows "\<exists>b n k'. get_computed_blocks r k = Inr (b, n, k') \<and> n < num_tokens r \<and>
    list_all2 (\<lambda>i bs. group_hit (km_pool k) (hash_block_size (km_pool k)) (block_hashes r) n i (km_managers k ! i) bs)
      [0..<length (km_managers k)] (blocks_of k b)"
proof (cases "\<not> km_enable_caching k \<or> skip_reading_prefix_cache r")
  case True
  then show ?thesis
    using assms(1,4) by (simp add: get_computed_blocks_def blocks_of_def km_ok_def list_all2_conv_all_nth group_hit_def)
next
  case False
  let ?hb = "hash_block_size (km_pool k)"
  obtain fl where fl: "pool_rep (km_pool k) fl {}" using assms(1) by (auto simp: km_ok_def kv_inv_def pool_inv_def)
  have bs: "\<forall>m \<in> set (km_managers k). 0 < st_block_size m" using assms(1) by (auto simp: km_ok_def kv_inv_def st_wf_def)
  have kind: "kind_ok (km_managers k) ?hb (coord_kind (km_coord k))" using assms(1) by (simp add: km_ok_def)
  have "(int (num_tokens r) - 1) div int ?hb \<le> int (num_tokens r) div int ?hb"
    by (cases "?hb = 0") (simp_all add: zdiv_mono1)
  then have h: "(int (num_tokens r) - 1) div int ?hb \<le> int (length (block_hashes r))" by (simp add: assms(5) zdiv_int)
  from coord_find_hits [OF fl kind assms(2) bs assms(3) _ h] assms(4) obtain blocks n where
    n: "coord_find_longest_cache_hit (block_hashes r) (int (num_tokens r) - 1) (km_coord k) = Inr (blocks, n)"
      "int n \<le> int (num_tokens r) - 1"
      "list_all2 (\<lambda>i bs. group_hit (km_pool k) ?hb (block_hashes r) n i (km_managers k ! i) bs) [0..<length (km_managers k)] blocks"
    by auto
  have "length blocks = num_kv_cache_groups k" using list_all2_lengthD [OF n(3)] assms(1) by (simp add: km_ok_def)
  then have "blocks_of k (create_kv_cache_blocks blocks) = blocks" by (rule create_blocks_of)
  moreover have "\<exists>k'. get_computed_blocks r k = Inr (create_kv_cache_blocks blocks, n, k')"
    using False n(1) assms(1) by (auto simp: get_computed_blocks_def Let_def km_ok_def)
  moreover have "n < num_tokens r" using n(2) by linarith
  ultimately show ?thesis using n(3) by metis
qed

lemma distinct_filterI:
  "(\<And>i j. i < length xs \<Longrightarrow> j < length xs \<Longrightarrow> xs ! i = xs ! j \<Longrightarrow> P (xs ! i) \<Longrightarrow> i = j) \<Longrightarrow> distinct (filter P xs)"
proof (induction xs)
  case (Cons x xs)
  have "distinct (filter P xs)"
  proof (rule Cons.IH)
    fix i j assume "i < length xs" "j < length xs" "xs ! i = xs ! j" "P (xs ! i)"
    with Cons.prems [of "Suc i" "Suc j"] show "i = j" by simp
  qed
  moreover have "x \<notin> set xs" if "P x"
  proof
    assume "x \<in> set xs"
    then obtain j where "j < length xs" "xs ! j = x" by (auto simp: in_set_conv_nth)
    with that Cons.prems [of 0 "Suc j"] show False by simp
  qed
  ultimately show ?case by auto
qed simp

text \<open>A hit may be stored as a request's table when its contents have different hashes.\<close>

lemma group_hit_table_ok:
  assumes "group_hit p hb hashes n i m bs" "distinct (group_hashes_of hashes hb (st_block_size m))"
    and "pool_rep p fl {}" "i < 2 ^ 32" "length bs \<le> length (group_hashes_of hashes hb (st_block_size m))"
  shows "table_ok p bs \<and> (\<forall>j \<in> set bs. 0 < j \<longrightarrow> bhash p j \<noteq> None)"
proof -
  let ?hs = "group_hashes_of hashes hb (st_block_size m)"
  have p: "0 < num_gpu_blocks p" "null_block p = 0" using assms(3) by (simp_all add: pool_rep_def)
  have hit: "block_hit p i (?hs ! j) (bs ! j) \<or> bs ! j = 0" if "j < length bs" for j
    using assms(1) that p(2) by (auto simp: group_hit_def)
  have "j = l" if "j < length bs" "l < length bs" "bs ! j = bs ! l" "0 < bs ! j" for j l
  proof -
    have "bhash p (bs ! j) = Some (block_key i (?hs ! j))" "bhash p (bs ! j) = Some (block_key i (?hs ! l))"
      using hit [OF that(1)] hit [OF that(2)] that(3,4) by (auto simp: block_hit_def)
    then have "?hs ! j = ?hs ! l" using block_key_inj [OF assms(4,4)] by simp
    with that assms(2,5) show ?thesis by (simp add: nth_eq_iff_index_eq)
  qed
  then have "distinct (filter (\<lambda>j. 0 < j) bs)" by (intro distinct_filterI) blast
  moreover have "\<forall>j \<in> set bs. j < num_gpu_blocks p \<and> (0 < j \<longrightarrow> bhash p j \<noteq> None)"
    using hit p(1) by (fastforce simp: in_set_conv_nth block_hit_def)
  ultimately show ?thesis by (auto simp: table_ok_def)
qed

section \<open>Properties\<close>

lemma no_tables_held: "st_wf p m \<Longrightarrow> \<forall>rid. table m rid = [] \<Longrightarrow> held m i = 0"
proof -
  assume wf: "st_wf p m" and t: "\<forall>rid. table m rid = []"
  have "bs = []" if "(rid, bs) \<in> set (req_to_blocks m)" for rid bs
    using wf that t by (metis od_mem_iff option.simps(5) st_wf_def table_def)
  then have "\<forall>e \<in> set (req_to_blocks m). count_list (snd e) i = 0" by (metis count_list.simps(1) prod.collapse)
  then show ?thesis by (simp add: held_def sum_list_eq_0_iff)
qed

text \<open>A manager of four blocks of two tokens for one full attention group, for the concrete instances.\<close>

definition small_config :: kv_cache_config where
  "small_config = \<lparr>num_blocks = 4, kv_cache_tensors = [],
     kv_cache_groups = [\<lparr>layer_names = [''layer''], group_spec = LayerSpec (FullAttentionSpec (attn 2) None None)\<rparr>]\<rparr>"

lemma small_manager:
  obtains k where "kv_cache_manager_init small_config 8 2 True False False False False 1 1 = Inr k" "km_reachable k"
    "km_managers k = [\<lparr>st_spec = FullAttentionSpec (attn 2) None None, st_block_size = 2, req_to_blocks = [],
       num_cached_block = [], kv_cache_group_id = 0\<rparr>]"
    "pool_cfg (km_pool k) = (4, True, 2, 0, False, False)" "km_max_model_len k = 8" "num_kv_cache_groups k = 1" "km_enable_caching k"
    "coord_kind (km_coord k) = Unitary (FullAttentionSpec (attn 2) None None) 2 1 1" "\<not> coord_use_eagle (km_coord k)"
proof -
  obtain p where p: "block_pool_init 4 True 2 False False = Inr p" "pool_cfg p = (4, True, 2, 0, False, False)"
    using block_pool_init_rep [of 4 True 2 False False] by auto
  have init: "\<exists>k. kv_cache_manager_init small_config 8 2 True False False False False 1 1 = Inr k \<and>
    km_managers k = [\<lparr>st_spec = FullAttentionSpec (attn 2) None None, st_block_size = 2, req_to_blocks = [],
       num_cached_block = [], kv_cache_group_id = 0\<rparr>] \<and> km_pool k = p \<and> km_max_model_len k = 8 \<and> num_kv_cache_groups k = 1 \<and>
    km_enable_caching k \<and>
    coord_kind (km_coord k) = Unitary (FullAttentionSpec (attn 2) None None) 2 1 1 \<and> \<not> coord_use_eagle (km_coord k)"
    using p(1)
    by (simp add: kv_cache_manager_init_def get_kv_cache_coordinator_def coordinator_init_def small_config_def
        get_manager_for_kv_cache_spec_def cp_block_size_def unitary_block_size_def Let_def)
  then obtain k where k: "kv_cache_manager_init small_config 8 2 True False False False False 1 1 = Inr k" by blast
  have "km_reachable k" by (rule kr_init [OF k]) (simp_all add: small_config_def)
  with init k p(2) that show ?thesis by auto
qed

lemma small_args:
  assumes "km_managers k = [\<lparr>st_spec = FullAttentionSpec (attn 2) None None, st_block_size = 2, req_to_blocks = [],
       num_cached_block = [], kv_cache_group_id = 0\<rparr>]"
    "pool_cfg (km_pool k) = (4, True, 2, 0, False, False)" "km_max_model_len k = 8" "num_kv_cache_groups k = 1"
  shows "alloc_args ((text_request ''a'' [1, 2, 3])\<lparr>block_hashes := [[7]]\<rparr>) 3 0 EmptyKVCacheBlocks 0 False 0 k"
  using assms
  by (simp add: alloc_args_def Let_def skip_ok_def skipped_blocks_def skipped_tokens_def chunk_ok_def computed_ok_def
      blocks_of_def one_sign_def can_cache_def pool_cfg_def text_request_def num_tokens_def)
    linarith

text \<open>
  C1: (ownership of blocks) in every state that construction and the scheduler's calls reach,
  the pool satisfies its invariant and the reference count of every ordinary block is the
  number of entries, in the block tables of all managers and requests, that name it.  So a
  block is free exactly when no request has it.
\<close>

theorem reference_counts_exact:
  assumes "km_reachable k"
  shows "pool_inv (km_pool k) \<and>
    (\<forall>i. 0 < i \<and> i < num_gpu_blocks (km_pool k) \<longrightarrow>
      refc (km_pool k) i =
        (\<Sum>m \<leftarrow> km_managers k. \<Sum>(rid, bs) \<leftarrow> req_to_blocks m. int (count_list bs i)))"
proof -
  have "int (\<Sum>e \<leftarrow> d. count_list (snd e) i) = (\<Sum>(rid, bs) \<leftarrow> d. int (count_list bs i))" for d :: "(string, nat list) odict" and i
    by (induction d) (auto simp: case_prod_unfold)
  then have e: "int (held m i) = (\<Sum>(rid, bs) \<leftarrow> req_to_blocks m. int (count_list bs i))" for m i
    by (simp add: held_def)
  have "int (held_all ms i) = (\<Sum>m \<leftarrow> ms. \<Sum>(rid, bs) \<leftarrow> req_to_blocks m. int (count_list bs i))" for ms i
    by (induction ms) (simp_all add: held_all_def e)
  with reachable_ok [OF assms] show ?thesis by (simp add: km_ok_def kv_inv_def)
qed

theorem reference_counts_exact_witness:
  "\<exists>k. kv_cache_manager_init small_config 8 2 True False False False False 1 1 = Inr k \<and> refc (km_pool k) 3 = 0"
proof -
  obtain k where k: "kv_cache_manager_init small_config 8 2 True False False False False 1 1 = Inr k" "km_reachable k"
    "km_managers k = [\<lparr>st_spec = FullAttentionSpec (attn 2) None None, st_block_size = 2, req_to_blocks = [],
       num_cached_block = [], kv_cache_group_id = 0\<rparr>]"
    "pool_cfg (km_pool k) = (4, True, 2, 0, False, False)" by (rule small_manager)
  have "num_gpu_blocks (km_pool k) = 4" using k(4) by (simp add: pool_cfg_def)
  with reference_counts_exact [OF k(2)] k show ?thesis by auto
qed

text \<open>
  A call for a running request, without computed blocks, meets the contract in a manager of one full attention group when
  its tokens are within the model's length and, with prefix caching, its full blocks are hashed.
\<close>

lemma full_attention_meets_contract:
  assumes "km_managers k = [m]" and "is_full_attention (st_spec m)" and "num_kv_cache_groups k = 1" and "new \<noteq> 0" and "0 \<le> look"
    and "num_computed_tokens r + new \<le> km_max_model_len k" and "enable_caching (km_pool k) \<and> \<not> delay \<longrightarrow> can_cache r (km_pool k) m"
  shows "alloc_args r new 0 EmptyKVCacheBlocks look delay enc k"
proof -
  have "skip_ok (enable_caching (km_pool k)) (request_id r) (num_computed_tokens r) m"
    using assms(2) by (cases "st_spec m") (simp_all add: skip_ok_def skipped_blocks_def skipped_tokens_def chunk_ok_def)
  with assms show ?thesis by (auto simp: alloc_args_def Let_def computed_ok_def blocks_of_def one_sign_def)
qed

text \<open>
  C2: (allocating slots) a call of \<^verbatim>\<open>allocate_slots\<close> on a reachable manager that meets the contract \<open>alloc_args\<close> returns. The
  contract asks for new tokens within the model's length; skipped tokens that lie within the request's (cached) blocks;
  computed blocks from a hit, and only for a request without blocks; that no group has spare blocks while another lacks some, which a
  decoding step of an encoder-decoder model may break (see the last section); and, with prefix caching, hashes of the full blocks,
  no cross attention and no KV cache events.  When the call
  gives blocks, every manager has room for all tokens up to the lookahead, the new blocks
  belong to this request alone, and no other request's table has changed.  When it gives
  none, the free blocks are fewer than the estimate and no other table has changed either.
\<close>

theorem allocate_slots_spec:
  assumes "km_reachable k" and "alloc_args r new newc ncb look delay enc k"
  shows "\<exists>res k'. allocate_slots r new newc (Some ncb) look delay enc k = Inr (res, k') \<and> km_reachable k' \<and>
    (\<forall>rid. rid \<noteq> request_id r \<longrightarrow> coord_get_blocks rid (km_coord k') = coord_get_blocks rid (km_coord k)) \<and>
    (case res of
       None \<Rightarrow> get_num_free_blocks (km_pool k') <
         (\<Sum>e \<leftarrow> zip (blocks_of k ncb) (km_managers k'). estimate (km_pool k') (request_id r) (need_slots r new newc look k) enc e)
     | Some b \<Rightarrow>
         (\<forall>m \<in> set (km_managers k'). toks_for (need_slots r new newc look k) enc m \<le>
            int (length (table m (request_id r)) * st_block_size m)) \<and>
         (\<forall>i \<in> set (concat (blocks_of k b)). refc (km_pool k') i = 1))"
proof -
  have pre: "alloc_pre r new newc ncb look delay enc k"
    using assms(2) reachable_ok [OF assms(1)] by (simp add: alloc_pre_def km_ok_def)
  from allocate_slots_total [OF pre] obtain res k' where a: "allocate_slots r new newc (Some ncb) look delay enc k = Inr (res, k')"
      "case res of
       None \<Rightarrow> list_all2 (kept (request_id r)) (km_managers k) (km_managers k') \<and>
         get_num_free_blocks (km_pool k') < sum_list (map (estimate (km_pool k') (request_id r) (need_slots r new newc look k) enc)
           (zip (blocks_of k ncb) (km_managers k')))
     | Some b \<Rightarrow> slots_result r (need_slots r new newc look k) enc k b k'" by blast
  have "km_reachable k'" by (rule kr_allocate [OF assms a(1)])
  moreover have "coord_get_blocks rid (km_coord k') = coord_get_blocks rid (km_coord k)" if "rid \<noteq> request_id r" for rid
  proof -
    have "list_all2 (\<lambda>m m'. table m' rid = table m rid) (km_managers k) (km_managers k')"
      using a(2) that by (auto simp: slots_result_def kept_def split: option.splits elim: list_all2_mono)
    then show ?thesis by (simp add: coord_get_blocks_def list_eq_iff_nth_eq list_all2_conv_all_nth)
  qed
  ultimately show ?thesis
    using a by (intro exI [of _ res] exI [of _ k']) (auto simp: slots_result_def has_slots_def split: option.splits)
qed

theorem allocate_slots_spec_witness:
  "\<exists>k res k'. kv_cache_manager_init small_config 8 2 True False False False False 1 1 = Inr k \<and>
     allocate_slots ((text_request ''a'' [1, 2, 3])\<lparr>block_hashes := [[7]]\<rparr>) 3 0 (Some EmptyKVCacheBlocks) 0 False 0 k = Inr (res, k') \<and>
     km_reachable k'"
proof -
  let ?r = "(text_request ''a'' [1, 2, 3])\<lparr>block_hashes := [[7]]\<rparr>"
  obtain k where k: "kv_cache_manager_init small_config 8 2 True False False False False 1 1 = Inr k" "km_reachable k"
    "km_managers k = [\<lparr>st_spec = FullAttentionSpec (attn 2) None None, st_block_size = 2, req_to_blocks = [],
       num_cached_block = [], kv_cache_group_id = 0\<rparr>]"
    "pool_cfg (km_pool k) = (4, True, 2, 0, False, False)" "km_max_model_len k = 8" "num_kv_cache_groups k = 1" by (rule small_manager)
  from allocate_slots_spec [OF k(2) small_args [OF k(3-6)]] k(1) show ?thesis by blast
qed

text \<open>
  C5: (computed blocks) take a reachable manager of fewer than \<open>2 ^ 32\<close> groups whose kinds of attention the lookup supports
  (\<open>hit_ready\<close>: full attention; without context parallelism Mamba layers, sliding windows, with EAGLE only of the alignment's
  block size, and, without EAGLE, chunked attention of the alignment's block size whose chunks are whole blocks; other chunks
  lose blocks that are needed). For a
  request with a token whose full blocks are hashed, \<^verbatim>\<open>get_computed_blocks\<close> returns; the hit leaves at least one token to compute; and in every group the hit has
  blocks for exactly the hit's tokens: cached blocks with the contents' hashes, or null
  blocks where the attention of the next token does not read.
\<close>

theorem get_computed_blocks_hits:
  assumes "km_reachable k" and "hit_ready (coord_use_eagle (km_coord k)) (coord_kind (km_coord k))"
    and "length (km_managers k) < 2 ^ 32"
    and "1 \<le> num_tokens r" and "length (block_hashes r) = num_tokens r div hash_block_size (km_pool k)"
  shows "\<exists>b n k'. get_computed_blocks r k = Inr (b, n, k') \<and> n < num_tokens r \<and>
    length (blocks_of k b) = length (km_managers k) \<and>
    (\<forall>i < length (km_managers k).
       group_hit (km_pool k) (hash_block_size (km_pool k)) (block_hashes r) n i (km_managers k ! i) (blocks_of k b ! i))"
  using computed_hits [OF reachable_ok [OF assms(1)] assms(2-5)] by (auto simp: list_all2_conv_all_nth)

theorem get_computed_blocks_hits_witness:
  "\<exists>k b n k'. kv_cache_manager_init small_config 8 2 True False False False False 1 1 = Inr k \<and>
     get_computed_blocks ((text_request ''a'' [1, 2, 3])\<lparr>block_hashes := [[7]]\<rparr>) k = Inr (b, n, k') \<and> n < 3"
proof -
  let ?r = "(text_request ''a'' [1, 2, 3])\<lparr>block_hashes := [[7]]\<rparr>"
  obtain k where k: "kv_cache_manager_init small_config 8 2 True False False False False 1 1 = Inr k" "km_reachable k"
    "km_managers k = [\<lparr>st_spec = FullAttentionSpec (attn 2) None None, st_block_size = 2, req_to_blocks = [],
       num_cached_block = [], kv_cache_group_id = 0\<rparr>]"
    "pool_cfg (km_pool k) = (4, True, 2, 0, False, False)" "km_max_model_len k = 8" "num_kv_cache_groups k = 1" "km_enable_caching k"
    "coord_kind (km_coord k) = Unitary (FullAttentionSpec (attn 2) None None) 2 1 1" "\<not> coord_use_eagle (km_coord k)"
    by (rule small_manager)
  have n: "num_tokens ?r = 3" by (simp add: num_tokens_def text_request_def)
  have "hit_ready (coord_use_eagle (km_coord k)) (coord_kind (km_coord k))"
    using k(8,9) by (simp add: hit_ready_def hit_supports_def full_supports_def)
  from get_computed_blocks_hits [OF k(2) this, of ?r] k(1,3,4) show ?thesis unfolding n by (auto simp: pool_cfg_def)
qed

text \<open>
  C6: (computed blocks can be taken over) for a request that has no blocks yet, what
  \<^verbatim>\<open>get_computed_blocks\<close> returns is what \<^verbatim>\<open>allocate_slots\<close> asks of its argument: blocks
  in range, none twice, each with a hash, so that touching and storing them succeeds.
\<close>

theorem computed_blocks_admissible:
  assumes "km_reachable k" and "hit_ready (coord_use_eagle (km_coord k)) (coord_kind (km_coord k))"
    and "length (km_managers k) < 2 ^ 32"
    and "1 \<le> num_tokens r" and "length (block_hashes r) = num_tokens r div hash_block_size (km_pool k)"
    and "0 < hash_block_size (km_pool k)"
    and "\<forall>m \<in> set (km_managers k). table m (request_id r) = [] \<and> map_of (num_cached_block m) (request_id r) = None \<and>
      \<not> is_cross_attention (st_spec m) \<and> hash_block_size (km_pool k) dvd st_block_size m \<and>
      distinct (group_hashes_of (block_hashes r) (hash_block_size (km_pool k)) (st_block_size m))"
  shows "\<exists>b n k'. get_computed_blocks r k = Inr (b, n, k') \<and>
    computed_ok (km_pool k) (request_id r) b (blocks_of k b) (km_managers k)"
proof -
  let ?hb = "hash_block_size (km_pool k)" and ?ms = "km_managers k"
  obtain b n k' where b: "get_computed_blocks r k = Inr (b, n, k')" "n < num_tokens r" "length (blocks_of k b) = length ?ms"
      "\<forall>i < length ?ms. group_hit (km_pool k) ?hb (block_hashes r) n i (?ms ! i) (blocks_of k b ! i)"
    using computed_hits [OF reachable_ok [OF assms(1)] assms(2-5)] by (auto simp: list_all2_conv_all_nth)
  obtain fl where fl: "pool_rep (km_pool k) fl {}" using reachable_ok [OF assms(1)] by (auto simp: km_ok_def kv_inv_def pool_inv_def)
  have ok: "table_ok (km_pool k) (blocks_of k b ! i) \<and> (\<forall>j \<in> set (blocks_of k b ! i). 0 < j \<longrightarrow> bhash (km_pool k) j \<noteq> None)"
    if i: "i < length ?ms" for i
  proof (rule group_hit_table_ok [OF b(4) [rule_format, OF i] _ fl])
    let ?m = "?ms ! i"
    have m: "?hb dvd st_block_size ?m" "distinct (group_hashes_of (block_hashes r) ?hb (st_block_size ?m))" "0 < st_block_size ?m"
      using assms(7) i reachable_ok [OF assms(1)] by (auto simp: km_ok_def kv_inv_def st_wf_def)
    show "distinct (group_hashes_of (block_hashes r) ?hb (st_block_size ?m))" by (rule m(2))
    show "i < 2 ^ 32" using i assms(3) by (rule order.strict_trans)
    have "length (blocks_of k b ! i) * st_block_size ?m = n" using b(4) i by (simp add: group_hit_def)
    then have "length (blocks_of k b ! i) = n div st_block_size ?m" using m(3) by auto
    also have "\<dots> \<le> num_tokens r div ?hb * ?hb div st_block_size ?m"
    proof -
      obtain q where q: "st_block_size ?m = ?hb * q" using m(1) by (auto elim: dvdE)
      have "n div st_block_size ?m \<le> num_tokens r div ?hb div q"
        unfolding q div_mult2_eq using b(2) by (intro div_le_mono) simp
      also have "\<dots> = num_tokens r div ?hb * ?hb div st_block_size ?m"
        using assms(6) unfolding q by (metis div_mult2_eq div_mult_self_is_m)
      finally show ?thesis .
    qed
    also have "\<dots> = length (group_hashes_of (block_hashes r) ?hb (st_block_size ?m))"
      using group_hashes_view [OF assms(6) m(1,3), of "block_hashes r"] by (auto simp: assms(5))
    finally show "length (blocks_of k b ! i) \<le> length (group_hashes_of (block_hashes r) ?hb (st_block_size ?m))" .
  qed
  have "list_all2 (save_ok (km_pool k) (request_id r)) (blocks_of k b) ?ms"
    using ok b(3) assms(7) by (auto simp: list_all2_conv_all_nth save_ok_def)
  moreover have "hit_blocks (km_pool k) (blocks_of k b)"
    using ok b(3) by (fastforce simp: hit_blocks_def table_ok_def in_set_conv_nth [of _ "blocks_of k b"])
  moreover have "\<forall>g \<in> set (blocks_of k b). g = []" if "b = EmptyKVCacheBlocks" using that by (simp add: blocks_of_def)
  moreover have "enable_caching (km_pool k)" if "b \<noteq> EmptyKVCacheBlocks"
    using b(1) that reachable_ok [OF assms(1)] by (auto simp: get_computed_blocks_def km_ok_def split: if_splits)
  ultimately show ?thesis using b(1,3) by (auto simp: computed_ok_def)
qed

theorem computed_blocks_admissible_witness:
  "\<exists>k b n k'. kv_cache_manager_init small_config 8 2 True False False False False 1 1 = Inr k \<and>
     get_computed_blocks ((text_request ''a'' [1, 2, 3])\<lparr>block_hashes := [[7]]\<rparr>) k = Inr (b, n, k') \<and>
     computed_ok (km_pool k) ''a'' b (blocks_of k b) (km_managers k)"
proof -
  let ?r = "(text_request ''a'' [1, 2, 3])\<lparr>block_hashes := [[7]]\<rparr>"
  obtain k where k: "kv_cache_manager_init small_config 8 2 True False False False False 1 1 = Inr k" "km_reachable k"
    "km_managers k = [\<lparr>st_spec = FullAttentionSpec (attn 2) None None, st_block_size = 2, req_to_blocks = [],
       num_cached_block = [], kv_cache_group_id = 0\<rparr>]"
    "pool_cfg (km_pool k) = (4, True, 2, 0, False, False)" "km_max_model_len k = 8" "num_kv_cache_groups k = 1" "km_enable_caching k"
    "coord_kind (km_coord k) = Unitary (FullAttentionSpec (attn 2) None None) 2 1 1" "\<not> coord_use_eagle (km_coord k)"
    by (rule small_manager)
  have n: "num_tokens ?r = 3" "request_id ?r = ''a''" by (simp_all add: num_tokens_def text_request_def)
  have "hit_ready (coord_use_eagle (km_coord k)) (coord_kind (km_coord k))"
    using k(8,9) by (simp add: hit_ready_def hit_supports_def full_supports_def)
  from computed_blocks_admissible [OF k(2) this, of ?r] k(1,3,4) show ?thesis
    unfolding n by (auto simp: pool_cfg_def table_def group_hashes_of_def)
qed

text \<open>
  C14: (nothing leaks) when the last request that has blocks is freed, every block but the null
  block is free again, and resetting the prefix cache succeeds.
\<close>

theorem free_last_request:
  assumes "km_reachable k"
    and "\<forall>m \<in> set (km_managers k). \<forall>rid. rid \<noteq> request_id r \<longrightarrow> table m rid = []"
  shows "\<exists>k' k''. km_free r k = Inr k' \<and> get_num_free_blocks (km_pool k') = int (num_gpu_blocks (km_pool k)) - 1 \<and>
    km_reset_prefix_cache k' = Inr (True, k'')"
proof -
  have ok: "km_ok k" by (rule reachable_ok [OF assms(1)])
  then obtain k' where k': "km_free r k = Inr k'" "kv_inv (\<lambda>_. 0) (km_managers k') (km_pool k')"
      "list_all2 (\<lambda>m m'. same_mgr m m' \<and> table m' = (table m)(request_id r := []) \<and>
        map_of (num_cached_block m') = (map_of (num_cached_block m))(request_id r := None)) (km_managers k) (km_managers k')"
      "pool_cfg (km_pool k') = pool_cfg (km_pool k)"
    using km_free_inv [of k r] by (auto simp: km_ok_def)
  have "held m' i = 0" if m': "m' \<in> set (km_managers k')" for m' i
  proof (rule no_tables_held)
    show "st_wf (km_pool k') m'" using k'(2) m' by (simp add: kv_inv_def)
    from list_all2_memD [OF k'(3) m'] assms(2) show "\<forall>rid. table m' rid = []" by auto
  qed
  then have "held_all (km_managers k') i = 0" for i by (simp add: held_all_def sum_list_eq_0_iff)
  then have zero: "\<forall>i. 0 < i \<and> i < num_gpu_blocks (km_pool k') \<longrightarrow> refc (km_pool k') i = 0"
    using k'(2) by (simp add: kv_inv_def)
  obtain fl where fl: "pool_rep (km_pool k') fl {}" using k'(2) by (auto simp: kv_inv_def pool_inv_def)
  have "int (num_gpu_blocks (km_pool k')) - get_num_free_blocks (km_pool k') = 1"
    using pool_all_free_iff [OF fl] zero by blast
  moreover have "fst (reset_prefix_cache (km_pool k'))" using reset_prefix_cache_rep(1) [OF fl] zero by blast
  moreover have "km_ok k'" by (rule free_ok_step [OF ok k'(1)])
  then have "km_log_stats k' \<longrightarrow> km_stats k' \<noteq> None" by (simp add: km_ok_def)
  ultimately show ?thesis
    using k'(1) pool_cfgD(1) [OF k'(4)]
    by (auto simp: km_reset_prefix_cache_def Let_def split: prod.splits)
qed

theorem free_last_request_witness:
  "\<exists>k k' k''. kv_cache_manager_init small_config 8 2 True False False False False 1 1 = Inr k \<and>
     km_free (text_request ''a'' [1]) k = Inr k' \<and> get_num_free_blocks (km_pool k') = 3 \<and>
     km_reset_prefix_cache k' = Inr (True, k'')"
proof -
  obtain k where k: "kv_cache_manager_init small_config 8 2 True False False False False 1 1 = Inr k" "km_reachable k"
    "km_managers k = [\<lparr>st_spec = FullAttentionSpec (attn 2) None None, st_block_size = 2, req_to_blocks = [],
       num_cached_block = [], kv_cache_group_id = 0\<rparr>]"
    "pool_cfg (km_pool k) = (4, True, 2, 0, False, False)" by (rule small_manager)
  from free_last_request [OF k(2), of "text_request ''a'' [1]"] k(1,3,4) show ?thesis
    by (auto simp: pool_cfg_def table_def)
qed

section \<open>Encoder-decoder models\<close>

text \<open>
  A decoder of blocks of 16 tokens beside cross attention of the same block size, four blocks
  in all and no prefix caching.
\<close>

definition enc_dec_config :: kv_cache_config where
  "enc_dec_config = \<lparr>num_blocks = 4, kv_cache_tensors = [],
     kv_cache_groups = [\<lparr>layer_names = [''self''], group_spec = LayerSpec (FullAttentionSpec (attn 16) None None)\<rparr>,
                        \<lparr>layer_names = [''cross''], group_spec = LayerSpec (CrossAttentionSpec (attn 16))\<rparr>]\<rparr>"

definition enc_dec_request :: "int \<Rightarrow> request" where
  "enc_dec_request computed = (text_request ''a'' (replicate 16 7))\<lparr>num_computed_tokens := computed\<rparr>"

text \<open>The count of a decoding step: the cross attention manager, asked for no tokens, counts its blocks as spare.\<close>

lemma decode_count:
  assumes "is_full_attention (st_spec m1)" and "is_cross_attention (st_spec m2)" and "0 < st_block_size m1" and "0 < st_block_size m2"
  shows "\<exists>m1' m2'. num_blocks_loop p rid t [[], []] 0 0 [m1, m2] =
      Inr (cdiv t (int (st_block_size m1)) - int (length (table m1 rid)) - int (length (table m2 rid)), [m1', m2']) \<and> unchanged m1 m1'"
proof -
  have sum: "sum_list (map (estimate p rid t 0) (zip [[], []] [m1, m2])) =
      cdiv t (int (st_block_size m1)) - int (length (table m1 rid)) - int (length (table m2 rid))"
    using assms by (cases "st_spec m1"; cases "st_spec m2") (simp_all add: estimate_def evictable_def blocks_needed_def toks_for_def mamba_num_tokens_def cdiv_def)
  from num_blocks_loop_unchanged [of "[[], []]" "[m1, m2]" p rid t "[]" 0] assms(3,4) sum show ?thesis
    by (auto simp: list_all2_Cons1)
qed

lemma decode_skips_nothing:
  "is_full_attention (st_spec m) \<or> is_cross_attention (st_spec m) \<Longrightarrow> remove_skipped_blocks rid c m p = Inr (m, p)"
  by (cases "st_spec m") (simp_all add: remove_skipped_blocks_def get_num_skipped_tokens_def)

lemma allocate_more_than_free:
  assumes "is_full_attention (st_spec m)" and "0 < st_block_size m" and "0 \<le> get_num_free_blocks p"
    and "get_num_free_blocks p < cdiv t (int (st_block_size m)) - int (length (table m rid))"
  shows "allocate_new_blocks rid t m p = Inl ValueError"
proof -
  obtain bs m1 where r: "req_blocks_of rid m = (bs, m1)" by fastforce
  have "bs = table m rid" using req_blocks_of_props [OF r] by simp
  moreover have "mamba_num_tokens (st_spec m) t = t" using assms(1) by (cases "st_spec m") (simp_all add: mamba_num_tokens_def)
  ultimately show ?thesis
    using assms(2-4) by (simp add: allocate_new_blocks_def base_allocate_new_blocks_def r rcdiv_def get_new_blocks_def)
qed

text \<open>
  C17: (a decoding step of an encoder-decoder model can raise where it should report that the
  cache is full) take a manager without prefix caching, of a full attention group and a cross attention group, and a call for a running
  request, which passes no encoder tokens and no computed blocks. If the full attention group needs more blocks than are
  free, but no more than the free blocks and the request's cross attention blocks together, then
  the estimate subtracts the cross attention blocks, is below the free blocks, and \<^verbatim>\<open>allocate_slots\<close> raises from the pool instead
  of returning \<^verbatim>\<open>None\<close>.
\<close>

theorem cross_attention_count_negative:
  fixes r :: request and look :: int
  assumes "km_managers k = [m1, m2]" and "is_full_attention (st_spec m1)" and "is_cross_attention (st_spec m2)"
    and "0 < st_block_size m1" and "0 < st_block_size m2" and "\<not> km_enable_caching k" and "num_kv_cache_groups k = 2" and "new \<noteq> 0"
  defines "rid \<equiv> request_id r" and "t \<equiv> need_slots r new 0 look k"
  defines "need \<equiv> cdiv t (int (st_block_size m1)) - int (length (table m1 rid))" and "free \<equiv> get_num_free_blocks (km_pool k)"
  assumes "0 \<le> free" and "free < need" and "need - int (length (table m2 rid)) \<le> free"
  shows "(\<exists>c. coord_num_blocks_to_allocate rid t [[], []] 0 (km_coord k) = Inr (need - int (length (table m2 rid)), c)) \<and>
    allocate_slots r new 0 None look delay 0 k = Inl ValueError"
proof -
  let ?c = "km_coord k" and ?p = "km_pool k"
  obtain m1' m2' where loop: "num_blocks_loop ?p rid t [[], []] 0 0 [m1, m2] = Inr (need - int (length (table m2 rid)), [m1', m2'])" and u: "unchanged m1 m1'"
    using decode_count [OF assms(2-5)] unfolding need_def by blast
  let ?c' = "?c\<lparr>single_type_managers := [m1', m2']\<rparr>"
  have count: "coord_num_blocks_to_allocate rid t [[], []] 0 ?c = Inr (need - int (length (table m2 rid)), ?c')"
    using loop assms(1) by (simp add: coord_num_blocks_to_allocate_def)
  have skip: "coord_remove_skipped_blocks rid n ?c = Inr ?c" for n
    using assms(1-3) by (simp add: coord_remove_skipped_blocks_def over_managers_def decode_skips_nothing)
  have m1': "is_full_attention (st_spec m1')" "\<not> is_cross_attention (st_spec m1')" "st_block_size m1' = st_block_size m1" "table m1' = table m1"
    using u assms(2) by (cases "st_spec m1"; simp add: unchanged_def same_mgr_def)+
  have "allocate_new_blocks rid t m1' ?p = Inl ValueError"
    using allocate_more_than_free [OF m1'(1), of ?p t rid] m1'(3,4) assms(4,13,14) unfolding need_def free_def by simp
  then have "coord_allocate_new_blocks rid t 0 ?c' = Inl ValueError" using m1'(2) by (simp add: coord_allocate_new_blocks_def)
  then have commit: "commit_slots r EmptyKVCacheBlocks t 0 x delay (k\<lparr>km_coord := ?c'\<rparr>) = Inl ValueError" for x
    using assms(6,7) by (simp add: commit_slots_def blocks_of_def rid_def numeral_2_eq_2)
  have "allocate_slots r new 0 None look delay 0 k = Inl ValueError"
    using skip count commit assms(7,8,15)
    by (simp add: allocate_slots_def Let_def blocks_of_def numeral_2_eq_2 free_def t_def need_slots_def rid_def)
  with count show ?thesis by blast
qed

text \<open>
  The first step takes one block for a prompt of 16 tokens and two for 32 encoder tokens, which is the whole pool; then the
  next token needs a block.
\<close>

definition enc_dec_step :: "kv_cache_manager result" where
  "enc_dec_step = rbind (kv_cache_manager_init enc_dec_config 448 16 False False False False False 1 1) (\<lambda>k.
     rbind (allocate_slots (enc_dec_request 0) 16 0 None 0 False 32 k) (\<lambda>(res, k'). Inr k'))"

lemma enc_dec_value:
  "map_sum id (\<lambda>k. (map st_spec (km_managers k), map st_block_size (km_managers k), map (\<lambda>m. length (table m ''a'')) (km_managers k),
     km_enable_caching k, num_kv_cache_groups k, get_num_free_blocks (km_pool k), need_slots (enc_dec_request 16) 1 0 0 k)) enc_dec_step =
   Inr ([FullAttentionSpec (attn 16) None None, CrossAttentionSpec (attn 16)], [16, 16], [1, 2], False, 2, 0, 17)"
  by code_simp

theorem cross_attention_count_negative_witness:
  "\<exists>k c. enc_dec_step = Inr k \<and> coord_num_blocks_to_allocate ''a'' 17 [[], []] 0 (km_coord k) = Inr (- 1, c) \<and>
     allocate_slots (enc_dec_request 16) 1 0 None 0 False 0 k = Inl ValueError"
proof -
  from enc_dec_value obtain k where k: "enc_dec_step = Inr k"
      "map st_spec (km_managers k) = [FullAttentionSpec (attn 16) None None, CrossAttentionSpec (attn 16)]" "map st_block_size (km_managers k) = [16, 16]"
      "map (\<lambda>m. length (table m ''a'')) (km_managers k) = [1, 2]" "\<not> km_enable_caching k" "num_kv_cache_groups k = 2" "get_num_free_blocks (km_pool k) = 0"
      "need_slots (enc_dec_request 16) 1 0 0 k = 17"
    by (auto simp: map_sum_Inr_iff)
  from k(2) obtain m1 m2 where m: "km_managers k = [m1, m2]" by (auto simp: map_eq_Cons_conv)
  have "request_id (enc_dec_request 16) = ''a''" by (simp add: enc_dec_request_def text_request_def)
  with cross_attention_count_negative [OF m, of 1 "enc_dec_request 16" 0 False] k m show ?thesis by (intro exI [of _ k]) (simp add: cdiv_def)
qed

end
