(* ===== verification/Request_Queue.thy ===== *)
theory Request_Queue
  imports Request_State "HOL-Library.Multiset"
begin

text \<open>
  The request queues of the scheduler: \<^verbatim>\<open>vllm/v1/core/sched/request_queue.py\<close>, with the
  functions of Python's \<^verbatim>\<open>heapq\<close> that the priority queue calls.

  A queue holds references to requests, of any type \<open>'a\<close>; \<open>lt\<close> is \<^verbatim>\<open>Request.__lt__\<close> on what
  they refer to.  The locale \<open>keyed_order\<close> says that \<open>lt\<close> compares a key in a linear order, as
  \<open>request_lt\<close> does; \<open>queue_policy\<close> is the contract of \<^verbatim>\<open>RequestQueue\<close> that the scheduler
  relies on, interpreted on both policies.
\<close>

section \<open>heapq\<close>

text \<open>\<^verbatim>\<open>_siftdown(heap, startpos, pos)\<close>: move the item at \<open>pos\<close> towards the root.\<close>

function siftdown_loop :: "('a \<Rightarrow> 'a \<Rightarrow> bool) \<Rightarrow> 'a \<Rightarrow> nat \<Rightarrow> nat \<Rightarrow> 'a list \<Rightarrow> 'a list" where
  "siftdown_loop lt newitem startpos pos heap =
     (if startpos < pos \<and> lt newitem (heap ! ((pos - 1) div 2))
      then siftdown_loop lt newitem startpos ((pos - 1) div 2) (heap[pos := heap ! ((pos - 1) div 2)])
      else heap[pos := newitem])"
  by pat_completeness auto
termination by (relation "measure (\<lambda>(lt, x, s, pos, h). pos)") auto

definition siftdown :: "('a \<Rightarrow> 'a \<Rightarrow> bool) \<Rightarrow> nat \<Rightarrow> nat \<Rightarrow> 'a list \<Rightarrow> 'a list" where
  "siftdown lt startpos pos heap = siftdown_loop lt (heap ! pos) startpos pos heap"

text \<open>\<^verbatim>\<open>_siftup(heap, pos)\<close>: bubble the smaller child up until a leaf is hit, then sift down.\<close>

definition smaller_child :: "('a \<Rightarrow> 'a \<Rightarrow> bool) \<Rightarrow> 'a list \<Rightarrow> nat \<Rightarrow> nat" where
  "smaller_child lt heap childpos =
     (if childpos + 1 < length heap \<and> \<not> lt (heap ! childpos) (heap ! (childpos + 1)) then childpos + 1 else childpos)"

function siftup_loop :: "('a \<Rightarrow> 'a \<Rightarrow> bool) \<Rightarrow> nat \<Rightarrow> 'a list \<Rightarrow> nat \<times> 'a list" where
  "siftup_loop lt pos heap =
     (if 2 * pos + 1 < length heap
      then siftup_loop lt (smaller_child lt heap (2 * pos + 1)) (heap[pos := heap ! smaller_child lt heap (2 * pos + 1)])
      else (pos, heap))"
  by pat_completeness auto
termination by (relation "measure (\<lambda>(lt, pos, h). length h - pos)") (auto simp: smaller_child_def)

declare siftdown_loop.simps [simp del] siftup_loop.simps [simp del]

definition siftup :: "('a \<Rightarrow> 'a \<Rightarrow> bool) \<Rightarrow> nat \<Rightarrow> 'a list \<Rightarrow> 'a list" where
  "siftup lt pos heap =
     (case siftup_loop lt pos heap of (pos', heap') \<Rightarrow> siftdown lt pos pos' (heap'[pos' := heap ! pos]))"

definition heappush :: "('a \<Rightarrow> 'a \<Rightarrow> bool) \<Rightarrow> 'a \<Rightarrow> 'a list \<Rightarrow> 'a list" where
  "heappush lt item heap = siftdown lt 0 (length heap) (heap @ [item])"

definition heappop :: "('a \<Rightarrow> 'a \<Rightarrow> bool) \<Rightarrow> 'a list \<Rightarrow> ('a \<times> 'a list) result" where
  "heappop lt heap =
     (if heap = [] then Inl IndexError
      else let lastelt = last heap; heap1 = butlast heap in
           if heap1 = [] then Inr (lastelt, [])
           else Inr (heap1 ! 0, siftup lt 0 (heap1[0 := lastelt])))"

text \<open>\<^verbatim>\<open>for i in reversed(range(n//2)): _siftup(x, i)\<close>\<close>

fun heapify_loop :: "('a \<Rightarrow> 'a \<Rightarrow> bool) \<Rightarrow> nat \<Rightarrow> 'a list \<Rightarrow> 'a list" where
  "heapify_loop lt 0 heap = heap"
| "heapify_loop lt (Suc i) heap = heapify_loop lt i (siftup lt i heap)"

definition heapify :: "('a \<Rightarrow> 'a \<Rightarrow> bool) \<Rightarrow> 'a list \<Rightarrow> 'a list" where
  "heapify lt heap = heapify_loop lt (length heap div 2) heap"

section \<open>The queues\<close>

datatype scheduling_policy = FCFS | PRIORITY

datatype 'a request_queue = FCFSRequestQueue "'a list" | PriorityRequestQueue "'a list"

definition create_request_queue :: "scheduling_policy \<Rightarrow> 'a request_queue" where
  "create_request_queue policy = (case policy of PRIORITY \<Rightarrow> PriorityRequestQueue [] | FCFS \<Rightarrow> FCFSRequestQueue [])"

subsection \<open>First come, first served\<close>

definition fcfs_add_request :: "'a \<Rightarrow> 'a list \<Rightarrow> 'a list" where
  "fcfs_add_request r q = q @ [r]"

definition fcfs_pop_request :: "'a list \<Rightarrow> ('a \<times> 'a list) result" where
  "fcfs_pop_request q = (case q of [] \<Rightarrow> Inl IndexError | r # q' \<Rightarrow> Inr (r, q'))"

definition fcfs_peek_request :: "'a list \<Rightarrow> 'a result" where
  "fcfs_peek_request q = (if q = [] then Inl IndexError else Inr (q ! 0))"

definition fcfs_prepend_request :: "'a \<Rightarrow> 'a list \<Rightarrow> 'a list" where
  "fcfs_prepend_request r q = r # q"

text \<open>\<^verbatim>\<open>extendleft(reversed(requests))\<close>\<close>

definition fcfs_prepend_requests :: "'a list \<Rightarrow> 'a list \<Rightarrow> 'a list" where
  "fcfs_prepend_requests requests q = fold fcfs_prepend_request (rev requests) q"

definition fcfs_remove_request :: "'a \<Rightarrow> 'a list \<Rightarrow> 'a list result" where
  "fcfs_remove_request r q = (if r \<in> set q then Inr (remove1 r q) else Inl ValueError)"

definition fcfs_remove_requests :: "'a list \<Rightarrow> 'a list \<Rightarrow> 'a list" where
  "fcfs_remove_requests rs q = filter (\<lambda>r. r \<notin> set rs) q"

subsection \<open>Priority\<close>

definition prio_add_request :: "('a \<Rightarrow> 'a \<Rightarrow> bool) \<Rightarrow> 'a \<Rightarrow> 'a list \<Rightarrow> 'a list" where
  "prio_add_request lt r h = heappush lt r h"

definition prio_pop_request :: "('a \<Rightarrow> 'a \<Rightarrow> bool) \<Rightarrow> 'a list \<Rightarrow> ('a \<times> 'a list) result" where
  "prio_pop_request lt h = (if h = [] then Inl IndexError else heappop lt h)"

definition prio_peek_request :: "'a list \<Rightarrow> 'a result" where
  "prio_peek_request h = (if h = [] then Inl IndexError else Inr (h ! 0))"

definition prio_prepend_requests :: "('a \<Rightarrow> 'a \<Rightarrow> bool) \<Rightarrow> 'a list \<Rightarrow> 'a list \<Rightarrow> 'a list" where
  "prio_prepend_requests lt requests h = fold (prio_add_request lt) requests h"

definition prio_remove_request :: "('a \<Rightarrow> 'a \<Rightarrow> bool) \<Rightarrow> 'a \<Rightarrow> 'a list \<Rightarrow> 'a list result" where
  "prio_remove_request lt r h = (if r \<in> set h then Inr (heapify lt (remove1 r h)) else Inl ValueError)"

definition prio_remove_requests :: "('a \<Rightarrow> 'a \<Rightarrow> bool) \<Rightarrow> 'a list \<Rightarrow> 'a list \<Rightarrow> 'a list" where
  "prio_remove_requests lt rs h = heapify lt (filter (\<lambda>r. r \<notin> set rs) h)"

text \<open>\<^verbatim>\<open>__iter__\<close> pops a copy of the heap until it is empty.\<close>

fun prio_iter_fuel :: "('a \<Rightarrow> 'a \<Rightarrow> bool) \<Rightarrow> nat \<Rightarrow> 'a list \<Rightarrow> 'a list" where
  "prio_iter_fuel lt 0 h = []"
| "prio_iter_fuel lt (Suc n) h = (case heappop lt h of Inl e \<Rightarrow> [] | Inr (r, h') \<Rightarrow> r # prio_iter_fuel lt n h')"

definition prio_iter :: "('a \<Rightarrow> 'a \<Rightarrow> bool) \<Rightarrow> 'a list \<Rightarrow> 'a list" where
  "prio_iter lt h = prio_iter_fuel lt (length h) h"

subsection \<open>Dispatch\<close>

definition queue_items :: "'a request_queue \<Rightarrow> 'a list" where
  "queue_items q = (case q of FCFSRequestQueue xs \<Rightarrow> xs | PriorityRequestQueue h \<Rightarrow> h)"

definition queue_iter :: "('a \<Rightarrow> 'a \<Rightarrow> bool) \<Rightarrow> 'a request_queue \<Rightarrow> 'a list" where
  "queue_iter lt q = (case q of FCFSRequestQueue xs \<Rightarrow> xs | PriorityRequestQueue h \<Rightarrow> prio_iter lt h)"

definition add_request :: "('a \<Rightarrow> 'a \<Rightarrow> bool) \<Rightarrow> 'a \<Rightarrow> 'a request_queue \<Rightarrow> 'a request_queue" where
  "add_request lt r q =
     (case q of FCFSRequestQueue xs \<Rightarrow> FCFSRequestQueue (fcfs_add_request r xs)
              | PriorityRequestQueue h \<Rightarrow> PriorityRequestQueue (prio_add_request lt r h))"

definition pop_request :: "('a \<Rightarrow> 'a \<Rightarrow> bool) \<Rightarrow> 'a request_queue \<Rightarrow> ('a \<times> 'a request_queue) result" where
  "pop_request lt q =
     (case q of FCFSRequestQueue xs \<Rightarrow> rbind (fcfs_pop_request xs) (\<lambda>(r, xs'). Inr (r, FCFSRequestQueue xs'))
              | PriorityRequestQueue h \<Rightarrow> rbind (prio_pop_request lt h) (\<lambda>(r, h'). Inr (r, PriorityRequestQueue h')))"

definition peek_request :: "'a request_queue \<Rightarrow> 'a result" where
  "peek_request q = (case q of FCFSRequestQueue xs \<Rightarrow> fcfs_peek_request xs | PriorityRequestQueue h \<Rightarrow> prio_peek_request h)"

definition prepend_request :: "('a \<Rightarrow> 'a \<Rightarrow> bool) \<Rightarrow> 'a \<Rightarrow> 'a request_queue \<Rightarrow> 'a request_queue" where
  "prepend_request lt r q =
     (case q of FCFSRequestQueue xs \<Rightarrow> FCFSRequestQueue (fcfs_prepend_request r xs)
              | PriorityRequestQueue h \<Rightarrow> PriorityRequestQueue (prio_add_request lt r h))"

definition prepend_requests :: "('a \<Rightarrow> 'a \<Rightarrow> bool) \<Rightarrow> 'a request_queue \<Rightarrow> 'a request_queue \<Rightarrow> 'a request_queue" where
  "prepend_requests lt rs q =
     (case q of FCFSRequestQueue xs \<Rightarrow> FCFSRequestQueue (fcfs_prepend_requests (queue_iter lt rs) xs)
              | PriorityRequestQueue h \<Rightarrow> PriorityRequestQueue (prio_prepend_requests lt (queue_iter lt rs) h))"

definition remove_request :: "('a \<Rightarrow> 'a \<Rightarrow> bool) \<Rightarrow> 'a \<Rightarrow> 'a request_queue \<Rightarrow> 'a request_queue result" where
  "remove_request lt r q =
     (case q of FCFSRequestQueue xs \<Rightarrow> rbind (fcfs_remove_request r xs) (\<lambda>xs'. Inr (FCFSRequestQueue xs'))
              | PriorityRequestQueue h \<Rightarrow> rbind (prio_remove_request lt r h) (\<lambda>h'. Inr (PriorityRequestQueue h')))"

definition remove_requests :: "('a \<Rightarrow> 'a \<Rightarrow> bool) \<Rightarrow> 'a list \<Rightarrow> 'a request_queue \<Rightarrow> 'a request_queue" where
  "remove_requests lt rs q =
     (case q of FCFSRequestQueue xs \<Rightarrow> FCFSRequestQueue (fcfs_remove_requests rs xs)
              | PriorityRequestQueue h \<Rightarrow> PriorityRequestQueue (prio_remove_requests lt rs h))"

definition queue_bool :: "'a request_queue \<Rightarrow> bool" where
  "queue_bool q \<longleftrightarrow> queue_items q \<noteq> []"

definition queue_len :: "'a request_queue \<Rightarrow> nat" where
  "queue_len q = length (queue_items q)"

section \<open>Heaps keep their elements\<close>

lemma mset_swap_hole:
  assumes "i < length h" "j < length h" "i \<noteq> j"
  shows "mset (h[i := h ! j, j := x]) = mset (h[i := x])"
proof -
  let ?g = "h[i := x]"
  have "h[i := h ! j, j := x] = ?g[i := ?g ! j, j := ?g ! i]" using assms by (simp add: list_update_swap)
  then show ?thesis using mset_swap [of j ?g i] assms by (simp add: list_update_swap)
qed

lemma siftdown_loop_mset: "pos < length h \<Longrightarrow> mset (siftdown_loop lt x s pos h) = mset (h[pos := x])"
proof (induction lt x s pos h rule: siftdown_loop.induct)
  case (1 lt x s pos h)
  let ?pp = "(pos - 1) div 2"
  show ?case
  proof (cases "s < pos \<and> lt x (h ! ?pp)")
    case True
    then have "?pp < pos" by auto
    with 1 True show ?thesis by (simp add: siftdown_loop.simps [of lt x s pos h] mset_swap_hole)
  qed (auto simp: siftdown_loop.simps [of lt x s pos h])
qed

lemma siftdown_mset: "pos < length h \<Longrightarrow> mset (siftdown lt s pos h) = mset h"
  by (simp add: siftdown_def siftdown_loop_mset)

lemma smaller_child_bounds:
  "2 * pos + 1 < length h \<Longrightarrow> pos < smaller_child lt h (2 * pos + 1) \<and> smaller_child lt h (2 * pos + 1) < length h"
  by (auto simp: smaller_child_def)

lemma siftup_loop_mset:
  "siftup_loop lt pos h = (pos', h') \<Longrightarrow> pos < length h \<Longrightarrow>
   pos' < length h' \<and> length h' = length h \<and> mset (h'[pos' := x]) = mset (h[pos := x])"
proof (induction lt pos h rule: siftup_loop.induct)
  case (1 lt pos h)
  show ?case
  proof (cases "2 * pos + 1 < length h")
    case True
    note c = smaller_child_bounds [OF True, of lt]
    have "siftup_loop lt (smaller_child lt h (2 * pos + 1)) (h[pos := h ! smaller_child lt h (2 * pos + 1)]) = (pos', h')"
      using 1(2) True by (simp add: siftup_loop.simps [of lt pos h])
    from 1(1) [OF True this] c 1(3) show ?thesis by (simp add: mset_swap_hole)
  qed (use 1 in \<open>auto simp: siftup_loop.simps [of lt pos h]\<close>)
qed

lemma siftup_mset: "pos < length h \<Longrightarrow> mset (siftup lt pos h) = mset h"
proof -
  assume p: "pos < length h"
  obtain pos' h' where l: "siftup_loop lt pos h = (pos', h')" by fastforce
  from siftup_loop_mset [OF l p, of "h ! pos"] show ?thesis by (simp add: siftup_def l siftdown_mset)
qed

lemma siftup_length: "pos < length h \<Longrightarrow> length (siftup lt pos h) = length h"
  by (metis siftup_mset size_mset)

lemma heappush_mset: "mset (heappush lt x h) = add_mset x (mset h)"
  by (simp add: heappush_def siftdown_mset)

lemma heapify_loop_mset: "i \<le> length h \<Longrightarrow> mset (heapify_loop lt i h) = mset h"
  by (induction i arbitrary: h) (simp_all add: siftup_mset siftup_length)

lemma heapify_mset: "mset (heapify lt h) = mset h"
  by (simp add: heapify_def heapify_loop_mset)

lemma mset_butlast_last: "h \<noteq> [] \<Longrightarrow> mset h = add_mset (last h) (mset (butlast h))"
  by (metis append_butlast_last_id mset_append mset_single_iff add_mset_add_single mset.simps union_commute)

lemma heappop_mset:
  assumes "h \<noteq> []"
  shows "\<exists>h'. heappop lt h = Inr (h ! 0, h') \<and> mset h = add_mset (h ! 0) (mset h')"
proof (cases "butlast h = []")
  case True
  with assms have "h = [last h]" by (metis append_butlast_last_id append_Nil)
  then obtain y where "h = [y]" by blast
  then show ?thesis by (simp add: heappop_def Let_def)
next
  case False
  let ?b = "butlast h"
  have z: "?b ! 0 = h ! 0" using False by (metis length_greater_0_conv nth_butlast)
  have "mset (?b[0 := last h]) = add_mset (last h) (mset ?b - {#?b ! 0#})"
    by (rule mset_update) (use False in \<open>metis length_greater_0_conv\<close>)
  moreover have "0 < length ?b" using False by (metis length_greater_0_conv)
  then have "mset (siftup lt 0 (?b[0 := last h])) = mset (?b[0 := last h])" "?b ! 0 \<in># mset ?b"
    using nth_mem [of 0 ?b] by (simp_all only: siftup_mset length_list_update set_mset_mset)
  ultimately have "add_mset (h ! 0) (mset (siftup lt 0 (?b[0 := last h]))) = mset h"
    using z mset_butlast_last [OF assms] by (metis add_mset_commute insert_DiffM)
  with False assms z show ?thesis by (simp add: heappop_def Let_def)
qed

section \<open>The heap order\<close>

definition par :: "nat \<Rightarrow> nat" where
  "par c = (c - 1) div 2"

lemma par_less [simp]: "0 < c \<Longrightarrow> par c < c"
  by (auto simp: par_def)

lemma par_neq [simp]: "0 < c \<Longrightarrow> par c \<noteq> c" "0 < c \<Longrightarrow> c \<noteq> par c"
  using par_less [of c] by (metis less_irrefl)+

lemma above_par: "0 < c \<Longrightarrow> s \<le> par c \<Longrightarrow> s < c"
  using par_less [of c] by linarith

lemma par_children [simp]: "par (2 * p + 1) = p" "par (Suc (2 * p)) = p" "par (2 * p + 2) = p" "par (Suc (Suc (2 * p))) = p"
  by (simp_all add: par_def)

lemma siftdown_loop_par:
  "siftdown_loop lt x s pos h =
     (if s < pos \<and> lt x (h ! par pos) then siftdown_loop lt x s (par pos) (h[pos := h ! par pos]) else h[pos := x])"
  by (simp add: par_def siftdown_loop.simps [of lt x s pos h])

text \<open>The positions in the subtree of \<open>s\<close>.\<close>

inductive below :: "nat \<Rightarrow> nat \<Rightarrow> bool" for s where
  below_refl: "below s s"
| below_left: "below s p \<Longrightarrow> below s (2 * p + 1)"
| below_right: "below s p \<Longrightarrow> below s (2 * p + 2)"

lemma below_ge: "below s p \<Longrightarrow> s \<le> p"
  by (induction rule: below.induct) auto

lemma below_parent: "below s p \<Longrightarrow> p \<noteq> s \<Longrightarrow> below s (par p) \<and> 0 < p"
  by (cases rule: below.cases) (auto elim: below.cases)

lemma below_parent_ge: "below s p \<Longrightarrow> p \<noteq> s \<Longrightarrow> s \<le> par p"
  using below_parent below_ge by blast

lemma below_child: "below s p \<Longrightarrow> 2 * p + 1 < length h \<Longrightarrow> below s (smaller_child lt h (2 * p + 1))"
  using below_left [of s p] below_right [of s p] by (auto simp: smaller_child_def)

lemma below_0: "below 0 p"
proof (induction p rule: less_induct)
  case (less p)
  show ?case
  proof (cases "p = 0")
    case False
    then have ih: "below 0 (par p)" by (intro less) auto
    have "p = 2 * (par p) + 1 \<or> p = 2 * (par p) + 2" using False unfolding par_def by presburger
    with below_left [OF ih] below_right [OF ih] show ?thesis by metis
  qed (simp add: below_refl)
qed

lemma child_cases: "0 < c \<Longrightarrow> par c = p \<longleftrightarrow> c = 2 * p + 1 \<or> c = 2 * p + (2 :: nat)"
  unfolding par_def by presburger

locale keyed_order =
  fixes lt :: "'a \<Rightarrow> 'a \<Rightarrow> bool" and key :: "'a \<Rightarrow> 'k::linorder"
  assumes lt_key: "lt a b \<longleftrightarrow> key a < key b"
begin

text \<open>\<open>heap_from s h\<close>: no item is smaller than its parent, for the parents from \<open>s\<close> on.\<close>

definition heap_from :: "nat \<Rightarrow> 'a list \<Rightarrow> bool" where
  "heap_from s h \<longleftrightarrow> (\<forall>c. 0 < c \<and> c < length h \<and> s \<le> par c \<longrightarrow> key (h ! (par c)) \<le> key (h ! c))"

text \<open>The same but for the edge above \<open>pos\<close>, whose children are above the grandparent.\<close>

definition heap_but :: "nat \<Rightarrow> nat \<Rightarrow> 'a list \<Rightarrow> bool" where
  "heap_but s pos g \<longleftrightarrow>
     (\<forall>c. 0 < c \<and> c < length g \<and> s \<le> par c \<and> c \<noteq> pos \<longrightarrow> key (g ! (par c)) \<le> key (g ! c)) \<and>
     (s < pos \<longrightarrow> (\<forall>c. 0 < c \<and> c < length g \<and> par c = pos \<longrightarrow> key (g ! (par pos)) \<le> key (g ! c)))"

lemma heap_but_step:
  assumes "heap_but s pos (h[pos := x])" "pos < length h" "below s pos" "pos \<noteq> s" "key x < key (h ! (par pos))"
  shows "heap_but s (par pos) ((h[pos := h ! (par pos)])[par pos := x])"
proof -
  let ?pp = "par pos"
  let ?g = "h[pos := x]" and ?g' = "(h[pos := h ! ?pp])[?pp := x]"
  have pp: "?pp < pos" "s \<le> ?pp" using below_parent [OF assms(3,4)] below_parent_ge [OF assms(3,4)] by auto
  have g': "?g' ! i = (if i = ?pp then x else if i = pos then h ! ?pp else h ! i)" if "i < length h" for i
    using that by (simp add: nth_list_update)
  have g: "?g ! i = (if i = pos then x else h ! i)" if "i < length h" for i using that by (simp add: nth_list_update)
  have ok: "key (?g ! (par c)) \<le> key (?g ! c)" if "0 < c" "c < length h" "s \<le> par c" "c \<noteq> pos" for c
    using assms(1) that by (simp add: heap_but_def)
  have gp: "key (h ! ?pp) \<le> key (h ! c)" if "0 < c" "c < length h" "par c = pos" for c
  proof -
    have "s < pos" "c \<noteq> pos" using pp that by auto
    then have "key (?g ! ?pp) \<le> key (?g ! c)" using assms(1) that unfolding heap_but_def by (metis length_list_update)
    moreover have "?g ! c = h ! c" "?g ! ?pp = h ! ?pp" using \<open>c \<noteq> pos\<close> pp(1) by simp_all
    ultimately show ?thesis by simp
  qed
  have edge: "key (?g' ! (par c)) \<le> key (?g' ! c)" if c: "0 < c" "c < length h" "s \<le> par c" "c \<noteq> ?pp" for c
  proof -
    let ?q = "par c"
    have q: "?q < c" "?q < length h" using c par_less [OF c(1)] by (simp_all only: less_trans)
    consider (a) "c = pos" | (b) "c \<noteq> pos" "?q = pos" | (c) "c \<noteq> pos" "?q = ?pp" | (d) "c \<noteq> pos" "?q \<noteq> pos" "?q \<noteq> ?pp" by blast
    then show ?thesis
    proof cases
      case a
      then have "?g' ! ?q = x" "?g' ! c = h ! ?pp" using g' [OF q(2)] g' [OF c(2)] c(4) by simp_all
      with assms(5) show ?thesis by (simp only: less_imp_le)
    next
      case b
      with gp [OF c(1,2)] g' [of c] g' [of pos] c pp assms(2) show ?thesis by auto
    next
      case c
      with ok [OF that(1,2,3)] g [of c] g [of ?pp] g' [of c] g' [of ?pp] assms(5) q pp that show ?thesis by auto
    next
      case d
      with ok [OF c(1,2,3)] g [of c] g [of ?q] g' [of c] g' [of ?q] c q show ?thesis by auto
    qed
  qed
  have "key (?g' ! (par ?pp)) \<le> key (?g' ! c)" if c: "s < ?pp" "0 < c" "c < length h" "par c = ?pp" for c
  proof -
    have b: "below s ?pp" "?pp \<noteq> s" using below_parent [OF assms(3,4)] c(1) by auto
    have up: "s \<le> par ?pp" "par ?pp < ?pp" "0 < ?pp" using below_parent_ge [OF b] below_parent [OF b] by auto
    have e1: "key (h ! (par ?pp)) \<le> key (h ! ?pp)"
      using ok [of ?pp] g [of ?pp] g [of "par ?pp"] up pp assms(2) by auto
    have "c \<noteq> pos \<Longrightarrow> key (h ! ?pp) \<le> key (h ! c)" using ok [of c] g [of c] g [of ?pp] c pp by auto
    moreover have "?g' ! par ?pp = h ! par ?pp" using up(2) pp by simp
    moreover have "?g' ! c = (if c = pos then h ! ?pp else h ! c)" using g' [OF c(3)] c(2,4) by auto
    ultimately show ?thesis using e1 by (auto intro: order_trans)
  qed
  with edge show ?thesis by (simp add: heap_but_def)
qed

lemma siftdown_loop_heap:
  "heap_but s pos (h[pos := x]) \<Longrightarrow> pos < length h \<Longrightarrow> below s pos \<Longrightarrow> heap_from s (siftdown_loop lt x s pos h)"
proof (induction pos arbitrary: h rule: less_induct)
  case (less pos)
  let ?pp = "par pos"
  show ?case
  proof (cases "s < pos \<and> lt x (h ! ?pp)")
    case True
    then have pp: "?pp < pos" "pos \<noteq> s" by auto
    have "heap_from s (siftdown_loop lt x s ?pp (h[pos := h ! ?pp]))"
    proof (rule less.IH [OF pp(1)])
      show "heap_but s ?pp (h[pos := h ! ?pp, ?pp := x])"
        using heap_but_step [OF less.prems pp(2)] True by (simp add: lt_key)
      show "below s ?pp" using below_parent [OF less.prems(3) pp(2)] by blast
    qed (use pp less.prems in auto)
    with True show ?thesis by (simp add: siftdown_loop_par [of lt x s pos h])
  next
    case False
    let ?g = "h[pos := x]"
    have "key (?g ! (par c)) \<le> key (?g ! c)" if c: "0 < c" "c < length h" "s \<le> par c" for c
    proof (cases "c = pos")
      case True
      then have "s < pos" "?pp \<noteq> pos" using c above_par [of pos s] by simp_all
      with False True less.prems(2) show ?thesis by (simp add: lt_key not_less)
    next
      case f: False
      with less.prems(1) c show ?thesis by (simp add: heap_but_def)
    qed
    with False show ?thesis by (auto simp: siftdown_loop_par [of lt x s pos h] heap_from_def)
  qed
qed

text \<open>While the hole moves down: the edges that do not touch it, and over it.\<close>

definition heap_hole :: "nat \<Rightarrow> nat \<Rightarrow> 'a list \<Rightarrow> bool" where
  "heap_hole s pos h \<longleftrightarrow>
     (\<forall>c. 0 < c \<and> c < length h \<and> s \<le> par c \<and> c \<noteq> pos \<and> par c \<noteq> pos \<longrightarrow>
        key (h ! (par c)) \<le> key (h ! c)) \<and>
     (s < pos \<longrightarrow> (\<forall>c. 0 < c \<and> c < length h \<and> par c = pos \<longrightarrow> key (h ! (par pos)) \<le> key (h ! c)))"

lemma smaller_child_min:
  assumes "2 * pos + 1 < length h" "0 < c" "c < length h" "par c = pos"
  shows "key (h ! smaller_child lt h (2 * pos + 1)) \<le> key (h ! c)"
  using assms(1,3) assms(4) [unfolded child_cases [OF assms(2)]]
  by (auto simp: smaller_child_def lt_key not_less)

lemma heap_hole_step:
  assumes "heap_hole s pos h" "2 * pos + 1 < length h" "below s pos"
  defines "m \<equiv> smaller_child lt h (2 * pos + 1)"
  shows "heap_hole s m (h[pos := h ! m])"
proof -
  have m: "pos < m" "m < length h" "par m = pos" "0 < m"
    using smaller_child_bounds [OF assms(2), of lt] by (auto simp: m_def smaller_child_def)
  let ?h = "h[pos := h ! m]"
  have h: "?h ! i = (if i = pos then h ! m else h ! i)" if "i < length h" for i using that by (simp add: nth_list_update)
  have edge: "key (?h ! (par c)) \<le> key (?h ! c)"
    if c: "0 < c" "c < length h" "s \<le> par c" "c \<noteq> m" "par c \<noteq> m" for c
  proof -
    have q: "par c < c" using c by auto
    consider (a) "c = pos" | (b) "c \<noteq> pos" "par c = pos" | (d) "c \<noteq> pos" "par c \<noteq> pos" by blast
    then show ?thesis
    proof cases
      case a
      then have "s < pos" using c by (simp add: above_par)
      with assms(1) m a c q show ?thesis by (simp add: heap_hole_def h)
    next
      case b
      then show ?thesis using smaller_child_min [OF assms(2) c(1,2) b(2)] c m by (simp add: h m_def)
    next
      case d
      with assms(1) c q show ?thesis by (simp add: heap_hole_def h)
    qed
  qed
  moreover have "key (?h ! (par m)) \<le> key (?h ! c)" if c: "0 < c" "c < length h" "par c = m" for c
  proof -
    have "m < c" using c par_less [of c] by simp
    then have "c \<noteq> pos" "m \<noteq> pos" "s \<le> m" using m(1) below_ge [OF assms(3)] by simp_all
    with assms(1) c m have "key (h ! par c) \<le> key (h ! c)" unfolding heap_hole_def by blast
    then show ?thesis using c m \<open>c \<noteq> pos\<close> by (simp add: h)
  qed
  ultimately show ?thesis by (simp add: heap_hole_def)
qed

lemma siftup_loop_heap:
  "siftup_loop lt pos h = (pos', h') \<Longrightarrow> heap_hole s pos h \<Longrightarrow> below s pos \<Longrightarrow>
   heap_hole s pos' h' \<and> below s pos' \<and> \<not> 2 * pos' + 1 < length h'"
proof (induction "length h - pos" arbitrary: pos h rule: less_induct)
  case less
  show ?case
  proof (cases "2 * pos + 1 < length h")
    case True
    let ?m = "smaller_child lt h (2 * pos + 1)"
    have "siftup_loop lt ?m (h[pos := h ! ?m]) = (pos', h')" using less.prems(1) True by (simp add: siftup_loop.simps [of lt pos h])
    moreover have "length (h[pos := h ! ?m]) - ?m < length h - pos" using smaller_child_bounds [OF True, of lt] by auto
    ultimately show ?thesis
      using less.hyps heap_hole_step [OF less.prems(2) True less.prems(3)] below_child [OF less.prems(3) True] by blast
  qed (use less.prems in \<open>auto simp: siftup_loop.simps [of lt pos h]\<close>)
qed

lemma siftup_heap:
  assumes "heap_from (Suc s) h" "s < length h"
  shows "heap_from s (siftup lt s h)"
proof -
  obtain pos h' where l: "siftup_loop lt s h = (pos, h')" by fastforce
  have "heap_hole s s h" using assms(1) by (auto simp: heap_hole_def heap_from_def)
  from siftup_loop_heap [OF l this below_refl] have e: "heap_hole s pos h'" "below s pos" "\<not> 2 * pos + 1 < length h'" by auto
  have len: "pos < length h'" using siftup_loop_mset [OF l assms(2)] by blast
  let ?x = "h ! s"
  have leaf: "par c \<noteq> pos" if "0 < c" "c < length h'" for c using e(3) that child_cases [OF that(1), of pos] by auto
  have "key (h'[pos := ?x] ! (par c)) \<le> key (h'[pos := ?x] ! c)"
    if "0 < c" "c < length h'" "s \<le> par c" "c \<noteq> pos" for c
    using e(1) leaf [OF that(1,2)] that by (simp add: heap_hole_def)
  then have "heap_but s pos (h'[pos := ?x])" using leaf by (auto simp: heap_but_def)
  then have "heap_from s (siftdown_loop lt ?x s pos (h'[pos := ?x]))"
    using len e(2) by (intro siftdown_loop_heap) simp_all
  with len show ?thesis by (simp add: siftup_def l siftdown_def)
qed

lemma heapify_heap: "heap_from 0 (heapify lt h)"
proof -
  have "i \<le> length h \<Longrightarrow> heap_from i h \<Longrightarrow> heap_from 0 (heapify_loop lt i h)" for i h
  proof (induction i arbitrary: h)
    case (Suc i)
    then show ?case by (simp add: siftup_heap siftup_length)
  qed simp
  moreover have "heap_from (length h div 2) h" by (auto simp: heap_from_def par_def)
  ultimately show ?thesis by (simp add: heapify_def)
qed

lemma heappush_heap: "heap_from 0 h \<Longrightarrow> heap_from 0 (heappush lt x h)"
proof -
  assume h: "heap_from 0 h"
  have "heap_but 0 (length h) (h @ [x])"
  proof -
    have "key ((h @ [x]) ! par c) \<le> key ((h @ [x]) ! c)" if "0 < c" "c < length h" for c
      using h that less_trans [OF par_less [OF that(1)] that(2)] by (simp add: heap_from_def nth_append)
    moreover have "par c \<noteq> length h" if "0 < c" "c < Suc (length h)" for c using par_less [OF that(1)] that(2) by linarith
    ultimately show ?thesis unfolding heap_but_def by (auto simp: less_Suc_eq)
  qed
  then have "heap_from 0 (siftdown_loop lt x 0 (length h) (h @ [x]))"
    using below_0 by (intro siftdown_loop_heap) simp_all
  then show ?thesis by (simp add: heappush_def siftdown_def)
qed

lemma heap_root_min:
  assumes "heap_from 0 h" "i < length h"
  shows "key (h ! 0) \<le> key (h ! i)"
  using assms(2)
proof (induction i rule: less_induct)
  case (less i)
  show ?case
  proof (cases "i = 0")
    case False
    then have "key (h ! 0) \<le> key (h ! (par i))" using less by simp
    also have "\<dots> \<le> key (h ! i)" using assms(1) less.prems False by (simp add: heap_from_def)
    finally show ?thesis .
  qed simp
qed

lemma heappop_heap:
  assumes "heap_from 0 h" "heappop lt h = Inr (x, h')"
  shows "heap_from 0 h'"
proof (cases "butlast h = []")
  case True
  with assms(2) have "h' = []" by (auto simp: heappop_def Let_def split: if_splits)
  then show ?thesis by (simp add: heap_from_def)
next
  case False
  let ?b = "(butlast h)[0 := last h]"
  have "heap_from 1 ?b"
    unfolding heap_from_def
  proof (intro allI impI, elim conjE)
    fix c assume c: "0 < c" "c < length ?b" "1 \<le> par c"
    then have "par c < length (butlast h)" using par_less [OF c(1)] by simp
    with c assms(1) show "key (?b ! par c) \<le> key (?b ! c)" by (simp add: heap_from_def nth_list_update nth_butlast)
  qed
  moreover have "0 < length ?b" using False by (metis length_greater_0_conv length_list_update)
  ultimately have "heap_from 0 (siftup lt 0 ?b)" by (intro siftup_heap) simp_all
  with assms(2) False show ?thesis by (auto simp: heappop_def Let_def split: if_splits)
qed

end

section \<open>The contract of a request queue\<close>

text \<open>Popping \<open>n\<close> times.\<close>

fun pop_loop :: "('q \<Rightarrow> ('a \<times> 'q) result) \<Rightarrow> nat \<Rightarrow> 'q \<Rightarrow> ('a list \<times> 'q) result" where
  "pop_loop pop 0 q = Inr ([], q)"
| "pop_loop pop (Suc n) q = rbind (pop q) (\<lambda>(r, q1). rbind (pop_loop pop n q1) (\<lambda>(rs, q2). Inr (r # rs, q2)))"

locale queue_policy =
  fixes wf :: "'q \<Rightarrow> bool" and items :: "'q \<Rightarrow> 'a list"
    and add :: "'a \<Rightarrow> 'q \<Rightarrow> 'q" and pop :: "'q \<Rightarrow> ('a \<times> 'q) result" and peek :: "'q \<Rightarrow> 'a result"
    and prepend :: "'a \<Rightarrow> 'q \<Rightarrow> 'q" and remove :: "'a \<Rightarrow> 'q \<Rightarrow> 'q result" and remove_list :: "'a list \<Rightarrow> 'q \<Rightarrow> 'q"
  assumes add_ok: "wf q \<Longrightarrow> wf (add r q) \<and> mset (items (add r q)) = add_mset r (mset (items q))"
    and prepend_ok: "wf q \<Longrightarrow> wf (prepend r q) \<and> mset (items (prepend r q)) = add_mset r (mset (items q))"
    and pop_empty: "items q = [] \<Longrightarrow> pop q = Inl IndexError \<and> peek q = Inl IndexError"
    and pop_some: "wf q \<Longrightarrow> items q \<noteq> [] \<Longrightarrow>
      \<exists>r q'. pop q = Inr (r, q') \<and> peek q = Inr r \<and> wf q' \<and> mset (items q) = add_mset r (mset (items q'))"
    and remove_ok: "wf q \<Longrightarrow> r \<in> set (items q) \<Longrightarrow>
      \<exists>q'. remove r q = Inr q' \<and> wf q' \<and> mset (items q') = mset (items q) - {#r#}"
    and remove_absent: "r \<notin> set (items q) \<Longrightarrow> remove r q = Inl ValueError"
    and remove_list_ok: "wf q \<Longrightarrow> wf (remove_list rs q) \<and> mset (items (remove_list rs q)) = filter_mset (\<lambda>r. r \<notin> set rs) (mset (items q))"
begin

lemma drain:
  "wf q \<Longrightarrow> n \<le> length (items q) \<Longrightarrow> \<exists>rs q'. pop_loop pop n q = Inr (rs, q') \<and> wf q' \<and> length rs = n \<and>
     mset (items q) = mset rs + mset (items q')"
proof (induction n arbitrary: q)
  case (Suc n)
  then have "items q \<noteq> []" by auto
  with pop_some [OF Suc.prems(1)] obtain r q1 where q1: "pop q = Inr (r, q1)" "wf q1" "mset (items q) = add_mset r (mset (items q1))"
    by blast
  then have "length (items q) = Suc (length (items q1))" by (metis size_add_mset size_mset)
  with Suc q1 obtain rs q' where "pop_loop pop n q1 = Inr (rs, q')" "wf q'" "length rs = n" "mset (items q1) = mset rs + mset (items q')"
    by (metis Suc_le_mono)
  with q1 show ?case by simp
qed simp

end

interpretation fcfs: queue_policy "\<lambda>_. True" "\<lambda>q. q" fcfs_add_request fcfs_pop_request fcfs_peek_request
  fcfs_prepend_request fcfs_remove_request fcfs_remove_requests
  by unfold_locales
    (auto simp: fcfs_add_request_def fcfs_pop_request_def fcfs_peek_request_def fcfs_prepend_request_def
      fcfs_remove_request_def fcfs_remove_requests_def neq_Nil_conv)

sublocale keyed_order \<subseteq> prio: queue_policy "heap_from 0" "\<lambda>h. h" "prio_add_request lt" "prio_pop_request lt" prio_peek_request
  "prio_add_request lt" "prio_remove_request lt" "prio_remove_requests lt"
proof
  fix q :: "'a list" and r
  show "heap_from 0 q \<Longrightarrow> heap_from 0 (prio_add_request lt r q) \<and> mset (prio_add_request lt r q) = add_mset r (mset q)"
    by (simp add: prio_add_request_def heappush_heap heappush_mset)
  show "q = [] \<Longrightarrow> prio_pop_request lt q = Inl IndexError \<and> prio_peek_request q = Inl IndexError"
    by (simp add: prio_pop_request_def prio_peek_request_def)
  show "heap_from 0 q \<Longrightarrow> q \<noteq> [] \<Longrightarrow>
      \<exists>r q'. prio_pop_request lt q = Inr (r, q') \<and> prio_peek_request q = Inr r \<and> heap_from 0 q' \<and> mset q = add_mset r (mset q')"
    using heappop_mset [of q lt] heappop_heap [of q] by (auto simp: prio_pop_request_def prio_peek_request_def)
  show "heap_from 0 q \<Longrightarrow> r \<in> set q \<Longrightarrow>
      \<exists>q'. prio_remove_request lt r q = Inr q' \<and> heap_from 0 q' \<and> mset q' = mset q - {#r#}"
    by (simp add: prio_remove_request_def heapify_heap heapify_mset)
  show "r \<notin> set q \<Longrightarrow> prio_remove_request lt r q = Inl ValueError" by (simp add: prio_remove_request_def)
  show "heap_from 0 q \<Longrightarrow> heap_from 0 (prio_remove_requests lt rs q) \<and>
      mset (prio_remove_requests lt rs q) = filter_mset (\<lambda>r. r \<notin> set rs) (mset q)" for rs
    by (simp add: prio_remove_requests_def heapify_heap heapify_mset)
qed

context keyed_order
begin

lemma iter_fuel_sorted:
  "heap_from 0 h \<Longrightarrow> length h \<le> n \<Longrightarrow>
   mset (prio_iter_fuel lt n h) = mset h \<and> sorted_wrt (\<lambda>a b. key a \<le> key b) (prio_iter_fuel lt n h)"
proof (induction n arbitrary: h)
  case (Suc n)
  show ?case
  proof (cases "h = []")
    case False
    from heappop_mset [OF this, of lt] obtain h' where h': "heappop lt h = Inr (h ! 0, h')" "mset h = add_mset (h ! 0) (mset h')" by blast
    have len: "length h' \<le> n" using h'(2) Suc.prems(2) by (metis Suc_le_mono le_trans size_add_mset size_mset)
    from Suc.IH [OF heappop_heap [OF Suc.prems(1) h'(1)] len]
    have ih: "mset (prio_iter_fuel lt n h') = mset h'" "sorted_wrt (\<lambda>a b. key a \<le> key b) (prio_iter_fuel lt n h')" by auto
    have "key (h ! 0) \<le> key b" if "b \<in> set h" for b
      using that heap_root_min [OF Suc.prems(1)] by (auto simp: in_set_conv_nth)
    moreover have "set (prio_iter_fuel lt n h') \<subseteq> set h" using ih(1) h'(2) by (metis mset_subset_eqD set_mset_mset subsetI mset_subset_eq_add_mset_cancel set_mset_add_mset_insert insertCI)
    ultimately show ?thesis using h' ih by auto
  qed (simp add: heappop_def)
qed simp

lemma iter_pop: "h \<noteq> [] \<Longrightarrow> heappop lt h = Inr (r, h') \<Longrightarrow> prio_iter lt h = r # prio_iter lt h'"
proof -
  assume a: "h \<noteq> []" "heappop lt h = Inr (r, h')"
  with heappop_mset [OF a(1), of lt] have "mset h = add_mset (h ! 0) (mset h')" by auto
  then have "length h = Suc (length h')" by (metis size_add_mset size_mset)
  with a show ?thesis by (simp add: prio_iter_def)
qed

end

section \<open>Requests\<close>

text \<open>\<open>st\<close> reads the request that a reference points to.\<close>

definition request_key :: "request \<Rightarrow> int \<times> real \<times> string" where
  "request_key r = (priority r, arrival_time r, request_id r)"

interpretation stored: keyed_order "\<lambda>a b. request_lt (st a) (st b)" "\<lambda>a. request_key (st a)" for st
  by unfold_locales (simp add: request_lt_key request_key_def)

text \<open>The queues that the operations build, for a comparison \<open>lt\<close>.\<close>

inductive queue_reachable :: "('a \<Rightarrow> 'a \<Rightarrow> bool) \<Rightarrow> 'a request_queue \<Rightarrow> bool" for lt where
  qr_create: "queue_reachable lt (create_request_queue policy)"
| qr_add: "queue_reachable lt q \<Longrightarrow> queue_reachable lt (add_request lt r q)"
| qr_pop: "queue_reachable lt q \<Longrightarrow> pop_request lt q = Inr (r, q') \<Longrightarrow> queue_reachable lt q'"
| qr_prepend: "queue_reachable lt q \<Longrightarrow> queue_reachable lt (prepend_request lt r q)"
| qr_prepends: "queue_reachable lt q \<Longrightarrow> queue_reachable lt rs \<Longrightarrow> queue_reachable lt (prepend_requests lt rs q)"
| qr_remove: "queue_reachable lt q \<Longrightarrow> remove_request lt r q = Inr q' \<Longrightarrow> queue_reachable lt q'"
| qr_removes: "queue_reachable lt q \<Longrightarrow> queue_reachable lt (remove_requests lt rs q)"

abbreviation req_lt :: "('a \<Rightarrow> request) \<Rightarrow> 'a \<Rightarrow> 'a \<Rightarrow> bool" where
  "req_lt st \<equiv> \<lambda>a b. request_lt (st a) (st b)"

definition queue_wf :: "('a \<Rightarrow> request) \<Rightarrow> 'a request_queue \<Rightarrow> bool" where
  "queue_wf st q \<longleftrightarrow> (case q of FCFSRequestQueue _ \<Rightarrow> True | PriorityRequestQueue h \<Rightarrow> stored.heap_from st 0 h)"

lemma fold_add_wf:
  "stored.heap_from st 0 h \<Longrightarrow> stored.heap_from st 0 (fold (prio_add_request (req_lt st)) rs h) \<and>
   mset (fold (prio_add_request (req_lt st)) rs h) = mset rs + mset h"
proof (induction rs arbitrary: h)
  case (Cons r rs)
  note a = stored.prio.add_ok [where st = st, OF Cons.prems, of r]
  from Cons.IH [OF conjunct1 [OF a]] a show ?case by simp
qed simp

lemma reachable_wf: "queue_reachable (req_lt st) q \<Longrightarrow> queue_wf st q"
proof (induction rule: queue_reachable.induct)
  case (qr_create policy)
  then show ?case by (simp add: queue_wf_def create_request_queue_def stored.heap_from_def split: scheduling_policy.splits)
next
  case (qr_add q r)
  then show ?case using stored.prio.add_ok [where st = st] by (auto simp: queue_wf_def add_request_def split: request_queue.splits)
next
  case (qr_pop q r q')
  show ?case
  proof (cases q)
    case (PriorityRequestQueue h)
    then obtain h' where h': "prio_pop_request (req_lt st) h = Inr (r, h')" "q' = PriorityRequestQueue h'"
      using qr_pop.hyps by (auto simp: pop_request_def result_simps)
    then have "h \<noteq> []" by (auto simp: prio_pop_request_def)
    moreover have "stored.heap_from st 0 h" using qr_pop.IH PriorityRequestQueue by (simp add: queue_wf_def)
    ultimately show ?thesis using stored.prio.pop_some [where st = st] h' by (fastforce simp: queue_wf_def)
  qed (use qr_pop.hyps in \<open>auto simp: pop_request_def queue_wf_def result_simps\<close>)
next
  case (qr_prepend q r)
  then show ?case using stored.prio.add_ok [where st = st] by (auto simp: queue_wf_def prepend_request_def split: request_queue.splits)
next
  case (qr_prepends q rs)
  then show ?case using fold_add_wf
    by (auto simp: queue_wf_def prepend_requests_def prio_prepend_requests_def split: request_queue.splits)
next
  case (qr_remove q r q')
  then show ?case
    using stored.heapify_heap [of st]
    by (auto simp: queue_wf_def remove_request_def prio_remove_request_def result_simps split: request_queue.splits if_splits)
next
  case (qr_removes q rs)
  then show ?case using stored.prio.remove_list_ok [where st = st]
    by (auto simp: queue_wf_def remove_requests_def split: request_queue.splits)
qed

section \<open>Properties\<close>

lemma fcfs_order:
  "queue_iter lt (fold (add_request lt) arrivals (FCFSRequestQueue xs)) = xs @ arrivals"
  "queue_iter lt (prepend_request lt r (FCFSRequestQueue xs)) = r # xs"
  "queue_iter lt (prepend_requests lt skipped (FCFSRequestQueue xs)) = queue_iter lt skipped @ xs"
proof -
  have "fold (add_request lt) arrivals (FCFSRequestQueue xs) = FCFSRequestQueue (xs @ arrivals)"
    by (induction arrivals arbitrary: xs) (simp_all add: add_request_def fcfs_add_request_def)
  then show "queue_iter lt (fold (add_request lt) arrivals (FCFSRequestQueue xs)) = xs @ arrivals" by (simp add: queue_iter_def)
  show "queue_iter lt (prepend_request lt r (FCFSRequestQueue xs)) = r # xs"
    by (simp add: queue_iter_def prepend_request_def fcfs_prepend_request_def)
  have "fold fcfs_prepend_request ys zs = rev ys @ zs" for ys zs :: "'a list"
    by (induction ys arbitrary: zs) (simp_all add: fcfs_prepend_request_def)
  then show "queue_iter lt (prepend_requests lt skipped (FCFSRequestQueue xs)) = queue_iter lt skipped @ xs"
    by (simp add: queue_iter_def prepend_requests_def fcfs_prepend_requests_def)
qed

text \<open>
  C22: (the order of a request queue) iterating over a queue gives each of its requests once, and popping and
  peeking give the first request of that order; popping leaves the rest in the same order,
  and both raise on an empty queue. In a first come, first served queue the order is that of arrival: requests that are
  added come after all others, in the order in which they are added, and requests that are prepended come before
  all others, a queue of them in its own order. A priority queue gives its requests in the order of priority, arrival time and id,
  and an added or prepended request is one more of them.
\<close>

theorem queue_pops_in_order:
  assumes "queue_reachable (\<lambda>a b. request_lt (st a) (st b)) q"
  defines "lt \<equiv> \<lambda>a b. request_lt (st a) (st b)"
  shows "mset (queue_iter lt q) = mset (queue_items q) \<and>
    (\<forall>xs. q = FCFSRequestQueue xs \<longrightarrow> queue_iter lt (fold (add_request lt) arrivals q) = queue_iter lt q @ arrivals \<and>
       queue_iter lt (prepend_request lt r q) = r # queue_iter lt q \<and>
       queue_iter lt (prepend_requests lt skipped q) = queue_iter lt skipped @ queue_iter lt q) \<and>
    (\<forall>h. q = PriorityRequestQueue h \<longrightarrow> sorted_wrt (\<lambda>a b. \<not> request_lt (st b) (st a)) (queue_iter lt q) \<and>
       mset (queue_iter lt (add_request lt r q)) = add_mset r (mset (queue_iter lt q)) \<and>
       mset (queue_iter lt (prepend_request lt r q)) = add_mset r (mset (queue_iter lt q))) \<and>
    (if queue_bool q
     then peek_request q = Inr (hd (queue_iter lt q)) \<and>
       (\<exists>q'. pop_request lt q = Inr (hd (queue_iter lt q), q') \<and> queue_iter lt q' = tl (queue_iter lt q))
     else peek_request q = Inl IndexError \<and> pop_request lt q = Inl IndexError)"
proof (cases q)
  case (FCFSRequestQueue xs)
  then show ?thesis using fcfs_order(1) [of lt arrivals xs] fcfs_order(2) [of lt r xs] fcfs_order(3) [of lt skipped xs]
    by (cases xs) (auto simp: queue_iter_def queue_items_def queue_bool_def peek_request_def pop_request_def
        fcfs_peek_request_def fcfs_pop_request_def)
next
  case (PriorityRequestQueue h)
  have heap: "stored.heap_from st 0 h" using reachable_wf [OF assms(1)] PriorityRequestQueue by (simp add: queue_wf_def)
  from stored.iter_fuel_sorted [OF heap order_refl]
  have it: "mset (prio_iter lt h) = mset h" "sorted_wrt (\<lambda>a b. request_key (st a) \<le> request_key (st b)) (prio_iter lt h)"
    by (simp_all add: prio_iter_def lt_def)
  have heap': "stored.heap_from st 0 (prio_add_request lt r h)" using stored.prio.add_ok [OF heap, of r] by (simp add: lt_def)
  from stored.iter_fuel_sorted [OF heap' order_refl] stored.prio.add_ok [OF heap, of r]
  have "mset (prio_iter lt (prio_add_request lt r h)) = add_mset r (mset h)" by (simp add: prio_iter_def lt_def)
  with it(1) have more: "mset (queue_iter lt (add_request lt r q)) = add_mset r (mset (queue_iter lt q))"
      "mset (queue_iter lt (prepend_request lt r q)) = add_mset r (mset (queue_iter lt q))"
    by (simp_all add: PriorityRequestQueue queue_iter_def add_request_def prepend_request_def)
  have sorted: "sorted_wrt (\<lambda>a b. \<not> request_lt (st b) (st a)) (prio_iter lt h)"
    by (rule sorted_wrt_mono_rel [OF _ it(2)]) (simp add: stored.lt_key not_less)
  show ?thesis
  proof (cases "h = []")
    case True
    then show ?thesis using PriorityRequestQueue it sorted more
      by (simp add: queue_iter_def queue_items_def queue_bool_def peek_request_def pop_request_def prio_peek_request_def prio_pop_request_def)
  next
    case False
    from heappop_mset [OF this, of lt] obtain h' where h': "heappop lt h = Inr (h ! 0, h')" by blast
    have "prio_iter lt h = h ! 0 # prio_iter lt h'" unfolding lt_def by (rule stored.iter_pop [OF False]) (use h' in \<open>simp add: lt_def\<close>)
    with False h' it sorted more PriorityRequestQueue show ?thesis
      by (simp add: queue_iter_def queue_items_def queue_bool_def peek_request_def pop_request_def prio_peek_request_def prio_pop_request_def)
  qed
qed

text \<open>Two requests in a priority queue, the later one more urgent.\<close>

definition two_requests :: "nat \<Rightarrow> request" where
  "two_requests i =
     (if i = 0 then undefined\<lparr>priority := 5, arrival_time := 1, request_id := ''a''\<rparr>
      else undefined\<lparr>priority := 2, arrival_time := 2, request_id := ''b''\<rparr>)"

theorem queue_pops_in_order_witness:
  "let lt = (\<lambda>a b. request_lt (two_requests a) (two_requests b));
       q = add_request lt 1 (add_request lt 0 (create_request_queue PRIORITY)) in
   (\<exists>q'. pop_request lt q = Inr (1, q') \<and> queue_iter lt q' = [0]) \<and> peek_request q = Inr 1"
proof -
  let ?lt = "\<lambda>a b. request_lt (two_requests a) (two_requests b)"
  let ?q = "add_request ?lt 1 (add_request ?lt 0 (create_request_queue PRIORITY))"
  have lt: "request_lt (two_requests (Suc 0)) (two_requests 0)" "\<not> request_lt (two_requests 0) (two_requests (Suc 0))"
    by (simp_all add: two_requests_def request_lt_def)
  have q: "?q = PriorityRequestQueue [1, 0]"
    by (simp add: create_request_queue_def add_request_def prio_add_request_def heappush_def siftdown_def
        siftdown_loop.simps lt)
  have it: "queue_iter ?lt ?q = [1, 0]"
    unfolding q by (simp add: queue_iter_def prio_iter_def heappop_def siftup_def siftup_loop.simps siftdown_def
        siftdown_loop.simps Let_def)
  have "queue_reachable ?lt ?q" by (intro qr_add qr_create)
  from queue_pops_in_order [of two_requests, OF this, unfolded q] it [unfolded q] show ?thesis
    unfolding Let_def q by (simp add: queue_bool_def queue_items_def)
qed

text \<open>
  (no request is lost or duplicated) adding and prepending adds exactly the given request,
  prepending a queue adds exactly its requests, removing takes out one occurrence or raises,
  and removing many takes out exactly the given ones.
\<close>

lemma queue_keeps_requests:
  assumes "queue_reachable (\<lambda>a b. request_lt (st a) (st b)) q" and "queue_reachable (\<lambda>a b. request_lt (st a) (st b)) rs"
  defines "lt \<equiv> \<lambda>a b. request_lt (st a) (st b)"
  shows "mset (queue_items (add_request lt r q)) = add_mset r (mset (queue_items q)) \<and>
    mset (queue_items (prepend_request lt r q)) = add_mset r (mset (queue_items q)) \<and>
    mset (queue_items (prepend_requests lt rs q)) = mset (queue_items rs) + mset (queue_items q) \<and>
    (if r \<in> set (queue_items q)
     then \<exists>q'. remove_request lt r q = Inr q' \<and> mset (queue_items q') = mset (queue_items q) - {#r#}
     else remove_request lt r q = Inl ValueError) \<and>
    mset (queue_items (remove_requests lt xs q)) = filter_mset (\<lambda>r. r \<notin> set xs) (mset (queue_items q))"
proof -
  have it: "mset (queue_iter lt rs) = mset (queue_items rs)"
  proof (cases rs)
    case (PriorityRequestQueue h)
    then have "stored.heap_from st 0 h" using reachable_wf [OF assms(2)] by (simp add: queue_wf_def)
    from stored.iter_fuel_sorted [OF this order_refl] PriorityRequestQueue show ?thesis
      by (simp add: queue_iter_def queue_items_def prio_iter_def lt_def)
  qed (simp add: queue_iter_def queue_items_def)
  have pre: "fold fcfs_prepend_request ys zs = rev ys @ zs" for ys zs :: "'a list"
    by (induction ys arbitrary: zs) (simp_all add: fcfs_prepend_request_def)
  show ?thesis
  proof (cases q)
    case (FCFSRequestQueue ys)
    then show ?thesis using it
      by (simp add: queue_items_def add_request_def prepend_request_def prepend_requests_def remove_request_def remove_requests_def
          fcfs_add_request_def fcfs_prepend_request_def fcfs_prepend_requests_def fcfs_remove_request_def fcfs_remove_requests_def pre)
  next
    case (PriorityRequestQueue h)
    then have heap: "stored.heap_from st 0 h" using reachable_wf [OF assms(1)] by (simp add: queue_wf_def)
    from PriorityRequestQueue stored.prio.add_ok [OF heap, of r] fold_add_wf [OF heap, of "queue_iter lt rs"] it
      stored.prio.remove_ok [OF heap, of r] stored.prio.remove_absent [of r h st] stored.prio.remove_list_ok [OF heap, of xs]
    show ?thesis
      by (auto simp: queue_items_def add_request_def prepend_request_def prepend_requests_def remove_request_def remove_requests_def
          prio_prepend_requests_def lt_def)
  qed
qed

end
