(* ===== verification/Encoder_Cache.thy ===== *)
theory Encoder_Cache
  imports Request_State
begin

text \<open>
  The encoder cache of multimodal models: \<^verbatim>\<open>vllm/v1/core/encoder_cache_manager.py\<close>.

  \<^verbatim>\<open>cached\<close> maps the hash of a multimodal item to the set of requests that refer to it,
  \<^verbatim>\<open>freeable\<close> orders the unreferenced items by age.  \<^verbatim>\<open>EncoderDecoderCacheManager\<close> has
  only the counters and the list of freed hashes, and is a record of its own.  The
  iteration over a set of input ids goes in increasing order.
\<close>

section \<open>State\<close>

record encoder_cache =
  ec_cache_size :: int
  num_free_slots :: int
  num_freeable_slots :: int
  ec_cached :: "(string, string set) odict"
  freeable :: "(string, nat) odict"
  ec_freed :: "string list"

definition encoder_cache_init :: "nat \<Rightarrow> encoder_cache" where
  "encoder_cache_init cache_size =
     \<lparr>ec_cache_size = int cache_size, num_free_slots = int cache_size, num_freeable_slots = int cache_size,
      ec_cached = [], freeable = [], ec_freed = []\<rparr>"

section \<open>Operations\<close>

definition mm_hash_of :: "request \<Rightarrow> nat \<Rightarrow> string result" where
  "mm_hash_of r input_id = rbind (py_get (mm_features r) input_id) (\<lambda>f. Inr (mm_identifier f))"

definition check_and_update_cache :: "request \<Rightarrow> nat \<Rightarrow> encoder_cache \<Rightarrow> (bool \<times> encoder_cache) result" where
  "check_and_update_cache r input_id e =
     rbind (mm_hash_of r input_id) (\<lambda>mm_hash.
       case map_of (ec_cached e) mm_hash of
         None \<Rightarrow> Inr (False, e)
       | Some refs \<Rightarrow>
           rbind (if refs = {}
                  then rbind (od_lookup (freeable e) mm_hash) (\<lambda>n.
                         Inr (e\<lparr>freeable := AList.delete mm_hash (freeable e),
                                num_freeable_slots := num_freeable_slots e - int n\<rparr>))
                  else Inr e) (\<lambda>e1.
             Inr (True, e1\<lparr>ec_cached := AList.update mm_hash (insert (request_id r) refs) (ec_cached e1)\<rparr>)))"

text \<open>The eviction loop of \<^verbatim>\<open>can_allocate\<close>; \<^verbatim>\<open>popitem\<close> raises on an empty dictionary.\<close>

function evict_until :: "int \<Rightarrow> encoder_cache \<Rightarrow> encoder_cache result" where
  "evict_until num_embeds e =
     (if num_embeds \<le> num_free_slots e then Inr e
      else case freeable e of
        [] \<Rightarrow> Inl KeyError
      | (mm_hash, num_free_embeds) # rest \<Rightarrow>
          rbind (od_lookup (ec_cached e) mm_hash) (\<lambda>_.
            evict_until num_embeds
              (e\<lparr>freeable := rest, ec_cached := AList.delete mm_hash (ec_cached e),
                 ec_freed := ec_freed e @ [mm_hash], num_free_slots := num_free_slots e + int num_free_embeds\<rparr>)))"
  by pat_completeness auto
termination by (relation "measure (\<lambda>(n, e). length (freeable e))") auto

declare evict_until.simps [simp del]

definition can_allocate :: "request \<Rightarrow> nat \<Rightarrow> int \<Rightarrow> int \<Rightarrow> encoder_cache \<Rightarrow> (bool \<times> encoder_cache) result" where
  "can_allocate r input_id encoder_compute_budget num_embeds_to_schedule e =
     rbind (get_num_encoder_embeds r input_id) (\<lambda>n0.
       if encoder_compute_budget < int n0 then Inr (False, e)
       else
         let num_embeds = int n0 + num_embeds_to_schedule in
         if num_embeds \<le> num_free_slots e then Inr (True, e)
         else if num_freeable_slots e < num_embeds then Inr (False, e)
         else rbind (evict_until num_embeds e) (\<lambda>e1. Inr (True, e1)))"

definition ec_allocate :: "request \<Rightarrow> nat \<Rightarrow> encoder_cache \<Rightarrow> encoder_cache result" where
  "ec_allocate r input_id e =
     rbind (mm_hash_of r input_id) (\<lambda>mm_hash.
       let refs = (case map_of (ec_cached e) mm_hash of None \<Rightarrow> {} | Some s \<Rightarrow> s) in
       rbind (get_num_encoder_embeds r input_id) (\<lambda>n.
       rbind (rassert (int n \<le> num_free_slots e)) (\<lambda>_.
       rbind (rassert (int n \<le> num_freeable_slots e)) (\<lambda>_.
         Inr (e\<lparr>ec_cached := AList.update mm_hash (insert (request_id r) refs) (ec_cached e),
                num_free_slots := num_free_slots e - int n,
                num_freeable_slots := num_freeable_slots e - int n\<rparr>)))))"

definition get_cached_input_ids :: "request \<Rightarrow> encoder_cache \<Rightarrow> nat list" where
  "get_cached_input_ids r e =
     filter (\<lambda>i. map_of (ec_cached e) (mm_identifier (mm_features r ! i)) \<noteq> None) [0..<length (mm_features r)]"

definition free_encoder_input :: "request \<Rightarrow> nat \<Rightarrow> encoder_cache \<Rightarrow> encoder_cache result" where
  "free_encoder_input r input_id e =
     rbind (mm_hash_of r input_id) (\<lambda>mm_hash.
       case map_of (ec_cached e) mm_hash of
         None \<Rightarrow> Inr e
       | Some refs \<Rightarrow>
           if refs = {} then Inr e
           else
             let refs1 = refs - {request_id r};
                 e1 = e\<lparr>ec_cached := AList.update mm_hash refs1 (ec_cached e)\<rparr> in
             if refs1 = {}
             then rbind (get_num_encoder_embeds r input_id) (\<lambda>n.
                    Inr (e1\<lparr>freeable := AList.update mm_hash n (freeable e1),
                            num_freeable_slots := num_freeable_slots e1 + int n\<rparr>))
             else Inr e1)"

definition ec_free :: "request \<Rightarrow> encoder_cache \<Rightarrow> encoder_cache result" where
  "ec_free r e = rfold (free_encoder_input r) (get_cached_input_ids r e) e"

definition get_freed_mm_hashes :: "encoder_cache \<Rightarrow> string list \<times> encoder_cache" where
  "get_freed_mm_hashes e = (ec_freed e, e\<lparr>ec_freed := []\<rparr>)"

section \<open>Budgets\<close>

record sched_budget_config =
  bc_disable_chunked_mm_input :: bool
  bc_max_num_batched_tokens :: int
  bc_max_num_encoder_input_tokens :: int
  bc_encoder_cache_size :: int

definition compute_text_encoder_budget :: "sched_budget_config \<Rightarrow> int \<times> int" where
  "compute_text_encoder_budget cfg = (0, 0)"

definition compute_mm_encoder_budget :: "sched_budget_config \<Rightarrow> (string, int) odict \<Rightarrow> (int \<times> int) result" where
  "compute_mm_encoder_budget cfg max_tokens_by_modality =
     (if max_tokens_by_modality = [] then Inr (0, 0)
      else
        let m = Max (set (map snd max_tokens_by_modality)) in
        if bc_disable_chunked_mm_input cfg \<and> bc_max_num_batched_tokens cfg < m then Inl ValueError
        else Inr (max (bc_max_num_encoder_input_tokens cfg) m, max (bc_encoder_cache_size cfg) m))"

text \<open>The multimodal registry is a parameter: the token counts per modality, if the model has any.\<close>

definition compute_encoder_budget :: "(string, int) odict option \<Rightarrow> sched_budget_config \<Rightarrow> (int \<times> int) result" where
  "compute_encoder_budget registry cfg =
     (case registry of
        Some max_tokens_by_modality \<Rightarrow> compute_mm_encoder_budget cfg max_tokens_by_modality
      | None \<Rightarrow> Inr (compute_text_encoder_budget cfg))"

section \<open>Encoder-decoder models\<close>

record enc_dec_cache =
  ed_cache_size :: int
  ed_num_free_slots :: int
  ed_freed :: "string list"

definition enc_dec_init :: "nat \<Rightarrow> enc_dec_cache" where
  "enc_dec_init cache_size = \<lparr>ed_cache_size = int cache_size, ed_num_free_slots = int cache_size, ed_freed = []\<rparr>"

definition ed_check_and_update_cache :: "request \<Rightarrow> nat \<Rightarrow> enc_dec_cache \<Rightarrow> bool" where
  "ed_check_and_update_cache r input_id e = False"

definition ed_can_allocate :: "request \<Rightarrow> nat \<Rightarrow> int \<Rightarrow> int \<Rightarrow> enc_dec_cache \<Rightarrow> bool result" where
  "ed_can_allocate r input_id encoder_compute_budget num_embeds_to_schedule e =
     rbind (get_num_encoder_embeds r input_id) (\<lambda>n.
       Inr (\<not> encoder_compute_budget < int n \<and> int n + num_embeds_to_schedule \<le> ed_num_free_slots e))"

definition ed_allocate :: "request \<Rightarrow> nat \<Rightarrow> enc_dec_cache \<Rightarrow> enc_dec_cache result" where
  "ed_allocate r input_id e =
     rbind (get_num_encoder_embeds r input_id) (\<lambda>n.
     rbind (mm_hash_of r input_id) (\<lambda>mm_hash.
       Inr (e\<lparr>ed_num_free_slots := ed_num_free_slots e - int n, ed_freed := ed_freed e @ [mm_hash]\<rparr>)))"

definition ed_free_encoder_input :: "request \<Rightarrow> nat \<Rightarrow> enc_dec_cache \<Rightarrow> enc_dec_cache result" where
  "ed_free_encoder_input r input_id e =
     rbind (get_num_encoder_embeds r input_id) (\<lambda>n. Inr (e\<lparr>ed_num_free_slots := ed_num_free_slots e + int n\<rparr>))"

definition ed_free :: "request \<Rightarrow> enc_dec_cache \<Rightarrow> enc_dec_cache result" where
  "ed_free r e = rfold (ed_free_encoder_input r) [0..<length (mm_features r)] e"

definition ed_get_cached_input_ids :: "request \<Rightarrow> enc_dec_cache \<Rightarrow> nat list" where
  "ed_get_cached_input_ids r e = [0..<length (mm_features r)]"

definition ed_get_freed_mm_hashes :: "enc_dec_cache \<Rightarrow> string list \<times> enc_dec_cache" where
  "ed_get_freed_mm_hashes e = (ed_freed e, e\<lparr>ed_freed := []\<rparr>)"

section \<open>The accounting invariant\<close>

text \<open>
  \<open>sz\<close> gives the size of the item with a hash.  The free slots are what the cached items leave
  of the capacity, the freeable slots add the unreferenced items, and \<^verbatim>\<open>freeable\<close> lists
  exactly these.
\<close>

definition total_size :: "(string \<Rightarrow> nat) \<Rightarrow> (string, 'v) odict \<Rightarrow> nat" where
  "total_size sz d = sum_list (map (\<lambda>p. sz (fst p)) d)"

definition enc_inv :: "(string \<Rightarrow> nat) \<Rightarrow> encoder_cache \<Rightarrow> bool" where
  "enc_inv sz e \<longleftrightarrow>
     od_wf (ec_cached e) \<and> od_wf (freeable e) \<and>
     (\<forall>h n. map_of (freeable e) h = Some n \<longrightarrow> n = sz h) \<and>
     (\<forall>h. map_of (freeable e) h \<noteq> None \<longleftrightarrow> map_of (ec_cached e) h = Some {}) \<and>
     num_free_slots e = ec_cache_size e - int (total_size sz (ec_cached e)) \<and>
     num_freeable_slots e = num_free_slots e + int (total_size sz (freeable e)) \<and>
     0 \<le> num_free_slots e"

text \<open>The sizes of a request's items are those of their hashes.\<close>

definition sized :: "(string \<Rightarrow> nat) \<Rightarrow> request \<Rightarrow> bool" where
  "sized sz r \<longleftrightarrow> (\<forall>i < length (mm_features r). get_num_encoder_embeds r i = Inr (sz (mm_identifier (mm_features r ! i))))"

lemma total_size_update:
  "od_wf d \<Longrightarrow> total_size sz (AList.update h v d) = total_size sz d + (if map_of d h = None then sz h else 0)"
  using sum_update [of d "\<lambda>p. sz (fst p)" h v] by (auto simp: total_size_def split: option.splits)

lemma total_size_delete:
  "od_wf d \<Longrightarrow> map_of d h \<noteq> None \<Longrightarrow> total_size sz d = total_size sz (AList.delete h d) + sz h"
  using sum_delete [of d "\<lambda>p. sz (fst p)" h] by (auto simp: total_size_def split: option.splits)

lemma enc_inv_init: "enc_inv sz (encoder_cache_init n)"
  by (simp add: enc_inv_def encoder_cache_init_def total_size_def)

lemma mm_hash_of_ok: "i < length (mm_features r) \<Longrightarrow> mm_hash_of r i = Inr (mm_identifier (mm_features r ! i))"
  by (simp add: mm_hash_of_def py_get_def)

lemma check_and_update_inv:
  assumes "enc_inv sz e" "i < length (mm_features r)"
  defines "h \<equiv> mm_identifier (mm_features r ! i)"
  shows "\<exists>e'. check_and_update_cache r i e = Inr (map_of (ec_cached e) h \<noteq> None, e') \<and> enc_inv sz e' \<and>
    (map_of (ec_cached e) h \<noteq> None \<longrightarrow> (\<exists>refs. map_of (ec_cached e') h = Some refs \<and> request_id r \<in> refs))"
proof (cases "map_of (ec_cached e) h")
  case None
  then show ?thesis using assms by (simp add: check_and_update_cache_def mm_hash_of_ok)
next
  case (Some refs)
  show ?thesis
  proof (cases "refs = {}")
    case True
    then have f: "map_of (freeable e) h = Some (sz h)"
    proof -
      have "map_of (freeable e) h \<noteq> None" "\<forall>n. map_of (freeable e) h = Some n \<longrightarrow> n = sz h"
        using assms(1) Some True unfolding enc_inv_def by blast+
      then show ?thesis by auto
    qed
    have "od_wf (freeable e)" using assms(1) by (simp add: enc_inv_def)
    with f have "total_size sz (freeable e) = total_size sz (AList.delete h (freeable e)) + sz h"
      by (intro total_size_delete) simp_all
    moreover have "total_size sz (AList.update h {request_id r} (ec_cached e)) = total_size sz (ec_cached e)"
      using assms(1) Some by (simp add: enc_inv_def total_size_update)
    ultimately have "enc_inv sz (e\<lparr>freeable := AList.delete h (freeable e), num_freeable_slots := num_freeable_slots e - int (sz h),
        ec_cached := AList.update h {request_id r} (ec_cached e)\<rparr>)"
      using assms(1) by (simp add: enc_inv_def odict_simps)
    with f True Some show ?thesis
      by (simp add: check_and_update_cache_def mm_hash_of_ok [OF assms(2)] h_def [symmetric] od_lookup_def odict_simps)
  next
    case False
    then have "enc_inv sz (e\<lparr>ec_cached := AList.update h (insert (request_id r) refs) (ec_cached e)\<rparr>)"
      using assms(1) Some by (simp add: enc_inv_def odict_simps total_size_update)
    with Some False show ?thesis
      by (simp add: check_and_update_cache_def mm_hash_of_ok [OF assms(2)] h_def [symmetric] odict_simps)
  qed
qed

text \<open>The eviction loop ends with enough space when the freeable slots suffice.\<close>

lemma evict_until_inv:
  assumes "enc_inv sz e" "n \<le> num_freeable_slots e"
  shows "\<exists>e' evicted. evict_until n e = Inr e' \<and> enc_inv sz e' \<and> n \<le> num_free_slots e' \<and>
    num_freeable_slots e' = num_freeable_slots e \<and> ec_freed e' = ec_freed e @ evicted \<and>
    map fst (freeable e) = evicted @ map fst (freeable e') \<and>
    (\<forall>h. map_of (ec_cached e') h = (if h \<in> set evicted then None else map_of (ec_cached e) h))"
  using assms
proof (induction "freeable e" arbitrary: e)
  case Nil
  then have "n \<le> num_free_slots e" by (simp add: enc_inv_def total_size_def)
  with Nil show ?case by (intro exI [of _ e] exI [of _ "[]"]) (simp add: evict_until.simps [of n e])
next
  case (Cons p rest)
  show ?case
  proof (cases "n \<le> num_free_slots e")
    case True
    with Cons.prems show ?thesis by (intro exI [of _ e] exI [of _ "[]"]) (simp add: evict_until.simps [of n e])
  next
    case False
    obtain h m where p: "p = (h, m)" by fastforce
    let ?e = "e\<lparr>freeable := rest, ec_cached := AList.delete h (ec_cached e), ec_freed := ec_freed e @ [h],
        num_free_slots := num_free_slots e + int m\<rparr>"
    have f: "map_of (freeable e) h = Some m" unfolding Cons.hyps(2) [symmetric] p by simp
    then have c: "map_of (ec_cached e) h = Some {}" "m = sz h"
      using Cons.prems(1) unfolding enc_inv_def by (metis option.distinct(1), metis)
    have d: "od_wf rest" "map_of rest h = None" using Cons.prems(1) by (auto simp: enc_inv_def Cons.hyps(2) [symmetric] p od_wf_def map_of_eq_None_iff)
    have "total_size sz (ec_cached e) = total_size sz (AList.delete h (ec_cached e)) + sz h"
      using Cons.prems(1) c(1) by (intro total_size_delete) (simp_all add: enc_inv_def)
    moreover have "total_size sz (freeable e) = sz h + total_size sz rest" by (simp add: total_size_def Cons.hyps(2) [symmetric] p)
    moreover have rest: "map_of rest h' = (if h' = h then None else map_of (freeable e) h')" for h'
      using d(2) by (simp add: Cons.hyps(2) [symmetric] p)
    ultimately have inv: "enc_inv sz ?e" using Cons.prems(1) c d(1) by (simp add: enc_inv_def odict_simps)
    from Cons.hyps(1) [of ?e] inv Cons.prems(2) obtain e' evicted where e':
      "evict_until n ?e = Inr e'" "enc_inv sz e'" "n \<le> num_free_slots e'" "num_freeable_slots e' = num_freeable_slots e"
      "ec_freed e' = ec_freed e @ [h] @ evicted" "map fst rest = evicted @ map fst (freeable e')"
      "\<forall>h'. map_of (ec_cached e') h' = (if h' \<in> set evicted then None else if h' = h then None else map_of (ec_cached e) h')"
      by (auto simp: odict_simps)
    have "evict_until n e = evict_until n ?e"
      unfolding evict_until.simps [of n e] Cons.hyps(2) [symmetric] p using False c(1) by (simp add: od_lookup_def)
    with e' show ?thesis by (intro exI [of _ e'] exI [of _ "h # evicted"]) (simp add: Cons.hyps(2) [symmetric] p)
  qed
qed

abbreviation hash_at :: "request \<Rightarrow> nat \<Rightarrow> string" where
  "hash_at r i \<equiv> mm_identifier (mm_features r ! i)"

lemma free_le_freeable: "enc_inv sz e \<Longrightarrow> num_free_slots e \<le> num_freeable_slots e"
  by (simp add: enc_inv_def)

lemma can_allocate_inv:
  fixes sched :: int
  assumes "enc_inv sz e" "sized sz r" "i < length (mm_features r)"
  defines "n \<equiv> int (sz (hash_at r i)) + sched"
  shows "\<exists>ok e' evicted. can_allocate r i budget sched e = Inr (ok, e') \<and> enc_inv sz e' \<and>
    num_freeable_slots e' = num_freeable_slots e \<and>
    (ok \<longleftrightarrow> int (sz (hash_at r i)) \<le> budget \<and> n \<le> num_freeable_slots e) \<and> (ok \<longrightarrow> n \<le> num_free_slots e') \<and>
    ec_freed e' = ec_freed e @ evicted \<and> map fst (freeable e) = evicted @ map fst (freeable e') \<and>
    (\<forall>h. map_of (ec_cached e') h = (if h \<in> set evicted then None else map_of (ec_cached e) h))"
proof -
  have emb: "get_num_encoder_embeds r i = Inr (sz (hash_at r i))" using assms(2,3) by (simp add: sized_def)
  show ?thesis
  proof (cases "int (sz (hash_at r i)) \<le> budget \<and> \<not> n \<le> num_free_slots e \<and> n \<le> num_freeable_slots e")
    case True
    from evict_until_inv [OF assms(1), of n] True obtain e' evicted where e': "evict_until n e = Inr e'" "enc_inv sz e'"
        "n \<le> num_free_slots e'" "num_freeable_slots e' = num_freeable_slots e" "ec_freed e' = ec_freed e @ evicted"
        "map fst (freeable e) = evicted @ map fst (freeable e')"
        "\<forall>h. map_of (ec_cached e') h = (if h \<in> set evicted then None else map_of (ec_cached e) h)" by blast
    with True emb show ?thesis
      by (intro exI [of _ True] exI [of _ e'] exI [of _ evicted]) (simp add: can_allocate_def n_def [symmetric] Let_def)
  next
    case False
    have "can_allocate r i budget sched e = Inr (int (sz (hash_at r i)) \<le> budget \<and> n \<le> num_free_slots e, e)"
      using False emb by (auto simp: can_allocate_def n_def [symmetric] Let_def)
    moreover have "int (sz (hash_at r i)) \<le> budget \<and> n \<le> num_free_slots e \<longleftrightarrow>
        int (sz (hash_at r i)) \<le> budget \<and> n \<le> num_freeable_slots e"
      using False free_le_freeable [OF assms(1)] by linarith
    ultimately show ?thesis
      using assms(1)
      by (intro exI [of _ "int (sz (hash_at r i)) \<le> budget \<and> n \<le> num_free_slots e"] exI [of _ e] exI [of _ "[]"]) auto
  qed
qed

lemma ec_allocate_inv:
  assumes "enc_inv sz e" "sized sz r" "i < length (mm_features r)" "map_of (ec_cached e) (hash_at r i) = None"
    and "int (sz (hash_at r i)) \<le> num_free_slots e"
  shows "\<exists>e'. ec_allocate r i e = Inr e' \<and> enc_inv sz e' \<and> num_free_slots e' = num_free_slots e - int (sz (hash_at r i)) \<and>
    (\<forall>h. map_of (ec_cached e') h = (if h = hash_at r i then Some {request_id r} else map_of (ec_cached e) h)) \<and>
    freeable e' = freeable e"
proof -
  let ?h = "hash_at r i"
  let ?e = "e\<lparr>ec_cached := AList.update ?h {request_id r} (ec_cached e), num_free_slots := num_free_slots e - int (sz ?h),
      num_freeable_slots := num_freeable_slots e - int (sz ?h)\<rparr>"
  have "get_num_encoder_embeds r i = Inr (sz ?h)" using assms(2,3) by (simp add: sized_def)
  then have run: "ec_allocate r i e = Inr ?e"
    using assms(4,5) free_le_freeable [OF assms(1)] by (simp add: ec_allocate_def mm_hash_of_ok [OF assms(3)])
  have wf: "od_wf (ec_cached e)" using assms(1) by (simp add: enc_inv_def)
  have "map_of (freeable e) ?h = None"
    using assms(1,4) unfolding enc_inv_def by (metis option.distinct(1))
  then have "enc_inv sz ?e"
    using assms(1,4,5) by (auto simp: enc_inv_def odict_simps total_size_update [OF wf])
  with run show ?thesis by (simp add: odict_simps)
qed

lemma free_encoder_input_inv:
  assumes "enc_inv sz e" "sized sz r" "i < length (mm_features r)"
  shows "\<exists>e'. free_encoder_input r i e = Inr e' \<and> enc_inv sz e' \<and> num_free_slots e' = num_free_slots e \<and>
    (\<forall>h. map_of (ec_cached e') h =
      (if h = hash_at r i then map_option (\<lambda>refs. refs - {request_id r}) (map_of (ec_cached e) h) else map_of (ec_cached e) h))"
proof (cases "map_of (ec_cached e) (hash_at r i)")
  case None
  then show ?thesis using assms(1) by (simp add: free_encoder_input_def mm_hash_of_ok [OF assms(3)])
next
  case (Some refs)
  let ?h = "hash_at r i" and ?refs = "refs - {request_id r}"
  let ?e1 = "e\<lparr>ec_cached := AList.update ?h ?refs (ec_cached e)\<rparr>"
  let ?e2 = "?e1\<lparr>freeable := AList.update ?h (sz ?h) (freeable e), num_freeable_slots := num_freeable_slots e + int (sz ?h)\<rparr>"
  have wf: "od_wf (ec_cached e)" "od_wf (freeable e)" using assms(1) by (simp_all add: enc_inv_def)
  have emb: "get_num_encoder_embeds r i = Inr (sz ?h)" using assms(2,3) by (simp add: sized_def)
  consider (e) "refs = {}" | (k) "refs \<noteq> {}" "?refs \<noteq> {}" | (f) "refs \<noteq> {}" "?refs = {}" by blast
  then show ?thesis
  proof cases
    case e
    with Some assms(1) show ?thesis by (simp add: free_encoder_input_def mm_hash_of_ok [OF assms(3)])
  next
    case k
    then have "enc_inv sz ?e1"
      using assms(1) Some unfolding enc_inv_def by (simp add: odict_simps total_size_update [OF wf(1)])
    with Some k show ?thesis by (simp add: free_encoder_input_def mm_hash_of_ok [OF assms(3)] odict_simps Let_def)
  next
    case f
    have "map_of (freeable e) ?h = None" using assms(1) Some f(1) unfolding enc_inv_def by (metis option.inject)
    then have "enc_inv sz ?e2"
      using assms(1) Some f unfolding enc_inv_def
      by (simp add: odict_simps total_size_update [OF wf(1)] total_size_update [OF wf(2)])
    with Some f emb show ?thesis by (simp add: free_encoder_input_def mm_hash_of_ok [OF assms(3)] odict_simps Let_def)
  qed
qed

lemma free_inputs_inv:
  assumes "enc_inv sz e" "sized sz r" "\<forall>i \<in> set is. i < length (mm_features r)"
  shows "\<exists>e'. rfold (free_encoder_input r) is e = Inr e' \<and> enc_inv sz e' \<and>
    (\<forall>h. map_of (ec_cached e') h =
      (if h \<in> hash_at r ` set is then map_option (\<lambda>refs. refs - {request_id r}) (map_of (ec_cached e) h) else map_of (ec_cached e) h))"
  using assms(1,3)
proof (induction "is" arbitrary: e)
  case (Cons i "is")
  from free_encoder_input_inv [OF Cons.prems(1) assms(2), of i] Cons.prems(2) obtain e1 where e1:
      "free_encoder_input r i e = Inr e1" "enc_inv sz e1"
      "\<forall>h. map_of (ec_cached e1) h =
        (if h = hash_at r i then map_option (\<lambda>refs. refs - {request_id r}) (map_of (ec_cached e) h) else map_of (ec_cached e) h)" by auto
  from Cons.IH [OF e1(2)] Cons.prems(2) obtain e' where e': "rfold (free_encoder_input r) is e1 = Inr e'" "enc_inv sz e'"
      "\<forall>h. map_of (ec_cached e') h =
        (if h \<in> hash_at r ` set is then map_option (\<lambda>refs. refs - {request_id r}) (map_of (ec_cached e1) h) else map_of (ec_cached e1) h)"
    by auto
  have "map_of (ec_cached e') h =
      (if h \<in> hash_at r ` set (i # is) then map_option (\<lambda>refs. refs - {request_id r}) (map_of (ec_cached e) h) else map_of (ec_cached e) h)" for h
    using e'(3) e1(3) by (simp add: option.map_comp comp_def)
  with e1(1) e'(1,2) show ?case by auto
qed simp

lemma allocate_all_inv:
  assumes "enc_inv sz e" "sized sz r" "\<forall>i \<in> set is. i < length (mm_features r) \<and> map_of (ec_cached e) (hash_at r i) = None"
    and "distinct (map (hash_at r) is)" "int (\<Sum>i \<leftarrow> is. sz (hash_at r i)) \<le> num_free_slots e"
  shows "\<exists>e'. rfold (ec_allocate r) is e = Inr e' \<and> enc_inv sz e' \<and>
    (\<forall>h. map_of (ec_cached e') h = (if h \<in> hash_at r ` set is then Some {request_id r} else map_of (ec_cached e) h))"
  using assms(1,3-5)
proof (induction "is" arbitrary: e)
  case (Cons i "is")
  have i: "i < length (mm_features r)" "map_of (ec_cached e) (hash_at r i) = None" "int (sz (hash_at r i)) \<le> num_free_slots e"
    using Cons.prems by simp_all
  from ec_allocate_inv [OF Cons.prems(1) assms(2) i] obtain e1 where e1: "ec_allocate r i e = Inr e1" "enc_inv sz e1"
      "num_free_slots e1 = num_free_slots e - int (sz (hash_at r i))"
      "\<forall>h. map_of (ec_cached e1) h = (if h = hash_at r i then Some {request_id r} else map_of (ec_cached e) h)" by blast
  have "\<forall>j \<in> set is. j < length (mm_features r) \<and> map_of (ec_cached e1) (hash_at r j) = None"
  proof
    fix j assume j: "j \<in> set is"
    then have "hash_at r j \<noteq> hash_at r i" using Cons.prems(3) by (auto simp: image_iff)
    with j Cons.prems(2) e1(4) show "j < length (mm_features r) \<and> map_of (ec_cached e1) (hash_at r j) = None" by simp
  qed
  with Cons.IH [OF e1(2)] Cons.prems(3,4) e1(3) obtain e' where e': "rfold (ec_allocate r) is e1 = Inr e'" "enc_inv sz e'"
      "\<forall>h. map_of (ec_cached e') h = (if h \<in> hash_at r ` set is then Some {request_id r} else map_of (ec_cached e1) h)"
    by auto
  with e1 show ?case by auto
qed simp

section \<open>Reachable caches\<close>

text \<open>
  The scheduler allocates an item only after \<^verbatim>\<open>check_and_update_cache\<close> found that its hash is
  not cached; requests agree on the size of an item with the same hash.
\<close>

inductive enc_reachable :: "(string \<Rightarrow> nat) \<Rightarrow> encoder_cache \<Rightarrow> bool" for sz where
  er_init: "enc_reachable sz (encoder_cache_init n)"
| er_check: "enc_reachable sz e \<Longrightarrow> i < length (mm_features r) \<Longrightarrow> check_and_update_cache r i e = Inr (b, e') \<Longrightarrow> enc_reachable sz e'"
| er_can: "enc_reachable sz e \<Longrightarrow> sized sz r \<Longrightarrow> i < length (mm_features r) \<Longrightarrow>
    can_allocate r i budget sched e = Inr (b, e') \<Longrightarrow> enc_reachable sz e'"
| er_allocate: "enc_reachable sz e \<Longrightarrow> sized sz r \<Longrightarrow> i < length (mm_features r) \<Longrightarrow>
    map_of (ec_cached e) (hash_at r i) = None \<Longrightarrow> ec_allocate r i e = Inr e' \<Longrightarrow> enc_reachable sz e'"
| er_free_input: "enc_reachable sz e \<Longrightarrow> sized sz r \<Longrightarrow> i < length (mm_features r) \<Longrightarrow>
    free_encoder_input r i e = Inr e' \<Longrightarrow> enc_reachable sz e'"
| er_free: "enc_reachable sz e \<Longrightarrow> sized sz r \<Longrightarrow> ec_free r e = Inr e' \<Longrightarrow> enc_reachable sz e'"
| er_freed: "enc_reachable sz e \<Longrightarrow> enc_reachable sz (snd (get_freed_mm_hashes e))"

lemma cached_ids_range: "\<forall>i \<in> set (get_cached_input_ids r e). i < length (mm_features r)"
  by (auto simp: get_cached_input_ids_def)

lemma enc_reachable_inv: "enc_reachable sz e \<Longrightarrow> enc_inv sz e"
proof (induction rule: enc_reachable.induct)
  case (er_init n)
  show ?case by (rule enc_inv_init)
next
  case (er_check e i r b e')
  then show ?case using check_and_update_inv [OF er_check.IH, of i r] by auto
next
  case (er_can e r i budget sched b e')
  then show ?case using can_allocate_inv [OF er_can.IH, of r i budget sched] by auto
next
  case (er_allocate e r i e')
  have "get_num_encoder_embeds r i = Inr (sz (hash_at r i))" using er_allocate by (simp add: sized_def)
  then have "int (sz (hash_at r i)) \<le> num_free_slots e"
    using er_allocate.hyps(5) er_allocate.hyps(3) by (auto simp: ec_allocate_def mm_hash_of_ok result_simps Let_def)
  with er_allocate ec_allocate_inv [OF er_allocate.IH, of r i] show ?case by auto
next
  case (er_free_input e r i e')
  then show ?case using free_encoder_input_inv [OF er_free_input.IH, of r i] by auto
next
  case (er_free e r e')
  then show ?case using free_inputs_inv [OF er_free.IH, of r "get_cached_input_ids r e"] cached_ids_range by (auto simp: ec_free_def)
next
  case (er_freed e)
  then show ?case by (simp add: get_freed_mm_hashes_def enc_inv_def)
qed

section \<open>Properties\<close>

text \<open>
  C23: (the encoder cache never overcommits) in every state that the scheduler's calls reach, the
  sizes of the cached items and the free slots add up to the capacity, the free slots are not
  negative, and the freeable slots exceed the free ones by exactly the sizes of the items
  that no request refers to.
\<close>

theorem encoder_cache_accounting:
  assumes "enc_reachable sz e"
  shows "num_free_slots e + int (\<Sum>p \<leftarrow> ec_cached e. sz (fst p)) = ec_cache_size e \<and> 0 \<le> num_free_slots e \<and>
    num_freeable_slots e = num_free_slots e + int (\<Sum>p \<leftarrow> freeable e. sz (fst p)) \<and>
    (\<forall>h. map_of (freeable e) h \<noteq> None \<longleftrightarrow> map_of (ec_cached e) h = Some {})"
  using enc_reachable_inv [OF assms] by (simp add: enc_inv_def total_size_def)

definition image_request :: "string \<Rightarrow> string list \<Rightarrow> request" where
  "image_request rid hashes =
     undefined\<lparr>request_id := rid,
       mm_features := map (\<lambda>h. \<lparr>modality = ''image'', mm_identifier = h,
         mm_position = \<lparr>offset = 0, ph_length = 4, is_embed = None\<rparr>\<rparr>) hashes\<rparr>"

lemma image_request_simps [simp]:
  "request_id (image_request rid hs) = rid" "length (mm_features (image_request rid hs)) = length hs"
  "i < length hs \<Longrightarrow> mm_identifier (mm_features (image_request rid hs) ! i) = hs ! i"
  "i < length hs \<Longrightarrow> get_num_encoder_embeds (image_request rid hs) i = Inr 4"
  by (simp_all add: image_request_def get_num_encoder_embeds_def get_num_embeds_def)

lemma image_request_sized [simp]: "sized (\<lambda>_. 4) (image_request rid hs)"
  by (simp add: sized_def)

theorem encoder_cache_accounting_witness:
  "\<exists>e. ec_allocate (image_request ''a'' [''x'']) 0 (encoder_cache_init 10) = Inr e \<and>
     num_free_slots e + int (\<Sum>p \<leftarrow> ec_cached e. 4) = 10 \<and> num_free_slots e = 6"
proof -
  let ?r = "image_request ''a'' [''x'']"
  obtain e where e: "ec_allocate ?r 0 (encoder_cache_init 10) = Inr e" "num_free_slots e = 6"
    by (simp add: ec_allocate_def mm_hash_of_ok encoder_cache_init_def Let_def)
  have "enc_reachable (\<lambda>_. 4) e"
    by (rule er_allocate [OF er_init _ _ _ e(1)]) (simp_all add: encoder_cache_init_def)
  from encoder_cache_accounting [OF this] have "num_free_slots e + int (\<Sum>p \<leftarrow> ec_cached e. 4) = ec_cache_size e" by blast
  moreover have "ec_cache_size e = 10" using e(1) by (auto simp: ec_allocate_def mm_hash_of_ok encoder_cache_init_def Let_def)
  ultimately show ?thesis using e by auto
qed

text \<open>
  (eviction) \<^verbatim>\<open>can_allocate\<close> never raises and answers yes exactly when the item fits the
  compute budget and, with what is already scheduled, the free and reclaimable slots.  It then
  leaves enough free slots, having evicted the oldest unreferenced items, each reported
  once; an item that some request refers to is never evicted.
\<close>

lemma can_allocate_spec:
  assumes "enc_reachable sz e" and "sized sz r" and "i < length (mm_features r)"
  shows "\<exists>ok e' evicted. can_allocate r i budget sched e = Inr (ok, e') \<and>
    (ok \<longleftrightarrow> int (sz (hash_at r i)) \<le> budget \<and> int (sz (hash_at r i)) + sched \<le> num_freeable_slots e) \<and>
    (ok \<longrightarrow> int (sz (hash_at r i)) + sched \<le> num_free_slots e') \<and>
    ec_freed e' = ec_freed e @ evicted \<and> map fst (freeable e) = evicted @ map fst (freeable e') \<and>
    (\<forall>h refs. map_of (ec_cached e) h = Some refs \<and> refs \<noteq> {} \<longrightarrow> map_of (ec_cached e') h = Some refs)"
proof -
  note inv = enc_reachable_inv [OF assms(1)]
  from can_allocate_inv [OF inv assms(2,3), of budget sched] obtain ok e' evicted where
    e': "can_allocate r i budget sched e = Inr (ok, e')"
      "ok \<longleftrightarrow> int (sz (hash_at r i)) \<le> budget \<and> int (sz (hash_at r i)) + sched \<le> num_freeable_slots e"
      "ok \<longrightarrow> int (sz (hash_at r i)) + sched \<le> num_free_slots e'"
      "ec_freed e' = ec_freed e @ evicted" "map fst (freeable e) = evicted @ map fst (freeable e')"
      "\<forall>h. map_of (ec_cached e') h = (if h \<in> set evicted then None else map_of (ec_cached e) h)" by auto
  have "map_of (ec_cached e) h = Some {}" if "h \<in> set evicted" for h
  proof -
    have "h \<in> fst ` set (freeable e)" using that e'(5) by (metis UnI1 list.set_map set_append)
    then have "map_of (freeable e) h \<noteq> None" by (simp add: map_of_eq_None_iff)
    then show ?thesis using inv unfolding enc_inv_def by blast
  qed
  then have "\<forall>h refs. map_of (ec_cached e) h = Some refs \<and> refs \<noteq> {} \<longrightarrow> map_of (ec_cached e') h = Some refs"
    using e'(6) by (metis option.inject)
  with e'(1-5) show ?thesis by blast
qed

text \<open>
  (scheduled items can be allocated) once the slots for a request's uncached items are free,
  allocating them one after the other passes every assertion, and then exactly this request
  refers to them.
\<close>

lemma scheduled_items_allocate:
  assumes "enc_reachable sz e" and "sized sz r"
    and "\<forall>i \<in> set is. i < length (mm_features r) \<and> map_of (ec_cached e) (hash_at r i) = None"
    and "distinct (map (hash_at r) is)" and "int (\<Sum>i \<leftarrow> is. sz (hash_at r i)) \<le> num_free_slots e"
  shows "\<exists>e'. rfold (ec_allocate r) is e = Inr e' \<and>
    (\<forall>h. map_of (ec_cached e') h = (if h \<in> hash_at r ` set is then Some {request_id r} else map_of (ec_cached e) h))"
  using allocate_all_inv [OF enc_reachable_inv [OF assms(1)] assms(2-5)] by blast

text \<open>
  (freeing a request) \<^verbatim>\<open>free\<close> drops exactly the request's own references: every item stays
  cached, and items of other requests keep their references.
\<close>

lemma free_request_spec:
  assumes "enc_reachable sz e" and "sized sz r"
  shows "\<exists>e'. ec_free r e = Inr e' \<and>
    (\<forall>h. map_of (ec_cached e') h =
      (if h \<in> mm_identifier ` set (mm_features r) then map_option (\<lambda>refs. refs - {request_id r}) (map_of (ec_cached e) h)
       else map_of (ec_cached e) h))"
proof -
  let ?is = "get_cached_input_ids r e"
  from free_inputs_inv [OF enc_reachable_inv [OF assms(1)] assms(2) cached_ids_range] obtain e' where
    e': "ec_free r e = Inr e'"
      "\<forall>h. map_of (ec_cached e') h =
        (if h \<in> hash_at r ` set ?is then map_option (\<lambda>refs. refs - {request_id r}) (map_of (ec_cached e) h) else map_of (ec_cached e) h)"
    unfolding ec_free_def by blast
  have "h \<in> hash_at r ` set ?is \<longleftrightarrow> h \<in> mm_identifier ` set (mm_features r) \<and> map_of (ec_cached e) h \<noteq> None" for h
    by (fastforce simp: get_cached_input_ids_def image_iff in_set_conv_nth)
  with e' show ?thesis by auto
qed

text \<open>
  (the encoder-decoder manager hands out slots it does not have) the scheduler frees an
  encoder input of an encoder-decoder request after every step with computed tokens, and this
  manager adds the input's slots each time.  After one allocation and \<open>k\<close> such steps the free
  slots are \<open>k - 1\<close> inputs beyond the capacity.
\<close>

lemma enc_dec_free_unbounded:
  assumes "get_num_encoder_embeds r i = Inr n" and "i < length (mm_features r)"
  shows "\<exists>e'. rbind (ed_allocate r i (enc_dec_init c)) (rfold (ed_free_encoder_input r) (replicate k i)) = Inr e' \<and>
    ed_num_free_slots e' = ed_cache_size e' + (int k - 1) * int n"
proof -
  have loop: "rfold (ed_free_encoder_input r) (replicate k i) e = Inr (e\<lparr>ed_num_free_slots := ed_num_free_slots e + int k * int n\<rparr>)" for e
    by (induction k arbitrary: e) (simp_all add: ed_free_encoder_input_def assms(1) algebra_simps)
  show ?thesis
    by (simp add: ed_allocate_def assms(1) mm_hash_of_ok [OF assms(2)] loop enc_dec_init_def algebra_simps)
qed

end
