(* ===== verification/Scheduler.thy ===== *)
theory Scheduler
  imports KV_Lifecycle Request_Queue Encoder_Cache
begin

text \<open>
  The scheduler: \<^verbatim>\<open>vllm/v1/core/sched/scheduler.py\<close>, \<^verbatim>\<open>async_scheduler.py\<close> and the
  records of \<^verbatim>\<open>output.py\<close>.

  The dictionary \<^verbatim>\<open>requests\<close> owns the request objects; the running list, the waiting queue and
  the lists a step builds hold request ids and read and change the objects through it.  The model is
  of a scheduler without a KV connector and without an encoder cache connector (no
  \<^verbatim>\<open>kv_transfer_config\<close>, no \<^verbatim>\<open>ec_transfer_config\<close>): the branches under
  \<^verbatim>\<open>self.connector is not None\<close> are not taken.  Time stamps, loggers and the payloads that only
  pass through (log probabilities, trace headers) are left out.  A \<^verbatim>\<open>while\<close> loop carries as fuel
  the length of the list it consumes and is \<open>Diverges\<close> when it would go on.
\<close>

section \<open>State\<close>

datatype enc_manager = EncCache encoder_cache | EncDecCache enc_dec_cache

record scheduler_config =
  max_num_running_reqs :: nat
  max_num_scheduled_tokens :: int
  sc_max_model_len :: nat
  policy :: scheduling_policy
  long_prefill_token_threshold :: int
  enable_chunked_prefill :: bool
  disable_chunked_mm_input :: bool
  sc_max_num_encoder_input_tokens :: int
  max_loras :: "nat option"
  is_encoder_decoder :: bool
  use_eagle :: bool
  num_spec_tokens :: nat
  num_lookahead_tokens :: nat
  use_pp :: bool
  use_v2_model_runner :: bool
  log_stats :: bool
  is_async :: bool

record scheduler =
  conf :: scheduler_config
  requests :: "(string, request) odict"
  waiting :: "string request_queue"
  running :: "string list"
  finished_req_ids :: "string set"
  finished_req_ids_dict :: "(int, string set) odict option"
  prev_step_scheduled_req_ids :: "string set"
  kv_manager :: kv_cache_manager
  encoder_cache_manager :: enc_manager
  max_num_encoder_input_tokens :: int

definition scheduler_init ::
  "scheduler_config \<Rightarrow> bool \<Rightarrow> (string, int) odict option \<Rightarrow> sched_budget_config \<Rightarrow> kv_cache_config \<Rightarrow> bool \<Rightarrow> bool \<Rightarrow> bool \<Rightarrow>
   nat \<Rightarrow> nat \<Rightarrow> nat \<Rightarrow> nat \<Rightarrow> scheduler result" where
  "scheduler_init cfg include_finished_set mm_registry budget_config kv_config caching kv_events use_int dcp pcp block_size gpu_blocks =
     rbind (rassert (0 < gpu_blocks)) (\<lambda>_.
     rbind (compute_encoder_budget mm_registry budget_config) (\<lambda>(encoder_compute_budget, encoder_cache_size).
     rbind (kv_cache_manager_init kv_config (int (sc_max_model_len cfg)) block_size caching (use_eagle cfg) (log_stats cfg)
              kv_events use_int dcp pcp) (\<lambda>k.
       Inr \<lparr>conf = cfg, requests = [], waiting = create_request_queue (policy cfg), running = [], finished_req_ids = {},
            finished_req_ids_dict = (if include_finished_set then Some [] else None), prev_step_scheduled_req_ids = {},
            kv_manager = k,
            encoder_cache_manager =
              (if is_encoder_decoder cfg then EncDecCache (enc_dec_init (nat encoder_cache_size))
               else EncCache (encoder_cache_init (nat encoder_cache_size))),
            max_num_encoder_input_tokens = encoder_compute_budget\<rparr>)))"

section \<open>Objects behind ids\<close>

definition req :: "scheduler \<Rightarrow> string \<Rightarrow> request" where
  "req s rid = the (map_of (requests s) rid)"

definition upd_req :: "string \<Rightarrow> (request \<Rightarrow> request) \<Rightarrow> scheduler \<Rightarrow> scheduler" where
  "upd_req rid f s = s\<lparr>requests := AList.map_entry rid f (requests s)\<rparr>"

definition rlt :: "scheduler \<Rightarrow> string \<Rightarrow> string \<Rightarrow> bool" where
  "rlt s a b = request_lt (req s a) (req s b)"

definition set_kv :: "kv_cache_manager \<Rightarrow> scheduler \<Rightarrow> scheduler" where
  "set_kv k s = s\<lparr>kv_manager := k\<rparr>"

definition log_event :: "engine_event \<Rightarrow> string \<Rightarrow> scheduler \<Rightarrow> scheduler" where
  "log_event e rid s = (if log_stats (conf s) then upd_req rid (record_event e) s else s)"

section \<open>The encoder cache manager of either kind\<close>

definition em_check_and_update_cache :: "request \<Rightarrow> nat \<Rightarrow> enc_manager \<Rightarrow> (bool \<times> enc_manager) result" where
  "em_check_and_update_cache r i em =
     (case em of
        EncCache e \<Rightarrow> rbind (check_and_update_cache r i e) (\<lambda>(b, e1). Inr (b, EncCache e1))
      | EncDecCache e \<Rightarrow> Inr (ed_check_and_update_cache r i e, em))"

definition em_can_allocate :: "request \<Rightarrow> nat \<Rightarrow> int \<Rightarrow> int \<Rightarrow> enc_manager \<Rightarrow> (bool \<times> enc_manager) result" where
  "em_can_allocate r i budget embeds em =
     (case em of
        EncCache e \<Rightarrow> rbind (can_allocate r i budget embeds e) (\<lambda>(b, e1). Inr (b, EncCache e1))
      | EncDecCache e \<Rightarrow> rbind (ed_can_allocate r i budget embeds e) (\<lambda>b. Inr (b, em)))"

definition em_allocate :: "request \<Rightarrow> nat \<Rightarrow> enc_manager \<Rightarrow> enc_manager result" where
  "em_allocate r i em =
     (case em of
        EncCache e \<Rightarrow> rbind (ec_allocate r i e) (\<lambda>e1. Inr (EncCache e1))
      | EncDecCache e \<Rightarrow> rbind (ed_allocate r i e) (\<lambda>e1. Inr (EncDecCache e1)))"

definition em_free_encoder_input :: "request \<Rightarrow> nat \<Rightarrow> enc_manager \<Rightarrow> enc_manager result" where
  "em_free_encoder_input r i em =
     (case em of
        EncCache e \<Rightarrow> rbind (free_encoder_input r i e) (\<lambda>e1. Inr (EncCache e1))
      | EncDecCache e \<Rightarrow> rbind (ed_free_encoder_input r i e) (\<lambda>e1. Inr (EncDecCache e1)))"

definition em_free :: "request \<Rightarrow> enc_manager \<Rightarrow> enc_manager result" where
  "em_free r em =
     (case em of
        EncCache e \<Rightarrow> rbind (ec_free r e) (\<lambda>e1. Inr (EncCache e1))
      | EncDecCache e \<Rightarrow> rbind (ed_free r e) (\<lambda>e1. Inr (EncDecCache e1)))"

definition em_get_cached_input_ids :: "request \<Rightarrow> enc_manager \<Rightarrow> nat list" where
  "em_get_cached_input_ids r em =
     (case em of EncCache e \<Rightarrow> get_cached_input_ids r e | EncDecCache e \<Rightarrow> ed_get_cached_input_ids r e)"

definition em_get_freed_mm_hashes :: "enc_manager \<Rightarrow> string list \<times> enc_manager" where
  "em_get_freed_mm_hashes em =
     (case em of
        EncCache e \<Rightarrow> (case get_freed_mm_hashes e of (hs, e1) \<Rightarrow> (hs, EncCache e1))
      | EncDecCache e \<Rightarrow> (case ed_get_freed_mm_hashes e of (hs, e1) \<Rightarrow> (hs, EncDecCache e1)))"

section \<open>Encoder inputs of a step\<close>

text \<open>
  The loop of \<^verbatim>\<open>_try_schedule_encoder_inputs\<close> over the features from index \<open>i\<close> on.  Its
  state: the number of new tokens, the compute budget, the hashes and the number of embeddings to
  schedule, the inputs to schedule and the encoder cache manager.
\<close>

record enc_step =
  es_num_new_tokens :: int
  es_compute_budget :: int
  es_mm_hashes :: "string list"
  es_num_embeds :: int
  es_inputs :: "nat list"
  es_manager :: enc_manager

fun enc_inputs_loop :: "scheduler_config \<Rightarrow> request \<Rightarrow> int \<Rightarrow> int \<Rightarrow> nat \<Rightarrow> mm_feature list \<Rightarrow> enc_step \<Rightarrow> enc_step result" where
  "enc_inputs_loop cfg r computed shift i [] e = Inr e"
| "enc_inputs_loop cfg r computed shift i (f # fs) e =
     (let start_pos = int (offset (mm_position f));
          num_encoder_tokens = int (ph_length (mm_position f)) in
      rbind (get_num_embeds (mm_position f)) (\<lambda>num_encoder_embeds.
        if computed + es_num_new_tokens e + shift \<le> start_pos then Inr e
        else if is_encoder_decoder cfg \<and> 0 < computed
        then rbind (rassert (start_pos = 0)) (\<lambda>_. enc_inputs_loop cfg r computed shift (i + 1) fs e)
        else if start_pos + num_encoder_tokens \<le> computed then enc_inputs_loop cfg r computed shift (i + 1) fs e
        else if \<not> is_encoder_decoder cfg \<and> mm_identifier f \<in> set (es_mm_hashes e)
        then enc_inputs_loop cfg r computed shift (i + 1) fs e
        else
          rbind (if \<not> is_encoder_decoder cfg then em_check_and_update_cache r i (es_manager e) else Inr (False, es_manager e))
            (\<lambda>(cached, em1).
            let e1 = e\<lparr>es_manager := em1\<rparr> in
            if cached then enc_inputs_loop cfg r computed shift (i + 1) fs e1
            else if disable_chunked_mm_input cfg \<and> computed < start_pos \<and>
                    computed + es_num_new_tokens e < start_pos + num_encoder_tokens
            then Inr (e1\<lparr>es_num_new_tokens := start_pos - computed\<rparr>)
            else
              rbind (em_can_allocate r i (es_compute_budget e) (es_num_embeds e) em1) (\<lambda>(ok, em2).
                let e2 = e1\<lparr>es_manager := em2\<rparr> in
                if \<not> ok
                then Inr (e2\<lparr>es_num_new_tokens := (if computed + shift < start_pos then start_pos - (computed + shift) else 0)\<rparr>)
                else
                  rbind (get_embeds_indices_in_range (mm_position f) (nat (max 0 (computed - start_pos)))
                           (nat (min num_encoder_tokens (computed + es_num_new_tokens e - start_pos))))
                    (\<lambda>(a, b).
                    if int b - int a = 0 then enc_inputs_loop cfg r computed shift (i + 1) fs e2
                    else enc_inputs_loop cfg r computed shift (i + 1) fs
                           (e2\<lparr>es_num_embeds := es_num_embeds e + int num_encoder_embeds,
                               es_compute_budget := es_compute_budget e - int num_encoder_embeds,
                               es_mm_hashes := es_mm_hashes e @ [mm_identifier f],
                               es_inputs := es_inputs e @ [i]\<rparr>))))))"

definition try_schedule_encoder_inputs :: "scheduler_config \<Rightarrow> request \<Rightarrow> int \<Rightarrow> int \<Rightarrow> int \<Rightarrow> int \<Rightarrow> enc_manager \<Rightarrow> enc_step result" where
  "try_schedule_encoder_inputs cfg r computed num_new_tokens compute_budget shift em =
     (let e = \<lparr>es_num_new_tokens = num_new_tokens, es_compute_budget = compute_budget, es_mm_hashes = [], es_num_embeds = 0,
               es_inputs = [], es_manager = em\<rparr> in
      if num_new_tokens = 0 \<or> \<not> has_encoder_inputs r then Inr e
      else enc_inputs_loop cfg r computed shift 0 (mm_features r) e)"

text \<open>The guarded call in both loops of \<^verbatim>\<open>schedule\<close>.\<close>

definition encoder_step :: "string \<Rightarrow> int \<Rightarrow> int \<Rightarrow> int \<Rightarrow> scheduler \<Rightarrow> enc_step result" where
  "encoder_step rid computed num_new_tokens compute_budget s =
     (if has_encoder_inputs (req s rid)
      then try_schedule_encoder_inputs (conf s) (req s rid) computed num_new_tokens compute_budget
             (if use_eagle (conf s) then 1 else 0) (encoder_cache_manager s)
      else Inr \<lparr>es_num_new_tokens = num_new_tokens, es_compute_budget = compute_budget, es_mm_hashes = [], es_num_embeds = 0,
                es_inputs = [], es_manager = encoder_cache_manager s\<rparr>)"

section \<open>Preemption\<close>

definition preempt_request :: "string \<Rightarrow> scheduler \<Rightarrow> scheduler result" where
  "preempt_request rid s =
     rbind (rassert (status (req s rid) = RUNNING)) (\<lambda>_.
     rbind (km_free (req s rid) (kv_manager s)) (\<lambda>k.
     rbind (em_free (req s rid) (encoder_cache_manager s)) (\<lambda>em.
       let s1 = upd_req rid (\<lambda>r. r\<lparr>status := PREEMPTED, num_computed_tokens := 0, num_preemptions := num_preemptions r + 1\<rparr>)
                  (s\<lparr>kv_manager := k, encoder_cache_manager := em\<rparr>);
           s2 = log_event PREEMPTED_EVENT rid s1 in
       Inr (s2\<lparr>waiting := prepend_request (rlt s2) rid (waiting s2)\<rparr>))))"

text \<open>The variables of one \<^verbatim>\<open>schedule\<close> call.\<close>

record sched_step =
  st_sched :: scheduler
  scheduled_new_reqs :: "string list"
  scheduled_resumed_reqs :: "string list"
  scheduled_running_reqs :: "string list"
  preempted_reqs :: "string list"
  req_to_new_blocks :: "(string, kv_blocks) odict"
  num_scheduled_tokens :: "(string, int) odict"
  token_budget :: int
  scheduled_encoder_inputs :: "(string, nat list) odict"
  encoder_compute_budget :: int
  scheduled_spec_decode_tokens :: "(string, int list) odict"

definition sched_step_init :: "scheduler \<Rightarrow> sched_step" where
  "sched_step_init s =
     \<lparr>st_sched = s, scheduled_new_reqs = [], scheduled_resumed_reqs = [], scheduled_running_reqs = [], preempted_reqs = [],
      req_to_new_blocks = [], num_scheduled_tokens = [], token_budget = max_num_scheduled_tokens (conf s),
      scheduled_encoder_inputs = [], encoder_compute_budget = max_num_encoder_input_tokens s, scheduled_spec_decode_tokens = []\<rparr>"

text \<open>\<^verbatim>\<open>max(self.running, key=lambda r: (r.priority, r.arrival_time))\<close>: the first of the largest.\<close>

fun lowest_priority :: "scheduler \<Rightarrow> string \<Rightarrow> string list \<Rightarrow> string" where
  "lowest_priority s best [] = best"
| "lowest_priority s best (x # xs) =
     lowest_priority s
       (if (priority (req s best), arrival_time (req s best)) < (priority (req s x), arrival_time (req s x)) then x else best) xs"

text \<open>Undoing what this step has scheduled for a request that is preempted.\<close>

definition unschedule :: "string \<Rightarrow> sched_step \<Rightarrow> sched_step result" where
  "unschedule rid t =
     rbind (od_lookup (num_scheduled_tokens t) rid) (\<lambda>n.
     rbind (od_lookup (req_to_new_blocks t) rid) (\<lambda>_.
     rbind (case map_of (scheduled_encoder_inputs t) rid of
              None \<Rightarrow> Inr []
            | Some inputs \<Rightarrow> rmap (get_num_encoder_embeds (req (st_sched t) rid)) inputs) (\<lambda>embeds.
       Inr (t\<lparr>scheduled_running_reqs := remove1 rid (scheduled_running_reqs t),
              token_budget := token_budget t + n,
              req_to_new_blocks := AList.delete rid (req_to_new_blocks t),
              num_scheduled_tokens := AList.delete rid (num_scheduled_tokens t),
              scheduled_spec_decode_tokens := AList.delete rid (scheduled_spec_decode_tokens t),
              scheduled_encoder_inputs := AList.delete rid (scheduled_encoder_inputs t),
              encoder_compute_budget := encoder_compute_budget t + int (sum_list embeds)\<rparr>))))"

text \<open>One preemption: the victim, the new index and the step.\<close>

definition preempt_one :: "int \<Rightarrow> sched_step \<Rightarrow> (string \<times> int \<times> sched_step) result" where
  "preempt_one req_index t =
     (let s = st_sched t in
      rbind (case policy (conf s) of
               PRIORITY \<Rightarrow>
                 (case running s of
                    [] \<Rightarrow> Inl ValueError
                  | x # xs \<Rightarrow>
                      let v = lowest_priority s x xs;
                          t1 = t\<lparr>st_sched := s\<lparr>running := remove1 v (running s)\<rparr>\<rparr> in
                      if v \<in> set (scheduled_running_reqs t)
                      then rbind (unschedule v t1) (\<lambda>t2. Inr (v, req_index - 1, t2))
                      else Inr (v, req_index, t1))
             | FCFS \<Rightarrow>
                 (if running s = [] then Inl IndexError
                  else Inr (last (running s), req_index, t\<lparr>st_sched := s\<lparr>running := butlast (running s)\<rparr>\<rparr>)))
        (\<lambda>(v, idx, t1).
        rbind (preempt_request v (st_sched t1)) (\<lambda>s1.
          Inr (v, idx, t1\<lparr>st_sched := s1, preempted_reqs := preempted_reqs t1 @ [v]\<rparr>))))"

text \<open>The inner \<^verbatim>\<open>while True\<close>: allocate, or preempt and try again.\<close>

fun allocate_loop_running :: "nat \<Rightarrow> string \<Rightarrow> int \<Rightarrow> int \<Rightarrow> sched_step \<Rightarrow> (kv_blocks option \<times> int \<times> sched_step) result" where
  "allocate_loop_running 0 rid num_new_tokens req_index t = Inl Diverges"
| "allocate_loop_running (Suc fuel) rid num_new_tokens req_index t =
     (let s = st_sched t in
      rbind (allocate_slots (req s rid) num_new_tokens 0 None (int (num_lookahead_tokens (conf s))) False 0 (kv_manager s))
        (\<lambda>(new_blocks, k).
        let t1 = t\<lparr>st_sched := set_kv k s\<rparr> in
        case new_blocks of
          Some b \<Rightarrow> Inr (Some b, req_index, t1)
        | None \<Rightarrow>
            rbind (preempt_one req_index t1) (\<lambda>(v, idx, t2).
              if v = rid then Inr (None, idx, t2) else allocate_loop_running fuel rid num_new_tokens idx t2)))"

section \<open>Scheduling the running requests\<close>

text \<open>Asynchronous scheduling: the previous step has surely reached the request's token limit.\<close>

definition surely_done :: "request \<Rightarrow> bool" where
  "surely_done r \<longleftrightarrow> 0 < num_output_placeholders r \<and>
     int (num_prompt_tokens r) + max_tokens r \<le> num_computed_tokens r + 2 - num_output_placeholders r"

definition running_num_new_tokens :: "scheduler_config \<Rightarrow> request \<Rightarrow> int \<Rightarrow> int" where
  "running_num_new_tokens cfg r budget =
     (let n0 = int (num_tokens_with_spec r) + num_output_placeholders r - num_computed_tokens r;
          n1 = (if 0 < long_prefill_token_threshold cfg \<and> long_prefill_token_threshold cfg < n0
                then long_prefill_token_threshold cfg else n0);
          n2 = min n1 budget in
      min n2 (int (sc_max_model_len cfg) - 1 - num_computed_tokens r))"

text \<open>The draft tokens that are scheduled, and the request without them.\<close>

definition schedule_spec_tokens :: "string \<Rightarrow> int \<Rightarrow> sched_step \<Rightarrow> sched_step" where
  "schedule_spec_tokens rid num_new_tokens t =
     (let r = req (st_sched t) rid in
      if spec_token_ids r = [] then t
      else
        let n = num_new_tokens + num_computed_tokens r - int (num_tokens r) - num_output_placeholders r;
            t1 = (if 0 < n then t\<lparr>scheduled_spec_decode_tokens :=
                                 AList.update rid (take (nat n) (spec_token_ids r)) (scheduled_spec_decode_tokens t)\<rparr> else t) in
        t1\<lparr>st_sched := upd_req rid (\<lambda>r. r\<lparr>spec_token_ids := []\<rparr>) (st_sched t1)\<rparr>)"

definition schedule_encoder_inputs :: "string \<Rightarrow> enc_step \<Rightarrow> sched_step \<Rightarrow> sched_step result" where
  "schedule_encoder_inputs rid e t =
     (if es_inputs e = [] then Inr t
      else
        rbind (rfold (em_allocate (req (st_sched t) rid)) (es_inputs e) (encoder_cache_manager (st_sched t))) (\<lambda>em.
          Inr (t\<lparr>scheduled_encoder_inputs := AList.update rid (es_inputs e) (scheduled_encoder_inputs t),
                 encoder_compute_budget := es_compute_budget e,
                 st_sched := (st_sched t)\<lparr>encoder_cache_manager := em\<rparr>\<rparr>)))"

text \<open>What is recorded for a running request that got its blocks.\<close>

definition schedule_one_running :: "string \<Rightarrow> int \<Rightarrow> kv_blocks \<Rightarrow> enc_step \<Rightarrow> sched_step \<Rightarrow> sched_step result" where
  "schedule_one_running rid num_new_tokens new_blocks e t =
     (let t1 = t\<lparr>scheduled_running_reqs := scheduled_running_reqs t @ [rid],
                 req_to_new_blocks := AList.update rid new_blocks (req_to_new_blocks t),
                 num_scheduled_tokens := AList.update rid num_new_tokens (num_scheduled_tokens t),
                 token_budget := token_budget t - num_new_tokens\<rparr> in
      schedule_encoder_inputs rid e (schedule_spec_tokens rid num_new_tokens t1))"

fun schedule_running :: "nat \<Rightarrow> int \<Rightarrow> sched_step \<Rightarrow> sched_step result" where
  "schedule_running 0 req_index t =
     (if req_index < int (length (running (st_sched t))) \<and> 0 < token_budget t then Inl Diverges else Inr t)"
| "schedule_running (Suc fuel) req_index t =
     (let s = st_sched t in
      if \<not> (req_index < int (length (running s)) \<and> 0 < token_budget t) then Inr t
      else
        let rid = running s ! nat req_index; r = req s rid in
        if surely_done r then schedule_running fuel (req_index + 1) t
        else
          rbind (encoder_step rid (num_computed_tokens r) (running_num_new_tokens (conf s) r (token_budget t))
                   (encoder_compute_budget t) s) (\<lambda>e.
          let t1 = t\<lparr>st_sched := s\<lparr>encoder_cache_manager := es_manager e\<rparr>\<rparr>; n = es_num_new_tokens e in
          if n = 0 then schedule_running fuel (req_index + 1) t1
          else
            rbind (allocate_loop_running (length (running s)) rid n req_index t1) (\<lambda>(new_blocks, idx, t2).
              case new_blocks of
                None \<Rightarrow> Inr t2
              | Some b \<Rightarrow>
                  rbind (schedule_one_running rid n b e t2) (\<lambda>t3. schedule_running fuel (idx + 1) t3))))"

section \<open>Scheduling the waiting requests\<close>

definition running_loras :: "sched_step \<Rightarrow> int list result" where
  "running_loras t =
     (case max_loras (conf (st_sched t)) of
        None \<Rightarrow> Inr []
      | Some m \<Rightarrow>
          let ids = remdups (concat (map (\<lambda>rid. case lora_request (req (st_sched t) rid) of
                      Some l \<Rightarrow> if 0 < lora_int_id l then [lora_int_id l] else [] | None \<Rightarrow> []) (scheduled_running_reqs t))) in
          rbind (rassert (length ids \<le> m)) (\<lambda>_. Inr ids))"

text \<open>A waiting request is skipped while its grammar is compiled or its adapter does not fit.\<close>

definition lora_exceeds :: "scheduler_config \<Rightarrow> request \<Rightarrow> int list \<Rightarrow> bool" where
  "lora_exceeds cfg r loras =
     (case (max_loras cfg, lora_request r) of
        (Some m, Some l) \<Rightarrow> length loras = m \<and> lora_int_id l \<notin> set loras
      | _ \<Rightarrow> False)"

definition waiting_num_new_tokens :: "scheduler_config \<Rightarrow> request \<Rightarrow> int \<Rightarrow> int" where
  "waiting_num_new_tokens cfg r computed =
     (let n = int (num_tokens r) - computed in
      if 0 < long_prefill_token_threshold cfg \<and> long_prefill_token_threshold cfg < n
      then long_prefill_token_threshold cfg else n)"

text \<open>What happens to a waiting request that got its blocks.\<close>

definition admit_request :: "string \<Rightarrow> int \<Rightarrow> int \<Rightarrow> enc_step \<Rightarrow> sched_step \<Rightarrow> sched_step result" where
  "admit_request rid num_new_tokens computed e t =
     (let s0 = st_sched t in
      rbind (pop_request (rlt s0) (waiting s0)) (\<lambda>(rid1, w).
        let s1 = log_event SCHEDULED rid1 (s0\<lparr>waiting := w, running := running s0 @ [rid1]\<rparr>);
            t1 = t\<lparr>st_sched := s1\<rparr>;
            st = status (req s1 rid1) in
        rbind (if st = WAITING then Inr (t1\<lparr>scheduled_new_reqs := scheduled_new_reqs t @ [rid1]\<rparr>)
               else if st = PREEMPTED then Inr (t1\<lparr>scheduled_resumed_reqs := scheduled_resumed_reqs t @ [rid1]\<rparr>)
               else Inl RuntimeError) (\<lambda>t2.
          let s2 = upd_req rid1 (\<lambda>r. r\<lparr>status := RUNNING, num_computed_tokens := computed,
                                       num_cached_tokens := (if num_cached_tokens r < 0 then computed else num_cached_tokens r)\<rparr>) (st_sched t2) in
          schedule_encoder_inputs rid1 e
            (t2\<lparr>req_to_new_blocks := AList.update rid1 (km_get_blocks rid1 (kv_manager s2)) (req_to_new_blocks t2),
                num_scheduled_tokens := AList.update rid1 num_new_tokens (num_scheduled_tokens t2),
                token_budget := token_budget t2 - num_new_tokens,
                st_sched := s2\<rparr>))))"

text \<open>
  The loop over the waiting queue, with the skipped requests and the adapters in use.  Its body for a
  request that is not skipped is \<open>try_admit\<close>: \<open>None\<close> when the loop breaks.
\<close>

definition try_admit :: "string \<Rightarrow> sched_step \<Rightarrow> (bool \<times> sched_step) result" where
  "try_admit rid t =
     (let s = st_sched t; cfg = conf s; r = req s rid in
      rbind (if num_computed_tokens r = 0
             then rbind (get_computed_blocks r (kv_manager s)) (\<lambda>(b, n, k). Inr (b, int n, int n, set_kv k s))
             else Inr (EmptyKVCacheBlocks, 0, num_computed_tokens r, s)) (\<lambda>(new_computed_blocks, num_local, computed, s1).
      let n0 = waiting_num_new_tokens cfg r computed; t1 = t\<lparr>st_sched := s1\<rparr> in
      if \<not> enable_chunked_prefill cfg \<and> token_budget t < n0 then Inr (False, t1)
      else
        let n1 = min n0 (token_budget t) in
        rbind (rassert (0 < n1)) (\<lambda>_.
        rbind (encoder_step rid computed n1 (encoder_compute_budget t) s1) (\<lambda>e.
        let n = es_num_new_tokens e; s2 = s1\<lparr>encoder_cache_manager := es_manager e\<rparr>; t2 = t1\<lparr>st_sched := s2\<rparr> in
        if has_encoder_inputs r \<and> n = 0 then Inr (False, t2)
        else
          let lookahead = (if num_computed_tokens r = 0 then 0 else int (num_lookahead_tokens cfg));
              num_encoder_tokens = (if is_encoder_decoder cfg \<and> has_encoder_inputs r then sc_max_num_encoder_input_tokens cfg else 0) in
          rbind (allocate_slots r n num_local (Some new_computed_blocks) lookahead False num_encoder_tokens (kv_manager s2))
            (\<lambda>(new_blocks, k).
            let t3 = t2\<lparr>st_sched := set_kv k s2\<rparr> in
            if new_blocks = None then Inr (False, t3)
            else rbind (admit_request rid n computed e t3) (\<lambda>t4. Inr (True, t4)))))))"

fun schedule_waiting :: "nat \<Rightarrow> int list \<Rightarrow> string request_queue \<Rightarrow> sched_step \<Rightarrow> (string request_queue \<times> sched_step) result" where
  "schedule_waiting 0 loras skipped t =
     (if queue_bool (waiting (st_sched t)) \<and> 0 < token_budget t \<and>
         length (running (st_sched t)) \<noteq> max_num_running_reqs (conf (st_sched t))
      then Inl Diverges else Inr (skipped, t))"
| "schedule_waiting (Suc fuel) loras skipped t =
     (let s = st_sched t in
      if \<not> (queue_bool (waiting s) \<and> 0 < token_budget t) \<or> length (running s) = max_num_running_reqs (conf s) then Inr (skipped, t)
      else
        rbind (peek_request (waiting s)) (\<lambda>rid.
        let r = req s rid;
            skip = (\<lambda>s. rbind (pop_request (rlt s) (waiting s)) (\<lambda>(_, w).
                     schedule_waiting fuel loras (prepend_request (rlt s) rid skipped) (t\<lparr>st_sched := s\<lparr>waiting := w\<rparr>\<rparr>))) in
        if status r = WAITING_FOR_REMOTE_KVS then Inl AssertionError
        else if status r = WAITING_FOR_FSM \<and> structured_output_request r \<noteq> Some True then skip s
        else
          let s1 = (if status r = WAITING_FOR_FSM then upd_req rid (\<lambda>r. r\<lparr>status := WAITING\<rparr>) s else s) in
          if lora_exceeds (conf s) r loras then skip s1
          else
            rbind (try_admit rid (t\<lparr>st_sched := s1\<rparr>)) (\<lambda>(admitted, t1).
              if \<not> admitted then Inr (skipped, t1)
              else
                schedule_waiting fuel
                  (case (max_loras (conf s), lora_request r) of
                     (Some m, Some l) \<Rightarrow> List.insert (lora_int_id l) loras | _ \<Rightarrow> loras) skipped t1)))"

section \<open>The output of a step\<close>

record new_request_data =
  nr_req_id :: string
  nr_prompt_token_ids :: "int list option"
  nr_mm_features :: "mm_feature list"
  nr_sampling_params :: "sampling_params_t option"
  nr_pooling_params :: "pooling_params_t option"
  nr_block_ids :: "nat list list"
  nr_num_computed_tokens :: int
  nr_lora_request :: "lora_req option"
  nr_prompt_embeds :: "bytes list option"
  nr_prefill_token_ids :: "int list option"

record cached_request_data =
  cr_req_ids :: "string list"
  cr_resumed_req_ids :: "string list"
  cr_new_token_ids :: "int list list"
  cr_all_token_ids :: "(string, int list) odict"
  cr_new_block_ids :: "nat list list option list"
  cr_num_computed_tokens :: "int list"
  cr_num_output_tokens :: "int list"

record scheduler_output =
  so_new_reqs :: "new_request_data list"
  so_cached_reqs :: cached_request_data
  so_num_scheduled_tokens :: "(string, int) odict"
  so_total_num_scheduled_tokens :: int
  so_spec_decode_tokens :: "(string, int list) odict"
  so_encoder_inputs :: "(string, nat list) odict"
  so_num_common_prefix_blocks :: "nat list"
  so_preempted_req_ids :: "string set"
  so_finished_req_ids :: "string set"
  so_free_encoder_mm_hashes :: "string list"
  so_pending_structured_output_tokens :: bool

definition from_request :: "request \<Rightarrow> nat list list \<Rightarrow> int list option \<Rightarrow> new_request_data" where
  "from_request r block_ids prefill =
     \<lparr>nr_req_id = request_id r, nr_prompt_token_ids = prompt_token_ids r, nr_mm_features = mm_features r,
      nr_sampling_params = sampling_params r, nr_pooling_params = pooling_params r, nr_block_ids = block_ids,
      nr_num_computed_tokens = num_computed_tokens r, nr_lora_request = lora_request r, nr_prompt_embeds = prompt_embeds r, nr_prefill_token_ids = prefill\<rparr>"

definition make_new_request_data :: "sched_step \<Rightarrow> string \<Rightarrow> new_request_data result" where
  "make_new_request_data t rid =
     (let s = st_sched t; r = req s rid in
      rbind (od_lookup (req_to_new_blocks t) rid) (\<lambda>b.
        Inr (from_request r (blocks_of (kv_manager s) b) (if use_v2_model_runner (conf s) then Some (all_token_ids r) else None))))"

text \<open>One turn of the loop of \<^verbatim>\<open>_make_cached_request_data\<close>; \<open>resumed\<close> is \<^verbatim>\<open>idx >= num_running_reqs\<close>.\<close>

definition add_cached_request :: "sched_step \<Rightarrow> bool \<Rightarrow> string \<Rightarrow> cached_request_data \<Rightarrow> cached_request_data result" where
  "add_cached_request t resumed rid d =
     (let s = st_sched t; r = req s rid; in_prev = rid \<in> prev_step_scheduled_req_ids s in
      rbind (if use_pp (conf s)
             then rbind (od_lookup (num_scheduled_tokens t) rid) (\<lambda>n.
                    let m = n - int (length (case map_of (scheduled_spec_decode_tokens t) rid of None \<Rightarrow> [] | Some xs \<Rightarrow> xs)) in
                    Inr (cr_new_token_ids d @
                         [py_slice (all_token_ids r) (nat (num_computed_tokens r)) (nat (num_computed_tokens r + m))]))
             else Inr (cr_new_token_ids d)) (\<lambda>new_toks.
      rbind (rassert (resumed \<longrightarrow> \<not> in_prev)) (\<lambda>_.
      rbind (od_lookup (req_to_new_blocks t) rid) (\<lambda>b.
        Inr \<lparr>cr_req_ids = cr_req_ids d @ [rid],
             cr_resumed_req_ids = (if resumed then List.insert rid (cr_resumed_req_ids d) else cr_resumed_req_ids d),
             cr_new_token_ids = new_toks,
             cr_all_token_ids = (if in_prev then cr_all_token_ids d else AList.update rid (all_token_ids r) (cr_all_token_ids d)),
             cr_new_block_ids = cr_new_block_ids d @ [get_block_ids_of True (blocks_of (kv_manager s) b)],
             cr_num_computed_tokens = cr_num_computed_tokens d @ [num_computed_tokens r],
             cr_num_output_tokens = cr_num_output_tokens d @ [int (num_output_tokens r) + num_output_placeholders r]\<rparr>))))"

definition make_cached_request_data :: "sched_step \<Rightarrow> string list \<Rightarrow> string list \<Rightarrow> cached_request_data result" where
  "make_cached_request_data t running_reqs resumed_reqs =
     rbind (rfold (add_cached_request t False) running_reqs
              \<lparr>cr_req_ids = [], cr_resumed_req_ids = [], cr_new_token_ids = [], cr_all_token_ids = [], cr_new_block_ids = [],
               cr_num_computed_tokens = [], cr_num_output_tokens = []\<rparr>)
       (rfold (add_cached_request t True) resumed_reqs)"

text \<open>\<^verbatim>\<open>_free_encoder_inputs\<close>\<close>

definition free_input_if_done :: "scheduler_config \<Rightarrow> request \<Rightarrow> nat \<Rightarrow> enc_manager \<Rightarrow> enc_manager result" where
  "free_input_if_done cfg r input_id em =
     rbind (py_get (mm_features r) input_id) (\<lambda>f.
       if (is_encoder_decoder cfg \<and> 0 < num_computed_tokens r) \<or>
          int (offset (mm_position f) + ph_length (mm_position f)) \<le> num_computed_tokens r
       then em_free_encoder_input r input_id em else Inr em)"

definition free_encoder_inputs :: "string \<Rightarrow> scheduler \<Rightarrow> scheduler result" where
  "free_encoder_inputs rid s =
     (let r = req s rid in
      rbind (rfold (free_input_if_done (conf s) r) (em_get_cached_input_ids r (encoder_cache_manager s)) (encoder_cache_manager s))
        (\<lambda>em. Inr (s\<lparr>encoder_cache_manager := em\<rparr>)))"

definition advance_request :: "string \<times> int \<Rightarrow> scheduler \<Rightarrow> scheduler result" where
  "advance_request p s =
     (case p of (rid, n) \<Rightarrow>
        rbind (od_lookup (requests s) rid) (\<lambda>_.
          let s1 = upd_req rid (\<lambda>r. r\<lparr>num_computed_tokens := num_computed_tokens r + n\<rparr>) s in
          if has_encoder_inputs (req s1 rid) then free_encoder_inputs rid s1 else Inr s1))"

text \<open>\<^verbatim>\<open>AsyncScheduler._update_after_schedule\<close> adds placeholders for the tokens to come.\<close>

definition add_placeholders :: "scheduler_output \<Rightarrow> string \<Rightarrow> scheduler \<Rightarrow> scheduler" where
  "add_placeholders out rid s =
     (let cur = int (length (case map_of (so_spec_decode_tokens out) rid of None \<Rightarrow> [] | Some xs \<Rightarrow> xs)); r = req s rid in
      if num_computed_tokens r = int (num_tokens r) + num_output_placeholders r + cur
      then upd_req rid (\<lambda>r. r\<lparr>num_output_placeholders := num_output_placeholders r + 1 + cur,
                              spec_token_ids := replicate (num_spec_tokens (conf s)) (- 1)\<rparr>) s
      else s)"

definition update_after_schedule :: "scheduler_output \<Rightarrow> scheduler \<Rightarrow> (scheduler_output \<times> scheduler) result" where
  "update_after_schedule out s =
     rbind (rfold advance_request (so_num_scheduled_tokens out) s) (\<lambda>s1.
       let s2 = s1\<lparr>finished_req_ids := {}\<rparr>; ids = map fst (so_num_scheduled_tokens out) in
       if \<not> is_async (conf s) then Inr (out, s2)
       else
         Inr (out\<lparr>so_pending_structured_output_tokens :=
                    list_ex (\<lambda>rid. use_structured_output (req s2 rid) \<and> 0 < num_output_placeholders (req s2 rid)) ids\<rparr>,
              fold (add_placeholders out) ids s2))"

text \<open>The final assertions, the output and the update after it.\<close>

definition finish_schedule :: "sched_step \<Rightarrow> (scheduler_output \<times> scheduler) result" where
  "finish_schedule t =
     (let s = st_sched t; cfg = conf s; total = sum_list (map snd (num_scheduled_tokens t)) in
      rbind (rassert (total \<le> max_num_scheduled_tokens cfg)) (\<lambda>_.
      rbind (rassert (0 \<le> token_budget t)) (\<lambda>_.
      rbind (rassert (length (running s) \<le> max_num_running_reqs cfg)) (\<lambda>_.
      rbind (rassert (length (scheduled_new_reqs t) + length (scheduled_resumed_reqs t) + length (scheduled_running_reqs t) \<le> length (running s))) (\<lambda>_.
      let (common, k) = (case running s of
                           [] \<Rightarrow> (replicate (num_kv_cache_groups (kv_manager s)) 0, kv_manager s)
                         | rid # _ \<Rightarrow> km_num_common_prefix_blocks rid (kv_manager s));
          t1 = t\<lparr>st_sched := set_kv k s\<rparr>;
          new_reqs = (if use_v2_model_runner cfg then scheduled_new_reqs t @ scheduled_resumed_reqs t else scheduled_new_reqs t);
          resumed_reqs = (if use_v2_model_runner cfg then [] else scheduled_resumed_reqs t) in
      rbind (rmap (make_new_request_data t1) new_reqs) (\<lambda>new_data.
      rbind (make_cached_request_data t1 (scheduled_running_reqs t) resumed_reqs) (\<lambda>cached.
      case em_get_freed_mm_hashes (encoder_cache_manager s) of
        (hashes, em) \<Rightarrow>
          let s1 = (set_kv k s)\<lparr>encoder_cache_manager := em, prev_step_scheduled_req_ids := set (map fst (num_scheduled_tokens t))\<rparr> in
          update_after_schedule
            \<lparr>so_new_reqs = new_data, so_cached_reqs = cached, so_num_scheduled_tokens = num_scheduled_tokens t,
             so_total_num_scheduled_tokens = total, so_spec_decode_tokens = scheduled_spec_decode_tokens t,
             so_encoder_inputs = scheduled_encoder_inputs t, so_num_common_prefix_blocks = common,
             so_preempted_req_ids = set (preempted_reqs t), so_finished_req_ids = finished_req_ids s1,
             so_free_encoder_mm_hashes = hashes, so_pending_structured_output_tokens = False\<rparr> s1)))))))"

text \<open>The body of \<^verbatim>\<open>schedule\<close> up to its final assertions.\<close>

definition schedule_steps :: "scheduler \<Rightarrow> sched_step result" where
  "schedule_steps s =
     rbind (schedule_running (length (running s)) 0 (sched_step_init s)) (\<lambda>t.
     rbind (running_loras t) (\<lambda>loras.
     rbind (if preempted_reqs t = []
            then schedule_waiting (queue_len (waiting (st_sched t))) loras (create_request_queue (policy (conf s))) t
            else Inr (create_request_queue (policy (conf s)), t)) (\<lambda>(skipped, t1).
       let s1 = st_sched t1;
           s2 = (if queue_bool skipped then s1\<lparr>waiting := prepend_requests (rlt s1) skipped (waiting s1)\<rparr> else s1) in
       Inr (t1\<lparr>st_sched := s2\<rparr>))))"

definition schedule :: "scheduler \<Rightarrow> (scheduler_output \<times> scheduler) result" where
  "schedule s = rbind (schedule_steps s) finish_schedule"

section \<open>Requests in and out\<close>

definition sched_add_request :: "request \<Rightarrow> scheduler \<Rightarrow> scheduler" where
  "sched_add_request r s =
     (let s1 = s\<lparr>requests := AList.update (request_id r) r (requests s)\<rparr> in
      log_event QUEUED (request_id r) (s1\<lparr>waiting := add_request (rlt s1) (request_id r) (waiting s1)\<rparr>))"

text \<open>\<^verbatim>\<open>_free_blocks\<close> and \<^verbatim>\<open>_free_request\<close>; without a connector the blocks are freed at once.\<close>

definition sched_free_blocks :: "string \<Rightarrow> scheduler \<Rightarrow> scheduler result" where
  "sched_free_blocks rid s =
     rbind (rassert (is_finished (req s rid))) (\<lambda>_.
     rbind (km_free (req s rid) (kv_manager s)) (\<lambda>k.
       Inr (s\<lparr>kv_manager := k, requests := AList.delete rid (requests s)\<rparr>)))"

definition free_request :: "string \<Rightarrow> scheduler \<Rightarrow> scheduler result" where
  "free_request rid s =
     (let r = req s rid in
      rbind (rassert (is_finished r)) (\<lambda>_.
      rbind (em_free r (encoder_cache_manager s)) (\<lambda>em.
        sched_free_blocks rid
          (s\<lparr>encoder_cache_manager := em, finished_req_ids := insert rid (finished_req_ids s),
             finished_req_ids_dict := map_option (\<lambda>d.
               AList.update (client_index r) (insert rid (case map_of d (client_index r) of None \<Rightarrow> {} | Some ids \<Rightarrow> ids)) d)
               (finished_req_ids_dict s)\<rparr>))))"

text \<open>The set of ids is iterated in some order: the argument lists them in that order.\<close>

definition finish_requests :: "string list \<Rightarrow> request_status \<Rightarrow> scheduler \<Rightarrow> scheduler result" where
  "finish_requests ids finished_status s =
     rbind (rassert (status_is_finished finished_status)) (\<lambda>_.
       let valid = filter (\<lambda>rid. case map_of (requests s) rid of None \<Rightarrow> False | Some r \<Rightarrow> \<not> is_finished r) ids;
           run = filter (\<lambda>rid. status (req s rid) = RUNNING) valid;
           wait = filter (\<lambda>rid. status (req s rid) \<noteq> RUNNING) valid;
           s1 = (if run = [] then s else s\<lparr>running := remove_all (running s) run\<rparr>);
           s2 = (if wait = [] then s1 else s1\<lparr>waiting := remove_requests (rlt s1) wait (waiting s1)\<rparr>) in
       rfold (\<lambda>rid s. free_request rid (upd_req rid (\<lambda>r. r\<lparr>status := finished_status\<rparr>) s)) valid s2)"

definition get_request_counts :: "scheduler \<Rightarrow> nat \<times> nat" where
  "get_request_counts s = (length (running s), queue_len (waiting s))"

definition get_num_unfinished_requests :: "scheduler \<Rightarrow> nat" where
  "get_num_unfinished_requests s = queue_len (waiting s) + length (running s)"

definition has_finished_requests :: "scheduler \<Rightarrow> bool" where
  "has_finished_requests s \<longleftrightarrow> finished_req_ids s \<noteq> {}"

text \<open>The \<^verbatim>\<open>while self.running\<close> loop of \<^verbatim>\<open>reset_prefix_cache\<close>; the connector's cache is not there.\<close>

definition preempt_for_reset :: "string \<Rightarrow> scheduler \<Rightarrow> scheduler result" where
  "preempt_for_reset rid s =
     rbind (preempt_request rid (s\<lparr>running := butlast (running s)\<rparr>)) (\<lambda>s1.
       Inr (upd_req rid (\<lambda>r. r\<lparr>num_output_placeholders := 0, discard_latest_async_tokens := True\<rparr>) s1))"

definition sched_reset_prefix_cache :: "bool \<Rightarrow> bool \<Rightarrow> scheduler \<Rightarrow> (bool \<times> scheduler) result" where
  "sched_reset_prefix_cache reset_running_requests reset_connector s =
     rbind (if reset_running_requests
            then rbind (rfold preempt_for_reset (rev (running s)) s) (\<lambda>s1. Inr (s1\<lparr>prev_step_scheduled_req_ids := {}\<rparr>))
            else Inr s) (\<lambda>s1.
     rbind (km_reset_prefix_cache (kv_manager s1)) (\<lambda>(ok, k).
       if reset_running_requests \<and> \<not> ok then Inl RuntimeError
       else Inr (ok \<and> \<not> reset_connector, set_kv k s1)))"

text \<open>
  The structured output manager decides whether a request's grammar advances and which draft tokens the
  grammar allows; both are parameters.
\<close>

record structured_manager =
  should_advance :: "request \<Rightarrow> bool"
  validate_tokens :: "request \<Rightarrow> int list \<Rightarrow> int list"

definition update_one_draft :: "structured_manager \<Rightarrow> string \<times> int list \<Rightarrow> scheduler \<Rightarrow> scheduler" where
  "update_one_draft sm p s =
     (case p of (rid, toks) \<Rightarrow>
        case map_of (requests s) rid of
          None \<Rightarrow> s
        | Some r \<Rightarrow>
            if is_finished r then s
            else upd_req rid (\<lambda>r. r\<lparr>spec_token_ids := (if should_advance sm r then validate_tokens sm r toks else toks)\<rparr>) s)"

definition update_draft_token_ids :: "structured_manager \<Rightarrow> string list \<Rightarrow> int list list \<Rightarrow> scheduler \<Rightarrow> scheduler" where
  "update_draft_token_ids sm req_ids draft_token_ids s = fold (update_one_draft sm) (zip req_ids draft_token_ids) s"

definition structured_request_ids :: "scheduler_output \<Rightarrow> scheduler \<Rightarrow> string list" where
  "structured_request_ids out s =
     filter (\<lambda>rid. case map_of (requests s) rid of None \<Rightarrow> False | Some r \<Rightarrow> use_structured_output r) (map fst (so_num_scheduled_tokens out))"

section \<open>Statistics\<close>

record spec_decoding_stats =
  sd_num_spec_tokens :: nat
  sd_num_drafts :: int
  sd_num_draft_tokens :: int
  sd_num_accepted_tokens :: int
  sd_num_accepted_tokens_per_pos :: "int list"

definition new_spec_decoding_stats :: "nat \<Rightarrow> spec_decoding_stats" where
  "new_spec_decoding_stats n =
     \<lparr>sd_num_spec_tokens = n, sd_num_drafts = 0, sd_num_draft_tokens = 0, sd_num_accepted_tokens = 0,
      sd_num_accepted_tokens_per_pos = replicate n 0\<rparr>"

definition observe_draft :: "int \<Rightarrow> int \<Rightarrow> spec_decoding_stats \<Rightarrow> spec_decoding_stats result" where
  "observe_draft num_draft num_accepted st =
     rbind (rassert (num_accepted \<le> int (sd_num_spec_tokens st))) (\<lambda>_.
     let pos = sd_num_accepted_tokens_per_pos st in
     if length pos < nat num_accepted then Inl IndexError
     else
       Inr (st\<lparr>sd_num_drafts := sd_num_drafts st + 1, sd_num_draft_tokens := sd_num_draft_tokens st + num_draft,
               sd_num_accepted_tokens := sd_num_accepted_tokens st + num_accepted,
               sd_num_accepted_tokens_per_pos := map (\<lambda>x. x + 1) (take (nat num_accepted) pos) @ drop (nat num_accepted) pos\<rparr>))"

definition make_spec_decoding_stats :: "scheduler_config \<Rightarrow> spec_decoding_stats option \<Rightarrow> int \<Rightarrow> int \<Rightarrow> spec_decoding_stats option result" where
  "make_spec_decoding_stats cfg st num_draft num_accepted =
     (if \<not> log_stats cfg then Inr None
      else rbind (observe_draft num_draft num_accepted
                    (case st of None \<Rightarrow> new_spec_decoding_stats (num_spec_tokens cfg) | Some x \<Rightarrow> x)) (\<lambda>x. Inr (Some x)))"

record scheduler_stats =
  ss_num_running_reqs :: nat
  ss_num_waiting_reqs :: nat
  ss_kv_cache_usage :: real
  ss_prefix_cache_stats :: prefix_cache_stats
  ss_spec_decoding_stats :: "spec_decoding_stats option"

definition make_stats :: "spec_decoding_stats option \<Rightarrow> scheduler \<Rightarrow> (scheduler_stats option \<times> scheduler) result" where
  "make_stats spec s =
     (if \<not> log_stats (conf s) then Inr (None, s)
      else
        case make_prefix_cache_stats (kv_manager s) of
          (None, k) \<Rightarrow> Inl AssertionError
        | (Some ps, k) \<Rightarrow>
            Inr (Some \<lparr>ss_num_running_reqs = length (running s), ss_num_waiting_reqs = queue_len (waiting s),
                       ss_kv_cache_usage = usage k, ss_prefix_cache_stats = ps, ss_spec_decoding_stats = spec\<rparr>, set_kv k s))"

section \<open>The output of the model runner\<close>

text \<open>
  A pooled output is opaque (\<open>Some\<close> when there is one); \<open>ro_prompt_logprobs\<close> names the requests that
  have prompt log probabilities.
\<close>

record model_runner_output =
  ro_req_id_to_index :: "(string, nat) odict"
  ro_sampled_token_ids :: "int list list"
  ro_pooler_output :: "nat option list"
  ro_num_nans_in_logits :: "(string, int) odict option"
  ro_prompt_logprobs :: "string list"

record engine_core_output =
  eo_request_id :: string
  eo_new_token_ids :: "int list"
  eo_finish_reason :: "finish_reason option"
  eo_stop_reason :: "int option"
  eo_pooling_output :: "nat option"
  eo_events :: "engine_event list option"
  eo_num_cached_tokens :: int
  eo_num_nans_in_logits :: int

record engine_core_outputs =
  eco_outputs :: "engine_core_output list"
  eco_finished_requests :: "string set option"
  eco_scheduler_stats :: "scheduler_stats option"

text \<open>\<^verbatim>\<open>_update_request_with_output\<close>: append the tokens one by one until one of them stops the request.\<close>

fun append_until_stop :: "block_hasher option \<Rightarrow> nat \<Rightarrow> int list \<Rightarrow> request \<Rightarrow> (int list \<times> bool \<times> request) result" where
  "append_until_stop hasher max_len [] r = Inr ([], False, r)"
| "append_until_stop hasher max_len (tok # toks) r =
     rbind (append_output_token_ids hasher [tok] r) (\<lambda>r1.
     rbind (check_stop r1 max_len) (\<lambda>(stopped, r2).
       if stopped then Inr ([tok], True, r2)
       else rbind (append_until_stop hasher max_len toks r2) (\<lambda>(kept, st, r3). Inr (tok # kept, st, r3))))"

definition update_request_with_output ::
  "block_hasher option \<Rightarrow> string \<Rightarrow> int list \<Rightarrow> scheduler \<Rightarrow> (int list \<times> bool \<times> scheduler) result" where
  "update_request_with_output hasher rid toks s =
     (let r = req s rid in
      if is_async (conf s) \<and> discard_latest_async_tokens r
      then Inr ([], False, upd_req rid (\<lambda>r. r\<lparr>discard_latest_async_tokens := False\<rparr>) s)
      else
        rbind (append_until_stop hasher (sc_max_model_len (conf s)) toks r) (\<lambda>(kept, stopped, r1).
          if \<not> is_async (conf s) then Inr (kept, stopped, upd_req rid (\<lambda>_. r1) s)
          else
            let r2 = r1\<lparr>num_output_placeholders := num_output_placeholders r1 - int (length kept)\<rparr> in
            rbind (rassert (0 \<le> num_output_placeholders r2)) (\<lambda>_.
            rbind (if status r = RUNNING
                   then km_cache_blocks r2 (nat (num_computed_tokens r2 - num_output_placeholders r2)) (kv_manager s)
                   else Inr (kv_manager s)) (\<lambda>k.
              Inr (kept, stopped, set_kv k (upd_req rid (\<lambda>_. r2) s))))))"

text \<open>The variables of the loop of \<^verbatim>\<open>update_from_output\<close>.\<close>

record update_step =
  us_sched :: scheduler
  us_outputs :: "(int, engine_core_output list) odict"
  us_spec_stats :: "spec_decoding_stats option"
  us_stopped_running :: "string list"
  us_stopped_preempted :: "string list"

text \<open>Rejected draft tokens are taken back from the counters.\<close>

definition reject_drafts :: "scheduler_output \<Rightarrow> string \<Rightarrow> int list \<Rightarrow> update_step \<Rightarrow> update_step result" where
  "reject_drafts out rid generated u =
     (case map_of (so_spec_decode_tokens out) rid of
        None \<Rightarrow> Inr u
      | Some drafts \<Rightarrow>
          if drafts = [] then Inr u
          else
            let num_draft = int (length drafts); num_accepted = int (length generated) - 1; num_rejected = num_draft - num_accepted in
            rbind (make_spec_decoding_stats (conf (us_sched u)) (us_spec_stats u) num_draft num_accepted) (\<lambda>st.
              Inr (u\<lparr>us_spec_stats := st,
                     us_sched := upd_req rid (\<lambda>r. r\<lparr>
                       num_computed_tokens := (if 0 < num_computed_tokens r then num_computed_tokens r - num_rejected else num_computed_tokens r),
                       num_output_placeholders := (if 0 < num_output_placeholders r then num_output_placeholders r - num_rejected
                                                   else num_output_placeholders r)\<rparr>) (us_sched u)\<rparr>)))"

text \<open>The new tokens of a request, or its pooled output, and whether it stops.\<close>

definition consume_output ::
  "block_hasher option \<Rightarrow> string \<Rightarrow> int list \<Rightarrow> nat option \<Rightarrow> scheduler \<Rightarrow> (int list \<times> bool \<times> scheduler) result" where
  "consume_output hasher rid generated pooled s =
     (if generated \<noteq> [] then update_request_with_output hasher rid generated s
      else if pooling_params (req s rid) \<noteq> None \<and> pooled \<noteq> None
      then Inr ([], True, upd_req rid (\<lambda>r. r\<lparr>status := FINISHED_STOPPED\<rparr>) s)
      else Inr ([], False, s))"

text \<open>The grammar of a structured request has to be there when it advances.\<close>

definition grammar_check :: "structured_manager \<Rightarrow> request \<Rightarrow> int list \<Rightarrow> unit result" where
  "grammar_check sm r toks = (if toks \<noteq> [] \<and> should_advance sm r then rassert (structured_output_request r = Some True) else Inr ())"

definition emit_output :: "string \<Rightarrow> int list \<Rightarrow> nat option \<Rightarrow> request \<Rightarrow> bool \<Rightarrow> update_step \<Rightarrow> update_step result" where
  "emit_output rid toks pooled r has_prompt_logprobs u =
     (if toks \<noteq> [] \<or> pooled \<noteq> None
      then
        case take_events r of
          (es, r1) \<Rightarrow>
            let o1 = \<lparr>eo_request_id = rid, eo_new_token_ids = toks, eo_finish_reason = get_finished_reason r, eo_stop_reason = stop_reason r,
                      eo_pooling_output = pooled, eo_events = es, eo_num_cached_tokens = num_cached_tokens r,
                      eo_num_nans_in_logits = num_nans_in_logits r\<rparr> in
            Inr (u\<lparr>us_outputs := AList.update (client_index r)
                       ((case map_of (us_outputs u) (client_index r) of None \<Rightarrow> [] | Some os \<Rightarrow> os) @ [o1]) (us_outputs u),
                   us_sched := upd_req rid (\<lambda>_. r1) (us_sched u)\<rparr>)
      else rbind (rassert (\<not> has_prompt_logprobs)) (\<lambda>_. Inr u))"

text \<open>The body of the loop for one scheduled request.\<close>

definition update_one ::
  "block_hasher option \<Rightarrow> structured_manager \<Rightarrow> scheduler_output \<Rightarrow> model_runner_output \<Rightarrow> string \<times> int \<Rightarrow> update_step \<Rightarrow> update_step result" where
  "update_one hasher sm out ro p u =
     (case p of (rid, num_tokens_scheduled) \<Rightarrow>
        rbind (rassert (0 < num_tokens_scheduled)) (\<lambda>_.
        if map_of (requests (us_sched u)) rid = None then Inr u
        else
          rbind (od_lookup (ro_req_id_to_index ro) rid) (\<lambda>req_index.
          rbind (if ro_sampled_token_ids ro = [] then Inr [] else py_get (ro_sampled_token_ids ro) req_index) (\<lambda>generated.
          rbind (reject_drafts out rid generated u) (\<lambda>u1.
          rbind (if ro_pooler_output ro = [] then Inr None else py_get (ro_pooler_output ro) req_index) (\<lambda>pooled.
          let status_before_stop = status (req (us_sched u1) rid) in
          rbind (consume_output hasher rid generated pooled (us_sched u1)) (\<lambda>(toks, stopped, s2).
          let r2 = req s2 rid in
          rbind (if stopped then free_request rid s2 else Inr s2) (\<lambda>s3.
          let u3 = u1\<lparr>us_sched := s3,
                      us_stopped_running := (if stopped \<and> status_before_stop = RUNNING then us_stopped_running u1 @ [rid] else us_stopped_running u1),
                      us_stopped_preempted := (if stopped \<and> status_before_stop \<noteq> RUNNING then us_stopped_preempted u1 @ [rid]
                                               else us_stopped_preempted u1)\<rparr> in
          rbind (grammar_check sm r2 toks) (\<lambda>_.
          let r3 = (case ro_num_nans_in_logits ro of
                      None \<Rightarrow> r2
                    | Some d \<Rightarrow> (case map_of d rid of None \<Rightarrow> r2 | Some n \<Rightarrow> r2\<lparr>num_nans_in_logits := n\<rparr>));
              u4 = u3\<lparr>us_sched := upd_req rid (\<lambda>_. r3) (us_sched u3)\<rparr> in
          emit_output rid toks pooled r3 (rid \<in> set (ro_prompt_logprobs ro)) u4)))))))))"

text \<open>The finished ids of every client go into its outputs, the statistics into the first one.\<close>

definition add_finished :: "int \<times> string set \<Rightarrow> (int, engine_core_outputs) odict \<Rightarrow> (int, engine_core_outputs) odict" where
  "add_finished p d =
     (case p of (client, ids) \<Rightarrow>
        AList.update client
          (case map_of d client of
             Some eco \<Rightarrow> eco\<lparr>eco_finished_requests := Some ids\<rparr>
           | None \<Rightarrow> \<lparr>eco_outputs = [], eco_finished_requests = Some ids, eco_scheduler_stats = None\<rparr>) d)"

definition add_stats :: "scheduler_stats option \<Rightarrow> (int, engine_core_outputs) odict \<Rightarrow> (int, engine_core_outputs) odict" where
  "add_stats stats d =
     (case stats of
        None \<Rightarrow> d
      | Some st \<Rightarrow>
          (case d of
             [] \<Rightarrow> [(0, \<lparr>eco_outputs = [], eco_finished_requests = None, eco_scheduler_stats = Some st\<rparr>)]
           | (client, eco) # rest \<Rightarrow> (client, eco\<lparr>eco_scheduler_stats := Some st\<rparr>) # rest))"

definition update_from_output ::
  "block_hasher option \<Rightarrow> structured_manager \<Rightarrow> scheduler_output \<Rightarrow> model_runner_output \<Rightarrow> scheduler \<Rightarrow>
   ((int, engine_core_outputs) odict \<times> kv_cache_event list \<times> scheduler) result" where
  "update_from_output hasher sm out ro s =
     rbind (rfold (update_one hasher sm out ro) (so_num_scheduled_tokens out)
              \<lparr>us_sched = s, us_outputs = [], us_spec_stats = None, us_stopped_running = [], us_stopped_preempted = []\<rparr>) (\<lambda>u.
     let s1 = us_sched u;
         s2 = (if us_stopped_running u = [] then s1 else s1\<lparr>running := remove_all (running s1) (us_stopped_running u)\<rparr>);
         s3 = (if us_stopped_preempted u = [] then s2
               else s2\<lparr>waiting := remove_requests (rlt s2) (us_stopped_preempted u) (waiting s2)\<rparr>) in
     case km_take_events (kv_manager s3) of
       (kv_events, k) \<Rightarrow>
         let s4 = set_kv k s3;
             d0 = map (\<lambda>(client, outs). (client, \<lparr>eco_outputs = outs, eco_finished_requests = None, eco_scheduler_stats = None\<rparr>)) (us_outputs u);
             d1 = (case finished_req_ids_dict s4 of None \<Rightarrow> d0 | Some f \<Rightarrow> fold add_finished f d0);
             s5 = s4\<lparr>finished_req_ids_dict := map_option (\<lambda>_. []) (finished_req_ids_dict s4)\<rparr> in
         rbind (make_stats (us_spec_stats u) s5) (\<lambda>(stats, s6). Inr (add_stats stats d1, kv_events, s6)))"

end
