(* ===== verification/Scheduler_Queues.thy ===== *)
theory Scheduler_Queues
  imports Scheduler
begin

text \<open>
  What every operation of the scheduler keeps of its queues: a request is in exactly one of the
  running list and the waiting queue, with a status that says so, whatever the configuration.  The
  lemmas go through the loops of a scheduling step and of the update after it; they also give the
  bookkeeping of the step (budgets and counts) and that the fuel of its loops is never used up.
\<close>

named_theorems queue_mset \<open>what the queue operations do to the bag of requests\<close>

section \<open>Queues as bags\<close>

lemma fold_push_mset: "mset (fold (heappush lt) xs h) = mset xs + mset h"
  by (induction xs arbitrary: h) (simp_all add: heappush_mset)

lemma prio_iter_mset: "mset (prio_iter lt h) = mset h"
proof -
  have "n = length h \<Longrightarrow> mset (prio_iter_fuel lt n h) = mset h" for n
  proof (induction n arbitrary: h)
    case (Suc n)
    then have "h \<noteq> []" by auto
    from heappop_mset [OF this, of lt] obtain h' where h': "heappop lt h = Inr (h ! 0, h')" "mset h = add_mset (h ! 0) (mset h')" by auto
    then have "length h' = n" using Suc.prems by (metis Suc_inject size_add_mset size_mset)
    with Suc.IH [of h'] h' show ?case by simp
  qed simp
  then show ?thesis by (simp add: prio_iter_def)
qed

lemma queue_iter_mset: "mset (queue_iter lt q) = mset (queue_items q)"
  by (cases q) (simp_all add: queue_iter_def queue_items_def prio_iter_mset)

lemma fcfs_prepends: "fcfs_prepend_requests xs q = xs @ q"
  by (induction xs arbitrary: q rule: rev_induct) (simp_all add: fcfs_prepend_requests_def fcfs_prepend_request_def)

lemma add_request_mset [queue_mset]: "mset (queue_items (add_request lt r q)) = add_mset r (mset (queue_items q))"
  by (cases q) (simp_all add: add_request_def queue_items_def fcfs_add_request_def prio_add_request_def heappush_mset)

lemma prepend_request_mset [queue_mset]: "mset (queue_items (prepend_request lt r q)) = add_mset r (mset (queue_items q))"
  by (cases q) (simp_all add: prepend_request_def queue_items_def fcfs_prepend_request_def prio_add_request_def heappush_mset)

lemma prepend_requests_mset [queue_mset]:
  "mset (queue_items (prepend_requests lt rs q)) = mset (queue_items rs) + mset (queue_items q)"
  using queue_iter_mset [of lt rs]
  by (cases q) (simp_all add: prepend_requests_def queue_items_def fcfs_prepends prio_prepend_requests_def prio_add_request_def
      fold_push_mset [unfolded prio_add_request_def [symmetric]] flip: prio_add_request_def)

lemma remove_requests_mset [queue_mset]:
  "mset (queue_items (remove_requests lt rs q)) = filter_mset (\<lambda>r. r \<notin> set rs) (mset (queue_items q))"
  by (cases q) (simp_all add: remove_requests_def queue_items_def fcfs_remove_requests_def prio_remove_requests_def heapify_mset)

lemma pop_request_mset:
  assumes "queue_bool q"
  shows "\<exists>r q'. peek_request q = Inr r \<and> pop_request lt q = Inr (r, q') \<and> mset (queue_items q) = add_mset r (mset (queue_items q'))"
proof (cases q)
  case (FCFSRequestQueue xs)
  with assms show ?thesis
    by (cases xs) (auto simp: queue_bool_def queue_items_def peek_request_def pop_request_def fcfs_peek_request_def fcfs_pop_request_def)
next
  case (PriorityRequestQueue h)
  with assms have "h \<noteq> []" by (simp add: queue_bool_def queue_items_def)
  from heappop_mset [OF this, of lt] this PriorityRequestQueue show ?thesis
    by (auto simp: queue_items_def peek_request_def pop_request_def prio_peek_request_def prio_pop_request_def)
qed

lemma queue_items_create [simp]: "queue_items (create_request_queue p) = []"
  by (cases p) (simp_all add: create_request_queue_def queue_items_def)

section \<open>Reading and changing requests\<close>

lemma map_of_upd_req: "map_of (requests (upd_req rid f s)) x = (if x = rid then map_option f (map_of (requests s) x) else map_of (requests s) x)"
  by (simp add: upd_req_def map_of_map_entry map_option_case)

lemma upd_req_keys [simp]: "map fst (requests (upd_req rid f s)) = map fst (requests s)"
proof -
  have "map fst (AList.map_entry rid f d) = map fst d" for d by (induction d) auto
  then show ?thesis by (simp add: upd_req_def)
qed

lemma upd_req_fields [simp]:
  "conf (upd_req rid f s) = conf s" "waiting (upd_req rid f s) = waiting s" "running (upd_req rid f s) = running s"
  "finished_req_ids (upd_req rid f s) = finished_req_ids s" "kv_manager (upd_req rid f s) = kv_manager s"
  "encoder_cache_manager (upd_req rid f s) = encoder_cache_manager s"
  by (simp_all add: upd_req_def)

lemma log_event_fields [simp]:
  "conf (log_event e rid s) = conf s" "waiting (log_event e rid s) = waiting s" "running (log_event e rid s) = running s"
  "kv_manager (log_event e rid s) = kv_manager s" "map fst (requests (log_event e rid s)) = map fst (requests s)"
  by (simp_all add: log_event_def)

lemma set_kv_fields [simp]:
  "conf (set_kv k s) = conf s" "waiting (set_kv k s) = waiting s" "running (set_kv k s) = running s"
  "requests (set_kv k s) = requests s" "encoder_cache_manager (set_kv k s) = encoder_cache_manager s"
  by (simp_all add: set_kv_def)

text \<open>The clients of the requests.\<close>

definition clients :: "scheduler \<Rightarrow> (string \<times> int) list" where
  "clients s = map (\<lambda>(rid, r). (rid, client_index r)) (requests s)"

lemma clients_keys: "map fst (clients s) = map fst (requests s)"
  by (simp add: clients_def split_beta comp_def)

lemma clients_requests: "requests s' = requests s \<Longrightarrow> clients s' = clients s"
  by (simp add: clients_def)

lemma clients_upd:
  "(\<And>r. map_of (requests s) rid = Some r \<Longrightarrow> client_index (f r) = client_index r) \<Longrightarrow> clients (upd_req rid f s) = clients s"
proof -
  have "(\<And>r. map_of d rid = Some r \<Longrightarrow> client_index (f r) = client_index r) \<Longrightarrow>
      map (\<lambda>(rid, r). (rid, client_index r)) (AList.map_entry rid f d) = map (\<lambda>(rid, r). (rid, client_index r)) d" for d
    by (induction d) (auto split: if_splits)
  then show "(\<And>r. map_of (requests s) rid = Some r \<Longrightarrow> client_index (f r) = client_index r) \<Longrightarrow> clients (upd_req rid f s) = clients s"
    by (simp add: clients_def upd_req_def)
qed

lemma clients_simps [simp]:
  "(\<And>r. client_index (f r) = client_index r) \<Longrightarrow> clients (upd_req rid f s) = clients s"
  "clients (set_kv k s) = clients s" "clients (log_event e rid s) = clients s"
  by (auto intro: clients_upd clients_requests simp: log_event_def record_event_def)

text \<open>What the partition depends on: the ids and statuses of the requests.\<close>

definition id_status :: "scheduler \<Rightarrow> string \<Rightarrow> (string \<times> request_status) option" where
  "id_status s rid = map_option (\<lambda>r. (request_id r, status r)) (map_of (requests s) rid)"

lemma id_statusD:
  "id_status s rid = Some (i, st) \<Longrightarrow> map_of (requests s) rid = Some (req s rid) \<and> request_id (req s rid) = i \<and> status (req s rid) = st"
  by (cases "map_of (requests s) rid") (simp_all add: id_status_def req_def)

definition same_status :: "scheduler \<Rightarrow> scheduler \<Rightarrow> bool" where
  "same_status s s' \<longleftrightarrow> map fst (requests s') = map fst (requests s) \<and> id_status s' = id_status s \<and> clients s' = clients s"

lemma same_status_refl [simp]: "same_status s s"
  by (simp add: same_status_def)

lemma same_status_trans: "same_status a b \<Longrightarrow> same_status b c \<Longrightarrow> same_status a c"
  by (simp add: same_status_def)

lemma same_status_requests: "requests s' = requests s \<Longrightarrow> same_status s s'"
  by (simp add: same_status_def id_status_def fun_eq_iff clients_def)

lemma id_status_upd:
  "id_status (upd_req rid f s) x = (if x = rid then map_option (\<lambda>r. (request_id (f r), status (f r))) (map_of (requests s) x) else id_status s x)"
  by (simp add: id_status_def map_of_upd_req option.map_comp comp_def)

lemma same_status_upd:
  "(\<And>r. map_of (requests s) rid = Some r \<Longrightarrow> request_id (f r) = request_id r \<and> status (f r) = status r \<and> client_index (f r) = client_index r) \<Longrightarrow>
   same_status s (upd_req rid f s)"
  unfolding same_status_def fun_eq_iff id_status_upd by (auto simp: id_status_def intro: option.map_cong clients_upd)

lemma same_status_log [simp]: "same_status s (log_event e rid s)"
  by (auto simp: log_event_def record_event_def intro: same_status_upd)

section \<open>The partition of the requests\<close>

text \<open>
  \<open>X\<close> are ids that the step holds aside (the skipped requests), \<open>D\<close> ids whose request is finished and
  gone but which are still in a queue.
\<close>

definition waiting_status :: "request_status \<Rightarrow> bool" where
  "waiting_status st \<longleftrightarrow> st = WAITING \<or> st = WAITING_FOR_FSM \<or> st = PREEMPTED"

definition qok :: "string list \<Rightarrow> string set \<Rightarrow> scheduler \<Rightarrow> bool" where
  "qok X D s \<longleftrightarrow> distinct (map fst (requests s)) \<and> (\<forall>rid i st. id_status s rid = Some (i, st) \<longrightarrow> i = rid) \<and>
     distinct (running s @ queue_items (waiting s) @ X) \<and>
     set (running s @ queue_items (waiting s) @ X) - D = set (map fst (requests s)) \<and> D \<inter> set (map fst (requests s)) = {} \<and>
     (\<forall>rid \<in> set (running s) - D. id_status s rid = Some (rid, RUNNING)) \<and>
     (\<forall>rid \<in> set (queue_items (waiting s) @ X) - D. \<exists>st. id_status s rid = Some (rid, st) \<and> waiting_status st)"

lemma qok_cong:
  assumes "qok X D s" and "same_status s s'" and "mset (running s') = mset (running s)"
    and "mset (queue_items (waiting s')) + mset X' = mset (queue_items (waiting s)) + mset X"
  shows "qok X' D s'"
proof -
  have m: "mset (queue_items (waiting s') @ X') = mset (queue_items (waiting s) @ X)" using assms(4) by simp
  have sets: "set (queue_items (waiting s') @ X') = set (queue_items (waiting s) @ X)" "set (running s') = set (running s)"
    using m assms(3) by (metis set_mset_mset)+
  have "distinct (running s' @ queue_items (waiting s') @ X') = distinct (running s @ queue_items (waiting s) @ X)"
    using m assms(3) by (metis mset_append mset_eq_imp_distinct_iff)
  then show ?thesis
    using assms(1,2) sets unfolding qok_def same_status_def by simp
qed

lemma qok_same:
  "qok X D s \<Longrightarrow> same_status s s' \<Longrightarrow> running s' = running s \<Longrightarrow> waiting s' = waiting s \<Longrightarrow> qok X D s'"
  by (rule qok_cong) simp_all

lemma qok_status:
  assumes "qok X D s"
  shows "rid \<in> set (running s) \<Longrightarrow> rid \<notin> D \<Longrightarrow> status (req s rid) = RUNNING \<and> request_id (req s rid) = rid \<and> map_of (requests s) rid = Some (req s rid)"
    and "rid \<in> set (queue_items (waiting s)) \<Longrightarrow> rid \<notin> D \<Longrightarrow>
      waiting_status (status (req s rid)) \<and> request_id (req s rid) = rid \<and> map_of (requests s) rid = Some (req s rid)"
proof -
  show "status (req s rid) = RUNNING \<and> request_id (req s rid) = rid \<and> map_of (requests s) rid = Some (req s rid)"
    if "rid \<in> set (running s)" "rid \<notin> D"
  proof -
    have "id_status s rid = Some (rid, RUNNING)" using assms that by (simp add: qok_def)
    from id_statusD [OF this] show ?thesis by simp
  qed
  show "waiting_status (status (req s rid)) \<and> request_id (req s rid) = rid \<and> map_of (requests s) rid = Some (req s rid)"
    if "rid \<in> set (queue_items (waiting s))" "rid \<notin> D"
  proof -
    have "\<exists>st. id_status s rid = Some (rid, st) \<and> waiting_status st" using assms that by (simp add: qok_def)
    with id_statusD show ?thesis by metis
  qed
qed

section \<open>Moving a request between the queues\<close>

lemma qok_all: "qok X D s \<Longrightarrow> distinct (running s @ queue_items (waiting s) @ X) \<and> set (map fst (requests s)) = set (running s @ queue_items (waiting s) @ X) - D"
  by (simp add: qok_def)

lemma qok_intro:
  assumes "qok X D s" and keys: "map fst (requests s') = map fst (requests s)"
    and all: "mset (running s' @ queue_items (waiting s') @ X') = mset (running s @ queue_items (waiting s) @ X)"
    and ids: "\<And>rid i st. id_status s' rid = Some (i, st) \<Longrightarrow> i = rid"
    and run: "\<And>rid. rid \<in> set (running s') \<Longrightarrow> rid \<notin> D \<Longrightarrow> id_status s' rid = Some (rid, RUNNING)"
    and wait: "\<And>rid. rid \<in> set (queue_items (waiting s') @ X') \<Longrightarrow> rid \<notin> D \<Longrightarrow> \<exists>st. id_status s' rid = Some (rid, st) \<and> waiting_status st"
  shows "qok X' D s'"
proof -
  have sets: "set (running s' @ queue_items (waiting s') @ X') = set (running s @ queue_items (waiting s) @ X)"
    using all by (metis set_mset_mset)
  have dist: "distinct (running s' @ queue_items (waiting s') @ X') = distinct (running s @ queue_items (waiting s) @ X)"
    using all by (rule mset_eq_imp_distinct_iff)
  have "distinct (running s' @ queue_items (waiting s') @ X')" unfolding dist using assms(1) by (simp add: qok_def)
  moreover have "set (running s' @ queue_items (waiting s') @ X') - D = set (map fst (requests s'))"
    unfolding sets keys using assms(1) unfolding qok_def by blast
  ultimately show ?thesis using assms(1) ids run wait unfolding qok_def keys by blast
qed

text \<open>From running to waiting, and back.\<close>

lemma qok_to_waiting:
  assumes q: "qok X D s" and rid: "rid \<in> set (running s)" "rid \<notin> D"
    and keys: "map fst (requests s') = map fst (requests s)" and st: "id_status s' = (id_status s)(rid := Some (rid, st'))" "waiting_status st'"
    and run: "mset (running s') = mset (running s) - {#rid#}" and wait: "mset (queue_items (waiting s')) = add_mset rid (mset (queue_items (waiting s)))"
  shows "qok X D s'"
proof (rule qok_intro [OF q keys])
  have d: "distinct (running s)" "rid \<notin> set (queue_items (waiting s) @ X)" using q rid by (auto simp: qok_def)
  have sr: "set (running s') = set (running s) - {rid}"
    using run d(1) by (metis mset_remove1 set_mset_mset set_remove1_eq)
  have sw: "set (queue_items (waiting s')) = insert rid (set (queue_items (waiting s)))" using wait by (metis set_mset_add_mset_insert set_mset_mset)
  show "mset (running s' @ queue_items (waiting s') @ X) = mset (running s @ queue_items (waiting s) @ X)"
    using rid(1) by (simp add: run wait)
  show "id_status s' x = Some (i, st) \<Longrightarrow> i = x" for x i st
    using q unfolding st(1) qok_def by (auto split: if_splits)
  show "x \<in> set (running s') \<Longrightarrow> x \<notin> D \<Longrightarrow> id_status s' x = Some (x, RUNNING)" for x
    using q unfolding st(1) sr qok_def by auto
  show "x \<in> set (queue_items (waiting s') @ X) \<Longrightarrow> x \<notin> D \<Longrightarrow> \<exists>st. id_status s' x = Some (x, st) \<and> waiting_status st" for x
    using q st(2) d(2) unfolding st(1) qok_def set_append sw by auto
qed

lemma qok_to_running:
  assumes q: "qok X D s" and rid: "rid \<in> set (queue_items (waiting s))" "rid \<notin> D"
    and keys: "map fst (requests s') = map fst (requests s)" and st: "id_status s' = (id_status s)(rid := Some (rid, RUNNING))"
    and run: "mset (running s') = add_mset rid (mset (running s))" and wait: "add_mset rid (mset (queue_items (waiting s'))) = mset (queue_items (waiting s))"
  shows "qok X D s'"
proof (rule qok_intro [OF q keys])
  have d: "distinct (queue_items (waiting s))" "rid \<notin> set (running s)" "rid \<notin> set X" using q rid by (auto simp: qok_def)
  have sr: "set (running s') = insert rid (set (running s))" using run by (metis set_mset_add_mset_insert set_mset_mset)
  have "mset (queue_items (waiting s')) = mset (queue_items (waiting s)) - {#rid#}" using wait by (metis add_mset_remove_trivial)
  then have sw: "set (queue_items (waiting s')) = set (queue_items (waiting s)) - {rid}"
    using d(1) by (metis mset_remove1 set_mset_mset set_remove1_eq)
  show "mset (running s' @ queue_items (waiting s') @ X) = mset (running s @ queue_items (waiting s) @ X)"
    by (simp add: run wait [symmetric])
  show "id_status s' x = Some (i, st) \<Longrightarrow> i = x" for x i st
    using q unfolding st qok_def by (auto split: if_splits)
  show "x \<in> set (running s') \<Longrightarrow> x \<notin> D \<Longrightarrow> id_status s' x = Some (x, RUNNING)" for x
    using q unfolding st sr qok_def by auto
  show "x \<in> set (queue_items (waiting s') @ X) \<Longrightarrow> x \<notin> D \<Longrightarrow> \<exists>st. id_status s' x = Some (x, st) \<and> waiting_status st" for x
    using q d(3) unfolding st qok_def set_append sw by auto
qed

lemma remove1_last: "distinct xs \<Longrightarrow> xs \<noteq> [] \<Longrightarrow> remove1 (last xs) xs = butlast xs"
proof (induction xs)
  case (Cons x xs)
  show ?case
  proof (cases "xs = []")
    case False
    with Cons.prems have "x \<noteq> last xs" by auto
    with Cons False show ?thesis by simp
  qed simp
qed simp

text \<open>The configuration never changes.\<close>

lemma preempt_request_qok:
  assumes q: "qok X D s" and rid: "rid \<in> set (running s)" "rid \<notin> D"
    and run: "preempt_request rid (s\<lparr>running := remove1 rid (running s)\<rparr>) = Inr s'"
  shows "qok X D s' \<and> running s' = remove1 rid (running s) \<and> conf s' = conf s"
proof -
  let ?s = "s\<lparr>running := remove1 rid (running s)\<rparr>"
  let ?f = "\<lambda>r. r\<lparr>status := PREEMPTED, num_computed_tokens := 0, num_preemptions := num_preemptions r + 1\<rparr>"
  from run obtain k em s2 where s2: "s2 = log_event PREEMPTED_EVENT rid (upd_req rid ?f (?s\<lparr>kv_manager := k, encoder_cache_manager := em\<rparr>))"
    and s': "s' = s2\<lparr>waiting := prepend_request (rlt s2) rid (waiting s2)\<rparr>"
    by (auto simp: preempt_request_def result_simps Let_def)
  let ?s1 = "upd_req rid ?f (?s\<lparr>kv_manager := k, encoder_cache_manager := em\<rparr>)"
  have r: "map_of (requests s) rid = Some (req s rid)" "request_id (req s rid) = rid" using qok_status(1) [OF q rid] by auto
  have base: "id_status (?s\<lparr>kv_manager := k, encoder_cache_manager := em\<rparr>) = id_status s" by (simp add: id_status_def fun_eq_iff)
  have "id_status ?s1 = (id_status s)(rid := Some (rid, PREEMPTED))"
    using r by (auto simp: fun_eq_iff id_status_upd base)
  moreover have "id_status s' = id_status ?s1"
    using same_status_log [of ?s1 PREEMPTED_EVENT rid] by (simp add: s' s2 same_status_def id_status_def fun_eq_iff clients_def)
  moreover have "map fst (requests s') = map fst (requests s)" by (simp add: s' s2)
  moreover have "mset (queue_items (waiting s')) = add_mset rid (mset (queue_items (waiting s)))" by (simp add: s' s2 queue_mset)
  ultimately have "qok X D s'"
    using qok_to_waiting [OF q rid, of s' PREEMPTED] by (simp add: s' s2 waiting_status_def)
  then show ?thesis by (simp add: s' s2)
qed

section \<open>The bookkeeping of a step\<close>

abbreviation scheduled :: "sched_step \<Rightarrow> string list" where
  "scheduled t \<equiv> scheduled_running_reqs t @ scheduled_new_reqs t @ scheduled_resumed_reqs t"

text \<open>The request is not ahead of its tokens, nor at the end of the model's context.\<close>

definition ahead_ok :: "scheduler_config \<Rightarrow> request \<Rightarrow> bool" where
  "ahead_ok cfg r \<longleftrightarrow> num_computed_tokens r \<le> int (num_tokens_with_spec r) + num_output_placeholders r \<and>
     num_computed_tokens r < int (sc_max_model_len cfg)"

text \<open>
  The lists and dictionaries of a step agree and its budget is what is left of the maximum; under \<open>P\<close>,
  every scheduled request has a positive number of tokens and the budget is not overdrawn.
\<close>

definition paid :: "bool \<Rightarrow> sched_step \<Rightarrow> bool" where
  "paid P t \<longleftrightarrow> (P \<longrightarrow> 0 \<le> token_budget t \<and> (\<forall>n \<in> snd ` set (num_scheduled_tokens t). 0 < n) \<and>
     (\<forall>rid \<in> set (running (st_sched t)) - set (scheduled t). ahead_ok (conf (st_sched t)) (req (st_sched t) rid)))"

definition books :: "sched_step \<Rightarrow> bool" where
  "books t \<longleftrightarrow> sum_list (map snd (num_scheduled_tokens t)) + token_budget t = max_num_scheduled_tokens (conf (st_sched t)) \<and>
     od_wf (num_scheduled_tokens t) \<and> distinct (scheduled t) \<and>
     fst ` set (num_scheduled_tokens t) = set (scheduled t) \<and> fst ` set (req_to_new_blocks t) = set (scheduled t) \<and>
     set (scheduled t) \<subseteq> set (running (st_sched t))"

definition step_inv :: "bool \<Rightarrow> string list \<Rightarrow> sched_step \<Rightarrow> bool" where
  "step_inv P X t \<longleftrightarrow> qok X {} (st_sched t) \<and> books t \<and> paid P t"

definition run_inv :: "bool \<Rightarrow> int \<Rightarrow> sched_step \<Rightarrow> bool" where
  "run_inv P idx t \<longleftrightarrow> step_inv P [] t \<and> scheduled_new_reqs t = [] \<and> scheduled_resumed_reqs t = [] \<and> 0 \<le> idx \<and>
     set (scheduled_running_reqs t) \<subseteq> set (take (nat idx) (running (st_sched t)))"

text \<open>While the loop tries to find blocks for \<open>rid\<close>.\<close>

definition trying :: "bool \<Rightarrow> string \<Rightarrow> int \<Rightarrow> sched_step \<Rightarrow> bool" where
  "trying P rid idx t \<longleftrightarrow> run_inv P idx t \<and> rid \<in> set (take (nat idx + 1) (running (st_sched t))) \<and> rid \<notin> set (scheduled_running_reqs t) \<and>
     (policy (conf (st_sched t)) = FCFS \<longrightarrow> nat idx < length (running (st_sched t)) \<and> running (st_sched t) ! nat idx = rid)"

lemma take_remove1_mem: "v \<in> set (take n xs) \<Longrightarrow> take (n - 1) (remove1 v xs) = remove1 v (take n xs)"
proof (induction xs arbitrary: n)
  case (Cons x xs)
  show ?case
  proof (cases "x = v \<or> n < 2")
    case True
    with Cons.prems show ?thesis by (cases n; cases "n - 1") auto
  next
    case False
    then obtain m where "n = Suc (Suc m)" by (metis One_nat_def Suc_1 less_2_cases_iff not0_implies_Suc)
    with False Cons show ?thesis by (metis (no_types, lifting) One_nat_def diff_Suc_1 remove1.simps(2) set_ConsD take_Suc_Cons)
  qed
qed simp

lemma take_remove1_keep: "x \<in> set (take n xs) \<Longrightarrow> x \<noteq> v \<Longrightarrow> x \<in> set (take n (remove1 v xs))"
proof (induction xs arbitrary: n)
  case (Cons y ys)
  show ?case
  proof (cases n)
    case (Suc m)
    show ?thesis
    proof (cases "y = v")
      case True
      with Cons.prems Suc have "x \<in> set (take m ys)" by auto
      then have "x \<in> set (take n ys)" using Suc by (meson lessI less_imp_le set_take_subset_set_take subsetD)
      with True show ?thesis by simp
    next
      case False
      with Cons Suc show ?thesis by auto
    qed
  qed (use Cons.prems in simp)
qed simp

lemma sum_delete_int:
  fixes d :: "('k, int) odict"
  shows "od_wf d \<Longrightarrow> map_of d k = Some v \<Longrightarrow> sum_list (map snd (AList.delete k d)) = sum_list (map snd d) - v"
proof (induction d)
  case (Cons e d)
  then have d: "od_wf d" "map_of d (fst e) = None" by (auto simp: od_wf_def map_of_eq_None_iff)
  show ?case
  proof (cases "fst e = k")
    case True
    with d have "AList.delete k d = d" by (simp add: delete_idem map_of_eq_None_iff)
    with True Cons.prems show ?thesis by (cases e) simp
  next
    case False
    with Cons d(1) show ?thesis by (cases e) simp
  qed
qed simp

lemma keys_delete: "fst ` set (AList.delete k d) = fst ` set d - {k}"
  using delete_keys [of k d] by (metis set_map set_removeAll)

lemma keys_update: "fst ` set (AList.update k v d) = insert k (fst ` set d)"
  by (simp add: dom_update)

lemma unschedule_books:
  assumes run: "unschedule v t = Inr t'" and v: "v \<in> set (scheduled_running_reqs t)"
    and s: "set (running (st_sched t)) = set (running s0) - {v}" "conf (st_sched t) = conf s0" "requests (st_sched t) = requests s0"
    and b: "books (t\<lparr>st_sched := s0\<rparr>)" "paid P (t\<lparr>st_sched := s0\<rparr>)"
  shows "books t' \<and> paid P t' \<and> st_sched t' = st_sched t \<and> scheduled_running_reqs t' = remove1 v (scheduled_running_reqs t) \<and>
    scheduled_new_reqs t' = scheduled_new_reqs t \<and> scheduled_resumed_reqs t' = scheduled_resumed_reqs t \<and> preempted_reqs t' = preempted_reqs t"
proof -
  from run obtain n e where n: "map_of (num_scheduled_tokens t) v = Some n"
    and t': "t' = t\<lparr>scheduled_running_reqs := remove1 v (scheduled_running_reqs t), token_budget := token_budget t + n,
       req_to_new_blocks := AList.delete v (req_to_new_blocks t), num_scheduled_tokens := AList.delete v (num_scheduled_tokens t),
       scheduled_spec_decode_tokens := AList.delete v (scheduled_spec_decode_tokens t),
       scheduled_encoder_inputs := AList.delete v (scheduled_encoder_inputs t), encoder_compute_budget := e\<rparr>"
    by (auto simp: unschedule_def result_simps)
  have wf: "od_wf (num_scheduled_tokens t)" and d: "distinct (scheduled t)" using b(1) by (simp_all add: books_def)
  have sched: "set (remove1 v (scheduled_running_reqs t) @ scheduled_new_reqs t @ scheduled_resumed_reqs t) = set (scheduled t) - {v}"
    using d v by auto
  have "distinct (remove1 v (scheduled_running_reqs t) @ scheduled_new_reqs t @ scheduled_resumed_reqs t)"
    using d by (auto simp: distinct_remove1 dest: notin_set_remove1 in_set_remove1 [THEN iffD1, rotated])
  then have "books t'"
    using b(1) sum_delete_int [OF wf n] wf s sched
    unfolding books_def t' by (auto simp: keys_delete)
  moreover have "paid P t'"
  proof -
    have sub: "snd ` set (AList.delete v (num_scheduled_tokens t)) \<subseteq> snd ` set (num_scheduled_tokens t)"
      by (auto simp: AList.delete_eq)
    moreover have "n \<in> snd ` set (num_scheduled_tokens t)" using n by (force dest: map_of_SomeD)
    moreover have "req (st_sched t) = req s0" using s(3) by (simp add: req_def fun_eq_iff)
    ultimately show ?thesis
      unfolding paid_def
    proof (intro impI conjI ballI)
      assume P
      with b(2) have old: "0 \<le> token_budget t" "\<forall>n \<in> snd ` set (num_scheduled_tokens t). 0 < n"
        "\<forall>rid \<in> set (running s0) - set (scheduled t). ahead_ok (conf s0) (req s0 rid)" by (simp_all add: paid_def)
      show "0 \<le> token_budget t'" using old(1,2) \<open>n \<in> _\<close> by (fastforce simp: t')
      show "0 < m" if "m \<in> snd ` set (num_scheduled_tokens t')" for m
      proof -
        from that have "m \<in> snd ` set (AList.delete v (num_scheduled_tokens t))" by (simp add: t')
        with sub old(2) show ?thesis by blast
      qed
      show "ahead_ok (conf (st_sched t')) (req (st_sched t') x)" if "x \<in> set (running (st_sched t')) - set (scheduled t')" for x
      proof -
        from that s(1) have x: "x \<in> set (running s0)" "x \<noteq> v" by (simp_all add: t')
        from that have "x \<notin> set (remove1 v (scheduled_running_reqs t))" "x \<notin> set (scheduled_new_reqs t)" "x \<notin> set (scheduled_resumed_reqs t)"
          by (simp_all add: t')
        with x in_set_remove1 [OF x(2)] have "x \<in> set (running s0) - set (scheduled t)" by simp
        with old(3) \<open>req (st_sched t) = req s0\<close> s(2) show ?thesis by (simp add: t')
      qed
    qed
  qed
  ultimately show ?thesis by (simp add: t')
qed

lemma preempt_request_others:
  assumes "preempt_request rid s = Inr s'"
  shows "conf s' = conf s" and "x \<noteq> rid \<Longrightarrow> req s' x = req s x"
proof -
  from assms obtain k em s2 where s': "s' = s2\<lparr>waiting := prepend_request (rlt s2) rid (waiting s2)\<rparr>"
    and s2: "s2 = log_event PREEMPTED_EVENT rid (upd_req rid (\<lambda>r. r\<lparr>status := PREEMPTED, num_computed_tokens := 0, num_preemptions := num_preemptions r + 1\<rparr>)
      (s\<lparr>kv_manager := k, encoder_cache_manager := em\<rparr>))"
    by (auto simp: preempt_request_def result_simps Let_def)
  show "conf s' = conf s" by (simp add: s' s2)
  show "req s' x = req s x" if "x \<noteq> rid"
    using that by (simp add: s' s2 req_def log_event_def map_of_upd_req)
qed

text \<open>
  One preemption removes one running request, wherever it was, and leaves the loop in order: either the
  request itself was the victim or it is still to be scheduled.
\<close>

lemma preempt_victim:
  assumes t: "trying P rid idx t" and run: "preempt_one idx t = Inr (v, idx', t')"
  obtains t1 where "v \<in> set (running (st_sched t))"
    and "st_sched t1 = (st_sched t)\<lparr>running := remove1 v (running (st_sched t))\<rparr>"
    and "preempt_request v (st_sched t1) = Inr (st_sched t')" and "t' = t1\<lparr>st_sched := st_sched t', preempted_reqs := preempted_reqs t' \<rparr>"
    and "if v \<in> set (scheduled_running_reqs t) then idx' = idx - 1 \<and> unschedule v (t\<lparr>st_sched := st_sched t1\<rparr>) = Inr t1
         else idx' = idx \<and> t1 = t\<lparr>st_sched := st_sched t1\<rparr>"
    and "preempted_reqs t' \<noteq> []"
    and "policy (conf (st_sched t)) = FCFS \<longrightarrow> v = last (running (st_sched t)) \<and> v \<notin> set (scheduled_running_reqs t)"
proof -
  define s where "s = st_sched t"
  have ri: "run_inv P idx t" using t by (simp add: trying_def)
  have rid: "rid \<in> set (running s)" using t by (auto simp: trying_def s_def dest: in_set_takeD)
  have dist: "distinct (running s)" using ri by (simp add: run_inv_def step_inv_def qok_def s_def)
  show ?thesis
  proof (cases "policy (conf s)")
    case FCFS
    have ne: "running s \<noteq> []" using rid by auto
    let ?v = "last (running s)" and ?t1 = "t\<lparr>st_sched := s\<lparr>running := butlast (running s)\<rparr>\<rparr>"
    from run FCFS ne have v: "v = ?v" "idx' = idx"
      and p: "preempt_request ?v (st_sched ?t1) = Inr (st_sched t')" "t' = ?t1\<lparr>st_sched := st_sched t', preempted_reqs := preempted_reqs t'\<rparr>"
        "preempted_reqs t' \<noteq> []"
      by (auto simp: preempt_one_def Let_def result_simps s_def)
    have "nat idx < length (running s)" using t FCFS by (simp add: trying_def s_def)
    then have "last (running s) \<notin> set (take (nat idx) (running s))"
      using dist ne by (metis append_take_drop_id disjoint_iff distinct_append drop_eq_Nil last_drop last_in_set leD)
    then have "v \<notin> set (scheduled_running_reqs t)" using ri v(1) by (auto simp: run_inv_def s_def)
    with that [of ?t1] v p ne remove1_last [OF dist ne] show ?thesis by (simp add: s_def)
  next
    case PRIORITY
    have ne: "running s \<noteq> []" using rid by auto
    then obtain x xs where xs: "running s = x # xs" by (cases "running s") auto
    have low: "lowest_priority s b ys \<in> set (b # ys)" for b ys
    proof (induction ys arbitrary: b)
      case (Cons y ys)
      from Cons.IH [of b] Cons.IH [of y] show ?case by (simp only: lowest_priority.simps split: if_split) auto
    qed simp
    let ?v = "lowest_priority s x xs" 
    let ?t0 = "t\<lparr>st_sched := s\<lparr>running := remove1 ?v (running s)\<rparr>\<rparr>"
    show ?thesis
    proof (cases "?v \<in> set (scheduled_running_reqs t)")
      case True
      with run PRIORITY xs obtain t1 where v: "v = ?v" "idx' = idx - 1" and u: "unschedule ?v ?t0 = Inr t1"
        and p: "preempt_request ?v (st_sched t1) = Inr (st_sched t')" "t' = t1\<lparr>st_sched := st_sched t', preempted_reqs := preempted_reqs t'\<rparr>"
          "preempted_reqs t' \<noteq> []"
        by (auto simp: preempt_one_def Let_def result_simps s_def)
      have "st_sched t1 = st_sched ?t0" using u by (auto simp: unschedule_def result_simps)
      with that [of t1] v u p low [of x xs] xs True PRIORITY show ?thesis by (simp add: s_def)
    next
      case False
      with run PRIORITY xs have v: "v = ?v" "idx' = idx"
        and p: "preempt_request ?v (st_sched ?t0) = Inr (st_sched t')" "t' = ?t0\<lparr>st_sched := st_sched t', preempted_reqs := preempted_reqs t'\<rparr>"
          "preempted_reqs t' \<noteq> []"
        by (auto simp: preempt_one_def Let_def result_simps s_def)
      with that [of ?t0] low [of x xs] xs False PRIORITY show ?thesis by (simp add: s_def)
    qed
  qed
qed

lemma books_sched:
  "books t \<Longrightarrow> conf s' = conf (st_sched t) \<Longrightarrow> set (scheduled t) \<subseteq> set (running s') \<Longrightarrow> books (t\<lparr>st_sched := s', preempted_reqs := ps\<rparr>)"
  by (simp add: books_def)

lemma paid_sched:
  "paid P t \<Longrightarrow> conf s' = conf (st_sched t) \<Longrightarrow>
   (\<And>x. x \<in> set (running s') \<Longrightarrow> x \<notin> set (scheduled t) \<Longrightarrow> x \<in> set (running (st_sched t)) \<and> ahead_ok (conf s') (req s' x) = ahead_ok (conf s') (req (st_sched t) x)) \<Longrightarrow>
   paid P (t\<lparr>st_sched := s', preempted_reqs := ps\<rparr>)"
  by (simp add: paid_def)

lemma preempt_one_inv:
  assumes t: "trying P rid idx t" and run: "preempt_one idx t = Inr (v, idx', t')"
  shows "Suc (length (running (st_sched t'))) = length (running (st_sched t)) \<and>
    int (length (running (st_sched t'))) - idx' \<le> int (length (running (st_sched t))) - idx \<and>
    conf (st_sched t') = conf (st_sched t) \<and> step_inv P [] t' \<and> scheduled_new_reqs t' = [] \<and> scheduled_resumed_reqs t' = [] \<and>
    preempted_reqs t' \<noteq> [] \<and> (v \<noteq> rid \<longrightarrow> trying P rid idx' t')"
proof -
  let ?s = "st_sched t"
  from preempt_victim [OF t run] obtain t1 where v: "v \<in> set (running ?s)"
    and s1: "st_sched t1 = ?s\<lparr>running := remove1 v (running ?s)\<rparr>" and p: "preempt_request v (st_sched t1) = Inr (st_sched t')"
    and t': "t' = t1\<lparr>st_sched := st_sched t', preempted_reqs := preempted_reqs t'\<rparr>"
    and u: "if v \<in> set (scheduled_running_reqs t) then idx' = idx - 1 \<and> unschedule v (t\<lparr>st_sched := st_sched t1\<rparr>) = Inr t1
         else idx' = idx \<and> t1 = t\<lparr>st_sched := st_sched t1\<rparr>"
    and ps: "preempted_reqs t' \<noteq> []" and fcfs: "policy (conf ?s) = FCFS \<longrightarrow> v = last (running ?s) \<and> v \<notin> set (scheduled_running_reqs t)"
    by blast
  have ri: "run_inv P idx t" using t by (simp add: trying_def)
  then have q: "qok [] {} ?s" and b: "books t" "paid P t" and nr: "scheduled_new_reqs t = []" "scheduled_resumed_reqs t = []"
    and idx: "0 \<le> idx" and pre: "set (scheduled_running_reqs t) \<subseteq> set (take (nat idx) (running ?s))"
    by (simp_all add: run_inv_def step_inv_def)
  have dist: "distinct (running ?s)" using q by (simp add: qok_def)
  have sr: "set (remove1 v (running ?s)) = set (running ?s) - {v}" using dist by simp
  from preempt_request_qok [OF q v _ p [unfolded s1]]
  have q': "qok [] {} (st_sched t')" and run': "running (st_sched t') = remove1 v (running ?s)" and conf': "conf (st_sched t') = conf ?s" by simp_all
  have len: "Suc (length (running (st_sched t'))) = length (running ?s)"
    using v unfolding run' by (metis One_nat_def Suc_pred length_pos_if_in_set length_remove1)
  have t1: "books t1 \<and> paid P t1 \<and> scheduled_running_reqs t1 = remove1 v (scheduled_running_reqs t) \<and> scheduled_new_reqs t1 = [] \<and> scheduled_resumed_reqs t1 = []"
  proof (cases "v \<in> set (scheduled_running_reqs t)")
    case True
    with u have "unschedule v (t\<lparr>st_sched := st_sched t1\<rparr>) = Inr t1" by simp
    from unschedule_books [OF this, of ?s P] True b nr sr show ?thesis by (simp add: s1)
  next
    case False
    then have e: "t1 = t\<lparr>st_sched := st_sched t1\<rparr>" using u by simp
    have "set (scheduled t) \<subseteq> set (running ?s) - {v}" using b(1) False nr by (auto simp: books_def)
    then have "books t1" using b(1) sr by (subst e) (auto simp: books_def s1)
    moreover have "paid P t1" using b(2) sr by (subst e) (auto simp: paid_def s1 req_def)
    ultimately show ?thesis using False nr by (subst (3 4 5) e) (simp add: remove1_idem)
  qed
  have same: "x \<noteq> v \<Longrightarrow> req (st_sched t') x = req (st_sched t1) x" for x using preempt_request_others(2) [OF p] by blast
  have "set (scheduled t1) \<subseteq> set (running (st_sched t1))" using conjunct1 [OF t1] unfolding books_def by blast
  then have sched1: "set (scheduled t1) \<subseteq> set (running ?s) - {v}" using sr by (simp add: s1)
  have "books t'"
    by (subst t') (rule books_sched, use t1 sched1 conf' run' sr in \<open>simp_all add: s1\<close>)
  moreover have "paid P t'"
    by (subst t') (rule paid_sched, use t1 conf' run' sr same in \<open>auto simp: s1\<close>)
  ultimately have step: "step_inv P [] t'" using q' by (simp add: step_inv_def)
  have lists: "scheduled_running_reqs t' = remove1 v (scheduled_running_reqs t)" "scheduled_new_reqs t' = []" "scheduled_resumed_reqs t' = []"
    using t1 by (subst t', simp)+
  have measure: "int (length (running (st_sched t'))) - idx' \<le> int (length (running ?s)) - idx"
    using u len by (auto split: if_splits)
  have "trying P rid idx' t'" if "v \<noteq> rid"
  proof -
    have rid: "rid \<in> set (take (nat idx + 1) (running ?s))" "rid \<notin> set (scheduled_running_reqs t)" using t by (simp_all add: trying_def)
    have pos: "0 \<le> idx' \<and> set (remove1 v (scheduled_running_reqs t)) \<subseteq> set (take (nat idx') (remove1 v (running ?s))) \<and>
        rid \<in> set (take (nat idx' + 1) (remove1 v (running ?s)))"
    proof (cases "v \<in> set (scheduled_running_reqs t)")
      case True
      then have vi: "v \<in> set (take (nat idx) (running ?s))" using pre by auto
      then have i: "0 < nat idx" by (cases "nat idx") auto
      then have ni: "nat idx' = nat idx - 1" "nat idx' + 1 = nat idx" "0 \<le> idx'" using u True by auto
      have "v \<in> set (take (nat idx + 1) (running ?s))" using vi by (meson le_add1 set_take_subset_set_take subsetD)
      moreover have "set (remove1 v (scheduled_running_reqs t)) = set (scheduled_running_reqs t) - {v}" using b(1) by (simp add: books_def)
      ultimately show ?thesis using take_remove1_mem [OF vi] take_remove1_mem [of v "nat idx + 1"] pre rid(1) that ni dist by auto
    next
      case False
      then have e: "idx' = idx" "remove1 v (scheduled_running_reqs t) = scheduled_running_reqs t" using u by (simp_all add: remove1_idem)
      have "x \<in> set (take (nat idx) (remove1 v (running ?s)))" if "x \<in> set (scheduled_running_reqs t)" for x
        using take_remove1_keep [of x "nat idx" "running ?s" v] that pre False by blast
      moreover have "rid \<in> set (take (nat idx + 1) (remove1 v (running ?s)))" by (rule take_remove1_keep [OF rid(1)]) (use that in simp)
      ultimately show ?thesis using e idx by auto
    qed
    have "nat idx' < length (remove1 v (running ?s)) \<and> remove1 v (running ?s) ! nat idx' = rid" if f: "policy (conf ?s) = FCFS"
    proof -
      have ne: "running ?s \<noteq> []" using v by auto
      have "v = last (running ?s)" "idx' = idx" using fcfs u f by auto
      moreover have "nat idx < length (running ?s)" "running ?s ! nat idx = rid" using t f by (simp_all add: trying_def)
      moreover from this have "nat idx \<noteq> length (running ?s) - 1" using \<open>v \<noteq> rid\<close> \<open>v = _\<close> ne by (auto simp: last_conv_nth)
      ultimately show ?thesis using remove1_last [OF dist ne] by (simp add: nth_butlast)
    qed
    with pos step lists conf' run' rid(2) show ?thesis
      unfolding trying_def run_inv_def by (auto dest: notin_set_remove1)
  qed
  with len measure conf' step lists ps show ?thesis by blast
qed

section \<open>The loop over the running requests\<close>

text \<open>Asking for slots changes nothing but the KV cache manager.\<close>

lemma step_inv_kv: "step_inv P X t \<Longrightarrow> step_inv P X (t\<lparr>st_sched := set_kv k (st_sched t)\<rparr>)"
proof -
  assume t: "step_inv P X t"
  then have "qok X {} (set_kv k (st_sched t))"
    using qok_same [of X "{}" "st_sched t" "set_kv k (st_sched t)"] same_status_requests [of "set_kv k (st_sched t)" "st_sched t"]
    by (simp add: step_inv_def)
  with t show ?thesis by (simp add: step_inv_def books_def paid_def req_def)
qed

lemma run_inv_kv: "run_inv P idx t \<Longrightarrow> run_inv P idx (t\<lparr>st_sched := set_kv k (st_sched t)\<rparr>)"
  using step_inv_kv by (simp add: run_inv_def)

lemma trying_kv: "trying P rid idx t \<Longrightarrow> trying P rid idx (t\<lparr>st_sched := set_kv k (st_sched t)\<rparr>)"
  using run_inv_kv by (simp add: trying_def)

definition loop_done :: "bool \<Rightarrow> string \<Rightarrow> int \<Rightarrow> sched_step \<Rightarrow> kv_blocks option \<Rightarrow> int \<Rightarrow> sched_step \<Rightarrow> bool" where
  "loop_done P rid idx t res idx' t' \<longleftrightarrow>
     length (running (st_sched t')) \<le> length (running (st_sched t)) \<and>
     int (length (running (st_sched t'))) - idx' \<le> int (length (running (st_sched t))) - idx \<and>
     conf (st_sched t') = conf (st_sched t) \<and>
     (case res of
        Some b \<Rightarrow> trying P rid idx' t'
      | None \<Rightarrow> step_inv P [] t' \<and> scheduled_new_reqs t' = [] \<and> scheduled_resumed_reqs t' = [] \<and> preempted_reqs t' \<noteq> [])"

lemma preempt_loop_inv:
  assumes "trying P rid idx t" and "allocate_loop_running fuel rid n idx t = Inr (res, idx', t')"
  shows "loop_done P rid idx t res idx' t'"
  using assms
proof (induction fuel arbitrary: idx t)
  case (Suc fuel)
  from Suc.prems(2) obtain nb k where a: "allocate_slots (req (st_sched t) rid) n 0 None (int (num_lookahead_tokens (conf (st_sched t)))) False 0
      (kv_manager (st_sched t)) = Inr (nb, k)" by (auto simp: result_simps Let_def)
  let ?t = "t\<lparr>st_sched := set_kv k (st_sched t)\<rparr>"
  have ty: "trying P rid idx ?t" by (rule trying_kv [OF Suc.prems(1)])
  show ?case
  proof (cases nb)
    case (Some b)
    with Suc.prems(2) a have "res = Some b" "idx' = idx" "t' = ?t" by (simp_all add: Let_def)
    with ty show ?thesis by (simp add: loop_done_def)
  next
    case None
    with Suc.prems(2) a obtain v i u where p: "preempt_one idx ?t = Inr (v, i, u)"
      and rest: "(if v = rid then Inr (None, i, u) else allocate_loop_running fuel rid n i u) = Inr (res, idx', t')"
      by (auto simp: Let_def result_simps)
    note inv = preempt_one_inv [OF ty p]
    show ?thesis
    proof (cases "v = rid")
      case True
      with rest inv show ?thesis by (auto simp: loop_done_def)
    next
      case False
      with inv have "trying P rid i u" by simp
      from Suc.IH [OF this] rest False inv show ?thesis by (auto simp: loop_done_def split: option.splits)
    qed
  qed
qed simp

text \<open>The fuel, the number of running requests, is never used up.\<close>

lemma allocate_loop_fuel:
  assumes "trying P rid idx t" and "length (running (st_sched t)) \<le> fuel"
  shows "allocate_loop_running (fuel + k) rid n idx t = allocate_loop_running fuel rid n idx t"
  using assms
proof (induction fuel arbitrary: idx t)
  case 0
  then show ?case by (simp add: trying_def)
next
  case (Suc fuel)
  have "allocate_loop_running (fuel + k) rid n i u = allocate_loop_running fuel rid n i u"
    if "preempt_one idx (t\<lparr>st_sched := set_kv kv (st_sched t)\<rparr>) = Inr (v, i, u)" "v \<noteq> rid" for kv v i u
    using preempt_one_inv [OF trying_kv [OF Suc.prems(1)] that(1)] that(2) Suc.IH [of i u] Suc.prems(2) by simp
  then show ?case
    by (auto simp: Let_def intro!: rbind_cong split: option.split)
qed

text \<open>Encoder inputs can only lower the number of tokens.\<close>

lemma enc_inputs_loop_bound:
  assumes "enc_inputs_loop cfg r c sh i fs e = Inr e'" and "sh = 0 \<or> sh = 1"
  shows "(0 \<le> es_num_new_tokens e \<longrightarrow> 0 \<le> es_num_new_tokens e') \<and> es_num_new_tokens e' \<le> max 0 (es_num_new_tokens e)"
  using assms
proof (induction fs arbitrary: i e)
  case (Cons f fs)
  let ?start = "int (offset (mm_position f))"
  show ?case
  proof (cases "c + es_num_new_tokens e + sh \<le> ?start")
    case True
    with Cons.prems show ?thesis by (auto simp: result_simps Let_def)
  next
    case False
    from Cons.prems(1) False consider
      (next1) e1 where "enc_inputs_loop cfg r c sh (i + 1) fs e1 = Inr e'" "es_num_new_tokens e1 = es_num_new_tokens e"
    | (roll) "es_num_new_tokens e' = ?start - c" "c < ?start"
    | (full) "es_num_new_tokens e' = (if c + sh < ?start then ?start - (c + sh) else 0)"
      by (auto simp: result_simps Let_def split: if_split_asm)
    then show ?thesis
    proof cases
      case next1
      with Cons.IH [OF next1(1)] Cons.prems show ?thesis by simp
    qed (use Cons.prems False in auto)
  qed
qed simp

lemma encoder_step_bound:
  assumes "encoder_step rid c n budget s = Inr e"
  shows "(0 \<le> n \<longrightarrow> 0 \<le> es_num_new_tokens e) \<and> es_num_new_tokens e \<le> max 0 n \<and> (\<not> has_encoder_inputs (req s rid) \<longrightarrow> es_num_new_tokens e = n)"
proof (cases "has_encoder_inputs (req s rid) \<and> n \<noteq> 0")
  case True
  with assms show ?thesis
    using enc_inputs_loop_bound [of "conf s" "req s rid" c "if use_eagle (conf s) then 1 else 0" 0 "mm_features (req s rid)" _ e]
    by (fastforce simp: encoder_step_def try_schedule_encoder_inputs_def Let_def)
next
  case False
  with assms show ?thesis by (auto simp: encoder_step_def try_schedule_encoder_inputs_def Let_def split: if_splits)
qed

lemma schedule_encoder_fields:
  assumes "schedule_encoder_inputs rid e t = Inr t'"
  shows "\<exists>em x y. t' = t\<lparr>scheduled_encoder_inputs := x, encoder_compute_budget := y, st_sched := (st_sched t)\<lparr>encoder_cache_manager := em\<rparr>\<rparr>"
proof (cases "es_inputs e = []")
  case True
  with assms have "t' = t\<lparr>scheduled_encoder_inputs := scheduled_encoder_inputs t, encoder_compute_budget := encoder_compute_budget t,
      st_sched := (st_sched t)\<lparr>encoder_cache_manager := encoder_cache_manager (st_sched t)\<rparr>\<rparr>" by (simp add: schedule_encoder_inputs_def)
  then show ?thesis by blast
next
  case False
  with assms show ?thesis by (auto simp: schedule_encoder_inputs_def result_simps)
qed

lemma books_update:
  assumes "books t" and "rid \<notin> set (scheduled t)"
  shows "sum_list (map snd (AList.update rid n (num_scheduled_tokens t))) = sum_list (map snd (num_scheduled_tokens t)) + n"
    and "od_wf (AList.update rid n (num_scheduled_tokens t))"
    and "set (AList.update rid n (num_scheduled_tokens t)) = insert (rid, n) (set (num_scheduled_tokens t))"
proof -
  have "map_of (num_scheduled_tokens t) rid = None" using assms by (simp add: books_def map_of_eq_None_iff)
  from update_fresh [OF this] show "sum_list (map snd (AList.update rid n (num_scheduled_tokens t))) = sum_list (map snd (num_scheduled_tokens t)) + n"
    "set (AList.update rid n (num_scheduled_tokens t)) = insert (rid, n) (set (num_scheduled_tokens t))" by simp_all
  show "od_wf (AList.update rid n (num_scheduled_tokens t))" using assms(1) by (simp add: books_def)
qed

text \<open>Recording a request: \<open>s'\<close> differs from the scheduler of the step in the request itself and the encoder cache only.\<close>

lemma record_scheduled:
  assumes t: "step_inv P X t" and rid: "rid \<in> set (running s')" "rid \<notin> set (scheduled t)"
    and n: "P \<Longrightarrow> 0 < n \<and> n \<le> token_budget t"
    and s': "qok X {} s'" "conf s' = conf (st_sched t)" "set (running s') \<subseteq> insert rid (set (running (st_sched t)))" "set (running (st_sched t)) \<subseteq> set (running s')"
    and reqs: "\<And>x. x \<noteq> rid \<Longrightarrow> req s' x = req (st_sched t) x"
    and t': "st_sched t' = s'" "mset (scheduled t') = add_mset rid (mset (scheduled t))"
      "num_scheduled_tokens t' = AList.update rid n (num_scheduled_tokens t)" "req_to_new_blocks t' = AList.update rid b (req_to_new_blocks t)"
      "token_budget t' = token_budget t - n"
  shows "step_inv P X t'"
proof -
  have b: "books t" and p: "paid P t" using t by (simp_all add: step_inv_def)
  have sched: "set (scheduled t') = insert rid (set (scheduled t))" using t'(2) by (metis set_mset_add_mset_insert set_mset_mset)
  have "distinct (scheduled t') = distinct (rid # scheduled t)" by (rule mset_eq_imp_distinct_iff) (use t'(2) in simp)
  then have "distinct (scheduled t')" using b rid(2) by (simp add: books_def)
  moreover note u = books_update [OF b rid(2), of n]
  ultimately have "books t'"
    using b rid s'(2,4) u unfolding books_def sched t'(1,3,4,5) keys_update by auto
  moreover have "paid P t'"
    unfolding paid_def
  proof (intro impI conjI ballI)
    assume P
    with p n have old: "0 < n" "n \<le> token_budget t" "\<forall>m \<in> snd ` set (num_scheduled_tokens t). 0 < m"
      "\<forall>x \<in> set (running (st_sched t)) - set (scheduled t). ahead_ok (conf (st_sched t)) (req (st_sched t) x)" by (simp_all add: paid_def)
    show "0 \<le> token_budget t'" using old(2) t'(5) by simp
    show "0 < m" if "m \<in> snd ` set (num_scheduled_tokens t')" for m
      using that old(1,3) unfolding t'(3) u(3) by auto
    show "ahead_ok (conf (st_sched t')) (req (st_sched t') x)" if "x \<in> set (running (st_sched t')) - set (scheduled t')" for x
    proof -
      have "x \<in> set (running (st_sched t)) - set (scheduled t)" "x \<noteq> rid" using that s'(3) unfolding sched t'(1) by auto
      with old(4) reqs s'(2) show ?thesis by (simp add: t'(1))
    qed
  qed
  ultimately show ?thesis using s'(1) t'(1) by (simp add: step_inv_def)
qed

end
