(* ===== verification/Schedule_Loops.thy ===== *)
theory Schedule_Loops
  imports Scheduler_Queues
begin

text \<open>
  The two loops of \<^verbatim>\<open>Scheduler.schedule\<close> keep the partition of the requests and the books of the
  step: \<open>schedule_running\<close> over the running requests with its preemptions, \<open>schedule_waiting\<close> over the
  waiting queue with its skipped requests, and the tail of the step.
\<close>

section \<open>The loop over the running requests\<close>

lemma unschedule_budget: "unschedule v t = Inr t' \<Longrightarrow> \<exists>n. map_of (num_scheduled_tokens t) v = Some n \<and> token_budget t' = token_budget t + n"
  by (auto simp: unschedule_def result_simps)

lemma preempt_one_budget:
  assumes t: "trying P rid idx t" and run: "preempt_one idx t = Inr (v, idx', t')" and P
  shows "token_budget t \<le> token_budget t'"
proof -
  from preempt_victim [OF t run] obtain t1 where t': "t' = t1\<lparr>st_sched := st_sched t', preempted_reqs := preempted_reqs t'\<rparr>"
    and u: "if v \<in> set (scheduled_running_reqs t) then idx' = idx - 1 \<and> unschedule v (t\<lparr>st_sched := st_sched t1\<rparr>) = Inr t1
         else idx' = idx \<and> t1 = t\<lparr>st_sched := st_sched t1\<rparr>" by blast
  have "token_budget t \<le> token_budget t1"
  proof (cases "v \<in> set (scheduled_running_reqs t)")
    case True
    with u have "unschedule v (t\<lparr>st_sched := st_sched t1\<rparr>) = Inr t1" by simp
    from unschedule_budget [OF this] obtain n where n: "map_of (num_scheduled_tokens t) v = Some n" and b: "token_budget t1 = token_budget t + n" by auto
    have "\<forall>n \<in> snd ` set (num_scheduled_tokens t). 0 < n" using t \<open>P\<close> by (simp add: trying_def run_inv_def step_inv_def paid_def)
    with n have "0 < n" by (force dest: map_of_SomeD)
    with b show ?thesis by simp
  next
    case False
    with u have "t1 = t\<lparr>st_sched := st_sched t1\<rparr>" by simp
    then have "token_budget t1 = token_budget (t\<lparr>st_sched := st_sched t1\<rparr>)" by (rule arg_cong)
    then show ?thesis by simp
  qed
  also have "token_budget t1 = token_budget t'" by (subst t') simp
  finally show ?thesis .
qed

lemma allocate_loop_budget:
  assumes "trying P rid idx t" and "allocate_loop_running fuel rid n idx t = Inr (res, idx', t')" and P
  shows "token_budget t \<le> token_budget t'"
  using assms(1,2)
proof (induction fuel arbitrary: idx t)
  case (Suc fuel)
  from Suc.prems(2) obtain nb k where a: "allocate_slots (req (st_sched t) rid) n 0 None (int (num_lookahead_tokens (conf (st_sched t)))) False 0
      (kv_manager (st_sched t)) = Inr (nb, k)" by (auto simp: result_simps Let_def)
  let ?t = "t\<lparr>st_sched := set_kv k (st_sched t)\<rparr>"
  have ty: "trying P rid idx ?t" by (rule trying_kv [OF Suc.prems(1)])
  show ?case
  proof (cases nb)
    case (Some b)
    with Suc.prems(2) a show ?thesis by (auto simp: Let_def)
  next
    case None
    with Suc.prems(2) a obtain v i u where p: "preempt_one idx ?t = Inr (v, i, u)"
      and rest: "(if v = rid then Inr (None, i, u) else allocate_loop_running fuel rid n i u) = Inr (res, idx', t')"
      by (auto simp: Let_def result_simps)
    from preempt_one_budget [OF ty p \<open>P\<close>] have le: "token_budget t \<le> token_budget u" by simp
    show ?thesis
    proof (cases "v = rid")
      case False
      with preempt_one_inv [OF ty p] have "trying P rid i u" by simp
      from Suc.IH [OF this] rest False le show ?thesis by simp
    qed (use rest le in simp)
  qed
qed simp

lemma schedule_spec_fields:
  "\<exists>f x. schedule_spec_tokens rid n t = t\<lparr>scheduled_spec_decode_tokens := x, st_sched := upd_req rid f (st_sched t)\<rparr> \<and>
     (\<forall>r. request_id (f r) = request_id r \<and> status (f r) = status r \<and> client_index (f r) = client_index r)"
proof -
  have "AList.map_entry rid (\<lambda>r. r) d = d" for d :: "(string, request) odict" by (induction d) auto
  then have none: "st_sched t = upd_req rid (\<lambda>r. r) (st_sched t)" by (simp add: upd_req_def)
  show ?thesis
  proof (cases "spec_token_ids (req (st_sched t) rid) = []")
    case True
    then have "schedule_spec_tokens rid n t =
        t\<lparr>scheduled_spec_decode_tokens := scheduled_spec_decode_tokens t, st_sched := upd_req rid (\<lambda>r. r) (st_sched t)\<rparr>"
      using none by (simp add: schedule_spec_tokens_def)
    then show ?thesis by (intro exI [of _ "\<lambda>r. r"] exI [of _ "scheduled_spec_decode_tokens t"]) simp
  next
    case False
    let ?n = "n + num_computed_tokens (req (st_sched t) rid) - int (num_tokens (req (st_sched t) rid)) - num_output_placeholders (req (st_sched t) rid)"
    have "schedule_spec_tokens rid n t = t\<lparr>scheduled_spec_decode_tokens := (if 0 < ?n
        then AList.update rid (take (nat ?n) (spec_token_ids (req (st_sched t) rid))) (scheduled_spec_decode_tokens t) else scheduled_spec_decode_tokens t),
        st_sched := upd_req rid (\<lambda>r. r\<lparr>spec_token_ids := []\<rparr>) (st_sched t)\<rparr>"
      using False by (simp add: schedule_spec_tokens_def Let_def)
    then show ?thesis by (intro exI [of _ "\<lambda>r. r\<lparr>spec_token_ids := []\<rparr>"]) (rule exI, simp)
  qed
qed

lemma sched_step_frame:
  "st_sched (t\<lparr>scheduled_running_reqs := a, req_to_new_blocks := b, num_scheduled_tokens := c, token_budget := d\<rparr>) = st_sched t"
  by simp

lemma schedule_one_running_inv:
  assumes t: "trying P rid idx t" and run: "schedule_one_running rid n b e t = Inr t'" and n: "P \<Longrightarrow> 0 < n \<and> n \<le> token_budget t"
  shows "run_inv P (idx + 1) t' \<and> running (st_sched t') = running (st_sched t) \<and> conf (st_sched t') = conf (st_sched t)"
proof -
  let ?t1 = "t\<lparr>scheduled_running_reqs := scheduled_running_reqs t @ [rid],
                 req_to_new_blocks := AList.update rid b (req_to_new_blocks t),
                 num_scheduled_tokens := AList.update rid n (num_scheduled_tokens t),
                 token_budget := token_budget t - n\<rparr>"
  obtain f x where f: "schedule_spec_tokens rid n ?t1 = ?t1\<lparr>scheduled_spec_decode_tokens := x, st_sched := upd_req rid f (st_sched t)\<rparr>"
    "\<forall>r. request_id (f r) = request_id r \<and> status (f r) = status r \<and> client_index (f r) = client_index r"
    using schedule_spec_fields [of rid n ?t1] by (metis sched_step_frame)
  from run have "schedule_encoder_inputs rid e (schedule_spec_tokens rid n ?t1) = Inr t'" by (simp add: schedule_one_running_def Let_def)
  from schedule_encoder_fields [OF this] obtain em y z where t': "t' = ?t1\<lparr>scheduled_spec_decode_tokens := x,
      scheduled_encoder_inputs := y, encoder_compute_budget := z, st_sched := (upd_req rid f (st_sched t))\<lparr>encoder_cache_manager := em\<rparr>\<rparr>"
    by (auto simp: f(1))
  let ?s = "(upd_req rid f (st_sched t))\<lparr>encoder_cache_manager := em\<rparr>"
  have ri: "step_inv P [] t" "scheduled_new_reqs t = []" "scheduled_resumed_reqs t = []" "0 \<le> idx"
    "set (scheduled_running_reqs t) \<subseteq> set (take (nat idx) (running (st_sched t)))"
    and rid: "rid \<in> set (take (nat idx + 1) (running (st_sched t)))" "rid \<notin> set (scheduled_running_reqs t)"
    using t by (simp_all add: trying_def run_inv_def)
  have "same_status (st_sched t) ?s"
    by (rule same_status_trans [OF same_status_upd same_status_requests]) (use f(2) in simp_all)
  then have q: "qok [] {} ?s" using qok_same [of "[]" "{}" "st_sched t" ?s] ri(1) by (simp add: step_inv_def)
  have "step_inv P [] t'"
    by (rule record_scheduled [where rid = rid and n = n and t = t and b = b and s' = ?s])
      (use ri rid n q in \<open>auto simp: t' dest: in_set_takeD, simp_all add: req_def map_of_upd_req\<close>)
  moreover have "set (scheduled_running_reqs t') \<subseteq> set (take (nat (idx + 1)) (running (st_sched t)))"
  proof -
    have "nat (idx + 1) = nat idx + 1" using ri(4) by simp
    moreover have "set (take (nat idx) (running (st_sched t))) \<subseteq> set (take (nat idx + 1) (running (st_sched t)))" by (rule set_take_subset_set_take) simp
    ultimately show ?thesis using ri(5) rid(1) by (auto simp: t')
  qed
  ultimately show ?thesis using ri by (simp add: run_inv_def t')
qed

lemma step_inv_em: "step_inv P X t \<Longrightarrow> step_inv P X (t\<lparr>st_sched := (st_sched t)\<lparr>encoder_cache_manager := em\<rparr>\<rparr>)"
proof -
  assume t: "step_inv P X t"
  let ?s = "(st_sched t)\<lparr>encoder_cache_manager := em\<rparr>"
  have "qok X {} ?s" using t qok_same [of X "{}" "st_sched t" ?s] same_status_requests [of ?s "st_sched t"] by (simp add: step_inv_def)
  with t show ?thesis by (simp add: step_inv_def books_def paid_def req_def)
qed

lemma running_tokens_bound:
  assumes "ahead_ok cfg r" and "0 < budget"
  shows "0 \<le> running_num_new_tokens cfg r budget" and "running_num_new_tokens cfg r budget \<le> budget"
  using assms by (auto simp: ahead_ok_def running_num_new_tokens_def Let_def)

text \<open>One turn of the loop up to the search for blocks.\<close>

lemma run_turn:
  assumes t: "run_inv P idx t" and idx: "idx < int (length (running (st_sched t)))" and b: "0 < token_budget t"
    and e: "encoder_step (running (st_sched t) ! nat idx) c (running_num_new_tokens (conf (st_sched t)) (req (st_sched t) (running (st_sched t) ! nat idx)) (token_budget t))
              budget (st_sched t) = Inr e"
  defines "rid \<equiv> running (st_sched t) ! nat idx" and "t1 \<equiv> t\<lparr>st_sched := (st_sched t)\<lparr>encoder_cache_manager := es_manager e\<rparr>\<rparr>"
  shows "trying P rid idx t1 \<and> run_inv P (idx + 1) t1 \<and> (P \<and> es_num_new_tokens e \<noteq> 0 \<longrightarrow> 0 < es_num_new_tokens e \<and> es_num_new_tokens e \<le> token_budget t1)"
proof -
  have ri: "step_inv P [] t" "scheduled_new_reqs t = []" "scheduled_resumed_reqs t = []" "0 \<le> idx"
    "set (scheduled_running_reqs t) \<subseteq> set (take (nat idx) (running (st_sched t)))" using t by (simp_all add: run_inv_def)
  have len: "nat idx < length (running (st_sched t))" using idx ri(4) by simp
  have d: "distinct (running (st_sched t))" using ri(1) by (simp add: step_inv_def qok_def)
  have s1: "step_inv P [] t1" using step_inv_em [OF ri(1)] by (simp add: t1_def)
  have new: "rid \<notin> set (take (nat idx) (running (st_sched t)))"
    using d len by (metis distinct_take take_Suc_conv_app_nth distinct_append disjoint_insert(1) list.simps(15) rid_def)
  have here: "rid \<in> set (take (nat idx + 1) (running (st_sched t)))" using len by (simp add: take_Suc_conv_app_nth rid_def)
  have "set (take (nat idx) (running (st_sched t))) \<subseteq> set (take (nat (idx + 1)) (running (st_sched t)))"
    by (rule set_take_subset_set_take) simp
  with ri s1 have next1: "run_inv P (idx + 1) t1" by (auto simp: run_inv_def t1_def)
  have "trying P rid idx t1" using ri s1 new here len by (auto simp: trying_def run_inv_def t1_def rid_def)
  moreover have "0 < es_num_new_tokens e \<and> es_num_new_tokens e \<le> token_budget t1" if P "es_num_new_tokens e \<noteq> 0"
  proof -
    have "rid \<in> set (running (st_sched t)) - set (scheduled t)" using len ri new by (auto simp: rid_def)
    with ri(1) \<open>P\<close> have a: "ahead_ok (conf (st_sched t)) (req (st_sched t) rid)" by (simp add: step_inv_def paid_def)
    from running_tokens_bound [OF a b] encoder_step_bound [OF e [folded rid_def]] that(2) show ?thesis by (auto simp: t1_def)
  qed
  ultimately show ?thesis using next1 by simp
qed

lemma schedule_running_inv:
  assumes "run_inv P idx t" and "schedule_running fuel idx t = Inr t'"
  shows "step_inv P [] t' \<and> scheduled_new_reqs t' = [] \<and> scheduled_resumed_reqs t' = [] \<and> conf (st_sched t') = conf (st_sched t) \<and>
    length (running (st_sched t')) \<le> length (running (st_sched t))"
  using assms
proof (induction fuel arbitrary: idx t)
  case 0
  then show ?case by (auto simp: run_inv_def split: if_splits)
next
  case (Suc fuel)
  let ?s = "st_sched t"
  let ?rid = "running ?s ! nat idx" and ?r = "req ?s (running ?s ! nat idx)"
  show ?case
  proof (cases "idx < int (length (running ?s)) \<and> 0 < token_budget t")
    case False
    with Suc.prems show ?thesis by (auto simp: run_inv_def Let_def)
  next
    case guard: True
    have next0: "run_inv P (idx + 1) t"
    proof -
      have "set (take (nat idx) (running ?s)) \<subseteq> set (take (nat (idx + 1)) (running ?s))" by (rule set_take_subset_set_take) simp
      with Suc.prems(1) show ?thesis by (auto simp: run_inv_def)
    qed
    show ?thesis
    proof (cases "surely_done ?r")
      case True
      with guard Suc.prems(2) have "schedule_running fuel (idx + 1) t = Inr t'" by (simp add: Let_def)
      from Suc.IH [OF next0 this] show ?thesis .
    next
      case False
      with guard Suc.prems(2) obtain e where e: "encoder_step ?rid (num_computed_tokens ?r)
            (running_num_new_tokens (conf ?s) ?r (token_budget t)) (encoder_compute_budget t) ?s = Inr e"
        by (auto simp: Let_def result_simps)
      define t1 where "t1 = t\<lparr>st_sched := ?s\<lparr>encoder_cache_manager := es_manager e\<rparr>\<rparr>"
      note turn = run_turn [OF Suc.prems(1) conjunct1 [OF guard] conjunct2 [OF guard] e, folded t1_def]
      show ?thesis
      proof (cases "es_num_new_tokens e = 0")
        case True
        with guard False e Suc.prems(2) have "schedule_running fuel (idx + 1) t1 = Inr t'" by (simp add: Let_def t1_def)
        from Suc.IH [OF _ this] turn show ?thesis by (simp add: t1_def)
      next
        case n: False
        with guard False e Suc.prems(2) obtain res i t2 where
          a: "allocate_loop_running (length (running ?s)) ?rid (es_num_new_tokens e) idx t1 = Inr (res, i, t2)"
          and rest: "(case res of None \<Rightarrow> Inr t2 | Some b \<Rightarrow> rbind (schedule_one_running ?rid (es_num_new_tokens e) b e t2)
             (\<lambda>t3. schedule_running fuel (i + 1) t3)) = Inr t'"
          by (auto simp: Let_def result_simps t1_def)
        from preempt_loop_inv [OF conjunct1 [OF turn] a] have d: "loop_done P ?rid idx t1 res i t2" .
        show ?thesis
        proof (cases res)
          case None
          with d rest show ?thesis by (simp add: loop_done_def t1_def)
        next
          case (Some b)
          with rest obtain t3 where o: "schedule_one_running ?rid (es_num_new_tokens e) b e t2 = Inr t3" and r3: "schedule_running fuel (i + 1) t3 = Inr t'"
            by (auto simp: result_simps)
          have ty: "trying P ?rid i t2" using d Some by (simp add: loop_done_def)
          have "P \<Longrightarrow> 0 < es_num_new_tokens e \<and> es_num_new_tokens e \<le> token_budget t2"
            using turn n allocate_loop_budget [OF conjunct1 [OF turn] a] by simp
          from schedule_one_running_inv [OF ty o this] Suc.IH [OF _ r3] d show ?thesis by (auto simp: loop_done_def t1_def)
        qed
      qed
    qed
  qed
qed

section \<open>The loop over the waiting requests\<close>

lemma step_inv_sched:
  assumes "step_inv P X t" and "qok X' {} s'" and "conf s' = conf (st_sched t)" and "running s' = running (st_sched t)"
    and "\<And>x. x \<in> set (running (st_sched t)) \<Longrightarrow> req s' x = req (st_sched t) x"
  shows "step_inv P X' (t\<lparr>st_sched := s'\<rparr>)"
  using assms by (simp add: step_inv_def books_def paid_def)

lemma qok_wait_status:
  assumes q: "qok X D s" and rid: "rid \<in> set (queue_items (waiting s))" "rid \<notin> D" and st: "waiting_status st"
  shows "qok X D (upd_req rid (\<lambda>r. r\<lparr>status := st\<rparr>) s)"
proof (rule qok_intro [OF q])
  let ?s = "upd_req rid (\<lambda>r. r\<lparr>status := st\<rparr>) s"
  from qok_status(2) [OF q rid] have r: "map_of (requests s) rid = Some (req s rid)" "request_id (req s rid) = rid" by auto
  have ids: "id_status ?s = (id_status s)(rid := Some (rid, st))" using r by (auto simp: fun_eq_iff id_status_upd)
  have nr: "rid \<notin> set (running s)" using q rid by (auto simp: qok_def)
  show "id_status ?s x = Some (i, st') \<Longrightarrow> i = x" for x i st' using q unfolding ids qok_def by (auto split: if_splits)
  show "x \<in> set (running ?s) \<Longrightarrow> x \<notin> D \<Longrightarrow> id_status ?s x = Some (x, RUNNING)" for x
    using q nr unfolding ids qok_def by auto
  show "x \<in> set (queue_items (waiting ?s) @ X) \<Longrightarrow> x \<notin> D \<Longrightarrow> \<exists>st. id_status ?s x = Some (x, st) \<and> waiting_status st" for x
    using q st unfolding ids qok_def by auto
qed simp_all

lemma admit_request_inv:
  assumes t: "step_inv P X t" and w: "queue_bool (waiting (st_sched t))" "peek_request (waiting (st_sched t)) = Inr rid"
    and n: "P \<Longrightarrow> 0 < n \<and> n \<le> token_budget t" and run: "admit_request rid n c e t = Inr t'"
  shows "step_inv P X t' \<and> conf (st_sched t') = conf (st_sched t) \<and> running (st_sched t') = running (st_sched t) @ [rid] \<and>
    Suc (queue_len (waiting (st_sched t'))) = queue_len (waiting (st_sched t))"
proof -
  let ?s = "st_sched t"
  from pop_request_mset [OF w(1), of "rlt ?s"] w(2) obtain q' where pop: "pop_request (rlt ?s) (waiting ?s) = Inr (rid, q')"
    and m: "mset (queue_items (waiting ?s)) = add_mset rid (mset (queue_items q'))" by auto
  have q: "qok X {} ?s" using t by (simp add: step_inv_def)
  have rid: "rid \<in> set (queue_items (waiting ?s))" using m by (metis set_mset_mset union_single_eq_member)
  from qok_status(2) [OF q rid] have r: "map_of (requests ?s) rid = Some (req ?s rid)" "request_id (req ?s rid) = rid" by auto
  define s1 where "s1 = log_event SCHEDULED rid (?s\<lparr>waiting := q', running := running ?s @ [rid]\<rparr>)"
  define f where "f = (\<lambda>r :: request. r\<lparr>status := RUNNING, num_computed_tokens := c, num_cached_tokens := (if num_cached_tokens r < 0 then c else num_cached_tokens r)\<rparr>)"
  define s2 where "s2 = upd_req rid f s1"
  let ?goal = "\<lambda>a b. schedule_encoder_inputs rid e (t\<lparr>scheduled_new_reqs := a, scheduled_resumed_reqs := b,
        req_to_new_blocks := AList.update rid (km_get_blocks rid (kv_manager s2)) (req_to_new_blocks t),
        num_scheduled_tokens := AList.update rid n (num_scheduled_tokens t), token_budget := token_budget t - n, st_sched := s2\<rparr>) = Inr t'"
  have "?goal (scheduled_new_reqs t @ [rid]) (scheduled_resumed_reqs t) \<or> ?goal (scheduled_new_reqs t) (scheduled_resumed_reqs t @ [rid])"
    using run pop by (auto simp: admit_request_def Let_def result_simps s2_def s1_def f_def split: if_split_asm)
  then obtain a b where ab: "(a = scheduled_new_reqs t @ [rid] \<and> b = scheduled_resumed_reqs t) \<or> (a = scheduled_new_reqs t \<and> b = scheduled_resumed_reqs t @ [rid])"
    and enc: "?goal a b" by blast
  from schedule_encoder_fields [OF enc] obtain em y z where t': "t' = t\<lparr>scheduled_new_reqs := a, scheduled_resumed_reqs := b,
        req_to_new_blocks := AList.update rid (km_get_blocks rid (kv_manager s2)) (req_to_new_blocks t),
        num_scheduled_tokens := AList.update rid n (num_scheduled_tokens t), token_budget := token_budget t - n,
        scheduled_encoder_inputs := y, encoder_compute_budget := z, st_sched := s2\<lparr>encoder_cache_manager := em\<rparr>\<rparr>" by auto
  let ?s' = "s2\<lparr>encoder_cache_manager := em\<rparr>"
  have fields: "conf ?s' = conf ?s" "running ?s' = running ?s @ [rid]" "waiting ?s' = q'" "map fst (requests ?s') = map fst (requests ?s)"
    by (simp_all add: s2_def s1_def)
  have "id_status s1 = id_status ?s"
    using same_status_log [of "?s\<lparr>waiting := q', running := running ?s @ [rid]\<rparr>" SCHEDULED rid]
    by (simp add: s1_def same_status_def id_status_def fun_eq_iff clients_def)
  note i1 = this
  moreover have "id_status ?s rid = Some (rid, status (req ?s rid))" using r by (simp add: id_status_def)
  ultimately have "id_status s1 rid = Some (rid, status (req ?s rid))" by simp
  from id_statusD [OF this] obtain r1 where r1: "map_of (requests s1) rid = Some r1" "request_id r1 = rid" by blast
  have "id_status ?s' = id_status s2" by (simp add: id_status_def fun_eq_iff)
  also have "\<dots> = (id_status ?s)(rid := Some (rid, RUNNING))"
    using r1 by (simp add: s2_def fun_eq_iff id_status_upd i1 f_def)
  finally have "id_status ?s' = (id_status ?s)(rid := Some (rid, RUNNING))" .
  then have q2: "qok X {} ?s'" using fields m by (intro qok_to_running [OF q rid]) simp_all
  have new: "rid \<notin> set (scheduled t)"
    using t q rid by (auto simp: step_inv_def books_def qok_def)
  have "step_inv P X t'"
    by (rule record_scheduled [OF t _ new n q2, where b = "km_get_blocks rid (kv_manager s2)"])
      (use ab fields in \<open>auto simp: t' s2_def s1_def req_def log_event_def map_of_upd_req\<close>)
  moreover have "Suc (queue_len q') = queue_len (waiting ?s)"
    using arg_cong [OF m, of size] by (simp add: queue_len_def)
  ultimately show ?thesis using fields by (simp add: t')
qed

lemma step_inv_kv_em:
  "step_inv P X t \<Longrightarrow> step_inv P X (t\<lparr>st_sched := (set_kv k (st_sched t))\<lparr>encoder_cache_manager := em\<rparr>\<rparr>)"
  using step_inv_em [OF step_inv_kv] by simp

text \<open>Until it is admitted, trying a request touches the two cache managers only.\<close>

lemma try_admit_cases:
  assumes "try_admit rid t = Inr (b, t')"
  obtains (refused) k em where "\<not> b" and "t' = t\<lparr>st_sched := (set_kv k (st_sched t))\<lparr>encoder_cache_manager := em\<rparr>\<rparr>"
  | (admitted) k em n c e where b
      and "admit_request rid n c e (t\<lparr>st_sched := (set_kv k (st_sched t))\<lparr>encoder_cache_manager := em\<rparr>\<rparr>) = Inr t'" and "0 < n" and "n \<le> token_budget t"
proof -
  let ?s = "st_sched t"
  have keep: "?s = (set_kv (kv_manager ?s) ?s)\<lparr>encoder_cache_manager := encoder_cache_manager ?s\<rparr>" by (simp add: set_kv_def)
  from assms obtain blocks nl c s1 where c: "(if num_computed_tokens (req ?s rid) = 0
             then rbind (get_computed_blocks (req ?s rid) (kv_manager ?s)) (\<lambda>(b, n, k). Inr (b, int n, int n, set_kv k ?s))
             else Inr (EmptyKVCacheBlocks, 0, num_computed_tokens (req ?s rid), ?s)) = Inr (blocks, nl, c, s1)"
    by (auto simp: try_admit_def Let_def result_simps)
  have "\<exists>k. s1 = set_kv k ?s"
  proof (cases "num_computed_tokens (req ?s rid) = 0")
    case False
    with c have "s1 = set_kv (kv_manager ?s) ?s" by (simp add: set_kv_def)
    then show ?thesis ..
  qed (use c in \<open>auto simp: result_simps\<close>)
  then obtain k where s1: "s1 = set_kv k ?s" ..
  then have k1: "s1 = (set_kv k ?s)\<lparr>encoder_cache_manager := encoder_cache_manager ?s\<rparr>" by (simp add: set_kv_def)
  define n0 where "n0 = waiting_num_new_tokens (conf ?s) (req ?s rid) c"
  have main: "try_admit rid t = (if \<not> enable_chunked_prefill (conf ?s) \<and> token_budget t < n0 then Inr (False, t\<lparr>st_sched := s1\<rparr>)
      else rbind (rassert (0 < min n0 (token_budget t))) (\<lambda>_.
        rbind (encoder_step rid c (min n0 (token_budget t)) (encoder_compute_budget t) s1) (\<lambda>e.
          if has_encoder_inputs (req ?s rid) \<and> es_num_new_tokens e = 0 then Inr (False, t\<lparr>st_sched := s1\<lparr>encoder_cache_manager := es_manager e\<rparr>\<rparr>)
          else rbind (allocate_slots (req ?s rid) (es_num_new_tokens e) nl (Some blocks)
                 (if num_computed_tokens (req ?s rid) = 0 then 0 else int (num_lookahead_tokens (conf ?s))) False
                 (if is_encoder_decoder (conf ?s) \<and> has_encoder_inputs (req ?s rid) then sc_max_num_encoder_input_tokens (conf ?s) else 0)
                 (kv_manager (s1\<lparr>encoder_cache_manager := es_manager e\<rparr>)))
            (\<lambda>(nb, k). if nb = None then Inr (False, t\<lparr>st_sched := set_kv k (s1\<lparr>encoder_cache_manager := es_manager e\<rparr>)\<rparr>)
              else rbind (admit_request rid (es_num_new_tokens e) c e (t\<lparr>st_sched := set_kv k (s1\<lparr>encoder_cache_manager := es_manager e\<rparr>)\<rparr>))
                 (\<lambda>t4. Inr (True, t4))))))"
    unfolding try_admit_def Let_def c by (simp add: n0_def cong: if_cong)
  show ?thesis
  proof (cases "\<not> enable_chunked_prefill (conf ?s) \<and> token_budget t < n0")
    case True
    with assms main have "\<not> b" "t' = t\<lparr>st_sched := s1\<rparr>" by simp_all
    with refused k1 show ?thesis by metis
  next
    case False
    with assms main obtain e where pos: "0 < min n0 (token_budget t)"
      and e: "encoder_step rid c (min n0 (token_budget t)) (encoder_compute_budget t) s1 = Inr e"
      by (auto simp: result_simps)
    let ?em = "es_manager e" and ?n = "es_num_new_tokens e"
    have r: "req s1 rid = req ?s rid" by (simp add: s1 req_def)
    show ?thesis
    proof (cases "has_encoder_inputs (req ?s rid) \<and> ?n = 0")
      case True
      with assms main False pos e have "\<not> b" "t' = t\<lparr>st_sched := s1\<lparr>encoder_cache_manager := ?em\<rparr>\<rparr>" by simp_all
      with refused s1 show ?thesis by metis
    next
      case n: False
      with encoder_step_bound [OF e] pos r have nb: "0 < ?n" "?n \<le> token_budget t" by auto
      from n assms main False pos e obtain nb :: "kv_blocks option" and k2 where rest: "(if nb = None then Inr (False, t\<lparr>st_sched := set_kv k2 (s1\<lparr>encoder_cache_manager := ?em\<rparr>)\<rparr>)
          else rbind (admit_request rid ?n c e (t\<lparr>st_sched := set_kv k2 (s1\<lparr>encoder_cache_manager := ?em\<rparr>)\<rparr>)) (\<lambda>t4. Inr (True, t4))) = Inr (b, t')"
        by (auto simp: result_simps)
      have k2: "set_kv k2 (s1\<lparr>encoder_cache_manager := ?em\<rparr>) = (set_kv k2 ?s)\<lparr>encoder_cache_manager := ?em\<rparr>" by (simp add: s1 set_kv_def)
      show ?thesis
      proof (cases nb)
        case None
        with rest have "\<not> b" "t' = t\<lparr>st_sched := (set_kv k2 ?s)\<lparr>encoder_cache_manager := ?em\<rparr>\<rparr>" unfolding k2 by auto
        with refused show ?thesis by blast
      next
        case (Some x)
        with rest have b "admit_request rid ?n c e (t\<lparr>st_sched := (set_kv k2 ?s)\<lparr>encoder_cache_manager := ?em\<rparr>\<rparr>) = Inr t'"
          unfolding k2 by (auto simp: result_simps)
        with admitted nb show ?thesis by blast
      qed
    qed
  qed
qed

lemma try_admit_inv:
  assumes t: "step_inv P X t" and w: "queue_bool (waiting (st_sched t))" "peek_request (waiting (st_sched t)) = Inr rid"
    and run: "try_admit rid t = Inr (b, t')"
  shows "step_inv P X t' \<and> conf (st_sched t') = conf (st_sched t) \<and>
    (if b then running (st_sched t') = running (st_sched t) @ [rid] \<and> Suc (queue_len (waiting (st_sched t'))) = queue_len (waiting (st_sched t))
     else running (st_sched t') = running (st_sched t) \<and> waiting (st_sched t') = waiting (st_sched t))"
  using run
proof (cases rule: try_admit_cases)
  case (refused k em)
  with step_inv_kv_em [OF t, where k = k and em = em] show ?thesis by simp
next
  case (admitted k em n c e)
  from admit_request_inv [OF step_inv_kv_em [OF t] _ _ _ admitted(2)] w admitted(1,3,4) show ?thesis by simp
qed

lemma qok_skip:
  assumes "qok X {} s" and "mset (queue_items (waiting s)) = add_mset rid (mset (queue_items w))" and "mset X' = add_mset rid (mset X)"
  shows "qok X' {} (s\<lparr>waiting := w\<rparr>)"
  by (rule qok_cong [OF assms(1)]) (use assms in \<open>auto intro: same_status_requests\<close>)

text \<open>One turn of the loop: the request is skipped, refused or admitted.\<close>

lemma schedule_waiting_inv:
  assumes "step_inv P (queue_items sk) t" and "length (running (st_sched t)) \<le> max_num_running_reqs (conf (st_sched t))"
    and "schedule_waiting fuel loras sk t = Inr (sk', t')"
  shows "step_inv P (queue_items sk') t' \<and> conf (st_sched t') = conf (st_sched t) \<and>
    length (running (st_sched t')) \<le> max_num_running_reqs (conf (st_sched t))"
  using assms
proof (induction fuel arbitrary: loras sk t)
  case 0
  then show ?case by (auto split: if_splits)
next
  case (Suc fuel)
  let ?s = "st_sched t"
  show ?case
  proof (cases "\<not> (queue_bool (waiting ?s) \<and> 0 < token_budget t) \<or> length (running ?s) = max_num_running_reqs (conf ?s)")
    case True
    with Suc.prems show ?thesis by (auto simp: Let_def)
  next
    case False
    then have qb: "queue_bool (waiting ?s)" and room: "length (running ?s) < max_num_running_reqs (conf ?s)" using Suc.prems(2) by auto
    from pop_request_mset [OF qb] obtain rid where peek: "peek_request (waiting ?s) = Inr rid" by blast
    have rid: "rid \<in> set (queue_items (waiting ?s))"
      using pop_request_mset [OF qb, of "rlt ?s"] peek by (metis Inr_inject set_mset_mset union_single_eq_member)
    have q: "qok (queue_items sk) {} ?s" using Suc.prems(1) by (simp add: step_inv_def)
    define s1 where "s1 = (if status (req ?s rid) = WAITING_FOR_FSM then upd_req rid (\<lambda>r. r\<lparr>status := WAITING\<rparr>) ?s else ?s)"
    have s1: "conf s1 = conf ?s" "running s1 = running ?s" "waiting s1 = waiting ?s" by (simp_all add: s1_def)
    have q1: "qok (queue_items sk) {} s1" using q qok_wait_status [OF q rid] by (simp add: s1_def waiting_status_def)
    have nr: "rid \<notin> set (running ?s)" using q rid by (auto simp: qok_def)
    then have same: "x \<in> set (running ?s) \<Longrightarrow> req s1 x = req ?s x" for x by (auto simp: s1_def req_def map_of_upd_req)
    have skip: ?thesis if "s2 = ?s \<or> s2 = s1"
      and "rbind (pop_request (rlt s2) (waiting s2)) (\<lambda>(_, w).
                     schedule_waiting fuel loras (prepend_request (rlt s2) rid sk) (t\<lparr>st_sched := s2\<lparr>waiting := w\<rparr>\<rparr>)) = Inr (sk', t')" for s2
    proof -
      have s2: "conf s2 = conf ?s" "running s2 = running ?s" "waiting s2 = waiting ?s" "qok (queue_items sk) {} s2"
        "\<And>x. x \<in> set (running ?s) \<Longrightarrow> req s2 x = req ?s x" using that(1) s1 q q1 same by auto
      from pop_request_mset [of "waiting s2" "rlt s2"] qb peek s2(3) obtain w where w: "pop_request (rlt s2) (waiting s2) = Inr (rid, w)"
        "mset (queue_items (waiting s2)) = add_mset rid (mset (queue_items w))" by auto
      from qok_skip [OF s2(4) w(2), of "queue_items (prepend_request (rlt s2) rid sk)"]
      have "step_inv P (queue_items (prepend_request (rlt s2) rid sk)) (t\<lparr>st_sched := s2\<lparr>waiting := w\<rparr>\<rparr>)"
        using s2 by (intro step_inv_sched [OF Suc.prems(1)]) (simp_all add: queue_mset req_def)
      from Suc.IH [OF this] that(2) w(1) s2 Suc.prems(2) show ?thesis by simp
    qed
    have t1: "step_inv P (queue_items sk) (t\<lparr>st_sched := s1\<rparr>)" using step_inv_sched [OF Suc.prems(1) q1] s1 same by simp
    show ?thesis
    proof (cases "status (req ?s rid) = WAITING_FOR_FSM \<and> structured_output_request (req ?s rid) \<noteq> Some True \<or> lora_exceeds (conf ?s) (req ?s rid) loras")
      case True
      show ?thesis
      proof (rule skip [of "if status (req ?s rid) = WAITING_FOR_FSM \<and> structured_output_request (req ?s rid) \<noteq> Some True then ?s else s1"])
      qed (use Suc.prems(3) False True peek in \<open>auto simp: Let_def s1_def split: if_split_asm\<close>)
    next
      case admit: False
      with Suc.prems(3) False peek obtain b t2 where a: "try_admit rid (t\<lparr>st_sched := s1\<rparr>) = Inr (b, t2)"
        and rest: "(if \<not> b then Inr (sk, t2) else schedule_waiting fuel (case (max_loras (conf ?s), lora_request (req ?s rid)) of
            (Some m, Some l) \<Rightarrow> List.insert (lora_int_id l) loras | _ \<Rightarrow> loras) sk t2) = Inr (sk', t')"
        by (auto simp: Let_def s1_def result_simps split: if_split_asm)
      from try_admit_inv [OF t1 _ _ a] qb peek s1 have i: "step_inv P (queue_items sk) t2" "conf (st_sched t2) = conf ?s"
        "length (running (st_sched t2)) \<le> Suc (length (running ?s))" by (auto split: if_splits)
      show ?thesis
      proof (cases b)
        case True
        with rest Suc.IH [OF i(1)] i(2,3) room show ?thesis by simp
      qed (use rest i try_admit_inv [OF t1 _ _ a] qb peek s1 room in simp)
    qed
  qed
qed

section \<open>The step as a whole\<close>

lemma sched_step_init_inv:
  assumes "qok [] {} s" and "P \<Longrightarrow> 0 \<le> max_num_scheduled_tokens (conf s) \<and> (\<forall>rid \<in> set (running s). ahead_ok (conf s) (req s rid))"
  shows "run_inv P 0 (sched_step_init s)"
  using assms by (simp add: run_inv_def step_inv_def books_def paid_def sched_step_init_def od_wf_def)

lemma skipped_back:
  assumes "step_inv P (queue_items sk) t"
  defines "s \<equiv> st_sched t"
  shows "step_inv P [] (t\<lparr>st_sched := (if queue_bool sk then s\<lparr>waiting := prepend_requests (rlt s) sk (waiting s)\<rparr> else s)\<rparr>)"
proof -
  have q: "qok (queue_items sk) {} s" using assms by (simp add: step_inv_def)
  let ?s = "if queue_bool sk then s\<lparr>waiting := prepend_requests (rlt s) sk (waiting s)\<rparr> else s"
  have "qok [] {} ?s" by (rule qok_cong [OF q]) (auto simp: queue_mset queue_bool_def intro: same_status_requests)
  then show ?thesis using assms by (intro step_inv_sched [OF assms(1)]) (simp_all add: req_def s_def)
qed

lemma schedule_steps_inv:
  assumes q: "qok [] {} s" and len: "length (running s) \<le> max_num_running_reqs (conf s)"
    and P: "P \<Longrightarrow> 0 \<le> max_num_scheduled_tokens (conf s) \<and> (\<forall>rid \<in> set (running s). ahead_ok (conf s) (req s rid))"
    and run: "schedule_steps s = Inr t"
  shows "step_inv P [] t \<and> conf (st_sched t) = conf s \<and> length (running (st_sched t)) \<le> max_num_running_reqs (conf s)"
proof -
  from run obtain t1 loras sk t2 where t1: "schedule_running (length (running s)) 0 (sched_step_init s) = Inr t1"
    and w: "(if preempted_reqs t1 = [] then schedule_waiting (queue_len (waiting (st_sched t1))) loras (create_request_queue (policy (conf s))) t1
            else Inr (create_request_queue (policy (conf s)), t1)) = Inr (sk, t2)"
    and t: "t = t2\<lparr>st_sched := (if queue_bool sk then (st_sched t2)\<lparr>waiting := prepend_requests (rlt (st_sched t2)) sk (waiting (st_sched t2))\<rparr> else st_sched t2)\<rparr>"
    by (auto simp: schedule_steps_def Let_def result_simps)
  have "run_inv P 0 (sched_step_init s)" using sched_step_init_inv [OF q] P .
  from schedule_running_inv [OF this t1]
  have i1: "step_inv P [] t1" "conf (st_sched t1) = conf s" "length (running (st_sched t1)) \<le> max_num_running_reqs (conf s)"
    using len by (simp_all add: sched_step_init_def)
  have "step_inv P (queue_items sk) t2 \<and> conf (st_sched t2) = conf s \<and> length (running (st_sched t2)) \<le> max_num_running_reqs (conf s)"
  proof (cases "preempted_reqs t1 = []")
    case True
    with w schedule_waiting_inv [of P "create_request_queue (policy (conf s))" t1] i1 show ?thesis by simp
  next
    case False
    with w i1 show ?thesis by auto
  qed
  with skipped_back [of P sk t2] show ?thesis by (simp add: t)
qed

text \<open>The tail of the step changes no queue and no status.\<close>

definition same_queues :: "scheduler \<Rightarrow> scheduler \<Rightarrow> bool" where
  "same_queues s s' \<longleftrightarrow> same_status s s' \<and> running s' = running s \<and> waiting s' = waiting s \<and> conf s' = conf s"

lemma same_queues_refl: "same_queues s s"
  by (simp add: same_queues_def)

lemma same_queues_trans: "same_queues a b \<Longrightarrow> same_queues b c \<Longrightarrow> same_queues a c"
  by (auto simp: same_queues_def elim: same_status_trans)

lemma same_queues_qok: "same_queues s s' \<Longrightarrow> qok X D s \<Longrightarrow> qok X D s'"
  using qok_same by (auto simp: same_queues_def)

lemma same_queues_upd:
  "(\<And>r. map_of (requests s) rid = Some r \<Longrightarrow> request_id (f r) = request_id r \<and> status (f r) = status r \<and> client_index (f r) = client_index r) \<Longrightarrow>
   same_queues s (upd_req rid f s)"
  using same_status_upd [of s rid f] by (simp add: same_queues_def)

lemma same_queues_fields:
  "requests s' = requests s \<Longrightarrow> running s' = running s \<Longrightarrow> waiting s' = waiting s \<Longrightarrow> conf s' = conf s \<Longrightarrow> same_queues s s'"
  by (simp add: same_queues_def same_status_requests)

lemma same_queues_rfold:
  assumes "\<And>x s s'. x \<in> set xs \<Longrightarrow> f x s = Inr s' \<Longrightarrow> same_queues s s'" and "rfold f xs s = Inr s'"
  shows "same_queues s s'"
  using assms
proof (induction xs arbitrary: s)
  case (Cons x xs)
  from Cons.prems(2) obtain t where "f x s = Inr t" "rfold f xs t = Inr s'" by (auto simp: result_simps)
  with Cons.IH [of t] Cons.prems(1) show ?case by (meson list.set_intros same_queues_trans)
qed (simp add: same_queues_refl)

lemma same_queues_fold:
  assumes "\<And>x s. same_queues s (f x s)"
  shows "same_queues s (fold f xs s)"
proof (induction xs arbitrary: s)
  case (Cons x xs)
  from Cons.IH [of "f x s"] assms [of s x] show ?case by (simp add: same_queues_trans)
qed (simp add: same_queues_refl)

lemma advance_request_same:
  assumes "advance_request p s = Inr s'"
  shows "same_queues s s'"
proof -
  obtain rid n where p: "p = (rid, n)" by (cases p)
  let ?s = "upd_req rid (\<lambda>r. r\<lparr>num_computed_tokens := num_computed_tokens r + n\<rparr>) s"
  have "same_queues s ?s" by (rule same_queues_upd) simp
  moreover from assms obtain em where "s' = ?s \<or> s' = ?s\<lparr>encoder_cache_manager := em\<rparr>"
    by (auto simp: p advance_request_def free_encoder_inputs_def Let_def result_simps split: if_splits)
  moreover have "same_queues ?s (?s\<lparr>encoder_cache_manager := em\<rparr>)" by (rule same_queues_fields) simp_all
  ultimately show ?thesis using same_queues_trans by blast
qed

lemma add_placeholders_same: "same_queues s (add_placeholders out rid s)"
  by (simp add: add_placeholders_def Let_def same_queues_upd same_queues_refl)

lemma update_after_schedule_same:
  assumes "update_after_schedule out s = Inr (out', s')"
  shows "same_queues s s' \<and> so_num_scheduled_tokens out' = so_num_scheduled_tokens out \<and>
    so_total_num_scheduled_tokens out' = so_total_num_scheduled_tokens out"
proof -
  from assms obtain s1 where s1: "rfold advance_request (so_num_scheduled_tokens out) s = Inr s1"
    and s': "s' = s1\<lparr>finished_req_ids := {}\<rparr> \<or> s' = fold (add_placeholders out) (map fst (so_num_scheduled_tokens out)) (s1\<lparr>finished_req_ids := {}\<rparr>)"
    and out: "so_num_scheduled_tokens out' = so_num_scheduled_tokens out \<and> so_total_num_scheduled_tokens out' = so_total_num_scheduled_tokens out"
    by (auto simp: update_after_schedule_def Let_def result_simps split: if_splits)
  have a: "same_queues s s1" by (rule same_queues_rfold [OF advance_request_same s1])
  have "same_queues s1 (s1\<lparr>finished_req_ids := {}\<rparr>)" by (rule same_queues_fields) simp_all
  with a have b: "same_queues s (s1\<lparr>finished_req_ids := {}\<rparr>)" by (rule same_queues_trans)
  have c: "same_queues s (fold (add_placeholders out) (map fst (so_num_scheduled_tokens out)) (s1\<lparr>finished_req_ids := {}\<rparr>))"
    by (rule same_queues_trans [OF b same_queues_fold [OF add_placeholders_same]])
  from s' have "same_queues s s'" by (elim disjE) (simp_all only: b c)
  with out show ?thesis by simp
qed

lemma rbindE: "rbind m f = Inr y \<Longrightarrow> (\<And>x. m = Inr x \<Longrightarrow> f x = Inr y \<Longrightarrow> thesis) \<Longrightarrow> thesis"
  by (cases m) simp_all

lemma finish_schedule_same:
  assumes "finish_schedule t = Inr (out, s')"
  shows "same_queues (st_sched t) s' \<and> so_num_scheduled_tokens out = num_scheduled_tokens t \<and>
    so_total_num_scheduled_tokens out = sum_list (map snd (num_scheduled_tokens t))"
proof -
  let ?s = "st_sched t"
  obtain common k where ck: "(case running ?s of [] \<Rightarrow> (replicate (num_kv_cache_groups (kv_manager ?s)) 0, kv_manager ?s)
      | rid # _ \<Rightarrow> km_num_common_prefix_blocks rid (kv_manager ?s)) = (common, k)" by (metis surj_pair)
  obtain hs em where h: "em_get_freed_mm_hashes (encoder_cache_manager ?s) = (hs, em)" by (metis surj_pair)
  let ?s1 = "(set_kv k ?s)\<lparr>encoder_cache_manager := em, prev_step_scheduled_req_ids := set (map fst (num_scheduled_tokens t))\<rparr>"
  have same: "same_queues ?s ?s1" by (rule same_queues_fields) simp_all
  show ?thesis
    using assms [unfolded finish_schedule_def Let_def ck h prod.case]
  proof (elim rbindE)
    fix new_data cached
    assume u: "update_after_schedule
            \<lparr>so_new_reqs = new_data, so_cached_reqs = cached, so_num_scheduled_tokens = num_scheduled_tokens t,
             so_total_num_scheduled_tokens = sum_list (map snd (num_scheduled_tokens t)), so_spec_decode_tokens = scheduled_spec_decode_tokens t,
             so_encoder_inputs = scheduled_encoder_inputs t, so_num_common_prefix_blocks = common,
             so_preempted_req_ids = set (preempted_reqs t), so_finished_req_ids = finished_req_ids ?s1,
             so_free_encoder_mm_hashes = hs, so_pending_structured_output_tokens = False\<rparr> ?s1 = Inr (out, s')"
    from update_after_schedule_same [OF u] same_queues_trans [OF same] show ?thesis by simp
  qed
qed

lemma schedule_qok:
  assumes "qok [] {} s" and "length (running s) \<le> max_num_running_reqs (conf s)" and "schedule s = Inr (out, s')"
  shows "qok [] {} s' \<and> conf s' = conf s \<and> length (running s') \<le> max_num_running_reqs (conf s')"
proof -
  from assms(3) obtain t where t: "schedule_steps s = Inr t" and f: "finish_schedule t = Inr (out, s')" by (auto simp: schedule_def result_simps)
  from schedule_steps_inv [OF assms(1,2) _ t, of False] have "qok [] {} (st_sched t)" "conf (st_sched t) = conf s"
    "length (running (st_sched t)) \<le> max_num_running_reqs (conf s)" by (simp_all add: step_inv_def)
  with finish_schedule_same [OF f] same_queues_qok [of "st_sched t" s'] show ?thesis by (auto simp: same_queues_def)
qed

end
