(* ===== verification/Scheduler_Reachable.thy ===== *)
theory Scheduler_Reachable
  imports Schedule_Loops
begin

text \<open>
  The operations of the scheduler as steps of one relation.  Every request that a reachable scheduler
  knows is in exactly one of its running list and its waiting queue, with a status that says so, and the
  running list is never longer than the configuration allows.
\<close>

section \<open>Requests that leave\<close>

text \<open>\<open>s'\<close> is \<open>s\<close> without the requests in \<open>V\<close>; the queues still hold their ids.\<close>

definition freed :: "string set \<Rightarrow> scheduler \<Rightarrow> scheduler \<Rightarrow> bool" where
  "freed V s s' \<longleftrightarrow> map fst (requests s') = filter (\<lambda>x. x \<notin> V) (map fst (requests s)) \<and>
     id_status s' = (\<lambda>x. if x \<in> V then None else id_status s x) \<and> clients s' = filter (\<lambda>p. fst p \<notin> V) (clients s) \<and>
     running s' = running s \<and> waiting s' = waiting s \<and> conf s' = conf s"

lemma freed_same: "freed {} s s' \<longleftrightarrow> same_queues s s'"
  by (auto simp: freed_def same_queues_def same_status_def fun_eq_iff)

lemma freed_trans: "freed V a b \<Longrightarrow> freed W b c \<Longrightarrow> freed (V \<union> W) a c"
  by (auto simp: freed_def fun_eq_iff intro: filter_cong)

lemma freed_same_trans: "freed V a b \<Longrightarrow> same_queues b c \<Longrightarrow> freed V a c" "same_queues a b \<Longrightarrow> freed V b c \<Longrightarrow> freed V a c"
  using freed_trans [of V a b "{}" c] freed_trans [of "{}" a b V c] by (simp_all add: freed_same)

lemma freed_qok:
  assumes q: "qok X {} s" and f: "freed V s s'" and V: "V \<subseteq> set (map fst (requests s))"
  shows "qok X V s'"
proof -
  have keys: "set (map fst (requests s')) = set (map fst (requests s)) - V" "distinct (map fst (requests s'))"
    using f q by (auto simp: freed_def qok_def)
  have "set (running s @ queue_items (waiting s) @ X) = set (map fst (requests s))" using q by (simp add: qok_def)
  then have "set (running s' @ queue_items (waiting s') @ X) - V = set (map fst (requests s'))" using f unfolding keys(1) by (simp add: freed_def)
  with keys q f show ?thesis
    unfolding qok_def freed_def by (auto split: if_splits)
qed

text \<open>The queues let go of the ids.\<close>

lemma qok_drop:
  assumes q: "qok [] V s" and s': "requests s' = requests s" "running s' = filter (\<lambda>x. x \<notin> V) (running s)"
    "mset (queue_items (waiting s')) = filter_mset (\<lambda>x. x \<notin> V) (mset (queue_items (waiting s)))"
  shows "qok [] {} s'"
proof -
  let ?w = "filter (\<lambda>x. x \<notin> V) (queue_items (waiting s))"
  have m: "mset (queue_items (waiting s')) = mset ?w" using s'(3) by simp
  then have w: "set (queue_items (waiting s')) = set (queue_items (waiting s)) - V"
    by (metis mset_filter s'(3) set_diff_eq set_filter set_mset_mset)
  have "distinct (queue_items (waiting s')) = distinct ?w" using m by (rule mset_eq_imp_distinct_iff)
  moreover have "id_status s' = id_status s" using s'(1) by (simp add: id_status_def fun_eq_iff)
  moreover have "set (running s @ queue_items (waiting s)) - V = set (map fst (requests s))" using q by (simp add: qok_def)
  ultimately show ?thesis using q s'(1,2) w unfolding qok_def by auto
qed

section \<open>Freeing a request\<close>

lemma delete_freed:
  assumes "map_of (requests s) rid \<noteq> None"
    and "s' = s\<lparr>encoder_cache_manager := em, finished_req_ids := a, finished_req_ids_dict := b, kv_manager := k, requests := AList.delete rid (requests s)\<rparr>"
  shows "freed {rid} s s'"
proof -
  have "map fst (AList.delete rid (requests s)) = filter (\<lambda>x. x \<notin> {rid}) (map fst (requests s))"
    by (simp add: delete_keys removeAll_filter_not_eq eq_commute)
  moreover have "id_status s' = (\<lambda>x. if x \<in> {rid} then None else id_status s x)"
    by (simp add: assms(2) id_status_def delete_conv' fun_eq_iff)
  moreover have "map (\<lambda>(rid, r). (rid, client_index r)) (AList.delete rid d) = filter (\<lambda>p. fst p \<notin> {rid}) (map (\<lambda>(rid, r). (rid, client_index r)) d)" for d
    by (induction d) auto
  ultimately show ?thesis by (simp add: freed_def assms(2) clients_def)
qed

lemma free_request_freed:
  assumes "free_request rid s = Inr s'" and "map_of (requests s) rid \<noteq> None"
  shows "freed {rid} s s' \<and> finished_req_ids s' = insert rid (finished_req_ids s) \<and>
    (\<forall>x. x \<noteq> rid \<longrightarrow> map_of (requests s') x = map_of (requests s) x)"
proof -
  from assms(1) obtain k em b where "s' = s\<lparr>encoder_cache_manager := em, finished_req_ids := insert rid (finished_req_ids s),
      finished_req_ids_dict := b, kv_manager := k, requests := AList.delete rid (requests s)\<rparr>"
    by (auto simp: free_request_def sched_free_blocks_def Let_def result_simps)
  with delete_freed [OF assms(2) this] show ?thesis by (simp add: delete_conv')
qed

lemma upd_free_freed:
  assumes "free_request rid (upd_req rid f s) = Inr s'" and "map_of (requests s) rid \<noteq> None"
    and "\<And>r. map_of (requests s) rid = Some r \<Longrightarrow> client_index (f r) = client_index r"
  shows "freed {rid} s s' \<and> finished_req_ids s' = insert rid (finished_req_ids s) \<and>
    (\<forall>x. x \<noteq> rid \<longrightarrow> map_of (requests s') x = map_of (requests s) x)"
proof -
  have "map_of (requests (upd_req rid f s)) rid \<noteq> None" using assms(2) by (simp add: map_of_upd_req)
  note f = free_request_freed [OF assms(1) this]
  have "id_status (upd_req rid f s) x = id_status s x" if "x \<noteq> rid" for x using that by (simp add: id_status_upd)
  with f clients_upd [OF assms(3)] show ?thesis by (auto simp: freed_def fun_eq_iff map_of_upd_req)
qed

section \<open>Finishing from outside\<close>

text \<open>The ids that name a live request.\<close>

definition live :: "scheduler \<Rightarrow> string \<Rightarrow> bool" where
  "live s rid \<longleftrightarrow> (case map_of (requests s) rid of None \<Rightarrow> False | Some r \<Rightarrow> \<not> is_finished r)"

lemma live_fun: "(\<lambda>rid. case map_of (requests s) rid of None \<Rightarrow> False | Some r \<Rightarrow> \<not> is_finished r) = live s"
  by (simp add: live_def fun_eq_iff)

lemma free_all_freed:
  assumes "rfold (\<lambda>rid s. free_request rid (upd_req rid (\<lambda>r. r\<lparr>status := st\<rparr>) s)) ids s = Inr s'"
    and "distinct ids" and "\<forall>rid \<in> set ids. map_of (requests s) rid \<noteq> None"
  shows "freed (set ids) s s' \<and> finished_req_ids s' = set ids \<union> finished_req_ids s \<and>
    (\<forall>x. x \<notin> set ids \<longrightarrow> map_of (requests s') x = map_of (requests s) x)"
  using assms
proof (induction ids arbitrary: s)
  case Nil
  then show ?case by (simp add: freed_same same_queues_refl)
next
  case (Cons rid ids)
  from Cons.prems(1) obtain t where t: "free_request rid (upd_req rid (\<lambda>r. r\<lparr>status := st\<rparr>) s) = Inr t"
    and rest: "rfold (\<lambda>rid s. free_request rid (upd_req rid (\<lambda>r. r\<lparr>status := st\<rparr>) s)) ids t = Inr s'" by (auto simp: result_simps)
  have "map_of (requests s) rid \<noteq> None" using Cons.prems(3) by simp
  from upd_free_freed [OF t this] have f: "freed {rid} s t" "finished_req_ids t = insert rid (finished_req_ids s)"
    "\<forall>x. x \<noteq> rid \<longrightarrow> map_of (requests t) x = map_of (requests s) x" by simp_all
  have "\<forall>x \<in> set ids. map_of (requests t) x \<noteq> None" using Cons.prems(2,3) f by auto
  from Cons.IH [OF rest _ this] Cons.prems(2) f freed_trans [of "{rid}" s t "set ids" s'] show ?case by auto
qed

lemma finish_requests_freed:
  assumes q: "qok [] {} s" and d: "distinct ids" and run: "finish_requests ids st s = Inr s'"
  defines "V \<equiv> {rid \<in> set ids. live s rid}"
  shows "qok [] {} s' \<and> conf s' = conf s \<and> running s' = filter (\<lambda>x. x \<notin> V) (running s) \<and>
    mset (queue_items (waiting s')) = filter_mset (\<lambda>x. x \<notin> V) (mset (queue_items (waiting s))) \<and>
    finished_req_ids s' = V \<union> finished_req_ids s \<and> (\<forall>x. map_of (requests s') x = (if x \<in> V then None else map_of (requests s) x))"
proof -
  define valid where "valid = filter (live s) ids"
  define r where "r = filter (\<lambda>rid. status (req s rid) = RUNNING) valid"
  define w where "w = filter (\<lambda>rid. status (req s rid) \<noteq> RUNNING) valid"
  define s1 where "s1 = (if r = [] then s else s\<lparr>running := remove_all (running s) r\<rparr>)"
  define s2 where "s2 = (if w = [] then s1 else s1\<lparr>waiting := remove_requests (rlt s1) w (waiting s1)\<rparr>)"
  have V: "set valid = V" by (auto simp: valid_def V_def)
  have f: "rfold (\<lambda>rid s. free_request rid (upd_req rid (\<lambda>r. r\<lparr>status := st\<rparr>) s)) valid s2 = Inr s'"
    using run [unfolded finish_requests_def Let_def live_fun, folded valid_def, folded r_def w_def, folded s1_def, folded s2_def]
    by (elim rbindE)
  have reqs: "requests s2 = requests s" "finished_req_ids s2 = finished_req_ids s" "conf s2 = conf s" by (simp_all add: s2_def s1_def)
  have known: "\<forall>rid \<in> set valid. map_of (requests s) rid \<noteq> None" by (auto simp: valid_def live_def split: option.splits)
  have "distinct valid" using d by (simp add: valid_def)
  note fr = free_all_freed [OF f this] known [folded reqs(1)]
  have dr: "distinct (running s)" using q by (simp add: qok_def)
  have ws: "\<not> waiting_status RUNNING" by (simp add: waiting_status_def)
  have run2: "running s2 = filter (\<lambda>x. x \<notin> V) (running s)"
  proof -
    have "x \<in> set r \<longleftrightarrow> x \<in> V" if "x \<in> set (running s)" for x
      using that qok_status(1) [OF q] by (auto simp: r_def V)
    then have "filter (\<lambda>x. x \<notin> set r) (running s) = filter (\<lambda>x. x \<notin> V) (running s)" by (auto intro: filter_cong)
    moreover have "running s2 = filter (\<lambda>x. x \<notin> set r) (running s)"
      using remove_all_distinct [OF dr, of r] by (auto simp: s2_def s1_def)
    ultimately show ?thesis by simp
  qed
  have wait2: "mset (queue_items (waiting s2)) = filter_mset (\<lambda>x. x \<notin> V) (mset (queue_items (waiting s)))"
  proof -
    have "x \<in> set w \<longleftrightarrow> x \<in> V" if "x \<in> set (queue_items (waiting s))" for x
      using qok_status(2) [OF q that] ws by (auto simp: w_def V)
    then have "filter_mset (\<lambda>x. x \<notin> set w) (mset (queue_items (waiting s))) = filter_mset (\<lambda>x. x \<notin> V) (mset (queue_items (waiting s)))"
      by (intro filter_mset_cong) auto
    moreover have "mset (queue_items (waiting s2)) = filter_mset (\<lambda>x. x \<notin> set w) (mset (queue_items (waiting s)))"
      by (simp add: s2_def s1_def queue_mset)
    ultimately show ?thesis by simp
  qed
  let ?t = "s'\<lparr>running := running s, waiting := waiting s\<rparr>"
  have fs: "freed V s2 s'" using fr V by simp
  then have "freed V s ?t" using reqs by (simp add: freed_def id_status_def fun_eq_iff clients_def)
  moreover have "V \<subseteq> set (map fst (requests s))" using known V by (force simp: map_of_eq_None_iff)
  ultimately have "qok [] V ?t" by (rule freed_qok [OF q])
  then have "qok [] {} s'" by (rule qok_drop) (use fs run2 wait2 in \<open>simp_all add: freed_def\<close>)
  moreover have "map_of (requests s') x = (if x \<in> V then None else map_of (requests s) x)" for x
  proof (cases "x \<in> V")
    case True
    have "set (map fst (requests s')) = set (map fst (requests s)) - V"
      unfolding conjunct1 [OF fs [unfolded freed_def]] reqs by auto
    with True show ?thesis by (simp add: map_of_eq_None_iff)
  qed (use fr V reqs in simp)
  ultimately show ?thesis using fr fs V run2 wait2 reqs by (simp add: freed_def)
qed

section \<open>After the model has run\<close>

lemma append_until_stop_keeps:
  assumes "append_until_stop hasher n toks r = Inr (ts, st, r')"
  shows "request_id r' = request_id r \<and> client_index r' = client_index r \<and> (\<not> st \<longrightarrow> status r' = status r)"
  using assms
proof (induction toks arbitrary: r ts)
  case (Cons tok toks)
  from Cons.prems obtain r1 b r2 where a: "append_output_token_ids hasher [tok] r = Inr r1" and c: "check_stop r1 n = Inr (b, r2)"
    and rest: "(if b then Inr ([tok], True, r2) else rbind (append_until_stop hasher n toks r2) (\<lambda>(ts, st, r3). Inr (tok # ts, st, r3))) = Inr (ts, st, r')"
    by (auto simp: result_simps)
  have r1: "request_id r1 = request_id r" "client_index r1 = client_index r" "status r1 = status r"
    using a by (auto simp: append_output_token_ids_def Let_def result_simps split: option.splits)
  have r2: "request_id r2 = request_id r1" "client_index r2 = client_index r1" "\<not> b \<longrightarrow> status r2 = status r1"
    using c by (auto simp: check_stop_def result_simps Let_def split: option.splits if_splits)
  show ?case
  proof (cases b)
    case False
    with rest obtain k2 where "append_until_stop hasher n toks r2 = Inr (k2, st, r')" by (auto simp: result_simps)
    from Cons.IH [OF this] False r1 r2 show ?thesis by simp
  qed (use rest r1 r2 in simp)
qed simp

lemma same_queues_set:
  assumes "map_of (requests s) rid = Some r" and "request_id r' = request_id r" and "status r' = status r" and "client_index r' = client_index r"
  shows "same_queues s (upd_req rid (\<lambda>_. r') s)"
  using assms by (intro same_queues_upd) simp

lemma same_queues_kv: "same_queues s s' \<Longrightarrow> same_queues s (set_kv k s')"
  using same_queues_trans [of s s' "set_kv k s'"] same_queues_fields [of "set_kv k s'" s'] by simp

text \<open>A request that goes on keeps its place; one that stops changes its own entry only.\<close>

lemma consume_output_cases:
  assumes run: "consume_output hasher rid toks pooled s = Inr (ts, st, s')" and rid: "map_of (requests s) rid \<noteq> None"
  obtains (goes_on) "\<not> st" and "same_queues s s'"
  | (stops) f k where st and "s' = set_kv k (upd_req rid f s)" and "client_index (f (req s rid)) = client_index (req s rid)"
proof -
  have r: "map_of (requests s) rid = Some (req s rid)" using rid by (auto simp: req_def)
  have kv: "upd_req rid f s = set_kv (kv_manager s) (upd_req rid f s)" for f by (simp add: set_kv_def)
  consider (tokens) "toks \<noteq> []" | (pooled) "toks = []" "pooling_params (req s rid) \<noteq> None \<and> pooled \<noteq> None"
    | (nothing) "toks = []" "\<not> (pooling_params (req s rid) \<noteq> None \<and> pooled \<noteq> None)" by blast
  then show ?thesis
  proof cases
    case tokens
    then have u: "update_request_with_output hasher rid toks s = Inr (ts, st, s')" using run by (simp add: consume_output_def)
    show ?thesis
    proof (cases "is_async (conf s) \<and> discard_latest_async_tokens (req s rid)")
      case True
      with u have "\<not> st" "s' = upd_req rid (\<lambda>r. r\<lparr>discard_latest_async_tokens := False\<rparr>) s" by (simp_all add: update_request_with_output_def)
      moreover have "same_queues s (upd_req rid (\<lambda>r. r\<lparr>discard_latest_async_tokens := False\<rparr>) s)" by (rule same_queues_upd) simp
      ultimately show ?thesis using goes_on by simp
    next
      case False
      from u False obtain r1 where
        a: "append_until_stop hasher (sc_max_model_len (conf s)) toks (req s rid) = Inr (ts, st, r1)"
        and rest: "(if \<not> is_async (conf s) then Inr (ts, st, upd_req rid (\<lambda>_. r1) s)
          else let r2 = r1\<lparr>num_output_placeholders := num_output_placeholders r1 - int (length ts)\<rparr> in
            rbind (rassert (0 \<le> num_output_placeholders r2)) (\<lambda>_.
            rbind (if status (req s rid) = RUNNING
                   then km_cache_blocks r2 (nat (num_computed_tokens r2 - num_output_placeholders r2)) (kv_manager s)
                   else Inr (kv_manager s)) (\<lambda>k. Inr (ts, st, set_kv k (upd_req rid (\<lambda>_. r2) s))))) = Inr (ts, st, s')"
        by (auto simp: update_request_with_output_def result_simps Let_def split: if_split_asm)
      have "\<exists>r2 k. request_id r2 = request_id r1 \<and> status r2 = status r1 \<and> client_index r2 = client_index r1 \<and> s' = set_kv k (upd_req rid (\<lambda>_. r2) s)"
      proof (cases "is_async (conf s)")
        case True
        let ?r2 = "r1\<lparr>num_output_placeholders := num_output_placeholders r1 - int (length ts)\<rparr>"
        from rest True obtain k where "s' = set_kv k (upd_req rid (\<lambda>_. ?r2) s)" by (auto simp: Let_def result_simps)
        then show ?thesis by (intro exI [of _ ?r2] exI [of _ k]) simp
      next
        case False
        with rest have "s' = upd_req rid (\<lambda>_. r1) s" by simp
        then show ?thesis using kv by (intro exI [of _ r1] exI [of _ "kv_manager s"]) simp
      qed
      then obtain r2 k where r2: "request_id r2 = request_id r1" "status r2 = status r1" "client_index r2 = client_index r1" "s' = set_kv k (upd_req rid (\<lambda>_. r2) s)" by blast
      note keeps = append_until_stop_keeps [OF a]
      show ?thesis
      proof (cases st)
        case True
        with stops [OF True r2(4)] keeps r2(3) show ?thesis by simp
      next
        case False
        with keeps r2 have "same_queues s (upd_req rid (\<lambda>_. r2) s)" by (intro same_queues_set [OF r]) simp_all
        then have "same_queues s s'" unfolding r2(4) by (rule same_queues_kv)
        with goes_on False show ?thesis by blast
      qed
    qed
  next
    case pooled
    with run have st "s' = upd_req rid (\<lambda>r. r\<lparr>status := FINISHED_STOPPED\<rparr>) s" by (auto simp: consume_output_def)
    with stops [of "kv_manager s" "\<lambda>r. r\<lparr>status := FINISHED_STOPPED\<rparr>"] kv show ?thesis by simp
  next
    case nothing
    with run have "\<not> st" "s' = s" by (auto simp: consume_output_def)
    with goes_on same_queues_refl show ?thesis by simp
  qed
qed

lemma reject_drafts_same:
  assumes "reject_drafts out rid g u = Inr u'"
  shows "same_queues (us_sched u) (us_sched u') \<and> us_stopped_running u' = us_stopped_running u \<and> us_stopped_preempted u' = us_stopped_preempted u"
proof (cases "map_of (so_spec_decode_tokens out) rid")
  case None
  with assms show ?thesis by (simp add: reject_drafts_def same_queues_refl)
next
  case (Some ds)
  show ?thesis
  proof (cases "ds = []")
    case True
    with Some assms show ?thesis by (simp add: reject_drafts_def same_queues_refl)
  next
    case False
    with Some assms show ?thesis by (auto simp: reject_drafts_def Let_def result_simps intro!: same_queues_upd)
  qed
qed

lemma emit_output_same:
  assumes "emit_output rid toks pooled r b u = Inr u'" and "map_of (requests (us_sched u)) rid = None \<or> map_of (requests (us_sched u)) rid = Some r"
  shows "same_queues (us_sched u) (us_sched u') \<and> us_stopped_running u' = us_stopped_running u \<and> us_stopped_preempted u' = us_stopped_preempted u"
proof (cases "toks \<noteq> [] \<or> pooled \<noteq> None")
  case True
  obtain es r1 where e: "take_events r = (es, r1)" by (cases "take_events r")
  then have "request_id r1 = request_id r" "status r1 = status r" "client_index r1 = client_index r" by (auto simp: take_events_def split: if_splits)
  then have "same_queues (us_sched u) (upd_req rid (\<lambda>_. r1) (us_sched u))" using assms(2) by (intro same_queues_upd) auto
  with True assms(1) e show ?thesis by (auto simp: emit_output_def Let_def)
next
  case False
  with assms(1) show ?thesis by (auto simp: emit_output_def result_simps same_queues_refl)
qed

text \<open>The loop: the stopped requests are gone, and noted in the list of the queue that still holds them.\<close>

definition update_inv :: "scheduler \<Rightarrow> update_step \<Rightarrow> bool" where
  "update_inv s u \<longleftrightarrow> freed (set (us_stopped_running u) \<union> set (us_stopped_preempted u)) s (us_sched u) \<and>
     (\<forall>x \<in> set (us_stopped_running u). id_status s x = Some (x, RUNNING)) \<and>
     (\<forall>x \<in> set (us_stopped_preempted u). \<exists>st. id_status s x = Some (x, st) \<and> st \<noteq> RUNNING)"

lemma update_inv_same:
  "update_inv s u \<Longrightarrow> same_queues (us_sched u) (us_sched u') \<Longrightarrow> us_stopped_running u' = us_stopped_running u \<Longrightarrow>
   us_stopped_preempted u' = us_stopped_preempted u \<Longrightarrow> update_inv s u'"
  unfolding update_inv_def by (metis freed_same_trans(1))

lemma update_inv_stop:
  assumes u: "update_inv s u" and f: "freed {rid} (us_sched u) (us_sched u')" and st: "id_status (us_sched u) rid = Some (rid, st)"
    and lists: "us_stopped_running u' = (if st = RUNNING then us_stopped_running u @ [rid] else us_stopped_running u)"
      "us_stopped_preempted u' = (if st \<noteq> RUNNING then us_stopped_preempted u @ [rid] else us_stopped_preempted u)"
  shows "update_inv s u'"
proof -
  let ?V = "set (us_stopped_running u) \<union> set (us_stopped_preempted u)"
  have "freed (?V \<union> {rid}) s (us_sched u')" using freed_trans [OF _ f] u by (simp add: update_inv_def)
  moreover have "set (us_stopped_running u') \<union> set (us_stopped_preempted u') = ?V \<union> {rid}" using lists by auto
  moreover have "id_status s rid = Some (rid, st)" using u st by (auto simp: update_inv_def freed_def split: if_splits)
  ultimately show ?thesis using u lists by (auto simp: update_inv_def)
qed

lemma update_one_parts:
  assumes run: "update_one hasher sm out ro (rid, n) u = Inr u'" and rid: "map_of (requests (us_sched u)) rid \<noteq> None"
  obtains generated u1 pooled toks stopped s2 s3 r3 b u4 where "reject_drafts out rid generated u = Inr u1"
    and "consume_output hasher rid generated pooled (us_sched u1) = Inr (toks, stopped, s2)"
    and "(if stopped then free_request rid s2 else Inr s2) = Inr s3"
    and "request_id r3 = request_id (req s2 rid)" and "status r3 = status (req s2 rid)" and "client_index r3 = client_index (req s2 rid)"
    and "us_sched u4 = upd_req rid (\<lambda>_. r3) s3" and "us_outputs u4 = us_outputs u1"
    and "us_stopped_running u4 = (if stopped \<and> status (req (us_sched u1) rid) = RUNNING then us_stopped_running u1 @ [rid] else us_stopped_running u1)"
    and "us_stopped_preempted u4 = (if stopped \<and> status (req (us_sched u1) rid) \<noteq> RUNNING then us_stopped_preempted u1 @ [rid] else us_stopped_preempted u1)"
    and "emit_output rid toks pooled r3 b u4 = Inr u'"
  using run [unfolded update_one_def prod.case if_not_P [OF rid] Let_def]
  apply (elim rbindE)
  apply (simp only: split_paired_all prod.case)
  apply (elim rbindE)
  apply (rule that)
  apply assumption+
  apply (simp_all split: option.splits)
  done

lemma update_one_inv:
  assumes q: "qok [] {} s" and u: "update_inv s u" and run: "update_one hasher sm out ro p u = Inr u'"
  shows "update_inv s u'"
proof -
  obtain rid n where p: "p = (rid, n)" by (cases p)
  show ?thesis
  proof (cases "map_of (requests (us_sched u)) rid = None")
    case True
    with run u show ?thesis by (auto simp: p update_one_def result_simps)
  next
    case False
    have ids: "id_status s x = Some (i, st) \<Longrightarrow> i = x" for x i st using q by (simp add: qok_def)
    obtain generated u1 pooled toks stopped s2 s3 r3 b u4 where
      rej: "reject_drafts out rid generated u = Inr u1" and c: "consume_output hasher rid generated pooled (us_sched u1) = Inr (toks, stopped, s2)"
      and f: "(if stopped then free_request rid s2 else Inr s2) = Inr s3" and r3: "request_id r3 = request_id (req s2 rid)" "status r3 = status (req s2 rid)" "client_index r3 = client_index (req s2 rid)"
      and u4: "us_sched u4 = upd_req rid (\<lambda>_. r3) s3"
        "us_stopped_running u4 = (if stopped \<and> status (req (us_sched u1) rid) = RUNNING then us_stopped_running u1 @ [rid] else us_stopped_running u1)"
        "us_stopped_preempted u4 = (if stopped \<and> status (req (us_sched u1) rid) \<noteq> RUNNING then us_stopped_preempted u1 @ [rid] else us_stopped_preempted u1)"
      and e: "emit_output rid toks pooled r3 b u4 = Inr u'" by (rule update_one_parts [OF run [unfolded p] False])
    note rj = reject_drafts_same [OF rej]
    have u1: "update_inv s u1" using update_inv_same [OF u] rj by blast
    have known: "map_of (requests (us_sched u1)) rid \<noteq> None" using rj False by (simp add: same_queues_def same_status_def map_of_eq_None_iff flip: set_map)
    then obtain i where i: "id_status (us_sched u1) rid = Some (i, status (req (us_sched u1) rid))" by (auto simp: id_status_def req_def)
    with u1 ids have st: "id_status (us_sched u1) rid = Some (rid, status (req (us_sched u1) rid))" by (auto simp: update_inv_def freed_def split: if_splits)
    have "update_inv s u4 \<and> (map_of (requests (us_sched u4)) rid = None \<or> map_of (requests (us_sched u4)) rid = Some r3)"
      using c known
    proof (cases rule: consume_output_cases)
      case goes_on
      with f have s3: "s3 = s2" by simp
      have r2: "map_of (requests s2) rid = Some (req s2 rid)"
        using goes_on(2) known by (auto simp: same_queues_def same_status_def map_of_eq_None_iff req_def simp flip: set_map)
      have "same_queues s2 (upd_req rid (\<lambda>_. r3) s2)" by (rule same_queues_set [OF r2 r3])
      then have "same_queues (us_sched u1) (us_sched u4)" using goes_on(2) u4(1) s3 same_queues_trans by simp
      with update_inv_same [OF u1] u4 goes_on(1) r2 show ?thesis by (simp add: s3 map_of_upd_req)
    next
      case (stops g k)
      have "s2 = upd_req rid g (set_kv k (us_sched u1))" using stops(2) by (simp add: set_kv_def upd_req_def)
      then have "free_request rid (upd_req rid g (set_kv k (us_sched u1))) = Inr s3" using f stops(1) by simp
      moreover have "client_index (g r) = client_index r" if "map_of (requests (us_sched u1)) rid = Some r" for r
        using stops(3) that by (simp add: req_def)
      ultimately have "freed {rid} (set_kv k (us_sched u1)) s3" using upd_free_freed [of rid g "set_kv k (us_sched u1)" s3] known by simp
      then have s3: "freed {rid} (us_sched u1) s3" by (rule freed_same_trans(2) [OF same_queues_kv [OF same_queues_refl]])
      then have "id_status s3 rid = None" by (simp add: freed_def)
      then have gone: "map_of (requests s3) rid = None" by (simp add: id_status_def)
      then have "same_queues s3 (us_sched u4)" unfolding u4(1) by (intro same_queues_upd) simp
      then have "freed {rid} (us_sched u1) (us_sched u4)" by (rule freed_same_trans(1) [OF s3])
      from update_inv_stop [OF u1 this st] u4 stops(1) gone show ?thesis by (simp add: map_of_upd_req)
    qed
    with update_inv_same [of s u4 u'] emit_output_same [OF e] show ?thesis by blast
  qed
qed

lemma update_from_output_qok:
  assumes q: "qok [] {} s" and run: "update_from_output hasher sm out ro s = Inr (eco, evs, s')"
  shows "qok [] {} s' \<and> conf s' = conf s \<and> length (running s') \<le> length (running s) \<and>
    (\<exists>V. set (running s') = set (running s) - V \<and> set (queue_items (waiting s')) = set (queue_items (waiting s)) - V)"
proof -
  let ?u0 = "\<lparr>us_sched = s, us_outputs = [], us_spec_stats = None, us_stopped_running = [], us_stopped_preempted = []\<rparr>"
  from run obtain u where loop: "rfold (update_one hasher sm out ro) (so_num_scheduled_tokens out) ?u0 = Inr u"
    by (auto simp: update_from_output_def result_simps)
  define s2 where "s2 = (if us_stopped_running u = [] then us_sched u else (us_sched u)\<lparr>running := remove_all (running (us_sched u)) (us_stopped_running u)\<rparr>)"
  define s3 where "s3 = (if us_stopped_preempted u = [] then s2 else s2\<lparr>waiting := remove_requests (rlt s2) (us_stopped_preempted u) (waiting s2)\<rparr>)"
  have "update_inv s ?u0" by (simp add: update_inv_def freed_same same_queues_refl)
  from rfold_invariant [OF loop, of "update_inv s"] this update_one_inv [OF q] have u: "update_inv s u" by blast
  let ?V = "set (us_stopped_running u) \<union> set (us_stopped_preempted u)"
  have f: "freed ?V s (us_sched u)" using u by (simp add: update_inv_def)
  have inV: "x \<in> ?V \<Longrightarrow> id_status s x \<noteq> None" for x using u by (auto simp: update_inv_def)
  have "?V \<subseteq> set (map fst (requests s))" using inV by (force simp: id_status_def map_of_eq_None_iff)
  from freed_qok [OF q f this] have qV: "qok [] ?V (us_sched u)" .
  have r: "x \<in> ?V \<longleftrightarrow> x \<in> set (us_stopped_running u)" if "x \<in> set (running s)" for x
  proof -
    have "id_status s x = Some (x, RUNNING)" using q that by (simp add: qok_def)
    then show ?thesis using u by (auto simp: update_inv_def)
  qed
  have w: "x \<in> ?V \<longleftrightarrow> x \<in> set (us_stopped_preempted u)" if "x \<in> set (queue_items (waiting s))" for x
  proof -
    have "\<exists>st. id_status s x = Some (x, st) \<and> waiting_status st" using q that by (simp add: qok_def)
    then show ?thesis using u by (auto simp: update_inv_def waiting_status_def)
  qed
  have "distinct (running (us_sched u))" using qV by (simp add: qok_def)
  from remove_all_distinct [OF this] have "running s2 = filter (\<lambda>x. x \<notin> set (us_stopped_running u)) (running (us_sched u))" by (simp add: s2_def)
  also have "\<dots> = filter (\<lambda>x. x \<notin> ?V) (running (us_sched u))" using f r by (intro filter_cong) (auto simp: freed_def)
  finally have r3: "running s3 = filter (\<lambda>x. x \<notin> ?V) (running (us_sched u))" by (simp add: s3_def)
  have "mset (queue_items (waiting s3)) = filter_mset (\<lambda>x. x \<notin> set (us_stopped_preempted u)) (mset (queue_items (waiting (us_sched u))))"
    by (simp add: s3_def s2_def queue_mset)
  also have "\<dots> = filter_mset (\<lambda>x. x \<notin> ?V) (mset (queue_items (waiting (us_sched u))))" using f w by (intro filter_mset_cong) (auto simp: freed_def)
  finally have w3: "mset (queue_items (waiting s3)) = filter_mset (\<lambda>x. x \<notin> ?V) (mset (queue_items (waiting (us_sched u))))" .
  have "qok [] {} s3" by (rule qok_drop [OF qV _ r3 w3]) (simp add: s3_def s2_def)
  moreover have "same_queues s3 s'"
    using run loop unfolding s3_def s2_def
    by (auto simp: update_from_output_def Let_def result_simps make_stats_def intro!: same_queues_fields split: prod.splits option.splits if_split_asm)
  moreover have "conf s3 = conf s" using f by (simp add: s3_def s2_def freed_def)
  moreover have fq: "running (us_sched u) = running s" "waiting (us_sched u) = waiting s" using f by (simp_all add: freed_def)
  moreover have "set (running s3) = set (running s) - ?V" unfolding r3 fq by auto
  moreover have "set (queue_items (waiting s3)) = set (queue_items (waiting s)) - ?V"
    using arg_cong [OF w3, of set_mset] unfolding fq by auto
  ultimately show ?thesis using same_queues_qok [of s3 s' "[]" "{}"] r3 by (auto simp: same_queues_def)
qed

section \<open>The other operations\<close>

lemma same_queues_keeps: "same_queues s s' \<Longrightarrow> qok X D s \<Longrightarrow> qok X D s' \<and> running s' = running s \<and> conf s' = conf s"
  using same_queues_qok by (simp add: same_queues_def)

lemma sched_add_request_qok:
  assumes q: "qok [] {} s" and r: "map_of (requests s) (request_id r) = None" "waiting_status (status r)"
  shows "qok [] {} (sched_add_request r s) \<and> running (sched_add_request r s) = running s \<and> conf (sched_add_request r s) = conf s"
proof -
  let ?rid = "request_id r"
  let ?s1 = "s\<lparr>requests := AList.update ?rid r (requests s)\<rparr>"
  let ?s2 = "?s1\<lparr>waiting := add_request (rlt ?s1) ?rid (waiting s)\<rparr>"
  have new: "?rid \<notin> set (map fst (requests s))" using r(1) by (simp add: map_of_eq_None_iff)
  have keys: "set (map fst (requests ?s2)) = insert ?rid (set (map fst (requests s)))" "distinct (map fst (requests ?s2))"
    using q by (simp_all add: dom_update qok_def distinct_update)
  have ids: "id_status ?s2 = (id_status s)(?rid := Some (?rid, status r))" by (auto simp: id_status_def fun_eq_iff update_conv')
  have w: "mset (queue_items (waiting ?s2)) = mset (?rid # queue_items (waiting s))" by (simp add: queue_mset)
  then have ws: "set (queue_items (waiting ?s2)) = insert ?rid (set (queue_items (waiting s)))" by (metis list.simps(15) set_mset_mset)
  have sets: "set (running s) \<union> set (queue_items (waiting s)) = set (map fst (requests s))" using q by (simp add: qok_def)
  have "distinct (queue_items (waiting ?s2)) = distinct (?rid # queue_items (waiting s))" using w by (rule mset_eq_imp_distinct_iff)
  then have "distinct (queue_items (waiting ?s2))" using q new sets by (auto simp: qok_def)
  then have "distinct (running ?s2 @ queue_items (waiting ?s2))" using q new sets ws by (auto simp: qok_def)
  moreover have "id_status ?s2 x = Some (x, RUNNING)" if "x \<in> set (running ?s2)" for x
    using that q new sets unfolding ids by (auto simp: qok_def)
  moreover have "\<exists>st. id_status ?s2 x = Some (x, st) \<and> waiting_status st" if "x \<in> set (queue_items (waiting ?s2))" for x
    using that q r(2) unfolding ids ws by (auto simp: qok_def)
  moreover have "i = x" if "id_status ?s2 x = Some (i, st)" for x i st
    using that q unfolding ids by (auto simp: qok_def split: if_splits)
  ultimately have "qok [] {} ?s2" using keys ws sets unfolding qok_def by simp
  moreover have "same_queues ?s2 (log_event QUEUED ?rid ?s2)" by (simp add: same_queues_def)
  ultimately show ?thesis using same_queues_qok by (simp add: sched_add_request_def Let_def)
qed

lemma preempt_for_reset_qok:
  assumes q: "qok [] {} s" and r: "running s = xs @ [rid]" and run: "preempt_for_reset rid s = Inr s'"
  shows "qok [] {} s' \<and> running s' = xs \<and> conf s' = conf s"
proof -
  have "distinct (xs @ [rid])" using q r by (simp add: qok_def)
  then have "remove1 rid (running s) = xs" by (simp add: r remove1_append)
  moreover from run r obtain t where t: "preempt_request rid (s\<lparr>running := xs\<rparr>) = Inr t"
    and s': "s' = upd_req rid (\<lambda>r. r\<lparr>num_output_placeholders := 0, discard_latest_async_tokens := True\<rparr>) t"
    by (auto simp: preempt_for_reset_def result_simps)
  ultimately have "qok [] {} t \<and> running t = xs \<and> conf t = conf s" using preempt_request_qok [OF q, of rid t] r by simp
  moreover have "same_queues t s'" unfolding s' by (rule same_queues_upd) simp
  ultimately show ?thesis using same_queues_keeps [of t s' "[]" "{}"] by simp
qed

lemma reset_prefix_cache_qok:
  assumes q: "qok [] {} s" and run: "sched_reset_prefix_cache b c s = Inr (ok, s')"
  shows "qok [] {} s' \<and> conf s' = conf s \<and> running s' = (if b then [] else running s)"
proof -
  have loop: "rfold preempt_for_reset (rev xs) t = Inr t' \<Longrightarrow> qok [] {} t \<Longrightarrow> running t = xs \<Longrightarrow> qok [] {} t' \<and> conf t' = conf t \<and> running t' = []" for xs t t'
  proof (induction xs arbitrary: t rule: rev_induct)
    case (snoc x xs)
    from snoc.prems(1) obtain t1 where t1: "preempt_for_reset x t = Inr t1" and rest: "rfold preempt_for_reset (rev xs) t1 = Inr t'" by (auto simp: result_simps)
    from preempt_for_reset_qok [OF snoc.prems(2,3) t1] snoc.IH [OF rest] show ?case by simp
  qed simp
  from run obtain s1 k where s1: "(if b then rbind (rfold preempt_for_reset (rev (running s)) s) (\<lambda>s1. Inr (s1\<lparr>prev_step_scheduled_req_ids := {}\<rparr>)) else Inr s) = Inr s1"
    and s': "s' = set_kv k s1" by (auto simp: sched_reset_prefix_cache_def result_simps split: if_splits)
  have "qok [] {} s1 \<and> conf s1 = conf s \<and> running s1 = (if b then [] else running s)"
  proof (cases b)
    case True
    with s1 obtain t where t: "rfold preempt_for_reset (rev (running s)) s = Inr t" "s1 = t\<lparr>prev_step_scheduled_req_ids := {}\<rparr>" by (auto simp: result_simps)
    have "same_queues t s1" unfolding t(2) by (rule same_queues_fields) simp_all
    from same_queues_keeps [OF this, of "[]" "{}"] loop [OF t(1) q refl] True show ?thesis by simp
  qed (use s1 q in simp)
  moreover have "same_queues s1 s'" unfolding s' by (rule same_queues_kv [OF same_queues_refl])
  ultimately show ?thesis using same_queues_keeps [of s1 s' "[]" "{}"] by simp
qed

lemma update_one_draft_same: "same_queues s (update_one_draft sm p s)"
  by (cases p) (auto simp: update_one_draft_def same_queues_refl intro: same_queues_upd split: option.split)

lemma update_draft_same: "same_queues s (update_draft_token_ids sm ids toks s)"
  unfolding update_draft_token_ids_def by (rule same_queues_fold) (rule update_one_draft_same)

section \<open>A step loses no request\<close>

text \<open>What holds of the value of a call, if it returns one.\<close>

named_theorems after_intros \<open>rules for the value of a call\<close>

definition after :: "'a result \<Rightarrow> ('a \<Rightarrow> bool) \<Rightarrow> bool" where
  "after m Q \<longleftrightarrow> (\<forall>x. m = Inr x \<longrightarrow> Q x)"

lemma afterD: "after m Q \<Longrightarrow> m = Inr x \<Longrightarrow> Q x"
  by (simp add: after_def)

lemma after_value [after_intros]: "Q x \<Longrightarrow> after (Inr x) Q" "after (Inl e) Q"
  by (simp_all add: after_def)

lemma after_bind: "after m P \<Longrightarrow> (\<And>x. P x \<Longrightarrow> after (f x) Q) \<Longrightarrow> after (rbind m f) Q"
  by (cases m) (simp_all add: after_def)

lemma after_any [after_intros]: "(\<And>x. m = Inr x \<Longrightarrow> after (f x) Q) \<Longrightarrow> after (rbind m f) Q"
  by (cases m) (simp_all add: after_def)

lemma after_if [after_intros]: "(b \<Longrightarrow> after x Q) \<Longrightarrow> (\<not> b \<Longrightarrow> after y Q) \<Longrightarrow> after (if b then x else y) Q"
  by simp

lemma after_prod [after_intros]: "(\<And>a b. p = (a, b) \<Longrightarrow> after (f a b) Q) \<Longrightarrow> after (case p of (a, b) \<Rightarrow> f a b) Q"
  by (cases p) simp

lemma after_option [after_intros]:
  "(p = None \<Longrightarrow> after x Q) \<Longrightarrow> (\<And>a. p = Some a \<Longrightarrow> after (f a) Q) \<Longrightarrow> after (case p of None \<Rightarrow> x | Some a \<Rightarrow> f a) Q"
  by (cases p) simp_all

lemma clients_fields [simp]:
  "clients (s\<lparr>waiting := w\<rparr>) = clients s" "clients (s\<lparr>running := rs\<rparr>) = clients s" "clients (s\<lparr>kv_manager := k\<rparr>) = clients s"
  "clients (s\<lparr>encoder_cache_manager := em\<rparr>) = clients s" "clients (s\<lparr>prev_step_scheduled_req_ids := p\<rparr>) = clients s"
  by (simp_all add: clients_def)

lemma clients_ids: "clients s' = clients s \<Longrightarrow> fst ` set (requests s') = fst ` set (requests s)"
  by (metis clients_keys set_map)

abbreviation ids_of :: "scheduler \<Rightarrow> (string \<times> int) list" where
  "ids_of s \<equiv> clients s"

lemma ids_preempt: "after (preempt_request rid s) (\<lambda>s'. ids_of s' = ids_of s)"
  unfolding preempt_request_def Let_def by (intro after_intros) simp

lemma ids_unschedule: "after (unschedule v t) (\<lambda>t'. requests (st_sched t') = requests (st_sched t))"
  unfolding unschedule_def by (intro after_intros) simp

lemma ids_preempt_one: "after (preempt_one i t) (\<lambda>(v, i', t'). ids_of (st_sched t') = ids_of (st_sched t))"
  unfolding preempt_one_def Let_def
proof (rule after_bind [where P = "\<lambda>(v, i', t1). requests (st_sched t1) = requests (st_sched t)"], goal_cases)
  case 1
  have u: "after (rbind (unschedule v (t\<lparr>st_sched := s\<rparr>)) (\<lambda>t2. Inr (v, i - 1, t2))) (\<lambda>(v, i', t1). requests (st_sched t1) = requests (st_sched t))"
    if "requests s = requests (st_sched t)" for v s
    by (rule after_bind [OF ids_unschedule]) (simp add: that after_value)
  show ?case
    by (cases "policy (conf (st_sched t))"; cases "running (st_sched t)") (auto intro!: after_value u)
next
  case (2 x)
  obtain v j t1 where x: "x = (v, j, t1)" by (cases x)
  have "after (rbind (preempt_request v (st_sched t1)) (\<lambda>s1. Inr (v, j, t1\<lparr>st_sched := s1, preempted_reqs := preempted_reqs t1 @ [v]\<rparr>)))
      (\<lambda>(v, i', t'). ids_of (st_sched t') = ids_of (st_sched t))"
    by (rule after_bind [OF ids_preempt]) (use 2 x clients_requests [of "st_sched t1" "st_sched t"] in \<open>simp add: after_value\<close>)
  with x show ?case by simp
qed

lemma ids_allocate_loop: "after (allocate_loop_running fuel rid n i t) (\<lambda>(b, i', t'). ids_of (st_sched t') = ids_of (st_sched t))"
proof (induction fuel arbitrary: i t)
  case (Suc fuel)
  have rest: "after (if v = rid then Inr (None, j, u) else allocate_loop_running fuel rid n j u) (\<lambda>(b, i', t'). ids_of (st_sched t') = ids_of (st_sched t))"
    if "ids_of (st_sched u) = ids_of (st_sched t)" for v j u
    using Suc [of j u] that by (auto simp: after_def)
  have "after (rbind (preempt_one i u) (\<lambda>(v, j, u). if v = rid then Inr (None, j, u) else allocate_loop_running fuel rid n j u))
      (\<lambda>(b, i', t'). ids_of (st_sched t') = ids_of (st_sched t))" if "ids_of (st_sched u) = ids_of (st_sched t)" for u
    by (rule after_bind [OF ids_preempt_one]) (use that in \<open>auto intro!: rest\<close>)
  note again = this
  show ?case
    unfolding allocate_loop_running.simps Let_def
    by (rule after_any, rule after_prod, rule after_option) (simp_all add: again after_value)
qed (simp add: after_def)

lemma ids_encoder: "after (schedule_encoder_inputs rid e t) (\<lambda>t'. ids_of (st_sched t') = ids_of (st_sched t))"
  using schedule_encoder_fields [of rid e t] by (auto simp: after_def)

lemma ids_one_running: "after (schedule_one_running rid n b e t) (\<lambda>t'. ids_of (st_sched t') = ids_of (st_sched t))"
proof -
  have "ids_of (st_sched (schedule_spec_tokens rid n t0)) = ids_of (st_sched t0)" for t0
    using schedule_spec_fields [of rid n t0] by auto
  then show ?thesis
    unfolding schedule_one_running_def Let_def using ids_encoder by (auto simp: after_def)
qed

lemma ids_running: "after (schedule_running fuel i t) (\<lambda>t'. ids_of (st_sched t') = ids_of (st_sched t))"
proof (induction fuel arbitrary: i t)
  case 0
  then show ?case by (simp add: after_def)
next
  case (Suc fuel)
  have step: "after (schedule_running fuel j u) (\<lambda>t'. ids_of (st_sched t') = ids_of (st_sched t))" if "ids_of (st_sched u) = ids_of (st_sched t)" for j u
    using Suc [of j u] that by simp
  have turn: "after (rbind (allocate_loop_running m rid n i t1) (\<lambda>(new_blocks, idx, t2). case new_blocks of None \<Rightarrow> Inr t2
      | Some b \<Rightarrow> rbind (schedule_one_running rid n b e t2) (\<lambda>t3. schedule_running fuel (idx + 1) t3))) (\<lambda>t'. ids_of (st_sched t') = ids_of (st_sched t))"
    if "ids_of (st_sched t1) = ids_of (st_sched t)" for m rid n t1 e
  proof (rule after_bind [OF ids_allocate_loop], clarify)
    fix b j and t2 :: sched_step
    assume t2: "ids_of (st_sched t2) = ids_of (st_sched t1)"
    show "after (case b of None \<Rightarrow> Inr t2 | Some b \<Rightarrow> rbind (schedule_one_running rid n b e t2) (\<lambda>t3. schedule_running fuel (j + 1) t3))
        (\<lambda>t'. ids_of (st_sched t') = ids_of (st_sched t))"
      using t2 that by (intro after_intros after_bind [OF ids_one_running] step) simp_all
  qed
  show ?case unfolding schedule_running.simps Let_def by (intro after_intros turn step) simp_all
qed

lemma ids_admit: "after (admit_request rid n c e t) (\<lambda>t'. ids_of (st_sched t') = ids_of (st_sched t))"
proof -
  have "ids_of (st_sched t') = ids_of (st_sched t)" if "admit_request rid n c e t = Inr t'" for t'
    using that by (auto simp: admit_request_def Let_def result_simps dest!: afterD [OF ids_encoder] split: if_split_asm)
  then show ?thesis by (simp add: after_def)
qed

lemma ids_try_admit: "after (try_admit rid t) (\<lambda>(b, t'). ids_of (st_sched t') = ids_of (st_sched t))"
proof -
  have "ids_of (st_sched t') = ids_of (st_sched t)" if "try_admit rid t = Inr (b, t')" for b t'
    using that
  proof (cases rule: try_admit_cases)
    case (admitted k em n c e)
    from afterD [OF ids_admit admitted(2)] show ?thesis by simp
  qed simp
  then show ?thesis by (simp add: after_def)
qed

lemma ids_waiting: "after (schedule_waiting fuel loras sk t) (\<lambda>(sk', t'). ids_of (st_sched t') = ids_of (st_sched t))"
proof (induction fuel arbitrary: loras sk t)
  case 0
  then show ?case by (simp add: after_def)
next
  case (Suc fuel)
  have step: "after (schedule_waiting fuel ls sk1 u) (\<lambda>(sk', t'). ids_of (st_sched t') = ids_of (st_sched t))" if "ids_of (st_sched u) = ids_of (st_sched t)" for ls sk1 u
    using Suc [of ls sk1 u] that by simp
  have admit: "after (rbind (try_admit rid u) (\<lambda>(b, t1). if \<not> b then Inr (sk, t1) else schedule_waiting fuel ls sk t1))
      (\<lambda>(sk', t'). ids_of (st_sched t') = ids_of (st_sched t))" if "ids_of (st_sched u) = ids_of (st_sched t)" for rid u ls
  proof (rule after_bind [OF ids_try_admit], clarify)
    fix b and t1 :: sched_step
    assume "ids_of (st_sched t1) = ids_of (st_sched u)"
    with that show "after (if \<not> b then Inr (sk, t1) else schedule_waiting fuel ls sk t1) (\<lambda>(sk', t'). ids_of (st_sched t') = ids_of (st_sched t))"
      by (intro after_intros step) simp_all
  qed
  show ?case unfolding schedule_waiting.simps Let_def by (intro after_if after_value admit after_any after_prod step) simp_all
qed

lemma schedule_ids:
  assumes "schedule s = Inr (out, s')"
  shows "ids_of s' = ids_of s"
proof -
  from assms obtain t where t: "schedule_steps s = Inr t" and f: "finish_schedule t = Inr (out, s')" by (auto simp: schedule_def result_simps)
  have "after (schedule_steps s) (\<lambda>t. ids_of (st_sched t) = ids_of s)"
    unfolding schedule_steps_def
  proof (rule after_bind [OF ids_running], rule after_any)
    fix t1 :: sched_step and loras
    assume t1: "ids_of (st_sched t1) = ids_of (st_sched (sched_step_init s))"
    have w: "after (if preempted_reqs t1 = [] then schedule_waiting n loras sk t1 else Inr (sk, t1)) (\<lambda>(sk', t'). ids_of (st_sched t') = ids_of (st_sched t1))" for n sk
      using ids_waiting by (auto intro!: after_intros)
    show "after (rbind (if preempted_reqs t1 = [] then schedule_waiting (queue_len (waiting (st_sched t1))) loras (create_request_queue (policy (conf s))) t1
        else Inr (create_request_queue (policy (conf s)), t1)) (\<lambda>(skipped, t1). let s1 = st_sched t1;
          s2 = (if queue_bool skipped then s1\<lparr>waiting := prepend_requests (rlt s1) skipped (waiting s1)\<rparr> else s1) in Inr (t1\<lparr>st_sched := s2\<rparr>)))
        (\<lambda>t. ids_of (st_sched t) = ids_of s)"
      by (rule after_bind [OF w]) (use t1 in \<open>auto simp: Let_def sched_step_init_def intro!: after_intros\<close>)
  qed
  from afterD [OF this t] finish_schedule_same [OF f] show ?thesis by (simp add: same_queues_def same_status_def)
qed

lemma ids_reset: "after (sched_reset_prefix_cache b c s) (\<lambda>(ok, s'). ids_of s' = ids_of s)"
proof -
  have one: "after (preempt_for_reset rid t) (\<lambda>t'. ids_of t' = ids_of t)" for rid t
    unfolding preempt_for_reset_def by (rule after_bind [OF ids_preempt]) (simp add: after_value)
  have loop: "rfold preempt_for_reset xs t = Inr t' \<Longrightarrow> ids_of t' = ids_of t" for xs t t'
    by (induction xs arbitrary: t) (auto simp: result_simps dest: afterD [OF one])
  show ?thesis
    by (auto simp: after_def sched_reset_prefix_cache_def result_simps dest: loop split: if_split_asm)
qed

section \<open>The scheduler as a state machine\<close>

text \<open>The outputs for one client, and the requests that they report as finished.\<close>

definition client_outputs :: "(int, engine_core_outputs) odict \<Rightarrow> int \<Rightarrow> engine_core_output list" where
  "client_outputs outputs client = (case map_of outputs client of None \<Rightarrow> [] | Some eco \<Rightarrow> eco_outputs eco)"

definition ended :: "engine_core_output list \<Rightarrow> string set" where
  "ended outs = eo_request_id ` {o' \<in> set outs. eo_finish_reason o' \<noteq> None}"

definition reported :: "int set \<Rightarrow> (int, engine_core_outputs) odict \<Rightarrow> string set" where
  "reported C outputs = (\<Union>c \<in> C. ended (client_outputs outputs c))"

text \<open>
  Every call that the engine core makes on the scheduler, labelled with the call and what its caller sees of it: the
  id that arrives, the ids that the outputs of an update report as finished to some client, the ids to finish, and
  whether a reset takes the running requests along.  A new request has an id that is not in use
  and comes in waiting; the ids to finish are a set.
\<close>

datatype sched_call = Arrive string | Schedule | Drafts | Update "string set" | Finish "string set" | Reset bool

inductive sched_op :: "sched_call \<Rightarrow> scheduler \<Rightarrow> scheduler \<Rightarrow> bool" where
  add: "map_of (requests s) (request_id r) = None \<Longrightarrow> status r = WAITING \<or> status r = WAITING_FOR_FSM \<Longrightarrow>
    sched_op (Arrive (request_id r)) s (sched_add_request r s)"
| step: "schedule s = Inr (out, s') \<Longrightarrow> sched_op Schedule s s'"
| drafts: "sched_op Drafts s (update_draft_token_ids sm ids toks s)"
| update: "update_from_output hasher sm out ro s = Inr (eco, evs, s') \<Longrightarrow> sched_op (Update (reported UNIV eco)) s s'"
| finish: "distinct ids \<Longrightarrow> finish_requests ids st s = Inr s' \<Longrightarrow> sched_op (Finish (set ids)) s s'"
| reset: "sched_reset_prefix_cache running_too connector_too s = Inr (ok, s') \<Longrightarrow> sched_op (Reset running_too) s s'"

inductive sched_reachable :: "scheduler \<Rightarrow> bool" where
  init: "scheduler_init cfg fin registry budget kv caching kv_events use_int dcp pcp bs blocks = Inr s \<Longrightarrow> sched_reachable s"
| op: "sched_reachable s \<Longrightarrow> sched_op c s s' \<Longrightarrow> sched_reachable s'"

lemma scheduler_init_qok:
  "scheduler_init cfg fin registry budget kv caching kv_events use_int dcp pcp bs blocks = Inr s \<Longrightarrow> qok [] {} s \<and> running s = []"
  by (auto simp: scheduler_init_def result_simps qok_def id_status_def)

text \<open>The abstract state: who runs, who waits, and what the requests' statuses say about it.\<close>

definition lifecycle_ok :: "scheduler \<Rightarrow> bool" where
  "lifecycle_ok s \<longleftrightarrow> qok [] {} s \<and> length (running s) \<le> max_num_running_reqs (conf s)"

lemma qok_ids: "qok [] {} s \<Longrightarrow> set (running s) \<union> set (queue_items (waiting s)) = set (map fst (requests s)) \<and>
    set (running s) \<inter> set (queue_items (waiting s)) = {} \<and> card (set (running s)) = length (running s)"
  by (auto simp: qok_def distinct_card)

lemma sched_op_keeps:
  assumes ok: "lifecycle_ok s" and op: "sched_op c s s'"
  shows "lifecycle_ok s' \<and> conf s' = conf s"
proof -
  have q: "qok [] {} s" and len: "length (running s) \<le> max_num_running_reqs (conf s)" using ok by (simp_all add: lifecycle_ok_def)
  show ?thesis
    using op
  proof cases
    case (add r)
    from sched_add_request_qok [OF q add(3)] add(4) len show ?thesis by (auto simp: add(2) waiting_status_def lifecycle_ok_def)
  next
    case (step out)
    from schedule_qok [OF q len step(2)] show ?thesis unfolding lifecycle_ok_def by metis
  next
    case (drafts sm ids toks)
    have "same_queues s s'" unfolding drafts(2) by (rule update_draft_same)
    from same_queues_keeps [OF this q] len show ?thesis by (simp add: lifecycle_ok_def)
  next
    case (update hasher sm out ro eco evs)
    from update_from_output_qok [OF q update(2)] len show ?thesis by (simp add: lifecycle_ok_def)
  next
    case (finish ids st)
    from finish_requests_freed [OF q finish(2,3)] len show ?thesis by (simp add: lifecycle_ok_def le_trans [OF length_filter_le])
  next
    case (reset running_too connector_too ok)
    from reset_prefix_cache_qok [OF q reset(2)] len show ?thesis by (simp add: lifecycle_ok_def)
  qed
qed

lemma sched_reachable_ok: "sched_reachable s \<Longrightarrow> lifecycle_ok s"
proof (induction rule: sched_reachable.induct)
  case init
  then show ?case using scheduler_init_qok by (fastforce simp: lifecycle_ok_def)
next
  case (op s c s')
  then show ?case using sched_op_keeps by blast
qed

end
