(* ===== verification/Scheduler_Termination.thy ===== *)
theory Scheduler_Termination
  imports Scheduler_Reachable
begin

text \<open>
  The loops of the scheduler end.  Only they carry fuel, so a call that would not return is one that
  gives \<open>Diverges\<close>; everything they call into (the KV cache manager, the encoder cache, the queues) is
  a terminating function that returns or raises.  With the measures of \<open>Scheduler_Queues\<close> the fuel of
  both loops of a step is never used up.
\<close>

named_theorems returns \<open>calls that return or raise\<close>

definition ends :: "'a result \<Rightarrow> bool" where
  "ends m \<longleftrightarrow> m \<noteq> Inl Diverges"

section \<open>Building blocks\<close>

lemma ends_Inr [returns]: "ends (Inr x)"
  by (simp add: ends_def)

lemma ends_Inl [returns]: "e \<noteq> Diverges \<Longrightarrow> ends (Inl e)"
  by (simp add: ends_def)

lemma raised [returns]:
  "AssertionError \<noteq> Diverges" "ValueError \<noteq> Diverges" "RuntimeError \<noteq> Diverges" "IndexError \<noteq> Diverges" "KeyError \<noteq> Diverges"
  "TypeError \<noteq> Diverges" "OverflowError \<noteq> Diverges" "NotImplementedError \<noteq> Diverges" "ZeroDivisionError \<noteq> Diverges"
  "StopIteration \<noteq> Diverges"
  by simp_all

lemma ends_rbind [returns]: "ends m \<Longrightarrow> (\<And>x. m = Inr x \<Longrightarrow> ends (f x)) \<Longrightarrow> ends (rbind m f)"
  by (cases m) (simp_all add: ends_def)

lemma ends_rassert [returns]: "ends (rassert b)"
  by (simp add: ends_def rassert_def)

lemma ends_lookup [returns]: "ends (od_lookup d k)"
  by (simp add: ends_def od_lookup_def split: option.split)

lemma ends_py_get [returns]: "ends (py_get xs i)"
  by (simp add: ends_def py_get_def)

lemma ends_if [returns]: "(b \<Longrightarrow> ends x) \<Longrightarrow> (\<not> b \<Longrightarrow> ends y) \<Longrightarrow> ends (if b then x else y)"
  by simp

lemma ends_prod [returns]: "(\<And>a b. p = (a, b) \<Longrightarrow> ends (f a b)) \<Longrightarrow> ends (case p of (a, b) \<Rightarrow> f a b)"
  by (cases p) simp

lemma ends_option [returns]: "(p = None \<Longrightarrow> ends x) \<Longrightarrow> (\<And>a. p = Some a \<Longrightarrow> ends (f a)) \<Longrightarrow> ends (case p of None \<Rightarrow> x | Some a \<Rightarrow> f a)"
  by (cases p) simp_all

lemma ends_list [returns]: "(p = [] \<Longrightarrow> ends x) \<Longrightarrow> (\<And>a as. p = a # as \<Longrightarrow> ends (f a as)) \<Longrightarrow> ends (case p of [] \<Rightarrow> x | a # as \<Rightarrow> f a as)"
  by (cases p) simp_all

lemma ends_rfold [returns]: "(\<And>x s. ends (f x s)) \<Longrightarrow> ends (rfold f xs s)"
  by (induction xs arbitrary: s) (simp_all add: ends_Inr ends_rbind)

lemma ends_rmap [returns]: "(\<And>x. ends (f x)) \<Longrightarrow> ends (rmap f xs)"
  by (induction xs) (simp_all add: ends_Inr ends_rbind)

section \<open>Blocks\<close>

lemma ends_set_block_hash [returns]: "ends (set_block_hash n h q)"
  unfolding set_block_hash_def by (intro returns)

lemma ends_popleft_n_loop [returns]: "ends (popleft_n_loop k c q)"
proof (induction k c q rule: popleft_n_loop.induct)
  case (2 k c q)
  show ?case by (simp only: popleft_n_loop.simps) (intro returns 2; simp)
qed (simp add: returns)

lemma ends_popleft_n [returns]: "ends (popleft_n n q)"
  unfolding popleft_n_def Let_def by (intro returns)

lemma ends_remove [returns]: "ends (Free_Queue.remove b q)"
  by (auto simp: remove_def Let_def ends_def split: option.split)

lemma ends_append_n [returns]: "ends (append_n bs q)"
  unfolding append_n_def Let_def by (intro returns)

lemma ends_get_one_block [returns]: "ends (get_one_block h m)"
  unfolding get_one_block_def by (auto simp: ends_def split: option.split kv_cache_blocks.split list.split)

lemma ends_blk_idx [returns]: "ends (blk_idx b)"
  by (cases b) (simp_all add: blk_idx_def ends_def)

lemma ends_int_to_bytes4 [returns]: "ends (int_to_bytes4 g)"
  unfolding int_to_bytes4_def Let_def by (intro returns)

lemma ends_make_block_hash_with_group_id [returns]: "ends (make_block_hash_with_group_id h g)"
  unfolding make_block_hash_with_group_id_def Let_def by (intro returns)

lemma ends_get_value_at [returns]: "ends (get_value_at hs k i)"
  unfolding get_value_at_def Let_def by (intro returns)

lemma ends_block_hash_list_with_block_size [returns]: "ends (block_hash_list_with_block_size hs a b)"
  unfolding block_hash_list_with_block_size_def Let_def by (intro returns)

lemma ends_bhl_from [returns]: "ends (bhl_from hs n)"
  by (cases hs) (auto simp: ends_def intro!: returns [unfolded ends_def])

lemma ends_bhl_get [returns]: "ends (bhl_get hs n)"
  by (cases hs) (simp_all add: returns)

lemma ends_get_cached_block [returns]: "ends (get_cached_block p h gs)"
  by (induction gs) (simp_all add: returns)

lemma ends_cache_one_block [returns]: "ends (cache_one_block g p b)"
  unfolding cache_one_block_def Let_def by (intro returns)

lemma ends_cache_step [returns]: "ends (cache_step g p b)"
  unfolding cache_step_def Let_def by (intro returns)

lemma ends_cache_full_blocks [returns]: "ends (cache_full_blocks r bs a b c d p)"
  unfolding cache_full_blocks_def Let_def by (intro returns)

lemma ends_alloc_one [returns]: "ends (alloc_one n p)"
  unfolding alloc_one_def Let_def by (intro returns)

lemma ends_get_new_blocks [returns]: "ends (get_new_blocks n p)"
  unfolding get_new_blocks_def Let_def by (intro returns)

lemma ends_touch_one [returns]: "ends (touch_one n p)"
  unfolding touch_one_def Let_def by (intro returns)

lemma ends_touch [returns]: "ends (touch bs p)"
  unfolding touch_def Let_def by (intro returns)

lemma ends_free_blocks [returns]: "ends (free_blocks bs p)"
  unfolding free_blocks_def Let_def by (intro returns)

section \<open>Managers\<close>

lemma ends_rcdiv [returns]: "ends (rcdiv a b)"
  unfolding rcdiv_def Let_def by (intro returns)

lemma ends_base_num_blocks_to_allocate [returns]: "ends (base_num_blocks_to_allocate p rid n bs m)"
  unfolding base_num_blocks_to_allocate_def Let_def by (intro returns)

lemma ends_get_num_blocks_to_allocate [returns]: "ends (Single_Type.get_num_blocks_to_allocate p rid n bs m)"
  unfolding Single_Type.get_num_blocks_to_allocate_def Let_def by (intro returns)

lemma ends_base_save_new_computed_blocks [returns]: "ends (base_save_new_computed_blocks rid bs m)"
  unfolding base_save_new_computed_blocks_def Let_def by (intro returns)

lemma ends_save_new_computed_blocks [returns]: "ends (Single_Type.save_new_computed_blocks rid bs m)"
  unfolding Single_Type.save_new_computed_blocks_def Let_def by (intro returns)

lemma ends_base_allocate_new_blocks [returns]: "ends (base_allocate_new_blocks rid n m p)"
  unfolding base_allocate_new_blocks_def Let_def by (intro returns)

lemma ends_allocate_new_blocks [returns]: "ends (Single_Type.allocate_new_blocks rid n m p)"
  unfolding Single_Type.allocate_new_blocks_def Let_def by (intro returns)

lemma ends_base_cache_blocks [returns]: "ends (base_cache_blocks r n m p)"
  unfolding base_cache_blocks_def Let_def by (intro returns)

lemma ends_cache_blocks [returns]: "ends (Single_Type.cache_blocks r n m p)"
  unfolding Single_Type.cache_blocks_def Let_def by (intro returns)

lemma ends_st_free [returns]: "ends (st_free rid m p)"
  unfolding st_free_def Let_def by (intro returns)

lemma ends_get_num_skipped_tokens [returns]: "ends (get_num_skipped_tokens m n)"
  by (simp add: get_num_skipped_tokens_def ends_def split: layer_spec.split)

lemma ends_remove_skipped_loop [returns]: "ends (remove_skipped_loop null n bs rs)"
proof (induction n arbitrary: bs rs)
  case (Suc n)
  show ?case unfolding remove_skipped_loop.simps by (intro returns Suc)
qed (simp add: returns)

lemma ends_remove_skipped_blocks [returns]: "ends (Single_Type.remove_skipped_blocks rid n m p)"
  unfolding Single_Type.remove_skipped_blocks_def Let_def by (intro returns)

lemma ends_pop_all [returns]: "ends (pop_all cbs)"
  unfolding pop_all_def Let_def by (intro returns)

lemma ends_misaligned [returns]: "ends (misaligned a b n)"
  unfolding misaligned_def Let_def by (intro returns)

lemma ends_first_len [returns]: "ends (first_len cbs)"
  unfolding first_len_def Let_def by (intro returns)

lemma ends_trim_loop [returns]: "ends (trim_loop a b n cbs)"
proof (induction n arbitrary: cbs)
  case (Suc n)
  show ?case unfolding trim_loop.simps by (intro returns Suc)
qed (simp add: returns)

lemma ends_pop_until_aligned [returns]: "ends (pop_until_aligned a b cbs)"
  unfolding pop_until_aligned_def Let_def by (intro returns)

lemma ends_full_scan [returns]: "ends (full_scan p gs hs cbs)"
proof (induction hs arbitrary: cbs)
  case (Cons h hs)
  show ?case unfolding full_scan.simps by (intro returns Cons)
qed (simp add: returns)

lemma ends_sw_scan [returns]: "ends (sw_scan p gs hs bs al need n c cbs)"
proof (induction n arbitrary: c cbs)
  case (Suc n)
  show ?case unfolding sw_scan.simps Let_def by (intro returns Suc)
qed (simp add: returns)

lemma ends_chunk_scan [returns]: "ends (chunk_scan p gs hs is cbs)"
proof (induction "is" arbitrary: cbs)
  case (Cons i js)
  show ?case unfolding chunk_scan.simps by (intro returns Cons)
qed (simp add: returns)

lemma ends_mamba_scan [returns]: "ends (mamba_scan p gs hs bs al n)"
proof (induction n)
  case (Suc n)
  show ?case unfolding mamba_scan.simps by (intro returns Suc)
qed (simp add: returns)

lemma ends_full_find_longest_cache_hit [returns]: "ends (full_find_longest_cache_hit p s hs n gs e a d c)"
  unfolding full_find_longest_cache_hit_def Let_def by (intro returns)

lemma ends_sw_find_longest_cache_hit [returns]: "ends (sw_find_longest_cache_hit p s hs n gs e a d c)"
  by (cases s) (simp_all only: sw_find_longest_cache_hit_def layer_spec.case Let_def, (intro returns)+)

lemma ends_chunk_find_longest_cache_hit [returns]: "ends (chunk_find_longest_cache_hit p s hs n gs e a d c)"
  by (cases s) (simp_all only: chunk_find_longest_cache_hit_def layer_spec.case Let_def, (intro returns)+)

lemma ends_mamba_find_longest_cache_hit [returns]: "ends (mamba_find_longest_cache_hit p s hs n gs e a d c)"
  by (cases s) (simp_all only: mamba_find_longest_cache_hit_def layer_spec.case Let_def, (intro returns)+)

lemma ends_find_longest_cache_hit [returns]: "ends (find_longest_cache_hit cls p s hs n gs e a d c)"
  by (cases cls) (simp_all only: find_longest_cache_hit_def layer_spec.case, (intro returns)+)

section \<open>Coordinators and the KV cache manager\<close>

lemma ends_num_blocks_loop [returns]: "ends (num_blocks_loop p rid n bs e i ms)"
proof (induction ms arbitrary: i)
  case (Cons m ms)
  show ?case unfolding num_blocks_loop.simps by (intro returns Cons)
qed (simp add: returns)

lemma ends_save_loop [returns]: "ends (save_loop rid bs i ms)"
proof (induction ms arbitrary: i)
  case (Cons m ms)
  show ?case unfolding save_loop.simps by (intro returns Cons)
qed (simp add: returns)

lemma ends_allocate_loop [returns]: "ends (allocate_loop rid n e ms p)"
proof (induction ms arbitrary: p)
  case (Cons m ms)
  show ?case unfolding allocate_loop.simps by (intro returns Cons)
qed (simp add: returns)

lemma ends_managers_loop [returns]: "(\<And>m p. ends (f m p)) \<Longrightarrow> ends (managers_loop f ms p)"
proof (induction ms arbitrary: p)
  case (Cons m ms)
  show ?case unfolding managers_loop.simps by (intro returns Cons)
qed (simp add: returns)

lemma ends_coord_num_blocks_to_allocate [returns]: "ends (coord_num_blocks_to_allocate rid n bs e c)"
  unfolding coord_num_blocks_to_allocate_def Let_def by (intro returns)

lemma ends_coord_save_new_computed_blocks [returns]: "ends (coord_save_new_computed_blocks rid bs c)"
  unfolding coord_save_new_computed_blocks_def Let_def by (intro returns)

lemma ends_coord_allocate_new_blocks [returns]: "ends (coord_allocate_new_blocks rid n e c)"
  unfolding coord_allocate_new_blocks_def Let_def by (intro returns)

lemma ends_coord_cache_blocks [returns]: "ends (coord_cache_blocks r n c)"
  unfolding coord_cache_blocks_def over_managers_def Let_def by (intro returns)

lemma ends_coord_free [returns]: "ends (coord_free rid c)"
  unfolding coord_free_def over_managers_def Let_def by (intro returns)

lemma ends_coord_remove_skipped_blocks [returns]: "ends (coord_remove_skipped_blocks rid n c)"
  unfolding coord_remove_skipped_blocks_def over_managers_def Let_def by (intro returns)

lemma ends_hashes_for [returns]: "ends (hashes_for hs a b)"
  unfolding hashes_for_def Let_def by (intro returns)

lemma ends_hybrid_find_longest_cache_hit [returns]: "ends (hybrid_find_longest_cache_hit p e h hs n)"
  unfolding hybrid_find_longest_cache_hit_def Let_def by (intro returns)

lemma ends_coord_find_longest_cache_hit [returns]: "ends (coord_find_longest_cache_hit hs n c)"
  by (cases "coord_kind c") (simp_all only: coord_find_longest_cache_hit_def coord_kind.case, (intro returns)+)

lemma ends_get_computed_blocks [returns]: "ends (get_computed_blocks r k)"
  unfolding get_computed_blocks_def Let_def by (intro returns)

lemma ends_commit_slots [returns]: "ends (commit_slots r b n e t d k)"
  unfolding commit_slots_def Let_def by (intro returns)

lemma ends_allocate_slots [returns]: "ends (allocate_slots r n c b l d e k)"
  unfolding allocate_slots_def Let_def by (intro returns)

lemma ends_km_free [returns]: "ends (km_free r k)"
  unfolding km_free_def Let_def by (intro returns)

lemma ends_km_cache_blocks [returns]: "ends (km_cache_blocks r n k)"
  unfolding km_cache_blocks_def Let_def by (intro returns)

section \<open>Encoder caches\<close>

lemma ends_get_num_embeds [returns]: "ends (get_num_embeds p)"
  unfolding get_num_embeds_def Let_def by (intro returns)

lemma ends_get_embeds_indices_in_range [returns]: "ends (get_embeds_indices_in_range p a b)"
  unfolding get_embeds_indices_in_range_def Let_def by (intro returns)

lemma ends_get_num_encoder_embeds [returns]: "ends (get_num_encoder_embeds r i)"
  unfolding get_num_encoder_embeds_def Let_def by (intro returns)

lemma ends_mm_hash_of [returns]: "ends (mm_hash_of r i)"
  unfolding mm_hash_of_def Let_def by (intro returns)

lemma ends_check_and_update_cache [returns]: "ends (check_and_update_cache r i e)"
  unfolding check_and_update_cache_def Let_def by (intro returns)

lemma ends_evict_until [returns]: "ends (evict_until n e)"
proof (induction n e rule: evict_until.induct)
  case (1 n e)
  show ?case by (subst evict_until.simps, intro returns) (rule 1; simp)
qed

lemma ends_can_allocate [returns]: "ends (can_allocate r i b n e)"
  unfolding can_allocate_def Let_def by (intro returns)

lemma ends_ec_allocate [returns]: "ends (ec_allocate r i e)"
  unfolding ec_allocate_def Let_def by (intro returns)

lemma ends_free_encoder_input [returns]: "ends (free_encoder_input r i e)"
  unfolding free_encoder_input_def Let_def by (intro returns)

lemma ends_ec_free [returns]: "ends (ec_free r e)"
  unfolding ec_free_def Let_def by (intro returns)

lemma ends_ed_can_allocate [returns]: "ends (ed_can_allocate r i b n e)"
  unfolding ed_can_allocate_def Let_def by (intro returns)

lemma ends_ed_allocate [returns]: "ends (ed_allocate r i e)"
  unfolding ed_allocate_def Let_def by (intro returns)

lemma ends_ed_free_encoder_input [returns]: "ends (ed_free_encoder_input r i e)"
  unfolding ed_free_encoder_input_def Let_def by (intro returns)

lemma ends_ed_free [returns]: "ends (ed_free r e)"
  unfolding ed_free_def Let_def by (intro returns)

lemma ends_manager [returns]: "(\<And>e. ends (f e)) \<Longrightarrow> (\<And>e. ends (g e)) \<Longrightarrow> ends (case em of EncCache e \<Rightarrow> f e | EncDecCache e \<Rightarrow> g e)"
  by (cases em) simp_all

lemma ends_em_check_and_update_cache [returns]: "ends (em_check_and_update_cache r i em)"
  unfolding em_check_and_update_cache_def Let_def by (intro returns)

lemma ends_em_can_allocate [returns]: "ends (em_can_allocate r i b n em)"
  unfolding em_can_allocate_def Let_def by (intro returns)

lemma ends_em_allocate [returns]: "ends (em_allocate r i em)"
  unfolding em_allocate_def Let_def by (intro returns)

lemma ends_em_free_encoder_input [returns]: "ends (em_free_encoder_input r i em)"
  unfolding em_free_encoder_input_def Let_def by (intro returns)

lemma ends_em_free [returns]: "ends (em_free r em)"
  unfolding em_free_def Let_def by (intro returns)

section \<open>The parts of a step\<close>

lemma ends_enc_inputs_loop [returns]: "ends (enc_inputs_loop cfg r c sh i fs e)"
proof (induction fs arbitrary: i e)
  case (Cons f fs)
  show ?case unfolding enc_inputs_loop.simps Let_def by (intro returns Cons)
qed (simp add: returns)

lemma ends_try_schedule_encoder_inputs [returns]: "ends (try_schedule_encoder_inputs cfg r c n b sh em)"
  unfolding try_schedule_encoder_inputs_def Let_def by (intro returns)

lemma ends_encoder_step [returns]: "ends (encoder_step rid c n b s)"
  unfolding encoder_step_def Let_def by (intro returns)

lemma ends_preempt_request [returns]: "ends (preempt_request rid s)"
  unfolding preempt_request_def Let_def by (intro returns)

lemma ends_unschedule [returns]: "ends (unschedule rid t)"
  unfolding unschedule_def Let_def by (intro returns)

lemma ends_policy [returns]: "ends x \<Longrightarrow> ends y \<Longrightarrow> ends (case p of FCFS \<Rightarrow> x | PRIORITY \<Rightarrow> y)"
  by (cases p) simp_all

lemma ends_preempt_one [returns]: "ends (preempt_one i t)"
  unfolding preempt_one_def Let_def by (intro returns)

lemma ends_schedule_encoder_inputs [returns]: "ends (schedule_encoder_inputs rid e t)"
  unfolding schedule_encoder_inputs_def Let_def by (intro returns)

lemma ends_schedule_one_running [returns]: "ends (schedule_one_running rid n b e t)"
  unfolding schedule_one_running_def Let_def by (intro returns)

lemma ends_running_loras [returns]: "ends (running_loras t)"
  unfolding running_loras_def Let_def by (intro returns)

lemma ends_pop_request [returns]: "ends (pop_request lt q)"
  by (cases q) (auto simp: pop_request_def fcfs_pop_request_def prio_pop_request_def heappop_def Let_def ends_def split: list.split)

lemma ends_peek_request [returns]: "ends (peek_request q)"
  by (cases q) (auto simp: peek_request_def fcfs_peek_request_def prio_peek_request_def ends_def split: list.split)

lemma ends_admit_request [returns]: "ends (admit_request rid n c e t)"
  unfolding admit_request_def Let_def by (intro returns)

lemma ends_try_admit [returns]: "ends (try_admit rid t)"
  unfolding try_admit_def Let_def by (intro returns)

lemma ends_make_new_request_data [returns]: "ends (make_new_request_data t rid)"
  unfolding make_new_request_data_def Let_def by (intro returns)

lemma ends_add_cached_request [returns]: "ends (add_cached_request t b rid d)"
  unfolding add_cached_request_def Let_def by (intro returns)

lemma ends_make_cached_request_data [returns]: "ends (make_cached_request_data t a b)"
  unfolding make_cached_request_data_def Let_def by (intro returns)

lemma ends_free_input_if_done [returns]: "ends (free_input_if_done cfg r i em)"
  unfolding free_input_if_done_def Let_def by (intro returns)

lemma ends_free_encoder_inputs [returns]: "ends (free_encoder_inputs rid s)"
  unfolding free_encoder_inputs_def Let_def by (intro returns)

lemma ends_advance_request [returns]: "ends (advance_request p s)"
  unfolding advance_request_def Let_def by (intro returns)

lemma ends_update_after_schedule [returns]: "ends (update_after_schedule out s)"
  unfolding update_after_schedule_def Let_def by (intro returns)

lemma ends_finish_schedule [returns]: "ends (finish_schedule t)"
  unfolding finish_schedule_def Let_def by (intro returns)

section \<open>The loops\<close>

text \<open>Every failed allocation preempts a running request, at last the request itself.\<close>

lemma allocate_loop_ends:
  assumes "trying P rid idx t" and "length (running (st_sched t)) \<le> fuel"
  shows "ends (allocate_loop_running fuel rid n idx t)"
  using assms
proof (induction fuel arbitrary: idx t)
  case 0
  then show ?case by (simp add: trying_def)
next
  case (Suc fuel)
  have again: "ends (allocate_loop_running fuel rid n i u)"
    if "preempt_one idx (t\<lparr>st_sched := set_kv k (st_sched t)\<rparr>) = Inr (v, i, u)" "v \<noteq> rid" for k v i u
    using preempt_one_inv [OF trying_kv [OF Suc.prems(1)] that(1)] that(2) Suc.IH [of i u] Suc.prems(2) by simp
  show ?case
    unfolding allocate_loop_running.simps Let_def by (intro returns) (rule again; simp)
qed

text \<open>Every turn of the first loop moves its index closer to the end of the running list.\<close>

lemma schedule_running_ends:
  assumes "run_inv P idx t" and "int (length (running (st_sched t))) - idx \<le> int fuel"
  shows "ends (schedule_running fuel idx t)"
  using assms
proof (induction fuel arbitrary: idx t)
  case 0
  then show ?case by (simp add: ends_def)
next
  case (Suc fuel)
  let ?s = "st_sched t"
  let ?rid = "running ?s ! nat idx" and ?r = "req ?s (running ?s ! nat idx)"
  show ?case
  proof (cases "idx < int (length (running ?s)) \<and> 0 < token_budget t")
    case False
    then show ?thesis by (simp add: ends_def Let_def)
  next
    case guard: True
    have step: "run_inv P (idx + 1) t \<Longrightarrow> ends (schedule_running fuel (idx + 1) t)" using Suc.prems(2) by (intro Suc.IH) simp_all
    show ?thesis
    proof (cases "surely_done ?r")
      case True
      have "set (take (nat idx) (running ?s)) \<subseteq> set (take (nat (idx + 1)) (running ?s))" by (rule set_take_subset_set_take) simp
      with Suc.prems(1) have "run_inv P (idx + 1) t" by (auto simp: run_inv_def)
      with step guard True show ?thesis by (simp add: Let_def)
    next
      case busy: False
      let ?enc = "encoder_step ?rid (num_computed_tokens ?r) (running_num_new_tokens (conf ?s) ?r (token_budget t)) (encoder_compute_budget t) ?s"
      have turn: "ends (if es_num_new_tokens e = 0 then schedule_running fuel (idx + 1) (t\<lparr>st_sched := ?s\<lparr>encoder_cache_manager := es_manager e\<rparr>\<rparr>)
          else rbind (allocate_loop_running (length (running ?s)) ?rid (es_num_new_tokens e) idx (t\<lparr>st_sched := ?s\<lparr>encoder_cache_manager := es_manager e\<rparr>\<rparr>))
            (\<lambda>(new_blocks, idx, t2). case new_blocks of None \<Rightarrow> Inr t2
              | Some b \<Rightarrow> rbind (schedule_one_running ?rid (es_num_new_tokens e) b e t2) (\<lambda>t3. schedule_running fuel (idx + 1) t3)))"
        if e: "?enc = Inr e" for e
      proof -
        define t1 where "t1 = t\<lparr>st_sched := ?s\<lparr>encoder_cache_manager := es_manager e\<rparr>\<rparr>"
        note turn = run_turn [OF Suc.prems(1) conjunct1 [OF guard] conjunct2 [OF guard] e, folded t1_def]
        have run1: "length (running (st_sched t1)) = length (running ?s)" by (simp add: t1_def)
        have go: "ends (schedule_running fuel (i + 1) t3)"
          if a: "allocate_loop_running (length (running ?s)) ?rid (es_num_new_tokens e) idx t1 = Inr (Some b, i, t2)"
            and o: "schedule_one_running ?rid (es_num_new_tokens e) b e t2 = Inr t3" and n: "es_num_new_tokens e \<noteq> 0" for b i t2 t3
        proof -
          from preempt_loop_inv [OF conjunct1 [OF turn] a] have d: "loop_done P ?rid idx t1 (Some b) i t2" .
          then have ty: "trying P ?rid i t2" by (simp add: loop_done_def)
          have "P \<Longrightarrow> 0 < es_num_new_tokens e \<and> es_num_new_tokens e \<le> token_budget t2"
            using turn n allocate_loop_budget [OF conjunct1 [OF turn] a] by simp
          from schedule_one_running_inv [OF ty o this] d Suc.prems(2) show ?thesis
            by (intro Suc.IH) (simp_all add: loop_done_def run1)
        qed
        have first: "ends (schedule_running fuel (idx + 1) t1)" using turn Suc.prems(2) by (intro Suc.IH) (simp_all add: run1)
        have inner: "ends (allocate_loop_running (length (running ?s)) ?rid (es_num_new_tokens e) idx t1)"
          using turn by (intro allocate_loop_ends) (auto simp: run1)
        show ?thesis unfolding t1_def [symmetric] by (intro returns first inner) (rule go; simp)
      qed
      show ?thesis
        unfolding schedule_running.simps Let_def if_not_P [OF busy] using guard by (auto intro!: ends_rbind returns turn)
    qed
  qed
qed

text \<open>Every turn of the second loop takes a request out of the waiting queue.\<close>

lemma schedule_waiting_ends:
  assumes "step_inv P (queue_items sk) t" and "queue_len (waiting (st_sched t)) \<le> fuel"
  shows "ends (schedule_waiting fuel loras sk t)"
  using assms
proof (induction fuel arbitrary: loras sk t)
  case 0
  then show ?case by (simp add: ends_def queue_bool_def queue_len_def)
next
  case (Suc fuel)
  let ?s = "st_sched t"
  show ?case
  proof (cases "\<not> (queue_bool (waiting ?s) \<and> 0 < token_budget t) \<or> length (running ?s) = max_num_running_reqs (conf ?s)")
    case True
    then show ?thesis by (auto simp: Let_def ends_def)
  next
    case False
    then have qb: "queue_bool (waiting ?s)" by simp
    have q: "qok (queue_items sk) {} ?s" using Suc.prems(1) by (simp add: step_inv_def)
    have "ends (schedule_waiting (Suc fuel) loras sk t)" if peek: "peek_request (waiting ?s) = Inr rid" for rid
    proof -
      have rid: "rid \<in> set (queue_items (waiting ?s))"
        using pop_request_mset [OF qb, of "rlt ?s"] peek by (metis Inr_inject set_mset_mset union_single_eq_member)
      define s1 where "s1 = (if status (req ?s rid) = WAITING_FOR_FSM then upd_req rid (\<lambda>r. r\<lparr>status := WAITING\<rparr>) ?s else ?s)"
      have s1: "conf s1 = conf ?s" "running s1 = running ?s" "waiting s1 = waiting ?s" by (simp_all add: s1_def)
      have q1: "qok (queue_items sk) {} s1" using q qok_wait_status [OF q rid] by (simp add: s1_def waiting_status_def)
      have "rid \<notin> set (running ?s)" using q rid by (auto simp: qok_def)
      then have same: "x \<in> set (running ?s) \<Longrightarrow> req s1 x = req ?s x" for x by (auto simp: s1_def req_def map_of_upd_req)
      have skip: "ends (rbind (pop_request (rlt s2) (waiting s2)) (\<lambda>(_, w).
                     schedule_waiting fuel loras (prepend_request (rlt s2) rid sk) (t\<lparr>st_sched := s2\<lparr>waiting := w\<rparr>\<rparr>)))"
        if "s2 = ?s \<or> s2 = s1" for s2
      proof -
        have s2: "conf s2 = conf ?s" "running s2 = running ?s" "waiting s2 = waiting ?s" "qok (queue_items sk) {} s2"
          "\<And>x. x \<in> set (running ?s) \<Longrightarrow> req s2 x = req ?s x" using that s1 q q1 same by auto
        from pop_request_mset [of "waiting s2" "rlt s2"] qb peek s2(3) obtain w where w: "pop_request (rlt s2) (waiting s2) = Inr (rid, w)"
          "mset (queue_items (waiting s2)) = add_mset rid (mset (queue_items w))" by auto
        from qok_skip [OF s2(4) w(2), of "queue_items (prepend_request (rlt s2) rid sk)"]
        have i: "step_inv P (queue_items (prepend_request (rlt s2) rid sk)) (t\<lparr>st_sched := s2\<lparr>waiting := w\<rparr>\<rparr>)"
          using s2 by (intro step_inv_sched [OF Suc.prems(1)]) (simp_all add: queue_mset req_def)
        have "Suc (queue_len w) = queue_len (waiting ?s)" using arg_cong [OF w(2), of size] s2(3) by (simp add: queue_len_def)
        with Suc.IH [OF i] Suc.prems(2) w(1) show ?thesis by simp
      qed
      have t1: "step_inv P (queue_items sk) (t\<lparr>st_sched := s1\<rparr>)" using step_inv_sched [OF Suc.prems(1) q1] s1 same by simp
      have go: "ends (schedule_waiting fuel loras' sk t2)" if "try_admit rid (t\<lparr>st_sched := s1\<rparr>) = Inr (True, t2)" for t2 loras'
        using try_admit_inv [OF t1 _ _ that] qb peek s1 Suc.prems(2) by (intro Suc.IH) simp_all
      have admit: "ends (rbind (try_admit rid (t\<lparr>st_sched := s1\<rparr>)) (\<lambda>(b, t2). if \<not> b then Inr (sk, t2) else schedule_waiting fuel loras' sk t2))" for loras'
        by (intro returns) (rule go, simp)
      show ?thesis
        using False peek skip [of ?s] skip [of s1] admit
        by (simp add: Let_def returns flip: s1_def)
    qed
    moreover obtain rid where "peek_request (waiting ?s) = Inr rid" using pop_request_mset [OF qb] by blast
    ultimately show ?thesis by blast
  qed
qed

text \<open>A step of the scheduler returns or raises.\<close>

lemma schedule_ends:
  assumes q: "qok [] {} s"
  shows "ends (schedule s)"
proof -
  have "run_inv False 0 (sched_step_init s)" using sched_step_init_inv [OF q] by simp
  then have running: "ends (schedule_running (length (running s)) 0 (sched_step_init s))"
    by (intro schedule_running_ends) (simp_all add: sched_step_init_def)
  have waiting: "ends (schedule_waiting (queue_len (waiting (st_sched t))) loras (create_request_queue p) t)"
    if "schedule_running (length (running s)) 0 (sched_step_init s) = Inr t" for t loras p
    using schedule_running_inv [OF \<open>run_inv False 0 _\<close> that] by (intro schedule_waiting_ends [where P = False]) simp_all
  show ?thesis unfolding schedule_def schedule_steps_def Let_def by (intro returns running) (rule waiting, assumption)
qed

end
