(* ===== verification/Scheduler_Output.thy ===== *)
theory Scheduler_Output
  imports Scheduler_Termination
begin

text \<open>
  What a step hands to the workers and what an update gives back: the records of
  \<^verbatim>\<open>SchedulerOutput\<close> are well formed, and the tokens of a request are those up to the first that stops it.
\<close>

section \<open>The output of a step\<close>

lemma add_cached_parts:
  assumes "add_cached_request t b rid d = Inr d'"
  shows "cr_req_ids d' = cr_req_ids d @ [rid] \<and> length (cr_new_block_ids d') = Suc (length (cr_new_block_ids d)) \<and>
    length (cr_num_computed_tokens d') = Suc (length (cr_num_computed_tokens d)) \<and> length (cr_num_output_tokens d') = Suc (length (cr_num_output_tokens d)) \<and>
    length (cr_new_token_ids d') = length (cr_new_token_ids d) + (if use_pp (conf (st_sched t)) then 1 else 0) \<and>
    set (cr_resumed_req_ids d') = set (cr_resumed_req_ids d) \<union> (if b then {rid} else {})"
  using assms by (auto simp: add_cached_request_def Let_def result_simps split: if_split_asm)

text \<open>The lists of \<^verbatim>\<open>CachedRequestData\<close> are parallel.\<close>

definition parallel :: "bool \<Rightarrow> cached_request_data \<Rightarrow> bool" where
  "parallel pp d \<longleftrightarrow> length (cr_new_block_ids d) = length (cr_req_ids d) \<and> length (cr_num_computed_tokens d) = length (cr_req_ids d) \<and>
     length (cr_num_output_tokens d) = length (cr_req_ids d) \<and> length (cr_new_token_ids d) = (if pp then length (cr_req_ids d) else 0) \<and>
     set (cr_resumed_req_ids d) \<subseteq> set (cr_req_ids d)"

lemma add_cached_fold:
  assumes "rfold (add_cached_request t b) rids d = Inr d'" and "parallel (use_pp (conf (st_sched t))) d"
  shows "parallel (use_pp (conf (st_sched t))) d' \<and> cr_req_ids d' = cr_req_ids d @ rids \<and>
    set (cr_resumed_req_ids d') = set (cr_resumed_req_ids d) \<union> (if b then set rids else {})"
  using assms
proof (induction rids arbitrary: d)
  case (Cons rid rids)
  from Cons.prems(1) obtain d1 where d1: "add_cached_request t b rid d = Inr d1" and rest: "rfold (add_cached_request t b) rids d1 = Inr d'"
    by (auto simp: result_simps)
  note a = add_cached_parts [OF d1]
  have "parallel (use_pp (conf (st_sched t))) d1" using a Cons.prems(2) by (auto simp: parallel_def)
  from Cons.IH [OF rest this] a show ?case by auto
qed simp

lemma make_cached_parallel:
  assumes "make_cached_request_data t rs ps = Inr d"
  shows "parallel (use_pp (conf (st_sched t))) d \<and> cr_req_ids d = rs @ ps \<and> set (cr_resumed_req_ids d) = set ps"
proof -
  let ?d0 = "\<lparr>cr_req_ids = [], cr_resumed_req_ids = [], cr_new_token_ids = [], cr_all_token_ids = [], cr_new_block_ids = [],
               cr_num_computed_tokens = [], cr_num_output_tokens = []\<rparr>"
  from assms obtain d1 where d1: "rfold (add_cached_request t False) rs ?d0 = Inr d1" and d: "rfold (add_cached_request t True) ps d1 = Inr d"
    by (auto simp: make_cached_request_data_def result_simps)
  have "parallel (use_pp (conf (st_sched t))) ?d0" by (simp add: parallel_def)
  from add_cached_fold [OF d1 this] add_cached_fold [OF d] show ?thesis by simp
qed

lemma update_after_schedule_out:
  "update_after_schedule out s = Inr (out', s') \<Longrightarrow> \<exists>b. out' = out\<lparr>so_pending_structured_output_tokens := b\<rparr>"
  by (cases "is_async (conf s)") (auto simp: update_after_schedule_def Let_def result_simps intro: exI [of _ "so_pending_structured_output_tokens out"])

lemma finish_schedule_parts:
  assumes "finish_schedule t = Inr (out, s')"
  obtains k where "rmap (make_new_request_data (t\<lparr>st_sched := set_kv k (st_sched t)\<rparr>))
      (if use_v2_model_runner (conf (st_sched t)) then scheduled_new_reqs t @ scheduled_resumed_reqs t else scheduled_new_reqs t) = Inr (so_new_reqs out)"
    and "make_cached_request_data (t\<lparr>st_sched := set_kv k (st_sched t)\<rparr>) (scheduled_running_reqs t)
      (if use_v2_model_runner (conf (st_sched t)) then [] else scheduled_resumed_reqs t) = Inr (so_cached_reqs out)"
proof -
  let ?s = "st_sched t"
  obtain common k where ck: "(case running ?s of [] \<Rightarrow> (replicate (num_kv_cache_groups (kv_manager ?s)) 0, kv_manager ?s)
      | rid # _ \<Rightarrow> km_num_common_prefix_blocks rid (kv_manager ?s)) = (common, k)" by (metis surj_pair)
  obtain hs em where h: "em_get_freed_mm_hashes (encoder_cache_manager ?s) = (hs, em)" by (metis surj_pair)
  show ?thesis
    using assms [unfolded finish_schedule_def Let_def ck h prod.case]
  proof (elim rbindE)
    fix new_data cached
    let ?s1 = "(set_kv k ?s)\<lparr>encoder_cache_manager := em, prev_step_scheduled_req_ids := set (map fst (num_scheduled_tokens t))\<rparr>"
    assume n: "rmap (make_new_request_data (t\<lparr>st_sched := set_kv k ?s\<rparr>))
        (if use_v2_model_runner (conf ?s) then scheduled_new_reqs t @ scheduled_resumed_reqs t else scheduled_new_reqs t) = Inr new_data"
      and c: "make_cached_request_data (t\<lparr>st_sched := set_kv k ?s\<rparr>) (scheduled_running_reqs t)
        (if use_v2_model_runner (conf ?s) then [] else scheduled_resumed_reqs t) = Inr cached"
      and u: "update_after_schedule
            \<lparr>so_new_reqs = new_data, so_cached_reqs = cached, so_num_scheduled_tokens = num_scheduled_tokens t,
             so_total_num_scheduled_tokens = sum_list (map snd (num_scheduled_tokens t)), so_spec_decode_tokens = scheduled_spec_decode_tokens t,
             so_encoder_inputs = scheduled_encoder_inputs t, so_num_common_prefix_blocks = common,
             so_preempted_req_ids = set (preempted_reqs t), so_finished_req_ids = finished_req_ids ?s1,
             so_free_encoder_mm_hashes = hs, so_pending_structured_output_tokens = False\<rparr> ?s1 = Inr (out, s')"
    from update_after_schedule_out [OF u] have "so_new_reqs out = new_data" "so_cached_reqs out = cached" by auto
    with that n c show ?thesis by simp
  qed
qed

text \<open>
  The output names every scheduled request once, either with its whole data or in the parallel lists of
  the cached ones, and all of them are running.
\<close>

definition output_wf :: "bool \<Rightarrow> scheduler_output \<Rightarrow> string list \<Rightarrow> bool" where
  "output_wf pp out run \<longleftrightarrow>
     distinct (map nr_req_id (so_new_reqs out) @ cr_req_ids (so_cached_reqs out)) \<and>
     set (map nr_req_id (so_new_reqs out) @ cr_req_ids (so_cached_reqs out)) = set (map fst (so_num_scheduled_tokens out)) \<and>
     distinct (map fst (so_num_scheduled_tokens out)) \<and> set (map fst (so_num_scheduled_tokens out)) \<subseteq> set run \<and>
     so_total_num_scheduled_tokens out = sum_list (map snd (so_num_scheduled_tokens out)) \<and> parallel pp (so_cached_reqs out)"

lemma finish_schedule_wf:
  assumes t: "step_inv P [] t" and f: "finish_schedule t = Inr (out, s')"
  shows "output_wf (use_pp (conf (st_sched t))) out (running (st_sched t))"
proof -
  let ?s = "st_sched t" and ?v2 = "use_v2_model_runner (conf (st_sched t))"
  from finish_schedule_parts [OF f] obtain k where n: "rmap (make_new_request_data (t\<lparr>st_sched := set_kv k ?s\<rparr>))
        (if ?v2 then scheduled_new_reqs t @ scheduled_resumed_reqs t else scheduled_new_reqs t) = Inr (so_new_reqs out)"
      and c: "make_cached_request_data (t\<lparr>st_sched := set_kv k ?s\<rparr>) (scheduled_running_reqs t) (if ?v2 then [] else scheduled_resumed_reqs t) = Inr (so_cached_reqs out)" .
  have q: "qok [] {} ?s" and b: "books t" using t by (simp_all add: step_inv_def)
  have id1: "make_new_request_data (t\<lparr>st_sched := set_kv k ?s\<rparr>) rid = Inr d \<Longrightarrow> nr_req_id d = request_id (req ?s rid)" for rid d
    by (auto simp: make_new_request_data_def Let_def result_simps from_request_def req_def)
  have run: "set (scheduled t) \<subseteq> set (running ?s)" using b unfolding books_def by blast
  have id2: "rid \<in> set (scheduled t) \<Longrightarrow> request_id (req ?s rid) = rid" for rid
    using qok_status(1) [OF q, of rid] run by auto
  have "map nr_req_id ds = rids" if "rmap (make_new_request_data (t\<lparr>st_sched := set_kv k ?s\<rparr>)) rids = Inr ds" "set rids \<subseteq> set (scheduled t)" for rids ds
  proof -
    from that(1) have "list_all2 (\<lambda>rid d. make_new_request_data (t\<lparr>st_sched := set_kv k ?s\<rparr>) rid = Inr d) rids ds" by (simp add: result_simps)
    then show ?thesis using that(2) by (induction rule: list_all2_induct) (auto simp: id2 dest!: id1)
  qed
  from this [OF n] have new: "map nr_req_id (so_new_reqs out) = (if ?v2 then scheduled_new_reqs t @ scheduled_resumed_reqs t else scheduled_new_reqs t)"
    by (simp add: le_supI1 le_supI2)
  from make_cached_parallel [OF c] have cached: "parallel (use_pp (conf ?s)) (so_cached_reqs out)"
    "cr_req_ids (so_cached_reqs out) = scheduled_running_reqs t @ (if ?v2 then [] else scheduled_resumed_reqs t)" by simp_all
  from finish_schedule_same [OF f] have nums: "so_num_scheduled_tokens out = num_scheduled_tokens t"
    "so_total_num_scheduled_tokens out = sum_list (map snd (num_scheduled_tokens t))" by simp_all
  have keys: "set (map fst (num_scheduled_tokens t)) = set (scheduled t)" "distinct (map fst (num_scheduled_tokens t))" "distinct (scheduled t)"
    using b by (simp_all add: books_def od_wf_def)
  have "distinct (map nr_req_id (so_new_reqs out) @ cr_req_ids (so_cached_reqs out)) = distinct (scheduled t)"
    "set (map nr_req_id (so_new_reqs out) @ cr_req_ids (so_cached_reqs out)) = set (scheduled t)"
    unfolding new cached by auto
  with keys run cached(1) show ?thesis unfolding output_wf_def nums by simp
qed

section \<open>The tokens of a request\<close>

text \<open>A token stops the request after all earlier ones did not.\<close>

lemma append_until_stop_tokens:
  assumes "append_until_stop hasher n toks r = Inr (ts, st, r')"
  shows "output_token_ids r' = output_token_ids r @ ts \<and> all_token_ids r' = all_token_ids r @ ts \<and>
    (\<exists>rest. toks = ts @ rest \<and> (st \<longrightarrow> ts \<noteq> [] \<and> is_finished r') \<and> (\<not> st \<longrightarrow> rest = [] \<and> status r' = status r)) \<and>
    sampling_params r' = sampling_params r \<and> max_tokens r' = max_tokens r"
  using assms
proof (induction toks arbitrary: r ts)
  case (Cons tok toks)
  from Cons.prems obtain r1 b r2 where a: "append_output_token_ids hasher [tok] r = Inr r1" and c: "check_stop r1 n = Inr (b, r2)"
    and rest: "(if b then Inr ([tok], True, r2) else rbind (append_until_stop hasher n toks r2) (\<lambda>(ts, st, r3). Inr (tok # ts, st, r3))) = Inr (ts, st, r')"
    by (auto simp: result_simps)
  have r1: "output_token_ids r1 = output_token_ids r @ [tok]" "all_token_ids r1 = all_token_ids r @ [tok]" "status r1 = status r"
      "sampling_params r1 = sampling_params r" "max_tokens r1 = max_tokens r"
    using a by (auto simp: append_output_token_ids_def Let_def result_simps split: option.splits)
  have r2: "b \<longrightarrow> is_finished r2" "\<not> b \<longrightarrow> status r2 = status r1"
    using c by (auto simp: check_stop_def result_simps Let_def is_finished_def status_is_finished_iff split: option.splits if_splits)
  show ?case
  proof (cases b)
    case False
    with rest obtain k2 where k2: "append_until_stop hasher n toks r2 = Inr (k2, st, r')" "ts = tok # k2" by (auto simp: result_simps)
    from Cons.IH [OF k2(1)] False r1 r2 check_stop_keeps [OF c] k2(2) show ?thesis by auto
  qed (use rest r1 r2 check_stop_keeps [OF c] in auto)
qed simp

text \<open>
  When a request stops, directly: a token of its own ends it, and the request \<open>r\<close> with the output \<open>ts\<close> appended
  stops if it has its minimum and its last token ends it, or the model's or its own limit is reached.
\<close>

definition stop_token :: "sampling_params_t \<Rightarrow> request \<Rightarrow> int \<Rightarrow> bool" where
  "stop_token sp r t \<longleftrightarrow> \<not> sp_ignore_eos sp \<and> eos_token_id r = Some t \<or> (\<exists>ids. sp_stop_token_ids sp = Some ids \<and> t \<in> set ids)"

definition stops :: "nat \<Rightarrow> sampling_params_t \<Rightarrow> request \<Rightarrow> int list \<Rightarrow> bool" where
  "stops max_len sp r ts \<longleftrightarrow> sp_min_tokens sp \<le> int (length (output_token_ids r @ ts)) \<and>
     (stop_token sp r (last (output_token_ids r @ ts)) \<or> max_len \<le> length (all_token_ids r @ ts) \<or> max_tokens r \<le> int (length (output_token_ids r @ ts)))"

lemma check_stop_stops:
  assumes "check_stop r n = Inr (b, r')" and "sampling_params r = Some sp" and "output_token_ids r \<noteq> []"
  shows "b = stops n sp r [] \<and> (b \<longrightarrow> status r' = (if stop_token sp r (last (output_token_ids r)) then FINISHED_STOPPED else FINISHED_LENGTH_CAPPED))"
  using assms
  by (auto simp: check_stop_def stops_def stop_token_def result_simps Let_def num_output_tokens_def num_tokens_def split: option.splits if_split_asm)

lemma stops_append:
  assumes "output_token_ids r1 = output_token_ids r @ [tok]" "all_token_ids r1 = all_token_ids r @ [tok]" "max_tokens r1 = max_tokens r"
    "eos_token_id r1 = eos_token_id r"
  shows "stops n sp r1 ts = stops n sp r (tok # ts)" "stop_token sp r1 = stop_token sp r"
  using assms by (simp_all add: stops_def stop_token_def fun_eq_iff)

lemma append_until_stop_first:
  assumes "append_until_stop hasher n toks r = Inr (ts, st, r')" and "sampling_params r = Some sp"
  shows "(\<forall>k. 0 < k \<and> k < length ts \<longrightarrow> \<not> stops n sp r (take k ts)) \<and> (st \<longleftrightarrow> ts \<noteq> [] \<and> stops n sp r ts) \<and>
    (st \<longrightarrow> status r' = (if stop_token sp r (last ts) then FINISHED_STOPPED else FINISHED_LENGTH_CAPPED))"
  using assms
proof (induction toks arbitrary: r ts)
  case (Cons tok toks)
  from Cons.prems obtain r1 b r2 where a: "append_output_token_ids hasher [tok] r = Inr r1" and c: "check_stop r1 n = Inr (b, r2)"
    and rest: "(if b then Inr ([tok], True, r2) else rbind (append_until_stop hasher n toks r2) (\<lambda>(ts, st, r3). Inr (tok # ts, st, r3))) = Inr (ts, st, r')"
    by (auto simp: result_simps)
  have r1: "output_token_ids r1 = output_token_ids r @ [tok]" "all_token_ids r1 = all_token_ids r @ [tok]"
      "max_tokens r1 = max_tokens r" "eos_token_id r1 = eos_token_id r" "sampling_params r1 = Some sp"
    using a Cons.prems(2) by (auto simp: append_output_token_ids_def Let_def result_simps split: option.splits)
  note stop = stops_append [OF r1(1-4)] and k = check_stop_keeps [OF c]
  from check_stop_stops [OF c r1(5)] r1(1) have b: "b = stops n sp r [tok]"
    "b \<longrightarrow> status r2 = (if stop_token sp r tok then FINISHED_STOPPED else FINISHED_LENGTH_CAPPED)" by (simp_all add: stop)
  show ?case
  proof (cases b)
    case True
    with rest b show ?thesis by auto
  next
    case False
    with rest obtain k2 where k2: "append_until_stop hasher n toks r2 = Inr (k2, st, r')" "ts = tok # k2" by (auto simp: result_simps)
    have s2: "stops n sp r2 us = stops n sp r (tok # us)" "stop_token sp r2 = stop_token sp r" for us
      using r1(1-4) k by (simp_all add: stops_def stop_token_def fun_eq_iff)
    from Cons.IH [OF k2(1)] k(3) r1(5) have ih: "\<forall>k. 0 < k \<and> k < length k2 \<longrightarrow> \<not> stops n sp r (tok # take k k2)"
      "st \<longleftrightarrow> k2 \<noteq> [] \<and> stops n sp r (tok # k2)" "st \<longrightarrow> status r' = (if stop_token sp r (last k2) then FINISHED_STOPPED else FINISHED_LENGTH_CAPPED)"
      by (simp_all add: s2)
    have "\<not> stops n sp r (take k (tok # k2))" if "0 < k" "k < Suc (length k2)" for k
      using ih(1) that False b(1) by (cases k; cases "k = 1") auto
    with ih(2,3) False b(1) show ?thesis by (auto simp: k2(2))
  qed
qed simp

end
