(* ===== verification/Scheduler_Lifecycle.thy ===== *)
theory Scheduler_Lifecycle
  imports Scheduler_Output
begin

text \<open>
  The life cycle of requests as the engine core sees it. The outputs of an update report a request as
  finished exactly when the scheduler lets go of it; with this every call of the engine core is one step of a labelled
  specification on the sets of running and waiting requests.
\<close>

section \<open>What an update tells the clients\<close>

text \<open>The requests that the outputs so far end, for the clients in \<open>C\<close>, and those that the loop has stopped.\<close>

definition client_outs :: "int \<Rightarrow> update_step \<Rightarrow> engine_core_output list" where
  "client_outs c u = (case map_of (us_outputs u) c of None \<Rightarrow> [] | Some os \<Rightarrow> os)"

definition ended_in :: "int set \<Rightarrow> update_step \<Rightarrow> string set" where
  "ended_in C u = (\<Union>c \<in> C. ended (client_outs c u))"

definition let_go :: "update_step \<Rightarrow> string set" where
  "let_go u = set (us_stopped_running u) \<union> set (us_stopped_preempted u)"

lemma ended_simps [simp]:
  "ended [] = {}" "ended (xs @ [o']) = ended xs \<union> (if eo_finish_reason o' = None then {} else {eo_request_id o'})"
  by (auto simp: ended_def)

text \<open>A request stops with a status that says so and with something to send.\<close>

lemma consume_output_stops:
  assumes run: "consume_output hasher rid toks pooled s = Inr (ts, True, s')" and rid: "map_of (requests s) rid \<noteq> None"
  shows "is_finished (req s' rid) \<and> (ts \<noteq> [] \<or> pooled \<noteq> None)"
proof -
  have put: "is_finished (req (set_kv k (upd_req rid f s)) rid) \<longleftrightarrow> is_finished (f (req s rid))" for k f
    using rid by (auto simp: req_def map_of_upd_req)
  show ?thesis
  proof (cases "toks = []")
    case True
    with run have "pooled \<noteq> None" "s' = upd_req rid (\<lambda>r. r\<lparr>status := FINISHED_STOPPED\<rparr>) s"
      by (auto simp: consume_output_def split: if_split_asm)
    then show ?thesis using rid by (auto simp: req_def map_of_upd_req is_finished_def status_is_finished_iff)
  next
    case False
    with run have "update_request_with_output hasher rid toks s = Inr (ts, True, s')" by (simp add: consume_output_def)
    then obtain r1 where a: "append_until_stop hasher (sc_max_model_len (conf s)) toks (req s rid) = Inr (ts, True, r1)"
      and s': "s' = upd_req rid (\<lambda>_. r1) s \<or>
        (\<exists>k. s' = set_kv k (upd_req rid (\<lambda>_. r1\<lparr>num_output_placeholders := num_output_placeholders r1 - int (length ts)\<rparr>) s))"
      by (auto simp: update_request_with_output_def result_simps Let_def split: if_split_asm)
    from append_until_stop_tokens [OF a] have fin: "ts \<noteq> []" "is_finished r1" by auto
    have "upd_req rid (\<lambda>_. r1) s = set_kv (kv_manager s) (upd_req rid (\<lambda>_. r1) s)" by (simp add: set_kv_def)
    with s' put fin(2) have "is_finished (req s' rid)" by (elim disjE exE) (metis, simp add: put is_finished_def)
    with fin(1) show ?thesis by simp
  qed
qed

lemma reject_drafts_outputs: "reject_drafts out rid g u = Inr u' \<Longrightarrow> us_outputs u' = us_outputs u"
  by (auto simp: reject_drafts_def Let_def result_simps split: option.splits if_split_asm)

lemma emit_output_outs:
  assumes "emit_output rid toks pooled r b u = Inr u'" and "client_index r \<in> C"
  shows "ended_in C u' = ended_in C u \<union> (if (toks \<noteq> [] \<or> pooled \<noteq> None) \<and> get_finished_reason r \<noteq> None then {rid} else {})"
proof (cases "toks \<noteq> [] \<or> pooled \<noteq> None")
  case True
  obtain es r1 where e: "take_events r = (es, r1)" by (cases "take_events r")
  let ?o = "\<lparr>eo_request_id = rid, eo_new_token_ids = toks, eo_finish_reason = get_finished_reason r, eo_stop_reason = stop_reason r,
    eo_pooling_output = pooled, eo_events = es, eo_num_cached_tokens = num_cached_tokens r, eo_num_nans_in_logits = num_nans_in_logits r\<rparr>"
  from assms True e have "us_outputs u' = AList.update (client_index r) (client_outs (client_index r) u @ [?o]) (us_outputs u)"
    by (auto simp: emit_output_def Let_def client_outs_def)
  then have "client_outs c u' = (if c = client_index r then client_outs c u @ [?o] else client_outs c u)" for c by (simp add: client_outs_def update_conv')
  then have "ended (client_outs c u') = ended (client_outs c u) \<union> (if c = client_index r \<and> get_finished_reason r \<noteq> None then {rid} else {})" for c by simp
  then show ?thesis using assms(2) True unfolding ended_in_def by (auto split: if_split_asm)
next
  case False
  with assms(1) show ?thesis by (auto simp: emit_output_def result_simps)
qed

lemma emit_output_stopped:
  assumes "emit_output rid toks pooled r b u = Inr u'"
  shows "let_go u' = let_go u"
proof (cases "toks \<noteq> [] \<or> pooled \<noteq> None")
  case True
  obtain es r1 where "take_events r = (es, r1)" by (cases "take_events r")
  with assms True show ?thesis by (auto simp: emit_output_def Let_def let_go_def)
next
  case False
  with assms show ?thesis by (auto simp: emit_output_def result_simps)
qed

lemma client_among:
  assumes "\<forall>p \<in> set (clients s). snd p \<in> C" and "freed V s s'" and "map_of (requests s') rid \<noteq> None"
  shows "client_index (req s' rid) \<in> C"
proof -
  from assms(3) obtain r where r: "map_of (requests s') rid = Some r" by blast
  then have "(rid, client_index r) \<in> set (clients s')" by (force simp: clients_def dest: map_of_SomeD)
  with assms(1,2) r show ?thesis by (force simp: freed_def req_def)
qed

lemma qok_going: "qok [] {} s \<Longrightarrow> id_status s rid = Some (i, st) \<Longrightarrow> \<not> status_is_finished st"
proof -
  assume q: "qok [] {} s" and st: "id_status s rid = Some (i, st)"
  then have "rid \<in> set (map fst (requests s))" by (force simp: id_status_def dest: map_of_SomeD)
  then have "rid \<in> set (running s) \<or> rid \<in> set (queue_items (waiting s))" using q by (auto simp: qok_def)
  then have "st = RUNNING \<or> waiting_status st" using q st by (auto simp: qok_def)
  then show ?thesis by (auto simp: waiting_status_def status_is_finished_iff)
qed

text \<open>The loop of the update: a request ends in the outputs exactly when the scheduler lets go of it.\<close>

lemma update_one_ended:
  assumes q: "qok [] {} s" and C: "\<forall>p \<in> set (clients s). snd p \<in> C" and u: "update_inv s u" and out: "ended_in C u = let_go u"
    and run: "update_one hasher sm out ro p u = Inr u'"
  shows "ended_in C u' = let_go u'"
proof -
  obtain rid n where p: "p = (rid, n)" by (cases p)
  show ?thesis
  proof (cases "map_of (requests (us_sched u)) rid = None")
    case True
    with run out show ?thesis by (auto simp: p update_one_def result_simps)
  next
    case False
    obtain generated u1 pooled toks st s2 s3 r3 b u4 where
      rej: "reject_drafts out rid generated u = Inr u1" and c: "consume_output hasher rid generated pooled (us_sched u1) = Inr (toks, st, s2)"
      and r3: "request_id r3 = request_id (req s2 rid)" "status r3 = status (req s2 rid)" "client_index r3 = client_index (req s2 rid)"
      and u4: "us_sched u4 = upd_req rid (\<lambda>_. r3) s3" "us_outputs u4 = us_outputs u1"
        "us_stopped_running u4 = (if st \<and> status (req (us_sched u1) rid) = RUNNING then us_stopped_running u1 @ [rid] else us_stopped_running u1)"
        "us_stopped_preempted u4 = (if st \<and> status (req (us_sched u1) rid) \<noteq> RUNNING then us_stopped_preempted u1 @ [rid] else us_stopped_preempted u1)"
      and e: "emit_output rid toks pooled r3 b u4 = Inr u'" by (rule update_one_parts [OF run [unfolded p] False])
    note rj = reject_drafts_same [OF rej] and ro = reject_drafts_outputs [OF rej]
    have u1: "update_inv s u1" using update_inv_same [OF u] rj by blast
    have known: "map_of (requests (us_sched u1)) rid \<noteq> None" using rj False by (simp add: same_queues_def same_status_def map_of_eq_None_iff flip: set_map)
    then obtain i where i: "id_status (us_sched u1) rid = Some (i, status (req (us_sched u1) rid))" by (auto simp: id_status_def req_def)
    have freed: "freed (let_go u1) s (us_sched u1)" using u1 by (simp add: update_inv_def let_go_def)
    then have "id_status s rid = Some (i, status (req (us_sched u1) rid))" using i by (auto simp: freed_def split: if_splits)
    with q have going: "\<not> status_is_finished (status (req (us_sched u1) rid))" by (rule qok_going)
    have c0: "client_index (req (us_sched u1) rid) \<in> C" by (rule client_among [OF C freed known])
    have outs4: "ended_in C u4 = ended_in C u" using u4(2) ro by (simp add: ended_in_def client_outs_def)
    have "let_go u4 = let_go u \<union> (if st then {rid} else {})" using u4(3,4) rj by (auto simp: let_go_def)
    with emit_output_stopped [OF e] have stop: "let_go u' = let_go u \<union> (if st then {rid} else {})" by simp
    show ?thesis
      using c known
    proof (cases rule: consume_output_cases)
      case goes_on
      have "id_status s2 rid = Some (i, status (req (us_sched u1) rid))" using goes_on(2) i by (simp add: same_queues_def same_status_def)
      from id_statusD [OF this] have "status (req s2 rid) = status (req (us_sched u1) rid)" "map_of (requests s2) rid \<noteq> None" by simp_all
      moreover have "freed (let_go u1) s s2" using freed goes_on(2) by (rule freed_same_trans)
      ultimately have "client_index r3 \<in> C" "get_finished_reason r3 = None"
        using client_among [OF C] r3 going finished_reason_iff [of "status r3"] by (auto simp: get_finished_reason_def)
      with emit_output_outs [OF e] outs4 out stop goes_on(1) show ?thesis by simp
    next
      case (stops g k)
      from consume_output_stops [OF c [unfolded eqTrueI [OF stops(1)]] known] have fin: "is_finished (req s2 rid)" "toks \<noteq> [] \<or> pooled \<noteq> None" by auto
      have "client_index (req s2 rid) \<in> C" using stops(2,3) known c0 by (auto simp: req_def map_of_upd_req)
      then have "client_index r3 \<in> C" "get_finished_reason r3 \<noteq> None"
        using r3 fin(1) finished_reason_iff [of "status r3"] by (simp_all add: get_finished_reason_def is_finished_def)
      with emit_output_outs [OF e] fin(2) outs4 out stop stops(1) show ?thesis by simp
    qed
  qed
qed

lemma client_outputs_finished: "client_outputs (add_finished p d) c = client_outputs d c"
  by (cases p) (auto simp: add_finished_def client_outputs_def update_conv' split: option.splits)

lemma client_outputs_finished_all: "client_outputs (fold add_finished f d) c = client_outputs d c"
  by (induction f arbitrary: d) (simp_all add: client_outputs_finished)

lemma client_outputs_stats: "client_outputs (add_stats st d) c = client_outputs d c"
  by (auto simp: add_stats_def client_outputs_def split: option.splits list.splits)

lemma client_outputs_map:
  "client_outputs (map (\<lambda>(client, outs). (client, \<lparr>eco_outputs = outs, eco_finished_requests = None, eco_scheduler_stats = None\<rparr>)) d) c =
    (case map_of d c of None \<Rightarrow> [] | Some os \<Rightarrow> os)"
  by (induction d) (auto simp: client_outputs_def)

lemma update_from_output_ended:
  assumes q: "qok [] {} s" and C: "\<forall>p \<in> set (clients s). snd p \<in> C" and run: "update_from_output hasher sm out ro s = Inr (eco, evs, s')"
  shows "clients s' = filter (\<lambda>p. fst p \<notin> reported C eco) (clients s) \<and> reported C eco \<subseteq> set (map fst (requests s))"
proof -
  let ?u0 = "\<lparr>us_sched = s, us_outputs = [], us_spec_stats = None, us_stopped_running = [], us_stopped_preempted = []\<rparr>"
  let ?inv = "\<lambda>u. update_inv s u \<and> ended_in C u = let_go u"
  from run obtain u where loop: "rfold (update_one hasher sm out ro) (so_num_scheduled_tokens out) ?u0 = Inr u"
    by (auto simp: update_from_output_def result_simps)
  have "?inv ?u0" by (simp add: update_inv_def freed_same same_queues_refl ended_in_def client_outs_def let_go_def)
  moreover have "?inv u'" if "?inv u" "update_one hasher sm out ro p u = Inr u'" for p u u'
    using update_one_inv [OF q _ that(2)] update_one_ended [OF q C _ _ that(2)] that(1) by blast
  ultimately have u: "?inv u" using rfold_invariant [OF loop, of ?inv] by blast
  have r: "requests s' = requests (us_sched u)" and o: "client_outputs eco c = client_outs c u" for c
    using run loop
    by (auto simp: update_from_output_def Let_def result_simps make_stats_def client_outputs_stats client_outputs_finished_all client_outputs_map client_outs_def
        split: prod.splits option.splits if_split_asm)
  have rep: "reported C eco = let_go u" using u by (simp add: reported_def ended_in_def o)
  have "id_status s x \<noteq> None" if "x \<in> let_go u" for x using u that by (auto simp: update_inv_def let_go_def)
  then have "let_go u \<subseteq> set (map fst (requests s))" by (force simp: id_status_def map_of_eq_None_iff)
  moreover have "clients s' = clients (us_sched u)" using r by (rule clients_requests)
  ultimately show ?thesis using u unfolding rep by (simp add: update_inv_def freed_def let_go_def)
qed

section \<open>The specification of the life cycle\<close>

text \<open>
  On the sets of running and waiting ids, under the limit \<open>n\<close> on the running ones, one rule per call. A request arrives
  waiting; a scheduling step only moves requests between the sets; drafts change nothing; after an
  update exactly the requests reported as finished are gone, and they were there before; finishing removes exactly the given ids; a
  reset makes all running requests wait if it takes them along, and changes nothing otherwise.
\<close>

inductive life_step :: "nat \<Rightarrow> sched_call \<Rightarrow> string set \<times> string set \<Rightarrow> string set \<times> string set \<Rightarrow> bool" where
  arrives: "rid \<notin> R \<union> W \<Longrightarrow> life_step n (Arrive rid) (R, W) (R, insert rid W)"
| moves: "R' \<union> W' = R \<union> W \<Longrightarrow> R' \<inter> W' = {} \<Longrightarrow> card R' \<le> n \<Longrightarrow> life_step n Schedule (R, W) (R', W')"
| drafts: "life_step n Drafts (R, W) (R, W)"
| reports: "V \<subseteq> R \<union> W \<Longrightarrow> life_step n (Update V) (R, W) (R - V, W - V)"
| finishes: "life_step n (Finish V) (R, W) (R - V, W - V)"
| all_wait: "life_step n (Reset True) (R, W) ({}, R \<union> W)"
| stay: "life_step n (Reset False) (R, W) (R, W)"

inductive_simps life_step_simps:
  "life_step n (Arrive rid) a b" "life_step n Schedule a b" "life_step n Drafts a b" "life_step n (Update V) a b"
  "life_step n (Finish V) a b" "life_step n (Reset r) a b"

definition abs_queues :: "scheduler \<Rightarrow> string set \<times> string set" where
  "abs_queues s = (set (running s), set (queue_items (waiting s)))"

text \<open>Every known request is live, so that finishing takes all of the given ids that are known.\<close>

lemma qok_live:
  assumes "qok [] {} s" and "map_of (requests s) rid = Some r"
  shows "live s rid"
  using qok_going [OF assms(1), of rid] assms(2) by (auto simp: live_def id_status_def is_finished_def)

lemma finish_requests_gone:
  assumes q: "qok [] {} s" and "distinct ids" "finish_requests ids st s = Inr s'"
  shows "abs_queues s' = (set (running s) - set ids, set (queue_items (waiting s)) - set ids)"
proof -
  define V where "V = {rid \<in> set ids. live s rid}"
  from finish_requests_freed [OF assms] have f: "running s' = filter (\<lambda>x. x \<notin> V) (running s)"
    "mset (queue_items (waiting s')) = filter_mset (\<lambda>x. x \<notin> V) (mset (queue_items (waiting s)))" by (simp_all add: V_def)
  have "x \<in> V \<longleftrightarrow> x \<in> set ids" if "x \<in> set (running s) \<union> set (queue_items (waiting s))" for x
  proof -
    have "map_of (requests s) x \<noteq> None" using that qok_ids [OF q] by (auto simp: map_of_eq_None_iff)
    with qok_live [OF q] show ?thesis by (auto simp: V_def)
  qed
  moreover have "set (queue_items (waiting s')) = set (queue_items (waiting s)) - V" using arg_cong [OF f(2), of set_mset] by auto
  ultimately show ?thesis unfolding abs_queues_def f(1) by auto
qed

lemma update_from_output_gone:
  assumes q: "qok [] {} s" and run: "update_from_output hasher sm out ro s = Inr (eco, evs, s')"
  shows "abs_queues s' = (set (running s) - reported UNIV eco, set (queue_items (waiting s)) - reported UNIV eco) \<and>
    reported UNIV eco \<subseteq> set (running s) \<union> set (queue_items (waiting s))"
proof -
  let ?E = "reported UNIV eco"
  from update_from_output_qok [OF q run] obtain V where q': "qok [] {} s'"
    and V: "set (running s') = set (running s) - V" "set (queue_items (waiting s')) = set (queue_items (waiting s)) - V" by blast
  from update_from_output_ended [OF q _ run, of UNIV] have E: "clients s' = filter (\<lambda>p. fst p \<notin> ?E) (clients s)" "?E \<subseteq> set (map fst (requests s))" by auto
  have known: "set (map fst (requests t)) = fst ` set (clients t)" for t by (metis clients_keys set_map)
  have "set (map fst (requests s')) = set (map fst (requests s)) - ?E" unfolding known E(1) by auto
  with qok_ids [OF q] qok_ids [OF q'] V have "x \<in> V \<longleftrightarrow> x \<in> ?E" if "x \<in> set (running s) \<union> set (queue_items (waiting s))" for x
    using that by blast
  then have "set (running s') = set (running s) - ?E" "set (queue_items (waiting s')) = set (queue_items (waiting s)) - ?E" unfolding V by blast+
  with E(2) qok_ids [OF q] show ?thesis unfolding abs_queues_def by simp
qed

text \<open>Every call of the engine core is the step of the specification with its label.\<close>

lemma sched_op_refines:
  assumes ok: "lifecycle_ok s" and op: "sched_op c s s'"
  shows "life_step (max_num_running_reqs (conf s)) c (abs_queues s) (abs_queues s')"
proof -
  have q: "qok [] {} s" and len: "length (running s) \<le> max_num_running_reqs (conf s)" using ok by (simp_all add: lifecycle_ok_def)
  from sched_op_keeps [OF ok op] have q': "qok [] {} s'" and len': "length (running s') \<le> max_num_running_reqs (conf s)" unfolding lifecycle_ok_def by metis+
  note ids = qok_ids [OF q] and ids' = qok_ids [OF q']
  show ?thesis
    using op
  proof cases
    case (add r)
    from sched_add_request_qok [OF q add(3)] add(4) have "running s' = running s" by (auto simp: add(2) waiting_status_def)
    moreover have "request_id r \<notin> set (running s) \<union> set (queue_items (waiting s))" using add(3) ids by (simp add: map_of_eq_None_iff)
    moreover have "mset (queue_items (waiting s')) = mset (request_id r # queue_items (waiting s))"
      by (simp add: add(2) sched_add_request_def Let_def queue_mset)
    then have "set (queue_items (waiting s')) = insert (request_id r) (set (queue_items (waiting s)))" by (metis list.simps(15) set_mset_mset)
    ultimately show ?thesis unfolding add(1) abs_queues_def by (simp add: life_step.arrives)
  next
    case (step out)
    from clients_ids [OF schedule_ids [OF step(2)]] ids ids' len' show ?thesis unfolding step(1) abs_queues_def by (intro life_step.moves) simp_all
  next
    case (drafts sm ds toks)
    have "same_queues s s'" unfolding drafts(2) by (rule update_draft_same)
    then show ?thesis unfolding drafts(1) abs_queues_def by (simp add: same_queues_def life_step.drafts)
  next
    case (update hasher sm out ro eco evs)
    from update_from_output_gone [OF q update(2)] show ?thesis unfolding update(1) by (simp add: life_step.reports abs_queues_def [of s])
  next
    case (finish fids st)
    from finish_requests_gone [OF q finish(2,3)] show ?thesis unfolding finish(1) by (simp add: life_step.finishes abs_queues_def [of s])
  next
    case (reset b connector_too ok)
    from reset_prefix_cache_qok [OF q reset(2)] have r: "running s' = (if b then [] else running s)" by simp
    have "set (map fst (requests s')) = set (map fst (requests s))" using clients_ids [OF afterD [OF ids_reset reset(2), unfolded prod.case]] by simp
    moreover have "set (queue_items (waiting s)) = set (map fst (requests s)) - set (running s)" using ids by blast
    moreover have "set (queue_items (waiting s')) = set (map fst (requests s')) - set (running s')" using ids' by blast
    ultimately have "abs_queues s' = (if b then ({}, set (running s) \<union> set (queue_items (waiting s))) else abs_queues s)"
      using r ids by (simp add: abs_queues_def)
    then show ?thesis unfolding reset(1) by (cases b) (simp_all add: abs_queues_def [of s] life_step.all_wait life_step.stay)
  qed
qed

end
