(* ===== verification/Scheduler_Properties.thy ===== *)
theory Scheduler_Properties
  imports Scheduler_Lifecycle "HOL-Library.Code_Target_Numeral"
begin

text \<open>
  The properties of the scheduler, each at a concrete scheduler that the kernel evaluates: four blocks of
  two tokens, at most two running requests and four tokens a step.
\<close>

section \<open>A small scheduler\<close>

definition small_sched_config :: scheduler_config where
  "small_sched_config =
     \<lparr>max_num_running_reqs = 2, max_num_scheduled_tokens = 4, sc_max_model_len = 8, policy = FCFS, long_prefill_token_threshold = 0,
      enable_chunked_prefill = True, disable_chunked_mm_input = False, sc_max_num_encoder_input_tokens = 4, max_loras = None,
      is_encoder_decoder = False, use_eagle = False, num_spec_tokens = 0, num_lookahead_tokens = 0, use_pp = False,
      use_v2_model_runner = False, log_stats = False, is_async = False\<rparr>"

definition small_sched_init :: "scheduler result" where
  "small_sched_init =
     scheduler_init small_sched_config False None
       \<lparr>bc_disable_chunked_mm_input = False, bc_max_num_batched_tokens = 4, bc_max_num_encoder_input_tokens = 4, bc_encoder_cache_size = 4\<rparr>
       small_config False False False 1 1 2 4"

text \<open>Two requests of three tokens come in.\<close>

definition small_sched :: "scheduler result" where
  "small_sched =
     rbind small_sched_init (\<lambda>s. Inr (sched_add_request (text_request ''b'' [4, 5, 6]) (sched_add_request (text_request ''a'' [1, 2, 3]) s)))"

lemma small_sched_value:
  "map_sum id (\<lambda>s. (map fst (requests s), running s, queue_items (waiting s))) small_sched = Inr ([''a'', ''b''], [], [''a'', ''b''])"
  by code_simp

lemma small_schedule_value:
  "map_sum id (\<lambda>(out, s). (so_num_scheduled_tokens out, running s, queue_items (waiting s))) (rbind small_sched schedule) =
     Inr ([(''a'', 3), (''b'', 1)], [''a'', ''b''], [])"
  by code_simp

lemma small_sched_reachable:
  obtains s where "small_sched = Inr s" and "sched_reachable s" and "map fst (requests s) = [''a'', ''b'']" and "running s = []"
    and "queue_items (waiting s) = [''a'', ''b'']" and "conf s = small_sched_config"
proof -
  from small_sched_value obtain s where s: "small_sched = Inr s" "map fst (requests s) = [''a'', ''b'']" "running s = []" "queue_items (waiting s) = [''a'', ''b'']"
    by (auto simp: map_sum_Inr_iff)
  from s(1) obtain s0 where s0: "small_sched_init = Inr s0"
    and s': "s = sched_add_request (text_request ''b'' [4, 5, 6]) (sched_add_request (text_request ''a'' [1, 2, 3]) s0)"
    by (auto simp: small_sched_def result_simps)
  have r0: "sched_reachable s0" by (rule sched_reachable.init [OF s0 [unfolded small_sched_init_def]])
  have empty: "requests s0 = []" "conf s0 = small_sched_config" using s0 by (auto simp: small_sched_init_def scheduler_init_def result_simps)
  let ?s1 = "sched_add_request (text_request ''a'' [1, 2, 3]) s0"
  have "sched_op (Arrive ''a'') s0 ?s1" using sched_op.add [of s0 "text_request ''a'' [1, 2, 3]"] by (simp add: empty text_request_def)
  with r0 have r1: "sched_reachable ?s1" by (rule sched_reachable.op)
  have "conf ?s1 = small_sched_config" by (simp add: sched_add_request_def Let_def empty)
  moreover have "map_of (requests ?s1) ''b'' = None"
    by (simp add: sched_add_request_def Let_def log_event_def map_of_upd_req empty text_request_def)
  ultimately have one: "map_of (requests ?s1) ''b'' = None" "conf ?s1 = small_sched_config" by simp_all
  have b: "request_id (text_request ''b'' [4, 5, 6]) = ''b''" "status (text_request ''b'' [4, 5, 6]) = WAITING" by (simp_all add: text_request_def)
  have "sched_op (Arrive ''b'') ?s1 s" using sched_op.add [of ?s1 "text_request ''b'' [4, 5, 6]"] by (simp add: s' one b)
  with r1 have "sched_reachable s" by (rule sched_reachable.op)
  moreover have "conf s = small_sched_config" by (simp add: s' sched_add_request_def Let_def empty)
  ultimately show ?thesis using that [OF s(1) _ s(2-4)] by simp
qed

lemma small_schedule:
  obtains s out s' where "small_sched = Inr s" and "sched_reachable s" and "running s = []" and "conf s = small_sched_config"
    and "schedule s = Inr (out, s')" and "so_num_scheduled_tokens out = [(''a'', 3), (''b'', 1)]"
    and "running s' = [''a'', ''b'']" and "queue_items (waiting s') = []"
proof -
  obtain s where s: "small_sched = Inr s" "sched_reachable s" "running s = []" "conf s = small_sched_config" by (rule small_sched_reachable)
  from small_schedule_value obtain out s' where "schedule s = Inr (out, s')" "so_num_scheduled_tokens out = [(''a'', 3), (''b'', 1)]"
    "running s' = [''a'', ''b'']" "queue_items (waiting s') = []" by (auto simp: map_sum_Inr_iff s(1))
  with that [OF s] show ?thesis by simp
qed

lemma small_finish_value:
  "map_sum id (\<lambda>s. queue_items (waiting s)) (rbind small_sched (finish_requests [''a''] FINISHED_ABORTED)) = Inr [''b'']"
  by code_simp

lemma small_reset_value:
  "map_sum id fst (rbind (rbind small_sched (finish_requests [''a''] FINISHED_ABORTED)) (sched_reset_prefix_cache True False)) = Inr True"
  by code_simp

section \<open>The life cycle of requests\<close>

text \<open>
  C7: (queues and statuses) in every scheduler that construction and the calls of the engine core reach,
  the running list and the waiting queue hold every known request exactly once between them, a request
  of the running list is \<^verbatim>\<open>RUNNING\<close> and one of the waiting queue is \<^verbatim>\<open>WAITING\<close>,
  \<^verbatim>\<open>WAITING_FOR_FSM\<close> or \<^verbatim>\<open>PREEMPTED\<close>, and no more requests run than the
  configuration allows.
\<close>

theorem requests_partitioned:
  assumes "sched_reachable s"
  shows "distinct (running s @ queue_items (waiting s)) \<and> set (running s @ queue_items (waiting s)) = set (map fst (requests s)) \<and>
    (\<forall>rid \<in> set (running s). status (req s rid) = RUNNING) \<and>
    (\<forall>rid \<in> set (queue_items (waiting s)). status (req s rid) \<in> {WAITING, WAITING_FOR_FSM, PREEMPTED}) \<and>
    length (running s) \<le> max_num_running_reqs (conf s)"
proof -
  from sched_reachable_ok [OF assms] have q: "qok [] {} s" "length (running s) \<le> max_num_running_reqs (conf s)" by (simp_all add: lifecycle_ok_def)
  have "distinct (running s @ queue_items (waiting s)) \<and> set (running s @ queue_items (waiting s)) = set (map fst (requests s))"
    using q(1) by (simp add: qok_def)
  moreover have "\<forall>rid \<in> set (running s). status (req s rid) = RUNNING" using qok_status(1) [OF q(1)] by blast
  moreover have "\<forall>rid \<in> set (queue_items (waiting s)). status (req s rid) \<in> {WAITING, WAITING_FOR_FSM, PREEMPTED}"
    using qok_status(2) [OF q(1)] by (auto simp: waiting_status_def)
  ultimately show ?thesis using q(2) by blast
qed

theorem requests_partitioned_witness:
  "\<exists>s out s'. small_sched = Inr s \<and> schedule s = Inr (out, s') \<and> running s' = [''a'', ''b''] \<and> status (req s' ''b'') = RUNNING"
proof -
  obtain s out s' where s: "small_sched = Inr s" "sched_reachable s" "schedule s = Inr (out, s')" "running s' = [''a'', ''b'']"
    by (rule small_schedule)
  have "sched_reachable s'" using s(2,3) sched_reachable.op sched_op.step by blast
  from requests_partitioned [OF this] s show ?thesis by auto
qed

text \<open>
  C8: (refinement of the life cycle) every call of the engine core on a reachable scheduler is the step of
  the labelled specification for this call on the sets of running and waiting ids: an arrival is added to the waiting
  ids and changes nothing else; a scheduling step moves requests between the sets, loses none, adds none and
  respects the limit; draft tokens change nothing; after an update exactly the requests that its outputs report as finished are
  gone, and these were running or waiting; finishing removes exactly the given ids; a reset makes all running requests
  wait when it takes them along and changes nothing otherwise.
\<close>

theorem scheduler_refines_lifecycle:
  assumes "sched_reachable s" and "sched_op c s s'"
  shows "life_step (max_num_running_reqs (conf s)) c (abs_queues s) (abs_queues s')"
  by (rule sched_op_refines [OF sched_reachable_ok [OF assms(1)] assms(2)])

theorem scheduler_refines_lifecycle_witness:
  "\<exists>s s' s''. small_sched = Inr s \<and> finish_requests [''a''] FINISHED_ABORTED s = Inr s' \<and> abs_queues s = ({}, {''a'', ''b''}) \<and>
     abs_queues s' = ({}, {''b''}) \<and> sched_reset_prefix_cache True False s' = Inr (True, s'') \<and> abs_queues s'' = ({}, {''b''})"
proof -
  obtain s where s: "small_sched = Inr s" "sched_reachable s" "running s = []" "queue_items (waiting s) = [''a'', ''b'']" by (rule small_sched_reachable)
  from small_finish_value small_reset_value obtain s' s'' where f: "finish_requests [''a''] FINISHED_ABORTED s = Inr s'"
      "sched_reset_prefix_cache True False s' = Inr (True, s'')"
    by (auto simp: map_sum_Inr_iff s(1))
  have op: "sched_op (Finish (set [''a''])) s s'" "sched_op (Reset True) s' s''" using sched_op.finish [OF _ f(1)] sched_op.reset [OF f(2)] by simp_all
  with s(2) have "sched_reachable s'" by (blast intro: sched_reachable.op)
  note r' = this
  have abs: "abs_queues s = ({}, {''a'', ''b''})" using s(3,4) by (simp add: abs_queues_def)
  from scheduler_refines_lifecycle [OF s(2) op(1)] have abs': "abs_queues s' = ({}, {''b''})" by (simp only: abs life_step_simps) auto
  from scheduler_refines_lifecycle [OF r' op(2)] have "abs_queues s'' = ({}, {''b''})" by (simp only: abs' life_step_simps) auto
  with s(1) f abs abs' show ?thesis by blast
qed

section \<open>A scheduling step\<close>

text \<open>
  C9: (budgets) take a reachable scheduler with a token budget of at least 0 in which every running request has computed
  no more than its tokens, drafts and placeholders, and fewer tokens than the model's length. Then the
  assertions at the end of \<^verbatim>\<open>schedule\<close> hold: the step stays within its token budget and the
  limit on running requests, it has scheduled no more requests than run, and every scheduled request has
  at least one token. The hypothesis on the running requests is not an invariant of the scheduler: \<open>full_prompt_goes_negative\<close>.
\<close>

theorem schedule_within_budget:
  assumes "sched_reachable s" and "0 \<le> max_num_scheduled_tokens (conf s)"
    and "\<forall>rid \<in> set (running s). num_computed_tokens (req s rid) \<le> int (num_tokens_with_spec (req s rid)) + num_output_placeholders (req s rid) \<and>
      num_computed_tokens (req s rid) < int (sc_max_model_len (conf s))"
    and "schedule_steps s = Inr t"
  shows "sum_list (map snd (num_scheduled_tokens t)) \<le> max_num_scheduled_tokens (conf (st_sched t)) \<and> 0 \<le> token_budget t \<and>
    length (running (st_sched t)) \<le> max_num_running_reqs (conf (st_sched t)) \<and>
    length (scheduled_new_reqs t) + length (scheduled_resumed_reqs t) + length (scheduled_running_reqs t) \<le> length (running (st_sched t)) \<and>
    (\<forall>n \<in> set (map snd (num_scheduled_tokens t)). 0 < n)"
proof -
  from sched_reachable_ok [OF assms(1)] have q: "qok [] {} s" "length (running s) \<le> max_num_running_reqs (conf s)" by (simp_all add: lifecycle_ok_def)
  from schedule_steps_inv [OF q _ assms(4), of True] assms(2) assms(3) [folded ahead_ok_def]
  have t: "books t" "paid True t" "conf (st_sched t) = conf s" "length (running (st_sched t)) \<le> max_num_running_reqs (conf s)" "qok [] {} (st_sched t)"
    by (simp_all add: step_inv_def)
  have "card (set (scheduled t)) \<le> card (set (running (st_sched t)))" using t(1) unfolding books_def by (intro card_mono) auto
  moreover have "distinct (scheduled t)" "distinct (running (st_sched t))" using t(1,5) by (simp_all add: books_def qok_def)
  ultimately have "length (scheduled t) \<le> length (running (st_sched t))" by (simp only: distinct_card)
  with t show ?thesis by (simp add: books_def paid_def)
qed

theorem schedule_within_budget_witness:
  "\<exists>s t. small_sched = Inr s \<and> schedule_steps s = Inr t \<and> sum_list (map snd (num_scheduled_tokens t)) \<le> 4"
proof -
  obtain s out s' where s: "small_sched = Inr s" "sched_reachable s" "running s = []" "conf s = small_sched_config" "schedule s = Inr (out, s')"
    by (rule small_schedule)
  then obtain t where t: "schedule_steps s = Inr t" by (auto simp: schedule_def result_simps)
  have "conf (st_sched t) = conf s"
    using schedule_steps_inv [OF _ _ _ t, of False] sched_reachable_ok [OF s(2)] by (simp add: lifecycle_ok_def)
  then show ?thesis
    using schedule_within_budget [OF s(2) _ _ t] s t by (auto simp: small_sched_config_def)
qed

text \<open>
  A request whose prompt is as long as the model's length (as prompts of pooling and multimodal models may be) is
  scheduled a second time before the first step's output is back, as with pipeline stages: the second step returns and has scheduled it
  with \<open>-1\<close> tokens, since the limit \<^verbatim>\<open>max_model_len - 1 - num_computed_tokens\<close> is negative then and only 0 is skipped.
\<close>

definition full_prompt_sched :: "scheduler result" where
  "full_prompt_sched =
     rbind (scheduler_init (small_sched_config\<lparr>sc_max_model_len := 3\<rparr>) False None
       \<lparr>bc_disable_chunked_mm_input = False, bc_max_num_batched_tokens = 4, bc_max_num_encoder_input_tokens = 4, bc_encoder_cache_size = 4\<rparr>
       small_config False False False 1 1 2 4) (\<lambda>s. Inr (sched_add_request (text_request ''a'' [1, 2, 3]) s))"

lemma full_prompt_value:
  "map_sum id (\<lambda>(out, s). so_num_scheduled_tokens out) (rbind (rbind full_prompt_sched schedule) (\<lambda>(out, s). schedule s)) = Inr [(''a'', - 1)]"
  by code_simp

lemma full_prompt_goes_negative:
  "\<exists>s out s'. sched_reachable s \<and> schedule s = Inr (out, s') \<and> so_num_scheduled_tokens out = [(''a'', - 1)]"
proof -
  from full_prompt_value obtain s0 s1 s2 out1 out2 where s1: "full_prompt_sched = Inr s1" and o: "schedule s1 = Inr (out1, s2)"
      "map_sum id (\<lambda>(out, s). so_num_scheduled_tokens out) (schedule s2) = Inr [(''a'', - 1)]"
    by (auto simp: map_sum_Inr_iff result_simps)
  from s1 obtain s0 where i: "scheduler_init (small_sched_config\<lparr>sc_max_model_len := 3\<rparr>) False None
       \<lparr>bc_disable_chunked_mm_input = False, bc_max_num_batched_tokens = 4, bc_max_num_encoder_input_tokens = 4, bc_encoder_cache_size = 4\<rparr>
       small_config False False False 1 1 2 4 = Inr s0" and a: "s1 = sched_add_request (text_request ''a'' [1, 2, 3]) s0"
    by (auto simp: full_prompt_sched_def result_simps)
  have "requests s0 = []" using i by (auto simp: scheduler_init_def result_simps)
  then have "sched_op (Arrive ''a'') s0 s1" using sched_op.add [of s0 "text_request ''a'' [1, 2, 3]"] by (simp add: a text_request_def)
  with sched_reachable.init [OF i] have "sched_reachable s1" by (rule sched_reachable.op)
  then have "sched_reachable s2" using sched_op.step [OF o(1)] by (rule sched_reachable.op)
  with o(2) show ?thesis by (auto simp: map_sum_Inr_iff)
qed

text \<open>
  C10: (termination) a scheduling step of a reachable scheduler returns or raises: neither the loop that
  preempts requests until blocks are found nor the loops over the two queues go on forever.
\<close>

theorem schedule_terminates:
  assumes "sched_reachable s"
  shows "schedule s \<noteq> Inl Diverges"
  using schedule_ends [of s] sched_reachable_ok [OF assms] by (simp add: lifecycle_ok_def ends_def)

theorem schedule_terminates_witness:
  "\<exists>s out s'. small_sched = Inr s \<and> schedule s \<noteq> Inl Diverges \<and> schedule s = Inr (out, s')"
proof -
  obtain s out s' where s: "small_sched = Inr s" "sched_reachable s" "schedule s = Inr (out, s')" by (rule small_schedule)
  with schedule_terminates [OF s(2)] show ?thesis by blast
qed

text \<open>
  C11: (well-formed output) the output of a scheduling step names every scheduled request exactly once,
  with its data when it is new and in the parallel lists of cached requests otherwise, all of them run,
  and the total is the sum of the tokens.
\<close>

theorem schedule_output_wf:
  assumes "sched_reachable s" and "schedule s = Inr (out, s')"
  shows "output_wf (use_pp (conf s)) out (running s')"
proof -
  from sched_reachable_ok [OF assms(1)] have q: "qok [] {} s" "length (running s) \<le> max_num_running_reqs (conf s)" by (simp_all add: lifecycle_ok_def)
  from assms(2) obtain t where t: "schedule_steps s = Inr t" and f: "finish_schedule t = Inr (out, s')" by (auto simp: schedule_def result_simps)
  from schedule_steps_inv [OF q _ t, of False] have "step_inv False [] t" "conf (st_sched t) = conf s" by simp_all
  with finish_schedule_wf [OF _ f] finish_schedule_same [OF f] show ?thesis by (simp add: same_queues_def)
qed

theorem schedule_output_wf_witness:
  "\<exists>s out s'. small_sched = Inr s \<and> schedule s = Inr (out, s') \<and> so_total_num_scheduled_tokens out = 4 \<and>
     set (map nr_req_id (so_new_reqs out) @ cr_req_ids (so_cached_reqs out)) = {''a'', ''b''}"
proof -
  obtain s out s' where s: "small_sched = Inr s" "sched_reachable s" "schedule s = Inr (out, s')" "so_num_scheduled_tokens out = [(''a'', 3), (''b'', 1)]"
    by (rule small_schedule)
  from schedule_output_wf [OF s(2,3)] s show ?thesis by (auto simp: output_wf_def)
qed

section \<open>Tokens and the end of requests\<close>

text \<open>
  C12: (appending tokens) when \<^verbatim>\<open>_update_request_with_output\<close> returns for a request with sampling parameters, it has
  appended a prefix of the sampled tokens: the request stops after no token of it but the last, where stopping is stated directly
  (the minimum is reached, and the last token is the end of sequence or a stop token, or a limit is reached);
  the call says stopped exactly when the request with the kept tokens stops, drops the other tokens then, and
  sets the status by the kind of stop; a request that goes on keeps its status and has all tokens.
\<close>

theorem append_until_stop_spec:
  assumes "append_until_stop hasher n toks r = Inr (new, stopped, r')" and "sampling_params r = Some sp"
  shows "output_token_ids r' = output_token_ids r @ new \<and> all_token_ids r' = all_token_ids r @ new \<and>
    (\<exists>rest. toks = new @ rest \<and> (\<not> stopped \<longrightarrow> rest = [] \<and> status r' = status r)) \<and>
    (\<forall>k. 0 < k \<and> k < length new \<longrightarrow> \<not> stops n sp r (take k new)) \<and>
    (stopped \<longleftrightarrow> new \<noteq> [] \<and> stops n sp r new) \<and>
    (stopped \<longrightarrow> status r' = (if stop_token sp r (last new) then FINISHED_STOPPED else FINISHED_LENGTH_CAPPED))"
  using append_until_stop_tokens [OF assms(1)] append_until_stop_first [OF assms] by blast

theorem append_until_stop_spec_witness:
  "\<exists>r'. append_until_stop None 5 [7, 8, 9] (text_request ''a'' [1, 2, 3]) = Inr ([7, 8], True, r') \<and> status r' = FINISHED_LENGTH_CAPPED \<and>
     (\<forall>sp. sampling_params (text_request ''a'' [1, 2, 3]) = Some sp \<longrightarrow> \<not> stops 5 sp (text_request ''a'' [1, 2, 3]) [7])"
proof -
  have v: "map_sum id (\<lambda>(a, b, r). (a, b)) (append_until_stop None 5 [7, 8, 9] (text_request ''a'' [1, 2, 3])) = Inr ([7, 8], True)" by code_simp
  then obtain r' where r': "append_until_stop None 5 [7, 8, 9] (text_request ''a'' [1, 2, 3]) = Inr ([7, 8], True, r')" by (auto simp: map_sum_Inr_iff)
  obtain sp where sp: "sampling_params (text_request ''a'' [1, 2, 3]) = Some sp" by (simp add: text_request_def)
  then have "\<not> stop_token sp (text_request ''a'' [1, 2, 3]) 8" by (auto simp: text_request_def stop_token_def)
  with append_until_stop_spec [OF r' sp] r' sp show ?thesis by (auto dest: spec [of _ 1])
qed

text \<open>
  C13: (finishing requests) on a reachable scheduler \<^verbatim>\<open>finish_requests\<close> removes exactly the live
  requests among the given ids, from their queue and from the table, reports them as finished and leaves
  every other request as it was.
\<close>

theorem finish_requests_spec:
  assumes "sched_reachable s" and "distinct ids" and "finish_requests ids st s = Inr s'"
  shows "running s' = filter (\<lambda>rid. \<not> (rid \<in> set ids \<and> live s rid)) (running s) \<and>
    mset (queue_items (waiting s')) = filter_mset (\<lambda>rid. \<not> (rid \<in> set ids \<and> live s rid)) (mset (queue_items (waiting s))) \<and>
    finished_req_ids s' = {rid \<in> set ids. live s rid} \<union> finished_req_ids s \<and>
    (\<forall>rid. map_of (requests s') rid = (if rid \<in> set ids \<and> live s rid then None else map_of (requests s) rid))"
  using finish_requests_freed [OF _ assms(2,3)] sched_reachable_ok [OF assms(1)] by (simp add: lifecycle_ok_def)

theorem finish_requests_spec_witness:
  "\<exists>s s'. small_sched = Inr s \<and> finish_requests [''a''] FINISHED_ABORTED s = Inr s' \<and> queue_items (waiting s') = [''b''] \<and> running s' = []"
proof -
  obtain s where s: "small_sched = Inr s" "sched_reachable s" "running s = []" by (rule small_sched_reachable)
  from small_finish_value obtain s' where f: "finish_requests [''a''] FINISHED_ABORTED s = Inr s'" "queue_items (waiting s') = [''b'']"
    by (auto simp: map_sum_Inr_iff s(1))
  from finish_requests_spec [OF s(2) _ f(1)] s f show ?thesis by auto
qed

end
