(* ===== verification/KV_Offload.thy ===== *)
theory KV_Offload
  imports Prelude
begin

text \<open>
  Offloading of KV blocks to CPU memory: \<^verbatim>\<open>vllm/v1/kv_offload/backend.py\<close>,
  \<^verbatim>\<open>backends/cpu.py\<close>, \<^verbatim>\<open>lru_manager.py\<close> and \<^verbatim>\<open>arc_manager.py\<close>.

  A \<^verbatim>\<open>BlockStatus\<close> is referred to from one dictionary only, so the dictionaries hold its value.
  Its \<^verbatim>\<open>ref_cnt\<close> is a C \<^verbatim>\<open>int32\<close>: a word of 32 bits, read as signed.  The floating point
  \<^verbatim>\<open>target_t1_size\<close> is a real number.  The locale \<open>offload_backend\<close> is what the managers rely
  on of \<^verbatim>\<open>Backend\<close>, interpreted on the CPU backend.
\<close>

section \<open>Backend\<close>

record block_status =
  bs_ref_cnt :: "32 word"
  bs_block_id :: nat

definition is_ready :: "block_status \<Rightarrow> bool" where
  "is_ready b \<longleftrightarrow> 0 \<le> sint (bs_ref_cnt b)"

definition cpu_block_status :: "nat \<Rightarrow> block_status" where
  "cpu_block_status block_id = \<lparr>bs_ref_cnt = - 1, bs_block_id = block_id\<rparr>"

record cpu_backend =
  be_block_size :: nat
  be_num_blocks :: int
  num_allocated_blocks :: nat
  allocated_blocks_free_list :: "nat list"

definition cpu_backend_init :: "nat \<Rightarrow> nat \<Rightarrow> cpu_backend" where
  "cpu_backend_init block_size num_blocks =
     \<lparr>be_block_size = block_size, be_num_blocks = int num_blocks, num_allocated_blocks = 0, allocated_blocks_free_list = []\<rparr>"

definition cpu_num_free_blocks :: "cpu_backend \<Rightarrow> int" where
  "cpu_num_free_blocks c = int (length (allocated_blocks_free_list c)) + be_num_blocks c - int (num_allocated_blocks c)"

text \<open>The reused blocks are popped from the end of the free list.\<close>

definition cpu_allocate_blocks :: "nat \<Rightarrow> cpu_backend \<Rightarrow> (block_status list \<times> cpu_backend) result" where
  "cpu_allocate_blocks n c =
     (let num_fresh = min (int n) (be_num_blocks c - int (num_allocated_blocks c));
          num_reused = int n - num_fresh;
          fl = allocated_blocks_free_list c in
      rbind (rassert (num_reused \<le> int (length fl))) (\<lambda>_.
        let f = nat num_fresh; k = nat num_reused in
        Inr (map cpu_block_status ([num_allocated_blocks c..<num_allocated_blocks c + f] @ take k (rev fl)),
             c\<lparr>num_allocated_blocks := num_allocated_blocks c + f,
               allocated_blocks_free_list := take (length fl - k) fl\<rparr>)))"

definition cpu_free :: "block_status \<Rightarrow> cpu_backend \<Rightarrow> cpu_backend" where
  "cpu_free b c = c\<lparr>allocated_blocks_free_list := allocated_blocks_free_list c @ [bs_block_id b]\<rparr>"

definition cpu_load_store_spec :: "block_status list \<Rightarrow> nat list" where
  "cpu_load_store_spec blocks = map bs_block_id blocks"

section \<open>LRU manager\<close>

record offloading_event =
  oe_block_hashes :: "bytes list"
  oe_block_size :: nat
  oe_removed :: bool

record prepare_store_output =
  block_hashes_to_store :: "bytes list"
  store_spec :: "nat list"
  block_hashes_evicted :: "bytes list"

type_synonym status_dict = "(bytes, block_status) odict"

record lru_manager =
  lru_backend :: cpu_backend
  lru_blocks :: status_dict
  lru_events :: "offloading_event list option"

definition lru_init :: "cpu_backend \<Rightarrow> bool \<Rightarrow> lru_manager" where
  "lru_init b enable_events = \<lparr>lru_backend = b, lru_blocks = [], lru_events = (if enable_events then Some [] else None)\<rparr>"

definition add_event :: "bytes list \<Rightarrow> nat \<Rightarrow> bool \<Rightarrow> offloading_event list option \<Rightarrow> offloading_event list option" where
  "add_event hs block_size removed events =
     (if hs = [] then events
      else map_option (\<lambda>es. es @ [\<lparr>oe_block_hashes = hs, oe_block_size = block_size, oe_removed = removed\<rparr>]) events)"

text \<open>\<^verbatim>\<open>lookup\<close>: the number of leading hashes whose block is there and ready.\<close>

fun dict_lookup :: "(bytes \<Rightarrow> block_status option) \<Rightarrow> bytes list \<Rightarrow> nat" where
  "dict_lookup get [] = 0"
| "dict_lookup get (h # hs) =
     (case get h of
        None \<Rightarrow> 0
      | Some b \<Rightarrow> if is_ready b then Suc (dict_lookup get hs) else 0)"

definition lru_lookup :: "bytes list \<Rightarrow> lru_manager \<Rightarrow> nat" where
  "lru_lookup hs m = dict_lookup (map_of (lru_blocks m)) hs"

fun load_loop :: "bytes list \<Rightarrow> status_dict \<Rightarrow> (block_status list \<times> status_dict) result" where
  "load_loop [] d = Inr ([], d)"
| "load_loop (h # hs) d =
     rbind (od_lookup d h) (\<lambda>b.
     rbind (rassert (is_ready b)) (\<lambda>_.
       let b1 = b\<lparr>bs_ref_cnt := bs_ref_cnt b + 1\<rparr> in
       rbind (load_loop hs (AList.update h b1 d)) (\<lambda>(bs, d1). Inr (b1 # bs, d1))))"

definition lru_prepare_load :: "bytes list \<Rightarrow> lru_manager \<Rightarrow> (nat list \<times> lru_manager) result" where
  "lru_prepare_load hs m =
     rbind (load_loop hs (lru_blocks m)) (\<lambda>(bs, d). Inr (cpu_load_store_spec bs, m\<lparr>lru_blocks := d\<rparr>))"

definition lru_touch_one :: "bytes \<Rightarrow> status_dict \<Rightarrow> status_dict result" where
  "lru_touch_one h d = (if map_of d h \<noteq> None then od_move_to_end h d else Inr d)"

definition lru_touch :: "bytes list \<Rightarrow> lru_manager \<Rightarrow> lru_manager result" where
  "lru_touch hs m = rbind (rfold lru_touch_one (rev hs) (lru_blocks m)) (\<lambda>d. Inr (m\<lparr>lru_blocks := d\<rparr>))"

definition unload_one :: "bytes \<Rightarrow> status_dict \<Rightarrow> status_dict result" where
  "unload_one h d =
     rbind (od_lookup d h) (\<lambda>b.
     rbind (rassert (0 < sint (bs_ref_cnt b))) (\<lambda>_.
       Inr (AList.update h (b\<lparr>bs_ref_cnt := bs_ref_cnt b - 1\<rparr>) d)))"

definition lru_complete_load :: "bytes list \<Rightarrow> lru_manager \<Rightarrow> lru_manager result" where
  "lru_complete_load hs m = rbind (rfold unload_one hs (lru_blocks m)) (\<lambda>d. Inr (m\<lparr>lru_blocks := d\<rparr>))"

text \<open>The \<^verbatim>\<open>for\<close> loop that collects \<open>n > 0\<close> blocks to evict; its \<^verbatim>\<open>else\<close> branch is \<open>None\<close>.\<close>

fun pick_evict :: "nat \<Rightarrow> status_dict \<Rightarrow> bytes list option" where
  "pick_evict n [] = None"
| "pick_evict n ((h, b) # d) =
     (if bs_ref_cnt b = 0
      then if n = 1 then Some [h] else map_option (\<lambda>hs. h # hs) (pick_evict (n - 1) d)
      else pick_evict n d)"

definition evict_block :: "bytes \<Rightarrow> status_dict \<times> cpu_backend \<Rightarrow> (status_dict \<times> cpu_backend) result" where
  "evict_block h s = (case s of (d, c) \<Rightarrow> rbind (od_lookup d h) (\<lambda>b. Inr (AList.delete h d, cpu_free b c)))"

text \<open>\<^verbatim>\<open>for block_hash, block in zip(...): self.blocks[block_hash] = block\<close>\<close>

definition assign_blocks :: "bytes list \<Rightarrow> block_status list \<Rightarrow> status_dict \<Rightarrow> status_dict" where
  "assign_blocks hs bs d = fold (\<lambda>(h, b) d. AList.update h b d) (zip hs bs) d"

definition lru_prepare_store :: "bytes list \<Rightarrow> lru_manager \<Rightarrow> (prepare_store_output option \<times> lru_manager) result" where
  "lru_prepare_store hs m =
     (let to_store = filter (\<lambda>h. map_of (lru_blocks m) h = None) hs;
          n = int (length to_store) - cpu_num_free_blocks (lru_backend m) in
      case (if 0 < n then pick_evict (nat n) (lru_blocks m) else Some []) of
        None \<Rightarrow> Inr (None, m)
      | Some to_evict \<Rightarrow>
          rbind (rfold evict_block to_evict (lru_blocks m, lru_backend m)) (\<lambda>(d, c).
          rbind (cpu_allocate_blocks (length to_store) c) (\<lambda>(blocks, c1).
          rbind (rassert (length blocks = length to_store)) (\<lambda>_.
            Inr (Some \<lparr>block_hashes_to_store = to_store, store_spec = cpu_load_store_spec blocks, block_hashes_evicted = to_evict\<rparr>,
                 m\<lparr>lru_backend := c1, lru_blocks := assign_blocks to_store blocks d,
                   lru_events := add_event to_evict (be_block_size c) True (lru_events m)\<rparr>)))))"

text \<open>The loops of \<^verbatim>\<open>complete_store\<close>; the first one also collects the stored hashes.\<close>

fun stored_loop :: "bytes list \<Rightarrow> status_dict \<Rightarrow> (bytes list \<times> status_dict) result" where
  "stored_loop [] d = Inr ([], d)"
| "stored_loop (h # hs) d =
     rbind (od_lookup d h) (\<lambda>b.
       if \<not> is_ready b
       then rbind (stored_loop hs (AList.update h (b\<lparr>bs_ref_cnt := 0\<rparr>) d)) (\<lambda>(st, d1). Inr (h # st, d1))
       else stored_loop hs d)"

definition drop_one :: "bytes \<Rightarrow> status_dict \<times> cpu_backend \<Rightarrow> (status_dict \<times> cpu_backend) result" where
  "drop_one h s =
     (case s of (d, c) \<Rightarrow>
        rbind (od_lookup d h) (\<lambda>b. if \<not> is_ready b then Inr (AList.delete h d, cpu_free b c) else Inr (d, c)))"

definition lru_complete_store :: "bytes list \<Rightarrow> bool \<Rightarrow> lru_manager \<Rightarrow> lru_manager result" where
  "lru_complete_store hs success m =
     (if success
      then rbind (stored_loop hs (lru_blocks m)) (\<lambda>(st, d).
             Inr (m\<lparr>lru_blocks := d, lru_events := add_event st (be_block_size (lru_backend m)) False (lru_events m)\<rparr>))
      else rbind (rfold drop_one hs (lru_blocks m, lru_backend m)) (\<lambda>(d, c). Inr (m\<lparr>lru_blocks := d, lru_backend := c\<rparr>)))"

definition lru_take_events :: "lru_manager \<Rightarrow> offloading_event list \<times> lru_manager" where
  "lru_take_events m = (case lru_events m of None \<Rightarrow> ([], m) | Some es \<Rightarrow> (es, m\<lparr>lru_events := Some []\<rparr>))"

section \<open>ARC manager\<close>

record arc_manager =
  arc_backend :: cpu_backend
  target_t1_size :: real
  arc_t1 :: status_dict
  arc_t2 :: status_dict
  arc_b1 :: "(bytes, unit) odict"
  arc_b2 :: "(bytes, unit) odict"
  arc_events :: "offloading_event list option"
  cache_capacity :: int

definition arc_init :: "cpu_backend \<Rightarrow> bool \<Rightarrow> arc_manager" where
  "arc_init b enable_events =
     \<lparr>arc_backend = b, target_t1_size = 0, arc_t1 = [], arc_t2 = [], arc_b1 = [], arc_b2 = [],
      arc_events = (if enable_events then Some [] else None), cache_capacity = cpu_num_free_blocks b\<rparr>"

text \<open>\<^verbatim>\<open>self.t1.get(h) or self.t2.get(h)\<close>\<close>

definition arc_get :: "arc_manager \<Rightarrow> bytes \<Rightarrow> block_status option" where
  "arc_get m h = (case map_of (arc_t1 m) h of Some b \<Rightarrow> Some b | None \<Rightarrow> map_of (arc_t2 m) h)"

text \<open>Changing the object that \<open>arc_get\<close> found.\<close>

definition arc_set :: "bytes \<Rightarrow> block_status \<Rightarrow> arc_manager \<Rightarrow> arc_manager" where
  "arc_set h b m =
     (if map_of (arc_t1 m) h \<noteq> None then m\<lparr>arc_t1 := AList.update h b (arc_t1 m)\<rparr>
      else m\<lparr>arc_t2 := AList.update h b (arc_t2 m)\<rparr>)"

definition arc_lookup :: "bytes list \<Rightarrow> arc_manager \<Rightarrow> nat" where
  "arc_lookup hs m = dict_lookup (arc_get m) hs"

fun arc_load_loop :: "bytes list \<Rightarrow> arc_manager \<Rightarrow> (block_status list \<times> arc_manager) result" where
  "arc_load_loop [] m = Inr ([], m)"
| "arc_load_loop (h # hs) m =
     (case arc_get m h of
        None \<Rightarrow> Inl AssertionError
      | Some b \<Rightarrow>
          rbind (rassert (is_ready b)) (\<lambda>_.
            let b1 = b\<lparr>bs_ref_cnt := bs_ref_cnt b + 1\<rparr> in
            rbind (arc_load_loop hs (arc_set h b1 m)) (\<lambda>(bs, m1). Inr (b1 # bs, m1))))"

definition arc_prepare_load :: "bytes list \<Rightarrow> arc_manager \<Rightarrow> (nat list \<times> arc_manager) result" where
  "arc_prepare_load hs m = rbind (arc_load_loop hs m) (\<lambda>(bs, m1). Inr (cpu_load_store_spec bs, m1))"

definition arc_touch_one :: "bytes \<Rightarrow> arc_manager \<Rightarrow> arc_manager result" where
  "arc_touch_one h m =
     (case map_of (arc_t1 m) h of
        Some b \<Rightarrow>
          let t1 = AList.delete h (arc_t1 m) in
          if \<not> is_ready b then rbind (od_move_to_end h t1) (\<lambda>t. Inr (m\<lparr>arc_t1 := t\<rparr>))
          else Inr (m\<lparr>arc_t1 := t1, arc_t2 := AList.update h b (arc_t2 m)\<rparr>)
      | None \<Rightarrow>
          if map_of (arc_t2 m) h \<noteq> None then rbind (od_move_to_end h (arc_t2 m)) (\<lambda>t. Inr (m\<lparr>arc_t2 := t\<rparr>))
          else if map_of (arc_b1 m) h \<noteq> None then
            let delta = max 1 (real (length (arc_b2 m)) / real (length (arc_b1 m))) in
            rbind (od_move_to_end h (arc_b1 m)) (\<lambda>t.
              Inr (m\<lparr>target_t1_size := min (target_t1_size m + delta) (real_of_int (cache_capacity m)), arc_b1 := t\<rparr>))
          else if map_of (arc_b2 m) h \<noteq> None then
            let delta = max 1 (real (length (arc_b1 m)) / real (length (arc_b2 m))) in
            rbind (od_move_to_end h (arc_b2 m)) (\<lambda>t.
              Inr (m\<lparr>target_t1_size := max (target_t1_size m - delta) 0, arc_b2 := t\<rparr>))
          else Inr m)"

definition arc_touch :: "bytes list \<Rightarrow> arc_manager \<Rightarrow> arc_manager result" where
  "arc_touch hs m = rfold arc_touch_one (rev hs) m"

definition arc_unload_one :: "bytes \<Rightarrow> arc_manager \<Rightarrow> arc_manager result" where
  "arc_unload_one h m =
     (case arc_get m h of
        None \<Rightarrow> Inl AssertionError
      | Some b \<Rightarrow>
          rbind (rassert (0 < sint (bs_ref_cnt b))) (\<lambda>_. Inr (arc_set h (b\<lparr>bs_ref_cnt := bs_ref_cnt b - 1\<rparr>) m)))"

definition arc_complete_load :: "bytes list \<Rightarrow> arc_manager \<Rightarrow> arc_manager result" where
  "arc_complete_load hs m = rfold arc_unload_one hs m"

text \<open>The first block of a list that no transfer uses.\<close>

definition first_unused :: "status_dict \<Rightarrow> (bytes \<times> block_status) option" where
  "first_unused d = find (\<lambda>(h, b). bs_ref_cnt b = 0) d"

definition arc_evict_t1 :: "bytes \<Rightarrow> block_status \<Rightarrow> arc_manager \<Rightarrow> arc_manager" where
  "arc_evict_t1 h b m =
     m\<lparr>arc_t1 := AList.delete h (arc_t1 m), arc_b1 := AList.update h () (arc_b1 m), arc_backend := cpu_free b (arc_backend m)\<rparr>"

definition arc_evict_t2 :: "bytes \<Rightarrow> block_status \<Rightarrow> arc_manager \<Rightarrow> arc_manager" where
  "arc_evict_t2 h b m =
     m\<lparr>arc_t2 := AList.delete h (arc_t2 m), arc_b2 := AList.update h () (arc_b2 m), arc_backend := cpu_free b (arc_backend m)\<rparr>"

text \<open>
  The eviction loop.  When it cannot evict enough it leaves through \<^verbatim>\<open>return None\<close> with what
  it has evicted so far; the flag says whether it got to its end.
\<close>

fun arc_evict_loop :: "nat \<Rightarrow> arc_manager \<Rightarrow> bytes list \<times> bool \<times> arc_manager" where
  "arc_evict_loop 0 m = ([], True, m)"
| "arc_evict_loop (Suc n) m =
     (case (if \<lfloor>target_t1_size m\<rfloor> \<le> int (length (arc_t1 m)) then first_unused (arc_t1 m) else None) of
        Some (h, b) \<Rightarrow> (case arc_evict_loop n (arc_evict_t1 h b m) of (hs, ok, m1) \<Rightarrow> (h # hs, ok, m1))
      | None \<Rightarrow>
          (case first_unused (arc_t2 m) of
             Some (h, b) \<Rightarrow> (case arc_evict_loop n (arc_evict_t2 h b m) of (hs, ok, m1) \<Rightarrow> (h # hs, ok, m1))
           | None \<Rightarrow> ([], False, m)))"

definition bound_ghosts :: "int \<Rightarrow> (bytes, unit) odict \<Rightarrow> (bytes, unit) odict" where
  "bound_ghosts capacity b = drop (nat (int (length b) - capacity)) b"

text \<open>The loop that inserts the allocated blocks into T1 and forgets their ghosts.\<close>

definition arc_insert :: "bytes list \<Rightarrow> block_status list \<Rightarrow> arc_manager \<Rightarrow> arc_manager" where
  "arc_insert hs bs m =
     fold (\<lambda>(h, b) m. m\<lparr>arc_t1 := AList.update h b (arc_t1 m), arc_b1 := AList.delete h (arc_b1 m), arc_b2 := AList.delete h (arc_b2 m)\<rparr>)
       (zip hs bs) m"

definition arc_prepare_store :: "bytes list \<Rightarrow> arc_manager \<Rightarrow> (prepare_store_output option \<times> arc_manager) result" where
  "arc_prepare_store hs m =
     (let to_store = filter (\<lambda>h. map_of (arc_t1 m) h = None \<and> map_of (arc_t2 m) h = None) hs in
      if to_store = []
      then Inr (Some \<lparr>block_hashes_to_store = [], store_spec = cpu_load_store_spec [], block_hashes_evicted = []\<rparr>, m)
      else
        let n = int (length to_store) - cpu_num_free_blocks (arc_backend m) in
        case arc_evict_loop (nat n) m of
          (to_evict, ok, m1) \<Rightarrow>
            if \<not> ok then Inr (None, m1)
            else
              let m2 = m1\<lparr>arc_b1 := bound_ghosts (cache_capacity m1) (arc_b1 m1), arc_b2 := bound_ghosts (cache_capacity m1) (arc_b2 m1),
                          arc_events := add_event to_evict (be_block_size (arc_backend m1)) True (arc_events m1)\<rparr> in
              rbind (cpu_allocate_blocks (length to_store) (arc_backend m2)) (\<lambda>(blocks, c1).
              rbind (rassert (length blocks = length to_store)) (\<lambda>_.
                Inr (Some \<lparr>block_hashes_to_store = to_store, store_spec = cpu_load_store_spec blocks, block_hashes_evicted = to_evict\<rparr>,
                     arc_insert to_store blocks (m2\<lparr>arc_backend := c1\<rparr>)))))"

fun arc_stored_loop :: "bytes list \<Rightarrow> arc_manager \<Rightarrow> bytes list \<times> arc_manager" where
  "arc_stored_loop [] m = ([], m)"
| "arc_stored_loop (h # hs) m =
     (case arc_get m h of
        Some b \<Rightarrow>
          if \<not> is_ready b
          then (case arc_stored_loop hs (arc_set h (b\<lparr>bs_ref_cnt := 0\<rparr>) m) of (st, m1) \<Rightarrow> (h # st, m1))
          else arc_stored_loop hs m
      | None \<Rightarrow> arc_stored_loop hs m)"

definition arc_drop_one :: "bytes \<Rightarrow> arc_manager \<Rightarrow> arc_manager" where
  "arc_drop_one h m =
     (case map_of (arc_t1 m) h of
        Some b \<Rightarrow>
          let m1 = m\<lparr>arc_t1 := AList.delete h (arc_t1 m)\<rparr> in
          if \<not> is_ready b then m1\<lparr>arc_backend := cpu_free b (arc_backend m1)\<rparr> else m1
      | None \<Rightarrow>
          (case map_of (arc_t2 m) h of
             Some b \<Rightarrow>
               let m1 = m\<lparr>arc_t2 := AList.delete h (arc_t2 m)\<rparr> in
               if \<not> is_ready b then m1\<lparr>arc_backend := cpu_free b (arc_backend m1)\<rparr> else m1
           | None \<Rightarrow> m))"

definition arc_complete_store :: "bytes list \<Rightarrow> bool \<Rightarrow> arc_manager \<Rightarrow> arc_manager" where
  "arc_complete_store hs success m =
     (if success
      then (case arc_stored_loop hs m of
              (st, m1) \<Rightarrow> m1\<lparr>arc_events := add_event st (be_block_size (arc_backend m1)) False (arc_events m1)\<rparr>)
      else fold arc_drop_one hs m)"

definition arc_take_events :: "arc_manager \<Rightarrow> offloading_event list \<times> arc_manager" where
  "arc_take_events m = (case arc_events m of None \<Rightarrow> ([], m) | Some es \<Rightarrow> (es, m\<lparr>arc_events := Some []\<rparr>))"

section \<open>The contract of a backend\<close>

text \<open>
  \<open>inv b ids\<close>: the blocks with the ids \<open>ids\<close> are out, and the backend can hand out
  \<open>nfree b\<close> of its \<open>capacity b\<close> blocks.  Ids that a manager has lost are neither in \<open>ids\<close> nor
  free: the contract allows a leak (\<open>forget\<close>) and never a block that is handed out twice.
\<close>

locale offload_backend =
  fixes inv :: "'b \<Rightarrow> nat multiset \<Rightarrow> bool"
    and nfree :: "'b \<Rightarrow> int"
    and capacity :: "'b \<Rightarrow> int"
    and alloc :: "nat \<Rightarrow> 'b \<Rightarrow> (block_status list \<times> 'b) result"
    and release :: "block_status \<Rightarrow> 'b \<Rightarrow> 'b"
  assumes alloc_law: "inv b I \<Longrightarrow> int n \<le> nfree b \<Longrightarrow>
      \<exists>bs b'. alloc n b = Inr (bs, b') \<and> length bs = n \<and> (\<forall>x \<in> set bs. bs_ref_cnt x = - 1) \<and>
        inv b' (I + mset (map bs_block_id bs)) \<and> nfree b' = nfree b - int n \<and> capacity b' = capacity b"
    and release_law: "inv b (add_mset (bs_block_id x) I) \<Longrightarrow>
      inv (release x b) I \<and> nfree (release x b) = nfree b + 1 \<and> capacity (release x b) = capacity b"
    and forget: "inv b (add_mset i I) \<Longrightarrow> inv b I"
    and unique: "inv b I \<Longrightarrow> count I i \<le> 1"
    and bounded: "inv b I \<Longrightarrow> i \<in># I \<Longrightarrow> int i < capacity b"
    and room: "inv b I \<Longrightarrow> nfree b + int (size I) \<le> capacity b"
begin

lemma release_all:
  assumes "inv b (mset (map bs_block_id bs) + I)"
  shows "inv (fold release bs b) I \<and> nfree (fold release bs b) = nfree b + int (length bs) \<and>
    capacity (fold release bs b) = capacity b"
  using assms
proof (induction bs arbitrary: b)
  case (Cons x bs)
  from Cons.prems have "inv b (add_mset (bs_block_id x) (mset (map bs_block_id bs) + I))" by simp
  from release_law [OF this] Cons.IH [of "release x b"] show ?case by simp
qed simp

text \<open>Giving blocks back makes room: what the managers rely on when they evict before they allocate.\<close>

lemma release_then_alloc:
  assumes "inv b (mset (map bs_block_id bs) + I)" and "int n \<le> nfree b + int (length bs)"
  shows "\<exists>new b'. alloc n (fold release bs b) = Inr (new, b') \<and> length new = n \<and> (\<forall>x \<in> set new. bs_ref_cnt x = - 1) \<and>
    inv b' (I + mset (map bs_block_id new)) \<and> nfree b' = nfree b + int (length bs) - int n \<and> capacity b' = capacity b"
  using release_all [OF assms(1)] alloc_law [of "fold release bs b" I n] assms(2) by simp

end

section \<open>The CPU backend keeps the contract\<close>

definition cpu_inv :: "cpu_backend \<Rightarrow> nat multiset \<Rightarrow> bool" where
  "cpu_inv c I \<longleftrightarrow> I + mset (allocated_blocks_free_list c) \<subseteq># mset [0..<num_allocated_blocks c] \<and>
     int (num_allocated_blocks c) \<le> be_num_blocks c"

lemma mset_upt_add: "mset [0..<m + n] = mset [0..<m] + mset [m..<m + n]"
  by (metis le_add1 mset_append upt_add_eq_append zero_le)

lemma cpu_allocate_law:
  assumes inv: "cpu_inv c I" and n: "int n \<le> cpu_num_free_blocks c"
  shows "\<exists>bs c'. cpu_allocate_blocks n c = Inr (bs, c') \<and> length bs = n \<and> (\<forall>x \<in> set bs. bs_ref_cnt x = - 1) \<and>
    cpu_inv c' (I + mset (map bs_block_id bs)) \<and> cpu_num_free_blocks c' = cpu_num_free_blocks c - int n \<and>
    be_num_blocks c' = be_num_blocks c"
proof -
  define fl where "fl = allocated_blocks_free_list c"
  define f where "f = nat (min (int n) (be_num_blocks c - int (num_allocated_blocks c)))"
  define k where "k = n - f"
  have le: "int (num_allocated_blocks c) \<le> be_num_blocks c"
    and sub: "I + mset fl \<subseteq># mset [0..<num_allocated_blocks c]"
    using inv by (auto simp: cpu_inv_def fl_def)
  have f: "int f = min (int n) (be_num_blocks c - int (num_allocated_blocks c))" and fn: "f \<le> n"
    using le by (auto simp: f_def)
  have k: "int k = int n - min (int n) (be_num_blocks c - int (num_allocated_blocks c))" "nat (int n - int f) = k"
    using f fn by (auto simp: k_def)
  have kl: "k \<le> length fl" using k(1) n le by (auto simp: cpu_num_free_blocks_def fl_def)
  let ?ids = "[num_allocated_blocks c..<num_allocated_blocks c + f] @ take k (rev fl)"
  let ?c = "c\<lparr>num_allocated_blocks := num_allocated_blocks c + f, allocated_blocks_free_list := take (length fl - k) fl\<rparr>"
  have fl: "mset fl = mset (take k (rev fl)) + mset (take (length fl - k) fl)"
    by (metis add.commute append_take_drop_id mset_append mset_rev rev_drop rev_rev_ident kl diff_diff_cancel length_rev rev_take)
  have ids: "map (bs_block_id \<circ> cpu_block_status) xs = xs" for xs
    by (induction xs) (simp_all add: cpu_block_status_def)
  have "cpu_allocate_blocks n c = Inr (map cpu_block_status ?ids, ?c)"
    using kl k(1) by (simp add: cpu_allocate_blocks_def Let_def flip: fl_def f) (simp add: k(2))
  moreover have "cpu_inv ?c (I + mset ?ids)"
  proof -
    have "I + mset fl + mset [num_allocated_blocks c..<num_allocated_blocks c + f] \<subseteq># mset [0..<num_allocated_blocks c + f]"
      unfolding mset_upt_add using sub by (rule subset_mset.add_right_mono)
    moreover have "int (num_allocated_blocks c + f) \<le> be_num_blocks c" using f le by simp
    ultimately show ?thesis using fl by (simp add: cpu_inv_def ac_simps del: mset_upt)
  qed
  moreover have "length (map cpu_block_status ?ids) = n" using kl fn by (simp add: k_def)
  moreover have "\<forall>x \<in> set (map cpu_block_status ?ids). bs_ref_cnt x = - 1" by (auto simp: cpu_block_status_def)
  moreover have "cpu_num_free_blocks ?c = cpu_num_free_blocks c - int n"
    using kl fn by (simp add: cpu_num_free_blocks_def fl_def k_def)
  moreover have "map bs_block_id (map cpu_block_status ?ids) = ?ids" by (simp only: map_map ids)
  moreover have "be_num_blocks ?c = be_num_blocks c" by simp
  ultimately show ?thesis by metis
qed

interpretation cpu: offload_backend cpu_inv cpu_num_free_blocks be_num_blocks cpu_allocate_blocks cpu_free
proof (unfold_locales, goal_cases)
  case (1 c I n)
  then show ?case by (rule cpu_allocate_law)
next
  case (2 c x I)
  then show ?case by (simp add: cpu_inv_def cpu_free_def cpu_num_free_blocks_def ac_simps)
next
  case (3 c i I)
  then show ?case by (auto simp: cpu_inv_def dest: mset_subset_eq_insertD subset_mset.less_imp_le)
next
  case (4 c I i)
  then have "I \<subseteq># mset [0..<num_allocated_blocks c]"
    unfolding cpu_inv_def by (meson mset_subset_eq_add_left subset_mset.order_trans)
  then have "count I i \<le> count (mset [0..<num_allocated_blocks c]) i" by (rule mset_subset_eq_count)
  also have "\<dots> \<le> 1" by (simp add: count_mset_set')
  finally show ?case .
next
  case (5 c I i)
  then have "i \<in># mset [0..<num_allocated_blocks c]"
    unfolding cpu_inv_def by (meson mset_subset_eqD union_iff)
  with 5 show ?case by (simp add: cpu_inv_def)
next
  case (6 c I)
  then have "size (I + mset (allocated_blocks_free_list c)) \<le> num_allocated_blocks c"
    unfolding cpu_inv_def by (metis diff_zero length_upt size_mset size_mset_mono)
  then show ?case by (simp add: cpu_num_free_blocks_def)
qed

end
