(* ===== verification/Offload_LRU.thy ===== *)
theory Offload_LRU
  imports KV_Offload
begin

text \<open>
  Correctness of the LRU offloading manager (\<^verbatim>\<open>vllm/v1/kv_offload/lru_manager.py\<close>) over the
  contract of its backend: no address is used twice and none is lost in any reachable state, what
  \<^verbatim>\<open>prepare_store\<close> evicts and when it gives up, that a stored block is loaded from where it was
  stored, and that a load releases what it pinned as long as the 32 bit counters do not wrap.
\<close>

section \<open>The addresses held by a dictionary\<close>

definition dict_ids :: "status_dict \<Rightarrow> nat multiset" where
  "dict_ids d = mset (map (\<lambda>(h, b). bs_block_id b) d)"

text \<open>The hashes of the blocks that no transfer uses, the least recently used first.\<close>

definition unused :: "status_dict \<Rightarrow> bytes list" where
  "unused d = map fst (filter (\<lambda>(h, b). bs_ref_cnt b = 0) d)"

lemma dict_ids_simps [simp]:
  "dict_ids [] = {#}"
  "dict_ids ((h, b) # d) = add_mset (bs_block_id b) (dict_ids d)"
  "dict_ids (d @ e) = dict_ids d + dict_ids e"
  "size (dict_ids d) = length d"
  by (simp_all add: dict_ids_def)

lemma dict_ids_delete:
  "od_wf d \<Longrightarrow> map_of d h = Some b \<Longrightarrow> dict_ids d = add_mset (bs_block_id b) (dict_ids (AList.delete h d))"
proof (induction d)
  case (Cons e d)
  then have d: "od_wf d" "map_of d (fst e) = None" by (auto simp: od_wf_def map_of_eq_None_iff)
  show ?case
  proof (cases "fst e = h")
    case True
    with d have "AList.delete h d = d" by (simp add: delete_idem map_of_eq_None_iff)
    with True Cons.prems(2) show ?thesis by (cases e) simp
  next
    case False
    with Cons d show ?thesis by (cases e) simp
  qed
qed simp

lemma dict_ids_update_same:
  "od_wf d \<Longrightarrow> map_of d h = Some b \<Longrightarrow> bs_block_id b' = bs_block_id b \<Longrightarrow> dict_ids (AList.update h b' d) = dict_ids d"
  by (induction d) (auto simp: od_wf_def split: if_splits)

lemma od_move_to_end_props:
  assumes "od_wf d" and "od_move_to_end h d = Inr e"
  shows "od_wf e" "map_of e = map_of d" "length e = length d"
  using assms length_delete_mem [of d h]
  by (auto simp: od_move_to_end_def od_wf_def delete_keys distinct_removeAll map_add_def delete_conv' fun_eq_iff
      split: option.splits)

lemma dict_ids_move_to_end: "od_wf d \<Longrightarrow> od_move_to_end h d = Inr e \<Longrightarrow> dict_ids e = dict_ids d"
  by (auto simp: od_move_to_end_def dict_ids_delete split: option.splits)

lemma od_wf_filter: "od_wf d \<Longrightarrow> od_wf (filter P d)"
  by (simp add: od_wf_def distinct_map_filter)

lemma map_of_filter_key: "map_of (filter (\<lambda>(k, v). P k) d) k = (if P k then map_of d k else None)"
  by (induction d) auto

lemma filter_keys_delete:
  "filter (\<lambda>(k, v). k \<notin> set hs) (AList.delete h d) = filter (\<lambda>(k, v). k \<notin> set (h # hs)) d"
  by (auto simp: AList.delete_eq intro!: filter_cong)

lemma pick_evict_eq:
  "0 < n \<Longrightarrow> pick_evict n d = (if n \<le> length (unused d) then Some (take n (unused d)) else None)"
proof (induction n d rule: pick_evict.induct)
  case (2 n h b d)
  then show ?case by (cases n) (auto simp: unused_def)
qed (simp add: unused_def)

lemma unused_iff: "od_wf d \<Longrightarrow> h \<in> set (unused d) \<longleftrightarrow> (\<exists>b. map_of d h = Some b \<and> bs_ref_cnt b = 0)"
  by (force simp: unused_def od_mem_iff [symmetric])

lemma unused_distinct: "od_wf d \<Longrightarrow> distinct (unused d)"
  by (simp add: unused_def od_wf_def distinct_map_filter)

lemma evict_blocks:
  assumes "od_wf d" and "distinct hs" and "\<forall>h \<in> set hs. map_of d h \<noteq> None"
  shows "\<exists>bs. rfold evict_block hs (d, c) = Inr (filter (\<lambda>(h, b). h \<notin> set hs) d, fold cpu_free bs c) \<and>
    length bs = length hs \<and> dict_ids d = mset (map bs_block_id bs) + dict_ids (filter (\<lambda>(h, b). h \<notin> set hs) d)"
  using assms
proof (induction hs arbitrary: d c)
  case Nil
  then show ?case by simp
next
  case (Cons h hs)
  then obtain b where b: "map_of d h = Some b" by auto
  let ?d = "AList.delete h d"
  have step: "evict_block h (d, c) = Inr (?d, cpu_free b c)" using b by (simp add: evict_block_def od_lookup_def)
  have "\<forall>k \<in> set hs. map_of ?d k \<noteq> None" using Cons.prems(2,3) by (auto simp: odict_simps)
  with Cons.IH [of ?d "cpu_free b c"] Cons.prems(1,2) obtain bs where bs:
    "rfold evict_block hs (?d, cpu_free b c) = Inr (filter (\<lambda>(h, b). h \<notin> set hs) ?d, fold cpu_free bs (cpu_free b c))"
    "length bs = length hs" "dict_ids ?d = mset (map bs_block_id bs) + dict_ids (filter (\<lambda>(h, b). h \<notin> set hs) ?d)"
    by auto
  then show ?case
    using step dict_ids_delete [OF Cons.prems(1) b]
    by (intro exI [of _ "b # bs"]) (simp add: filter_keys_delete)
qed

lemma assign_fresh:
  "length bs = length hs \<Longrightarrow> distinct hs \<Longrightarrow> \<forall>h \<in> set hs. map_of d h = None \<Longrightarrow> assign_blocks hs bs d = d @ zip hs bs"
proof (induction hs bs arbitrary: d rule: list_induct2')
  case (4 h hs b bs)
  then have "\<forall>k \<in> set hs. map_of (AList.update h b d) k = None" by (auto simp: odict_simps)
  with 4 show ?case by (simp add: assign_blocks_def update_fresh)
qed (simp_all add: assign_blocks_def)

lemma dict_ids_zip: "length bs = length hs \<Longrightarrow> dict_ids (zip hs bs) = mset (map bs_block_id bs)"
  by (induction hs bs rule: list_induct2') simp_all

lemma mset_distinct: "(\<And>x. count (mset xs) x \<le> 1) \<Longrightarrow> distinct xs"
  by (metis One_nat_def count_mset_0_iff distinct_count_atmost_1 le_SucE le_zero_eq)

section \<open>Invariant\<close>

definition lru_inv :: "lru_manager \<Rightarrow> bool" where
  "lru_inv m \<longleftrightarrow> od_wf (lru_blocks m) \<and> cpu_inv (lru_backend m) (dict_ids (lru_blocks m)) \<and>
     cpu_num_free_blocks (lru_backend m) + int (length (lru_blocks m)) = be_num_blocks (lru_backend m)"

text \<open>Changing counters or the order of the dictionary.\<close>

definition same_ids :: "status_dict \<Rightarrow> status_dict \<Rightarrow> bool" where
  "same_ids d e \<longleftrightarrow> (od_wf d \<longrightarrow> od_wf e \<and> dict_ids e = dict_ids d \<and>
     (\<forall>h. map_option bs_block_id (map_of e h) = map_option bs_block_id (map_of d h)))"

lemma same_ids_refl [simp]: "same_ids d d"
  by (simp add: same_ids_def)

lemma same_ids_trans: "same_ids d e \<Longrightarrow> same_ids e f \<Longrightarrow> same_ids d f"
  by (simp add: same_ids_def)

lemma same_ids_update: "map_of d h = Some b \<Longrightarrow> same_ids d (AList.update h (b\<lparr>bs_ref_cnt := r\<rparr>) d)"
  by (simp add: same_ids_def dict_ids_update_same odict_simps)

lemma same_ids_length: "od_wf d \<Longrightarrow> same_ids d e \<Longrightarrow> length e = length d"
  by (metis dict_ids_simps(4) same_ids_def)

lemma load_loop_same: "load_loop hs d = Inr (bs, e) \<Longrightarrow> same_ids d e"
proof (induction hs arbitrary: d bs)
  case (Cons h hs)
  then obtain b bs' where "map_of d h = Some b" "load_loop hs (AList.update h (b\<lparr>bs_ref_cnt := bs_ref_cnt b + 1\<rparr>) d) = Inr (bs', e)"
    by (auto simp: result_simps Let_def)
  with Cons.IH same_ids_update same_ids_trans show ?case by blast
qed simp

lemma unload_one_same: "unload_one h d = Inr e \<Longrightarrow> same_ids d e"
  by (auto simp: unload_one_def result_simps intro: same_ids_update)

lemma stored_loop_same: "stored_loop hs d = Inr (st, e) \<Longrightarrow> same_ids d e"
proof (induction hs arbitrary: d st)
  case (Cons h hs)
  then obtain b st' where b: "map_of d h = Some b"
    "if is_ready b then stored_loop hs d = Inr (st', e) else stored_loop hs (AList.update h (b\<lparr>bs_ref_cnt := 0\<rparr>) d) = Inr (st', e)"
    by (fastforce simp: result_simps split: if_split_asm)
  show ?case
  proof (cases "is_ready b")
    case True
    with b(2) Cons.IH show ?thesis by simp
  next
    case False
    with b(2) have "stored_loop hs (AList.update h (b\<lparr>bs_ref_cnt := 0\<rparr>) d) = Inr (st', e)" by simp
    from same_ids_trans [OF same_ids_update [OF b(1)] Cons.IH [OF this]] show ?thesis .
  qed
qed simp

lemma touch_one_same: "lru_touch_one h d = Inr e \<Longrightarrow> same_ids d e"
  by (auto simp: lru_touch_one_def same_ids_def dict_ids_move_to_end od_move_to_end_props split: if_splits)

lemma rfold_same:
  "rfold f hs d = Inr e \<Longrightarrow> (\<And>h d e. f h d = Inr e \<Longrightarrow> same_ids d e) \<Longrightarrow> same_ids d e"
  by (rule rfold_invariant [where I = "same_ids d"]) (auto intro: same_ids_trans)

lemma lru_inv_same_ids: "lru_inv m \<Longrightarrow> same_ids (lru_blocks m) d \<Longrightarrow> lru_inv (m\<lparr>lru_blocks := d\<rparr>)"
  using same_ids_length [of "lru_blocks m" d] by (simp add: lru_inv_def same_ids_def)

lemma lru_inv_events [simp]: "lru_inv (m\<lparr>lru_events := es\<rparr>) = lru_inv m"
  by (simp add: lru_inv_def)

lemma drop_one_inv:
  assumes "od_wf d" "cpu_inv c (dict_ids d)" "cpu_num_free_blocks c + int (length d) = be_num_blocks c"
    and "drop_one h (d, c) = Inr (d', c')"
  shows "od_wf d' \<and> cpu_inv c' (dict_ids d') \<and> cpu_num_free_blocks c' + int (length d') = be_num_blocks c' \<and>
    be_num_blocks c' = be_num_blocks c"
proof -
  from assms(4) obtain b where b: "map_of d h = Some b"
    and s: "(d', c') = (if is_ready b then (d, c) else (AList.delete h d, cpu_free b c))"
    by (auto simp: drop_one_def result_simps split: if_split_asm)
  from assms(2) dict_ids_delete [OF assms(1) b]
  have "cpu_inv c (add_mset (bs_block_id b) (dict_ids (AList.delete h d)))" by simp
  from cpu.release_law [OF this] length_delete_mem [OF assms(1) b] assms s show ?thesis
    by (auto split: if_splits)
qed

text \<open>
  \<^verbatim>\<open>prepare_store\<close> as one equation: with \<open>new\<close> the hashes that are not there and \<open>need\<close> the
  number of blocks that are missing, it gives up without any effect when fewer than \<open>need\<close> blocks
  are unused, and otherwise evicts the \<open>need\<close> oldest unused blocks and appends the new ones.
\<close>

lemma lru_prepare_store_eq:
  assumes inv: "lru_inv m" and hs: "distinct hs"
    and new: "new = filter (\<lambda>h. map_of (lru_blocks m) h = None) hs"
    and need: "need = nat (int (length new) - cpu_num_free_blocks (lru_backend m))"
  shows "if length (unused (lru_blocks m)) < need then lru_prepare_store hs m = Inr (None, m)
    else \<exists>blocks c es. let out = take need (unused (lru_blocks m));
          m' = m\<lparr>lru_backend := c, lru_events := es, lru_blocks := filter (\<lambda>(h, b). h \<notin> set out) (lru_blocks m) @ zip new blocks\<rparr> in
      lru_prepare_store hs m = Inr (Some \<lparr>block_hashes_to_store = new, store_spec = map bs_block_id blocks, block_hashes_evicted = out\<rparr>, m') \<and>
      length blocks = length new \<and> (\<forall>b \<in> set blocks. bs_ref_cnt b = - 1) \<and> lru_inv m' \<and> be_num_blocks c = be_num_blocks (lru_backend m)"
proof -
  define d where "d = lru_blocks m"
  define c where "c = lru_backend m"
  define out where "out = take need (unused d)"
  define d1 where "d1 = filter (\<lambda>(h, b). h \<notin> set out) d"
  have wf: "od_wf d" and ci: "cpu_inv c (dict_ids d)" and full: "cpu_num_free_blocks c + int (length d) = be_num_blocks c"
    using inv by (auto simp: lru_inv_def d_def c_def)
  have pick: "(if 0 < int (length new) - cpu_num_free_blocks c then pick_evict (nat (int (length new) - cpu_num_free_blocks c)) d else Some []) =
      (if need \<le> length (unused d) then Some out else None)"
    by (auto simp: need out_def c_def d_def pick_evict_eq)
  have new': "new = filter (\<lambda>h. map_of d h = None) hs" by (simp add: new d_def)
  note unfold = lru_prepare_store_def Let_def d_def [symmetric] c_def [symmetric] new' [symmetric] pick
  show ?thesis
  proof (cases "length (unused d) < need")
    case True
    then show ?thesis unfolding unfold by simp
  next
    case False
    have out: "distinct out" "\<forall>h \<in> set out. map_of d h \<noteq> None" "length out = need"
      using unused_distinct [OF wf] unused_iff [OF wf] False by (auto simp: out_def dest!: in_set_takeD)
    from evict_blocks [OF wf out(1,2), of c] obtain bs where bs: "rfold evict_block out (d, c) = Inr (d1, fold cpu_free bs c)"
      "length bs = need" "dict_ids d = mset (map bs_block_id bs) + dict_ids d1"
      by (auto simp: d1_def out(3))
    have "int (length new) \<le> cpu_num_free_blocks c + int (length bs)" using bs(2) need by (simp add: c_def)
    with cpu.release_then_alloc [of c bs "dict_ids d1" "length new"] ci bs(3) obtain blocks c1 where a:
      "cpu_allocate_blocks (length new) (fold cpu_free bs c) = Inr (blocks, c1)" "length blocks = length new"
      "\<forall>x \<in> set blocks. bs_ref_cnt x = - 1" "cpu_inv c1 (dict_ids d1 + mset (map bs_block_id blocks))"
      "cpu_num_free_blocks c1 = cpu_num_free_blocks c + int (length bs) - int (length new)" "be_num_blocks c1 = be_num_blocks c"
      by auto
    have fresh: "distinct new" "\<forall>h \<in> set new. map_of d1 h = None"
      using hs by (auto simp: new d1_def d_def map_of_filter_key)
    have dwf: "od_wf (d1 @ zip new blocks)"
      using fresh a(2) od_wf_filter [OF wf] by (auto simp: od_wf_def d1_def map_of_eq_None_iff)
    have len: "length d = need + length d1" by (metis bs(2,3) dict_ids_simps(4) length_map size_mset size_union)
    let ?es = "add_event out (be_block_size (fold cpu_free bs c)) True (lru_events m)"
    let ?m = "m\<lparr>lru_backend := c1, lru_events := ?es, lru_blocks := d1 @ zip new blocks\<rparr>"
    have "lru_inv ?m"
      using dwf a(2,4,5,6) full len bs(2) by (simp add: lru_inv_def dict_ids_zip)
    moreover have "lru_prepare_store hs m =
        Inr (Some \<lparr>block_hashes_to_store = new, store_spec = map bs_block_id blocks, block_hashes_evicted = out\<rparr>, ?m)"
      unfolding unfold using False bs(1) a(1,2) fresh by (simp add: assign_fresh cpu_load_store_spec_def)
    ultimately have "\<exists>blocks c es. let m' = m\<lparr>lru_backend := c, lru_events := es, lru_blocks := d1 @ zip new blocks\<rparr> in
      lru_prepare_store hs m = Inr (Some \<lparr>block_hashes_to_store = new, store_spec = map bs_block_id blocks, block_hashes_evicted = out\<rparr>, m') \<and>
      length blocks = length new \<and> (\<forall>b \<in> set blocks. bs_ref_cnt b = - 1) \<and> lru_inv m' \<and> be_num_blocks c = be_num_blocks (lru_backend m)"
      using a(2,3,6) unfolding Let_def c_def by blast
    with False show ?thesis unfolding d_def [symmetric] out_def [symmetric] d1_def [symmetric] Let_def by simp
  qed
qed

lemma lru_prepare_store_inv:
  assumes "lru_inv m" and "distinct hs" and "lru_prepare_store hs m = Inr (out, m')"
  shows "lru_inv m' \<and> be_num_blocks (lru_backend m') = be_num_blocks (lru_backend m)"
  using lru_prepare_store_eq [OF assms(1,2) refl refl] assms(1,3) by (auto simp: Let_def split: if_splits)

lemma lru_complete_store_inv:
  assumes inv: "lru_inv m" and run: "lru_complete_store hs success m = Inr m'"
  shows "lru_inv m' \<and> be_num_blocks (lru_backend m') = be_num_blocks (lru_backend m)"
proof (cases success)
  case True
  with run obtain st d where "stored_loop hs (lru_blocks m) = Inr (st, d)" and m': "\<exists>es. m' = m\<lparr>lru_blocks := d\<rparr>\<lparr>lru_events := es\<rparr>"
    by (auto simp: lru_complete_store_def result_simps)
  from lru_inv_same_ids [OF inv stored_loop_same [OF this(1)]] m' show ?thesis by auto
next
  case False
  let ?I = "\<lambda>(d, c). od_wf d \<and> cpu_inv c (dict_ids d) \<and> cpu_num_free_blocks c + int (length d) = be_num_blocks c \<and>
    be_num_blocks c = be_num_blocks (lru_backend m)"
  from False run obtain d c where r: "rfold drop_one hs (lru_blocks m, lru_backend m) = Inr (d, c)"
    and m': "m' = m\<lparr>lru_blocks := d, lru_backend := c\<rparr>"
    by (auto simp: lru_complete_store_def result_simps)
  have "?I (d, c)"
  proof (rule rfold_invariant [where I = ?I, OF r])
    fix h s s'
    assume I: "?I s" and step: "drop_one h s = Inr s'"
    obtain d c d' c' where s: "s = (d, c)" "s' = (d', c')" by (metis surj_pair)
    with I have "od_wf d" "cpu_inv c (dict_ids d)" "cpu_num_free_blocks c + int (length d) = be_num_blocks c"
      "be_num_blocks c = be_num_blocks (lru_backend m)" by simp_all
    with drop_one_inv [of d c h d' c'] step s show "?I s'" by simp
  qed (use inv in \<open>simp add: lru_inv_def\<close>)
  with m' show ?thesis by (simp add: lru_inv_def)
qed

section \<open>Reachable managers\<close>

inductive lru_reachable :: "nat \<Rightarrow> lru_manager \<Rightarrow> bool" where
  init: "lru_reachable n (lru_init (cpu_backend_init block_size n) enable_events)"
| prepare_load: "lru_reachable n m \<Longrightarrow> lru_prepare_load hs m = Inr (ids, m') \<Longrightarrow> lru_reachable n m'"
| touch: "lru_reachable n m \<Longrightarrow> lru_touch hs m = Inr m' \<Longrightarrow> lru_reachable n m'"
| complete_load: "lru_reachable n m \<Longrightarrow> lru_complete_load hs m = Inr m' \<Longrightarrow> lru_reachable n m'"
| prepare_store: "lru_reachable n m \<Longrightarrow> distinct hs \<Longrightarrow> lru_prepare_store hs m = Inr (out, m') \<Longrightarrow> lru_reachable n m'"
| complete_store: "lru_reachable n m \<Longrightarrow> lru_complete_store hs success m = Inr m' \<Longrightarrow> lru_reachable n m'"
| take_events: "lru_reachable n m \<Longrightarrow> lru_reachable n (snd (lru_take_events m))"

lemma lru_reachable_inv: "lru_reachable n m \<Longrightarrow> lru_inv m \<and> be_num_blocks (lru_backend m) = int n"
proof (induction rule: lru_reachable.induct)
  case (init n block_size enable_events)
  show ?case by (simp add: lru_inv_def lru_init_def cpu_backend_init_def cpu_inv_def cpu_num_free_blocks_def)
next
  case (prepare_load n m hs ids m')
  then show ?case by (auto simp: lru_prepare_load_def result_simps intro: lru_inv_same_ids load_loop_same)
next
  case (touch n m hs m')
  then show ?case by (auto simp: lru_touch_def result_simps intro: lru_inv_same_ids rfold_same touch_one_same)
next
  case (complete_load n m hs m')
  then show ?case by (auto simp: lru_complete_load_def result_simps intro: lru_inv_same_ids rfold_same unload_one_same)
next
  case (prepare_store n m hs out m')
  then show ?case using lru_prepare_store_inv by metis
next
  case (complete_store n m hs success m')
  then show ?case using lru_complete_store_inv by metis
next
  case (take_events n m)
  then show ?case by (simp add: lru_take_events_def split: option.splits)
qed

section \<open>Loops over distinct hashes\<close>

lemma dict_lookup_all: "(\<And>h. h \<in> set hs \<Longrightarrow> \<exists>b. get h = Some b \<and> is_ready b) \<Longrightarrow> dict_lookup get hs = length hs"
  by (induction hs) fastforce+

lemma stored_loop_distinct:
  assumes "distinct hs" and "\<forall>h \<in> set hs. \<exists>b. map_of d h = Some b \<and> \<not> is_ready b"
  shows "\<exists>e. stored_loop hs d = Inr (hs, e) \<and>
    (\<forall>h. map_of e h = (if h \<in> set hs then map_option (\<lambda>b. b\<lparr>bs_ref_cnt := 0\<rparr>) (map_of d h) else map_of d h))"
  using assms
proof (induction hs arbitrary: d)
  case (Cons h hs)
  then obtain b where b: "map_of d h = Some b" "\<not> is_ready b" by auto
  let ?d = "AList.update h (b\<lparr>bs_ref_cnt := 0\<rparr>) d"
  have "\<forall>k \<in> set hs. \<exists>b. map_of ?d k = Some b \<and> \<not> is_ready b" using Cons.prems by (auto simp: odict_simps)
  with Cons.IH [of ?d] Cons.prems(1) obtain e where "stored_loop hs ?d = Inr (hs, e)"
    "\<forall>k. map_of e k = (if k \<in> set hs then map_option (\<lambda>b. b\<lparr>bs_ref_cnt := 0\<rparr>) (map_of ?d k) else map_of ?d k)"
    by auto
  with b Cons.prems(1) show ?case by (auto simp: od_lookup_def odict_simps)
qed simp

lemma load_loop_distinct:
  assumes "distinct hs" and "\<forall>h \<in> set hs. \<exists>b. map_of d h = Some b \<and> is_ready b"
  shows "\<exists>e. load_loop hs d = Inr (map (\<lambda>h. let b = the (map_of d h) in b\<lparr>bs_ref_cnt := bs_ref_cnt b + 1\<rparr>) hs, e)"
  using assms
proof (induction hs arbitrary: d)
  case (Cons h hs)
  then obtain b where b: "map_of d h = Some b" "is_ready b" by auto
  let ?d = "AList.update h (b\<lparr>bs_ref_cnt := bs_ref_cnt b + 1\<rparr>) d"
  have "\<forall>k \<in> set hs. \<exists>b. map_of ?d k = Some b \<and> is_ready b" and same: "\<And>k. k \<in> set hs \<Longrightarrow> map_of ?d k = map_of d k"
    using Cons.prems by (auto simp: odict_simps)
  with Cons.IH [of ?d] Cons.prems(1) obtain e where
    "load_loop hs ?d = Inr (map (\<lambda>h. let b = the (map_of ?d h) in b\<lparr>bs_ref_cnt := bs_ref_cnt b + 1\<rparr>) hs, e)"
    by auto
  with b same show ?case by (simp add: od_lookup_def Let_def cong: map_cong)
qed simp

section \<open>Counters of 32 bits\<close>

lemma sint_add_nat:
  fixes r :: "32 word"
  assumes "- (2 ^ 31) \<le> sint r + k" and "sint r + k < 2 ^ 31"
  shows "sint (r + of_int k) = sint r + k"
proof -
  have "r + of_int k = of_int (sint r + k)" by simp
  also have "sint \<dots> = sint r + k"
    using assms by (simp add: signed_of_int signed_take_bit_int_eq_self del: of_int_add)
  finally show ?thesis .
qed

text \<open>All counters moved by what a list of hashes contributes.\<close>

definition bump :: "int \<Rightarrow> bytes list \<Rightarrow> status_dict \<Rightarrow> status_dict" where
  "bump s hs d = map (\<lambda>(h, b). (h, b\<lparr>bs_ref_cnt := bs_ref_cnt b + of_int (s * int (count_list hs h))\<rparr>)) d"

lemma bump_Nil [simp]: "bump s [] d = d"
  by (auto simp: bump_def intro!: map_idI)

lemma map_of_bump: "map_of (bump s hs d) h = map_option (\<lambda>b. b\<lparr>bs_ref_cnt := bs_ref_cnt b + of_int (s * int (count_list hs h))\<rparr>) (map_of d h)"
  by (induction d) (auto simp: bump_def)

lemma update_bump:
  "od_wf d \<Longrightarrow> map_of d h = Some b \<Longrightarrow> AList.update h (b\<lparr>bs_ref_cnt := bs_ref_cnt b + of_int s\<rparr>) d = bump s [h] d"
proof (induction d)
  case (Cons e d)
  then have d: "od_wf d" "fst e \<notin> fst ` set d" by (auto simp: od_wf_def)
  have same: "k \<notin> fst ` set d \<Longrightarrow> bump s [k] d = d" for k by (force simp: bump_def intro!: map_idI)
  show ?case
  proof (cases "fst e = h")
    case True
    with Cons.prems(2) d(2) same [of h] show ?thesis by (cases e) (simp add: bump_def)
  next
    case False
    with Cons d(1) show ?thesis by (cases e) (simp add: bump_def)
  qed
qed simp

lemma bump_bump: "bump s hs (bump s [h] d) = bump s (h # hs) d"
  by (auto simp: bump_def algebra_simps intro!: map_cong)

lemma bump_cancel: "bump (- 1) hs (bump 1 hs d) = d"
  by (auto simp: bump_def intro!: map_idI)

lemma od_wf_bump [simp]: "od_wf (bump s hs d) = od_wf d"
  by (simp add: od_wf_def bump_def case_prod_unfold comp_def)

lemma load_loop_bump:
  "od_wf d \<Longrightarrow> load_loop hs d = Inr (bs, e) \<Longrightarrow> e = bump 1 hs d \<and> (\<forall>h \<in> set hs. \<exists>b. map_of d h = Some b \<and> is_ready b)"
proof (induction hs arbitrary: d bs)
  case (Cons h hs)
  then obtain b bs' where b: "map_of d h = Some b" "load_loop hs (AList.update h (b\<lparr>bs_ref_cnt := bs_ref_cnt b + 1\<rparr>) d) = Inr (bs', e)" "is_ready b"
    by (auto simp: result_simps Let_def)
  have u: "AList.update h (b\<lparr>bs_ref_cnt := bs_ref_cnt b + 1\<rparr>) d = bump 1 [h] d"
    using update_bump [OF Cons.prems(1) b(1), of 1] by simp
  from Cons.IH [of "bump 1 [h] d" bs'] b(2) u Cons.prems(1)
  have IH: "e = bump 1 (h # hs) d" "\<forall>k \<in> set hs. \<exists>b. map_of (bump 1 [h] d) k = Some b \<and> is_ready b"
    by (simp_all add: bump_bump)
  have "\<exists>b. map_of d k = Some b \<and> is_ready b" if "k \<in> set hs" for k
    using IH(2) that b(1,3) by (cases "k = h") (auto simp: map_of_bump is_ready_def)
  with IH(1) b(1,3) show ?case by auto
qed simp

lemma unload_loop_bump:
  assumes "od_wf d"
    and "\<forall>h \<in> set hs. \<exists>b. map_of d h = Some b \<and> int (count_list hs h) \<le> sint (bs_ref_cnt b)"
  shows "rfold unload_one hs d = Inr (bump (- 1) hs d)"
  using assms
proof (induction hs arbitrary: d)
  case (Cons h hs)
  then obtain b where b: "map_of d h = Some b" "int (count_list (h # hs) h) \<le> sint (bs_ref_cnt b)" by auto
  have dec: "sint (r + of_int (- 1)) = sint r - 1" if "0 < sint r" for r :: "32 word"
    using sint_add_nat [of r "- 1"] that sint_lt [of r] by simp
  have u: "AList.update h (b\<lparr>bs_ref_cnt := bs_ref_cnt b - 1\<rparr>) d = bump (- 1) [h] d"
    using update_bump [OF Cons.prems(1) b(1), of "- 1"] by simp
  with b have step: "unload_one h d = Inr (bump (- 1) [h] d)" by (simp add: unload_one_def od_lookup_def)
  have "\<exists>b. map_of (bump (- 1) [h] d) k = Some b \<and> int (count_list hs k) \<le> sint (bs_ref_cnt b)" if "k \<in> set hs" for k
    using Cons.prems(2) that b dec [of "bs_ref_cnt b"] by (cases "k = h") (auto simp: map_of_bump)
  with Cons.IH [of "bump (- 1) [h] d"] Cons.prems(1) step show ?case by (simp add: bump_bump)
qed simp

section \<open>Claims\<close>

text \<open>
  C24: In every reachable LRU manager the addresses that the backend ever handed out are, each exactly
  once, in the table or in the free list; so no two blocks share an address, none is lost, and the
  number of free blocks is the capacity less the number of blocks in the table.
\<close>

theorem lru_accounting:
  assumes "lru_reachable n m"
  shows "mset (map (\<lambda>(h, b). bs_block_id b) (lru_blocks m)) + mset (allocated_blocks_free_list (lru_backend m)) =
      mset [0..<num_allocated_blocks (lru_backend m)] \<and>
    num_allocated_blocks (lru_backend m) \<le> n \<and> distinct (map fst (lru_blocks m)) \<and>
    cpu_num_free_blocks (lru_backend m) = int n - int (length (lru_blocks m))"
proof -
  have inv: "lru_inv m" and n: "be_num_blocks (lru_backend m) = int n" using lru_reachable_inv [OF assms] by auto
  let ?A = "dict_ids (lru_blocks m) + mset (allocated_blocks_free_list (lru_backend m))"
  have sub: "?A \<subseteq># mset [0..<num_allocated_blocks (lru_backend m)]"
    and full: "cpu_num_free_blocks (lru_backend m) + int (length (lru_blocks m)) = int n"
    using inv n by (auto simp: lru_inv_def cpu_inv_def)
  have "size ?A = size (mset [0..<num_allocated_blocks (lru_backend m)])"
    using full n by (simp add: cpu_num_free_blocks_def)
  with sub have "?A = mset [0..<num_allocated_blocks (lru_backend m)]"
    by (metis mset_subset_size nat_neq_iff subset_mset.le_imp_less_or_eq)
  with full inv n show ?thesis by (simp add: dict_ids_def lru_inv_def cpu_inv_def od_wf_def)
qed

text \<open>
  C25: What \<^verbatim>\<open>prepare_store\<close> does in every reachable manager.  With \<open>new\<close> the given hashes that have
  no block and \<open>need\<close> the number of blocks that are missing, it answers \<^verbatim>\<open>None\<close> and changes nothing
  when fewer than \<open>need\<close> blocks are unused.  Otherwise it never raises, evicts exactly the \<open>need\<close>
  least recently used of the unused blocks, keeps every other block and its place, appends the new ones
  at pairwise distinct addresses that no kept block has, and marks them as not ready.
\<close>

theorem lru_prepare_store_spec:
  assumes "lru_reachable n m" and "distinct hs"
    and "new = filter (\<lambda>h. map_of (lru_blocks m) h = None) hs"
    and "need = nat (int (length new) - cpu_num_free_blocks (lru_backend m))"
    and "out = take need (unused (lru_blocks m))"
    and "kept = filter (\<lambda>(h, b). h \<notin> set out) (lru_blocks m)"
  shows "if length (unused (lru_blocks m)) < need then lru_prepare_store hs m = Inr (None, m)
    else \<exists>ids m'. lru_prepare_store hs m = Inr (Some \<lparr>block_hashes_to_store = new, store_spec = ids, block_hashes_evicted = out\<rparr>, m') \<and>
      length ids = length new \<and> lru_blocks m' = kept @ zip new (map cpu_block_status ids) \<and>
      distinct (map (\<lambda>(h, b). bs_block_id b) (lru_blocks m')) \<and> (\<forall>i \<in> set ids. i < n)"
proof (cases "length (unused (lru_blocks m)) < need")
  case True
  with lru_prepare_store_eq [OF _ assms(2,3,4)] lru_reachable_inv [OF assms(1)] show ?thesis by simp
next
  case False
  with lru_prepare_store_eq [OF _ assms(2,3,4)] lru_reachable_inv [OF assms(1)] assms(5,6)
  obtain blocks c es m' where m': "m' = m\<lparr>lru_backend := c, lru_events := es, lru_blocks := kept @ zip new blocks\<rparr>"
    and run: "lru_prepare_store hs m = Inr (Some \<lparr>block_hashes_to_store = new, store_spec = map bs_block_id blocks, block_hashes_evicted = out\<rparr>, m')"
    and b: "length blocks = length new" "\<forall>b \<in> set blocks. bs_ref_cnt b = - 1" and inv: "lru_inv m'" "be_num_blocks c = int n"
    by (auto simp: Let_def)
  have status: "map cpu_block_status (map bs_block_id blocks) = blocks"
    using b(2) by (auto simp: cpu_block_status_def intro!: map_idI)
  have ci: "cpu_inv c (dict_ids (kept @ zip new blocks))" using inv(1) by (simp add: lru_inv_def m')
  have "distinct (map (\<lambda>(h, b). bs_block_id b) (lru_blocks m'))"
    using cpu.unique [OF ci] by (intro mset_distinct) (simp add: m' dict_ids_def)
  moreover have "i < n" if "i \<in> set (map bs_block_id blocks)" for i
    using cpu.bounded [OF ci, of i] that inv(2) b(1) by (simp add: dict_ids_zip)
  ultimately show ?thesis using False run b(1) status by (auto simp: m')
qed

text \<open>
  C26: A stored block is found and loaded from where it was stored: the blocks that \<^verbatim>\<open>prepare_store\<close>
  reserved cannot be looked up before the store completes; \<^verbatim>\<open>complete_store\<close> does not raise, after it
  all of them are found, and \<^verbatim>\<open>prepare_load\<close> returns exactly the addresses that \<^verbatim>\<open>prepare_store\<close>
  returned.
\<close>

theorem lru_store_load_roundtrip:
  assumes "lru_reachable n m" and "distinct hs" and "lru_prepare_store hs m = Inr (Some res, m1)"
  shows "(\<forall>h \<in> set (block_hashes_to_store res). lru_lookup [h] m1 = 0) \<and>
    (\<exists>m2 m3. lru_complete_store (block_hashes_to_store res) True m1 = Inr m2 \<and>
      lru_lookup (block_hashes_to_store res) m2 = length (block_hashes_to_store res) \<and>
      lru_prepare_load (block_hashes_to_store res) m2 = Inr (store_spec res, m3))"
proof -
  define new where "new = filter (\<lambda>h. map_of (lru_blocks m) h = None) hs"
  have inv: "lru_inv m" using lru_reachable_inv [OF assms(1)] by simp
  obtain blocks kept where b: "lru_blocks m1 = kept @ zip new blocks" "length blocks = length new"
    "\<forall>b \<in> set blocks. bs_ref_cnt b = - 1" "\<forall>h \<in> set new. map_of kept h = None"
    and res: "block_hashes_to_store res = new" "store_spec res = map bs_block_id blocks"
    using lru_prepare_store_eq [OF inv assms(2) new_def refl] assms(3)
    by (auto simp: Let_def new_def map_of_filter_key split: if_splits)
  have dn: "distinct new" using assms(2) by (simp add: new_def)
  have get: "map_of (lru_blocks m1) h = map_of (zip new blocks) h" if "h \<in> set new" for h
    using that b(1,4) by (simp add: map_add_def split: option.splits)
  have nth: "map_of (zip new blocks) (new ! i) = Some (blocks ! i)" if "i < length new" for i
    using that dn b(2) by (simp add: map_of_zip_nth)
  have st: "\<exists>b. map_of (lru_blocks m1) h = Some b \<and> \<not> is_ready b" if "h \<in> set new" for h
  proof -
    from that obtain i where i: "i < length new" "h = new ! i" by (auto simp: in_set_conv_nth)
    with b(2,3) have "bs_ref_cnt (blocks ! i) = - 1" by simp
    with get [OF that] nth [OF i(1)] i(2) show ?thesis by (simp add: is_ready_def)
  qed
  from stored_loop_distinct [OF dn] st obtain e where e: "stored_loop new (lru_blocks m1) = Inr (new, e)"
    "\<forall>h. map_of e h = (if h \<in> set new then map_option (\<lambda>b. b\<lparr>bs_ref_cnt := 0\<rparr>) (map_of (lru_blocks m1) h) else map_of (lru_blocks m1) h)"
    by blast
  have ready: "\<exists>b. map_of e h = Some b \<and> is_ready b" if "h \<in> set new" for h
    using that st [OF that] by (auto simp: e(2) is_ready_def)
  have "map (\<lambda>h. bs_block_id (the (map_of e h))) new = map bs_block_id blocks"
    using get nth b(2) by (intro nth_equalityI) (simp_all add: e(2))
  with load_loop_distinct [OF dn, of e] ready obtain f where
    f: "load_loop new e = Inr f" "map bs_block_id (fst f) = map bs_block_id blocks"
    by (fastforce simp: Let_def comp_def)
  from e(1) obtain es where "lru_complete_store new True m1 = Inr (m1\<lparr>lru_blocks := e, lru_events := es\<rparr>)"
    by (simp add: lru_complete_store_def)
  then show ?thesis
    using f dict_lookup_all [of new "map_of e"] ready
    by (auto simp: res lru_lookup_def lru_prepare_load_def cpu_load_store_spec_def split: prod.splits dest!: st)
qed

text \<open>
  C27: A load pins its blocks and releases exactly what it pinned.  As long as the 32 bit counters do
  not pass \<open>2\<^sup>3\<^sup>1 - 1\<close>, after a \<^verbatim>\<open>prepare_load\<close> no \<^verbatim>\<open>prepare_store\<close> evicts or moves
  one of its blocks, and \<^verbatim>\<open>complete_load\<close> does not raise and gives back the manager as it was.
\<close>

theorem lru_load_pins:
  assumes "lru_reachable n m" and "lru_prepare_load hs m = Inr (ids, m1)"
    and "\<forall>(h, b) \<in> set (lru_blocks m). sint (bs_ref_cnt b) + int (count_list hs h) < 2 ^ 31"
  shows "lru_complete_load hs m1 = Inr m \<and>
    (\<forall>ks res m2. distinct ks \<longrightarrow> lru_prepare_store ks m1 = Inr (res, m2) \<longrightarrow>
      (\<forall>h \<in> set hs. map_of (lru_blocks m2) h = map_of (lru_blocks m1) h \<and> map_of (lru_blocks m1) h \<noteq> None))"
proof -
  define d where "d = lru_blocks m"
  have wf: "od_wf d" using lru_reachable_inv [OF assms(1)] by (simp add: lru_inv_def d_def)
  have inv1: "lru_inv m1" using lru_reachable_inv [OF lru_reachable.prepare_load [OF assms(1,2)]] by simp
  from assms(2) obtain bs where l: "load_loop hs d = Inr (bs, lru_blocks m1)" and m1: "m1 = m\<lparr>lru_blocks := lru_blocks m1\<rparr>"
    by (auto simp: lru_prepare_load_def result_simps d_def)
  from load_loop_bump [OF wf l] have e: "lru_blocks m1 = bump 1 hs d"
    and ready: "\<forall>h \<in> set hs. \<exists>b. map_of d h = Some b \<and> is_ready b" by auto
  have pinned: "\<exists>b. map_of (lru_blocks m1) h = Some b \<and> int (count_list hs h) \<le> sint (bs_ref_cnt b)" if "h \<in> set hs" for h
  proof -
    from ready that obtain b where b: "map_of d h = Some b" "0 \<le> sint (bs_ref_cnt b)" by (auto simp: is_ready_def)
    then have "(h, b) \<in> set (lru_blocks m)" by (simp add: d_def map_of_SomeD)
    with assms(3) have "sint (bs_ref_cnt b) + int (count_list hs h) < 2 ^ 31" by auto
    with b sint_add_nat [of "bs_ref_cnt b" "int (count_list hs h)"] show ?thesis by (simp add: e map_of_bump)
  qed
  then have "rfold unload_one hs (lru_blocks m1) = Inr d"
    using unload_loop_bump [of "lru_blocks m1" hs] wf by (simp add: e bump_cancel)
  then have restored: "lru_complete_load hs m1 = Inr m" by (subst m1) (simp add: lru_complete_load_def d_def)
  have kept: "map_of (lru_blocks m2) h = map_of (lru_blocks m1) h"
    if "distinct ks" and "lru_prepare_store ks m1 = Inr (res, m2)" and "h \<in> set hs" for ks res m2 h
  proof -
    from pinned [OF that(3)] that(3) obtain b where b: "map_of (lru_blocks m1) h = Some b" "0 < sint (bs_ref_cnt b)"
      by (metis count_list_0_iff dual_order.strict_trans1 of_nat_0_less_iff gr0I)
    then have "h \<notin> set (unused (lru_blocks m1))" using inv1 by (auto simp: unused_iff lru_inv_def)
    then have "h \<notin> set (take k (unused (lru_blocks m1)))" for k by (meson in_set_takeD)
    with lru_prepare_store_eq [OF inv1 that(1) refl refl] that(2) b(1) show ?thesis
      by (auto simp: Let_def map_add_def map_of_filter_key split: if_split_asm)
  qed
  show ?thesis using restored kept pinned by fastforce
qed

section \<open>Witnesses\<close>

text \<open>A manager of two blocks, after a store and its completion.\<close>

definition tiny_lru :: lru_manager where
  "tiny_lru = lru_init (cpu_backend_init 16 2) True"

definition tiny_lru_stored :: lru_manager where
  "tiny_lru_stored = \<lparr>lru_backend = \<lparr>be_block_size = 16, be_num_blocks = 2, num_allocated_blocks = 2, allocated_blocks_free_list = []\<rparr>,
     lru_blocks = [([1], \<lparr>bs_ref_cnt = 0, bs_block_id = 0\<rparr>), ([2], \<lparr>bs_ref_cnt = 0, bs_block_id = 1\<rparr>)],
     lru_events = Some [\<lparr>oe_block_hashes = [[1], [2]], oe_block_size = 16, oe_removed = False\<rparr>]\<rparr>"

lemma tiny_lru_reachable: "lru_reachable 2 tiny_lru"
  unfolding tiny_lru_def by (rule lru_reachable.init)

lemma tiny_lru_stored_reachable: "lru_reachable 2 tiny_lru_stored"
proof (rule lru_reachable.complete_store [OF lru_reachable.prepare_store [OF tiny_lru_reachable]])
  show "distinct [[1], [2 :: 8 word]]" by simp
  show "lru_prepare_store [[1], [2]] tiny_lru =
      Inr (Some \<lparr>block_hashes_to_store = [[1], [2]], store_spec = [0, 1], block_hashes_evicted = []\<rparr>,
        \<lparr>lru_backend = \<lparr>be_block_size = 16, be_num_blocks = 2, num_allocated_blocks = 2, allocated_blocks_free_list = []\<rparr>,
         lru_blocks = [([1], \<lparr>bs_ref_cnt = - 1, bs_block_id = 0\<rparr>), ([2], \<lparr>bs_ref_cnt = - 1, bs_block_id = 1\<rparr>)], lru_events = Some []\<rparr>)"
    by code_simp
  show "lru_complete_store [[1], [2]] True
        \<lparr>lru_backend = \<lparr>be_block_size = 16, be_num_blocks = 2, num_allocated_blocks = 2, allocated_blocks_free_list = []\<rparr>,
         lru_blocks = [([1], \<lparr>bs_ref_cnt = - 1, bs_block_id = 0\<rparr>), ([2], \<lparr>bs_ref_cnt = - 1, bs_block_id = 1\<rparr>)], lru_events = Some []\<rparr> =
      Inr tiny_lru_stored"
    by code_simp
qed

theorem lru_accounting_witness:
  "lru_reachable 2 tiny_lru_stored \<and> cpu_num_free_blocks (lru_backend tiny_lru_stored) = 0"
  using lru_accounting [OF tiny_lru_stored_reachable] tiny_lru_stored_reachable by (simp add: tiny_lru_stored_def)

theorem lru_prepare_store_spec_witness:
  "\<exists>ids m'. lru_prepare_store [[2], [3]] tiny_lru_stored =
     Inr (Some \<lparr>block_hashes_to_store = [[3]], store_spec = ids, block_hashes_evicted = [[1]]\<rparr>, m')"
proof -
  have new: "[[3]] = filter (\<lambda>h. map_of (lru_blocks tiny_lru_stored) h = None) [[2], [3]]" by code_simp
  have need: "1 = nat (int (length [[3 :: 8 word]]) - cpu_num_free_blocks (lru_backend tiny_lru_stored))" by code_simp
  have out: "[[1]] = take 1 (unused (lru_blocks tiny_lru_stored))" by code_simp
  have "\<not> length (unused (lru_blocks tiny_lru_stored)) < 1" by code_simp
  moreover have "distinct [[2], [3 :: 8 word]]" by simp
  ultimately show ?thesis
    using lru_prepare_store_spec [OF tiny_lru_stored_reachable _ new need out refl] by auto
qed

theorem lru_store_load_roundtrip_witness:
  "\<exists>m1 m2. lru_prepare_store [[7], [8]] tiny_lru =
       Inr (Some \<lparr>block_hashes_to_store = [[7], [8]], store_spec = [0, 1], block_hashes_evicted = []\<rparr>, m1) \<and>
     lru_complete_store [[7], [8]] True m1 = Inr m2 \<and> lru_lookup [[7], [8]] m2 = 2"
proof -
  let ?m1 = "\<lparr>lru_backend = \<lparr>be_block_size = 16, be_num_blocks = 2, num_allocated_blocks = 2, allocated_blocks_free_list = []\<rparr>,
    lru_blocks = [([7], \<lparr>bs_ref_cnt = - 1, bs_block_id = 0\<rparr>), ([8], \<lparr>bs_ref_cnt = - 1, bs_block_id = 1\<rparr>)], lru_events = Some []\<rparr>"
  have "distinct [[7], [8 :: 8 word]]" by simp
  moreover have run: "lru_prepare_store [[7], [8]] tiny_lru =
      Inr (Some \<lparr>block_hashes_to_store = [[7], [8]], store_spec = [0, 1], block_hashes_evicted = []\<rparr>, ?m1)" by code_simp
  ultimately show ?thesis using lru_store_load_roundtrip [OF tiny_lru_reachable _ run] by auto
qed

theorem lru_load_pins_witness:
  "\<exists>m1. lru_prepare_load [[1]] tiny_lru_stored = Inr ([0], m1) \<and> lru_complete_load [[1]] m1 = Inr tiny_lru_stored"
proof -
  let ?m1 = "tiny_lru_stored\<lparr>lru_blocks := [([1], \<lparr>bs_ref_cnt = 1, bs_block_id = 0\<rparr>), ([2], \<lparr>bs_ref_cnt = 0, bs_block_id = 1\<rparr>)]\<rparr>"
  have run: "lru_prepare_load [[1]] tiny_lru_stored = Inr ([0], ?m1)" by code_simp
  have "\<forall>(h, b) \<in> set (lru_blocks tiny_lru_stored). sint (bs_ref_cnt b) + int (count_list [[1]] h) < 2 ^ 31" by code_simp
  with lru_load_pins [OF tiny_lru_stored_reachable run] run show ?thesis by auto
qed

end
