(* ===== verification/Offload_ARC.thy ===== *)
theory Offload_ARC
  imports Offload_LRU
begin

text \<open>
  Correctness of the adaptive offloading manager (\<^verbatim>\<open>vllm/v1/kv_offload/arc_manager.py\<close>) over the
  same backend contract: addresses are never shared and the adaptive target stays within the capacity in
  every reachable state, \<^verbatim>\<open>prepare_store\<close> never raises and never evicts a block in use; and what the
  code does where it departs from the interface in \<^verbatim>\<open>abstract.py\<close>: touching a block whose store is
  pending raises, a failed store forgets finished blocks with their addresses, and a store that is
  refused has already evicted.
\<close>

section \<open>Invariant\<close>

definition arc_inv :: "arc_manager \<Rightarrow> bool" where
  "arc_inv m \<longleftrightarrow> od_wf (arc_t1 m) \<and> od_wf (arc_t2 m) \<and> (\<forall>h. map_of (arc_t1 m) h = None \<or> map_of (arc_t2 m) h = None) \<and>
     cpu_inv (arc_backend m) (dict_ids (arc_t1 m) + dict_ids (arc_t2 m)) \<and>
     0 \<le> target_t1_size m \<and> target_t1_size m \<le> real_of_int (cache_capacity m) \<and>
     od_wf (arc_b1 m) \<and> od_wf (arc_b2 m) \<and> cache_capacity m = be_num_blocks (arc_backend m)"

lemma arc_invD:
  assumes "arc_inv m"
  shows "od_wf (arc_t1 m)" "od_wf (arc_t2 m)" "map_of (arc_t1 m) h = None \<or> map_of (arc_t2 m) h = None"
    "cpu_inv (arc_backend m) (dict_ids (arc_t1 m) + dict_ids (arc_t2 m))"
  using assms by (auto simp: arc_inv_def)

lemma arc_inv_events [simp]: "arc_inv (m\<lparr>arc_events := es\<rparr>) = arc_inv m"
  by (simp add: arc_inv_def)

lemma arc_get_events [simp]: "arc_get (m\<lparr>arc_events := es\<rparr>) = arc_get m"
  by (simp add: arc_get_def fun_eq_iff split: option.split)

lemma arc_get_eq: "arc_inv m \<Longrightarrow> arc_get m h = Some b \<longleftrightarrow> map_of (arc_t1 m) h = Some b \<or> map_of (arc_t2 m) h = Some b"
  using arc_invD(3) [of m h] by (auto simp: arc_get_def split: option.splits)

lemma arc_get_None: "arc_get m h = None \<longleftrightarrow> map_of (arc_t1 m) h = None \<and> map_of (arc_t2 m) h = None"
  by (auto simp: arc_get_def split: option.splits)

lemma arc_set_inv:
  assumes inv: "arc_inv m" and get: "arc_get m h = Some b"
  shows "arc_inv (arc_set h (b\<lparr>bs_ref_cnt := r\<rparr>) m) \<and> arc_backend (arc_set h (b\<lparr>bs_ref_cnt := r\<rparr>) m) = arc_backend m"
proof (cases "map_of (arc_t1 m) h")
  case None
  with get have b: "map_of (arc_t2 m) h = Some b" by (simp add: arc_get_def)
  from inv None b show ?thesis
    by (simp add: arc_inv_def arc_set_def dict_ids_update_same [OF _ b] odict_simps)
next
  case (Some b')
  with get have b: "map_of (arc_t1 m) h = Some b" by (simp add: arc_get_def)
  with arc_invD(3) [OF inv, of h] have "map_of (arc_t2 m) h = None" by simp
  with inv b show ?thesis
    by (simp add: arc_inv_def arc_set_def dict_ids_update_same [OF _ b] odict_simps)
qed

lemma arc_load_loop_inv: "arc_load_loop hs m = Inr (bs, m') \<Longrightarrow> arc_inv m \<Longrightarrow> arc_inv m' \<and> arc_backend m' = arc_backend m"
proof (induction hs arbitrary: m bs)
  case (Cons h hs)
  then obtain b bs' where b: "arc_get m h = Some b" and r: "arc_load_loop hs (arc_set h (b\<lparr>bs_ref_cnt := bs_ref_cnt b + 1\<rparr>) m) = Inr (bs', m')"
    by (auto simp: result_simps Let_def split: option.splits)
  from Cons.IH [OF r] arc_set_inv [OF Cons.prems(2) b] show ?case by simp
qed simp

lemma arc_unload_one_inv: "arc_unload_one h m = Inr m' \<Longrightarrow> arc_inv m \<Longrightarrow> arc_inv m' \<and> arc_backend m' = arc_backend m"
  by (auto simp: arc_unload_one_def result_simps arc_set_inv split: option.splits)

lemma arc_stored_loop_inv: "arc_stored_loop hs m = (st, m') \<Longrightarrow> arc_inv m \<Longrightarrow> arc_inv m' \<and> arc_backend m' = arc_backend m"
proof (induction hs arbitrary: m st)
  case (Cons h hs)
  show ?case
  proof (cases "\<exists>b. arc_get m h = Some b \<and> \<not> is_ready b")
    case True
    then obtain b where b: "arc_get m h = Some b" "\<not> is_ready b" by auto
    with Cons.prems(1) obtain st' where "arc_stored_loop hs (arc_set h (b\<lparr>bs_ref_cnt := 0\<rparr>) m) = (st', m')"
      by (auto split: prod.splits)
    from Cons.IH [OF this] arc_set_inv [OF Cons.prems(2) b(1)] show ?thesis by simp
  next
    case False
    with Cons.prems(1) have "arc_stored_loop hs m = (st, m')" by (auto split: option.splits)
    with Cons.IH Cons.prems(2) show ?thesis by blast
  qed
qed simp

lemma arc_touch_one_inv:
  assumes inv: "arc_inv m" and run: "arc_touch_one h m = Inr m'"
  shows "arc_inv m' \<and> be_num_blocks (arc_backend m') = be_num_blocks (arc_backend m)"
proof -
  note wf = arc_invD(1,2) [OF inv]
  consider (t1) b where "map_of (arc_t1 m) h = Some b" | (t2) "map_of (arc_t1 m) h = None" "map_of (arc_t2 m) h \<noteq> None"
    | (none) "map_of (arc_t1 m) h = None" "map_of (arc_t2 m) h = None" by auto
  then show ?thesis
  proof cases
    case t1
    then have t2: "map_of (arc_t2 m) h = None" using arc_invD(3) [OF inv, of h] by auto
    from t1 run have ready: "is_ready b" by (auto simp: arc_touch_one_def od_move_to_end_def odict_simps Let_def split: if_splits)
    with t1 run have m': "m' = m\<lparr>arc_t1 := AList.delete h (arc_t1 m), arc_t2 := arc_t2 m @ [(h, b)]\<rparr>"
      by (simp add: arc_touch_one_def Let_def update_fresh [OF t2])
    have "od_wf (arc_t2 m @ [(h, b)])" using wf(2) t2 by (simp add: od_wf_def map_of_eq_None_iff)
    with inv dict_ids_delete [OF wf(1) t1] t2 show ?thesis
      by (auto simp: m' arc_inv_def odict_simps map_add_def split: option.splits)
  next
    case t2
    with run obtain t where t: "od_move_to_end h (arc_t2 m) = Inr t" "m' = m\<lparr>arc_t2 := t\<rparr>"
      by (auto simp: arc_touch_one_def result_simps)
    with inv od_move_to_end_props [OF wf(2) t(1)] dict_ids_move_to_end [OF wf(2) t(1)] show ?thesis
      by (simp add: arc_inv_def)
  next
    case none
    have move: "od_move_to_end h b = Inr t \<Longrightarrow> od_wf b \<Longrightarrow> od_wf t" for b t :: "(bytes, unit) odict"
      by (rule od_move_to_end_props(1))
    let ?d1 = "max 1 (real (length (arc_b2 m)) / real (length (arc_b1 m)))"
      and ?d2 = "max 1 (real (length (arc_b1 m)) / real (length (arc_b2 m)))"
    have delta: "0 \<le> ?d1" "0 \<le> ?d2" by simp_all
    show ?thesis
    proof (cases "map_of (arc_b1 m) h = None")
      case b1: True
      show ?thesis
      proof (cases "map_of (arc_b2 m) h = None")
        case True
        with none b1 run inv show ?thesis by (simp add: arc_touch_one_def)
      next
        case False
        with none b1 run obtain t where t: "od_move_to_end h (arc_b2 m) = Inr t"
          "m\<lparr>target_t1_size := max (target_t1_size m - ?d2) 0, arc_b2 := t\<rparr> = m'"
          by (auto simp add: arc_touch_one_def result_simps Let_def)
        with inv move [OF t(1)] delta show ?thesis by (auto simp: arc_inv_def simp flip: t(2))
      qed
    next
      case False
      with none run obtain t where t: "od_move_to_end h (arc_b1 m) = Inr t"
        "m\<lparr>target_t1_size := min (target_t1_size m + ?d1) (real_of_int (cache_capacity m)), arc_b1 := t\<rparr> = m'"
        by (auto simp add: arc_touch_one_def result_simps Let_def)
      with inv move [OF t(1)] delta show ?thesis by (auto simp: arc_inv_def simp flip: t(2))
    qed
  qed
qed

section \<open>Eviction\<close>

lemma first_unused_get: "od_wf d \<Longrightarrow> first_unused d = Some (h, b) \<Longrightarrow> map_of d h = Some b \<and> bs_ref_cnt b = 0"
  by (auto simp: first_unused_def find_Some_iff od_wf_def in_set_conv_nth)

lemma arc_evict_inv:
  assumes inv: "arc_inv m"
  shows "map_of (arc_t1 m) h = Some b \<Longrightarrow> arc_inv (arc_evict_t1 h b m) \<and> be_num_blocks (arc_backend (arc_evict_t1 h b m)) = be_num_blocks (arc_backend m) \<and>
      cpu_num_free_blocks (arc_backend (arc_evict_t1 h b m)) = cpu_num_free_blocks (arc_backend m) + 1"
    and "map_of (arc_t2 m) h = Some b \<Longrightarrow> arc_inv (arc_evict_t2 h b m) \<and> be_num_blocks (arc_backend (arc_evict_t2 h b m)) = be_num_blocks (arc_backend m) \<and>
      cpu_num_free_blocks (arc_backend (arc_evict_t2 h b m)) = cpu_num_free_blocks (arc_backend m) + 1"
proof -
  note wf = arc_invD(1,2) [OF inv]
  assume b: "map_of (arc_t1 m) h = Some b"
  have "cpu_inv (arc_backend m) (add_mset (bs_block_id b) (dict_ids (AList.delete h (arc_t1 m)) + dict_ids (arc_t2 m)))"
    using arc_invD(4) [OF inv] dict_ids_delete [OF wf(1) b] by simp
  from cpu.release_law [OF this] inv show "arc_inv (arc_evict_t1 h b m) \<and> be_num_blocks (arc_backend (arc_evict_t1 h b m)) = be_num_blocks (arc_backend m) \<and>
      cpu_num_free_blocks (arc_backend (arc_evict_t1 h b m)) = cpu_num_free_blocks (arc_backend m) + 1"
    by (simp add: arc_inv_def arc_evict_t1_def odict_simps)
next
  note wf = arc_invD(1,2) [OF inv]
  assume b: "map_of (arc_t2 m) h = Some b"
  have "cpu_inv (arc_backend m) (add_mset (bs_block_id b) (dict_ids (arc_t1 m) + dict_ids (AList.delete h (arc_t2 m))))"
    using arc_invD(4) [OF inv] dict_ids_delete [OF wf(2) b] by simp
  from cpu.release_law [OF this] inv show "arc_inv (arc_evict_t2 h b m) \<and> be_num_blocks (arc_backend (arc_evict_t2 h b m)) = be_num_blocks (arc_backend m) \<and>
      cpu_num_free_blocks (arc_backend (arc_evict_t2 h b m)) = cpu_num_free_blocks (arc_backend m) + 1"
    by (simp add: arc_inv_def arc_evict_t2_def odict_simps)
qed

text \<open>What one eviction leaves: all blocks but one that was unused.\<close>

definition evicted_only_unused :: "arc_manager \<Rightarrow> arc_manager \<Rightarrow> bool" where
  "evicted_only_unused m m' \<longleftrightarrow> (\<forall>h b. arc_get m h = Some b \<longrightarrow> bs_ref_cnt b \<noteq> 0 \<longrightarrow> arc_get m' h = Some b) \<and>
     (\<forall>h b. arc_get m' h = Some b \<longrightarrow> arc_get m h = Some b)"

lemma evicted_refl [simp]: "evicted_only_unused m m"
  by (simp add: evicted_only_unused_def)

lemma evicted_trans: "evicted_only_unused m m' \<Longrightarrow> evicted_only_unused m' m'' \<Longrightarrow> evicted_only_unused m m''"
  unfolding evicted_only_unused_def by blast

lemma arc_evict_unused:
  assumes "arc_inv m" and "bs_ref_cnt b = 0"
  shows "map_of (arc_t1 m) h = Some b \<Longrightarrow> evicted_only_unused m (arc_evict_t1 h b m)"
    and "map_of (arc_t2 m) h = Some b \<Longrightarrow> evicted_only_unused m (arc_evict_t2 h b m)"
  using assms arc_invD(3) [OF assms(1), of h]
  by (auto simp: evicted_only_unused_def arc_get_def arc_evict_t1_def arc_evict_t2_def odict_simps split: option.splits if_splits)

lemma arc_evict_loop_inv:
  assumes "arc_evict_loop n m = (out, ok, m')" and "arc_inv m"
  shows "arc_inv m' \<and> be_num_blocks (arc_backend m') = be_num_blocks (arc_backend m) \<and> evicted_only_unused m m' \<and>
    cpu_num_free_blocks (arc_backend m') = cpu_num_free_blocks (arc_backend m) + int (length out) \<and> (ok \<longrightarrow> length out = n)"
  using assms
proof (induction n arbitrary: m out)
  case (Suc n)
  let ?pick = "if \<lfloor>target_t1_size m\<rfloor> \<le> int (length (arc_t1 m)) then first_unused (arc_t1 m) else None"
  note wf = arc_invD(1,2) [OF Suc.prems(2)]
  consider (stop) "out = []" "\<not> ok" "m' = m"
    | (go) h m1 out' where "out = h # out'" "arc_evict_loop n m1 = (out', ok, m')" "arc_inv m1" "evicted_only_unused m m1"
      "be_num_blocks (arc_backend m1) = be_num_blocks (arc_backend m)"
      "cpu_num_free_blocks (arc_backend m1) = cpu_num_free_blocks (arc_backend m) + 1"
  proof (cases ?pick)
    case None
    show ?thesis
    proof (cases "first_unused (arc_t2 m)")
      case None
      with \<open>?pick = None\<close> Suc.prems(1) show ?thesis by (intro that(1)) auto
    next
      case (Some p)
      obtain h b where p: "p = (h, b)" by (cases p)
      from first_unused_get [OF wf(2)] Some p have b: "map_of (arc_t2 m) h = Some b" "bs_ref_cnt b = 0" by auto
      obtain out' where "out = h # out'" "arc_evict_loop n (arc_evict_t2 h b m) = (out', ok, m')"
        using Suc.prems(1) None Some p by (auto split: prod.splits)
      then show ?thesis using that(2) arc_evict_inv(2) [OF Suc.prems(2) b(1)] arc_evict_unused(2) [OF Suc.prems(2) b(2,1)] by blast
    qed
  next
    case (Some p)
    obtain h b where p: "p = (h, b)" by (cases p)
    then have "first_unused (arc_t1 m) = Some (h, b)" using Some by (auto split: if_splits)
    from first_unused_get [OF wf(1) this] have b: "map_of (arc_t1 m) h = Some b" "bs_ref_cnt b = 0" by auto
    obtain out' where "out = h # out'" "arc_evict_loop n (arc_evict_t1 h b m) = (out', ok, m')"
      using Suc.prems(1) Some p by (auto split: prod.splits)
    then show ?thesis using that(2) arc_evict_inv(1) [OF Suc.prems(2) b(1)] arc_evict_unused(1) [OF Suc.prems(2) b(2,1)] by blast
  qed
  then show ?case
  proof cases
    case stop
    with Suc.prems(2) show ?thesis by simp
  next
    case go
    with Suc.IH [OF go(2,3)] evicted_trans show ?thesis by auto
  qed
qed simp

section \<open>Stores\<close>

definition forget_ghosts :: "(bytes \<times> block_status) list \<Rightarrow> (bytes, unit) odict \<Rightarrow> (bytes, unit) odict" where
  "forget_ghosts ps b = fold (\<lambda>(h, s) b. AList.delete h b) ps b"

lemma forget_ghosts_wf: "od_wf b \<Longrightarrow> od_wf (forget_ghosts ps b)"
  unfolding forget_ghosts_def by (induction ps arbitrary: b) auto

lemma forget_ghosts_length: "length (forget_ghosts ps b) \<le> length b"
proof (induction ps arbitrary: b)
  case (Cons p ps)
  obtain h s where p: "p = (h, s)" by (cases p)
  have "length (forget_ghosts (p # ps) b) \<le> length (AList.delete h b)" using Cons.IH by (simp add: forget_ghosts_def p)
  also have "\<dots> \<le> length b" by (rule length_delete_le)
  finally show ?case .
qed (simp add: forget_ghosts_def)

lemma arc_insert_eq:
  "arc_insert hs bs m = m\<lparr>arc_t1 := assign_blocks hs bs (arc_t1 m), arc_b1 := forget_ghosts (zip hs bs) (arc_b1 m),
     arc_b2 := forget_ghosts (zip hs bs) (arc_b2 m)\<rparr>"
proof -
  have "fold (\<lambda>(h, b) m. m\<lparr>arc_t1 := AList.update h b (arc_t1 m), arc_b1 := AList.delete h (arc_b1 m), arc_b2 := AList.delete h (arc_b2 m)\<rparr>) ps m =
      m\<lparr>arc_t1 := fold (\<lambda>(h, b) d. AList.update h b d) ps (arc_t1 m), arc_b1 := forget_ghosts ps (arc_b1 m), arc_b2 := forget_ghosts ps (arc_b2 m)\<rparr>" for ps
    unfolding forget_ghosts_def by (induction ps arbitrary: m) (auto simp: case_prod_beta)
  then show ?thesis by (simp add: arc_insert_def assign_blocks_def)
qed

lemma bound_ghosts_length: "0 \<le> c \<Longrightarrow> int (length (bound_ghosts c b)) \<le> c"
  by (simp add: bound_ghosts_def)

lemma bound_ghosts_wf: "od_wf b \<Longrightarrow> od_wf (bound_ghosts c b)"
  by (simp add: bound_ghosts_def od_wf_def flip: drop_map)

text \<open>\<^verbatim>\<open>prepare_store\<close>: it returns in every case; what it keeps, reserves and bounds.\<close>

lemma arc_prepare_store_ok:
  assumes inv: "arc_inv m" and hs: "distinct hs"
    and new: "new = filter (\<lambda>h. map_of (arc_t1 m) h = None \<and> map_of (arc_t2 m) h = None) hs"
  shows "\<exists>res m'. arc_prepare_store hs m = Inr (res, m') \<and> arc_inv m' \<and> be_num_blocks (arc_backend m') = be_num_blocks (arc_backend m) \<and>
    (\<forall>h b. arc_get m h = Some b \<longrightarrow> bs_ref_cnt b \<noteq> 0 \<longrightarrow> arc_get m' h = Some b) \<and>
    (\<forall>out. res = Some out \<longrightarrow> block_hashes_to_store out = new \<and>
      (\<forall>h \<in> set new. \<exists>b. map_of (arc_t1 m') h = Some b \<and> bs_ref_cnt b = - 1) \<and>
      (new \<noteq> [] \<longrightarrow> int (length (arc_b1 m')) \<le> cache_capacity m' \<and> int (length (arc_b2 m')) \<le> cache_capacity m'))"
proof (cases "new = []")
  case True
  with inv show ?thesis by (simp add: arc_prepare_store_def Let_def flip: new)
next
  case False
  define n where "n = nat (int (length new) - cpu_num_free_blocks (arc_backend m))"
  obtain out ok m1 where loop: "arc_evict_loop n m = (out, ok, m1)" by (metis surj_pair)
  from arc_evict_loop_inv [OF loop inv] have inv1: "arc_inv m1" and be1: "be_num_blocks (arc_backend m1) = be_num_blocks (arc_backend m)"
    and only: "evicted_only_unused m m1" and free1: "cpu_num_free_blocks (arc_backend m1) = cpu_num_free_blocks (arc_backend m) + int (length out)"
    and len: "ok \<longrightarrow> length out = n" by auto
  from only have pinned: "\<forall>h b. arc_get m h = Some b \<longrightarrow> bs_ref_cnt b \<noteq> 0 \<longrightarrow> arc_get m1 h = Some b"
    unfolding evicted_only_unused_def by blast
  note unfold = arc_prepare_store_def Let_def new [symmetric] n_def [symmetric] loop
  show ?thesis
  proof (cases ok)
    case False
    with \<open>new \<noteq> []\<close> have "arc_prepare_store hs m = Inr (None, m1)" unfolding unfold by simp
    with inv1 be1 pinned show ?thesis by simp
  next
    case True
    let ?I = "dict_ids (arc_t1 m1) + dict_ids (arc_t2 m1)"
    have "int (length new) \<le> cpu_num_free_blocks (arc_backend m1)" using True len free1 by (simp add: n_def)
    with cpu.alloc_law [OF arc_invD(4) [OF inv1]] obtain blocks c where a:
      "cpu_allocate_blocks (length new) (arc_backend m1) = Inr (blocks, c)" "length blocks = length new"
      "\<forall>x \<in> set blocks. bs_ref_cnt x = - 1" "cpu_inv c (?I + mset (map bs_block_id blocks))" "be_num_blocks c = be_num_blocks (arc_backend m1)"
      by blast
    define m2 where "m2 = m1\<lparr>arc_b1 := bound_ghosts (cache_capacity m1) (arc_b1 m1), arc_b2 := bound_ghosts (cache_capacity m1) (arc_b2 m1),
      arc_events := add_event out (be_block_size (arc_backend m1)) True (arc_events m1), arc_backend := c\<rparr>"
    define m3 where "m3 = arc_insert new blocks m2"
    have "arc_get m1 h = None" if "h \<in> set new" for h
    proof -
      have "arc_get m h = None" using that by (auto simp: new arc_get_None)
      with only show ?thesis unfolding evicted_only_unused_def by (metis not_Some_eq)
    qed
    with hs have fresh: "distinct new" "\<forall>h \<in> set new. map_of (arc_t1 m1) h = None \<and> map_of (arc_t2 m1) h = None"
      by (auto simp: new arc_get_None)
    have m3: "m3 = m2\<lparr>arc_t1 := arc_t1 m1 @ zip new blocks, arc_b1 := forget_ghosts (zip new blocks) (arc_b1 m2),
        arc_b2 := forget_ghosts (zip new blocks) (arc_b2 m2)\<rparr>"
      using fresh a(2) by (simp add: m3_def arc_insert_eq assign_fresh m2_def)
    have keys: "map fst (zip new blocks) = new" using a(2) by simp
    have wf3: "od_wf (arc_t1 m1 @ zip new blocks)"
      using fresh arc_invD(1) [OF inv1] keys by (auto simp: od_wf_def map_of_eq_None_iff)
    have get3: "map_of (arc_t1 m1 @ zip new blocks) h = (if h \<in> set new then map_of (zip new blocks) h else map_of (arc_t1 m1) h)" for h
    proof (cases "h \<in> set new")
      case True
      with fresh(2) show ?thesis by (simp add: map_add_def)
    next
      case False
      with keys have "map_of (zip new blocks) h = None" by (metis list.set_map map_of_eq_None_iff)
      with False show ?thesis by (simp add: map_add_def split: option.split)
    qed
    have run: "arc_prepare_store hs m = Inr (Some \<lparr>block_hashes_to_store = new, store_spec = cpu_load_store_spec blocks, block_hashes_evicted = out\<rparr>, m3)"
      unfolding unfold using \<open>new \<noteq> []\<close> True a(1,2) by (simp add: m3_def m2_def)
    have cap: "0 \<le> cache_capacity m1" "cache_capacity m1 = be_num_blocks c" using inv1 a(5) by (auto simp: arc_inv_def)
    have "map_of (arc_t1 m1 @ zip new blocks) h = None \<or> map_of (arc_t2 m1) h = None" for h
      using get3 [of h] fresh(2) arc_invD(3) [OF inv1, of h] by auto
    moreover have "cpu_inv c (dict_ids (arc_t1 m1 @ zip new blocks) + dict_ids (arc_t2 m1))"
      using a(2,4) by (simp add: dict_ids_zip ac_simps)
    ultimately have inv3: "arc_inv m3"
      using wf3 inv1 cap(2) by (simp add: m3 m2_def arc_inv_def forget_ghosts_wf bound_ghosts_wf)
    have ghosts: "int (length (forget_ghosts ps (bound_ghosts (cache_capacity m1) b))) \<le> cache_capacity m1" for ps b
      using forget_ghosts_length [of ps "bound_ghosts (cache_capacity m1) b"] bound_ghosts_length [OF cap(1), of b] by linarith
    have get': "arc_get m3 h = arc_get m1 h" if "h \<notin> set new" for h
      using get3 [of h] that by (simp add: arc_get_def m3 m2_def split: option.split)
    have kept: "arc_get m3 h = Some b" if "arc_get m h = Some b" "bs_ref_cnt b \<noteq> 0" for h b
    proof -
      have "h \<notin> set new" using that(1) by (auto simp: new arc_get_def)
      with get' pinned that show ?thesis by simp
    qed
    have reserved: "\<exists>b. map_of (arc_t1 m3) h = Some b \<and> bs_ref_cnt b = - 1" if "h \<in> set new" for h
    proof -
      from that keys obtain b where "map_of (zip new blocks) h = Some b" by (metis list.set_map map_of_eq_None_iff not_Some_eq)
      moreover from this have "b \<in> set blocks" by (auto dest!: map_of_SomeD set_zip_rightD)
      ultimately show ?thesis using that a(3) get3 [of h] by (auto simp: m3)
    qed
    have "be_num_blocks (arc_backend m3) = be_num_blocks (arc_backend m)" using a(5) be1 by (simp add: m3 m2_def)
    moreover have "int (length (arc_b1 m3)) \<le> cache_capacity m3" "int (length (arc_b2 m3)) \<le> cache_capacity m3"
      using ghosts by (simp_all add: m3 m2_def)
    ultimately show ?thesis using run inv3 kept reserved by auto
  qed
qed

lemma arc_drop_one_inv:
  assumes "arc_inv m"
  shows "arc_inv (arc_drop_one h m) \<and> be_num_blocks (arc_backend (arc_drop_one h m)) = be_num_blocks (arc_backend m)"
proof -
  note wf = arc_invD(1,2) [OF assms]
  let ?I = "\<lambda>t1 t2. dict_ids t1 + dict_ids t2"
  have drop: "cpu_inv c J" "cpu_inv (cpu_free b c) J" "be_num_blocks (cpu_free b c) = be_num_blocks c"
    if "cpu_inv c (add_mset (bs_block_id b) J)" for c b J
    using cpu.forget [OF that] cpu.release_law [OF that] by auto
  consider (none) "map_of (arc_t1 m) h = None" "map_of (arc_t2 m) h = None" | (t1) b where "map_of (arc_t1 m) h = Some b"
    | (t2) b where "map_of (arc_t1 m) h = None" "map_of (arc_t2 m) h = Some b" by (metis not_Some_eq)
  then show ?thesis
  proof cases
    case none
    with assms show ?thesis by (simp add: arc_drop_one_def)
  next
    case t1
    have "cpu_inv (arc_backend m) (add_mset (bs_block_id b) (?I (AList.delete h (arc_t1 m)) (arc_t2 m)))"
      using arc_invD(4) [OF assms] dict_ids_delete [OF wf(1) t1] by simp
    from drop [OF this] t1 assms show ?thesis by (simp add: arc_drop_one_def Let_def arc_inv_def odict_simps)
  next
    case t2
    have "cpu_inv (arc_backend m) (add_mset (bs_block_id b) (?I (arc_t1 m) (AList.delete h (arc_t2 m))))"
      using arc_invD(4) [OF assms] dict_ids_delete [OF wf(2) t2(2)] by simp
    from drop [OF this] t2 assms show ?thesis by (simp add: arc_drop_one_def Let_def arc_inv_def odict_simps)
  qed
qed

lemma arc_complete_store_inv:
  "arc_inv m \<Longrightarrow> arc_inv (arc_complete_store hs success m) \<and> be_num_blocks (arc_backend (arc_complete_store hs success m)) = be_num_blocks (arc_backend m)"
proof (cases success)
  case True
  assume "arc_inv m"
  moreover obtain st m' where run: "arc_stored_loop hs m = (st, m')" by (cases "arc_stored_loop hs m")
  ultimately show ?thesis using True arc_stored_loop_inv [OF run] by (simp add: arc_complete_store_def)
next
  case False
  assume "arc_inv m"
  then have "arc_inv (fold arc_drop_one hs m) \<and> be_num_blocks (arc_backend (fold arc_drop_one hs m)) = be_num_blocks (arc_backend m)"
  proof (induction hs arbitrary: m)
    case (Cons h hs)
    from Cons.IH [of "arc_drop_one h m"] arc_drop_one_inv [OF Cons.prems, of h] show ?case by simp
  qed simp
  with False show ?thesis by (simp add: arc_complete_store_def)
qed

section \<open>Reachable managers\<close>

inductive arc_reachable :: "nat \<Rightarrow> arc_manager \<Rightarrow> bool" where
  init: "arc_reachable n (arc_init (cpu_backend_init block_size n) enable_events)"
| prepare_load: "arc_reachable n m \<Longrightarrow> arc_prepare_load hs m = Inr (ids, m') \<Longrightarrow> arc_reachable n m'"
| touch: "arc_reachable n m \<Longrightarrow> arc_touch hs m = Inr m' \<Longrightarrow> arc_reachable n m'"
| complete_load: "arc_reachable n m \<Longrightarrow> arc_complete_load hs m = Inr m' \<Longrightarrow> arc_reachable n m'"
| prepare_store: "arc_reachable n m \<Longrightarrow> distinct hs \<Longrightarrow> arc_prepare_store hs m = Inr (out, m') \<Longrightarrow> arc_reachable n m'"
| complete_store: "arc_reachable n m \<Longrightarrow> arc_reachable n (arc_complete_store hs success m)"
| take_events: "arc_reachable n m \<Longrightarrow> arc_reachable n (snd (arc_take_events m))"

lemma arc_reachable_inv: "arc_reachable n m \<Longrightarrow> arc_inv m \<and> be_num_blocks (arc_backend m) = int n"
proof (induction rule: arc_reachable.induct)
  case (init n block_size enable_events)
  show ?case by (simp add: arc_inv_def arc_init_def cpu_backend_init_def cpu_inv_def cpu_num_free_blocks_def)
next
  case (prepare_load n m hs ids m')
  then obtain bs where "arc_load_loop hs m = Inr (bs, m')" by (auto simp: arc_prepare_load_def result_simps)
  from arc_load_loop_inv [OF this] prepare_load show ?case by simp
next
  case (touch n m hs m')
  let ?I = "\<lambda>m. arc_inv m \<and> be_num_blocks (arc_backend m) = int n"
  from touch(2) show ?case
    unfolding arc_touch_def by (rule rfold_invariant [where I = ?I]) (use touch arc_touch_one_inv in metis)+
next
  case (complete_load n m hs m')
  let ?I = "\<lambda>m. arc_inv m \<and> be_num_blocks (arc_backend m) = int n"
  from complete_load(2) show ?case
    unfolding arc_complete_load_def by (rule rfold_invariant [where I = ?I]) (use complete_load arc_unload_one_inv in metis)+
next
  case (prepare_store n m hs out m')
  then show ?case using arc_prepare_store_ok [OF _ prepare_store(2) refl, of m] by auto
next
  case (complete_store n m hs success)
  then show ?case using arc_complete_store_inv by simp
next
  case (take_events n m)
  then show ?case by (simp add: arc_take_events_def split: option.splits)
qed

section \<open>Claims\<close>

text \<open>
  C28: In every reachable ARC manager no hash is in both T1 and T2, no two blocks share an address and
  none has one that is also free, the blocks and the free blocks together are at most the capacity, and
  the adaptive target stays between zero and the capacity.
\<close>

theorem arc_accounting:
  assumes "arc_reachable n m"
  shows "distinct (map fst (arc_t1 m @ arc_t2 m)) \<and>
    distinct (map (\<lambda>(h, b). bs_block_id b) (arc_t1 m @ arc_t2 m) @ allocated_blocks_free_list (arc_backend m)) \<and>
    (\<forall>(h, b) \<in> set (arc_t1 m @ arc_t2 m). bs_block_id b < n) \<and>
    cpu_num_free_blocks (arc_backend m) + int (length (arc_t1 m)) + int (length (arc_t2 m)) \<le> int n \<and>
    0 \<le> target_t1_size m \<and> target_t1_size m \<le> real n"
proof -
  have inv: "arc_inv m" and n: "be_num_blocks (arc_backend m) = int n" using arc_reachable_inv [OF assms] by auto
  let ?I = "dict_ids (arc_t1 m) + dict_ids (arc_t2 m)" and ?fl = "allocated_blocks_free_list (arc_backend m)"
  have ci: "cpu_inv (arc_backend m) ?I" by (rule arc_invD(4) [OF inv])
  have "?I + mset ?fl \<subseteq># mset [0..<num_allocated_blocks (arc_backend m)]" using ci by (simp add: cpu_inv_def)
  from mset_subset_eq_count [OF this] have "count (?I + mset ?fl) x \<le> 1" for x
    by (rule order_trans) (simp add: count_mset_set')
  then have ids: "distinct (map (\<lambda>(h, b). bs_block_id b) (arc_t1 m @ arc_t2 m) @ ?fl)"
    by (intro mset_distinct) (simp add: dict_ids_def add.assoc)
  have keys: "distinct (map fst (arc_t1 m @ arc_t2 m))"
    using arc_invD [OF inv] by (auto simp: od_wf_def map_of_eq_None_iff)
  have small: "\<forall>(h, b) \<in> set (arc_t1 m @ arc_t2 m). bs_block_id b < n"
    using cpu.bounded [OF ci] n by (auto simp: dict_ids_def image_iff) (force+)
  have "0 \<le> target_t1_size m" "target_t1_size m \<le> real n" using inv n by (auto simp: arc_inv_def)
  with ids keys small cpu.room [OF ci] n show ?thesis by simp
qed

text \<open>
  In every reachable ARC manager \<^verbatim>\<open>prepare_store\<close> returns: it never raises.  It keeps every
  block in use (being loaded, or with its store pending) at its address, whether it can make room or
  not; when it accepts, the new blocks are in T1 and not ready, and both ghost lists are bounded by the
  capacity.
\<close>

lemma arc_prepare_store_safe:
  assumes "arc_reachable n m" and "distinct hs"
    and "new = filter (\<lambda>h. arc_get m h = None) hs"
  shows "\<exists>res m'. arc_prepare_store hs m = Inr (res, m') \<and>
    (\<forall>h b. arc_get m h = Some b \<longrightarrow> bs_ref_cnt b \<noteq> 0 \<longrightarrow> arc_get m' h = Some b) \<and>
    (\<forall>out. res = Some out \<longrightarrow> block_hashes_to_store out = new \<and>
      (\<forall>h \<in> set new. \<exists>b. map_of (arc_t1 m') h = Some b \<and> bs_ref_cnt b = - 1) \<and>
      (new \<noteq> [] \<longrightarrow> length (arc_b1 m') \<le> n \<and> length (arc_b2 m') \<le> n))"
proof -
  have inv: "arc_inv m" and n: "be_num_blocks (arc_backend m) = int n" using arc_reachable_inv [OF assms(1)] by auto
  have new: "new = filter (\<lambda>h. map_of (arc_t1 m) h = None \<and> map_of (arc_t2 m) h = None) hs"
    by (simp add: assms(3) arc_get_None)
  from arc_prepare_store_ok [OF inv assms(2) new] n show ?thesis by (force simp: arc_inv_def)
qed

lemma arc_touch_one_other:
  assumes "k \<noteq> h"
  shows "(\<exists>m'. arc_touch_one k m = Inr m' \<and> map_of (arc_t1 m') h = map_of (arc_t1 m) h) \<or> arc_touch_one k m = Inl KeyError"
proof (cases "map_of (arc_t1 m) k")
  case None
  then show ?thesis by (auto simp: arc_touch_one_def od_move_to_end_def Let_def)
next
  case (Some b)
  with assms show ?thesis by (auto simp: arc_touch_one_def od_move_to_end_def Let_def odict_simps)
qed

lemma arc_touch_pending:
  "map_of (arc_t1 m) h = Some b \<Longrightarrow> \<not> is_ready b \<Longrightarrow> h \<in> set ks \<Longrightarrow> rfold arc_touch_one ks m = Inl KeyError"
proof (induction ks arbitrary: m)
  case (Cons k ks)
  show ?case
  proof (cases "k = h")
    case True
    with Cons.prems show ?thesis by (simp add: arc_touch_one_def od_move_to_end_def odict_simps Let_def)
  next
    case False
    with Cons arc_touch_one_other [OF False, of m] show ?thesis by auto
  qed
qed simp

text \<open>
  Touching a block whose store is pending raises \<^verbatim>\<open>KeyError\<close>: once \<^verbatim>\<open>prepare_store\<close> has accepted,
  every \<^verbatim>\<open>touch\<close> of hashes that include one of the new blocks fails, because the block is popped from
  T1 before it is moved to the end of T1.
\<close>

lemma arc_touch_after_store_raises:
  assumes "arc_reachable n m" and "distinct hs" and "arc_prepare_store hs m = Inr (Some res, m1)"
    and "h \<in> set (block_hashes_to_store res)" and "h \<in> set ks"
  shows "arc_touch ks m1 = Inl KeyError"
proof -
  have inv: "arc_inv m" using arc_reachable_inv [OF assms(1)] by simp
  from arc_prepare_store_ok [OF inv assms(2) refl] assms(3,4) obtain b where
    "map_of (arc_t1 m1) h = Some b" "bs_ref_cnt b = - 1" by auto
  with assms(5) show ?thesis by (simp add: arc_touch_def is_ready_def arc_touch_pending)
qed

text \<open>
  A store that fails takes finished blocks with it and loses their addresses: completing a failed
  store of a block that is ready drops it from its list without giving its address back, so the manager
  can hold one block less from then on.
\<close>

lemma arc_failed_store_leaks:
  assumes "arc_reachable n m" and "arc_get m h = Some b" and "is_ready b"
    and "m' = arc_complete_store [h] False m"
  shows "arc_get m' h = None \<and> arc_backend m' = arc_backend m \<and>
    Suc (length (arc_t1 m') + length (arc_t2 m')) = length (arc_t1 m) + length (arc_t2 m)"
proof -
  have inv: "arc_inv m" using arc_reachable_inv [OF assms(1)] by simp
  note wf = arc_invD(1,2) [OF inv]
  show ?thesis
  proof (cases "map_of (arc_t1 m) h")
    case None
    with assms(2) have b: "map_of (arc_t2 m) h = Some b" by (simp add: arc_get_def)
    with None assms(3,4) length_delete_mem [OF wf(2) b] show ?thesis
      by (simp add: arc_complete_store_def arc_drop_one_def Let_def arc_get_None odict_simps)
  next
    case (Some b')
    with assms(2) have b: "map_of (arc_t1 m) h = Some b" by (simp add: arc_get_def)
    with assms(3,4) length_delete_mem [OF wf(1) b] arc_invD(3) [OF inv, of h] show ?thesis
      by (simp add: arc_complete_store_def arc_drop_one_def Let_def arc_get_None odict_simps)
  qed
qed

section \<open>Witnesses\<close>

text \<open>A manager of two blocks after a store and its completion, and while the first one is loaded.\<close>

definition tiny_arc :: arc_manager where
  "tiny_arc = arc_init (cpu_backend_init 16 2) True"

definition tiny_arc_pending :: arc_manager where
  "tiny_arc_pending = tiny_arc\<lparr>arc_backend := \<lparr>be_block_size = 16, be_num_blocks = 2, num_allocated_blocks = 2, allocated_blocks_free_list = []\<rparr>,
     arc_t1 := [([1], \<lparr>bs_ref_cnt = - 1, bs_block_id = 0\<rparr>), ([2], \<lparr>bs_ref_cnt = - 1, bs_block_id = 1\<rparr>)]\<rparr>"

definition tiny_arc_stored :: arc_manager where
  "tiny_arc_stored = arc_complete_store [[1], [2]] True tiny_arc_pending"

definition tiny_arc_loading :: arc_manager where
  "tiny_arc_loading = tiny_arc_stored\<lparr>arc_t1 := [([1], \<lparr>bs_ref_cnt = 1, bs_block_id = 0\<rparr>), ([2], \<lparr>bs_ref_cnt = 0, bs_block_id = 1\<rparr>)]\<rparr>"

lemma tiny_arc_reachable: "arc_reachable 2 tiny_arc"
  unfolding tiny_arc_def by (rule arc_reachable.init)

lemma tiny_arc_store: "arc_prepare_store [[1], [2]] tiny_arc =
    Inr (Some \<lparr>block_hashes_to_store = [[1], [2]], store_spec = [0, 1], block_hashes_evicted = []\<rparr>, tiny_arc_pending)"
  by code_simp

lemma tiny_arc_stored_reachable: "arc_reachable 2 tiny_arc_stored"
  unfolding tiny_arc_stored_def
  by (rule arc_reachable.complete_store [OF arc_reachable.prepare_store [OF tiny_arc_reachable _ tiny_arc_store]]) simp

lemma tiny_arc_loading_reachable: "arc_reachable 2 tiny_arc_loading"
  by (rule arc_reachable.prepare_load [OF tiny_arc_stored_reachable, where hs = "[[1]]" and ids = "[0]"]) code_simp

theorem arc_accounting_witness:
  "arc_reachable 2 tiny_arc_loading \<and> target_t1_size tiny_arc_loading \<le> 2"
  using arc_accounting [OF tiny_arc_loading_reachable] tiny_arc_loading_reachable by simp

text \<open>
  A store that is refused has already evicted: with one of two blocks in use, asking for two new blocks
  answers \<^verbatim>\<open>None\<close>, yet the unused block is gone and no event says so.
\<close>

lemma arc_refused_store_evicts:
  "\<exists>m'. arc_reachable 2 tiny_arc_loading \<and> arc_prepare_store [[3], [4]] tiny_arc_loading = Inr (None, m') \<and>
     arc_get tiny_arc_loading [2] \<noteq> None \<and> arc_get m' [2] = None \<and> arc_events m' = arc_events tiny_arc_loading"
proof -
  let ?m = "tiny_arc_loading\<lparr>arc_t1 := [([1], \<lparr>bs_ref_cnt = 1, bs_block_id = 0\<rparr>)], arc_b1 := [([2], ())],
    arc_backend := \<lparr>be_block_size = 16, be_num_blocks = 2, num_allocated_blocks = 2, allocated_blocks_free_list = [1]\<rparr>\<rparr>"
  have "arc_prepare_store [[3], [4]] tiny_arc_loading = Inr (None, ?m)" by code_simp
  moreover have "arc_get tiny_arc_loading [2] \<noteq> None" by code_simp
  moreover have "arc_get ?m [2] = None" by code_simp
  ultimately show ?thesis using tiny_arc_loading_reachable by auto
qed

end
