(* ===== verification/KV_Config.thy ===== *)
theory KV_Config
  imports KV_Spec
begin

text \<open>
  From the formats of the layers to the configuration of the KV cache: the second half of
  \<^verbatim>\<open>vllm/v1/core/kv_cache_utils.py\<close>.

  The entry is \<open>get_kv_cache_configs\<close>: the formats of all workers are checked against the
  available memory, merged, split into groups, and each worker gets a number of blocks and the
  tensors that hold them. A worker's formats are an ordered dictionary from layer names to
  \<open>layer_spec\<close>; the values the code only writes to the log are results of the definitions
  that compute them.
\<close>

section \<open>Memory\<close>

definition max_memory_usage_bytes :: "vllm_config \<Rightarrow> kv_cache_spec list \<Rightarrow> int result" where
  "max_memory_usage_bytes vllm_config kv_cache_specs =
     rbind (rmap (spec_max_memory_usage_bytes vllm_config) kv_cache_specs) (\<lambda>ms. Inr (sum_list ms))"

abbreviation spec_values :: "(string, layer_spec) odict \<Rightarrow> kv_cache_spec list" where
  "spec_values kv_cache_spec \<equiv> map (LayerSpec \<circ> snd) kv_cache_spec"

text \<open>The probe writes the length into the configuration, and leaves it there.\<close>

definition fits_in_memory ::
  "(string, layer_spec) odict \<Rightarrow> int \<Rightarrow> int \<Rightarrow> vllm_config \<Rightarrow> (bool \<times> vllm_config) result" where
  "fits_in_memory kv_cache_spec available_memory model_len vllm_config =
     (let vllm_config = vllm_config\<lparr>cfg_max_model_len := model_len\<rparr> in
      rbind (max_memory_usage_bytes vllm_config (spec_values kv_cache_spec)) (\<lambda>memory_needed.
        Inr (memory_needed \<le> available_memory, vllm_config)))"

function estimate_loop ::
  "(string, layer_spec) odict \<Rightarrow> int \<Rightarrow> int \<Rightarrow> int \<Rightarrow> int \<Rightarrow> vllm_config \<Rightarrow> (int \<times> vllm_config) result"
where
  "estimate_loop kv_cache_spec available_memory left right result vllm_config =
     (if right < left then Inr (result, vllm_config)
      else let mid = (left + right) div 2 in
        rbind (fits_in_memory kv_cache_spec available_memory mid vllm_config) (\<lambda>(fits, vllm_config).
          if fits then estimate_loop kv_cache_spec available_memory (mid + 1) right mid vllm_config
          else estimate_loop kv_cache_spec available_memory left (mid - 1) result vllm_config))"
  by pat_completeness auto
termination
  by (relation "measure (\<lambda>(_, _, left, right, _). nat (right + 1 - left))") auto

declare estimate_loop.simps [simp del]

definition estimate_max_model_len ::
  "vllm_config \<Rightarrow> (string, layer_spec) odict \<Rightarrow> int \<Rightarrow> (int \<times> vllm_config) result" where
  "estimate_max_model_len vllm_config kv_cache_spec available_memory =
     (let current_max = cfg_max_model_len vllm_config in
      rbind (fits_in_memory kv_cache_spec available_memory 1 vllm_config) (\<lambda>(fits, vllm_config).
        if \<not> fits then Inr (0, vllm_config)
        else estimate_loop kv_cache_spec available_memory 1 current_max 1 vllm_config))"

text \<open>
  The estimate only goes into the message of the error, but computing it can itself raise.
\<close>

definition check_enough_kv_cache_memory ::
  "vllm_config \<Rightarrow> (string, layer_spec) odict \<Rightarrow> int \<Rightarrow> unit result" where
  "check_enough_kv_cache_memory vllm_config kv_cache_spec available_memory =
     (if kv_cache_spec = [] then Inr ()
      else if available_memory \<le> 0 then Inl ValueError
      else rbind (max_memory_usage_bytes vllm_config (spec_values kv_cache_spec)) (\<lambda>needed_memory.
        if available_memory < needed_memory then
          rbind (estimate_max_model_len vllm_config kv_cache_spec available_memory) (\<lambda>_. Inl ValueError)
        else Inr ()))"

section \<open>Groups of layers\<close>

definition create_kv_cache_group_specs ::
  "(string, layer_spec) odict \<Rightarrow> string list list \<Rightarrow> kv_cache_group_spec list result" where
  "create_kv_cache_group_specs kv_cache_spec grouped_layer_names =
     rmap (\<lambda>layer_names_one_group.
       rbind (rmap (od_lookup kv_cache_spec) layer_names_one_group) (\<lambda>layer_specs.
       rbind (merge_specs layer_specs) (\<lambda>merged_layer_spec.
         Inr \<lparr>layer_names = layer_names_one_group, group_spec = LayerSpec merged_layer_spec\<rparr>)))
     grouped_layer_names"

definition is_kv_cache_spec_uniform :: "(string, layer_spec) odict \<Rightarrow> bool result" where
  "is_kv_cache_spec_uniform kv_cache_spec =
     (if kv_cache_spec = [] then Inr True
      else case merge_specs (map snd kv_cache_spec) of
        Inr _ \<Rightarrow> Inr True
      | Inl e \<Rightarrow> if e = AssertionError then Inr False else Inl e)"

definition get_uniform_page_size :: "kv_cache_spec list \<Rightarrow> nat result" where
  "get_uniform_page_size kv_cache_specs =
     rbind (rmap spec_page_size_bytes kv_cache_specs) (\<lambda>page_sizes.
     rbind (rassert (length (remdups page_sizes) = 1)) (\<lambda>_. Inr (hd (remdups page_sizes))))"

definition get_kv_cache_groups_uniform_spec ::
  "(string, layer_spec) odict \<Rightarrow> kv_cache_group_spec list result" where
  "get_kv_cache_groups_uniform_spec kv_cache_specs =
     create_kv_cache_group_specs kv_cache_specs [map fst kv_cache_specs]"

definition get_kv_cache_groups_uniform_type ::
  "nat \<Rightarrow> (string, layer_spec) odict \<Rightarrow> kv_cache_group_spec list" where
  "get_kv_cache_groups_uniform_type block_size kv_cache_specs =
     [\<lparr>layer_names = map fst kv_cache_specs, group_spec = UniformTypeKVCacheSpecs block_size kv_cache_specs\<rparr>]"

definition is_kv_cache_page_size_uniform :: "(string, layer_spec) odict \<Rightarrow> bool result" where
  "is_kv_cache_page_size_uniform kv_cache_spec =
     rbind (rmap (page_size_bytes \<circ> snd) kv_cache_spec) (\<lambda>ps. Inr (length (remdups ps) = 1))"

definition unify_page_size_of :: "nat \<Rightarrow> layer_spec \<Rightarrow> layer_spec result" where
  "unify_page_size_of max_page_size layer_spec =
     rbind (page_size_bytes layer_spec) (\<lambda>layer_page_size.
       if layer_page_size = max_page_size then Inr layer_spec
       else if layer_page_size = 0 then Inl ZeroDivisionError
       else if max_page_size mod layer_page_size \<noteq> 0 then Inl NotImplementedError
       else
         let ratio = max_page_size div layer_page_size;
             new_spec = copy_with_new_block_size (layer_block_size layer_spec * ratio) layer_spec in
         rbind (page_size_bytes new_spec) (\<lambda>p.
         rbind (rassert (p = max_page_size)) (\<lambda>_. Inr new_spec)))"

definition unify_kv_cache_spec_page_size ::
  "(string, layer_spec) odict \<Rightarrow> (string, layer_spec) odict result" where
  "unify_kv_cache_spec_page_size kv_cache_spec =
     rbind (rmap (page_size_bytes \<circ> snd) kv_cache_spec) (\<lambda>page_sizes.
       if length (remdups page_sizes) \<le> 1 then Inr kv_cache_spec
       else rmap (\<lambda>(layer_name, layer_spec).
              rbind (unify_page_size_of (Max (set page_sizes)) layer_spec) (\<lambda>s. Inr (layer_name, s)))
            kv_cache_spec)"

definition is_kv_cache_type_attention_free :: "(string, layer_spec) odict \<Rightarrow> bool" where
  "is_kv_cache_type_attention_free kv_cache_spec = (kv_cache_spec = [])"

text \<open>
  \<^verbatim>\<open>layers[i::n]\<close>, and the dictionary from formats to the layers that have them, in the order
  of the first layer of each format.
\<close>

definition every_nth :: "nat \<Rightarrow> nat \<Rightarrow> 'a list \<Rightarrow> 'a list" where
  "every_nth n i xs = map ((!) xs) (filter (\<lambda>j. i \<le> j \<and> (j - i) mod n = 0) [0..<length xs])"

definition add_same_type :: "string \<times> layer_spec \<Rightarrow> (layer_spec, string list) odict \<Rightarrow> (layer_spec, string list) odict" where
  "add_same_type = (\<lambda>(layer_name, layer_spec) d.
     AList.update layer_spec ((case map_of d layer_spec of None \<Rightarrow> [] | Some ls \<Rightarrow> ls) @ [layer_name]) d)"

definition same_type_layers :: "(string, layer_spec) odict \<Rightarrow> (layer_spec, string list) odict" where
  "same_type_layers kv_cache_spec = fold add_same_type kv_cache_spec []"

text \<open>\<^verbatim>\<open>max < min * 1.25\<close>, in integers.\<close>

definition choose_group_size :: "nat list \<Rightarrow> nat" where
  "choose_group_size lens =
     (let min_num_layers = Min (set lens); max_num_layers = Max (set lens) in
      if 4 * max_num_layers < 5 * min_num_layers then max_num_layers else min_num_layers)"

definition split_layers :: "nat \<Rightarrow> 'a list \<Rightarrow> 'a list list" where
  "split_layers group_size layers =
     (let num_groups = nat (cdiv (int (length layers)) (int group_size)) in
      map (\<lambda>i. every_nth num_groups i layers) [0..<num_groups])"

definition get_kv_cache_groups_uniform_page_size ::
  "(string, layer_spec) odict \<Rightarrow> kv_cache_group_spec list result" where
  "get_kv_cache_groups_uniform_page_size kv_cache_spec =
     (let same = map snd (same_type_layers kv_cache_spec) in
      if same = [] then Inl ValueError
      else let group_size = choose_group_size (map length same) in
        create_kv_cache_group_specs kv_cache_spec (concat (map (split_layers group_size) same)))"

section \<open>The hybrid formats\<close>

fun is_sliding_window :: "layer_spec \<Rightarrow> bool" where
  "is_sliding_window (SlidingWindowSpec _ _) = True"
| "is_sliding_window _ = False"

fun is_chunked_local :: "layer_spec \<Rightarrow> bool" where
  "is_chunked_local (ChunkedLocalAttentionSpec _ _) = True"
| "is_chunked_local _ = False"

fun to_full_attention :: "layer_spec \<Rightarrow> layer_spec" where
  "to_full_attention (SlidingWindowSpec a w) = FullAttentionSpec a (Some w) None"
| "to_full_attention (ChunkedLocalAttentionSpec a c) = FullAttentionSpec a None (Some c)"
| "to_full_attention s = s"

definition one_type :: "(string, layer_spec) odict \<Rightarrow> bool result" where
  "one_type kv_cache_spec =
     rbind (is_kv_cache_spec_uniform kv_cache_spec) (\<lambda>u.
       if u then Inr True else is_uniform_type kv_cache_spec)"

definition unify_hybrid_kv_cache_specs ::
  "(string, layer_spec) odict \<Rightarrow> (string, layer_spec) odict result" where
  "unify_hybrid_kv_cache_specs kv_cache_spec =
     rbind (one_type kv_cache_spec) (\<lambda>u.
       if u then Inr kv_cache_spec
       else
         let specs = map snd kv_cache_spec;
             has_full_attention = list_ex is_full_attention specs;
             has_sliding_window = list_ex is_sliding_window specs;
             has_chunked_local_attention = list_ex is_chunked_local specs;
             kv_cache_spec =
               (if has_full_attention \<and> (has_sliding_window \<or> has_chunked_local_attention)
                then map (apsnd to_full_attention) kv_cache_spec else kv_cache_spec) in
         rbind (one_type kv_cache_spec) (\<lambda>u.
           if u then Inr kv_cache_spec else Inl ValueError))"

text \<open>
  \<^verbatim>\<open>unify_hybrid_kv_cache_specs\<close> changes the dictionary in place; here the grouping goes on with
  the dictionary it returns.
\<close>

definition group_layers :: "(string, layer_spec) odict \<Rightarrow> kv_cache_group_spec list result" where
  "group_layers kv_cache_spec =
     (if is_kv_cache_type_attention_free kv_cache_spec then Inr []
      else rbind (is_kv_cache_spec_uniform kv_cache_spec) (\<lambda>uniform.
        if uniform then get_kv_cache_groups_uniform_spec kv_cache_spec
        else rbind (from_specs kv_cache_spec) (\<lambda>uniform_spec.
          case uniform_spec of
            Some (UniformTypeKVCacheSpecs block_size specs) \<Rightarrow>
              Inr (get_kv_cache_groups_uniform_type block_size specs)
          | _ \<Rightarrow> rbind (unify_kv_cache_spec_page_size kv_cache_spec) get_kv_cache_groups_uniform_page_size)))"

definition get_kv_cache_groups ::
  "vllm_config \<Rightarrow> (string, layer_spec) odict \<Rightarrow> kv_cache_group_spec list result" where
  "get_kv_cache_groups vllm_config kv_cache_spec =
     rbind (if cfg_disable_hybrid_kv_cache_manager vllm_config
            then unify_hybrid_kv_cache_specs kv_cache_spec else Inr kv_cache_spec) group_layers"

section \<open>Blocks and tensors\<close>

definition may_override_num_blocks :: "vllm_config \<Rightarrow> int \<Rightarrow> int" where
  "may_override_num_blocks vllm_config n =
     (case cfg_num_gpu_blocks_override vllm_config of
        None \<Rightarrow> n | Some num_gpu_blocks_override \<Rightarrow> int num_gpu_blocks_override)"

definition rdiv :: "int \<Rightarrow> int \<Rightarrow> int result" where
  "rdiv a b = (if b = 0 then Inl ZeroDivisionError else Inr (a div b))"

definition get_num_blocks :: "vllm_config \<Rightarrow> nat \<Rightarrow> int \<Rightarrow> nat \<Rightarrow> int result" where
  "get_num_blocks vllm_config num_layers available_memory page_size =
     rbind (rdiv available_memory (int page_size)) (\<lambda>n.
     rbind (rdiv n (int num_layers)) (\<lambda>n.
       Inr (may_override_num_blocks vllm_config (max n 0))))"

definition layers_at :: "kv_cache_group_spec list \<Rightarrow> nat \<Rightarrow> string list" where
  "layers_at groups i =
     concat (map (\<lambda>g. if i < length (layer_names g) then [layer_names g ! i] else []) groups)"

definition config_uniform_type ::
  "vllm_config \<Rightarrow> kv_cache_group_spec \<Rightarrow> (string, layer_spec) odict \<Rightarrow> int \<Rightarrow> kv_cache_config result" where
  "config_uniform_type vllm_config kv_group per_layer_specs available_memory =
     rbind (uniform_page_size per_layer_specs) (\<lambda>page_size.
     rbind (rdiv available_memory (int page_size)) (\<lambda>n.
     let n = may_override_num_blocks vllm_config n in
     rbind (rmap (\<lambda>layer_name.
         rbind (od_lookup per_layer_specs layer_name) (\<lambda>spec.
         rbind (page_size_bytes spec) (\<lambda>p.
           Inr \<lparr>tensor_size = int p * n, shared_by = [layer_name]\<rparr>))) (layer_names kv_group)) (\<lambda>tensors.
       Inr \<lparr>num_blocks = n, kv_cache_tensors = tensors, kv_cache_groups = [kv_group]\<rparr>)))"

definition config_general ::
  "vllm_config \<Rightarrow> kv_cache_group_spec list \<Rightarrow> int \<Rightarrow> kv_cache_config result" where
  "config_general vllm_config groups available_memory =
     (let group_size = Max (set (map (length \<circ> layer_names) groups)) in
      rbind (get_uniform_page_size (map group_spec groups)) (\<lambda>page_size.
      rbind (rassert (group_size > 0)) (\<lambda>_.
      rbind (get_num_blocks vllm_config group_size available_memory page_size) (\<lambda>n.
        Inr \<lparr>num_blocks = n,
             kv_cache_tensors =
               map (\<lambda>i. \<lparr>tensor_size = int page_size * n, shared_by = layers_at groups i\<rparr>) [0..<group_size],
             kv_cache_groups = groups\<rparr>))))"

definition get_kv_cache_config_from_groups ::
  "vllm_config \<Rightarrow> kv_cache_group_spec list \<Rightarrow> int \<Rightarrow> kv_cache_config result" where
  "get_kv_cache_config_from_groups vllm_config groups available_memory =
     (case groups of
        [] \<Rightarrow> Inr \<lparr>num_blocks = 1, kv_cache_tensors = [], kv_cache_groups = []\<rparr>
      | [g] \<Rightarrow>
          (case group_spec g of
             UniformTypeKVCacheSpecs _ specs \<Rightarrow> config_uniform_type vllm_config g specs available_memory
           | LayerSpec _ \<Rightarrow> config_general vllm_config groups available_memory)
      | _ \<Rightarrow> config_general vllm_config groups available_memory)"

section \<open>The workers\<close>

definition get_max_concurrency_for_kv_cache_config :: "vllm_config \<Rightarrow> kv_cache_config \<Rightarrow> real result" where
  "get_max_concurrency_for_kv_cache_config vllm_config cfg =
     (case kv_cache_groups cfg of
        [] \<Rightarrow> Inl ValueError
      | g # _ \<Rightarrow>
          let num_layer_per_group = Max (set (map (length \<circ> layer_names) (kv_cache_groups cfg))) in
          rbind (max_memory_usage_bytes vllm_config (map group_spec (kv_cache_groups cfg))) (\<lambda>m.
          rbind (spec_page_size_bytes (group_spec g)) (\<lambda>page.
          rbind (rcdiv (int num_layer_per_group * m) (int page * int num_layer_per_group)) (\<lambda>num_block_per_request.
            if num_block_per_request = 0 then Inl ZeroDivisionError
            else Inr (real_of_int (num_blocks cfg) / real_of_int num_block_per_request)))))"

text \<open>What is logged: the tokens the cache holds and the maximal concurrency.\<close>

definition report_kv_cache_config :: "vllm_config \<Rightarrow> kv_cache_config \<Rightarrow> (int \<times> real) result" where
  "report_kv_cache_config vllm_config cfg =
     (if kv_cache_groups cfg = [] then Inl ValueError
      else
        let min_block_size = Min (set (map (spec_block_size \<circ> group_spec) (kv_cache_groups cfg)));
            num_tokens = num_blocks cfg div int (length (kv_cache_groups cfg)) * int min_block_size;
            cp = cfg_prefill_context_parallel_size vllm_config * cfg_decode_context_parallel_size vllm_config;
            num_tokens = (if 1 < cp then num_tokens * cp else num_tokens) in
        rbind (get_max_concurrency_for_kv_cache_config vllm_config cfg) (\<lambda>c. Inr (num_tokens, c)))"

definition merge_layer ::
  "string \<times> layer_spec \<Rightarrow> (string, layer_spec) odict \<Rightarrow> (string, layer_spec) odict result" where
  "merge_layer = (\<lambda>(layer_name, layer_spec) merged.
     case map_of merged layer_name of
       None \<Rightarrow> Inr (AList.update layer_name layer_spec merged)
     | Some s \<Rightarrow> rbind (rassert (s = layer_spec)) (\<lambda>_. Inr merged))"

definition merge_kv_cache_specs ::
  "(string, layer_spec) odict list \<Rightarrow> (string, layer_spec) odict result" where
  "merge_kv_cache_specs kv_cache_specs = rfold (\<lambda>one merged. rfold merge_layer one merged) kv_cache_specs []"

definition groups_of_worker ::
  "kv_cache_group_spec list \<Rightarrow> (string, layer_spec) odict \<Rightarrow> kv_cache_group_spec list" where
  "groups_of_worker global_groups one_worker =
     map (\<lambda>g. g\<lparr>layer_names := filter (\<lambda>l. l \<in> fst ` set one_worker) (layer_names g)\<rparr>) global_groups"

definition config_of_worker ::
  "vllm_config \<Rightarrow> kv_cache_group_spec list \<Rightarrow> (string, layer_spec) odict \<times> int \<Rightarrow> kv_cache_config result" where
  "config_of_worker vllm_config global_groups = (\<lambda>(one_worker, available_memory).
     let groups = groups_of_worker global_groups one_worker in
     rbind (rassert (sum_list (map (length \<circ> layer_names) groups) = length one_worker)) (\<lambda>_.
       get_kv_cache_config_from_groups vllm_config groups available_memory))"

definition shrink_tensor :: "int \<Rightarrow> int \<Rightarrow> kv_cache_tensor \<Rightarrow> kv_cache_tensor result" where
  "shrink_tensor num_blocks_old min_num_blocks tensor =
     (if num_blocks_old = 0 then Inl ZeroDivisionError
      else rbind (rassert (tensor_size tensor mod num_blocks_old = 0)) (\<lambda>_.
        Inr (tensor\<lparr>tensor_size := tensor_size tensor div num_blocks_old * min_num_blocks\<rparr>)))"

definition shrink_config :: "vllm_config \<Rightarrow> int \<Rightarrow> kv_cache_config \<Rightarrow> kv_cache_config result" where
  "shrink_config vllm_config min_num_blocks cfg =
     rbind (rmap (shrink_tensor (num_blocks cfg) min_num_blocks) (kv_cache_tensors cfg)) (\<lambda>tensors.
     let cfg = cfg\<lparr>num_blocks := min_num_blocks, kv_cache_tensors := tensors\<rparr> in
     if kv_cache_groups cfg = [] then Inr cfg
     else rbind (report_kv_cache_config vllm_config cfg) (\<lambda>_. Inr cfg))"

definition get_kv_cache_configs ::
  "vllm_config \<Rightarrow> (string, layer_spec) odict list \<Rightarrow> int list \<Rightarrow> kv_cache_config list result" where
  "get_kv_cache_configs vllm_config kv_cache_specs available_memory =
     rbind (rmap (\<lambda>(one_worker, mem). check_enough_kv_cache_memory vllm_config one_worker mem)
              (zip kv_cache_specs available_memory)) (\<lambda>_.
     rbind (merge_kv_cache_specs kv_cache_specs) (\<lambda>merged.
     rbind (get_kv_cache_groups vllm_config merged) (\<lambda>global_groups.
     rbind (rmap (config_of_worker vllm_config global_groups) (zip kv_cache_specs available_memory)) (\<lambda>configs.
       if configs = [] then Inl ValueError
       else rmap (shrink_config vllm_config (Min (set (map num_blocks configs)))) configs))))"

text \<open>The configuration of the scheduler: one worker's, with one layer's format for a group.\<close>

definition scheduler_group :: "kv_cache_group_spec \<Rightarrow> kv_cache_group_spec result" where
  "scheduler_group g =
     (case group_spec g of
        UniformTypeKVCacheSpecs _ specs \<Rightarrow>
          (case specs of [] \<Rightarrow> Inl StopIteration | (_, s) # _ \<Rightarrow> Inr (g\<lparr>group_spec := LayerSpec s\<rparr>))
      | LayerSpec _ \<Rightarrow> Inr g)"

definition generate_scheduler_kv_cache_config :: "kv_cache_config list \<Rightarrow> kv_cache_config result" where
  "generate_scheduler_kv_cache_config configs =
     (case configs of
        [] \<Rightarrow> Inl IndexError
      | cfg # _ \<Rightarrow>
          rbind (rassert (list_all (\<lambda>c. num_blocks c = num_blocks cfg) configs)) (\<lambda>_.
          rbind (rmap scheduler_group (kv_cache_groups cfg)) (\<lambda>groups.
            Inr (cfg\<lparr>kv_cache_groups := groups\<rparr>))))"

end
