(* ===== verification/KV_Config_Memory.thy ===== *)
theory KV_Config_Memory
  imports KV_Config
begin

text \<open>
  The memory of a model as a function of its maximal length: it grows with the length, so the
  binary search of \<^verbatim>\<open>estimate_max_model_len\<close> ends at the largest length that fits.
\<close>

section \<open>Monotonicity\<close>

definition memory_needed :: "vllm_config \<Rightarrow> (string, layer_spec) odict \<Rightarrow> int \<Rightarrow> int result" where
  "memory_needed vllm_config kv_cache_spec model_len =
     max_memory_usage_bytes (vllm_config\<lparr>cfg_max_model_len := model_len\<rparr>) (spec_values kv_cache_spec)"

definition fits :: "vllm_config \<Rightarrow> (string, layer_spec) odict \<Rightarrow> int \<Rightarrow> int \<Rightarrow> bool" where
  "fits vllm_config kv_cache_spec available_memory model_len =
     (case memory_needed vllm_config kv_cache_spec model_len of Inl _ \<Rightarrow> False | Inr m \<Rightarrow> m \<le> available_memory)"

lemma fits_iff: "fits cfg specs mem l \<longleftrightarrow> (\<exists>n. memory_needed cfg specs l = Inr n \<and> n \<le> mem)"
  by (auto simp: fits_def split: sum.splits)

lemma pages_eq_Inr:
  "pages n extra s = Inr m \<longleftrightarrow>
     layer_block_size s \<noteq> 0 \<and>
     (\<exists>p. page_size_bytes s = Inr p \<and> m = (cdiv n (int (layer_block_size s)) + extra) * int p)"
  by (auto simp: pages_def rcdiv_def result_simps split: if_splits)

lemma pages_mono:
  assumes "pages n extra s = Inr m" "n \<le> n'"
  shows "\<exists>m'. pages n' extra s = Inr m' \<and> m \<le> m'"
  using assms by (auto simp: pages_eq_Inr intro!: mult_right_mono cdiv_mono)

lemma pages_cdiv_mono:
  assumes "pages (cdiv n b) extra s = Inr m" "n \<le> n'" "1 < b"
  shows "\<exists>m'. pages (cdiv n' b) extra s = Inr m' \<and> m \<le> m'"
  using assms by (intro pages_mono [OF assms(1)] cdiv_mono) simp_all

lemma pages_returns: "pages n extra s = Inr m \<Longrightarrow> \<exists>m'. pages n' extra s = Inr m'"
  by (auto simp: pages_eq_Inr)

lemma layer_memory_mono:
  assumes "layer_max_memory_usage_bytes (cfg\<lparr>cfg_max_model_len := l\<rparr>) s = Inr m" "l \<le> l'"
  shows "\<exists>m'. layer_max_memory_usage_bytes (cfg\<lparr>cfg_max_model_len := l'\<rparr>) s = Inr m' \<and> m \<le> m'"
proof (cases s)
  case (SlidingWindowSpec a w)
  with assms show ?thesis
    using pages_mono [of "min (w - 1 + cfg_max_num_batched_tokens cfg) l" 1 s m "min (w - 1 + cfg_max_num_batched_tokens cfg) l'"]
    by (auto simp: layer_max_memory_usage_bytes_def result_simps)
next
  case (ChunkedLocalAttentionSpec a c)
  with assms show ?thesis
    using pages_mono [of "min (c + cfg_max_num_batched_tokens cfg) l" 0 s m "min (c + cfg_max_num_batched_tokens cfg) l'"]
    by (auto simp: layer_max_memory_usage_bytes_def)
qed (use assms in \<open>auto simp: layer_max_memory_usage_bytes_def Let_def
       intro: pages_mono pages_cdiv_mono split: if_splits\<close>)

lemma layer_memory_returns:
  assumes "layer_max_memory_usage_bytes (cfg\<lparr>cfg_max_model_len := l\<rparr>) s = Inr m"
  shows "\<exists>m'. layer_max_memory_usage_bytes (cfg\<lparr>cfg_max_model_len := l'\<rparr>) s = Inr m'"
  using assms
  by (cases s) (auto simp: layer_max_memory_usage_bytes_def Let_def result_simps intro: pages_returns split: if_splits)

lemma memory_needed_Inr:
  "memory_needed cfg specs l = Inr m \<longleftrightarrow>
     (\<exists>ms. list_all2 (\<lambda>p x. layer_max_memory_usage_bytes (cfg\<lparr>cfg_max_model_len := l\<rparr>) (snd p) = Inr x) specs ms
           \<and> m = sum_list ms)"
  by (auto simp: memory_needed_def max_memory_usage_bytes_def result_simps list_all2_map1)

lemma memory_needed_Nil [simp]: "memory_needed cfg [] l = Inr 0"
  by (simp add: memory_needed_Inr)

lemma memory_needed_Cons:
  "memory_needed cfg (p # specs) l =
     rbind (layer_max_memory_usage_bytes (cfg\<lparr>cfg_max_model_len := l\<rparr>) (snd p)) (\<lambda>x.
     rbind (memory_needed cfg specs l) (\<lambda>m. Inr (x + m)))"
  by (auto simp: memory_needed_def max_memory_usage_bytes_def rbind_assoc intro!: rbind_cong)

lemma memory_needed_mono:
  assumes "memory_needed cfg specs l = Inr m" "l \<le> l'"
  shows "\<exists>m'. memory_needed cfg specs l' = Inr m' \<and> m \<le> m'"
  using assms
proof (induction specs arbitrary: m)
  case (Cons p specs)
  from Cons.prems obtain x n
    where x: "layer_max_memory_usage_bytes (cfg\<lparr>cfg_max_model_len := l\<rparr>) (snd p) = Inr x"
      and n: "memory_needed cfg specs l = Inr n" and m: "m = x + n"
    by (auto simp: memory_needed_Cons result_simps)
  from layer_memory_mono [OF x Cons.prems(2)] Cons.IH [OF n Cons.prems(2)] m
  show ?case by (auto simp: memory_needed_Cons)
qed simp

lemma memory_needed_returns:
  assumes "memory_needed cfg specs l = Inr m"
  shows "\<exists>m'. memory_needed cfg specs l' = Inr m'"
  using assms
proof (induction specs arbitrary: m)
  case (Cons p specs)
  then obtain x n
    where x: "layer_max_memory_usage_bytes (cfg\<lparr>cfg_max_model_len := l\<rparr>) (snd p) = Inr x"
      and n: "memory_needed cfg specs l = Inr n"
    by (auto simp: memory_needed_Cons result_simps)
  from layer_memory_returns [OF x, of l'] Cons.IH [OF n] show ?case by (auto simp: memory_needed_Cons)
qed simp

lemma fits_antimono:
  assumes "fits cfg specs mem l'" "l \<le> l'"
  shows "fits cfg specs mem l"
proof -
  from assms(1) obtain m' where m': "memory_needed cfg specs l' = Inr m'" "m' \<le> mem"
    by (auto simp: fits_def split: sum.splits)
  from memory_needed_returns [OF m'(1)] obtain m where m: "memory_needed cfg specs l = Inr m" by blast
  from memory_needed_mono [OF m assms(2)] m' m show ?thesis by (auto simp: fits_def)
qed

section \<open>The binary search\<close>

lemma memory_needed_overwrite [simp]:
  "memory_needed (cfg\<lparr>cfg_max_model_len := l\<rparr>) specs = memory_needed cfg specs"
  by (simp add: memory_needed_def fun_eq_iff)

lemma fits_overwrite [simp]: "fits (cfg\<lparr>cfg_max_model_len := l\<rparr>) specs = fits cfg specs"
  by (simp add: fits_def fun_eq_iff)

lemma fits_in_memory_eq:
  assumes "memory_needed cfg specs l0 = Inr m0"
  shows "fits_in_memory specs mem l cfg = Inr (fits cfg specs mem l, cfg\<lparr>cfg_max_model_len := l\<rparr>)"
  using memory_needed_returns [OF assms, of l]
  by (auto simp: fits_in_memory_def fits_def memory_needed_def Let_def)

text \<open>
  The loop between \<open>left\<close> and \<open>right\<close>: everything below \<open>left\<close> fits, nothing above \<open>right\<close> does.
\<close>

lemma estimate_loop_finds:
  assumes "memory_needed cfg specs l0 = Inr m0"
    and "1 \<le> left" "left \<le> right + 1" "right \<le> upper" "1 \<le> upper"
    and "fits cfg specs mem 1" "\<forall>l < left. fits cfg specs mem l"
    and "\<forall>l. right < l \<and> l \<le> upper \<longrightarrow> \<not> fits cfg specs mem l"
    and "found = max 1 (left - 1)"
  shows "\<exists>r cfg'. estimate_loop specs mem left right found cfg = Inr (r, cfg') \<and> 1 \<le> r \<and> r \<le> upper \<and>
           (\<forall>l \<le> upper. fits cfg specs mem l \<longleftrightarrow> l \<le> r)"
  using assms
proof (induction specs mem left right found cfg rule: estimate_loop.induct)
  case (1 specs mem left right found cfg)
  let ?mid = "(left + right) div 2"
  let ?cfg = "cfg\<lparr>cfg_max_model_len := ?mid\<rparr>"
  note needed = "1.prems"(1)
  have probe: "fits_in_memory specs mem ?mid cfg = Inr (fits cfg specs mem ?mid, ?cfg)"
    by (rule fits_in_memory_eq [OF needed])
  show ?case
  proof (cases "right < left")
    case True
    with "1.prems" have "right = left - 1" "1 \<le> right"
      by force+
    with "1.prems" True show ?thesis
      by (subst estimate_loop.simps) (auto simp: not_le [symmetric] max_def)
  next
    case False
    then have mid: "left \<le> ?mid" "?mid \<le> right" by linarith+
    show ?thesis
    proof (cases "fits cfg specs mem ?mid")
      case True
      then have "\<forall>l < ?mid + 1. fits cfg specs mem l" using fits_antimono by fastforce
      with "1.IH"(1) [OF False refl probe refl] True mid "1.prems" False probe show ?thesis
        by (subst estimate_loop.simps) (simp add: Let_def max_def)
    next
      case F: False
      then have "\<forall>l. ?mid - 1 < l \<and> l \<le> upper \<longrightarrow> \<not> fits cfg specs mem l"
        using fits_antimono by fastforce
      with "1.IH"(2) [OF False refl probe refl] F mid "1.prems" False probe show ?thesis
        by (subst estimate_loop.simps) (simp add: Let_def)
    qed
  qed
qed

lemma estimate_finds:
  assumes "memory_needed cfg specs l0 = Inr m0" "1 \<le> cfg_max_model_len cfg"
  shows "\<exists>r cfg'. estimate_max_model_len cfg specs mem = Inr (r, cfg') \<and> 0 \<le> r \<and> r \<le> cfg_max_model_len cfg \<and>
           (\<forall>l. 1 \<le> l \<and> l \<le> cfg_max_model_len cfg \<longrightarrow> (fits cfg specs mem l \<longleftrightarrow> l \<le> r))"
proof (cases "fits cfg specs mem 1")
  case True
  then have "\<forall>l < 1. fits cfg specs mem l" using fits_antimono by fastforce
  with estimate_loop_finds [of "cfg\<lparr>cfg_max_model_len := 1\<rparr>" specs l0 m0 1 "cfg_max_model_len cfg" "cfg_max_model_len cfg" mem 1]
    assms True show ?thesis
    by (fastforce simp: estimate_max_model_len_def fits_in_memory_eq [OF assms(1)])
next
  case False
  then have "\<forall>l. 1 \<le> l \<longrightarrow> \<not> fits cfg specs mem l" using fits_antimono by blast
  with False assms show ?thesis
    by (auto simp: estimate_max_model_len_def fits_in_memory_eq [OF assms(1)])
qed

lemma check_enough_Inr:
  assumes "check_enough_kv_cache_memory cfg specs mem = Inr u"
  shows "specs = [] \<or> 0 < mem \<and> (\<exists>m. max_memory_usage_bytes cfg (spec_values specs) = Inr m \<and> m \<le> mem)"
  using assms by (auto simp: check_enough_kv_cache_memory_def result_simps split: if_splits)

end
