(* ===== verification/KV_Config_Groups.thy ===== *)
theory KV_Config_Groups
  imports KV_Config
begin

text \<open>
  The groups of layers: splitting by stride loses and repeats no layer, the groups of a model
  name each of its layers once, and all groups of a model have pages of one size.
\<close>

section \<open>Splitting by stride\<close>

lemma mset_by_class:
  assumes "\<forall>x \<in> set xs. f x < n"
  shows "mset (concat (map (\<lambda>i. filter (\<lambda>x. f x = i) xs) [0..<n])) = mset xs"
  using assms
proof (induction xs)
  case (Cons x xs)
  have "mset (concat (map (\<lambda>i. filter (\<lambda>y. f y = i) (x # xs)) is)) =
        mset (concat (map (\<lambda>i. filter (\<lambda>y. f y = i) xs) is)) + mset (concat (map (\<lambda>i. if f x = i then [x] else []) is))"
    for "is" by (induction "is") auto
  moreover have "mset (concat (map (\<lambda>i. if f x = i then [x] else []) [0..<n])) = (if f x < n then {#x#} else {#})"
    by (induction n) auto
  ultimately show ?case using Cons by simp
qed simp

lemma stride_class: "0 < n \<Longrightarrow> i < n \<Longrightarrow> (i \<le> j \<and> (j - i) mod n = 0) = (j mod n = i)" for i j n :: nat
proof
  assume "0 < n" "i < n" "i \<le> j \<and> (j - i) mod n = 0"
  then have "(j - i + i) mod n = (0 + i) mod n" by (metis mod_add_left_eq)
  with \<open>i < n\<close> \<open>i \<le> j \<and> _\<close> show "j mod n = i" by simp
next
  assume "j mod n = i"
  then show "i \<le> j \<and> (j - i) mod n = 0" by (auto simp: minus_mod_eq_mult_div)
qed

lemma every_nth_class:
  "i < n \<Longrightarrow> every_nth n i xs = map ((!) xs) (filter (\<lambda>j. j mod n = i) [0..<length xs])"
  by (auto simp: every_nth_def stride_class intro!: arg_cong [of _ _ "map _"] filter_cong)

lemma every_nth_partition:
  assumes "0 < n"
  shows "mset (concat (map (\<lambda>i. every_nth n i xs) [0..<n])) = mset xs"
proof -
  have "map (\<lambda>i. every_nth n i xs) [0..<n] =
        map (map ((!) xs)) (map (\<lambda>i. filter (\<lambda>j. j mod n = i) [0..<length xs]) [0..<n])"
    by (simp add: every_nth_class)
  then have "mset (concat (map (\<lambda>i. every_nth n i xs) [0..<n])) =
        image_mset ((!) xs) (mset (concat (map (\<lambda>i. filter (\<lambda>j. j mod n = i) [0..<length xs]) [0..<n])))"
    by (simp only: map_concat [symmetric] mset_map)
  also have "\<dots> = image_mset ((!) xs) (mset [0..<length xs])"
    by (subst mset_by_class) (use assms in auto)
  also have "\<dots> = mset xs" by (simp only: mset_map [symmetric] map_nth)
  finally show ?thesis .
qed

lemma every_nth_length_le:
  assumes "i < n" "length xs \<le> n * k"
  shows "length (every_nth n i xs) \<le> k"
proof -
  let ?js = "filter (\<lambda>j. j mod n = i) [0..<length xs]"
  have "inj_on (\<lambda>j. j div n) (set ?js)"
    by (rule inj_onI) (metis (mono_tags, lifting) div_mult_mod_eq mem_Collect_eq set_filter)
  moreover have "(\<lambda>j. j div n) ` set ?js \<subseteq> {..<k}"
    using assms by (auto simp: div_less_iff_less_mult mult.commute)
  ultimately have "card (set ?js) \<le> k" using card_inj_on_le [of _ "set ?js" "{..<k}"] by simp
  then show ?thesis using assms(1) distinct_card [of ?js] by (simp add: every_nth_class)
qed

lemma every_nth_nonempty: "i < n \<Longrightarrow> n \<le> length xs \<Longrightarrow> every_nth n i xs \<noteq> []"
  by (auto simp: every_nth_class filter_empty_conv intro!: bexI [of _ i])

lemma set_every_nth: "set (every_nth n i xs) \<subseteq> set xs"
  by (auto simp: every_nth_def)

lemma num_groups_bounds:
  assumes "0 < len" "0 < k"
  shows "0 < nat (cdiv (int len) (int k))" "nat (cdiv (int len) (int k)) \<le> len"
    "len \<le> nat (cdiv (int len) (int k)) * k"
proof -
  have "0 < int k" using assms by simp
  note c = cdiv_upper [OF this, of "int len"] cdiv_least [OF this, of "int len"]
  have "\<not> cdiv (int len) (int k) \<le> 0" using c(2) [of 0] assms by simp
  then show pos: "0 < nat (cdiv (int len) (int k))" by simp
  have "int len \<le> int len * int k" using assms by (cases k) auto
  then show "nat (cdiv (int len) (int k)) \<le> len" using c(2) [of "int len"] by simp
  have "int len \<le> int (nat (cdiv (int len) (int k)) * k)" using c(1) pos by simp
  then show "len \<le> nat (cdiv (int len) (int k)) * k" by linarith
qed

lemma split_layers_partition:
  assumes "xs \<noteq> []" "0 < k"
  shows "mset (concat (split_layers k xs)) = mset xs"
  using num_groups_bounds(1) [of "length xs" k] assms
  by (simp add: split_layers_def Let_def every_nth_partition del: mset_concat)

lemma split_layers_sizes:
  assumes "xs \<noteq> []" "0 < k" "ys \<in> set (split_layers k xs)"
  shows "ys \<noteq> []" "length ys \<le> k" "set ys \<subseteq> set xs"
  using assms num_groups_bounds [of "length xs" k]
  by (auto simp: split_layers_def Let_def intro: every_nth_length_le every_nth_nonempty dest: set_every_nth [THEN subsetD]
      dest!: every_nth_nonempty [rotated])

section \<open>Layers of one format\<close>

definition layers_with :: "(string, layer_spec) odict \<Rightarrow> layer_spec \<Rightarrow> string list" where
  "layers_with specs s = map fst (filter (\<lambda>p. snd p = s) specs)"

lemma add_same_type_lookup:
  "map_of (add_same_type (l, s) d) t =
     (if t = s then Some ((case map_of d s of None \<Rightarrow> [] | Some ls \<Rightarrow> ls) @ [l]) else map_of d t)"
  by (auto simp: add_same_type_def update_conv')

lemma same_type_lookup:
  "map_of (fold add_same_type specs d) t =
     (if t \<in> snd ` set specs then Some ((case map_of d t of None \<Rightarrow> [] | Some ls \<Rightarrow> ls) @ layers_with specs t)
      else map_of d t)"
proof (induction specs arbitrary: d)
  case (Cons p specs)
  obtain l s where "p = (l, s)" by (cases p)
  with Cons show ?case by (auto simp: add_same_type_lookup layers_with_def filter_empty_conv split: option.splits)
qed simp

lemma same_type_distinct: "od_wf d \<Longrightarrow> od_wf (fold add_same_type specs d)"
  by (induction specs arbitrary: d) (auto simp: add_same_type_def od_wf_def distinct_update split: prod.splits)

lemma same_type_member:
  assumes "(s, ls) \<in> set (same_type_layers specs)"
  shows "ls = layers_with specs s" "ls \<noteq> []"
proof -
  have "map_of (same_type_layers specs) s = Some ls"
    using assms same_type_distinct [of "[]" specs] by (simp add: same_type_layers_def od_wf_def)
  then show ls: "ls = layers_with specs s"
    by (auto simp: same_type_layers_def same_type_lookup split: if_splits)
  have "s \<in> snd ` set specs" using \<open>map_of _ s = _\<close>
    by (auto simp: same_type_layers_def same_type_lookup split: if_splits)
  with ls show "ls \<noteq> []" by (auto simp: layers_with_def filter_empty_conv)
qed

lemma mset_update_append:
  "distinct (map fst d) \<Longrightarrow>
   mset (concat (map snd (AList.update k ((case map_of d k of None \<Rightarrow> [] | Some ls \<Rightarrow> ls) @ [l]) d))) =
   add_mset l (mset (concat (map snd d)))"
proof (induction d)
  case (Cons p d)
  then show ?case by (cases p) (auto simp: map_of_eq_None_iff split: option.splits)
qed simp

lemma same_type_mset:
  "od_wf d \<Longrightarrow> mset (concat (map snd (fold add_same_type specs d))) = mset (map fst specs) + mset (concat (map snd d))"
proof (induction specs arbitrary: d)
  case (Cons p specs)
  obtain l s where p: "p = (l, s)" by (cases p)
  have "od_wf (add_same_type (l, s) d)" using Cons.prems same_type_distinct [of d "[(l, s)]"] by simp
  from Cons.IH [OF this] show ?case using Cons.prems p mset_update_append [of d s l]
    by (simp add: add_same_type_def od_wf_def del: mset_concat)
qed simp

lemma same_type_layers_partition:
  "mset (concat (map snd (same_type_layers specs))) = mset (map fst specs)"
  using same_type_mset [of "[]" specs] by (simp add: same_type_layers_def od_wf_def del: mset_concat)

lemma same_type_layers_Nil_iff: "same_type_layers specs = [] \<longleftrightarrow> specs = []"
proof
  assume "same_type_layers specs = []"
  with same_type_layers_partition [of specs] show "specs = []" by simp
qed (simp add: same_type_layers_def)

lemma choose_group_size_pos: "lens \<noteq> [] \<Longrightarrow> 0 \<notin> set lens \<Longrightarrow> 0 < choose_group_size lens"
  by (metis (full_types) List.finite_set Max_in Min_in choose_group_size_def gr0I set_empty)

section \<open>Merged formats\<close>

lemma list_all2_right: "list_all2 P xs ys \<Longrightarrow> y \<in> set ys \<Longrightarrow> \<exists>x \<in> set xs. P x y"
  by (induction rule: list_all2_induct) auto

lemma list_all2_left: "list_all2 P xs ys \<Longrightarrow> x \<in> set xs \<Longrightarrow> \<exists>y \<in> set ys. P x y"
  by (induction rule: list_all2_induct) auto

lemma remdups_single: "length (remdups xs) = 1 \<Longrightarrow> x \<in> set xs \<Longrightarrow> hd (remdups xs) = x"
  by (metis (no_types, lifting) One_nat_def hd_conv_nth in_set_conv_nth length_greater_0_conv less_Suc0
      less_one set_remdups)

lemma merge_specs_page_size:
  assumes "merge_specs (s # rest) = Inr m"
  shows "page_size_bytes m = page_size_bytes s"
proof (cases s)
  case (MLAAttentionSpec a w c d)
  with assms show ?thesis
    using remdups_single [of "map (\<lambda>s. case s of MLAAttentionSpec _ _ _ d \<Rightarrow> d | _ \<Rightarrow> None) (s # rest)" d]
    by (auto simp: merge_specs_def mla_merge_def result_simps Let_def simp del: remdups.simps)
qed (use assms in \<open>auto simp: merge_specs_def full_merge_def base_merge_def result_simps Let_def
       List.map_filter_simps split: list.splits\<close>)

lemma merge_specs_Nil [simp]: "merge_specs [] = Inl IndexError"
  by (simp add: merge_specs_def)

lemma create_group_parts:
  assumes "create_kv_cache_group_specs specs names = Inr groups"
  shows "list_all2 (\<lambda>ls g. layer_names g = ls \<and> (\<exists>l s m. l \<in> set ls \<and> map_of specs l = Some s \<and>
           group_spec g = LayerSpec m \<and> page_size_bytes m = page_size_bytes s)) names groups"
  using assms unfolding create_kv_cache_group_specs_def rmap_Inr_iff
proof (rule list_all2_mono)
  fix ls g
  assume "rbind (rmap (od_lookup specs) ls) (\<lambda>layer_specs. rbind (merge_specs layer_specs) (\<lambda>m.
            Inr \<lparr>layer_names = ls, group_spec = LayerSpec m\<rparr>)) = Inr g"
  then obtain ss m where ss: "rmap (od_lookup specs) ls = Inr ss" and m: "merge_specs ss = Inr m"
    and g: "g = \<lparr>layer_names = ls, group_spec = LayerSpec m\<rparr>" by (auto simp: result_simps)
  from m obtain s rest where s: "ss = s # rest" by (cases ss) auto
  with ss obtain l ls' where "ls = l # ls'" "map_of specs l = Some s"
    by (cases ls) (auto simp: result_simps od_lookup_def split: option.splits)
  with merge_specs_page_size [of s rest m] m s g
  show "layer_names g = ls \<and> (\<exists>l s m. l \<in> set ls \<and> map_of specs l = Some s \<and>
           group_spec g = LayerSpec m \<and> page_size_bytes m = page_size_bytes s)" by auto
qed

lemma create_group_names:
  assumes "create_kv_cache_group_specs specs names = Inr groups"
  shows "map layer_names groups = names"
  using create_group_parts [OF assms]
  by (induction names groups rule: list_all2_induct) simp_all

lemma create_group_page:
  assumes "create_kv_cache_group_specs specs names = Inr groups" "g \<in> set groups"
  shows "layer_names g \<noteq> []"
    "\<exists>s m. s \<in> snd ` set specs \<and> group_spec g = LayerSpec m \<and> page_size_bytes m = page_size_bytes s"
proof -
  from list_all2_right [OF create_group_parts [OF assms(1)] assms(2)] obtain l s m
    where "l \<in> set (layer_names g)" "map_of specs l = Some s" "group_spec g = LayerSpec m" "page_size_bytes m = page_size_bytes s"
    by blast
  then show "layer_names g \<noteq> []" "\<exists>s m. s \<in> snd ` set specs \<and> group_spec g = LayerSpec m \<and> page_size_bytes m = page_size_bytes s"
    by (auto dest!: map_of_SomeD intro!: bexI [of _ "(l, s)"])
qed

section \<open>One page size\<close>

definition pages_ok :: "(string, layer_spec) odict \<Rightarrow> bool" where
  "pages_ok specs \<longleftrightarrow> (\<forall>p \<in> set specs. \<exists>n > 0. page_size_bytes (snd p) = Inr n)"

definition one_page_size :: "(string, layer_spec) odict \<Rightarrow> bool" where
  "one_page_size specs \<longleftrightarrow> (\<exists>n > 0. \<forall>p \<in> set specs. page_size_bytes (snd p) = Inr n)"

lemma unify_page_size_of_Inr:
  "unify_page_size_of P s = Inr s' \<Longrightarrow> page_size_bytes s' = Inr P"
  by (auto simp: unify_page_size_of_def result_simps Let_def split: if_splits)

lemma rmap_keys:
  assumes "rmap (\<lambda>(k, s). rbind (f s) (\<lambda>s'. Inr (k, s'))) specs = Inr specs'"
  shows "map fst specs' = map fst specs"
proof -
  have "list_all2 (\<lambda>p q. fst q = fst p) specs specs'"
    using assms unfolding rmap_Inr_iff by (rule list_all2_mono) (auto simp: result_simps split: prod.splits)
  then show ?thesis by (induction rule: list_all2_induct) simp_all
qed

lemma unify_page_size_names:
  "unify_kv_cache_spec_page_size specs = Inr specs' \<Longrightarrow> map fst specs' = map fst specs"
  by (auto simp: unify_kv_cache_spec_page_size_def rbind_eq_Inr_iff split: if_splits dest: rmap_keys)

lemma remdups_le_1_eq: "length (remdups xs) \<le> 1 \<Longrightarrow> x \<in> set xs \<Longrightarrow> y \<in> set xs \<Longrightarrow> x = y"
  by (metis One_nat_def card_le_Suc0_iff_eq length_remdups_card_conv List.finite_set)

lemma unify_page_size_one:
  assumes "unify_kv_cache_spec_page_size specs = Inr specs'" "pages_ok specs" "specs \<noteq> []"
  shows "one_page_size specs'"
proof -
  from assms(1) obtain ps where ps: "list_all2 (\<lambda>p n. page_size_bytes (snd p) = Inr n) specs ps"
    and next_step: "(if length (remdups ps) \<le> 1 then Inr specs
       else rmap (\<lambda>(l, s). rbind (unify_page_size_of (Max (set ps)) s) (\<lambda>s. Inr (l, s))) specs) = Inr specs'"
    by (auto simp: unify_kv_cache_spec_page_size_def result_simps)
  have page_in: "\<exists>n \<in> set ps. n > 0 \<and> page_size_bytes (snd p) = Inr n" if "p \<in> set specs" for p
    using list_all2_left [OF ps that] assms(2) that by (fastforce simp: pages_ok_def)
  obtain p0 where p0: "p0 \<in> set specs" using assms(3) by (cases specs) auto
  show ?thesis
  proof (cases "length (remdups ps) \<le> 1")
    case True
    with next_step have "specs' = specs" by simp
    with page_in [OF p0] page_in remdups_le_1_eq [OF True] show ?thesis unfolding one_page_size_def by metis
  next
    case False
    with next_step have "list_all2 (\<lambda>p q. page_size_bytes (snd q) = Inr (Max (set ps))) specs specs'"
      by (auto simp: rmap_Inr_iff result_simps split: prod.splits elim!: list_all2_mono dest: unify_page_size_of_Inr)
    moreover from page_in [OF p0] have "Max (set ps) > 0" by (metis List.finite_set Max_ge less_le_trans)
    ultimately show ?thesis unfolding one_page_size_def using list_all2_right [of _ specs specs'] by blast
  qed
qed

section \<open>The groups of a model\<close>

definition names_partition :: "kv_cache_group_spec list \<Rightarrow> (string, layer_spec) odict \<Rightarrow> bool" where
  "names_partition groups specs \<longleftrightarrow>
     mset (concat (map layer_names groups)) = mset (map fst specs) \<and> (\<forall>g \<in> set groups. layer_names g \<noteq> [])"

definition groups_one_page :: "kv_cache_group_spec list \<Rightarrow> bool" where
  "groups_one_page groups \<longleftrightarrow> (\<exists>n > 0. \<forall>g \<in> set groups. \<exists>s. group_spec g = LayerSpec s \<and> page_size_bytes s = Inr n)"

definition uniform_type_group :: "kv_cache_group_spec list \<Rightarrow> bool" where
  "uniform_type_group groups \<longleftrightarrow>
     (\<exists>bs specs. groups = get_kv_cache_groups_uniform_type bs specs \<and> od_wf specs \<and> specs \<noteq> [] \<and> pages_ok specs)"

lemma uniform_spec_groups:
  assumes "get_kv_cache_groups_uniform_spec specs = Inr groups" "pages_ok specs"
  shows "names_partition groups specs \<and> groups_one_page groups"
proof -
  note create = assms(1) [unfolded get_kv_cache_groups_uniform_spec_def]
  from create_group_names [OF create] obtain g where g: "groups = [g]" "layer_names g = map fst specs"
    by (cases groups) auto
  with create_group_page [OF create, of g] obtain s m
    where "layer_names g \<noteq> []" "s \<in> snd ` set specs" "group_spec g = LayerSpec m" "page_size_bytes m = page_size_bytes s"
    by auto
  with g assms(2) show ?thesis by (auto simp: names_partition_def groups_one_page_def pages_ok_def)
qed

lemma concat_split_layers:
  assumes "\<forall>ls \<in> set lss. ls \<noteq> []" "0 < k"
  shows "mset (concat (concat (map (split_layers k) lss))) = mset (concat lss)"
  using assms by (induction lss) (simp_all add: split_layers_partition del: mset_concat)

lemma uniform_page_groups:
  assumes "get_kv_cache_groups_uniform_page_size specs = Inr groups" "one_page_size specs"
  shows "names_partition groups specs \<and> groups_one_page groups"
proof -
  let ?same = "map snd (same_type_layers specs)"
  let ?k = "choose_group_size (map length ?same)"
  from assms(1) have ne: "?same \<noteq> []"
    and create: "create_kv_cache_group_specs specs (concat (map (split_layers ?k) ?same)) = Inr groups"
    by (auto simp: get_kv_cache_groups_uniform_page_size_def Let_def split: if_splits)
  have same_ne: "\<forall>ls \<in> set ?same. ls \<noteq> []" using same_type_member(2) by fastforce
  then have "0 < ?k" using ne by (intro choose_group_size_pos) auto
  then have "mset (concat (map layer_names groups)) = mset (map fst specs)"
    using concat_split_layers [OF same_ne] create_group_names [OF create] same_type_layers_partition [of specs]
    by (simp del: mset_concat)
  moreover have "layer_names g \<noteq> []" if "g \<in> set groups" for g
    by (rule create_group_page(1) [OF create that])
  moreover have "groups_one_page groups"
  proof -
    from assms(2) obtain n where "0 < n" and n: "\<forall>p \<in> set specs. page_size_bytes (snd p) = Inr n"
      by (auto simp: one_page_size_def)
    then show ?thesis unfolding groups_one_page_def using create_group_page(2) [OF create] by (metis imageE)
  qed
  ultimately show ?thesis by (simp add: names_partition_def)
qed

lemma names_partition_cong: "map fst specs = map fst specs' \<Longrightarrow> names_partition groups specs = names_partition groups specs'"
  by (simp add: names_partition_def)

lemma from_specs_cases:
  assumes "from_specs specs = Inr u"
  shows "u = None \<or> (\<exists>bs. u = Some (UniformTypeKVCacheSpecs bs specs))"
  using assms by (auto simp: from_specs_def result_simps split: if_splits)

lemma group_layers_cases:
  assumes "group_layers specs = Inr groups"
  obtains (free) "specs = []" "groups = []"
    | (uniform) "get_kv_cache_groups_uniform_spec specs = Inr groups"
    | (uniform_type) bs where "specs \<noteq> []" "groups = get_kv_cache_groups_uniform_type bs specs"
    | (hybrid) specs' where "specs \<noteq> []" "unify_kv_cache_spec_page_size specs = Inr specs'"
        "get_kv_cache_groups_uniform_page_size specs' = Inr groups"
proof (cases "specs = []")
  case True
  with assms free show ?thesis by (auto simp: group_layers_def is_kv_cache_type_attention_free_def)
next
  case ne: False
  with assms obtain u where "(if u then get_kv_cache_groups_uniform_spec specs
        else rbind (from_specs specs) (\<lambda>uniform_spec. case uniform_spec of
            Some (UniformTypeKVCacheSpecs bs specs) \<Rightarrow> Inr (get_kv_cache_groups_uniform_type bs specs)
          | _ \<Rightarrow> rbind (unify_kv_cache_spec_page_size specs) get_kv_cache_groups_uniform_page_size)) = Inr groups"
    by (auto simp: group_layers_def is_kv_cache_type_attention_free_def result_simps)
  then consider "get_kv_cache_groups_uniform_spec specs = Inr groups"
    | v where "from_specs specs = Inr v" "(case v of Some (UniformTypeKVCacheSpecs bs specs) \<Rightarrow> Inr (get_kv_cache_groups_uniform_type bs specs)
          | _ \<Rightarrow> rbind (unify_kv_cache_spec_page_size specs) get_kv_cache_groups_uniform_page_size) = Inr groups"
    by (auto simp: rbind_eq_Inr_iff split: if_splits)
  then show ?thesis
  proof cases
    case (2 v)
    with from_specs_cases [OF 2(1)] ne show ?thesis by (auto simp: rbind_eq_Inr_iff intro: uniform_type hybrid)
  qed (rule uniform)
qed

lemma group_layers_ok:
  assumes "group_layers specs = Inr groups" "od_wf specs" "pages_ok specs"
  shows "names_partition groups specs \<and> (groups_one_page groups \<or> uniform_type_group groups)"
  using assms(1)
proof (cases rule: group_layers_cases)
  case (hybrid specs')
  with uniform_page_groups unify_page_size_one [OF hybrid(2) assms(3)]
    names_partition_cong [OF unify_page_size_names [OF hybrid(2)]] show ?thesis by blast
qed (use assms uniform_spec_groups in \<open>auto simp: uniform_type_group_def names_partition_def groups_one_page_def
       get_kv_cache_groups_uniform_type_def\<close>)

lemma page_size_to_full [simp]: "page_size_bytes (to_full_attention s) = page_size_bytes s"
  by (cases s) simp_all

lemma unify_hybrid_ok:
  assumes "unify_hybrid_kv_cache_specs specs = Inr specs'"
  shows "map fst specs' = map fst specs" "pages_ok specs \<Longrightarrow> pages_ok specs'"
  using assms by (fastforce simp: unify_hybrid_kv_cache_specs_def result_simps Let_def pages_ok_def split: if_splits)+

lemma get_kv_cache_groups_ok:
  assumes "get_kv_cache_groups cfg specs = Inr groups" "od_wf specs" "pages_ok specs"
  shows "names_partition groups specs \<and> (groups_one_page groups \<or> uniform_type_group groups)"
proof -
  from assms(1) obtain specs' where specs': "(if cfg_disable_hybrid_kv_cache_manager cfg
      then unify_hybrid_kv_cache_specs specs else Inr specs) = Inr specs'" and g: "group_layers specs' = Inr groups"
    by (auto simp: get_kv_cache_groups_def result_simps)
  from specs' unify_hybrid_ok assms(2,3) have "map fst specs' = map fst specs" "od_wf specs'" "pages_ok specs'"
    by (auto simp: od_wf_def split: if_splits)
  with group_layers_ok [OF g] names_partition_cong show ?thesis by blast
qed

section \<open>Pages hold the layers\<close>

text \<open>
  \<^verbatim>\<open>MLAAttentionSpec.merge\<close> compares nothing but the quantization of its layers, so for them the
  merged page is the first layer's; every other merge compares the fields that make the page.
\<close>

lemma merge_specs_page_all:
  assumes "merge_specs ss = Inr m" "s \<in> set ss" "\<not> is_mla_attention s"
  shows "page_size_bytes m = page_size_bytes s"
proof (cases ss)
  case (Cons t rest)
  show ?thesis
  proof (cases t)
    case (FullAttentionSpec a w c)
    with Cons assms have "list_all is_full_attention ss" "list_all (\<lambda>f. fst f = a) (List.map_filter full_fields ss)"
      and m: "page_size_bytes m = Inr (attention_page_size a)"
      by (auto simp: merge_specs_def full_merge_def result_simps Let_def List.map_filter_simps split: list.splits)
    with assms(2,3) have "page_size_bytes s = Inr (attention_page_size a)"
      by (cases s rule: layer_spec.exhaust) (fastforce simp: list_all_iff List.map_filter_def image_iff)+
    with m show ?thesis by simp
  next
    case (MLAAttentionSpec a w c d)
    with Cons assms show ?thesis by (auto simp: merge_specs_def mla_merge_def result_simps list_all_iff)
  qed (use Cons assms in \<open>auto simp: merge_specs_def base_merge_def result_simps list_all_iff\<close>)
qed (use assms in simp)

definition page_le :: "layer_spec \<Rightarrow> kv_cache_spec \<Rightarrow> bool" where
  "page_le s k \<longleftrightarrow> (\<exists>p n. page_size_bytes s = Inr p \<and> spec_page_size_bytes k = Inr n \<and> p \<le> n)"

text \<open>
  The page of a group has room for the page of each of its layers. Layers of multi-head latent attention are exempt: their
  specifications are merged without comparing the sizes.
\<close>

definition group_holds :: "(string, layer_spec) odict \<Rightarrow> kv_cache_group_spec \<Rightarrow> bool" where
  "group_holds specs g \<longleftrightarrow>
     (\<forall>l s. l \<in> set (layer_names g) \<and> map_of specs l = Some s \<and> \<not> is_mla_attention s \<longrightarrow> page_le s (group_spec g))"

lemma create_group_holds:
  assumes "create_kv_cache_group_specs specs names = Inr groups" "g \<in> set groups" "pages_ok specs"
  shows "group_holds specs g"
  unfolding group_holds_def
proof (intro allI impI, elim conjE)
  fix l s
  assume l: "l \<in> set (layer_names g)" and s: "map_of specs l = Some s" and mla: "\<not> is_mla_attention s"
  from list_all2_right [OF assms(1) [unfolded create_kv_cache_group_specs_def rmap_Inr_iff] assms(2)] obtain ls ss m
    where ss: "rmap (od_lookup specs) ls = Inr ss" and m: "merge_specs ss = Inr m"
      and g: "g = \<lparr>layer_names = ls, group_spec = LayerSpec m\<rparr>" by (auto simp: result_simps)
  from list_all2_left [OF ss [unfolded rmap_Inr_iff], of l] l g s have "s \<in> set ss" by (auto simp: od_lookup_def)
  from merge_specs_page_all [OF m this mla] have "page_size_bytes m = page_size_bytes s" .
  moreover obtain n where "page_size_bytes s = Inr n" using assms(3) map_of_SomeD [OF s] by (force simp: pages_ok_def)
  ultimately show "page_le s (group_spec g)" by (simp add: page_le_def g)
qed

lemma mla_copy [simp]: "is_mla_attention (copy_with_new_block_size b s) = is_mla_attention s"
  by (cases s) simp_all

lemma mla_to_full: "is_mla_attention (to_full_attention s) = is_mla_attention s"
  by (cases s) simp_all

text \<open>A change of the formats that keeps the names, enlarges pages and makes no layer an MLA layer.\<close>

definition enlarges :: "(string, layer_spec) odict \<Rightarrow> (string, layer_spec) odict \<Rightarrow> bool" where
  "enlarges specs specs' \<longleftrightarrow> (\<forall>l s. map_of specs l = Some s \<and> \<not> is_mla_attention s \<longrightarrow>
     (\<exists>s'. map_of specs' l = Some s' \<and> \<not> is_mla_attention s' \<and> page_le s (LayerSpec s')))"

lemma group_holds_enlarged:
  assumes "enlarges specs specs'" "group_holds specs' g"
  shows "group_holds specs g"
  unfolding group_holds_def
proof (intro allI impI, elim conjE)
  fix l s
  assume l: "l \<in> set (layer_names g)" "map_of specs l = Some s" "\<not> is_mla_attention s"
  then obtain s' where s': "map_of specs' l = Some s'" "\<not> is_mla_attention s'" "page_le s (LayerSpec s')"
    using assms(1) by (auto simp: enlarges_def)
  with l(1) assms(2) have "page_le s' (group_spec g)" by (auto simp: group_holds_def)
  with s'(3) show "page_le s (group_spec g)" by (force simp: page_le_def)
qed

lemma enlargesI:
  assumes "list_all2 (\<lambda>p q. fst q = fst p \<and> (\<not> is_mla_attention (snd p) \<longrightarrow>
             \<not> is_mla_attention (snd q) \<and> page_le (snd p) (LayerSpec (snd q)))) specs specs'"
  shows "enlarges specs specs'"
  using assms unfolding enlarges_def
  by (induction rule: list_all2_induct) (auto split: if_splits)

lemma enlarges_refl: "pages_ok specs \<Longrightarrow> enlarges specs specs"
  by (rule enlargesI) (auto simp: list_all2_same page_le_def pages_ok_def)

lemma unify_page_size_of_enlarges:
  assumes "unify_page_size_of P s = Inr s'" "page_size_bytes s = Inr p" "p \<le> P"
  shows "is_mla_attention s' = is_mla_attention s \<and> page_le s (LayerSpec s')"
  using assms unify_page_size_of_Inr [OF assms(1)]
  by (auto simp: unify_page_size_of_def page_le_def result_simps Let_def split: if_splits)

lemma unify_page_size_enlarges:
  assumes "unify_kv_cache_spec_page_size specs = Inr specs'" "pages_ok specs"
  shows "enlarges specs specs'"
proof -
  from assms(1) obtain ps where ps: "list_all2 (\<lambda>p n. page_size_bytes (snd p) = Inr n) specs ps"
    and next_step: "(if length (remdups ps) \<le> 1 then Inr specs
       else rmap (\<lambda>(l, s). rbind (unify_page_size_of (Max (set ps)) s) (\<lambda>s. Inr (l, s))) specs) = Inr specs'"
    by (auto simp: unify_kv_cache_spec_page_size_def result_simps)
  show ?thesis
  proof (cases "length (remdups ps) \<le> 1")
    case True
    with next_step enlarges_refl [OF assms(2)] show ?thesis by simp
  next
    case False
    with next_step have "list_all2 (\<lambda>p q. rbind (unify_page_size_of (Max (set ps)) (snd p)) (\<lambda>s. Inr (fst p, s)) = Inr q) specs specs'"
      by (simp add: rmap_Inr_iff split_def)
    then show ?thesis
    proof (intro enlargesI, elim list.rel_mono_strong)
      fix p q
      assume p: "p \<in> set specs" and q: "rbind (unify_page_size_of (Max (set ps)) (snd p)) (\<lambda>s. Inr (fst p, s)) = Inr q"
      from list_all2_left [OF ps p] obtain n where "n \<in> set ps" "page_size_bytes (snd p) = Inr n" by blast
      with unify_page_size_of_enlarges q
      show "fst q = fst p \<and> (\<not> is_mla_attention (snd p) \<longrightarrow> \<not> is_mla_attention (snd q) \<and> page_le (snd p) (LayerSpec (snd q)))"
        by (fastforce simp: result_simps)
    qed
  qed
qed

lemma unify_hybrid_enlarges:
  assumes "unify_hybrid_kv_cache_specs specs = Inr specs'" "pages_ok specs"
  shows "enlarges specs specs'"
proof -
  from assms(1) have "specs' = specs \<or> specs' = map (apsnd to_full_attention) specs"
    by (auto simp: unify_hybrid_kv_cache_specs_def result_simps Let_def split: if_splits)
  moreover have "enlarges specs (map (apsnd to_full_attention) specs)"
    using assms(2) by (intro enlargesI) (auto simp: list_all2_map2 list_all2_same page_le_def pages_ok_def mla_to_full)
  ultimately show ?thesis using enlarges_refl [OF assms(2)] by blast
qed

lemma uniform_type_holds:
  assumes "pages_ok specs" "od_wf specs" "g \<in> set (get_kv_cache_groups_uniform_type bs specs)"
  shows "group_holds specs g"
  unfolding group_holds_def
proof (intro allI impI, elim conjE)
  fix l s
  assume "map_of specs l = Some s"
  then have s: "(l, s) \<in> set specs" by (rule map_of_SomeD)
  have "\<exists>ps. rmap (page_size_bytes \<circ> snd) specs = Inr ps" using assms(1)
  proof (induction specs)
    case (Cons p specs)
    then show ?case by (auto simp: pages_ok_def)
  qed simp
  then obtain ps where ps: "rmap (page_size_bytes \<circ> snd) specs = Inr ps" by blast
  with list_all2_left [OF ps [unfolded rmap_Inr_iff] s] member_le_sum_list [of _ ps] assms(3)
  show "page_le s (group_spec g)"
    by (auto simp: page_le_def get_kv_cache_groups_uniform_type_def uniform_page_size_def)
qed

lemma group_layers_holds:
  assumes "group_layers specs = Inr groups" "od_wf specs" "pages_ok specs" "g \<in> set groups"
  shows "group_holds specs g"
  using assms(1)
proof (cases rule: group_layers_cases)
  case (hybrid specs')
  have "pages_ok specs'" using unify_page_size_one [OF hybrid(2) assms(3) hybrid(1)]
    by (auto simp: one_page_size_def pages_ok_def)
  with hybrid(3) assms(4) have "group_holds specs' g"
    by (auto simp: get_kv_cache_groups_uniform_page_size_def Let_def intro: create_group_holds split: if_splits)
  with group_holds_enlarged unify_page_size_enlarges [OF hybrid(2) assms(3)] show ?thesis by blast
next
  case uniform
  with assms(3,4) show ?thesis by (auto simp: get_kv_cache_groups_uniform_spec_def intro: create_group_holds)
qed (use assms uniform_type_holds in auto)

lemma get_kv_cache_groups_holds:
  assumes "get_kv_cache_groups cfg specs = Inr groups" "od_wf specs" "pages_ok specs" "g \<in> set groups"
  shows "group_holds specs g"
proof -
  from assms(1) obtain specs' where specs': "(if cfg_disable_hybrid_kv_cache_manager cfg
      then unify_hybrid_kv_cache_specs specs else Inr specs) = Inr specs'" and g: "group_layers specs' = Inr groups"
    by (auto simp: get_kv_cache_groups_def result_simps)
  from specs' unify_hybrid_ok unify_hybrid_enlarges enlarges_refl assms(2,3)
  have "od_wf specs'" "pages_ok specs'" "enlarges specs specs'" by (auto simp: od_wf_def split: if_splits)
  with group_layers_holds [OF g] group_holds_enlarged assms(4) show ?thesis by blast
qed

end
