(* ===== verification/KV_Config_Workers.thy ===== *)
theory KV_Config_Workers
  imports KV_Config_Groups
begin

text \<open>
  Blocks and tensors of the workers: every layer has one tensor, the tensors of a worker fit into
  its memory, and after the common number of blocks is taken all workers agree on it.
\<close>

section \<open>What a worker's configuration promises\<close>

definition tensor_total :: "kv_cache_config \<Rightarrow> int" where
  "tensor_total c = sum_list (map tensor_size (kv_cache_tensors c))"

definition config_ok :: "string list \<Rightarrow> int \<Rightarrow> kv_cache_config \<Rightarrow> bool" where
  "config_ok names mem c \<longleftrightarrow>
     mset (concat (map shared_by (kv_cache_tensors c))) = mset names \<and>
     0 \<le> num_blocks c \<and> tensor_total c \<le> mem \<and>
     (\<forall>t \<in> set (kv_cache_tensors c). 0 \<le> tensor_size t \<and> num_blocks c dvd tensor_size t)"

lemma config_okI:
  assumes "mset (concat (map shared_by (kv_cache_tensors c))) = mset names"
    "0 \<le> num_blocks c" "tensor_total c \<le> mem" "\<And>t. t \<in> set (kv_cache_tensors c) \<Longrightarrow> 0 \<le> tensor_size t \<and> num_blocks c dvd tensor_size t"
  shows "config_ok names mem c"
  using assms by (simp add: config_ok_def)

section \<open>The general case\<close>

lemma concat_nth_upto: "length xs \<le> k \<Longrightarrow> concat (map (\<lambda>i. if i < length xs then [xs ! i] else []) [0..<k]) = xs"
proof -
  have "concat (map (\<lambda>i. if i < length xs then [xs ! i] else []) [0..<k]) = take k xs" for k
    by (induction k) (simp_all add: take_Suc_conv_app_nth)
  then show "length xs \<le> k \<Longrightarrow> ?thesis" by simp
qed

lemma layers_at_partition:
  assumes "\<forall>g \<in> set groups. length (layer_names g) \<le> k"
  shows "mset (concat (map (layers_at groups) [0..<k])) = mset (concat (map layer_names groups))"
  using assms
proof (induction groups)
  case Nil
  show ?case by (simp add: layers_at_def)
next
  case (Cons g groups)
  have "mset (concat (map (layers_at (g # groups)) is)) =
        mset (concat (map (\<lambda>i. if i < length (layer_names g) then [layer_names g ! i] else []) is)) +
        mset (concat (map (layers_at groups) is))" for "is"
    by (induction "is") (auto simp: layers_at_def)
  then show ?case using Cons concat_nth_upto [of "layer_names g" k] by (simp del: mset_concat)
qed

lemma blocks_fit:
  fixes mem :: int
  assumes "0 \<le> mem" "0 < k" "0 < page"
  shows "0 \<le> mem div page div k" "k * (page * (mem div page div k)) \<le> mem"
proof -
  have "mem div page div k * k \<le> mem div page" using assms by (simp add: div_mult_self_is_m minus_mod_eq_div_mult [symmetric])
  then have "mem div page div k * k * page \<le> mem div page * page" using assms by (simp add: mult_right_mono)
  also have "\<dots> \<le> mem" using assms by (simp add: minus_mod_eq_div_mult [symmetric])
  finally show "k * (page * (mem div page div k)) \<le> mem" by (simp add: ac_simps)
qed (use assms in \<open>simp add: pos_imp_zdiv_nonneg_iff\<close>)

lemma get_uniform_page_size_one:
  assumes "specs \<noteq> []" "\<forall>s \<in> set specs. spec_page_size_bytes s = Inr n"
  shows "get_uniform_page_size specs = Inr n"
proof -
  have "rmap spec_page_size_bytes specs = Inr (replicate (length specs) n)"
    using assms(2) by (auto simp: rmap_Inr_iff list_all2_conv_all_nth)
  moreover have "remdups (replicate (length specs) n) = [n]" using assms(1)
    by (induction specs) (auto simp: replicate_append_same split: if_splits)
  ultimately show ?thesis by (simp add: get_uniform_page_size_def)
qed

lemma config_general_ok:
  assumes "groups_one_page groups" "groups \<noteq> []" "concat (map layer_names groups) \<noteq> []"
    "0 \<le> mem" "cfg_num_gpu_blocks_override cfg = None"
  shows "\<exists>c. config_general cfg groups mem = Inr c \<and> config_ok (concat (map layer_names groups)) mem c \<and>
           kv_cache_groups c = groups"
proof -
  let ?k = "Max (set (map (length \<circ> layer_names) groups))"
  from assms(1) obtain page where page: "0 < page" "\<forall>g \<in> set groups. spec_page_size_bytes (group_spec g) = Inr page"
    unfolding groups_one_page_def by (metis spec_page_size_bytes.simps(1))
  have le: "\<forall>g \<in> set groups. length (layer_names g) \<le> ?k" by (auto intro: Max_ge)
  obtain g where "g \<in> set groups" "layer_names g \<noteq> []" using assms(3) by auto
  with le have k: "0 < ?k" by (metis length_greater_0_conv less_le_trans)
  let ?n = "mem div int page div int ?k"
  note fit = blocks_fit [OF assms(4), of "int ?k" "int page"]
  let ?c = "\<lparr>num_blocks = ?n, kv_cache_tensors =
     map (\<lambda>i. \<lparr>tensor_size = int page * ?n, shared_by = layers_at groups i\<rparr>) [0..<?k], kv_cache_groups = groups\<rparr>"
  have "get_num_blocks cfg ?k mem page = Inr ?n"
    using k page(1) fit(1) assms(5) by (simp add: get_num_blocks_def rdiv_def may_override_num_blocks_def)
  then have "config_general cfg groups mem = Inr ?c"
    using get_uniform_page_size_one [of "map group_spec groups" page] page(2) assms(2) k
    by (simp add: config_general_def Let_def)
  moreover have "config_ok (concat (map layer_names groups)) mem ?c"
    using layers_at_partition [OF le] fit k page(1)
    by (intro config_okI) (simp_all add: tensor_total_def comp_def sum_list_replicate map_replicate_const del: mset_concat, auto)
  ultimately show ?thesis by force
qed

section \<open>Layers of one type and several page sizes\<close>

definition layer_page :: "(string, layer_spec) odict \<Rightarrow> string \<Rightarrow> nat" where
  "layer_page specs l = (case map_of specs l of Some s \<Rightarrow> (case page_size_bytes s of Inr n \<Rightarrow> n | Inl _ \<Rightarrow> 0) | None \<Rightarrow> 0)"

lemma layer_page_member:
  assumes "od_wf specs" "pages_ok specs" "(l, s) \<in> set specs"
  shows "page_size_bytes s = Inr (layer_page specs l)" "0 < layer_page specs l"
proof -
  have "map_of specs l = Some s" using assms by (simp add: od_wf_def)
  moreover obtain n where "0 < n" "page_size_bytes s = Inr n" using assms by (auto simp: pages_ok_def)
  ultimately show "page_size_bytes s = Inr (layer_page specs l)" "0 < layer_page specs l"
    by (simp_all add: layer_page_def)
qed

lemma uniform_page_size_sum:
  assumes "od_wf specs" "pages_ok specs"
  shows "uniform_page_size specs = Inr (sum_list (map (layer_page specs) (map fst specs)))"
proof -
  have "rmap (page_size_bytes \<circ> snd) specs = Inr (map (layer_page specs) (map fst specs))"
    using layer_page_member(1) [OF assms]
    by (auto simp: rmap_Inr_iff list_all2_map2 list.rel_refl_strong intro!: list.rel_refl_strong)
  then show ?thesis by (simp add: uniform_page_size_def)
qed

lemma sum_list_sublist_le:
  fixes f :: "'a \<Rightarrow> nat"
  assumes "distinct xs" "set xs \<subseteq> set ys"
  shows "sum_list (map f xs) \<le> sum_list (map f ys)"
proof -
  have "sum_list (map f xs) = sum f (set xs)" using assms by (simp add: sum_list_distinct_conv_sum_set)
  also have "\<dots> \<le> sum f (set ys)" using assms by (intro sum_mono2) auto
  also have "\<dots> \<le> sum_list (map f ys)"
    by (induction ys) (auto simp: sum.insert_if)
  finally show ?thesis .
qed

lemma uniform_tensors:
  assumes "od_wf specs" "pages_ok specs" "set names \<subseteq> fst ` set specs"
  shows "rmap (\<lambda>l. rbind (od_lookup specs l) (\<lambda>spec. rbind (page_size_bytes spec) (\<lambda>p.
           Inr \<lparr>tensor_size = int p * n, shared_by = [l]\<rparr>))) names =
         Inr (map (\<lambda>l. \<lparr>tensor_size = int (layer_page specs l) * n, shared_by = [l]\<rparr>) names)"
  using assms(3)
proof (induction names)
  case (Cons l names)
  then obtain s where s: "(l, s) \<in> set specs" by auto
  then have "map_of specs l = Some s" using assms(1) by (simp add: od_wf_def)
  with Cons layer_page_member(1) [OF assms(1,2) s] show ?case by (simp add: od_lookup_def)
qed simp

lemma config_uniform_type_ok:
  assumes "od_wf specs" "pages_ok specs" "specs \<noteq> []" "distinct (layer_names g)" "set (layer_names g) \<subseteq> fst ` set specs"
    "0 \<le> mem" "cfg_num_gpu_blocks_override cfg = None"
  shows "\<exists>c. config_uniform_type cfg g specs mem = Inr c \<and> config_ok (layer_names g) mem c \<and> kv_cache_groups c = [g]"
proof -
  define page where "page = sum_list (map (layer_page specs) (map fst specs))"
  let ?n = "mem div int page"
  let ?tensors = "map (\<lambda>l. \<lparr>tensor_size = int (layer_page specs l) * ?n, shared_by = [l]\<rparr>) (layer_names g)"
  let ?c = "\<lparr>num_blocks = ?n, kv_cache_tensors = ?tensors, kv_cache_groups = [g]\<rparr>"
  obtain l s where "(l, s) \<in> set specs" using assms(3) by (cases specs) auto
  then have "0 < page" using layer_page_member(2) [OF assms(1,2)] member_le_sum_list [of "layer_page specs l" "map (layer_page specs) (map fst specs)"]
    by (force simp: image_iff page_def)
  then have pos: "0 < int page" by linarith
  have c: "config_uniform_type cfg g specs mem = Inr ?c"
    using uniform_page_size_sum [OF assms(1,2), folded page_def] uniform_tensors [OF assms(1,2,5)] pos assms(7)
    by (simp add: config_uniform_type_def rdiv_def may_override_num_blocks_def Let_def)
  have n: "0 \<le> ?n" using pos assms(6) by (simp add: pos_imp_zdiv_nonneg_iff)
  have "tensor_total ?c = int (sum_list (map (layer_page specs) (layer_names g))) * ?n"
    by (simp add: tensor_total_def comp_def sum_list_mult_const flip: sum_list_of_nat)
  also have "\<dots> \<le> int page * ?n"
    using sum_list_sublist_le [of "layer_names g" "map fst specs" "layer_page specs"] assms(4,5) n
    by (intro mult_right_mono) (auto simp: page_def)
  also have "\<dots> \<le> mem" using pos by (metis mult.commute minus_mod_eq_div_mult pos_mod_sign diff_le_eq le_add_same_cancel1)
  finally have "tensor_total ?c \<le> mem" .
  moreover have "concat (map shared_by ?tensors) = layer_names g" by (simp add: comp_def)
  ultimately have "config_ok (layer_names g) mem ?c" using n by (intro config_okI) auto
  with c show ?thesis by force
qed

section \<open>One worker's share of the groups\<close>

lemma groups_of_worker_names:
  "concat (map layer_names (groups_of_worker groups one)) = filter (\<lambda>l. l \<in> fst ` set one) (concat (map layer_names groups))"
  by (simp add: groups_of_worker_def comp_def filter_concat)

lemma worker_names:
  assumes "names_partition groups merged" "od_wf merged" "od_wf one" "fst ` set one \<subseteq> fst ` set merged"
  shows "mset (concat (map layer_names (groups_of_worker groups one))) = mset (map fst one)"
proof -
  have "mset (concat (map layer_names (groups_of_worker groups one))) =
        mset (filter (\<lambda>l. l \<in> fst ` set one) (map fst merged))"
    using assms(1) by (simp add: groups_of_worker_names names_partition_def del: mset_concat filter_concat)
  also have "\<dots> = mset (map fst one)"
    using assms(2-4) by (subst set_eq_iff_mset_eq_distinct [symmetric]) (auto simp: od_wf_def)
  finally show ?thesis .
qed

lemma groups_of_worker_one_page: "groups_one_page groups \<Longrightarrow> groups_one_page (groups_of_worker groups one)"
  by (auto simp: groups_one_page_def groups_of_worker_def)

lemma config_from_groups_general:
  assumes "groups \<noteq> []" "\<not> (\<exists>g bs specs. groups = [g] \<and> group_spec g = UniformTypeKVCacheSpecs bs specs)"
  shows "get_kv_cache_config_from_groups cfg groups mem = config_general cfg groups mem"
  using assms by (auto simp: get_kv_cache_config_from_groups_def split: list.splits kv_cache_spec.splits)

lemma mset_config_ok: "mset xs = mset ys \<Longrightarrow> config_ok xs mem c = config_ok ys mem c"
  by (simp add: config_ok_def)

lemma sum_list_lengths: "sum_list (map (length \<circ> layer_names) groups) = length (concat (map layer_names groups))"
  by (simp add: length_concat)

lemma config_of_worker_ok:
  assumes merged: "names_partition groups merged" "od_wf merged"
    and one: "od_wf one" "fst ` set one \<subseteq> fst ` set merged" "one \<noteq> []" "0 \<le> mem"
    and groups: "groups_one_page groups \<or> uniform_type_group groups"
    and no_override: "cfg_num_gpu_blocks_override cfg = None"
  shows "\<exists>c. config_of_worker cfg groups (one, mem) = Inr c \<and> config_ok (map fst one) mem c \<and>
           kv_cache_groups c = groups_of_worker groups one"
proof -
  let ?gs = "groups_of_worker groups one"
  note names = worker_names [OF merged one(1,2)]
  have "length (concat (map layer_names ?gs)) = length one"
    using names by (metis length_map size_mset)
  then have assigned: "config_of_worker cfg groups (one, mem) = get_kv_cache_config_from_groups cfg ?gs mem"
    by (simp add: config_of_worker_def sum_list_lengths)
  have ne: "concat (map layer_names ?gs) \<noteq> []" using names one(3) by (metis map_is_Nil_conv mset_zero_iff)
  then have gs: "?gs \<noteq> []" by auto
  show ?thesis
  proof (cases "uniform_type_group groups")
    case True
    then obtain bs specs where u: "groups = get_kv_cache_groups_uniform_type bs specs"
      and specs: "od_wf specs" "specs \<noteq> []" "pages_ok specs" by (auto simp: uniform_type_group_def)
    let ?g = "\<lparr>layer_names = filter (\<lambda>l. l \<in> fst ` set one) (map fst specs), group_spec = UniformTypeKVCacheSpecs bs specs\<rparr>"
    have g: "?gs = [?g]" by (simp add: u groups_of_worker_def get_kv_cache_groups_uniform_type_def)
    with names have same: "mset (layer_names ?g) = mset (map fst one)" by simp
    have "distinct (layer_names ?g)" "set (layer_names ?g) \<subseteq> fst ` set specs" using specs(1) by (auto simp: od_wf_def)
    from config_uniform_type_ok [OF specs(1,3,2) this one(4) no_override] mset_config_ok [OF same, of mem] obtain c
      where "config_uniform_type cfg ?g specs mem = Inr c" "config_ok (map fst one) mem c" "kv_cache_groups c = [?g]"
      by blast
    with assigned g show ?thesis by (simp add: get_kv_cache_config_from_groups_def)
  next
    case False
    with groups have page: "groups_one_page ?gs" and layer: "\<forall>g \<in> set groups. \<exists>s. group_spec g = LayerSpec s"
      by (blast intro: groups_of_worker_one_page, auto simp: groups_one_page_def)
    have "get_kv_cache_config_from_groups cfg ?gs mem = config_general cfg ?gs mem"
      using gs layer by (intro config_from_groups_general) (auto simp: groups_of_worker_def)
    with config_general_ok [OF page gs ne one(4) no_override] assigned mset_config_ok [OF names] show ?thesis
      by auto
  qed
qed

section \<open>A common number of blocks\<close>

lemma shrink_tensor_Inr:
  assumes "shrink_tensor old m t = Inr t'" "0 \<le> m" "m \<le> old" "0 \<le> tensor_size t"
  shows "shared_by t' = shared_by t \<and> 0 \<le> tensor_size t' \<and> tensor_size t' \<le> tensor_size t \<and> m dvd tensor_size t' \<and> 0 < old"
proof -
  from assms(1) have old: "old \<noteq> 0" "old dvd tensor_size t" and t': "t' = t\<lparr>tensor_size := tensor_size t div old * m\<rparr>"
    by (auto simp: shrink_tensor_def result_simps dvd_eq_mod_eq_0 split: if_splits)
  from old assms(2,3) have "0 < old" by simp
  then have "0 \<le> tensor_size t div old" using assms(4) by (simp add: pos_imp_zdiv_nonneg_iff)
  with assms(2,3) have "0 \<le> tensor_size t div old * m" "tensor_size t div old * m \<le> tensor_size t div old * old"
    by (simp_all add: mult_left_mono)
  with old(2) t' \<open>0 < old\<close> show ?thesis by simp
qed

lemma shrink_config_ok:
  assumes "shrink_config cfg m c = Inr c'" "config_ok names mem c" "0 \<le> m" "m \<le> num_blocks c"
  shows "num_blocks c' = m" "config_ok names mem c'" "kv_cache_groups c' = kv_cache_groups c"
    "names \<noteq> [] \<Longrightarrow> 0 < num_blocks c"
proof -
  from assms(1) obtain ts where ts: "list_all2 (\<lambda>t t'. shrink_tensor (num_blocks c) m t = Inr t') (kv_cache_tensors c) ts"
    and c': "c' = c\<lparr>num_blocks := m, kv_cache_tensors := ts\<rparr>"
    by (auto simp: shrink_config_def result_simps Let_def split: if_splits)
  show "num_blocks c' = m" "kv_cache_groups c' = kv_cache_groups c" by (simp_all add: c')
  have small: "list_all2 (\<lambda>t t'. shared_by t' = shared_by t \<and> 0 \<le> tensor_size t' \<and> tensor_size t' \<le> tensor_size t \<and>
      m dvd tensor_size t' \<and> 0 < num_blocks c) (kv_cache_tensors c) ts"
    using ts by (rule list.rel_mono_strong) (use assms(2-4) shrink_tensor_Inr in \<open>auto simp: config_ok_def\<close>)
  then have "map shared_by ts = map shared_by (kv_cache_tensors c)"
    by (induction rule: list_all2_induct) auto
  moreover from small have "sum_list (map tensor_size ts) \<le> sum_list (map tensor_size (kv_cache_tensors c))"
    by (induction rule: list_all2_induct) auto
  moreover have "\<forall>t \<in> set ts. 0 \<le> tensor_size t \<and> m dvd tensor_size t" using list_all2_right [OF small] by blast
  ultimately show "config_ok names mem c'"
    using assms(2,3) by (simp add: config_ok_def tensor_total_def c')
  assume "names \<noteq> []"
  with assms(2) have "kv_cache_tensors c \<noteq> []" by (auto simp: config_ok_def)
  with small show "0 < num_blocks c" by (cases "kv_cache_tensors c") (auto simp: list_all2_Cons1)
qed

section \<open>The layers of all workers\<close>

definition merges :: "(string, layer_spec) odict list \<Rightarrow> (string, layer_spec) odict \<Rightarrow> bool" where
  "merges specss merged \<longleftrightarrow> od_wf merged \<and> set merged = (\<Union>one \<in> set specss. set one)"

lemma merge_layer_adds:
  assumes "merge_layer p merged = Inr merged'" "od_wf merged"
  shows "od_wf merged' \<and> set merged' = insert p (set merged)"
proof (cases "map_of merged (fst p)")
  case None
  then have "fst p \<notin> fst ` set merged" by (simp add: map_of_eq_None_iff)
  with None assms show ?thesis
    by (cases p) (auto simp: merge_layer_def od_wf_def distinct_update update_fresh)
next
  case (Some s)
  with assms show ?thesis
    by (cases p) (auto simp: merge_layer_def result_simps dest: map_of_SomeD)
qed

lemma merge_worker_adds:
  assumes "rfold merge_layer one merged = Inr merged'" "od_wf merged"
  shows "od_wf merged' \<and> set merged' = set one \<union> set merged"
  using assms
proof (induction one arbitrary: merged)
  case (Cons p one)
  then obtain m where "merge_layer p merged = Inr m" "rfold merge_layer one m = Inr merged'"
    by (auto simp: result_simps)
  with merge_layer_adds [of p merged m] Cons show ?case by auto
qed simp

lemma merge_kv_cache_specs_merges:
  assumes "merge_kv_cache_specs specss = Inr merged"
  shows "merges specss merged"
proof -
  have "od_wf merged \<and> set merged = (\<Union>one \<in> set specss. set one) \<union> set start"
    if "rfold (\<lambda>one merged. rfold merge_layer one merged) specss start = Inr merged" "od_wf start" for start
    using that
  proof (induction specss arbitrary: start)
    case (Cons one specss)
    then obtain m where "rfold merge_layer one start = Inr m"
      "rfold (\<lambda>one merged. rfold merge_layer one merged) specss m = Inr merged" by (auto simp: result_simps)
    with merge_worker_adds [of one start m] Cons show ?case by auto
  qed simp
  with assms show ?thesis by (simp add: merge_kv_cache_specs_def merges_def od_wf_def)
qed

lemma merges_pages_ok: "merges specss merged \<Longrightarrow> \<forall>one \<in> set specss. pages_ok one \<Longrightarrow> pages_ok merged"
  by (auto simp: merges_def pages_ok_def)

section \<open>The configurations of all workers\<close>

definition workers_ok :: "(string, layer_spec) odict list \<Rightarrow> bool" where
  "workers_ok specss \<longleftrightarrow> (\<forall>one \<in> set specss. od_wf one \<and> pages_ok one \<and> one \<noteq> [])"

lemma config_of_workers_ok:
  assumes "workers_ok specss" "merges specss merged" "get_kv_cache_groups cfg merged = Inr groups"
    "\<forall>(one, mem) \<in> set ws. one \<in> set specss \<and> 0 \<le> mem" "cfg_num_gpu_blocks_override cfg = None"
    "rmap (config_of_worker cfg groups) ws = Inr configs"
  shows "list_all2 (\<lambda>(one, mem) c. config_ok (map fst one) mem c \<and> kv_cache_groups c = groups_of_worker groups one) ws configs"
proof -
  have merged: "od_wf merged" "pages_ok merged" using assms(1,2) merges_pages_ok by (auto simp: merges_def workers_ok_def)
  note groups = get_kv_cache_groups_ok [OF assms(3) merged]
  show ?thesis using assms(6) unfolding rmap_Inr_iff
  proof (rule list.rel_mono_strong)
    fix w c
    assume w: "w \<in> set ws" and c: "config_of_worker cfg groups w = Inr c"
    obtain one mem where [simp]: "w = (one, mem)" by (cases w)
    from w assms(4) have in_specss: "one \<in> set specss" and "0 \<le> mem" by auto
    moreover from in_specss assms(1,2) have "od_wf one" "one \<noteq> []" "fst ` set one \<subseteq> fst ` set merged"
      by (auto simp: workers_ok_def merges_def)
    ultimately show "(case w of (one, mem) \<Rightarrow> \<lambda>c. config_ok (map fst one) mem c \<and> kv_cache_groups c = groups_of_worker groups one) c"
      using config_of_worker_ok [of groups merged one mem cfg] groups merged assms(5) c by auto
  qed
qed

lemma rmap_total: "(\<And>x. x \<in> set xs \<Longrightarrow> \<exists>y. f x = Inr y) \<Longrightarrow> \<exists>ys. rmap f xs = Inr ys"
  by (induction xs) force+

lemma scheduler_groups_return:
  assumes "groups_one_page groups \<or> uniform_type_group groups"
  shows "\<exists>gs. rmap scheduler_group (groups_of_worker groups one) = Inr gs"
  using assms
  by (intro rmap_total) (auto simp: groups_one_page_def uniform_type_group_def groups_of_worker_def scheduler_group_def
      get_kv_cache_groups_uniform_type_def split: list.splits kv_cache_spec.splits)

lemma checked_memory_nonneg:
  assumes "rmap (\<lambda>(one, mem). check_enough_kv_cache_memory cfg one mem) ws = Inr us" "(one, mem) \<in> set ws" "one \<noteq> []"
  shows "0 \<le> mem"
proof -
  from list_all2_left [OF assms(1) [unfolded rmap_Inr_iff] assms(2)] obtain u
    where "check_enough_kv_cache_memory cfg one mem = Inr u" by auto
  with assms(3) show ?thesis by (auto simp: check_enough_kv_cache_memory_def split: if_splits)
qed

lemma list_all2_compose:
  assumes "list_all2 P xs ys" "list_all2 Q ys zs" "\<And>x y z. x \<in> set xs \<Longrightarrow> y \<in> set ys \<Longrightarrow> P x y \<Longrightarrow> Q y z \<Longrightarrow> R x z"
  shows "list_all2 R xs zs"
  using assms list_all2_trans [of "\<lambda>x y. x \<in> set xs \<and> y \<in> set ys \<and> P x y" Q R xs ys zs]
  by (auto simp: list_all2_same intro: list.rel_mono_strong)

definition worker_ok :: "kv_cache_group_spec list \<Rightarrow> (string, layer_spec) odict \<times> int \<Rightarrow> kv_cache_config \<Rightarrow> bool" where
  "worker_ok groups w c \<longleftrightarrow> config_ok (map fst (fst w)) (snd w) c \<and> kv_cache_groups c = groups_of_worker groups (fst w)"

lemma shrink_all_ok:
  assumes ok: "list_all2 (worker_ok groups) ws cs" and "cs \<noteq> []" "\<forall>w \<in> set ws. fst w \<noteq> []"
    and shrink: "list_all2 (\<lambda>c c'. shrink_config cfg n c = Inr c') cs configs" and n: "n = Min (set (map num_blocks cs))"
  shows "0 < n \<and> list_all2 (\<lambda>w c. num_blocks c = n \<and> worker_ok groups w c) ws configs"
proof -
  have low: "n \<le> num_blocks c" if "c \<in> set cs" for c using that n by auto
  have "n \<in> num_blocks ` set cs" using \<open>cs \<noteq> []\<close> n Min_in [of "set (map num_blocks cs)"] by simp
  then obtain c where c: "c \<in> set cs" "num_blocks c = n" by auto
  from list_all2_right [OF ok c(1)] obtain w where w: "w \<in> set ws" "worker_ok groups w c" by auto
  then have n0: "0 \<le> n" using c by (simp add: worker_ok_def config_ok_def)
  from list_all2_left [OF shrink c(1)] obtain c' where "shrink_config cfg n c = Inr c'" by auto
  then have "0 < n"
    using shrink_config_ok(4) [of cfg n c c' "map fst (fst w)" "snd w"] n0 c(2) w assms(3) by (auto simp: worker_ok_def)
  moreover have "list_all2 (\<lambda>w c. num_blocks c = n \<and> worker_ok groups w c) ws configs"
    using ok shrink
  proof (rule list_all2_compose)
    fix w c c' assume "c \<in> set cs" "worker_ok groups w c" "shrink_config cfg n c = Inr c'"
    with shrink_config_ok(1-3) [of cfg n c c' "map fst (fst w)" "snd w"] n0 low
    show "num_blocks c' = n \<and> worker_ok groups w c'" by (simp add: worker_ok_def)
  qed
  ultimately show ?thesis by simp
qed

lemma scheduler_config_returns:
  assumes "list_all2 (\<lambda>w c. num_blocks c = n \<and> worker_ok groups w c) ws configs" "configs \<noteq> []"
    "groups_one_page groups \<or> uniform_type_group groups"
  shows "\<exists>sc. generate_scheduler_kv_cache_config configs = Inr sc \<and> num_blocks sc = n"
proof -
  obtain c cs where c: "configs = c # cs" using assms(2) by (cases configs) auto
  have n: "\<forall>c \<in> set configs. num_blocks c = n" using list_all2_right [OF assms(1)] by blast
  from list_all2_right [OF assms(1), of c] c obtain w where "kv_cache_groups c = groups_of_worker groups (fst w)"
    by (auto simp: worker_ok_def)
  with scheduler_groups_return [OF assms(3), of "fst w"] n c show ?thesis
    by (auto simp: generate_scheduler_kv_cache_config_def list_all_iff)
qed

text \<open>The steps of \<open>get_kv_cache_configs\<close> that a returned list went through.\<close>

lemma get_kv_cache_configs_steps:
  assumes "get_kv_cache_configs cfg specss mems = Inr configs"
  obtains us merged groups cs
  where "rmap (\<lambda>(one, mem). check_enough_kv_cache_memory cfg one mem) (zip specss mems) = Inr us"
    "merge_kv_cache_specs specss = Inr merged" "get_kv_cache_groups cfg merged = Inr groups"
    "rmap (config_of_worker cfg groups) (zip specss mems) = Inr cs" "cs \<noteq> []"
    "rmap (shrink_config cfg (Min (set (map num_blocks cs)))) cs = Inr configs"
  using assms by (auto simp: get_kv_cache_configs_def rbind_eq_Inr_iff split: if_splits)

lemma get_kv_cache_configs_ok:
  assumes "get_kv_cache_configs cfg specss mems = Inr configs" "workers_ok specss"
    "cfg_num_gpu_blocks_override cfg = None"
  shows "\<exists>n groups. 0 < n \<and> list_all2 (\<lambda>w c. num_blocks c = n \<and> worker_ok groups w c) (zip specss mems) configs \<and>
           (\<exists>sc. generate_scheduler_kv_cache_config configs = Inr sc \<and> num_blocks sc = n)"
proof -
  let ?ws = "zip specss mems"
  from get_kv_cache_configs_steps [OF assms(1)] obtain us merged groups cs
    where check: "rmap (\<lambda>(one, mem). check_enough_kv_cache_memory cfg one mem) ?ws = Inr us"
      and merge: "merge_kv_cache_specs specss = Inr merged" and groups: "get_kv_cache_groups cfg merged = Inr groups"
      and cs: "rmap (config_of_worker cfg groups) ?ws = Inr cs" "cs \<noteq> []"
      and shrink: "rmap (shrink_config cfg (Min (set (map num_blocks cs)))) cs = Inr configs" by metis
  have first: "one \<in> set specss \<and> one \<noteq> []" if "(one, mem) \<in> set ?ws" for one mem
    using assms(2) set_zip_leftD [OF that] by (simp add: workers_ok_def)
  then have nonempty: "\<forall>w \<in> set ?ws. fst w \<noteq> []" by fastforce
  have ws: "\<forall>(one, mem) \<in> set ?ws. one \<in> set specss \<and> 0 \<le> mem"
    using first checked_memory_nonneg [OF check] by blast
  note merges = merge_kv_cache_specs_merges [OF merge]
  have "list_all2 (worker_ok groups) ?ws cs"
    using config_of_workers_ok [OF assms(2) merges groups ws assms(3) cs(1)]
    by (rule list_all2_mono) (auto simp: worker_ok_def)
  from shrink_all_ok [OF this cs(2) nonempty shrink [unfolded rmap_Inr_iff] refl]
  have done_all: "0 < Min (set (map num_blocks cs))"
    "list_all2 (\<lambda>w c. num_blocks c = Min (set (map num_blocks cs)) \<and> worker_ok groups w c) ?ws configs" by blast+
  have "pages_ok merged" "od_wf merged" using merges merges_pages_ok assms(2) by (auto simp: workers_ok_def merges_def)
  then have "groups_one_page groups \<or> uniform_type_group groups" using get_kv_cache_groups_ok [OF groups] by blast
  moreover have "configs \<noteq> []" using cs(2) rmap_length [OF shrink] by auto
  ultimately show ?thesis using scheduler_config_returns [OF done_all(2)] done_all by blast
qed

end
