(* ===== verification/KV_Config_Properties.thy ===== *)
theory KV_Config_Properties
  imports KV_Config_Memory KV_Config_Workers "HOL-Library.Code_Target_Numeral"
begin

text \<open>
  What the configuration of the KV cache promises: the estimate of the maximal length is exact,
  the groups name every layer once and have one page size, the workers agree on the number of
  blocks and stay within their memory, and a checked model has blocks for one request of maximal
  length.
\<close>

section \<open>A small model\<close>

definition demo_dtype :: torch_dtype where
  "demo_dtype = \<lparr>dtype_name = ''bfloat16'', dtype_size = 2\<rparr>"

definition demo_fields :: attention_fields where
  "demo_fields = \<lparr>at_block_size = 16, num_kv_heads = 2, head_size = 4, at_dtype = demo_dtype\<rparr>"

definition demo_cfg :: vllm_config where
  "demo_cfg = \<lparr>cfg_max_model_len = 64, cfg_max_num_batched_tokens = 32, cfg_max_num_encoder_input_tokens = 0,
     cfg_decode_context_parallel_size = 1, cfg_prefill_context_parallel_size = 1, cfg_gpu_memory_utilization = 1,
     cfg_num_gpu_blocks_override = None, cfg_disable_hybrid_kv_cache_manager = False, cfg_pipeline_parallel_size = 1\<rparr>"

text \<open>Two layers of full attention and three with a sliding window.\<close>

definition demo_hybrid :: "(string, layer_spec) odict" where
  "demo_hybrid =
     [(''full.0'', FullAttentionSpec demo_fields None None), (''sw.0'', SlidingWindowSpec demo_fields 16),
      (''sw.1'', SlidingWindowSpec demo_fields 16), (''full.1'', FullAttentionSpec demo_fields None None),
      (''sw.2'', SlidingWindowSpec demo_fields 16)]"

definition demo_full :: "(string, layer_spec) odict" where
  "demo_full = [(''l.0'', FullAttentionSpec demo_fields None None), (''l.1'', FullAttentionSpec demo_fields None None)]"

lemma demo_ok: "od_wf demo_hybrid" "pages_ok demo_hybrid" "od_wf demo_full" "pages_ok demo_full"
  by (simp_all add: demo_hybrid_def demo_full_def od_wf_def pages_ok_def demo_fields_def demo_dtype_def attention_page_size_def)

section \<open>The maximal length\<close>

text \<open>
  C31: When the memory of a model can be computed at all, estimate_max_model_len returns, and what it
  returns is exact: a length between 1 and the configured maximum fits into the available memory if
  and only if it is at most the estimate (so the estimate is 0 when not even one token fits).
\<close>

theorem estimate_max_model_len_spec:
  assumes "max_memory_usage_bytes cfg (spec_values specs) = Inr m" "1 \<le> cfg_max_model_len cfg"
  shows "\<exists>r cfg'. estimate_max_model_len cfg specs mem = Inr (r, cfg') \<and> 0 \<le> r \<and> r \<le> cfg_max_model_len cfg \<and>
           (\<forall>l. 1 \<le> l \<and> l \<le> cfg_max_model_len cfg \<longrightarrow>
              ((\<exists>n. max_memory_usage_bytes (cfg\<lparr>cfg_max_model_len := l\<rparr>) (spec_values specs) = Inr n \<and> n \<le> mem) \<longleftrightarrow> l \<le> r))"
proof -
  have "memory_needed cfg specs (cfg_max_model_len cfg) = Inr m" using assms(1) by (simp add: memory_needed_def)
  from estimate_finds [OF this assms(2), of mem] show ?thesis
    by (simp only: fits_iff memory_needed_def)
qed

theorem estimate_max_model_len_spec_witness:
  "\<exists>r cfg'. estimate_max_model_len demo_cfg demo_hybrid 6000 = Inr (r, cfg') \<and> 0 \<le> r \<and> r \<le> 64 \<and>
     (\<forall>l. 1 \<le> l \<and> l \<le> 64 \<longrightarrow>
        ((\<exists>n. max_memory_usage_bytes (demo_cfg\<lparr>cfg_max_model_len := l\<rparr>) (spec_values demo_hybrid) = Inr n \<and> n \<le> 6000) \<longleftrightarrow> l \<le> r))"
proof -
  have "max_memory_usage_bytes demo_cfg (spec_values demo_hybrid) = Inr 10240" by code_simp
  from estimate_max_model_len_spec [OF this, of 6000] show ?thesis by (simp add: demo_cfg_def)
qed

section \<open>The groups\<close>

text \<open>
  C30: The groups of a model name each of its layers exactly once and none is empty; either there is
  one group of layers of one type with its own page per layer, or all groups have one positive page
  size, so the allocator hands out blocks of one size; and the page of a group has room for the page
  of each of its layers that is not of multi-head latent attention. Layers of multi-head latent attention are merged without
  comparing their sizes, and for them this is not so (\<open>mla_merge_unchecked\<close>).
\<close>

theorem get_kv_cache_groups_spec:
  assumes "get_kv_cache_groups cfg specs = Inr groups" "od_wf specs" "pages_ok specs"
  shows "mset (concat (map layer_names groups)) = mset (map fst specs) \<and> (\<forall>g \<in> set groups. layer_names g \<noteq> []) \<and>
    (groups_one_page groups \<or> uniform_type_group groups) \<and> (\<forall>g \<in> set groups. group_holds specs g)"
  using get_kv_cache_groups_ok [OF assms] get_kv_cache_groups_holds [OF assms] by (auto simp: names_partition_def)

theorem get_kv_cache_groups_spec_witness:
  "\<exists>groups. get_kv_cache_groups demo_cfg demo_hybrid = Inr groups \<and>
     map layer_names groups = [[''full.0'', ''full.1''], [''sw.0'', ''sw.2''], [''sw.1'']] \<and>
     (groups_one_page groups \<or> uniform_type_group groups) \<and> (\<forall>g \<in> set groups. group_holds demo_hybrid g)"
proof -
  have r: "map_sum id (map layer_names) (get_kv_cache_groups demo_cfg demo_hybrid) =
           Inr [[''full.0'', ''full.1''], [''sw.0'', ''sw.2''], [''sw.1'']]" by code_simp
  then obtain groups where g: "get_kv_cache_groups demo_cfg demo_hybrid = Inr groups"
    by (cases "get_kv_cache_groups demo_cfg demo_hybrid") auto
  from get_kv_cache_groups_spec [OF g demo_ok(1,2)] r g show ?thesis by auto
qed

section \<open>The workers\<close>

text \<open>
  C29: Without \<^verbatim>\<open>num_gpu_blocks_override\<close>, when the configurations of the workers are made, they agree on one positive number of
  blocks; each worker's tensors
  hold each of its layers exactly once, their sizes are whole multiples of the number of blocks and
  add up to at most the worker's memory; and the configuration for the scheduler exists and has the
  same number of blocks. (With the override the number of blocks is taken as given and the tensors may exceed the memory.)
\<close>

theorem worker_configs_spec:
  assumes "get_kv_cache_configs cfg specss mems = Inr configs" "workers_ok specss"
    "cfg_num_gpu_blocks_override cfg = None"
  shows "\<exists>n > 0. list_all2 (\<lambda>(one, mem) c.
             num_blocks c = n \<and> mset (concat (map shared_by (kv_cache_tensors c))) = mset (map fst one) \<and>
             (\<forall>t \<in> set (kv_cache_tensors c). 0 \<le> tensor_size t \<and> n dvd tensor_size t) \<and>
             sum_list (map tensor_size (kv_cache_tensors c)) \<le> mem) (zip specss mems) configs \<and>
           (\<exists>sc. generate_scheduler_kv_cache_config configs = Inr sc \<and> num_blocks sc = n)"
proof -
  from get_kv_cache_configs_ok [OF assms] obtain n groups where n: "0 < n"
    and all: "list_all2 (\<lambda>w c. num_blocks c = n \<and> worker_ok groups w c) (zip specss mems) configs"
    and sc: "\<exists>sc. generate_scheduler_kv_cache_config configs = Inr sc \<and> num_blocks sc = n" by blast
  have "list_all2 (\<lambda>(one, mem) c.
             num_blocks c = n \<and> mset (concat (map shared_by (kv_cache_tensors c))) = mset (map fst one) \<and>
             (\<forall>t \<in> set (kv_cache_tensors c). 0 \<le> tensor_size t \<and> n dvd tensor_size t) \<and>
             sum_list (map tensor_size (kv_cache_tensors c)) \<le> mem) (zip specss mems) configs"
    using all by (rule list_all2_mono) (auto simp: worker_ok_def config_ok_def tensor_total_def)
  with n sc show ?thesis by blast
qed

theorem worker_configs_spec_witness:
  "\<exists>configs. get_kv_cache_configs demo_cfg [demo_hybrid, demo_hybrid] [11000, 12000] = Inr configs \<and>
     map num_blocks configs = [10, 10] \<and>
     (\<exists>sc. generate_scheduler_kv_cache_config configs = Inr sc \<and> num_blocks sc = 10)"
proof -
  have r: "map_sum id (map num_blocks) (get_kv_cache_configs demo_cfg [demo_hybrid, demo_hybrid] [11000, 12000]) = Inr [10, 10]"
    by code_simp
  then obtain configs where c: "get_kv_cache_configs demo_cfg [demo_hybrid, demo_hybrid] [11000, 12000] = Inr configs"
    and n: "map num_blocks configs = [10, 10]"
    by (cases "get_kv_cache_configs demo_cfg [demo_hybrid, demo_hybrid] [11000, 12000]") auto
  have "workers_ok [demo_hybrid, demo_hybrid]" using demo_ok by (simp add: workers_ok_def) (simp add: demo_hybrid_def)
  moreover have "cfg_num_gpu_blocks_override demo_cfg = None" by (simp add: demo_cfg_def)
  ultimately have "\<exists>k sc. list_all2 (\<lambda>w c. num_blocks c = k) [(demo_hybrid, 11000), (demo_hybrid, 12000 :: int)] configs \<and>
      generate_scheduler_kv_cache_config configs = Inr sc \<and> num_blocks sc = k"
    using worker_configs_spec [OF c] by (fastforce elim: list_all2_mono)
  with c n show ?thesis by (auto simp: list_all2_Cons1)
qed

section \<open>Room for one request\<close>

lemma merge_equal_full:
  assumes "specs \<noteq> []" "\<forall>p \<in> set specs. snd p = FullAttentionSpec a w None"
  shows "merge_specs (map snd specs) = Inr (FullAttentionSpec a w None)"
proof -
  have specs: "map snd specs = replicate (length specs) (FullAttentionSpec a w None)"
    using assms(2) by (simp add: map_replicate_const [symmetric])
  have fields: "List.map_filter full_fields (replicate n (FullAttentionSpec a w None)) = replicate n (a, w, None)" for n
    by (induction n) (simp_all add: List.map_filter_simps)
  have chunks: "List.map_filter (snd \<circ> snd) (replicate n (a, w, None :: int option)) = []" for n
    by (induction n) (simp_all add: List.map_filter_simps)
  have windows: "merge_window_sizes (List.map_filter (fst \<circ> snd) (replicate (Suc n) (a, w, None :: int option))) = Inr w" for n
  proof (cases w)
    case None
    then have "List.map_filter (fst \<circ> snd) (replicate (Suc n) (a, w, None :: int option)) = []"
      by (induction n) (simp_all add: List.map_filter_simps)
    with None show ?thesis by (simp add: merge_window_sizes_def)
  next
    case (Some x)
    then have "List.map_filter (fst \<circ> snd) (replicate (Suc n) (a, w, None :: int option)) = replicate (Suc n) x"
      by (induction n) (simp_all add: List.map_filter_simps)
    moreover have "remdups (replicate (Suc n) x) = [x]" by (induction n) auto
    ultimately show ?thesis using Some by (simp add: merge_window_sizes_def)
  qed
  obtain k where k: "length specs = Suc k" using assms(1) by (cases specs) auto
  have "full_merge (replicate (Suc k) (FullAttentionSpec a w None)) = Inr (FullAttentionSpec a w None)"
    unfolding full_merge_def Let_def fields
    using windows [of k] chunks [of "Suc k"]
    by (simp add: merge_window_sizes_def [of "[]"] list_all_iff list_ex_iff)
  then show ?thesis by (simp add: specs k merge_specs_def)
qed

definition full_model :: "attention_fields \<Rightarrow> int option \<Rightarrow> (string, layer_spec) odict \<Rightarrow> bool" where
  "full_model a w specs \<longleftrightarrow> od_wf specs \<and> specs \<noteq> [] \<and> (\<forall>p \<in> set specs. snd p = FullAttentionSpec a w None)"

lemma full_model_merge: "full_model a w specs \<Longrightarrow> merge_specs (map snd specs) = Inr (FullAttentionSpec a w None)"
  by (rule merge_equal_full) (simp_all add: full_model_def)

lemma full_model_uniform: "full_model a w specs \<Longrightarrow> is_kv_cache_spec_uniform specs = Inr True"
  using full_model_merge [of a w specs] by (simp add: is_kv_cache_spec_uniform_def)

lemma full_model_groups:
  assumes "full_model a w specs"
  shows "get_kv_cache_groups cfg specs =
    Inr [\<lparr>layer_names = map fst specs, group_spec = LayerSpec (FullAttentionSpec a w None)\<rparr>]"
proof -
  note u = full_model_uniform [OF assms]
  have "rmap (od_lookup specs) (map fst specs) = Inr (map snd specs)"
    using assms by (auto simp: full_model_def od_wf_def rmap_Inr_iff list_all2_map1 list_all2_map2 list_all2_same od_lookup_def)
  with assms have "group_layers specs =
      Inr [\<lparr>layer_names = map fst specs, group_spec = LayerSpec (FullAttentionSpec a w None)\<rparr>]"
    by (simp add: group_layers_def is_kv_cache_type_attention_free_def u get_kv_cache_groups_uniform_spec_def
        create_kv_cache_group_specs_def full_model_merge [OF assms]) (simp add: full_model_def)
  then show ?thesis by (simp add: get_kv_cache_groups_def unify_hybrid_kv_cache_specs_def one_type_def u)
qed

lemma full_model_blocks:
  assumes "full_model a w specs" "0 < attention_page_size a" "cfg_num_gpu_blocks_override cfg = None" "0 \<le> mem"
  shows "\<exists>c. get_kv_cache_config_from_groups cfg
      [\<lparr>layer_names = map fst specs, group_spec = LayerSpec (FullAttentionSpec a w None)\<rparr>] mem = Inr c \<and>
      num_blocks c = mem div int (attention_page_size a) div int (length specs)"
proof -
  let ?g = "\<lparr>layer_names = map fst specs, group_spec = LayerSpec (FullAttentionSpec a w None)\<rparr>"
  have "0 < length specs" using assms(1) by (simp add: full_model_def)
  moreover have "get_uniform_page_size [group_spec ?g] = Inr (attention_page_size a)"
    by (rule get_uniform_page_size_one) simp_all
  ultimately show ?thesis
    using assms(2-4) blocks_fit(1) [of mem "int (length specs)" "int (attention_page_size a)"]
    by (simp add: get_kv_cache_config_from_groups_def config_general_def get_num_blocks_def rdiv_def may_override_num_blocks_def Let_def)
qed

lemma full_model_memory:
  assumes "full_model a w specs" "0 < at_block_size a"
    "cfg_decode_context_parallel_size cfg * cfg_prefill_context_parallel_size cfg \<le> 1"
  shows "max_memory_usage_bytes cfg (spec_values specs) =
    Inr (int (length specs) * (cdiv (cfg_max_model_len cfg) (int (at_block_size a)) * int (attention_page_size a)))"
proof -
  have "rmap (spec_max_memory_usage_bytes cfg) (spec_values specs) =
      Inr (replicate (length specs) (cdiv (cfg_max_model_len cfg) (int (at_block_size a)) * int (attention_page_size a)))"
    using assms by (auto simp: rmap_Inr_iff list_all2_conv_all_nth full_model_def layer_max_memory_usage_bytes_def
        pages_def rcdiv_def Let_def)
  then show ?thesis by (simp add: max_memory_usage_bytes_def sum_list_replicate)
qed

lemma zdiv_le_iff: "0 < b \<Longrightarrow> a \<le> c div b \<longleftrightarrow> a * b \<le> c" for a b c :: int
proof
  assume b: "0 < b"
  show "a \<le> c div b \<Longrightarrow> a * b \<le> c"
    using b by (metis dual_order.trans mult_right_mono order_less_imp_le minus_mod_eq_div_mult pos_mod_sign diff_le_eq le_add_same_cancel1)
  show "a * b \<le> c \<Longrightarrow> a \<le> c div b" using b zdiv_mono1 [of "a * b" c b] by simp
qed

text \<open>
  C32: For a model of full attention layers of one format, without context parallelism and without
  \<^verbatim>\<open>num_gpu_blocks_override\<close>, that passes the memory check, the groups and
  the configuration exist and the configuration has as many blocks as a request of the
  maximal length needs. This counts the null block, which no request gets: such a request fits beside the null block
  when the memory has room for one more block than the check asks for.
\<close>

theorem max_model_len_fits:
  assumes "full_model a w specs" "0 < at_block_size a" "0 < attention_page_size a"
    "cfg_decode_context_parallel_size cfg * cfg_prefill_context_parallel_size cfg \<le> 1"
    "cfg_num_gpu_blocks_override cfg = None" "check_enough_kv_cache_memory cfg specs mem = Inr ()"
  shows "\<exists>groups c. get_kv_cache_groups cfg specs = Inr groups \<and> get_kv_cache_config_from_groups cfg groups mem = Inr c \<and>
           cdiv (cfg_max_model_len cfg) (int (at_block_size a)) \<le> num_blocks c \<and> cfg_max_model_len cfg \<le> num_blocks c * int (at_block_size a) \<and>
           (\<forall>need. max_memory_usage_bytes cfg (spec_values specs) = Inr need \<and> need + int (length specs) * int (attention_page_size a) \<le> mem \<longrightarrow>
              cdiv (cfg_max_model_len cfg) (int (at_block_size a)) \<le> num_blocks c - 1)"
proof -
  let ?k = "cdiv (cfg_max_model_len cfg) (int (at_block_size a))"
  have L: "0 < int (length specs)" and ne: "specs \<noteq> []" using assms(1) by (auto simp: full_model_def)
  from check_enough_Inr [OF assms(6)] ne full_model_memory [OF assms(1,2,4)]
  have mem: "0 < mem" "int (length specs) * (?k * int (attention_page_size a)) \<le> mem" by auto
  from full_model_blocks [OF assms(1,3,5), of mem] mem(1) obtain c
    where c: "get_kv_cache_config_from_groups cfg
        [\<lparr>layer_names = map fst specs, group_spec = LayerSpec (FullAttentionSpec a w None)\<rparr>] mem = Inr c"
      and n: "num_blocks c = mem div int (attention_page_size a) div int (length specs)" by auto
  have "?k * int (length specs) \<le> mem div int (attention_page_size a)"
    using mem(2) assms(3) by (simp add: zdiv_le_iff ac_simps)
  then have "?k \<le> num_blocks c" using L n by (simp add: zdiv_le_iff)
  then have "?k * int (at_block_size a) \<le> num_blocks c * int (at_block_size a)" by (simp add: mult_right_mono)
  moreover have "cfg_max_model_len cfg \<le> ?k * int (at_block_size a)" using assms(2) by (intro cdiv_upper) simp
  ultimately have slots: "cfg_max_model_len cfg \<le> num_blocks c * int (at_block_size a)" by linarith
  have spare: "?k \<le> num_blocks c - 1"
    if "max_memory_usage_bytes cfg (spec_values specs) = Inr need \<and> need + int (length specs) * int (attention_page_size a) \<le> mem" for need
  proof -
    have "need = int (length specs) * (?k * int (attention_page_size a))" using that full_model_memory [OF assms(1,2,4)] by simp
    with that have "int (length specs) * ((?k + 1) * int (attention_page_size a)) \<le> mem" by (simp add: algebra_simps)
    then have "(?k + 1) * int (length specs) \<le> mem div int (attention_page_size a)" using assms(3) by (simp add: zdiv_le_iff ac_simps)
    then have "?k + 1 \<le> num_blocks c" using L n by (simp add: zdiv_le_iff)
    then show ?thesis by simp
  qed
  from slots spare \<open>?k \<le> num_blocks c\<close> c full_model_groups [OF assms(1), of cfg] show ?thesis by blast
qed

theorem max_model_len_fits_witness:
  "check_enough_kv_cache_memory demo_cfg demo_full 4096 = Inr () \<and>
   (\<exists>groups c. get_kv_cache_groups demo_cfg demo_full = Inr groups \<and>
      get_kv_cache_config_from_groups demo_cfg groups 4096 = Inr c \<and> 64 \<le> num_blocks c * 16)"
proof -
  have ok: "check_enough_kv_cache_memory demo_cfg demo_full 4096 = Inr ()" by code_simp
  have "full_model demo_fields None demo_full" using demo_ok(3) by (simp add: full_model_def demo_full_def)
  moreover have "at_block_size demo_fields = 16" "0 < attention_page_size demo_fields" "cfg_max_model_len demo_cfg = 64"
      "cfg_decode_context_parallel_size demo_cfg * cfg_prefill_context_parallel_size demo_cfg \<le> 1" "cfg_num_gpu_blocks_override demo_cfg = None"
    by (simp_all add: demo_fields_def demo_dtype_def demo_cfg_def attention_page_size_def)
  ultimately obtain groups c where "get_kv_cache_groups demo_cfg demo_full = Inr groups" "get_kv_cache_config_from_groups demo_cfg groups 4096 = Inr c"
      "64 \<le> num_blocks c * 16"
    using max_model_len_fits [of demo_fields None demo_full demo_cfg 4096, OF _ _ _ _ _ ok] by auto
  with ok show ?thesis by blast
qed

text \<open>
  The block pool keeps one block, the null block, out of circulation, and the check does not count
  it: with exactly the memory the check asks for, a request of the maximal length needs all blocks
  of the configuration, one more than the pool can hand out.
\<close>

lemma exact_memory_leaves_no_null_block:
  assumes "full_model a w specs" "0 < at_block_size a" "0 < attention_page_size a"
    "cfg_decode_context_parallel_size cfg * cfg_prefill_context_parallel_size cfg \<le> 1"
    "cfg_num_gpu_blocks_override cfg = None" "1 \<le> cfg_max_model_len cfg"
    "max_memory_usage_bytes cfg (spec_values specs) = Inr mem"
  shows "check_enough_kv_cache_memory cfg specs mem = Inr () \<and>
    (\<exists>groups c. get_kv_cache_groups cfg specs = Inr groups \<and> get_kv_cache_config_from_groups cfg groups mem = Inr c \<and>
       num_blocks c - 1 < cdiv (cfg_max_model_len cfg) (int (at_block_size a)))"
proof -
  let ?k = "cdiv (cfg_max_model_len cfg) (int (at_block_size a))"
  have L: "0 < int (length specs)" using assms(1) by (simp add: full_model_def)
  have mem: "mem = int (length specs) * (?k * int (attention_page_size a))"
    using full_model_memory [OF assms(1,2,4)] assms(7) by simp
  have "0 < ?k" using cdiv_least [of "int (at_block_size a)" "cfg_max_model_len cfg" 0] assms(2,6) by simp
  with mem L assms(3) have pos: "0 < mem" by simp
  have "mem div int (attention_page_size a) div int (length specs) = ?k" using L assms(3) by (simp add: mem)
  with full_model_blocks [OF assms(1,3,5), of mem] full_model_groups [OF assms(1), of cfg] pos assms(7)
  show ?thesis by (auto simp: check_enough_kv_cache_memory_def)
qed

text \<open>
  The check adds up the memory of the layers, but groups are padded to one size: the hybrid model
  passes the check with 10240 bytes, which make 10 blocks, while a request of maximal length may
  need 12 (the concurrency that is reported is below 1).
\<close>

lemma padding_not_counted:
  "check_enough_kv_cache_memory demo_cfg demo_hybrid 10240 = Inr () \<and>
   map_sum id num_blocks (rbind (get_kv_cache_groups demo_cfg demo_hybrid)
     (\<lambda>groups. get_kv_cache_config_from_groups demo_cfg groups 10240)) = Inr 10 \<and>
   rbind (rbind (get_kv_cache_groups demo_cfg demo_hybrid)
     (\<lambda>groups. get_kv_cache_config_from_groups demo_cfg groups 10240))
     (get_max_concurrency_for_kv_cache_config demo_cfg) = Inr (10 / 12)"
proof (intro conjI)
  show "check_enough_kv_cache_memory demo_cfg demo_hybrid 10240 = Inr ()" by code_simp
  show "map_sum id num_blocks (rbind (get_kv_cache_groups demo_cfg demo_hybrid)
     (\<lambda>groups. get_kv_cache_config_from_groups demo_cfg groups 10240)) = Inr 10" by code_simp
  show "rbind (rbind (get_kv_cache_groups demo_cfg demo_hybrid)
     (\<lambda>groups. get_kv_cache_config_from_groups demo_cfg groups 10240))
     (get_max_concurrency_for_kv_cache_config demo_cfg) = Inr (10 / 12)" by code_simp
qed

text \<open>
  With layers of one type and several page sizes spread over two pipeline stages, each stage divides
  its memory by the pages of the layers of both: 15360 bytes give 10 blocks although the larger of
  the two layers alone would have 15.
\<close>

definition demo_stages :: "(string, layer_spec) odict list" where
  "demo_stages =
     [[(''l.0'', FullAttentionSpec demo_fields None None)],
      [(''l.1'', FullAttentionSpec (demo_fields\<lparr>head_size := 8\<rparr>) None None)]]"

lemma stages_divide_by_all_layers:
  "map_sum id (map (\<lambda>c. (num_blocks c, map tensor_size (kv_cache_tensors c))))
     (get_kv_cache_configs demo_cfg demo_stages [15360, 15360]) = Inr [(10, [5120]), (10, [10240])]"
  by code_simp

text \<open>Two layers of latent attention with different heads are merged, with the page of the first.\<close>

lemma mla_merge_unchecked:
  "merge_specs [MLAAttentionSpec demo_fields None None None, MLAAttentionSpec (demo_fields\<lparr>head_size := 8\<rparr>) None None None]
     = Inr (MLAAttentionSpec demo_fields None None None)"
  by code_simp

end
