(* ===== verification/Ngram_Proposer.thy ===== *)
theory Ngram_Proposer
  imports Prelude
begin

text \<open>
  Draft tokens by prompt lookup: \<^verbatim>\<open>vllm/v1/spec_decode/ngram_proposer.py\<close>.

  The proposer looks for the longest n-gram of the context that is also its suffix, by the
  failure function of Knuth, Morris and Pratt on the reversed tokens, capped at
  \<^verbatim>\<open>max_ngram\<close>. The compiled code does not check indices: a read outside an array is
  \<open>IndexError\<close> here, and the development shows that there is none. The loop has fuel; twice the
  number of tokens is enough.
\<close>

section \<open>The search\<close>

fun ngram_loop :: "nat \<Rightarrow> int list \<Rightarrow> nat \<Rightarrow> nat \<Rightarrow> nat \<Rightarrow> nat \<Rightarrow> nat \<Rightarrow> nat list \<Rightarrow> (nat \<times> nat) result" where
  "ngram_loop 0 tokens max_ngram i prev_lps longest_ngram position lps = Inl Diverges"
| "ngram_loop (Suc fuel) tokens max_ngram i prev_lps longest_ngram position lps =
     (if i < length tokens then
        rbind (py_get tokens prev_lps) (\<lambda>a. rbind (py_get tokens i) (\<lambda>b.
          if a = b then
            let prev_lps = prev_lps + 1;
                (longest_ngram, position) = (if longest_ngram \<le> prev_lps then (prev_lps, i) else (longest_ngram, position));
                lps = (if i < max_ngram then lps[i := prev_lps] else lps) in
            rbind (if prev_lps = max_ngram then py_get lps (max_ngram - 1) else Inr prev_lps) (\<lambda>prev_lps.
              ngram_loop fuel tokens max_ngram (i + 1) prev_lps longest_ngram position lps)
          else if prev_lps \<noteq> 0 then
            rbind (py_get lps (prev_lps - 1)) (\<lambda>prev_lps.
              ngram_loop fuel tokens max_ngram i prev_lps longest_ngram position lps)
          else ngram_loop fuel tokens max_ngram (i + 1) prev_lps longest_ngram position lps))
      else Inr (longest_ngram, position))"

definition find_longest_matched_ngram_and_propose_tokens ::
  "int list \<Rightarrow> nat \<Rightarrow> nat \<Rightarrow> int \<Rightarrow> int \<Rightarrow> int list result" where
  "find_longest_matched_ngram_and_propose_tokens origin_tokens min_ngram max_ngram max_model_len k =
     (let total_token = length origin_tokens in
      if total_token < min_ngram then Inr []
      else
        let k = min k (max_model_len - int total_token) in
        if k \<le> 0 then Inr []
        else
          rbind (ngram_loop (2 * total_token + 1) (rev origin_tokens) max_ngram 1 0 0 0 (replicate max_ngram 0)) (\<lambda>(longest_ngram, position).
            if longest_ngram < min_ngram then Inr []
            else
              let start_position = total_token - 1 - position + longest_ngram;
                  k = min k (int total_token - int start_position) in
              Inr (py_slice origin_tokens start_position (start_position + nat k))))"

section \<open>The proposer\<close>

text \<open>
  The buffers keep the drafts of earlier steps. The compiled loop over the requests runs in
  parallel, on different rows.
\<close>

record ngram_proposer =
  ng_min_n :: nat
  ng_max_n :: nat
  ng_k :: int
  ng_max_model_len :: int
  valid_ngram_draft :: "int list list"
  valid_ngram_num_drafts :: "nat list"

definition ngram_proposer_init :: "nat \<Rightarrow> nat \<Rightarrow> nat \<Rightarrow> int \<Rightarrow> nat \<Rightarrow> ngram_proposer" where
  "ngram_proposer_init min_n max_n k max_model_len max_num_seqs =
     \<lparr>ng_min_n = min_n, ng_max_n = max_n, ng_k = int k, ng_max_model_len = max_model_len,
      valid_ngram_draft = replicate max_num_seqs (replicate k 0), valid_ngram_num_drafts = replicate max_num_seqs 0\<rparr>"

definition propose_row :: "nat list \<Rightarrow> int list list \<Rightarrow> nat \<Rightarrow> ngram_proposer \<Rightarrow> ngram_proposer result" where
  "propose_row num_tokens_no_spec token_ids_cpu idx p =
     rbind (py_get num_tokens_no_spec idx) (\<lambda>num_tokens.
     rbind (py_get token_ids_cpu idx) (\<lambda>row.
     rbind (find_longest_matched_ngram_and_propose_tokens (take num_tokens row) (ng_min_n p) (ng_max_n p) (ng_max_model_len p) (ng_k p)) (\<lambda>drafter_output.
     rbind (py_get (valid_ngram_draft p) idx) (\<lambda>draft_row.
     rbind (py_get (valid_ngram_num_drafts p) idx) (\<lambda>_.
     if length draft_row < length drafter_output then Inl IndexError
     else Inr (p\<lparr>valid_ngram_num_drafts := (valid_ngram_num_drafts p)[idx := length drafter_output],
                 valid_ngram_draft := (valid_ngram_draft p)[idx := drafter_output @ drop (length drafter_output) draft_row]\<rparr>))))))"

definition batch_propose_numba :: "nat list \<Rightarrow> nat list \<Rightarrow> int list list \<Rightarrow> ngram_proposer \<Rightarrow> ngram_proposer result" where
  "batch_propose_numba valid_ngram_requests num_tokens_no_spec token_ids_cpu =
     rfold (propose_row num_tokens_no_spec token_ids_cpu) valid_ngram_requests"

definition batch_propose ::
  "nat \<Rightarrow> nat list \<Rightarrow> nat list \<Rightarrow> int list list \<Rightarrow> ngram_proposer \<Rightarrow> (int list list \<times> ngram_proposer) result" where
  "batch_propose num_requests valid_ngram_requests num_tokens_no_spec token_ids_cpu p =
     rbind (if valid_ngram_requests = [] then Inr p
            else batch_propose_numba valid_ngram_requests num_tokens_no_spec token_ids_cpu p) (\<lambda>p.
     rbind (rmap (\<lambda>i.
         if i \<in> set valid_ngram_requests then
           rbind (py_get (valid_ngram_num_drafts p) i) (\<lambda>n.
             if 0 < n then rbind (py_get (valid_ngram_draft p) i) (\<lambda>row. Inr (take n row)) else Inr [])
         else Inr []) [0..<num_requests]) (\<lambda>drafts. Inr (drafts, p)))"

definition needs_ngram ::
  "int list list \<Rightarrow> string list \<Rightarrow> nat list \<Rightarrow> string set \<Rightarrow> int \<Rightarrow> nat \<Rightarrow> bool result" where
  "needs_ngram sampled_token_ids req_ids num_tokens_no_spec unsupported max_model_len i =
     (if sampled_token_ids ! i = [] then Inr False
      else rbind (py_get req_ids i) (\<lambda>req_id.
        if req_id \<in> unsupported then Inr False
        else rbind (py_get num_tokens_no_spec i) (\<lambda>num_tokens. Inr (int num_tokens < max_model_len))))"

definition propose ::
  "int list list \<Rightarrow> string list \<Rightarrow> nat list \<Rightarrow> int list list \<Rightarrow> string set \<Rightarrow> ngram_proposer \<Rightarrow> (int list list \<times> ngram_proposer) result" where
  "propose sampled_token_ids req_ids num_tokens_no_spec token_ids_cpu unsupported p =
     (let n = length sampled_token_ids in
      rbind (rmap (needs_ngram sampled_token_ids req_ids num_tokens_no_spec unsupported (ng_max_model_len p)) [0..<n]) (\<lambda>needs.
        batch_propose n (filter ((!) needs) [0..<n]) num_tokens_no_spec token_ids_cpu p))"

section \<open>Borders\<close>

text \<open>A border of length \<open>w\<close> of the first \<open>m\<close> tokens: a proper prefix that is also a suffix.\<close>

definition border :: "'a list \<Rightarrow> nat \<Rightarrow> nat \<Rightarrow> bool" where
  "border T w m \<longleftrightarrow> w < m \<and> (\<forall>j < w. T ! j = T ! (m - w + j))"

lemma border_0 [simp]: "border T 0 m \<longleftrightarrow> 0 < m"
  by (simp add: border_def)

lemma border_less: "border T w m \<Longrightarrow> w < m"
  by (simp add: border_def)

lemma border_Suc: "border T (Suc w) (Suc m) \<longleftrightarrow> border T w m \<and> T ! w = T ! m"
  by (auto simp: border_def less_Suc_eq all_conj_distrib)

lemma border_trans: "border T v m \<Longrightarrow> border T w v \<Longrightarrow> border T w m"
  unfolding border_def
proof (intro conjI allI impI; elim conjE)
  fix j assume *: "v < m" "\<forall>j < v. T ! j = T ! (m - v + j)" "w < v" "\<forall>j < w. T ! j = T ! (v - w + j)" "j < w"
  from * have "T ! j = T ! (v - w + j)" "T ! (v - w + j) = T ! (m - v + (v - w + j))" by auto
  moreover have "m - v + (v - w + j) = m - w + j" using * by simp
  ultimately show "T ! j = T ! (m - w + j)" by simp
qed linarith

lemma border_border: "border T v m \<Longrightarrow> border T w m \<Longrightarrow> w < v \<Longrightarrow> border T w v"
  unfolding border_def
proof (intro conjI allI impI; elim conjE)
  fix j assume *: "w < v" "v < m" "\<forall>j < v. T ! j = T ! (m - v + j)" "\<forall>j < w. T ! j = T ! (m - w + j)" "j < w"
  from * have "T ! (v - w + j) = T ! (m - v + (v - w + j))" "T ! j = T ! (m - w + j)" by auto
  moreover have "m - v + (v - w + j) = m - w + j" using * by simp
  ultimately show "T ! j = T ! (v - w + j)" by simp
qed

definition longest_border :: "'a list \<Rightarrow> nat \<Rightarrow> nat \<Rightarrow> bool" where
  "longest_border T w m \<longleftrightarrow> border T w m \<and> (\<forall>u. border T u m \<longrightarrow> u \<le> w)"

section \<open>The loop\<close>

text \<open>
  Before position \<open>i\<close> is compared: the longest match of at most \<open>mx\<close> tokens that ends before \<open>i\<close>,
  and the latest position where it ends.
\<close>

definition best_match :: "'a list \<Rightarrow> nat \<Rightarrow> nat \<Rightarrow> nat \<Rightarrow> nat \<Rightarrow> bool" where
  "best_match T mx i L p \<longleftrightarrow>
     (\<forall>v j. 1 \<le> v \<and> v \<le> mx \<and> j < i \<and> border T v (Suc j) \<longrightarrow> v \<le> L \<and> (v = L \<longrightarrow> j \<le> p)) \<and>
     (0 < L \<longrightarrow> L \<le> mx \<and> p < i \<and> border T L (Suc p))"

definition lps_ok :: "'a list \<Rightarrow> nat \<Rightarrow> nat \<Rightarrow> nat list \<Rightarrow> bool" where
  "lps_ok T mx i lps \<longleftrightarrow>
     length lps = mx \<and> (\<forall>j < mx. if j < i then longest_border T (lps ! j) (Suc j) else lps ! j = 0)"

definition ngram_inv :: "'a list \<Rightarrow> nat \<Rightarrow> nat \<Rightarrow> nat \<Rightarrow> nat \<Rightarrow> nat \<Rightarrow> nat list \<Rightarrow> bool" where
  "ngram_inv T mx i prev L p lps \<longleftrightarrow>
     1 \<le> i \<and> i \<le> length T \<and> border T prev i \<and> prev < mx \<and>
     (\<forall>w. border T w i \<and> w < mx \<and> prev < w \<longrightarrow> T ! w \<noteq> T ! i) \<and>
     lps_ok T mx i lps \<and> best_match T mx i L p"

lemma lps_ok_read:
  assumes "lps_ok T mx i lps" "0 < prev" "prev \<le> mx" "prev \<le> i"
  shows "py_get lps (prev - 1) = Inr (lps ! (prev - 1))" "longest_border T (lps ! (prev - 1)) prev"
  using assms by (auto simp: lps_ok_def py_get_def split: if_splits dest: spec [of _ "prev - 1"])

lemma extended_border:
  assumes "ngram_inv T mx i prev L p lps" "border T v (Suc i)" "v \<le> mx" "0 < v"
  shows "v \<le> Suc prev \<and> T ! (v - 1) = T ! i"
proof -
  obtain w where v: "v = Suc w" using assms(4) gr0_conv_Suc by auto
  with assms(2) have "border T w i" "T ! w = T ! i" by (simp_all add: border_Suc)
  with assms(1,3) v show ?thesis by (auto simp: ngram_inv_def not_less [symmetric])
qed

lemma best_match_step:
  assumes "best_match T mx i L p" "border T v (Suc i)" "v \<le> mx" "0 < v" "\<forall>u \<le> mx. border T u (Suc i) \<longrightarrow> u \<le> v"
  shows "best_match T mx (Suc i) (if L \<le> v then v else L) (if L \<le> v then i else p)"
  using assms by (fastforce simp: best_match_def less_Suc_eq)

lemma best_match_skip:
  assumes "best_match T mx i L p" "\<forall>u. 0 < u \<and> u \<le> mx \<longrightarrow> \<not> border T u (Suc i)"
  shows "best_match T mx (Suc i) L p"
  using assms by (fastforce simp: best_match_def less_Suc_eq)

lemma lps_ok_step:
  assumes "lps_ok T mx i lps" "i < mx \<longrightarrow> longest_border T v (Suc i)"
  shows "lps_ok T mx (Suc i) (if i < mx then lps[i := v] else lps)"
  using assms by (auto simp: lps_ok_def nth_list_update less_Suc_eq split: if_splits)

lemma lps_ok_skip:
  assumes "lps_ok T mx i lps" "i < mx \<longrightarrow> longest_border T 0 (Suc i)"
  shows "lps_ok T mx (Suc i) lps"
  using assms by (auto simp: lps_ok_def less_Suc_eq split: if_splits)

lemma ngram_match_step:
  assumes inv: "ngram_inv T mx i prev L p lps" and eq: "T ! prev = T ! i" and i: "i < length T"
  defines "lps' \<equiv> if i < mx then lps[i := Suc prev] else lps"
  shows "\<exists>q. (if Suc prev = mx then py_get lps' (mx - 1) else Inr (Suc prev)) = Inr q \<and> q \<le> Suc prev \<and>
    ngram_inv T mx (Suc i) q (if L \<le> Suc prev then Suc prev else L) (if L \<le> Suc prev then i else p) lps'"
proof -
  have b: "border T (Suc prev) (Suc i)" and le: "Suc prev \<le> mx"
    using inv eq by (simp_all add: ngram_inv_def border_Suc)
  have top: "\<forall>u \<le> mx. border T u (Suc i) \<longrightarrow> u \<le> Suc prev"
    using extended_border [OF inv] by (metis le_zero_eq not_gr_zero zero_le)
  have best: "best_match T mx (Suc i) (if L \<le> Suc prev then Suc prev else L) (if L \<le> Suc prev then i else p)"
    using best_match_step [OF _ b le _ top] inv by (simp add: ngram_inv_def)
  have "i < mx \<longrightarrow> longest_border T (Suc prev) (Suc i)"
  proof
    assume "i < mx"
    then have "u \<le> mx" if "border T u (Suc i)" for u using border_less [OF that] by linarith
    with b top show "longest_border T (Suc prev) (Suc i)" unfolding longest_border_def by blast
  qed
  then have lps': "lps_ok T mx (Suc i) lps'" unfolding lps'_def
    using inv by (intro lps_ok_step) (simp_all add: ngram_inv_def)
  show ?thesis
  proof (cases "Suc prev = mx")
    case True
    have mx: "0 < mx" "mx \<le> Suc i" using b True le border_less by fastforce+
    note read = lps_ok_read [OF lps' mx(1) order_refl mx(2)]
    let ?q = "lps' ! (mx - 1)"
    have q: "border T ?q mx" "\<forall>u. border T u mx \<longrightarrow> u \<le> ?q"
      using read(2) by (simp_all add: longest_border_def)
    have "border T ?q (Suc i)" using border_trans [of T mx "Suc i" ?q] b q(1) True by simp
    moreover have "\<not> (border T w (Suc i) \<and> w < mx \<and> ?q < w)" for w
      using border_border [of T mx "Suc i" w] b q(2) True by (auto simp: not_le [symmetric])
    ultimately have "ngram_inv T mx (Suc i) ?q (if L \<le> Suc prev then Suc prev else L) (if L \<le> Suc prev then i else p) lps'"
      using best lps' i border_less [OF q(1)] unfolding ngram_inv_def by (auto simp: Suc_le_eq)
    with read(1) mx True border_less [OF q(1)] show ?thesis by auto
  next
    case False
    with le b top best lps' i show ?thesis unfolding ngram_inv_def by (auto simp: Suc_le_eq not_le [symmetric])
  qed
qed

lemma ngram_fallback_step:
  assumes inv: "ngram_inv T mx i prev L p lps" and ne: "T ! prev \<noteq> T ! i" and pos: "prev \<noteq> 0"
  shows "\<exists>q. py_get lps (prev - 1) = Inr q \<and> q < prev \<and> ngram_inv T mx i q L p lps"
proof -
  have prev: "border T prev i" "prev < mx" "lps_ok T mx i lps" using inv by (simp_all add: ngram_inv_def)
  let ?q = "lps ! (prev - 1)"
  have read: "py_get lps (prev - 1) = Inr ?q" "longest_border T ?q prev"
    using lps_ok_read [OF prev(3), of prev] prev pos border_less [OF prev(1)] by auto
  then have q: "border T ?q prev" "\<forall>u. border T u prev \<longrightarrow> u \<le> ?q" by (auto simp: longest_border_def)
  have "T ! w \<noteq> T ! i" if "border T w i" "w < mx" "?q < w" for w
    using inv that ne q(2) border_border [OF prev(1) that(1)] unfolding ngram_inv_def
    by (metis leD linorder_neqE_nat)
  then have "ngram_inv T mx i ?q L p lps"
    using inv border_trans [OF prev(1) q(1)] border_less [OF q(1)] by (auto simp: ngram_inv_def)
  with read(1) border_less [OF q(1)] show ?thesis by auto
qed

lemma ngram_skip_step:
  assumes inv: "ngram_inv T mx i 0 L p lps" and ne: "T ! 0 \<noteq> T ! i" and i: "i < length T"
  shows "ngram_inv T mx (Suc i) 0 L p lps"
proof -
  have none: "\<not> border T u (Suc i)" if "0 < u" "u \<le> mx" for u
    using extended_border [OF inv, of u] that ne by (auto simp: le_Suc_eq)
  have "longest_border T 0 (Suc i)" if "i < mx"
    unfolding longest_border_def using none that border_less by (metis border_0 less_Suc_eq_le less_or_eq_imp_le le_trans not_gr_zero zero_less_Suc)
  with inv none i best_match_skip [of T mx i L p] lps_ok_skip [of T mx i lps] show ?thesis
    by (auto simp: ngram_inv_def)
qed

lemma ngram_loop_finds:
  assumes "ngram_inv T mx i prev L p lps" "2 * (length T - i) + prev < fuel"
  shows "\<exists>L' p'. ngram_loop fuel T mx i prev L p lps = Inr (L', p') \<and> best_match T mx (length T) L' p'"
  using assms
proof (induction fuel arbitrary: i prev L p lps)
  case (Suc fuel)
  note inv = Suc.prems(1)
  have prev: "prev < i" "i \<le> length T" using inv border_less by (auto simp: ngram_inv_def)
  show ?case
  proof (cases "i < length T")
    case False
    with inv prev show ?thesis by (auto simp: ngram_inv_def)
  next
    case True
    then have get: "py_get T prev = Inr (T ! prev)" "py_get T i = Inr (T ! i)" using prev by (simp_all add: py_get_def)
    consider "T ! prev = T ! i" | "T ! prev \<noteq> T ! i" "prev \<noteq> 0" | "T ! prev \<noteq> T ! i" "prev = 0" by blast
    then show ?thesis
    proof cases
      case 1
      from ngram_match_step [OF inv 1 True] obtain q where
        q: "(if Suc prev = mx then py_get (if i < mx then lps[i := Suc prev] else lps) (mx - 1) else Inr (Suc prev)) = Inr q" "q \<le> Suc prev"
        and inv': "ngram_inv T mx (Suc i) q (if L \<le> Suc prev then Suc prev else L) (if L \<le> Suc prev then i else p)
                     (if i < mx then lps[i := Suc prev] else lps)" by blast
      have "2 * (length T - Suc i) + q < fuel" using Suc.prems(2) q(2) True by linarith
      from Suc.IH [OF inv' this] 1 True get q(1) show ?thesis by (cases "L \<le> Suc prev") (simp_all add: Let_def)
    next
      case 2
      from ngram_fallback_step [OF inv 2] obtain q where q: "py_get lps (prev - 1) = Inr q" "q < prev" "ngram_inv T mx i q L p lps" by blast
      have "2 * (length T - i) + q < fuel" using Suc.prems(2) q(2) by linarith
      from Suc.IH [OF q(3) this] 2 True get q(1) show ?thesis by simp
    next
      case 3
      have "2 * (length T - Suc i) + 0 < fuel" using Suc.prems(2) True by linarith
      from Suc.IH [OF ngram_skip_step [OF _ _ True] this] inv 3 True get show ?thesis by simp
    qed
  qed
qed simp

section \<open>What is drafted\<close>

text \<open>The last \<open>v\<close> tokens also occur at position \<open>s\<close>, with at least one token after them.\<close>

definition occurs :: "'a list \<Rightarrow> nat \<Rightarrow> nat \<Rightarrow> bool" where
  "occurs ts v s \<longleftrightarrow> s + v < length ts \<and> take v (drop s ts) = drop (length ts - v) ts"

definition longest_match :: "'a list \<Rightarrow> nat \<Rightarrow> nat \<Rightarrow> nat \<Rightarrow> bool" where
  "longest_match ts mx v s \<longleftrightarrow> 1 \<le> v \<and> v \<le> mx \<and> occurs ts v s \<and>
     (\<forall>v' s'. 1 \<le> v' \<and> v' \<le> mx \<and> occurs ts v' s' \<longrightarrow> v' \<le> v \<and> (v' = v \<longrightarrow> s \<le> s'))"

lemma occurs_nth:
  "occurs ts v s \<longleftrightarrow> s + v < length ts \<and> (\<forall>t < v. ts ! (s + t) = ts ! (length ts - v + t))"
  by (auto simp: occurs_def list_eq_iff_nth_eq)

lemma all_reflect: "(\<forall>t < v. P t) \<longleftrightarrow> (\<forall>t < v. P (v - Suc t))" for v :: nat
proof (intro iffI allI impI)
  fix t assume "\<forall>t < v. P (v - Suc t)" "t < v"
  moreover have "v - Suc t < v" "v - Suc (v - Suc t) = t" using \<open>t < v\<close> by auto
  ultimately show "P t" by metis
qed simp

lemma border_occurs:
  assumes "j < length ts"
  shows "border (rev ts) v (Suc j) \<longleftrightarrow> occurs ts v (length ts - Suc j)"
proof (cases "v \<le> j")
  case True
  have "border (rev ts) v (Suc j) \<longleftrightarrow> (\<forall>t < v. rev ts ! (v - Suc t) = rev ts ! (Suc j - v + (v - Suc t)))"
    unfolding border_def using True by (subst all_reflect) auto
  also have "\<dots> \<longleftrightarrow> (\<forall>t < v. ts ! (length ts - v + t) = ts ! (length ts - Suc j + t))"
  proof (intro all_cong)
    fix t assume t: "t < v"
    have "rev ts ! (v - Suc t) = ts ! (length ts - v + t)" "rev ts ! (Suc j - v + (v - Suc t)) = ts ! (length ts - Suc j + t)"
      using t True assms by (auto simp: rev_nth intro: arg_cong [of _ _ "(!) ts"])
    then show "(rev ts ! (v - Suc t) = rev ts ! (Suc j - v + (v - Suc t))) = (ts ! (length ts - v + t) = ts ! (length ts - Suc j + t))"
      by simp
  qed
  finally show ?thesis using True assms by (auto simp: occurs_nth)
next
  case False
  with assms show ?thesis by (auto simp: border_def occurs_def)
qed

lemma best_match_occurs:
  assumes "best_match (rev ts) mx (length ts) L p"
  shows "0 < L \<Longrightarrow> longest_match ts mx L (length ts - Suc p) \<and> p < length ts"
    "L = 0 \<Longrightarrow> \<not> (\<exists>v s. 1 \<le> v \<and> v \<le> mx \<and> occurs ts v s)"
proof -
  have bound: "v \<le> L \<and> (v = L \<longrightarrow> length ts - Suc p \<le> s)" if "1 \<le> v" "v \<le> mx" "occurs ts v s" for v s
  proof -
    let ?j = "length ts - Suc s"
    have j: "?j < length ts" "length ts - Suc ?j = s" using that by (auto simp: occurs_def)
    then have "border (rev ts) v (Suc ?j)" using border_occurs [OF j(1), of v] that(3) by simp
    with assms that j show ?thesis by (fastforce simp: best_match_def)
  qed
  show "L = 0 \<Longrightarrow> \<not> (\<exists>v s. 1 \<le> v \<and> v \<le> mx \<and> occurs ts v s)" using bound by fastforce
  assume "0 < L"
  then have "L \<le> mx" "p < length ts" "border (rev ts) L (Suc p)" using assms by (auto simp: best_match_def)
  moreover from this border_occurs [of p ts L] have "occurs ts L (length ts - Suc p)" by blast
  ultimately show "longest_match ts mx L (length ts - Suc p) \<and> p < length ts"
    using bound \<open>0 < L\<close> by (auto simp: longest_match_def Suc_le_eq)
qed

lemma ngram_search:
  assumes "ts \<noteq> []" "1 \<le> mx"
  shows "\<exists>L p. ngram_loop (2 * length ts + 1) (rev ts) mx 1 0 0 0 (replicate mx 0) = Inr (L, p) \<and>
    best_match (rev ts) mx (length ts) L p"
proof -
  have one: "w = 0" if "border (rev ts) w 1" for w using that by (simp add: border_def)
  then have "ngram_inv (rev ts) mx 1 0 0 0 (replicate mx 0)"
    using assms by (auto simp: ngram_inv_def lps_ok_def longest_border_def best_match_def Suc_le_eq)
  from ngram_loop_finds [OF this, of "2 * length ts + 1"] show ?thesis by (simp del: ngram_loop.simps)
qed

definition draft_spec :: "'a list \<Rightarrow> nat \<Rightarrow> nat \<Rightarrow> nat \<Rightarrow> 'a list \<Rightarrow> bool" where
  "draft_spec ts min_n max_n k d \<longleftrightarrow>
     (if \<exists>v s. min_n \<le> v \<and> longest_match ts max_n v s
      then \<forall>v s. longest_match ts max_n v s \<longrightarrow> d = take k (drop (s + v) ts)
      else d = [])"

lemma longest_match_unique: "longest_match ts mx v s \<Longrightarrow> longest_match ts mx v' s' \<Longrightarrow> v = v' \<and> s = s'"
  unfolding longest_match_def by (metis le_antisym)

lemma find_drafts:
  assumes "1 \<le> min_n" "1 \<le> max_n"
  shows "\<exists>d. find_longest_matched_ngram_and_propose_tokens ts min_n max_n max_model_len k = Inr d \<and>
    draft_spec ts min_n max_n (nat (min k (max_model_len - int (length ts)))) d"
proof -
  let ?k = "min k (max_model_len - int (length ts))"
  have long: "v < length ts" if "longest_match ts max_n v s" for v s using that by (simp add: longest_match_def occurs_def)
  consider "length ts < min_n" | "min_n \<le> length ts" "?k \<le> 0" | "min_n \<le> length ts" "0 < ?k" by linarith
  then show ?thesis
  proof cases
    case 1
    with long have "draft_spec ts min_n max_n (nat ?k) []" by (fastforce simp: draft_spec_def)
    with 1 show ?thesis by (simp add: find_longest_matched_ngram_and_propose_tokens_def)
  next
    case 2
    then show ?thesis by (simp add: find_longest_matched_ngram_and_propose_tokens_def Let_def draft_spec_def)
  next
    case 3
    then have "ts \<noteq> []" using assms(1) by auto
    from ngram_search [OF this assms(2)] obtain L p where
      run: "ngram_loop (2 * length ts + 1) (rev ts) max_n 1 0 0 0 (replicate max_n 0) = Inr (L, p)"
      and best: "best_match (rev ts) max_n (length ts) L p" by blast
    show ?thesis
    proof (cases "L < min_n")
      case True
      have "\<not> (\<exists>v s. min_n \<le> v \<and> longest_match ts max_n v s)"
      proof (rule notI, elim exE conjE)
        fix v s assume v: "min_n \<le> v" "longest_match ts max_n v s"
        then have "L \<noteq> 0" using best_match_occurs(2) [OF best] unfolding longest_match_def by blast
        then have "longest_match ts max_n L (length ts - Suc p)" using best_match_occurs(1) [OF best] by blast
        from longest_match_unique [OF v(2) this] v(1) True show False by linarith
      qed
      then have "draft_spec ts min_n max_n (nat ?k) []" unfolding draft_spec_def by (simp only: if_False)
      moreover have "find_longest_matched_ngram_and_propose_tokens ts min_n max_n max_model_len k = Inr []"
        unfolding find_longest_matched_ngram_and_propose_tokens_def Let_def using 3 True
        by (simp only: run rbind_simps prod.case if_True) simp
      ultimately show ?thesis by blast
    next
      case False
      with assms(1) best_match_occurs(1) [OF best] have m: "longest_match ts max_n L (length ts - Suc p)" "p < length ts" by auto
      let ?start = "length ts - Suc p + L"
      have "?start < length ts" using m(1) by (simp add: longest_match_def occurs_def)
      then have "py_slice ts ?start (?start + nat (min ?k (int (length ts) - int ?start))) = take (nat ?k) (drop ?start ts)"
        by (simp add: py_slice_def min_def nat_le_iff)
      moreover have "draft_spec ts min_n max_n (nat ?k) (take (nat ?k) (drop ?start ts))"
      proof -
        have "\<exists>v s. min_n \<le> v \<and> longest_match ts max_n v s" using m(1) False not_less by blast
        moreover have "take (nat ?k) (drop ?start ts) = take (nat ?k) (drop (s + v) ts)" if "longest_match ts max_n v s" for v s
          using longest_match_unique [OF m(1) that] by simp
        ultimately show ?thesis unfolding draft_spec_def by (simp only: if_True) blast
      qed
      moreover have "find_longest_matched_ngram_and_propose_tokens ts min_n max_n max_model_len k =
          Inr (py_slice ts ?start (?start + nat (min ?k (int (length ts) - int ?start))))"
        unfolding find_longest_matched_ngram_and_propose_tokens_def Let_def using 3 False
        by (simp only: run rbind_simps prod.case not_less not_le if_False diff_diff_left Suc_eq_plus1_left) (auto simp: min_le_iff_disj)
      ultimately show ?thesis by auto
    qed
  qed
qed

lemma draft_spec_length: "draft_spec ts min_n max_n k d \<Longrightarrow> length d \<le> k"
  by (auto simp: draft_spec_def split: if_splits)

section \<open>The batch\<close>

definition proposer_wf :: "nat \<Rightarrow> ngram_proposer \<Rightarrow> bool" where
  "proposer_wf n p \<longleftrightarrow> 1 \<le> ng_min_n p \<and> 1 \<le> ng_max_n p \<and>
     n \<le> length (valid_ngram_num_drafts p) \<and> length (valid_ngram_draft p) = length (valid_ngram_num_drafts p) \<and>
     (\<forall>row \<in> set (valid_ngram_draft p). length row = nat (ng_k p))"

definition same_settings :: "ngram_proposer \<Rightarrow> ngram_proposer \<Rightarrow> bool" where
  "same_settings p p' \<longleftrightarrow> ng_min_n p' = ng_min_n p \<and> ng_max_n p' = ng_max_n p \<and> ng_k p' = ng_k p \<and> ng_max_model_len p' = ng_max_model_len p"

definition draft_of :: "ngram_proposer \<Rightarrow> int list \<Rightarrow> int list" where
  "draft_of p ts = (case find_longest_matched_ngram_and_propose_tokens ts (ng_min_n p) (ng_max_n p) (ng_max_model_len p) (ng_k p)
     of Inr d \<Rightarrow> d | Inl _ \<Rightarrow> [])"

definition row_holds :: "ngram_proposer \<Rightarrow> nat \<Rightarrow> int list \<Rightarrow> bool" where
  "row_holds p i d \<longleftrightarrow> valid_ngram_num_drafts p ! i = length d \<and> take (length d) (valid_ngram_draft p ! i) = d"

lemma draft_of_spec:
  assumes "proposer_wf n p"
  shows "find_longest_matched_ngram_and_propose_tokens ts (ng_min_n p) (ng_max_n p) (ng_max_model_len p) (ng_k p) = Inr (draft_of p ts)"
    "draft_spec ts (ng_min_n p) (ng_max_n p) (nat (min (ng_k p) (ng_max_model_len p - int (length ts)))) (draft_of p ts)"
    "length (draft_of p ts) \<le> nat (ng_k p)"
proof -
  from assms find_drafts [of "ng_min_n p" "ng_max_n p" ts "ng_max_model_len p" "ng_k p"] obtain d
    where d: "find_longest_matched_ngram_and_propose_tokens ts (ng_min_n p) (ng_max_n p) (ng_max_model_len p) (ng_k p) = Inr d"
      "draft_spec ts (ng_min_n p) (ng_max_n p) (nat (min (ng_k p) (ng_max_model_len p - int (length ts)))) d"
    by (auto simp: proposer_wf_def)
  then show "find_longest_matched_ngram_and_propose_tokens ts (ng_min_n p) (ng_max_n p) (ng_max_model_len p) (ng_k p) = Inr (draft_of p ts)"
    "draft_spec ts (ng_min_n p) (ng_max_n p) (nat (min (ng_k p) (ng_max_model_len p - int (length ts)))) (draft_of p ts)"
    by (simp_all add: draft_of_def)
  from draft_spec_length [OF this(2)] show "length (draft_of p ts) \<le> nat (ng_k p)" by linarith
qed

lemma propose_row_step:
  assumes wf: "proposer_wf n p" and i: "i < n" "i < length nums" "i < length rows"
  shows "\<exists>p'. propose_row nums rows i p = Inr p' \<and> proposer_wf n p' \<and> same_settings p p' \<and>
    row_holds p' i (draft_of p (take (nums ! i) (rows ! i))) \<and> (\<forall>j d. j \<noteq> i \<longrightarrow> row_holds p j d \<longrightarrow> row_holds p' j d)"
proof -
  let ?d = "draft_of p (take (nums ! i) (rows ! i))" and ?row = "valid_ngram_draft p ! i"
  let ?p = "p\<lparr>valid_ngram_num_drafts := (valid_ngram_num_drafts p)[i := length ?d],
              valid_ngram_draft := (valid_ngram_draft p)[i := ?d @ drop (length ?d) ?row]\<rparr>"
  have len: "i < length (valid_ngram_num_drafts p)" "i < length (valid_ngram_draft p)" using wf i by (auto simp: proposer_wf_def)
  then have "length ?row = nat (ng_k p)" using wf by (simp add: proposer_wf_def)
  then have fit: "length ?d \<le> length ?row" using draft_of_spec(3) [OF wf] by simp
  then have "propose_row nums rows i p = Inr ?p"
    using i len draft_of_spec(1) [OF wf] by (simp add: propose_row_def py_get_def not_less)
  moreover have "proposer_wf n ?p" using wf fit \<open>length ?row = _\<close>
    by (auto simp: proposer_wf_def dest!: set_update_subset_insert [THEN subsetD])
  moreover have "same_settings p ?p" by (simp add: same_settings_def)
  moreover have "row_holds ?p i ?d" using len by (simp add: row_holds_def)
  moreover have "\<forall>j d. j \<noteq> i \<longrightarrow> row_holds p j d \<longrightarrow> row_holds ?p j d" by (simp add: row_holds_def)
  ultimately show ?thesis by blast
qed

lemma draft_of_settings: "same_settings p p' \<Longrightarrow> draft_of p' = draft_of p"
  by (simp add: same_settings_def draft_of_def fun_eq_iff)

lemma propose_rows:
  assumes "proposer_wf n p" "\<forall>i \<in> set is. i < n \<and> i < length nums \<and> i < length rows"
  shows "\<exists>p'. rfold (propose_row nums rows) is p = Inr p' \<and> proposer_wf n p' \<and> same_settings p p' \<and>
    (\<forall>i. i \<in> set is \<or> row_holds p i (draft_of p (take (nums ! i) (rows ! i))) \<longrightarrow> row_holds p' i (draft_of p (take (nums ! i) (rows ! i))))"
  using assms
proof (induction "is" arbitrary: p)
  case Nil
  then show ?case by (simp add: same_settings_def)
next
  case (Cons i "is")
  from propose_row_step [OF Cons.prems(1), of i nums rows] Cons.prems(2) obtain p1
    where p1: "propose_row nums rows i p = Inr p1" "proposer_wf n p1" "same_settings p p1"
      "row_holds p1 i (draft_of p (take (nums ! i) (rows ! i)))" "\<forall>j d. j \<noteq> i \<longrightarrow> row_holds p j d \<longrightarrow> row_holds p1 j d" by auto
  from Cons.IH [OF p1(2)] Cons.prems(2) obtain p2 where p2: "rfold (propose_row nums rows) is p1 = Inr p2" "proposer_wf n p2" "same_settings p1 p2"
    "\<forall>i. i \<in> set is \<or> row_holds p1 i (draft_of p (take (nums ! i) (rows ! i))) \<longrightarrow> row_holds p2 i (draft_of p (take (nums ! i) (rows ! i)))"
    unfolding draft_of_settings [OF p1(3)] by auto
  moreover have "same_settings p p2" using p1(3) p2(3) by (simp add: same_settings_def)
  ultimately show ?case using p1 by (intro exI [of _ p2]) auto
qed

lemma batch_propose_drafts:
  assumes "proposer_wf n p" "\<forall>i \<in> set is. i < n \<and> i < length nums \<and> i < length rows"
  shows "\<exists>p'. batch_propose n is nums rows p =
      Inr (map (\<lambda>i. if i \<in> set is then draft_of p (take (nums ! i) (rows ! i)) else []) [0..<n], p') \<and>
    proposer_wf n p' \<and> same_settings p p'"
proof -
  have "\<exists>p'. (if is = [] then Inr p else batch_propose_numba is nums rows p) = Inr p' \<and> proposer_wf n p' \<and> same_settings p p' \<and>
      (\<forall>i \<in> set is. row_holds p' i (draft_of p (take (nums ! i) (rows ! i))))"
  proof (cases "is = []")
    case True
    then show ?thesis using assms(1) by (simp add: same_settings_def)
  next
    case False
    with propose_rows [OF assms] show ?thesis unfolding batch_propose_numba_def by auto
  qed
  then obtain p' where run: "(if is = [] then Inr p else batch_propose_numba is nums rows p) = Inr p'"
    and p': "proposer_wf n p'" "same_settings p p'" and rows: "\<forall>i \<in> set is. row_holds p' i (draft_of p (take (nums ! i) (rows ! i)))" by blast
  have read: "(if i \<in> set is then rbind (py_get (valid_ngram_num_drafts p') i) (\<lambda>m.
        if 0 < m then rbind (py_get (valid_ngram_draft p') i) (\<lambda>row. Inr (take m row)) else Inr []) else Inr []) =
      Inr (if i \<in> set is then draft_of p (take (nums ! i) (rows ! i)) else [])" if "i < n" for i
    using that p'(1) rows assms(2) by (auto simp: row_holds_def proposer_wf_def py_get_def)
  have "rmap (\<lambda>i. if i \<in> set is then rbind (py_get (valid_ngram_num_drafts p') i) (\<lambda>m.
        if 0 < m then rbind (py_get (valid_ngram_draft p') i) (\<lambda>row. Inr (take m row)) else Inr []) else Inr []) [0..<n] =
      Inr (map (\<lambda>i. if i \<in> set is then draft_of p (take (nums ! i) (rows ! i)) else []) [0..<n])"
    unfolding rmap_Inr_iff list_all2_map2 by (rule list.rel_refl_strong) (use read in auto)
  with run p' show ?thesis unfolding batch_propose_def by simp
qed

text \<open>
  C33: For every batch, propose returns, never reads or writes outside its arrays, and drafts for each
  request that sampled a token, supports drafting and is below the maximal length exactly the tokens
  after the earliest occurrence of the longest suffix n-gram of admissible length (none when there is
  no such occurrence), cut at the number of speculative tokens and the maximal length; for every
  other request it drafts nothing, whatever earlier steps left in the buffers.
\<close>

theorem propose_spec:
  assumes "proposer_wf (length sampled) p" "length req_ids = length sampled" "length nums = length sampled"
    "length rows = length sampled" "\<forall>i < length sampled. nums ! i \<le> length (rows ! i)"
  shows "\<exists>drafts p'. propose sampled req_ids nums rows unsupported p = Inr (drafts, p') \<and>
    proposer_wf (length sampled) p' \<and> length drafts = length sampled \<and>
    (\<forall>i < length sampled.
       if sampled ! i \<noteq> [] \<and> req_ids ! i \<notin> unsupported \<and> int (nums ! i) < ng_max_model_len p
       then draft_spec (take (nums ! i) (rows ! i)) (ng_min_n p) (ng_max_n p)
              (nat (min (ng_k p) (ng_max_model_len p - int (nums ! i)))) (drafts ! i)
       else drafts ! i = [])"
proof -
  let ?n = "length sampled"
  let ?need = "\<lambda>i. sampled ! i \<noteq> [] \<and> req_ids ! i \<notin> unsupported \<and> int (nums ! i) < ng_max_model_len p"
  have "needs_ngram sampled req_ids nums unsupported (ng_max_model_len p) i = Inr (?need i)" if "i < ?n" for i
    using that assms(2,3) by (simp add: needs_ngram_def py_get_def)
  then have needs: "rmap (needs_ngram sampled req_ids nums unsupported (ng_max_model_len p)) [0..<?n] = Inr (map ?need [0..<?n])"
    unfolding rmap_Inr_iff list_all2_map2 by (intro list.rel_refl_strong) auto
  have filter: "filter ((!) (map ?need [0..<?n])) [0..<?n] = filter ?need [0..<?n]"
    by (rule filter_cong) auto
  from batch_propose_drafts [OF assms(1), of "filter ?need [0..<?n]" nums rows] assms(3,4) obtain p'
    where "batch_propose ?n (filter ?need [0..<?n]) nums rows p =
        Inr (map (\<lambda>i. if i \<in> set (filter ?need [0..<?n]) then draft_of p (take (nums ! i) (rows ! i)) else []) [0..<?n], p')"
      "proposer_wf ?n p'" by auto
  moreover have "draft_spec (take (nums ! i) (rows ! i)) (ng_min_n p) (ng_max_n p)
       (nat (min (ng_k p) (ng_max_model_len p - int (nums ! i)))) (draft_of p (take (nums ! i) (rows ! i)))" if "i < ?n" for i
    using draft_of_spec(2) [OF assms(1), of "take (nums ! i) (rows ! i)"] assms(5) that by (simp add: min_absorb2)
  ultimately show ?thesis unfolding propose_def Let_def needs rbind_simps filter by auto
qed

theorem propose_spec_witness:
  "let sampled = [[7], [], [9]]; req_ids = [''a'', ''b'', ''c'']; nums = [6, 2, 3];
       rows = [[1, 2, 3, 9, 2, 3, 0], [1, 1, 0, 0, 0, 0, 0], [4, 5, 9, 0, 0, 0, 0]];
       p = ngram_proposer_init 1 3 2 7 4 in
   \<exists>drafts p'. propose sampled req_ids nums rows {} p = Inr (drafts, p') \<and> drafts ! 0 = [9] \<and> drafts ! 1 = []"
proof -
  let ?rows = "[[1, 2, 3, 9, 2, 3, 0], [1, 1, 0, 0, 0, 0, 0], [4, 5, 9, 0, 0, 0, 0]] :: int list list"
  let ?p = "ngram_proposer_init 1 3 2 7 4"
  have run: "map_sum id fst (propose [[7], [], [9]] [''a'', ''b'', ''c''] [6, 2, 3] ?rows {} ?p) = Inr [[9], [], []]"
    by code_simp
  have "proposer_wf (length [[7 :: int], [], [9]]) ?p" by (simp add: proposer_wf_def ngram_proposer_init_def)
  moreover have "\<forall>i < length [[7 :: int], [], [9]]. [6, 2, 3] ! i \<le> length (?rows ! i)"
    by (auto simp: less_Suc_eq nth_Cons')
  ultimately obtain drafts p' where "propose [[7], [], [9]] [''a'', ''b'', ''c''] [6, 2, 3] ?rows {} ?p = Inr (drafts, p')"
    using propose_spec [of "[[7], [], [9]]" ?p "[''a'', ''b'', ''c'']" "[6, 2, 3]" ?rows "{}"] by auto
  with run show ?thesis unfolding Let_def by auto
qed

end
