(* ===== verification/Block_Table.thy ===== *)
theory Block_Table
  imports Prelude
begin

text \<open>
  The block tables of the workers: \<^verbatim>\<open>vllm/v1/worker/block_table.py\<close> and the buffers of
  \<^verbatim>\<open>vllm/v1/utils.py\<close> they are kept in.

  A table is an array of rows of 32 bit block numbers, one row per request, with the number of
  blocks in use per row. \<open>row_blocks\<close> is what a row means; every operation on the array is shown
  to be the operation on these lists. The slots of tokens are computed in 32 bit arithmetic.

  An assignment to a slice of an array follows numpy: the slice is cut at the end of the array, one
  value is repeated over the slice, and any other difference in length raises. A block number that
  does not fit is wrapped (numpy 2 raises for a plain list).
\<close>

section \<open>Arrays\<close>

definition to_int32 :: "int \<Rightarrow> int" where
  "to_int32 x = sint (word_of_int x :: 32 word)"

definition assign_slice :: "nat \<Rightarrow> 'a list \<Rightarrow> 'a list \<Rightarrow> 'a list result" where
  "assign_slice start vals xs =
     (let stop = start + length vals in
      if stop \<le> length xs then Inr (take start xs @ vals @ drop stop xs)
      else if length vals = 1 then Inr (take start xs @ replicate (length xs - start) (hd vals))
      else Inl ValueError)"

record 'a cpu_gpu_buffer =
  buf_cpu :: "'a list"
  buf_gpu :: "'a list"

definition make_buffer :: "nat \<Rightarrow> 'a \<Rightarrow> 'a cpu_gpu_buffer" where
  "make_buffer n zero = \<lparr>buf_cpu = replicate n zero, buf_gpu = replicate n zero\<rparr>"

definition copy_to_gpu :: "nat \<Rightarrow> 'a cpu_gpu_buffer \<Rightarrow> 'a cpu_gpu_buffer" where
  "copy_to_gpu n b = b\<lparr>buf_gpu := take n (buf_cpu b) @ drop n (buf_gpu b)\<rparr>"

section \<open>One table\<close>

record block_table =
  bt_block_size :: nat
  blocks_per_kv_block :: nat
  use_hybrid_blocks :: bool
  max_num_blocks_per_req :: nat
  bt_rows :: "int list cpu_gpu_buffer"
  num_blocks_per_row :: "nat list"
  slot_mapping :: "int cpu_gpu_buffer"
  pcp_world_size :: nat
  pcp_rank :: nat
  dcp_world_size :: nat
  dcp_rank :: nat
  cp_kv_cache_interleave_size :: nat

text \<open>The sizes and ranks of the context parallel groups come from the process groups.\<close>

record cp_groups =
  cp_pcp_world_size :: nat
  cp_pcp_rank :: nat
  cp_dcp_world_size :: nat
  cp_dcp_rank :: nat

definition block_table_init ::
  "nat \<Rightarrow> nat \<Rightarrow> nat \<Rightarrow> nat \<Rightarrow> nat \<Rightarrow> nat \<Rightarrow> cp_groups \<Rightarrow> block_table result" where
  "block_table_init block_size max_num_reqs max_blocks max_num_batched_tokens kernel_block_size interleave cp =
     rbind (if kernel_block_size = block_size then Inr (block_size, 1, False)
            else if kernel_block_size = 0 then Inl ZeroDivisionError
            else if block_size mod kernel_block_size \<noteq> 0 then Inl ValueError
            else Inr (kernel_block_size, block_size div kernel_block_size, True)) (\<lambda>(bs, per_block, hybrid).
       Inr \<lparr>bt_block_size = bs, blocks_per_kv_block = per_block, use_hybrid_blocks = hybrid,
            max_num_blocks_per_req = max_blocks * per_block,
            bt_rows = make_buffer max_num_reqs (replicate (max_blocks * per_block) 0),
            num_blocks_per_row = replicate max_num_reqs 0,
            slot_mapping = make_buffer max_num_batched_tokens 0,
            pcp_world_size = cp_pcp_world_size cp, pcp_rank = cp_pcp_rank cp,
            dcp_world_size = cp_dcp_world_size cp, dcp_rank = cp_dcp_rank cp,
            cp_kv_cache_interleave_size = interleave\<rparr>)"

definition map_to_kernel_blocks :: "nat \<Rightarrow> int list \<Rightarrow> int list" where
  "map_to_kernel_blocks per_block block_ids =
     (if per_block = 1 then block_ids
      else concat (map (\<lambda>b. map (\<lambda>j. b * int per_block + int j) [0..<per_block]) block_ids))"

definition append_row :: "int list \<Rightarrow> nat \<Rightarrow> block_table \<Rightarrow> block_table result" where
  "append_row block_ids row_idx t =
     (if block_ids = [] then Inr t
      else
        let block_ids = (if use_hybrid_blocks t then map_to_kernel_blocks (blocks_per_kv_block t) block_ids else block_ids) in
        rbind (py_get (num_blocks_per_row t) row_idx) (\<lambda>start.
        rbind (py_get (buf_cpu (bt_rows t)) row_idx) (\<lambda>row.
        rbind (assign_slice start (map to_int32 block_ids) row) (\<lambda>row'.
          Inr (t\<lparr>num_blocks_per_row := (num_blocks_per_row t)[row_idx := start + length block_ids],
                 bt_rows := (bt_rows t)\<lparr>buf_cpu := (buf_cpu (bt_rows t))[row_idx := row']\<rparr>\<rparr>)))))"

definition add_row :: "int list \<Rightarrow> nat \<Rightarrow> block_table \<Rightarrow> block_table result" where
  "add_row block_ids row_idx t =
     (if row_idx < length (num_blocks_per_row t)
      then append_row block_ids row_idx (t\<lparr>num_blocks_per_row := (num_blocks_per_row t)[row_idx := 0]\<rparr>)
      else Inl IndexError)"

definition move_row :: "nat \<Rightarrow> nat \<Rightarrow> block_table \<Rightarrow> block_table result" where
  "move_row src tgt t =
     rbind (py_get (num_blocks_per_row t) src) (\<lambda>n.
     rbind (py_get (buf_cpu (bt_rows t)) src) (\<lambda>src_row.
     rbind (py_get (buf_cpu (bt_rows t)) tgt) (\<lambda>tgt_row.
       Inr (t\<lparr>bt_rows := (bt_rows t)\<lparr>buf_cpu := (buf_cpu (bt_rows t))[tgt := take n src_row @ drop n tgt_row]\<rparr>,
              num_blocks_per_row := (num_blocks_per_row t)[tgt := n]\<rparr>))))"

definition swap_at :: "nat \<Rightarrow> nat \<Rightarrow> 'a list \<Rightarrow> 'a list" where
  "swap_at i j xs = xs[i := xs ! j, j := xs ! i]"

definition swap_row :: "nat \<Rightarrow> nat \<Rightarrow> block_table \<Rightarrow> block_table result" where
  "swap_row src tgt t =
     (if src < length (num_blocks_per_row t) \<and> tgt < length (num_blocks_per_row t) \<and>
         src < length (buf_cpu (bt_rows t)) \<and> tgt < length (buf_cpu (bt_rows t))
      then Inr (t\<lparr>num_blocks_per_row := swap_at src tgt (num_blocks_per_row t),
                  bt_rows := (bt_rows t)\<lparr>buf_cpu := swap_at src tgt (buf_cpu (bt_rows t))\<rparr>\<rparr>)
      else Inl IndexError)"

section \<open>Slots\<close>

text \<open>
  The row and the position select an element of the flattened array; the product of the block
  number and the block size is a 32 bit integer.
\<close>

definition slot_of :: "block_table \<Rightarrow> nat \<times> nat \<Rightarrow> int result" where
  "slot_of t = (\<lambda>(req_index, position).
     let total_cp_world_size = pcp_world_size t * dcp_world_size t;
         total_cp_rank = pcp_rank t * dcp_world_size t + dcp_rank t;
         flat = concat (buf_cpu (bt_rows t)) in
     if 1 < total_cp_world_size then
       let virtual_block_size = bt_block_size t * total_cp_world_size in
       if virtual_block_size = 0 \<or> cp_kv_cache_interleave_size t = 0 then Inl ZeroDivisionError
       else rbind (py_get flat (req_index * max_num_blocks_per_req t + position div virtual_block_size)) (\<lambda>block_number.
         let virtual_block_offset = position mod virtual_block_size;
             mask = (virtual_block_offset div cp_kv_cache_interleave_size t mod total_cp_world_size = total_cp_rank);
             block_offset =
               virtual_block_offset div (total_cp_world_size * cp_kv_cache_interleave_size t) * cp_kv_cache_interleave_size t
               + virtual_block_offset mod cp_kv_cache_interleave_size t in
         Inr (if mask then to_int32 (block_number * int (bt_block_size t)) + int block_offset else - 1))
     else if bt_block_size t = 0 then Inl ZeroDivisionError
     else rbind (py_get flat (req_index * max_num_blocks_per_req t + position div bt_block_size t)) (\<lambda>block_number.
       Inr (to_int32 (block_number * int (bt_block_size t)) + int (position mod bt_block_size t))))"

definition compute_slot_mapping :: "nat list \<Rightarrow> nat list \<Rightarrow> block_table \<Rightarrow> block_table result" where
  "compute_slot_mapping req_indices positions t =
     (if length req_indices \<noteq> length positions then Inl ValueError
      else rbind (rmap (slot_of t) (zip req_indices positions)) (\<lambda>slots.
        if length (buf_cpu (slot_mapping t)) < length slots then Inl ValueError
        else Inr (t\<lparr>slot_mapping := (slot_mapping t)\<lparr>buf_cpu := slots @ drop (length slots) (buf_cpu (slot_mapping t))\<rparr>\<rparr>)))"

definition commit_block_table :: "nat \<Rightarrow> block_table \<Rightarrow> block_table" where
  "commit_block_table num_reqs t = t\<lparr>bt_rows := copy_to_gpu num_reqs (bt_rows t)\<rparr>"

definition commit_slot_mapping :: "nat \<Rightarrow> block_table \<Rightarrow> block_table" where
  "commit_slot_mapping num_tokens t = t\<lparr>slot_mapping := copy_to_gpu num_tokens (slot_mapping t)\<rparr>"

definition bt_clear :: "block_table \<Rightarrow> block_table" where
  "bt_clear t = t\<lparr>bt_rows := \<lparr>buf_cpu = map (map (\<lambda>_. 0)) (buf_cpu (bt_rows t)), buf_gpu = map (map (\<lambda>_. 0)) (buf_gpu (bt_rows t))\<rparr>\<rparr>"

definition get_device_tensor :: "nat \<Rightarrow> block_table \<Rightarrow> int list list" where
  "get_device_tensor num_reqs t = take num_reqs (buf_gpu (bt_rows t))"

definition get_cpu_tensor :: "block_table \<Rightarrow> int list list" where
  "get_cpu_tensor t = buf_cpu (bt_rows t)"

section \<open>The tables of all cache groups\<close>

definition multi_group_block_table_init ::
  "nat \<Rightarrow> nat \<Rightarrow> nat \<Rightarrow> nat list \<Rightarrow> nat list \<Rightarrow> nat \<Rightarrow> nat \<Rightarrow> cp_groups \<Rightarrow> block_table list result" where
  "multi_group_block_table_init max_num_reqs max_model_len max_num_batched_tokens block_sizes kernel_block_sizes num_spec interleave cp =
     (if length kernel_block_sizes \<noteq> length block_sizes then Inl ValueError
      else rmap (\<lambda>(block_size, kernel_block_size).
        let virtual = block_size * (cp_dcp_world_size cp * cp_pcp_world_size cp) in
        if virtual = 0 then Inl ZeroDivisionError
        else block_table_init block_size max_num_reqs (max (nat (cdiv (int max_model_len) (int virtual))) (1 + num_spec))
               max_num_batched_tokens kernel_block_size interleave cp)
      (zip block_sizes kernel_block_sizes))"

definition with_ids :: "(int list \<Rightarrow> block_table \<Rightarrow> block_table result) \<Rightarrow> int list list \<Rightarrow> block_table list \<Rightarrow> block_table list result" where
  "with_ids f block_ids tables =
     rmap (\<lambda>(i, t). rbind (py_get block_ids i) (\<lambda>ids. f ids t)) (zip [0..<length tables] tables)"

definition mg_append_row :: "int list list \<Rightarrow> nat \<Rightarrow> block_table list \<Rightarrow> block_table list result" where
  "mg_append_row block_ids row_idx = with_ids (\<lambda>ids. append_row ids row_idx) block_ids"

definition mg_add_row :: "int list list \<Rightarrow> nat \<Rightarrow> block_table list \<Rightarrow> block_table list result" where
  "mg_add_row block_ids row_idx = with_ids (\<lambda>ids. add_row ids row_idx) block_ids"

definition mg_move_row :: "nat \<Rightarrow> nat \<Rightarrow> block_table list \<Rightarrow> block_table list result" where
  "mg_move_row src tgt = rmap (move_row src tgt)"

definition mg_swap_row :: "nat \<Rightarrow> nat \<Rightarrow> block_table list \<Rightarrow> block_table list result" where
  "mg_swap_row src tgt = rmap (swap_row src tgt)"

definition mg_compute_slot_mapping :: "nat list \<Rightarrow> nat list \<Rightarrow> block_table list \<Rightarrow> block_table list result" where
  "mg_compute_slot_mapping req_indices positions = rmap (compute_slot_mapping req_indices positions)"

definition mg_commit_block_table :: "nat \<Rightarrow> block_table list \<Rightarrow> block_table list" where
  "mg_commit_block_table num_reqs = map (commit_block_table num_reqs)"

definition mg_commit_slot_mapping :: "nat \<Rightarrow> block_table list \<Rightarrow> block_table list" where
  "mg_commit_slot_mapping num_tokens = map (commit_slot_mapping num_tokens)"

definition mg_clear :: "block_table list \<Rightarrow> block_table list" where
  "mg_clear = map bt_clear"

definition mg_getitem :: "block_table list \<Rightarrow> nat \<Rightarrow> block_table result" where
  "mg_getitem = py_get"

section \<open>Rows as lists\<close>

definition table_wf :: "block_table \<Rightarrow> bool" where
  "table_wf t \<longleftrightarrow> length (num_blocks_per_row t) = length (buf_cpu (bt_rows t)) \<and>
     (\<forall>row \<in> set (buf_cpu (bt_rows t)). length row = max_num_blocks_per_req t) \<and>
     (\<forall>n \<in> set (num_blocks_per_row t). n \<le> max_num_blocks_per_req t)"

definition num_rows :: "block_table \<Rightarrow> nat" where
  "num_rows t = length (num_blocks_per_row t)"

definition row_blocks :: "block_table \<Rightarrow> nat \<Rightarrow> int list" where
  "row_blocks t r = take (num_blocks_per_row t ! r) (buf_cpu (bt_rows t) ! r)"

definition kernel_ids :: "block_table \<Rightarrow> int list \<Rightarrow> int list" where
  "kernel_ids t ids = (if use_hybrid_blocks t then map_to_kernel_blocks (blocks_per_kv_block t) ids else ids)"

definition table_abs :: "block_table \<Rightarrow> int list list" where
  "table_abs t = map (row_blocks t) [0..<num_rows t]"

definition int32_ids :: "int list \<Rightarrow> bool" where
  "int32_ids ids \<longleftrightarrow> (\<forall>b \<in> set ids. 0 \<le> b \<and> b < 2 ^ 31)"

definition same_layout :: "block_table \<Rightarrow> block_table \<Rightarrow> bool" where
  "same_layout t t' \<longleftrightarrow> num_rows t' = num_rows t \<and> bt_block_size t' = bt_block_size t \<and>
     blocks_per_kv_block t' = blocks_per_kv_block t \<and> use_hybrid_blocks t' = use_hybrid_blocks t \<and>
     max_num_blocks_per_req t' = max_num_blocks_per_req t"

lemma to_int32_id: "0 \<le> x \<Longrightarrow> x < 2 ^ 31 \<Longrightarrow> to_int32 x = x"
  by (simp add: to_int32_def int_word_sint)

lemma map_to_int32: "int32_ids ids \<Longrightarrow> map to_int32 ids = ids"
  by (simp add: int32_ids_def map_idI to_int32_id)

lemma length_map_to_kernel: "length (map_to_kernel_blocks k ids) = k * length ids"
  by (simp add: map_to_kernel_blocks_def length_concat comp_def sum_list_triv)

lemma assign_slice_fits:
  "start + length vals \<le> length xs \<Longrightarrow> assign_slice start vals xs = Inr (take start xs @ vals @ drop (start + length vals) xs)"
  by (simp add: assign_slice_def)

lemma table_wfD:
  assumes "table_wf t" "r < num_rows t"
  shows "r < length (buf_cpu (bt_rows t))" "length (buf_cpu (bt_rows t) ! r) = max_num_blocks_per_req t"
    "num_blocks_per_row t ! r \<le> max_num_blocks_per_req t"
  using assms by (auto simp: table_wf_def num_rows_def)

text \<open>A table with one row replaced.\<close>

definition set_row :: "nat \<Rightarrow> nat \<Rightarrow> int list \<Rightarrow> block_table \<Rightarrow> block_table" where
  "set_row r n row t = t\<lparr>num_blocks_per_row := (num_blocks_per_row t)[r := n],
     bt_rows := (bt_rows t)\<lparr>buf_cpu := (buf_cpu (bt_rows t))[r := row]\<rparr>\<rparr>"

lemma set_row_ok:
  assumes "table_wf t" "r < num_rows t" "length row = max_num_blocks_per_req t" "n \<le> max_num_blocks_per_req t"
  shows "table_wf (set_row r n row t)" "same_layout t (set_row r n row t)"
    "table_abs (set_row r n row t) = (table_abs t)[r := take n row]"
proof -
  show "table_wf (set_row r n row t)"
    using assms by (auto simp: table_wf_def set_row_def dest!: set_update_subset_insert [THEN subsetD])
  show "same_layout t (set_row r n row t)" by (simp add: same_layout_def set_row_def num_rows_def)
  show "table_abs (set_row r n row t) = (table_abs t)[r := take n row]"
    using assms table_wfD(1) [OF assms(1,2)]
    by (auto simp: table_abs_def set_row_def num_rows_def row_blocks_def nth_list_update intro!: nth_equalityI)
qed

lemma append_row_rows:
  assumes "table_wf t" "r < num_rows t" "int32_ids (kernel_ids t ids)"
    "num_blocks_per_row t ! r + length (kernel_ids t ids) \<le> max_num_blocks_per_req t"
  shows "\<exists>t'. append_row ids r t = Inr t' \<and> table_wf t' \<and> same_layout t t' \<and>
    table_abs t' = (table_abs t)[r := table_abs t ! r @ kernel_ids t ids]"
proof (cases "ids = []")
  case True
  then have "kernel_ids t ids = []" by (simp add: kernel_ids_def map_to_kernel_blocks_def)
  moreover have "same_layout t t" by (simp add: same_layout_def)
  ultimately show ?thesis using True assms(1) by (simp add: append_row_def)
next
  case False
  let ?n = "num_blocks_per_row t ! r" and ?row = "buf_cpu (bt_rows t) ! r" and ?k = "kernel_ids t ids"
  note r = table_wfD [OF assms(1,2)]
  let ?row' = "take ?n ?row @ ?k @ drop (?n + length ?k) ?row"
  have "append_row ids r t = Inr (set_row r (?n + length ?k) ?row' t)"
    using False assms r map_to_int32 [OF assms(3)]
    by (simp add: append_row_def kernel_ids_def [symmetric] Let_def py_get_def num_rows_def assign_slice_fits set_row_def)
  moreover have "length ?row' = max_num_blocks_per_req t" using r assms(4) by simp
  note ok = set_row_ok [OF assms(1,2) this assms(4)]
  have "take (?n + length ?k) ?row' = table_abs t ! r @ ?k"
    using assms r by (simp add: table_abs_def row_blocks_def)
  ultimately show ?thesis using ok by metis
qed

lemma add_row_rows:
  assumes "table_wf t" "r < num_rows t" "int32_ids (kernel_ids t ids)" "length (kernel_ids t ids) \<le> max_num_blocks_per_req t"
  shows "\<exists>t'. add_row ids r t = Inr t' \<and> table_wf t' \<and> same_layout t t' \<and> table_abs t' = (table_abs t)[r := kernel_ids t ids]"
proof -
  let ?t = "set_row r 0 (buf_cpu (bt_rows t) ! r) t"
  note r = table_wfD [OF assms(1,2)]
  have t: "t\<lparr>num_blocks_per_row := (num_blocks_per_row t)[r := 0]\<rparr> = ?t" by (simp add: set_row_def)
  have ok: "table_wf ?t" "same_layout t ?t" "table_abs ?t = (table_abs t)[r := []]"
    using set_row_ok [OF assms(1,2) r(2), of 0] by simp_all
  have k: "kernel_ids ?t ids = kernel_ids t ids" by (simp add: kernel_ids_def set_row_def)
  have "r < length (table_abs t)" using assms(2) by (simp add: table_abs_def)
  then have empty: "table_abs ?t ! r = []" using ok(3) by simp
  have "num_rows ?t = num_rows t" "num_blocks_per_row ?t ! r = 0" "max_num_blocks_per_req ?t = max_num_blocks_per_req t"
    using assms(2) by (simp_all add: set_row_def num_rows_def)
  with append_row_rows [OF ok(1), of r ids] assms k obtain t'
    where t': "append_row ids r ?t = Inr t'" "table_wf t'" "same_layout ?t t'" "table_abs t' = (table_abs ?t)[r := kernel_ids t ids]"
    by (auto simp: empty)
  have "add_row ids r t = Inr t'" using t'(1) assms(2) by (simp add: add_row_def t num_rows_def)
  moreover have "same_layout t t'" using ok(2) t'(3) by (simp add: same_layout_def)
  ultimately show ?thesis using t'(2,4) ok(3) by simp
qed

lemma move_row_rows:
  assumes "table_wf t" "src < num_rows t" "tgt < num_rows t"
  shows "\<exists>t'. move_row src tgt t = Inr t' \<and> table_wf t' \<and> same_layout t t' \<and> table_abs t' = (table_abs t)[tgt := table_abs t ! src]"
proof -
  let ?n = "num_blocks_per_row t ! src"
  let ?row = "take ?n (buf_cpu (bt_rows t) ! src) @ drop ?n (buf_cpu (bt_rows t) ! tgt)"
  note s = table_wfD [OF assms(1,2)] and d = table_wfD [OF assms(1,3)]
  have "move_row src tgt t = Inr (set_row tgt ?n ?row t)"
    using assms s d by (simp add: move_row_def py_get_def num_rows_def set_row_def)
  moreover have "length ?row = max_num_blocks_per_req t" using s d by simp
  note ok = set_row_ok [OF assms(1,3) this s(3)]
  have "take ?n ?row = table_abs t ! src" using assms s by (simp add: table_abs_def row_blocks_def)
  ultimately show ?thesis using ok by metis
qed

lemma swap_row_rows:
  assumes "table_wf t" "src < num_rows t" "tgt < num_rows t"
  shows "\<exists>t'. swap_row src tgt t = Inr t' \<and> table_wf t' \<and> same_layout t t' \<and> table_abs t' = swap_at src tgt (table_abs t)"
proof -
  note s = table_wfD [OF assms(1,2)] and d = table_wfD [OF assms(1,3)]
  let ?t = "t\<lparr>num_blocks_per_row := swap_at src tgt (num_blocks_per_row t),
                bt_rows := (bt_rows t)\<lparr>buf_cpu := swap_at src tgt (buf_cpu (bt_rows t))\<rparr>\<rparr>"
  have "set (swap_at src tgt xs) = set xs" if "src < length xs" "tgt < length xs" for xs :: "'b list"
    using that by (simp add: swap_at_def set_swap)
  then have "table_wf ?t" using assms s d by (auto simp: table_wf_def num_rows_def) (auto simp: swap_at_def)
  moreover have "table_abs ?t = swap_at src tgt (table_abs t)"
    using assms s d by (auto simp: table_abs_def row_blocks_def num_rows_def swap_at_def nth_list_update intro!: nth_equalityI)
  moreover have "same_layout t ?t" by (simp add: same_layout_def num_rows_def swap_at_def)
  moreover have "swap_row src tgt t = Inr ?t" using assms s d by (simp add: swap_row_def num_rows_def)
  ultimately show ?thesis by blast
qed

section \<open>Slots of tokens\<close>

lemma concat_nth_rect:
  assumes "\<forall>row \<in> set rows. length row = w" "r < length rows" "c < w"
  shows "concat rows ! (r * w + c) = rows ! r ! c \<and> r * w + c < length (concat rows)"
  using assms
proof (induction rows arbitrary: r)
  case (Cons row rows)
  show ?case
  proof (cases r)
    case 0
    with Cons.prems show ?thesis by (simp add: nth_append)
  next
    case (Suc r')
    with Cons.IH [of r'] Cons.prems show ?thesis by (simp add: nth_append)
  qed
qed simp

lemma table_entry:
  assumes "table_wf t" "r < num_rows t" "c < length (row_blocks t r)"
  shows "py_get (concat (buf_cpu (bt_rows t))) (r * max_num_blocks_per_req t + c) = Inr (row_blocks t r ! c)"
proof -
  note r = table_wfD [OF assms(1,2)]
  have c: "c < max_num_blocks_per_req t" "row_blocks t r ! c = buf_cpu (bt_rows t) ! r ! c"
    using assms(3) r by (simp_all add: row_blocks_def)
  have "\<forall>row \<in> set (buf_cpu (bt_rows t)). length row = max_num_blocks_per_req t" using assms(1) by (simp add: table_wf_def)
  from concat_nth_rect [OF this r(1) c(1)] c(2) show ?thesis by (simp add: py_get_def)
qed

text \<open>A block number whose slots are 32 bit numbers.\<close>

definition slots_fit :: "block_table \<Rightarrow> int \<Rightarrow> bool" where
  "slots_fit t b \<longleftrightarrow> 0 \<le> b \<and> b * int (bt_block_size t) < 2 ^ 31"

lemma slots_fit_product: "slots_fit t b \<Longrightarrow> to_int32 (b * int (bt_block_size t)) = b * int (bt_block_size t)"
  by (simp add: slots_fit_def to_int32_id)

lemma slot_plain:
  assumes "table_wf t" "r < num_rows t" "pcp_world_size t * dcp_world_size t \<le> 1" "0 < bt_block_size t"
    "p div bt_block_size t < length (row_blocks t r)" "slots_fit t (row_blocks t r ! (p div bt_block_size t))"
  shows "slot_of t (r, p) = Inr (row_blocks t r ! (p div bt_block_size t) * int (bt_block_size t) + int (p mod bt_block_size t))"
  using assms table_entry [OF assms(1,2,5)] slots_fit_product [OF assms(6)]
  by (simp add: slot_of_def Let_def not_less)

lemma map_to_kernel_nth:
  assumes "0 < k" "i < k * length ids"
  shows "map_to_kernel_blocks k ids ! i = ids ! (i div k) * int k + int (i mod k)"
proof (cases "k = 1")
  case False
  have "i div k < length ids" using assms by (simp add: div_less_iff_less_mult mult.commute)
  moreover have "i mod k < k" using assms(1) by simp
  moreover have "i div k * k + i mod k = i" by simp
  ultimately show ?thesis
    using False concat_nth_rect [of "map (\<lambda>b. map (\<lambda>j. b * int k + int j) [0..<k]) ids" k "i div k" "i mod k"]
    by (simp add: map_to_kernel_blocks_def)
qed (simp add: map_to_kernel_blocks_def)

text \<open>The blocks of the memory manager, \<open>blocks_per_kv_block\<close> kernel blocks each.\<close>

definition manager_block_size :: "block_table \<Rightarrow> nat" where
  "manager_block_size t = bt_block_size t * blocks_per_kv_block t"

definition hybrid_wf :: "block_table \<Rightarrow> bool" where
  "hybrid_wf t \<longleftrightarrow> 0 < bt_block_size t \<and> 0 < blocks_per_kv_block t \<and> (\<not> use_hybrid_blocks t \<longrightarrow> blocks_per_kv_block t = 1)"

lemma block_table_init_wf:
  assumes "block_table_init bs R M B kbs interleave cp = Inr t" "0 < bs"
  shows "table_wf t" "hybrid_wf t" "manager_block_size t = bs" "table_abs t = replicate R []"
proof -
  note init = assms(1) [unfolded block_table_init_def rbind_eq_Inr_iff]
  show "table_wf t" "hybrid_wf t" "manager_block_size t = bs"
    using init assms(2)
    by (auto simp: table_wf_def hybrid_wf_def manager_block_size_def make_buffer_def
        div_greater_zero_iff split: if_splits dest: dvd_imp_le [OF mod_0_imp_dvd])
  have "num_blocks_per_row t = replicate R 0" using init by (auto split: if_splits)
  then show "table_abs t = replicate R []"
    by (auto simp: table_abs_def num_rows_def row_blocks_def intro!: nth_equalityI)
qed

lemma kernel_ids_nth:
  assumes "hybrid_wf t" "p < manager_block_size t * length ids"
  shows "p div bt_block_size t < length (kernel_ids t ids)"
    "kernel_ids t ids ! (p div bt_block_size t) * int (bt_block_size t) + int (p mod bt_block_size t) =
     ids ! (p div manager_block_size t) * int (manager_block_size t) + int (p mod manager_block_size t)"
proof -
  let ?bs = "bt_block_size t" and ?k = "blocks_per_kv_block t"
  let ?i = "p div ?bs"
  have pos: "0 < ?bs" "0 < ?k" using assms(1) by (simp_all add: hybrid_wf_def)
  have ids: "kernel_ids t ids = map_to_kernel_blocks ?k ids"
    using assms(1) by (auto simp: kernel_ids_def hybrid_wf_def map_to_kernel_blocks_def)
  have i: "?i < ?k * length ids" using assms(2) pos by (simp add: div_less_iff_less_mult manager_block_size_def ac_simps)
  then show "?i < length (kernel_ids t ids)" by (simp add: ids length_map_to_kernel)
  have "p mod (?bs * ?k) = ?bs * (?i mod ?k) + p mod ?bs" by (rule mod_mult2_eq)
  moreover have "?i div ?k = p div (?bs * ?k)" by (simp add: div_mult2_eq)
  ultimately show "kernel_ids t ids ! ?i * int ?bs + int (p mod ?bs) =
     ids ! (p div manager_block_size t) * int (manager_block_size t) + int (p mod manager_block_size t)"
    using map_to_kernel_nth [OF pos(2) i] by (simp add: ids manager_block_size_def algebra_simps)
qed

section \<open>Context parallel slots\<close>

text \<open>
  With \<open>w\<close> ranks and chunks of \<open>c\<close> tokens, a position within a virtual block belongs to the rank
  \<open>v div c mod w\<close> and has the offset \<open>cp_offset\<close> there.
\<close>

definition cp_offset :: "nat \<Rightarrow> nat \<Rightarrow> nat \<Rightarrow> nat" where
  "cp_offset w c v = v div (w * c) * c + v mod c"

lemma cp_offset_parts:
  assumes "0 < c"
  shows "cp_offset w c v div c = v div (w * c)" "cp_offset w c v mod c = v mod c"
  using assms by (simp_all add: cp_offset_def)

lemma cp_position:
  fixes v w c :: nat
  assumes "0 < c"
  shows "v = v div (w * c) * (w * c) + v div c mod w * c + v mod c"
proof -
  have "v mod (c * w) = c * (v div c mod w) + v mod c" by (rule mod_mult2_eq)
  moreover have "v div (c * w) * (c * w) + v mod (c * w) = v" by (rule div_mult_mod_eq)
  ultimately show ?thesis by (simp add: ac_simps)
qed

lemma cp_offset_inj:
  assumes "0 < c" "cp_offset w c v = cp_offset w c v'" "v div c mod w = v' div c mod w"
  shows "v = v'"
  using cp_position [OF assms(1), of v w] cp_position [OF assms(1), of v' w] cp_offset_parts [OF assms(1)] assms by metis

lemma cp_offset_less:
  assumes "0 < c" "c dvd bs" "0 < w" "v < bs * w"
  shows "cp_offset w c v < bs"
proof -
  obtain m where m: "bs = c * m" using assms(2) by blast
  have "v div (w * c) < m" using assms m by (simp add: div_less_iff_less_mult ac_simps)
  then have "v div (w * c) * c + v mod c < (v div (w * c) + 1) * c" "(v div (w * c) + 1) * c \<le> m * c"
    using assms(1) mod_less_divisor [OF assms(1), of v] by (simp_all add: mult_right_mono Suc_le_eq mult_le_mono1 del: mult_Suc) simp
  then show ?thesis unfolding cp_offset_def m by (simp add: mult.commute)
qed

definition virtual_block :: "block_table \<Rightarrow> nat" where
  "virtual_block t = bt_block_size t * (pcp_world_size t * dcp_world_size t)"

definition block_at :: "block_table \<Rightarrow> nat \<Rightarrow> nat \<Rightarrow> int" where
  "block_at t r p = row_blocks t r ! (p div virtual_block t)"

definition position_ok :: "block_table \<Rightarrow> nat \<Rightarrow> nat \<Rightarrow> bool" where
  "position_ok t r p \<longleftrightarrow> r < num_rows t \<and> p div virtual_block t < length (row_blocks t r) \<and> slots_fit t (block_at t r p)"

text \<open>The table as the rank \<open>q\<close> of all context parallel ranks has it.\<close>

definition at_rank :: "nat \<Rightarrow> block_table \<Rightarrow> block_table" where
  "at_rank q t = t\<lparr>pcp_rank := q div dcp_world_size t, dcp_rank := q mod dcp_world_size t\<rparr>"

lemma virtual_block_pos: "1 < pcp_world_size t * dcp_world_size t \<Longrightarrow> 0 < bt_block_size t \<Longrightarrow> 0 < virtual_block t"
  unfolding virtual_block_def by (rule mult_pos_pos) linarith+

lemma slot_cp:
  assumes "table_wf t" "position_ok t r p" "1 < pcp_world_size t * dcp_world_size t" "0 < bt_block_size t"
    "0 < cp_kv_cache_interleave_size t"
  defines "w \<equiv> pcp_world_size t * dcp_world_size t" and "c \<equiv> cp_kv_cache_interleave_size t"
  shows "slot_of (at_rank q t) (r, p) =
    Inr (if p mod virtual_block t div c mod w = q
         then block_at t r p * int (bt_block_size t) + int (cp_offset w c (p mod virtual_block t)) else - 1)"
proof -
  have pos: "r < num_rows t" "p div virtual_block t < length (row_blocks t r)" "slots_fit t (block_at t r p)"
    using assms(2) by (simp_all add: position_ok_def)
  have "0 < virtual_block t" using assms(3,4) by (rule virtual_block_pos)
  with table_entry [OF assms(1) pos(1,2)] slots_fit_product [OF pos(3)] assms(3,5) show ?thesis
    by (simp add: slot_of_def at_rank_def Let_def cp_offset_def block_at_def virtual_block_def w_def c_def)
qed

section \<open>Properties\<close>

text \<open>
  The array of a block table is a faithful image of one list of blocks per request: within the
  bounds of the array no operation raises, appending extends the row's list by the kernel blocks of
  the given blocks, adding replaces it, moving copies it and swapping exchanges two lists, and no
  other row changes.
\<close>

lemma table_refines_rows:
  assumes "table_wf t" "r < num_rows t" "r' < num_rows t" "int32_ids (kernel_ids t ids)"
    "num_blocks_per_row t ! r + length (kernel_ids t ids) \<le> max_num_blocks_per_req t"
  shows "(\<exists>t'. append_row ids r t = Inr t' \<and> table_wf t' \<and> table_abs t' = (table_abs t)[r := table_abs t ! r @ kernel_ids t ids]) \<and>
    (\<exists>t'. add_row ids r t = Inr t' \<and> table_wf t' \<and> table_abs t' = (table_abs t)[r := kernel_ids t ids]) \<and>
    (\<exists>t'. move_row r r' t = Inr t' \<and> table_wf t' \<and> table_abs t' = (table_abs t)[r' := table_abs t ! r]) \<and>
    (\<exists>t'. swap_row r r' t = Inr t' \<and> table_wf t' \<and> table_abs t' = swap_at r r' (table_abs t))"
  using append_row_rows [OF assms(1,2,4,5)] add_row_rows [OF assms(1,2,4)] move_row_rows [OF assms(1-3)]
    swap_row_rows [OF assms(1-3)] assms(5) by (meson add_leE)

text \<open>Two kernel blocks per block, three rows of up to four blocks.\<close>

definition demo_cp :: cp_groups where
  "demo_cp = \<lparr>cp_pcp_world_size = 1, cp_pcp_rank = 0, cp_dcp_world_size = 1, cp_dcp_rank = 0\<rparr>"

lemma demo_table:
  obtains t where "block_table_init 4 3 2 8 2 1 demo_cp = Inr t" "table_wf t" "hybrid_wf t" "manager_block_size t = 4"
    "table_abs t = [[], [], []]" "num_rows t = 3" "max_num_blocks_per_req t = 4" "num_blocks_per_row t = [0, 0, 0]"
    "use_hybrid_blocks t" "blocks_per_kv_block t = 2" "bt_block_size t = 2" "pcp_world_size t * dcp_world_size t = 1"
proof -
  obtain t where t: "block_table_init 4 3 2 8 2 1 demo_cp = Inr t" by (simp add: block_table_init_def)
  moreover have "num_rows t = 3" "max_num_blocks_per_req t = 4" "num_blocks_per_row t = [0, 0, 0]"
    "use_hybrid_blocks t" "blocks_per_kv_block t = 2" "bt_block_size t = 2" "pcp_world_size t * dcp_world_size t = 1"
    using t by (auto simp: block_table_init_def num_rows_def demo_cp_def numeral_3_eq_3)
  ultimately show thesis using that block_table_init_wf [OF t] by (auto simp: numeral_3_eq_3)
qed

text \<open>
  Kernel blocks are transparent: when a row holds the kernel blocks of the memory manager's
  blocks \<open>ids\<close>, the slot of a position is the slot in the manager's own block size, block
  number times block size plus offset, as long as the slots of the block are 32 bit numbers.
\<close>

lemma slots_transparent:
  assumes "table_wf t" "hybrid_wf t" "r < num_rows t" "pcp_world_size t * dcp_world_size t \<le> 1"
    "row_blocks t r = kernel_ids t ids" "p < manager_block_size t * length ids"
    "slots_fit t (kernel_ids t ids ! (p div bt_block_size t))"
  shows "slot_of t (r, p) = Inr (ids ! (p div manager_block_size t) * int (manager_block_size t) + int (p mod manager_block_size t))"
proof -
  note k = kernel_ids_nth [OF assms(2,6)]
  have "0 < bt_block_size t" using assms(2) by (simp add: hybrid_wf_def)
  from slot_plain [OF assms(1,3,4) this, of p] k assms(5,7) show ?thesis by simp
qed

text \<open>
  With context parallelism and chunks that divide the block size, every token of a request is
  stored by exactly one rank, and on a rank two tokens share a slot only if they are the same token
  of the same block.
\<close>

lemma cp_slots_unique:
  assumes "table_wf t" "position_ok t r p" "position_ok t r' p'" "1 < pcp_world_size t * dcp_world_size t"
    "0 < bt_block_size t" "0 < cp_kv_cache_interleave_size t" "cp_kv_cache_interleave_size t dvd bt_block_size t"
  shows "(\<exists>!q. q < pcp_world_size t * dcp_world_size t \<and> slot_of (at_rank q t) (r, p) \<noteq> Inr (- 1)) \<and>
    (\<forall>q s. slot_of (at_rank q t) (r, p) = Inr s \<and> slot_of (at_rank q t) (r', p') = Inr s \<and> s \<noteq> - 1 \<longrightarrow>
       block_at t r p = block_at t r' p' \<and> p mod virtual_block t = p' mod virtual_block t)"
proof -
  let ?w = "pcp_world_size t * dcp_world_size t" and ?c = "cp_kv_cache_interleave_size t" and ?bs = "bt_block_size t"
  let ?v = "p mod virtual_block t" and ?v' = "p' mod virtual_block t"
  note slot = slot_cp [OF assms(1,2,4-6)] and slot' = slot_cp [OF assms(1,3,4-6)]
  have b: "0 \<le> block_at t r p" "0 \<le> block_at t r' p'" using assms(2,3) by (auto simp: position_ok_def slots_fit_def)
  have v: "?v < ?bs * ?w" "?v' < ?bs * ?w"
    using mod_less_divisor [OF virtual_block_pos [OF assms(4,5)]] by (simp_all only: virtual_block_def)
  have off: "cp_offset ?w ?c ?v < ?bs" "cp_offset ?w ?c ?v' < ?bs"
  proof -
    have "0 < ?w" using assms(4) by linarith
    note less = cp_offset_less [OF assms(6,7) this]
    show "cp_offset ?w ?c ?v < ?bs" "cp_offset ?w ?c ?v' < ?bs" using less [OF v(1)] less [OF v(2)] by blast+
  qed
  have nonneg: "block_at t r p * int ?bs + int (cp_offset ?w ?c ?v) \<noteq> - 1"
    using b(1) by (smt (verit) mult_nonneg_nonneg of_nat_0_le_iff)
  have rank: "?v div ?c mod ?w < ?w" using assms(4) by (intro mod_less_divisor) linarith
  have "\<exists>!q. q < ?w \<and> slot_of (at_rank q t) (r, p) \<noteq> Inr (- 1)"
    using rank nonneg by (intro ex1I [of _ "?v div ?c mod ?w"]) (auto simp: slot split: if_splits)
  moreover have "block_at t r p = block_at t r' p' \<and> ?v = ?v'"
    if "slot_of (at_rank q t) (r, p) = Inr s" "slot_of (at_rank q t) (r', p') = Inr s" "s \<noteq> - 1" for q s
  proof -
    from that have q: "?v div ?c mod ?w = q" "?v' div ?c mod ?w = q"
      and s: "block_at t r p * int ?bs + int (cp_offset ?w ?c ?v) = block_at t r' p' * int ?bs + int (cp_offset ?w ?c ?v')"
      by (auto simp: slot slot' split: if_splits)
    have "(block_at t r p * int ?bs + int (cp_offset ?w ?c ?v)) div int ?bs = block_at t r p"
      "(block_at t r' p' * int ?bs + int (cp_offset ?w ?c ?v')) div int ?bs = block_at t r' p'"
      using off assms(5) by (simp_all add: div_pos_pos_trivial)
    with s have same: "block_at t r p = block_at t r' p'" by simp
    with s have "cp_offset ?w ?c ?v = cp_offset ?w ?c ?v'" by simp
    from cp_offset_inj [OF assms(6) this] q same show ?thesis by simp
  qed
  ultimately show ?thesis by blast
qed

text \<open>Two ranks that take turns every two tokens, blocks of four tokens.\<close>

definition demo_cp_table :: block_table where
  "demo_cp_table = \<lparr>bt_block_size = 4, blocks_per_kv_block = 1, use_hybrid_blocks = False, max_num_blocks_per_req = 2,
     bt_rows = \<lparr>buf_cpu = [[7, 9], [3, 0]], buf_gpu = [[0, 0], [0, 0]]\<rparr>, num_blocks_per_row = [2, 1],
     slot_mapping = make_buffer 8 0, pcp_world_size = 1, pcp_rank = 0, dcp_world_size = 2, dcp_rank = 0,
     cp_kv_cache_interleave_size = 2\<rparr>"

end
