(* ===== verification/Input_Batch.thy ===== *)
theory Input_Batch
  imports Block_Table
begin

text \<open>
  The persistent batch of a worker: \<^verbatim>\<open>vllm/v1/worker/gpu_input_batch.py\<close> with the
  \<^verbatim>\<open>BatchUpdateBuilder\<close> of \<^verbatim>\<open>vllm/v1/sample/logits_processor/state.py\<close>.

  The state of a request is spread over columns, indexed by the position of the request in the
  batch. Removing a request leaves a hole, adding fills the lowest hole, and \<^verbatim>\<open>condense\<close>
  moves the last requests into the remaining holes. The columns that live on the device and the
  sampling metadata made from the batch are left out; floating point values are reals, random
  generators, partial log probabilities and prompt embeddings are opaque values.
\<close>

section \<open>Requests\<close>

record sample_params =
  sp_greedy :: bool
  sp_temperature :: real
  sp_top_p :: real
  sp_top_k :: int
  sp_frequency_penalty :: real
  sp_presence_penalty :: real
  sp_repetition_penalty :: real
  sp_min_p :: real
  sp_logprobs :: "int option"
  sp_allowed_token_ids :: "nat list"
  sp_bad_words_token_ids :: "int list list"

record cached_request_state =
  cr_req_id :: string
  cr_prompt_token_ids :: "int list option"
  cr_prompt_embeds :: "bytes list option"
  cr_sampling_params :: "sample_params option"
  cr_pooling_requires_token_ids :: "bool option"
  cr_generator :: "nat option"
  cr_block_ids :: "int list list"
  cr_num_computed_tokens :: nat
  cr_output_token_ids :: "int list"
  cr_lora :: "(nat \<times> string) option"

definition length_from_prompt :: "'a list option \<Rightarrow> 'b list option \<Rightarrow> nat result" where
  "length_from_prompt prompt_token_ids prompt_embeds =
     (case prompt_token_ids of
        None \<Rightarrow> (case prompt_embeds of None \<Rightarrow> Inl ValueError | Some e \<Rightarrow> Inr (length e))
      | Some ts \<Rightarrow>
          (case prompt_embeds of
             Some e \<Rightarrow> if length e \<noteq> length ts then Inl ValueError else Inr (length ts)
           | None \<Rightarrow> Inr (length ts)))"

definition cr_num_tokens :: "cached_request_state \<Rightarrow> nat result" where
  "cr_num_tokens r = rbind (length_from_prompt (cr_prompt_token_ids r) (cr_prompt_embeds r)) (\<lambda>n.
     Inr (n + length (cr_output_token_ids r)))"

definition get_token_id :: "cached_request_state \<Rightarrow> nat \<Rightarrow> int result" where
  "get_token_id r idx =
     rbind (length_from_prompt (cr_prompt_token_ids r) (cr_prompt_embeds r)) (\<lambda>n.
       if idx < n then
         (case cr_prompt_token_ids r of None \<Rightarrow> Inl ValueError | Some ts \<Rightarrow> py_get ts idx)
       else if idx - n < length (cr_output_token_ids r) then Inr (cr_output_token_ids r ! (idx - n))
       else Inr (- 1))"

definition is_spec_decode_unsupported :: "sample_params \<Rightarrow> bool" where
  "is_spec_decode_unsupported sp \<longleftrightarrow>
     sp_frequency_penalty sp \<noteq> 0 \<or> sp_presence_penalty sp \<noteq> 0 \<or> sp_repetition_penalty sp \<noteq> 1 \<or>
     sp_min_p sp > 1 / 100000 \<or> sp_logprobs sp \<noteq> None"

section \<open>The batch update builder\<close>

record batch_update_builder =
  bu_removed :: "nat list"
  bu_sorted :: bool
  bu_added :: "(nat \<times> sample_params \<times> int list option \<times> int list) list"
  bu_moved :: "(nat \<times> nat \<times> bool) list"
  bu_changed :: bool

definition bu_init :: batch_update_builder where
  "bu_init = \<lparr>bu_removed = [], bu_sorted = False, bu_added = [], bu_moved = [], bu_changed = False\<rparr>"

definition ensure_removed_sorted :: "batch_update_builder \<Rightarrow> batch_update_builder" where
  "ensure_removed_sorted u =
     (if bu_sorted u then u else u\<lparr>bu_removed := rev (sort (bu_removed u)), bu_sorted := True\<rparr>)"

definition removed_append :: "nat \<Rightarrow> batch_update_builder \<Rightarrow> batch_update_builder result" where
  "removed_append i u =
     (if bu_sorted u then Inl RuntimeError else Inr (u\<lparr>bu_removed := bu_removed u @ [i], bu_changed := True\<rparr>))"

definition peek_removed :: "batch_update_builder \<Rightarrow> nat option \<times> batch_update_builder" where
  "peek_removed u =
     (if bu_removed u = [] then (None, u)
      else let u = ensure_removed_sorted u in (Some (last (bu_removed u)), u))"

definition pop_removed :: "batch_update_builder \<Rightarrow> nat option \<times> batch_update_builder" where
  "pop_removed u =
     (if bu_removed u = [] then (None, u)
      else let u = ensure_removed_sorted u in
        (Some (last (bu_removed u)), u\<lparr>bu_removed := butlast (bu_removed u)\<rparr>))"

definition bu_reset :: "batch_update_builder \<Rightarrow> bool \<times> batch_update_builder" where
  "bu_reset u = (bu_changed u, bu_init)"

text \<open>The update handed to the logits processors: batch size, removed, moved and added requests.\<close>

record batch_update =
  up_batch_size :: nat
  up_removed :: "nat list"
  up_moved :: "(nat \<times> nat \<times> bool) list"
  up_added :: "(nat \<times> sample_params \<times> int list option \<times> int list) list"

definition get_and_reset :: "nat \<Rightarrow> batch_update_builder \<Rightarrow> batch_update option \<times> batch_update_builder" where
  "get_and_reset batch_size u =
     (let u = u\<lparr>bu_sorted := False, bu_changed := False\<rparr> in
      if bu_removed u = [] \<and> bu_moved u = [] \<and> bu_added u = [] then (None, u)
      else (Some \<lparr>up_batch_size = batch_size, up_removed = bu_removed u, up_moved = bu_moved u, up_added = bu_added u\<rparr>,
            u\<lparr>bu_removed := [], bu_moved := [], bu_added := []\<rparr>))"

section \<open>The batch\<close>

record input_batch =
  ib_is_pooling_model :: bool
  ib_is_spec_decode :: bool
  ib_max_num_reqs :: nat
  ib_vocab_size :: nat
  ib_req_ids :: "string option list"
  ib_req_id_to_index :: "(string, nat) odict"
  ib_token_ids :: "int list list"
  ib_is_token_ids :: "bool list list"
  ib_req_prompt_embeds :: "(nat, bytes list) odict"
  ib_num_tokens :: "nat list"
  ib_num_tokens_no_spec :: "nat list"
  ib_num_prompt_tokens :: "nat list"
  ib_num_computed_tokens :: "nat list"
  ib_block_table :: "block_table list"
  ib_temperature :: "real list"
  ib_greedy_reqs :: "string set"
  ib_random_reqs :: "string set"
  ib_top_p :: "real list"
  ib_top_p_reqs :: "string set"
  ib_top_k :: "int list"
  ib_top_k_reqs :: "string set"
  ib_unsupported_reqs :: "string set"
  ib_frequency :: "real list"
  ib_frequency_reqs :: "string set"
  ib_presence :: "real list"
  ib_presence_reqs :: "string set"
  ib_repetition :: "real list"
  ib_repetition_reqs :: "string set"
  ib_num_accepted :: "nat list"
  ib_lora_mapping :: "nat list"
  ib_lora_id_to_request_ids :: "(nat, string set) odict"
  ib_lora_id_to_lora_request :: "(nat, string) odict"
  ib_generators :: "(nat, nat) odict"
  ib_num_logprobs :: "(string, int) odict"
  ib_in_progress_logprobs :: "(string, nat) odict"
  ib_builder :: batch_update_builder
  ib_has_allowed :: "string set"
  ib_allowed_mask :: "bool list list option"
  ib_bad_words :: "(nat, int list list) odict"
  ib_needs_token_ids :: "bool list"
  ib_output_token_ids :: "int list option list"
  ib_spec_token_ids :: "int list list"
  ib_pooling_params :: "(string, bool) odict"
  ib_prev_index :: "(string, nat) odict option"

definition ib_num_reqs :: "input_batch \<Rightarrow> nat" where
  "ib_num_reqs b = length (ib_req_id_to_index b)"

definition input_batch_init :: "bool \<Rightarrow> bool \<Rightarrow> nat \<Rightarrow> nat \<Rightarrow> nat \<Rightarrow> block_table list \<Rightarrow> input_batch" where
  "input_batch_init pooling spec n max_model_len vocab tables =
     \<lparr>ib_is_pooling_model = pooling, ib_is_spec_decode = spec, ib_max_num_reqs = n, ib_vocab_size = vocab,
      ib_req_ids = [], ib_req_id_to_index = [],
      ib_token_ids = replicate n (replicate max_model_len 0), ib_is_token_ids = replicate n (replicate max_model_len False),
      ib_req_prompt_embeds = [], ib_num_tokens = replicate n 0, ib_num_tokens_no_spec = replicate n 0,
      ib_num_prompt_tokens = replicate n 0, ib_num_computed_tokens = replicate n 0, ib_block_table = tables,
      ib_temperature = replicate n 0, ib_greedy_reqs = {}, ib_random_reqs = {}, ib_top_p = replicate n 0, ib_top_p_reqs = {},
      ib_top_k = replicate n 0, ib_top_k_reqs = {}, ib_unsupported_reqs = {}, ib_frequency = replicate n 0, ib_frequency_reqs = {},
      ib_presence = replicate n 0, ib_presence_reqs = {}, ib_repetition = replicate n 0, ib_repetition_reqs = {},
      ib_num_accepted = replicate n 1, ib_lora_mapping = replicate n 0, ib_lora_id_to_request_ids = [],
      ib_lora_id_to_lora_request = [], ib_generators = [], ib_num_logprobs = [], ib_in_progress_logprobs = [],
      ib_builder = bu_init, ib_has_allowed = {}, ib_allowed_mask = None, ib_bad_words = [], ib_needs_token_ids = replicate n False,
      ib_output_token_ids = [], ib_spec_token_ids = replicate n [], ib_pooling_params = [], ib_prev_index = None\<rparr>"

section \<open>Adding a request\<close>

definition register_add_request :: "cached_request_state \<Rightarrow> input_batch \<Rightarrow> (nat \<times> input_batch) result" where
  "register_add_request r b =
     (let (popped, u) = pop_removed (ib_builder b);
          new_req_index = (case popped of None \<Rightarrow> ib_num_reqs b | Some i \<Rightarrow> i) in
      rbind (rassert (new_req_index < ib_max_num_reqs b)) (\<lambda>_.
        let u = u\<lparr>bu_changed := True\<rparr>;
            u = (case cr_sampling_params r of
                   None \<Rightarrow> u
                 | Some sp \<Rightarrow> u\<lparr>bu_added := bu_added u @ [(new_req_index, sp, cr_prompt_token_ids r, cr_output_token_ids r)]\<rparr>) in
        Inr (new_req_index, b\<lparr>ib_builder := u\<rparr>)))"

definition place_request :: "cached_request_state \<Rightarrow> nat \<Rightarrow> input_batch \<Rightarrow> input_batch result" where
  "place_request r i b =
     rbind (if i = length (ib_req_ids b) then
              Inr (b\<lparr>ib_req_ids := ib_req_ids b @ [Some (cr_req_id r)],
                     ib_output_token_ids := ib_output_token_ids b @ [Some (cr_output_token_ids r)],
                     ib_spec_token_ids := ib_spec_token_ids b @ [[]]\<rparr>)
            else if i < length (ib_req_ids b) \<and> i < length (ib_output_token_ids b) \<and> i < length (ib_spec_token_ids b) then
              Inr (b\<lparr>ib_req_ids := (ib_req_ids b)[i := Some (cr_req_id r)],
                     ib_output_token_ids := (ib_output_token_ids b)[i := Some (cr_output_token_ids r)],
                     ib_spec_token_ids := (ib_spec_token_ids b)[i := []]\<rparr>)
            else Inl IndexError) (\<lambda>b.
       Inr (b\<lparr>ib_req_id_to_index := AList.update (cr_req_id r) i (ib_req_id_to_index b)\<rparr>))"

definition fill_slice :: "nat \<Rightarrow> nat \<Rightarrow> 'a \<Rightarrow> 'a list \<Rightarrow> 'a list" where
  "fill_slice start stop v xs = take start xs @ replicate (min stop (length xs) - start) v @ drop (max start stop) xs"

definition set_tokens :: "cached_request_state \<Rightarrow> nat \<Rightarrow> nat \<Rightarrow> int list \<Rightarrow> bool list \<Rightarrow> input_batch \<Rightarrow> input_batch" where
  "set_tokens r i n row flags b =
     (let end_idx = n + length (cr_output_token_ids r) in
      b\<lparr>ib_num_prompt_tokens := (ib_num_prompt_tokens b)[i := n],
        ib_req_prompt_embeds := (case cr_prompt_embeds r of
            None \<Rightarrow> ib_req_prompt_embeds b | Some e \<Rightarrow> AList.update i e (ib_req_prompt_embeds b)),
        ib_token_ids := (ib_token_ids b)[i := row],
        ib_is_token_ids := (ib_is_token_ids b)[i := fill_slice n end_idx True flags],
        ib_num_tokens := (ib_num_tokens b)[i := end_idx],
        ib_num_tokens_no_spec := (ib_num_tokens_no_spec b)[i := end_idx],
        ib_num_computed_tokens := (ib_num_computed_tokens b)[i := cr_num_computed_tokens r]\<rparr>)"

definition copy_tokens :: "cached_request_state \<Rightarrow> nat \<Rightarrow> input_batch \<Rightarrow> input_batch result" where
  "copy_tokens r i b =
     rbind (length_from_prompt (cr_prompt_token_ids r) (cr_prompt_embeds r)) (\<lambda>n.
     rbind (case cr_prompt_token_ids r of
              Some ts \<Rightarrow> rbind (assign_slice 0 ts (ib_token_ids b ! i)) (\<lambda>row. Inr (row, fill_slice 0 n True (ib_is_token_ids b ! i)))
            | None \<Rightarrow> Inr (ib_token_ids b ! i, fill_slice 0 n False (ib_is_token_ids b ! i))) (\<lambda>(row, flags).
     rbind (assign_slice n (cr_output_token_ids r) row) (\<lambda>row. Inr (set_tokens r i n row flags b))))"

definition add_if :: "bool \<Rightarrow> 'a \<Rightarrow> 'a set \<Rightarrow> 'a set" where
  "add_if c x X = (if c then insert x X else X)"

definition mask_row :: "nat \<Rightarrow> nat list \<Rightarrow> bool list" where
  "mask_row vocab allowed = map (\<lambda>t. t \<notin> set allowed) [0..<vocab]"

definition add_allowed_mask :: "sample_params \<Rightarrow> string \<Rightarrow> nat \<Rightarrow> input_batch \<Rightarrow> input_batch result" where
  "add_allowed_mask sp req_id i b =
     (if sp_allowed_token_ids sp = [] then Inr b
      else if list_ex (\<lambda>t. ib_vocab_size b \<le> t) (sp_allowed_token_ids sp) then Inl IndexError
      else
        let mask = (case ib_allowed_mask b of
                      None \<Rightarrow> replicate (ib_max_num_reqs b) (replicate (ib_vocab_size b) False) | Some m \<Rightarrow> m) in
        Inr (b\<lparr>ib_has_allowed := insert req_id (ib_has_allowed b),
               ib_allowed_mask := Some (mask[i := mask_row (ib_vocab_size b) (sp_allowed_token_ids sp)])\<rparr>))"

definition set_sampling :: "cached_request_state \<Rightarrow> sample_params \<Rightarrow> nat \<Rightarrow> input_batch \<Rightarrow> input_batch" where
  "set_sampling r sp i b =
     (let req_id = cr_req_id r;
          limited = (0 < sp_top_k sp \<and> sp_top_k sp < int (ib_vocab_size b)) in
      b\<lparr>ib_unsupported_reqs := add_if (ib_is_spec_decode b \<and> is_spec_decode_unsupported sp) req_id (ib_unsupported_reqs b),
        ib_temperature := (ib_temperature b)[i := (if sp_greedy sp then 0 else sp_temperature sp)],
        ib_greedy_reqs := add_if (sp_greedy sp) req_id (ib_greedy_reqs b),
        ib_random_reqs := add_if (\<not> sp_greedy sp) req_id (ib_random_reqs b),
        ib_top_p := (ib_top_p b)[i := sp_top_p sp],
        ib_top_p_reqs := add_if (sp_top_p sp < 1) req_id (ib_top_p_reqs b),
        ib_top_k := (ib_top_k b)[i := (if limited then sp_top_k sp else int (ib_vocab_size b))],
        ib_top_k_reqs := add_if limited req_id (ib_top_k_reqs b),
        ib_frequency := (ib_frequency b)[i := sp_frequency_penalty sp],
        ib_frequency_reqs := add_if (sp_frequency_penalty sp \<noteq> 0) req_id (ib_frequency_reqs b),
        ib_presence := (ib_presence b)[i := sp_presence_penalty sp],
        ib_presence_reqs := add_if (sp_presence_penalty sp \<noteq> 0) req_id (ib_presence_reqs b),
        ib_repetition := (ib_repetition b)[i := sp_repetition_penalty sp],
        ib_repetition_reqs := add_if (sp_repetition_penalty sp \<noteq> 1) req_id (ib_repetition_reqs b),
        ib_generators := (case cr_generator r of None \<Rightarrow> ib_generators b | Some g \<Rightarrow> AList.update i g (ib_generators b)),
        ib_num_logprobs := (case sp_logprobs sp of
            None \<Rightarrow> ib_num_logprobs b
          | Some n \<Rightarrow> AList.update req_id (if n = - 1 then int (ib_vocab_size b) else n) (ib_num_logprobs b))\<rparr>)"

definition set_bad_words :: "sample_params \<Rightarrow> nat \<Rightarrow> input_batch \<Rightarrow> input_batch" where
  "set_bad_words sp i b =
     (if sp_bad_words_token_ids sp = [] then b
      else b\<lparr>ib_bad_words := AList.update i (sp_bad_words_token_ids sp) (ib_bad_words b)\<rparr>)"

definition add_sampling_params :: "cached_request_state \<Rightarrow> sample_params \<Rightarrow> nat \<Rightarrow> input_batch \<Rightarrow> input_batch result" where
  "add_sampling_params r sp i b =
     rbind (add_allowed_mask sp (cr_req_id r) i (set_sampling r sp i b)) (\<lambda>b. Inr (set_bad_words sp i b))"

definition add_pooling_params :: "cached_request_state \<Rightarrow> bool \<Rightarrow> nat \<Rightarrow> input_batch \<Rightarrow> input_batch" where
  "add_pooling_params r requires_token_ids i b =
     b\<lparr>ib_pooling_params := AList.update (cr_req_id r) requires_token_ids (ib_pooling_params b),
       ib_needs_token_ids := (ib_needs_token_ids b)[i := requires_token_ids]\<rparr>"

definition add_lora :: "cached_request_state \<Rightarrow> nat \<Rightarrow> input_batch \<Rightarrow> input_batch" where
  "add_lora r i b =
     (case cr_lora r of
        None \<Rightarrow> b\<lparr>ib_lora_mapping := (ib_lora_mapping b)[i := 0]\<rparr>
      | Some (lora_id, lora) \<Rightarrow>
          let ids = (case map_of (ib_lora_id_to_request_ids b) lora_id of None \<Rightarrow> {} | Some X \<Rightarrow> X) in
          b\<lparr>ib_lora_mapping := (ib_lora_mapping b)[i := lora_id],
            ib_lora_id_to_request_ids := AList.update lora_id (insert (cr_req_id r) ids) (ib_lora_id_to_request_ids b),
            ib_lora_id_to_lora_request := AList.update lora_id lora (ib_lora_id_to_lora_request b)\<rparr>)"

definition ib_add_request :: "cached_request_state \<Rightarrow> input_batch \<Rightarrow> (nat \<times> input_batch) result" where
  "ib_add_request r b =
     rbind (register_add_request r b) (\<lambda>(i, b).
     rbind (place_request r i b) (\<lambda>b.
     rbind (copy_tokens r i b) (\<lambda>b.
     rbind (mg_add_row (cr_block_ids r) i (ib_block_table b)) (\<lambda>tables.
     let b = b\<lparr>ib_block_table := tables\<rparr> in
     rbind (case cr_sampling_params r of
              Some sp \<Rightarrow> add_sampling_params r sp i b
            | None \<Rightarrow>
                (case cr_pooling_requires_token_ids r of
                   Some requires \<Rightarrow> Inr (add_pooling_params r requires i b)
                 | None \<Rightarrow> Inl NotImplementedError)) (\<lambda>b.
     let b = b\<lparr>ib_num_accepted := (ib_num_accepted b)[i := 1]\<rparr> in
     Inr (i, add_lora r i b))))))"

section \<open>Removing a request\<close>

definition remove_lora :: "string \<Rightarrow> nat \<Rightarrow> input_batch \<Rightarrow> input_batch result" where
  "remove_lora req_id i b =
     (let lora_id = ib_lora_mapping b ! i in
      if lora_id = 0 then Inr b
      else rbind (od_lookup (ib_lora_id_to_request_ids b) lora_id) (\<lambda>ids.
        let ids = ids - {req_id};
            b = b\<lparr>ib_lora_id_to_request_ids := AList.update lora_id ids (ib_lora_id_to_request_ids b)\<rparr> in
        rbind (if ids = {} then
                 rbind (od_lookup (ib_lora_id_to_lora_request b) lora_id) (\<lambda>_.
                   Inr (b\<lparr>ib_lora_id_to_request_ids := AList.delete lora_id (ib_lora_id_to_request_ids b),
                          ib_lora_id_to_lora_request := AList.delete lora_id (ib_lora_id_to_lora_request b)\<rparr>))
               else Inr b) (\<lambda>b.
          Inr (b\<lparr>ib_lora_mapping := (ib_lora_mapping b)[i := 0]\<rparr>))))"

definition remove_sampling :: "string \<Rightarrow> nat \<Rightarrow> input_batch \<Rightarrow> input_batch" where
  "remove_sampling req_id i b =
     b\<lparr>ib_greedy_reqs := ib_greedy_reqs b - {req_id}, ib_random_reqs := ib_random_reqs b - {req_id},
       ib_top_p_reqs := ib_top_p_reqs b - {req_id}, ib_top_k_reqs := ib_top_k_reqs b - {req_id},
       ib_unsupported_reqs := ib_unsupported_reqs b - {req_id}, ib_frequency_reqs := ib_frequency_reqs b - {req_id},
       ib_presence_reqs := ib_presence_reqs b - {req_id}, ib_repetition_reqs := ib_repetition_reqs b - {req_id},
       ib_generators := AList.delete i (ib_generators b), ib_num_logprobs := AList.delete req_id (ib_num_logprobs b),
       ib_in_progress_logprobs := AList.delete req_id (ib_in_progress_logprobs b),
       ib_prev_index := map_option (AList.delete req_id) (ib_prev_index b),
       ib_has_allowed := ib_has_allowed b - {req_id},
       ib_allowed_mask := map_option (\<lambda>m. m[i := replicate (ib_vocab_size b) False]) (ib_allowed_mask b),
       ib_bad_words := AList.delete i (ib_bad_words b)\<rparr>"

definition ib_remove_request :: "string \<Rightarrow> input_batch \<Rightarrow> (nat option \<times> input_batch) result" where
  "ib_remove_request req_id b =
     (case map_of (ib_req_id_to_index b) req_id of
        None \<Rightarrow> Inr (None, b)
      | Some i \<Rightarrow>
          rbind (removed_append i (ib_builder b)) (\<lambda>u.
          if \<not> (i < length (ib_req_ids b) \<and> i < length (ib_output_token_ids b) \<and> i < length (ib_spec_token_ids b)) then Inl IndexError
          else
            rbind (remove_lora req_id i
                (b\<lparr>ib_req_id_to_index := AList.delete req_id (ib_req_id_to_index b), ib_builder := u,
                   ib_req_ids := (ib_req_ids b)[i := None], ib_output_token_ids := (ib_output_token_ids b)[i := None],
                   ib_spec_token_ids := (ib_spec_token_ids b)[i := []]\<rparr>)) (\<lambda>b.
              Inr (Some i,
                if ib_is_pooling_model b then b\<lparr>ib_pooling_params := AList.delete req_id (ib_pooling_params b)\<rparr>
                else remove_sampling req_id i b))))"

section \<open>Swapping and condensing\<close>

definition swap_dict_values :: "nat \<Rightarrow> nat \<Rightarrow> (nat, 'v) odict \<Rightarrow> (nat, 'v) odict" where
  "swap_dict_values k1 k2 d =
     (let v1 = map_of d k1; v2 = map_of d k2;
          d = (case v1 of Some v \<Rightarrow> AList.update k2 v d | None \<Rightarrow> AList.delete k2 d) in
      case v2 of Some v \<Rightarrow> AList.update k1 v d | None \<Rightarrow> AList.delete k1 d)"

text \<open>
  The rows of the mask are views of one tensor: the first assignment overwrites the row that the
  second one reads.
\<close>

definition swap_views :: "nat \<Rightarrow> nat \<Rightarrow> 'a list \<Rightarrow> 'a list" where
  "swap_views i1 i2 rows = (let rows1 = rows[i1 := rows ! i2] in rows1[i2 := rows1 ! i1])"

definition swap_rows :: "nat \<Rightarrow> nat \<Rightarrow> (string, nat) odict \<Rightarrow> block_table list \<Rightarrow> input_batch \<Rightarrow> input_batch" where
  "swap_rows i1 i2 idx tables b =
     b\<lparr>ib_req_ids := swap_at i1 i2 (ib_req_ids b),
       ib_output_token_ids := swap_at i1 i2 (ib_output_token_ids b),
       ib_spec_token_ids := swap_at i1 i2 (ib_spec_token_ids b),
       ib_req_id_to_index := idx,
       ib_num_tokens := swap_at i1 i2 (ib_num_tokens b),
       ib_num_tokens_no_spec := swap_at i1 i2 (ib_num_tokens_no_spec b),
       ib_num_prompt_tokens := swap_at i1 i2 (ib_num_prompt_tokens b),
       ib_num_computed_tokens := swap_at i1 i2 (ib_num_computed_tokens b),
       ib_token_ids := swap_at i1 i2 (ib_token_ids b),
       ib_is_token_ids := swap_at i1 i2 (ib_is_token_ids b),
       ib_req_prompt_embeds := swap_dict_values i1 i2 (ib_req_prompt_embeds b),
       ib_block_table := tables,
       ib_lora_mapping := swap_at i1 i2 (ib_lora_mapping b)\<rparr>"

definition swap_common :: "nat \<Rightarrow> nat \<Rightarrow> input_batch \<Rightarrow> input_batch result" where
  "swap_common i1 i2 b =
     rbind (py_get (ib_req_ids b) i1) (\<lambda>old_id_i1. rbind (py_get (ib_req_ids b) i2) (\<lambda>old_id_i2.
     if \<not> (i1 < length (ib_output_token_ids b) \<and> i2 < length (ib_output_token_ids b) \<and>
            i1 < length (ib_spec_token_ids b) \<and> i2 < length (ib_spec_token_ids b)) then Inl IndexError
     else case (old_id_i1, old_id_i2) of
       (Some id1, Some id2) \<Rightarrow>
         rbind (od_lookup (ib_req_id_to_index b) id2) (\<lambda>index2. rbind (od_lookup (ib_req_id_to_index b) id1) (\<lambda>index1.
         rbind (mg_swap_row i1 i2 (ib_block_table b)) (\<lambda>tables.
           Inr (swap_rows i1 i2 (AList.update id2 index1 (AList.update id1 index2 (ib_req_id_to_index b))) tables b))))
     | _ \<Rightarrow> Inl AssertionError))"

definition swap_sampling :: "nat \<Rightarrow> nat \<Rightarrow> input_batch \<Rightarrow> input_batch" where
  "swap_sampling i1 i2 b =
     b\<lparr>ib_builder := (ib_builder b)\<lparr>bu_moved := bu_moved (ib_builder b) @ [(i1, i2, True)]\<rparr>,
       ib_temperature := swap_at i1 i2 (ib_temperature b), ib_top_p := swap_at i1 i2 (ib_top_p b),
       ib_top_k := swap_at i1 i2 (ib_top_k b), ib_frequency := swap_at i1 i2 (ib_frequency b),
       ib_presence := swap_at i1 i2 (ib_presence b), ib_repetition := swap_at i1 i2 (ib_repetition b),
       ib_num_accepted := swap_at i1 i2 (ib_num_accepted b),
       ib_generators := swap_dict_values i1 i2 (ib_generators b), ib_bad_words := swap_dict_values i1 i2 (ib_bad_words b),
       ib_allowed_mask := map_option (swap_views i1 i2) (ib_allowed_mask b)\<rparr>"

definition swap_states :: "nat \<Rightarrow> nat \<Rightarrow> input_batch \<Rightarrow> input_batch result" where
  "swap_states i1 i2 b =
     rbind (swap_common i1 i2 b) (\<lambda>b. Inr (if ib_is_pooling_model b then b else swap_sampling i1 i2 b))"

definition move_dict_value :: "nat \<Rightarrow> nat \<Rightarrow> (nat, 'v) odict \<Rightarrow> (nat, 'v) odict" where
  "move_dict_value src tgt d =
     (case map_of d src of None \<Rightarrow> d | Some v \<Rightarrow> AList.update tgt v (AList.delete src d))"

definition move_rows :: "nat \<Rightarrow> nat \<Rightarrow> string \<Rightarrow> block_table list \<Rightarrow> input_batch \<Rightarrow> input_batch" where
  "move_rows l e rid tables b =
     (let n = ib_num_tokens b ! l in
      b\<lparr>ib_req_ids := (ib_req_ids b)[e := Some rid, l := None],
        ib_output_token_ids := (ib_output_token_ids b)[e := ib_output_token_ids b ! l, l := None],
        ib_req_id_to_index := AList.update rid e (ib_req_id_to_index b),
        ib_spec_token_ids := (if l \<noteq> e then (swap_at l e (ib_spec_token_ids b))[l := []] else ib_spec_token_ids b),
        ib_token_ids := (ib_token_ids b)[e := take n (ib_token_ids b ! l) @ drop n (ib_token_ids b ! e)],
        ib_is_token_ids := (ib_is_token_ids b)[e := take n (ib_is_token_ids b ! l) @ drop n (ib_is_token_ids b ! e)],
        ib_req_prompt_embeds := move_dict_value l e (ib_req_prompt_embeds b),
        ib_num_tokens := (ib_num_tokens b)[e := n],
        ib_num_tokens_no_spec := (ib_num_tokens_no_spec b)[e := ib_num_tokens_no_spec b ! l],
        ib_num_prompt_tokens := (ib_num_prompt_tokens b)[e := ib_num_prompt_tokens b ! l],
        ib_num_computed_tokens := (ib_num_computed_tokens b)[e := ib_num_computed_tokens b ! l],
        ib_block_table := tables,
        ib_lora_mapping := (ib_lora_mapping b)[e := ib_lora_mapping b ! l]\<rparr>)"

definition move_common :: "nat \<Rightarrow> nat \<Rightarrow> input_batch \<Rightarrow> input_batch result" where
  "move_common l e b =
     rbind (py_get (ib_req_ids b) l) (\<lambda>req_id. rbind (py_get (ib_output_token_ids b) l) (\<lambda>_.
     case req_id of
       None \<Rightarrow> Inl AssertionError
     | Some rid \<Rightarrow>
         if \<not> (e < length (ib_req_ids b) \<and> e < length (ib_output_token_ids b) \<and>
                l < length (ib_spec_token_ids b) \<and> e < length (ib_spec_token_ids b)) then Inl IndexError
         else rbind (mg_move_row l e (ib_block_table b)) (\<lambda>tables. Inr (move_rows l e rid tables b))))"

definition move_sampling :: "nat \<Rightarrow> nat \<Rightarrow> input_batch \<Rightarrow> input_batch" where
  "move_sampling l e b =
     b\<lparr>ib_builder := (ib_builder b)\<lparr>bu_moved := bu_moved (ib_builder b) @ [(l, e, False)]\<rparr>,
       ib_temperature := (ib_temperature b)[e := ib_temperature b ! l], ib_top_p := (ib_top_p b)[e := ib_top_p b ! l],
       ib_top_k := (ib_top_k b)[e := ib_top_k b ! l], ib_frequency := (ib_frequency b)[e := ib_frequency b ! l],
       ib_presence := (ib_presence b)[e := ib_presence b ! l], ib_repetition := (ib_repetition b)[e := ib_repetition b ! l],
       ib_num_accepted := (ib_num_accepted b)[e := ib_num_accepted b ! l],
       ib_generators := move_dict_value l e (ib_generators b),
       ib_allowed_mask := map_option (\<lambda>m. m[e := m ! l]) (ib_allowed_mask b),
       ib_bad_words := move_dict_value l e (ib_bad_words b)\<rparr>"

text \<open>The largest index at or below the given one that is not empty, \<open>-1\<close> if there is none.\<close>

primrec last_nonempty :: "nat set \<Rightarrow> nat \<Rightarrow> int" where
  "last_nonempty E 0 = (if 0 \<in> E then - 1 else 0)"
| "last_nonempty E (Suc n) = (if Suc n \<in> E then last_nonempty E n else int (Suc n))"

text \<open>Every round of the loop takes one index out of the removed ones, which bounds the rounds.\<close>

fun condense_loop :: "nat \<Rightarrow> nat \<Rightarrow> input_batch \<Rightarrow> input_batch result" where
  "condense_loop 0 last_req_index b = Inl Diverges"
| "condense_loop (Suc fuel) last_req_index b =
     (if bu_removed (ib_builder b) = [] then Inr b
      else
        let l = last_nonempty (set (bu_removed (ib_builder b))) last_req_index;
            (peeked, u) = peek_removed (ib_builder b) in
        case peeked of
          None \<Rightarrow> Inl AssertionError
        | Some e \<Rightarrow>
            if l \<le> int e then Inr (b\<lparr>ib_builder := u\<rparr>)
            else
              let b = b\<lparr>ib_builder := snd (pop_removed u)\<rparr> in
              rbind (move_common (nat l) e b) (\<lambda>b.
                condense_loop fuel (nat l - 1) (if ib_is_pooling_model b then b else move_sampling (nat l) e b)))"

definition condense :: "input_batch \<Rightarrow> input_batch result" where
  "condense b =
     (let n = ib_num_reqs b;
          b = b\<lparr>ib_builder := ensure_removed_sorted (ib_builder b)\<rparr>;
          removed = bu_removed (ib_builder b) in
      if removed = [] then Inr b
      else if n = 0 then Inr (b\<lparr>ib_req_ids := [], ib_output_token_ids := [], ib_spec_token_ids := []\<rparr>)
      else rbind (condense_loop (length removed + 1) (n + length removed - 1) b) (\<lambda>b.
        Inr (b\<lparr>ib_req_ids := take n (ib_req_ids b), ib_output_token_ids := take n (ib_output_token_ids b),
               ib_spec_token_ids := take n (ib_spec_token_ids b)\<rparr>)))"

section \<open>What sampling reads\<close>

definition all_greedy :: "input_batch \<Rightarrow> bool" where
  "all_greedy b \<longleftrightarrow> ib_random_reqs b = {}"

definition all_random :: "input_batch \<Rightarrow> bool" where
  "all_random b \<longleftrightarrow> ib_greedy_reqs b = {}"

definition no_top_p :: "input_batch \<Rightarrow> bool" where
  "no_top_p b \<longleftrightarrow> ib_top_p_reqs b = {}"

definition no_top_k :: "input_batch \<Rightarrow> bool" where
  "no_top_k b \<longleftrightarrow> ib_top_k_reqs b = {}"

definition no_penalties :: "input_batch \<Rightarrow> bool" where
  "no_penalties b \<longleftrightarrow> ib_presence_reqs b = {} \<and> ib_frequency_reqs b = {} \<and> ib_repetition_reqs b = {}"

definition max_num_logprobs :: "input_batch \<Rightarrow> int option" where
  "max_num_logprobs b = (if ib_num_logprobs b = [] then None else Some (Max (set (map snd (ib_num_logprobs b)))))"

definition no_allowed_token_ids :: "input_batch \<Rightarrow> bool" where
  "no_allowed_token_ids b \<longleftrightarrow> ib_has_allowed b = {}"

definition needs_prompt_token_ids :: "input_batch \<Rightarrow> bool" where
  "needs_prompt_token_ids b \<longleftrightarrow> \<not> no_penalties b \<or> list_ex id (take (ib_num_reqs b) (ib_needs_token_ids b))"

definition make_prompt_token_ids_tensor :: "input_batch \<Rightarrow> int list list result" where
  "make_prompt_token_ids_tensor b =
     (let n = ib_num_reqs b; lens = take n (ib_num_prompt_tokens b) in
      if lens = [] then Inl ValueError
      else
        let m = Max (set lens) in
        Inr (map (\<lambda>(row, k). fill_slice k m (int (ib_vocab_size b)) (take m row)) (zip (take n (ib_token_ids b)) lens)))"

definition make_lora_inputs :: "nat list \<Rightarrow> nat list \<Rightarrow> input_batch \<Rightarrow> (nat list \<times> nat list \<times> string set) result" where
  "make_lora_inputs num_scheduled_tokens num_sampled_tokens b =
     (let m = take (ib_num_reqs b) (ib_lora_mapping b);
          repeat = (\<lambda>counts. concat (map (\<lambda>(l, k). replicate k l) (zip m counts))) in
      if length num_scheduled_tokens \<noteq> length m \<or> length num_sampled_tokens \<noteq> length m then Inl ValueError
      else Inr (repeat num_sampled_tokens, repeat num_scheduled_tokens, set (map snd (ib_lora_id_to_lora_request b))))"

definition refresh_metadata :: "input_batch \<Rightarrow> batch_update option \<times> bool \<times> input_batch" where
  "refresh_metadata b =
     (if ib_is_pooling_model b then
        let (changed, u) = bu_reset (ib_builder b) in (None, changed, b\<lparr>ib_builder := u\<rparr>)
      else
        let (up, u) = get_and_reset (ib_num_reqs b) (ib_builder b) in (up, up \<noteq> None, b\<lparr>ib_builder := u\<rparr>))"

end
