(* ===== verification/Input_Batch_Map.thy ===== *)
theory Input_Batch_Map
  imports Input_Batch
begin

text \<open>
  The batch as a map from requests to their rows: \<open>row_at\<close> collects the columns at an index,
  \<open>batch_abs\<close> reads the row of a request through the index. Swapping and condensing change where the
  rows are and not the map; adding and removing change it at one request.

  A row has the request's tokens and their flags, its counters, its sampling parameters, its blocks, its output and draft tokens, its
  random generator and its bad words. Three columns of the batch are left out, because the code does not keep them with their
  request: the mask of allowed tokens, which a swap of two rows overwrites; the prompt embeddings, which
  removing a request leaves behind at its index; and \<^verbatim>\<open>logits_processing_needs_token_ids\<close>, which neither swapping nor
  condensing moves.
\<close>

section \<open>Rows\<close>

record row_view =
  rv_tokens :: "int list"
  rv_flags :: "bool list"
  rv_counts :: "nat \<times> nat \<times> nat \<times> nat \<times> nat \<times> nat"
  rv_sampling :: "real \<times> real \<times> int \<times> real \<times> real \<times> real"
  rv_blocks :: "int list list"
  rv_output :: "int list option"
  rv_spec :: "int list"
  rv_generator :: "nat option"
  rv_bad_words :: "int list list option"

definition row_at :: "input_batch \<Rightarrow> nat \<Rightarrow> row_view" where
  "row_at b i =
     \<lparr>rv_tokens = take (ib_num_tokens b ! i) (ib_token_ids b ! i),
      rv_flags = take (ib_num_tokens b ! i) (ib_is_token_ids b ! i),
      rv_counts = (ib_num_tokens b ! i, ib_num_tokens_no_spec b ! i, ib_num_prompt_tokens b ! i,
                   ib_num_computed_tokens b ! i, ib_num_accepted b ! i, ib_lora_mapping b ! i),
      rv_sampling = (ib_temperature b ! i, ib_top_p b ! i, ib_top_k b ! i, ib_frequency b ! i, ib_presence b ! i, ib_repetition b ! i),
      rv_blocks = map (\<lambda>t. row_blocks t i) (ib_block_table b),
      rv_output = ib_output_token_ids b ! i,
      rv_spec = ib_spec_token_ids b ! i,
      rv_generator = map_of (ib_generators b) i,
      rv_bad_words = map_of (ib_bad_words b) i\<rparr>"

definition batch_abs :: "input_batch \<Rightarrow> string \<Rightarrow> row_view option" where
  "batch_abs b rid = map_option (row_at b) (map_of (ib_req_id_to_index b) rid)"

section \<open>Invariant\<close>

definition lengths_ok :: "input_batch \<Rightarrow> bool" where
  "lengths_ok b \<longleftrightarrow> (let n = ib_max_num_reqs b in
     length (ib_token_ids b) = n \<and> length (ib_is_token_ids b) = n \<and> length (ib_num_tokens b) = n \<and>
     length (ib_num_tokens_no_spec b) = n \<and> length (ib_num_prompt_tokens b) = n \<and> length (ib_num_computed_tokens b) = n \<and>
     length (ib_num_accepted b) = n \<and> length (ib_lora_mapping b) = n \<and> length (ib_temperature b) = n \<and>
     length (ib_top_p b) = n \<and> length (ib_top_k b) = n \<and> length (ib_frequency b) = n \<and> length (ib_presence b) = n \<and>
     length (ib_repetition b) = n)"

definition tokens_ok :: "nat \<Rightarrow> input_batch \<Rightarrow> bool" where
  "tokens_ok m b \<longleftrightarrow>
     (\<forall>row \<in> set (ib_token_ids b). length row = m) \<and> (\<forall>row \<in> set (ib_is_token_ids b). length row = m) \<and>
     (\<forall>n \<in> set (ib_num_tokens b). n \<le> m)"

definition tables_ok :: "nat \<Rightarrow> block_table list \<Rightarrow> bool" where
  "tables_ok n tables \<longleftrightarrow> (\<forall>t \<in> set tables. table_wf t \<and> num_rows t = n)"

definition columns_ok :: "nat \<Rightarrow> input_batch \<Rightarrow> bool" where
  "columns_ok m b \<longleftrightarrow> lengths_ok b \<and> tokens_ok m b \<and> tables_ok (ib_max_num_reqs b) (ib_block_table b)"

text \<open>The indices that are occupied are given by a predicate, since condensing passes through states with other holes.\<close>

definition index_ok :: "(nat \<Rightarrow> bool) \<Rightarrow> input_batch \<Rightarrow> bool" where
  "index_ok occ b \<longleftrightarrow> od_wf (ib_req_id_to_index b) \<and> length (ib_req_ids b) \<le> ib_max_num_reqs b \<and>
     (\<forall>i < length (ib_req_ids b). ib_req_ids b ! i \<noteq> None \<longleftrightarrow> occ i) \<and>
     (\<forall>rid i. map_of (ib_req_id_to_index b) rid = Some i \<longleftrightarrow> i < length (ib_req_ids b) \<and> ib_req_ids b ! i = Some rid) \<and>
     length (ib_output_token_ids b) = length (ib_req_ids b) \<and> length (ib_req_ids b) \<le> length (ib_spec_token_ids b) \<and>
     (\<forall>i < length (ib_spec_token_ids b). i < length (ib_req_ids b) \<and> occ i \<or> ib_spec_token_ids b ! i = []) \<and>
     (\<forall>i. map_of (ib_generators b) i \<noteq> None \<or> map_of (ib_bad_words b) i \<noteq> None \<longrightarrow> i < length (ib_req_ids b) \<and> occ i)"

definition removed_ok :: "input_batch \<Rightarrow> bool" where
  "removed_ok b \<longleftrightarrow> (let E = bu_removed (ib_builder b) in
     distinct E \<and> (\<forall>i \<in> set E. i < length (ib_req_ids b)) \<and> (bu_sorted (ib_builder b) \<longrightarrow> sorted (rev E)))"

definition batch_inv :: "nat \<Rightarrow> input_batch \<Rightarrow> bool" where
  "batch_inv m b \<longleftrightarrow> columns_ok m b \<and> removed_ok b \<and> index_ok (\<lambda>i. i \<notin> set (bu_removed (ib_builder b))) b \<and> \<not> ib_is_pooling_model b"

text \<open>The part of the state that is keyed by request or by adapter, which moving rows does not touch.\<close>

definition same_keyed :: "input_batch \<Rightarrow> input_batch \<Rightarrow> bool" where
  "same_keyed b b' \<longleftrightarrow> ib_greedy_reqs b' = ib_greedy_reqs b \<and> ib_random_reqs b' = ib_random_reqs b \<and>
     ib_top_p_reqs b' = ib_top_p_reqs b \<and> ib_top_k_reqs b' = ib_top_k_reqs b \<and> ib_frequency_reqs b' = ib_frequency_reqs b \<and>
     ib_presence_reqs b' = ib_presence_reqs b \<and> ib_repetition_reqs b' = ib_repetition_reqs b \<and> ib_vocab_size b' = ib_vocab_size b \<and>
     ib_lora_id_to_request_ids b' = ib_lora_id_to_request_ids b \<and> ib_lora_id_to_lora_request b' = ib_lora_id_to_lora_request b"

lemma same_keyed_refl [simp]: "same_keyed b b" "same_keyed b (b\<lparr>ib_builder := u\<rparr>)"
  by (simp_all add: same_keyed_def)

lemma same_keyed_trans: "same_keyed a b \<Longrightarrow> same_keyed b c \<Longrightarrow> same_keyed a c"
  by (simp add: same_keyed_def)

lemma index_card:
  assumes "index_ok occ b"
  shows "card {i. i < length (ib_req_ids b) \<and> occ i} = ib_num_reqs b"
proof -
  let ?idx = "ib_req_id_to_index b" and ?S = "{i. i < length (ib_req_ids b) \<and> occ i}"
  have idx: "map_of ?idx rid = Some i \<longleftrightarrow> i < length (ib_req_ids b) \<and> ib_req_ids b ! i = Some rid" for rid i
    using assms by (simp add: index_ok_def)
  have S: "i \<in> ?S \<longleftrightarrow> (\<exists>rid. map_of ?idx rid = Some i)" for i
    using assms idx by (auto simp: index_ok_def)
  have "bij_betw (\<lambda>rid. the (map_of ?idx rid)) (fst ` set ?idx) ?S"
  proof (rule bij_betwI')
    fix x y assume "x \<in> fst ` set ?idx" "y \<in> fst ` set ?idx"
    then obtain i j where ij: "map_of ?idx x = Some i" "map_of ?idx y = Some j" by (metis map_of_eq_None_iff not_Some_eq)
    then have "ib_req_ids b ! i = Some x" "ib_req_ids b ! j = Some y" using idx by blast+
    with ij show "(the (map_of ?idx x) = the (map_of ?idx y)) = (x = y)" by auto
  next
    fix x assume "x \<in> fst ` set ?idx"
    then obtain i where "map_of ?idx x = Some i" by (metis map_of_eq_None_iff not_Some_eq)
    then show "the (map_of ?idx x) \<in> ?S" unfolding S by auto
  next
    fix i assume "i \<in> ?S"
    then obtain rid where "map_of ?idx rid = Some i" unfolding S ..
    then show "\<exists>x \<in> fst ` set ?idx. i = the (map_of ?idx x)"
      by (intro bexI [of _ rid]) (auto dest: map_of_SomeD intro: rev_image_eqI)
  qed
  then have "card ?S = card (fst ` set ?idx)" by (simp add: bij_betw_same_card)
  also have "\<dots> = length ?idx" using assms distinct_card [of "map fst ?idx"] by (simp add: index_ok_def od_wf_def)
  finally show ?thesis by (simp add: ib_num_reqs_def)
qed

section \<open>Block tables\<close>

lemma table_rows:
  assumes "table_abs t' = f (table_abs t)" "num_rows t' = num_rows t" "i < num_rows t"
  shows "row_blocks t' i = f (table_abs t) ! i"
  using assms nth_map [of i "[0..<num_rows t]" "row_blocks t'"] by (simp add: table_abs_def)

lemma rmap_tables:
  assumes "tables_ok n tables"
    and "\<And>t. table_wf t \<Longrightarrow> num_rows t = n \<Longrightarrow> \<exists>t'. f t = Inr t' \<and> table_wf t' \<and> num_rows t' = n \<and> (\<forall>i < n. row_blocks t' i = g t i)"
  shows "\<exists>tables'. rmap f tables = Inr tables' \<and> tables_ok n tables' \<and> (\<forall>i < n. map (\<lambda>t. row_blocks t i) tables' = map (\<lambda>t. g t i) tables)"
  using assms(1)
proof (induction tables)
  case Nil
  then show ?case by (simp add: tables_ok_def)
next
  case (Cons t tables)
  from Cons.prems assms(2) [of t] obtain t' where "f t = Inr t'" "table_wf t'" "num_rows t' = n" "\<forall>i < n. row_blocks t' i = g t i"
    by (auto simp: tables_ok_def)
  with Cons show ?case by (auto simp: tables_ok_def)
qed

lemma mg_move_row_rows:
  assumes "tables_ok n tables" "l < n" "e < n"
  shows "\<exists>tables'. mg_move_row l e tables = Inr tables' \<and> tables_ok n tables' \<and>
    (\<forall>i < n. map (\<lambda>t. row_blocks t i) tables' = map (\<lambda>t. row_blocks t (if i = e then l else i)) tables)"
  unfolding mg_move_row_def
proof (rule rmap_tables [OF assms(1)])
  fix t assume t: "table_wf t" "num_rows t = n"
  from move_row_rows [OF t(1), of l e] t(2) assms(2,3) obtain t' where t': "move_row l e t = Inr t'" "table_wf t'" "same_layout t t'"
    "table_abs t' = (table_abs t)[e := table_abs t ! l]" by auto
  then have "row_blocks t' i = row_blocks t (if i = e then l else i)" if "i < n" for i
    using table_rows [of t' "\<lambda>xs. xs[e := xs ! l]" t i] that t assms(2) by (simp add: same_layout_def nth_list_update table_abs_def)
  with t' t show "\<exists>t'. move_row l e t = Inr t' \<and> table_wf t' \<and> num_rows t' = n \<and> (\<forall>i < n. row_blocks t' i = row_blocks t (if i = e then l else i))"
    by (auto simp: same_layout_def)
qed

lemma nth_swap_at: "i < length xs \<Longrightarrow> j < length xs \<Longrightarrow> k < length xs \<Longrightarrow>
  swap_at i j xs ! k = xs ! (if k = i then j else if k = j then i else k)"
  by (simp add: swap_at_def nth_list_update)

lemma length_swap_at [simp]: "length (swap_at i j xs) = length xs"
  by (simp add: swap_at_def)

lemma set_swap_at: "i < length xs \<Longrightarrow> j < length xs \<Longrightarrow> set (swap_at i j xs) = set xs"
  by (simp add: swap_at_def set_swap)

lemma mg_swap_row_rows:
  assumes "tables_ok n tables" "l < n" "e < n"
  shows "\<exists>tables'. mg_swap_row l e tables = Inr tables' \<and> tables_ok n tables' \<and>
    (\<forall>i < n. map (\<lambda>t. row_blocks t i) tables' = map (\<lambda>t. row_blocks t (if i = l then e else if i = e then l else i)) tables)"
  unfolding mg_swap_row_def
proof (rule rmap_tables [OF assms(1)])
  fix t assume t: "table_wf t" "num_rows t = n"
  from swap_row_rows [OF t(1), of l e] t(2) assms(2,3) obtain t' where t': "swap_row l e t = Inr t'" "table_wf t'" "same_layout t t'"
    "table_abs t' = swap_at l e (table_abs t)" by auto
  then have "row_blocks t' i = row_blocks t (if i = l then e else if i = e then l else i)" if "i < n" for i
    using table_rows [of t' "swap_at l e" t i] that t assms(2,3) by (simp add: same_layout_def nth_swap_at table_abs_def)
  with t' t show "\<exists>t'. swap_row l e t = Inr t' \<and> table_wf t' \<and> num_rows t' = n \<and>
      (\<forall>i < n. row_blocks t' i = row_blocks t (if i = l then e else if i = e then l else i))"
    by (auto simp: same_layout_def)
qed

section \<open>Moving a row\<close>

lemma update_nth_ok: "\<forall>x \<in> set xs. P x \<Longrightarrow> P y \<Longrightarrow> \<forall>x \<in> set (xs[i := y]). P x"
  by (auto dest!: set_update_subset_insert [THEN subsetD])

lemma move_dict_value_lookup:
  assumes "map_of d e = None" "l \<noteq> e"
  shows "map_of (move_dict_value l e d) k = (if k = e then map_of d l else if k = l then None else map_of d k)"
  using assms by (auto simp: move_dict_value_def update_conv' delete_conv' split: option.splits)

definition move_all :: "nat \<Rightarrow> nat \<Rightarrow> string \<Rightarrow> block_table list \<Rightarrow> input_batch \<Rightarrow> input_batch" where
  "move_all l e rid tables b = move_sampling l e (move_rows l e rid tables b)"

lemmas move_all_defs = move_all_def move_sampling_def move_rows_def Let_def

lemma move_row_at:
  assumes cols: "columns_ok m b" and idx: "index_ok occ b" and l: "l < length (ib_req_ids b)" and e: "e < length (ib_req_ids b)" "\<not> occ e" "l \<noteq> e"
    and tables: "\<forall>i < ib_max_num_reqs b. map (\<lambda>t. row_blocks t i) tables = map (\<lambda>t. row_blocks t (if i = e then l else i)) (ib_block_table b)"
    and i: "i < length (ib_req_ids b)" "i \<noteq> l"
  shows "row_at (move_all l e rid tables b) i = row_at b (if i = e then l else i)"
proof -
  have len: "i < ib_max_num_reqs b" "e < ib_max_num_reqs b" "l < ib_max_num_reqs b"
    using i l e(1) idx by (auto simp: index_ok_def)
  have free: "map_of (ib_generators b) e = None" "map_of (ib_bad_words b) e = None" using idx e by (auto simp: index_ok_def)
  have "ib_num_tokens b ! l \<le> m" "length (ib_token_ids b ! l) = m" "length (ib_is_token_ids b ! l) = m"
    using cols len by (auto simp: columns_ok_def lengths_ok_def tokens_ok_def Let_def)
  moreover have "length (ib_output_token_ids b) = length (ib_req_ids b)" "i < length (ib_spec_token_ids b)"
    "l < length (ib_spec_token_ids b)" "e < length (ib_spec_token_ids b)" using idx i l e by (auto simp: index_ok_def)
  ultimately show ?thesis
    using cols len i l e tables
    by (simp add: row_at_def move_all_defs move_dict_value_lookup free nth_list_update nth_swap_at columns_ok_def lengths_ok_def)
qed

lemma move_columns:
  assumes cols: "columns_ok m b" and len: "l < ib_max_num_reqs b" "e < ib_max_num_reqs b" and tables: "tables_ok (ib_max_num_reqs b) tables"
  shows "columns_ok m (move_all l e rid tables b)"
proof -
  have "lengths_ok (move_all l e rid tables b)" using cols by (simp add: columns_ok_def lengths_ok_def move_all_defs)
  moreover have "tokens_ok m (move_all l e rid tables b)"
  proof -
    have b: "\<forall>row \<in> set (ib_token_ids b). length row = m" "\<forall>row \<in> set (ib_is_token_ids b). length row = m" "\<forall>n \<in> set (ib_num_tokens b). n \<le> m"
      and rows: "length (ib_token_ids b ! l) = m" "length (ib_token_ids b ! e) = m" "length (ib_is_token_ids b ! l) = m"
        "length (ib_is_token_ids b ! e) = m" "ib_num_tokens b ! l \<le> m"
      using cols len by (auto simp: columns_ok_def tokens_ok_def lengths_ok_def Let_def)
    show ?thesis unfolding tokens_ok_def using rows
      by (simp add: move_all_defs) (intro conjI update_nth_ok b; simp)
  qed
  ultimately show ?thesis using tables by (simp add: columns_ok_def move_all_defs)
qed

lemma move_index:
  assumes idx: "index_ok occ b" and l: "l < length (ib_req_ids b)" "ib_req_ids b ! l = Some rid" and e: "e < length (ib_req_ids b)" "\<not> occ e" "l \<noteq> e"
  shows "index_ok (\<lambda>i. (occ i \<or> i = e) \<and> i \<noteq> l) (move_all l e rid tables b)"
proof -
  have free: "map_of (ib_generators b) e = None" "map_of (ib_bad_words b) e = None" "ib_req_ids b ! e = None" using idx e by (auto simp: index_ok_def)
  have occ: "\<forall>i < length (ib_req_ids b). ib_req_ids b ! i \<noteq> None \<longleftrightarrow> occ i" using idx by (simp add: index_ok_def)
  have look: "map_of (ib_req_id_to_index b) r = Some i \<longleftrightarrow> i < length (ib_req_ids b) \<and> ib_req_ids b ! i = Some r" for r i
    using idx by (simp add: index_ok_def)
  have "od_wf (AList.update rid e (ib_req_id_to_index b))" using idx by (simp add: index_ok_def od_wf_def distinct_update)
  moreover have "(map_of (AList.update rid e (ib_req_id_to_index b)) r = Some i) =
      (i < length (ib_req_ids b) \<and> (ib_req_ids b)[e := Some rid, l := None] ! i = Some r)" for r i
    using look [of r i] look [of rid l] l e free by (auto simp: update_conv' nth_list_update)
  moreover have "\<forall>i < length (ib_req_ids b). (ib_req_ids b)[e := Some rid, l := None] ! i \<noteq> None \<longleftrightarrow> (occ i \<or> i = e) \<and> i \<noteq> l"
    using occ e l(1) by (auto simp: nth_list_update)
  moreover have "\<forall>i < length (ib_spec_token_ids b). i < length (ib_req_ids b) \<and> (occ i \<or> i = e) \<and> i \<noteq> l \<or>
      (swap_at l e (ib_spec_token_ids b))[l := []] ! i = []"
    using idx l e by (auto simp: index_ok_def nth_list_update nth_swap_at)
  moreover have "\<forall>i. map_of (move_dict_value l e (ib_generators b)) i \<noteq> None \<or> map_of (move_dict_value l e (ib_bad_words b)) i \<noteq> None \<longrightarrow>
      i < length (ib_req_ids b) \<and> (occ i \<or> i = e) \<and> i \<noteq> l"
    using idx l e free by (auto simp: move_dict_value_lookup index_ok_def)
  ultimately show ?thesis using idx e(3) unfolding index_ok_def by (simp add: move_all_defs)
qed

lemma move_abs:
  assumes cols: "columns_ok m b" and idx: "index_ok occ b" and l: "l < length (ib_req_ids b)" "ib_req_ids b ! l = Some rid"
    and e: "e < length (ib_req_ids b)" "\<not> occ e" "l \<noteq> e"
    and tables: "\<forall>i < ib_max_num_reqs b. map (\<lambda>t. row_blocks t i) tables = map (\<lambda>t. row_blocks t (if i = e then l else i)) (ib_block_table b)"
  shows "batch_abs (move_all l e rid tables b) = batch_abs b"
proof
  fix r
  have free: "ib_req_ids b ! e = None" using idx e by (auto simp: index_ok_def)
  have look: "map_of (ib_req_id_to_index b) r = Some i \<longleftrightarrow> i < length (ib_req_ids b) \<and> ib_req_ids b ! i = Some r" for r i
    using idx by (simp add: index_ok_def)
  note row = move_row_at [OF cols idx l(1) e tables]
  have new: "map_of (ib_req_id_to_index (move_all l e rid tables b)) r = (if r = rid then Some e else map_of (ib_req_id_to_index b) r)"
    by (simp add: move_all_defs update_conv')
  show "batch_abs (move_all l e rid tables b) r = batch_abs b r"
  proof (cases "r = rid")
    case True
    with look [of rid l] l row [of e rid] e new show ?thesis by (simp add: batch_abs_def)
  next
    case False
    then have "map_of (ib_req_id_to_index b) r = Some i \<Longrightarrow> row_at (move_all l e rid tables b) i = row_at b i" for i
      using look [of r i] l free row [of i rid] by (cases "i = e"; cases "i = l") auto
    with False new show ?thesis by (cases "map_of (ib_req_id_to_index b) r") (simp_all add: batch_abs_def)
  qed
qed

section \<open>Swapping two rows\<close>

definition exchange :: "nat \<Rightarrow> nat \<Rightarrow> nat \<Rightarrow> nat" where
  "exchange i j k = (if k = i then j else if k = j then i else k)"

lemma exchange_exchange [simp]: "exchange i j (exchange i j k) = k"
  by (simp add: exchange_def)

lemma exchange_less: "i < n \<Longrightarrow> j < n \<Longrightarrow> k < n \<Longrightarrow> exchange i j k < n"
  by (simp add: exchange_def)

lemma nth_exchange: "i < length xs \<Longrightarrow> j < length xs \<Longrightarrow> k < length xs \<Longrightarrow> swap_at i j xs ! k = xs ! exchange i j k"
  by (simp add: nth_swap_at exchange_def)

lemma swap_dict_lookup: "map_of (swap_dict_values i j d) k = map_of d (exchange i j k)"
  by (auto simp: swap_dict_values_def exchange_def Let_def update_conv' delete_conv' split: option.splits)

definition swap_all :: "nat \<Rightarrow> nat \<Rightarrow> (string, nat) odict \<Rightarrow> block_table list \<Rightarrow> input_batch \<Rightarrow> input_batch" where
  "swap_all i j idx tables b = swap_sampling i j (swap_rows i j idx tables b)"

lemmas swap_all_defs = swap_all_def swap_sampling_def swap_rows_def

lemma swap_row_at:
  assumes cols: "columns_ok m b" and idx: "index_ok occ b" and ij: "i < length (ib_req_ids b)" "j < length (ib_req_ids b)"
    and tables: "\<forall>k < ib_max_num_reqs b. map (\<lambda>t. row_blocks t k) tables = map (\<lambda>t. row_blocks t (exchange i j k)) (ib_block_table b)"
    and k: "k < length (ib_req_ids b)"
  shows "row_at (swap_all i j ix tables b) k = row_at b (exchange i j k)"
proof -
  have "k < ib_max_num_reqs b" "i < ib_max_num_reqs b" "j < ib_max_num_reqs b"
    "length (ib_output_token_ids b) = length (ib_req_ids b)"
    "k < length (ib_spec_token_ids b)" "i < length (ib_spec_token_ids b)" "j < length (ib_spec_token_ids b)"
    using k ij idx by (auto simp: index_ok_def)
  with cols ij k tables show ?thesis
    by (simp add: row_at_def swap_all_defs swap_dict_lookup nth_exchange columns_ok_def lengths_ok_def Let_def)
qed

lemma swap_columns:
  assumes "columns_ok m b" "i < ib_max_num_reqs b" "j < ib_max_num_reqs b" "tables_ok (ib_max_num_reqs b) tables"
  shows "columns_ok m (swap_all i j ix tables b)"
  using assms by (simp add: columns_ok_def lengths_ok_def tokens_ok_def swap_all_defs set_swap_at Let_def)

text \<open>The index after a swap: the two requests exchange their positions.\<close>

definition swapped_index :: "nat \<Rightarrow> nat \<Rightarrow> string \<Rightarrow> string \<Rightarrow> (string, nat) odict \<Rightarrow> (string, nat) odict" where
  "swapped_index i j ri rj d = AList.update rj i (AList.update ri j d)"

lemma swapped_index_lookup:
  assumes look: "\<And>r k. map_of d r = Some k \<longleftrightarrow> k < n \<and> ids ! k = Some r"
    and "i < n" "j < n" "ids ! i = Some ri" "ids ! j = Some rj"
  shows "map_of (swapped_index i j ri rj d) r = map_option (exchange i j) (map_of d r)"
proof (cases "r = ri \<or> r = rj")
  case True
  have "map_of d ri = Some i" "map_of d rj = Some j" using look assms by blast+
  moreover have "i = j" if "ri = rj" using calculation that by simp
  ultimately show ?thesis using True by (auto simp: swapped_index_def update_conv' exchange_def)
next
  case False
  then have "exchange i j k = k" if "map_of d r = Some k" for k
    using look [of r k] that assms(4,5) by (auto simp: exchange_def)
  with False show ?thesis by (cases "map_of d r") (auto simp: swapped_index_def update_conv')
qed

lemma swap_index:
  assumes idx: "index_ok occ b" and ij: "i < length (ib_req_ids b)" "j < length (ib_req_ids b)"
    "ib_req_ids b ! i = Some ri" "ib_req_ids b ! j = Some rj"
  shows "index_ok occ (swap_all i j (swapped_index i j ri rj (ib_req_id_to_index b)) tables b)"
proof -
  let ?n = "length (ib_req_ids b)"
  have look: "map_of (ib_req_id_to_index b) r = Some k \<longleftrightarrow> k < ?n \<and> ib_req_ids b ! k = Some r" for r k
    using idx by (simp add: index_ok_def)
  note new = swapped_index_lookup [of "ib_req_id_to_index b" ?n "ib_req_ids b", OF look ij]
  have occ: "occ i" "occ j" and occ_iff: "\<forall>k < ?n. ib_req_ids b ! k \<noteq> None \<longleftrightarrow> occ k" using idx ij by (auto simp: index_ok_def)
  then have ex: "occ (exchange i j k) \<longleftrightarrow> occ k" for k by (simp add: exchange_def)
  have "od_wf (swapped_index i j ri rj (ib_req_id_to_index b))" using idx by (simp add: index_ok_def od_wf_def swapped_index_def distinct_update)
  moreover have "\<forall>k < ?n. swap_at i j (ib_req_ids b) ! k \<noteq> None \<longleftrightarrow> occ k"
    using occ_iff ij ex by (simp add: nth_exchange exchange_less)
  moreover have "(map_of (swapped_index i j ri rj (ib_req_id_to_index b)) r = Some k) = (k < ?n \<and> swap_at i j (ib_req_ids b) ! k = Some r)" for r k
  proof -
    have "(map_of (swapped_index i j ri rj (ib_req_id_to_index b)) r = Some k) = (map_of (ib_req_id_to_index b) r = Some (exchange i j k))"
      unfolding new by (metis exchange_exchange map_option_eq_Some option.inject)
    also have "\<dots> = (k < ?n \<and> swap_at i j (ib_req_ids b) ! k = Some r)"
      using look [of r "exchange i j k"] ij(1,2) exchange_less [of i ?n j] by (metis exchange_exchange nth_exchange)
    finally show ?thesis .
  qed
  moreover have "\<forall>k < length (ib_spec_token_ids b). k < ?n \<and> occ k \<or> swap_at i j (ib_spec_token_ids b) ! k = []"
  proof (intro allI impI)
    fix k assume k: "k < length (ib_spec_token_ids b)"
    have len: "?n \<le> length (ib_spec_token_ids b)" using idx by (simp add: index_ok_def)
    show "k < ?n \<and> occ k \<or> swap_at i j (ib_spec_token_ids b) ! k = []"
      using idx k ij(1,2) occ len unfolding index_ok_def by (cases "k = i"; cases "k = j") (auto simp: nth_exchange exchange_def)
  qed
  moreover have "\<forall>k. map_of (swap_dict_values i j (ib_generators b)) k \<noteq> None \<or> map_of (swap_dict_values i j (ib_bad_words b)) k \<noteq> None \<longrightarrow>
      k < ?n \<and> occ k"
    unfolding swap_dict_lookup using idx ij(1,2) ex exchange_less [of i ?n j] unfolding index_ok_def by (metis exchange_exchange)
  ultimately show ?thesis using idx unfolding index_ok_def by (simp add: swap_all_defs)
qed

lemma swap_states_run:
  assumes inv: "batch_inv m b" and ij: "i < length (ib_req_ids b)" "j < length (ib_req_ids b)"
    and occ: "i \<notin> set (bu_removed (ib_builder b))" "j \<notin> set (bu_removed (ib_builder b))"
  shows "\<exists>b'. swap_states i j b = Inr b' \<and> batch_inv m b' \<and> batch_abs b' = batch_abs b \<and> same_keyed b b' \<and>
    ib_allowed_mask b' = map_option (swap_views i j) (ib_allowed_mask b) \<and> ib_req_ids b' = swap_at i j (ib_req_ids b) \<and>
    ib_num_computed_tokens b' = swap_at i j (ib_num_computed_tokens b) \<and> bu_removed (ib_builder b') = bu_removed (ib_builder b)"
proof -
  let ?occ = "\<lambda>i. i \<notin> set (bu_removed (ib_builder b))"
  have cols: "columns_ok m b" and idx: "index_ok ?occ b" and rem: "removed_ok b" and np: "\<not> ib_is_pooling_model b"
    using inv by (simp_all add: batch_inv_def)
  obtain ri rj where r: "ib_req_ids b ! i = Some ri" "ib_req_ids b ! j = Some rj"
    using idx ij occ unfolding index_ok_def by (metis not_None_eq)
  have look: "map_of (ib_req_id_to_index b) r = Some k \<longleftrightarrow> k < length (ib_req_ids b) \<and> ib_req_ids b ! k = Some r" for r k
    using idx by (simp add: index_ok_def)
  have lt: "i < ib_max_num_reqs b" "j < ib_max_num_reqs b" using ij idx by (auto simp: index_ok_def)
  have "tables_ok (ib_max_num_reqs b) (ib_block_table b)" using cols by (simp add: columns_ok_def)
  from mg_swap_row_rows [OF this lt] obtain tables where t: "mg_swap_row i j (ib_block_table b) = Inr tables"
    "tables_ok (ib_max_num_reqs b) tables"
    "\<forall>k < ib_max_num_reqs b. map (\<lambda>t. row_blocks t k) tables = map (\<lambda>t. row_blocks t (exchange i j k)) (ib_block_table b)"
    unfolding exchange_def by blast
  let ?ix = "swapped_index i j ri rj (ib_req_id_to_index b)"
  let ?b = "swap_all i j ?ix tables b"
  have "swap_states i j b = Inr ?b"
  proof -
    have "map_of (ib_req_id_to_index b) ri = Some i" "map_of (ib_req_id_to_index b) rj = Some j" using look r ij by blast+
    moreover have "i < length (ib_output_token_ids b)" "j < length (ib_output_token_ids b)"
      "i < length (ib_spec_token_ids b)" "j < length (ib_spec_token_ids b)" using ij idx by (auto simp: index_ok_def)
    moreover have "\<not> ib_is_pooling_model (swap_rows i j ?ix tables b)" using np by (simp add: swap_rows_def)
    ultimately show ?thesis using r ij t(1)
      by (simp add: swap_states_def swap_common_def py_get_def od_lookup_def swap_all_def swapped_index_def)
  qed
  moreover have "batch_inv m ?b"
    using swap_columns [OF cols lt t(2)] swap_index [OF idx ij r] rem np
    by (simp add: batch_inv_def removed_ok_def swap_all_defs Let_def)
  moreover have "batch_abs ?b = batch_abs b"
  proof
    fix r'
    have ix: "ib_req_id_to_index ?b = ?ix" by (simp add: swap_all_defs)
    have "row_at ?b (exchange i j k) = row_at b k" if "map_of (ib_req_id_to_index b) r' = Some k" for k
      using swap_row_at [OF cols idx ij t(3), of "exchange i j k" ?ix] look [of r' k] that exchange_less [OF ij] by simp
    then show "batch_abs ?b r' = batch_abs b r'"
      using swapped_index_lookup [of "ib_req_id_to_index b" "length (ib_req_ids b)" "ib_req_ids b", OF look ij r, of r']
      unfolding batch_abs_def ix by (cases "map_of (ib_req_id_to_index b) r'") simp_all
  qed
  moreover have "same_keyed b ?b" "ib_allowed_mask ?b = map_option (swap_views i j) (ib_allowed_mask b)"
    "ib_req_ids ?b = swap_at i j (ib_req_ids b)" "ib_num_computed_tokens ?b = swap_at i j (ib_num_computed_tokens b)"
    "bu_removed (ib_builder ?b) = bu_removed (ib_builder b)"
    by (simp_all add: same_keyed_def swap_all_defs)
  ultimately show ?thesis by blast
qed

section \<open>Condensing\<close>

lemma last_nonempty_spec:
  "last_nonempty E n \<le> int n \<and> - 1 \<le> last_nonempty E n \<and> (0 \<le> last_nonempty E n \<longrightarrow> nat (last_nonempty E n) \<notin> E) \<and>
   (\<forall>i \<le> n. last_nonempty E n < int i \<longrightarrow> i \<in> E)"
proof (induction n)
  case (Suc n)
  have "nat (int (Suc n)) = Suc n" by simp
  with Suc show ?case by (auto simp: le_Suc_eq simp del: of_nat_Suc)
qed auto

lemma downward_closed_card:
  fixes S :: "nat set"
  assumes "finite S" "\<And>i j. i \<in> S \<Longrightarrow> j < i \<Longrightarrow> j \<in> S"
  shows "S = {..<card S}"
proof (rule card_subset_eq)
  show "S \<subseteq> {..<card S}"
  proof
    fix i assume "i \<in> S"
    then have "{..i} \<subseteq> S" using assms(2) by (auto simp: le_less)
    then have "card {..i} \<le> card S" using assms(1) by (rule card_mono [rotated])
    then show "i \<in> {..<card S}" by simp
  qed
qed simp_all

definition condensing :: "nat \<Rightarrow> nat \<Rightarrow> input_batch \<Rightarrow> bool" where
  "condensing m hi b \<longleftrightarrow> (let E = bu_removed (ib_builder b) in
     columns_ok m b \<and> index_ok (\<lambda>i. i \<le> hi \<and> i \<notin> set E) b \<and> hi < length (ib_req_ids b) \<and>
     distinct E \<and> (\<forall>i \<in> set E. i < length (ib_req_ids b)) \<and> bu_sorted (ib_builder b) \<and> sorted (rev E) \<and> \<not> ib_is_pooling_model b)"

definition same_batch :: "input_batch \<Rightarrow> input_batch \<Rightarrow> bool" where
  "same_batch b b' \<longleftrightarrow> batch_abs b' = batch_abs b \<and> ib_num_reqs b' = ib_num_reqs b \<and>
     length (ib_req_ids b') = length (ib_req_ids b) \<and> ib_max_num_reqs b' = ib_max_num_reqs b \<and>
     ib_is_pooling_model b' = ib_is_pooling_model b \<and> same_keyed b b'"

lemma same_batch_refl [simp]: "same_batch b b"
  by (simp add: same_batch_def)

lemma same_batch_trans: "same_batch a b \<Longrightarrow> same_batch b c \<Longrightarrow> same_batch a c"
  using same_keyed_trans by (auto simp: same_batch_def)

lemma builder_irrelevant [simp]:
  "columns_ok m (b\<lparr>ib_builder := u\<rparr>) = columns_ok m b" "index_ok occ (b\<lparr>ib_builder := u\<rparr>) = index_ok occ b"
  "batch_abs (b\<lparr>ib_builder := u\<rparr>) = batch_abs b" "same_batch b (b\<lparr>ib_builder := u\<rparr>)"
proof -
  have "row_at (b\<lparr>ib_builder := u\<rparr>) = row_at b" by (simp add: row_at_def fun_eq_iff)
  then show abs: "batch_abs (b\<lparr>ib_builder := u\<rparr>) = batch_abs b" by (intro ext) (simp add: batch_abs_def)
  show "same_batch b (b\<lparr>ib_builder := u\<rparr>)" by (simp add: abs same_batch_def ib_num_reqs_def)
qed (simp_all add: columns_ok_def lengths_ok_def tokens_ok_def index_ok_def)

lemma peek_sorted:
  assumes "bu_removed u \<noteq> []" "bu_sorted u"
  shows "peek_removed u = (Some (last (bu_removed u)), u)"
    "pop_removed u = (Some (last (bu_removed u)), u\<lparr>bu_removed := butlast (bu_removed u)\<rparr>)"
  using assms by (simp_all add: peek_removed_def pop_removed_def ensure_removed_sorted_def)

lemma last_is_least: "sorted (rev E) \<Longrightarrow> i \<in> set E \<Longrightarrow> last E \<le> i"
  by (cases E rule: rev_cases) (auto simp: sorted_append)

lemma set_butlast_distinct: "distinct E \<Longrightarrow> E \<noteq> [] \<Longrightarrow> set (butlast E) = set E - {last E}"
  by (cases E rule: rev_cases) auto

lemma sorted_rev_butlast: "sorted (rev E) \<Longrightarrow> sorted (rev (butlast E))"
  by (cases E rule: rev_cases) simp_all

lemma index_ok_cong:
  assumes "index_ok occ b" "\<And>i. i < length (ib_req_ids b) \<Longrightarrow> occ i = occ' i"
  shows "index_ok occ' b"
  using assms unfolding index_ok_def by blast

lemma update_same_length: "map_of d k = Some v \<Longrightarrow> length (AList.update k w d) = length d"
  by (induction d) auto

lemma move_step:
  assumes "columns_ok m b" "index_ok occ b" "l < length (ib_req_ids b)" "occ l" "e < length (ib_req_ids b)" "\<not> occ e"
    "\<not> ib_is_pooling_model b"
  shows "\<exists>rid tables. move_common l e b = Inr (move_rows l e rid tables b) \<and> columns_ok m (move_all l e rid tables b) \<and>
    index_ok (\<lambda>i. (occ i \<or> i = e) \<and> i \<noteq> l) (move_all l e rid tables b) \<and> same_batch b (move_all l e rid tables b)"
proof -
  have le: "l \<noteq> e" using assms(4,6) by auto
  obtain rid where rid: "ib_req_ids b ! l = Some rid" using assms(2-4) unfolding index_ok_def by (metis not_None_eq)
  have lt: "l < ib_max_num_reqs b" "e < ib_max_num_reqs b" using assms by (auto simp: index_ok_def)
  have "tables_ok (ib_max_num_reqs b) (ib_block_table b)" using assms(1) by (simp add: columns_ok_def)
  from mg_move_row_rows [OF this lt] obtain tables where t: "mg_move_row l e (ib_block_table b) = Inr tables" "tables_ok (ib_max_num_reqs b) tables"
    "\<forall>i < ib_max_num_reqs b. map (\<lambda>t. row_blocks t i) tables = map (\<lambda>t. row_blocks t (if i = e then l else i)) (ib_block_table b)" by blast
  have "length (ib_output_token_ids b) = length (ib_req_ids b)" "l < length (ib_spec_token_ids b)" "e < length (ib_spec_token_ids b)"
    using assms(2,3,5) by (auto simp: index_ok_def)
  then have run: "move_common l e b = Inr (move_rows l e rid tables b)"
    using assms(3,5) rid t(1) by (simp add: move_common_def py_get_def)
  have "map_of (ib_req_id_to_index b) rid = Some l" using assms(2,3) rid by (simp add: index_ok_def)
  then have "length (AList.update rid e (ib_req_id_to_index b)) = length (ib_req_id_to_index b)"
    by (rule update_same_length)
  moreover note move_abs [OF assms(1,2,3) rid assms(5,6) le t(3)]
  ultimately have "same_batch b (move_all l e rid tables b)"
    by (simp add: same_batch_def ib_num_reqs_def) (simp add: same_keyed_def move_all_defs)
  with run move_columns [OF assms(1) lt t(2)] move_index [OF assms(2,3) rid assms(5,6) le] show ?thesis by blast
qed

lemma condense_loop_ok:
  assumes "condensing m hi b" "length (bu_removed (ib_builder b)) < fuel"
  shows "\<exists>b' occ. condense_loop fuel hi b = Inr b' \<and> columns_ok m b' \<and> index_ok occ b' \<and> same_batch b b' \<and>
    (\<forall>i j. i < length (ib_req_ids b') \<and> occ i \<and> j < i \<longrightarrow> occ j)"
  using assms
proof (induction fuel arbitrary: hi b)
  case (Suc fuel)
  let ?u = "ib_builder b" and ?E = "bu_removed (ib_builder b)"
  let ?occ = "\<lambda>i. i \<le> hi \<and> i \<notin> set ?E"
  from Suc.prems(1) have cols: "columns_ok m b" and idx: "index_ok ?occ b" and hi: "hi < length (ib_req_ids b)"
    and E: "distinct ?E" "\<forall>i \<in> set ?E. i < length (ib_req_ids b)" "bu_sorted ?u" "sorted (rev ?E)" and np: "\<not> ib_is_pooling_model b"
    by (simp_all add: condensing_def Let_def)
  show ?case
  proof (cases "?E = []")
    case True
    with cols idx show ?thesis by (intro exI [of _ b] exI [of _ ?occ]) (simp add: same_batch_def)
  next
    case ne: False
    let ?l = "last_nonempty (set ?E) hi" and ?e = "last ?E"
    note peek = peek_sorted [OF ne E(3)] and l = last_nonempty_spec [of "set ?E" hi]
    have e: "?e \<in> set ?E" "?e < length (ib_req_ids b)" using ne E(2) by auto
    show ?thesis
    proof (cases "?l \<le> int ?e")
      case True
      have closed: "?occ j" if "?occ i" "j < i" for i j
      proof -
        have "int i \<le> ?l" using that(1) l by (meson linorder_not_le)
        then have "j < ?e" using that(2) True by linarith
        then have "j \<notin> set ?E" using last_is_least [OF E(4)] by (meson leD)
        then show ?thesis using that by simp
      qed
      have "condense_loop (Suc fuel) hi b = Inr (b\<lparr>ib_builder := ?u\<rparr>)" using True ne peek by (simp add: Let_def)
      moreover have "columns_ok m (b\<lparr>ib_builder := ?u\<rparr>)" "index_ok ?occ (b\<lparr>ib_builder := ?u\<rparr>)" "same_batch b (b\<lparr>ib_builder := ?u\<rparr>)"
        using cols idx by simp_all
      ultimately show ?thesis using closed by blast
    next
      case False
      let ?k = "nat ?l" and ?b = "b\<lparr>ib_builder := ?u\<lparr>bu_removed := butlast ?E\<rparr>\<rparr>"
      have k: "?occ ?k" "?k < length (ib_req_ids b)" "?e < ?k" "?l = int ?k" using False l hi by auto
      have "\<not> ?occ ?e" using e(1) by simp
      from move_step [of m ?b ?occ ?k ?e] cols idx k e this np obtain rid tables
        where run: "move_common ?k ?e ?b = Inr (move_rows ?k ?e rid tables ?b)"
          and moved: "columns_ok m (move_all ?k ?e rid tables ?b)" "index_ok (\<lambda>i. (?occ i \<or> i = ?e) \<and> i \<noteq> ?k) (move_all ?k ?e rid tables ?b)"
            "same_batch ?b (move_all ?k ?e rid tables ?b)" by auto
      let ?b' = "move_all ?k ?e rid tables ?b"
      have u': "bu_removed (ib_builder ?b') = butlast ?E" "bu_sorted (ib_builder ?b')" "\<not> ib_is_pooling_model ?b'"
        "\<not> ib_is_pooling_model (move_rows ?k ?e rid tables ?b)" "length (ib_req_ids ?b') = length (ib_req_ids b)"
        using E(3) np by (simp_all add: move_all_defs)
      have above: "i \<in> set ?E" if "i \<le> hi" "?k < i" for i using l that k(4) by simp
      have occ': "((?occ i \<or> i = ?e) \<and> i \<noteq> ?k) = (i \<le> ?k - 1 \<and> i \<notin> set (butlast ?E))" for i
        unfolding set_butlast_distinct [OF E(1) ne] using k(1,3) above [of i] by (cases i ?k rule: linorder_cases) auto
      have "condensing m (?k - 1) ?b'"
        unfolding condensing_def Let_def u'
        using moved(1) index_ok_cong [OF moved(2) occ'] u' k E set_butlast_distinct [OF E(1) ne]
        by (auto simp: distinct_butlast sorted_rev_butlast)
      moreover have "length (bu_removed (ib_builder ?b')) < fuel" using Suc.prems(2) ne u'(1) by (cases ?E) auto
      ultimately obtain b2 occ2 where "condense_loop fuel (?k - 1) ?b' = Inr b2" "columns_ok m b2" "index_ok occ2 b2" "same_batch ?b' b2"
        "\<forall>i j. i < length (ib_req_ids b2) \<and> occ2 i \<and> j < i \<longrightarrow> occ2 j" using Suc.IH by blast
      moreover have "same_batch b ?b" by simp
      then have "same_batch b b2" using \<open>same_batch ?b' b2\<close> moved(3) same_batch_trans by blast
      moreover have "condense_loop (Suc fuel) hi b = condense_loop fuel (?k - 1) ?b'"
        using ne peek False run u'(4) by (simp add: Let_def move_all_def)
      ultimately show ?thesis by metis
    qed
  qed
qed simp

lemma batch_length:
  assumes "batch_inv m b"
  shows "length (ib_req_ids b) = ib_num_reqs b + length (bu_removed (ib_builder b))"
proof -
  let ?E = "bu_removed (ib_builder b)" and ?n = "length (ib_req_ids b)"
  have E: "distinct ?E" "set ?E \<subseteq> {..<?n}" using assms by (auto simp: batch_inv_def removed_ok_def Let_def)
  have "ib_num_reqs b = card ({..<?n} - set ?E)"
    using index_card [of "\<lambda>i. i \<notin> set ?E" b] assms unfolding batch_inv_def
    by (metis (no_types, lifting) Collect_cong lessThan_iff set_diff_eq)
  also have "\<dots> = ?n - length ?E" using E by (simp add: card_Diff_subset distinct_card)
  finally show ?thesis using card_mono [OF _ E(2)] distinct_card [OF E(1)] by simp
qed

lemma sorted_ensured: "removed_ok b \<Longrightarrow> removed_ok (b\<lparr>ib_builder := ensure_removed_sorted (ib_builder b)\<rparr>)"
  by (simp add: removed_ok_def ensure_removed_sorted_def Let_def)

lemma ensured [simp]:
  "set (bu_removed (ensure_removed_sorted u)) = set (bu_removed u)" "length (bu_removed (ensure_removed_sorted u)) = length (bu_removed u)"
  "bu_sorted (ensure_removed_sorted u)" "bu_removed (ensure_removed_sorted u) = [] \<longleftrightarrow> bu_removed u = []"
  by (simp_all add: ensure_removed_sorted_def flip: length_0_conv)

definition trim :: "nat \<Rightarrow> input_batch \<Rightarrow> input_batch" where
  "trim n b = b\<lparr>ib_req_ids := take n (ib_req_ids b), ib_output_token_ids := take n (ib_output_token_ids b),
     ib_spec_token_ids := take n (ib_spec_token_ids b)\<rparr>"

lemma trim_ok:
  assumes "columns_ok m b" "index_ok occ b" "n \<le> length (ib_req_ids b)" "\<forall>i < length (ib_req_ids b). occ i \<longleftrightarrow> i < n"
  shows "columns_ok m (trim n b)" "index_ok (\<lambda>_. True) (trim n b)" "batch_abs (trim n b) = batch_abs b"
    "length (ib_req_ids (trim n b)) = n"
proof -
  show "columns_ok m (trim n b)" using assms(1) by (simp add: columns_ok_def lengths_ok_def tokens_ok_def trim_def)
  show "length (ib_req_ids (trim n b)) = n" using assms(3) by (simp add: trim_def)
  have look: "map_of (ib_req_id_to_index b) r = Some i \<longleftrightarrow> i < n \<and> ib_req_ids b ! i = Some r" for r i
  proof -
    have "map_of (ib_req_id_to_index b) r = Some i \<longleftrightarrow> i < length (ib_req_ids b) \<and> ib_req_ids b ! i = Some r"
      using assms(2) by (simp add: index_ok_def)
    moreover have "i < length (ib_req_ids b) \<Longrightarrow> ib_req_ids b ! i \<noteq> None \<longleftrightarrow> i < n" using assms(2,4) by (simp add: index_ok_def)
    ultimately show ?thesis using assms(3) by auto
  qed
  show "index_ok (\<lambda>_. True) (trim n b)"
    using assms(2-4) look unfolding index_ok_def trim_def by (auto simp: min_absorb2)
  show "batch_abs (trim n b) = batch_abs b"
  proof
    fix r
    have ix: "ib_req_id_to_index (trim n b) = ib_req_id_to_index b" by (simp add: trim_def)
    have "row_at (trim n b) i = row_at b i" if "map_of (ib_req_id_to_index b) r = Some i" for i
      using that look by (simp add: row_at_def trim_def)
    then show "batch_abs (trim n b) r = batch_abs b r"
      unfolding batch_abs_def ix by (cases "map_of (ib_req_id_to_index b) r") simp_all
  qed
qed

lemma condense_run:
  assumes inv: "batch_inv m b"
  shows "\<exists>b'. condense b = Inr b' \<and> columns_ok m b' \<and> index_ok (\<lambda>_. True) b' \<and> length (ib_req_ids b') = ib_num_reqs b \<and>
    batch_abs b' = batch_abs b \<and> \<not> ib_is_pooling_model b' \<and> same_keyed b b'"
proof -
  let ?b = "b\<lparr>ib_builder := ensure_removed_sorted (ib_builder b)\<rparr>" and ?n = "ib_num_reqs b"
  let ?E = "bu_removed (ib_builder ?b)"
  have cols: "columns_ok m ?b" and np: "\<not> ib_is_pooling_model ?b" and rem: "removed_ok ?b"
    and idx: "index_ok (\<lambda>i. i \<notin> set ?E) ?b" using inv sorted_ensured by (simp_all add: batch_inv_def)
  have len: "length (ib_req_ids ?b) = ?n + length ?E" using batch_length [OF inv] by simp
  have abs: "batch_abs ?b = batch_abs b" by simp
  consider "?E = []" | "?E \<noteq> []" "?n = 0" | "?E \<noteq> []" "?n \<noteq> 0" by blast
  then show ?thesis
  proof cases
    case 1
    then have "condense b = Inr ?b" by (simp add: condense_def Let_def)
    moreover have "index_ok (\<lambda>_. True) ?b" using idx 1 by (auto intro: index_ok_cong)
    ultimately show ?thesis using cols np len 1 abs by auto
  next
    case 2
    then have "condense b = Inr (trim 0 ?b)" by (simp add: condense_def Let_def trim_def)
    moreover have "\<forall>i < length (ib_req_ids ?b). i \<notin> set ?E \<longleftrightarrow> i < 0"
      using index_card [OF idx] 2(2) by (auto simp: ib_num_reqs_def)
    note trim = trim_ok [OF cols idx le0 this]
    moreover have "same_keyed b (trim 0 ?b)" by (simp add: same_keyed_def trim_def)
    ultimately show ?thesis using trim np 2(2) abs by (auto simp: trim_def)
  next
    case 3
    let ?hi = "?n + length ?E - 1"
    have "index_ok (\<lambda>i. i \<le> ?hi \<and> i \<notin> set ?E) ?b"
      by (rule index_ok_cong [OF idx]) (use len in auto)
    then have "condensing m ?hi ?b"
      unfolding condensing_def Let_def using cols np rem len 3
      by (auto simp: removed_ok_def Let_def)
    from condense_loop_ok [OF this, of "length ?E + 1"] obtain b1 occ where b1: "condense_loop (length ?E + 1) ?hi ?b = Inr b1"
      "columns_ok m b1" "index_ok occ b1" "same_batch ?b b1" and closed: "\<And>i j. i < length (ib_req_ids b1) \<Longrightarrow> occ i \<Longrightarrow> j < i \<Longrightarrow> occ j"
      by auto
    have n: "ib_num_reqs b1 = ?n" "length (ib_req_ids b1) = ?n + length ?E" using b1(4) len by (simp_all add: same_batch_def ib_num_reqs_def)
    let ?S = "{i. i < length (ib_req_ids b1) \<and> occ i}"
    have "?S = {..<card ?S}" by (rule downward_closed_card) (auto intro: closed)
    then have "?S = {..<?n}" using index_card [OF b1(3)] n(1) by simp
    then have "\<forall>i < length (ib_req_ids b1). occ i \<longleftrightarrow> i < ?n" by blast
    note trim = trim_ok [OF b1(2,3) _ this]
    have "condense b = Inr (trim ?n b1)" using 3 b1(1) by (simp add: condense_def Let_def trim_def)
    moreover have "\<not> ib_is_pooling_model (trim ?n b1)" using b1(4) np by (simp add: trim_def same_batch_def)
    moreover have "same_keyed b (trim ?n b1)" using b1(4) by (simp add: same_batch_def same_keyed_def trim_def)
    ultimately show ?thesis using trim n b1(4) abs by (auto simp: same_batch_def)
  qed
qed

lemma condensed_inv:
  assumes "columns_ok m b" "index_ok (\<lambda>_. True) b" "\<not> ib_is_pooling_model b"
  shows "batch_inv m (snd (snd (refresh_metadata b)))" "batch_abs (snd (snd (refresh_metadata b))) = batch_abs b"
    "same_keyed b (snd (snd (refresh_metadata b)))" "\<not> bu_sorted (ib_builder (snd (snd (refresh_metadata b))))"
    "bu_removed (ib_builder (snd (snd (refresh_metadata b)))) = []"
proof -
  obtain up u where u: "get_and_reset (ib_num_reqs b) (ib_builder b) = (up, u)" by fastforce
  then have "bu_removed u = []" "\<not> bu_sorted u" by (auto simp: get_and_reset_def Let_def split: if_splits)
  with assms u show "batch_inv m (snd (snd (refresh_metadata b)))" "batch_abs (snd (snd (refresh_metadata b))) = batch_abs b"
    "same_keyed b (snd (snd (refresh_metadata b)))" "\<not> bu_sorted (ib_builder (snd (snd (refresh_metadata b))))"
    "bu_removed (ib_builder (snd (snd (refresh_metadata b)))) = []"
    by (simp_all add: refresh_metadata_def batch_inv_def removed_ok_def)
qed

end
