(* ===== verification/Input_Batch_Run.thy ===== *)
theory Input_Batch_Run
  imports Input_Batch_Map
begin

text \<open>
  Adding and removing requests of the persistent batch, seen through \<open>batch_abs\<close>: removing takes one
  request out of the map, adding puts one in, and the sets of requests kept beside the columns
  (\<open>keyed_ok\<close>) say exactly which rows have a parameter that needs work in the sampler.
\<close>

section \<open>Sets of requests\<close>

definition rv_top_p :: "row_view \<Rightarrow> real" where
  "rv_top_p v = fst (snd (rv_sampling v))"

definition rv_top_k :: "row_view \<Rightarrow> int" where
  "rv_top_k v = fst (snd (snd (rv_sampling v)))"

definition rv_frequency :: "row_view \<Rightarrow> real" where
  "rv_frequency v = fst (snd (snd (snd (rv_sampling v))))"

definition rv_presence :: "row_view \<Rightarrow> real" where
  "rv_presence v = fst (snd (snd (snd (snd (rv_sampling v)))))"

definition rv_repetition :: "row_view \<Rightarrow> real" where
  "rv_repetition v = snd (snd (snd (snd (snd (rv_sampling v)))))"

definition rv_lora :: "row_view \<Rightarrow> nat" where
  "rv_lora v = snd (snd (snd (snd (snd (rv_counts v)))))"

lemmas rv_defs = rv_top_p_def rv_top_k_def rv_frequency_def rv_presence_def rv_repetition_def rv_lora_def

definition where_rows :: "(string \<Rightarrow> row_view option) \<Rightarrow> (row_view \<Rightarrow> bool) \<Rightarrow> string set" where
  "where_rows A P = {rid. \<exists>v. A rid = Some v \<and> P v}"

lemma where_rows_remove: "where_rows (A(rid := None)) P = where_rows A P - {rid}"
  by (auto simp: where_rows_def)

lemma where_rows_add: "A rid = None \<Longrightarrow> where_rows (A(rid \<mapsto> v)) P = add_if (P v) rid (where_rows A P)"
  by (auto simp: where_rows_def add_if_def)

definition lora_ok :: "(string \<Rightarrow> row_view option) \<Rightarrow> (nat, string set) odict \<Rightarrow> (nat, string) odict \<Rightarrow> bool" where
  "lora_ok A ids reqs \<longleftrightarrow> (\<forall>l. l \<noteq> 0 \<longrightarrow>
     map_of ids l = (if where_rows A (\<lambda>v. rv_lora v = l) = {} then None else Some (where_rows A (\<lambda>v. rv_lora v = l))) \<and>
     (map_of reqs l = None \<longleftrightarrow> where_rows A (\<lambda>v. rv_lora v = l) = {}))"

definition sets_ok :: "input_batch \<Rightarrow> bool" where
  "sets_ok b \<longleftrightarrow>
     ib_top_p_reqs b = where_rows (batch_abs b) (\<lambda>v. rv_top_p v < 1) \<and>
     ib_top_k_reqs b = where_rows (batch_abs b) (\<lambda>v. rv_top_k v \<noteq> int (ib_vocab_size b)) \<and>
     ib_frequency_reqs b = where_rows (batch_abs b) (\<lambda>v. rv_frequency v \<noteq> 0) \<and>
     ib_presence_reqs b = where_rows (batch_abs b) (\<lambda>v. rv_presence v \<noteq> 0) \<and>
     ib_repetition_reqs b = where_rows (batch_abs b) (\<lambda>v. rv_repetition v \<noteq> 1) \<and>
     ib_greedy_reqs b \<union> ib_random_reqs b = where_rows (batch_abs b) (\<lambda>_. True) \<and> ib_greedy_reqs b \<inter> ib_random_reqs b = {}"

definition keyed_ok :: "input_batch \<Rightarrow> bool" where
  "keyed_ok b \<longleftrightarrow> sets_ok b \<and> lora_ok (batch_abs b) (ib_lora_id_to_request_ids b) (ib_lora_id_to_lora_request b)"

lemma keyed_ok_same:
  assumes "keyed_ok b" "batch_abs b' = batch_abs b" "same_keyed b b'"
  shows "keyed_ok b'"
  using assms by (simp add: keyed_ok_def sets_ok_def same_keyed_def)

section \<open>Removing a request\<close>

lemma remove_lora_run:
  assumes ok: "lora_ok A (ib_lora_id_to_request_ids b) (ib_lora_id_to_lora_request b)"
    and v: "A rid = Some v" "rv_lora v = ib_lora_mapping b ! i"
  shows "\<exists>ids reqs. remove_lora rid i b =
      Inr (b\<lparr>ib_lora_id_to_request_ids := ids, ib_lora_id_to_lora_request := reqs, ib_lora_mapping := (ib_lora_mapping b)[i := 0]\<rparr>) \<and>
    lora_ok (A(rid := None)) ids reqs"
proof -
  let ?L = "ib_lora_mapping b ! i" and ?ids = "ib_lora_id_to_request_ids b" and ?reqs = "ib_lora_id_to_lora_request b"
  let ?S = "\<lambda>l. where_rows A (\<lambda>v. rv_lora v = l)"
  have new: "where_rows (A(rid := None)) (\<lambda>v. rv_lora v = l) = (if l = ?L then ?S l - {rid} else ?S l)" for l
    using v by (auto simp: where_rows_def)
  have old: "map_of ?ids l = (if ?S l = {} then None else Some (?S l))" "map_of ?reqs l = None \<longleftrightarrow> ?S l = {}" if "l \<noteq> 0" for l
    using ok that by (simp_all add: lora_ok_def)
  show ?thesis
  proof (cases "?L = 0")
    case True
    have "lora_ok (A(rid := None)) ?ids ?reqs" unfolding lora_ok_def new using old True by auto
    moreover have "(ib_lora_mapping b)[i := 0] = ib_lora_mapping b" using True by (metis list_update_id)
    ultimately show ?thesis using True by (intro exI [of _ ?ids] exI [of _ ?reqs]) (simp add: remove_lora_def Let_def)
  next
    case False
    have rid: "rid \<in> ?S ?L" using v by (simp add: where_rows_def)
    then have L: "map_of ?ids ?L = Some (?S ?L)" "map_of ?reqs ?L \<noteq> None" using old [OF False] by auto
    show ?thesis
    proof (cases "?S ?L - {rid} = {}")
      case True
      have "lora_ok (A(rid := None)) (AList.delete ?L (AList.update ?L (?S ?L - {rid}) ?ids)) (AList.delete ?L ?reqs)"
        unfolding lora_ok_def new using True old by (auto simp: delete_conv' update_conv')
      moreover have "remove_lora rid i b = Inr (b\<lparr>ib_lora_id_to_request_ids := AList.delete ?L (AList.update ?L (?S ?L - {rid}) ?ids),
          ib_lora_id_to_lora_request := AList.delete ?L ?reqs, ib_lora_mapping := (ib_lora_mapping b)[i := 0]\<rparr>)"
        using True False L unfolding remove_lora_def by (auto simp: Let_def od_lookup_def)
      ultimately show ?thesis by blast
    next
      case ne: False
      have "lora_ok (A(rid := None)) (AList.update ?L (?S ?L - {rid}) ?ids) ?reqs"
        unfolding lora_ok_def new using ne rid old by (auto simp: update_conv')
      moreover have "remove_lora rid i b = Inr (b\<lparr>ib_lora_id_to_request_ids := AList.update ?L (?S ?L - {rid}) ?ids,
          ib_lora_id_to_lora_request := ?reqs, ib_lora_mapping := (ib_lora_mapping b)[i := 0]\<rparr>)"
        using ne False L(1) unfolding remove_lora_def by (simp add: Let_def od_lookup_def)
      ultimately show ?thesis by blast
    qed
  qed
qed

definition cleared_batch ::
  "string \<Rightarrow> nat \<Rightarrow> batch_update_builder \<Rightarrow> (nat, string set) odict \<Rightarrow> (nat, string) odict \<Rightarrow> input_batch \<Rightarrow> input_batch" where
  "cleared_batch rid i u ids reqs b = remove_sampling rid i
     (b\<lparr>ib_req_id_to_index := AList.delete rid (ib_req_id_to_index b), ib_builder := u,
        ib_req_ids := (ib_req_ids b)[i := None], ib_output_token_ids := (ib_output_token_ids b)[i := None],
        ib_spec_token_ids := (ib_spec_token_ids b)[i := []],
        ib_lora_id_to_request_ids := ids, ib_lora_id_to_lora_request := reqs, ib_lora_mapping := (ib_lora_mapping b)[i := 0]\<rparr>)"

lemmas cleared_defs = cleared_batch_def remove_sampling_def

lemma remove_fields:
  "ib_req_ids (cleared_batch rid i u ids reqs b) = (ib_req_ids b)[i := None]"
  "ib_req_id_to_index (cleared_batch rid i u ids reqs b) = AList.delete rid (ib_req_id_to_index b)"
  "ib_output_token_ids (cleared_batch rid i u ids reqs b) = (ib_output_token_ids b)[i := None]"
  "ib_spec_token_ids (cleared_batch rid i u ids reqs b) = (ib_spec_token_ids b)[i := []]"
  "ib_generators (cleared_batch rid i u ids reqs b) = AList.delete i (ib_generators b)"
  "ib_bad_words (cleared_batch rid i u ids reqs b) = AList.delete i (ib_bad_words b)"
  "ib_max_num_reqs (cleared_batch rid i u ids reqs b) = ib_max_num_reqs b"
  "ib_builder (cleared_batch rid i u ids reqs b) = u"
  by (simp_all add: cleared_defs)

lemma remove_columns: "columns_ok m b \<Longrightarrow> columns_ok m (cleared_batch rid i u ids reqs b)"
  by (simp add: columns_ok_def lengths_ok_def tokens_ok_def cleared_defs)

lemma remove_index:
  assumes idx: "index_ok occ b" and i: "map_of (ib_req_id_to_index b) rid = Some i"
  shows "index_ok (\<lambda>k. occ k \<and> k \<noteq> i) (cleared_batch rid i u ids reqs b)"
proof -
  let ?n = "length (ib_req_ids b)"
  have look: "map_of (ib_req_id_to_index b) r = Some k \<longleftrightarrow> k < ?n \<and> ib_req_ids b ! k = Some r" for r k
    using idx by (simp add: index_ok_def)
  have "(map_of (AList.delete rid (ib_req_id_to_index b)) r = Some k) = (k < ?n \<and> (ib_req_ids b)[i := None] ! k = Some r)" for r k
    using look [of r k] look [of rid k] look [of r i] i by (auto simp: delete_conv' nth_list_update)
  moreover have "\<forall>k < ?n. (ib_req_ids b)[i := None] ! k \<noteq> None \<longleftrightarrow> occ k \<and> k \<noteq> i"
  proof (intro allI impI)
    fix k assume "k < ?n"
    then have "ib_req_ids b ! k \<noteq> None \<longleftrightarrow> occ k" using idx by (simp add: index_ok_def)
    then show "(ib_req_ids b)[i := None] ! k \<noteq> None \<longleftrightarrow> occ k \<and> k \<noteq> i" using \<open>k < ?n\<close> by (cases "i = k") simp_all
  qed
  moreover have "\<forall>k < length (ib_spec_token_ids b). k < ?n \<and> occ k \<and> k \<noteq> i \<or> (ib_spec_token_ids b)[i := []] ! k = []"
  proof (intro allI impI)
    fix k assume "k < length (ib_spec_token_ids b)"
    moreover then have "k < ?n \<and> occ k \<or> ib_spec_token_ids b ! k = []" using idx by (simp add: index_ok_def)
    ultimately show "k < ?n \<and> occ k \<and> k \<noteq> i \<or> (ib_spec_token_ids b)[i := []] ! k = []" by (cases "i = k") auto
  qed
  moreover have "\<forall>k. map_of (AList.delete i (ib_generators b)) k \<noteq> None \<or> map_of (AList.delete i (ib_bad_words b)) k \<noteq> None \<longrightarrow>
      k < ?n \<and> occ k \<and> k \<noteq> i"
    using idx by (auto simp: index_ok_def delete_conv')
  moreover have "od_wf (AList.delete rid (ib_req_id_to_index b))" "?n \<le> ib_max_num_reqs b"
    "length (ib_output_token_ids b) = ?n" "?n \<le> length (ib_spec_token_ids b)" using idx by (simp_all add: index_ok_def)
  ultimately show ?thesis unfolding index_ok_def remove_fields length_list_update by blast
qed

lemma remove_abs:
  assumes idx: "index_ok occ b" and i: "map_of (ib_req_id_to_index b) rid = Some i"
  shows "batch_abs (cleared_batch rid i u ids reqs b) = (batch_abs b)(rid := None)"
proof
  fix r
  have new: "map_of (ib_req_id_to_index (cleared_batch rid i u ids reqs b)) r = (if r = rid then None else map_of (ib_req_id_to_index b) r)"
    by (simp add: cleared_defs delete_conv')
  have "row_at (cleared_batch rid i u ids reqs b) k = row_at b k" if "k \<noteq> i" for k
    using that by (simp add: row_at_def cleared_defs delete_conv')
  moreover have "k \<noteq> i" if "map_of (ib_req_id_to_index b) r = Some k" "r \<noteq> rid" for k
    using that i idx by (auto simp: index_ok_def)
  ultimately show "batch_abs (cleared_batch rid i u ids reqs b) r = ((batch_abs b)(rid := None)) r"
    unfolding batch_abs_def new by (cases "map_of (ib_req_id_to_index b) r") auto
qed

lemma remove_run:
  assumes inv: "batch_inv m b" and keyed: "keyed_ok b" and sorted: "\<not> bu_sorted (ib_builder b)"
    and i: "map_of (ib_req_id_to_index b) rid = Some i"
  shows "\<exists>b'. ib_remove_request rid b = Inr (Some i, b') \<and> batch_inv m b' \<and> keyed_ok b' \<and> \<not> bu_sorted (ib_builder b') \<and>
    batch_abs b' = (batch_abs b)(rid := None)"
proof -
  let ?E = "bu_removed (ib_builder b)" and ?u = "(ib_builder b)\<lparr>bu_removed := bu_removed (ib_builder b) @ [i], bu_changed := True\<rparr>"
  have cols: "columns_ok m b" and idx: "index_ok (\<lambda>k. k \<notin> set ?E) b" and rem: "removed_ok b" and np: "\<not> ib_is_pooling_model b"
    using inv by (simp_all add: batch_inv_def)
  have i': "i < length (ib_req_ids b)" "ib_req_ids b ! i = Some rid" "i < length (ib_output_token_ids b)" "i < length (ib_spec_token_ids b)"
    using i idx by (auto simp: index_ok_def)
  then have free: "i \<notin> set ?E" using idx by (auto simp: index_ok_def)
  let ?b = "b\<lparr>ib_req_id_to_index := AList.delete rid (ib_req_id_to_index b), ib_builder := ?u,
     ib_req_ids := (ib_req_ids b)[i := None], ib_output_token_ids := (ib_output_token_ids b)[i := None],
     ib_spec_token_ids := (ib_spec_token_ids b)[i := []]\<rparr>"
  have v: "batch_abs b rid = Some (row_at b i)" "rv_lora (row_at b i) = ib_lora_mapping ?b ! i"
    using i by (simp_all add: batch_abs_def rv_lora_def row_at_def)
  have "lora_ok (batch_abs b) (ib_lora_id_to_request_ids ?b) (ib_lora_id_to_lora_request ?b)" using keyed by (simp add: keyed_ok_def)
  from remove_lora_run [OF this v] obtain ids reqs
    where lora: "remove_lora rid i ?b = Inr (?b\<lparr>ib_lora_id_to_request_ids := ids, ib_lora_id_to_lora_request := reqs,
        ib_lora_mapping := (ib_lora_mapping ?b)[i := 0]\<rparr>)" "lora_ok ((batch_abs b)(rid := None)) ids reqs" by blast
  let ?b' = "cleared_batch rid i ?u ids reqs b"
  have "ib_remove_request rid b = Inr (Some i, ?b')"
    using i i' sorted lora(1) np by (simp add: ib_remove_request_def removed_append_def cleared_batch_def)
  moreover have abs: "batch_abs ?b' = (batch_abs b)(rid := None)" by (rule remove_abs [OF idx i])
  moreover have "batch_inv m ?b'"
  proof -
    have "removed_ok ?b'" using rem free i'(1) sorted by (simp add: removed_ok_def cleared_defs Let_def)
    moreover have "set (bu_removed (ib_builder ?b')) = insert i (set ?E)" by (simp add: cleared_defs)
    then have "index_ok (\<lambda>k. k \<notin> set (bu_removed (ib_builder ?b'))) ?b'"
      using index_ok_cong [OF remove_index [OF idx i], of _ _ _ "\<lambda>k. k \<notin> set (bu_removed (ib_builder ?b'))"] by auto
    moreover have "\<not> ib_is_pooling_model ?b'" using np by (simp add: cleared_defs)
    ultimately show ?thesis using remove_columns [OF cols] by (simp add: batch_inv_def)
  qed
  moreover have "keyed_ok ?b'"
  proof -
    have "sets_ok ?b'" using keyed unfolding keyed_ok_def sets_ok_def abs where_rows_remove by (auto simp: cleared_defs)
    moreover have "ib_lora_id_to_request_ids ?b' = ids" "ib_lora_id_to_lora_request ?b' = reqs" by (simp_all add: cleared_defs)
    ultimately show ?thesis using lora(2) by (simp add: keyed_ok_def abs)
  qed
  moreover have "\<not> bu_sorted (ib_builder ?b')" using sorted by (simp add: cleared_defs)
  ultimately show ?thesis by blast
qed

section \<open>Adding a request\<close>

definition ids_fit :: "int list list \<Rightarrow> block_table list \<Rightarrow> bool" where
  "ids_fit block_ids tables \<longleftrightarrow>
     list_all2 (\<lambda>ids t. int32_ids (kernel_ids t ids) \<and> length (kernel_ids t ids) \<le> max_num_blocks_per_req t) block_ids tables"

definition kernel_rows :: "int list list \<Rightarrow> block_table list \<Rightarrow> int list list" where
  "kernel_rows block_ids tables = map2 (\<lambda>ids t. kernel_ids t ids) block_ids tables"

lemma rmap_map: "rmap f (map g xs) = rmap (\<lambda>x. f (g x)) xs"
  by (induction xs) simp_all

lemma rmap_cong_set: "(\<And>x. x \<in> set xs \<Longrightarrow> f x = g x) \<Longrightarrow> rmap f xs = rmap g xs"
  by (induction xs) simp_all

lemma zip_nth: "length xs = length ys \<Longrightarrow> zip xs ys = map (\<lambda>k. (xs ! k, ys ! k)) [0..<length ys]"
  by (rule nth_equalityI) simp_all

lemma with_ids_zip:
  assumes "length block_ids = length tables"
  shows "with_ids f block_ids tables = rmap (\<lambda>(ids, t). f ids t) (zip block_ids tables)"
proof -
  have "with_ids f block_ids tables = rmap (\<lambda>k. f (block_ids ! k) (tables ! k)) [0..<length tables]"
    unfolding with_ids_def zip_nth [of "[0..<length tables]" tables, simplified] rmap_map
    by (rule rmap_cong_set) (use assms in \<open>simp add: py_get_def\<close>)
  then show ?thesis unfolding zip_nth [OF assms] rmap_map by simp
qed

lemma mg_add_row_rows:
  assumes "tables_ok n tables" "i < n" "ids_fit block_ids tables"
  shows "\<exists>tables'. mg_add_row block_ids i tables = Inr tables' \<and> tables_ok n tables' \<and>
    (\<forall>k < n. map (\<lambda>t. row_blocks t k) tables' = (if k = i then kernel_rows block_ids tables else map (\<lambda>t. row_blocks t k) tables))"
proof -
  have len: "length block_ids = length tables" using assms(3) by (simp add: ids_fit_def list_all2_lengthD)
  have "\<exists>tables'. rmap (\<lambda>(ids, t). add_row ids i t) (zip block_ids tables) = Inr tables' \<and> tables_ok n tables' \<and>
    (\<forall>k < n. map (\<lambda>t. row_blocks t k) tables' = (if k = i then kernel_rows block_ids tables else map (\<lambda>t. row_blocks t k) tables))"
    using assms(3) [unfolded ids_fit_def] assms(1)
  proof (induction rule: list_all2_induct)
    case Nil
    then show ?case by (simp add: tables_ok_def kernel_rows_def)
  next
    case (Cons ids block_ids t tables)
    then have t: "table_wf t" "num_rows t = n" by (simp_all add: tables_ok_def)
    from add_row_rows [OF t(1), of i ids] Cons(1) t(2) assms(2) obtain t' where t': "add_row ids i t = Inr t'" "table_wf t'" "same_layout t t'"
      "table_abs t' = (table_abs t)[i := kernel_ids t ids]" by auto
    then have row: "row_blocks t' k = (if k = i then kernel_ids t ids else row_blocks t k)" if "k < n" for k
      using table_rows [of t' "\<lambda>xs. xs[i := kernel_ids t ids]" t k] that t assms(2)
      by (simp add: same_layout_def nth_list_update table_abs_def)
    from Cons.IH Cons.prems obtain tables' where "rmap (\<lambda>(ids, t). add_row ids i t) (zip block_ids tables) = Inr tables'" "tables_ok n tables'"
      "\<forall>k < n. map (\<lambda>t. row_blocks t k) tables' = (if k = i then kernel_rows block_ids tables else map (\<lambda>t. row_blocks t k) tables)"
      by (auto simp: tables_ok_def)
    with t' row t show ?case by (auto simp: tables_ok_def kernel_rows_def same_layout_def)
  qed
  then show ?thesis by (simp add: mg_add_row_def with_ids_zip [OF len])
qed

text \<open>Registering takes the smallest hole, or the index behind the last request.\<close>

lemma register_run:
  assumes inv: "batch_inv m b" and room: "ib_num_reqs b < ib_max_num_reqs b"
  shows "\<exists>i u. register_add_request r b = Inr (i, b\<lparr>ib_builder := u\<rparr>) \<and> i \<le> length (ib_req_ids b) \<and> i < ib_max_num_reqs b \<and>
    (i < length (ib_req_ids b) \<longrightarrow> i \<in> set (bu_removed (ib_builder b))) \<and>
    (\<forall>k. (k \<notin> set (bu_removed u)) = (k \<notin> set (bu_removed (ib_builder b)) \<or> k = i)) \<and>
    distinct (bu_removed u) \<and> (bu_sorted u \<longrightarrow> sorted (rev (bu_removed u)))"
proof -
  let ?E = "bu_removed (ib_builder b)"
  define u0 where "u0 = ensure_removed_sorted (ib_builder b)"
  let ?R = "bu_removed u0"
  have rem: "removed_ok b" and max: "length (ib_req_ids b) \<le> ib_max_num_reqs b" using inv by (simp_all add: batch_inv_def index_ok_def)
  from sorted_ensured [OF rem] have E0: "distinct ?R" "\<forall>i \<in> set ?R. i < length (ib_req_ids b)" "sorted (rev ?R)" "set ?R = set ?E" "?R = [] \<longleftrightarrow> ?E = []"
    by (simp_all add: removed_ok_def u0_def Let_def)
  show ?thesis
  proof (cases "?E = []")
    case True
    then have len: "ib_num_reqs b = length (ib_req_ids b)" using batch_length [OF inv] by simp
    then show ?thesis using True room by (auto simp: register_add_request_def pop_removed_def Let_def split: option.splits)
  next
    case False
    then have ne: "?R \<noteq> []" using E0(5) by simp
    then have l: "last ?R \<in> set ?E" "last ?R < length (ib_req_ids b)" using E0(2,4) last_in_set by blast+
    have set: "set (butlast ?R) = set ?E - {last ?R}" using set_butlast_distinct [OF E0(1) ne] E0(4) by simp
    have pop: "pop_removed (ib_builder b) = (Some (last ?R), u0\<lparr>bu_removed := butlast ?R\<rparr>)"
      using False by (simp add: pop_removed_def u0_def Let_def)
    have "\<exists>u. register_add_request r b = Inr (last ?R, b\<lparr>ib_builder := u\<rparr>) \<and> bu_removed u = butlast ?R"
      using l max by (cases "cr_sampling_params r") (auto simp: register_add_request_def pop Let_def)
    then obtain u where u: "register_add_request r b = Inr (last ?R, b\<lparr>ib_builder := u\<rparr>)" "bu_removed u = butlast ?R" by blast
    then show ?thesis using l max set E0 by (intro exI [of _ "last ?R"] exI [of _ u]) (auto simp: distinct_butlast sorted_rev_butlast)
  qed
qed

definition placed :: "cached_request_state \<Rightarrow> nat \<Rightarrow> (nat \<Rightarrow> bool) \<Rightarrow> input_batch \<Rightarrow> string option list \<Rightarrow> int list option list \<Rightarrow> int list list \<Rightarrow> bool" where
  "placed r i occ b names outs specs \<longleftrightarrow>
    length names = max (length (ib_req_ids b)) (Suc i) \<and> length outs = length names \<and> length names \<le> length specs \<and>
    (\<forall>k < length names. names ! k = (if k = i then Some (cr_req_id r) else ib_req_ids b ! k)) \<and>
    (\<forall>k < length names. outs ! k = (if k = i then Some (cr_output_token_ids r) else ib_output_token_ids b ! k)) \<and>
    (\<forall>k < length names. k < length (ib_req_ids b) \<longrightarrow> k \<noteq> i \<longrightarrow> specs ! k = ib_spec_token_ids b ! k) \<and> specs ! i = [] \<and>
    (\<forall>k < length specs. k < length (ib_req_ids b) \<and> occ k \<or> specs ! k = [])"

definition place_all ::
  "cached_request_state \<Rightarrow> nat \<Rightarrow> string option list \<Rightarrow> int list option list \<Rightarrow> int list list \<Rightarrow> batch_update_builder \<Rightarrow> input_batch \<Rightarrow> input_batch" where
  "place_all r i names outs specs u b = b\<lparr>ib_builder := u, ib_req_ids := names, ib_output_token_ids := outs, ib_spec_token_ids := specs,
     ib_req_id_to_index := AList.update (cr_req_id r) i (ib_req_id_to_index b)\<rparr>"

lemma place_run:
  assumes idx: "index_ok occ b" and i: "i \<le> length (ib_req_ids b)" "i < length (ib_req_ids b) \<longrightarrow> \<not> occ i"
  shows "\<exists>names outs specs. place_request r i (b\<lparr>ib_builder := u\<rparr>) = Inr (place_all r i names outs specs u b) \<and> placed r i occ b names outs specs"
proof (cases "i = length (ib_req_ids b)")
  case True
  let ?S = "ib_spec_token_ids b"
  have S: "length (ib_req_ids b) \<le> length ?S" "\<forall>k < length ?S. k < length (ib_req_ids b) \<and> occ k \<or> ?S ! k = []"
    "length (ib_output_token_ids b) = length (ib_req_ids b)" using idx by (simp_all add: index_ok_def)
  then have "(?S @ [[]]) ! i = []" using True by (cases "i < length ?S") (auto simp: nth_append)
  moreover have "\<forall>k < length (?S @ [[]]). k < length (ib_req_ids b) \<and> occ k \<or> (?S @ [[]]) ! k = []"
    using S(2) by (auto simp: nth_append less_Suc_eq)
  ultimately show ?thesis using True S
    by (intro exI [of _ "ib_req_ids b @ [Some (cr_req_id r)]"] exI [of _ "ib_output_token_ids b @ [Some (cr_output_token_ids r)]"]
        exI [of _ "?S @ [[]]"]) (auto simp: place_request_def place_all_def placed_def nth_append)
next
  case False
  then have lt: "i < length (ib_req_ids b)" "\<not> occ i" using i by auto
  have S: "length (ib_req_ids b) \<le> length (ib_spec_token_ids b)" "length (ib_output_token_ids b) = length (ib_req_ids b)"
    "\<forall>k < length (ib_spec_token_ids b). k < length (ib_req_ids b) \<and> occ k \<or> ib_spec_token_ids b ! k = []"
    using idx by (simp_all add: index_ok_def)
  then have "\<forall>k < length (ib_spec_token_ids b). k < length (ib_req_ids b) \<and> occ k \<or> (ib_spec_token_ids b)[i := []] ! k = []"
    using lt by (auto simp: nth_list_update)
  with lt S(1,2) False show ?thesis
    by (intro exI [of _ "(ib_req_ids b)[i := Some (cr_req_id r)]"] exI [of _ "(ib_output_token_ids b)[i := Some (cr_output_token_ids r)]"]
        exI [of _ "(ib_spec_token_ids b)[i := []]"]) (auto simp: place_request_def place_all_def placed_def nth_list_update)
qed

text \<open>The request as a row, and the batch with the row written.\<close>

definition new_row :: "cached_request_state \<Rightarrow> sample_params \<Rightarrow> int list \<Rightarrow> nat \<Rightarrow> block_table list \<Rightarrow> row_view" where
  "new_row r sp prompt vocab tables =
     (let n = length prompt + length (cr_output_token_ids r);
          limited = (0 < sp_top_k sp \<and> sp_top_k sp < int vocab) in
      \<lparr>rv_tokens = prompt @ cr_output_token_ids r, rv_flags = replicate n True,
       rv_counts = (n, n, length prompt, cr_num_computed_tokens r, 1, case cr_lora r of None \<Rightarrow> 0 | Some (l, _) \<Rightarrow> l),
       rv_sampling = (if sp_greedy sp then 0 else sp_temperature sp, sp_top_p sp, if limited then sp_top_k sp else int vocab,
         sp_frequency_penalty sp, sp_presence_penalty sp, sp_repetition_penalty sp),
       rv_blocks = kernel_rows (cr_block_ids r) tables, rv_output = Some (cr_output_token_ids r), rv_spec = [],
       rv_generator = cr_generator r,
       rv_bad_words = (if sp_bad_words_token_ids sp = [] then None else Some (sp_bad_words_token_ids sp))\<rparr>)"

definition lora_added :: "cached_request_state \<Rightarrow> (nat, string set) odict \<Rightarrow> (nat, string set) odict" where
  "lora_added r ids = (case cr_lora r of None \<Rightarrow> ids
     | Some (l, _) \<Rightarrow> AList.update l (insert (cr_req_id r) (case map_of ids l of None \<Rightarrow> {} | Some X \<Rightarrow> X)) ids)"

definition lora_kept :: "cached_request_state \<Rightarrow> (nat, string) odict \<Rightarrow> (nat, string) odict" where
  "lora_kept r reqs = (case cr_lora r of None \<Rightarrow> reqs | Some (l, x) \<Rightarrow> AList.update l x reqs)"

definition finish_all ::
  "cached_request_state \<Rightarrow> sample_params \<Rightarrow> nat \<Rightarrow> string set \<Rightarrow> bool list list option \<Rightarrow> input_batch \<Rightarrow> input_batch" where
  "finish_all r sp i X M b = b\<lparr>ib_has_allowed := X, ib_allowed_mask := M,
     ib_bad_words := (if sp_bad_words_token_ids sp = [] then ib_bad_words b else AList.update i (sp_bad_words_token_ids sp) (ib_bad_words b)),
     ib_num_accepted := (ib_num_accepted b)[i := 1],
     ib_lora_mapping := (ib_lora_mapping b)[i := (case cr_lora r of None \<Rightarrow> 0 | Some (l, _) \<Rightarrow> l)],
     ib_lora_id_to_request_ids := lora_added r (ib_lora_id_to_request_ids b),
     ib_lora_id_to_lora_request := lora_kept r (ib_lora_id_to_lora_request b)\<rparr>"

lemma add_lora_eq: "add_lora r i b = b\<lparr>ib_lora_mapping := (ib_lora_mapping b)[i := (case cr_lora r of None \<Rightarrow> 0 | Some (l, _) \<Rightarrow> l)],
    ib_lora_id_to_request_ids := lora_added r (ib_lora_id_to_request_ids b),
    ib_lora_id_to_lora_request := lora_kept r (ib_lora_id_to_lora_request b)\<rparr>"
  by (auto simp: add_lora_def lora_added_def lora_kept_def Let_def split: option.splits)

lemma allowed_mask_run:
  fixes c :: input_batch
  assumes "\<forall>t \<in> set (sp_allowed_token_ids sp). t < ib_vocab_size c"
  shows "\<exists>X M. add_allowed_mask sp rid i c = Inr (c\<lparr>ib_has_allowed := X, ib_allowed_mask := M\<rparr>)"
proof (cases "sp_allowed_token_ids sp = []")
  case True
  then have "add_allowed_mask sp rid i c = Inr (c\<lparr>ib_has_allowed := ib_has_allowed c, ib_allowed_mask := ib_allowed_mask c\<rparr>)"
    by (simp add: add_allowed_mask_def)
  then show ?thesis by blast
next
  case False
  moreover have "\<not> list_ex (\<lambda>t. ib_vocab_size c \<le> t) (sp_allowed_token_ids sp)" using assms by (auto simp: list_ex_iff)
  ultimately show ?thesis unfolding add_allowed_mask_def Let_def by (simp only: if_False) blast
qed

lemma finish_eq:
  fixes c :: input_batch
  assumes "b' = set_bad_words sp i (c\<lparr>ib_has_allowed := X, ib_allowed_mask := M\<rparr>)"
  shows "add_lora r i (b'\<lparr>ib_num_accepted := (ib_num_accepted b')[i := 1]\<rparr>) = finish_all r sp i X M c"
  unfolding assms add_lora_eq finish_all_def set_bad_words_def by (cases "sp_bad_words_token_ids sp = []") simp_all

lemma finish_run:
  assumes "\<forall>t \<in> set (sp_allowed_token_ids sp). t < ib_vocab_size b"
  shows "\<exists>b' X M. add_sampling_params r sp i b = Inr b' \<and>
    add_lora r i (b'\<lparr>ib_num_accepted := (ib_num_accepted b')[i := 1]\<rparr>) = finish_all r sp i X M (set_sampling r sp i b)"
proof -
  have voc: "ib_vocab_size (set_sampling r sp i b) = ib_vocab_size b" by (simp add: set_sampling_def Let_def)
  from allowed_mask_run [of sp "set_sampling r sp i b" "cr_req_id r" i] assms
  obtain X M where "add_allowed_mask sp (cr_req_id r) i (set_sampling r sp i b) =
    Inr ((set_sampling r sp i b)\<lparr>ib_has_allowed := X, ib_allowed_mask := M\<rparr>)" unfolding voc by blast
  then have "add_sampling_params r sp i b = Inr (set_bad_words sp i ((set_sampling r sp i b)\<lparr>ib_has_allowed := X, ib_allowed_mask := M\<rparr>))"
    by (simp add: add_sampling_params_def)
  with finish_eq [OF refl] show ?thesis by blast
qed

lemma fill_slice_length: "start \<le> stop \<Longrightarrow> stop \<le> length xs \<Longrightarrow> length (fill_slice start stop v xs) = length xs"
  by (simp add: fill_slice_def)

lemma tokens_run:
  assumes len: "length (ib_token_ids b ! i) = m" "length (ib_is_token_ids b ! i) = m"
    and prompt: "cr_prompt_token_ids r = Some ts" "length_from_prompt (cr_prompt_token_ids r) (cr_prompt_embeds r) = Inr n"
    and fits: "n + length (cr_output_token_ids r) \<le> m"
  shows "\<exists>row flags. copy_tokens r i b = Inr (set_tokens r i n row flags b) \<and> length row = m \<and>
    take (n + length (cr_output_token_ids r)) row = ts @ cr_output_token_ids r \<and>
    length (fill_slice n (n + length (cr_output_token_ids r)) True flags) = m \<and>
    take (n + length (cr_output_token_ids r)) (fill_slice n (n + length (cr_output_token_ids r)) True flags) =
      replicate (n + length (cr_output_token_ids r)) True"
proof -
  let ?outs = "cr_output_token_ids r" and ?old = "ib_token_ids b ! i"
  have n: "n = length ts" using prompt by (auto simp: length_from_prompt_def split: option.splits if_splits)
  let ?row1 = "ts @ drop n ?old"
  let ?row = "take n ?row1 @ ?outs @ drop (n + length ?outs) ?row1" and ?flags = "fill_slice 0 n True (ib_is_token_ids b ! i)"
  have "assign_slice 0 ts ?old = Inr ?row1" using len fits n by (simp add: assign_slice_fits)
  moreover have "assign_slice n ?outs ?row1 = Inr ?row" using len fits n by (simp add: assign_slice_fits)
  ultimately have "copy_tokens r i b = Inr (set_tokens r i n ?row ?flags b)" using prompt by (simp add: copy_tokens_def)
  moreover have fl: "length ?flags = m" "take n ?flags = replicate n True" using len fits by (simp_all add: fill_slice_def)
  have "take (n + length ?outs) (fill_slice n (n + length ?outs) True ?flags) = replicate (n + length ?outs) True"
    unfolding fill_slice_def [of n] fl(2) using fl(1) fits by (simp add: replicate_add)
  moreover have "length (fill_slice n (n + length ?outs) True ?flags) = m" using fl(1) fits by (simp add: fill_slice_length)
  moreover have "length ?row = m" "take (n + length ?outs) ?row = ts @ ?outs" using len fits n by simp_all
  ultimately show ?thesis by blast
qed

definition add_all ::
  "cached_request_state \<Rightarrow> sample_params \<Rightarrow> nat \<Rightarrow> nat \<Rightarrow> int list \<Rightarrow> bool list \<Rightarrow> block_table list \<Rightarrow> string set \<Rightarrow> bool list list option \<Rightarrow>
   input_batch \<Rightarrow> input_batch" where
  "add_all r sp i n row flags tables X M b =
     finish_all r sp i X M (set_sampling r sp i ((set_tokens r i n row flags b)\<lparr>ib_block_table := tables\<rparr>))"

lemmas add_all_defs = add_all_def finish_all_def set_sampling_def set_tokens_def Let_def

lemma add_fields:
  "ib_req_ids (add_all r sp i n row flags tables X M b) = ib_req_ids b"
  "ib_req_id_to_index (add_all r sp i n row flags tables X M b) = ib_req_id_to_index b"
  "ib_output_token_ids (add_all r sp i n row flags tables X M b) = ib_output_token_ids b"
  "ib_spec_token_ids (add_all r sp i n row flags tables X M b) = ib_spec_token_ids b"
  "ib_max_num_reqs (add_all r sp i n row flags tables X M b) = ib_max_num_reqs b"
  "ib_builder (add_all r sp i n row flags tables X M b) = ib_builder b"
  "ib_is_pooling_model (add_all r sp i n row flags tables X M b) = ib_is_pooling_model b"
  "ib_vocab_size (add_all r sp i n row flags tables X M b) = ib_vocab_size b"
  "ib_generators (add_all r sp i n row flags tables X M b) =
     (case cr_generator r of None \<Rightarrow> ib_generators b | Some g \<Rightarrow> AList.update i g (ib_generators b))"
  "ib_bad_words (add_all r sp i n row flags tables X M b) =
     (if sp_bad_words_token_ids sp = [] then ib_bad_words b else AList.update i (sp_bad_words_token_ids sp) (ib_bad_words b))"
  "ib_lora_id_to_request_ids (add_all r sp i n row flags tables X M b) = lora_added r (ib_lora_id_to_request_ids b)"
  "ib_lora_id_to_lora_request (add_all r sp i n row flags tables X M b) = lora_kept r (ib_lora_id_to_lora_request b)"
  by (simp_all add: add_all_defs cong: option.case_cong)

lemma add_columns:
  assumes cols: "columns_ok m b" and rows: "length row = m" "length (fill_slice n (n + length (cr_output_token_ids r)) True flags) = m"
    "n + length (cr_output_token_ids r) \<le> m" and tables: "tables_ok (ib_max_num_reqs b) tables"
  shows "columns_ok m (add_all r sp i n row flags tables X M b)"
proof -
  have "lengths_ok (add_all r sp i n row flags tables X M b)" using cols by (simp add: columns_ok_def lengths_ok_def add_all_defs)
  moreover have "tokens_ok m (add_all r sp i n row flags tables X M b)"
  proof -
    have b: "\<forall>row \<in> set (ib_token_ids b). length row = m" "\<forall>row \<in> set (ib_is_token_ids b). length row = m" "\<forall>n \<in> set (ib_num_tokens b). n \<le> m"
      using cols by (auto simp: columns_ok_def tokens_ok_def)
    show ?thesis unfolding tokens_ok_def using rows by (simp add: add_all_defs) (intro conjI update_nth_ok b; simp)
  qed
  ultimately show ?thesis using tables by (simp add: columns_ok_def add_all_defs)
qed

lemma add_row_other:
  assumes "k \<noteq> i" "map (\<lambda>t. row_blocks t k) tables = map (\<lambda>t. row_blocks t k) (ib_block_table b)"
  shows "row_at (add_all r sp i n row flags tables X M b) k = row_at b k"
proof -
  have gen: "map_of (case cr_generator r of None \<Rightarrow> ib_generators b | Some g \<Rightarrow> AList.update i g (ib_generators b)) k = map_of (ib_generators b) k"
    using assms(1) by (cases "cr_generator r") (simp_all add: update_conv')
  have bad: "map_of (if sp_bad_words_token_ids sp = [] then ib_bad_words b else AList.update i (sp_bad_words_token_ids sp) (ib_bad_words b)) k =
      map_of (ib_bad_words b) k"
    using assms(1) by (simp add: update_conv')
  show ?thesis unfolding row_at_def add_fields gen bad using assms by (simp add: add_all_defs)
qed

lemma add_row_new:
  assumes cols: "columns_ok m b" and i: "i < ib_max_num_reqs b" and free: "map_of (ib_generators b) i = None" "map_of (ib_bad_words b) i = None"
    and rows: "take (n + length (cr_output_token_ids r)) row = ts @ cr_output_token_ids r" "n = length ts"
      "take (n + length (cr_output_token_ids r)) (fill_slice n (n + length (cr_output_token_ids r)) True flags) =
         replicate (n + length (cr_output_token_ids r)) True"
    and tables: "map (\<lambda>t. row_blocks t i) tables = kernel_rows (cr_block_ids r) tables0"
    and out: "ib_output_token_ids b ! i = Some (cr_output_token_ids r)" "ib_spec_token_ids b ! i = []"
  shows "row_at (add_all r sp i n row flags tables X M b) i = new_row r sp ts (ib_vocab_size b) tables0"
proof -
  have len: "length (ib_token_ids b) = ib_max_num_reqs b" "length (ib_is_token_ids b) = ib_max_num_reqs b" "length (ib_num_tokens b) = ib_max_num_reqs b"
     "length (ib_num_tokens_no_spec b) = ib_max_num_reqs b" "length (ib_num_prompt_tokens b) = ib_max_num_reqs b"
     "length (ib_num_computed_tokens b) = ib_max_num_reqs b" "length (ib_num_accepted b) = ib_max_num_reqs b"
     "length (ib_lora_mapping b) = ib_max_num_reqs b" "length (ib_temperature b) = ib_max_num_reqs b"
     "length (ib_top_p b) = ib_max_num_reqs b" "length (ib_top_k b) = ib_max_num_reqs b" "length (ib_frequency b) = ib_max_num_reqs b"
     "length (ib_presence b) = ib_max_num_reqs b" "length (ib_repetition b) = ib_max_num_reqs b"
    using cols by (simp_all add: columns_ok_def lengths_ok_def Let_def)
  have gen: "map_of (case cr_generator r of None \<Rightarrow> ib_generators b | Some g \<Rightarrow> AList.update i g (ib_generators b)) i = cr_generator r"
    using free by (cases "cr_generator r") (simp_all add: update_conv')
  have bad: "map_of (if sp_bad_words_token_ids sp = [] then ib_bad_words b else AList.update i (sp_bad_words_token_ids sp) (ib_bad_words b)) i =
      (if sp_bad_words_token_ids sp = [] then None else Some (sp_bad_words_token_ids sp))"
    using free by (simp add: update_conv')
  show ?thesis unfolding row_at_def add_fields gen bad new_row_def Let_def using len i rows tables out
    by (simp add: add_all_def finish_all_def set_sampling_def set_tokens_def Let_def)
qed

lemma place_fields [simp]:
  "ib_req_ids (place_all r i names outs specs u b) = names"
  "ib_req_id_to_index (place_all r i names outs specs u b) = AList.update (cr_req_id r) i (ib_req_id_to_index b)"
  "ib_output_token_ids (place_all r i names outs specs u b) = outs"
  "ib_spec_token_ids (place_all r i names outs specs u b) = specs"
  "ib_max_num_reqs (place_all r i names outs specs u b) = ib_max_num_reqs b"
  "ib_builder (place_all r i names outs specs u b) = u"
  "ib_is_pooling_model (place_all r i names outs specs u b) = ib_is_pooling_model b"
  "ib_vocab_size (place_all r i names outs specs u b) = ib_vocab_size b"
  "ib_generators (place_all r i names outs specs u b) = ib_generators b"
  "ib_bad_words (place_all r i names outs specs u b) = ib_bad_words b"
  "ib_block_table (place_all r i names outs specs u b) = ib_block_table b"
  "columns_ok m (place_all r i names outs specs u b) = columns_ok m b"
  by (simp_all add: place_all_def columns_ok_def lengths_ok_def tokens_ok_def)

lemma add_index:
  assumes idx: "index_ok occ b" and i: "i \<le> length (ib_req_ids b)" "i < length (ib_req_ids b) \<longrightarrow> \<not> occ i" "i < ib_max_num_reqs b"
    and fresh: "map_of (ib_req_id_to_index b) (cr_req_id r) = None" and pl: "placed r i occ b names outs specs"
  shows "index_ok (\<lambda>k. occ k \<or> k = i) (add_all r sp i n row flags tables X M (place_all r i names outs specs u b))"
proof -
  let ?n = "length names" and ?idx = "AList.update (cr_req_id r) i (ib_req_id_to_index b)"
  have names: "?n = max (length (ib_req_ids b)) (Suc i)" "length outs = ?n" "?n \<le> length specs"
    "\<And>k. k < ?n \<Longrightarrow> names ! k = (if k = i then Some (cr_req_id r) else ib_req_ids b ! k)"
    and specs: "\<And>k. k < length specs \<Longrightarrow> k < length (ib_req_ids b) \<and> occ k \<or> specs ! k = []"
    using pl unfolding placed_def by blast+
  have b: "od_wf (ib_req_id_to_index b)" "length (ib_req_ids b) \<le> ib_max_num_reqs b"
    "\<And>k. k < length (ib_req_ids b) \<Longrightarrow> ib_req_ids b ! k \<noteq> None \<longleftrightarrow> occ k"
    "\<And>rid k. map_of (ib_req_id_to_index b) rid = Some k \<longleftrightarrow> k < length (ib_req_ids b) \<and> ib_req_ids b ! k = Some rid"
    "\<And>k. map_of (ib_generators b) k \<noteq> None \<or> map_of (ib_bad_words b) k \<noteq> None \<Longrightarrow> k < length (ib_req_ids b) \<and> occ k"
    using idx unfolding index_ok_def by blast+
  have lt: "k < ?n \<longleftrightarrow> k < length (ib_req_ids b) \<or> k = i" for k using names(1) i(1) by (auto simp: max_def)
  have "\<forall>k < ?n. names ! k \<noteq> None \<longleftrightarrow> occ k \<or> k = i"
    using names(4) b(3) lt by (simp del: not_None_eq)
  moreover have "map_of ?idx rid = Some k \<longleftrightarrow> k < ?n \<and> names ! k = Some rid" for rid k
  proof (cases "rid = cr_req_id r")
    case True
    then have "map_of ?idx rid = Some k \<longleftrightarrow> k = i" by (auto simp: update_conv')
    moreover have "\<not> (k < length (ib_req_ids b) \<and> ib_req_ids b ! k = Some rid)" using b(4) [of rid k] fresh True by auto
    ultimately show ?thesis using names(4) [of k] lt [of k] True by auto
  next
    case False
    then have "map_of ?idx rid = Some k \<longleftrightarrow> k < length (ib_req_ids b) \<and> ib_req_ids b ! k = Some rid" using b(4) by (simp add: update_conv')
    moreover have "k \<noteq> i" if "k < length (ib_req_ids b)" "ib_req_ids b ! k = Some rid" using that i(2) b(3) [of k] by auto
    ultimately show ?thesis using names(4) [of k] lt [of k] False by (cases "k = i") auto
  qed
  moreover have "\<forall>k. map_of (case cr_generator r of None \<Rightarrow> ib_generators b | Some g \<Rightarrow> AList.update i g (ib_generators b)) k \<noteq> None \<or>
      map_of (if sp_bad_words_token_ids sp = [] then ib_bad_words b else AList.update i (sp_bad_words_token_ids sp) (ib_bad_words b)) k \<noteq> None \<longrightarrow>
      k < ?n \<and> (occ k \<or> k = i)"
    using b(5) lt by (auto simp: update_conv' split: option.splits if_splits)
  moreover have "od_wf ?idx" "?n \<le> ib_max_num_reqs b" using b(1,2) names(1) i(3) by simp_all
  moreover have "\<forall>k < length specs. k < ?n \<and> (occ k \<or> k = i) \<or> specs ! k = []" using specs lt by blast
  ultimately show ?thesis unfolding index_ok_def add_fields place_fields using names(2,3) by blast
qed

lemma add_abs:
  assumes idx: "index_ok occ b" and i: "i \<le> length (ib_req_ids b)" "i < length (ib_req_ids b) \<longrightarrow> \<not> occ i"
    and pl: "placed r i occ b names outs specs"
    and tables: "\<forall>k < ib_max_num_reqs b. k \<noteq> i \<longrightarrow> map (\<lambda>t. row_blocks t k) tables = map (\<lambda>t. row_blocks t k) (ib_block_table b)"
  shows "batch_abs (add_all r sp i n row flags tables X M (place_all r i names outs specs u b)) =
    (batch_abs b)(cr_req_id r \<mapsto> row_at (add_all r sp i n row flags tables X M (place_all r i names outs specs u b)) i)"
    (is "batch_abs ?b' = _")
proof
  fix rid
  have ix: "map_of (ib_req_id_to_index ?b') rid = (if rid = cr_req_id r then Some i else map_of (ib_req_id_to_index b) rid)"
    unfolding add_fields place_fields by (simp add: update_conv')
  have "row_at ?b' k = row_at b k" if "map_of (ib_req_id_to_index b) rid = Some k" for k
  proof -
    have k: "k < length (ib_req_ids b)" "ib_req_ids b ! k = Some rid" "k < ib_max_num_reqs b" using that idx by (auto simp: index_ok_def)
    then have "occ k" using idx by (auto simp: index_ok_def)
    then have ne: "k \<noteq> i" using i k by auto
    have "row_at ?b' k = row_at (place_all r i names outs specs u b) k"
      by (rule add_row_other) (use ne tables k in simp_all)
    also have "\<dots> = row_at b k" using pl ne k(1) by (simp add: row_at_def placed_def) (simp add: place_all_def)
    finally show ?thesis .
  qed
  then show "batch_abs ?b' rid = ((batch_abs b)(cr_req_id r \<mapsto> row_at ?b' i)) rid"
    unfolding batch_abs_def ix by (cases "map_of (ib_req_id_to_index b) rid") simp_all
qed

lemma lora_add:
  assumes ok: "lora_ok A ids reqs" and fresh: "A (cr_req_id r) = None"
    and v: "rv_lora v = (case cr_lora r of None \<Rightarrow> 0 | Some (l, _) \<Rightarrow> l)"
  shows "lora_ok (A(cr_req_id r \<mapsto> v)) (lora_added r ids) (lora_kept r reqs)"
proof -
  have old: "map_of ids l = (if where_rows A (\<lambda>v. rv_lora v = l) = {} then None else Some (where_rows A (\<lambda>v. rv_lora v = l)))"
    "map_of reqs l = None \<longleftrightarrow> where_rows A (\<lambda>v. rv_lora v = l) = {}" if "l \<noteq> 0" for l
    using ok that by (simp_all add: lora_ok_def)
  show ?thesis unfolding lora_ok_def where_rows_add [of A "cr_req_id r", OF fresh]
  proof (intro allI impI)
    fix l :: nat assume l: "l \<noteq> 0"
    show "map_of (lora_added r ids) l = (if add_if (rv_lora v = l) (cr_req_id r) (where_rows A (\<lambda>v. rv_lora v = l)) = {} then None
        else Some (add_if (rv_lora v = l) (cr_req_id r) (where_rows A (\<lambda>v. rv_lora v = l)))) \<and>
      (map_of (lora_kept r reqs) l = None \<longleftrightarrow> add_if (rv_lora v = l) (cr_req_id r) (where_rows A (\<lambda>v. rv_lora v = l)) = {})"
      using old [OF l] v l
      by (cases "cr_lora r") (auto simp: lora_added_def lora_kept_def add_if_def update_conv' split: if_splits)
  qed
qed

definition addable :: "nat \<Rightarrow> cached_request_state \<Rightarrow> sample_params \<Rightarrow> int list \<Rightarrow> input_batch \<Rightarrow> bool" where
  "addable m r sp ts b \<longleftrightarrow> map_of (ib_req_id_to_index b) (cr_req_id r) = None \<and> ib_num_reqs b < ib_max_num_reqs b \<and>
     cr_sampling_params r = Some sp \<and> cr_prompt_token_ids r = Some ts \<and>
     length_from_prompt (cr_prompt_token_ids r) (cr_prompt_embeds r) = Inr (length ts) \<and>
     length ts + length (cr_output_token_ids r) \<le> m \<and> ids_fit (cr_block_ids r) (ib_block_table b) \<and>
     (\<forall>t \<in> set (sp_allowed_token_ids sp). t < ib_vocab_size b)"

lemma add_exec:
  assumes inv: "batch_inv m b" and add: "addable m r sp ts b"
  shows "\<exists>i u names outs specs row flags tables X M.
    ib_add_request r b = Inr (i, add_all r sp i (length ts) row flags tables X M (place_all r i names outs specs u b)) \<and>
    i \<le> length (ib_req_ids b) \<and> i < ib_max_num_reqs b \<and> (i < length (ib_req_ids b) \<longrightarrow> i \<in> set (bu_removed (ib_builder b))) \<and>
    (\<forall>k. (k \<notin> set (bu_removed u)) = (k \<notin> set (bu_removed (ib_builder b)) \<or> k = i)) \<and>
    distinct (bu_removed u) \<and> (bu_sorted u \<longrightarrow> sorted (rev (bu_removed u))) \<and>
    placed r i (\<lambda>k. k \<notin> set (bu_removed (ib_builder b))) b names outs specs \<and> length row = m \<and>
    take (length ts + length (cr_output_token_ids r)) row = ts @ cr_output_token_ids r \<and>
    length (fill_slice (length ts) (length ts + length (cr_output_token_ids r)) True flags) = m \<and>
    take (length ts + length (cr_output_token_ids r)) (fill_slice (length ts) (length ts + length (cr_output_token_ids r)) True flags) =
      replicate (length ts + length (cr_output_token_ids r)) True \<and>
    tables_ok (ib_max_num_reqs b) tables \<and>
    (\<forall>k < ib_max_num_reqs b. map (\<lambda>t. row_blocks t k) tables =
      (if k = i then kernel_rows (cr_block_ids r) (ib_block_table b) else map (\<lambda>t. row_blocks t k) (ib_block_table b)))"
proof -
  let ?occ = "\<lambda>k. k \<notin> set (bu_removed (ib_builder b))"
  have cols: "columns_ok m b" and idx: "index_ok ?occ b" using inv by (simp_all add: batch_inv_def)
  have a: "ib_num_reqs b < ib_max_num_reqs b" "cr_sampling_params r = Some sp" "cr_prompt_token_ids r = Some ts"
    "length_from_prompt (cr_prompt_token_ids r) (cr_prompt_embeds r) = Inr (length ts)"
    "length ts + length (cr_output_token_ids r) \<le> m" "ids_fit (cr_block_ids r) (ib_block_table b)"
    "\<forall>t \<in> set (sp_allowed_token_ids sp). t < ib_vocab_size b"
    using add unfolding addable_def by blast+
  obtain i u where reg: "register_add_request r b = Inr (i, b\<lparr>ib_builder := u\<rparr>)" and i: "i \<le> length (ib_req_ids b)" "i < ib_max_num_reqs b"
    "i < length (ib_req_ids b) \<longrightarrow> i \<in> set (bu_removed (ib_builder b))"
    and u: "\<forall>k. (k \<notin> set (bu_removed u)) = (?occ k \<or> k = i)" "distinct (bu_removed u)" "bu_sorted u \<longrightarrow> sorted (rev (bu_removed u))"
    using register_run [OF inv a(1), of r] by blast
  have "i < length (ib_req_ids b) \<longrightarrow> \<not> ?occ i" using i(3) by simp
  from place_run [OF idx i(1) this, of r u]
  obtain names outs specs where pl: "place_request r i (b\<lparr>ib_builder := u\<rparr>) = Inr (place_all r i names outs specs u b)"
    "placed r i ?occ b names outs specs" by blast
  let ?c = "place_all r i names outs specs u b"
  have rows: "length (ib_token_ids ?c ! i) = m" "length (ib_is_token_ids ?c ! i) = m"
    using cols i(2) by (auto simp: place_all_def columns_ok_def lengths_ok_def tokens_ok_def Let_def)
  obtain row flags where tok: "copy_tokens r i ?c = Inr (set_tokens r i (length ts) row flags ?c)" "length row = m"
    "take (length ts + length (cr_output_token_ids r)) row = ts @ cr_output_token_ids r"
    "length (fill_slice (length ts) (length ts + length (cr_output_token_ids r)) True flags) = m"
    "take (length ts + length (cr_output_token_ids r)) (fill_slice (length ts) (length ts + length (cr_output_token_ids r)) True flags) =
      replicate (length ts + length (cr_output_token_ids r)) True"
    using tokens_run [OF rows a(3-5)] by blast
  have "tables_ok (ib_max_num_reqs b) (ib_block_table b)" using cols by (simp add: columns_ok_def)
  from mg_add_row_rows [OF this i(2) a(6)] obtain tables where t: "mg_add_row (cr_block_ids r) i (ib_block_table b) = Inr tables"
    "tables_ok (ib_max_num_reqs b) tables" "\<forall>k < ib_max_num_reqs b. map (\<lambda>t. row_blocks t k) tables =
      (if k = i then kernel_rows (cr_block_ids r) (ib_block_table b) else map (\<lambda>t. row_blocks t k) (ib_block_table b))" by blast
  let ?d = "(set_tokens r i (length ts) row flags ?c)\<lparr>ib_block_table := tables\<rparr>"
  have d: "ib_vocab_size ?d = ib_vocab_size b" "ib_block_table (set_tokens r i (length ts) row flags ?c) = ib_block_table b"
    by (simp_all add: set_tokens_def Let_def)
  obtain e X M where e: "add_sampling_params r sp i ?d = Inr e"
    "add_lora r i (e\<lparr>ib_num_accepted := (ib_num_accepted e)[i := 1]\<rparr>) = finish_all r sp i X M (set_sampling r sp i ?d)"
    using finish_run [of sp ?d r i] a(7) d(1) by auto
  have "ib_add_request r b = Inr (i, add_all r sp i (length ts) row flags tables X M ?c)"
    unfolding ib_add_request_def reg add_all_def e(2) [symmetric] by (simp add: pl(1) tok(1) d(2) t(1) a(2) e(1))
  with i u pl(2) tok(2-5) t(2,3) show ?thesis by blast
qed

lemma add_sets:
  assumes ok: "sets_ok b" and fresh: "batch_abs b (cr_req_id r) = None"
    and abs: "batch_abs b' = (batch_abs b)(cr_req_id r \<mapsto> new_row r sp ts (ib_vocab_size b) tables0)"
    and b': "b' = add_all r sp i n row flags tables X M (place_all r i names outs specs u b)"
  shows "sets_ok b'"
proof -
  have fields: "ib_vocab_size b' = ib_vocab_size b"
    "ib_top_p_reqs b' = add_if (sp_top_p sp < 1) (cr_req_id r) (ib_top_p_reqs b)"
    "ib_top_k_reqs b' = add_if (0 < sp_top_k sp \<and> sp_top_k sp < int (ib_vocab_size b)) (cr_req_id r) (ib_top_k_reqs b)"
    "ib_frequency_reqs b' = add_if (sp_frequency_penalty sp \<noteq> 0) (cr_req_id r) (ib_frequency_reqs b)"
    "ib_presence_reqs b' = add_if (sp_presence_penalty sp \<noteq> 0) (cr_req_id r) (ib_presence_reqs b)"
    "ib_repetition_reqs b' = add_if (sp_repetition_penalty sp \<noteq> 1) (cr_req_id r) (ib_repetition_reqs b)"
    "ib_greedy_reqs b' = add_if (sp_greedy sp) (cr_req_id r) (ib_greedy_reqs b)"
    "ib_random_reqs b' = add_if (\<not> sp_greedy sp) (cr_req_id r) (ib_random_reqs b)"
    by (simp_all add: b' add_all_defs place_all_def)
  have new: "rv_top_p (new_row r sp ts v t) = sp_top_p sp" "rv_frequency (new_row r sp ts v t) = sp_frequency_penalty sp"
    "rv_presence (new_row r sp ts v t) = sp_presence_penalty sp" "rv_repetition (new_row r sp ts v t) = sp_repetition_penalty sp"
    "rv_top_k (new_row r sp ts v t) \<noteq> int v \<longleftrightarrow> 0 < sp_top_k sp \<and> sp_top_k sp < int v" for v t
    by (auto simp: rv_defs new_row_def Let_def)
  have "cr_req_id r \<notin> where_rows (batch_abs b) P" for P using fresh by (simp add: where_rows_def)
  then have gr: "cr_req_id r \<notin> ib_greedy_reqs b" "cr_req_id r \<notin> ib_random_reqs b" using ok unfolding sets_ok_def by blast+
  have old: "ib_top_p_reqs b = where_rows (batch_abs b) (\<lambda>v. rv_top_p v < 1)"
    "ib_top_k_reqs b = where_rows (batch_abs b) (\<lambda>v. rv_top_k v \<noteq> int (ib_vocab_size b))"
    "ib_frequency_reqs b = where_rows (batch_abs b) (\<lambda>v. rv_frequency v \<noteq> 0)"
    "ib_presence_reqs b = where_rows (batch_abs b) (\<lambda>v. rv_presence v \<noteq> 0)"
    "ib_repetition_reqs b = where_rows (batch_abs b) (\<lambda>v. rv_repetition v \<noteq> 1)"
    "where_rows (batch_abs b) (\<lambda>_. True) = ib_greedy_reqs b \<union> ib_random_reqs b" "ib_greedy_reqs b \<inter> ib_random_reqs b = {}"
    using ok unfolding sets_ok_def by blast+
  show ?thesis
    unfolding sets_ok_def abs where_rows_add [of "batch_abs b" "cr_req_id r", OF fresh] fields new old(1-6)
    using old(7) gr by (auto simp: add_if_def)
qed

lemma add_run:
  assumes inv: "batch_inv m b" and keyed: "keyed_ok b" and add: "addable m r sp ts b"
  shows "\<exists>i b'. ib_add_request r b = Inr (i, b') \<and> batch_inv m b' \<and> keyed_ok b' \<and>
    batch_abs b' = (batch_abs b)(cr_req_id r \<mapsto> new_row r sp ts (ib_vocab_size b) (ib_block_table b))"
proof -
  let ?occ = "\<lambda>k. k \<notin> set (bu_removed (ib_builder b))"
  have cols: "columns_ok m b" and idx: "index_ok ?occ b" and rem: "removed_ok b" and np: "\<not> ib_is_pooling_model b"
    using inv by (simp_all add: batch_inv_def)
  have fresh: "map_of (ib_req_id_to_index b) (cr_req_id r) = None" and fits: "length ts + length (cr_output_token_ids r) \<le> m"
    using add unfolding addable_def by blast+
  obtain i u names outs specs row flags tables X M where
    run: "ib_add_request r b = Inr (i, add_all r sp i (length ts) row flags tables X M (place_all r i names outs specs u b))"
    and i: "i \<le> length (ib_req_ids b)" "i < ib_max_num_reqs b" "i < length (ib_req_ids b) \<longrightarrow> i \<in> set (bu_removed (ib_builder b))"
    and u: "\<And>k. (k \<notin> set (bu_removed u)) = (?occ k \<or> k = i)" "distinct (bu_removed u)" "bu_sorted u \<longrightarrow> sorted (rev (bu_removed u))"
    and pl: "placed r i ?occ b names outs specs"
    and row: "length row = m" "take (length ts + length (cr_output_token_ids r)) row = ts @ cr_output_token_ids r"
      "length (fill_slice (length ts) (length ts + length (cr_output_token_ids r)) True flags) = m"
      "take (length ts + length (cr_output_token_ids r)) (fill_slice (length ts) (length ts + length (cr_output_token_ids r)) True flags) =
        replicate (length ts + length (cr_output_token_ids r)) True"
    and t: "tables_ok (ib_max_num_reqs b) tables" "\<And>k. k < ib_max_num_reqs b \<Longrightarrow> map (\<lambda>t. row_blocks t k) tables =
      (if k = i then kernel_rows (cr_block_ids r) (ib_block_table b) else map (\<lambda>t. row_blocks t k) (ib_block_table b))"
    using add_exec [OF inv add] by blast
  let ?c = "place_all r i names outs specs u b"
  let ?b' = "add_all r sp i (length ts) row flags tables X M ?c"
  have free: "i < length (ib_req_ids b) \<longrightarrow> \<not> ?occ i" using i(3) by simp
  have col: "columns_ok m ?b'" using add_columns [of m ?c row "length ts" r flags tables] cols row(1,3) fits t(1) by simp
  have ix: "index_ok (\<lambda>k. ?occ k \<or> k = i) ?b'" by (rule add_index [OF idx i(1) free i(2) fresh pl])
  have new: "row_at ?b' i = new_row r sp ts (ib_vocab_size b) (ib_block_table b)"
  proof -
    have len: "i < length names" "length names \<le> length specs" using pl by (auto simp: placed_def)
    have "map_of (ib_generators b) i = None" "map_of (ib_bad_words b) i = None" using idx free by (auto simp: index_ok_def)
    moreover have "outs ! i = Some (cr_output_token_ids r)" "specs ! i = []" using pl len(1) by (simp_all add: placed_def)
    ultimately show ?thesis using add_row_new [of m ?c i "length ts" r row ts flags tables "ib_block_table b"] cols i(2) row(2,4) t(2) by simp
  qed
  have abs: "batch_abs ?b' = (batch_abs b)(cr_req_id r \<mapsto> new_row r sp ts (ib_vocab_size b) (ib_block_table b))"
    using add_abs [OF idx i(1) free pl] t(2) new by simp
  have "removed_ok ?b'"
  proof -
    have "k < length names" if "k \<in> set (bu_removed u)" for k
      using that u(1) [of k] rem pl by (auto simp: removed_ok_def placed_def Let_def)
    then show ?thesis using u(2,3) by (simp add: removed_ok_def add_fields)
  qed
  moreover have "index_ok (\<lambda>k. k \<notin> set (bu_removed (ib_builder ?b'))) ?b'"
    by (rule index_ok_cong [OF ix]) (use u(1) in \<open>auto simp: add_fields\<close>)
  ultimately have "batch_inv m ?b'" using col np by (simp add: batch_inv_def add_fields)
  moreover have "keyed_ok ?b'"
  proof -
    have fr: "batch_abs b (cr_req_id r) = None" using fresh by (simp add: batch_abs_def)
    have "sets_ok ?b'" using keyed add_sets [OF _ fr abs refl] by (simp add: keyed_ok_def)
    moreover have "lora_ok (batch_abs ?b') (lora_added r (ib_lora_id_to_request_ids b)) (lora_kept r (ib_lora_id_to_lora_request b))"
      unfolding abs using keyed lora_add [of "batch_abs b" _ _ r, OF _ fr] by (simp add: keyed_ok_def rv_lora_def new_row_def Let_def)
    ultimately show ?thesis unfolding keyed_ok_def add_fields by (simp add: place_all_def)
  qed
  ultimately show ?thesis using run abs by blast
qed

section \<open>The batch refines a map\<close>

lemma init_run:
  assumes "tables_ok n tables"
  shows "batch_inv m (input_batch_init False spec n m vocab tables)" "keyed_ok (input_batch_init False spec n m vocab tables)"
    "batch_abs (input_batch_init False spec n m vocab tables) = Map.empty"
proof -
  let ?b = "input_batch_init False spec n m vocab tables"
  show abs: "batch_abs ?b = Map.empty" by (simp add: fun_eq_iff batch_abs_def input_batch_init_def)
  show "batch_inv m ?b" using assms
    by (simp add: batch_inv_def columns_ok_def lengths_ok_def tokens_ok_def index_ok_def removed_ok_def input_batch_init_def bu_init_def Let_def)
  show "keyed_ok ?b" unfolding keyed_ok_def sets_ok_def lora_ok_def abs by (simp add: where_rows_def input_batch_init_def)
qed

text \<open>
  C35: On the columns of \<open>row_at\<close> (tokens, counters, sampling parameters, blocks, output and draft tokens, generator,
  bad words) the batch of a generative model is a map from requests to rows. In a batch with its invariant, removing a
  request takes exactly that request out of the map, adding a request that fits puts exactly its
  tokens, counters, parameters and blocks in, swapping two rows changes nothing, and condensing
  followed by the refresh of the metadata changes nothing and leaves no holes: the requests are at
  the first indices. The sets that say which requests use top-p, top-k, penalties or an adapter
  stay exact. Nothing is said of the mask of allowed tokens, the prompt embeddings and
  \<^verbatim>\<open>logits_processing_needs_token_ids\<close>, which the code does not keep with their request.
\<close>

theorem batch_refines_map:
  assumes "batch_inv m b" "keyed_ok b"
  shows "(\<forall>rid i. \<not> bu_sorted (ib_builder b) \<and> map_of (ib_req_id_to_index b) rid = Some i \<longrightarrow>
      (\<exists>b'. ib_remove_request rid b = Inr (Some i, b') \<and> batch_inv m b' \<and> keyed_ok b' \<and> batch_abs b' = (batch_abs b)(rid := None))) \<and>
    (\<forall>r sp ts. addable m r sp ts b \<longrightarrow>
      (\<exists>i b'. ib_add_request r b = Inr (i, b') \<and> batch_inv m b' \<and> keyed_ok b' \<and>
        batch_abs b' = (batch_abs b)(cr_req_id r \<mapsto> new_row r sp ts (ib_vocab_size b) (ib_block_table b)))) \<and>
    (\<forall>i j. i < length (ib_req_ids b) \<and> j < length (ib_req_ids b) \<and> i \<notin> set (bu_removed (ib_builder b)) \<and> j \<notin> set (bu_removed (ib_builder b)) \<longrightarrow>
      (\<exists>b'. swap_states i j b = Inr b' \<and> batch_inv m b' \<and> keyed_ok b' \<and> batch_abs b' = batch_abs b)) \<and>
    (\<exists>b1 up changed b'. condense b = Inr b1 \<and> refresh_metadata b1 = (up, changed, b') \<and> batch_inv m b' \<and> keyed_ok b' \<and>
      batch_abs b' = batch_abs b \<and> length (ib_req_ids b') = ib_num_reqs b \<and> (\<forall>i < ib_num_reqs b. ib_req_ids b' ! i \<noteq> None))"
    (is "?remove \<and> ?add \<and> ?swap \<and> ?condense")
proof (intro conjI)
  show ?remove using remove_run [OF assms] by blast
  show ?add using add_run [OF assms] by blast
  show ?swap using swap_states_run [OF assms(1)] keyed_ok_same [OF assms(2)] by metis
  from condense_run [OF assms(1)] obtain b1 where b1: "condense b = Inr b1" "columns_ok m b1" "index_ok (\<lambda>_. True) b1"
    "length (ib_req_ids b1) = ib_num_reqs b" "batch_abs b1 = batch_abs b" "\<not> ib_is_pooling_model b1" "same_keyed b b1" by blast
  obtain up changed b' where b': "refresh_metadata b1 = (up, changed, b')" by (cases "refresh_metadata b1")
  note r = condensed_inv [OF b1(2,3,6), unfolded b' snd_conv]
  have "ib_req_ids b' = ib_req_ids b1" using b' b1(6) by (auto simp: refresh_metadata_def split: prod.splits)
  moreover have "\<forall>i < ib_num_reqs b. ib_req_ids b1 ! i \<noteq> None" using b1(3,4) by (simp add: index_ok_def)
  ultimately show ?condense using b1 b' r keyed_ok_same [OF assms(2)] same_keyed_trans [OF b1(7) r(3)] by auto
qed

definition demo_params :: sample_params where
  "demo_params = \<lparr>sp_greedy = True, sp_temperature = 0, sp_top_p = 1, sp_top_k = 0, sp_frequency_penalty = 0, sp_presence_penalty = 0,
     sp_repetition_penalty = 1, sp_min_p = 0, sp_logprobs = None, sp_allowed_token_ids = [2, 3], sp_bad_words_token_ids = []\<rparr>"

definition demo_state :: "string \<Rightarrow> cached_request_state" where
  "demo_state name = \<lparr>cr_req_id = name, cr_prompt_token_ids = Some [5, 6], cr_prompt_embeds = None, cr_sampling_params = Some demo_params,
     cr_pooling_requires_token_ids = None, cr_generator = None, cr_block_ids = [[1]], cr_num_computed_tokens = 0,
     cr_output_token_ids = [7], cr_lora = Some (4, ''adapter'')\<rparr>"

theorem batch_refines_map_witness:
  "\<exists>t b i b'. block_table_init 4 3 2 8 2 1 demo_cp = Inr t \<and> b = input_batch_init False False 3 8 10 [t] \<and>
     ib_add_request (demo_state ''a'') b = Inr (i, b') \<and>
     map_option (\<lambda>v. (rv_tokens v, rv_blocks v)) (batch_abs b' ''a'') = Some ([5, 6, 7], [[2, 3]])"
proof -
  obtain t where t: "block_table_init 4 3 2 8 2 1 demo_cp = Inr t" "table_wf t" "num_rows t = 3" "max_num_blocks_per_req t = 4"
    "use_hybrid_blocks t" "blocks_per_kv_block t = 2"
    by (rule demo_table)
  let ?b = "input_batch_init False False 3 8 10 [t]"
  have "tables_ok 3 [t]" using t by (simp add: tables_ok_def)
  note init = init_run [OF this, where m = 8 and spec = False and vocab = 10]
  have k: "kernel_ids t [1] = [2, 3]" using t by (simp add: kernel_ids_def map_to_kernel_blocks_def upt_rec)
  have "addable 8 (demo_state ''a'') demo_params [5, 6] ?b"
    using t k by (simp add: addable_def input_batch_init_def ib_num_reqs_def demo_state_def demo_params_def length_from_prompt_def
        ids_fit_def int32_ids_def)
  with batch_refines_map [OF init(1,2)] obtain i b' where "ib_add_request (demo_state ''a'') ?b = Inr (i, b')"
    "batch_abs b' = (batch_abs ?b)(cr_req_id (demo_state ''a'') \<mapsto> new_row (demo_state ''a'') demo_params [5, 6] (ib_vocab_size ?b) (ib_block_table ?b))"
    by blast
  then show ?thesis using t(1) k
    by (auto simp: new_row_def demo_state_def kernel_rows_def input_batch_init_def Let_def)
qed

text \<open>
  C38: Swapping two requests does not swap their masks of allowed tokens. The two rows of the mask are
  views of one tensor, so that the second assignment reads what the first one wrote: both rows end
  as the row of the second request, and the mask of the first one is lost, although both requests
  are still registered and every other part of their state moves with them.
\<close>

theorem swap_loses_mask:
  assumes "batch_inv m b" "i < length (ib_req_ids b)" "j < length (ib_req_ids b)"
    "i \<notin> set (bu_removed (ib_builder b))" "j \<notin> set (bu_removed (ib_builder b))"
    "ib_allowed_mask b = Some rows" "length rows = ib_max_num_reqs b"
  shows "\<exists>b' rows'. swap_states i j b = Inr b' \<and> batch_abs b' = batch_abs b \<and> ib_allowed_mask b' = Some rows' \<and>
    rows' ! i = rows ! j \<and> rows' ! j = rows ! j"
proof -
  obtain b' where b': "swap_states i j b = Inr b'" "batch_abs b' = batch_abs b" "ib_allowed_mask b' = Some (swap_views i j rows)"
    using swap_states_run [OF assms(1-5)] assms(6) by auto
  have "i < length rows" "j < length rows" using assms by (auto simp: batch_inv_def index_ok_def)
  then show ?thesis using b' by (auto simp: swap_views_def Let_def nth_list_update)
qed

text \<open>Two requests, the first restricted to token 1 and the second to tokens 0 and 2.\<close>

definition demo_pair :: input_batch where
  "demo_pair = (input_batch_init False False 2 4 3 [])\<lparr>ib_req_ids := [Some ''a'', Some ''b''],
     ib_req_id_to_index := [(''a'', 0), (''b'', 1)], ib_output_token_ids := [Some [], Some []],
     ib_allowed_mask := Some [mask_row 3 [1], mask_row 3 [0, 2]]\<rparr>"

lemma demo_pair_inv: "batch_inv 4 demo_pair"
proof -
  have "index_ok (\<lambda>_. True) demo_pair"
    unfolding index_ok_def by (auto simp: demo_pair_def input_batch_init_def od_wf_def nth_Cons' less_Suc_eq split: if_splits)
  moreover have "columns_ok 4 demo_pair" "removed_ok demo_pair" "\<not> ib_is_pooling_model demo_pair" "bu_removed (ib_builder demo_pair) = []"
    by (simp_all add: columns_ok_def lengths_ok_def tokens_ok_def tables_ok_def removed_ok_def demo_pair_def input_batch_init_def bu_init_def)
  ultimately show ?thesis by (simp add: batch_inv_def)
qed

theorem swap_loses_mask_witness:
  "\<exists>b' rows. swap_states 0 1 demo_pair = Inr b' \<and> map_of (ib_req_id_to_index b') ''a'' = Some 1 \<and>
     ib_allowed_mask b' = Some rows \<and> rows ! 1 = mask_row 3 [0, 2] \<and> rows ! 1 \<noteq> mask_row 3 [1]"
proof -
  have "ib_allowed_mask demo_pair = Some [mask_row 3 [1], mask_row 3 [0, 2]]" "ib_max_num_reqs demo_pair = 2"
    "length (ib_req_ids demo_pair) = 2" "bu_removed (ib_builder demo_pair) = []"
    by (simp_all add: demo_pair_def input_batch_init_def bu_init_def)
  with swap_loses_mask [OF demo_pair_inv, of 0 1] obtain b' rows where "swap_states 0 1 demo_pair = Inr b'"
    "ib_allowed_mask b' = Some rows" "rows ! 1 = mask_row 3 [0, 2]" by auto
  moreover have "case swap_states 0 1 demo_pair of Inl _ \<Rightarrow> False | Inr b' \<Rightarrow> map_of (ib_req_id_to_index b') ''a'' = Some 1"
    by code_simp
  moreover have "mask_row 3 [0, 2] \<noteq> mask_row 3 [1]" by code_simp
  ultimately show ?thesis by auto
qed

end
