(* ===== verification/Batch_Reorder.thy ===== *)
theory Batch_Reorder
  imports Input_Batch_Run
begin

text \<open>
  Reordering the batch for the attention backends: \<^verbatim>\<open>reorder_batch_to_split_decodes_and_prefills\<close>
  of \<^verbatim>\<open>vllm/v1/attention/backends/utils.py\<close>.

  The requests are put in the order decodes, extends, prefills with as few swaps as the cycles of
  the permutation need. The loop only uses that two rows can be swapped, which is the interface
  \<open>swap_store\<close>; the batch is its instance.
\<close>

section \<open>The loop\<close>

definition region :: "nat \<Rightarrow> nat \<Rightarrow> nat \<Rightarrow> nat" where
  "region decode_threshold num_scheduled num_computed =
     (if num_scheduled \<le> decode_threshold then 0 else if 0 < num_computed then 1 else 2)"

definition target_regions :: "nat list \<Rightarrow> nat list" where
  "target_regions regions =
     (let num_decodes = length (filter (\<lambda>x. x = 0) regions);
          num_extends = length (filter (\<lambda>x. x = 1) regions) in
      replicate num_decodes 0 @ replicate num_extends 1 @ replicate (length regions - num_decodes - num_extends) 2)"

text \<open>The requests out of place, in order, and the same requests stably sorted by region.\<close>

definition orig_indices :: "nat list \<Rightarrow> nat list" where
  "orig_indices regions = filter (\<lambda>i. regions ! i \<noteq> target_regions regions ! i) [0..<length regions]"

definition src_indices :: "nat list \<Rightarrow> nat list" where
  "src_indices regions = sort_key (\<lambda>i. regions ! i) (orig_indices regions)"

definition src_dest_map :: "nat list \<Rightarrow> (nat, nat) odict" where
  "src_dest_map regions = zip (src_indices regions) (orig_indices regions)"

fun swap_cycle ::
  "(nat \<Rightarrow> nat \<Rightarrow> 's \<Rightarrow> 's result) \<Rightarrow> nat \<Rightarrow> nat \<Rightarrow> nat \<Rightarrow> (nat, nat) odict \<Rightarrow> 's \<Rightarrow> ((nat, nat) odict \<times> 's) result" where
  "swap_cycle swap 0 src dst d s = Inl Diverges"
| "swap_cycle swap (Suc fuel) src dst d s =
     (if src = dst then Inr (d, s)
      else rbind (swap src dst s) (\<lambda>s.
        let next_dst = (case map_of d dst of None \<Rightarrow> dst | Some x \<Rightarrow> x) in
        swap_cycle swap fuel src next_dst (AList.update dst dst d) s))"

text \<open>The dictionary is changed while its keys are iterated, which is only allowed as long as its size stays.\<close>

fun swap_cycles ::
  "(nat \<Rightarrow> nat \<Rightarrow> 's \<Rightarrow> 's result) \<Rightarrow> nat \<Rightarrow> nat \<Rightarrow> nat list \<Rightarrow> (nat, nat) odict \<Rightarrow> 's \<Rightarrow> 's result" where
  "swap_cycles swap fuel n [] d s = (if length d \<noteq> n then Inl RuntimeError else Inr s)"
| "swap_cycles swap fuel n (src # srcs) d s =
     (if length d \<noteq> n then Inl RuntimeError
      else rbind (od_lookup d src) (\<lambda>dst.
        rbind (swap_cycle swap fuel src dst d s) (\<lambda>(d, s). swap_cycles swap fuel n srcs d s)))"

definition req_regions :: "nat \<Rightarrow> (string, nat) odict \<Rightarrow> input_batch \<Rightarrow> nat list result" where
  "req_regions decode_threshold num_scheduled_tokens b =
     rbind (rmap (\<lambda>r. case r of None \<Rightarrow> Inl KeyError | Some req_id \<Rightarrow> od_lookup num_scheduled_tokens req_id) (ib_req_ids b)) (\<lambda>scheduled.
       Inr (map2 (region decode_threshold) scheduled (take (length (ib_req_ids b)) (ib_num_computed_tokens b))))"

definition reorder_batch :: "nat \<Rightarrow> (string, nat) odict \<Rightarrow> input_batch \<Rightarrow> (bool \<times> input_batch) result" where
  "reorder_batch decode_threshold num_scheduled_tokens b =
     rbind (req_regions decode_threshold num_scheduled_tokens b) (\<lambda>regions.
       if regions = target_regions regions then Inr (False, b)
       else
         let d = src_dest_map regions in
         rbind (swap_cycles swap_states (length regions + 1) (length d) (map fst d) d b) (\<lambda>b. Inr (True, b)))"

section \<open>Following the cycles\<close>

text \<open>A permutation of the rows, given by the row every row has to move to.\<close>

definition perm :: "nat \<Rightarrow> (nat \<Rightarrow> nat) \<Rightarrow> bool" where
  "perm n T \<longleftrightarrow> inj_on T {..<n} \<and> (\<forall>p < n. T p < n)"

definition misplaced :: "nat \<Rightarrow> (nat \<Rightarrow> nat) \<Rightarrow> nat set" where
  "misplaced n T = {p. p < n \<and> T p \<noteq> p}"

lemma finite_misplaced [simp]: "finite (misplaced n T)"
  by (simp add: misplaced_def)

lemma card_misplaced: "card (misplaced n T) \<le> n"
  using card_mono [of "{..<n}" "misplaced n T"] by (auto simp: misplaced_def)

lemma perm_exchange: "perm n T \<Longrightarrow> i < n \<Longrightarrow> j < n \<Longrightarrow> perm n (\<lambda>k. T (exchange i j k))"
  unfolding perm_def inj_on_def by (metis exchange_exchange exchange_less lessThan_iff)

lemma perm_image: "perm n T \<Longrightarrow> T ` {..<n} = {..<n}"
  unfolding perm_def by (intro endo_inj_surj) auto

lemma perm_fixed:
  assumes "perm n T" "src < n" "T src \<noteq> src"
  shows "T (T src) \<noteq> T src"
  using assms by (auto simp: perm_def inj_on_def)

lemma misplaced_exchange:
  assumes "perm n T" "src < n" "T src \<noteq> src"
  shows "misplaced n (\<lambda>k. T (exchange src (T src) k)) \<subset> misplaced n T"
proof -
  have "T src < n" using assms by (simp add: perm_def)
  then have "T src \<in> misplaced n T" "T src \<notin> misplaced n (\<lambda>k. T (exchange src (T src) k))"
    using perm_fixed [OF assms] by (simp_all add: misplaced_def exchange_def)
  moreover have "misplaced n (\<lambda>k. T (exchange src (T src) k)) \<subseteq> misplaced n T"
    using assms(2,3) perm_fixed [OF assms] \<open>T src < n\<close> by (auto simp: misplaced_def exchange_def split: if_splits)
  ultimately show ?thesis by blast
qed

locale swap_store =
  fixes swap :: "nat \<Rightarrow> nat \<Rightarrow> 's \<Rightarrow> 's result"
    and rows :: "'s \<Rightarrow> nat"
    and view :: "'s \<Rightarrow> nat \<Rightarrow> 'v"
    and inv :: "'s \<Rightarrow> 's \<Rightarrow> bool"
  assumes swap_ok: "inv s0 s \<Longrightarrow> i < rows s \<Longrightarrow> j < rows s \<Longrightarrow>
    \<exists>s'. swap i j s = Inr s' \<and> inv s0 s' \<and> rows s' = rows s \<and> (\<forall>k < rows s. view s' k = view s (exchange i j k))"
begin

text \<open>The rows are those of \<open>V\<close> once every row is where \<open>T\<close> sends it.\<close>

definition on_the_way :: "'s \<Rightarrow> (nat \<Rightarrow> 'v) \<Rightarrow> nat \<Rightarrow> (nat \<Rightarrow> nat) \<Rightarrow> 's \<Rightarrow> bool" where
  "on_the_way s0 V n T s \<longleftrightarrow> inv s0 s \<and> rows s = n \<and> perm n T \<and> (\<forall>p < n. view s p = V (T p))"

lemma swap_on_the_way:
  assumes "on_the_way s0 V n T s" "i < n" "j < n"
  shows "\<exists>s'. swap i j s = Inr s' \<and> on_the_way s0 V n (\<lambda>k. T (exchange i j k)) s'"
  using assms swap_ok [of s0 s i j] perm_exchange [of n T i j] exchange_less [of i n j] unfolding on_the_way_def by auto

lemma swap_cycle_ok:
  assumes "on_the_way s0 V n T s" "src < n" "\<forall>p < n. p \<noteq> src \<and> T p \<noteq> p \<longrightarrow> map_of d p = Some (T p)"
    "card (misplaced n T) < fuel" "od_wf d"
  shows "\<exists>d' s' T'. swap_cycle swap fuel src (T src) d s = Inr (d', s') \<and> on_the_way s0 V n T' s' \<and> T' src = src \<and>
    (\<forall>p < n. T p = p \<longrightarrow> T' p = p) \<and> length d' = length d \<and> od_wf d' \<and>
    (\<forall>p < n. p \<noteq> src \<and> map_of d p = Some (T p) \<longrightarrow> map_of d' p = Some (T' p))"
  using assms
proof (induction fuel arbitrary: s d T)
  case (Suc fuel)
  show ?case
  proof (cases "T src = src")
    case True
    with Suc.prems show ?thesis by (intro exI [of _ d] exI [of _ s] exI [of _ T]) simp
  next
    case False
    let ?dst = "T src" and ?T = "\<lambda>k. T (exchange src (T src) k)" and ?d = "AList.update (T src) (T src) d"
    have perm: "perm n T" using Suc.prems(1) by (simp add: on_the_way_def)
    have dst: "?dst < n" "T ?dst \<noteq> ?dst" using perm Suc.prems(2) perm_fixed [OF perm Suc.prems(2) False] by (auto simp: perm_def)
    then have look: "map_of d ?dst = Some (T ?dst)" using Suc.prems(3) False by metis
    obtain s1 where s1: "swap src ?dst s = Inr s1" "on_the_way s0 V n ?T s1"
      using swap_on_the_way [OF Suc.prems(1,2) dst(1)] by blast
    have T: "?T src = T ?dst" "?T ?dst = ?dst" "\<And>p. p \<noteq> src \<Longrightarrow> p \<noteq> ?dst \<Longrightarrow> ?T p = T p" by (simp_all add: exchange_def)
    have "\<forall>p < n. p \<noteq> src \<and> ?T p \<noteq> p \<longrightarrow> map_of ?d p = Some (?T p)"
      using Suc.prems(3) by (auto simp: update_conv' exchange_def)
    moreover have "card (misplaced n ?T) < fuel"
      using psubset_card_mono [OF _ misplaced_exchange [OF perm Suc.prems(2) False]] Suc.prems(4) by simp
    ultimately obtain d' s' T' where IH: "swap_cycle swap fuel src (?T src) ?d s1 = Inr (d', s')" "on_the_way s0 V n T' s'" "T' src = src"
      "\<forall>p < n. ?T p = p \<longrightarrow> T' p = p" "length d' = length ?d" "od_wf d'"
      "\<forall>p < n. p \<noteq> src \<and> map_of ?d p = Some (?T p) \<longrightarrow> map_of d' p = Some (T' p)"
      using Suc.IH [OF s1(2) Suc.prems(2), of ?d] Suc.prems(5) by auto
    have "swap_cycle swap (Suc fuel) src ?dst d s = Inr (d', s')" using False s1(1) look IH(1) T(1) by (simp add: Let_def)
    moreover have "\<forall>p < n. T p = p \<longrightarrow> T' p = p" using IH(4) T False dst(2) by metis
    moreover have "\<forall>p < n. p \<noteq> src \<and> map_of d p = Some (T p) \<longrightarrow> map_of d' p = Some (T' p)"
      using IH(7) T by (metis fun_upd_apply update_conv')
    ultimately show ?thesis using IH(2,3,5,6) update_same_length [OF look] by metis
  qed
qed simp

lemma swap_cycles_ok:
  assumes "on_the_way s0 V n T s" "distinct srcs" "set srcs \<subseteq> {..<n}" "\<forall>p \<in> set srcs. map_of d p = Some (T p)"
    "\<forall>p < n. p \<notin> set srcs \<longrightarrow> T p = p" "n < fuel" "od_wf d"
  shows "\<exists>s'. swap_cycles swap fuel (length d) srcs d s = Inr s' \<and> inv s0 s' \<and> rows s' = n \<and> (\<forall>p < n. view s' p = V p)"
  using assms
proof (induction srcs arbitrary: d s T)
  case Nil
  then show ?case by (simp add: on_the_way_def)
next
  case (Cons src srcs)
  have src: "src < n" "map_of d src = Some (T src)" using Cons.prems(3,4) by simp_all
  have "\<forall>p < n. p \<noteq> src \<and> T p \<noteq> p \<longrightarrow> map_of d p = Some (T p)" using Cons.prems(4,5) by (metis set_ConsD)
  moreover have "card (misplaced n T) < fuel" using card_misplaced [of n T] Cons.prems(6) by simp
  ultimately obtain d' s' T' where step: "swap_cycle swap fuel src (T src) d s = Inr (d', s')" "on_the_way s0 V n T' s'" "T' src = src"
    "\<forall>p < n. T p = p \<longrightarrow> T' p = p" "length d' = length d" "od_wf d'"
    "\<forall>p < n. p \<noteq> src \<and> map_of d p = Some (T p) \<longrightarrow> map_of d' p = Some (T' p)"
    using swap_cycle_ok [OF Cons.prems(1) src(1) _ _ Cons.prems(7)] by blast
  have "\<forall>p \<in> set srcs. map_of d' p = Some (T' p)" using step(7) Cons.prems(2-4) by auto
  moreover have "\<forall>p < n. p \<notin> set srcs \<longrightarrow> T' p = p" using step(3,4) Cons.prems(5) by (metis set_ConsD)
  ultimately show ?case
    using Cons.IH [OF step(2), of d'] Cons.prems(2,3,6) step(1,5,6) src(2) by (simp add: od_lookup_def)
qed

end

section \<open>The regions\<close>

lemma target_counts:
  assumes "set rs \<subseteq> {0, 1, 2}"
  shows "length rs - length (filter (\<lambda>x. x = 0) rs) - length (filter (\<lambda>x. x = 1) rs) = length (filter (\<lambda>x. x = 2) rs)"
    and "mset rs = replicate_mset (length (filter (\<lambda>x. x = 0) rs)) 0 + replicate_mset (length (filter (\<lambda>x. x = 1) rs)) 1 +
      replicate_mset (length (filter (\<lambda>x. x = 2) rs)) (2 :: nat)"
proof -
  have "length rs = length (filter (\<lambda>x. x = 0) rs) + length (filter (\<lambda>x. x = 1) rs) + length (filter (\<lambda>x. x = 2) rs)"
    using assms by (induction rs) auto
  then show "length rs - length (filter (\<lambda>x. x = 0) rs) - length (filter (\<lambda>x. x = 1) rs) = length (filter (\<lambda>x. x = 2) rs)" by simp
  show "mset rs = replicate_mset (length (filter (\<lambda>x. x = 0) rs)) 0 + replicate_mset (length (filter (\<lambda>x. x = 1) rs)) 1 +
      replicate_mset (length (filter (\<lambda>x. x = 2) rs)) (2 :: nat)"
    using assms by (induction rs) auto
qed

lemma target_sort:
  assumes "set rs \<subseteq> {0, 1, 2}"
  shows "target_regions rs = sort rs"
proof -
  have "mset (target_regions rs) = mset rs"
    unfolding target_regions_def Let_def target_counts(1) [OF assms] by (simp add: target_counts(2) [OF assms])
  moreover have "sorted (target_regions rs)" by (simp add: target_regions_def Let_def sorted_append)
  ultimately show ?thesis by (simp add: properties_for_sort)
qed

lemma map_sort_key: "map f (sort_key f xs) = sort (map f xs)"
  by (rule properties_for_sort [symmetric]) simp_all

text \<open>Two lists with the same elements: where they differ, they have the same elements too.\<close>

lemma misplaced_mset:
  assumes "length xs = length ys" "mset xs = mset ys"
  shows "mset (map (\<lambda>i. xs ! i) (filter (\<lambda>i. xs ! i \<noteq> ys ! i) [0..<length xs])) =
    mset (map (\<lambda>i. ys ! i) (filter (\<lambda>i. xs ! i \<noteq> ys ! i) [0..<length xs]))"
proof -
  let ?I = "mset [0..<length xs]" and ?P = "\<lambda>i. xs ! i \<noteq> ys ! i"
  have split: "mset zs = image_mset ((!) zs) (filter_mset ?P ?I) + image_mset ((!) zs) (filter_mset (\<lambda>i. \<not> ?P i) ?I)" if "length zs = length xs" for zs
  proof -
    have "mset zs = mset (map ((!) zs) [0..<length xs])" unfolding that [symmetric] map_nth ..
    also have "\<dots> = image_mset ((!) zs) (filter_mset ?P ?I + filter_mset (\<lambda>i. \<not> ?P i) ?I)"
      by (simp only: mset_map multiset_partition [symmetric])
    finally show ?thesis by (simp only: image_mset_union)
  qed
  have "image_mset ((!) xs) (filter_mset (\<lambda>i. \<not> ?P i) ?I) = image_mset ((!) ys) (filter_mset (\<lambda>i. \<not> ?P i) ?I)"
    by (rule image_mset_cong) simp
  with split [of xs] split [of ys] assms have "image_mset ((!) xs) (filter_mset ?P ?I) = image_mset ((!) ys) (filter_mset ?P ?I)" by simp
  then show ?thesis by simp
qed

lemma sorted_nth_filter: "sorted xs \<Longrightarrow> sorted (map (\<lambda>i. xs ! i) (filter P [0..<length xs]))"
  by (rule sorted_filter) (simp add: map_nth)

lemma src_regions:
  assumes "set rs \<subseteq> {0, 1, 2}"
  shows "map (\<lambda>i. rs ! i) (src_indices rs) = map (\<lambda>i. target_regions rs ! i) (orig_indices rs)"
proof -
  have t: "mset (target_regions rs) = mset rs" "length (target_regions rs) = length rs" "sorted (target_regions rs)"
    by (simp_all add: target_sort [OF assms])
  have "map (\<lambda>i. rs ! i) (src_indices rs) = sort (map (\<lambda>i. rs ! i) (orig_indices rs))" by (simp add: src_indices_def map_sort_key)
  also have "\<dots> = map (\<lambda>i. target_regions rs ! i) (orig_indices rs)"
  proof (rule properties_for_sort)
    show "mset (map (\<lambda>i. target_regions rs ! i) (orig_indices rs)) = mset (map (\<lambda>i. rs ! i) (orig_indices rs))"
      unfolding orig_indices_def using misplaced_mset [of rs "target_regions rs"] t(1,2) by (simp add: t(2))
    show "sorted (map (\<lambda>i. target_regions rs ! i) (orig_indices rs))"
      unfolding orig_indices_def using sorted_nth_filter [OF t(3)] t(2) by simp
  qed
  finally show ?thesis .
qed

definition destination :: "(nat, nat) odict \<Rightarrow> nat \<Rightarrow> nat" where
  "destination d p = (case map_of d p of None \<Rightarrow> p | Some q \<Rightarrow> q)"

lemma destination_zip:
  assumes "distinct xs" "set xs = set ys" "length xs = length ys"
  shows "p \<notin> set xs \<Longrightarrow> destination (zip xs ys) p = p" "k < length xs \<Longrightarrow> destination (zip xs ys) (xs ! k) = ys ! k"
  using assms map_of_zip_nth [of xs ys k] by (auto simp: destination_def split: option.splits dest: map_of_SomeD set_zip_leftD)

lemma destination_perm:
  assumes "distinct xs" "distinct ys" "set xs = set ys" "set ys \<subseteq> {..<n}"
  shows "perm n (destination (zip xs ys))"
proof -
  have len: "length xs = length ys" using assms by (metis distinct_card)
  note dest = destination_zip [OF assms(1,3) len]
  have img: "p \<in> set xs \<longleftrightarrow> destination (zip xs ys) p \<in> set xs" for p
    using dest assms(3) len by (metis in_set_conv_nth)
  have "p = q" if "destination (zip xs ys) p = destination (zip xs ys) q" for p q
  proof (cases "p \<in> set xs")
    case True
    with that img obtain k l where "k < length xs" "p = xs ! k" "l < length xs" "q = xs ! l" by (metis in_set_conv_nth)
    with that dest(2) have "ys ! k = ys ! l" by simp
    with \<open>k < length xs\<close> \<open>l < length xs\<close> have "k = l" using assms(2) len by (simp add: nth_eq_iff_index_eq)
    then show ?thesis using \<open>p = xs ! k\<close> \<open>q = xs ! l\<close> by simp
  next
    case False
    then show ?thesis using that dest(1) img by metis
  qed
  moreover have "destination (zip xs ys) p < n" if "p < n" for p
    using that dest img assms(3,4) by (metis lessThan_iff subsetD)
  ultimately show ?thesis by (auto simp: perm_def inj_on_def)
qed

lemma orig_src:
  "distinct (orig_indices rs)" "distinct (src_indices rs)" "set (src_indices rs) = set (orig_indices rs)" "set (orig_indices rs) \<subseteq> {..<length rs}"
  by (auto simp: orig_indices_def src_indices_def)

lemma region_placed:
  assumes "set rs \<subseteq> {0, 1, 2}" "p < length rs"
  shows "rs ! p = target_regions rs ! destination (src_dest_map rs) p"
proof -
  have len: "length (src_indices rs) = length (orig_indices rs)" by (simp add: src_indices_def)
  note dest = destination_zip [OF orig_src(2,3) len, folded src_dest_map_def]
  show ?thesis
  proof (cases "p \<in> set (src_indices rs)")
    case True
    then obtain k where k: "k < length (src_indices rs)" "p = src_indices rs ! k" by (metis in_set_conv_nth)
    then show ?thesis using dest(2) [OF k(1)] len arg_cong [OF src_regions [OF assms(1)], of "\<lambda>xs. xs ! k"] by simp
  next
    case False
    then have "rs ! p = target_regions rs ! p" using orig_src(3) [of rs] assms(2) by (auto simp: orig_indices_def)
    then show ?thesis using dest(1) [OF False] by simp
  qed
qed

section \<open>The batch\<close>

definition reordered :: "nat \<Rightarrow> input_batch \<Rightarrow> input_batch \<Rightarrow> bool" where
  "reordered m b0 b \<longleftrightarrow> batch_inv m b \<and> bu_removed (ib_builder b) = [] \<and> batch_abs b = batch_abs b0 \<and> same_keyed b0 b"

definition row_key :: "input_batch \<Rightarrow> nat \<Rightarrow> string option \<times> nat" where
  "row_key b i = (ib_req_ids b ! i, ib_num_computed_tokens b ! i)"

interpretation batch_rows: swap_store swap_states "\<lambda>b. length (ib_req_ids b)" row_key "reordered m" for m
proof
  fix b0 b i j
  assume b: "reordered m b0 b" and ij: "i < length (ib_req_ids b)" "j < length (ib_req_ids b)"
  then have inv: "batch_inv m b" and rem: "bu_removed (ib_builder b) = []" by (simp_all add: reordered_def)
  then obtain b' where b': "swap_states i j b = Inr b'" "batch_inv m b'" "batch_abs b' = batch_abs b" "same_keyed b b'"
    "ib_req_ids b' = swap_at i j (ib_req_ids b)" "ib_num_computed_tokens b' = swap_at i j (ib_num_computed_tokens b)"
    "bu_removed (ib_builder b') = bu_removed (ib_builder b)"
    using swap_states_run [OF inv ij] by auto
  have "length (ib_req_ids b) \<le> length (ib_num_computed_tokens b)" using inv by (simp add: batch_inv_def columns_ok_def lengths_ok_def index_ok_def Let_def)
  then have "\<forall>k < length (ib_req_ids b). row_key b' k = row_key b (exchange i j k)"
    using b'(5,6) ij by (auto simp: row_key_def nth_exchange)
  with b b' rem show "\<exists>b'. swap_states i j b = Inr b' \<and> reordered m b0 b' \<and> length (ib_req_ids b') = length (ib_req_ids b) \<and>
      (\<forall>k < length (ib_req_ids b). row_key b' k = row_key b (exchange i j k))"
    using same_keyed_trans by (auto simp: reordered_def)
qed

definition key_region :: "nat \<Rightarrow> (string, nat) odict \<Rightarrow> string option \<times> nat \<Rightarrow> nat" where
  "key_region thr sched k = region thr (the (map_of sched (the (fst k)))) (snd k)"

lemma key_regions_range: "set (map (\<lambda>i. key_region thr sched (f i)) xs) \<subseteq> {0, 1, 2}"
  by (auto simp: key_region_def region_def)

definition dense :: "nat \<Rightarrow> (string, nat) odict \<Rightarrow> input_batch \<Rightarrow> bool" where
  "dense m sched b \<longleftrightarrow> batch_inv m b \<and> bu_removed (ib_builder b) = [] \<and>
     list_all (\<lambda>(rid, _). map_of sched rid \<noteq> None) (ib_req_id_to_index b)"

lemma dense_rows:
  assumes "dense m sched b" "i < length (ib_req_ids b)"
  shows "\<exists>rid n. ib_req_ids b ! i = Some rid \<and> map_of sched rid = Some n"
proof -
  have idx: "index_ok (\<lambda>_. True) b" using assms(1) by (auto simp: dense_def batch_inv_def)
  then obtain rid where rid: "ib_req_ids b ! i = Some rid" using assms(2) unfolding index_ok_def by blast
  then have "map_of (ib_req_id_to_index b) rid = Some i" using idx assms(2) by (simp add: index_ok_def)
  then have "map_of sched rid \<noteq> None" using assms(1) by (auto simp: dense_def list_all_iff dest!: map_of_SomeD)
  with rid show ?thesis by blast
qed

lemma req_regions_rows:
  assumes "\<forall>i < length (ib_req_ids b). \<exists>rid n. ib_req_ids b ! i = Some rid \<and> map_of sched rid = Some n"
    "length (ib_req_ids b) \<le> length (ib_num_computed_tokens b)"
  shows "req_regions thr sched b = Inr (map (\<lambda>i. key_region thr sched (row_key b i)) [0..<length (ib_req_ids b)])"
proof -
  let ?n = "\<lambda>r. the (map_of sched (the r))"
  have "rmap (\<lambda>r. case r of None \<Rightarrow> Inl KeyError | Some req_id \<Rightarrow> od_lookup sched req_id) (ib_req_ids b) = Inr (map ?n (ib_req_ids b))"
    unfolding rmap_Inr_iff list_all2_conv_all_nth using assms(1) by (force simp: od_lookup_def)
  moreover have "map2 (region thr) (map ?n (ib_req_ids b)) (take (length (ib_req_ids b)) (ib_num_computed_tokens b)) =
      map (\<lambda>i. key_region thr sched (row_key b i)) [0..<length (ib_req_ids b)]"
    using assms(2) by (intro nth_equalityI) (simp_all add: key_region_def row_key_def)
  ultimately show ?thesis by (simp add: req_regions_def)
qed

lemma swap_cycles_regions:
  assumes dense: "dense m sched b" and rs: "rs = map (\<lambda>i. key_region thr sched (row_key b i)) [0..<length (ib_req_ids b)]"
    and d: "d = src_dest_map rs"
  shows "\<exists>b'. swap_cycles swap_states (length rs + 1) (length d) (map fst d) d b = Inr b' \<and> reordered m b b' \<and>
    length (ib_req_ids b') = length (ib_req_ids b) \<and>
    (\<forall>q < length rs. key_region thr sched (row_key b' q) = target_regions rs ! q) \<and>
    (\<forall>q < length rs. \<exists>p < length rs. row_key b' q = row_key b p)"
proof -
  let ?n = "length rs" and ?T = "destination d"
  have rng: "set rs \<subseteq> {0, 1, 2}" unfolding rs by (rule key_regions_range)
  have n: "?n = length (ib_req_ids b)" using rs by simp
  have len: "length (src_indices rs) = length (orig_indices rs)" by (simp add: src_indices_def)
  have keys: "map fst d = src_indices rs" using len by (simp add: d src_dest_map_def)
  have perm: "perm ?n ?T" using destination_perm [OF orig_src(2,1,3,4)] by (simp add: d src_dest_map_def)
  define V where "V = (\<lambda>q. row_key b (the_inv_into {..<?n} ?T q))"
  have V: "V (?T p) = row_key b p" if "p < ?n" for p
    using that perm by (simp add: V_def perm_def the_inv_into_f_f)
  have "reordered m b b" using dense by (simp add: dense_def reordered_def)
  then have start: "batch_rows.on_the_way m b V ?n ?T b" using perm V n by (simp add: batch_rows.on_the_way_def)
  have "\<exists>b'. swap_cycles swap_states (?n + 1) (length d) (map fst d) d b = Inr b' \<and> reordered m b b' \<and>
      length (ib_req_ids b') = ?n \<and> (\<forall>p < ?n. row_key b' p = V p)"
  proof (rule batch_rows.swap_cycles_ok [OF start])
    show "distinct (map fst d)" "set (map fst d) \<subseteq> {..<?n}" "od_wf d" unfolding od_wf_def keys using orig_src [of rs] by auto
    show "\<forall>p \<in> set (map fst d). map_of d p = Some (?T p)"
    proof
      fix p assume "p \<in> set (map fst d)"
      then have "map_of d p \<noteq> None" by (simp add: map_of_eq_None_iff)
      then show "map_of d p = Some (?T p)" by (auto simp: destination_def)
    qed
    show "\<forall>p < ?n. p \<notin> set (map fst d) \<longrightarrow> ?T p = p"
      by (simp add: destination_def flip: map_of_eq_None_iff)
  qed simp
  then obtain b' where b': "swap_cycles swap_states (?n + 1) (length d) (map fst d) d b = Inr b'" "reordered m b b'"
    "length (ib_req_ids b') = ?n" "\<forall>p < ?n. row_key b' p = V p" by blast
  have back_row: "\<exists>p < ?n. row_key b' q = row_key b p \<and> ?T p = q" if "q < ?n" for q
  proof -
    have "q \<in> ?T ` {..<?n}" unfolding perm_image [OF perm] using that by simp
    then obtain p where p: "p < ?n" "?T p = q" by blast
    with V [OF p(1)] b'(4) that have "row_key b' q = row_key b p" by simp
    with p show ?thesis by blast
  qed
  have "key_region thr sched (row_key b' q) = target_regions rs ! q" if "q < ?n" for q
  proof -
    from back_row [OF that] obtain p where p: "p < ?n" "row_key b' q = row_key b p" "?T p = q" by blast
    then have "key_region thr sched (row_key b' q) = rs ! p" by (simp add: rs)
    then show ?thesis using region_placed [OF rng p(1)] p(3) by (simp add: d)
  qed
  with b' back_row n show ?thesis by metis
qed

text \<open>
  C34: Reordering a batch without holes terminates and sorts it: the requests with at most
  \<open>thr\<close> scheduled tokens come first, then those that extend a context, then the new prefills.
  No request is lost, and its tokens, counters, sampling parameters, blocks, output and draft tokens, generator and bad words
  (the columns of \<open>row_at\<close>) stay with it; the mask of allowed tokens, which a swap may overwrite, the prompt embeddings and
  \<^verbatim>\<open>logits_processing_needs_token_ids\<close> are not among them. The batch is reported as changed exactly when it
  was not in this order.
\<close>

theorem reorder_sorts:
  assumes "dense m sched b"
  shows "\<exists>rs changed b'. req_regions thr sched b = Inr rs \<and> reorder_batch thr sched b = Inr (changed, b') \<and>
    batch_inv m b' \<and> batch_abs b' = batch_abs b \<and> req_regions thr sched b' = Inr (sort rs) \<and> (changed \<longleftrightarrow> \<not> sorted rs)"
proof -
  let ?rs = "map (\<lambda>i. key_region thr sched (row_key b i)) [0..<length (ib_req_ids b)]"
  have len: "length (ib_req_ids b) \<le> length (ib_num_computed_tokens b)" if "batch_inv m b" for b
    using that by (simp add: batch_inv_def columns_ok_def lengths_ok_def index_ok_def Let_def)
  have inv: "batch_inv m b" using assms by (simp add: dense_def)
  have rs: "req_regions thr sched b = Inr ?rs" using req_regions_rows dense_rows [OF assms] len [OF inv] by blast
  have tgt: "target_regions ?rs = sort ?rs" by (rule target_sort) (rule key_regions_range)
  show ?thesis
  proof (cases "sorted ?rs")
    case True
    then have "sort ?rs = ?rs" by (simp only: sorted_sort_id)
    then have "reorder_batch thr sched b = Inr (False, b)" using rs tgt by (simp add: reorder_batch_def)
    then show ?thesis using rs inv True \<open>sort ?rs = ?rs\<close> by metis
  next
    case False
    then have "?rs \<noteq> target_regions ?rs" unfolding tgt by (metis sorted_sort)
    moreover obtain b' where b': "swap_cycles swap_states (length ?rs + 1) (length (src_dest_map ?rs)) (map fst (src_dest_map ?rs)) (src_dest_map ?rs) b = Inr b'"
      "reordered m b b'" "length (ib_req_ids b') = length (ib_req_ids b)"
      "\<forall>q < length ?rs. key_region thr sched (row_key b' q) = target_regions ?rs ! q"
      "\<forall>q < length ?rs. \<exists>p < length ?rs. row_key b' q = row_key b p"
      using swap_cycles_regions [OF assms refl refl] by metis
    ultimately have run: "reorder_batch thr sched b = Inr (True, b')" using rs by (simp add: reorder_batch_def Let_def)
    have inv': "batch_inv m b'" "batch_abs b' = batch_abs b" using b'(2) by (simp_all add: reordered_def)
    have "\<forall>i < length (ib_req_ids b'). \<exists>rid n. ib_req_ids b' ! i = Some rid \<and> map_of sched rid = Some n"
      using b'(3,5) dense_rows [OF assms] by (metis (no_types, lifting) fst_conv length_map length_upt minus_nat.diff_0 row_key_def)
    then have "req_regions thr sched b' = Inr (map (\<lambda>i. key_region thr sched (row_key b' i)) [0..<length (ib_req_ids b')])"
      using req_regions_rows len [OF inv'(1)] by blast
    also have "map (\<lambda>i. key_region thr sched (row_key b' i)) [0..<length (ib_req_ids b')] = sort ?rs"
      unfolding tgt [symmetric] using b'(3,4) by (intro nth_equalityI) (simp_all add: tgt)
    finally show ?thesis using rs run inv' False by metis
  qed
qed

theorem reorder_sorts_witness:
  "\<exists>b'. reorder_batch 1 [(''a'', 5), (''b'', 1)] demo_pair = Inr (True, b') \<and> batch_abs b' = batch_abs demo_pair \<and>
     req_regions 1 [(''a'', 5), (''b'', 1)] b' = Inr [0, 2]"
proof -
  let ?sched = "[(''a'', 5), (''b'', 1)]"
  have "bu_removed (ib_builder demo_pair) = []" "ib_req_id_to_index demo_pair = [(''a'', 0), (''b'', 1)]"
    by (simp_all add: demo_pair_def input_batch_init_def bu_init_def)
  then have "dense 4 ?sched demo_pair" using demo_pair_inv by (simp add: dense_def)
  moreover have "req_regions 1 ?sched demo_pair = Inr [2, 0]"
    by (simp add: req_regions_def demo_pair_def input_batch_init_def od_lookup_def region_def numeral_2_eq_2)
  ultimately show ?thesis using reorder_sorts [of 4 ?sched demo_pair 1] by auto
qed

end
