(* ===== verification/Attention_Split.thy ===== *)
theory Attention_Split
  imports Batch_Reorder
begin

text \<open>
  What the attention backends read off a batch: the splits into decodes, extends and prefills, the
  chunks of prefills that fit the workspace, and the share of a sequence on a rank of the decode
  context parallel group (\<^verbatim>\<open>vllm/v1/attention/backends/utils.py\<close>). Tensors are lists; the
  fields of the metadata that these functions read are kept.
\<close>

section \<open>Splits\<close>

record common_attn_metadata =
  am_query_start_loc :: "int list"
  am_seq_lens :: "int list"
  am_num_reqs :: int
  am_num_actual_tokens :: int
  am_max_query_len :: int

definition query_lens :: "common_attn_metadata \<Rightarrow> int list" where
  "query_lens m = map2 (-) (tl (am_query_start_loc m)) (butlast (am_query_start_loc m))"

text \<open>The index of the first maximum of a tensor of truth values; the maximum of an empty tensor raises.\<close>

definition first_true :: "bool list \<Rightarrow> nat result" where
  "first_true bs = (if bs = [] then Inl IndexError else Inr (if True \<in> set bs then length (takeWhile Not bs) else 0))"

definition split_decodes_prefills_and_extends ::
  "common_attn_metadata \<Rightarrow> int \<Rightarrow> (int \<times> int \<times> int \<times> int \<times> int \<times> int) result" where
  "split_decodes_prefills_and_extends m decode_threshold =
     (let num_reqs = am_num_reqs m; num_tokens = am_num_actual_tokens m in
      if am_max_query_len m \<le> decode_threshold then Inr (num_reqs, 0, 0, num_tokens, 0, 0)
      else if length (am_seq_lens m) \<noteq> length (query_lens m) then Inl RuntimeError
      else
        let is_prefill_or_extend = map (\<lambda>q. decode_threshold < q) (query_lens m);
            is_prefill = map2 (\<lambda>s q. s = q \<and> decode_threshold < q) (am_seq_lens m) (query_lens m) in
        rbind (first_true is_prefill_or_extend) (\<lambda>first_extend. rbind (first_true is_prefill) (\<lambda>first_prefill.
        rbind (py_get (am_query_start_loc m) first_extend) (\<lambda>num_decode_tokens.
        let num_decodes = int first_extend in
        if True \<notin> set is_prefill_or_extend then Inr (num_decodes, 0, 0, num_decode_tokens, 0, 0)
        else
          let num_prefills_or_extends = num_reqs - num_decodes;
              num_prefill_or_extend_tokens = num_tokens - num_decode_tokens in
          if True \<notin> set is_prefill then Inr (num_decodes, num_prefills_or_extends, 0, num_decode_tokens, num_prefill_or_extend_tokens, 0)
          else
            let num_extends = int first_prefill - num_decodes;
                num_prefills = num_reqs - int first_prefill in
            rbind (py_get (am_query_start_loc m) first_prefill) (\<lambda>start.
              let num_prefill_tokens = num_tokens - start;
                  num_extend_tokens = num_prefill_or_extend_tokens - num_prefill_tokens in
              Inr (num_decodes, num_extends, num_prefills, num_decode_tokens, num_extend_tokens, num_prefill_tokens))))))"

definition split_decodes_and_prefills ::
  "common_attn_metadata \<Rightarrow> int \<Rightarrow> bool \<Rightarrow> (int \<times> int \<times> int \<times> int) result" where
  "split_decodes_and_prefills m decode_threshold require_uniform =
     (let num_reqs = am_num_reqs m; num_tokens = am_num_actual_tokens m; ql = query_lens m in
      if am_max_query_len m \<le> decode_threshold \<and> (\<not> require_uniform \<or> decode_threshold \<le> 1) then Inr (num_reqs, 0, num_tokens, 0)
      else rbind (py_get ql 0) (\<lambda>q0.
        if decode_threshold < q0 then Inr (0, num_reqs, 0, num_tokens)
        else if require_uniform \<and> list_all (\<lambda>q. q = q0 \<or> q = 0) ql then
          rbind (rassert (num_reqs * q0 = num_tokens)) (\<lambda>_. Inr (num_reqs, 0, num_tokens, 0))
        else
          let is_prefill = map (\<lambda>q. if require_uniform then q \<noteq> q0 else decode_threshold < q) ql in
          if True \<notin> set is_prefill then Inr (num_reqs, 0, num_tokens, 0)
          else rbind (first_true is_prefill) (\<lambda>first_prefill.
            rbind (rassert (list_all (\<lambda>q. q \<le> decode_threshold) (take first_prefill ql))) (\<lambda>_.
            rbind (py_get (am_query_start_loc m) first_prefill) (\<lambda>num_decode_tokens.
              Inr (int first_prefill, num_reqs - int first_prefill, num_decode_tokens, num_tokens - num_decode_tokens))))))"

section \<open>Chunks of prefills\<close>

text \<open>The requests that the inner loop adds to the chunk.\<close>

fun chunk_size :: "nat \<Rightarrow> nat \<Rightarrow> nat list \<Rightarrow> nat" where
  "chunk_size workspace_size chunk_total [] = 0"
| "chunk_size workspace_size chunk_total (s # ss) =
     (if chunk_total + s \<le> workspace_size then Suc (chunk_size workspace_size (chunk_total + s) ss) else 0)"

fun chunk_loop :: "nat \<Rightarrow> nat \<Rightarrow> nat \<Rightarrow> nat \<Rightarrow> nat list \<Rightarrow> (nat \<times> nat) list result" where
  "chunk_loop 0 workspace_size request_offset i seq_lens = Inl Diverges"
| "chunk_loop (Suc fuel) workspace_size request_offset i seq_lens =
     (if i < length seq_lens then
        let j = i + chunk_size workspace_size 0 (drop i seq_lens) in
        rbind (chunk_loop fuel workspace_size request_offset j seq_lens) (\<lambda>bounds.
          Inr ((i + request_offset, j + request_offset) # bounds))
      else Inr [])"

definition split_prefill_chunks :: "nat list \<Rightarrow> nat \<Rightarrow> nat \<Rightarrow> (nat \<times> nat) list result" where
  "split_prefill_chunks seq_lens workspace_size request_offset =
     rbind (rassert (list_all (\<lambda>s. s \<le> workspace_size) seq_lens)) (\<lambda>_.
       chunk_loop (length seq_lens + 1) workspace_size request_offset 0 seq_lens)"

section \<open>Lengths on a rank\<close>

definition clip :: "int \<Rightarrow> int \<Rightarrow> int \<Rightarrow> int" where
  "clip x lo hi = min (max x lo) hi"

definition local_seq_len :: "nat \<Rightarrow> nat \<Rightarrow> nat \<Rightarrow> nat \<Rightarrow> int" where
  "local_seq_len dcp_size interleave rank_offset seq_len =
     (let base = int (seq_len div interleave div dcp_size * interleave);
          remainder = int seq_len - base * int dcp_size in
      base + clip (remainder - int (rank_offset * interleave)) 0 (int interleave))"

text \<open>
  One column per rank, or one number per request when a rank is given or there is one rank. The tensors of 32 bit integers are
  lists of unbounded numbers here: the results are at most the lengths of the sequences.
\<close>

definition get_dcp_local_seq_lens :: "nat list \<Rightarrow> nat \<Rightarrow> nat option \<Rightarrow> nat \<Rightarrow> (int list list + int list) result" where
  "get_dcp_local_seq_lens seq_lens dcp_size rank interleave =
     (if dcp_size = 0 \<or> interleave = 0 then Inl ZeroDivisionError
      else case rank of
        Some r \<Rightarrow> Inr (Inr (map (local_seq_len dcp_size interleave r) seq_lens))
      | None \<Rightarrow>
          if dcp_size = 1 then Inr (Inr (map (local_seq_len dcp_size interleave 0) seq_lens))
          else Inr (Inl (map (\<lambda>s. map (\<lambda>r. local_seq_len dcp_size interleave r s) [0..<dcp_size]) seq_lens)))"

section \<open>The splits of a sorted batch\<close>

definition cumulative :: "nat list \<Rightarrow> int list" where
  "cumulative qs = map (\<lambda>k. int (sum_list (take k qs))) [0..<Suc (length qs)]"

definition describes :: "common_attn_metadata \<Rightarrow> nat list \<Rightarrow> nat list \<Rightarrow> bool" where
  "describes m scheduled computed \<longleftrightarrow> length computed = length scheduled \<and> scheduled \<noteq> [] \<and>
     am_query_start_loc m = cumulative scheduled \<and> am_seq_lens m = map2 (\<lambda>q c. int (q + c)) scheduled computed \<and>
     am_num_reqs m = int (length scheduled) \<and> am_num_actual_tokens m = int (sum_list scheduled) \<and>
     am_max_query_len m = int (Max (set scheduled))"

lemma query_lens_cumulative: "am_query_start_loc m = cumulative qs \<Longrightarrow> query_lens m = map int qs"
  unfolding query_lens_def cumulative_def
  by (intro nth_equalityI) (auto simp: nth_tl nth_butlast take_Suc_conv_app_nth simp del: upt_Suc)

lemma cumulative_get: "k \<le> length qs \<Longrightarrow> py_get (cumulative qs) k = Inr (int (sum_list (take k qs)))"
  by (simp add: py_get_def cumulative_def del: upt_Suc)

lemma first_true_blocks:
  "first_true (replicate a False @ replicate b True) = (if a + b = 0 then Inl IndexError else Inr (if b = 0 then 0 else a))"
  by (cases b) (auto simp: first_true_def takeWhile_append)

lemma sorted_regions:
  assumes "sorted rs" "set rs \<subseteq> {0, 1, 2 :: nat}"
  obtains a b c where "rs = replicate a 0 @ replicate b 1 @ replicate c 2"
    "a = length (filter (\<lambda>x. x = 0) rs)" "b = length (filter (\<lambda>x. x = 1) rs)" "c = length (filter (\<lambda>x. x = 2) rs)"
proof -
  have "rs = target_regions rs" using target_sort [OF assms(2)] assms(1) by (simp add: sorted_sort_id)
  then show thesis using that target_counts(1) [OF assms(2)] unfolding target_regions_def Let_def by metis
qed

definition in_region :: "nat \<Rightarrow> nat \<Rightarrow> nat list \<Rightarrow> nat list \<Rightarrow> (nat \<times> nat) list" where
  "in_region thr x scheduled computed = filter (\<lambda>(q, c). region thr q c = x) (zip scheduled computed)"

definition region_tokens :: "nat \<Rightarrow> nat \<Rightarrow> nat list \<Rightarrow> nat list \<Rightarrow> nat" where
  "region_tokens thr x scheduled computed = sum_list (map fst (in_region thr x scheduled computed))"

lemma filter_blocks:
  assumes "map f ps = replicate a 0 @ replicate b 1 @ replicate c (2 :: nat)"
  shows "filter (\<lambda>p. f p = 0) ps = take a ps" "filter (\<lambda>p. f p = 1) ps = take b (drop a ps)" "filter (\<lambda>p. f p = 2) ps = drop (a + b) ps"
proof -
  from assms obtain xs vs where xs: "ps = xs @ vs" "replicate a 0 = map f xs" "replicate b 1 @ replicate c 2 = map f vs"
    unfolding map_eq_append_conv by blast
  from xs(3) [symmetric] obtain ys zs where "vs = ys @ zs" "replicate b 1 = map f ys" "replicate c 2 = map f zs"
    unfolding map_eq_append_conv by blast
  with xs have ps: "ps = xs @ ys @ zs" "map f xs = replicate a 0" "map f ys = replicate b 1" "map f zs = replicate c 2" by simp_all
  then have len: "length xs = a" "length ys = b" by (metis length_map length_replicate)+
  have "\<forall>p \<in> set xs. f p = 0" "\<forall>p \<in> set ys. f p = 1" "\<forall>p \<in> set zs. f p = 2"
    using ps(2-4) by (metis in_set_replicate imageI list.set_map)+
  then show "filter (\<lambda>p. f p = 0) ps = take a ps" "filter (\<lambda>p. f p = 1) ps = take b (drop a ps)" "filter (\<lambda>p. f p = 2) ps = drop (a + b) ps"
    unfolding ps(1) using len by (auto simp: filter_empty_conv filter_id_conv)
qed

lemma sum_take_drop: "sum_list (take (a + b) xs) = sum_list (take a xs) + sum_list (take b (drop a xs))" for xs :: "nat list"
  by (simp add: take_add)

lemma sum_list_split: "sum_list xs = sum_list (take k xs) + sum_list (drop k xs)" for xs :: "nat list"
  by (metis append_take_drop_id sum_list_append)

lemma region_blocks:
  assumes "length computed = length scheduled" "sorted (map2 (region thr) scheduled computed)"
  obtains a b c where "map2 (region thr) scheduled computed = replicate a 0 @ replicate b 1 @ replicate c 2"
    "length scheduled = a + b + c"
    "length (in_region thr 0 scheduled computed) = a" "length (in_region thr 1 scheduled computed) = b"
    "length (in_region thr 2 scheduled computed) = c"
    "region_tokens thr 0 scheduled computed = sum_list (take a scheduled)"
    "region_tokens thr 1 scheduled computed = sum_list (take (a + b) scheduled) - sum_list (take a scheduled)"
    "region_tokens thr 2 scheduled computed = sum_list scheduled - sum_list (take (a + b) scheduled)"
proof -
  let ?ps = "zip scheduled computed" and ?f = "\<lambda>(q, c). region thr q c"
  have "set (map2 (region thr) scheduled computed) \<subseteq> {0, 1, 2}" by (auto simp: region_def split: if_splits)
  from sorted_regions [OF assms(2) this] obtain a b c
    where rs: "map2 (region thr) scheduled computed = replicate a 0 @ replicate b 1 @ replicate c 2" by metis
  have "length scheduled = length (map2 (region thr) scheduled computed)" using assms(1) by simp
  then have len: "length scheduled = a + b + c" unfolding rs by simp
  note f = filter_blocks [of ?f ?ps, OF rs]
  have reg: "in_region thr x scheduled computed = filter (\<lambda>p. ?f p = x) ?ps" for x
    unfolding in_region_def by (rule filter_cong) auto
  have fst: "map fst (take k ?ps) = take k scheduled" "map fst (drop k ?ps) = drop k scheduled" for k
    using assms(1) by (simp_all flip: take_map drop_map)
  have "map fst (take b (drop a ?ps)) = take b (drop a scheduled)" using fst(2) by (simp flip: take_map)
  then show thesis
    using that [OF rs len] f len assms(1) fst sum_take_drop [of a b scheduled] sum_list_split [of scheduled "a + b"]
    by (simp add: reg region_tokens_def min_def)
qed

text \<open>
  C37: In a batch ordered by region both splits of the attention backends return the exact numbers of
  decodes, extends and prefills and of their tokens, although they only look for the first request
  of each kind. \<open>describes\<close> says that the metadata holds the scheduled and the computed tokens.
\<close>

theorem splits_by_region:
  assumes "describes m scheduled computed" "sorted (map2 (region thr) scheduled computed)"
  shows "split_decodes_prefills_and_extends m (int thr) =
      Inr (int (length (in_region thr 0 scheduled computed)), int (length (in_region thr 1 scheduled computed)),
           int (length (in_region thr 2 scheduled computed)), int (region_tokens thr 0 scheduled computed),
           int (region_tokens thr 1 scheduled computed), int (region_tokens thr 2 scheduled computed)) \<and>
    split_decodes_and_prefills m (int thr) False =
      Inr (int (length (in_region thr 0 scheduled computed)),
           int (length (in_region thr 1 scheduled computed) + length (in_region thr 2 scheduled computed)),
           int (region_tokens thr 0 scheduled computed),
           int (region_tokens thr 1 scheduled computed + region_tokens thr 2 scheduled computed))"
proof -
  have d: "length computed = length scheduled" "scheduled \<noteq> []" "am_query_start_loc m = cumulative scheduled"
    "am_seq_lens m = map2 (\<lambda>q c. int (q + c)) scheduled computed" "am_num_reqs m = int (length scheduled)"
    "am_num_actual_tokens m = int (sum_list scheduled)" "am_max_query_len m = int (Max (set scheduled))"
    using assms(1) by (simp_all add: describes_def)
  note ql = query_lens_cumulative [OF d(3)]
  obtain a b c where rs: "map2 (region thr) scheduled computed = replicate a 0 @ replicate b 1 @ replicate c 2" and len: "length scheduled = a + b + c"
    and num: "length (in_region thr 0 scheduled computed) = a" "length (in_region thr 1 scheduled computed) = b"
      "length (in_region thr 2 scheduled computed) = c"
    and tok: "region_tokens thr 0 scheduled computed = sum_list (take a scheduled)"
      "region_tokens thr 1 scheduled computed = sum_list (take (a + b) scheduled) - sum_list (take a scheduled)"
      "region_tokens thr 2 scheduled computed = sum_list scheduled - sum_list (take (a + b) scheduled)"
    using region_blocks [OF d(1) assms(2)] by metis
  have mono: "sum_list (take a scheduled) \<le> sum_list (take (a + b) scheduled)" "sum_list (take (a + b) scheduled) \<le> sum_list scheduled"
    using sum_take_drop [of a b scheduled] sum_list_split [of scheduled "a + b"] by simp_all
  have big: "map (\<lambda>q. int thr < q) (map int scheduled) = replicate a False @ replicate (b + c) True"
  proof -
    have "map (\<lambda>q. int thr < q) (map int scheduled) = map (\<lambda>r. r \<noteq> 0) (map2 (region thr) scheduled computed)"
      using d(1) by (intro nth_equalityI) (auto simp: region_def)
    then show ?thesis unfolding rs by (simp add: replicate_add)
  qed
  have new: "map2 (\<lambda>s q. s = q \<and> int thr < q) (map2 (\<lambda>q c. int (q + c)) scheduled computed) (map int scheduled) = replicate (a + b) False @ replicate c True"
  proof -
    have "map2 (\<lambda>s q. s = q \<and> int thr < q) (map2 (\<lambda>q c. int (q + c)) scheduled computed) (map int scheduled) =
        map (\<lambda>r. r = 2) (map2 (region thr) scheduled computed)"
      using d(1) by (intro nth_equalityI) (auto simp: region_def)
    then show ?thesis unfolding rs by (simp add: replicate_add)
  qed
  have max: "Max (set scheduled) \<le> thr \<longleftrightarrow> b + c = 0"
  proof -
    have "Max (set scheduled) \<le> thr \<longleftrightarrow> True \<notin> set (map (\<lambda>q. int thr < q) (map int scheduled))" using d(2) by (auto simp: not_less)
    then show ?thesis unfolding big by auto
  qed
  show ?thesis
  proof (cases "b + c = 0")
    case True
    then show ?thesis using max d(5-7) len num tok
      by (simp add: split_decodes_prefills_and_extends_def split_decodes_and_prefills_def)
  next
    case False
    have "\<not> int (Max (set scheduled)) \<le> int thr" using max False by simp
    then have nd: "\<not> am_max_query_len m \<le> int thr" using d(7) by simp
    have qs: "py_get (am_query_start_loc m) k = Inr (int (sum_list (take k scheduled)))" if "k \<le> length scheduled" for k
      using cumulative_get [OF that] d(3) by simp
    have first: "first_true (map (\<lambda>q. int thr < q) (query_lens m)) = Inr a" unfolding ql big first_true_blocks using False by auto
    have "split_decodes_prefills_and_extends m (int thr) = Inr (int a, int b, int c, int (sum_list (take a scheduled)),
        int (sum_list (take (a + b) scheduled)) - int (sum_list (take a scheduled)), int (sum_list scheduled) - int (sum_list (take (a + b) scheduled)))"
      using False nd first qs d(1) len unfolding split_decodes_prefills_and_extends_def d(4-6) ql big new first_true_blocks Let_def
      by (cases "c = 0") auto
    moreover have "split_decodes_and_prefills m (int thr) False =
        Inr (int a, int (b + c), int (sum_list (take a scheduled)), int (sum_list scheduled) - int (sum_list (take a scheduled)))"
    proof -
      have q0: "py_get (query_lens m) 0 = Inr (int (scheduled ! 0))" using d(2) by (simp add: ql py_get_def)
      have n0: "int thr < int (scheduled ! 0) \<longleftrightarrow> a = 0"
      proof -
        have "(int thr < int (scheduled ! 0)) = map (\<lambda>q. int thr < q) (map int scheduled) ! 0" using d(2) by simp
        then show ?thesis unfolding big using False by (simp add: nth_append)
      qed
      have le: "list_all (\<lambda>q. q \<le> int thr) (take a (query_lens m))"
      proof -
        have "map (\<lambda>q. int thr < q) (take a (query_lens m)) = replicate a False" unfolding take_map [symmetric] ql big by simp
        then have "False = (int thr < q)" if "q \<in> set (take a (query_lens m))" for q
          using that by (metis imageI in_set_replicate list.set_map)
        then show ?thesis by (auto simp: list_all_iff not_less)
      qed
      have "True \<in> set (map (\<lambda>q. int thr < q) (query_lens m))" unfolding ql big using False by auto
      then show ?thesis
        unfolding split_decodes_and_prefills_def Let_def using nd q0 n0 first le qs [of a] d(5,6) len
        by (cases "a = 0") auto
    qed
    ultimately show ?thesis using num tok mono by (simp add: of_nat_diff)
  qed
qed

definition demo_metadata :: common_attn_metadata where
  "demo_metadata = \<lparr>am_query_start_loc = [0, 1, 2, 6, 12], am_seq_lens = [9, 4, 6, 6], am_num_reqs = 4, am_num_actual_tokens = 12,
     am_max_query_len = 6\<rparr>"

theorem splits_by_region_witness:
  "split_decodes_prefills_and_extends demo_metadata 1 = Inr (2, 1, 1, 2, 4, 6) \<and>
   split_decodes_and_prefills demo_metadata 1 False = Inr (2, 2, 2, 10)"
proof -
  have "describes demo_metadata [1, 1, 4, 6] [8, 3, 2, 0]"
    by (simp add: describes_def demo_metadata_def cumulative_def)
  from splits_by_region [OF this, of 1] show ?thesis
    by (simp add: in_region_def region_tokens_def region_def)
qed

section \<open>The chunks\<close>

lemma upt_split: "i \<le> j \<Longrightarrow> j \<le> k \<Longrightarrow> [i..<j] @ [j..<k] = [i..<k]"
  using upt_add_eq_append [of i j "k - j"] by simp

lemma chunk_size_le: "chunk_size w t xs \<le> length xs"
  by (induction xs arbitrary: t) auto

lemma chunk_size_fits: "t \<le> w \<Longrightarrow> t + sum_list (take (chunk_size w t xs) xs) \<le> w"
proof (induction xs arbitrary: t)
  case (Cons x xs)
  then show ?case using Cons.IH [of "t + x"] by (simp add: add.assoc)
qed simp

lemma chunk_size_greedy: "chunk_size w t xs < length xs \<Longrightarrow> w < t + sum_list (take (Suc (chunk_size w t xs)) xs)"
proof (induction xs arbitrary: t)
  case (Cons x xs)
  then show ?case using Cons.IH [of "t + x"] by (auto simp: add.assoc split: if_splits)
qed simp

definition chunks_ok :: "nat list \<Rightarrow> nat \<Rightarrow> nat \<Rightarrow> (nat \<times> nat) list \<Rightarrow> bool" where
  "chunks_ok lens w off bounds \<longleftrightarrow> list_all (\<lambda>(i, j). i < j \<and> sum_list (take (j - i) (drop (i - off) lens)) \<le> w \<and>
     (j < off + length lens \<longrightarrow> w < sum_list (take (Suc (j - i)) (drop (i - off) lens)))) bounds"

lemma chunk_loop_ok:
  assumes "\<forall>s \<in> set lens. s \<le> w" "i \<le> length lens" "length lens - i < fuel"
  shows "\<exists>bounds. chunk_loop fuel w off i lens = Inr bounds \<and> chunks_ok lens w off bounds \<and>
    concat (map (\<lambda>(i, j). [i..<j]) bounds) = [i + off..<length lens + off]"
  using assms
proof (induction fuel arbitrary: i)
  case (Suc fuel)
  show ?case
  proof (cases "i < length lens")
    case False
    then show ?thesis using Suc.prems by (simp add: chunks_ok_def)
  next
    case True
    let ?k = "chunk_size w 0 (drop i lens)"
    have k: "?k \<le> length lens - i" using chunk_size_le [of w 0 "drop i lens"] by simp
    have "lens ! i \<le> w" using Suc.prems(1) True by simp
    then have pos: "0 < ?k" using True by (simp add: Cons_nth_drop_Suc [symmetric])
    have "i + ?k \<le> length lens" "length lens - (i + ?k) < fuel" using k pos Suc.prems(3) True by linarith+
    from Suc.IH [OF Suc.prems(1) this] obtain bounds where IH: "chunk_loop fuel w off (i + ?k) lens = Inr bounds" "chunks_ok lens w off bounds"
      "concat (map (\<lambda>(i, j). [i..<j]) bounds) = [i + ?k + off..<length lens + off]"
      by blast
    have "chunk_loop (Suc fuel) w off i lens = Inr ((i + off, i + ?k + off) # bounds)" using True IH(1) by (simp add: Let_def)
    moreover have "[i + off..<i + ?k + off] @ [i + ?k + off..<length lens + off] = [i + off..<length lens + off]"
      using k True by (intro upt_split) linarith+
    moreover have "sum_list (take ?k (drop i lens)) \<le> w" using chunk_size_fits [of 0 w "drop i lens"] by simp
    moreover have "w < sum_list (take (Suc ?k) (drop i lens))" if "i + ?k < length lens"
      using chunk_size_greedy [of w 0 "drop i lens"] that by simp
    ultimately show ?thesis using IH(2,3) pos by (simp add: chunks_ok_def)
  qed
qed simp

text \<open>
  Splitting prefills terminates, and fails only if one sequence alone exceeds the workspace. The
  chunks are not empty, follow each other, cover every request once, fit the workspace, and no chunk
  could take the next request.
\<close>

lemma prefill_chunks:
  "(if \<exists>s \<in> set lens. w < s then split_prefill_chunks lens w off = Inl AssertionError
    else \<exists>bounds. split_prefill_chunks lens w off = Inr bounds \<and> chunks_ok lens w off bounds \<and>
      concat (map (\<lambda>(i, j). [i..<j]) bounds) = [off..<length lens + off])"
proof (cases "\<exists>s \<in> set lens. w < s")
  case True
  then have "\<not> list_all (\<lambda>s. s \<le> w) lens" by (auto simp: list_all_iff not_le)
  with True show ?thesis by (simp add: split_prefill_chunks_def)
next
  case False
  then have "\<forall>s \<in> set lens. s \<le> w" by auto
  moreover from this have "list_all (\<lambda>s. s \<le> w) lens" by (simp add: list_all_iff)
  ultimately show ?thesis using False chunk_loop_ok [of lens w 0 "length lens + 1" off] by (simp add: split_prefill_chunks_def)
qed

section \<open>The share of a rank\<close>

lemma local_seq_len_mod:
  assumes "0 < c" "0 < w"
  shows "local_seq_len w c r s = int (s div (c * w) * c) + clip (int (s mod (c * w)) - int (r * c)) 0 (int c)"
proof -
  have "s = s div (c * w) * (c * w) + s mod (c * w)" by (rule div_mult_mod_eq [symmetric])
  then have "int s = int (s div (c * w) * c) * int w + int (s mod (c * w))" by (metis (no_types) mult.assoc of_nat_add of_nat_mult)
  then show ?thesis by (simp add: local_seq_len_def Let_def div_mult2_eq)
qed

lemma clip_step:
  fixes x y c :: nat
  assumes "0 < c"
  shows "clip (int (Suc y) - int x) 0 (int c) = clip (int y - int x) 0 (int c) + (if x \<le> y \<and> y < x + c then 1 else 0)"
  using assms by (auto simp: clip_def)

lemma clip_wrap:
  fixes x y c :: nat
  assumes "x + c \<le> Suc y"
  shows "int c + clip (0 - int x) 0 (int c) = clip (int y - int x) 0 (int c) + (if x \<le> y \<and> y < x + c then 1 else 0)"
  using assms by (auto simp: clip_def)

lemma local_seq_len_Suc:
  assumes "0 < c" "r < w"
  shows "local_seq_len w c r (Suc s) = local_seq_len w c r s + (if s div c mod w = r then 1 else 0)"
proof -
  let ?W = "c * w" and ?m = "s mod (c * w)"
  have w: "0 < w" using assms by simp
  note eq = local_seq_len_mod [OF assms(1) w]
  have rank: "s div c mod w = ?m div c" using assms(1) w by (simp add: mod_mult2_eq)
  have iff: "?m div c = r \<longleftrightarrow> r * c \<le> ?m \<and> ?m < r * c + c"
    using assms(1) by (metis add.commute div_nat_eqI dividend_less_div_times div_times_less_eq_dividend mult.commute mult_Suc)
  have rc: "r * c + c \<le> ?W" using assms(2) by (metis Suc_leI mult.commute mult_Suc mult_le_mono2 add.commute)
  show ?thesis
  proof (cases "Suc ?m = ?W")
    case True
    then have "Suc s mod ?W = 0" "Suc s div ?W = Suc (s div ?W)" by (simp_all add: mod_Suc div_Suc)
    then show ?thesis unfolding eq rank iff using clip_wrap [of "r * c" c ?m] True rc by simp
  next
    case False
    then have "Suc s mod ?W = Suc ?m" "Suc s div ?W = s div ?W" by (simp_all add: mod_Suc div_Suc)
    then show ?thesis unfolding eq rank iff using clip_step [OF assms(1), of ?m "r * c"] by simp
  qed
qed

lemma local_seq_len_count:
  assumes "0 < c" "r < w"
  shows "local_seq_len w c r s = int (card {p. p < s \<and> p div c mod w = r})"
proof (induction s)
  case 0
  then show ?case using assms by (simp add: local_seq_len_def clip_def)
next
  case (Suc s)
  have "{p. p < Suc s \<and> p div c mod w = r} = {p. p < s \<and> p div c mod w = r} \<union> (if s div c mod w = r then {s} else {})"
    by (auto simp: less_Suc_eq)
  then show ?case using Suc local_seq_len_Suc [OF assms, of s] by simp
qed

lemma mod_virtual_rank:
  fixes p c k w :: nat
  assumes "0 < c"
  shows "p mod (c * k * w) div c mod w = p div c mod w"
proof -
  have "p mod (c * (k * w)) div c = p div c mod (k * w)" using assms by (simp add: mod_mult2_eq)
  then show ?thesis by (simp add: mult.assoc mod_mod_cancel)
qed

text \<open>
  C36: The length that attention uses for a sequence on a rank of the decode context parallel group is
  exactly the number of its tokens whose slot the block table of that rank maps, so that the ranks'
  lengths agree with what was written to their caches and add up to the length of the sequence.
\<close>

theorem local_lens_are_slots:
  assumes "table_wf t" "list_all (position_ok t r) [0..<s]" "pcp_world_size t = 1" "1 < dcp_world_size t"
    "0 < bt_block_size t" "0 < cp_kv_cache_interleave_size t" "cp_kv_cache_interleave_size t dvd bt_block_size t"
  shows "(\<forall>q < dcp_world_size t.
      get_dcp_local_seq_lens [s] (dcp_world_size t) (Some q) (cp_kv_cache_interleave_size t) =
        Inr (Inr [int (card {p. p < s \<and> slot_of (at_rank q t) (r, p) \<noteq> Inr (- 1)})])) \<and>
    (\<Sum>q < dcp_world_size t. card {p. p < s \<and> slot_of (at_rank q t) (r, p) \<noteq> Inr (- 1)}) = s"
proof -
  let ?w = "dcp_world_size t" and ?c = "cp_kv_cache_interleave_size t"
  let ?S = "\<lambda>q. {p. p < s \<and> slot_of (at_rank q t) (r, p) \<noteq> Inr (- 1)}"
  obtain k where k: "bt_block_size t = ?c * k" using assms(7) by blast
  have own: "slot_of (at_rank q t) (r, p) \<noteq> Inr (- 1) \<longleftrightarrow> p div ?c mod ?w = q" if "p < s" for p q
  proof -
    have ok: "position_ok t r p" using assms(2) that by (simp add: list_all_iff)
    then have b: "0 \<le> block_at t r p * int (bt_block_size t)" by (simp add: position_ok_def slots_fit_def)
    have v: "p mod virtual_block t div ?c mod ?w = p div ?c mod ?w"
      using mod_virtual_rank [OF assms(6), of p k ?w] assms(3) by (simp add: virtual_block_def k)
    have "1 < pcp_world_size t * ?w" using assms(3,4) by simp
    from slot_cp [OF assms(1) ok this assms(5,6)] b v assms(3) show ?thesis by simp
  qed
  have S: "?S q = {p. p < s \<and> p div ?c mod ?w = q}" for q using own by blast
  have "?w \<noteq> 0" "?c \<noteq> 0" using assms(4,6) by auto
  then have lens: "\<forall>q < ?w. get_dcp_local_seq_lens [s] ?w (Some q) ?c = Inr (Inr [int (card (?S q))])"
    unfolding S using local_seq_len_count [OF assms(6)] by (simp add: get_dcp_local_seq_lens_def)
  have "(\<Union>q < ?w. ?S q) = {..<s}" unfolding S using assms(4) by auto
  moreover have "card (\<Union>q < ?w. ?S q) = (\<Sum>q < ?w. card (?S q))"
    unfolding S by (rule card_UN_disjoint) auto
  ultimately show ?thesis using lens by simp
qed

theorem local_lens_are_slots_witness:
  "get_dcp_local_seq_lens [7] 2 (Some 1) 2 = Inr (Inr [3]) \<and>
   card {p. p < 7 \<and> slot_of (at_rank 1 demo_cp_table) (0, p) \<noteq> Inr (- 1)} = 3"
proof -
  have "table_wf demo_cp_table" "list_all (position_ok demo_cp_table 0) [0..<7]"
    by (simp_all add: demo_cp_table_def table_wf_def position_ok_def num_rows_def virtual_block_def row_blocks_def
        slots_fit_def block_at_def list_all_iff)
  note own = local_lens_are_slots [OF this]
  have eval: "get_dcp_local_seq_lens [7] 2 (Some 1) 2 = Inr (Inr [3])" by code_simp
  with own show ?thesis by (simp add: demo_cp_table_def)
qed

end
