(* ===== verification/Cache_Slots.thy ===== *)
theory Cache_Slots
  imports KV_Lifecycle Block_Table
begin

text \<open>
  From the blocks of the KV cache manager to the slots of a worker: a worker's block table whose
  rows hold the tables of a manager maps every token to the slot in its block. A block with one
  reference is at one place of one table, so nothing else is mapped to its slots.
\<close>

definition worker_table :: "kv_cache_manager \<Rightarrow> st_manager \<Rightarrow> string list \<Rightarrow> block_table \<Rightarrow> bool" where
  "worker_table k m rids t \<longleftrightarrow> table_wf t \<and> hybrid_wf t \<and> pcp_world_size t * dcp_world_size t \<le> 1 \<and>
     manager_block_size t = st_block_size m \<and> distinct rids \<and> length rids \<le> num_rows t \<and>
     (\<forall>r < length rids. row_blocks t r = kernel_ids t (map int (table m (rids ! r)))) \<and>
     num_gpu_blocks (km_pool k) * st_block_size m \<le> 2 ^ 31"

definition has_slot :: "st_manager \<Rightarrow> string list \<Rightarrow> nat \<Rightarrow> nat \<Rightarrow> bool" where
  "has_slot m rids r p \<longleftrightarrow> r < length rids \<and> p < st_block_size m * length (table m (rids ! r))"

definition block_of_token :: "st_manager \<Rightarrow> string list \<Rightarrow> nat \<Rightarrow> nat \<Rightarrow> nat" where
  "block_of_token m rids r p = table m (rids ! r) ! (p div st_block_size m)"

lemma count_two:
  assumes "i < length xs" "j < length xs" "i \<noteq> j" "xs ! i = xs ! j"
  shows "2 \<le> count_list xs (xs ! i)"
proof -
  have "card {i, j} \<le> card {k. k < length xs \<and> xs ! i = xs ! k}"
    by (rule card_mono) (use assms in auto)
  then show ?thesis using assms(3) by (simp add: count_list_eq_length_filter length_filter_conv_card)
qed

lemma manager_facts:
  assumes "km_reachable k" "m \<in> set (km_managers k)"
  shows "od_wf (req_to_blocks m)" "0 < st_block_size m" "set (table m rid) \<subseteq> {..<num_gpu_blocks (km_pool k)}"
    "0 < i \<Longrightarrow> i < num_gpu_blocks (km_pool k) \<Longrightarrow> int (held m i) \<le> refc (km_pool k) i"
proof -
  have ok: "kv_inv (\<lambda>_. 0) (km_managers k) (km_pool k)" using reachable_ok [OF assms(1)] by (simp add: km_ok_def)
  then have wf: "st_wf (km_pool k) m" using assms(2) by (simp add: kv_inv_def)
  then show "od_wf (req_to_blocks m)" "0 < st_block_size m" by (simp_all add: st_wf_def)
  show "set (table m rid) \<subseteq> {..<num_gpu_blocks (km_pool k)}"
    using wf by (cases "map_of (req_to_blocks m) rid") (auto simp: table_def st_wf_def table_ok_def)
  show "0 < i \<Longrightarrow> i < num_gpu_blocks (km_pool k) \<Longrightarrow> int (held m i) \<le> refc (km_pool k) i"
    using ok held_le_all [OF assms(2), of i] by (simp add: kv_inv_def)
qed

lemma table_slot:
  assumes reach: "km_reachable k" "m \<in> set (km_managers k)" and t: "worker_table k m rids t" and p: "has_slot m rids r p"
  shows "slot_of t (r, p) = Inr (int (block_of_token m rids r p) * int (st_block_size m) + int (p mod st_block_size m))"
    "p div st_block_size m < length (table m (rids ! r))" "block_of_token m rids r p < num_gpu_blocks (km_pool k)"
proof -
  let ?bs = "st_block_size m" and ?ids = "map int (table m (rids ! r))" and ?b = "block_of_token m rids r p"
  have wf: "table_wf t" "hybrid_wf t" "pcp_world_size t * dcp_world_size t \<le> 1" "manager_block_size t = ?bs" "r < num_rows t"
    "row_blocks t r = kernel_ids t ?ids" "num_gpu_blocks (km_pool k) * ?bs \<le> 2 ^ 31"
    using t p by (auto simp: worker_table_def has_slot_def)
  note m = manager_facts [OF reach]
  have lt: "p < manager_block_size t * length ?ids" using p wf(4) by (simp add: has_slot_def)
  show d: "p div ?bs < length (table m (rids ! r))"
    using p by (simp add: has_slot_def less_mult_imp_div_less mult.commute)
  then have "?b \<in> set (table m (rids ! r))" by (simp add: block_of_token_def)
  then show b: "?b < num_gpu_blocks (km_pool k)" using m(3) by blast
  note kn = kernel_ids_nth [OF wf(2) lt, unfolded wf(4)]
  have eq: "kernel_ids t ?ids ! (p div bt_block_size t) * int (bt_block_size t) + int (p mod bt_block_size t) =
      int ?b * int ?bs + int (p mod ?bs)"
    using kn(2) d by (simp add: block_of_token_def)
  have "slots_fit t (kernel_ids t ?ids ! (p div bt_block_size t))"
  proof -
    let ?x = "kernel_ids t ?ids ! (p div bt_block_size t)"
    have pos: "0 < bt_block_size t" using wf(2) by (simp add: hybrid_wf_def)
    then have "p mod bt_block_size t < bt_block_size t" "p mod ?bs < ?bs" using m(2) by simp_all
    moreover have "(?b + 1) * ?bs \<le> num_gpu_blocks (km_pool k) * ?bs" using b by (intro mult_le_mono1) simp
    then have "int ?b * int ?bs + int ?bs \<le> 2 ^ 31" using wf(7) by (simp add: algebra_simps flip: of_nat_mult of_nat_add)
    ultimately have up: "?x * int (bt_block_size t) < 2 ^ 31" and lo: "- int (bt_block_size t) < ?x * int (bt_block_size t)"
      using eq by (smt (verit) of_nat_0_le_iff of_nat_less_iff mult_nonneg_nonneg)+
    have "- 1 < ?x"
    proof (rule ccontr)
      assume "\<not> - 1 < ?x"
      then have "?x * int (bt_block_size t) \<le> - 1 * int (bt_block_size t)" by (intro mult_right_mono) simp_all
      with lo show False by simp
    qed
    with up show ?thesis by (simp add: slots_fit_def)
  qed
  from slots_transparent [OF wf(1,2,5,3,6) lt this] d show "slot_of t (r, p) = Inr (int ?b * int ?bs + int (p mod ?bs))"
    by (simp add: wf(4) block_of_token_def)
qed

lemma private_block_once:
  assumes "km_reachable k" "m \<in> set (km_managers k)" "distinct rids" "r < length rids" "r' < length rids"
    and "i < length (table m (rids ! r))" "j < length (table m (rids ! r'))" "table m (rids ! r) ! i = table m (rids ! r') ! j"
    and "0 < table m (rids ! r) ! i" "refc (km_pool k) (table m (rids ! r) ! i) = 1"
  shows "r = r' \<and> i = j"
proof (rule ccontr)
  let ?b = "table m (rids ! r) ! i"
  note m = manager_facts [OF assms(1,2)]
  have "?b < num_gpu_blocks (km_pool k)" using m(3) assms(6) nth_mem by blast
  then have one: "held m ?b \<le> 1" using m(4) [of ?b] assms(9,10) by simp
  assume ne: "\<not> (r = r' \<and> i = j)"
  show False
  proof (cases "r = r'")
    case True
    then have "2 \<le> count_list (table m (rids ! r)) ?b" using count_two [of i "table m (rids ! r)" j] assms(6-8) ne by simp
    then show False using count_le_held [OF m(1), of "rids ! r" ?b] one by simp
  next
    case False
    then have "rids ! r \<noteq> rids ! r'" using assms(3-5) by (simp add: nth_eq_iff_index_eq)
    from held_two [OF m(1) this, of ?b] one
    have "count_list (table m (rids ! r)) ?b = 0 \<or> count_list (table m (rids ! r')) ?b = 0" by linarith
    moreover have "?b \<in> set (table m (rids ! r))" "?b \<in> set (table m (rids ! r'))" using assms(6-8) by (metis nth_mem)+
    ultimately show False by (simp add: count_list_0_iff)
  qed
qed

end
