(* ===== verification/Output_Processor.thy ===== *)
theory Output_Processor
  imports Scheduler
begin

text \<open>
  From the engine core's outputs to the outputs of requests: \<^verbatim>\<open>vllm/v1/engine/detokenizer.py\<close>,
  \<^verbatim>\<open>parallel_sampling.py\<close> and \<^verbatim>\<open>output_processor.py\<close>, with the output classes of
  \<^verbatim>\<open>vllm/outputs.py\<close>.

  Decoding one token is the abstract method \<^verbatim>\<open>decode_next\<close> of the detokenizers: a function
  from a token and the decoder's state to the next characters. Log probabilities, statistics and
  tracing are left out, and the children of a parallel request are kept in the order in which they
  were made.
\<close>

section \<open>Outputs\<close>

datatype output_kind = CUMULATIVE | DELTA | FINAL_ONLY

datatype stop_cause = StopToken int | StopString string

record completion_output =
  co_index :: nat
  co_text :: string
  co_token_ids :: "int list"
  co_finish_reason :: "finish_reason option"
  co_stop_reason :: "stop_cause option"

record request_output =
  out_request_id :: string
  out_outputs :: "completion_output option list"
  out_finished :: bool
  out_num_cached_tokens :: int

datatype any_output = TextOutput request_output | PoolOutput string nat bool int

definition co_finished :: "completion_output \<Rightarrow> bool" where
  "co_finished c \<longleftrightarrow> co_finish_reason c \<noteq> None"

text \<open>Merging a completion into the outputs collected so far; a missing entry has no index.\<close>

fun add_completion :: "bool \<Rightarrow> completion_output \<Rightarrow> completion_output option list \<Rightarrow> completion_output option list result" where
  "add_completion aggregate next [] = Inr [Some next]"
| "add_completion aggregate next (None # cs) = Inl AttributeError"
| "add_completion aggregate next (Some c # cs) =
     (if co_index c = co_index next then
        Inr (Some (if aggregate then
                     c\<lparr>co_text := co_text c @ co_text next, co_token_ids := co_token_ids c @ co_token_ids next,
                       co_finish_reason := co_finish_reason next, co_stop_reason := co_stop_reason next\<rparr>
                   else next) # cs)
      else rbind (add_completion aggregate next cs) (\<lambda>cs. Inr (Some c # cs)))"

definition output_add :: "request_output \<Rightarrow> bool \<Rightarrow> request_output \<Rightarrow> request_output result" where
  "output_add next aggregate out =
     rbind (rfold (\<lambda>c cs. case c of None \<Rightarrow> Inl AttributeError | Some c \<Rightarrow> add_completion aggregate c cs)
                  (out_outputs next) (out_outputs out)) (\<lambda>cs.
       Inr (out\<lparr>out_finished := out_finished out \<or> out_finished next, out_outputs := cs\<rparr>))"

section \<open>The collector of a request\<close>

datatype collected = Ready any_output | Failed py_error

record output_collector =
  col_aggregate :: bool
  col_output :: "collected option"

definition collector_init :: "output_kind \<Rightarrow> output_collector" where
  "collector_init kind = \<lparr>col_aggregate = (kind = DELTA), col_output = None\<rparr>"

definition collector_put :: "collected \<Rightarrow> output_collector \<Rightarrow> output_collector result" where
  "collector_put item c =
     (case (col_output c, item) of
        (None, _) \<Rightarrow> Inr (c\<lparr>col_output := Some item\<rparr>)
      | (_, Failed e) \<Rightarrow> Inr (c\<lparr>col_output := Some item\<rparr>)
      | (Some (Ready (TextOutput out)), Ready (TextOutput next)) \<Rightarrow>
          rbind (output_add next (col_aggregate c) out) (\<lambda>out. Inr (c\<lparr>col_output := Some (Ready (TextOutput out))\<rparr>))
      | (Some (Ready (PoolOutput _ _ _ _)), Ready (PoolOutput _ _ _ _)) \<Rightarrow> Inr (c\<lparr>col_output := Some item\<rparr>)
      | _ \<Rightarrow> Inr c)"

definition collector_get_nowait :: "output_collector \<Rightarrow> (any_output option result \<times> output_collector)" where
  "collector_get_nowait c =
     (case col_output c of
        None \<Rightarrow> (Inr None, c)
      | Some (Failed e) \<Rightarrow> (Inl e, c\<lparr>col_output := None\<rparr>)
      | Some (Ready out) \<Rightarrow> (Inr (Some out), c\<lparr>col_output := None\<rparr>))"

section \<open>Detokenizers\<close>

text \<open>\<^verbatim>\<open>str.find\<close> with a start, which counts from the end when it is negative.\<close>

definition py_find :: "string \<Rightarrow> string \<Rightarrow> int \<Rightarrow> int" where
  "py_find text sub start =
     (let s = (if start < 0 then nat (max 0 (start + int (length text))) else nat start) in
      case List.find (\<lambda>i. take (length sub) (drop i text) = sub) [s..<Suc (length text) - length sub] of
        None \<Rightarrow> - 1 | Some i \<Rightarrow> int i)"

fun check_stop_loop :: "string \<Rightarrow> int \<Rightarrow> bool \<Rightarrow> string list \<Rightarrow> (string \<times> int) option" where
  "check_stop_loop output_text new_char_count include_in_output [] = None"
| "check_stop_loop output_text new_char_count include_in_output (stop_str # stop) =
     (let stop_string_len = int (length stop_str);
          stop_index = py_find output_text stop_str (1 - new_char_count - stop_string_len) in
      if stop_index = - 1 then check_stop_loop output_text new_char_count include_in_output stop
      else if include_in_output then
        if int (length output_text) \<le> stop_index + stop_string_len then Some (stop_str, - 1)
        else Some (stop_str, stop_index + stop_string_len)
      else Some (stop_str, stop_index))"

definition check_stop_strings :: "string \<Rightarrow> int \<Rightarrow> string list \<Rightarrow> bool \<Rightarrow> (string \<times> int) option" where
  "check_stop_strings output_text new_char_count stop include_in_output =
     (if new_char_count = 0 \<or> stop = [] then None
      else check_stop_loop output_text new_char_count include_in_output stop)"

text \<open>
  Without a decoder the tokens are only collected; otherwise the prompt is at the front of the tokens or
  not kept. Stop strings are not empty: the sampling parameters reject empty ones.
\<close>

record 'd detokenizer =
  dt_token_ids :: "int list"
  dt_prompt_len :: nat
  dt_stop :: "string list"
  dt_min_tokens :: nat
  dt_include_stop :: bool
  dt_stop_buffer_length :: nat
  dt_last_offset :: nat
  dt_output_text :: string
  dt_decoder :: "'d option"

definition detokenizer_init :: "string list \<Rightarrow> nat \<Rightarrow> bool \<Rightarrow> int list \<Rightarrow> 'd option \<Rightarrow> 'd detokenizer" where
  "detokenizer_init stop min_tokens include_stop prompt decoder =
     \<lparr>dt_token_ids = prompt, dt_prompt_len = length prompt, dt_stop = stop, dt_min_tokens = min_tokens, dt_include_stop = include_stop,
      dt_stop_buffer_length = (if stop \<noteq> [] \<and> \<not> include_stop then Max (set (map length stop)) - 1 else 0),
      dt_last_offset = 0, dt_output_text = [], dt_decoder = decoder\<rparr>"

definition output_token_ids :: "'d detokenizer \<Rightarrow> int list" where
  "output_token_ids d = drop (dt_prompt_len d) (dt_token_ids d)"

fun decode_tokens :: "(int \<Rightarrow> 'd \<Rightarrow> string \<times> 'd) \<Rightarrow> int list \<Rightarrow> 'd \<Rightarrow> nat \<Rightarrow> 'd detokenizer \<Rightarrow> nat \<times> 'd detokenizer" where
  "decode_tokens decode_next [] s stop_check_offset d = (stop_check_offset, d\<lparr>dt_decoder := Some s\<rparr>)"
| "decode_tokens decode_next (tok # toks) s stop_check_offset d =
     (let (chars, s) = decode_next tok s;
          d = d\<lparr>dt_token_ids := dt_token_ids d @ [tok], dt_output_text := dt_output_text d @ chars\<rparr> in
      decode_tokens decode_next toks s
        (if dt_min_tokens d \<noteq> 0 \<and> length (output_token_ids d) \<le> dt_min_tokens d then length (dt_output_text d) else stop_check_offset) d)"

definition stop_check :: "nat \<Rightarrow> 'd detokenizer \<Rightarrow> string option \<times> 'd detokenizer" where
  "stop_check stop_check_offset d =
     (if dt_stop d \<noteq> [] \<and> dt_min_tokens d < length (output_token_ids d) then
        case check_stop_strings (dt_output_text d) (int (length (dt_output_text d)) - int stop_check_offset) (dt_stop d) (dt_include_stop d) of
          None \<Rightarrow> (None, d)
        | Some (stop_string, truncate_to) \<Rightarrow>
            (Some stop_string,
             if truncate_to \<noteq> - 1 then d\<lparr>dt_output_text := take (nat truncate_to) (dt_output_text d)\<rparr> else d)
      else (None, d))"

definition dt_update :: "(int \<Rightarrow> 'd \<Rightarrow> string \<times> 'd) \<Rightarrow> int list \<Rightarrow> bool \<Rightarrow> 'd detokenizer \<Rightarrow> string option \<times> 'd detokenizer" where
  "dt_update decode_next new_token_ids stop_terminated d =
     (case dt_decoder d of
        None \<Rightarrow> (None, d\<lparr>dt_token_ids := dt_token_ids d @ new_token_ids\<rparr>)
      | Some s \<Rightarrow>
          if new_token_ids = [] then (None, d)
          else
            let skip = (stop_terminated \<and> \<not> dt_include_stop d);
                (stop_check_offset, d) =
                  decode_tokens decode_next (if skip then butlast new_token_ids else new_token_ids) s (length (dt_output_text d)) d;
                d = (if skip then d\<lparr>dt_token_ids := dt_token_ids d @ [last new_token_ids]\<rparr> else d) in
            stop_check stop_check_offset d)"

definition get_next_output_text :: "bool \<Rightarrow> bool \<Rightarrow> 'd detokenizer \<Rightarrow> string \<times> 'd detokenizer" where
  "get_next_output_text finished delta d =
     (if dt_decoder d = None then ([], d)
      else
        let buffer_length = (if finished then 0 else dt_stop_buffer_length d) in
        if \<not> delta then (if buffer_length \<noteq> 0 then take (length (dt_output_text d) - buffer_length) (dt_output_text d) else dt_output_text d, d)
        else
          let len = int (length (dt_output_text d)) - int buffer_length;
              last_offset = dt_last_offset d in
          if int last_offset < len then
            (take (nat len - last_offset) (drop last_offset (dt_output_text d)), d\<lparr>dt_last_offset := nat len\<rparr>)
          else ([], d))"

section \<open>Parallel sampling\<close>

record child_params =
  cp_n :: nat
  cp_seed :: "int option"
  cp_output_kind :: output_kind

record parent_request =
  pr_request_id :: string
  pr_sampling_params :: child_params
  pr_child_requests :: "string list"
  pr_output_aggregator :: "completion_output option list"
  pr_max_num_generation_tokens :: nat
  pr_cached_child_params :: "child_params option"

definition parent_request_init :: "string \<Rightarrow> child_params \<Rightarrow> parent_request" where
  "parent_request_init rid sp =
     \<lparr>pr_request_id = rid, pr_sampling_params = sp, pr_child_requests = [],
      pr_output_aggregator = (if cp_output_kind sp = FINAL_ONLY then replicate (cp_n sp) None else []),
      pr_max_num_generation_tokens = 0, pr_cached_child_params = None\<rparr>"

definition get_child_sampling_params :: "nat \<Rightarrow> parent_request \<Rightarrow> child_params \<times> parent_request" where
  "get_child_sampling_params index p =
     (case pr_cached_child_params p of
        Some sp \<Rightarrow> (sp, p)
      | None \<Rightarrow>
          let child = (pr_sampling_params p)\<lparr>cp_n := 1\<rparr> in
          case cp_seed (pr_sampling_params p) of
            None \<Rightarrow> (child, p\<lparr>pr_cached_child_params := Some child\<rparr>)
          | Some seed \<Rightarrow> (child\<lparr>cp_seed := Some (seed + int index)\<rparr>, p))"

text \<open>The decimal digits of the index come first in the identifier of a child.\<close>

fun digits :: "nat \<Rightarrow> string" where
  "digits n = (if n < 10 then [char_of (48 + n)] else digits (n div 10) @ [char_of (48 + n mod 10)])"

definition child_id :: "nat \<Rightarrow> string \<Rightarrow> string" where
  "child_id index rid = digits index @ ''_'' @ rid"

definition get_child_info :: "nat \<Rightarrow> parent_request \<Rightarrow> string \<times> child_params \<times> parent_request" where
  "get_child_info index p =
     (let cid = child_id index (pr_request_id p);
          p = p\<lparr>pr_child_requests := (if cid \<in> set (pr_child_requests p) then pr_child_requests p else pr_child_requests p @ [cid])\<rparr>;
          (sp, p) = get_child_sampling_params index p in
      (cid, sp, p))"

definition get_outputs :: "string \<Rightarrow> completion_output \<Rightarrow> parent_request \<Rightarrow> (string \<times> completion_output option list \<times> bool \<times> parent_request) result" where
  "get_outputs child_request_id c p =
     (let already_returned = (co_finished c \<and> child_request_id \<notin> set (pr_child_requests p));
          p = (if co_finished c then p\<lparr>pr_child_requests := removeAll child_request_id (pr_child_requests p)\<rparr> else p) in
      rbind (if cp_output_kind (pr_sampling_params p) \<noteq> FINAL_ONLY then Inr (if already_returned then [] else [Some c], p)
             else if co_index c < length (pr_output_aggregator p) then
               let p = p\<lparr>pr_output_aggregator := (pr_output_aggregator p)[co_index c := Some c]\<rparr> in
               Inr (if pr_child_requests p \<noteq> [] then [] else pr_output_aggregator p, p)
             else Inl IndexError) (\<lambda>(outputs, p).
        Inr (pr_request_id p, outputs, pr_child_requests p = [], p)))"

definition observe_num_generation_tokens :: "nat \<Rightarrow> parent_request \<Rightarrow> nat \<times> parent_request" where
  "observe_num_generation_tokens n p =
     (let k = max n (pr_max_num_generation_tokens p) in (k, p\<lparr>pr_max_num_generation_tokens := k\<rparr>))"

section \<open>The state of a request\<close>

text \<open>
  Parents are objects that their children share, and collectors are shared with the consumer and
  between the children of a request: a request names its parent and its collector.
\<close>

record 'd request_state =
  rs_request_id :: string
  rs_parent :: "string option"
  rs_index :: nat
  rs_output_kind :: output_kind
  rs_prompt_token_ids :: "int list option"
  rs_detokenizer :: "'d detokenizer option"
  rs_queue :: "string option"
  rs_stream_interval :: nat
  rs_sent_tokens_offset :: nat
  rs_num_cached_tokens :: int
  rs_is_prefilling :: bool

definition new_completion_output ::
  "int list \<Rightarrow> finish_reason option \<Rightarrow> stop_cause option \<Rightarrow> 'd request_state \<Rightarrow> (completion_output \<times> 'd request_state) result" where
  "new_completion_output token_ids finish_reason cause rs =
     (case rs_detokenizer rs of
        None \<Rightarrow> Inl AssertionError
      | Some d \<Rightarrow>
          let finished = (finish_reason \<noteq> None);
              delta = (rs_output_kind rs = DELTA);
              (text, d) = get_next_output_text finished delta d in
          Inr (\<lparr>co_index = rs_index rs, co_text = text, co_token_ids = (if delta then token_ids else output_token_ids d),
                co_finish_reason = finish_reason, co_stop_reason = (if finished then cause else None)\<rparr>,
               rs\<lparr>rs_detokenizer := Some d\<rparr>))"

text \<open>Whether the stream interval lets an output through, and the tokens it then has.\<close>

definition stream_gate :: "int list \<Rightarrow> bool \<Rightarrow> 'd request_state \<Rightarrow> (int list option \<times> 'd request_state) result" where
  "stream_gate new_token_ids finished rs =
     (if rs_stream_interval rs \<le> 1 then Inr (Some new_token_ids, rs)
      else case rs_detokenizer rs of
        None \<Rightarrow> Inl AssertionError
      | Some d \<Rightarrow>
          let ids = output_token_ids d; sent = rs_sent_tokens_offset rs in
          if \<not> (finished \<or> sent = 0 \<or> int (rs_stream_interval rs) \<le> int (length ids) - int sent) then Inr (None, rs)
          else if rs_output_kind rs = DELTA then Inr (Some (drop sent ids), rs\<lparr>rs_sent_tokens_offset := length ids\<rparr>)
          else Inr (Some new_token_ids, rs))"

definition make_request_output ::
  "int list \<Rightarrow> nat option \<Rightarrow> finish_reason option \<Rightarrow> stop_cause option \<Rightarrow> (string, parent_request) odict \<Rightarrow> 'd request_state \<Rightarrow>
   (any_output option \<times> (string, parent_request) odict \<times> 'd request_state) result" where
  "make_request_output new_token_ids pooling_output finish_reason cause parents rs =
     (let finished = (finish_reason \<noteq> None) in
      if \<not> finished \<and> rs_output_kind rs = FINAL_ONLY then Inr (None, parents, rs)
      else rbind (stream_gate new_token_ids finished rs) (\<lambda>(gate, rs).
        case gate of
          None \<Rightarrow> Inr (None, parents, rs)
        | Some token_ids \<Rightarrow>
            (case pooling_output of
               Some data \<Rightarrow>
                 rbind (rassert (rs_prompt_token_ids rs \<noteq> None)) (\<lambda>_.
                   Inr (Some (PoolOutput (rs_request_id rs) data finished (rs_num_cached_tokens rs)), parents, rs))
             | None \<Rightarrow>
                 rbind (new_completion_output token_ids finish_reason cause rs) (\<lambda>(c, rs).
                 rbind (case rs_parent rs of
                          None \<Rightarrow> Inr (rs_request_id rs, [Some c], finished, parents)
                        | Some pid \<Rightarrow>
                            rbind (od_lookup parents pid) (\<lambda>p. rbind (get_outputs (rs_request_id rs) c p) (\<lambda>(rid, outputs, finished, p).
                              Inr (rid, outputs, finished, AList.update pid p parents))))
                   (\<lambda>(rid, outputs, finished, parents).
                     if outputs = [] then Inr (None, parents, rs)
                     else Inr (Some (TextOutput \<lparr>out_request_id = rid, out_outputs = outputs, out_finished = finished,
                                                out_num_cached_tokens = rs_num_cached_tokens rs\<rparr>), parents, rs))))))"

section \<open>The output processor\<close>

record 'd output_processor =
  op_request_states :: "(string, 'd request_state) odict"
  op_parent_objects :: "(string, parent_request) odict"
  op_parent_requests :: "string list"
  op_collectors :: "(string, output_collector) odict"

definition output_processor_init :: "'d output_processor" where
  "output_processor_init = \<lparr>op_request_states = [], op_parent_objects = [], op_parent_requests = [], op_collectors = []\<rparr>"

definition op_has_unfinished_requests :: "'d output_processor \<Rightarrow> bool" where
  "op_has_unfinished_requests op \<longleftrightarrow> op_request_states op \<noteq> []"

text \<open>The collector of the request is registered with it, unless another child has brought it already.\<close>

definition op_add_request :: "'d request_state \<Rightarrow> parent_request option \<Rightarrow> 'd output_processor \<Rightarrow> 'd output_processor result" where
  "op_add_request rs parent op =
     (if map_of (op_request_states op) (rs_request_id rs) \<noteq> None then Inl ValueError
      else
        let op = op\<lparr>op_request_states := AList.update (rs_request_id rs) rs (op_request_states op),
                    op_collectors := (case rs_queue rs of
                        None \<Rightarrow> op_collectors op
                      | Some q \<Rightarrow> if map_of (op_collectors op) q = None
                                  then AList.update q (collector_init (rs_output_kind rs)) (op_collectors op) else op_collectors op)\<rparr> in
        Inr (case parent of
               None \<Rightarrow> op
             | Some p \<Rightarrow> op\<lparr>op_parent_objects := AList.update (pr_request_id p) p (op_parent_objects op),
                            op_parent_requests := (if pr_request_id p \<in> set (op_parent_requests op) then op_parent_requests op
                                                   else op_parent_requests op @ [pr_request_id p])\<rparr>))"

text \<open>Detokenizing and the output of one request; a stop string ends a request that the engine core has not ended.\<close>

definition process_request ::
  "(int \<Rightarrow> 'd \<Rightarrow> string \<times> 'd) \<Rightarrow> engine_core_output \<Rightarrow> (string, parent_request) odict \<Rightarrow> 'd request_state \<Rightarrow>
   (any_output option \<times> finish_reason option \<times> (string, parent_request) odict \<times> 'd request_state) result" where
  "process_request decode_next eco parents rs =
     (let rs = rs\<lparr>rs_num_cached_tokens := eo_num_cached_tokens eco, rs_is_prefilling := False\<rparr>;
          core_stop = map_option StopToken (eo_stop_reason eco) in
      rbind (case eo_pooling_output eco of
               Some _ \<Rightarrow> Inr (eo_finish_reason eco, core_stop, rs)
             | None \<Rightarrow>
                 (case rs_detokenizer rs of
                    None \<Rightarrow> Inl AssertionError
                  | Some d \<Rightarrow>
                      let (stop_string, d) = dt_update decode_next (eo_new_token_ids eco) (eo_finish_reason eco = Some FR_STOP) d;
                          rs = rs\<lparr>rs_detokenizer := Some d\<rparr> in
                      case stop_string of
                        Some (ch # st) \<Rightarrow> Inr (Some FR_STOP, Some (StopString (ch # st)), rs)
                      | _ \<Rightarrow> Inr (eo_finish_reason eco, core_stop, rs)))
        (\<lambda>(finish_reason, cause, rs).
          rbind (make_request_output (eo_new_token_ids eco) (eo_pooling_output eco) finish_reason cause parents rs)
            (\<lambda>(out, parents, rs). Inr (out, finish_reason, parents, rs))))"

text \<open>An output goes to the request's collector, or to the caller if there is none.\<close>

definition deliver :: "any_output option \<Rightarrow> string option \<Rightarrow> 'd output_processor \<Rightarrow> (any_output list \<times> 'd output_processor) result" where
  "deliver out queue op =
     (case out of
        None \<Rightarrow> Inr ([], op)
      | Some o' \<Rightarrow>
          (case queue of
             None \<Rightarrow> Inr ([o'], op)
           | Some q \<Rightarrow>
               rbind (od_lookup (op_collectors op) q) (\<lambda>c.
               rbind (collector_put (Ready o') c) (\<lambda>c.
                 Inr ([], op\<lparr>op_collectors := AList.update q c (op_collectors op)\<rparr>)))))"

definition process_output ::
  "(int \<Rightarrow> 'd \<Rightarrow> string \<times> 'd) \<Rightarrow> engine_core_output \<Rightarrow> any_output list \<times> string list \<times> 'd output_processor \<Rightarrow>
   (any_output list \<times> string list \<times> 'd output_processor) result" where
  "process_output decode_next eco = (\<lambda>(request_outputs, reqs_to_abort, op).
     let req_id = eo_request_id eco in
     case map_of (op_request_states op) req_id of
       None \<Rightarrow> Inr (request_outputs, reqs_to_abort, op)
     | Some rs \<Rightarrow>
         rbind (process_request decode_next eco (op_parent_objects op) rs) (\<lambda>(out, finish_reason, parents, rs).
         rbind (deliver out (rs_queue rs) (op\<lparr>op_request_states := AList.update req_id rs (op_request_states op), op_parent_objects := parents\<rparr>)) (\<lambda>(outs, op).
           if finish_reason = None then Inr (request_outputs @ outs, reqs_to_abort, op)
           else
             let childless = (case rs_parent rs of
                   None \<Rightarrow> False
                 | Some pid \<Rightarrow> (case map_of parents pid of None \<Rightarrow> False | Some p \<Rightarrow> pr_child_requests p = []));
                 op = op\<lparr>op_request_states := AList.delete req_id (op_request_states op),
                         op_parent_requests := (if childless then removeAll (the (rs_parent rs)) (op_parent_requests op) else op_parent_requests op)\<rparr> in
             Inr (request_outputs @ outs, reqs_to_abort @ (if eo_finish_reason eco = None then [req_id] else []), op))))"

definition process_outputs ::
  "(int \<Rightarrow> 'd \<Rightarrow> string \<times> 'd) \<Rightarrow> engine_core_output list \<Rightarrow> 'd output_processor \<Rightarrow>
   (any_output list \<times> string list \<times> 'd output_processor) result" where
  "process_outputs decode_next ecos op = rfold (process_output decode_next) ecos ([], [], op)"

text \<open>Aborting a parent aborts its children first; the fuel bounds the depth of this recursion.\<close>

fun abort_requests :: "nat \<Rightarrow> string list \<Rightarrow> 'd output_processor \<Rightarrow> (string list \<times> 'd output_processor) result" where
  "abort_requests 0 request_ids op = Inl Diverges"
| "abort_requests (Suc depth) [] op = Inr ([], op)"
| "abort_requests (Suc depth) (rid # rids) op =
     rbind (case map_of (op_request_states op) rid of
              Some rs \<Rightarrow>
                let op = op\<lparr>op_request_states := AList.delete rid (op_request_states op)\<rparr> in
                (case rs_queue rs of
                   None \<Rightarrow> Inr ([rid], op)
                 | Some q \<Rightarrow>
                     rbind (make_request_output [] (if rs_detokenizer rs = None then Some 0 else None) (Some FR_ABORT) None (op_parent_objects op) rs)
                       (\<lambda>(out, parents, rs).
                         rbind (deliver out (Some q) (op\<lparr>op_parent_objects := parents\<rparr>)) (\<lambda>(_, op). Inr ([rid], op))))
            | None \<Rightarrow>
                if rid \<in> set (op_parent_requests op) then
                  rbind (od_lookup (op_parent_objects op) rid) (\<lambda>p.
                  rbind (if pr_child_requests p \<noteq> [] then abort_requests depth (pr_child_requests p) op else Inr ([], op)) (\<lambda>(ids, op).
                    Inr (ids, op\<lparr>op_parent_requests := removeAll rid (op_parent_requests op)\<rparr>)))
                else Inr ([], op)) (\<lambda>(ids, op).
     rbind (abort_requests (Suc depth) rids op) (\<lambda>(ids', op). Inr (ids @ ids', op)))"

definition propagate_error :: "py_error \<Rightarrow> 'd output_processor \<Rightarrow> 'd output_processor result" where
  "propagate_error e op =
     rfold (\<lambda>(rid, rs) op. case rs_queue rs of
         None \<Rightarrow> Inl AssertionError
       | Some q \<Rightarrow>
           rbind (od_lookup (op_collectors op) q) (\<lambda>c. rbind (collector_put (Failed e) c) (\<lambda>c.
             Inr (op\<lparr>op_collectors := AList.update q c (op_collectors op)\<rparr>)))) (op_request_states op) op"

end
