(* ===== verification/Parallel_Sampling.thy ===== *)
theory Parallel_Sampling
  imports Output_Processor
begin

text \<open>
  Parallel sampling: a request for \<^verbatim>\<open>n\<close> samples becomes \<^verbatim>\<open>n\<close> child requests
  (\<^verbatim>\<open>add_request\<close> of \<^verbatim>\<open>vllm/v1/engine/async_llm.py\<close>), whose identifiers differ. When all children
  are registered before one ends, the client receives every sample once, whatever the order in which the children
  end: together and by index if it wants only final outputs, and one by one if it wants a stream.
\<close>

section \<open>Identifiers of children\<close>

definition undigits :: "string \<Rightarrow> nat" where
  "undigits = foldl (\<lambda>a c. 10 * a + (of_char c - 48)) 0"

lemma undigits_digits: "undigits (digits n) = n"
  by (induction n rule: digits.induct) (simp add: undigits_def digits.simps)

lemma child_id_inj [simp]: "child_id i rid = child_id j rid \<longleftrightarrow> i = j"
  unfolding child_id_def by (metis append_same_eq undigits_digits)

section \<open>The children of a request\<close>

fun spawn_children :: "nat list \<Rightarrow> parent_request \<Rightarrow> (string \<times> child_params) list \<times> parent_request" where
  "spawn_children [] p = ([], p)"
| "spawn_children (idx # idxs) p =
     (let (rid, params, p) = get_child_info idx p; (children, p) = spawn_children idxs p in ((rid, params) # children, p))"

text \<open>The completions of the children reach the parent one after another; it answers with outputs and whether the request is finished.\<close>

fun parent_outputs :: "(string \<times> completion_output) list \<Rightarrow> parent_request \<Rightarrow> ((completion_output option list \<times> bool) list \<times> parent_request) result" where
  "parent_outputs [] p = Inr ([], p)"
| "parent_outputs ((rid, c) # rest) p =
     rbind (get_outputs rid c p) (\<lambda>(_, outputs, finished, p).
     rbind (parent_outputs rest p) (\<lambda>(outs, p). Inr ((outputs, finished) # outs, p)))"

text \<open>
  A child ends with its last tokens, a reason and a cause. The output processor makes the output
  of each from the child's state; its completion is the one of \<^verbatim>\<open>_new_completion_output\<close>.
\<close>

type_synonym 'd child_end = "'d request_state \<times> int list \<times> finish_reason \<times> stop_cause option"

fun complete_children :: "'d child_end list \<Rightarrow> (string, parent_request) odict \<Rightarrow> (any_output option list \<times> (string, parent_request) odict) result" where
  "complete_children [] parents = Inr ([], parents)"
| "complete_children ((rs, toks, reason, cause) # rest) parents =
     rbind (make_request_output toks None (Some reason) cause parents rs) (\<lambda>(out, parents, _).
     rbind (complete_children rest parents) (\<lambda>(outs, parents). Inr (out # outs, parents)))"

definition final_completion :: "'d child_end \<Rightarrow> completion_output result" where
  "final_completion e =
     (case e of (rs, toks, reason, cause) \<Rightarrow>
        rbind (stream_gate toks True rs) (\<lambda>(gate, rs).
        rbind (new_completion_output (the gate) (Some reason) cause rs) (\<lambda>(c, _). Inr c)))"

text \<open>What the client gets: nothing for no outputs, else an output of the whole request.\<close>

definition sent :: "string \<Rightarrow> 'd child_end \<Rightarrow> completion_output option list \<Rightarrow> bool \<Rightarrow> any_output option" where
  "sent rid e outputs finished =
     (if outputs = [] then None
      else Some (TextOutput \<lparr>out_request_id = rid, out_outputs = outputs, out_finished = finished,
        out_num_cached_tokens = rs_num_cached_tokens (fst e)\<rparr>))"

text \<open>What each child is given: its own seed, if the request has one, and always a single sample.\<close>

definition child_params_of :: "child_params \<Rightarrow> nat \<Rightarrow> child_params" where
  "child_params_of sp i = sp\<lparr>cp_n := 1, cp_seed := map_option (\<lambda>s. s + int i) (cp_seed sp)\<rparr>"

lemma spawn_children_spec:
  assumes "spawn_children idxs p = (children, p')" "distinct idxs" "\<forall>i \<in> set idxs. child_id i (pr_request_id p) \<notin> set (pr_child_requests p)"
    "pr_cached_child_params p = None \<or> cp_seed (pr_sampling_params p) = None \<and> pr_cached_child_params p = Some ((pr_sampling_params p)\<lparr>cp_n := 1\<rparr>)"
  shows "children = map (\<lambda>i. (child_id i (pr_request_id p), child_params_of (pr_sampling_params p) i)) idxs \<and>
    pr_child_requests p' = pr_child_requests p @ map (\<lambda>i. child_id i (pr_request_id p)) idxs \<and>
    pr_output_aggregator p' = pr_output_aggregator p \<and> pr_request_id p' = pr_request_id p \<and> pr_sampling_params p' = pr_sampling_params p"
  using assms
proof (induction idxs arbitrary: p children)
  case (Cons i idxs)
  obtain p1 where i: "get_child_info i p = (child_id i (pr_request_id p), child_params_of (pr_sampling_params p) i, p1)"
    "pr_child_requests p1 = pr_child_requests p @ [child_id i (pr_request_id p)]" "pr_request_id p1 = pr_request_id p"
    "pr_sampling_params p1 = pr_sampling_params p" "pr_output_aggregator p1 = pr_output_aggregator p"
    "pr_cached_child_params p1 = None \<or> cp_seed (pr_sampling_params p1) = None \<and> pr_cached_child_params p1 = Some ((pr_sampling_params p1)\<lparr>cp_n := 1\<rparr>)"
    using Cons.prems(3,4)
    by (cases "cp_seed (pr_sampling_params p)"; cases "pr_cached_child_params p")
      (auto simp: get_child_info_def get_child_sampling_params_def child_params_of_def Let_def)
  from Cons.prems(1) i(1) obtain rest where rest: "spawn_children idxs p1 = (rest, p')"
    "children = (child_id i (pr_request_id p), child_params_of (pr_sampling_params p) i) # rest"
    by (auto split: prod.splits)
  from Cons.IH [OF rest(1)] Cons.prems(2,3) i rest(2) show ?case by auto
qed simp

section \<open>The samples of a request\<close>

text \<open>The output of a child that ends is what its parent answers to its completion.\<close>

lemma final_completion_ends:
  assumes "rs_detokenizer rs = Some d"
  shows "\<exists>c. final_completion (rs, toks, reason, cause) = Inr c \<and> co_index c = rs_index rs \<and> co_finished c"
proof -
  have "\<exists>ids rs1. stream_gate toks True rs = Inr (Some ids, rs1) \<and> rs_detokenizer rs1 = rs_detokenizer rs \<and> rs_index rs1 = rs_index rs"
    using assms by (auto simp: stream_gate_def Let_def)
  with assms obtain ids rs1 d1 where g: "stream_gate toks True rs = Inr (Some ids, rs1)" "rs_detokenizer rs1 = Some d1" "rs_index rs1 = rs_index rs" by auto
  obtain txt1 d2 where "get_next_output_text True (rs_output_kind rs1 = DELTA) d1 = (txt1, d2)" by (metis surj_pair)
  with g show ?thesis by (auto simp: final_completion_def new_completion_output_def co_finished_def)
qed

lemma make_request_output_child:
  assumes c: "final_completion (rs, toks, reason, cause) = Inr c" and p: "rs_parent rs = Some pid" "map_of parents pid = Some p"
    and g: "get_outputs (rs_request_id rs) c p = Inr (rid, outputs, fin, p')"
  shows "\<exists>rs'. make_request_output toks None (Some reason) cause parents rs =
    Inr (sent rid (rs, toks, reason, cause) outputs fin, AList.update pid p' parents, rs')"
proof -
  from c obtain gate rs1 rs2 where gate: "stream_gate toks True rs = Inr (gate, rs1)"
    and n: "new_completion_output (the gate) (Some reason) cause rs1 = Inr (c, rs2)" by (auto simp: final_completion_def result_simps)
  have rs1: "rs_parent rs1 = rs_parent rs" "rs_request_id rs1 = rs_request_id rs" "rs_num_cached_tokens rs1 = rs_num_cached_tokens rs" "gate \<noteq> None"
    using gate by (auto simp: stream_gate_def Let_def split: option.splits if_split_asm)
  moreover have "rs_parent rs2 = rs_parent rs1" "rs_request_id rs2 = rs_request_id rs1" "rs_num_cached_tokens rs2 = rs_num_cached_tokens rs1"
    using n by (auto simp: new_completion_output_def Let_def split: option.splits prod.splits)
  ultimately show ?thesis using gate n p g by (auto simp: make_request_output_def sent_def od_lookup_def)
qed

lemma complete_children_parent:
  assumes "parent_outputs (map (\<lambda>i. (rs_request_id (fst (e i)), c i)) order) p = Inr (outs, p')" and "map_of parents rid = Some p" and "pr_request_id p = rid"
    and "\<And>i. i \<in> set order \<Longrightarrow> rs_parent (fst (e i)) = Some rid \<and> final_completion (e i) = Inr (c i)"
  shows "\<exists>parents'. complete_children (map e order) parents = Inr (map2 (\<lambda>i (outputs, fin). sent rid (e i) outputs fin) order outs, parents')"
  using assms
proof (induction order arbitrary: p outs parents)
  case (Cons i order)
  from Cons.prems(1) obtain pid outputs fin p1 rest where g: "get_outputs (rs_request_id (fst (e i))) (c i) p = Inr (pid, outputs, fin, p1)"
    and rest: "parent_outputs (map (\<lambda>i. (rs_request_id (fst (e i)), c i)) order) p1 = Inr (rest, p')" and outs: "outs = (outputs, fin) # rest"
    by (auto simp: result_simps)
  have same: "pid = rid \<and> pr_request_id p1 = rid" using g Cons.prems(3) by (auto simp: get_outputs_def Let_def result_simps split: if_split_asm)
  obtain rs toks reason cause where e: "e i = (rs, toks, reason, cause)" by (metis surj_pair)
  have "final_completion (rs, toks, reason, cause) = Inr (c i)" "rs_parent rs = Some rid" using Cons.prems(4) [of i] e by simp_all
  from make_request_output_child [OF this Cons.prems(2), of pid outputs fin p1] g e obtain rs' where
    one: "make_request_output toks None (Some reason) cause parents rs = Inr (sent pid (e i) outputs fin, AList.update rid p1 parents, rs')" by auto
  have "map_of (AList.update rid p1 parents) rid = Some p1" by (simp add: update_conv')
  from Cons.IH [OF rest this] same Cons.prems(4) obtain parents' where
    "complete_children (map e order) (AList.update rid p1 parents) = Inr (map2 (\<lambda>i (outputs, fin). sent rid (e i) outputs fin) order rest, parents')" by auto
  with one e same outs show ?case by simp
qed simp

lemma parent_outputs_collect:
  assumes "distinct (done @ order)" "set (done @ order) = {..<n}" "order \<noteq> []"
    "\<And>i. co_index (c i) = i \<and> co_finished (c i)"
    "cp_output_kind (pr_sampling_params p) = FINAL_ONLY" "pr_request_id p = rid"
    "distinct (pr_child_requests p)" "set (pr_child_requests p) = (\<lambda>i. child_id i rid) ` set order"
    "pr_output_aggregator p = map (\<lambda>i. if i \<in> set done then Some (c i) else None) [0..<n]"
  shows "\<exists>p'. parent_outputs (map (\<lambda>i. (child_id i rid, c i)) order) p =
    Inr (replicate (length order - 1) ([], False) @ [(map (\<lambda>i. Some (c i)) [0..<n], True)], p')"
  using assms
proof (induction order arbitrary: "done" p)
  case (Cons i order)
  let ?p = "p\<lparr>pr_child_requests := removeAll (child_id i rid) (pr_child_requests p), pr_output_aggregator := (pr_output_aggregator p)[i := Some (c i)]\<rparr>"
  have i: "i < n" "i \<notin> set order" "co_index (c i) = i" "co_finished (c i)" using Cons.prems(1,2,4) by auto
  have "(pr_output_aggregator p)[i := Some (c i)] = map (\<lambda>j. if j \<in> set (done @ [i]) then Some (c j) else None) [0..<n]"
    unfolding Cons.prems(9) by (rule nth_equalityI) (use i(1) in \<open>auto simp: nth_list_update\<close>)
  then have agg: "pr_output_aggregator ?p = map (\<lambda>j. if j \<in> set (done @ [i]) then Some (c j) else None) [0..<n]" by simp
  have ids: "set (pr_child_requests ?p) = (\<lambda>i. child_id i rid) ` set order" using Cons.prems(8) i(2) by auto
  have "pr_child_requests ?p = [] \<longleftrightarrow> order = []" using ids by (metis image_is_empty set_empty)
  then have step: "get_outputs (child_id i rid) (c i) p =
      Inr (rid, if order \<noteq> [] then [] else pr_output_aggregator ?p, order = [], ?p)"
    using i Cons.prems(5,6,8,9) by (simp add: get_outputs_def Let_def)
  show ?case
  proof (cases "order = []")
    case True
    have "set (done @ [i]) = {..<n}" using Cons.prems(2) True by simp
    then have "pr_output_aggregator ?p = map (\<lambda>i. Some (c i)) [0..<n]" unfolding agg by simp
    then show ?thesis using step True by simp
  next
    case False
    have "distinct (removeAll (child_id i rid) (pr_child_requests p))" using Cons.prems(7) by (simp add: distinct_removeAll)
    then have "\<exists>p'. parent_outputs (map (\<lambda>i. (child_id i rid, c i)) order) ?p =
      Inr (replicate (length order - 1) ([], False) @ [(map (\<lambda>i. Some (c i)) [0..<n], True)], p')"
      using Cons.IH [OF _ _ False Cons.prems(4) _ _ _ ids agg] Cons.prems(1,2,5,6) by simp
    then show ?thesis using step False by (cases order) auto
  qed
qed simp

lemma parent_outputs_stream:
  assumes "distinct order" "order \<noteq> []" "\<And>i. co_finished (c i)"
    "cp_output_kind (pr_sampling_params p) \<noteq> FINAL_ONLY" "set (pr_child_requests p) = (\<lambda>i. child_id i rid) ` set order"
  shows "\<exists>p'. parent_outputs (map (\<lambda>i. (child_id i rid, c i)) order) p =
    Inr (map (\<lambda>i. ([Some (c i)], i = last order)) order, p')"
  using assms
proof (induction order arbitrary: p)
  case (Cons i order)
  let ?p = "p\<lparr>pr_child_requests := removeAll (child_id i rid) (pr_child_requests p)\<rparr>"
  have ids: "set (pr_child_requests ?p) = (\<lambda>i. child_id i rid) ` set order" using Cons.prems(1,5) by auto
  have "pr_child_requests ?p = [] \<longleftrightarrow> order = []" using ids by (metis image_is_empty set_empty)
  then have step: "get_outputs (child_id i rid) (c i) p = Inr (pr_request_id p, [Some (c i)], order = [], ?p)"
    using Cons.prems(3-5) by (simp add: get_outputs_def Let_def)
  show ?case
  proof (cases "order = []")
    case False
    from Cons.IH [OF _ False Cons.prems(3) _ ids] Cons.prems(1,4) obtain p' where
      "parent_outputs (map (\<lambda>i. (child_id i rid, c i)) order) ?p = Inr (map (\<lambda>i. ([Some (c i)], i = last order)) order, p')" by auto
    moreover have "i \<noteq> last order" using Cons.prems(1) False by auto
    ultimately show ?thesis using step False by simp
  qed (use step in simp)
qed simp

lemma ends_with_last:
  "order \<noteq> [] \<Longrightarrow> map2 (\<lambda>i (outputs, fin). sent rid (e i) outputs fin) order (replicate (length order - 1) ([], False) @ [(xs, True)]) =
    replicate (length order - 1) None @ [sent rid (e (last order)) xs True]"
  by (induction order rule: rev_induct) (simp_all add: sent_def zip_replicate2 map_replicate_const comp_def)

text \<open>
  C40: A request for \<^verbatim>\<open>n\<close> samples whose children are all registered before one of them ends. The children have pairwise distinct
  identifiers, one sample each and, if the request has a seed, the seeds \<^verbatim>\<open>seed + index\<close>. Whatever the order in which they end,
  a client that wants only final outputs gets nothing until the last one ends and then all \<^verbatim>\<open>n\<close> completions together in the
  order of their indexes, marked as finished; a client that wants a stream gets the completion of each child when it ends, and the
  finished mark with the last one. Completions are those that the output processor makes of the children's states.
\<close>

theorem samples_complete:
  assumes "0 < cp_n sp" "spawn_children [0..<cp_n sp] (parent_request_init rid sp) = (children, p)" "map_of parents rid = Some p"
    "distinct order" "set order = {..<cp_n sp}"
    "\<And>i. rs_parent (fst (e i)) = Some rid \<and> rs_request_id (fst (e i)) = child_id i rid \<and> rs_index (fst (e i)) = i \<and> rs_detokenizer (fst (e i)) \<noteq> None"
  shows "map fst children = map (\<lambda>i. child_id i rid) [0..<cp_n sp] \<and> distinct (map fst children) \<and>
    map snd children = map (child_params_of sp) [0..<cp_n sp] \<and>
    (\<exists>c parents'. (\<forall>i. final_completion (e i) = Inr (c i)) \<and>
      complete_children (map e order) parents =
        Inr (if cp_output_kind sp = FINAL_ONLY
             then replicate (cp_n sp - 1) None @ [sent rid (e (last order)) (map (\<lambda>i. Some (c i)) [0..<cp_n sp]) True]
             else map (\<lambda>i. sent rid (e i) [Some (c i)] (i = last order)) order, parents'))"
proof -
  let ?n = "cp_n sp"
  from spawn_children_spec [OF assms(2)] have s: "children = map (\<lambda>i. (child_id i rid, child_params_of sp i)) [0..<?n]"
    "pr_child_requests p = map (\<lambda>i. child_id i rid) [0..<?n]" "pr_request_id p = rid" "pr_sampling_params p = sp"
    "cp_output_kind sp = FINAL_ONLY \<Longrightarrow> pr_output_aggregator p = replicate ?n None"
    by (simp_all add: parent_request_init_def)
  have len: "length order = ?n" using distinct_card [OF assms(4)] assms(5) by simp
  have ne: "order \<noteq> []" using len assms(1) by auto
  have dist: "distinct (map (\<lambda>i. child_id i rid) [0..<?n])" by (simp add: distinct_map inj_on_def)
  have "\<forall>i. \<exists>c. final_completion (e i) = Inr c \<and> co_index c = i \<and> co_finished c"
  proof
    fix i
    obtain rs toks reason cause where "e i = (rs, toks, reason, cause)" by (metis surj_pair)
    with final_completion_ends [of rs _ toks reason cause] assms(6) [of i] show "\<exists>c. final_completion (e i) = Inr c \<and> co_index c = i \<and> co_finished c" by auto
  qed
  then obtain c where c: "final_completion (e i) = Inr (c i)" "co_index (c i) = i \<and> co_finished (c i)" for i by metis
  have "\<exists>p'. parent_outputs (map (\<lambda>i. (child_id i rid, c i)) order) p =
    Inr (if cp_output_kind sp = FINAL_ONLY then replicate (?n - 1) ([], False) @ [(map (\<lambda>i. Some (c i)) [0..<?n], True)]
         else map (\<lambda>i. ([Some (c i)], i = last order)) order, p')"
  proof (cases "cp_output_kind sp = FINAL_ONLY")
    case True
    with parent_outputs_collect [of "[]" order ?n c p rid] ne assms(4,5) c(2) s(2-5) dist len show ?thesis
      by (simp add: map_replicate_const atLeast0LessThan)
  next
    case False
    with parent_outputs_stream [OF assms(4) ne, of c p rid] c(2) s(2,4) assms(5) show ?thesis by (simp add: atLeast0LessThan)
  qed
  then obtain outs p' where outs: "parent_outputs (map (\<lambda>i. (rs_request_id (fst (e i)), c i)) order) p = Inr (outs, p')"
      "outs = (if cp_output_kind sp = FINAL_ONLY then replicate (?n - 1) ([], False) @ [(map (\<lambda>i. Some (c i)) [0..<?n], True)]
         else map (\<lambda>i. ([Some (c i)], i = last order)) order)"
    using assms(6) by auto
  from complete_children_parent [of e c order p outs p' parents rid] outs(1) assms(3,6) s(3) c(1) obtain parents' where
    run: "complete_children (map e order) parents = Inr (map2 (\<lambda>i (outputs, fin). sent rid (e i) outputs fin) order outs, parents')" by auto
  have "map2 (\<lambda>i (outputs, fin). sent rid (e i) outputs fin) order outs =
      (if cp_output_kind sp = FINAL_ONLY then replicate (?n - 1) None @ [sent rid (e (last order)) (map (\<lambda>i. Some (c i)) [0..<?n]) True]
       else map (\<lambda>i. sent rid (e i) [Some (c i)] (i = last order)) order)"
    using ends_with_last [OF ne, of rid e "map (\<lambda>i. Some (c i)) [0..<?n]"] len by (simp add: outs(2) zip_map2 zip_same_conv_map)
  with run c(1) dist s(1) show ?thesis by (auto simp: comp_def)
qed

text \<open>Three samples that end in the order 2, 0, 1.\<close>

definition demo_sampling :: child_params where
  "demo_sampling = \<lparr>cp_n = 3, cp_seed = Some 40, cp_output_kind = FINAL_ONLY\<rparr>"

definition demo_end :: "nat \<Rightarrow> unit child_end" where
  "demo_end i = (\<lparr>rs_request_id = child_id i ''r'', rs_parent = Some ''r'', rs_index = i, rs_output_kind = FINAL_ONLY, rs_prompt_token_ids = Some [1],
     rs_detokenizer = Some (detokenizer_init [] 0 False [1] None), rs_queue = None, rs_stream_interval = 1, rs_sent_tokens_offset = 0,
     rs_num_cached_tokens = 0, rs_is_prefilling = False\<rparr>, [int i], FR_LENGTH, None)"

theorem samples_complete_witness:
  "\<exists>children p parents' (c :: nat \<Rightarrow> completion_output). spawn_children [0..<3] (parent_request_init ''r'' demo_sampling) = (children, p) \<and>
     map (cp_seed \<circ> snd) children = [Some 40, Some 41, Some 42] \<and>
     complete_children (map demo_end [2, 0, 1]) [(''r'', p)] =
       Inr ([None, None, sent ''r'' (demo_end 1) [Some (c 0), Some (c 1), Some (c 2)] True], parents')"
proof -
  obtain children p where s: "spawn_children [0..<3] (parent_request_init ''r'' demo_sampling) = (children, p)" by (metis surj_pair)
  have n: "cp_output_kind demo_sampling = FINAL_ONLY" "cp_n demo_sampling = 3" "set [2, 0, 1] = {..<3::nat}" "[0..<3] = [0, 1, 2::nat]"
    by (auto simp: demo_sampling_def upt_rec)
  have "map snd children = map (child_params_of demo_sampling) [0..<3] \<and>
    (\<exists>c parents'. complete_children (map demo_end [2, 0, 1]) [(''r'', p)] =
      Inr (replicate (3 - 1) None @ [sent ''r'' (demo_end (last [2, 0, 1])) (map (\<lambda>i. Some (c i)) [0..<3]) True], parents'))"
    using samples_complete [of demo_sampling "''r''" children p "[(''r'', p)]" "[2, 0, 1]" demo_end, unfolded n(1,2)] s n(3)
    by (simp add: demo_end_def del: complete_children.simps list.map(2)) blast
  then obtain c parents' where seeds: "map snd children = map (child_params_of demo_sampling) [0..<3]"
    and run: "complete_children (map demo_end [2, 0, 1]) [(''r'', p)] =
       Inr (replicate (3 - 1) None @ [sent ''r'' (demo_end (last [2, 0, 1])) (map (\<lambda>i. Some (c i)) [0..<3]) True], parents')"
    by blast
  have "replicate (3 - 1) None @ [sent ''r'' (demo_end (last [2, 0, 1])) (map (\<lambda>i. Some (c i)) [0..<3]) True] =
      [None, None, sent ''r'' (demo_end 1) [Some (c 0), Some (c 1), Some (c 2)] True]" by (simp add: n(4) numeral_2_eq_2)
  moreover have "map (cp_seed \<circ> snd) children = [Some 40, Some 41, Some 42]"
    using seeds by (simp add: child_params_of_def demo_sampling_def n(4) flip: map_map)
  ultimately show ?thesis using s run by metis
qed

text \<open>
  The children are registered one by one, and the engine may run in between. If the first child ends
  before the second is registered, the request counts as finished and the other samples are missing.
\<close>

lemma early_child_finishes_request:
  assumes "cp_output_kind sp = FINAL_ONLY" "cp_n sp = 2" "spawn_children [0] (parent_request_init rid sp) = (children, p)"
    "co_index c = 0" "co_finished c"
  shows "\<exists>p'. get_outputs (child_id 0 rid) c p = Inr (rid, [Some c, None], True, p')"
proof -
  from spawn_children_spec [OF assms(3)] have "pr_child_requests p = [child_id 0 rid]" "pr_output_aggregator p = [None, None]"
    "pr_request_id p = rid" "pr_sampling_params p = sp"
    using assms(1,2) by (simp_all add: parent_request_init_def numeral_2_eq_2)
  then show ?thesis using assms by (simp add: get_outputs_def Let_def)
qed

end
