(* ===== verification/Engine_Core.thy ===== *)
theory Engine_Core
  imports Scheduler_Lifecycle Output_Processor
begin

text \<open>
  The engine around the scheduler and the output processor: \<^verbatim>\<open>EngineCore\<close> of
  \<^verbatim>\<open>vllm/v1/engine/core.py\<close>, its in-process client (\<^verbatim>\<open>InprocClient\<close> of
  \<^verbatim>\<open>core_client.py\<close>) and \<^verbatim>\<open>LLMEngine\<close> of \<^verbatim>\<open>llm_engine.py\<close>.

  The model executor is not part of the development: what a future returns, and whether the oldest
  future is done, are arguments of a step, as are the ids that clients have put into the aborts queue
  while the model ran. A future is kept with the output of the scheduler that it belongs to. Bitmasks of
  grammars go to the executor and change no state. Data parallel engines are left out.
\<close>

section \<open>The engine core\<close>

record engine_core =
  ec_scheduler :: scheduler
  ec_batch_queue_size :: nat
  ec_batch_queue :: "scheduler_output list"
  ec_is_ec_producer :: bool
  ec_is_pooling_model :: bool
  ec_use_spec_decode :: bool

text \<open>Everything that a step learns from the executor and the clients.\<close>

record step_inputs =
  si_model_output :: model_runner_output
  si_oldest_done :: bool
  si_aborts :: "string list list"

definition engine_core_init :: "scheduler \<Rightarrow> nat \<Rightarrow> bool \<Rightarrow> bool \<Rightarrow> bool \<Rightarrow> engine_core" where
  "engine_core_init s batch_queue_size ec_producer pooling spec =
     \<lparr>ec_scheduler = s, ec_batch_queue_size = batch_queue_size, ec_batch_queue = [], ec_is_ec_producer = ec_producer,
      ec_is_pooling_model = pooling, ec_use_spec_decode = spec\<rparr>"

definition has_requests :: "scheduler \<Rightarrow> bool" where
  "has_requests s \<longleftrightarrow> 0 < get_num_unfinished_requests s \<or> has_finished_requests s"

text \<open>The tasks that the executor supports decide about pooling requests.\<close>

definition core_add_request :: "(pooling_params_t \<Rightarrow> bool) \<Rightarrow> request \<Rightarrow> engine_core \<Rightarrow> engine_core result" where
  "core_add_request supported r ec =
     (case pooling_params r of
        Some p \<Rightarrow> if supported p then Inr (ec\<lparr>ec_scheduler := sched_add_request r (ec_scheduler ec)\<rparr>) else Inl ValueError
      | None \<Rightarrow> Inr (ec\<lparr>ec_scheduler := sched_add_request r (ec_scheduler ec)\<rparr>))"

text \<open>The scheduler makes a set of the ids.\<close>

definition core_abort_requests :: "string list \<Rightarrow> engine_core \<Rightarrow> engine_core result" where
  "core_abort_requests ids ec =
     rbind (finish_requests (remdups ids) FINISHED_ABORTED (ec_scheduler ec)) (\<lambda>s. Inr (ec\<lparr>ec_scheduler := s\<rparr>))"

definition process_aborts_queue :: "string list list \<Rightarrow> engine_core \<Rightarrow> engine_core result" where
  "process_aborts_queue aborts ec = (if aborts \<noteq> [] then core_abort_requests (concat aborts) ec else Inr ec)"

text \<open>The end of both kinds of step.\<close>

definition core_update ::
  "block_hasher option \<Rightarrow> structured_manager \<Rightarrow> step_inputs \<Rightarrow> scheduler_output \<Rightarrow> engine_core \<Rightarrow>
   ((int, engine_core_outputs) odict \<times> engine_core) result" where
  "core_update hasher sm inp out ec =
     rbind (process_aborts_queue (si_aborts inp) ec) (\<lambda>ec.
     rbind (update_from_output hasher sm out (si_model_output inp) (ec_scheduler ec)) (\<lambda>(outputs, kv_events, s).
       Inr (outputs, ec\<lparr>ec_scheduler := s\<rparr>)))"

definition core_step ::
  "block_hasher option \<Rightarrow> structured_manager \<Rightarrow> step_inputs \<Rightarrow> engine_core \<Rightarrow> ((int, engine_core_outputs) odict option \<times> bool \<times> engine_core) result" where
  "core_step hasher sm inp ec =
     (if \<not> has_requests (ec_scheduler ec) then Inr (Some [], False, ec)
      else
        rbind (schedule (ec_scheduler ec)) (\<lambda>(out, s).
        rbind (core_update hasher sm inp out (ec\<lparr>ec_scheduler := s\<rparr>)) (\<lambda>(outputs, ec).
          Inr (Some outputs, 0 < so_total_num_scheduled_tokens out, ec))))"

text \<open>
  A step with a batch queue: the newest batch is at the front. \<open>deferred\<close> is a batch whose tokens are
  sampled only after the output of the oldest batch is known.
\<close>

definition take_oldest ::
  "block_hasher option \<Rightarrow> structured_manager \<Rightarrow> step_inputs \<Rightarrow> scheduler_output option \<Rightarrow> bool \<Rightarrow> engine_core \<Rightarrow>
   ((int, engine_core_outputs) odict option \<times> bool \<times> engine_core) result" where
  "take_oldest hasher sm inp deferred model_executed ec =
     (if ec_batch_queue ec = [] then Inl IndexError
      else
        rbind (core_update hasher sm inp (last (ec_batch_queue ec)) (ec\<lparr>ec_batch_queue := butlast (ec_batch_queue ec)\<rparr>)) (\<lambda>(outputs, ec).
          Inr (Some outputs, model_executed,
               (case deferred of None \<Rightarrow> ec | Some out \<Rightarrow> ec\<lparr>ec_batch_queue := out # ec_batch_queue ec\<rparr>))))"

definition step_with_batch_queue ::
  "block_hasher option \<Rightarrow> structured_manager \<Rightarrow> step_inputs \<Rightarrow> engine_core \<Rightarrow> ((int, engine_core_outputs) odict option \<times> bool \<times> engine_core) result" where
  "step_with_batch_queue hasher sm inp ec =
     rbind (rassert (length (ec_batch_queue ec) < ec_batch_queue_size ec)) (\<lambda>_.
     if has_requests (ec_scheduler ec) then
       rbind (schedule (ec_scheduler ec)) (\<lambda>(out, s).
         let model_executed = (\<not> ec_is_ec_producer ec \<and> 0 < so_total_num_scheduled_tokens out);
             ec = ec\<lparr>ec_scheduler := s\<rparr> in
         if model_executed \<and> \<not> ec_is_pooling_model ec \<and> so_pending_structured_output_tokens out
         then take_oldest hasher sm inp (Some out) model_executed ec
         else
           let ec = ec\<lparr>ec_batch_queue := out # ec_batch_queue ec\<rparr> in
           if model_executed \<and> length (ec_batch_queue ec) < ec_batch_queue_size ec \<and> \<not> si_oldest_done inp then Inr (None, True, ec)
           else take_oldest hasher sm inp None model_executed ec)
     else if ec_batch_queue ec = [] then Inr (None, False, ec)
     else take_oldest hasher sm inp None False ec)"

definition step_fn ::
  "block_hasher option \<Rightarrow> structured_manager \<Rightarrow> step_inputs \<Rightarrow> engine_core \<Rightarrow> ((int, engine_core_outputs) odict option \<times> bool \<times> engine_core) result" where
  "step_fn hasher sm inp ec = (if ec_batch_queue_size ec \<le> 1 then core_step hasher sm inp ec else step_with_batch_queue hasher sm inp ec)"

definition post_step :: "structured_manager \<Rightarrow> (string list \<times> int list list) option \<Rightarrow> bool \<Rightarrow> engine_core \<Rightarrow> engine_core" where
  "post_step sm drafts model_executed ec =
     (if \<not> is_async (conf (ec_scheduler ec)) \<and> ec_use_spec_decode ec \<and> model_executed then
        case drafts of
          None \<Rightarrow> ec
        | Some (ids, toks) \<Rightarrow> ec\<lparr>ec_scheduler := update_draft_token_ids sm ids toks (ec_scheduler ec)\<rparr>
      else ec)"

section \<open>The in-process client\<close>

definition inproc_get_output ::
  "block_hasher option \<Rightarrow> structured_manager \<Rightarrow> step_inputs \<Rightarrow> engine_core \<Rightarrow> (engine_core_output list \<times> engine_core) result" where
  "inproc_get_output hasher sm inp ec =
     rbind (step_fn hasher sm inp ec) (\<lambda>(outputs, _, ec).
       Inr (case outputs of None \<Rightarrow> [] | Some d \<Rightarrow> client_outputs d 0, ec))"

definition inproc_abort_requests :: "string list \<Rightarrow> engine_core \<Rightarrow> engine_core result" where
  "inproc_abort_requests ids ec = (if ids \<noteq> [] then core_abort_requests ids ec else Inr ec)"

section \<open>The engine\<close>

record 'd llm_engine =
  le_core :: engine_core
  le_output_processor :: "'d output_processor"

text \<open>
  A request comes in as the engine core's request and the output processor's state; the children of a
  request for several samples are made from its parameters. A call that raises leaves its traces: the result says
  whether it raised, and the engine is the one after the call. The output processor has the request when the engine core
  refuses it, and the children before the one that raises are there.
\<close>

definition engine_add_one ::
  "(pooling_params_t \<Rightarrow> bool) \<Rightarrow> request \<Rightarrow> 'd request_state \<Rightarrow> parent_request option \<Rightarrow> 'd llm_engine \<Rightarrow> unit result \<times> 'd llm_engine" where
  "engine_add_one supported r rs parent e =
     (case op_add_request (rs\<lparr>rs_request_id := request_id r, rs_parent := map_option pr_request_id parent\<rparr>) parent (le_output_processor e) of
        Inl err \<Rightarrow> (Inl err, e)
      | Inr op \<Rightarrow>
          (case core_add_request supported r (le_core e) of
             Inl err \<Rightarrow> (Inl err, e\<lparr>le_output_processor := op\<rparr>)
           | Inr ec \<Rightarrow> (Inr (), e\<lparr>le_output_processor := op, le_core := ec\<rparr>)))"

text \<open>The parent is one object: once a child has registered it, the output processor sees the children that are added to it.\<close>

definition share_parent :: "parent_request \<Rightarrow> 'd llm_engine \<Rightarrow> 'd llm_engine" where
  "share_parent p e =
     (let op = le_output_processor e in
      e\<lparr>le_output_processor := op\<lparr>op_parent_objects := AList.update (pr_request_id p) p (op_parent_objects op)\<rparr>\<rparr>)"

fun engine_add_children ::
  "(pooling_params_t \<Rightarrow> bool) \<Rightarrow> (child_params \<Rightarrow> request \<times> 'd request_state) \<Rightarrow> nat list \<Rightarrow> bool \<Rightarrow> parent_request \<Rightarrow> 'd llm_engine \<Rightarrow>
   unit result \<times> 'd llm_engine" where
  "engine_add_children supported mk [] shared parent e = (Inr (), e)"
| "engine_add_children supported mk (idx # idxs) shared parent e =
     (let (rid, child_params, parent) = get_child_info idx parent; (r, rs) = mk child_params;
          e = (if shared then share_parent parent e else e) in
      case engine_add_one supported (r\<lparr>request_id := rid\<rparr>) (rs\<lparr>rs_index := idx\<rparr>) (Some parent) e of
        (Inl err, e) \<Rightarrow> (Inl err, e)
      | (Inr _, e) \<Rightarrow> engine_add_children supported mk idxs True parent e)"

definition engine_add_request ::
  "(pooling_params_t \<Rightarrow> bool) \<Rightarrow> string \<Rightarrow> child_params \<Rightarrow> (child_params \<Rightarrow> request \<times> 'd request_state) \<Rightarrow> 'd llm_engine \<Rightarrow>
   unit result \<times> 'd llm_engine" where
  "engine_add_request supported rid params mk e =
     (if cp_n params = 1 then
        let (r, rs) = mk params in engine_add_one supported (r\<lparr>request_id := rid\<rparr>) (rs\<lparr>rs_index := 0\<rparr>) None e
      else engine_add_children supported mk [0..<cp_n params] False (parent_request_init rid params) e)"

definition engine_step ::
  "(int \<Rightarrow> 'd \<Rightarrow> string \<times> 'd) \<Rightarrow> block_hasher option \<Rightarrow> structured_manager \<Rightarrow> step_inputs \<Rightarrow> 'd llm_engine \<Rightarrow> (any_output list \<times> 'd llm_engine) result" where
  "engine_step decode_next hasher sm inp e =
     rbind (inproc_get_output hasher sm inp (le_core e)) (\<lambda>(outputs, ec).
     rbind (process_outputs decode_next outputs (le_output_processor e)) (\<lambda>(request_outputs, reqs_to_abort, op).
     rbind (inproc_abort_requests reqs_to_abort ec) (\<lambda>ec.
       Inr (request_outputs, e\<lparr>le_core := ec, le_output_processor := op\<rparr>))))"

text \<open>Every parent that is aborted through its own parent has a longer identifier, so the number of parents bounds the depth.\<close>

definition engine_abort_request :: "string list \<Rightarrow> 'd llm_engine \<Rightarrow> 'd llm_engine result" where
  "engine_abort_request ids e =
     rbind (abort_requests (length (op_parent_requests (le_output_processor e)) + 1) ids (le_output_processor e)) (\<lambda>(ids, op).
     rbind (inproc_abort_requests ids (le_core e)) (\<lambda>ec.
       Inr (e\<lparr>le_core := ec, le_output_processor := op\<rparr>)))"

definition engine_reset_prefix_cache :: "bool \<Rightarrow> bool \<Rightarrow> 'd llm_engine \<Rightarrow> (bool \<times> 'd llm_engine) result" where
  "engine_reset_prefix_cache reset_running_requests reset_connector e =
     rbind (sched_reset_prefix_cache reset_running_requests reset_connector (ec_scheduler (le_core e))) (\<lambda>(ok, s).
       Inr (ok, e\<lparr>le_core := (le_core e)\<lparr>ec_scheduler := s\<rparr>\<rparr>))"

definition engine_has_unfinished_requests :: "'d llm_engine \<Rightarrow> bool" where
  "engine_has_unfinished_requests e = op_has_unfinished_requests (le_output_processor e)"

end
