(* ===== verification/Engine_Agreement.thy ===== *)
theory Engine_Agreement
  imports Engine_Core
begin

text \<open>
  The engine core and the output processor keep their own books of the requests. Steps and aborts keep them
  in agreement: a request that one of them ends is ended by the other in the same call.
\<close>

section \<open>What the output processor ends\<close>

lemma ended_one: "ended [o'] = (if eo_finish_reason o' = None then {} else {eo_request_id o'})"
  by (auto simp: ended_def)

abbreviation op_ids :: "'d output_processor \<Rightarrow> string set" where
  "op_ids op \<equiv> fst ` set (op_request_states op)"

lemma deliver_states: "deliver out queue op = Inr (os, op') \<Longrightarrow> op_request_states op' = op_request_states op"
  by (auto simp: deliver_def result_simps split: option.splits)

lemma process_request_ends:
  "process_request decode eco parents rs = Inr (out, fin, parents', rs') \<Longrightarrow> fin = eo_finish_reason eco \<or> fin = Some FR_STOP"
  by (auto simp: process_request_def Let_def result_simps split: option.splits prod.splits list.splits)

lemma process_output_ids:
  assumes "process_output decode eco (ros, ab, op) = Inr (ros', ab', op')"
  shows "\<exists>ns. ab' = ab @ ns \<and> op_ids op' = op_ids op - (ended [eco] \<union> set ns)"
proof (cases "map_of (op_request_states op) (eo_request_id eco)")
  case None
  then have "eo_request_id eco \<notin> op_ids op" by (simp add: map_of_eq_None_iff)
  moreover from None assms have "ab' = ab" "op' = op" by (simp_all add: process_output_def)
  ultimately show ?thesis by (intro exI [of _ "[]"]) (simp add: ended_one)
next
  case (Some rs)
  let ?rid = "eo_request_id eco"
  from Some have known: "?rid \<in> op_ids op" by (force dest: map_of_SomeD)
  obtain out fin parents rs1 where r: "process_request decode eco (op_parent_objects op) rs = Inr (out, fin, parents, rs1)"
    using assms Some by (cases "process_request decode eco (op_parent_objects op) rs") (auto simp: process_output_def)
  let ?op = "op\<lparr>op_request_states := AList.update ?rid rs1 (op_request_states op), op_parent_objects := parents\<rparr>"
  obtain os op1 where d: "deliver out (rs_queue rs1) ?op = Inr (os, op1)"
    using assms Some r by (cases "deliver out (rs_queue rs1) ?op") (auto simp: process_output_def)
  have rest: "(fin = None \<and> ab' = ab \<and> op' = op1) \<or>
      (fin \<noteq> None \<and> ab' = ab @ (if eo_finish_reason eco = None then [?rid] else []) \<and> op_request_states op' = AList.delete ?rid (op_request_states op1))"
  proof (cases "fin = None")
    case True
    with assms Some r d show ?thesis by (simp add: process_output_def)
  next
    case False
    let ?childless = "case rs_parent rs1 of None \<Rightarrow> False | Some pid \<Rightarrow> (case map_of parents pid of None \<Rightarrow> False | Some p \<Rightarrow> pr_child_requests p = [])"
    from assms Some r d False have "ab' = ab @ (if eo_finish_reason eco = None then [?rid] else [])" and
      "op' = op1\<lparr>op_request_states := AList.delete ?rid (op_request_states op1),
         op_parent_requests := (if ?childless then removeAll (the (rs_parent rs1)) (op_parent_requests op1) else op_parent_requests op1)\<rparr>"
      by (simp_all add: process_output_def Let_def)
    then have "op_request_states op' = AList.delete ?rid (op_request_states op1)" by simp
    with \<open>ab' = _\<close> False show ?thesis by simp
  qed
  have ids: "op_ids op1 = op_ids op" using deliver_states [OF d] known by (auto simp: keys_update)
  from rest show ?thesis
  proof (elim disjE conjE)
    assume "fin = None" "ab' = ab" "op' = op1"
    with process_request_ends [OF r] ids show ?thesis by (intro exI [of _ "[]"]) (auto simp: ended_one)
  next
    assume "ab' = ab @ (if eo_finish_reason eco = None then [?rid] else [])" "op_request_states op' = AList.delete ?rid (op_request_states op1)"
    then show ?thesis using ids by (intro exI [of _ "if eo_finish_reason eco = None then [?rid] else []"]) (auto simp: ended_one keys_delete)
  qed
qed

lemma process_outputs_fold:
  assumes "rfold (process_output decode) ecos (ros, ab, op) = Inr (ros', ab', op')"
  shows "\<exists>ns. ab' = ab @ ns \<and> op_ids op' = op_ids op - (ended ecos \<union> set ns)"
  using assms
proof (induction ecos arbitrary: ros ab op)
  case (Cons eco ecos)
  from Cons.prems obtain ros1 ab1 op1 where one: "process_output decode eco (ros, ab, op) = Inr (ros1, ab1, op1)"
    and rest: "rfold (process_output decode) ecos (ros1, ab1, op1) = Inr (ros', ab', op')" by (auto simp: result_simps)
  from process_output_ids [OF one] obtain ns where ns: "ab1 = ab @ ns" "op_ids op1 = op_ids op - (ended [eco] \<union> set ns)" by blast
  from Cons.IH [OF rest] obtain ms where ms: "ab' = ab1 @ ms" "op_ids op' = op_ids op1 - (ended ecos \<union> set ms)" by blast
  have "ended (eco # ecos) = ended [eco] \<union> ended ecos" by (auto simp: ended_def)
  with ns ms show ?case by (intro exI [of _ "ns @ ms"]) auto
qed simp

lemma process_outputs_ids:
  "process_outputs decode ecos op = Inr (ros, aborts, op') \<Longrightarrow> op_ids op' = op_ids op - (ended ecos \<union> set aborts)"
  using process_outputs_fold [of decode ecos "[]" "[]" op ros aborts op'] by (auto simp: process_outputs_def)

lemma abort_one_ids:
  assumes "(case rs_queue rs of None \<Rightarrow> Inr ([rid], op)
    | Some q \<Rightarrow> rbind (make_request_output [] p fin None (op_parent_objects op) rs) (\<lambda>(out, parents, rs).
        rbind (deliver out (Some q) (op\<lparr>op_parent_objects := parents\<rparr>)) (\<lambda>(_, op). Inr ([rid], op)))) = Inr (ids, op')"
  shows "ids = [rid] \<and> op_request_states op' = op_request_states op"
  using assms by (auto simp: result_simps dest: deliver_states split: option.splits)

lemma abort_requests_ids:
  "abort_requests n rids op = Inr (ids, op') \<Longrightarrow> op_ids op' = op_ids op - set ids"
proof (induction n rids op arbitrary: ids op' rule: abort_requests.induct)
  case (3 depth rid rids op)
  let ?one = "case map_of (op_request_states op) rid of
              Some rs \<Rightarrow>
                let op = op\<lparr>op_request_states := AList.delete rid (op_request_states op)\<rparr> in
                (case rs_queue rs of
                   None \<Rightarrow> Inr ([rid], op)
                 | Some q \<Rightarrow>
                     rbind (make_request_output [] (if rs_detokenizer rs = None then Some 0 else None) (Some FR_ABORT) None (op_parent_objects op) rs)
                       (\<lambda>(out, parents, rs).
                         rbind (deliver out (Some q) (op\<lparr>op_parent_objects := parents\<rparr>)) (\<lambda>(_, op). Inr ([rid], op))))
            | None \<Rightarrow>
                if rid \<in> set (op_parent_requests op) then
                  rbind (od_lookup (op_parent_objects op) rid) (\<lambda>p.
                  rbind (if pr_child_requests p \<noteq> [] then abort_requests depth (pr_child_requests p) op else Inr ([], op)) (\<lambda>(ids, op).
                    Inr (ids, op\<lparr>op_parent_requests := removeAll rid (op_parent_requests op)\<rparr>)))
                else Inr ([], op)"
  from "3.prems" [unfolded abort_requests.simps(3)] obtain ids1 op1 ids2 where one: "?one = Inr (ids1, op1)"
    and rest: "abort_requests (Suc depth) rids op1 = Inr (ids2, op')" and ids: "ids = ids1 @ ids2"
    by (elim rbindE) (auto elim!: rbindE simp del: abort_requests.simps)
  have "op_ids op1 = op_ids op - set ids1"
  proof (cases "map_of (op_request_states op) rid")
    case (Some rs)
    from abort_one_ids [OF one [unfolded Some option.case Let_def]] show ?thesis by (simp add: keys_delete)
  next
    case None
    show ?thesis
    proof (cases "rid \<in> set (op_parent_requests op)")
      case True
      with one None obtain p op2 where p: "od_lookup (op_parent_objects op) rid = Inr p"
        and inner: "(if pr_child_requests p \<noteq> [] then abort_requests depth (pr_child_requests p) op else Inr ([], op)) = Inr (ids1, op2)"
        and op1: "op1 = op2\<lparr>op_parent_requests := removeAll rid (op_parent_requests op2)\<rparr>"
        by (auto elim!: rbindE split del: if_split)
      have "op_ids op2 = op_ids op - set ids1"
      proof (cases "pr_child_requests p = []")
        case False
        with inner have "abort_requests depth (pr_child_requests p) op = Inr (ids1, op2)" by simp
        with "3.IH"(1) [OF None True] p False show ?thesis by blast
      qed (use inner in simp)
      then show ?thesis by (simp add: op1)
    next
      case False
      with one None show ?thesis by simp
    qed
  qed
  moreover have "op_ids op' = op_ids op1 - set ids2" by (rule "3.IH"(2) [OF one refl rest])
  ultimately show ?case by (simp add: ids Diff_Un Diff_eq Int_assoc)
qed auto

text \<open>After an abort the output processor has none of the ids that were given.\<close>

lemma abort_requests_given:
  assumes "abort_requests n rids op = Inr (ids, op')"
  shows "set rids \<inter> op_ids op' = {}"
  using assms
proof (induction rids arbitrary: op ids)
  case (Cons rid rids)
  then obtain m where n: "n = Suc m" by (cases n) auto
  from Cons.prems obtain ids1 op1 ids2 where one: "abort_requests n [rid] op = Inr (ids1, op1)" and rest: "abort_requests n rids op1 = Inr (ids2, op')"
    unfolding n abort_requests.simps by (elim rbindE) (auto elim!: rbindE)
  have "rid \<notin> op_ids op1"
  proof (cases "map_of (op_request_states op) rid")
    case None
    then have "rid \<notin> op_ids op" by (simp add: map_of_eq_None_iff)
    with abort_requests_ids [OF one] show ?thesis by blast
  next
    case (Some rs)
    let ?op = "op\<lparr>op_request_states := AList.delete rid (op_request_states op)\<rparr>"
    from one obtain ids3 where "(case rs_queue rs of None \<Rightarrow> Inr ([rid], ?op)
      | Some q \<Rightarrow> rbind (make_request_output [] (if rs_detokenizer rs = None then Some 0 else None) (Some FR_ABORT) None (op_parent_objects ?op) rs) (\<lambda>(out, parents, rs).
          rbind (deliver out (Some q) (?op\<lparr>op_parent_objects := parents\<rparr>)) (\<lambda>(_, op). Inr ([rid], op)))) = Inr (ids3, op1)"
      unfolding n abort_requests.simps Some option.case Let_def by (elim rbindE) auto
    from abort_one_ids [OF this] show ?thesis by (simp add: keys_delete)
  qed
  moreover have "op_ids op' \<subseteq> op_ids op1" using abort_requests_ids [OF rest] by blast
  ultimately show ?case using Cons.IH [OF rest] by auto
qed simp

section \<open>What the engine core keeps\<close>

text \<open>Every request of an in-process engine belongs to client 0.\<close>

definition core_ok :: "scheduler \<Rightarrow> bool" where
  "core_ok s \<longleftrightarrow> lifecycle_ok s \<and> (\<forall>p \<in> set (clients s). snd p = 0)"

text \<open>\<open>s'\<close> is \<open>s\<close> without the requests in \<open>V\<close>.\<close>

definition without :: "string set \<Rightarrow> scheduler \<Rightarrow> scheduler \<Rightarrow> bool" where
  "without V s s' \<longleftrightarrow> core_ok s' \<and> fst ` set (requests s') = fst ` set (requests s) - V"

lemma without_trans: "without V a b \<Longrightarrow> without W b c \<Longrightarrow> without (V \<union> W) a c"
  by (auto simp: without_def)

lemma without_clients:
  assumes "core_ok s" "sched_op c s s'" "clients s' = filter (\<lambda>p. fst p \<notin> V) (clients s)"
  shows "without V s s'"
proof -
  have ids: "fst ` set (requests t) = fst ` set (clients t)" for t by (metis clients_keys set_map)
  have "fst ` set (requests s') = fst ` set (requests s) - V" unfolding ids assms(3) by auto
  moreover have "lifecycle_ok s'" using sched_op_keeps [OF _ assms(2)] assms(1) by (simp add: core_ok_def)
  ultimately show ?thesis using assms(1,3) by (auto simp: without_def core_ok_def)
qed

lemma core_schedule: "core_ok s \<Longrightarrow> schedule s = Inr (out, s') \<Longrightarrow> without {} s s'"
  by (rule without_clients) (auto intro: sched_op.step dest: schedule_ids)

lemma core_updates:
  "core_ok s \<Longrightarrow> update_from_output hasher sm out ro s = Inr (eco, evs, s') \<Longrightarrow> without (ended (client_outputs eco 0)) s s'"
  using update_from_output_ended [of s "{0}" hasher sm out ro eco evs s']
  by (intro without_clients) (auto intro: sched_op.update simp: core_ok_def lifecycle_ok_def reported_def)

lemma core_finish:
  assumes ok: "core_ok s" and d: "distinct ids" and run: "finish_requests ids st s = Inr s'"
  shows "without (set ids) s s'"
proof -
  have q: "qok [] {} s" using ok by (simp add: core_ok_def lifecycle_ok_def)
  from qok_live [OF q] have V: "rid \<in> {rid \<in> set ids. live s rid} \<longleftrightarrow> rid \<in> set ids" if "map_of (requests s) rid \<noteq> None" for rid using that by auto
  from finish_requests_freed [OF q d run] have m: "qok [] {} s'" "\<forall>x. map_of (requests s') x = (if x \<in> {rid \<in> set ids. live s rid} then None else map_of (requests s) x)"
    by simp_all
  then have m': "map_of (requests s') x = (if x \<in> set ids then None else map_of (requests s) x)" for x using V by (cases "map_of (requests s) x") auto
  have "fst ` set (requests s') = fst ` set (requests s) - set ids"
    unfolding dom_map_of_conv_image_fst [symmetric] by (auto simp: dom_def m' split: if_splits)
  moreover have "client_index r = 0" if "(rid, r) \<in> set (requests s')" for rid r
  proof -
    have "distinct (map fst (requests s'))" using m(1) by (simp add: qok_def)
    from map_of_is_SomeI [OF this that] m' have "(rid, r) \<in> set (requests s)" by (auto split: if_splits dest: map_of_SomeD)
    then show ?thesis using ok by (force simp: core_ok_def clients_def)
  qed
  moreover have "lifecycle_ok s'" using sched_op_keeps [OF _ sched_op.finish [OF d run]] ok by (simp add: core_ok_def)
  ultimately show ?thesis by (auto simp: without_def core_ok_def clients_def)
qed

section \<open>Steps of the engine core\<close>

definition told :: "(int, engine_core_outputs) odict option \<Rightarrow> string set" where
  "told outputs = ended (case outputs of None \<Rightarrow> [] | Some d \<Rightarrow> client_outputs d 0)"

text \<open>A step ends the requests that its outputs tell, and the batch queue has room for the next step.\<close>

definition queue_room :: "engine_core \<Rightarrow> bool" where
  "queue_room ec \<longleftrightarrow> ec_batch_queue_size ec \<le> 1 \<or> length (ec_batch_queue ec) < ec_batch_queue_size ec"

definition stepped :: "engine_core \<Rightarrow> string set \<Rightarrow> engine_core \<Rightarrow> bool" where
  "stepped ec V ec' \<longleftrightarrow> without V (ec_scheduler ec) (ec_scheduler ec') \<and> ec_batch_queue_size ec' = ec_batch_queue_size ec"

lemma core_abort_stepped:
  "core_ok (ec_scheduler ec) \<Longrightarrow> core_abort_requests ids ec = Inr ec' \<Longrightarrow> stepped ec (set ids) ec' \<and> ec_batch_queue ec' = ec_batch_queue ec"
  using core_finish [of "ec_scheduler ec" "remdups ids" FINISHED_ABORTED "ec_scheduler ec'"]
  by (auto simp: core_abort_requests_def result_simps stepped_def)

lemma core_update_stepped:
  assumes "core_ok (ec_scheduler ec)" "si_aborts inp = []" "core_update hasher sm inp out ec = Inr (outputs, ec')"
  shows "stepped ec (told (Some outputs)) ec' \<and> ec_batch_queue ec' = ec_batch_queue ec"
  using assms core_updates [OF assms(1)] by (auto simp: core_update_def process_aborts_queue_def result_simps stepped_def told_def)

lemma take_oldest_stepped:
  assumes "core_ok (ec_scheduler ec)" "si_aborts inp = []" "take_oldest hasher sm inp deferred executed ec = Inr (outputs, b, ec')"
  shows "stepped ec (told outputs) ec' \<and> length (ec_batch_queue ec') = length (ec_batch_queue ec) - (if deferred = None then 1 else 0)"
proof -
  let ?ec = "ec\<lparr>ec_batch_queue := butlast (ec_batch_queue ec)\<rparr>"
  from assms(3) obtain d ec1 where ne: "ec_batch_queue ec \<noteq> []" and u: "core_update hasher sm inp (last (ec_batch_queue ec)) ?ec = Inr (d, ec1)"
    and o: "outputs = Some d" "ec' = (case deferred of None \<Rightarrow> ec1 | Some out \<Rightarrow> ec1\<lparr>ec_batch_queue := out # ec_batch_queue ec1\<rparr>)"
    by (auto simp: take_oldest_def result_simps split: if_split_asm)
  have "core_ok (ec_scheduler ?ec)" using assms(1) by simp
  from core_update_stepped [OF this assms(2) u] ne show ?thesis
    by (cases deferred) (auto simp: o stepped_def Suc_diff_Suc)
qed

lemma stepped_trans: "stepped a V b \<Longrightarrow> stepped b W c \<Longrightarrow> stepped a (V \<union> W) c"
  by (auto simp: stepped_def intro: without_trans)

lemma stepped_refl: "core_ok (ec_scheduler ec) \<Longrightarrow> stepped ec {} ec"
  by (simp add: stepped_def without_def)

lemma schedule_stepped:
  "core_ok (ec_scheduler ec) \<Longrightarrow> schedule (ec_scheduler ec) = Inr (out, s) \<Longrightarrow> stepped ec {} (ec\<lparr>ec_scheduler := s\<rparr>) \<and> core_ok s"
  using core_schedule by (auto simp: stepped_def without_def)

lemma batch_queue_stepped:
  assumes ok: "core_ok (ec_scheduler ec)" and si: "si_aborts inp = []" and run: "step_with_batch_queue hasher sm inp ec = Inr (outputs, b, ec')"
  shows "stepped ec (told outputs) ec' \<and> length (ec_batch_queue ec') < ec_batch_queue_size ec"
proof -
  have room: "length (ec_batch_queue ec) < ec_batch_queue_size ec" using run by (auto simp: step_with_batch_queue_def result_simps)
  show ?thesis
  proof (cases "has_requests (ec_scheduler ec)")
    case False
    show ?thesis
    proof (cases "ec_batch_queue ec = []")
      case True
      with run False room ok show ?thesis by (auto simp: step_with_batch_queue_def result_simps told_def stepped_refl)
    next
      case nonempty: False
      with run False have "take_oldest hasher sm inp None False ec = Inr (outputs, b, ec')" by (auto simp: step_with_batch_queue_def result_simps)
      from take_oldest_stepped [OF ok si this] room show ?thesis by simp
    qed
  next
    case True
    with run obtain out s where sch: "schedule (ec_scheduler ec) = Inr (out, s)" by (auto simp: step_with_batch_queue_def result_simps)
    let ?ec = "ec\<lparr>ec_scheduler := s\<rparr>"
    let ?ec2 = "?ec\<lparr>ec_batch_queue := out # ec_batch_queue ec\<rparr>"
    let ?executed = "\<not> ec_is_ec_producer ec \<and> 0 < so_total_num_scheduled_tokens out"
    note st = schedule_stepped [OF ok sch]
    have ok1: "core_ok (ec_scheduler ?ec)" "core_ok (ec_scheduler ?ec2)" and st2: "stepped ec {} ?ec2" using st by (simp_all add: stepped_def)
    consider (deferred) x where "take_oldest hasher sm inp (Some out) x ?ec = Inr (outputs, b, ec')"
      | (queued) "outputs = None" "ec' = ?ec2" "length (ec_batch_queue ?ec2) < ec_batch_queue_size ec"
      | (oldest) x where "take_oldest hasher sm inp None x ?ec2 = Inr (outputs, b, ec')"
      using run True sch by (auto simp: step_with_batch_queue_def result_simps Let_def split: if_split_asm)
    then show ?thesis
    proof cases
      case deferred
      from take_oldest_stepped [OF ok1(1) si this] stepped_trans [of ec "{}" ?ec "told outputs" ec'] st room show ?thesis by simp
    next
      case queued
      then show ?thesis using st2 by (simp add: told_def)
    next
      case oldest
      from take_oldest_stepped [OF ok1(2) si this] stepped_trans [OF st2, of "told outputs" ec'] room show ?thesis by simp
    qed
  qed
qed

lemma step_fn_stepped:
  assumes ok: "core_ok (ec_scheduler ec)" and si: "si_aborts inp = []" and run: "step_fn hasher sm inp ec = Inr (outputs, b, ec')"
  shows "stepped ec (told outputs) ec' \<and> queue_room ec'"
proof (cases "ec_batch_queue_size ec \<le> 1")
  case False
  with batch_queue_stepped [OF ok si] run show ?thesis by (auto simp: step_fn_def queue_room_def stepped_def)
next
  case True
  have "stepped ec (told outputs) ec'"
  proof (cases "has_requests (ec_scheduler ec)")
    case False
    with True run ok show ?thesis by (auto simp: step_fn_def core_step_def told_def client_outputs_def stepped_refl)
  next
    case has: True
    with True run obtain out s d where sch: "schedule (ec_scheduler ec) = Inr (out, s)"
      and u: "core_update hasher sm inp out (ec\<lparr>ec_scheduler := s\<rparr>) = Inr (d, ec')" and o: "outputs = Some d"
      by (auto simp: step_fn_def core_step_def result_simps)
    note st = schedule_stepped [OF ok sch]
    from core_update_stepped [OF _ si u] st stepped_trans [of ec "{}" "ec\<lparr>ec_scheduler := s\<rparr>" "told (Some d)" ec'] show ?thesis by (simp add: o)
  qed
  with True show ?thesis by (simp add: queue_room_def stepped_def)
qed

end
