(* ===== verification/Output_Text.thy ===== *)
theory Output_Text
  imports Output_Processor
begin

text \<open>
  The texts that a client receives: the search for stop strings is exact on the new characters, and
  the characters that streaming holds back are enough that no text sent to a client is cut off
  later, so that the deltas of a request add up to its final text.
\<close>

section \<open>The search for stop strings\<close>

definition occurs_at :: "string \<Rightarrow> string \<Rightarrow> nat \<Rightarrow> bool" where
  "occurs_at sub text i \<longleftrightarrow> i + length sub \<le> length text \<and> take (length sub) (drop i text) = sub"

lemma py_find_cases:
  fixes chars sub :: string
  assumes "start < 0"
  defines "s \<equiv> nat (start + int (length chars))"
  shows "py_find chars sub start = - 1 \<and> (\<forall>i \<ge> s. \<not> occurs_at sub chars i) \<or>
    (\<exists>i \<ge> s. py_find chars sub start = int i \<and> occurs_at sub chars i \<and> (\<forall>j. s \<le> j \<and> j < i \<longrightarrow> \<not> occurs_at sub chars j))"
proof -
  let ?P = "\<lambda>i. take (length sub) (drop i chars) = sub" and ?xs = "[s..<Suc (length chars) - length sub]"
  have s: "nat (max 0 (start + int (length chars))) = s" by (simp add: s_def)
  have occ: "occurs_at sub chars i \<longleftrightarrow> i < Suc (length chars) - length sub \<and> ?P i" for i by (auto simp: occurs_at_def)
  have eq: "py_find chars sub start = (case List.find ?P ?xs of None \<Rightarrow> - 1 | Some i \<Rightarrow> int i)"
    using assms(1) by (simp add: py_find_def s)
  show ?thesis
  proof (cases "List.find ?P ?xs")
    case None
    then have "\<forall>i \<in> set ?xs. \<not> ?P i" by (simp add: find_None_iff)
    then have "\<forall>i \<ge> s. \<not> occurs_at sub chars i" by (auto simp: occ)
    then show ?thesis using eq None by simp
  next
    case (Some i)
    then obtain k where k: "k < length ?xs" "?P (?xs ! k)" "i = ?xs ! k" "\<forall>j < k. \<not> ?P (?xs ! j)" by (auto simp: find_Some_iff)
    then have i: "i = s + k" "s \<le> i" "occurs_at sub chars i" by (auto simp: occ)
    have "\<not> occurs_at sub chars j" if "s \<le> j" "j < i" for j
    proof -
      have "j - s < k" "?xs ! (j - s) = j" using that i(1) k(1) by auto
      with k(4) show ?thesis by (auto simp: occ)
    qed
    moreover have "py_find chars sub start = int i" using eq Some by simp
    ultimately show ?thesis using i(2,3) by blast
  qed
qed

text \<open>An occurrence that ends in the characters from \<open>old\<close> on, the first one of its string.\<close>

definition new_match :: "nat \<Rightarrow> string \<Rightarrow> string \<Rightarrow> nat \<Rightarrow> bool" where
  "new_match old text sub i \<longleftrightarrow> occurs_at sub text i \<and> old < i + length sub \<and>
     (\<forall>j < i. occurs_at sub text j \<longrightarrow> j + length sub \<le> old)"

lemma find_new_match:
  assumes "sub \<noteq> []" "old < length text"
  shows "py_find text sub (1 - int (length text - old) - int (length sub)) = - 1 \<and> (\<forall>i. occurs_at sub text i \<longrightarrow> i + length sub \<le> old) \<or>
    (\<exists>i. py_find text sub (1 - int (length text - old) - int (length sub)) = int i \<and> new_match old text sub i)"
proof -
  let ?start = "1 - int (length text - old) - int (length sub)"
  let ?s = "nat (?start + int (length text))"
  have L: "0 < length sub" using assms(1) by simp
  have s: "i < ?s \<longleftrightarrow> i + length sub \<le> old" for i using assms(2) L by (auto simp: of_nat_diff zless_nat_conj)
  have "?start < 0" using assms(2) L by linarith
  from py_find_cases [OF this, of "text" sub] show ?thesis
  proof (elim disjE conjE exE)
    assume "py_find text sub ?start = - 1" "\<forall>i \<ge> ?s. \<not> occurs_at sub text i"
    then show ?thesis using s by (metis leI)
  next
    fix i assume "?s \<le> i" "py_find text sub ?start = int i" "occurs_at sub text i" "\<forall>j. ?s \<le> j \<and> j < i \<longrightarrow> \<not> occurs_at sub text j"
    then have "new_match old text sub i" unfolding new_match_def using s by (metis leD leI)
    then show ?thesis using \<open>py_find text sub ?start = int i\<close> by blast
  qed
qed

definition stop_result :: "string \<Rightarrow> bool \<Rightarrow> string \<Rightarrow> nat \<Rightarrow> int" where
  "stop_result text include_in_output sub i =
     (if \<not> include_in_output then int i
      else if i + length sub < length text then int (i + length sub) else - 1)"

text \<open>The result of the check: the first stop string in the list that ends in the new characters, cut at its first such occurrence.\<close>

lemma check_stop_strings_spec:
  assumes "\<forall>s \<in> set stop. s \<noteq> []" "old \<le> length text"
  shows "case check_stop_strings text (int (length text) - int old) stop inc of
      None \<Rightarrow> \<forall>s \<in> set stop. \<forall>i. occurs_at s text i \<longrightarrow> i + length s \<le> old
    | Some (s, t) \<Rightarrow> \<exists>ss1 ss2 i. stop = ss1 @ s # ss2 \<and> new_match old text s i \<and> t = stop_result text inc s i \<and>
        (\<forall>s' \<in> set ss1. \<forall>i. occurs_at s' text i \<longrightarrow> i + length s' \<le> old)"
proof (cases "old = length text")
  case True
  then show ?thesis by (auto simp: check_stop_strings_def occurs_at_def)
next
  case False
  then have lt: "old < length text" using assms(2) by simp
  have "case check_stop_loop text (int (length text) - int old) inc stop of
      None \<Rightarrow> \<forall>s \<in> set stop. \<forall>i. occurs_at s text i \<longrightarrow> i + length s \<le> old
    | Some (s, t) \<Rightarrow> \<exists>ss1 ss2 i. stop = ss1 @ s # ss2 \<and> new_match old text s i \<and> t = stop_result text inc s i \<and>
        (\<forall>s' \<in> set ss1. \<forall>i. occurs_at s' text i \<longrightarrow> i + length s' \<le> old)"
    using assms(1)
  proof (induction stop)
    case (Cons s ss)
    let ?f = "py_find text s (1 - (int (length text) - int old) - int (length s))"
    let ?none = "\<lambda>s. \<forall>i. occurs_at s text i \<longrightarrow> i + length s \<le> old"
    have "?f = - 1 \<and> ?none s \<or> (\<exists>i. ?f = int i \<and> new_match old text s i)"
      using find_new_match [of s old "text"] Cons.prems lt by (simp add: of_nat_diff)
    then show ?case
    proof (elim disjE conjE exE)
      assume none: "?f = - 1" "?none s"
      show ?thesis
      proof (cases "check_stop_loop text (int (length text) - int old) inc ss")
        case None
        then show ?thesis using none Cons by (simp add: Let_def)
      next
        case (Some r)
        obtain s' t where r: "r = (s', t)" by fastforce
        with Cons Some obtain ss1 ss2 i where *: "ss = ss1 @ s' # ss2" "new_match old text s' i" "t = stop_result text inc s' i" "\<forall>s \<in> set ss1. ?none s"
          by auto
        have "check_stop_loop text (int (length text) - int old) inc (s # ss) = Some (s', t)" using none(1) Some r by (simp add: Let_def)
        moreover have "s # ss = (s # ss1) @ s' # ss2" "\<forall>s' \<in> set (s # ss1). ?none s'" using * none(2) by auto
        ultimately show ?thesis using *(2,3) by (simp only: option.case prod.case) blast
      qed
    next
      fix i assume i: "?f = int i" "new_match old text s i"
      then have "check_stop_loop text (int (length text) - int old) inc (s # ss) = Some (s, stop_result text inc s i)"
        by (auto simp: Let_def stop_result_def)
      then show ?thesis using i(2) by (simp only: option.case prod.case) (metis append_Nil empty_iff list.set(1))
    qed
  qed simp
  then show ?thesis using lt by (cases "stop = []") (auto simp: check_stop_strings_def)
qed

section \<open>Updates keep what was sent\<close>

definition same_params :: "'d detokenizer \<Rightarrow> 'd detokenizer \<Rightarrow> bool" where
  "same_params d d' \<longleftrightarrow> dt_prompt_len d' = dt_prompt_len d \<and> dt_stop d' = dt_stop d \<and> dt_min_tokens d' = dt_min_tokens d \<and>
     dt_include_stop d' = dt_include_stop d \<and> dt_stop_buffer_length d' = dt_stop_buffer_length d \<and> dt_last_offset d' = dt_last_offset d \<and>
     (dt_decoder d = None \<longleftrightarrow> dt_decoder d' = None)"

definition held_back :: "'d detokenizer \<Rightarrow> bool" where
  "held_back d \<longleftrightarrow> (\<forall>s \<in> set (dt_stop d). s \<noteq> []) \<and> dt_prompt_len d \<le> length (dt_token_ids d) \<and>
     (\<not> dt_include_stop d \<longrightarrow> (\<forall>s \<in> set (dt_stop d). length s \<le> dt_stop_buffer_length d + 1)) \<and>
     dt_last_offset d \<le> length (dt_output_text d) - dt_stop_buffer_length d"

lemma decode_tokens_spec:
  assumes "decode_tokens decode toks s off d = (off', d')" "off \<le> length (dt_output_text d)" "dt_decoder d \<noteq> None"
  shows "same_params d d' \<and> dt_token_ids d' = dt_token_ids d @ toks \<and> off \<le> off' \<and> off' \<le> length (dt_output_text d') \<and>
    (\<exists>chars. dt_output_text d' = dt_output_text d @ chars)"
  using assms
proof (induction toks arbitrary: s off d)
  case Nil
  then show ?case by (auto simp: same_params_def)
next
  case (Cons tok toks)
  obtain chars s1 where dec: "decode tok s = (chars, s1)" by fastforce
  let ?d = "d\<lparr>dt_token_ids := dt_token_ids d @ [tok], dt_output_text := dt_output_text d @ chars\<rparr>"
  let ?off = "if dt_min_tokens ?d \<noteq> 0 \<and> length (output_token_ids ?d) \<le> dt_min_tokens ?d then length (dt_output_text ?d) else off"
  have "decode_tokens decode toks s1 ?off ?d = (off', d')" using Cons.prems(1) dec by (simp add: Let_def)
  from Cons.IH [OF this] Cons.prems(2,3) have IH: "same_params ?d d'" "dt_token_ids d' = dt_token_ids ?d @ toks" "?off \<le> off'"
    "off' \<le> length (dt_output_text d')" "\<exists>chars. dt_output_text d' = dt_output_text ?d @ chars"
    by (simp_all split: if_splits)
  moreover have "off \<le> ?off" using Cons.prems(2) by simp
  ultimately show ?case using le_trans [of off ?off off'] by (auto simp: same_params_def)
qed

lemma stop_check_spec:
  assumes "held_back d" "off \<le> length (dt_output_text d)" "old \<le> off" "dt_last_offset d \<le> old - dt_stop_buffer_length d"
    "stop_check off d = (r, d')"
  shows "same_params d d' \<and> dt_token_ids d' = dt_token_ids d \<and> dt_last_offset d \<le> length (dt_output_text d') \<and>
    (\<exists>rest. dt_output_text d = dt_output_text d' @ rest) \<and> (r = None \<longrightarrow> d' = d) \<and> r \<noteq> Some []"
proof (cases "r = None")
  case True
  then have "d' = d" using assms(5) by (auto simp: stop_check_def split: if_splits option.splits prod.splits)
  moreover have "dt_last_offset d \<le> length (dt_output_text d)" using assms(1) unfolding held_back_def by linarith
  ultimately show ?thesis using True by (simp add: same_params_def)
next
  case False
  let ?text = "dt_output_text d"
  have ne: "\<forall>s \<in> set (dt_stop d). s \<noteq> []" using assms(1) by (simp add: held_back_def)
  from False assms(5) obtain s t where st: "check_stop_strings ?text (int (length ?text) - int off) (dt_stop d) (dt_include_stop d) = Some (s, t)"
    "r = Some s" "d' = (if t \<noteq> - 1 then d\<lparr>dt_output_text := take (nat t) ?text\<rparr> else d)"
    by (auto simp: stop_check_def split: if_splits option.splits prod.splits)
  from check_stop_strings_spec [OF ne assms(2), of "dt_include_stop d"] st(1) obtain i
    where i: "s \<in> set (dt_stop d)" "new_match off ?text s i" "t = stop_result ?text (dt_include_stop d) s i" by auto
  then have occ: "i + length s \<le> length ?text" "off < i + length s" by (auto simp: new_match_def occurs_at_def)
  have last: "dt_last_offset d \<le> length ?text" using assms(1) unfolding held_back_def by linarith
  have cut: "dt_last_offset d \<le> nat t" if "t \<noteq> - 1"
  proof (cases "dt_include_stop d")
    case True
    then have "nat t = i + length s" using i(3) that by (auto simp: stop_result_def split: if_splits)
    then show ?thesis using assms(3,4) occ(2) by linarith
  next
    case False
    then have "length s \<le> dt_stop_buffer_length d + 1" using assms(1) i(1) by (auto simp: held_back_def)
    moreover have "nat t = i" using i(3) False by (simp add: stop_result_def)
    ultimately show ?thesis using assms(3,4) occ(2) by linarith
  qed
  have "dt_last_offset d \<le> length (dt_output_text d')" using st(3) cut last by auto
  moreover have "\<exists>rest. ?text = dt_output_text d' @ rest"
  proof (cases "t = - 1")
    case False
    then have "dt_output_text d' = take (nat t) ?text" using st(3) by simp
    then show ?thesis using append_take_drop_id [of "nat t" ?text] by metis
  qed (use st(3) in simp)
  moreover have "r \<noteq> Some []" using ne i(1) st(2) by auto
  moreover have "same_params d d'" "dt_token_ids d' = dt_token_ids d" using st(3) by (simp_all add: same_params_def)
  ultimately show ?thesis using False by blast
qed

lemma update_spec:
  assumes ok: "held_back d" and dec: "dt_decoder d \<noteq> None" and up: "dt_update decode toks st d = (r, d')"
  shows "same_params d d' \<and> dt_token_ids d' = dt_token_ids d @ toks \<and> dt_last_offset d \<le> length (dt_output_text d') \<and>
    take (dt_last_offset d) (dt_output_text d') = take (dt_last_offset d) (dt_output_text d) \<and> (r = None \<longrightarrow> held_back d') \<and> r \<noteq> Some []"
proof -
  let ?last = "dt_last_offset d"
  have last: "?last \<le> length (dt_output_text d) - dt_stop_buffer_length d" using ok by (simp add: held_back_def)
  obtain s where s: "dt_decoder d = Some s" using dec by blast
  show ?thesis
  proof (cases "toks = []")
    case True
    then have "r = None" "d' = d" using up s by (simp_all add: dt_update_def)
    then show ?thesis using ok True last by (simp add: same_params_def)
  next
    case False
    define skip where "skip = (st \<and> \<not> dt_include_stop d)"
    obtain off d1 where run: "decode_tokens decode (if skip then butlast toks else toks) s (length (dt_output_text d)) d = (off, d1)" by fastforce
    let ?d2 = "if skip then d1\<lparr>dt_token_ids := dt_token_ids d1 @ [last toks]\<rparr> else d1"
    have chk: "stop_check off ?d2 = (r, d')" using up s False run by (simp add: dt_update_def skip_def [symmetric] Let_def)
    from decode_tokens_spec [OF run _ dec] obtain chars where d1: "same_params d d1" "dt_token_ids d1 = dt_token_ids d @ (if skip then butlast toks else toks)"
      "length (dt_output_text d) \<le> off" "off \<le> length (dt_output_text d1)" "dt_output_text d1 = dt_output_text d @ chars" by auto
    have d2: "same_params d ?d2" "dt_token_ids ?d2 = dt_token_ids d @ toks" "dt_output_text ?d2 = dt_output_text d @ chars"
      using d1(1,2,5) False by (simp_all add: same_params_def)
    have ok2: "held_back ?d2"
      using ok d2 unfolding held_back_def same_params_def by auto
    have "dt_last_offset ?d2 \<le> length (dt_output_text d) - dt_stop_buffer_length ?d2" "off \<le> length (dt_output_text ?d2)"
      using last d1(4) d2(1) by (auto simp: same_params_def)
    from stop_check_spec [OF ok2 this(2) d1(3) this(1) chk] d2 obtain rest
      where fin: "same_params ?d2 d'" "dt_token_ids d' = dt_token_ids d @ toks" "dt_last_offset ?d2 \<le> length (dt_output_text d')"
        "dt_output_text d @ chars = dt_output_text d' @ rest" "r = None \<longrightarrow> d' = ?d2" "r \<noteq> Some []" by metis
    have "dt_last_offset ?d2 = ?last" using d2(1) by (simp add: same_params_def)
    moreover have "take ?last (dt_output_text d') = take ?last (dt_output_text d' @ rest)" using fin(3) calculation by simp
    then have "take ?last (dt_output_text d') = take ?last (dt_output_text d)" using last fin(4) [symmetric] by simp
    moreover have "same_params d d'" using d2(1) fin(1) unfolding same_params_def by metis
    ultimately show ?thesis using fin ok2 by auto
  qed
qed

lemma next_text_spec:
  assumes "dt_decoder d \<noteq> None" "dt_last_offset d \<le> length (dt_output_text d)" "\<not> fin \<longrightarrow> held_back d"
    "get_next_output_text fin True d = (chars, d')"
  shows "dt_output_text d' = dt_output_text d \<and> dt_token_ids d' = dt_token_ids d \<and> dt_prompt_len d' = dt_prompt_len d \<and> dt_decoder d' = dt_decoder d \<and>
    dt_last_offset d \<le> dt_last_offset d' \<and> chars = take (dt_last_offset d' - dt_last_offset d) (drop (dt_last_offset d) (dt_output_text d)) \<and>
    (fin \<longrightarrow> dt_last_offset d' = length (dt_output_text d)) \<and> (\<not> fin \<longrightarrow> held_back d')"
  using assms by (auto simp: get_next_output_text_def Let_def held_back_def split: if_splits)

section \<open>Streaming a request\<close>

fun delta_text :: "any_output option \<Rightarrow> string" where
  "delta_text (Some (TextOutput out)) = concat (map (\<lambda>c. case c of None \<Rightarrow> [] | Some c \<Rightarrow> co_text c) (out_outputs out))"
| "delta_text _ = []"

fun delta_tokens :: "any_output option \<Rightarrow> int list" where
  "delta_tokens (Some (TextOutput out)) = concat (map (\<lambda>c. case c of None \<Rightarrow> [] | Some c \<Rightarrow> co_token_ids c) (out_outputs out))"
| "delta_tokens _ = []"

definition streaming :: "'d request_state \<Rightarrow> 'd detokenizer \<Rightarrow> bool" where
  "streaming rs d \<longleftrightarrow> rs_output_kind rs = DELTA \<and> rs_parent rs = None \<and> rs_detokenizer rs = Some d \<and> dt_decoder d \<noteq> None \<and>
     held_back d \<and> rs_sent_tokens_offset rs \<le> length (output_token_ids d)"

definition sent_tokens :: "'d request_state \<Rightarrow> 'd detokenizer \<Rightarrow> nat" where
  "sent_tokens rs d = (if rs_stream_interval rs \<le> 1 then length (output_token_ids d) else rs_sent_tokens_offset rs)"

text \<open>One step: the delta continues what was sent, in characters and in tokens; the last step sends the rest.\<close>

definition delta_step ::
  "'d request_state \<Rightarrow> 'd detokenizer \<Rightarrow> string \<Rightarrow> int list \<Rightarrow> bool \<Rightarrow> 'd request_state \<Rightarrow> 'd detokenizer \<Rightarrow> bool" where
  "delta_step rs d chars toks fin rs' d' \<longleftrightarrow> rs_detokenizer rs' = Some d' \<and>
     take (dt_last_offset d) (dt_output_text d') = take (dt_last_offset d) (dt_output_text d) \<and>
     dt_last_offset d \<le> dt_last_offset d' \<and> dt_last_offset d' \<le> length (dt_output_text d') \<and>
     chars = take (dt_last_offset d' - dt_last_offset d) (drop (dt_last_offset d) (dt_output_text d')) \<and>
     sent_tokens rs d \<le> sent_tokens rs' d' \<and> sent_tokens rs' d' \<le> length (output_token_ids d') \<and>
     take (sent_tokens rs d) (output_token_ids d') = take (sent_tokens rs d) (output_token_ids d) \<and>
     toks = take (sent_tokens rs' d' - sent_tokens rs d) (drop (sent_tokens rs d) (output_token_ids d')) \<and>
     (if fin then dt_last_offset d' = length (dt_output_text d') \<and> sent_tokens rs' d' = length (output_token_ids d')
      else streaming rs' d')"

lemma make_output_delta:
  assumes kind: "rs_output_kind rs = DELTA" "rs_parent rs = None" "rs_detokenizer rs = Some d" "dt_decoder d \<noteq> None"
    and last: "dt_last_offset d \<le> length (dt_output_text d)" "fin = None \<longrightarrow> held_back d"
    and sent: "rs_sent_tokens_offset rs \<le> length (output_token_ids d)"
  shows "\<exists>out rs' d'. make_request_output toks None fin cause [] rs = Inr (out, [], rs') \<and> rs_detokenizer rs' = Some d' \<and>
    dt_output_text d' = dt_output_text d \<and> output_token_ids d' = output_token_ids d \<and>
    dt_last_offset d \<le> dt_last_offset d' \<and> dt_last_offset d' \<le> length (dt_output_text d') \<and>
    delta_text out = take (dt_last_offset d' - dt_last_offset d) (drop (dt_last_offset d) (dt_output_text d')) \<and>
    rs_stream_interval rs' = rs_stream_interval rs \<and> rs_sent_tokens_offset rs \<le> rs_sent_tokens_offset rs' \<and>
    rs_sent_tokens_offset rs' \<le> length (output_token_ids d) \<and>
    delta_tokens out = (if rs_stream_interval rs \<le> 1 then toks
      else take (rs_sent_tokens_offset rs' - rs_sent_tokens_offset rs) (drop (rs_sent_tokens_offset rs) (output_token_ids d))) \<and>
    (if fin = None then streaming rs' d'
     else dt_last_offset d' = length (dt_output_text d') \<and> (1 < rs_stream_interval rs \<longrightarrow> rs_sent_tokens_offset rs' = length (output_token_ids d)))"
proof (cases "rs_stream_interval rs \<le> 1 \<or> fin \<noteq> None \<or> rs_sent_tokens_offset rs = 0 \<or>
    int (rs_stream_interval rs) \<le> int (length (output_token_ids d)) - int (rs_sent_tokens_offset rs)")
  case False
  then have "stream_gate toks (fin \<noteq> None) rs = Inr (None, rs)" using kind by (simp add: stream_gate_def Let_def)
  then have "make_request_output toks None fin cause [] rs = Inr (None, [], rs)" using kind by (simp add: make_request_output_def Let_def)
  moreover have "streaming rs d" using kind last sent False by (simp add: streaming_def)
  ultimately show ?thesis using kind last False sent by (intro exI [of _ None] exI [of _ rs] exI [of _ d]) simp
next
  case True
  let ?ids = "output_token_ids d"
  let ?rs = "if rs_stream_interval rs \<le> 1 then rs else rs\<lparr>rs_sent_tokens_offset := length ?ids\<rparr>"
  let ?toks = "if rs_stream_interval rs \<le> 1 then toks else drop (rs_sent_tokens_offset rs) ?ids"
  have gate: "stream_gate toks (fin \<noteq> None) rs = Inr (Some ?toks, ?rs)" using kind True by (auto simp: stream_gate_def Let_def)
  obtain chars d' where nxt: "get_next_output_text (fin \<noteq> None) True d = (chars, d')" by fastforce
  from next_text_spec [OF kind(4) last(1) _ this] last(2)
  have d': "dt_output_text d' = dt_output_text d" "dt_token_ids d' = dt_token_ids d" "dt_prompt_len d' = dt_prompt_len d" "dt_decoder d' = dt_decoder d"
    "dt_last_offset d \<le> dt_last_offset d'" "chars = take (dt_last_offset d' - dt_last_offset d) (drop (dt_last_offset d) (dt_output_text d))"
    "fin \<noteq> None \<longrightarrow> dt_last_offset d' = length (dt_output_text d)" "fin = None \<longrightarrow> held_back d'" by auto
  have ids: "output_token_ids d' = ?ids" using d'(2,3) by (simp add: output_token_ids_def)
  let ?out = "TextOutput \<lparr>out_request_id = rs_request_id rs, out_outputs = [Some \<lparr>co_index = rs_index rs, co_text = chars, co_token_ids = ?toks,
      co_finish_reason = fin, co_stop_reason = (if fin \<noteq> None then cause else None)\<rparr>], out_finished = (fin \<noteq> None),
      out_num_cached_tokens = rs_num_cached_tokens rs\<rparr>"
  let ?rs' = "?rs\<lparr>rs_detokenizer := Some d'\<rparr>"
  have "make_request_output toks None fin cause [] rs = Inr (Some ?out, [], ?rs')"
    using kind gate nxt by (simp add: make_request_output_def new_completion_output_def Let_def)
  moreover have "streaming ?rs' d'" if "fin = None"
    using kind d'(4,8) that sent ids by (simp add: streaming_def)
  moreover have "dt_last_offset d' \<le> length (dt_output_text d')"
    using d'(1,7,8) unfolding held_back_def by (cases "fin = None") (metis le_trans diff_le_self, simp)
  ultimately show ?thesis using d' ids sent by (intro exI [of _ "Some ?out"] exI [of _ ?rs'] exI [of _ d']) simp
qed

lemma process_delta:
  assumes st: "streaming rs d" and pool: "eo_pooling_output eco = None"
  shows "\<exists>out fin rs' d'. process_request decode eco [] rs = Inr (out, fin, [], rs') \<and> delta_step rs d (delta_text out) (delta_tokens out) (fin \<noteq> None) rs' d' \<and>
    (eo_finish_reason eco \<noteq> None \<longrightarrow> fin \<noteq> None)"
proof -
  let ?rs1 = "rs\<lparr>rs_num_cached_tokens := eo_num_cached_tokens eco, rs_is_prefilling := False\<rparr>" and ?toks = "eo_new_token_ids eco"
  obtain r d1 where up: "dt_update decode ?toks (eo_finish_reason eco = Some FR_STOP) d = (r, d1)" by fastforce
  have s: "rs_output_kind rs = DELTA" "rs_parent rs = None" "rs_detokenizer rs = Some d" "dt_decoder d \<noteq> None" "held_back d"
    "rs_sent_tokens_offset rs \<le> length (output_token_ids d)" using st by (simp_all add: streaming_def)
  note u = update_spec [OF s(5,4) up]
  have ids: "output_token_ids d1 = output_token_ids d @ ?toks"
    using u s(5) by (simp add: output_token_ids_def same_params_def held_back_def)
  define fin where "fin = (if r = None then eo_finish_reason eco else Some FR_STOP)"
  define cause where "cause = (case r of None \<Rightarrow> map_option StopToken (eo_stop_reason eco) | Some w \<Rightarrow> Some (StopString w))"
  let ?rs = "?rs1\<lparr>rs_detokenizer := Some d1\<rparr>"
  have "\<exists>out rs' d'. make_request_output ?toks None fin cause [] ?rs = Inr (out, [], rs') \<and> rs_detokenizer rs' = Some d' \<and>
    dt_output_text d' = dt_output_text d1 \<and> output_token_ids d' = output_token_ids d1 \<and>
    dt_last_offset d1 \<le> dt_last_offset d' \<and> dt_last_offset d' \<le> length (dt_output_text d') \<and>
    delta_text out = take (dt_last_offset d' - dt_last_offset d1) (drop (dt_last_offset d1) (dt_output_text d')) \<and>
    rs_stream_interval rs' = rs_stream_interval ?rs \<and> rs_sent_tokens_offset ?rs \<le> rs_sent_tokens_offset rs' \<and>
    rs_sent_tokens_offset rs' \<le> length (output_token_ids d1) \<and>
    delta_tokens out = (if rs_stream_interval ?rs \<le> 1 then ?toks
      else take (rs_sent_tokens_offset rs' - rs_sent_tokens_offset ?rs) (drop (rs_sent_tokens_offset ?rs) (output_token_ids d1))) \<and>
    (if fin = None then streaming rs' d'
     else dt_last_offset d' = length (dt_output_text d') \<and> (1 < rs_stream_interval ?rs \<longrightarrow> rs_sent_tokens_offset rs' = length (output_token_ids d1)))"
    by (rule make_output_delta) (use s u ids in \<open>auto simp: same_params_def fin_def split: if_splits\<close>)
  then obtain out rs' d' where out: "make_request_output ?toks None fin cause [] ?rs = Inr (out, [], rs')" "rs_detokenizer rs' = Some d'"
    "dt_output_text d' = dt_output_text d1" "output_token_ids d' = output_token_ids d1"
    "dt_last_offset d1 \<le> dt_last_offset d'" "dt_last_offset d' \<le> length (dt_output_text d')"
    "delta_text out = take (dt_last_offset d' - dt_last_offset d1) (drop (dt_last_offset d1) (dt_output_text d'))"
    "rs_stream_interval rs' = rs_stream_interval rs" "rs_sent_tokens_offset rs \<le> rs_sent_tokens_offset rs'"
    "rs_sent_tokens_offset rs' \<le> length (output_token_ids d1)"
    "delta_tokens out = (if rs_stream_interval rs \<le> 1 then ?toks
      else take (rs_sent_tokens_offset rs' - rs_sent_tokens_offset rs) (drop (rs_sent_tokens_offset rs) (output_token_ids d1)))"
    "if fin = None then streaming rs' d'
     else dt_last_offset d' = length (dt_output_text d') \<and> (1 < rs_stream_interval rs \<longrightarrow> rs_sent_tokens_offset rs' = length (output_token_ids d1))"
    by auto
  have "process_request decode eco [] rs = Inr (out, fin, [], rs')"
    using pool s(3) up out(1) u by (auto simp: process_request_def Let_def fin_def cause_def split: option.splits list.splits)
  moreover have "dt_last_offset d1 = dt_last_offset d" using u by (simp add: same_params_def)
  then have "delta_step rs d (delta_text out) (delta_tokens out) (fin \<noteq> None) rs' d'"
    using out(2-12) u ids s(6) by (simp add: delta_step_def sent_tokens_def)
  moreover have "eo_finish_reason eco \<noteq> None \<longrightarrow> fin \<noteq> None" by (simp add: fin_def)
  ultimately show ?thesis by blast
qed

text \<open>All engine core outputs of one request, up to the one that finishes it.\<close>

fun stream_run :: "(int \<Rightarrow> 'd \<Rightarrow> string \<times> 'd) \<Rightarrow> engine_core_output list \<Rightarrow> 'd request_state \<Rightarrow> (any_output option list \<times> bool \<times> 'd request_state) result" where
  "stream_run decode_next [] rs = Inr ([], False, rs)"
| "stream_run decode_next (eco # ecos) rs =
     rbind (process_request decode_next eco [] rs) (\<lambda>(out, finish_reason, _, rs).
       if finish_reason \<noteq> None then Inr ([out], True, rs)
       else rbind (stream_run decode_next ecos rs) (\<lambda>(outs, fin, rs). Inr (out # outs, fin, rs)))"

lemma take_take_drop:
  assumes "a \<le> b" "b \<le> c" "take b zs = take b ys"
  shows "take (b - a) (drop a ys) @ take (c - b) (drop b zs) = take (c - a) (drop a zs)"
proof -
  have "take (b - a) (drop a ys) = take (b - a) (drop a zs)" using assms(1,3) by (metis drop_take)
  moreover have "c - a = (b - a) + (c - b)" "b - a + a = b" using assms(1,2) by simp_all
  ultimately show ?thesis using take_add [of "b - a" "c - b" "drop a zs"] by simp
qed

lemma take_take_eq: "a \<le> b \<Longrightarrow> take b zs = take b ys \<Longrightarrow> take a ys = take a xs \<Longrightarrow> take a zs = take a xs"
  by (metis min.absorb1 take_take)

lemma delta_step_trans:
  assumes "delta_step rs d c1 t1 False rs1 d1" "delta_step rs1 d1 c2 t2 fin rs2 d2"
  shows "delta_step rs d (c1 @ c2) (t1 @ t2) fin rs2 d2"
proof -
  let ?l = dt_last_offset and ?t = dt_output_text and ?i = output_token_ids
  have 1: "take (?l d) (?t d1) = take (?l d) (?t d)" "?l d \<le> ?l d1" "c1 = take (?l d1 - ?l d) (drop (?l d) (?t d1))"
    "sent_tokens rs d \<le> sent_tokens rs1 d1" "take (sent_tokens rs d) (?i d1) = take (sent_tokens rs d) (?i d)"
    "t1 = take (sent_tokens rs1 d1 - sent_tokens rs d) (drop (sent_tokens rs d) (?i d1))"
    using assms(1) by (simp_all add: delta_step_def)
  have 2: "rs_detokenizer rs2 = Some d2" "take (?l d1) (?t d2) = take (?l d1) (?t d1)" "?l d1 \<le> ?l d2" "?l d2 \<le> length (?t d2)"
    "c2 = take (?l d2 - ?l d1) (drop (?l d1) (?t d2))"
    "sent_tokens rs1 d1 \<le> sent_tokens rs2 d2" "sent_tokens rs2 d2 \<le> length (?i d2)" "take (sent_tokens rs1 d1) (?i d2) = take (sent_tokens rs1 d1) (?i d1)"
    "t2 = take (sent_tokens rs2 d2 - sent_tokens rs1 d1) (drop (sent_tokens rs1 d1) (?i d2))"
    "if fin then ?l d2 = length (?t d2) \<and> sent_tokens rs2 d2 = length (?i d2) else streaming rs2 d2"
    using assms(2) by (simp_all add: delta_step_def)
  have "c1 @ c2 = take (?l d2 - ?l d) (drop (?l d) (?t d2))" unfolding 1(3) 2(5) by (rule take_take_drop [OF 1(2) 2(3,2)])
  moreover have "t1 @ t2 = take (sent_tokens rs2 d2 - sent_tokens rs d) (drop (sent_tokens rs d) (?i d2))"
    unfolding 1(6) 2(9) by (rule take_take_drop [OF 1(4) 2(6,8)])
  moreover note take_take_eq [OF 1(2) 2(2) 1(1)] take_take_eq [OF 1(4) 2(8) 1(5)]
  ultimately show ?thesis unfolding delta_step_def using 2(1,4,7,10) le_trans [OF 1(2) 2(3)] le_trans [OF 1(4) 2(6)] by blast
qed

lemma stream_run_delta:
  assumes "streaming rs d" "list_all (\<lambda>e. eo_pooling_output e = None) ecos"
  shows "\<exists>outs fin rs' d'. stream_run decode ecos rs = Inr (outs, fin, rs') \<and>
    delta_step rs d (concat (map delta_text outs)) (concat (map delta_tokens outs)) fin rs' d' \<and>
    (list_ex (\<lambda>e. eo_finish_reason e \<noteq> None) ecos \<longrightarrow> fin)"
  using assms
proof (induction ecos arbitrary: rs d)
  case Nil
  have "dt_last_offset d \<le> length (dt_output_text d)" using Nil(1) unfolding streaming_def held_back_def by linarith
  moreover have "sent_tokens rs d \<le> length (output_token_ids d)" using Nil(1) by (simp add: streaming_def sent_tokens_def)
  ultimately have "delta_step rs d [] [] False rs d" using Nil(1) by (simp add: delta_step_def streaming_def)
  then show ?case by auto
next
  case (Cons e ecos)
  obtain out fin rs1 d1 where e: "process_request decode e [] rs = Inr (out, fin, [], rs1)"
    "delta_step rs d (delta_text out) (delta_tokens out) (fin \<noteq> None) rs1 d1" "eo_finish_reason e \<noteq> None \<longrightarrow> fin \<noteq> None"
    using process_delta [OF Cons.prems(1), of e decode] Cons.prems(2) by auto
  show ?case
  proof (cases "fin = None")
    case False
    then have "stream_run decode (e # ecos) rs = Inr ([out], True, rs1)" using e(1) by simp
    then show ?thesis using e(2) False by (intro exI [of _ "[out]"] exI [of _ True] exI [of _ rs1] exI [of _ d1]) simp
  next
    case True
    then have "streaming rs1 d1" using e(2) by (simp add: delta_step_def)
    from Cons.IH [OF this] Cons.prems(2) obtain outs fin2 rs2 d2 where rest: "stream_run decode ecos rs1 = Inr (outs, fin2, rs2)"
      "delta_step rs1 d1 (concat (map delta_text outs)) (concat (map delta_tokens outs)) fin2 rs2 d2"
      "list_ex (\<lambda>e. eo_finish_reason e \<noteq> None) ecos \<longrightarrow> fin2" by auto
    have "stream_run decode (e # ecos) rs = Inr (out # outs, fin2, rs2)" using e(1) True rest(1) by simp
    moreover have "delta_step rs d (concat (map delta_text (out # outs))) (concat (map delta_tokens (out # outs))) fin2 rs2 d2"
      using delta_step_trans [of rs d _ _ rs1 d1] e(2) rest(2) True by simp
    moreover have "list_ex (\<lambda>e. eo_finish_reason e \<noteq> None) (e # ecos) \<longrightarrow> fin2" using rest(3) e(3) True by auto
    ultimately show ?thesis by blast
  qed
qed

text \<open>
  C39: What a client receives when it streams a request is the text of the request. For any decoder,
  stop strings and stream interval, the deltas sent up to the final one add up to the final text
  and to all output tokens, and before that to a prefix of them: no character is sent that a stop
  string found later takes back. The run never raises, and it finishes as soon as the engine core
  reports an end.
\<close>

theorem deltas_are_text:
  assumes "rs_output_kind rs = DELTA" "rs_parent rs = None" "rs_sent_tokens_offset rs = 0"
    "rs_detokenizer rs = Some (detokenizer_init stop min_tokens inc prompt (Some s))"
    "list_all (\<lambda>w. w \<noteq> []) stop" "list_all (\<lambda>e. eo_pooling_output e = None) ecos"
  shows "\<exists>outs fin rs' d'. stream_run decode ecos rs = Inr (outs, fin, rs') \<and> rs_detokenizer rs' = Some d' \<and>
    (\<exists>n k. concat (map delta_text outs) = take n (dt_output_text d') \<and> concat (map delta_tokens outs) = take k (output_token_ids d')) \<and>
    (fin \<longrightarrow> concat (map delta_text outs) = dt_output_text d' \<and> concat (map delta_tokens outs) = output_token_ids d') \<and>
    (list_ex (\<lambda>e. eo_finish_reason e \<noteq> None) ecos \<longrightarrow> fin)"
proof -
  let ?d = "detokenizer_init stop min_tokens inc prompt (Some s)"
  have "length w \<le> dt_stop_buffer_length ?d + 1" if "w \<in> set stop" "\<not> inc" for w
  proof -
    have "length w \<le> Max (set (map length stop))" "stop \<noteq> []" using that by auto
    then show ?thesis using that(2) by (simp add: detokenizer_init_def)
  qed
  then have "held_back ?d" using assms(5) unfolding held_back_def list_all_iff by (simp add: detokenizer_init_def)
  then have "streaming rs ?d" using assms(1-4) by (simp add: streaming_def detokenizer_init_def)
  from stream_run_delta [OF this assms(6), of decode] obtain outs fin rs' d' where r: "stream_run decode ecos rs = Inr (outs, fin, rs')"
    "delta_step rs ?d (concat (map delta_text outs)) (concat (map delta_tokens outs)) fin rs' d'"
    "list_ex (\<lambda>e. eo_finish_reason e \<noteq> None) ecos \<longrightarrow> fin" by blast
  have zero: "dt_last_offset ?d = 0" "sent_tokens rs ?d = 0" using assms(3) by (simp_all add: detokenizer_init_def sent_tokens_def output_token_ids_def)
  have "concat (map delta_text outs) = take (dt_last_offset d') (dt_output_text d')"
    "concat (map delta_tokens outs) = take (sent_tokens rs' d') (output_token_ids d')" "rs_detokenizer rs' = Some d'"
    "fin \<longrightarrow> dt_last_offset d' = length (dt_output_text d') \<and> sent_tokens rs' d' = length (output_token_ids d')"
    using r(2) unfolding delta_step_def zero by (simp_all split: if_splits)
  with r(1,3) show ?thesis by (intro exI [of _ outs] exI [of _ fin] exI [of _ rs'] exI [of _ d']) auto
qed

text \<open>A request with the stop string \<^verbatim>\<open>cd\<close>, decoded letter by letter: the \<^verbatim>\<open>c\<close> is held back and never sent.\<close>

definition letters :: "int \<Rightarrow> unit \<Rightarrow> string \<times> unit" where
  "letters t u = (take 1 (drop (nat t) ''abcdef''), u)"

definition demo_stream :: "unit request_state" where
  "demo_stream = \<lparr>rs_request_id = ''r'', rs_parent = None, rs_index = 0, rs_output_kind = DELTA, rs_prompt_token_ids = Some [9],
     rs_detokenizer = Some (detokenizer_init [''cd''] 0 False [9] (Some ())), rs_queue = None, rs_stream_interval = 1,
     rs_sent_tokens_offset = 0, rs_num_cached_tokens = 0, rs_is_prefilling = True\<rparr>"

definition demo_core_outputs :: "engine_core_output list" where
  "demo_core_outputs = map (\<lambda>toks. \<lparr>eo_request_id = ''r'', eo_new_token_ids = toks, eo_finish_reason = None, eo_stop_reason = None,
     eo_pooling_output = None, eo_events = None, eo_num_cached_tokens = 0, eo_num_nans_in_logits = 0\<rparr>) [[0, 1], [2], [3], [4]]"

lemma demo_stream_value:
  "map_sum id (\<lambda>(outs, fin, rs). (map delta_text outs, map delta_tokens outs, fin, map_option dt_output_text (rs_detokenizer rs)))
     (stream_run letters demo_core_outputs demo_stream) = Inr ([''a'', ''b'', []], [[0, 1], [2], [3]], True, Some ''ab'')"
  by code_simp

theorem deltas_are_text_witness:
  "\<exists>outs rs' d'. stream_run letters demo_core_outputs demo_stream = Inr (outs, True, rs') \<and> rs_detokenizer rs' = Some d' \<and>
     map delta_text outs = [''a'', ''b'', []] \<and> concat (map delta_text outs) = dt_output_text d' \<and>
     concat (map delta_tokens outs) = output_token_ids d'"
proof -
  from demo_stream_value obtain outs rs' where v: "stream_run letters demo_core_outputs demo_stream = Inr (outs, True, rs')"
    "map delta_text outs = [''a'', ''b'', []]" by (auto simp: map_sum_Inr_iff)
  have "list_all (\<lambda>w. w \<noteq> []) [''cd'']" "list_all (\<lambda>e. eo_pooling_output e = None) demo_core_outputs" by (simp_all add: demo_core_outputs_def)
  then obtain outs2 fin rs2 d' where t: "stream_run letters demo_core_outputs demo_stream = Inr (outs2, fin, rs2)" "rs_detokenizer rs2 = Some d'"
    "fin \<longrightarrow> concat (map delta_text outs2) = dt_output_text d' \<and> concat (map delta_tokens outs2) = output_token_ids d'"
    using deltas_are_text [of demo_stream "[''cd'']" 0 False "[9]" "()" demo_core_outputs letters] by (auto simp: demo_stream_def)
  from v(1) t(1) have eq: "outs2 = outs" "fin = True" "rs2 = rs'" by simp_all
  show ?thesis by (intro exI [of _ outs] exI [of _ rs'] exI [of _ d']) (use v t(2,3) in \<open>simp add: eq\<close>)
qed

end
