(* ===== verification/Engine.thy ===== *)
theory Engine
  imports Engine_Agreement Scheduler_Properties Output_Text
begin

text \<open>
  The engine as a state machine: in every state that its calls reach, the output processor has the requests of the
  scheduler and, beside them, only requests that the engine core has refused and nobody has aborted.
\<close>

section \<open>States of the engine\<close>





lemma op_add_ids:
  "op_add_request rs parent op = Inr op' \<Longrightarrow> rs_request_id rs \<notin> op_ids op \<and> op_ids op' = insert (rs_request_id rs) (op_ids op)"
proof -
  assume run: "op_add_request rs parent op = Inr op'"
  then have "map_of (op_request_states op) (rs_request_id rs) = None" by (auto simp: op_add_request_def split: if_split_asm)
  moreover from this run have "op_request_states op' = AList.update (rs_request_id rs) rs (op_request_states op)"
    by (cases parent) (auto simp: op_add_request_def Let_def)
  ultimately show ?thesis by (simp add: keys_update map_of_eq_None_iff)
qed

text \<open>The engine core refuses pooling requests for a task that the executor does not support.\<close>

definition refuses :: "(pooling_params_t \<Rightarrow> bool) \<Rightarrow> request \<Rightarrow> bool" where
  "refuses supported r \<longleftrightarrow> (\<exists>p. pooling_params r = Some p \<and> \<not> supported p)"

lemma core_add_cases:
  "core_add_request supported r ec =
     (if refuses supported r then Inl ValueError else Inr (ec\<lparr>ec_scheduler := sched_add_request r (ec_scheduler ec)\<rparr>))"
  by (auto simp: core_add_request_def refuses_def split: option.splits)









section \<open>The engine as a state machine\<close>




text \<open>
  What a refused request does: the call raises, the scheduler does not know the request, and the engine reports unfinished
  requests from then on, until somebody aborts it.
\<close>

lemma refused_request_stays:
  assumes "refuses supported (fst (mk params))" and "cp_n params = 1" and "rid \<notin> op_ids (le_output_processor e)"
  obtains e' where "engine_add_request supported rid params mk e = (Inl ValueError, e')" and "le_core e' = le_core e"
    and "rid \<in> op_ids (le_output_processor e')" and "engine_has_unfinished_requests e'"
proof -
  obtain r rs where m: "mk params = (r, rs)" by (metis surj_pair)
  let ?rs = "rs\<lparr>rs_index := 0, rs_request_id := rid, rs_parent := None\<rparr>"
  have "map_of (op_request_states (le_output_processor e)) rid = None" using assms(3) by (simp add: map_of_eq_None_iff)
  then obtain op where op: "op_add_request ?rs None (le_output_processor e) = Inr op" by (auto simp: op_add_request_def Let_def)
  let ?e = "e\<lparr>le_output_processor := op\<rparr>"
  have "engine_add_request supported rid params mk e = (Inl ValueError, ?e)"
    using assms(1,2) m op by (simp add: engine_add_request_def engine_add_one_def core_add_cases refuses_def)
  moreover have in_op: "rid \<in> op_ids op" using op_add_ids [OF op] by simp
  moreover have "engine_has_unfinished_requests ?e" using in_op by (auto simp: engine_has_unfinished_requests_def op_has_unfinished_requests_def)
  ultimately show ?thesis using that by simp
qed









end
