(* ===== verification/Spec2Isabelle.thy ===== *)
theory Spec2Isabelle
  imports Scheduler_Properties Offload_ARC KV_Config_Properties Ngram_Proposer Attention_Split Cache_Slots Parallel_Sampling Engine
begin

text \<open>
  A verification development for the core of vLLM's engine, version 1 (\<^verbatim>\<open>src/vllm/vllm/v1\<close>; file
  names below are relative to \<^verbatim>\<open>src/vllm/vllm\<close>): the paged KV cache with prefix caching, the
  scheduler that fills it, the tables and batches of the workers that use it, and the way of the
  generated tokens back to the client.

  \<^bold>\<open>How the program works.\<close>
  A request is a list of tokens with the chained hashes of its full blocks. In every step the
  scheduler takes running and waiting requests while its token budget lasts, asks the KV cache
  manager for blocks for their tokens, and preempts running requests when there are none. The
  manager finds blocks of earlier requests with the same prefix through a hash index, takes new ones
  from a queue of free blocks in the order in which they became free, and counts the references of
  each block. The workers hold the block numbers of the requests in block tables, from which the
  memory slots of the tokens follow, and the requests of a step in a batch of columns which they
  reorder for the attention kernels. The tokens that the model generates go back to the scheduler,
  which ends requests and frees their blocks, and on to the output processor, which makes text of
  them, looks for stop strings and collects the outputs for the clients. The engine runs these steps.

  \<^bold>\<open>Conventions\<close> (\<open>Prelude\<close>).
  An operation that can raise returns \<open>'a result\<close>, with the exception as a value; \<open>rbind\<close> and
  \<open>rfold\<close> sequence such operations, and state is passed explicitly. Dictionaries whose order matters
  are association lists with distinct keys (\<open>odict\<close>), objects that are shared are named by references
  and live in stores. Python's integers are \<open>int\<close>, or \<open>nat\<close> where the code keeps them
  non-negative; 32 bit counters and buffers are words or wrap as such (\<open>KV_Offload\<close>, \<open>Block_Table\<close>).
  \<open>Diverges\<close> is no exception: it stands for a loop that does not end.

  \<^bold>\<open>Blocks.\<close>
  \<^item> \<open>Free_Queue\<close> models \<^verbatim>\<open>KVCacheBlock\<close> and \<^verbatim>\<open>FreeKVCacheBlockQueue\<close> of
    \<^verbatim>\<open>v1/core/kv_cache_utils.py\<close> as a linked list in a store. The locale \<open>block_queue\<close> is its contract,
    a sequence of blocks without repetition, interpreted on the linked list.
  \<^item> \<open>Block_Hash\<close> models the hashes of the same file, with the hash function as a parameter: equal
    hashes imply equal prefixes if it is injective, and hashing as tokens arrive is hashing at the end.
  \<^item> \<open>Block_Map\<close> (\<^verbatim>\<open>BlockHashToBlockMap\<close>) and \<open>Block_Pool\<close> (\<^verbatim>\<open>BlockPool\<close>) model
    \<^verbatim>\<open>v1/core/block_pool.py\<close>; the locale \<open>block_index\<close> is the contract of the map. The relation
    \<open>pool_reachable\<close> has the operations as rules, and its states satisfy the invariant of the pool.

  \<^bold>\<open>The KV cache.\<close>
  \<^item> \<open>KV_Spec\<close> models \<^verbatim>\<open>v1/kv_cache_interface.py\<close>, and \<open>Single_Type\<close> the managers of one kind of layer
    (\<^verbatim>\<open>v1/core/single_type_kv_cache_manager.py\<close>). The locale \<open>cache_hit_finder\<close> says what a search for
    cached prefixes promises; it is interpreted for full, sliding window, chunked and Mamba layers, and in
    \<open>Cache_Hits\<close> for the search of any layer, which the hybrid search relies on.
  \<^item> \<open>Block_Ownership\<close> relates reference counts to block tables. \<open>KV_Coordinator\<close> and \<open>KV_Manager\<close>
    model \<^verbatim>\<open>kv_cache_coordinator.py\<close> and \<^verbatim>\<open>kv_cache_manager.py\<close>.
  \<^item> \<open>KV_Lifecycle\<close> has the states that calls reach which keep the contract of \<^verbatim>\<open>allocate_slots\<close> (\<open>km_reachable\<close>,
    \<open>alloc_args\<close>) and shows that reference counts are exact, that such a call of \<^verbatim>\<open>allocate_slots\<close> returns and gives exclusive
    blocks, and that what \<^verbatim>\<open>get_computed_blocks\<close> returns is the request's own prefix. The contract is the caller's promise; that the
    scheduler keeps it is not shown, and a decoding step of an encoder-decoder model can break it, which the last property of the theory shows.
  \<^item> \<open>KV_Config\<close>, \<open>KV_Config_Memory\<close>, \<open>KV_Config_Groups\<close>, \<open>KV_Config_Workers\<close> and
    \<open>KV_Config_Properties\<close> model how the cache is configured from the layers and the memory of the
    workers (second half of \<^verbatim>\<open>kv_cache_utils.py\<close>).
  \<^item> \<open>KV_Offload\<close>, \<open>Offload_LRU\<close> and \<open>Offload_ARC\<close> model the two managers of offloaded blocks
    (\<^verbatim>\<open>v1/kv_offload\<close>) over the locale \<open>offload_backend\<close>, interpreted on the CPU backend.

  \<^bold>\<open>The scheduler.\<close>
  \<^item> \<open>Request_State\<close> models \<^verbatim>\<open>v1/request.py\<close>; \<open>Request_Queue\<close> models \<^verbatim>\<open>v1/core/sched/request_queue.py\<close>
    over Python's \<^verbatim>\<open>heapq\<close>, with the locale \<open>queue_policy\<close> for both policies; \<open>Encoder_Cache\<close>
    models \<^verbatim>\<open>v1/core/encoder_cache_manager.py\<close>.
  \<^item> \<open>Scheduler\<close> models \<^verbatim>\<open>v1/core/sched/scheduler.py\<close>, \<^verbatim>\<open>async_scheduler.py\<close> and \<^verbatim>\<open>output.py\<close>.
    \<open>Scheduler_Queues\<close> and \<open>Schedule_Loops\<close> carry the partition of the requests through the loops,
    \<open>Scheduler_Reachable\<close> states the operations as a relation labelled with the calls,
    \<open>Scheduler_Termination\<close> shows that the fuel suffices, \<open>Scheduler_Output\<close> that the outputs are well
    formed and that tokens are kept up to the first that stops a request. \<open>Scheduler_Lifecycle\<close> shows that an update reports exactly the
    requests it lets go, and that every call is the step of a labelled life cycle with its label; \<open>Scheduler_Properties\<close> has
    the properties, with a scheduler that the kernel evaluates.

  \<^bold>\<open>The workers.\<close>
  \<^item> \<open>Block_Table\<close> models \<^verbatim>\<open>v1/worker/block_table.py\<close> with hybrid blocks and context parallelism;
    \<open>Cache_Slots\<close> joins it to the KV cache manager, and the property below says that a slot in a private
    block belongs to one token.
  \<^item> \<open>Input_Batch\<close> models \<^verbatim>\<open>v1/worker/gpu_input_batch.py\<close>; \<open>Input_Batch_Map\<close> and \<open>Input_Batch_Run\<close> show
    that its columns implement a map from requests to rows, except for three columns that the code does not keep with their request. \<open>Batch_Reorder\<close> models the reordering in
    \<^verbatim>\<open>v1/attention/backends/utils.py\<close> over the locale \<open>swap_store\<close>, interpreted on the batch;
    \<open>Attention_Split\<close> models the splits and the lengths on context parallel ranks.
  \<^item> \<open>Ngram_Proposer\<close> models \<^verbatim>\<open>v1/spec_decode/ngram_proposer.py\<close> against a direct specification.

  \<^bold>\<open>Outputs.\<close>
  \<^item> \<open>Output_Processor\<close> models \<^verbatim>\<open>detokenizer.py\<close>, \<^verbatim>\<open>parallel_sampling.py\<close> and \<^verbatim>\<open>output_processor.py\<close> of
    \<^verbatim>\<open>v1/engine\<close>. \<open>Output_Text\<close> shows that the deltas of a stream are its text; \<open>Parallel_Sampling\<close> shows that the
    samples of a request arrive once each, together if only final outputs are wanted.

  \<^bold>\<open>The engine.\<close>
  \<^item> \<open>Engine_Core\<close> models \<^verbatim>\<open>EngineCore\<close> of \<^verbatim>\<open>v1/engine/core.py\<close> with both kinds of step, the in-process client of
    \<^verbatim>\<open>core_client.py\<close> and \<^verbatim>\<open>llm_engine.py\<close>; what the model executor returns is an argument of a step.
    A call that adds a request and raises keeps what it has done. \<open>Engine_Agreement\<close> follows a request that ends through the
    scheduler and through the output processor; \<open>Engine\<close> states the calls of an engine as a relation, with the ids of the requests that the engine
    core has refused, and shows that both sides agree on all other requests in every reachable state.

  \<^bold>\<open>Fuel.\<close>
  Loops with a measure are total functions. Fuel is used where the end depends on an invariant. The loops of the
  scheduler carry the length of the list they consume, and \<open>schedule_terminates\<close> shows that it is
  never used up; \<open>condense_loop\<close>, \<open>swap_cycle\<close>, \<open>chunk_loop\<close> and \<open>ngram_loop\<close> carry one more than the number
  of removed indexes, of rows, of requests and twice the number of tokens, and the properties state that they return.
  \<open>get_all_loop\<close> of the free queue is a partial function that is shown to return on every well formed queue.
  The fuel of \<open>abort_requests\<close> is one more than the number of parents, which bounds the depth of parents and children.

  \<^bold>\<open>Not modelled.\<close>
  KV and encoder cache connectors (the branches of the scheduler with a connector, and
  \<^verbatim>\<open>distributed/kv_transfer\<close>): they depend on third-party transports. Grammars of structured output,
  tokenizers and hash functions are third-party code and appear as parameters. Models, kernels, samplers,
  attention backends and model runners compute floating point tensors on devices. The processes that
  run the engine core behind sockets, their clients, data parallel engines, executors and API servers are message formats and
  communication around the modelled parts. Log
  probabilities, metrics, tracing and time stamps are values that nothing modelled here depends on.
\<close>

section \<open>Slots of private blocks\<close>

text \<open>
  C3: From the scheduler's cache to a worker's memory. In every reachable KV cache manager, let a
  worker hold the tables of the requests of one cache group in its block table, whatever its kernel
  block size. The slot of a token in a block that has one reference, as every block that
  \<^verbatim>\<open>allocate_slots\<close> hands out, is the slot of no other token of any request of the group: writing the
  token's keys and values overwrites nothing else.
\<close>

theorem private_slots:
  assumes "km_reachable k" "m \<in> set (km_managers k)" "worker_table k m rids t" "has_slot m rids r p" "has_slot m rids r' p'"
    "0 < block_of_token m rids r p" "refc (km_pool k) (block_of_token m rids r p) = 1" "slot_of t (r, p) = slot_of t (r', p')"
  shows "r = r' \<and> p = p'"
proof -
  let ?bs = "st_block_size m" and ?B = "block_of_token m rids"
  note s = table_slot [OF assms(1-4)] and s' = table_slot [OF assms(1-3,5)]
  have pos: "0 < ?bs" by (rule manager_facts(2) [OF assms(1,2)])
  from s(1) s'(1) assms(8) have "?B r p * ?bs + p mod ?bs = ?B r' p' * ?bs + p' mod ?bs" by (simp flip: of_nat_mult of_nat_add)
  then have eq: "?B r p = ?B r' p'" "p mod ?bs = p' mod ?bs"
    using pos by (metis add.commute div_mult_self3 mod_div_trivial add_0 less_irrefl, metis mod_mod_trivial mod_mult_self3)
  have "r < length rids" "r' < length rids" "distinct rids" using assms(3-5) by (simp_all add: worker_table_def has_slot_def)
  with private_block_once [OF assms(1,2), of rids r r' "p div ?bs" "p' div ?bs"] s(2) s'(2) eq(1) assms(6,7)
  have "r = r'" "p div ?bs = p' div ?bs" by (auto simp: block_of_token_def)
  with eq(2) show ?thesis by (metis div_mult_mod_eq)
qed

text \<open>A manager with four blocks of two tokens gives a request of three tokens its blocks; the worker has kernel blocks of one token.\<close>

definition small_alloc :: "kv_cache_manager result" where
  "small_alloc = rbind (kv_cache_manager_init small_config 8 2 True False False False False 1 1) (\<lambda>k.
     rbind (allocate_slots ((text_request ''a'' [1, 2, 3])\<lparr>block_hashes := [[7]]\<rparr>) 3 0 (Some EmptyKVCacheBlocks) 0 False 0 k) (\<lambda>(res, k).
       Inr k))"

lemma small_alloc_value:
  "map_sum id (\<lambda>k. (map (\<lambda>m. (st_block_size m, table m ''a'')) (km_managers k), num_gpu_blocks (km_pool k),
     map (refc (km_pool k)) [1, 2])) small_alloc = Inr ([(2, [1, 2])], 4, [1, 1])"
  by code_simp

definition small_worker :: "block_table result" where
  "small_worker = rbind (block_table_init 2 2 4 8 1 1 demo_cp) (add_row [1, 2] 0)"

theorem private_slots_witness:
  "\<exists>k m t. small_alloc = Inr k \<and> m \<in> set (km_managers k) \<and> table m ''a'' = [1, 2] \<and> small_worker = Inr t \<and>
     worker_table k m [''a''] t \<and> slot_of t (0, 1) \<noteq> slot_of t (0, 2)"
proof -
  obtain k0 where k0: "kv_cache_manager_init small_config 8 2 True False False False False 1 1 = Inr k0" "km_reachable k0"
    "km_managers k0 = [\<lparr>st_spec = FullAttentionSpec (attn 2) None None, st_block_size = 2, req_to_blocks = [],
       num_cached_block = [], kv_cache_group_id = 0\<rparr>]"
    "pool_cfg (km_pool k0) = (4, True, 2, 0, False, False)" "km_max_model_len k0 = 8" "num_kv_cache_groups k0 = 1" by (rule small_manager)
  from small_alloc_value obtain k where k: "small_alloc = Inr k" "map (\<lambda>m. (st_block_size m, table m ''a'')) (km_managers k) = [(2, [1, 2])]"
    "num_gpu_blocks (km_pool k) = 4" "refc (km_pool k) 1 = 1" "refc (km_pool k) 2 = 1"
    by (auto simp: map_sum_Inr_iff)
  from k(1) k0(1) obtain res where "allocate_slots ((text_request ''a'' [1, 2, 3])\<lparr>block_hashes := [[7]]\<rparr>) 3 0 (Some EmptyKVCacheBlocks) 0 False 0 k0 = Inr (res, k)"
    by (auto simp: small_alloc_def rbind_eq_Inr_iff)
  then have reach: "km_reachable k" by (rule kr_allocate [OF k0(2) small_args [OF k0(3-6)]])
  from k(2) obtain m where m: "m \<in> set (km_managers k)" "st_block_size m = 2" "table m ''a'' = [1, 2]" by auto
  obtain t0 where t0: "block_table_init 2 2 4 8 1 1 demo_cp = Inr t0" by (simp add: block_table_init_def)
  then have f0: "num_rows t0 = 2" "use_hybrid_blocks t0" "blocks_per_kv_block t0 = 2" "max_num_blocks_per_req t0 = 8" "bt_block_size t0 = 1"
    "pcp_world_size t0 * dcp_world_size t0 = 1"
    by (auto simp: block_table_init_def num_rows_def demo_cp_def)
  note w0 = block_table_init_wf [OF t0]
  have ids: "kernel_ids t0 [1, 2] = [2, 3, 4, 5]" using f0 by (simp add: kernel_ids_def map_to_kernel_blocks_def upt_rec)
  from add_row_rows [of t0 0 "[1, 2]"] w0 f0 ids obtain t where t: "add_row [1, 2] 0 t0 = Inr t" "table_wf t" "same_layout t0 t"
    "table_abs t = [[2, 3, 4, 5], []]" by (auto simp: int32_ids_def numeral_2_eq_2)
  have lay: "num_rows t = 2" "use_hybrid_blocks t" "blocks_per_kv_block t = 2" "bt_block_size t = 1" "kernel_ids t [1, 2] = [2, 3, 4, 5]"
    using t(3) f0 ids by (simp_all add: same_layout_def kernel_ids_def)
  have "pcp_world_size t * dcp_world_size t = 1" using t(1) f0(6) by (auto simp: add_row_def append_row_def Let_def rbind_eq_Inr_iff split: if_splits)
  moreover have "row_blocks t 0 = kernel_ids t (map int [1, 2])" using t(4) lay by (simp add: table_abs_def upt_rec)
  ultimately have wt: "worker_table k m [''a''] t"
    using t(2) lay m k(3) by (simp add: worker_table_def hybrid_wf_def manager_block_size_def)
  have "slot_of t (0, 1) \<noteq> slot_of t (0, 2)"
    using private_slots [OF reach m(1) wt, of 0 1 0 2] m k(4) by (auto simp: has_slot_def block_of_token_def)
  with k(1) m(1,3) wt show ?thesis using t0 t(1) by (auto simp: small_worker_def)
qed

end
